(* ===== verification/Prelude.thy ===== *)
theory Prelude
  imports Main "HOL-Library.Word"
begin

text \<open>
  Shared vocabulary of the development: the machine types of the C++ sources (\<open>char\<close> as an
  8-bit word that is compared as a signed value, \<open>std::string\<close> as a list of bytes), the results
  of operations that may throw, the parts of the C and C++ standard libraries the sources use
  (\<open>substr\<close>, \<open>find\<close>, \<open>atoi\<close>, the decimal conversions of \<open>printf\<close>), and generic
  lemmas on lists, words and decimal numerals that the component theories build on.
\<close>

unbundle bit_operations_syntax

section \<open>Types and lemma collections\<close>

type_synonym byte = "8 word"
type_synonym cstr = "byte list"
type_synonym u32 = "32 word"

text \<open>
  What an operation that does not return normally does: \<open>std::out_of_range\<close> is thrown, or the
  source has undefined behaviour (an index outside a vector, a null dereference, a buffer
  overrun), which the model reports instead of giving it a value.
\<close>

datatype cpp_error = Out_of_range | Undefined_behaviour

type_synonym 'a result = "cpp_error + 'a"

fun bind_result :: "'e + 'a \<Rightarrow> ('a \<Rightarrow> 'e + 'b) \<Rightarrow> 'e + 'b" where
  "bind_result (Inl e) f = Inl e"
| "bind_result (Inr x) f = f x"

lemma bind_result_Inr: "bind_result r f = Inr y \<Longrightarrow> \<exists>x. r = Inr x \<and> f x = Inr y"
  by (cases r) auto

named_theorems codec_simps \<open>equations that evaluate the encoders and decoders\<close>
named_theorems hexdigit \<open>facts on hexadecimal digits and nibbles\<close>

definition bytes :: "string \<Rightarrow> cstr" where
  "bytes s = map of_char s"

lemma length_bytes [simp]: "length (bytes s) = length s"
  by (simp add: bytes_def)

lemma bytes_simps [simp]: "bytes [] = []" "bytes (c # s) = of_char c # bytes s"
  "bytes (s @ t) = bytes s @ bytes t"
  by (simp_all add: bytes_def)

text \<open>\<open>char\<close> is signed: \<open>c >= d\<close> on two characters.\<close>

definition char_ge :: "byte \<Rightarrow> byte \<Rightarrow> bool" where
  "char_ge c d \<longleftrightarrow> sint d \<le> sint c"

lemma nibble_cases: "(n :: byte) < 16 \<Longrightarrow> n \<in> {0,1,2,3,4,5,6,7,8,9,10,11,12,13,14,15}"
proof -
  assume "n < 16"
  then have "unat n < 16" by (simp add: word_less_nat_alt)
  then have "unat n \<in> set [0..<16]" by simp
  then have "of_nat (unat n) \<in> (of_nat ` set [0..<16] :: byte set)" by (rule imageI)
  then show ?thesis by (simp add: upt_rec numeral_eq_Suc flip: numeral_eq_Suc)
qed

lemma byte_eqI:
  fixes x y :: byte
  assumes "\<forall>n\<in>{0,1,2,3,4,5,6,7}. bit x n = bit y n"
  shows "x = y"
proof (rule bit_word_eqI)
  fix n assume "n < LENGTH(8)"
  then have "n \<in> {0,1,2,3,4,5,6,7}" by auto
  with assms show "bit x n = bit y n" by blast
qed

section \<open>Lists\<close>

text \<open>The pieces of a list put one after another with a separator between two of them.\<close>

fun join :: "'a list \<Rightarrow> 'a list list \<Rightarrow> 'a list" where
  "join d [] = []"
| "join d [x] = x"
| "join d (x # y # ys) = x @ d @ join d (y # ys)"

lemma join_Cons: "ys \<noteq> [] \<Longrightarrow> join d (x # ys) = x @ d @ join d ys"
  by (cases ys) auto

section \<open>The standard string operations\<close>

text \<open>\<open>s.substr(pos, n)\<close> throws when \<open>pos\<close> is past the end and clips \<open>n\<close> otherwise.\<close>

definition substr :: "'a list \<Rightarrow> nat \<Rightarrow> nat \<Rightarrow> 'a list result" where
  "substr s pos n = (if length s < pos then Inl Out_of_range else Inr (take n (drop pos s)))"

definition substr_from :: "'a list \<Rightarrow> nat \<Rightarrow> 'a list result" where
  "substr_from s pos = (if length s < pos then Inl Out_of_range else Inr (drop pos s))"

lemma substr_ok [simp]: "pos \<le> length s \<Longrightarrow> substr s pos n = Inr (take n (drop pos s))"
  by (simp add: substr_def)

lemma substr_from_ok [simp]: "pos \<le> length s \<Longrightarrow> substr_from s pos = Inr (drop pos s)"
  by (simp add: substr_from_def)

text \<open>\<open>s.find(p, i)\<close>: the first position from \<open>i\<close> on where \<open>p\<close> stands, \<open>None\<close> for \<open>npos\<close>.\<close>

function str_find :: "'a list \<Rightarrow> 'a list \<Rightarrow> nat \<Rightarrow> nat option" where
  "str_find s p i =
     (if length s < i + length p then None
      else if take (length p) (drop i s) = p then Some i
      else str_find s p (Suc i))"
  by pat_completeness auto
termination
  by (relation "measure (\<lambda>(s, p, i). Suc (length s) - i)") auto

declare str_find.simps [simp del]

lemma str_find_SomeD:
  "str_find s p i = Some j \<Longrightarrow>
     i \<le> j \<and> j + length p \<le> length s \<and> take (length p) (drop j s) = p \<and>
     (\<forall>k. i \<le> k \<and> k < j \<longrightarrow> take (length p) (drop k s) \<noteq> p)"
proof (induction s p i rule: str_find.induct)
  case (1 s p i)
  show ?case
  proof (cases "length s < i + length p \<or> take (length p) (drop i s) = p")
    case True
    with "1.prems" show ?thesis
      by (auto simp: str_find.simps [of s p i] split: if_splits)
  next
    case False
    with "1.prems" have "str_find s p (Suc i) = Some j"
      by (simp add: str_find.simps [of s p i])
    with "1.IH" False have IH: "Suc i \<le> j \<and> j + length p \<le> length s \<and> take (length p) (drop j s) = p \<and>
        (\<forall>k. Suc i \<le> k \<and> k < j \<longrightarrow> take (length p) (drop k s) \<noteq> p)" by simp
    have "take (length p) (drop k s) \<noteq> p" if "i \<le> k" "k < j" for k
      using that False IH by (cases "k = i") auto
    with IH show ?thesis by auto
  qed
qed

lemma str_find_NoneD:
  "str_find s p i = None \<Longrightarrow> i \<le> k \<Longrightarrow> k + length p \<le> length s \<Longrightarrow> take (length p) (drop k s) \<noteq> p"
proof (induction s p i rule: str_find.induct)
  case (1 s p i)
  show ?case
  proof (cases "k = i")
    case True
    with "1.prems" show ?thesis by (auto simp: str_find.simps [of s p i] split: if_splits)
  next
    case False
    with "1.prems" have c: "\<not> length s < i + length p" "take (length p) (drop i s) \<noteq> p"
      "str_find s p (Suc i) = None" "Suc i \<le> k"
      by (auto simp: str_find.simps [of s p i] split: if_splits)
    from "1.IH" [OF c(1,2,3,4) "1.prems"(3)] show ?thesis .
  qed
qed

section \<open>Decimal numerals\<close>

text \<open>The digits \<open>printf\<close>'s \<open>%d\<close> prints of a number that is not negative.\<close>

fun dec_digits :: "nat \<Rightarrow> cstr" where
  "dec_digits n =
     (if n < 10 then [48 + of_nat n] else dec_digits (n div 10) @ [48 + of_nat (n mod 10)])"

declare dec_digits.simps [simp del]

definition print_int :: "int \<Rightarrow> cstr" where
  "print_int n = (if n < 0 then 45 # dec_digits (nat (- n)) else dec_digits (nat n))"

text \<open>\<open>%0wd\<close>: at least \<open>w\<close> characters, filled with zeros on the left.\<close>

definition zpad :: "nat \<Rightarrow> nat \<Rightarrow> cstr" where
  "zpad w n = replicate (w - length (dec_digits n)) 48 @ dec_digits n"

text \<open>\<open>snprintf\<close> into a buffer of \<open>cap\<close> bytes keeps \<open>cap - 1\<close> characters.\<close>

definition snprintf :: "nat \<Rightarrow> cstr \<Rightarrow> cstr" where
  "snprintf cap s = take (cap - 1) s"

definition is_space :: "byte \<Rightarrow> bool" where
  "is_space c \<longleftrightarrow> c = 32 \<or> 9 \<le> c \<and> c \<le> 13"

definition is_digit :: "byte \<Rightarrow> bool" where
  "is_digit c \<longleftrightarrow> 48 \<le> c \<and> c \<le> 57"

fun digits_value :: "nat \<Rightarrow> cstr \<Rightarrow> nat" where
  "digits_value acc [] = acc"
| "digits_value acc (c # cs) =
     (if is_digit c then digits_value (10 * acc + unat (c - 48)) cs else acc)"

text \<open>
  \<open>strtol(s, NULL, 10)\<close> of the 64-bit C library: white space, a sign, digits; the value is
  clamped to the range of \<open>long\<close>. \<open>atol\<close> is that value, \<open>atoi\<close> its low 32 bits.
\<close>

definition clamp_long :: "int \<Rightarrow> int" where
  "clamp_long v = max (- (2 ^ 63)) (min (2 ^ 63 - 1) v)"

definition strtol10 :: "cstr \<Rightarrow> int" where
  "strtol10 s =
     clamp_long (case dropWhile is_space s of
        [] \<Rightarrow> 0
      | c # cs \<Rightarrow>
          if c = 45 then - int (digits_value 0 cs)
          else if c = 43 then int (digits_value 0 cs)
          else int (digits_value 0 (c # cs)))"

definition atol :: "cstr \<Rightarrow> int" where
  "atol s = strtol10 s"

definition atoi :: "cstr \<Rightarrow> int" where
  "atoi s = sint (word_of_int (strtol10 s) :: 32 word)"

lemma digit_byte:
  assumes "n < 10"
  shows "is_digit (48 + of_nat n)" and "unat ((48 + of_nat n :: byte) - 48) = n"
proof -
  have "n \<in> {0,1,2,3,4,5,6,7,8,9}" using assms by auto
  then show "is_digit (48 + of_nat n)" by (auto simp: is_digit_def)
  show "unat ((48 + of_nat n :: byte) - 48) = n"
    using assms by (simp add: unsigned_of_nat take_bit_nat_eq_self)
qed

lemma digits_value_append:
  "\<forall>c\<in>set xs. is_digit c \<Longrightarrow> digits_value acc (xs @ ys) = digits_value (digits_value acc xs) ys"
  by (induction xs arbitrary: acc) auto

lemma dec_digits_digits: "\<forall>c\<in>set (dec_digits n). is_digit c"
proof (induction n rule: dec_digits.induct)
  case (1 n)
  then show ?case
    by (subst dec_digits.simps) (auto simp: digit_byte(1))
qed

lemma dec_digits_not_Nil [simp]: "dec_digits n \<noteq> []"
  by (subst dec_digits.simps) simp

lemma digits_value_dec_digits [simp]: "digits_value 0 (dec_digits n) = n"
proof (induction n rule: dec_digits.induct)
  case (1 n)
  show ?case
  proof (cases "n < 10")
    case True
    then show ?thesis by (subst dec_digits.simps) (simp add: digit_byte(1) unsigned_of_nat take_bit_nat_eq_self)
  next
    case False
    have d: "n mod 10 < 10" by simp
    from False 1 show ?thesis
      by (subst dec_digits.simps)
        (simp add: digits_value_append [OF dec_digits_digits] digit_byte(1) [OF d] unsigned_of_nat take_bit_nat_eq_self)
  qed
qed

lemma digits_value_zeros [simp]: "digits_value 0 (replicate k 48 @ s) = digits_value 0 s"
  by (induction k) (simp_all add: is_digit_def)

lemma digits_value_zpad [simp]: "digits_value 0 (zpad w n) = n"
  by (simp add: zpad_def)

lemma zpad_digits: "\<forall>c\<in>set (zpad w n). is_digit c"
  using dec_digits_digits [of n] by (auto simp: zpad_def is_digit_def)

lemma zpad_not_Nil [simp]: "zpad w n \<noteq> []"
  by (simp add: zpad_def)

lemma length_dec_digits: "0 < k \<Longrightarrow> n < 10 ^ k \<Longrightarrow> length (dec_digits n) \<le> k"
proof (induction n arbitrary: k rule: dec_digits.induct)
  case (1 n)
  show ?case
  proof (cases "n < 10")
    case True
    with "1.prems" show ?thesis by (subst dec_digits.simps) simp
  next
    case False
    with "1.prems" obtain j where k: "k = Suc j" "0 < j"
      by (cases k; cases "k - 1") auto
    with "1.prems" have "n div 10 < 10 ^ j" by (simp add: less_mult_imp_div_less mult.commute)
    with "1.IH" [OF False k(2)] have "length (dec_digits (n div 10)) \<le> j" by blast
    with False k show ?thesis by (subst dec_digits.simps) simp
  qed
qed

lemma length_zpad: "0 < w \<Longrightarrow> n < 10 ^ w \<Longrightarrow> length (zpad w n) = w"
  using length_dec_digits [of w n] by (simp add: zpad_def)

lemma strtol10_digits:
  assumes "s \<noteq> []" "\<forall>c\<in>set s. is_digit c"
  shows "strtol10 s = clamp_long (int (digits_value 0 s))"
proof -
  obtain c cs where s: "s = c # cs" using assms(1) by (cases s) auto
  have c: "is_digit c" using assms(2) s by simp
  then have "\<not> is_space c" "c \<noteq> 45" "c \<noteq> 43"
    by (auto simp: is_digit_def is_space_def word_le_nat_alt)
  with s show ?thesis by (simp add: strtol10_def)
qed

lemma atoi_digits:
  assumes "s \<noteq> []" "\<forall>c\<in>set s. is_digit c" "digits_value 0 s < 2 ^ 31"
  shows "atoi s = int (digits_value 0 s)"
proof -
  have "strtol10 s = int (digits_value 0 s)"
    using assms by (simp add: strtol10_digits clamp_long_def)
  moreover have "sint (word_of_int (int (digits_value 0 s)) :: 32 word) = int (digits_value 0 s)"
    using assms(3) by (simp add: signed_of_nat signed_take_bit_int_eq_self)
  ultimately show ?thesis by (simp add: atoi_def)
qed

lemma atoi_zpad [simp]: "n < 2 ^ 31 \<Longrightarrow> atoi (zpad w n) = int n"
  by (subst atoi_digits) (simp_all add: zpad_digits)

section \<open>Functional refinement of operation sequences\<close>

text \<open>
  A component promises an abstract specification: an operation that is legal in the abstract state
  ends without error, gives the output of the specification and keeps the invariant. Then every
  sequence of legal operations does.
\<close>

primrec run_ops :: "('op \<Rightarrow> 's \<Rightarrow> 'e + 'out \<times> 's) \<Rightarrow> 'op list \<Rightarrow> 's \<Rightarrow> 'e + 'out list \<times> 's" where
  "run_ops step [] s = Inr ([], s)"
| "run_ops step (op # ops) s =
     bind_result (step op s) (\<lambda>(x, s). bind_result (run_ops step ops s) (\<lambda>(xs, s). Inr (x # xs, s)))"

primrec run_spec :: "('op \<Rightarrow> 'a \<Rightarrow> 'out \<times> 'a) \<Rightarrow> 'op list \<Rightarrow> 'a \<Rightarrow> 'out list \<times> 'a" where
  "run_spec spec [] a = ([], a)"
| "run_spec spec (op # ops) a = (let (x, a) = spec op a; (xs, a) = run_spec spec ops a in (x # xs, a))"

primrec legal_ops :: "('op \<Rightarrow> 'a \<Rightarrow> bool) \<Rightarrow> ('op \<Rightarrow> 'a \<Rightarrow> 'out \<times> 'a) \<Rightarrow> 'op list \<Rightarrow> 'a \<Rightarrow> bool" where
  "legal_ops legal spec [] a = True"
| "legal_ops legal spec (op # ops) a = (legal op a \<and> legal_ops legal spec ops (snd (spec op a)))"

locale data_refinement =
  fixes ok :: "'s \<Rightarrow> bool" and abs :: "'s \<Rightarrow> 'a" and step :: "'op \<Rightarrow> 's \<Rightarrow> 'e + 'out \<times> 's"
    and spec :: "'op \<Rightarrow> 'a \<Rightarrow> 'out \<times> 'a" and legal :: "'op \<Rightarrow> 'a \<Rightarrow> bool"
  assumes step_refines: "ok s \<Longrightarrow> legal op (abs s) \<Longrightarrow>
    \<exists>s'. step op s = Inr (fst (spec op (abs s)), s') \<and> ok s' \<and> abs s' = snd (spec op (abs s))"
begin

lemma run_refines:
  "ok s \<Longrightarrow> legal_ops legal spec ops (abs s) \<Longrightarrow>
     \<exists>s'. run_ops step ops s = Inr (fst (run_spec spec ops (abs s)), s') \<and> ok s' \<and> abs s' = snd (run_spec spec ops (abs s))"
proof (induction ops arbitrary: s)
  case (Cons op ops)
  then obtain s1 where s1: "step op s = Inr (fst (spec op (abs s)), s1)" "ok s1" "abs s1 = snd (spec op (abs s))"
    using step_refines [of s op] by auto
  with Cons.IH [of s1] Cons.prems obtain s2 where "run_ops step ops s1 = Inr (fst (run_spec spec ops (abs s1)), s2)" "ok s2"
      "abs s2 = snd (run_spec spec ops (abs s1))" by auto
  with s1 show ?case by (auto simp: Let_def case_prod_beta)
qed simp

end

end
