(* ===== verification/String_Utility.thy ===== *)
theory String_Utility
  imports Prelude
begin

text \<open>
  \<open>StringUtility\<close> (\<open>source/common/string_utility.cpp\<close>): splitting, trimming and replacing, the
  ASCII/BCD conversions the 8583 messages rest on, the XOR helpers of the MAC code, and the
  conversions of addresses and amounts. An output parameter of the source is the result here; where
  the source appends to its output parameter, the old contents are an argument. \<open>iconv\<close> based
  \<open>charsetConvert\<close> and the \<open>char*\<close> overload \<open>asc2bcd\<close> (whose buffer is one byte too short for
  every input) are left out.
\<close>

section \<open>Split, prefix, suffix, trimming, replacing\<close>

function Split_loop :: "cstr \<Rightarrow> cstr \<Rightarrow> nat \<Rightarrow> cstr list \<Rightarrow> cstr list" where
  "Split_loop str delim begin_index result =
     (if length str \<le> begin_index \<or> delim = [] then result
      else case str_find str delim begin_index of
             None \<Rightarrow> result @ [drop begin_index str]
           | Some end_index \<Rightarrow>
               Split_loop str delim (end_index + length delim)
                 (if begin_index < end_index
                  then result @ [take (end_index - begin_index) (drop begin_index str)]
                  else result))"
  by pat_completeness auto
termination
proof (relation "measure (\<lambda>(str, delim, b, r). length str - b)", goal_cases)
  case (2 str delim b r j)
  from str_find_SomeD [OF 2(2)] 2(1) show ?case by (cases delim) auto
qed simp

declare Split_loop.simps [simp del]

definition Split :: "cstr \<Rightarrow> cstr \<Rightarrow> cstr list \<Rightarrow> cstr list" where
  "Split str delim result =
     (if str = [] then result
      else if delim = [] \<or> hd delim = 0 then result @ [str]
      else Split_loop str delim 0 result)"

definition StartsWith :: "cstr \<Rightarrow> cstr \<Rightarrow> bool" where
  "StartsWith str pre = (if length str < length pre then False else take (length pre) str = pre)"

definition EndsWith :: "cstr \<Rightarrow> cstr \<Rightarrow> bool" where
  "EndsWith str suf =
     (if length str < length suf then False else drop (length str - length suf) str = suf)"

definition Ltrim :: "cstr \<Rightarrow> cstr" where
  "Ltrim str = dropWhile is_space str"

definition Rtrim :: "cstr \<Rightarrow> cstr" where
  "Rtrim str = rev (dropWhile is_space (rev str))"

definition Trim :: "cstr \<Rightarrow> cstr" where
  "Trim str = Rtrim (Ltrim str)"

definition Trim_all :: "cstr list option \<Rightarrow> cstr list option" where
  "Trim_all str_list = (case str_list of None \<Rightarrow> None | Some l \<Rightarrow> Some (map Trim l))"

text \<open>
  The loop of \<open>string_replace\<close> does not end when the replaced string is empty, so it takes fuel:
  \<open>None\<close> means that the loop has not ended within that many rounds.
\<close>

fun string_replace :: "nat \<Rightarrow> cstr \<Rightarrow> cstr \<Rightarrow> nat \<Rightarrow> cstr \<Rightarrow> cstr option" where
  "string_replace 0 sub_str1 sub_str2 pos str = None"
| "string_replace (Suc fuel) sub_str1 sub_str2 pos str =
     (case str_find str sub_str1 pos of
        None \<Rightarrow> Some str
      | Some p \<Rightarrow>
          string_replace fuel sub_str1 sub_str2 (p + length sub_str2)
            (take p str @ sub_str2 @ drop (p + length sub_str1) str))"

definition IntToString :: "32 word \<Rightarrow> cstr" where
  "IntToString number = print_int (sint number)"

section \<open>BCD conversions\<close>

definition asc_nibble :: "byte \<Rightarrow> byte" where
  "asc_nibble c =
     (if char_ge c 97 then c - 97 + 10
      else if char_ge c 65 then c - 65 + 10
      else if char_ge c 48 then c - 48
      else 0)"

fun pack_nibbles :: "byte list \<Rightarrow> cstr" where
  "pack_nibbles (h # l # r) = (push_bit 4 (h AND 15) OR (l AND 15)) # pack_nibbles r"
| "pack_nibbles _ = []"

definition asc2bcd_l :: "cstr \<Rightarrow> cstr" where
  "asc2bcd_l strAsc =
     (let strTmp = (if length strAsc mod 2 \<noteq> 0 then strAsc @ [48] else strAsc)
      in pack_nibbles (map asc_nibble strTmp))"

definition asc2bcd_r :: "cstr \<Rightarrow> cstr" where
  "asc2bcd_r strAsc =
     (let strTmp = (if length strAsc mod 2 \<noteq> 0 then 48 # strAsc else strAsc)
      in pack_nibbles (map asc_nibble strTmp))"

definition nibble_asc :: "byte \<Rightarrow> byte" where
  "nibble_asc c = (if sint c < 10 then c + 48 else c - 10 + 65)"

fun bcd2asc :: "cstr \<Rightarrow> cstr" where
  "bcd2asc [] = []"
| "bcd2asc (b # r) =
     nibble_asc (signed_drop_bit 4 b AND 15) # nibble_asc (b AND 15) # bcd2asc r"

text \<open>
  The \<open>char*\<close> overload of \<open>bcd2asc\<close>: the first \<open>len\<close> bytes of \<open>soustr\<close> are written as
  \<open>2 * len\<close> characters into the caller's buffer \<open>desstr\<close>, whose first byte is cleared before.
\<close>

definition bcd_digit_c :: "byte \<Rightarrow> byte" where
  "bcd_digit_c d = (if sint d < 10 then d + 48 else d + 55)"

fun bcd2asc_c_loop :: "nat \<Rightarrow> nat \<Rightarrow> cstr \<Rightarrow> cstr \<Rightarrow> cstr" where
  "bcd2asc_c_loop 0 i soustr pdes = pdes"
| "bcd2asc_c_loop (Suc k) i soustr pdes =
     bcd2asc_c_loop k (Suc i) soustr
       (pdes[2 * i := bcd_digit_c (drop_bit 4 (soustr ! i AND 240)),
             2 * i + 1 := bcd_digit_c (soustr ! i AND 15)])"

definition bcd2asc_c :: "cstr \<Rightarrow> nat \<Rightarrow> cstr \<Rightarrow> cstr result" where
  "bcd2asc_c soustr len desstr =
     (if desstr = [] \<or> length soustr < len \<or> length desstr < 2 * len
      then Inl Undefined_behaviour
      else Inr (bcd2asc_c_loop len 0 soustr (desstr[0 := 0])))"

section \<open>XOR helpers\<close>

definition Xor :: "cstr \<Rightarrow> cstr \<Rightarrow> cstr" where
  "Xor src dest =
     (if length src \<noteq> 8 \<or> length dest \<noteq> 8 then dest else map2 (XOR) dest src)"

definition CalXorCrc :: "cstr \<Rightarrow> byte" where
  "CalXorCrc src = fold (\<lambda>p crc. crc XOR p) src 0"

section \<open>Addresses and amounts\<close>

text \<open>
  \<open>IPStringToLong\<close> keeps digits and dots in a buffer of 20 bytes, without a check of its bound,
  drops blanks, and returns 0 on every other character. \<open>inet_addr\<close> of the system is the argument
  \<open>inet\<close>, which gives the address in host order (what \<open>ntohl (inet_addr buf)\<close> is).
\<close>

fun ip_filter :: "cstr \<Rightarrow> cstr \<Rightarrow> cstr option result" where
  "ip_filter buf [] = Inr (Some buf)"
| "ip_filter buf (c # p) =
     (if c = 0 then Inr (Some buf)
      else if c = 46 \<or> is_digit c
      then (if length buf < 20 then ip_filter (buf @ [c]) p else Inl Undefined_behaviour)
      else if c = 32 then ip_filter buf p
      else Inr None)"

definition IPStringToLong :: "(cstr \<Rightarrow> u32) \<Rightarrow> cstr \<Rightarrow> 64 word result" where
  "IPStringToLong inet ip =
     bind_result (ip_filter [] ip) (\<lambda>r. case r of
        None \<Rightarrow> Inr 0
      | Some buf \<Rightarrow>
          if length buf = 20 then Inl Undefined_behaviour
          else if buf = [] then Inr 0
          else Inr (ucast (inet buf)))"

definition IPLongToString :: "64 word \<Rightarrow> cstr" where
  "IPLongToString ip =
     (if ip = 0 then []
      else dec_digits (unat (drop_bit 24 ip AND 255)) @ [46] @
           dec_digits (unat (drop_bit 16 ip AND 255)) @ [46] @
           dec_digits (unat (drop_bit 8 ip AND 255)) @ [46] @
           dec_digits (unat (ip AND 255)))"

definition ToStringAmount :: "64 word \<Rightarrow> cstr" where
  "ToStringAmount d = (let s = print_int (sint d) in replicate (12 - length s) 48 @ s)"

section \<open>The reference for splitting and replacing\<close>

text \<open>The pieces between the occurrences of a separator, found from left to right.\<close>

function segments :: "'a list \<Rightarrow> 'a list \<Rightarrow> 'a list list" where
  "segments d s =
     (if d = [] then [s]
      else case str_find s d 0 of
             None \<Rightarrow> [s]
           | Some j \<Rightarrow> take j s # segments d (drop (j + length d) s))"
  by pat_completeness auto
termination
proof (relation "measure (\<lambda>(d, s). length s)", goal_cases)
  case (2 d s j)
  from str_find_SomeD [OF 2(2)] 2(1) show ?case by (cases d) auto
qed simp

declare segments.simps [simp del]

lemma segments_not_Nil [simp]: "segments d s \<noteq> []"
  by (subst segments.simps) (simp split: option.split)

lemma segments_None: "str_find s d 0 = None \<Longrightarrow> segments d s = [s]"
  by (subst segments.simps) simp

lemma segments_Some:
  "d \<noteq> [] \<Longrightarrow> str_find s d 0 = Some j \<Longrightarrow> segments d s = take j s # segments d (drop (j + length d) s)"
  by (subst segments.simps) simp

lemma str_find_shift:
  "str_find s p (k + i) = map_option (\<lambda>j. k + j) (str_find (drop k s) p i)" if "k \<le> length s"
  using that
proof (induction "Suc (length s) - i" arbitrary: i rule: less_induct)
  case less
  show ?case
  proof (cases "length s < k + i + length p \<or> take (length p) (drop (k + i) s) = p")
    case True
    with less.prems show ?thesis
      by (subst (1 2) str_find.simps) (auto simp: add.commute)
  next
    case False
    then have "i \<le> length s" by simp
    then have "Suc (length s) - Suc i < Suc (length s) - i" by simp
    from less.hyps [OF this less.prems] False less.prems show ?thesis
      by (subst (1 2) str_find.simps) (auto simp: add.commute)
  qed
qed

lemma str_find_from:
  "k \<le> length s \<Longrightarrow> str_find s p k = map_option (\<lambda>j. k + j) (str_find (drop k s) p 0)"
  using str_find_shift [of k s p 0] by simp

lemma str_find_past: "length s < i + length p \<Longrightarrow> str_find s p i = None"
  by (simp add: str_find.simps)

lemma join_segments: "join d (segments d s) = s"
proof (induction d s rule: segments.induct)
  case (1 d s)
  show ?case
  proof (cases "d = [] \<or> str_find s d 0 = None")
    case True
    then show ?thesis by (subst segments.simps) auto
  next
    case False
    then obtain j where j: "str_find s d 0 = Some j" "d \<noteq> []" by auto
    from str_find_SomeD [OF j(1)] have "take (length d) (drop j s) = d" by simp
    then have "s = take j s @ d @ drop (j + length d) s"
      by (metis add.commute append_take_drop_id drop_drop)
    with 1 [OF j(2,1)] j show ?thesis
      by (subst segments.simps) (simp add: join_Cons)
  qed
qed

definition occurs_in :: "'a list \<Rightarrow> 'a list \<Rightarrow> bool" where
  "occurs_in p s \<longleftrightarrow> str_find s p 0 \<noteq> None"

lemma str_find_take:
  assumes "str_find s p 0 = Some j" "p \<noteq> []"
  shows "str_find (take j s) p 0 = None"
proof (rule ccontr)
  assume "str_find (take j s) p 0 \<noteq> None"
  then obtain k where "str_find (take j s) p 0 = Some k" by auto
  from str_find_SomeD [OF this] have k: "k + length p \<le> min (length s) j"
    "take (length p) (drop k (take j s)) = p" by auto
  then have "take (length p) (drop k s) = p"
    by (simp add: drop_take min_def split: if_splits)
  moreover from k assms(2) have "k < j" by (cases p) auto
  ultimately show False using str_find_SomeD [OF assms(1)] by blast
qed

lemma segments_free: "d \<noteq> [] \<Longrightarrow> x \<in> set (segments d s) \<Longrightarrow> \<not> occurs_in d x"
proof (induction d s rule: segments.induct)
  case (1 d s)
  show ?case
  proof (cases "str_find s d 0")
    case None
    with "1.prems" show ?thesis
      by (subst (asm) segments.simps) (simp add: occurs_in_def)
  next
    case (Some j)
    with "1.prems" have "x = take j s \<or> x \<in> set (segments d (drop (j + length d) s))"
      by (subst (asm) segments.simps) simp
    with "1.IH" [OF "1.prems"(1) Some] "1.prems"(1) str_find_take [OF Some]
    show ?thesis by (auto simp: occurs_in_def)
  qed
qed

lemma Split_loop_segments:
  "delim \<noteq> [] \<Longrightarrow> b \<le> length str \<Longrightarrow>
     Split_loop str delim b r = r @ filter (\<lambda>x. x \<noteq> []) (segments delim (drop b str))"
proof (induction str delim b r rule: Split_loop.induct)
  case (1 str delim b r)
  show ?case
  proof (cases "length str \<le> b")
    case True
    with "1.prems" show ?thesis
      by (subst Split_loop.simps, subst segments.simps) (simp add: str_find_past)
  next
    case b: False
    show ?thesis
    proof (cases "str_find (drop b str) delim 0")
      case None
      with b "1.prems" show ?thesis
        by (subst Split_loop.simps) (simp add: str_find_from [of b] segments_None)
    next
      case (Some j)
      with b have f: "str_find str delim b = Some (b + j)" by (simp add: str_find_from [of b])
      from str_find_SomeD [OF f] have le: "b + j + length delim \<le> length str" by simp
      have "\<not> (length str \<le> b \<or> delim = [])" using b "1.prems" by simp
      note IH = "1.IH" [OF this f "1.prems"(1) le]
      have "drop (j + length delim) (drop b str) = drop (b + j + length delim) str"
        by (simp add: ac_simps)
      note seg = segments_Some [OF "1.prems"(1) Some, unfolded this]
      show ?thesis
        by (subst Split_loop.simps, cases "j = 0")
          (use IH b f "1.prems" in \<open>simp_all add: seg\<close>)
    qed
  qed
qed

lemma string_replace_segments:
  "sub_str1 \<noteq> [] \<Longrightarrow> pos \<le> length str \<Longrightarrow> length str - pos < fuel \<Longrightarrow>
     string_replace fuel sub_str1 sub_str2 pos str =
       Some (take pos str @ join sub_str2 (segments sub_str1 (drop pos str)))"
proof (induction fuel arbitrary: pos str)
  case (Suc fuel)
  show ?case
  proof (cases "str_find (drop pos str) sub_str1 0")
    case None
    with Suc.prems show ?thesis by (simp add: str_find_from [of pos] segments_None)
  next
    case (Some j)
    with Suc.prems have f: "str_find str sub_str1 pos = Some (pos + j)" by (simp add: str_find_from [of pos])
    from str_find_SomeD [OF f] have le: "pos + j + length sub_str1 \<le> length str" by simp
    let ?str = "take (pos + j) str @ sub_str2 @ drop (pos + j + length sub_str1) str"
    let ?pos = "pos + j + length sub_str2"
    have p: "?pos \<le> length ?str" "length ?str - ?pos < fuel"
      "take ?pos ?str = take (pos + j) str @ sub_str2"
      "drop ?pos ?str = drop (pos + j + length sub_str1) str"
      using le Suc.prems by (cases sub_str1; simp)+
    have "take (pos + j) str = take pos str @ take j (drop pos str)" by (rule take_add)
    moreover have "drop (j + length sub_str1) (drop pos str) = drop (pos + j + length sub_str1) str"
      by (simp add: ac_simps)
    note segments_Some [OF Suc.prems(1) Some, unfolded this]
    moreover have "string_replace (Suc fuel) sub_str1 sub_str2 pos str =
        string_replace fuel sub_str1 sub_str2 ?pos ?str" using f by simp
    ultimately show ?thesis
      unfolding Suc.IH [OF Suc.prems(1) p(1,2)] p(3,4) by (simp add: join_Cons)
  qed
qed simp

lemma str_find_Nil: "i \<le> length s \<Longrightarrow> str_find s [] i = Some i"
  by (simp add: str_find.simps)

lemma string_replace_empty: "pos \<le> length str \<Longrightarrow> string_replace fuel [] sub_str2 pos str = None"
  by (induction fuel arbitrary: pos str) (simp_all add: str_find_Nil)

section \<open>BCD round trips\<close>

definition is_hex_upper :: "byte \<Rightarrow> bool" where
  "is_hex_upper c \<longleftrightarrow> 48 \<le> c \<and> c \<le> 57 \<or> 65 \<le> c \<and> c \<le> 70"

lemma asc_nibble_asc [hexdigit]: "n < 16 \<Longrightarrow> asc_nibble (nibble_asc n) = n"
  by (drule nibble_cases) (auto simp: asc_nibble_def nibble_asc_def char_ge_def)

lemma nibble_asc_hex [hexdigit]: "n < 16 \<Longrightarrow> is_hex_upper (nibble_asc n)"
  by (drule nibble_cases) (auto simp: nibble_asc_def is_hex_upper_def)

lemma hex_upper_cases:
  "is_hex_upper c \<Longrightarrow> c \<in> {48,49,50,51,52,53,54,55,56,57,65,66,67,68,69,70}"
proof -
  assume "is_hex_upper c"
  then have "unat c \<in> set ([48..<58] @ [65..<71])"
    unfolding is_hex_upper_def word_le_nat_alt set_append set_upt by auto
  then have "of_nat (unat c) \<in> (of_nat ` set ([48..<58] @ [65..<71]) :: byte set)" by (rule imageI)
  then show ?thesis by (simp add: upt_rec numeral_eq_Suc flip: numeral_eq_Suc)
qed

lemma nibble_of_hex [hexdigit]:
  "is_hex_upper c \<Longrightarrow> nibble_asc (asc_nibble c) = c"
  "is_hex_upper c \<Longrightarrow> asc_nibble c < 16"
  by (drule hex_upper_cases, auto simp: asc_nibble_def nibble_asc_def char_ge_def)+

lemma nibble_mask: "(n :: byte) < 16 \<Longrightarrow> n AND 15 = n"
  by (drule nibble_cases) auto

lemma nibble_less: "(b :: byte) AND 15 < 16"
  by (rule le_less_trans [OF word_and_le1]) simp

lemma fifteen_mask: "(15 :: byte) = mask 4"
  by (simp add: mask_eq_exp_minus_1)

lemmas nibble_bits = bit_or_iff bit_and_iff bit_mask_iff bit_push_bit_iff bit_signed_drop_bit_iff

lemma high_nibble: "signed_drop_bit 4 (push_bit 4 (h AND 15) OR (l AND 15) :: byte) AND 15 = h AND 15"
  unfolding fifteen_mask by (rule bit_word_eqI) (auto simp only: nibble_bits; simp)

lemma low_nibble: "(push_bit 4 (h AND 15) OR (l AND 15) :: byte) AND 15 = l AND 15"
  unfolding fifteen_mask by (rule bit_word_eqI) (auto simp only: nibble_bits)

lemma join_nibbles:
  "push_bit 4 ((signed_drop_bit 4 b AND 15) AND 15) OR ((b AND 15) AND 15) = (b :: byte)"
  unfolding fifteen_mask by (rule bit_word_eqI) (auto simp only: nibble_bits; simp; linarith)

lemma bcd2asc_pack:
  "even (length ns) \<Longrightarrow> \<forall>n\<in>set ns. n < 16 \<Longrightarrow> bcd2asc (pack_nibbles ns) = map nibble_asc ns"
proof (induction ns rule: pack_nibbles.induct)
  case (1 h l r)
  then show ?case
    unfolding pack_nibbles.simps bcd2asc.simps high_nibble low_nibble by (simp add: nibble_mask)
qed auto

lemma pack_bcd2asc: "pack_nibbles (map asc_nibble (bcd2asc b)) = b"
proof (induction b)
  case (Cons c b)
  have "asc_nibble (nibble_asc (x AND 15)) = x AND 15" for x by (simp add: hexdigit nibble_less)
  with Cons show ?case
    unfolding bcd2asc.simps list.map pack_nibbles.simps by (simp only: join_nibbles)
qed simp

lemma length_bcd2asc [simp]: "length (bcd2asc b) = 2 * length b"
  by (induction b) auto

lemma length_pack_nibbles: "length (pack_nibbles ns) = length ns div 2"
  by (induction ns rule: pack_nibbles.induct) auto

lemma bcd2asc_append [simp]: "bcd2asc (a @ b) = bcd2asc a @ bcd2asc b"
  by (induction a) auto

lemma bcd2asc_hex: "c \<in> set (bcd2asc b) \<Longrightarrow> is_hex_upper c"
  by (induction b) (auto simp: hexdigit nibble_less)

lemma bcd2asc_pack_hex:
  "even (length s) \<Longrightarrow> \<forall>c\<in>set s. is_hex_upper c \<Longrightarrow> bcd2asc (pack_nibbles (map asc_nibble s)) = s"
  by (simp add: bcd2asc_pack hexdigit map_idI)

lemma length_asc2bcd:
  "length (asc2bcd_l s) = (length s + 1) div 2" "length (asc2bcd_r s) = (length s + 1) div 2"
  by (auto simp: asc2bcd_l_def asc2bcd_r_def Let_def length_pack_nibbles)

lemma bcd2asc_asc2bcd_l:
  "\<forall>c\<in>set s. is_hex_upper c \<Longrightarrow> bcd2asc (asc2bcd_l s) = (if even (length s) then s else s @ [48])"
  unfolding asc2bcd_l_def Let_def
  by (subst bcd2asc_pack_hex) (auto simp: is_hex_upper_def)

lemma bcd2asc_asc2bcd_r:
  "\<forall>c\<in>set s. is_hex_upper c \<Longrightarrow> bcd2asc (asc2bcd_r s) = (if even (length s) then s else 48 # s)"
  unfolding asc2bcd_r_def Let_def
  by (subst bcd2asc_pack_hex) (auto simp: is_hex_upper_def)

lemma asc2bcd_bcd2asc [simp]: "asc2bcd_l (bcd2asc b) = b" "asc2bcd_r (bcd2asc b) = b"
  by (simp_all add: asc2bcd_l_def asc2bcd_r_def pack_bcd2asc)

lemma bcd_digit_c_nibble: "n < 16 \<Longrightarrow> bcd_digit_c n = nibble_asc n"
  by (drule nibble_cases) (auto simp: bcd_digit_c_def nibble_asc_def)

lemma high_nibble_c: "drop_bit 4 (b :: byte) AND 15 = signed_drop_bit 4 b AND 15"
  unfolding fifteen_mask
  by (rule bit_word_eqI) (auto simp only: bit_drop_bit_eq nibble_bits o_apply; simp)

lemma bcd2asc_c_loop_eq:
  "i + k \<le> length s \<Longrightarrow> 2 * (i + k) \<le> length d \<Longrightarrow>
     bcd2asc_c_loop k i s d =
       take (2 * i) d @ bcd2asc (take k (drop i s)) @ drop (2 * (i + k)) d"
proof (induction k arbitrary: i d)
  case (Suc k)
  have t: "take (Suc k) (drop i s) = s ! i # take k (drop (Suc i) s)"
    using Suc.prems by (simp add: Cons_nth_drop_Suc [symmetric])
  let ?d = "d[2 * i := nibble_asc (signed_drop_bit 4 (s ! i) AND 15), Suc (2 * i) := nibble_asc (s ! i AND 15)]"
  have "take (2 * Suc i) ?d =
      take (2 * i) d @ [nibble_asc (signed_drop_bit 4 (s ! i) AND 15), nibble_asc (s ! i AND 15)]"
    using Suc.prems by (simp add: take_Suc_conv_app_nth take_update_swap list_update_append)
  with Suc t show ?case
    by (simp add: high_nibble_c bcd_digit_c_nibble nibble_less)
qed simp

section \<open>Properties\<close>

text \<open>
  \<open>Split\<close> on a delimiter that is neither empty nor starts with a zero byte: the pieces it
  appends are the maximal pieces between the occurrences of the delimiter (putting the delimiter
  back between them gives the string, and none of them contains it), less the empty ones.
\<close>

theorem Split_correct:
  assumes "delim \<noteq> []" "hd delim \<noteq> 0"
  shows "\<exists>segs. join delim segs = str \<and> (\<forall>x\<in>set segs. \<not> occurs_in delim x) \<and>
           Split str delim result = result @ filter (\<lambda>x. x \<noteq> []) segs"
proof (intro exI conjI)
  show "join delim (segments delim str) = str" by (rule join_segments)
  show "\<forall>x\<in>set (segments delim str). \<not> occurs_in delim x" using assms(1) segments_free by blast
  show "Split str delim result = result @ filter (\<lambda>x. x \<noteq> []) (segments delim str)"
    using assms Split_loop_segments [of delim 0 str result]
    by (auto simp: Split_def segments_None str_find_past)
qed

theorem Split_correct_witness:
  "\<exists>segs. join [44] segs = bytes ''a,,b'' \<and> (\<forall>x\<in>set segs. \<not> occurs_in [44] x) \<and>
           Split (bytes ''a,,b'') [44] [] = [] @ filter (\<lambda>x. x \<noteq> []) segs"
  using Split_correct [of "[44]" "bytes ''a,,b''" "[]"] by simp

text \<open>
  C40. \<open>string_replace\<close> with a nonempty \<open>sub_str1\<close> ends, within one round more than the string has
  characters, and what it leaves is the pieces between the occurrences of \<open>sub_str1\<close> with
  \<open>sub_str2\<close> between them; with an empty \<open>sub_str1\<close> its loop never ends.
\<close>

theorem string_replace_correct:
  "(sub_str1 \<noteq> [] \<and> length str < fuel \<longrightarrow>
      string_replace fuel sub_str1 sub_str2 0 str = Some (join sub_str2 (segments sub_str1 str))) \<and>
   string_replace n [] sub_str2 0 str = None"
  using string_replace_segments [of sub_str1 0 str fuel sub_str2]
  by (simp add: string_replace_empty)

theorem string_replace_correct_witness:
  "string_replace 9 [44] [59, 59] 0 (bytes ''a,b,'') = Some (join [59, 59] (segments [44] (bytes ''a,b,'')))"
  using string_replace_correct [of "[44]" "bytes ''a,b,''" 9 "[59, 59]" 0] by simp

text \<open>
  BCD round trips: \<open>bcd2asc\<close> undoes both packings on strings of upper-case hexadecimal digits
  up to the filling digit, which stands on the right (\<open>asc2bcd_l\<close>) or on the left
  (\<open>asc2bcd_r\<close>) of an odd string; every byte string survives \<open>bcd2asc\<close> followed by either
  packing; and the \<open>char*\<close> overload writes the same digits at the start of its buffer and keeps the
  rest of it.
\<close>

theorem bcd_roundtrip:
  "((\<forall>c\<in>set s. is_hex_upper c) \<longrightarrow>
      bcd2asc (asc2bcd_l s) = (if even (length s) then s else s @ [48]) \<and>
      bcd2asc (asc2bcd_r s) = (if even (length s) then s else 48 # s)) \<and>
   asc2bcd_l (bcd2asc b) = b \<and> asc2bcd_r (bcd2asc b) = b \<and>
   (d \<noteq> [] \<and> 2 * length b \<le> length d \<longrightarrow>
      bcd2asc_c b (length b) d = Inr (bcd2asc b @ drop (2 * length b) (d[0 := 0])))"
  using bcd2asc_asc2bcd_l [of s] bcd2asc_asc2bcd_r [of s]
    bcd2asc_c_loop_eq [of 0 "length b" b "d[0 := 0]"]
  by (simp add: bcd2asc_c_def)

theorem bcd_roundtrip_witness:
  "bcd2asc (asc2bcd_l (bytes ''1A3'')) = bytes ''1A30'' \<and>
   bcd2asc (asc2bcd_r (bytes ''1A3'')) = bytes ''01A3'' \<and>
   bcd2asc_c [18] (length [18::byte]) [7, 7, 7] = Inr [49, 50, 7]"
  using bcd_roundtrip [of "bytes ''1A3''" "[18]" "[7, 7, 7]"]
  by (simp add: is_hex_upper_def nibble_asc_def)

end
