(* ===== verification/Base64_Codec.thy ===== *)
theory Base64_Codec
  imports Prelude "HOL-Library.Signed_Division"
begin

text \<open>
  \<open>Base64\<close> (\<open>source/common/base64.cpp\<close>). The loops of \<open>Encode\<close> and \<open>Decode\<close> run over the
  rest of the source string and give the bytes they store through the moving pointer; the buffer they
  are stored into has the size that \<open>Base64EncodeLen\<close> and \<open>Base64DecodeLen\<close> compute. These take and
  give an \<open>int\<close>: the size of the source is narrowed to 32 bits at the call, and an overflow of their
  arithmetic, a size that \<open>resize\<close> refuses and a byte stored outside the buffer are errors. A null
  destination is \<open>None\<close>.
\<close>

definition base64_code :: cstr where
  "base64_code = bytes ''ABCDEFGHIJKLMNOPQRSTUVWXYZabcdefghijklmnopqrstuvwxyz0123456789+/''"

definition Base2Chr :: "byte \<Rightarrow> byte" where
  "Base2Chr n0 =
     (let n = n0 AND 63 in
      if n < 26 then n + 65
      else if n < 52 then n - 26 + 97
      else if n < 62 then n - 52 + 48
      else if n = 62 then 43
      else 47)"

definition Chr2Base :: "byte \<Rightarrow> byte" where
  "Chr2Base c =
     (if char_ge c 65 \<and> char_ge 90 c then c - 65
      else if char_ge c 97 \<and> char_ge 122 c then c - 97 + 26
      else if char_ge c 48 \<and> char_ge 57 c then c - 48 + 52
      else if c = 43 then 62
      else if c = 47 then 63
      else 64)"

datatype base64_error = Int_overflow | Length_error | Buffer_overrun

definition int_of_size :: "nat \<Rightarrow> int" where
  "int_of_size n = sint (of_nat n :: u32)"

definition int_result :: "int \<Rightarrow> base64_error + int" where
  "int_result x = (if - (2 ^ 31) \<le> x \<and> x < 2 ^ 31 then Inr x else Inl Int_overflow)"

definition Base64EncodeLen :: "int \<Rightarrow> base64_error + int" where
  "Base64EncodeLen n =
     bind_result (int_result (n + 2)) (\<lambda>a.
     bind_result (int_result (a sdiv 3 * 4)) (\<lambda>b. int_result (b + 1)))"

definition Base64DecodeLen :: "int \<Rightarrow> base64_error + int" where
  "Base64DecodeLen n = bind_result (int_result (n sdiv 4 * 3)) (\<lambda>a. int_result (a + 2))"

text \<open>\<open>resize\<close>: a negative number becomes a size beyond every string, for which it throws.\<close>

definition resize :: "int \<Rightarrow> base64_error + nat" where
  "resize n = (if n < 0 then Inl Length_error else Inr (nat n))"

definition sextet :: "u32 \<Rightarrow> nat \<Rightarrow> u32 \<Rightarrow> byte" where
  "sextet m k c = base64_code ! unat (drop_bit k (c AND m))"

fun Encode_loop :: "cstr \<Rightarrow> cstr" where
  "Encode_loop [] = []"
| "Encode_loop (q # r) =
     (let c = ucast q * 256 + (if 0 < length r then ucast (r ! 0) else 0);
          c = c * 256 + (if 1 < length r then ucast (r ! 1) else 0)
      in [sextet 0x00fc0000 18 c,
          sextet 0x0003f000 12 c,
          (if length r < 1 then 61 else sextet 0x00000fc0 6 c),
          (if length r < 2 then 61 else sextet 0x0000003f 0 c)]
         @ Encode_loop (drop 2 r))"

text \<open>The closing zero byte is stored behind the characters.\<close>

definition Encode :: "cstr \<Rightarrow> cstr option \<Rightarrow> base64_error + bool \<times> cstr option" where
  "Encode src dst =
     (if src = [] \<or> dst = None then Inr (False, dst)
      else
        bind_result (Base64EncodeLen (int_of_size (length src))) (\<lambda>n.
        bind_result (resize n) (\<lambda>room.
          let stored = Encode_loop src
          in if room < length stored + 1 then Inl Buffer_overrun else Inr (True, Some stored))))"

fun Decode_loop :: "nat \<Rightarrow> byte \<Rightarrow> cstr \<Rightarrow> cstr" where
  "Decode_loop i t [] = []"
| "Decode_loop i t (s # r) =
     (if s = 61 then []
      else
        let c = (if s \<noteq> 0 then Chr2Base s else 65) in
        if c = 64 then Decode_loop (Suc i) t r
        else if c = 65 then []
        else if i mod 4 = 0 then Decode_loop (Suc i) (push_bit 2 c) r
        else if i mod 4 = 1 then (t OR drop_bit 4 c) # Decode_loop (Suc i) (push_bit 4 c) r
        else if i mod 4 = 2 then (t OR drop_bit 2 c) # Decode_loop (Suc i) (push_bit 6 c) r
        else (t OR c) # Decode_loop (Suc i) t r)"

definition Decode :: "cstr \<Rightarrow> cstr option \<Rightarrow> base64_error + bool \<times> cstr option" where
  "Decode src dst =
     (if src = [] \<or> dst = None then Inr (False, dst)
      else
        bind_result (Base64DecodeLen (int_of_size (length src))) (\<lambda>n.
        bind_result (resize n) (\<lambda>room.
          let stored = Decode_loop 0 0 src
          in if room < length stored then Inl Buffer_overrun else Inr (True, Some stored))))"

section \<open>The code table\<close>

lemma base64_code_list:
  "base64_code = [
     65, 66, 67, 68, 69, 70, 71, 72, 73, 74, 75, 76, 77, 78, 79, 80, 81, 82, 83, 84, 85,
     86, 87, 88, 89, 90, 97, 98, 99, 100, 101, 102, 103, 104, 105, 106, 107, 108, 109,
     110, 111, 112, 113, 114, 115, 116, 117, 118, 119, 120, 121, 122, 48, 49, 50, 51, 52,
     53, 54, 55, 56, 57, 43, 47]"
  by (simp add: base64_code_def)

definition table_ok :: "nat \<Rightarrow> byte \<Rightarrow> bool" where
  "table_ok n c \<longleftrightarrow> Chr2Base c = of_nat n \<and> c \<noteq> 61 \<and> c \<noteq> 0 \<and> Base2Chr (of_nat n) = c"

fun table_from :: "nat \<Rightarrow> cstr \<Rightarrow> bool" where
  "table_from n [] \<longleftrightarrow> True"
| "table_from n (c # cs) \<longleftrightarrow> table_ok n c \<and> table_from (n + 1) cs"

lemma table_from_nth: "table_from n cs \<Longrightarrow> i < length cs \<Longrightarrow> table_ok (n + i) (cs ! i)"
proof (induction n cs arbitrary: i rule: table_from.induct)
  case (2 n c cs)
  then show ?case by (cases i) fastforce+
qed simp

lemma table_from_code: "table_from 0 base64_code"
  unfolding base64_code_list
  by (simp add: table_ok_def Chr2Base_def char_ge_def Base2Chr_def)

lemma table_props:
  assumes "n < 64"
  shows "Chr2Base (base64_code ! n) = of_nat n" "base64_code ! n \<noteq> 61" "base64_code ! n \<noteq> 0"
    "Base2Chr (of_nat n) = base64_code ! n"
  using table_from_nth [OF table_from_code, of n] assms
  by (simp_all add: table_ok_def base64_code_def)

section \<open>One group of three bytes\<close>

definition group24 :: "byte \<Rightarrow> byte \<Rightarrow> byte \<Rightarrow> u32" where
  "group24 a b d = (ucast a * 256 + ucast b) * 256 + ucast d"

lemma byte_ucast_bit: "bit (ucast (a :: byte) :: u32) n \<longleftrightarrow> n < 8 \<and> bit a n"
  by (auto simp: bit_simps dest: bit_imp_le_length)

lemma group24_or:
  "group24 a b d = push_bit 16 (ucast a) OR push_bit 8 (ucast b) OR ucast d"
proof -
  have d1: "push_bit 8 (ucast a) AND ucast b = (0 :: u32)"
    by (rule bit_word_eqI) (auto simp: bit_and_iff bit_push_bit_iff byte_ucast_bit)
  then have 1: "ucast a * 256 + ucast b = (push_bit 8 (ucast a) OR ucast b :: u32)"
    by (subst disjunctive_add_eq_or [symmetric]) (simp_all add: push_bit_eq_mult)
  have d2: "push_bit 8 (push_bit 8 (ucast a) OR ucast b) AND ucast d = (0 :: u32)"
    by (rule bit_word_eqI) (auto simp: bit_and_iff bit_or_iff bit_push_bit_iff byte_ucast_bit)
  have "group24 a b d = push_bit 8 (push_bit 8 (ucast a) OR ucast b) + ucast d"
    unfolding group24_def 1 by (simp add: push_bit_eq_mult)
  also have "\<dots> = push_bit 8 (push_bit 8 (ucast a) OR ucast b) OR ucast d"
    using d2 by (rule disjunctive_add_eq_or)
  finally show ?thesis by (simp add: push_bit_or ac_simps)
qed

lemma bit_group24:
  "bit (group24 a b d) n \<longleftrightarrow>
     16 \<le> n \<and> n < 24 \<and> bit a (n - 16) \<or> 8 \<le> n \<and> n < 16 \<and> bit b (n - 8) \<or> n < 8 \<and> bit d n"
  by (auto simp: group24_or bit_or_iff bit_push_bit_iff byte_ucast_bit)

text \<open>The six bits that stand from position \<open>k\<close> on.\<close>

definition six :: "nat \<Rightarrow> u32 \<Rightarrow> byte" where
  "six k c = ucast (drop_bit k c AND mask 6)"

lemma bit_six: "bit (six k c) n \<longleftrightarrow> n < 6 \<and> bit c (k + n)"
  by (auto simp: six_def bit_and_iff bit_mask_iff bit_drop_bit_eq bit_ucast_iff dest: bit_imp_le_length)

lemma sextet_six:
  assumes "m = push_bit k (mask 6)" "k + 6 \<le> 32"
  shows "Chr2Base (sextet m k c) = six k c \<and> sextet m k c \<noteq> 61 \<and> sextet m k c \<noteq> 0"
proof -
  have eq: "drop_bit k (c AND m) = drop_bit k c AND mask 6"
    using assms by (intro bit_word_eqI)
      (auto simp: bit_and_iff bit_drop_bit_eq bit_push_bit_iff bit_mask_iff)
  have lt: "unat (drop_bit k c AND mask 6) < 64"
    using and_mask_less_size [of 6 "drop_bit k c"]
    by (simp add: word_less_nat_alt word_size)
  then show ?thesis
    unfolding sextet_def eq by (simp add: table_props six_def)
qed

lemma six_not_special: "six k c \<noteq> 64 \<and> six k c \<noteq> 65"
proof -
  have "\<not> bit (six k c) 6" by (simp add: bit_six)
  then show ?thesis by (auto simp: bit_numeral_rec)
qed

lemmas sextets = sextet_six [of "0x00fc0000" 18] sextet_six [of "0x0003f000" 12]
  sextet_six [of "0x00000fc0" 6] sextet_six [of "0x0000003f" 0]

lemma decode_char:
  assumes "s \<noteq> 61 \<and> s \<noteq> 0" "Chr2Base s = six k c"
  shows "Decode_loop i t (s # r) =
     (if i mod 4 = 0 then Decode_loop (Suc i) (push_bit 2 (six k c)) r
      else if i mod 4 = 1 then (t OR drop_bit 4 (six k c)) # Decode_loop (Suc i) (push_bit 4 (six k c)) r
      else if i mod 4 = 2 then (t OR drop_bit 2 (six k c)) # Decode_loop (Suc i) (push_bit 6 (six k c)) r
      else (t OR six k c) # Decode_loop (Suc i) t r)"
  using assms by (simp add: six_not_special Let_def)

lemma decode_pad: "Decode_loop i t (61 # r) = []"
  by simp

lemma group_bytes:
  "push_bit 2 (six 18 (group24 a b d)) OR drop_bit 4 (six 12 (group24 a b d)) = a"
  "push_bit 4 (six 12 (group24 a b d)) OR drop_bit 2 (six 6 (group24 a b d)) = b"
  "push_bit 6 (six 6 (group24 a b d)) OR six 0 (group24 a b d) = d"
  by (rule byte_eqI, simp add: bit_or_iff bit_push_bit_iff bit_drop_bit_eq bit_six bit_group24;
      simp add: numeral_2_eq_2 numeral_3_eq_3)+


lemma Encode_loop_simps:
  "Encode_loop [a] = [sextet 0x00fc0000 18 (group24 a 0 0), sextet 0x0003f000 12 (group24 a 0 0), 61, 61]"
  "Encode_loop [a, b] =
     [sextet 0x00fc0000 18 (group24 a b 0), sextet 0x0003f000 12 (group24 a b 0),
      sextet 0x00000fc0 6 (group24 a b 0), 61]"
  "Encode_loop (a # b # d # r) =
     [sextet 0x00fc0000 18 (group24 a b d), sextet 0x0003f000 12 (group24 a b d),
      sextet 0x00000fc0 6 (group24 a b d), sextet 0x0000003f 0 (group24 a b d)] @ Encode_loop r"
  by (simp_all add: group24_def Let_def)

declare Encode_loop.simps(2) [simp del] Decode_loop.simps(2) [simp del]

text \<open>Induction in steps of three bytes.\<close>

fun by_three :: "'a list \<Rightarrow> nat" where
  "by_three [] = 0"
| "by_three [a] = 1"
| "by_three [a, b] = 1"
| "by_three (a # b # d # r) = Suc (by_three r)"

lemma decode_encode_loop: "i mod 4 = 0 \<Longrightarrow> Decode_loop i t (Encode_loop s) = s"
proof (induction s arbitrary: i t rule: by_three.induct)
  case 1
  show ?case by simp
next
  case (2 a)
  then show ?case
    using group_bytes(1) [of a 0 0] by (simp add: Encode_loop_simps sextets decode_char decode_pad mask_eq_exp_minus_1 mod_Suc)
next
  case (3 a b)
  then show ?case
    using group_bytes(1,2) [of a b 0] by (simp add: Encode_loop_simps sextets decode_char decode_pad mask_eq_exp_minus_1 mod_Suc)
next
  case (4 a b d r)
  then show ?case
    using group_bytes [of a b d] by (simp add: Encode_loop_simps sextets decode_char decode_pad mask_eq_exp_minus_1 mod_Suc)
qed

lemma length_Encode_loop: "length (Encode_loop s) = (length s + 2) div 3 * 4"
proof (induction s rule: by_three.induct)
  case (4 a b d r)
  have "(5 + length r) div 3 = Suc (Suc (Suc (length r)) div 3)" by presburger
  with 4 show ?case by (simp add: Encode_loop_simps)
qed (simp_all add: Encode_loop_simps)

lemma quarter_step:
  "(Suc i + 3) div 4 \<le> Suc ((i + 3) div (4 :: nat))"
  "i mod 4 \<noteq> 0 \<Longrightarrow> (Suc i + 3) div 4 = (i + 3) div (4 :: nat)"
  by presburger+

lemma quarter_steps: "(i + m + 3) div 4 \<le> m + (i + 3) div (4 :: nat)"
proof -
  have "(i + m + 3) div 4 \<le> (i + 3 + m * 4) div 4" by (rule div_le_mono) simp
  then show ?thesis by (simp only: div_mult_self1 [of 4 "i + 3" m] zero_neq_numeral not_False_eq_True)
qed

lemma length_Decode_loop:
  "length (Decode_loop i t s) + (i + length s + 3) div 4 \<le> length s + (i + 3) div 4"
proof (induction s arbitrary: i t)
  case (Cons s r)
  have step: "length (Decode_loop (Suc i) t' r) + (i + Suc (length r) + 3) div 4
      \<le> length r + (Suc i + 3) div 4" for t'
    using Cons [of "Suc i" t'] by simp
  let ?R = "\<lambda>n. n + (i + Suc (length r) + 3) div 4 \<le> Suc (length r) + (i + 3) div 4"
  have keep: "?R (length (Decode_loop (Suc i) t' r))" for t'
    using step [of t'] quarter_step(1) [of i] by linarith
  have put: "i mod 4 \<noteq> 0 \<Longrightarrow> ?R (Suc (length (Decode_loop (Suc i) t' r)))" for t'
    using step [of t'] quarter_step(2) [of i] by linarith
  have "?R 0" using quarter_steps [of i "Suc (length r)"] by simp
  with keep put show ?case by (simp add: Decode_loop.simps(2) Let_def)
qed simp

section \<open>Buffers\<close>

text \<open>The longest source of \<open>Encode\<close> whose encoded length, with the zero byte, is an \<open>int\<close>.\<close>

definition encode_limit :: nat where
  "encode_limit = 1610612733"

lemma int_of_size_small [simp]: "n < 2 ^ 31 \<Longrightarrow> int_of_size n = int n"
  by (simp add: int_of_size_def signed_of_nat signed_take_bit_int_eq_self)

lemma resize_bound: "resize n = Inr room \<Longrightarrow> int room = n"
  by (auto simp: resize_def split: if_splits)

lemma int_result_bound: "int_result x = Inr y \<Longrightarrow> y = x \<and> x < 2 ^ 31"
  by (auto simp: int_result_def split: if_splits)

lemma sdiv_nat: "0 < k \<Longrightarrow> int m sdiv int k = int (m div k)"
  by (cases "m = 0") (simp_all add: signed_divide_int_def zdiv_int)

lemma Encode_fits:
  assumes "src \<noteq> []" "length src \<le> encode_limit"
  shows "Encode src (Some d) = Inr (True, Some (Encode_loop src))"
proof -
  let ?n = "length src"
  have s: "(int ?n + 2) sdiv 3 = int ((?n + 2) div 3)" using sdiv_nat [of 3 "?n + 2"] by (simp add: add.commute)
  have "(?n + 2) div 3 \<le> 536870911" using assms(2) unfolding encode_limit_def by presburger
  then have "int ((?n + 2) div 3) * 4 \<le> 2147483644" by simp
  moreover have "int ?n + 2 < 2 ^ 31" using assms(2) by (simp add: encode_limit_def)
  ultimately have "Base64EncodeLen (int ?n) = Inr (int ((?n + 2) div 3) * 4 + 1)"
    by (simp add: Base64EncodeLen_def int_result_def s)
  moreover have "int_of_size ?n = int ?n" using assms(2) by (intro int_of_size_small) (simp add: encode_limit_def)
  ultimately show ?thesis
    using assms(1) by (simp add: Encode_def resize_def length_Encode_loop Let_def nat_add_distrib nat_mult_distrib)
qed

lemma Encode_too_long:
  assumes "encode_limit < length src"
  shows "\<exists>e. Encode src (Some d) = Inl e"
proof (rule ccontr)
  assume "\<nexists>e. Encode src (Some d) = Inl e"
  moreover have "src \<noteq> []" using assms by auto
  ultimately obtain r where r: "Encode src (Some d) = Inr r" by (cases "Encode src (Some d)") auto
  with \<open>src \<noteq> []\<close> obtain n room where n: "Base64EncodeLen (int_of_size (length src)) = Inr n" "resize n = Inr room"
    "length src \<noteq> 0" "length (Encode_loop src) + 1 \<le> room"
    by (auto simp: Encode_def Let_def split: if_splits dest!: bind_result_Inr)
  have "n < 2 ^ 31" using n(1) by (auto simp: Base64EncodeLen_def dest!: bind_result_Inr int_result_bound)
  with resize_bound [OF n(2)] n(4) have "(length src + 2) div 3 * 4 + 1 < 2 ^ 31" by (simp add: length_Encode_loop)
  then have "(length src + 2) div 3 * 4 + 1 < 2147483648" by simp
  with assms show False unfolding encode_limit_def by presburger
qed

lemma Decode_fits:
  assumes "src \<noteq> []" "length src < 2 ^ 31"
  shows "Decode src (Some d) = Inr (True, Some (Decode_loop 0 0 src))"
proof -
  let ?n = "length src"
  have s: "int ?n sdiv 4 = int (?n div 4)" using sdiv_nat [of 4 ?n] by simp
  have "?n div 4 \<le> 536870911" using assms(2) by simp
  then have b: "int (?n div 4) * 3 \<le> 1610612733" by simp
  then have "Base64DecodeLen (int ?n) = Inr (int (?n div 4) * 3 + 2)"
    by (simp add: Base64DecodeLen_def int_result_def s)
  moreover have "length (Decode_loop 0 0 src) + (?n + 3) div 4 \<le> ?n" using length_Decode_loop [of 0 0 src] by simp
  then have "length (Decode_loop 0 0 src) \<le> ?n div 4 * 3 + 2" by presburger
  ultimately show ?thesis
    using assms by (simp add: Decode_def resize_def Let_def nat_add_distrib nat_mult_distrib)
qed

lemma Decode_Encode_loop:
  assumes "src \<noteq> []" "length src \<le> encode_limit"
  shows "Decode (Encode_loop src) (Some d) = Inr (True, Some src)"
proof -
  have l: "length (Encode_loop src) = (length src + 2) div 3 * 4" by (rule length_Encode_loop)
  have "(length src + 2) div 3 * 4 < 2147483648" using assms(2) unfolding encode_limit_def by presburger
  moreover have "Encode_loop src \<noteq> []" using l assms(1) by (cases src) auto
  ultimately show ?thesis using Decode_fits [of "Encode_loop src" d] l by (simp add: decode_encode_loop)
qed

section \<open>Properties\<close>

text \<open>
  Base64 round trip: for every string that is not empty and not longer than an encoded length of
  \<open>int\<close> admits, \<open>Encode\<close> succeeds, \<open>Decode\<close> succeeds on what it gives, and gives the string back,
  whatever the two destinations held before; on an empty source both fail and leave the destination
  alone.
\<close>

theorem base64_roundtrip:
  "(src \<noteq> [] \<and> length src \<le> encode_limit \<longrightarrow>
      (\<exists>e. Encode src (Some d1) = Inr (True, Some e) \<and> Decode e (Some d2) = Inr (True, Some src))) \<and>
   Encode [] (Some d1) = Inr (False, Some d1) \<and> Decode [] (Some d2) = Inr (False, Some d2)"
  using Encode_fits [of src d1] Decode_Encode_loop [of src d2] by (auto simp: Encode_def Decode_def)

theorem base64_roundtrip_witness:
  "\<exists>e. Encode (bytes ''lspf'') (Some []) = Inr (True, Some e) \<and>
       Decode e (Some [1]) = Inr (True, Some (bytes ''lspf''))"
  using base64_roundtrip [of "bytes ''lspf''" "[]" "[1]"] by (simp add: encode_limit_def)

text \<open>
  C38. Buffers of base64. \<open>Encode\<close> of a source that is not empty stores all its characters and the closing
  zero byte inside the buffer of \<open>Base64EncodeLen\<close> bytes, with no overflow of the \<open>int\<close> arithmetic, exactly
  when the source has at most 1610612733 bytes; for longer ones the arithmetic overflows, \<open>resize\<close> throws or
  the buffer is overrun. \<open>Decode\<close> stays inside its buffer for any source of less than \<open>2 ^ 31\<close> bytes,
  valid base64 or not.
\<close>

theorem base64_buffers:
  assumes "src \<noteq> []"
  shows "((\<exists>e. Encode src (Some d) = Inr (True, Some e)) \<longleftrightarrow> length src \<le> 1610612733) \<and>
     (length src < 2 ^ 31 \<longrightarrow> (\<exists>s. Decode src (Some d) = Inr (True, Some s)))"
  using Encode_fits [OF assms, of d] Encode_too_long [of src d] Decode_fits [OF assms, of d]
  unfolding encode_limit_def by (metis not_le sum.distinct(1))

theorem base64_buffers_witness:
  "(\<exists>e. Encode (bytes ''lspf'') (Some []) = Inr (True, Some e)) \<and>
   (\<exists>s. Decode (bytes ''lspf'') (Some []) = Inr (True, Some s))"
  using base64_buffers [of "bytes ''lspf''" "[]"] by simp

text \<open>
  The size is narrowed without a check: for a source of \<open>2 ^ 32 + 3\<close> bytes \<open>Encode\<close> allocates the five
  bytes for a source of three, and writes past them.
\<close>

lemma encode_narrowed: "length src = 2 ^ 32 + 3 \<Longrightarrow> Encode src (Some d) = Inl Buffer_overrun"
proof -
  assume l: "length src = 2 ^ 32 + 3"
  then have "int_of_size (length src) = 3" by (simp add: int_of_size_def)
  moreover have "Base64EncodeLen 3 = Inr 5" by (simp add: Base64EncodeLen_def int_result_def signed_divide_int_def)
  moreover have "src \<noteq> []" using l by auto
  ultimately show ?thesis using l by (simp add: Encode_def resize_def length_Encode_loop Let_def)
qed

end
