(* ===== verification/Xxtea.thy ===== *)
theory Xxtea
  imports Base64_Codec
begin

text \<open>
  \<open>XxteaCrypto\<close> (\<open>source/crypto_alg/xxtea_crypto.cpp\<close>): the XXTEA block cipher over the 32-bit
  words of the source string, with the length of the string as the last word and base64 around the
  cipher text. \<open>unsigned int\<close> is a 32-bit word, so that the additions wrap; the vector the loops
  update in place is a list updated by index. The destination parameter, which the source leaves as
  it was on its early returns, is the last argument.
\<close>

section \<open>Bytes and words\<close>

definition word_count :: "cstr \<Rightarrow> nat" where
  "word_count src =
     (if length src mod 4 = 0 then length src div 4 else length src div 4 + 1)"

fun arrayByteToInt_loop :: "nat \<Rightarrow> cstr \<Rightarrow> u32 list \<Rightarrow> u32 list" where
  "arrayByteToInt_loop i [] dest = dest"
| "arrayByteToInt_loop i (c # src) dest =
     arrayByteToInt_loop (Suc i) src
       (dest[i div 4 := dest ! (i div 4) OR push_bit (8 * (i mod 4)) (0x000000ff AND ucast c)])"

definition arrayByteToInt :: "cstr \<Rightarrow> bool \<Rightarrow> u32 list" where
  "arrayByteToInt src include_length =
     (let n = word_count src;
          dest = (if include_length then replicate n 0 @ [of_nat (length src)] else replicate n 0)
      in arrayByteToInt_loop 0 src dest)"

definition arrayIntToByte :: "u32 list \<Rightarrow> bool \<Rightarrow> cstr \<Rightarrow> cstr" where
  "arrayIntToByte src include_length dest =
     (let n = (4 * length src) mod 2 ^ 32;
          m = unat (src ! (length src - 1));
          result = (\<lambda>k. map (\<lambda>i. ucast (drop_bit (8 * (i mod 4)) (src ! (i div 4)) AND 0xff)) [0..<k])
      in if include_length
         then (if n < m then dest else result m)
         else result n)"

section \<open>The cipher\<close>

definition delta :: u32 where
  "delta = 0x9E3779B9"

definition MX :: "u32 list \<Rightarrow> u32 \<Rightarrow> u32 \<Rightarrow> u32 \<Rightarrow> nat \<Rightarrow> u32 \<Rightarrow> u32" where
  "MX k z y sm p e =
     ((drop_bit 5 z XOR push_bit 2 y) + (drop_bit 3 y XOR push_bit 4 z)) XOR
     ((sm XOR y) + (k ! unat ((of_nat p AND 3) XOR e) XOR z))"

definition MX_OLD :: "u32 list \<Rightarrow> u32 \<Rightarrow> u32 \<Rightarrow> u32 \<Rightarrow> nat \<Rightarrow> u32 \<Rightarrow> u32" where
  "MX_OLD k z y sm p e =
     (drop_bit 5 z XOR push_bit 2 y) + ((drop_bit 3 y XOR push_bit 4 z) XOR (sm XOR y)) +
     (k ! unat ((of_nat p AND 3) XOR e) XOR z)"

definition mix :: "bool \<Rightarrow> u32 list \<Rightarrow> u32 \<Rightarrow> u32 \<Rightarrow> u32 \<Rightarrow> nat \<Rightarrow> u32 \<Rightarrow> u32" where
  "mix if_old_alg k = (if if_old_alg then MX_OLD k else MX k)"

definition realKey :: "cstr \<Rightarrow> cstr" where
  "realKey key =
     (if key = [] then bytes ''__TOOLKITS_DEF__''
      else if 16 \<le> length key then take 16 key
      else key @ replicate (16 - length key) 0)"

text \<open>
  One round of \<open>Encrypt\<close>: the loop over \<open>p < n\<close> and then the last word, with \<open>z\<close> carried from
  one word to the next.
\<close>

fun enc_words :: "(u32 \<Rightarrow> u32 \<Rightarrow> nat \<Rightarrow> u32) \<Rightarrow> nat \<Rightarrow> nat \<Rightarrow> u32 \<times> u32 list \<Rightarrow> u32 \<times> u32 list" where
  "enc_words f p 0 (z, v) = (z, v)"
| "enc_words f p (Suc k) (z, v) =
     (let y = v ! (p + 1); z' = v ! p + f z y p in enc_words f (Suc p) k (z', v[p := z']))"

definition enc_round :: "(u32 \<Rightarrow> u32 \<Rightarrow> nat \<Rightarrow> u32) \<Rightarrow> nat \<Rightarrow> u32 \<times> u32 list \<Rightarrow> u32 \<times> u32 list" where
  "enc_round f n s =
     (let (z, v) = enc_words f 0 n s; y = v ! 0; z' = v ! n + f z y n in (z', v[n := z']))"

fun enc_rounds :: "bool \<Rightarrow> u32 list \<Rightarrow> nat \<Rightarrow> nat \<Rightarrow> u32 \<Rightarrow> u32 \<times> u32 list \<Rightarrow> u32 list" where
  "enc_rounds old k n 0 sm s = snd s"
| "enc_rounds old k n (Suc q) sm s =
     (let sm1 = sm + delta; e = drop_bit 2 sm1 AND 3
      in enc_rounds old k n q sm1 (enc_round (\<lambda>z y p. mix old k z y sm1 p e) n s))"

definition rounds :: "nat \<Rightarrow> nat" where
  "rounds n = 6 + 52 div (n + 1)"

definition Encrypt :: "cstr \<Rightarrow> cstr \<Rightarrow> cstr \<Rightarrow> bool \<Rightarrow> base64_error + cstr" where
  "Encrypt src key dest if_old_alg =
     (let vec_src = arrayByteToInt src True;
          vec_key = arrayByteToInt (realKey key) False
      in if length vec_src < 2 then Inr dest
         else if length vec_key < 4 then Inr dest
         else
           let n = length vec_src - 1;
               v = enc_rounds if_old_alg vec_key n (rounds n) 0 (vec_src ! n, vec_src)
           in bind_result (Encode (arrayIntToByte v False []) (Some dest)) (\<lambda>(_, dst). Inr (the dst)))"

text \<open>
  One round of \<open>Decrypt\<close> runs from the last word down to the first with \<open>y\<close> carried, and the rounds
  end when \<open>sum\<close>, which starts at \<open>q * delta\<close>, is zero; the argument \<open>fuel\<close> bounds their number.
\<close>

fun dec_words :: "(u32 \<Rightarrow> u32 \<Rightarrow> nat \<Rightarrow> u32) \<Rightarrow> nat \<Rightarrow> u32 \<times> u32 list \<Rightarrow> u32 \<times> u32 list" where
  "dec_words f 0 (y, v) = (y, v)"
| "dec_words f (Suc p) (y, v) =
     (let z = v ! p; y' = v ! Suc p - f z y (Suc p) in dec_words f p (y', v[Suc p := y']))"

definition dec_round :: "(u32 \<Rightarrow> u32 \<Rightarrow> nat \<Rightarrow> u32) \<Rightarrow> nat \<Rightarrow> u32 \<times> u32 list \<Rightarrow> u32 \<times> u32 list" where
  "dec_round f n s =
     (let (y, v) = dec_words f n s; z = v ! n; y' = v ! 0 - f z y 0 in (y', v[0 := y']))"

fun dec_rounds :: "nat \<Rightarrow> bool \<Rightarrow> u32 list \<Rightarrow> nat \<Rightarrow> u32 \<Rightarrow> u32 \<times> u32 list \<Rightarrow> u32 list option" where
  "dec_rounds 0 old k n sm s = None"
| "dec_rounds (Suc fuel) old k n sm s =
     (if sm = 0 then Some (snd s)
      else
        let e = drop_bit 2 sm AND 3
        in dec_rounds fuel old k n (sm - delta) (dec_round (\<lambda>z y p. mix old k z y sm p e) n s))"

text \<open>\<open>Decrypt\<close>; \<open>None\<close> when the rounds have not ended within the fuel of 33 loop tests, one more than the largest number of rounds.\<close>

definition Decrypt :: "cstr \<Rightarrow> cstr \<Rightarrow> cstr \<Rightarrow> bool \<Rightarrow> base64_error + cstr option" where
  "Decrypt src key dest if_old_alg =
     bind_result (Decode src (Some [])) (\<lambda>(_, dst).
       let src_base64 = the dst;
           vec_src = arrayByteToInt src_base64 False;
           vec_key = arrayByteToInt (realKey key) False
       in if length vec_src < 2 then Inr (Some dest)
          else if length vec_key < 4 then Inr (Some dest)
          else
            let n = length vec_src - 1
            in Inr (map_option (\<lambda>v. arrayIntToByte v True dest)
                 (dec_rounds 33 if_old_alg vec_key n (of_nat (rounds n) * delta) (vec_src ! 0, vec_src))))"

section \<open>One round and its inverse\<close>

lemma enc_words_spec:
  "enc_words f p k (z, v) = (z', v') \<Longrightarrow> p + k < length v \<Longrightarrow>
     length v' = length v \<and> (\<forall>j. j < p \<or> p + k \<le> j \<longrightarrow> v' ! j = v ! j) \<and>
     (\<forall>j. p \<le> j \<and> j < p + k \<longrightarrow> v' ! j = v ! j + f (if j = p then z else v' ! (j - 1)) (v ! (j + 1)) j) \<and>
     z' = (if k = 0 then z else v' ! (p + k - 1))"
proof (induction k arbitrary: p z v)
  case (Suc k)
  let ?z = "v ! p + f z (v ! (p + 1)) p"
  from Suc.prems have r: "enc_words f (Suc p) k (?z, v[p := ?z]) = (z', v')" by (simp add: Let_def)
  from Suc.prems(2) have "Suc p + k < length (v[p := ?z])" by simp
  from Suc.IH [OF r this] have
    l: "length v' = length v" and
    same: "\<And>j. j < Suc p \<or> Suc p + k \<le> j \<Longrightarrow> v' ! j = v[p := ?z] ! j" and
    new: "\<And>j. Suc p \<le> j \<and> j < Suc p + k \<Longrightarrow>
      v' ! j = v[p := ?z] ! j + f (if j = Suc p then ?z else v' ! (j - 1)) (v[p := ?z] ! (j + 1)) j" and
    last: "z' = (if k = 0 then ?z else v' ! (Suc p + k - 1))"
    by auto
  have vp: "v' ! p = ?z" using same [of p] Suc.prems(2) by simp
  have "v' ! j = v ! j + f (if j = p then z else v' ! (j - 1)) (v ! (j + 1)) j"
    if "p \<le> j" "j < p + Suc k" for j
  proof (cases "j = p")
    case False
    with that have "Suc p \<le> j \<and> j < Suc p + k" by simp
    from new [OF this] False that vp show ?thesis by (cases "j = Suc p") simp_all
  qed (simp add: vp)
  moreover have "v' ! j = v ! j" if "j < p \<or> p + Suc k \<le> j" for j
    using that same [of j] by auto
  moreover have "z' = v' ! (p + k)" using last vp by simp
  ultimately show ?case using l by simp
qed auto

lemma dec_words_spec:
  "p \<le> n \<Longrightarrow> 0 < n \<Longrightarrow> length w = Suc n \<Longrightarrow> length v = Suc n \<Longrightarrow>
     \<forall>j. 1 \<le> j \<and> j \<le> p \<longrightarrow> w ! j = v ! j + f (w ! (j - 1)) (if j = n then w ! 0 else v ! (j + 1)) j \<Longrightarrow>
     dec_words f p (if p = n then w ! 0 else v ! Suc p, take (Suc p) w @ drop (Suc p) v) =
       (v ! 1, take 1 w @ drop 1 v)"
proof (induction p)
  case (Suc p)
  let ?y = "if Suc p = n then w ! 0 else v ! Suc (Suc p)"
  let ?c = "take (Suc (Suc p)) w @ drop (Suc (Suc p)) v"
  have at: "?c ! Suc p = w ! Suc p" "?c ! p = w ! p" using Suc.prems by (simp_all add: nth_append)
  have "w ! Suc p = v ! Suc p + f (w ! p) ?y (Suc p)" using Suc.prems(5) by simp
  then have y: "?c ! Suc p - f (?c ! p) ?y (Suc p) = v ! Suc p" using at by simp
  have "?c[Suc p := v ! Suc p] = take (Suc p) w @ drop (Suc p) v"
    using Suc.prems by (simp add: take_Suc_conv_app_nth list_update_append Cons_nth_drop_Suc)
  with y have "dec_words f (Suc p) (?y, ?c) = dec_words f p (v ! Suc p, take (Suc p) w @ drop (Suc p) v)"
    unfolding dec_words.simps Let_def by (simp only:)
  with Suc show ?case by simp
qed simp

lemma round_inverse:
  assumes "0 < n" "length v = Suc n" and e: "enc_round f n (v ! n, v) = (z', w)"
  shows "length w = Suc n \<and> z' = w ! n \<and> dec_round f n (w ! 0, w) = (v ! 0, v)"
proof -
  obtain z u where u: "enc_words f 0 n (v ! n, v) = (z, u)" by (cases "enc_words f 0 n (v ! n, v)")
  note spec = enc_words_spec [OF u, simplified assms(2), simplified]
  from spec assms(1) have l: "length u = Suc n" "u ! n = v ! n" "z = u ! (n - 1)" by auto
  from e u have w: "w = u[n := u ! n + f z (u ! 0) n]" "z' = w ! n"
    using l by (auto simp: enc_round_def Let_def)
  then have wl: "length w = Suc n" "w ! 0 = u ! 0" using l assms(1) by auto
  have mid: "w ! j = v ! j + f (w ! (j - 1)) (if j = n then w ! 0 else v ! (j + 1)) j"
    if "1 \<le> j" "j \<le> n" for j
  proof (cases "j = n")
    case True
    with w l wl assms(1) show ?thesis by simp
  next
    case False
    with that spec have "u ! j = v ! j + f (u ! (j - 1)) (v ! (j + 1)) j" by (auto split: if_splits)
    with False that w show ?thesis by simp
  qed
  have first: "w ! 0 = v ! 0 + f (v ! n) (v ! 1) 0" using spec assms(1) wl by auto
  have "dec_words f n (w ! 0, w) = (v ! 1, take 1 w @ drop 1 v)"
    using dec_words_spec [OF le_refl assms(1) wl(1) assms(2), of f] mid wl assms(2) by simp
  moreover have "(take 1 w @ drop 1 v) ! n = v ! n" "(take 1 w @ drop 1 v) ! 0 = w ! 0"
    "(take 1 w @ drop 1 v)[0 := v ! 0] = v"
    using assms wl by (cases w; cases v; simp add: nth_append)+
  ultimately have "dec_round f n (w ! 0, w) = (v ! 0, v)"
    using first by (simp add: dec_round_def Let_def)
  with wl w show ?thesis by blast
qed

section \<open>All rounds\<close>

lemma rounds_le: "0 < n \<Longrightarrow> rounds n \<le> 32"
proof -
  assume "0 < n"
  then have "52 div (n + 1) \<le> 52 div 2" by (intro div_le_mono2) auto
  then show ?thesis by (simp add: rounds_def)
qed

text \<open>\<open>delta\<close> is odd, so that its multiples up to the 32nd are not zero.\<close>

lemma delta_multiple:
  assumes "0 < q" "q \<le> 32"
  shows "of_nat q * delta \<noteq> 0"
proof -
  have "q \<in> set [1..<33]" using assms by simp
  then show ?thesis
    by (simp add: upt_rec numeral_eq_Suc flip: numeral_eq_Suc) (elim disjE; simp add: delta_def)
qed

lemma length_enc_rounds:
  assumes "0 < n"
  shows "length v = Suc n \<Longrightarrow> length (enc_rounds old k n q sm (v ! n, v)) = Suc n"
proof (induction q arbitrary: sm v)
  case (Suc q)
  let ?f = "\<lambda>z y p. mix old k z y (sm + delta) p (drop_bit 2 (sm + delta) AND 3)"
  obtain z w where w: "enc_round ?f n (v ! n, v) = (z, w)" by (cases "enc_round ?f n (v ! n, v)")
  from round_inverse [OF assms Suc.prems w] Suc.IH [of w "sm + delta"] w show ?case
    by (simp add: Let_def)
qed simp

lemma enc_rounds_snoc:
  assumes "0 < n"
  shows "length v = Suc n \<Longrightarrow>
    (let sm1 = sm + of_nat (Suc q) * delta; u = enc_rounds old k n q sm (v ! n, v)
     in enc_rounds old k n (Suc q) sm (v ! n, v) =
        snd (enc_round (\<lambda>z y p. mix old k z y sm1 p (drop_bit 2 sm1 AND 3)) n (u ! n, u)))"
proof (induction q arbitrary: sm v)
  case (Suc q)
  let ?f = "\<lambda>z y p. mix old k z y (sm + delta) p (drop_bit 2 (sm + delta) AND 3)"
  obtain z w where w: "enc_round ?f n (v ! n, v) = (z, w)" by (cases "enc_round ?f n (v ! n, v)")
  from round_inverse [OF assms Suc.prems w] have wl: "length w = Suc n" "z = w ! n" by auto
  have s: "enc_rounds old k n (Suc q') sm (v ! n, v) = enc_rounds old k n q' (sm + delta) (w ! n, w)" for q'
    using w wl by (simp add: Let_def)
  have sm1: "sm + of_nat (Suc (Suc q)) * delta = (sm + delta) + of_nat (Suc q) * delta"
    by (simp add: algebra_simps)
  show ?case
    using Suc.IH [OF wl(1), of "sm + delta"] unfolding s Let_def sm1 .
qed (simp add: Let_def)

lemma dec_enc_rounds:
  assumes "0 < n"
  shows "q \<le> 32 \<Longrightarrow> q < fuel \<Longrightarrow> length v = Suc n \<Longrightarrow> w = enc_rounds old k n q 0 (v ! n, v) \<Longrightarrow>
    dec_rounds fuel old k n (of_nat q * delta) (w ! 0, w) = Some v"
proof (induction q arbitrary: w fuel)
  case 0
  then show ?case by (cases fuel) simp_all
next
  case (Suc q)
  let ?s = "of_nat (Suc q) * delta"
  let ?f = "\<lambda>z y p. mix old k z y ?s p (drop_bit 2 ?s AND 3)"
  define u where "u = enc_rounds old k n q 0 (v ! n, v)"
  have ul: "length u = Suc n" unfolding u_def by (rule length_enc_rounds [OF assms Suc.prems(3)])
  have w: "w = snd (enc_round ?f n (u ! n, u))"
    using enc_rounds_snoc [OF assms Suc.prems(3), of 0 q old k] Suc.prems(4)
    by (simp add: Let_def u_def)
  obtain z where "enc_round ?f n (u ! n, u) = (z, w)" using w by (cases "enc_round ?f n (u ! n, u)") simp
  from round_inverse [OF assms ul this] have d: "dec_round ?f n (w ! 0, w) = (u ! 0, u)" by blast
  from Suc.prems obtain fuel' where fuel: "fuel = Suc fuel'" "q < fuel'" by (cases fuel) auto
  have nz: "?s \<noteq> 0" using delta_multiple [of "Suc q"] Suc.prems(1) by simp
  have "?s - delta = of_nat q * delta" by (simp add: algebra_simps)
  then have "dec_rounds fuel old k n ?s (w ! 0, w) = dec_rounds fuel' old k n (of_nat q * delta) (u ! 0, u)"
    using nz d unfolding fuel dec_rounds.simps Let_def by (simp only: if_False)
  also have "\<dots> = Some v"
    using Suc.IH [OF _ fuel(2) Suc.prems(3) u_def] Suc.prems(1) by simp
  finally show ?case .
qed

section \<open>Bytes to words and back\<close>

definition word_byte :: "u32 \<Rightarrow> nat \<Rightarrow> byte" where
  "word_byte w j = ucast (drop_bit (8 * j) w AND 0xff)"

lemma mask_ff: "(0xff :: u32) = mask 8"
  by (simp add: mask_eq_exp_minus_1)

lemma bit_word_byte: "bit (word_byte w j) b \<longleftrightarrow> b < 8 \<and> bit w (8 * j + b)"
  by (auto simp: word_byte_def mask_ff bit_ucast_iff bit_and_iff bit_mask_iff bit_drop_bit_eq
      dest: bit_imp_le_length)

lemma word_byte_0 [simp]: "word_byte 0 j = 0"
  by (simp add: word_byte_def)

lemma word_byte_or:
  assumes "k < 4" "j < 4"
  shows "word_byte (w OR push_bit (8 * k) (0x000000ff AND ucast c)) j = word_byte w j OR (if j = k then c else 0)"
proof (rule bit_word_eqI)
  fix b assume b: "b < LENGTH(8)"
  have "8 * k \<le> 8 * j + b \<and> 8 * j + b - 8 * k < 8 \<longleftrightarrow> j = k" using b by auto
  moreover have "bit (ucast c :: u32) i \<longleftrightarrow> bit c i" for i
    by (auto simp: bit_ucast_iff dest: bit_imp_le_length)
  ultimately show "bit (word_byte (w OR push_bit (8 * k) (0x000000ff AND ucast c)) j) b =
      bit (word_byte w j OR (if j = k then c else 0)) b"
    using b assms
    by (auto simp: bit_word_byte bit_or_iff bit_push_bit_iff mask_ff bit_and_iff bit_mask_iff
        dest: bit_imp_le_length)
qed

lemma word_eq_bytes:
  assumes "\<And>j. j < 4 \<Longrightarrow> word_byte w j = word_byte w' j"
  shows "w = w'"
proof (rule bit_word_eqI)
  fix b assume b: "b < LENGTH(32)"
  then have "bit (word_byte w (b div 8)) (b mod 8) = bit (word_byte w' (b div 8)) (b mod 8)"
    using assms [of "b div 8"] by simp
  then show "bit w b = bit w' b" by (simp add: bit_word_byte)
qed

lemma length_arrayByteToInt_loop [simp]: "length (arrayByteToInt_loop i src dest) = length dest"
  by (induction i src dest rule: arrayByteToInt_loop.induct) simp_all

lemma arrayByteToInt_loop_byte:
  "k div 4 < length dest \<Longrightarrow>
     word_byte (arrayByteToInt_loop i src dest ! (k div 4)) (k mod 4) =
       word_byte (dest ! (k div 4)) (k mod 4) OR (if i \<le> k \<and> k < i + length src then src ! (k - i) else 0)"
proof (induction i src dest rule: arrayByteToInt_loop.induct)
  case (2 i c src dest)
  let ?d = "dest[i div 4 := dest ! (i div 4) OR push_bit (8 * (i mod 4)) (0x000000ff AND ucast c)]"
  have step: "word_byte (?d ! (k div 4)) (k mod 4) =
      word_byte (dest ! (k div 4)) (k mod 4) OR (if k = i then c else 0)"
  proof (cases "k div 4 = i div 4")
    case True
    then have "k = i \<longleftrightarrow> k mod 4 = i mod 4" by (metis div_mult_mod_eq)
    with True "2.prems" word_byte_or [of "i mod 4" "k mod 4" "dest ! (i div 4)" c] show ?thesis
      by (simp del: push_bit_and)
  qed auto
  have IH: "word_byte (arrayByteToInt_loop (Suc i) src ?d ! (k div 4)) (k mod 4) =
      word_byte (?d ! (k div 4)) (k mod 4) OR
      (if Suc i \<le> k \<and> k < Suc i + length src then src ! (k - Suc i) else 0)"
    using "2.IH" "2.prems" by simp
  show ?case
    unfolding arrayByteToInt_loop.simps IH step
    by (cases "k = i") (auto simp: nth_Cons' ac_simps)
qed auto

lemma arrayByteToInt_loop_other:
  "(i + length src + 3) div 4 \<le> j \<Longrightarrow> arrayByteToInt_loop i src dest ! j = dest ! j"
proof (induction i src dest rule: arrayByteToInt_loop.induct)
  case (2 i c src dest)
  have "i div 4 < (i + length (c # src) + 3) div 4"
    by (rule less_le_trans [of _ "(i + 4) div 4"]) (simp, intro div_le_mono, simp)
  with 2 show ?case by simp
qed simp

lemma word_count_eq: "word_count s = (length s + 3) div 4"
  unfolding word_count_def by presburger

lemma length_arrayByteToInt:
  "length (arrayByteToInt s b) = word_count s + (if b then 1 else 0)"
  by (simp add: arrayByteToInt_def Let_def)

lemma arrayByteToInt_byte:
  assumes "k div 4 < word_count s"
  shows "word_byte (arrayByteToInt s b ! (k div 4)) (k mod 4) = (if k < length s then s ! k else 0)"
  using assms by (simp add: arrayByteToInt_def Let_def arrayByteToInt_loop_byte nth_append)

lemma arrayByteToInt_last: "arrayByteToInt s True ! word_count s = of_nat (length s)"
  by (simp add: arrayByteToInt_def Let_def arrayByteToInt_loop_other word_count_eq nth_append)

lemma arrayIntToByte_bytes:
  "length v < 2 ^ 30 \<Longrightarrow> arrayIntToByte v False dest = map (\<lambda>i. word_byte (v ! (i div 4)) (i mod 4)) [0..<4 * length v]"
  by (simp add: arrayIntToByte_def word_byte_def)

lemma words_of_bytes:
  assumes "length v < 2 ^ 30"
  shows "arrayByteToInt (arrayIntToByte v False dest) False = v"
proof (rule nth_equalityI)
  note arrayIntToByte_bytes = arrayIntToByte_bytes [OF assms]
  let ?s = "arrayIntToByte v False dest"
  have l: "length ?s = 4 * length v" by (simp add: arrayIntToByte_bytes)
  then have wc: "word_count ?s = length v" by (simp add: word_count_def)
  then show "length (arrayByteToInt ?s False) = length v" by (simp add: length_arrayByteToInt)
  fix i assume "i < length (arrayByteToInt ?s False)"
  then have i: "i < length v" using wc by (simp add: length_arrayByteToInt)
  show "arrayByteToInt ?s False ! i = v ! i"
  proof (rule word_eq_bytes)
    fix j :: nat assume j: "j < 4"
    have k: "(4 * i + j) div 4 = i" "(4 * i + j) mod 4 = j" "4 * i + j < 4 * length v" using i j by auto
    have "word_byte (arrayByteToInt ?s False ! ((4 * i + j) div 4)) ((4 * i + j) mod 4) = ?s ! (4 * i + j)"
      using arrayByteToInt_byte [of "4 * i + j" ?s False] i k wc l by simp
    with k show "word_byte (arrayByteToInt ?s False ! i) j = word_byte (v ! i) j"
      by (simp add: arrayIntToByte_bytes)
  qed
qed

lemma bytes_of_words:
  assumes "length s \<le> 2 ^ 30"
  shows "arrayIntToByte (arrayByteToInt s True) True dest = s"
proof -
  let ?v = "arrayByteToInt s True"
  have l: "length ?v = Suc (word_count s)" by (simp add: length_arrayByteToInt)
  have m: "unat (?v ! (length ?v - 1)) = length s"
    using assms l by (simp add: arrayByteToInt_last unsigned_of_nat take_bit_nat_eq_self)
  have "length s \<le> 4 * length ?v" unfolding l word_count_eq by presburger
  moreover have "4 * length ?v < 2 ^ 32" using assms unfolding l word_count_eq by auto
  moreover have "map (\<lambda>i. word_byte (?v ! (i div 4)) (i mod 4)) [0..<length s] = s"
  proof (rule nth_equalityI)
    fix i assume "i < length (map (\<lambda>i. word_byte (?v ! (i div 4)) (i mod 4)) [0..<length s])"
    then have i: "i < length s" by simp
    then have "i div 4 < word_count s" unfolding word_count_eq by presburger
    from arrayByteToInt_byte [OF this, of True] i
    show "map (\<lambda>i. word_byte (?v ! (i div 4)) (i mod 4)) [0..<length s] ! i = s ! i" by simp
  qed simp
  ultimately show ?thesis
    unfolding arrayIntToByte_def Let_def m by (simp add: word_byte_def)
qed

section \<open>Properties\<close>

lemma length_realKey [simp]: "length (realKey key) = 16"
  by (simp add: realKey_def)

lemma length_key_words [simp]: "length (arrayByteToInt (realKey key) False) = 4"
  by (simp add: length_arrayByteToInt word_count_def)

lemma Decrypt_Encrypt:
  assumes "src \<noteq> []" "length src \<le> 2 ^ 30"
  shows "\<exists>e. Encrypt src key dest old = Inr e \<and> Decrypt e key dest' old = Inr (Some src)"
proof -
  define v where "v = arrayByteToInt src True"
  define n where "n = word_count src"
  define k where "k = arrayByteToInt (realKey key) False"
  define w where "w = enc_rounds old k n (rounds n) 0 (v ! n, v)"
  have k: "length k = 4" by (simp add: k_def)
  have n: "0 < n" using assms(1) by (cases src) (auto simp: n_def word_count_eq)
  have v: "length v = Suc n" by (simp add: v_def n_def length_arrayByteToInt)
  have w: "length w = Suc n" unfolding w_def by (rule length_enc_rounds [OF n v])
  have n28: "n \<le> 2 ^ 28" using assms(2) unfolding n_def word_count_eq by simp
  with w have w30: "length w < 2 ^ 30" by simp
  with w have b: "arrayIntToByte w False [] \<noteq> []" by (auto simp: arrayIntToByte_bytes)
  have "length (arrayIntToByte w False []) \<le> encode_limit"
    using w n28 by (simp add: arrayIntToByte_def encode_limit_def)
  note e = Encode_fits [OF b this] Decode_Encode_loop [OF b this]
  have "Encrypt src key dest old = Inr (Encode_loop (arrayIntToByte w False []))"
    using n v k by (simp add: Encrypt_def Let_def e w_def [symmetric] flip: v_def k_def)
  moreover have "Decrypt (Encode_loop (arrayIntToByte w False [])) key dest' old =
      Inr (map_option (\<lambda>v. arrayIntToByte v True dest')
        (dec_rounds 33 old k n (of_nat (rounds n) * delta) (w ! 0, w)))"
    using n w k by (simp add: Decrypt_def Let_def e words_of_bytes [OF w30] flip: k_def)
  moreover have "dec_rounds 33 old k n (of_nat (rounds n) * delta) (w ! 0, w) = Some v"
    using dec_enc_rounds [OF n rounds_le [OF n] _ v w_def, of 33] rounds_le [OF n] by simp
  ultimately show ?thesis using bytes_of_words [OF assms(2)] by (simp add: v_def)
qed

text \<open>
  C31. XXTEA round trip: \<open>Encrypt\<close> stays inside the buffers of base64, and \<open>Decrypt\<close> with the same key and
  the same variant of the mixing function returns (its loop over \<open>sum\<close> ends) and gives back every plain text
  that is not empty and of at most \<open>2 ^ 30\<close> bytes (no length of the code overflows then), whatever its key
  (empty, short, long) and whatever the destinations held.
\<close>

theorem xxtea_roundtrip:
  assumes "src \<noteq> []" "length src \<le> 2 ^ 30"
  shows "\<exists>e. Encrypt src key dest old = Inr e \<and> Decrypt e key dest' old = Inr (Some src)"
  by (rule Decrypt_Encrypt [OF assms])

theorem xxtea_roundtrip_witness:
  "\<exists>e. Encrypt (bytes ''pass'') (bytes ''JLZF/POS+/DB/ENC/KEY/URI'') [] False = Inr e \<and>
     Decrypt e (bytes ''JLZF/POS+/DB/ENC/KEY/URI'') [] False = Inr (Some (bytes ''pass''))"
  using xxtea_roundtrip [of "bytes ''pass''" "bytes ''JLZF/POS+/DB/ENC/KEY/URI''" "[]" False "[]"] by simp

end
