(* ===== verification/Base8583.thy ===== *)
theory Base8583
  imports String_Utility
begin

text \<open>
  \<open>Base8583\<close> (\<open>source/transport/msg8583/base8583.{h,cpp}\<close>): the state every 8583 message object
  has, its bitmap, and the operations on header and content fields. \<open>m_map_field\<close> is a
  \<open>std::map\<close>; the operations put only keys from 1 to \<open>MAX_ITEM_NUM\<close> into it (the invariant
  below), and an iteration over it is an iteration over the keys in that range in ascending order.
  \<open>m_bitset_bitmap\<close> is a list of \<open>MAX_ITEM_NUM\<close> truth values. An operation that changes the
  object returns its code and the object; what throws or has no defined behaviour is an \<open>Inl\<close>.
\<close>

definition MAX_ITEM_NUM :: nat where "MAX_ITEM_NUM = 192"
definition MAX_HEADER_FILED_COUNT :: nat where "MAX_HEADER_FILED_COUNT = 16"

definition ASCII_8583 :: nat where "ASCII_8583 = 0x01"
definition Numeric_8583 :: nat where "Numeric_8583 = 0x02"
definition RightBcd_8583 :: nat where "RightBcd_8583 = 0x04"
definition Binary_8583 :: nat where "Binary_8583 = 0x08"
definition Variable_8583 :: nat where "Variable_8583 = 0x80"
definition Z_8583 :: nat where "Z_8583 = 0x22"

lemmas type_8583_defs = ASCII_8583_def Numeric_8583_def RightBcd_8583_def Binary_8583_def
  Variable_8583_def Z_8583_def

record ItemStyle =
  no_item :: nat
  type_item :: nat
  var_item :: nat
  max_len :: nat
  value_item :: cstr

record base8583 =
  m_msg_type :: cstr
  m_bitmap :: cstr
  m_content :: cstr
  m_mac_data :: cstr
  m_vec_field :: "cstr list"
  m_map_field :: "nat \<rightharpoonup> cstr"
  m_bitset_bitmap :: "bool list"

section \<open>Operations\<close>

definition Init :: "base8583 \<Rightarrow> base8583" where
  "Init s = s\<lparr>m_vec_field := [], m_map_field := Map.empty,
              m_bitset_bitmap := replicate MAX_ITEM_NUM False\<rparr>"

definition Base8583_new :: base8583 where
  "Base8583_new =
     Init \<lparr>m_msg_type = [], m_bitmap = [], m_content = [], m_mac_data = [], m_vec_field = [],
           m_map_field = Map.empty, m_bitset_bitmap = replicate MAX_ITEM_NUM False\<rparr>"

text \<open>The test \<open>m_bitmap[j] & (0x80 >> k)\<close> for bit \<open>i\<close>, \<open>j = i / 8\<close>, \<open>k = i % 8\<close>.\<close>

definition bitmap_bit :: "cstr \<Rightarrow> nat \<Rightarrow> bool" where
  "bitmap_bit bm i \<longleftrightarrow> (bm ! (i div 8)) AND drop_bit (i mod 8) 0x80 \<noteq> 0"

fun getBitmap_loop :: "nat list \<Rightarrow> cstr \<Rightarrow> bool list \<Rightarrow> bool list" where
  "getBitmap_loop [] bm bits = bits"
| "getBitmap_loop (i # r) bm bits =
     getBitmap_loop r bm (if bitmap_bit bm i then bits[i := True] else bits)"

definition getBitmap :: "nat \<Rightarrow> base8583 \<Rightarrow> (int \<times> base8583) result" where
  "getBitmap bit_count s =
     (if 8 * length (m_bitmap s) < bit_count \<or> length (m_bitset_bitmap s) < bit_count
      then Inl Undefined_behaviour
      else Inr (0, s\<lparr>m_bitset_bitmap := getBitmap_loop [0..<bit_count] (m_bitmap s) (m_bitset_bitmap s)\<rparr>))"

definition bitmap_byte :: "bool list \<Rightarrow> nat \<Rightarrow> byte" where
  "bitmap_byte bits i =
     fold (\<lambda>j v. if bits ! (i * 8 + j) then v + drop_bit j 0x80 else v) [0..<8] 0"

definition setBitmap :: "nat \<Rightarrow> base8583 \<Rightarrow> base8583" where
  "setBitmap bit_count s =
     (let bits = (if 64 < bit_count then (m_bitset_bitmap s)[0 := True] else m_bitset_bitmap s)
      in s\<lparr>m_bitset_bitmap := bits, m_bitmap := map (bitmap_byte bits) [0..<bit_count div 8]\<rparr>)"

definition GetMsgType :: "base8583 \<Rightarrow> cstr" where
  "GetMsgType s = m_msg_type s"

definition SetMsgType :: "cstr \<Rightarrow> base8583 \<Rightarrow> base8583" where
  "SetMsgType t s = s\<lparr>m_msg_type := t\<rparr>"

definition GetMacData :: "base8583 \<Rightarrow> cstr" where
  "GetMacData s = m_mac_data s"

text \<open>
  \<open>index > m_vec_field.size()\<close> compares after a conversion to \<open>size_t\<close>, so that it holds of a
  negative index; index 0 reads before the vector.
\<close>

definition header_index_bad :: "int \<Rightarrow> base8583 \<Rightarrow> bool" where
  "header_index_bad index s \<longleftrightarrow>
     int MAX_HEADER_FILED_COUNT < index \<or> index < 0 \<or> int (length (m_vec_field s)) < index"

definition GetHeaderField :: "int \<Rightarrow> base8583 \<Rightarrow> cstr result" where
  "GetHeaderField index s =
     (if header_index_bad index s then Inr []
      else if index = 0 then Inl Undefined_behaviour
      else Inr (m_vec_field s ! nat (index - 1)))"

definition AddHeaderField :: "int \<Rightarrow> cstr \<Rightarrow> base8583 \<Rightarrow> (int \<times> base8583) result" where
  "AddHeaderField index v s =
     (if header_index_bad index s then Inr (- 1, s)
      else if index = 0 then Inl Undefined_behaviour
      else Inr (0, s\<lparr>m_vec_field := (m_vec_field s)[nat (index - 1) := v]\<rparr>))"

text \<open>For index 0 the bitset operations get the position \<open>2 ^ 32 - 1\<close> and throw.\<close>

definition AddField :: "nat \<Rightarrow> cstr \<Rightarrow> base8583 \<Rightarrow> (int \<times> base8583) result" where
  "AddField index v s =
     (if MAX_ITEM_NUM < index \<or> v = [] then Inr (- 1, s)
      else if index = 0 then Inl Out_of_range
      else Inr (0, s\<lparr>m_bitset_bitmap := (m_bitset_bitmap s)[index - 1 := True],
                     m_map_field := (m_map_field s)(index \<mapsto> v)\<rparr>))"

definition DelField :: "nat \<Rightarrow> base8583 \<Rightarrow> (int \<times> base8583) result" where
  "DelField index s =
     (if MAX_ITEM_NUM < index then Inr (- 1, s)
      else if index = 0 then Inl Out_of_range
      else Inr (0, s\<lparr>m_bitset_bitmap := (m_bitset_bitmap s)[index - 1 := False],
                     m_map_field := (m_map_field s)(index := None)\<rparr>))"

definition GetField :: "nat \<Rightarrow> base8583 \<Rightarrow> cstr" where
  "GetField index s =
     (if MAX_ITEM_NUM < index then []
      else case m_map_field s index of None \<Rightarrow> [] | Some v \<Rightarrow> v)"

text \<open>The iteration from \<open>m_map_field.begin()\<close> to \<open>m_map_field.end()\<close>.\<close>

definition map_items :: "(nat \<rightharpoonup> 'a) \<Rightarrow> (nat \<times> 'a) list" where
  "map_items m = map (\<lambda>k. (k, the (m k))) (filter (\<lambda>k. m k \<noteq> None) [0..<MAX_ITEM_NUM + 1])"

section \<open>The invariant: the bitset says which fields there are\<close>

definition inv8583 :: "base8583 \<Rightarrow> bool" where
  "inv8583 s \<longleftrightarrow> length (m_bitset_bitmap s) = MAX_ITEM_NUM \<and>
     (\<forall>k. m_map_field s k \<noteq> None \<longrightarrow> 1 \<le> k \<and> k \<le> MAX_ITEM_NUM) \<and>
     (\<forall>i<MAX_ITEM_NUM. m_bitset_bitmap s ! i \<longleftrightarrow> m_map_field s (i + 1) \<noteq> None) \<and>
     (\<forall>k. m_map_field s k \<noteq> Some [])"

lemma inv8583_Init: "inv8583 (Init s)"
  by (simp add: inv8583_def Init_def)

lemma inv8583_AddField: "inv8583 s \<Longrightarrow> AddField k v s = Inr (r, s') \<Longrightarrow> inv8583 s'"
  by (auto simp: inv8583_def AddField_def nth_list_update split: if_splits)

lemma inv8583_DelField: "inv8583 s \<Longrightarrow> DelField k s = Inr (r, s') \<Longrightarrow> inv8583 s'"
  by (auto simp: inv8583_def DelField_def nth_list_update split: if_splits)

lemma inv8583_SetMsgType: "inv8583 s \<Longrightarrow> inv8583 (SetMsgType t s)"
  by (simp add: inv8583_def SetMsgType_def)

lemma inv8583_AddHeaderField: "inv8583 s \<Longrightarrow> AddHeaderField k v s = Inr (r, s') \<Longrightarrow> inv8583 s'"
  by (auto simp: inv8583_def AddHeaderField_def split: if_splits)

text \<open>The calls of a client that builds a message, and the states they lead to.\<close>

datatype base_call = Call_Init | Call_SetMsgType cstr | Call_AddHeaderField int cstr
  | Call_AddField nat cstr | Call_DelField nat

fun base_step :: "base_call \<Rightarrow> base8583 \<Rightarrow> base8583 result" where
  "base_step Call_Init s = Inr (Init s)"
| "base_step (Call_SetMsgType t) s = Inr (SetMsgType t s)"
| "base_step (Call_AddHeaderField k v) s = bind_result (AddHeaderField k v s) (\<lambda>(r, s'). Inr s')"
| "base_step (Call_AddField k v) s = bind_result (AddField k v s) (\<lambda>(r, s'). Inr s')"
| "base_step (Call_DelField k) s = bind_result (DelField k s) (\<lambda>(r, s'). Inr s')"

lemma inv8583_step: "inv8583 s \<Longrightarrow> base_step c s = Inr s' \<Longrightarrow> inv8583 s'"
  by (cases c)
    (auto dest!: bind_result_Inr simp: inv8583_Init inv8583_SetMsgType
      intro: inv8583_AddField inv8583_DelField inv8583_AddHeaderField)

inductive base_reach :: "base8583 \<Rightarrow> bool" where
  new: "base_reach Base8583_new"
| call: "base_reach s \<Longrightarrow> base_step c s = Inr s' \<Longrightarrow> base_reach s'"

section \<open>The bitmap bytes\<close>

lemma bit_128: "bit (128 :: byte) n \<longleftrightarrow> n = 7"
proof -
  have "(128 :: byte) = 2 ^ 7" by simp
  then show ?thesis by (simp only: bit_exp_iff) auto
qed

lemma bit_mask_shift: "bit (drop_bit k (0x80 :: byte)) n \<longleftrightarrow> k + n = 7"
  by (simp only: bit_drop_bit_eq o_def bit_128)

lemma test_mask:
  assumes "k < 8"
  shows "(w :: byte) AND drop_bit k 0x80 \<noteq> 0 \<longleftrightarrow> bit w (7 - k)"
proof
  assume "w AND drop_bit k 0x80 \<noteq> 0"
  then obtain n where "bit (w AND drop_bit k 0x80) n" using bit_eq_iff [of "w AND drop_bit k 0x80" 0] by auto
  then have "bit w n" "k + n = 7" by (simp_all add: bit_and_iff bit_mask_shift)
  then show "bit w (7 - k)" by (metis add_diff_cancel_left')
next
  assume "bit w (7 - k)"
  then have "bit (w AND drop_bit k 0x80) (7 - k)" using assms by (simp add: bit_and_iff bit_mask_shift)
  then show "w AND drop_bit k 0x80 \<noteq> 0" by auto
qed

lemma bit_bitmap_fold:
  "m \<le> 8 \<Longrightarrow>
     bit (fold (\<lambda>j v. if f j then v + drop_bit j 0x80 else v) [0..<m] 0 :: byte) n
     \<longleftrightarrow> n < 8 \<and> 8 \<le> n + m \<and> f (7 - n)"
proof (induction m arbitrary: n)
  case (Suc m)
  define v where "v = (fold (\<lambda>j v. if f j then v + drop_bit j 0x80 else v) [0..<m] 0 :: byte)"
  have IH: "bit v n \<longleftrightarrow> n < 8 \<and> 8 \<le> n + m \<and> f (7 - n)" for n
    using Suc unfolding v_def by simp
  have "v AND drop_bit m 0x80 = 0"
    by (rule bit_word_eqI) (auto simp: bit_and_iff bit_mask_shift IH)
  then have "v + drop_bit m 0x80 = v OR drop_bit m 0x80" by (rule disjunctive_add_eq_or)
  then have "bit (if f m then v + drop_bit m 0x80 else v) n \<longleftrightarrow> bit v n \<or> f m \<and> m + n = 7"
    by (simp add: bit_or_iff bit_mask_shift)
  also have "\<dots> \<longleftrightarrow> n < 8 \<and> 8 \<le> n + Suc m \<and> f (7 - n)"
  proof (cases "m + n = 7")
    case True
    then have "m = 7 - n" by simp
    with True Suc.prems show ?thesis unfolding IH by auto
  next
    case False
    then show ?thesis unfolding IH by auto
  qed
  finally have "bit (if f m then v + drop_bit m 0x80 else v) n \<longleftrightarrow> n < 8 \<and> 8 \<le> n + Suc m \<and> f (7 - n)" .
  moreover have "fold (\<lambda>j v. if f j then v + drop_bit j 0x80 else v) [0..<Suc m] 0 =
      (if f m then v + drop_bit m 0x80 else v)"
    by (simp add: v_def)
  ultimately show ?case by (simp only:)
qed simp

lemma bitmap_bit_bytes:
  assumes "i < 8 * n"
  shows "bitmap_bit (map (bitmap_byte bits) [0..<n]) i \<longleftrightarrow> bits ! i"
proof -
  have i: "i div 8 < n" "i mod 8 < 8" using assms by auto
  then have "bitmap_bit (map (bitmap_byte bits) [0..<n]) i \<longleftrightarrow> bit (bitmap_byte bits (i div 8)) (7 - i mod 8)"
    by (simp add: bitmap_bit_def test_mask)
  also have "\<dots> \<longleftrightarrow> bits ! (i div 8 * 8 + i mod 8)"
    using i(2) unfolding bitmap_byte_def by (subst bit_bitmap_fold) auto
  finally show ?thesis by simp
qed

lemma length_getBitmap_loop [simp]: "length (getBitmap_loop is bm bits) = length bits"
  by (induction "is" bm bits rule: getBitmap_loop.induct) auto

lemma getBitmap_loop_nth:
  "i < length bits \<Longrightarrow> getBitmap_loop is bm bits ! i \<longleftrightarrow> bits ! i \<or> i \<in> set is \<and> bitmap_bit bm i"
proof (induction "is" bm bits rule: getBitmap_loop.induct)
  case (2 j r bm bits)
  then show ?case by (cases "i = j") auto
qed simp

section \<open>Iterating over the fields\<close>

lemma map_items_fst: "map fst (map_items m) = filter (\<lambda>k. m k \<noteq> None) [0..<MAX_ITEM_NUM + 1]"
  by (simp add: map_items_def comp_def)

lemma map_items_mem: "(k, v) \<in> set (map_items m) \<longleftrightarrow> k \<le> MAX_ITEM_NUM \<and> m k = Some v"
  by (auto simp: map_items_def image_iff simp del: upt_Suc upt.simps)

lemma map_items_cong: "map_of (map_items m) k = (if k \<le> MAX_ITEM_NUM then m k else None)"
proof (cases "k \<le> MAX_ITEM_NUM \<and> m k \<noteq> None")
  case True
  then obtain v where v: "m k = Some v" by auto
  with True have "(k, v) \<in> set (map_items m)" by (simp add: map_items_mem)
  moreover have "distinct (map fst (map_items m))" unfolding map_items_fst by (rule distinct_filter) simp
  ultimately have "map_of (map_items m) k = Some v" by (rule_tac map_of_is_SomeI)
  with True v show ?thesis by simp
next
  case False
  then show ?thesis by (auto simp: map_of_eq_None_iff map_items_def)
qed

section \<open>Properties\<close>

text \<open>
  C39. In every object a client has built with \<open>Init\<close>, \<open>SetMsgType\<close>, \<open>AddHeaderField\<close>,
  \<open>AddField\<close> and \<open>DelField\<close> the bitmap bits are exactly the fields there are: bit \<open>i\<close> is set if and
  only if field \<open>i + 1\<close> is there, no field is empty, and every field number is from 1 to 192.
\<close>

theorem base8583_invariant: "base_reach s \<Longrightarrow> inv8583 s"
proof (induction rule: base_reach.induct)
  case new
  show ?case by (simp add: Base8583_new_def inv8583_Init)
next
  case (call s c s')
  then show ?case by (rule_tac inv8583_step)
qed

theorem base8583_invariant_witness:
  "\<exists>s. base_step (Call_AddField 3 (bytes ''000000'')) Base8583_new = Inr s \<and> inv8583 s"
proof -
  obtain s where s: "base_step (Call_AddField 3 (bytes ''000000'')) Base8583_new = Inr s"
    by (simp add: AddField_def MAX_ITEM_NUM_def)
  from base8583_invariant [OF base_reach.call [OF base_reach.new s]] s show ?thesis by blast
qed

text \<open>
  The bitmap bytes that \<open>setBitmap\<close> writes (64 bits: 8 bytes) are read back by \<open>getBitmap\<close>: an
  object whose own bits are all clear gets exactly the first 64 bits of the writer.
\<close>

theorem bitmap_roundtrip:
  assumes "length (m_bitset_bitmap s) = MAX_ITEM_NUM" "i < MAX_ITEM_NUM"
  shows "\<exists>t'. getBitmap 64 (Init t\<lparr>m_bitmap := m_bitmap (setBitmap 64 s)\<rparr>) = Inr (0, t') \<and>
     length (m_bitmap (setBitmap 64 s)) = 8 \<and>
     (m_bitset_bitmap t' ! i \<longleftrightarrow> i < 64 \<and> m_bitset_bitmap s ! i)"
proof -
  have "bitmap_bit (map (bitmap_byte (m_bitset_bitmap s)) [0..<8]) i \<longleftrightarrow> m_bitset_bitmap s ! i" if "i < 64"
    using that bitmap_bit_bytes [of i 8] by simp
  then show ?thesis
    using assms by (auto simp: getBitmap_def setBitmap_def Init_def MAX_ITEM_NUM_def getBitmap_loop_nth)
qed

theorem bitmap_roundtrip_witness:
  "\<exists>t'. getBitmap 64 (Init Base8583_new\<lparr>m_bitmap := m_bitmap (setBitmap 64 Base8583_new)\<rparr>) = Inr (0, t') \<and>
     length (m_bitmap (setBitmap 64 Base8583_new)) = 8 \<and>
     (m_bitset_bitmap t' ! 3 \<longleftrightarrow> 3 < (64::nat) \<and> m_bitset_bitmap Base8583_new ! 3)"
  using bitmap_roundtrip [of Base8583_new 3 Base8583_new]
  by (simp add: Base8583_new_def Init_def MAX_ITEM_NUM_def)

end
