(* ===== verification/Field_Codec.thy ===== *)
theory Field_Codec
  imports Base8583
begin

text \<open>
  The interface between the message classes and their field encodings: what \<open>Pack\<close> and
  \<open>Unpack\<close> rely on is that a field that is encoded can be decoded wherever it stands in the
  content. The lemmas of the locale lift that from one field to the whole content; the message
  classes interpret it with their own \<open>encoding\<close> and \<open>decoding\<close>.
\<close>

text \<open>The contents of several fields one after another, and reading them back from an offset.\<close>

fun enc_fields :: "(nat \<Rightarrow> cstr \<Rightarrow> cstr option) \<Rightarrow> (nat \<times> cstr) list \<Rightarrow> cstr option" where
  "enc_fields enc [] = Some []"
| "enc_fields enc ((k, v) # r) =
     (case enc k v of
        None \<Rightarrow> None
      | Some e \<Rightarrow> map_option (\<lambda>es. e @ es) (enc_fields enc r))"

fun dec_fields ::
  "(nat \<Rightarrow> cstr \<Rightarrow> nat \<Rightarrow> (nat \<times> cstr) option) \<Rightarrow> nat list \<Rightarrow> cstr \<Rightarrow> nat \<Rightarrow> (nat \<times> (nat \<times> cstr) list) option" where
  "dec_fields dec [] content offset = Some (offset, [])"
| "dec_fields dec (k # ks) content offset =
     (case dec k content offset of
        None \<Rightarrow> None
      | Some (off, v) \<Rightarrow> map_option (\<lambda>(off', kvs). (off', (k, v) # kvs)) (dec_fields dec ks content off))"

locale field_codec =
  fixes enc :: "nat \<Rightarrow> cstr \<Rightarrow> cstr option"
    and dec :: "nat \<Rightarrow> cstr \<Rightarrow> nat \<Rightarrow> (nat \<times> cstr) option"
    and valid :: "nat \<Rightarrow> cstr \<Rightarrow> bool"
  assumes enc_dec: "valid k v \<Longrightarrow>
    \<exists>e. enc k v = Some e \<and> e \<noteq> [] \<and>
        (\<forall>pre post. dec k (pre @ e @ post) (length pre) = Some (length pre + length e, v))"
begin

lemma enc_total: "valid k v \<Longrightarrow> \<exists>e. enc k v = Some e"
  using enc_dec by blast

lemma fields_enc_dec:
  "\<forall>(k, v)\<in>set kvs. valid k v \<Longrightarrow>
     \<exists>es. enc_fields enc kvs = Some es \<and> (kvs \<noteq> [] \<longrightarrow> es \<noteq> []) \<and>
       (\<forall>pre post. dec_fields dec (map fst kvs) (pre @ es @ post) (length pre) =
                     Some (length pre + length es, kvs))"
proof (induction kvs)
  case (Cons kv kvs)
  obtain k v where kv: "kv = (k, v)" by (cases kv)
  with Cons.prems have "valid k v" by simp
  from enc_dec [OF this] obtain e where e: "enc k v = Some e" "e \<noteq> []"
    "\<And>pre post. dec k (pre @ e @ post) (length pre) = Some (length pre + length e, v)" by blast
  from Cons obtain es where es: "enc_fields enc kvs = Some es"
    "\<And>pre post. dec_fields dec (map fst kvs) (pre @ es @ post) (length pre) =
       Some (length pre + length es, kvs)" by auto
  have "dec_fields dec (map fst (kv # kvs)) (pre @ (e @ es) @ post) (length pre) =
      Some (length pre + length (e @ es), kv # kvs)" for pre post
    using e(3) [of pre "es @ post"] es(2) [of "pre @ e" post] kv by simp
  moreover have "enc_fields enc (kv # kvs) = Some (e @ es)" using e(1) es(1) kv by simp
  ultimately show ?case using e(2) by blast
qed simp

text \<open>Two lists of fields with the same field numbers and the same contents are the same list.\<close>

lemma fields_injective:
  assumes "\<forall>(k, v)\<in>set kvs. valid k v" "\<forall>(k, v)\<in>set kvs'. valid k v"
    and "map fst kvs = map fst kvs'" "enc_fields enc kvs = enc_fields enc kvs'"
  shows "kvs = kvs'"
proof -
  from fields_enc_dec [OF assms(1)] obtain es where es: "enc_fields enc kvs = Some es"
    "\<And>pre post. dec_fields dec (map fst kvs) (pre @ es @ post) (length pre) = Some (length pre + length es, kvs)"
    by blast
  from fields_enc_dec [OF assms(2)] obtain es' where es': "enc_fields enc kvs' = Some es'"
    "\<And>pre post. dec_fields dec (map fst kvs') (pre @ es' @ post) (length pre) = Some (length pre + length es', kvs')"
    by blast
  show ?thesis using es(1) es(2) [of "[]" "[]"] es'(1) es'(2) [of "[]" "[]"] assms(3,4) by simp
qed

end

end
