(* ===== verification/Iso8583.thy ===== *)
theory Iso8583
  imports Field_Codec
begin

text \<open>
  The three message classes with a 64-bit bitmap and BCD lengths: \<open>ISO8583\<close>, \<open>ISO8583_CIL\<close> and
  \<open>ISO8583_CUPA\<close> (\<open>iso8583.cpp\<close>, \<open>iso8583_cil.cpp\<close>, \<open>iso8583_cupa.cpp\<close> of
  \<open>source/transport/msg8583\<close>). Their functions have the same text but for the table of field
  styles, the header and the fields of the message key, which are the components of a
  \<open>variant8583\<close>; the operations take it as their first argument. Logging (\<open>PLOG\<close>) is left out.
  An output parameter is an argument (its old value) and a result; an early return keeps what has
  been written to the object so far.
\<close>

definition MSG_LEN :: nat where "MSG_LEN = 2"
definition MTI_LEN :: nat where "MTI_LEN = 4"
definition BITMAP_LEN :: nat where "BITMAP_LEN = 8"
definition MAC_VALUE_LEN :: nat where "MAC_VALUE_LEN = 8"
definition HEADER_ID :: cstr where "HEADER_ID = bytes ''60''"

lemmas len_8583_defs = MSG_LEN_def MTI_LEN_def BITMAP_LEN_def MAC_VALUE_LEN_def

record variant8583 =
  style_array :: "nat list"
  HEADER_FIELD_COUNT :: nat
  HEADER_LEN :: nat
  header_split :: "(nat \<times> nat) list"
  header_init :: "cstr list"
  key_field_array :: "nat list"
  key_type_len :: nat

section \<open>The three variants\<close>

definition iso8583_style_array :: "nat list" where
  "iso8583_style_array =
    [0x0000, 0xa213, 0x0206, 0x020c, 0x020c, 0x020c, 0x020a, 0x0701,
     0x0208, 0x0208, 0x0206, 0x0206, 0x0204, 0x0204, 0x0204, 0x0204,
     0x0204, 0x0204, 0x0203, 0x0203, 0x0203, 0x0203, 0x0204, 0x0203,
     0x0202, 0x0202, 0x0201, 0x0308, 0x0308, 0x0308, 0x0208, 0x820b,
     0x820b, 0x861c, 0xa225, 0xa268, 0x030c, 0x0306, 0x0302, 0x0303,
     0x0708, 0x070f, 0x0728, 0x8719, 0x874c, 0x8700, 0x8700, 0x8200,
     0x0303, 0x8700, 0x0203, 0x0808, 0x0210, 0x83b4, 0x8800, 0x8700,
     0x8700, 0x8700, 0x8700, 0x8200, 0x8200, 0x8800, 0x87b3, 0x0308]"

definition ISO8583_CIL_style_array :: "nat list" where
  "ISO8583_CIL_style_array =
    [0x0000, 0xa213, 0x0206, 0x020c, 0x020c, 0x020c, 0x020a, 0x0701,
     0x0208, 0x0208, 0x0206, 0x0206, 0x0204, 0x0204, 0x0204, 0x0204,
     0x0204, 0x0204, 0x0203, 0x0203, 0x0203, 0x0203, 0x0403, 0x0203,
     0x0202, 0x0202, 0x0201, 0x0308, 0x0308, 0x0308, 0x0208, 0x820b,
     0x820b, 0x861c, 0xa225, 0xa268, 0x030c, 0x0306, 0x0302, 0x0303,
     0x0708, 0x070f, 0x0728, 0x8719, 0x874c, 0x8700, 0x8700, 0x8200,
     0x0303, 0x0203, 0x0303, 0x0808, 0x0210, 0x83b4, 0x8800, 0x8700,
     0x8700, 0x8700, 0x8700, 0x8200, 0x8200, 0x8800, 0x87b3, 0x0308]"

definition ISO8583_CUPA_style_array :: "nat list" where
  "ISO8583_CUPA_style_array =
    [0x0000, 0xa213, 0x0206, 0x020c, 0x020c, 0x020c, 0x020a, 0x0701,
     0x0208, 0x0208, 0x0206, 0x0206, 0x0204, 0x0204, 0x0204, 0x0204,
     0x0204, 0x0204, 0x0203, 0x0203, 0x0203, 0x0203, 0x0403, 0x0203,
     0x0202, 0x0202, 0x0201, 0x0308, 0x0308, 0x0308, 0x0208, 0x820b,
     0x820b, 0x861c, 0xa225, 0xa268, 0x030c, 0x0306, 0x0302, 0x0303,
     0x0708, 0x070f, 0x8700, 0x8719, 0x874c, 0x8700, 0x8700, 0x8200,
     0x0303, 0x0203, 0x0203, 0x0808, 0x0210, 0x83b4, 0x8800, 0x8700,
     0x8700, 0x8700, 0x8700, 0x8200, 0x8200, 0x8800, 0x87b3, 0x0308]"

definition ISO8583 :: variant8583 where
  "ISO8583 =
     \<lparr>style_array = iso8583_style_array, HEADER_FIELD_COUNT = 9, HEADER_LEN = 0x18,
      header_split = [(0, 2), (2, 4), (6, 4), (10, 2), (12, 2), (14, 2), (16, 1), (17, 1), (18, 6)],
      header_init =
        HEADER_ID # map (\<lambda>n. replicate n 0x30) [4, 4, 2, 2, 2, 1, 1, 6],
      key_field_array = [7, 11, 32, 33], key_type_len = 0\<rparr>"

definition ISO8583_CIL :: variant8583 where
  "ISO8583_CIL =
     \<lparr>style_array = ISO8583_CIL_style_array, HEADER_FIELD_COUNT = 8, HEADER_LEN = 0x16,
      header_split = [(0, 2), (2, 4), (6, 4), (10, 2), (12, 2), (14, 1), (15, 1), (16, 6)],
      header_init = HEADER_ID # map (\<lambda>n. replicate n 0x30) [4, 4, 2, 2, 1, 1, 6],
      key_field_array = [11, 41, 42], key_type_len = 0\<rparr>"

definition ISO8583_CUPA :: variant8583 where
  "ISO8583_CUPA =
     \<lparr>style_array = ISO8583_CUPA_style_array, HEADER_FIELD_COUNT = 8, HEADER_LEN = 0x16,
      header_split = [(0, 2), (2, 4), (6, 4), (10, 2), (12, 2), (14, 1), (15, 1), (16, 6)],
      header_init = HEADER_ID # map (\<lambda>n. replicate n 0x30) [4, 4, 2, 2, 1, 1, 6],
      key_field_array = [11, 41, 42], key_type_len = 2\<rparr>"

section \<open>Fields\<close>

text \<open>
  \<open>getStyle\<close> sets three of the components of the caller's \<open>ItemStyle\<close>; nothing reads the
  others, which are empty here. An index outside the table is undefined behaviour.
\<close>

definition getStyle :: "nat list \<Rightarrow> nat \<Rightarrow> ItemStyle result" where
  "getStyle styles index =
     (if length styles \<le> index then Inl Undefined_behaviour
      else
        let tmp = styles ! index; ty = tmp div 0x100; mx = tmp mod 0x100
        in if ty < 0x80
           then Inr \<lparr>no_item = 0, type_item = ty, var_item = 0, max_len = mx, value_item = []\<rparr>
           else
             let mx = (if mx = 0 then 999 else mx)
             in Inr \<lparr>no_item = 0, type_item = ty - 0x80, var_item = (if mx < 100 then 2 else 3),
                     max_len = mx, value_item = []\<rparr>)"

text \<open>
  The operations of \<open>std::string\<close> that throw: \<open>assign(str, pos, n)\<close> and \<open>substr(pos, n)\<close> are
  \<open>substr\<close> of the prelude; \<open>erase(pos)\<close> keeps the first \<open>pos\<close> characters. Each throws
  \<open>out_of_range\<close> when the position is past the end. A decoding that returns -1 is \<open>None\<close>.
\<close>

definition str_erase :: "cstr \<Rightarrow> nat \<Rightarrow> cstr result" where
  "str_erase s pos = (if length s < pos then Inl Out_of_range else Inr (take pos s))"

lemma str_erase_ok [simp]: "pos \<le> length s \<Longrightarrow> str_erase s pos = Inr (take pos s)"
  by (simp add: str_erase_def)

text \<open>
  The length of a variable field: \<open>atoi\<close> of the digits of its BCD length bytes. The digits are
  \<open>0-9A-F\<close>, so that the number is never negative.
\<close>

definition bcd_len :: "cstr \<Rightarrow> nat \<Rightarrow> nat \<Rightarrow> nat result" where
  "bcd_len content offset n =
     bind_result (substr content offset n) (\<lambda>item_len_bcd. Inr (nat (atoi (bcd2asc item_len_bcd))))"

definition decoding_value :: "cstr \<Rightarrow> nat \<Rightarrow> nat \<Rightarrow> ItemStyle \<Rightarrow> (nat \<times> cstr) option result" where
  "decoding_value content offset i_item_len st =
     (if max_len st < i_item_len then Inr None
      else if length content < offset + i_item_len div 2 + i_item_len mod 2 then Inr None
      else if type_item st = Binary_8583
      then
        bind_result (substr content offset i_item_len) (\<lambda>item_value.
          Inr (Some (offset + i_item_len, item_value)))
      else if type_item st = Numeric_8583 \<or> type_item st = Z_8583
      then
        let n = i_item_len div 2 + i_item_len mod 2
        in bind_result (substr content offset n) (\<lambda>item_value.
           let dest = bcd2asc item_value
           in if i_item_len mod 2 \<noteq> 0
              then bind_result (str_erase dest i_item_len) (\<lambda>dest. Inr (Some (offset + n, dest)))
              else Inr (Some (offset + n, dest)))
      else if type_item st = RightBcd_8583
      then
        let n = i_item_len div 2 + i_item_len mod 2
        in bind_result (substr content offset n) (\<lambda>item_value.
           let dest = bcd2asc item_value
           in if i_item_len mod 2 \<noteq> 0
              then bind_result (substr_from dest 1) (\<lambda>dest. Inr (Some (offset + n, dest)))
              else Inr (Some (offset + n, dest)))
      else
        bind_result (substr content offset i_item_len) (\<lambda>dest. Inr (Some (offset + i_item_len, dest))))"

definition decoding :: "cstr \<Rightarrow> nat \<Rightarrow> ItemStyle \<Rightarrow> (nat \<times> cstr) option result" where
  "decoding content offset st =
     (if var_item st = 0 then decoding_value content offset (max_len st) st
      else if var_item st = 2
      then (if length content < offset + 1 then Inr None
            else bind_result (bcd_len content offset 1) (\<lambda>i_item_len.
                   decoding_value content (offset + 1) i_item_len st))
      else if var_item st = 3
      then (if length content < offset + 2 then Inr None
            else bind_result (bcd_len content offset 2) (\<lambda>i_item_len.
                   decoding_value content (offset + 2) i_item_len st))
      else decoding_value content offset 0 st)"

definition encoding :: "cstr \<Rightarrow> ItemStyle \<Rightarrow> cstr option" where
  "encoding src st =
     (let i_item_len = length src
      in if max_len st < i_item_len then None
         else if var_item st = 0 \<and> max_len st \<noteq> i_item_len then None
         else
           let item_len =
                 (if var_item st = 2 then asc2bcd_r (snprintf 5 (zpad 2 i_item_len))
                  else if var_item st = 3 then asc2bcd_r (snprintf 5 (zpad 4 i_item_len))
                  else []);
               item_value =
                 (if type_item st = Binary_8583 then src
                  else if type_item st = Numeric_8583 \<or> type_item st = Z_8583 then asc2bcd_l src
                  else if type_item st = RightBcd_8583 then asc2bcd_r src
                  else src)
           in Some (item_len @ item_value))"

section \<open>Header\<close>

fun push_substrs :: "cstr \<Rightarrow> (nat \<times> nat) list \<Rightarrow> base8583 \<Rightarrow> base8583 result" where
  "push_substrs header [] s = Inr s"
| "push_substrs header ((p, n) # r) s =
     bind_result (substr header p n) (\<lambda>f. push_substrs header r (s\<lparr>m_vec_field := m_vec_field s @ [f]\<rparr>))"

definition dealMsgHeader :: "variant8583 \<Rightarrow> cstr \<Rightarrow> base8583 \<Rightarrow> base8583 result" where
  "dealMsgHeader V header s =
     (if length header = HEADER_LEN V then push_substrs header (header_split V) s else Inr s)"

definition InitHeader :: "variant8583 \<Rightarrow> base8583 \<Rightarrow> base8583" where
  "InitHeader V s = s\<lparr>m_vec_field := header_init V\<rparr>"

section \<open>Pack\<close>

text \<open>The loop over the fields: the code it ends with and the content so far.\<close>

fun pack_loop :: "variant8583 \<Rightarrow> (nat \<times> cstr) list \<Rightarrow> cstr \<Rightarrow> (int \<times> cstr) result" where
  "pack_loop V [] content = Inr (0, content)"
| "pack_loop V ((k, v) # r) content =
     bind_result (getStyle (style_array V) (k - 1)) (\<lambda>st.
       case encoding v st of
         None \<Rightarrow> Inr (int k, content)
       | Some item_buff \<Rightarrow> pack_loop V r (content @ item_buff))"

definition pack_bitmap :: "bool \<Rightarrow> base8583 \<Rightarrow> base8583" where
  "pack_bitmap mac_flag s =
     setBitmap (BITMAP_LEN * 8)
       (if mac_flag then s\<lparr>m_bitset_bitmap := (m_bitset_bitmap s)[BITMAP_LEN * 8 - 1 := True]\<rparr> else s)"

definition total_msg_len :: "variant8583 \<Rightarrow> cstr \<Rightarrow> nat" where
  "total_msg_len V content = HEADER_LEN V div 2 + MTI_LEN div 2 + BITMAP_LEN + length content"

definition Pack :: "variant8583 \<Rightarrow> bool \<Rightarrow> cstr \<Rightarrow> base8583 \<Rightarrow> (int \<times> cstr \<times> base8583) result" where
  "Pack V mac_flag msg s =
     (let s = s\<lparr>m_content := []\<rparr>;
          msg_type_bcd = asc2bcd_l (m_msg_type s);
          s = s\<lparr>m_mac_data := msg_type_bcd\<rparr>;
          s = pack_bitmap mac_flag s
      in bind_result (pack_loop V (map_items (m_map_field s)) (m_content s)) (\<lambda>(ret, content).
           let s = s\<lparr>m_content := content\<rparr>
           in if ret \<noteq> 0 then Inr (ret, msg, s)
              else
                let s = pack_bitmap mac_flag s;
                    s = s\<lparr>m_mac_data := m_mac_data s @ m_bitmap s @ m_content s\<rparr>;
                    s = (if mac_flag then s\<lparr>m_content := m_content s @ replicate 8 0\<rparr> else s)
                in if length (m_vec_field s) \<noteq> HEADER_FIELD_COUNT V then Inr (- 1, msg, s)
                   else
                     let n = total_msg_len V (m_content s);
                         header_bcd = asc2bcd_l (concat (m_vec_field s))
                     in Inr (0, [of_nat (n div 256), of_nat (n mod 256)] @ header_bcd @
                                msg_type_bcd @ m_bitmap s @ m_content s, s)))"

section \<open>Unpack\<close>

text \<open>\<open>m_map_field.insert\<close> keeps a field that is already there.\<close>

definition map_insert :: "nat \<Rightarrow> cstr \<Rightarrow> (nat \<rightharpoonup> cstr) \<Rightarrow> (nat \<rightharpoonup> cstr)" where
  "map_insert k v m = (if m k = None then m(k \<mapsto> v) else m)"

fun unpack_loop :: "variant8583 \<Rightarrow> nat list \<Rightarrow> nat \<Rightarrow> base8583 \<Rightarrow> (int \<times> nat \<times> base8583) result" where
  "unpack_loop V [] offset s = Inr (0, offset, s)"
| "unpack_loop V (i # r) offset s =
     (if m_bitset_bitmap s ! i
      then
        bind_result (getStyle (style_array V) i) (\<lambda>st.
        bind_result (decoding (m_content s) offset st) (\<lambda>d.
          case d of
            None \<Rightarrow> Inr (int (i + 1), offset, s)
          | Some (offset', item_value) \<Rightarrow>
              unpack_loop V r offset' (s\<lparr>m_map_field := map_insert (i + 1) item_value (m_map_field s)\<rparr>)))
      else unpack_loop V r offset s)"

text \<open>The unsigned difference \<open>offset - MAC_VALUE_LEN\<close> wraps around.\<close>

definition unsigned_diff :: "nat \<Rightarrow> nat \<Rightarrow> nat" where
  "unsigned_diff m n = (if n \<le> m then m - n else 2 ^ 32 + m - n)"

definition Unpack :: "variant8583 \<Rightarrow> cstr \<Rightarrow> base8583 \<Rightarrow> (int \<times> base8583) result" where
  "Unpack V msg s =
     (let body = MSG_LEN + HEADER_LEN V div 2 + MTI_LEN div 2 + BITMAP_LEN
      in if length msg \<le> body then Inr (- 1, s)
         else
           bind_result (substr msg 0 MSG_LEN) (\<lambda>msg_len.
           bind_result (substr msg MSG_LEN (HEADER_LEN V div 2)) (\<lambda>header_bcd.
           bind_result (dealMsgHeader V (bcd2asc header_bcd) s) (\<lambda>s.
             if length (m_vec_field s) \<noteq> HEADER_FIELD_COUNT V then Inr (- 1, s)
             else
               let offset = MSG_LEN + HEADER_LEN V div 2
               in bind_result (substr msg offset (MTI_LEN div 2)) (\<lambda>msg_type_bcd.
                  bind_result (substr msg (offset + MTI_LEN div 2) BITMAP_LEN) (\<lambda>bitmap.
                  bind_result (substr_from msg (offset + MTI_LEN div 2 + BITMAP_LEN)) (\<lambda>content.
                  bind_result
                    (getBitmap (BITMAP_LEN * 8)
                       (s\<lparr>m_msg_type := bcd2asc msg_type_bcd, m_bitmap := bitmap, m_content := content\<rparr>))
                    (\<lambda>(ret, s).
                  if ret \<noteq> 0 then Inr (- 1, s)
                  else
                  bind_result (unpack_loop V [1..<BITMAP_LEN * 8] 0 s) (\<lambda>(ret, offset, s).
                    if ret \<noteq> 0 then Inr (ret, s)
                    else
                      let n = (if m_bitset_bitmap s ! (BITMAP_LEN * 8 - 1)
                               then unsigned_diff offset MAC_VALUE_LEN else offset)
                      in bind_result (substr (m_content s) 0 n) (\<lambda>data.
                         Inr (0, s\<lparr>m_mac_data := msg_type_bcd @ m_bitmap s @ data\<rparr>)))))))))))"

section \<open>Message key\<close>

definition GetMsgKey :: "variant8583 \<Rightarrow> base8583 \<Rightarrow> cstr" where
  "GetMsgKey V s =
     take (key_type_len V) (m_msg_type s) @
     concat (map (\<lambda>k. case m_map_field s k of None \<Rightarrow> [] | Some v \<Rightarrow> v) (key_field_array V))"

section \<open>The member functions of \<open>ISO8583_CIL\<close> and \<open>ISO8583_CUPA\<close>\<close>

text \<open>
  The functions of the two other classes, which the source repeats: the same \<open>decoding\<close> and
  \<open>encoding\<close>, and the others with the table, header and key fields of the class.
\<close>

definition CIL_getStyle :: "nat \<Rightarrow> ItemStyle result" where
  "CIL_getStyle = getStyle ISO8583_CIL_style_array"

definition CIL_decoding :: "cstr \<Rightarrow> nat \<Rightarrow> ItemStyle \<Rightarrow> (nat \<times> cstr) option result" where
  "CIL_decoding = decoding"

definition CIL_encoding :: "cstr \<Rightarrow> ItemStyle \<Rightarrow> cstr option" where
  "CIL_encoding = encoding"

definition CIL_dealMsgHeader :: "cstr \<Rightarrow> base8583 \<Rightarrow> base8583 result" where
  "CIL_dealMsgHeader = dealMsgHeader ISO8583_CIL"

definition CIL_InitHeader :: "base8583 \<Rightarrow> base8583" where
  "CIL_InitHeader = InitHeader ISO8583_CIL"

definition CIL_Pack :: "bool \<Rightarrow> cstr \<Rightarrow> base8583 \<Rightarrow> (int \<times> cstr \<times> base8583) result" where
  "CIL_Pack = Pack ISO8583_CIL"

definition CIL_Unpack :: "cstr \<Rightarrow> base8583 \<Rightarrow> (int \<times> base8583) result" where
  "CIL_Unpack = Unpack ISO8583_CIL"

definition CIL_GetMsgKey :: "base8583 \<Rightarrow> cstr" where
  "CIL_GetMsgKey = GetMsgKey ISO8583_CIL"

definition CUPA_getStyle :: "nat \<Rightarrow> ItemStyle result" where
  "CUPA_getStyle = getStyle ISO8583_CUPA_style_array"

definition CUPA_decoding :: "cstr \<Rightarrow> nat \<Rightarrow> ItemStyle \<Rightarrow> (nat \<times> cstr) option result" where
  "CUPA_decoding = decoding"

definition CUPA_encoding :: "cstr \<Rightarrow> ItemStyle \<Rightarrow> cstr option" where
  "CUPA_encoding = encoding"

definition CUPA_dealMsgHeader :: "cstr \<Rightarrow> base8583 \<Rightarrow> base8583 result" where
  "CUPA_dealMsgHeader = dealMsgHeader ISO8583_CUPA"

definition CUPA_InitHeader :: "base8583 \<Rightarrow> base8583" where
  "CUPA_InitHeader = InitHeader ISO8583_CUPA"

definition CUPA_Pack :: "bool \<Rightarrow> cstr \<Rightarrow> base8583 \<Rightarrow> (int \<times> cstr \<times> base8583) result" where
  "CUPA_Pack = Pack ISO8583_CUPA"

definition CUPA_Unpack :: "cstr \<Rightarrow> base8583 \<Rightarrow> (int \<times> base8583) result" where
  "CUPA_Unpack = Unpack ISO8583_CUPA"

definition CUPA_GetMsgKey :: "base8583 \<Rightarrow> cstr" where
  "CUPA_GetMsgKey = GetMsgKey ISO8583_CUPA"

section \<open>One field\<close>

definition style_ok :: "ItemStyle \<Rightarrow> bool" where
  "style_ok st \<longleftrightarrow> var_item st = 0 \<or> var_item st = 2 \<and> max_len st < 100 \<or>
     var_item st = 3 \<and> max_len st < 1000"

definition bcd_type :: "ItemStyle \<Rightarrow> bool" where
  "bcd_type st \<longleftrightarrow> type_item st \<in> {Numeric_8583, Z_8583, RightBcd_8583}"

text \<open>
  The values a field of a style can carry: not empty, of the length of the style, hexadecimal digits
  where the style packs digits.
\<close>

definition valid_value :: "ItemStyle \<Rightarrow> cstr \<Rightarrow> bool" where
  "valid_value st v \<longleftrightarrow> v \<noteq> [] \<and> length v \<le> max_len st \<and> (var_item st = 0 \<longrightarrow> length v = max_len st) \<and>
     (bcd_type st \<longrightarrow> (\<forall>c\<in>set v. is_hex_upper c))"

lemma getStyle_ok: "getStyle styles i = Inr st \<Longrightarrow> style_ok st"
  by (auto simp: getStyle_def style_ok_def Let_def split: if_splits)

lemma getStyle_Inr: "i < length styles \<Longrightarrow> \<exists>st. getStyle styles i = Inr st"
  by (simp add: getStyle_def Let_def)

definition iso_item_value :: "cstr \<Rightarrow> ItemStyle \<Rightarrow> cstr" where
  "iso_item_value src st =
     (if type_item st = Binary_8583 then src
      else if type_item st = Numeric_8583 \<or> type_item st = Z_8583 then asc2bcd_l src
      else if type_item st = RightBcd_8583 then asc2bcd_r src
      else src)"

lemma digit_hex: "is_digit c \<Longrightarrow> is_hex_upper c"
  by (simp add: is_digit_def is_hex_upper_def)

lemma zpad_hex: "\<forall>c\<in>set (zpad w n). is_hex_upper c"
  using zpad_digits digit_hex by blast

lemma half_eq: "n div 2 + n mod 2 = (n + 1) div (2 :: nat)"
  by presburger

lemma decoding_value_item:
  assumes "valid_value st v"
  shows "decoding_value (pre @ iso_item_value v st @ post) (length pre) (length v) st =
           Inr (Some (length pre + length (iso_item_value v st), v))"
proof -
  have l: "length v \<le> max_len st" "\<And>s. \<not> length v + s < (length v + 1) div 2"
    using assms by (auto simp: valid_value_def)
  consider (bin) "type_item st = Binary_8583" | (num) "type_item st = Numeric_8583 \<or> type_item st = Z_8583"
    | (right) "type_item st = RightBcd_8583" | (other) "\<not> bcd_type st" "type_item st \<noteq> Binary_8583"
    unfolding bcd_type_def by blast
  then show ?thesis
  proof cases
    case num
    then have h: "bcd2asc (asc2bcd_l v) = (if even (length v) then v else v @ [48])"
      using assms by (intro bcd2asc_asc2bcd_l) (auto simp: valid_value_def bcd_type_def)
    have "length (asc2bcd_l v) = (length v + 1) div 2" by (rule length_asc2bcd)
    with num l h show ?thesis
      by (auto simp: decoding_value_def iso_item_value_def half_eq Let_def type_8583_defs odd_iff_mod_2_eq_one)
  next
    case right
    then have h: "bcd2asc (asc2bcd_r v) = (if even (length v) then v else 48 # v)"
      using assms by (intro bcd2asc_asc2bcd_r) (auto simp: valid_value_def bcd_type_def)
    have "length (asc2bcd_r v) = (length v + 1) div 2" by (rule length_asc2bcd)
    with right l h show ?thesis
      by (auto simp: decoding_value_def iso_item_value_def half_eq Let_def type_8583_defs odd_iff_mod_2_eq_one)
  next
    case bin
    with l show ?thesis
      by (auto simp: decoding_value_def iso_item_value_def half_eq type_8583_defs)
  next
    case other
    with l show ?thesis
      by (auto simp: decoding_value_def iso_item_value_def half_eq bcd_type_def)
  qed
qed

lemma len_prefix:
  assumes "n < 10 ^ (2 * k)" "0 < k" "k \<le> 2"
  shows "snprintf 5 (zpad (2 * k) n) = zpad (2 * k) n" "length (asc2bcd_r (zpad (2 * k) n)) = k"
    "bcd_len (pre @ asc2bcd_r (zpad (2 * k) n) @ post) (length pre) k = Inr n"
proof -
  have l: "length (zpad (2 * k) n) = 2 * k" using assms by (intro length_zpad) auto
  then show "snprintf 5 (zpad (2 * k) n) = zpad (2 * k) n" using assms by (simp add: snprintf_def)
  show a: "length (asc2bcd_r (zpad (2 * k) n)) = k" by (simp add: length_asc2bcd l)
  have "(10 :: nat) ^ (2 * k) \<le> 10 ^ 4" using assms by (intro power_increasing) auto
  then have "n < 2 ^ 31" using assms(1) by simp
  moreover have "bcd2asc (asc2bcd_r (zpad (2 * k) n)) = zpad (2 * k) n"
    by (simp add: bcd2asc_asc2bcd_r [OF zpad_hex] l)
  ultimately show "bcd_len (pre @ asc2bcd_r (zpad (2 * k) n) @ post) (length pre) k = Inr n"
    by (simp add: bcd_len_def a)
qed

lemma iso_item_value_not_Nil: "v \<noteq> [] \<Longrightarrow> iso_item_value v st \<noteq> []"
proof -
  assume v: "v \<noteq> []"
  then have "0 < (length v + 1) div 2" by (cases v) auto
  then have "asc2bcd_l v \<noteq> []" "asc2bcd_r v \<noteq> []" using length_asc2bcd [of v] by auto
  with v show ?thesis by (simp add: iso_item_value_def)
qed

lemma encoding_eq:
  "valid_value st v \<Longrightarrow> encoding v st =
     Some ((if var_item st = 2 then asc2bcd_r (snprintf 5 (zpad 2 (length v)))
            else if var_item st = 3 then asc2bcd_r (snprintf 5 (zpad 4 (length v))) else []) @ iso_item_value v st)"
  by (auto simp: encoding_def valid_value_def iso_item_value_def Let_def)

lemma encoding_decoding:
  assumes "style_ok st" "valid_value st v"
  shows "\<exists>e. encoding v st = Some e \<and> e \<noteq> [] \<and>
     (\<forall>pre post. decoding (pre @ e @ post) (length pre) st = Inr (Some (length pre + length e, v)))"
proof -
  have v: "v \<noteq> []" "length v \<le> max_len st" "var_item st = 0 \<longrightarrow> length v = max_len st"
    using assms(2) by (auto simp: valid_value_def)
  note dv = decoding_value_item [OF assms(2)]
  have ne: "iso_item_value v st \<noteq> []" using v(1) by (rule iso_item_value_not_Nil)
  consider (fixed) "var_item st = 0" | (ll) "var_item st = 2" "max_len st < 100"
    | (lll) "var_item st = 3" "max_len st < 1000" using assms(1) by (auto simp: style_ok_def)
  then show ?thesis
  proof cases
    case fixed
    with v dv ne show ?thesis by (auto simp: encoding_eq [OF assms(2)] decoding_def)
  next
    case ll
    then have "length v < 10 ^ (2 * 1)" using v(2) by simp
    note p = len_prefix [OF this, simplified]
    have "decoding (pre @ (asc2bcd_r (zpad 2 (length v)) @ iso_item_value v st) @ post) (length pre) st =
        Inr (Some (length pre + length (asc2bcd_r (zpad 2 (length v)) @ iso_item_value v st), v))" for pre post
      using ll p(2) p(3) [of pre "iso_item_value v st @ post"]
        dv [of "pre @ asc2bcd_r (zpad 2 (length v))" post]
      by (simp add: decoding_def)
    with ll p(1) ne show ?thesis by (auto simp: encoding_eq [OF assms(2)])
  next
    case lll
    then have "length v < 10 ^ (2 * 2)" using v(2) by simp
    note p = len_prefix [OF this, simplified]
    have "decoding (pre @ (asc2bcd_r (zpad 4 (length v)) @ iso_item_value v st) @ post) (length pre) st =
        Inr (Some (length pre + length (asc2bcd_r (zpad 4 (length v)) @ iso_item_value v st), v))" for pre post
      using lll p(2) p(3) [of pre "iso_item_value v st @ post"]
        dv [of "pre @ asc2bcd_r (zpad 4 (length v))" post]
      by (simp add: decoding_def)
    with lll p(1) ne show ?thesis by (auto simp: encoding_eq [OF assms(2)])
  qed
qed

section \<open>All fields\<close>

definition iso_enc :: "variant8583 \<Rightarrow> nat \<Rightarrow> cstr \<Rightarrow> cstr option" where
  "iso_enc V k v = (case getStyle (style_array V) (k - 1) of Inl _ \<Rightarrow> None | Inr st \<Rightarrow> encoding v st)"

definition iso_dec :: "variant8583 \<Rightarrow> nat \<Rightarrow> cstr \<Rightarrow> nat \<Rightarrow> (nat \<times> cstr) option" where
  "iso_dec V k content offset =
     (case getStyle (style_array V) (k - 1) of
       Inl _ \<Rightarrow> None
     | Inr st \<Rightarrow> (case decoding content offset st of Inl _ \<Rightarrow> None | Inr d \<Rightarrow> d))"

definition iso_valid :: "variant8583 \<Rightarrow> nat \<Rightarrow> cstr \<Rightarrow> bool" where
  "iso_valid V k v =
     (case getStyle (style_array V) (k - 1) of Inl _ \<Rightarrow> False | Inr st \<Rightarrow> valid_value st v)"

interpretation iso_codec: field_codec "iso_enc V" "iso_dec V" "iso_valid V" for V
proof
  fix k v
  assume "iso_valid V k v"
  then obtain st where st: "getStyle (style_array V) (k - 1) = Inr st" "valid_value st v"
    by (auto simp: iso_valid_def split: sum.splits)
  from encoding_decoding [OF getStyle_ok [OF st(1)] st(2)] st(1)
  show "\<exists>e. iso_enc V k v = Some e \<and> e \<noteq> [] \<and>
    (\<forall>pre post. iso_dec V k (pre @ e @ post) (length pre) = Some (length pre + length e, v))"
    by (auto simp: iso_enc_def iso_dec_def)
qed

lemma pack_loop_enc: "enc_fields (iso_enc V) kvs = Some es \<Longrightarrow> pack_loop V kvs c = Inr (0, c @ es)"
proof (induction kvs arbitrary: es c)
  case (Cons kv kvs)
  obtain k v where kv: "kv = (k, v)" by (cases kv)
  from Cons.prems kv obtain e es' where e: "iso_enc V k v = Some e" "enc_fields (iso_enc V) kvs = Some es'"
    "es = e @ es'" by (auto split: option.splits)
  from e(1) obtain st where "getStyle (style_array V) (k - 1) = Inr st" "encoding v st = Some e"
    by (auto simp: iso_enc_def split: sum.splits)
  with Cons.IH [OF e(2)] e(3) kv show ?case by simp
qed simp

lemma unpack_loop_dec:
  "dec_fields (iso_dec V) (map Suc (filter (\<lambda>i. m_bitset_bitmap s ! i) is)) (m_content s) off = Some (off', kvs) \<Longrightarrow>
     unpack_loop V is off s =
       Inr (0, off', s\<lparr>m_map_field := fold (\<lambda>(k, v). map_insert k v) kvs (m_map_field s)\<rparr>)"
proof (induction "is" arbitrary: off s kvs)
  case (Cons i "is")
  show ?case
  proof (cases "m_bitset_bitmap s ! i")
    case True
    with Cons.prems obtain off1 v kvs1 where d: "iso_dec V (Suc i) (m_content s) off = Some (off1, v)"
      "dec_fields (iso_dec V) (map Suc (filter (\<lambda>i. m_bitset_bitmap s ! i) is)) (m_content s) off1 = Some (off', kvs1)"
      "kvs = (Suc i, v) # kvs1" by (auto split: option.splits)
    from d(1) obtain st where st: "getStyle (style_array V) i = Inr st" "decoding (m_content s) off st = Inr (Some (off1, v))"
      by (auto simp: iso_dec_def split: sum.splits)
    let ?s = "s\<lparr>m_map_field := map_insert (Suc i) v (m_map_field s)\<rparr>"
    from Cons.IH [of ?s off1 kvs1] d True st show ?thesis by simp
  next
    case False
    with Cons show ?thesis by simp
  qed
qed simp

lemma fold_map_insert:
  "distinct (map fst kvs) \<Longrightarrow> (\<forall>(k, v)\<in>set kvs. m k = None) \<Longrightarrow>
     fold (\<lambda>(k, v). map_insert k v) kvs m = m ++ map_of kvs"
proof (induction kvs arbitrary: m)
  case (Cons kv kvs)
  obtain k v where kv: "kv = (k, v)" by (cases kv)
  have i: "map_insert k v m = m(k \<mapsto> v)" using Cons.prems(2) kv by (simp add: map_insert_def)
  have "map_of kvs k = None" using Cons.prems(1) kv by (simp add: map_of_eq_None_iff)
  then have u: "m(k \<mapsto> v) ++ map_of kvs = m ++ map_of (kv # kvs)"
    by (intro ext) (auto simp: kv map_add_def split: option.splits)
  have "fold (\<lambda>(k, v). map_insert k v) (kv # kvs) m = fold (\<lambda>(k, v). map_insert k v) kvs (m(k \<mapsto> v))"
    by (simp add: kv i)
  also have "\<dots> = m(k \<mapsto> v) ++ map_of kvs"
    using Cons.prems kv by (intro Cons.IH) force+
  also note u
  finally show ?case .
qed simp

section \<open>Header\<close>

fun cuts :: "nat \<Rightarrow> nat list \<Rightarrow> (nat \<times> nat) list" where
  "cuts p [] = []"
| "cuts p (w # ws) = (p, w) # cuts (p + w) ws"

lemma cuts_concat:
  "map (\<lambda>(p, n). take n (drop p (pre @ concat fs))) (cuts (length pre) (map length fs)) = fs"
proof (induction fs arbitrary: pre)
  case (Cons f fs)
  from Cons [of "pre @ f"] show ?case by simp
qed simp

lemma cuts_bound: "(p, n) \<in> set (cuts a ws) \<Longrightarrow> p \<le> a + sum_list ws"
  by (induction ws arbitrary: a) fastforce+

lemma push_substrs_eq:
  "(\<And>p n. (p, n) \<in> set ps \<Longrightarrow> p \<le> length h) \<Longrightarrow>
     push_substrs h ps t = Inr (t\<lparr>m_vec_field := m_vec_field t @ map (\<lambda>(p, n). take n (drop p h)) ps\<rparr>)"
proof (induction ps arbitrary: t)
  case (Cons pn ps)
  obtain p n where pn: "pn = (p, n)" by (cases pn)
  have "p \<le> length h" using Cons.prems [of p n] pn by simp
  moreover have "\<And>p n. (p, n) \<in> set ps \<Longrightarrow> p \<le> length h" using Cons.prems by fastforce
  ultimately show ?case using pn by (simp add: Cons.IH)
qed simp

definition header_ok :: "variant8583 \<Rightarrow> cstr list \<Rightarrow> bool" where
  "header_ok V fs \<longleftrightarrow> map length fs = map snd (header_split V) \<and> (\<forall>c\<in>set (concat fs). is_hex_upper c)"

text \<open>What the proofs need of a variant; it holds of the three classes.\<close>

locale iso_variant =
  fixes V :: variant8583
  assumes styles_64: "length (style_array V) = 64"
    and mac_style: "style_array V ! 63 = 0x0308"
    and split_cuts: "header_split V = cuts 0 (map snd (header_split V))"
    and split_sum: "sum_list (map snd (header_split V)) = HEADER_LEN V"
    and split_count: "length (header_split V) = HEADER_FIELD_COUNT V"
    and header_even: "even (HEADER_LEN V)"
begin

lemma header_length: "header_ok V fs \<Longrightarrow> length (concat fs) = HEADER_LEN V"
  by (simp add: header_ok_def length_concat split_sum)

lemma header_count: "header_ok V fs \<Longrightarrow> length fs = HEADER_FIELD_COUNT V"
  using split_count by (metis header_ok_def length_map)

lemma header_bcd:
  assumes "header_ok V fs"
  shows "length (asc2bcd_l (concat fs)) = HEADER_LEN V div 2" "bcd2asc (asc2bcd_l (concat fs)) = concat fs"
proof -
  note l = header_length [OF assms]
  from header_even show "length (asc2bcd_l (concat fs)) = HEADER_LEN V div 2"
    by (simp only: length_asc2bcd l) presburger
  show "bcd2asc (asc2bcd_l (concat fs)) = concat fs"
    using assms header_even l by (subst bcd2asc_asc2bcd_l) (auto simp: header_ok_def)
qed

lemma dealMsgHeader_pushes:
  assumes "length header = HEADER_LEN V"
  shows "dealMsgHeader V header t =
     Inr (t\<lparr>m_vec_field := m_vec_field t @ map (\<lambda>(p, n). take n (drop p header)) (header_split V)\<rparr>)"
proof -
  have "p \<le> length header" if "(p, n) \<in> set (header_split V)" for p n
    using that cuts_bound [of p n 0 "map snd (header_split V)"] split_cuts split_sum assms by simp
  then show ?thesis using assms by (simp add: dealMsgHeader_def push_substrs_eq)
qed

lemma dealMsgHeader_total: "\<exists>t'. dealMsgHeader V header t = Inr t' \<and> m_bitset_bitmap t' = m_bitset_bitmap t"
  using dealMsgHeader_pushes [of header t] by (cases "length header = HEADER_LEN V") (simp_all add: dealMsgHeader_def)

lemma dealMsgHeader_eq:
  assumes "header_ok V fs" "m_vec_field t = []"
  shows "dealMsgHeader V (concat fs) t = Inr (t\<lparr>m_vec_field := fs\<rparr>)"
proof -
  have "map (\<lambda>(p, n). take n (drop p (concat fs))) (header_split V) = fs"
    using cuts_concat [of "[]" fs] split_cuts assms(1) by (simp add: header_ok_def)
  then show ?thesis using dealMsgHeader_pushes [OF header_length [OF assms(1)], of t] assms(2) by simp
qed

lemma mac_valid: "iso_valid V 64 (replicate 8 0)"
  by (simp add: iso_valid_def getStyle_def styles_64 mac_style valid_value_def bcd_type_def type_8583_defs)

lemma mac_enc: "iso_enc V 64 (replicate 8 0) = Some (replicate 8 0)"
  by (simp add: iso_enc_def getStyle_def styles_64 mac_style encoding_def type_8583_defs)

end

interpretation iso: iso_variant ISO8583
  by unfold_locales (simp_all add: ISO8583_def iso8583_style_array_def)

interpretation cil: iso_variant ISO8583_CIL
  by unfold_locales (simp_all add: ISO8583_CIL_def ISO8583_CIL_style_array_def)

interpretation cupa: iso_variant ISO8583_CUPA
  by unfold_locales (simp_all add: ISO8583_CUPA_def ISO8583_CUPA_style_array_def)


section \<open>Pack, then Unpack\<close>

text \<open>The fields a receiver sees: those of the sender and, with a MAC, the eight zero bytes of field 64.\<close>

definition with_mac :: "bool \<Rightarrow> (nat \<rightharpoonup> cstr) \<Rightarrow> (nat \<rightharpoonup> cstr)" where
  "with_mac mac_flag m = (if mac_flag then m(64 \<mapsto> replicate 8 0) else m)"

text \<open>
  The messages the round trip is about: bitmap and fields agree, the field numbers are from 2 to 64
  (field 64 only without the MAC flag), there is something to send, and type, header and fields have
  the form their styles ask for.
\<close>

definition packable :: "variant8583 \<Rightarrow> bool \<Rightarrow> base8583 \<Rightarrow> bool" where
  "packable V mac_flag s \<longleftrightarrow> inv8583 s \<and>
     (\<forall>k\<le>MAX_ITEM_NUM. case m_map_field s k of None \<Rightarrow> True | Some v \<Rightarrow>
        2 \<le> k \<and> k \<le> (if mac_flag then 63 else 64) \<and> iso_valid V k v) \<and>
     (mac_flag \<or> map_items (m_map_field s) \<noteq> []) \<and>
     header_ok V (m_vec_field s) \<and>
     length (m_msg_type s) = 4 \<and> (\<forall>c\<in>set (m_msg_type s). is_hex_upper c)"

lemma filter_upt_range:
  assumes "\<And>k. P k \<Longrightarrow> a \<le> k \<and> k < b" "b \<le> n"
  shows "filter P [0..<n] = filter P [a..<b]"
proof (cases "a \<le> b")
  case True
  then have "[0..<n] = [0..<a] @ [a..<b] @ [b..<n]"
    using upt_add_eq_append [of 0 a "n - a"] upt_add_eq_append [of a b "n - b"] assms(2) by simp
  moreover have "filter P [0..<a] = []" "filter P [b..<n] = []"
    using assms(1) by (fastforce simp: filter_empty_conv)+
  ultimately show ?thesis by simp
next
  case False
  then have "\<not> P k" for k using assms(1) [of k] by auto
  then show ?thesis by simp
qed

lemma map_items_range:
  assumes "\<And>k. m k \<noteq> None \<Longrightarrow> a \<le> k \<and> k < b" "b \<le> MAX_ITEM_NUM + 1"
  shows "map_items m = map (\<lambda>k. (k, the (m k))) (filter (\<lambda>k. m k \<noteq> None) [a..<b])"
proof -
  have "filter (\<lambda>k. m k \<noteq> None) [0..<MAX_ITEM_NUM + 1] = filter (\<lambda>k. m k \<noteq> None) [a..<b]"
    by (rule filter_upt_range) (use assms in blast)+
  then show ?thesis by (simp only: map_items_def)
qed

lemma map_items_snoc:
  assumes "\<And>k. m k \<noteq> None \<Longrightarrow> a \<le> k \<and> k < b" "b \<le> MAX_ITEM_NUM" "a \<le> b"
  shows "map_items (m(b \<mapsto> v)) = map_items m @ [(b, v)]"
proof -
  let ?m = "m(b \<mapsto> v)"
  have "a \<le> k \<and> k < Suc b" if "?m k \<noteq> None" for k
    using that assms(1) [of k] assms(3) by (cases "k = b") simp_all
  then have "map_items ?m = map (\<lambda>k. (k, the (?m k))) (filter (\<lambda>k. ?m k \<noteq> None) [a..<Suc b])"
    using assms(2) by (intro map_items_range) auto
  also have "\<dots> = map (\<lambda>k. (k, the (m k))) (filter (\<lambda>k. m k \<noteq> None) [a..<b]) @ [(b, v)]"
  proof -
    have f: "filter (\<lambda>k. ?m k \<noteq> None) [a..<b] = filter (\<lambda>k. m k \<noteq> None) [a..<b]"
      by (rule filter_cong) auto
    have "map (\<lambda>k. (k, the (?m k))) (filter (\<lambda>k. ?m k \<noteq> None) [a..<b]) =
        map (\<lambda>k. (k, the (m k))) (filter (\<lambda>k. m k \<noteq> None) [a..<b])"
      unfolding f by (rule map_cong) auto
    then show ?thesis using assms(3) by (simp only: upt_Suc_append filter_append map_append) simp
  qed
  also have "map (\<lambda>k. (k, the (m k))) (filter (\<lambda>k. m k \<noteq> None) [a..<b]) = map_items m"
    using assms(1,2) by (intro map_items_range [symmetric]) auto
  finally show ?thesis .
qed

lemma map_items_mac:
  assumes "\<And>k. m k \<noteq> None \<Longrightarrow> 2 \<le> k \<and> k \<le> (if mac then 63 else 64)"
  shows "map_items (with_mac mac m) = map_items m @ (if mac then [(64, replicate 8 0)] else [])"
proof (cases mac)
  case True
  have "2 \<le> k \<and> k < 64" if "m k \<noteq> None" for k using that assms [of k] True by auto
  from map_items_snoc [where v = "replicate 8 0", OF this] True show ?thesis
    by (simp add: with_mac_def MAX_ITEM_NUM_def)
qed (simp add: with_mac_def)

lemma fields_indices:
  "map Suc (filter (\<lambda>i. m (Suc i) \<noteq> None) [a..<b]) = filter (\<lambda>k. m k \<noteq> None) [Suc a..<Suc b]"
  by (simp add: map_Suc_upt [symmetric] filter_map comp_def del: upt_Suc)

text \<open>What \<open>Pack\<close> writes, in one equation.\<close>

definition pack_msg :: "variant8583 \<Rightarrow> base8583 \<Rightarrow> cstr \<Rightarrow> cstr \<Rightarrow> cstr" where
  "pack_msg V s bitmap content =
     [of_nat (total_msg_len V content div 256), of_nat (total_msg_len V content mod 256)] @
     asc2bcd_l (concat (m_vec_field s)) @ asc2bcd_l (m_msg_type s) @ bitmap @ content"

definition mac_bits :: "bool \<Rightarrow> bool list \<Rightarrow> bool list" where
  "mac_bits mac_flag bits = (if mac_flag then bits[63 := True] else bits)"

lemma pack_bitmap_eq:
  "pack_bitmap mac s = s\<lparr>m_bitset_bitmap := mac_bits mac (m_bitset_bitmap s),
     m_bitmap := map (bitmap_byte (mac_bits mac (m_bitset_bitmap s))) [0..<8]\<rparr>"
  by (simp add: pack_bitmap_def setBitmap_def len_8583_defs mac_bits_def Let_def)

lemma mac_bits_idem [simp]: "mac_bits mac (mac_bits mac bits) = mac_bits mac bits"
  by (simp add: mac_bits_def)

lemma Pack_eq:
  assumes "enc_fields (iso_enc V) (map_items (m_map_field s)) = Some es"
    and "length (m_vec_field s) = HEADER_FIELD_COUNT V"
  shows "let bits = mac_bits mac (m_bitset_bitmap s); bitmap = map (bitmap_byte bits) [0..<8];
             content = es @ (if mac then replicate 8 0 else [])
     in Pack V mac msg s =
       Inr (0, pack_msg V s bitmap content,
            s\<lparr>m_content := content, m_mac_data := asc2bcd_l (m_msg_type s) @ bitmap @ es,
              m_bitset_bitmap := bits, m_bitmap := bitmap\<rparr>)"
  using assms pack_loop_enc [OF assms(1), of "[]"]
  by (simp add: Pack_def pack_bitmap_eq pack_msg_def Let_def)

lemma Unpack_eq:
  assumes "length hb = HEADER_LEN V div 2" "length tb = 2" "length bm = BITMAP_LEN" "content \<noteq> []"
    and "dealMsgHeader V (bcd2asc hb) t = Inr s1" "length (m_vec_field s1) = HEADER_FIELD_COUNT V"
    and "getBitmap (BITMAP_LEN * 8) (s1\<lparr>m_msg_type := bcd2asc tb, m_bitmap := bm, m_content := content\<rparr>) =
           Inr (0, s2)"
    and "unpack_loop V [1..<BITMAP_LEN * 8] 0 s2 = Inr (0, off, s3)"
  shows "Unpack V ([a, b] @ hb @ tb @ bm @ content) t =
     Inr (0, s3\<lparr>m_mac_data := tb @ m_bitmap s3 @
       take (if m_bitset_bitmap s3 ! (BITMAP_LEN * 8 - 1) then unsigned_diff off MAC_VALUE_LEN else off)
         (m_content s3)\<rparr>)"
  using assms by (simp add: Unpack_def Let_def MSG_LEN_def MTI_LEN_def)

lemma enc_fields_append:
  "enc_fields enc a = Some x \<Longrightarrow> enc_fields enc b = Some y \<Longrightarrow> enc_fields enc (a @ b) = Some (x @ y)"
proof (induction a arbitrary: x)
  case (Cons kv a)
  obtain k v where "kv = (k, v)" by (cases kv)
  with Cons show ?case by (auto split: option.splits)
qed simp

lemma map_items_nth_bits:
  assumes "\<And>k. m k \<noteq> None \<Longrightarrow> 2 \<le> k \<and> k \<le> 64" "\<And>i. i < 64 \<Longrightarrow> bits ! i \<longleftrightarrow> m (Suc i) \<noteq> None"
  shows "map Suc (filter (\<lambda>i. bits ! i) [1..<BITMAP_LEN * 8]) = map fst (map_items m)"
proof -
  have "filter (\<lambda>i. bits ! i) [1..<BITMAP_LEN * 8] = filter (\<lambda>i. m (Suc i) \<noteq> None) [1..<BITMAP_LEN * 8]"
    using assms(2) by (intro filter_cong refl) (simp add: BITMAP_LEN_def)
  then have "map Suc (filter (\<lambda>i. bits ! i) [1..<BITMAP_LEN * 8]) =
      filter (\<lambda>k. m k \<noteq> None) [Suc 1..<Suc (BITMAP_LEN * 8)]" by (simp only: fields_indices)
  also have "\<dots> = map fst (map_items m)"
  proof -
    have "Suc 1 \<le> k \<and> k < Suc (BITMAP_LEN * 8)" if "m k \<noteq> None" for k
      using assms(1) [OF that] by (simp add: BITMAP_LEN_def)
    moreover have "Suc (BITMAP_LEN * 8) \<le> MAX_ITEM_NUM + 1" by (simp add: BITMAP_LEN_def MAX_ITEM_NUM_def)
    ultimately have i: "map_items m = map (\<lambda>k. (k, the (m k)))
        (filter (\<lambda>k. m k \<noteq> None) [Suc 1..<Suc (BITMAP_LEN * 8)])" by (rule map_items_range)
    show ?thesis unfolding i map_map comp_def fst_conv by (simp only: list.map_ident)
  qed
  finally show ?thesis .
qed

lemma packableD:
  assumes "packable V mac s"
  shows "length (m_bitset_bitmap s) = MAX_ITEM_NUM"
    "\<And>i. i < MAX_ITEM_NUM \<Longrightarrow> m_bitset_bitmap s ! i \<longleftrightarrow> m_map_field s (Suc i) \<noteq> None"
    "\<And>k v. m_map_field s k = Some v \<Longrightarrow> 2 \<le> k \<and> k \<le> (if mac then 63 else 64) \<and> iso_valid V k v"
    "mac \<or> map_items (m_map_field s) \<noteq> []" "header_ok V (m_vec_field s)"
    "length (m_msg_type s) = 4" "\<forall>c\<in>set (m_msg_type s). is_hex_upper c"
proof -
  have inv: "inv8583 s" and f: "\<forall>k\<le>MAX_ITEM_NUM. case m_map_field s k of None \<Rightarrow> True | Some v \<Rightarrow>
        2 \<le> k \<and> k \<le> (if mac then 63 else 64) \<and> iso_valid V k v"
    using assms by (simp_all add: packable_def)
  show "length (m_bitset_bitmap s) = MAX_ITEM_NUM"
    "\<And>i. i < MAX_ITEM_NUM \<Longrightarrow> m_bitset_bitmap s ! i \<longleftrightarrow> m_map_field s (Suc i) \<noteq> None"
    using inv by (simp_all add: inv8583_def)
  show "mac \<or> map_items (m_map_field s) \<noteq> []" "header_ok V (m_vec_field s)"
    "length (m_msg_type s) = 4" "\<forall>c\<in>set (m_msg_type s). is_hex_upper c"
    using assms by (simp_all add: packable_def)
  fix k v assume v: "m_map_field s k = Some v"
  then have "k \<le> MAX_ITEM_NUM" using inv by (auto simp: inv8583_def)
  with f v show "2 \<le> k \<and> k \<le> (if mac then 63 else 64) \<and> iso_valid V k v" by fastforce
qed

context iso_variant
begin

lemma unpack_pack:
  assumes h: "header_ok V fs" and t: "length ty = 4" "\<forall>c\<in>set ty. is_hex_upper c"
    and b: "length bits = MAX_ITEM_NUM" and c: "content \<noteq> []"
    and d: "dec_fields (iso_dec V) (map Suc (filter (\<lambda>i. bits ! i) [1..<BITMAP_LEN * 8])) content 0 = Some (off, kvs)"
    and k: "distinct (map fst kvs)"
  shows "\<exists>t'. Unpack V ([x, y] @ asc2bcd_l (concat fs) @ asc2bcd_l ty @ map (bitmap_byte bits) [0..<8] @ content) (Init u)
       = Inr (0, t') \<and> m_map_field t' = map_of kvs \<and> m_vec_field t' = fs \<and> m_msg_type t' = ty \<and>
     m_mac_data t' = asc2bcd_l ty @ map (bitmap_byte bits) [0..<8] @
       take (if bits ! (BITMAP_LEN * 8 - 1) then unsigned_diff off MAC_VALUE_LEN else off) content"
proof -
  let ?bm = "map (bitmap_byte bits) [0..<8]"
  have BL: "BITMAP_LEN = 8" "BITMAP_LEN * 8 \<le> MAX_ITEM_NUM" by (simp_all add: BITMAP_LEN_def MAX_ITEM_NUM_def)
  have tb: "length (asc2bcd_l ty) = 2" "bcd2asc (asc2bcd_l ty) = ty"
    using t by (simp_all add: length_asc2bcd bcd2asc_asc2bcd_l)
  have dh: "dealMsgHeader V (bcd2asc (asc2bcd_l (concat fs))) (Init u) = Inr ((Init u)\<lparr>m_vec_field := fs\<rparr>)"
    unfolding header_bcd(2) [OF h] by (rule dealMsgHeader_eq [OF h]) (simp add: Init_def)
  define s1 where "s1 = (Init u)\<lparr>m_vec_field := fs, m_msg_type := ty, m_bitmap := ?bm, m_content := content\<rparr>"
  define s2 where "s2 = s1\<lparr>m_bitset_bitmap :=
    getBitmap_loop [0..<BITMAP_LEN * 8] ?bm (replicate MAX_ITEM_NUM False)\<rparr>"
  have g: "getBitmap (BITMAP_LEN * 8) s1 = Inr (0, s2)"
    using BL by (simp add: getBitmap_def s1_def s2_def Init_def del: upt.simps)
  have bits2: "m_bitset_bitmap s2 ! i = bits ! i" if "i < BITMAP_LEN * 8" for i
    using that BL bitmap_bit_bytes [of i 8 bits] by (simp add: s2_def getBitmap_loop_nth)
  have "filter (\<lambda>i. m_bitset_bitmap s2 ! i) [1..<BITMAP_LEN * 8] = filter (\<lambda>i. bits ! i) [1..<BITMAP_LEN * 8]"
    by (rule filter_cong [OF refl]) (use bits2 in auto)
  moreover have "m_content s2 = content" by (simp add: s2_def s1_def)
  ultimately have "dec_fields (iso_dec V) (map Suc (filter (\<lambda>i. m_bitset_bitmap s2 ! i) [1..<BITMAP_LEN * 8]))
      (m_content s2) 0 = Some (off, kvs)" using d by (simp only:)
  note ul = unpack_loop_dec [OF this]
  have m: "fold (\<lambda>(k, v). map_insert k v) kvs (m_map_field s2) = map_of kvs"
    by (subst fold_map_insert [OF k]) (simp_all add: s2_def s1_def Init_def)
  have s1': "((Init u)\<lparr>m_vec_field := fs\<rparr>)
      \<lparr>m_msg_type := bcd2asc (asc2bcd_l ty), m_bitmap := ?bm, m_content := content\<rparr> = s1"
    by (simp add: tb s1_def)
  have hc: "length (m_vec_field ((Init u)\<lparr>m_vec_field := fs\<rparr>)) = HEADER_FIELD_COUNT V"
    using header_count [OF h] by simp
  have lb: "length ?bm = BITMAP_LEN" by (simp add: BL)
  have last: "m_bitset_bitmap s2 ! (BITMAP_LEN * 8 - 1) = bits ! (BITMAP_LEN * 8 - 1)"
    by (rule bits2) (simp add: BL)
  note un = Unpack_eq [OF header_bcd(1) [OF h] tb(1) lb c dh hc g [folded s1'] ul, of x y]
  show ?thesis
    unfolding un m using last by (simp add: s2_def s1_def)
qed

lemma pack_unpack:
  assumes p: "packable V mac s"
  shows "\<exists>msg s' t'. Pack V mac msg0 s = Inr (0, msg, s') \<and> Unpack V msg (Init t) = Inr (0, t') \<and>
     m_map_field t' = with_mac mac (m_map_field s) \<and> m_vec_field t' = m_vec_field s \<and>
     m_msg_type t' = m_msg_type s \<and>
     (mac \<or> m_map_field s 64 = None \<longrightarrow> m_mac_data t' = m_mac_data s')"
proof -
  note p = packableD [OF p]
  let ?m = "m_map_field s" and ?m' = "with_mac mac (m_map_field s)"
  let ?z = "if mac then replicate 8 0 else [] :: cstr"
  let ?bits = "mac_bits mac (m_bitset_bitmap s)"
  have items: "map_items ?m' = map_items ?m @ (if mac then [(64, replicate 8 0)] else [])"
    using p(3) by (intro map_items_mac) blast
  have val: "\<forall>(k, v)\<in>set (map_items ?m'). iso_valid V k v"
    unfolding items using p(3) mac_valid by (auto simp: map_items_mem split: if_splits)
  then have val0: "\<forall>(k, v)\<in>set (map_items ?m). iso_valid V k v" unfolding items by auto
  from iso_codec.fields_enc_dec [OF val0] obtain es where es: "enc_fields (iso_enc V) (map_items ?m) = Some es" by blast
  have "enc_fields (iso_enc V) (if mac then [(64, replicate 8 0)] else []) = Some ?z"
    by (cases mac) (simp_all only: if_True if_False enc_fields.simps mac_enc option.simps append_Nil2)
  from enc_fields_append [OF es this] have es': "enc_fields (iso_enc V) (map_items ?m') = Some (es @ ?z)"
    unfolding items .
  have dom': "2 \<le> k \<and> k \<le> 64" if "?m' k \<noteq> None" for k
    using that p(3) [of k] by (cases "k = 64") (auto simp: with_mac_def split: if_splits)
  have ks: "map Suc (filter (\<lambda>i. ?bits ! i) [1..<BITMAP_LEN * 8]) = map fst (map_items ?m')"
    using dom'
  proof (rule map_items_nth_bits)
    fix i :: nat assume "i < 64"
    with p(1) p(2) [of i] show "?bits ! i \<longleftrightarrow> ?m' (Suc i) \<noteq> None"
      by (cases "i = 63") (auto simp: mac_bits_def with_mac_def MAX_ITEM_NUM_def)
  qed
  from iso_codec.fields_enc_dec [OF val] es'
  have ne: "map_items ?m' \<noteq> [] \<longrightarrow> es @ ?z \<noteq> []"
    and dec: "\<And>pre post. dec_fields (iso_dec V) (map fst (map_items ?m')) (pre @ (es @ ?z) @ post) (length pre) =
      Some (length pre + length (es @ ?z), map_items ?m')" by (simp, auto)
  have c: "es @ ?z \<noteq> []" using ne p(4) unfolding items by (cases mac) auto
  have dist: "distinct (map fst (map_items ?m'))" unfolding map_items_fst by (rule distinct_filter) simp
  have bl: "length ?bits = MAX_ITEM_NUM" using p(1) by (simp add: mac_bits_def)
  have d: "dec_fields (iso_dec V) (map Suc (filter (\<lambda>i. ?bits ! i) [1..<BITMAP_LEN * 8])) (es @ ?z) 0 =
      Some (length (es @ ?z), map_items ?m')"
    unfolding ks using dec [of "[]" "[]"] by (simp only: append_Nil append_Nil2 list.size add_0)
  obtain t' where t': "Unpack V (pack_msg V s (map (bitmap_byte ?bits) [0..<8]) (es @ ?z)) (Init t) = Inr (0, t')"
    "m_map_field t' = map_of (map_items ?m')" "m_vec_field t' = m_vec_field s" "m_msg_type t' = m_msg_type s"
    "m_mac_data t' = asc2bcd_l (m_msg_type s) @ map (bitmap_byte ?bits) [0..<8] @
       take (if ?bits ! (BITMAP_LEN * 8 - 1) then unsigned_diff (length (es @ ?z)) MAC_VALUE_LEN else length (es @ ?z)) (es @ ?z)"
    using unpack_pack [OF p(5,6,7) bl c d dist] unfolding pack_msg_def by blast
  have "map_of (map_items ?m') = ?m'"
  proof (rule ext)
    show "map_of (map_items ?m') k = ?m' k" for k
      using dom' [of k] by (cases "?m' k") (auto simp: map_items_cong MAX_ITEM_NUM_def)
  qed
  moreover have "?bits ! 63 \<longleftrightarrow> mac \<or> ?m 64 \<noteq> None"
    using p(1) p(2) [of 63] by (simp add: mac_bits_def MAX_ITEM_NUM_def)
  moreover note Pack_eq [OF es header_count [OF p(5)], of mac msg0, unfolded Let_def]
  ultimately show ?thesis
    using t' by (cases mac) (auto simp: BITMAP_LEN_def MAC_VALUE_LEN_def unsigned_diff_def simp del: upt.simps)
qed

end

section \<open>Unpack on arbitrary input\<close>

text \<open>
  No call of \<open>assign\<close>, \<open>erase\<close> or \<open>substr\<close> of \<open>decoding\<close> throws, for any content and any
  offset, even one past the end (where a field that was cut off leaves it): the checks before them
  keep each position inside its string.
\<close>

lemma decoding_value_total: "\<exists>d. decoding_value content offset n st = Inr d"
proof (cases "max_len st < n \<or> length content < offset + n div 2 + n mod 2")
  case False
  then have "offset \<le> length content" "offset + (n div 2 + n mod 2) \<le> length content" by simp_all
  moreover have "n \<le> 2 * (n div 2 + n mod 2)" "n mod 2 \<noteq> 0 \<longrightarrow> 1 \<le> 2 * (n div 2 + n mod 2)" by presburger+
  ultimately show ?thesis by (simp add: decoding_value_def Let_def min_absorb2 del: length_greater_0_conv)
qed (auto simp: decoding_value_def)

lemma decoding_total: "\<exists>d. decoding content offset st = Inr d"
  using decoding_value_total by (simp add: decoding_def bcd_len_def)

lemma unpack_loop_total:
  "\<forall>i\<in>set is. i < length (style_array V) \<Longrightarrow>
     \<exists>r off' t. unpack_loop V is off s = Inr (r, off', t) \<and> (r = 0 \<or> r \<in> (\<lambda>i. int (i + 1)) ` set is) \<and>
       m_bitset_bitmap t = m_bitset_bitmap s"
proof (induction "is" arbitrary: off s)
  case (Cons i "is")
  from Cons.prems have "i < length (style_array V)" by simp
  from getStyle_Inr [OF this] obtain st where st: "getStyle (style_array V) i = Inr st" by blast
  obtain d where d: "decoding (m_content s) off st = Inr d" using decoding_total by blast
  show ?case
  proof (cases "m_bitset_bitmap s ! i")
    case bit: True
    show ?thesis
    proof (cases d)
      case None
      with bit st d show ?thesis by simp
    next
      case (Some ov)
      then obtain off1 v where "d = Some (off1, v)" by (cases ov) auto
      moreover from Cons.IH [of off1 "s\<lparr>m_map_field := map_insert (Suc i) v (m_map_field s)\<rparr>"] Cons.prems
      obtain r off' t where "unpack_loop V is off1 (s\<lparr>m_map_field := map_insert (Suc i) v (m_map_field s)\<rparr>) =
          Inr (r, off', t)" "r = 0 \<or> r \<in> (\<lambda>i. int (i + 1)) ` set is" "m_bitset_bitmap t = m_bitset_bitmap s"
        by auto
      ultimately show ?thesis using bit st d by auto
    qed
  next
    case False
    with Cons.IH [of off s] Cons.prems show ?thesis by auto
  qed
qed simp

context iso_variant
begin

lemma Unpack_total:
  assumes b: "length (m_bitset_bitmap s) = MAX_ITEM_NUM"
  shows "\<exists>r t. Unpack V msg s = Inr (r, t) \<and> (r = - 1 \<or> r = 0 \<or> 2 \<le> r \<and> r \<le> 64)"
proof (cases "length msg \<le> MSG_LEN + HEADER_LEN V div 2 + MTI_LEN div 2 + BITMAP_LEN")
  case long: False
  obtain s1 where s1: "dealMsgHeader V (bcd2asc (take (HEADER_LEN V div 2) (drop MSG_LEN msg))) s = Inr s1"
    "m_bitset_bitmap s1 = m_bitset_bitmap s" using dealMsgHeader_total by blast
  show ?thesis
  proof (cases "length (m_vec_field s1) = HEADER_FIELD_COUNT V")
    case hdr: True
    let ?o = "MSG_LEN + HEADER_LEN V div 2"
    define s2 where "s2 = s1\<lparr>m_msg_type := bcd2asc (take (MTI_LEN div 2) (drop ?o msg)),
      m_bitmap := take BITMAP_LEN (drop (?o + MTI_LEN div 2) msg),
      m_content := drop (?o + MTI_LEN div 2 + BITMAP_LEN) msg\<rparr>"
    have "length (m_bitset_bitmap s2) = MAX_ITEM_NUM" using b s1(2) by (simp add: s2_def)
    moreover have "length (m_bitmap s2) = BITMAP_LEN" using long by (simp add: s2_def)
    ultimately obtain s3 where s3: "getBitmap (BITMAP_LEN * 8) s2 = Inr (0, s3)"
      by (simp add: getBitmap_def BITMAP_LEN_def MAX_ITEM_NUM_def del: upt.simps)
    have "\<forall>i\<in>set [1..<BITMAP_LEN * 8]. i < length (style_array V)" using styles_64 by (simp add: BITMAP_LEN_def)
    from unpack_loop_total [OF this, of 0 s3]
    obtain r off t where "unpack_loop V [1..<BITMAP_LEN * 8] 0 s3 = Inr (r, off, t)"
      and r: "r = 0 \<or> r \<in> (\<lambda>i. int (i + 1)) ` set [1..<BITMAP_LEN * 8]" by blast
    with long hdr s3 s1(1) have "\<exists>t. Unpack V msg s = Inr (r, t)"
      by (simp add: Unpack_def Let_def flip: s2_def)
    moreover have "r = 0 \<or> 2 \<le> r \<and> r \<le> 64" using r by (auto simp: BITMAP_LEN_def simp del: upt.simps)
    ultimately show ?thesis by blast
  next
    case False
    with long s1(1) show ?thesis by (simp add: Unpack_def Let_def)
  qed
qed (simp add: Unpack_def Let_def)

end

section \<open>Properties\<close>

text \<open>The classes the properties are about.\<close>

definition iso_classes :: "variant8583 set" where
  "iso_classes = {ISO8583, ISO8583_CIL, ISO8583_CUPA}"

text \<open>
  C1. Round trip of the three message classes: \<open>Pack\<close> succeeds on every message whose type, header
  and fields have the form their styles ask for, and \<open>Unpack\<close> of the packed bytes into any object
  after \<open>Init\<close> succeeds and restores message type, header fields and content fields (with the MAC
  flag, also field 64 with the eight zero bytes that \<open>Pack\<close> reserves). Unless field 64 was given as a
  content field, the two sides compute the MAC over the same bytes.
\<close>

theorem iso8583_roundtrip:
  assumes "V \<in> iso_classes" "packable V mac s"
  shows "\<exists>msg s' t'. Pack V mac msg0 s = Inr (0, msg, s') \<and> Unpack V msg (Init t) = Inr (0, t') \<and>
     m_map_field t' = with_mac mac (m_map_field s) \<and> m_vec_field t' = m_vec_field s \<and>
     m_msg_type t' = m_msg_type s \<and>
     (mac \<or> m_map_field s 64 = None \<longrightarrow> m_mac_data t' = m_mac_data s')"
  using assms iso.pack_unpack [of mac s] cil.pack_unpack [of mac s] cupa.pack_unpack [of mac s]
  unfolding iso_classes_def by blast

definition iso_sample :: base8583 where
  "iso_sample = InitHeader ISO8583 (SetMsgType (bytes ''0200'')
     (Base8583_new\<lparr>m_bitset_bitmap := (replicate MAX_ITEM_NUM False)[2 := True],
                    m_map_field := [3 \<mapsto> bytes ''310000'']\<rparr>))"

lemma iso_sample_packable: "packable ISO8583 True iso_sample"
proof -
  have "inv8583 iso_sample"
    by (auto simp: inv8583_def iso_sample_def InitHeader_def SetMsgType_def nth_list_update MAX_ITEM_NUM_def)
  moreover have "header_ok ISO8583 (m_vec_field iso_sample)"
    by (simp add: header_ok_def iso_sample_def InitHeader_def ISO8583_def HEADER_ID_def is_hex_upper_def)
  moreover have "iso_valid ISO8583 3 (bytes ''310000'')"
    by (simp add: iso_valid_def getStyle_def ISO8583_def iso8583_style_array_def valid_value_def is_hex_upper_def)
  ultimately show ?thesis
    by (auto simp: packable_def iso_sample_def InitHeader_def SetMsgType_def is_hex_upper_def)
qed

theorem iso8583_roundtrip_witness:
  "\<exists>msg s' t'. Pack ISO8583 True [] iso_sample = Inr (0, msg, s') \<and>
     Unpack ISO8583 msg (Init Base8583_new) = Inr (0, t') \<and>
     m_map_field t' = with_mac True (m_map_field iso_sample) \<and>
     m_vec_field t' = m_vec_field iso_sample \<and> m_msg_type t' = m_msg_type iso_sample \<and>
     (True \<or> m_map_field iso_sample 64 = None \<longrightarrow> m_mac_data t' = m_mac_data s')"
  using iso8583_roundtrip [OF _ iso_sample_packable, of "[]" Base8583_new] by (simp add: iso_classes_def)

text \<open>
  C3. \<open>Unpack\<close> is safe on any input: whatever bytes arrive, and whatever the object held before, it
  returns (no exception, no access outside a string, a vector or the bitset) with -1 for a message
  that is too short or has a wrong header, 0, or the number, from 2 to 64, of the field it could not
  decode.
\<close>

theorem iso8583_unpack_total:
  assumes "V \<in> iso_classes" "length (m_bitset_bitmap s) = MAX_ITEM_NUM"
  shows "\<exists>r t. Unpack V msg s = Inr (r, t) \<and> (r = - 1 \<or> r = 0 \<or> 2 \<le> r \<and> r \<le> 64)"
  using assms iso.Unpack_total [of s msg] cil.Unpack_total [of s msg] cupa.Unpack_total [of s msg]
  unfolding iso_classes_def by blast

theorem iso8583_unpack_total_witness:
  "\<exists>r t. Unpack ISO8583 (bytes ''garbage'') Base8583_new = Inr (r, t) \<and>
     (r = - 1 \<or> r = 0 \<or> 2 \<le> r \<and> r \<le> 64)"
  using iso8583_unpack_total [of ISO8583 Base8583_new "bytes ''garbage''"]
  by (simp add: iso_classes_def Base8583_new_def Init_def)

text \<open>
  The bounds check of \<open>decoding\<close> counts half a byte per character for every type, so that a field
  of characters or binary data that is cut off anywhere in its second half is accepted: a fixed field
  of 8 characters of which only 4 are there is decoded as those 4, and the offset is moved past the
  end of the content.
\<close>

theorem iso8583_truncated_field:
  assumes "length v = 4"
  shows "\<exists>st. getStyle (style_array ISO8583) 40 = Inr st \<and> max_len st = 8 \<and> var_item st = 0 \<and>
     decoding v 0 st = Inr (Some (8, v))"
  using assms
  by (simp add: getStyle_def ISO8583_def iso8583_style_array_def decoding_def decoding_value_def type_8583_defs)

theorem iso8583_truncated_field_witness:
  "\<exists>st. getStyle (style_array ISO8583) 40 = Inr st \<and> max_len st = 8 \<and> var_item st = 0 \<and>
     decoding (bytes ''1234'') 0 st = Inr (Some (8, bytes ''1234''))"
  using iso8583_truncated_field [of "bytes ''1234''"] by simp

text \<open>
  A second \<open>Unpack\<close> into the same object fails: \<open>dealMsgHeader\<close> appends the header fields to those
  that are already there, so that an object with a complete header (after a successful \<open>Unpack\<close> or
  after \<open>InitHeader\<close>) refuses every message that is long enough with -1 until \<open>Init\<close> is called.
\<close>

theorem iso8583_unpack_needs_init:
  assumes "V \<in> iso_classes" "length (m_vec_field s) = HEADER_FIELD_COUNT V"
    and "MSG_LEN + HEADER_LEN V div 2 + MTI_LEN div 2 + BITMAP_LEN < length msg"
  shows "\<exists>t. Unpack V msg s = Inr (- 1, t)"
  using assms
  by (auto simp: Unpack_def Let_def dealMsgHeader_def iso_classes_def ISO8583_def ISO8583_CIL_def
      ISO8583_CUPA_def len_8583_defs)

theorem iso8583_unpack_needs_init_witness:
  "\<exists>t. Unpack ISO8583 (replicate 30 0) (InitHeader ISO8583 Base8583_new) = Inr (- 1, t)"
  using iso8583_unpack_needs_init [of ISO8583 "InitHeader ISO8583 Base8583_new" "replicate 30 0"]
  by (simp add: iso_classes_def InitHeader_def ISO8583_def len_8583_defs)

lemma GetMsgKey_with_mac:
  assumes "64 \<notin> set (key_field_array V)" "m_map_field t' = with_mac mac (m_map_field s)" "m_msg_type t' = m_msg_type s"
  shows "GetMsgKey V t' = GetMsgKey V s"
proof -
  have "map (\<lambda>k. case m_map_field t' k of None \<Rightarrow> [] | Some v \<Rightarrow> v) (key_field_array V) =
      map (\<lambda>k. case m_map_field s k of None \<Rightarrow> [] | Some v \<Rightarrow> v) (key_field_array V)"
    using assms(1,2) by (intro map_cong) (auto simp: with_mac_def)
  then show ?thesis unfolding GetMsgKey_def assms(3) by (simp only:)
qed

text \<open>
  Message keys: a terminal message of \<open>ISO8583_CIL\<close> or \<open>ISO8583_CUPA\<close> whose header comes from
  \<open>InitHeader\<close> gets the same key (fields 11, 41 and 42, for \<open>ISO8583_CUPA\<close> after the first two
  characters of the message type) on the side that unpacks it as on the side that packed it, so that
  the session saved under the key is found again.
\<close>

theorem iso8583_message_key:
  "(packable ISO8583_CIL mac (CIL_InitHeader s) \<longrightarrow>
     (\<exists>msg s' t'. CIL_Pack mac msg0 (CIL_InitHeader s) = Inr (0, msg, s') \<and> CIL_Unpack msg (Init t) = Inr (0, t') \<and>
        CIL_GetMsgKey t' = CIL_GetMsgKey (CIL_InitHeader s))) \<and>
   (packable ISO8583_CUPA mac (CUPA_InitHeader s) \<longrightarrow>
     (\<exists>msg s' t'. CUPA_Pack mac msg0 (CUPA_InitHeader s) = Inr (0, msg, s') \<and> CUPA_Unpack msg (Init t) = Inr (0, t') \<and>
        CUPA_GetMsgKey t' = CUPA_GetMsgKey (CUPA_InitHeader s)))"
proof -
  have "64 \<notin> set (key_field_array ISO8583_CIL)" "64 \<notin> set (key_field_array ISO8583_CUPA)"
    by (simp_all add: ISO8583_CIL_def ISO8583_CUPA_def)
  then show ?thesis
    unfolding CIL_Pack_def CIL_Unpack_def CIL_GetMsgKey_def CUPA_Pack_def CUPA_Unpack_def CUPA_GetMsgKey_def
    using cil.pack_unpack [of mac "CIL_InitHeader s" msg0 t] cupa.pack_unpack [of mac "CUPA_InitHeader s" msg0 t]
      GetMsgKey_with_mac by blast
qed

definition cupa_sample :: base8583 where
  "cupa_sample = SetMsgType (bytes ''0200'')
     (Base8583_new\<lparr>m_bitset_bitmap := (replicate MAX_ITEM_NUM False)[10 := True],
                    m_map_field := [11 \<mapsto> bytes ''000123'']\<rparr>)"

lemma cupa_sample_packable: "packable ISO8583_CUPA True (CUPA_InitHeader cupa_sample)"
proof -
  have "inv8583 (CUPA_InitHeader cupa_sample)"
    by (auto simp: inv8583_def cupa_sample_def CUPA_InitHeader_def InitHeader_def SetMsgType_def nth_list_update
        MAX_ITEM_NUM_def)
  moreover have "header_ok ISO8583_CUPA (m_vec_field (CUPA_InitHeader cupa_sample))"
    by (simp add: header_ok_def cupa_sample_def CUPA_InitHeader_def InitHeader_def ISO8583_CUPA_def HEADER_ID_def
        is_hex_upper_def)
  moreover have "iso_valid ISO8583_CUPA 11 (bytes ''000123'')"
    by (simp add: iso_valid_def getStyle_def ISO8583_CUPA_def ISO8583_CUPA_style_array_def valid_value_def
        is_hex_upper_def)
  ultimately show ?thesis
    by (auto simp: packable_def cupa_sample_def CUPA_InitHeader_def InitHeader_def SetMsgType_def is_hex_upper_def)
qed

theorem iso8583_message_key_witness:
  "\<exists>msg s' t'. CUPA_Pack True [] (CUPA_InitHeader cupa_sample) = Inr (0, msg, s') \<and>
     CUPA_Unpack msg (Init Base8583_new) = Inr (0, t') \<and>
     CUPA_GetMsgKey t' = CUPA_GetMsgKey (CUPA_InitHeader cupa_sample)"
  using iso8583_message_key [of True cupa_sample "[]" Base8583_new] cupa_sample_packable by blast

end
