(* ===== verification/Cups8583.thy ===== *)
theory Cups8583
  imports Iso8583
begin

text \<open>
  \<open>CUPS8583\<close> (\<open>source/transport/msg8583/cups8583.cpp\<close>): the message class with a 128-bit bitmap,
  decimal lengths in characters, padded fixed fields and a MAC over selected fields. \<open>offset\<close> is
  an \<open>unsigned int\<close> and a length read from the message an \<open>int\<close> that may be negative; their sum
  is taken modulo \<open>2 ^ 32\<close>. The application configuration that \<open>InitHeader\<close> asks for the station
  numbers is its first argument. Logging is left out.
\<close>

definition CUPS_MSG_LEN :: nat where "CUPS_MSG_LEN = 4"
definition CUPS_HEADER_FIELD_COUNT :: nat where "CUPS_HEADER_FIELD_COUNT = 10"
definition CUPS_HEADER_LEN :: nat where "CUPS_HEADER_LEN = 0x2E"
definition CUPS_HEADER_FLAG_VER :: nat where "CUPS_HEADER_FLAG_VER = 0x02"
definition CUPS_BITMAP_LEN :: nat where "CUPS_BITMAP_LEN = 16"

lemmas cups_len_defs = CUPS_MSG_LEN_def CUPS_HEADER_FIELD_COUNT_def CUPS_HEADER_LEN_def
  CUPS_HEADER_FLAG_VER_def MTI_LEN_def MAC_VALUE_LEN_def

definition cups_key_field_array :: "nat list" where
  "cups_key_field_array = [7, 11, 32, 33]"

definition mgmt_mac_field_array :: "nat list" where
  "mgmt_mac_field_array = [7, 11, 39, 53, 70, 100]"

definition other_mac_field_array :: "nat list" where
  "other_mac_field_array = [2, 3, 4, 7, 11, 18, 25, 28, 32, 33, 38, 39, 41, 42, 90, 102, 103]"

definition cups8583_style_array :: "nat list" where
  "cups8583_style_array =
    [0x0000, 0x8213, 0x0206, 0x020c, 0x020c, 0x020c, 0x020a, 0x0000,
     0x0208, 0x0208, 0x0206, 0x0206, 0x0204, 0x0204, 0x0204, 0x0204,
     0x0000, 0x0204, 0x0203, 0x0000, 0x0000, 0x0203, 0x0203, 0x0000,
     0x0202, 0x0202, 0x0000, 0x0309, 0x0000, 0x0000, 0x0000, 0x820b,
     0x820b, 0x0000, 0xa225, 0xa268, 0x030c, 0x0306, 0x0302, 0x0000,
     0x0708, 0x070f, 0x0728, 0x8719, 0x874c, 0x0000, 0x0000, 0x8800,
     0x0303, 0x0303, 0x0203, 0x0808, 0x0210, 0x8300, 0x88ff, 0x0000,
     0x8764, 0x0000, 0x8700, 0x8764, 0x8700, 0x8700, 0x8700, 0x0000,
     0x0000, 0x0000, 0x0000, 0x0000, 0x0000, 0x0203, 0x0000, 0x0000,
     0x0000, 0x0000, 0x0000, 0x0000, 0x0000, 0x0000, 0x0000, 0x0000,
     0x0000, 0x0000, 0x0000, 0x0000, 0x0000, 0x0000, 0x0000, 0x0000,
     0x0000, 0x022a, 0x0000, 0x0000, 0x0000, 0x0000, 0x0000, 0x0808,
     0x0000, 0x0000, 0x0000, 0x820b, 0x0000, 0x871e, 0x871e, 0x8800,
     0x0000, 0x0000, 0x0000, 0x0000, 0x0000, 0x0000, 0x0000, 0x0000,
     0x0000, 0x0000, 0x0000, 0x0000, 0x0000, 0x0000, 0x0000, 0x0000,
     0x8764, 0x8764, 0x8764, 0x0000, 0x0000, 0x0000, 0x0000, 0x0808]"

definition cups_getStyle :: "nat \<Rightarrow> ItemStyle result" where
  "cups_getStyle index = getStyle cups8583_style_array index"

section \<open>MAC data\<close>

definition isMacField :: "base8583 \<Rightarrow> nat \<Rightarrow> bool" where
  "isMacField s index =
     (if m_msg_type s = bytes ''0800'' \<or> m_msg_type s = bytes ''0810''
      then index \<in> set mgmt_mac_field_array
      else index \<in> set other_mac_field_array)"

text \<open>The loop that replaces two blanks by one until there are no two blanks in a row.\<close>

function squeeze_blanks :: "cstr \<Rightarrow> cstr" where
  "squeeze_blanks s =
     (case str_find s [32, 32] 0 of
        None \<Rightarrow> s
      | Some position \<Rightarrow> squeeze_blanks (take position s @ [32] @ drop (position + 2) s))"
  by pat_completeness auto
termination
proof (relation "measure length", goal_cases)
  case (2 s p)
  from str_find_SomeD [OF 2] have "p + 2 \<le> length s" by simp
  then show ?case by auto
qed simp

declare squeeze_blanks.simps [simp del]

definition mac_char :: "byte \<Rightarrow> bool" where
  "mac_char c \<longleftrightarrow> char_ge c 97 \<and> char_ge 122 c \<or> char_ge c 65 \<and> char_ge 90 c \<or>
     char_ge c 48 \<and> char_ge 57 c \<or> c = 0x20 \<or> c = 44 \<or> c = 46"

definition mac_upper :: "byte \<Rightarrow> byte" where
  "mac_upper c = (if char_ge c 97 \<and> char_ge 122 c then c + (65 - 97) else c)"

definition dealMacChar :: "cstr \<Rightarrow> cstr" where
  "dealMacChar v = map mac_upper (filter mac_char (squeeze_blanks (Trim v)))"

section \<open>Fields\<close>

text \<open>
  \<open>decoding\<close>: \<open>Inr None\<close> is the return value -1. A negative length wraps in
  \<open>offset + i_item_len\<close>, and as the count of \<open>assign\<close> it means the rest of the content.
\<close>

definition cups_decoding_value ::
  "nat \<Rightarrow> nat \<Rightarrow> cstr \<Rightarrow> int \<Rightarrow> base8583 \<Rightarrow> (nat \<times> cstr \<times> base8583) option result" where
  "cups_decoding_value index offset item_len i_item_len s =
     (let stop = nat ((int offset + i_item_len) mod 2 ^ 32); content = m_content s
      in if length content < stop then Inr None
         else if length content < offset then Inl Out_of_range
         else
           let item_value = (if i_item_len < 0 then drop offset content
                             else take (nat i_item_len) (drop offset content));
               s' = (if isMacField s index
                     then s\<lparr>m_mac_data := m_mac_data s @ [32] @ dealMacChar (item_len @ item_value)\<rparr>
                     else s)
           in Inr (Some (stop, item_value, s')))"

definition cups_decoding ::
  "nat \<Rightarrow> nat \<Rightarrow> ItemStyle \<Rightarrow> base8583 \<Rightarrow> (nat \<times> cstr \<times> base8583) option result" where
  "cups_decoding index offset st s =
     (let content = m_content s
      in if var_item st = 0 then cups_decoding_value index offset [] (int (max_len st)) s
         else if var_item st = 2
         then (if length content < offset + 2 then Inr None
               else let item_len = take 2 (drop offset content)
                    in cups_decoding_value index (offset + 2) item_len (atoi item_len) s)
         else if var_item st = 3
         then (if length content < offset + 3 then Inr None
               else let item_len = take 3 (drop offset content)
                    in cups_decoding_value index (offset + 3) item_len (atoi item_len) s)
         else cups_decoding_value index offset [] 0 s)"

definition cups_item_value :: "cstr \<Rightarrow> ItemStyle \<Rightarrow> cstr" where
  "cups_item_value src st =
     (if type_item st = Binary_8583 then src
      else if type_item st = Numeric_8583
      then (if var_item st = 0 \<and> length src < max_len st
            then replicate (max_len st - length src) 0x30 @ src else src)
      else (if var_item st = 0 \<and> length src < max_len st
            then src @ replicate (max_len st - length src) 0x20 else src))"

definition cups_encoding :: "nat \<Rightarrow> cstr \<Rightarrow> ItemStyle \<Rightarrow> base8583 \<Rightarrow> (cstr \<times> base8583) option" where
  "cups_encoding index src st s =
     (if max_len st < length src then None
      else
        let item_len = (if var_item st = 2 then snprintf 4 (zpad 2 (length src))
                        else if var_item st = 3 then snprintf 4 (zpad 3 (length src)) else []);
            dest = item_len @ cups_item_value src st;
            mac_field_data = dealMacChar dest;
            mac_field_data =
              (if index = 90 \<and> 20 < length mac_field_data then take 20 mac_field_data else mac_field_data);
            s' = (if isMacField s index
                  then s\<lparr>m_mac_data := m_mac_data s @ [32] @ mac_field_data\<rparr> else s)
        in Some (dest, s'))"

section \<open>Header\<close>

definition cups_header_split :: "(nat \<times> nat) list" where
  "cups_header_split = [(0, 1), (1, 1), (2, 4), (6, 11), (17, 11), (28, 3), (31, 1), (32, 8), (40, 1), (41, 5)]"

definition cups_dealMsgHeader :: "cstr \<Rightarrow> base8583 \<Rightarrow> base8583" where
  "cups_dealMsgHeader header s =
     (if length header = CUPS_HEADER_LEN
      then s\<lparr>m_vec_field := m_vec_field s @ map (\<lambda>(p, n). take n (drop p header)) cups_header_split\<rparr>
      else s)"

definition station_id :: "cstr \<Rightarrow> cstr \<Rightarrow> cstr" where
  "station_id conf_value default_id =
     (let n = (if conf_value = [] then default_id else conf_value)
      in if length n < 11 then n @ replicate (11 - length n) 0x20 else take 11 n)"

definition cups_InitHeader :: "(cstr \<Rightarrow> cstr \<Rightarrow> cstr) \<Rightarrow> base8583 \<Rightarrow> base8583" where
  "cups_InitHeader GetConfStr s =
     (let src_station_id = station_id (GetConfStr (bytes ''TransParam'') (bytes ''SrcStationID'')) (bytes ''48490000'');
          dest_station_id = station_id (GetConfStr (bytes ''TransParam'') (bytes ''DestStationID'')) (bytes ''00010000'')
      in s\<lparr>m_vec_field :=
            [[of_nat CUPS_HEADER_LEN], [of_nat CUPS_HEADER_FLAG_VER], replicate 4 0x30, dest_station_id,
             src_station_id, replicate 3 0, replicate 1 0, replicate 8 0x30, replicate 1 0, replicate 5 0x30]\<rparr>)"

section \<open>Pack and Unpack\<close>

fun cups_pack_loop :: "(nat \<times> cstr) list \<Rightarrow> base8583 \<Rightarrow> (int \<times> base8583) result" where
  "cups_pack_loop [] s = Inr (0, s)"
| "cups_pack_loop ((k, v) # r) s =
     bind_result (cups_getStyle (k - 1)) (\<lambda>st.
       case cups_encoding k v st s of
         None \<Rightarrow> Inr (int k, s)
       | Some (item_buff, s') \<Rightarrow> cups_pack_loop r (s'\<lparr>m_content := m_content s' @ item_buff\<rparr>))"

definition cups_Pack :: "bool \<Rightarrow> cstr \<Rightarrow> base8583 \<Rightarrow> (int \<times> cstr \<times> base8583) result" where
  "cups_Pack mac_flag msg s =
     bind_result (cups_pack_loop (map_items (m_map_field s)) (s\<lparr>m_content := [], m_mac_data := m_msg_type s\<rparr>))
       (\<lambda>(ret, s).
          if ret \<noteq> 0 then Inr (ret, msg, s)
          else
            let s = (if mac_flag
                     then s\<lparr>m_bitset_bitmap := (m_bitset_bitmap s)[CUPS_BITMAP_LEN * 8 - 1 := True],
                            m_content := m_content s @ replicate MAC_VALUE_LEN 0\<rparr>
                     else s);
                s = setBitmap (CUPS_BITMAP_LEN * 8) s
            in if length (m_vec_field s) \<noteq> CUPS_HEADER_FIELD_COUNT then Inr (- 1, msg, s)
               else
                 let total_msg_len =
                       snprintf 5 (zpad 4 (CUPS_HEADER_LEN + MTI_LEN + CUPS_BITMAP_LEN + length (m_content s)));
                     s = s\<lparr>m_vec_field := (m_vec_field s)[2 := total_msg_len]\<rparr>
                 in Inr (0, total_msg_len @ concat (m_vec_field s) @ m_msg_type s @ m_bitmap s @ m_content s, s))"

fun cups_unpack_loop :: "nat list \<Rightarrow> nat \<Rightarrow> base8583 \<Rightarrow> (int \<times> base8583) result" where
  "cups_unpack_loop [] offset s = Inr (0, s)"
| "cups_unpack_loop (i # r) offset s =
     (if m_bitset_bitmap s ! i
      then
        bind_result (cups_getStyle i) (\<lambda>st.
        bind_result (cups_decoding (i + 1) offset st s) (\<lambda>d.
          case d of
            None \<Rightarrow> Inr (int (i + 1), s)
          | Some (offset', item_value, s') \<Rightarrow>
              cups_unpack_loop r offset'
                (s'\<lparr>m_map_field := map_insert (i + 1) item_value (m_map_field s')\<rparr>)))
      else cups_unpack_loop r offset s)"

definition cups_Unpack :: "cstr \<Rightarrow> base8583 \<Rightarrow> (int \<times> base8583) result" where
  "cups_Unpack msg s =
     (if length msg \<le> CUPS_MSG_LEN + CUPS_HEADER_LEN + MTI_LEN + CUPS_BITMAP_LEN then Inr (- 1, s)
      else
        let s = cups_dealMsgHeader (take CUPS_HEADER_LEN (drop CUPS_MSG_LEN msg)) s
        in if length (m_vec_field s) \<noteq> CUPS_HEADER_FIELD_COUNT then Inr (- 1, s)
           else
             let reject_code = m_vec_field s ! 9;
                 offset = (if reject_code \<noteq> bytes ''00000''
                           then CUPS_MSG_LEN + CUPS_HEADER_LEN + CUPS_HEADER_LEN
                           else CUPS_MSG_LEN + CUPS_HEADER_LEN)
             in bind_result (substr msg offset MTI_LEN) (\<lambda>msg_type.
                bind_result (substr msg (offset + MTI_LEN) CUPS_BITMAP_LEN) (\<lambda>bitmap.
                bind_result (substr_from msg (offset + MTI_LEN + CUPS_BITMAP_LEN)) (\<lambda>content.
                bind_result (getBitmap (CUPS_BITMAP_LEN * 8)
                   (s\<lparr>m_msg_type := msg_type, m_bitmap := bitmap, m_content := content, m_mac_data := msg_type\<rparr>))
                  (\<lambda>(ret, s). cups_unpack_loop [1..<CUPS_BITMAP_LEN * 8] 0 s)))))"

definition cups_GetMsgKey :: "base8583 \<Rightarrow> cstr" where
  "cups_GetMsgKey s =
     concat (map (\<lambda>k. case m_map_field s k of None \<Rightarrow> [] | Some v \<Rightarrow> v) cups_key_field_array)"

section \<open>One field\<close>

definition cups_prefix :: "nat \<Rightarrow> ItemStyle \<Rightarrow> cstr" where
  "cups_prefix n st =
     (if var_item st = 2 then snprintf 4 (zpad 2 n) else if var_item st = 3 then snprintf 4 (zpad 3 n) else [])"

text \<open>
  The values a field can carry: not empty, not too long, and of the full length when it is a fixed
  binary field, which is not padded.
\<close>

definition cups_value_ok :: "ItemStyle \<Rightarrow> cstr \<Rightarrow> bool" where
  "cups_value_ok st v \<longleftrightarrow> v \<noteq> [] \<and> length v \<le> max_len st \<and>
     (var_item st = 0 \<and> type_item st = Binary_8583 \<longrightarrow> length v = max_len st)"

text \<open>What the two sides append to the MAC data for a field of value \<open>v\<close>.\<close>

definition send_mac :: "base8583 \<Rightarrow> nat \<Rightarrow> cstr \<Rightarrow> ItemStyle \<Rightarrow> cstr" where
  "send_mac s k v st =
     (let d = dealMacChar (cups_prefix (length v) st @ cups_item_value v st)
      in if isMacField s k then 32 # (if k = 90 then take 20 d else d) else [])"

definition recv_mac :: "base8583 \<Rightarrow> nat \<Rightarrow> cstr \<Rightarrow> ItemStyle \<Rightarrow> cstr" where
  "recv_mac s k v st =
     (if isMacField s k then 32 # dealMacChar (cups_prefix (length v) st @ cups_item_value v st) else [])"

lemma isMacField_cong: "m_msg_type s = m_msg_type t \<Longrightarrow> isMacField s k = isMacField t k"
  by (simp add: isMacField_def)

lemma cups_encoding_eq:
  "length v \<le> max_len st \<Longrightarrow>
     cups_encoding k v st s =
       Some (cups_prefix (length v) st @ cups_item_value v st, s\<lparr>m_mac_data := m_mac_data s @ send_mac s k v st\<rparr>)"
  by (simp add: cups_encoding_def cups_prefix_def send_mac_def Let_def)

lemma length_cups_item_value:
  "cups_value_ok st v \<Longrightarrow>
     length (cups_item_value v st) = (if var_item st = 0 then max_len st else length v)"
  by (auto simp: cups_value_ok_def cups_item_value_def)

lemma cups_prefix_facts:
  assumes "style_ok st" "n \<le> max_len st" "var_item st \<noteq> 0"
  shows "length (cups_prefix n st) = var_item st" "atoi (cups_prefix n st) = int n"
proof -
  consider "var_item st = 2" "n < 10 ^ 2" | "var_item st = 3" "n < 10 ^ 3"
    using assms by (auto simp: style_ok_def)
  then show "length (cups_prefix n st) = var_item st" "atoi (cups_prefix n st) = int n"
    by (cases; simp add: cups_prefix_def snprintf_def length_zpad)+
qed

lemma cups_decoding_value_eq:
  assumes "m_content s = pre @ v @ post" "length (m_content s) < 2 ^ 32"
  shows "cups_decoding_value k (length pre) item_len (int (length v)) s =
     Inr (Some (length pre + length v, v,
       if isMacField s k then s\<lparr>m_mac_data := m_mac_data s @ [32] @ dealMacChar (item_len @ v)\<rparr> else s))"
proof -
  have stop: "nat ((int (length pre) + int (length v)) mod 2 ^ 32) = length pre + length v"
    using assms by (simp flip: of_nat_add)
  show ?thesis unfolding cups_decoding_value_def Let_def stop using assms(1) by simp
qed

lemma cups_decoding_eq:
  assumes "style_ok st" "cups_value_ok st v"
    and c: "m_content s = pre @ (cups_prefix (length v) st @ cups_item_value v st) @ post"
    and l: "length (m_content s) < 2 ^ 32"
  shows "cups_decoding k (length pre) st s =
     Inr (Some (length pre + length (cups_prefix (length v) st @ cups_item_value v st), cups_item_value v st,
       s\<lparr>m_mac_data := m_mac_data s @ recv_mac s k v st\<rparr>))"
proof (cases "var_item st = 0")
  case True
  with assms(2) have "max_len st = length (cups_item_value v st)" by (simp add: length_cups_item_value)
  with True c l show ?thesis
    by (simp add: cups_decoding_def cups_prefix_def cups_decoding_value_eq recv_mac_def)
next
  case False
  have v: "length v \<le> max_len st" using assms(2) by (simp add: cups_value_ok_def)
  note p = cups_prefix_facts [OF assms(1) v False]
  have i: "length (cups_item_value v st) = length v" using assms(2) False by (simp add: length_cups_item_value)
  have "cups_decoding_value k (length (pre @ cups_prefix (length v) st)) (cups_prefix (length v) st)
      (int (length (cups_item_value v st))) s = Inr (Some (length (pre @ cups_prefix (length v) st) +
        length (cups_item_value v st), cups_item_value v st,
        s\<lparr>m_mac_data := m_mac_data s @ recv_mac s k v st\<rparr>))"
    using c l by (subst cups_decoding_value_eq [where post = post]) (simp_all add: recv_mac_def)
  moreover have "take (var_item st) (drop (length pre) (m_content s)) = cups_prefix (length v) st"
    using c p(1) by simp
  moreover have "var_item st = 2 \<or> var_item st = 3" using assms(1) False by (auto simp: style_ok_def)
  ultimately show ?thesis
    using c p i by (auto simp: cups_decoding_def Let_def)
qed

section \<open>All fields\<close>

definition cups_style :: "nat \<Rightarrow> ItemStyle" where
  "cups_style k = (case cups_getStyle (k - 1) of Inr st \<Rightarrow> st)"

definition cups_field_ok :: "nat \<Rightarrow> cstr \<Rightarrow> bool" where
  "cups_field_ok k v \<longleftrightarrow> 2 \<le> k \<and> k \<le> 128 \<and> cups_value_ok (cups_style k) v"

definition cups_text :: "nat \<Rightarrow> cstr \<Rightarrow> cstr" where
  "cups_text k v = cups_prefix (length v) (cups_style k) @ cups_item_value v (cups_style k)"

lemma length_cups_styles: "length cups8583_style_array = 128"
  by (simp add: cups8583_style_array_def)

lemma cups_getStyle_eq: "1 \<le> k \<Longrightarrow> k \<le> 128 \<Longrightarrow> cups_getStyle (k - 1) = Inr (cups_style k)"
proof -
  assume "1 \<le> k" "k \<le> 128"
  then have "k - 1 < length cups8583_style_array" by (simp add: length_cups_styles)
  from getStyle_Inr [OF this] show ?thesis by (auto simp: cups_getStyle_def cups_style_def)
qed

lemma cups_style_ok: "1 \<le> k \<Longrightarrow> k \<le> 128 \<Longrightarrow> style_ok (cups_style k)"
  using cups_getStyle_eq getStyle_ok by (metis cups_getStyle_def)

lemma cups_text_not_Nil: "cups_field_ok k v \<Longrightarrow> cups_text k v \<noteq> []"
  using length_cups_item_value [of "cups_style k" v]
  by (auto simp: cups_field_ok_def cups_text_def cups_value_ok_def split: if_splits)

lemma cups_pack_loop_eq:
  "\<forall>(k, v)\<in>set kvs. cups_field_ok k v \<Longrightarrow>
     cups_pack_loop kvs s =
       Inr (0, s\<lparr>m_content := m_content s @ concat (map (\<lambda>(k, v). cups_text k v) kvs),
                m_mac_data := m_mac_data s @ concat (map (\<lambda>(k, v). send_mac s k v (cups_style k)) kvs)\<rparr>)"
proof (induction kvs arbitrary: s)
  case (Cons kv kvs)
  obtain k v where kv: "kv = (k, v)" by (cases kv)
  with Cons.prems have k: "1 \<le> k" "k \<le> 128" "length v \<le> max_len (cups_style k)"
    by (auto simp: cups_field_ok_def cups_value_ok_def)
  have "send_mac (s\<lparr>m_mac_data := a, m_content := b\<rparr>) = send_mac s" for a b
    by (intro ext) (simp add: send_mac_def isMacField_def)
  with Cons kv k show ?case
    by (simp add: cups_getStyle_eq [OF k(1,2), simplified] cups_encoding_eq cups_text_def)
qed simp

lemma cups_decoding_value_frame:
  "cups_decoding_value k off il n s = Inr (Some (off', v, s')) \<Longrightarrow>
     m_bitset_bitmap s' = m_bitset_bitmap s \<and> m_content s' = m_content s \<and> m_vec_field s' = m_vec_field s \<and>
     m_msg_type s' = m_msg_type s"
  unfolding cups_decoding_value_def Let_def by (cases "isMacField s k") (auto split: if_splits)

lemma cups_decoding_frame:
  "cups_decoding k off st s = Inr (Some (off', v, s')) \<Longrightarrow>
     m_bitset_bitmap s' = m_bitset_bitmap s \<and> m_content s' = m_content s \<and> m_vec_field s' = m_vec_field s \<and>
     m_msg_type s' = m_msg_type s"
  unfolding cups_decoding_def Let_def
  by (simp split: if_splits; drule cups_decoding_value_frame; assumption)

lemma cups_unpack_loop_filter:
  "cups_unpack_loop is off s = cups_unpack_loop (filter (\<lambda>i. m_bitset_bitmap s ! i) is) off s"
proof (induction "is" arbitrary: off s)
  case (Cons i "is")
  show ?case
  proof (cases "m_bitset_bitmap s ! i")
    case True
    have "(case d of None \<Rightarrow> Inr (int (i + 1), s)
        | Some (off', v, s') \<Rightarrow> cups_unpack_loop is off' (s'\<lparr>m_map_field := map_insert (i + 1) v (m_map_field s')\<rparr>)) =
      (case d of None \<Rightarrow> Inr (int (i + 1), s)
        | Some (off', v, s') \<Rightarrow> cups_unpack_loop (filter (\<lambda>i. m_bitset_bitmap s ! i) is) off'
            (s'\<lparr>m_map_field := map_insert (i + 1) v (m_map_field s')\<rparr>))"
      if "cups_decoding (i + 1) off st s = Inr d" for d st
    proof (cases d)
      case (Some a)
      then obtain off' v s' where d: "d = Some (off', v, s')" by (cases a) auto
      with that cups_decoding_frame have "m_bitset_bitmap s' = m_bitset_bitmap s" by blast
      with d Cons [of off' "s'\<lparr>m_map_field := map_insert (i + 1) v (m_map_field s')\<rparr>"] show ?thesis by simp
    qed simp
    then have "bind_result (cups_decoding (i + 1) off st s) (\<lambda>d. case d of None \<Rightarrow> Inr (int (i + 1), s)
        | Some (off', v, s') \<Rightarrow> cups_unpack_loop is off' (s'\<lparr>m_map_field := map_insert (i + 1) v (m_map_field s')\<rparr>)) =
      bind_result (cups_decoding (i + 1) off st s) (\<lambda>d. case d of None \<Rightarrow> Inr (int (i + 1), s)
        | Some (off', v, s') \<Rightarrow> cups_unpack_loop (filter (\<lambda>i. m_bitset_bitmap s ! i) is) off'
            (s'\<lparr>m_map_field := map_insert (i + 1) v (m_map_field s')\<rparr>))" for st
      by (cases "cups_decoding (i + 1) off st s") auto
    with True show ?thesis by (simp only: cups_unpack_loop.simps filter.simps if_True)
  next
    case False
    with Cons [of off s] show ?thesis by simp
  qed
qed simp

lemma cups_unpack_loop_eq:
  "\<forall>(k, v)\<in>set kvs. cups_field_ok k v \<and> m_bitset_bitmap s ! (k - 1) \<Longrightarrow>
     m_content s = pre @ concat (map (\<lambda>(k, v). cups_text k v) kvs) @ post \<Longrightarrow> length (m_content s) < 2 ^ 32 \<Longrightarrow>
     cups_unpack_loop (map (\<lambda>(k, v). k - 1) kvs) (length pre) s =
       Inr (0, s\<lparr>m_map_field := fold (\<lambda>(k, v). map_insert k v)
                  (map (\<lambda>(k, v). (k, cups_item_value v (cups_style k))) kvs) (m_map_field s),
                m_mac_data := m_mac_data s @ concat (map (\<lambda>(k, v). recv_mac s k v (cups_style k)) kvs)\<rparr>)"
proof (induction kvs arbitrary: s pre)
  case (Cons kv kvs)
  obtain k v where kv: "kv = (k, v)" by (cases kv)
  with Cons.prems have k: "1 \<le> k" "k \<le> 128" "cups_value_ok (cups_style k) v" "m_bitset_bitmap s ! (k - 1)"
    by (auto simp: cups_field_ok_def)
  let ?s = "s\<lparr>m_mac_data := m_mac_data s @ recv_mac s k v (cups_style k),
    m_map_field := map_insert k (cups_item_value v (cups_style k)) (m_map_field s)\<rparr>"
  have r: "recv_mac ?s = recv_mac s" by (intro ext) (simp add: recv_mac_def isMacField_def)
  have "cups_decoding k (length pre) (cups_style k) s =
    Inr (Some (length pre + length (cups_text k v), cups_item_value v (cups_style k),
       s\<lparr>m_mac_data := m_mac_data s @ recv_mac s k v (cups_style k)\<rparr>))"
    unfolding cups_text_def
    using Cons.prems(2,3) kv
    by (intro cups_decoding_eq [OF cups_style_ok [OF k(1,2)] k(3),
          where post = "concat (map (\<lambda>(k, v). cups_text k v) kvs) @ post"]) (simp_all add: cups_text_def)
  with k kv have "cups_unpack_loop (map (\<lambda>(k, v). k - 1) (kv # kvs)) (length pre) s =
      cups_unpack_loop (map (\<lambda>(k, v). k - 1) kvs) (length (pre @ cups_text k v)) ?s"
    using cups_getStyle_eq [OF k(1,2)] by simp
  also have "\<dots> = Inr (0, ?s\<lparr>m_map_field := fold (\<lambda>(k, v). map_insert k v)
        (map (\<lambda>(k, v). (k, cups_item_value v (cups_style k))) kvs) (m_map_field ?s),
      m_mac_data := m_mac_data ?s @ concat (map (\<lambda>(k, v). recv_mac ?s k v (cups_style k)) kvs)\<rparr>)"
    using Cons.prems kv by (intro Cons.IH) auto
  finally show ?case unfolding r using kv by simp
qed simp

section \<open>Pack, then Unpack\<close>

definition cups_header_ok :: "cstr list \<Rightarrow> bool" where
  "cups_header_ok fs \<longleftrightarrow> map length fs = map snd cups_header_split \<and> fs ! 9 = bytes ''00000''"

text \<open>The fields a receiver sees: padded, and field 128 with the place of the MAC.\<close>

definition cups_received :: "bool \<Rightarrow> (nat \<rightharpoonup> cstr) \<Rightarrow> (nat \<rightharpoonup> cstr)" where
  "cups_received mac_flag m =
     (\<lambda>k. if mac_flag \<and> k = 128 then Some (replicate 8 0)
          else map_option (\<lambda>v. cups_item_value v (cups_style k)) (m k))"

definition cups_packable :: "bool \<Rightarrow> base8583 \<Rightarrow> bool" where
  "cups_packable mac_flag s \<longleftrightarrow> inv8583 s \<and>
     (\<forall>k\<le>MAX_ITEM_NUM. case m_map_field s k of None \<Rightarrow> True | Some v \<Rightarrow>
        cups_field_ok k v \<and> (mac_flag \<longrightarrow> k < 128)) \<and>
     (mac_flag \<or> map_items (m_map_field s) \<noteq> []) \<and>
     cups_header_ok (m_vec_field s) \<and> length (m_msg_type s) = 4 \<and>
     length (concat (map (\<lambda>(k, v). cups_text k v) (map_items (m_map_field s)))) < 9000"

definition cups_with_mac :: "bool \<Rightarrow> (nat \<rightharpoonup> cstr) \<Rightarrow> (nat \<rightharpoonup> cstr)" where
  "cups_with_mac mac_flag m = (if mac_flag then m(128 \<mapsto> replicate 8 0) else m)"

definition cups_bits :: "bool \<Rightarrow> bool list \<Rightarrow> bool list" where
  "cups_bits mac_flag bits = (if mac_flag then bits[127 := True] else bits)[0 := True]"

definition cups_total :: "cstr \<Rightarrow> cstr" where
  "cups_total content = snprintf 5 (zpad 4 (CUPS_HEADER_LEN + MTI_LEN + CUPS_BITMAP_LEN + length content))"

lemma cups_Pack_eq:
  assumes "\<forall>(k, v)\<in>set (map_items (m_map_field s)). cups_field_ok k v"
    and "length (m_vec_field s) = CUPS_HEADER_FIELD_COUNT"
  shows "let content = concat (map (\<lambda>(k, v). cups_text k v) (map_items (m_map_field s))) @
               (if mac then replicate 8 0 else []);
             bits = cups_bits mac (m_bitset_bitmap s); bitmap = map (bitmap_byte bits) [0..<CUPS_BITMAP_LEN];
             fs = (m_vec_field s)[2 := cups_total content]
         in cups_Pack mac msg s =
           Inr (0, cups_total content @ concat fs @ m_msg_type s @ bitmap @ content,
                s\<lparr>m_content := content, m_bitset_bitmap := bits, m_bitmap := bitmap, m_vec_field := fs,
                  m_mac_data := m_msg_type s @
                    concat (map (\<lambda>(k, v). send_mac s k v (cups_style k)) (map_items (m_map_field s)))\<rparr>)"
proof -
  have "send_mac (s\<lparr>m_content := a, m_mac_data := b\<rparr>) = send_mac s" for a b
    by (intro ext) (simp add: send_mac_def isMacField_def)
  moreover have "64 < CUPS_BITMAP_LEN * 8" "CUPS_BITMAP_LEN * 8 - 1 = 127" "CUPS_BITMAP_LEN * 8 div 8 = CUPS_BITMAP_LEN"
    by (simp_all add: CUPS_BITMAP_LEN_def)
  ultimately show ?thesis
    using assms(2)
    unfolding cups_Pack_def cups_pack_loop_eq [OF assms(1)]
    by (cases mac) (simp_all add: setBitmap_def cups_bits_def cups_total_def MAC_VALUE_LEN_def Let_def del: upt.simps)
qed

lemma cups_Unpack_eq:
  assumes h: "map length fs = map snd cups_header_split" "fs ! 9 = bytes ''00000''"
    and t: "length tot = 4" "length ty = 4" "length bm = CUPS_BITMAP_LEN" "content \<noteq> []"
  shows "cups_Unpack (tot @ concat fs @ ty @ bm @ content) (Init u) =
     bind_result (getBitmap (CUPS_BITMAP_LEN * 8)
         ((Init u)\<lparr>m_vec_field := fs, m_msg_type := ty, m_bitmap := bm, m_content := content, m_mac_data := ty\<rparr>))
       (\<lambda>(ret, s). cups_unpack_loop [1..<CUPS_BITMAP_LEN * 8] 0 s)"
proof -
  have l: "length (concat fs) = CUPS_HEADER_LEN"
    unfolding length_concat h(1) by (simp add: cups_header_split_def CUPS_HEADER_LEN_def)
  have c: "cups_header_split = cuts 0 (map length fs)" unfolding h(1) by (simp add: cups_header_split_def)
  have n: "length fs = CUPS_HEADER_FIELD_COUNT"
    using arg_cong [OF h(1), of length] by (simp add: cups_header_split_def CUPS_HEADER_FIELD_COUNT_def)
  have "cups_dealMsgHeader (concat fs) (Init u) = (Init u)\<lparr>m_vec_field := fs\<rparr>"
    using l cuts_concat [of "[]" fs] by (simp add: cups_dealMsgHeader_def Init_def flip: c)
  with l n t h(2) show ?thesis
    by (simp add: cups_Unpack_def Let_def CUPS_MSG_LEN_def MTI_LEN_def)
qed

lemma cups_packableD:
  assumes "cups_packable mac s"
  shows "length (m_bitset_bitmap s) = MAX_ITEM_NUM"
    "\<And>i. i < MAX_ITEM_NUM \<Longrightarrow> m_bitset_bitmap s ! i \<longleftrightarrow> m_map_field s (Suc i) \<noteq> None"
    "\<And>k v. m_map_field s k = Some v \<Longrightarrow> cups_field_ok k v \<and> (mac \<longrightarrow> k < 128)"
    "mac \<or> map_items (m_map_field s) \<noteq> []" "cups_header_ok (m_vec_field s)" "length (m_msg_type s) = 4"
    "length (concat (map (\<lambda>(k, v). cups_text k v) (map_items (m_map_field s)))) < 9000"
proof -
  have inv: "inv8583 s" and f: "\<forall>k\<le>MAX_ITEM_NUM. case m_map_field s k of None \<Rightarrow> True | Some v \<Rightarrow>
        cups_field_ok k v \<and> (mac \<longrightarrow> k < 128)"
    using assms by (simp_all add: cups_packable_def)
  show "length (m_bitset_bitmap s) = MAX_ITEM_NUM"
    "\<And>i. i < MAX_ITEM_NUM \<Longrightarrow> m_bitset_bitmap s ! i \<longleftrightarrow> m_map_field s (Suc i) \<noteq> None"
    using inv by (simp_all add: inv8583_def)
  show "mac \<or> map_items (m_map_field s) \<noteq> []" "cups_header_ok (m_vec_field s)" "length (m_msg_type s) = 4"
    "length (concat (map (\<lambda>(k, v). cups_text k v) (map_items (m_map_field s)))) < 9000"
    using assms by (simp_all add: cups_packable_def)
  fix k v assume v: "m_map_field s k = Some v"
  then have "k \<le> MAX_ITEM_NUM" using inv by (auto simp: inv8583_def)
  with f v show "cups_field_ok k v \<and> (mac \<longrightarrow> k < 128)" by fastforce
qed

lemma cups_mac_field:
  "cups_style 128 = \<lparr>no_item = 0, type_item = 8, var_item = 0, max_len = 8, value_item = []\<rparr>"
  "cups_field_ok 128 (replicate 8 0)" "cups_text 128 (replicate 8 0) = replicate 8 0"
  "cups_item_value (replicate 8 0) (cups_style 128) = replicate 8 0" "\<not> isMacField s 128"
proof -
  show st: "cups_style 128 = \<lparr>no_item = 0, type_item = 8, var_item = 0, max_len = 8, value_item = []\<rparr>"
    by (simp add: cups_style_def cups_getStyle_def getStyle_def cups8583_style_array_def)
  show "cups_field_ok 128 (replicate 8 0)" "cups_text 128 (replicate 8 0) = replicate 8 0"
    "cups_item_value (replicate 8 0) (cups_style 128) = replicate 8 0"
    by (simp_all add: cups_field_ok_def cups_value_ok_def cups_text_def st cups_prefix_def
        cups_item_value_def type_8583_defs)
  show "\<not> isMacField s 128" by (simp add: isMacField_def mgmt_mac_field_array_def other_mac_field_array_def)
qed

lemma cups_items_mac:
  assumes "\<And>k v. m k = Some v \<Longrightarrow> cups_field_ok k v \<and> (mac \<longrightarrow> k < 128)"
  shows "map_items (cups_with_mac mac m) = map_items m @ (if mac then [(128, replicate 8 0)] else [])"
proof (cases mac)
  case True
  have "2 \<le> k \<and> k < 128" if "m k \<noteq> None" for k using that assms [of k] True by (auto simp: cups_field_ok_def)
  from map_items_snoc [where v = "replicate 8 0", OF this] True show ?thesis
    by (simp add: cups_with_mac_def MAX_ITEM_NUM_def)
qed (simp add: cups_with_mac_def)

lemma cups_indices:
  assumes "\<And>k. m k \<noteq> None \<Longrightarrow> 2 \<le> k \<and> k \<le> 128" "\<And>i. 1 \<le> i \<Longrightarrow> i < 128 \<Longrightarrow> bits ! i \<longleftrightarrow> m (Suc i) \<noteq> None"
  shows "filter (\<lambda>i. bits ! i) [1..<CUPS_BITMAP_LEN * 8] = map (\<lambda>(k, v). k - 1) (map_items m)"
proof -
  have f: "filter (\<lambda>i. bits ! i) [1..<CUPS_BITMAP_LEN * 8] = filter (\<lambda>i. m (Suc i) \<noteq> None) [1..<CUPS_BITMAP_LEN * 8]"
    using assms(2) by (intro filter_cong refl) (simp add: CUPS_BITMAP_LEN_def)
  have "Suc 1 \<le> k \<and> k < Suc (CUPS_BITMAP_LEN * 8)" if "m k \<noteq> None" for k
    using assms(1) [OF that] by (simp add: CUPS_BITMAP_LEN_def)
  moreover have "Suc (CUPS_BITMAP_LEN * 8) \<le> MAX_ITEM_NUM + 1" by (simp add: CUPS_BITMAP_LEN_def MAX_ITEM_NUM_def)
  ultimately have i: "map_items m = map (\<lambda>k. (k, the (m k)))
      (filter (\<lambda>k. m k \<noteq> None) [Suc 1..<Suc (CUPS_BITMAP_LEN * 8)])" by (rule map_items_range)
  show ?thesis
    unfolding f i fields_indices [symmetric] by (simp add: comp_def)
qed

lemma map_of_keyed:
  "map_of (map (\<lambda>(k, v). (k, f k v)) kvs) k = map_option (f k) (map_of kvs k)"
  by (induction kvs) auto

lemma fold_insert_items:
  assumes "m0 = Map.empty" "\<And>k. m k \<noteq> None \<Longrightarrow> k \<le> MAX_ITEM_NUM"
  shows "fold (\<lambda>(k, v). map_insert k v) (map (\<lambda>(k, v). (k, f k v)) (map_items m)) m0 =
     (\<lambda>k. map_option (f k) (m k))"
proof -
  have "map fst (map (\<lambda>(k, v). (k, f k v)) (map_items m)) = map fst (map_items m)"
    by (auto simp: comp_def split_def)
  moreover have "distinct (map fst (map_items m))" unfolding map_items_fst by (rule distinct_filter) simp
  ultimately have "fold (\<lambda>(k, v). map_insert k v) (map (\<lambda>(k, v). (k, f k v)) (map_items m)) m0 =
      map_of (map (\<lambda>(k, v). (k, f k v)) (map_items m))"
    using assms(1) by (subst fold_map_insert) (simp_all only:, auto)
  also have "\<dots> = (\<lambda>k. map_option (f k) (m k))"
  proof
    fix k
    have "map_of (map_items m) k = m k"
      using assms(2) [of k] by (cases "m k") (auto simp: map_items_cong)
    then show "map_of (map (\<lambda>(k, v). (k, f k v)) (map_items m)) k = map_option (f k) (m k)"
      by (simp add: map_of_keyed)
  qed
  finally show ?thesis .
qed

text \<open>
  The receiving side on the content of a list of fields: what the loop of \<open>Unpack\<close> leaves in an
  object whose bits say which fields there are.
\<close>

lemma cups_receive:
  assumes h: "map length fs = map snd cups_header_split" "fs ! 9 = bytes ''00000''"
    and t: "length tot = 4" "length ty = 4" and b: "length bits = MAX_ITEM_NUM"
    and d: "\<And>k v. m k = Some v \<Longrightarrow> cups_field_ok k v"
    and bits: "\<And>i. 1 \<le> i \<Longrightarrow> i < 128 \<Longrightarrow> bits ! i \<longleftrightarrow> m (Suc i) \<noteq> None"
    and c: "content = concat (map (\<lambda>(k, v). cups_text k v) (map_items m))" "content \<noteq> []" "length content < 2 ^ 32"
  shows "\<exists>t'. cups_Unpack (tot @ concat fs @ ty @ map (bitmap_byte bits) [0..<CUPS_BITMAP_LEN] @ content) (Init u) = Inr (0, t') \<and>
     m_map_field t' = (\<lambda>k. map_option (\<lambda>v. cups_item_value v (cups_style k)) (m k)) \<and>
     m_vec_field t' = fs \<and> m_msg_type t' = ty \<and>
     m_mac_data t' = ty @ concat (map (\<lambda>(k, v). recv_mac (Init u\<lparr>m_msg_type := ty\<rparr>) k v (cups_style k)) (map_items m))"
proof -
  let ?bm = "map (bitmap_byte bits) [0..<CUPS_BITMAP_LEN]"
  let ?kvs = "map_items m"
  have BL: "CUPS_BITMAP_LEN * 8 \<le> MAX_ITEM_NUM" "CUPS_BITMAP_LEN * 8 = 128"
    by (simp_all add: CUPS_BITMAP_LEN_def MAX_ITEM_NUM_def)
  define s1 where "s1 = (Init u)\<lparr>m_vec_field := fs, m_msg_type := ty, m_bitmap := ?bm, m_content := content, m_mac_data := ty\<rparr>"
  define s2 where "s2 = s1\<lparr>m_bitset_bitmap :=
    getBitmap_loop [0..<CUPS_BITMAP_LEN * 8] ?bm (replicate MAX_ITEM_NUM False)\<rparr>"
  have g: "getBitmap (CUPS_BITMAP_LEN * 8) s1 = Inr (0, s2)"
    using BL(1) by (simp add: getBitmap_def s1_def s2_def Init_def del: upt.simps)
  have bits2: "m_bitset_bitmap s2 ! i = bits ! i" if "i < 128" for i
    using that BL bitmap_bit_bytes [of i CUPS_BITMAP_LEN bits] by (simp add: s2_def getBitmap_loop_nth)
  have dom: "2 \<le> k \<and> k \<le> 128" if "m k \<noteq> None" for k using that d [of k] by (auto simp: cups_field_ok_def)
  have ix: "filter (\<lambda>i. m_bitset_bitmap s2 ! i) [1..<CUPS_BITMAP_LEN * 8] = map (\<lambda>(k, v). k - 1) ?kvs"
    using dom bits bits2 by (intro cups_indices) auto
  have ok: "\<forall>(k, v)\<in>set ?kvs. cups_field_ok k v \<and> m_bitset_bitmap s2 ! (k - 1)"
  proof (clarify)
    fix k v assume "(k, v) \<in> set ?kvs"
    then have k: "m k = Some v" by (simp add: map_items_mem)
    with dom [of k] bits [of "k - 1"] bits2 [of "k - 1"] d show "cups_field_ok k v \<and> m_bitset_bitmap s2 ! (k - 1)" by auto
  qed
  have c2: "m_content s2 = [] @ concat (map (\<lambda>(k, v). cups_text k v) ?kvs) @ []" "length (m_content s2) < 2 ^ 32"
    using c by (simp_all add: s2_def s1_def)
  from cups_unpack_loop_filter [of "[1..<CUPS_BITMAP_LEN * 8]" 0 s2] cups_unpack_loop_eq [OF ok c2]
  have ul: "cups_unpack_loop [1..<CUPS_BITMAP_LEN * 8] 0 s2 =
      Inr (0, s2\<lparr>m_map_field := fold (\<lambda>(k, v). map_insert k v)
          (map (\<lambda>(k, v). (k, cups_item_value v (cups_style k))) ?kvs) (m_map_field s2),
        m_mac_data := m_mac_data s2 @ concat (map (\<lambda>(k, v). recv_mac s2 k v (cups_style k)) ?kvs)\<rparr>)"
    unfolding ix by (simp only: list.size)
  have mf: "fold (\<lambda>(k, v). map_insert k v) (map (\<lambda>(k, v). (k, cups_item_value v (cups_style k))) ?kvs) (m_map_field s2) =
      (\<lambda>k. map_option (\<lambda>v. cups_item_value v (cups_style k)) (m k))"
  proof (rule fold_insert_items)
    show "k \<le> MAX_ITEM_NUM" if "m k \<noteq> None" for k using dom [OF that] by (simp add: MAX_ITEM_NUM_def)
  qed (simp add: s2_def s1_def Init_def)
  have rm: "recv_mac s2 = recv_mac (Init u\<lparr>m_msg_type := ty\<rparr>)"
    by (intro ext) (simp add: recv_mac_def isMacField_def s2_def s1_def)
  have "cups_Unpack (tot @ concat fs @ ty @ ?bm @ content) (Init u) =
      bind_result (getBitmap (CUPS_BITMAP_LEN * 8) s1) (\<lambda>(ret, s). cups_unpack_loop [1..<CUPS_BITMAP_LEN * 8] 0 s)"
    unfolding s1_def using h t c by (intro cups_Unpack_eq) simp_all
  also have "\<dots> = cups_unpack_loop [1..<CUPS_BITMAP_LEN * 8] 0 s2" unfolding g by simp
  also note ul [unfolded mf rm]
  finally show ?thesis by (simp add: s2_def s1_def)
qed

lemma cups_pack_unpack:
  assumes p: "cups_packable mac s"
  shows "\<exists>msg s' t'. cups_Pack mac msg0 s = Inr (0, msg, s') \<and> cups_Unpack msg (Init t) = Inr (0, t') \<and>
     m_map_field t' = cups_received mac (m_map_field s) \<and> m_vec_field t' = m_vec_field s' \<and>
     m_msg_type t' = m_msg_type s \<and>
     m_mac_data s' = m_msg_type s @ concat (map (\<lambda>(k, v). send_mac s k v (cups_style k)) (map_items (m_map_field s))) \<and>
     m_mac_data t' = m_msg_type s @ concat (map (\<lambda>(k, v). recv_mac s k v (cups_style k)) (map_items (m_map_field s)))"
proof -
  note p = cups_packableD [OF p]
  let ?m = "m_map_field s"
  let ?m' = "cups_with_mac mac ?m"
  let ?z = "if mac then replicate 8 0 else [] :: cstr"
  let ?c = "concat (map (\<lambda>(k, v). cups_text k v) (map_items ?m)) @ ?z"
  let ?bits = "cups_bits mac (m_bitset_bitmap s)"
  let ?fs = "(m_vec_field s)[2 := cups_total ?c]"
  have items: "map_items ?m' = map_items ?m @ (if mac then [(128, replicate 8 0)] else [])"
    using p(3) by (rule cups_items_mac)
  have ok: "cups_field_ok k v" if "?m' k = Some v" for k v
    using that p(3) [of k v] cups_mac_field(2) by (auto simp: cups_with_mac_def split: if_splits)
  have ok0: "\<forall>(k, v)\<in>set (map_items ?m). cups_field_ok k v" using p(3) by (auto simp: map_items_mem)
  have content: "concat (map (\<lambda>(k, v). cups_text k v) (map_items ?m')) = ?c"
    unfolding items by (simp add: cups_mac_field)
  have "?c \<noteq> []"
  proof (cases mac)
    case False
    with p(4) obtain k v r where "map_items ?m = (k, v) # r" by (cases "map_items ?m") auto
    moreover from this have "cups_text k v \<noteq> []" using ok0 cups_text_not_Nil by auto
    ultimately show ?thesis by simp
  qed simp
  have len: "length ?c < 9008" using p(7) by simp
  have tot: "length (cups_total ?c) = 4"
    using len by (simp add: cups_total_def snprintf_def length_zpad CUPS_HEADER_LEN_def MTI_LEN_def CUPS_BITMAP_LEN_def)
  have h: "map length ?fs = map snd cups_header_split" "?fs ! 9 = bytes ''00000''"
    using p(5) tot by (simp_all add: cups_header_ok_def map_update) (simp add: cups_header_split_def)
  have hl: "length (m_vec_field s) = CUPS_HEADER_FIELD_COUNT"
  proof -
    have "length (map length (m_vec_field s)) = length (map snd cups_header_split)"
      using p(5) by (simp only: cups_header_ok_def)
    then show ?thesis by (simp add: cups_header_split_def CUPS_HEADER_FIELD_COUNT_def)
  qed
  have bl: "length ?bits = MAX_ITEM_NUM" using p(1) by (simp add: cups_bits_def)
  have bits: "?bits ! i \<longleftrightarrow> ?m' (Suc i) \<noteq> None" if "1 \<le> i" "i < 128" for i
    using that p(1) p(2) [of i] by (cases "i = 127") (auto simp: cups_bits_def cups_with_mac_def MAX_ITEM_NUM_def)
  have rm: "recv_mac (Init t\<lparr>m_msg_type := m_msg_type s\<rparr>) = recv_mac s"
    by (intro ext) (simp add: recv_mac_def isMacField_def)
  have rec: "(\<lambda>k. map_option (\<lambda>v. cups_item_value v (cups_style k)) (?m' k)) = cups_received mac ?m"
    by (intro ext) (auto simp: cups_received_def cups_with_mac_def cups_mac_field(4))
  have macs: "concat (map (\<lambda>(k, v). recv_mac s k v (cups_style k)) (map_items ?m')) =
      concat (map (\<lambda>(k, v). recv_mac s k v (cups_style k)) (map_items ?m))"
    unfolding items by (simp add: recv_mac_def cups_mac_field(5))
  from cups_receive [OF h tot p(6) bl ok bits content [symmetric] \<open>?c \<noteq> []\<close>, of t, unfolded rm rec macs] len
    cups_Pack_eq [OF ok0 hl, of mac msg0, unfolded Let_def]
  show ?thesis by (auto simp del: upt.simps)
qed

lemma send_recv_mac: "k \<noteq> 90 \<Longrightarrow> send_mac s k v st = recv_mac s k v st"
  by (simp add: send_mac_def recv_mac_def Let_def)

lemma send_recv_mac_items:
  "m_map_field s 90 = None \<Longrightarrow>
     map (\<lambda>(k, v). send_mac s k v (cups_style k)) (map_items (m_map_field s)) =
     map (\<lambda>(k, v). recv_mac s k v (cups_style k)) (map_items (m_map_field s))"
  by (rule map_cong) (auto simp: map_items_mem intro!: send_recv_mac)

section \<open>MAC characters\<close>

lemma squeeze_single: "32 \<notin> set s \<Longrightarrow> str_find s [32, 32] i = None"
proof (cases "str_find s [32, 32] i")
  case (Some j)
  assume "32 \<notin> set s"
  moreover from str_find_SomeD [OF Some] have "take 2 (drop j s) = [32, 32]" by (simp add: numeral_2_eq_2)
  then have "32 \<in> set (take 2 (drop j s))" by simp
  then have "32 \<in> set s" by (meson in_set_dropD in_set_takeD)
  ultimately show ?thesis by simp
qed

lemma digit_facts: "is_digit c \<Longrightarrow> \<not> is_space c \<and> c \<noteq> 32 \<and> mac_char c \<and> mac_upper c = c"
proof -
  assume d: "is_digit c"
  then have "unat c \<in> set [48..<58]" unfolding is_digit_def word_le_nat_alt set_upt by auto
  then have "of_nat (unat c) \<in> (of_nat ` set [48..<58] :: byte set)" by (rule imageI)
  then have "c \<in> {48, 49, 50, 51, 52, 53, 54, 55, 56, 57}"
    by (simp add: upt_rec numeral_eq_Suc flip: numeral_eq_Suc)
  then show ?thesis by (auto simp: is_space_def mac_char_def mac_upper_def char_ge_def)
qed

lemma dealMacChar_digits:
  assumes "\<forall>c\<in>set v. is_digit c"
  shows "dealMacChar v = v"
proof -
  have t: "Trim v = v"
  proof -
    have "dropWhile is_space v = v" if "\<forall>c\<in>set v. is_digit c" for v
      using that digit_facts by (cases v) auto
    from this [OF assms] this [of "rev v"] assms show ?thesis by (simp add: Trim_def Ltrim_def Rtrim_def)
  qed
  have "32 \<notin> set v" using assms digit_facts by blast
  then have "squeeze_blanks v = v" by (subst squeeze_blanks.simps) (simp add: squeeze_single)
  moreover have "filter mac_char v = v" "map mac_upper v = v"
    using assms digit_facts by (auto simp: filter_id_conv map_idI)
  ultimately show ?thesis using t by (simp add: dealMacChar_def)
qed

section \<open>Unpack on arbitrary input\<close>

lemma cups_decoding_total:
  assumes "off \<le> length (m_content s)" "style_ok st"
  shows "cups_decoding k off st s = Inr None \<or>
     (\<exists>off' v s'. cups_decoding k off st s = Inr (Some (off', v, s')) \<and> off' \<le> length (m_content s))"
proof -
  have v: "cups_decoding_value k o' il n s = Inr None \<or>
     (\<exists>off' v s'. cups_decoding_value k o' il n s = Inr (Some (off', v, s')) \<and> off' \<le> length (m_content s))"
    if "o' \<le> length (m_content s)" for o' il n
    using that by (simp add: cups_decoding_value_def Let_def)
  show ?thesis
    using assms v [of off] v [of "off + 2"] v [of "off + 3"]
    by (simp add: cups_decoding_def Let_def)
qed

lemma cups_unpack_loop_total:
  "off \<le> length (m_content s) \<Longrightarrow> \<forall>i\<in>set is. i < 128 \<Longrightarrow>
     \<exists>r t. cups_unpack_loop is off s = Inr (r, t) \<and> (r = 0 \<or> r \<in> (\<lambda>i. int (i + 1)) ` set is)"
proof (induction "is" arbitrary: off s)
  case (Cons i "is")
  show ?case
  proof (cases "m_bitset_bitmap s ! i")
    case bit: True
    from Cons.prems have k: "1 \<le> i + 1" "i + 1 \<le> 128" by simp_all
    note st = cups_getStyle_eq [OF k, simplified]
    consider "cups_decoding (i + 1) off (cups_style (Suc i)) s = Inr None"
      | off' v s' where "cups_decoding (i + 1) off (cups_style (Suc i)) s = Inr (Some (off', v, s'))"
        "off' \<le> length (m_content s)"
      using cups_decoding_total [OF Cons.prems(1) cups_style_ok [OF k], of "i + 1"] by auto
    then show ?thesis
    proof cases
      case 1
      with bit st show ?thesis by simp
    next
      case 2
      let ?t = "s'\<lparr>m_map_field := map_insert (i + 1) v (m_map_field s')\<rparr>"
      have "off' \<le> length (m_content ?t)" using 2 cups_decoding_frame by fastforce
      from Cons.IH [OF this] Cons.prems obtain r t where
        "cups_unpack_loop is off' ?t = Inr (r, t)" "r = 0 \<or> r \<in> (\<lambda>i. int (i + 1)) ` set is" by auto
      with 2 bit st show ?thesis by auto
    qed
  next
    case False
    with Cons.IH [OF Cons.prems(1)] Cons.prems(2) show ?thesis by auto
  qed
qed simp

text \<open>The reject code is the last header field; with another one than \<open>00000\<close> a second header is skipped.\<close>

definition reject_code_of :: "cstr \<Rightarrow> cstr" where
  "reject_code_of msg = take 5 (drop 45 msg)"

lemma cups_Unpack_start:
  assumes "length (m_vec_field s) = 0" "70 < length msg"
  shows "\<exists>s1. length (m_bitset_bitmap s1) = length (m_bitset_bitmap s) \<and>
    (let offset = (if reject_code_of msg \<noteq> bytes ''00000'' then 96 else 50)
     in cups_Unpack msg s =
        bind_result (substr msg offset 4) (\<lambda>msg_type.
        bind_result (substr msg (offset + 4) CUPS_BITMAP_LEN) (\<lambda>bitmap.
        bind_result (substr_from msg (offset + 4 + CUPS_BITMAP_LEN)) (\<lambda>content.
        bind_result (getBitmap (CUPS_BITMAP_LEN * 8)
           (s1\<lparr>m_msg_type := msg_type, m_bitmap := bitmap, m_content := content, m_mac_data := msg_type\<rparr>))
          (\<lambda>(ret, s). cups_unpack_loop [1..<CUPS_BITMAP_LEN * 8] 0 s)))))"
proof -
  define s1 where "s1 = cups_dealMsgHeader (take CUPS_HEADER_LEN (drop CUPS_MSG_LEN msg)) s"
  have l: "length (take CUPS_HEADER_LEN (drop CUPS_MSG_LEN msg)) = CUPS_HEADER_LEN"
    using assms(2) by (simp add: CUPS_HEADER_LEN_def CUPS_MSG_LEN_def)
  have f: "length (m_vec_field s1) = CUPS_HEADER_FIELD_COUNT" "m_vec_field s1 ! 9 = reject_code_of msg"
    using assms l
    by (simp_all add: s1_def cups_dealMsgHeader_def cups_header_split_def CUPS_HEADER_FIELD_COUNT_def
        CUPS_HEADER_LEN_def CUPS_MSG_LEN_def reject_code_of_def drop_take)
  have g: "\<not> length msg \<le> CUPS_MSG_LEN + CUPS_HEADER_LEN + MTI_LEN + CUPS_BITMAP_LEN"
    using assms(2) by (simp add: cups_len_defs CUPS_BITMAP_LEN_def)
  have o: "50 + CUPS_HEADER_LEN = 96" "CUPS_MSG_LEN + CUPS_HEADER_LEN = 50" "MTI_LEN = 4"
    by (simp_all add: cups_len_defs)
  show ?thesis
  proof (intro exI conjI)
    show "length (m_bitset_bitmap s1) = length (m_bitset_bitmap s)" by (simp add: s1_def cups_dealMsgHeader_def)
    show "let offset = (if reject_code_of msg \<noteq> bytes ''00000'' then 96 else 50)
     in cups_Unpack msg s =
        bind_result (substr msg offset 4) (\<lambda>msg_type.
        bind_result (substr msg (offset + 4) CUPS_BITMAP_LEN) (\<lambda>bitmap.
        bind_result (substr_from msg (offset + 4 + CUPS_BITMAP_LEN)) (\<lambda>content.
        bind_result (getBitmap (CUPS_BITMAP_LEN * 8)
           (s1\<lparr>m_msg_type := msg_type, m_bitmap := bitmap, m_content := content, m_mac_data := msg_type\<rparr>))
          (\<lambda>(ret, s). cups_unpack_loop [1..<CUPS_BITMAP_LEN * 8] 0 s))))"
      unfolding cups_Unpack_def Let_def s1_def [symmetric] f(2) o
      using g f(1) by (simp only: o if_False not_True_eq_False not_False_eq_True simp_thms)
  qed
qed

section \<open>Properties\<close>

text \<open>
  C2. Round trip of \<open>CUPS8583\<close>: \<open>Pack\<close> succeeds on every message whose fields fit their styles and
  whose content has less than 9000 bytes, and \<open>Unpack\<close> of the packed bytes into any object after
  \<open>Init\<close> succeeds and gives the message type, the header that was sent (with the total length in its
  third field) and every field, fixed fields padded (digits with zeros on the left, other characters
  with blanks on the right), and with the MAC flag the eight zero bytes of field 128. Both sides
  compute the MAC over the same characters as long as field 90 is not there.
\<close>

theorem cups8583_roundtrip:
  assumes "cups_packable mac s"
  shows "\<exists>msg s' t'. cups_Pack mac msg0 s = Inr (0, msg, s') \<and> cups_Unpack msg (Init t) = Inr (0, t') \<and>
     m_map_field t' = cups_received mac (m_map_field s) \<and> m_vec_field t' = m_vec_field s' \<and>
     m_msg_type t' = m_msg_type s \<and> (m_map_field s 90 = None \<longrightarrow> m_mac_data t' = m_mac_data s')"
proof -
  from cups_pack_unpack [OF assms, of msg0 t] obtain msg s' t' where r:
    "cups_Pack mac msg0 s = Inr (0, msg, s')" "cups_Unpack msg (Init t) = Inr (0, t')"
    "m_map_field t' = cups_received mac (m_map_field s)" "m_vec_field t' = m_vec_field s'"
    "m_msg_type t' = m_msg_type s"
    "m_mac_data s' = m_msg_type s @ concat (map (\<lambda>(k, v). send_mac s k v (cups_style k)) (map_items (m_map_field s)))"
    "m_mac_data t' = m_msg_type s @ concat (map (\<lambda>(k, v). recv_mac s k v (cups_style k)) (map_items (m_map_field s)))"
    by blast
  have "m_map_field s 90 = None \<longrightarrow> m_mac_data t' = m_mac_data s'"
    unfolding r(6,7) by (intro impI) (simp only: send_recv_mac_items)
  with r(1-5) show ?thesis by (intro exI [of _ msg] exI [of _ s'] exI [of _ t']) simp
qed

definition cups_sample :: base8583 where
  "cups_sample = cups_InitHeader (\<lambda>_ _. []) (SetMsgType (bytes ''0200'')
     (Base8583_new\<lparr>m_bitset_bitmap := (replicate MAX_ITEM_NUM False)[3 := True],
                    m_map_field := [4 \<mapsto> bytes ''1500'']\<rparr>))"

lemma cups_sample_items: "map_items (m_map_field cups_sample) = [(4, bytes ''1500'')]"
proof -
  have "map_items (m_map_field cups_sample) = map (\<lambda>k. (k, the (m_map_field cups_sample k)))
      (filter (\<lambda>k. m_map_field cups_sample k \<noteq> None) [4..<5])"
    by (rule map_items_range)
      (auto simp: cups_sample_def cups_InitHeader_def SetMsgType_def MAX_ITEM_NUM_def split: if_splits)
  also have "\<dots> = [(4, bytes ''1500'')]"
    by (simp add: cups_sample_def cups_InitHeader_def SetMsgType_def)
  finally show ?thesis .
qed

lemma cups_style_4:
  "cups_style 4 = \<lparr>no_item = 0, type_item = 2, var_item = 0, max_len = 12, value_item = []\<rparr>"
  by (simp add: cups_style_def cups_getStyle_def getStyle_def cups8583_style_array_def)

lemma cups_sample_packable: "cups_packable True cups_sample"
proof -
  have "inv8583 cups_sample"
    by (auto simp: inv8583_def cups_sample_def cups_InitHeader_def SetMsgType_def nth_list_update MAX_ITEM_NUM_def)
  moreover have "cups_header_ok (m_vec_field cups_sample)"
    by (simp add: cups_header_ok_def cups_sample_def cups_InitHeader_def station_id_def cups_header_split_def
        eval_nat_numeral)
  moreover have "cups_field_ok 4 (bytes ''1500'')"
    by (simp add: cups_field_ok_def cups_value_ok_def cups_style_4 type_8583_defs)
  moreover have "length (cups_text 4 (bytes ''1500'')) = 12"
    by (simp add: cups_text_def cups_style_4 cups_prefix_def cups_item_value_def type_8583_defs)
  ultimately show ?thesis
    by (auto simp: cups_packable_def cups_sample_items)
      (auto simp: cups_sample_def cups_InitHeader_def SetMsgType_def)
qed

theorem cups8583_roundtrip_witness:
  "\<exists>msg s' t'. cups_Pack True [] cups_sample = Inr (0, msg, s') \<and>
     cups_Unpack msg (Init Base8583_new) = Inr (0, t') \<and>
     m_map_field t' = cups_received True (m_map_field cups_sample) \<and> m_vec_field t' = m_vec_field s' \<and>
     m_msg_type t' = m_msg_type cups_sample \<and>
     (m_map_field cups_sample 90 = None \<longrightarrow> m_mac_data t' = m_mac_data s')"
  using cups8583_roundtrip [OF cups_sample_packable] .

text \<open>
  Field 90 breaks the MAC: the sender takes the first 20 characters of field 90 into the MAC data,
  the receiver all 42, so that in every financial message with a field 90 of digits the two sides
  compute the MAC over different data.
\<close>

theorem cups8583_mac_field90:
  assumes p: "cups_packable mac s" and v: "m_map_field s 90 = Some v" "length v = 42" "\<forall>c\<in>set v. is_digit c"
    and ty: "m_msg_type s \<noteq> bytes ''0800''" "m_msg_type s \<noteq> bytes ''0810''"
  shows "\<exists>msg s' t'. cups_Pack mac msg0 s = Inr (0, msg, s') \<and> cups_Unpack msg (Init t) = Inr (0, t') \<and>
     m_mac_data t' \<noteq> m_mac_data s'"
proof -
  let ?it = "map_items (m_map_field s)"
  let ?S = "\<lambda>(k, v). length (send_mac s k v (cups_style k))" and ?R = "\<lambda>(k, v). length (recv_mac s k v (cups_style k))"
  have st: "cups_style 90 = \<lparr>no_item = 0, type_item = 2, var_item = 0, max_len = 42, value_item = []\<rparr>"
    by (simp add: cups_style_def cups_getStyle_def getStyle_def cups8583_style_array_def)
  have "isMacField s 90" using ty by (simp add: isMacField_def other_mac_field_array_def)
  then have lt: "?S (90, v) < ?R (90, v)"
    using v by (simp add: send_mac_def recv_mac_def Let_def st cups_prefix_def cups_item_value_def
        type_8583_defs dealMacChar_digits)
  have le: "?S x \<le> ?R x" for x
    by (cases x) (simp add: send_mac_def recv_mac_def Let_def)
  have "(90, v) \<in> set ?it" using v(1) by (simp add: map_items_mem MAX_ITEM_NUM_def)
  then obtain xs ys where it: "?it = xs @ (90, v) # ys" by (auto simp: in_set_conv_decomp)
  have sum: "sum_list (map ?S zs) \<le> sum_list (map ?R zs)" for zs
    by (rule sum_list_mono) (rule le)
  have "sum_list (map ?S ?it) < sum_list (map ?R ?it)"
    unfolding it using sum [of xs] sum [of ys] lt by simp
  then have ne: "concat (map (\<lambda>(k, v). send_mac s k v (cups_style k)) ?it) \<noteq>
      concat (map (\<lambda>(k, v). recv_mac s k v (cups_style k)) ?it)"
    by (auto dest!: arg_cong [where f = length] simp: length_concat comp_def split_def)
  from cups_pack_unpack [OF p, of msg0 t] obtain msg s' t' where
    "cups_Pack mac msg0 s = Inr (0, msg, s')" "cups_Unpack msg (Init t) = Inr (0, t')"
    "m_mac_data s' = m_msg_type s @ concat (map (\<lambda>(k, v). send_mac s k v (cups_style k)) ?it)"
    "m_mac_data t' = m_msg_type s @ concat (map (\<lambda>(k, v). recv_mac s k v (cups_style k)) ?it)" by blast
  with ne show ?thesis by auto
qed


definition cups_sample90 :: base8583 where
  "cups_sample90 = cups_InitHeader (\<lambda>_ _. []) (SetMsgType (bytes ''0420'')
     (Base8583_new\<lparr>m_bitset_bitmap := (replicate MAX_ITEM_NUM False)[89 := True],
                    m_map_field := [90 \<mapsto> replicate 42 0x30]\<rparr>))"

lemma cups_style_90:
  "cups_style 90 = \<lparr>no_item = 0, type_item = 2, var_item = 0, max_len = 42, value_item = []\<rparr>"
  by (simp add: cups_style_def cups_getStyle_def getStyle_def cups8583_style_array_def)

lemma cups_sample90_items: "map_items (m_map_field cups_sample90) = [(90, replicate 42 0x30)]"
proof -
  have "map_items (m_map_field cups_sample90) = map (\<lambda>k. (k, the (m_map_field cups_sample90 k)))
      (filter (\<lambda>k. m_map_field cups_sample90 k \<noteq> None) [90..<91])"
    by (rule map_items_range)
      (auto simp: cups_sample90_def cups_InitHeader_def SetMsgType_def MAX_ITEM_NUM_def split: if_splits)
  also have "\<dots> = [(90, replicate 42 0x30)]"
    by (simp add: cups_sample90_def cups_InitHeader_def SetMsgType_def)
  finally show ?thesis .
qed

lemma cups_sample90_packable: "cups_packable True cups_sample90"
proof -
  have "inv8583 cups_sample90"
    by (auto simp: inv8583_def cups_sample90_def cups_InitHeader_def SetMsgType_def nth_list_update MAX_ITEM_NUM_def)
  moreover have "cups_header_ok (m_vec_field cups_sample90)"
    by (simp add: cups_header_ok_def cups_sample90_def cups_InitHeader_def station_id_def cups_header_split_def
        eval_nat_numeral)
  moreover have "cups_field_ok 90 (replicate 42 0x30)"
    by (simp add: cups_field_ok_def cups_value_ok_def cups_style_90 type_8583_defs)
  moreover have "length (cups_text 90 (replicate 42 0x30)) = 42"
    by (simp add: cups_text_def cups_style_90 cups_prefix_def cups_item_value_def type_8583_defs)
  ultimately show ?thesis
    by (auto simp: cups_packable_def cups_sample90_items)
      (auto simp: cups_sample90_def cups_InitHeader_def SetMsgType_def)
qed

theorem cups8583_mac_field90_witness:
  "\<exists>msg s' t'. cups_Pack True [] cups_sample90 = Inr (0, msg, s') \<and>
     cups_Unpack msg (Init Base8583_new) = Inr (0, t') \<and> m_mac_data t' \<noteq> m_mac_data s'"
  using cups8583_mac_field90 [OF cups_sample90_packable, of "replicate 42 0x30" "[]" Base8583_new]
  by (simp add: cups_sample90_def cups_InitHeader_def SetMsgType_def is_digit_def)

text \<open>
  C4. Which input makes \<open>Unpack\<close> throw: into an object after \<open>Init\<close>, a message of at least 116 bytes,
  or one without a reject code, always returns with -1, 0 or the number of the field that could not
  be decoded; a message of 71 to 95 bytes whose reject code is not \<open>00000\<close> makes \<open>substr\<close> throw
  \<open>std::out_of_range\<close> out of \<open>Unpack\<close>.
\<close>

theorem cups8583_unpack_safety:
  "(116 \<le> length msg \<or> reject_code_of msg = bytes ''00000'' \<or> length msg \<le> 70 \<longrightarrow>
      (\<exists>r t. cups_Unpack msg (Init u) = Inr (r, t) \<and> (r = - 1 \<or> r = 0 \<or> 2 \<le> r \<and> r \<le> 128))) \<and>
   (70 < length msg \<and> length msg < 96 \<and> reject_code_of msg \<noteq> bytes ''00000'' \<longrightarrow>
      cups_Unpack msg (Init u) = Inl Out_of_range)"
proof (cases "length msg \<le> 70")
  case True
  then show ?thesis by (simp add: cups_Unpack_def cups_len_defs CUPS_BITMAP_LEN_def)
next
  case False
  then have "length (m_vec_field (Init u)) = 0" "70 < length msg" by (simp_all add: Init_def)
  from cups_Unpack_start [OF this] obtain s1 where
    b: "length (m_bitset_bitmap s1) = MAX_ITEM_NUM" and
    e: "cups_Unpack msg (Init u) =
        (let offset = (if reject_code_of msg \<noteq> bytes ''00000'' then 96 else 50)
         in bind_result (substr msg offset 4) (\<lambda>msg_type.
        bind_result (substr msg (offset + 4) CUPS_BITMAP_LEN) (\<lambda>bitmap.
        bind_result (substr_from msg (offset + 4 + CUPS_BITMAP_LEN)) (\<lambda>content.
        bind_result (getBitmap (CUPS_BITMAP_LEN * 8)
           (s1\<lparr>m_msg_type := msg_type, m_bitmap := bitmap, m_content := content, m_mac_data := msg_type\<rparr>))
          (\<lambda>(ret, s). cups_unpack_loop [1..<CUPS_BITMAP_LEN * 8] 0 s)))))"
    unfolding Let_def by (auto simp: Init_def simp del: upt.simps)
  define off where "off = (if reject_code_of msg \<noteq> bytes ''00000'' then 96 else 50 :: nat)"
  have ret: "\<exists>r t. cups_Unpack msg (Init u) = Inr (r, t) \<and> (r = - 1 \<or> r = 0 \<or> 2 \<le> r \<and> r \<le> 128)"
    if "off + 20 \<le> length msg"
  proof -
    let ?s = "s1\<lparr>m_msg_type := take 4 (drop off msg), m_bitmap := take CUPS_BITMAP_LEN (drop (off + 4) msg),
      m_content := drop (off + 4 + CUPS_BITMAP_LEN) msg, m_mac_data := take 4 (drop off msg)\<rparr>"
    have "length (m_bitmap ?s) = CUPS_BITMAP_LEN" using that by (simp add: CUPS_BITMAP_LEN_def)
    with b obtain s2 where s2: "getBitmap (CUPS_BITMAP_LEN * 8) ?s = Inr (0, s2)"
      by (simp add: getBitmap_def CUPS_BITMAP_LEN_def MAX_ITEM_NUM_def del: upt.simps)
    have "\<forall>i\<in>set [1..<CUPS_BITMAP_LEN * 8]. i < 128" by (simp add: CUPS_BITMAP_LEN_def)
    from cups_unpack_loop_total [OF le0 this, of s2] obtain r t where
      r: "cups_unpack_loop [1..<CUPS_BITMAP_LEN * 8] 0 s2 = Inr (r, t)"
        "r = 0 \<or> r \<in> (\<lambda>i. int (i + 1)) ` set [1..<CUPS_BITMAP_LEN * 8]" by blast
    from that s2 r(1) have "cups_Unpack msg (Init u) = Inr (r, t)"
      unfolding e off_def [symmetric] Let_def by (simp add: CUPS_BITMAP_LEN_def del: upt.simps)
    moreover have "r = 0 \<or> 2 \<le> r \<and> r \<le> 128" using r(2) by (auto simp: CUPS_BITMAP_LEN_def simp del: upt.simps)
    ultimately show ?thesis by blast
  qed
  have thr: "cups_Unpack msg (Init u) = Inl Out_of_range" if "length msg < off"
    unfolding e off_def [symmetric] Let_def using that by (simp add: substr_def)
  show ?thesis using ret thr False by (auto simp: off_def)
qed

lemma reject_code_zeros: "reject_code_of (replicate 80 0) \<noteq> bytes ''00000''"
proof -
  have "reject_code_of (replicate 80 0) = replicate 5 0" by (simp add: reject_code_of_def)
  then have "hd (reject_code_of (replicate 80 0)) \<noteq> hd (bytes ''00000'')" by simp
  then show ?thesis by metis
qed

theorem cups8583_unpack_safety_witness:
  "(\<exists>r t. cups_Unpack (replicate 120 0) (Init Base8583_new) = Inr (r, t) \<and>
      (r = - 1 \<or> r = 0 \<or> 2 \<le> r \<and> r \<le> 128)) \<and>
   cups_Unpack (replicate 80 0) (Init Base8583_new) = Inl Out_of_range"
  using cups8583_unpack_safety [of "replicate 120 0" Base8583_new] cups8583_unpack_safety [of "replicate 80 0" Base8583_new]
    reject_code_zeros
  by simp

text \<open>
  A negative length is accepted: in a field with a two-character length, \<open>-1\<close> passes the bounds
  check (the sum wraps), the value is the whole rest of the content, and the offset moves backwards.
\<close>

theorem cups8583_negative_length:
  assumes "var_item st = 2" "m_content s = bytes ''-1'' @ rest"
  shows "\<exists>s'. cups_decoding k 0 st s = Inr (Some (1, rest, s'))"
proof -
  have "atoi (bytes ''-1'') = - 1"
    by (simp add: atoi_def strtol10_def is_space_def clamp_long_def is_digit_def)
  then show ?thesis using assms by (auto simp: cups_decoding_def cups_decoding_value_def Let_def)
qed

theorem cups8583_negative_length_witness:
  "\<exists>s'. cups_decoding 2 0 (cups_style 2) (Base8583_new\<lparr>m_content := bytes ''-1'' @ bytes ''6222''\<rparr>) =
     Inr (Some (1, bytes ''6222'', s'))"
  using cups8583_negative_length [of "cups_style 2" "Base8583_new\<lparr>m_content := bytes ''-1'' @ bytes ''6222''\<rparr>" "bytes ''6222''" 2]
  by (simp add: cups_style_def cups_getStyle_def getStyle_def cups8583_style_array_def)

end
