(* ===== verification/Blocking_Queue.thy ===== *)
theory Blocking_Queue
  imports Prelude "HOL-Library.Multiset"
begin

text \<open>
  \<open>BlockingQueue\<close> (\<open>source/common/blocking_queue.h\<close>) as a system of threads. The body of a method
  between taking and releasing \<open>m_mutex\<close> is one function on the deque, which either says for which
  condition variable the thread waits or gives the new deque, the returned value and the signals that
  follow. The step relation interleaves these critical sections, the signals after them, waiting and
  waking up (by a signal, by a timeout, or for no reason at all, as POSIX allows) in every order.
  A history of the completed critical sections relates the queue to its sequential specification.
\<close>

section \<open>The methods\<close>

datatype bq_cond = Not_empty | Not_full

datatype bq_note = Signal bq_cond | Broadcast bq_cond

datatype 'a bq_ret = Void | Flag bool | Popped "'a list" | Number nat

text \<open>
  What a critical section does: wait on a condition variable, or leave with a returned value, the new
  deque, the notification made while the mutex is still held, and those made after it is released.
\<close>

datatype 'a bq_crit =
    Wait_on bq_cond
  | Leave "'a bq_ret" "'a list" "bq_note list" "bq_note list"

definition UnlockedIsFull :: "nat \<Rightarrow> 'a list \<Rightarrow> bool" where
  "UnlockedIsFull m_max_elements m_queue \<longleftrightarrow> m_max_elements \<le> length m_queue"

definition PushFront :: "nat \<Rightarrow> 'a \<Rightarrow> 'a list \<Rightarrow> 'a bq_crit" where
  "PushFront mx v q =
     (if UnlockedIsFull mx q then Wait_on Not_full else Leave Void (v # q) [] [Signal Not_empty])"

definition TryPushFront :: "nat \<Rightarrow> 'a \<Rightarrow> 'a list \<Rightarrow> 'a bq_crit" where
  "TryPushFront mx v q =
     (if UnlockedIsFull mx q then Leave (Flag False) q [] []
      else Leave (Flag True) (v # q) [] [Signal Not_empty])"

definition PushBack :: "nat \<Rightarrow> 'a \<Rightarrow> 'a list \<Rightarrow> 'a bq_crit" where
  "PushBack mx v q =
     (if UnlockedIsFull mx q then Wait_on Not_full else Leave Void (q @ [v]) [] [Signal Not_empty])"

definition TryPushBack :: "nat \<Rightarrow> 'a \<Rightarrow> 'a list \<Rightarrow> 'a bq_crit" where
  "TryPushBack mx v q =
     (if UnlockedIsFull mx q then Leave (Flag False) q [] []
      else Leave (Flag True) (q @ [v]) [] [Signal Not_empty])"

definition PopFront :: "'a list \<Rightarrow> 'a bq_crit" where
  "PopFront q = (if q = [] then Wait_on Not_empty else Leave (Popped [hd q]) (tl q) [] [Signal Not_full])"

definition TryPopFront :: "'a list \<Rightarrow> 'a bq_crit" where
  "TryPopFront q =
     (if q = [] then Leave (Flag False) q [] [] else Leave (Popped [hd q]) (tl q) [] [Signal Not_full])"

definition PopBack :: "'a list \<Rightarrow> 'a bq_crit" where
  "PopBack q = (if q = [] then Wait_on Not_empty else Leave (Popped [last q]) (butlast q) [] [Signal Not_full])"

definition TryPopBack :: "'a list \<Rightarrow> 'a bq_crit" where
  "TryPopBack q =
     (if q = [] then Leave (Flag False) q [] [] else Leave (Popped [last q]) (butlast q) [] [Signal Not_full])"

text \<open>
  The timed methods test with \<open>if\<close>: \<open>waited\<close> says that the thread has waited, after which it tests
  once more and gives up.
\<close>

definition TimedPushFront :: "nat \<Rightarrow> bool \<Rightarrow> 'a \<Rightarrow> 'a list \<Rightarrow> 'a bq_crit" where
  "TimedPushFront mx waited v q =
     (if UnlockedIsFull mx q then (if waited then Leave (Flag False) q [] [] else Wait_on Not_full)
      else Leave (Flag True) (v # q) [] [Signal Not_empty])"

definition TimedPushBack :: "nat \<Rightarrow> bool \<Rightarrow> 'a \<Rightarrow> 'a list \<Rightarrow> 'a bq_crit" where
  "TimedPushBack mx waited v q =
     (if UnlockedIsFull mx q then (if waited then Leave (Flag False) q [] [] else Wait_on Not_full)
      else Leave (Flag True) (q @ [v]) [] [Signal Not_empty])"

definition TimedPopFront :: "bool \<Rightarrow> 'a list \<Rightarrow> 'a bq_crit" where
  "TimedPopFront waited q =
     (if q = [] then (if waited then Leave (Flag False) q [] [] else Wait_on Not_empty)
      else Leave (Popped [hd q]) (tl q) [] [Signal Not_full])"

definition TimedPopBack :: "bool \<Rightarrow> 'a list \<Rightarrow> 'a bq_crit" where
  "TimedPopBack waited q =
     (if q = [] then (if waited then Leave (Flag False) q [] [] else Wait_on Not_empty)
      else Leave (Popped [last q]) (butlast q) [] [Signal Not_full])"

definition PopAll :: "'a list \<Rightarrow> 'a bq_crit" where
  "PopAll q = (if q = [] then Wait_on Not_empty else Leave (Popped q) [] [] [Broadcast Not_full])"

definition TryPopAll :: "'a list \<Rightarrow> 'a bq_crit" where
  "TryPopAll q =
     (if q = [] then Leave (Flag False) q [] [] else Leave (Popped q) [] [] [Broadcast Not_full])"

definition TimedPopAll :: "bool \<Rightarrow> 'a list \<Rightarrow> 'a bq_crit" where
  "TimedPopAll waited q =
     (if q = [] then (if waited then Leave (Flag False) q [] [] else Wait_on Not_empty)
      else Leave (Popped q) [] [Broadcast Not_full] [Signal Not_full])"

definition Size :: "'a list \<Rightarrow> 'a bq_crit" where
  "Size q = Leave (Number (length q)) q [] []"

definition IsEmpty :: "'a list \<Rightarrow> 'a bq_crit" where
  "IsEmpty q = Leave (Flag (q = [])) q [] []"

definition IsFull :: "nat \<Rightarrow> 'a list \<Rightarrow> 'a bq_crit" where
  "IsFull mx q = Leave (Flag (UnlockedIsFull mx q)) q [] []"

definition Clear :: "'a list \<Rightarrow> 'a bq_crit" where
  "Clear q = Leave Void [] [Broadcast Not_full] []"

lemmas bq_defs = PushFront_def TryPushFront_def PushBack_def TryPushBack_def PopFront_def TryPopFront_def
  PopBack_def TryPopBack_def TimedPushFront_def TimedPushBack_def TimedPopFront_def TimedPopBack_def
  PopAll_def TryPopAll_def TimedPopAll_def Size_def IsEmpty_def IsFull_def Clear_def UnlockedIsFull_def

section \<open>Threads\<close>

datatype 'a bq_op =
    Op_PushFront 'a | Op_TryPushFront 'a | Op_PushBack 'a | Op_TryPushBack 'a
  | Op_PopFront | Op_TryPopFront | Op_PopBack | Op_TryPopBack
  | Op_TimedPushFront 'a | Op_TimedPushBack 'a | Op_TimedPopFront | Op_TimedPopBack
  | Op_PopAll | Op_TryPopAll | Op_TimedPopAll | Op_Size | Op_IsEmpty | Op_IsFull | Op_Clear

fun critical :: "nat \<Rightarrow> bool \<Rightarrow> 'a bq_op \<Rightarrow> 'a list \<Rightarrow> 'a bq_crit" where
  "critical mx w (Op_PushFront v) q = PushFront mx v q"
| "critical mx w (Op_TryPushFront v) q = TryPushFront mx v q"
| "critical mx w (Op_PushBack v) q = PushBack mx v q"
| "critical mx w (Op_TryPushBack v) q = TryPushBack mx v q"
| "critical mx w Op_PopFront q = PopFront q"
| "critical mx w Op_TryPopFront q = TryPopFront q"
| "critical mx w Op_PopBack q = PopBack q"
| "critical mx w Op_TryPopBack q = TryPopBack q"
| "critical mx w (Op_TimedPushFront v) q = TimedPushFront mx w v q"
| "critical mx w (Op_TimedPushBack v) q = TimedPushBack mx w v q"
| "critical mx w Op_TimedPopFront q = TimedPopFront w q"
| "critical mx w Op_TimedPopBack q = TimedPopBack w q"
| "critical mx w Op_PopAll q = PopAll q"
| "critical mx w Op_TryPopAll q = TryPopAll q"
| "critical mx w Op_TimedPopAll q = TimedPopAll w q"
| "critical mx w Op_Size q = Size q"
| "critical mx w Op_IsEmpty q = IsEmpty q"
| "critical mx w Op_IsFull q = IsFull mx q"
| "critical mx w Op_Clear q = Clear q"

datatype 'a bq_thread =
    Idle
  | Enter "'a bq_op"
  | Waiting bq_cond "'a bq_op"
  | Woken bq_cond "'a bq_op"
  | Notify "bq_note list"

record 'a bq_state =
  m_queue :: "'a list"
  bq_threads :: "'a bq_thread list"
  bq_hist :: "('a bq_op \<times> 'a bq_ret) list"

fun wake :: "bq_cond \<Rightarrow> 'a bq_thread \<Rightarrow> 'a bq_thread" where
  "wake c (Waiting c' op) = (if c = c' then Woken c op else Waiting c' op)"
| "wake c t = t"

definition broadcasts :: "bq_note list \<Rightarrow> 'a bq_thread list \<Rightarrow> 'a bq_thread list" where
  "broadcasts ns ts = fold (\<lambda>n ts. case n of Broadcast c \<Rightarrow> map (wake c) ts | Signal c \<Rightarrow> ts) ns ts"

inductive bq_step :: "nat \<Rightarrow> 'a bq_state \<Rightarrow> 'a bq_state \<Rightarrow> bool" for mx where
  call: "i < length (bq_threads s) \<Longrightarrow> bq_threads s ! i = Idle \<Longrightarrow>
     bq_step mx s (s\<lparr>bq_threads := (bq_threads s)[i := Enter op]\<rparr>)"
| wait: "i < length (bq_threads s) \<Longrightarrow> bq_threads s ! i = Enter op \<and> \<not> w \<or> bq_threads s ! i = Woken c0 op \<and> w \<Longrightarrow>
     critical mx w op (m_queue s) = Wait_on c \<Longrightarrow>
     bq_step mx s (s\<lparr>bq_threads := (bq_threads s)[i := Waiting c op]\<rparr>)"
| leave: "i < length (bq_threads s) \<Longrightarrow> bq_threads s ! i = Enter op \<and> \<not> w \<or> bq_threads s ! i = Woken c0 op \<and> w \<Longrightarrow>
     critical mx w op (m_queue s) = Leave r q inside after \<Longrightarrow>
     bq_step mx s (s\<lparr>m_queue := q, bq_threads := (broadcasts inside (bq_threads s))[i := Notify after],
                     bq_hist := bq_hist s @ [(op, r)]\<rparr>)"
| signal: "i < length (bq_threads s) \<Longrightarrow> bq_threads s ! i = Notify (Signal c # ns) \<Longrightarrow>
     j < length (bq_threads s) \<Longrightarrow> bq_threads s ! j = Waiting c op \<Longrightarrow>
     bq_step mx s (s\<lparr>bq_threads := (bq_threads s)[j := Woken c op, i := Notify ns]\<rparr>)"
| signal_none: "i < length (bq_threads s) \<Longrightarrow> bq_threads s ! i = Notify (Signal c # ns) \<Longrightarrow>
     \<forall>op. Waiting c op \<notin> set (bq_threads s) \<Longrightarrow>
     bq_step mx s (s\<lparr>bq_threads := (bq_threads s)[i := Notify ns]\<rparr>)"
| broadcast: "i < length (bq_threads s) \<Longrightarrow> bq_threads s ! i = Notify (Broadcast c # ns) \<Longrightarrow>
     bq_step mx s (s\<lparr>bq_threads := (map (wake c) (bq_threads s))[i := Notify ns]\<rparr>)"
| return: "i < length (bq_threads s) \<Longrightarrow> bq_threads s ! i = Notify [] \<Longrightarrow>
     bq_step mx s (s\<lparr>bq_threads := (bq_threads s)[i := Idle]\<rparr>)"
| spurious: "i < length (bq_threads s) \<Longrightarrow> bq_threads s ! i = Waiting c op \<Longrightarrow>
     bq_step mx s (s\<lparr>bq_threads := (bq_threads s)[i := Woken c op]\<rparr>)"

inductive bq_reach :: "nat \<Rightarrow> nat \<Rightarrow> 'a bq_state \<Rightarrow> bool" for mx n where
  init: "bq_reach mx n \<lparr>m_queue = [], bq_threads = replicate n Idle, bq_hist = []\<rparr>"
| step: "bq_reach mx n s \<Longrightarrow> bq_step mx s s' \<Longrightarrow> bq_reach mx n s'"

inductive_cases bq_stepE: "bq_step mx s s'"

section \<open>The sequential specification\<close>

text \<open>
  A bounded deque, one operation at a time: the returned value and the new contents, \<open>None\<close> when the
  operation has to wait.
\<close>

definition spec_push :: "nat \<Rightarrow> 'a bq_ret option \<Rightarrow> 'a bq_ret \<Rightarrow> 'a list \<Rightarrow> 'a list \<Rightarrow> ('a bq_ret \<times> 'a list) option" where
  "spec_push mx refused ok q q' = (if length q < mx then Some (ok, q') else map_option (\<lambda>r. (r, q)) refused)"

definition spec_pop :: "'a bq_ret option \<Rightarrow> 'a list \<Rightarrow> 'a list \<Rightarrow> 'a list \<Rightarrow> ('a bq_ret \<times> 'a list) option" where
  "spec_pop refused q vs q' = (if q \<noteq> [] then Some (Popped vs, q') else map_option (\<lambda>r. (r, q)) refused)"

fun deque_spec :: "nat \<Rightarrow> 'a bq_op \<Rightarrow> 'a list \<Rightarrow> ('a bq_ret \<times> 'a list) option" where
  "deque_spec mx (Op_PushFront v) q = spec_push mx None Void q (v # q)"
| "deque_spec mx (Op_PushBack v) q = spec_push mx None Void q (q @ [v])"
| "deque_spec mx (Op_TryPushFront v) q = spec_push mx (Some (Flag False)) (Flag True) q (v # q)"
| "deque_spec mx (Op_TryPushBack v) q = spec_push mx (Some (Flag False)) (Flag True) q (q @ [v])"
| "deque_spec mx (Op_TimedPushFront v) q = spec_push mx (Some (Flag False)) (Flag True) q (v # q)"
| "deque_spec mx (Op_TimedPushBack v) q = spec_push mx (Some (Flag False)) (Flag True) q (q @ [v])"
| "deque_spec mx Op_PopFront q = spec_pop None q [hd q] (tl q)"
| "deque_spec mx Op_PopBack q = spec_pop None q [last q] (butlast q)"
| "deque_spec mx Op_TryPopFront q = spec_pop (Some (Flag False)) q [hd q] (tl q)"
| "deque_spec mx Op_TryPopBack q = spec_pop (Some (Flag False)) q [last q] (butlast q)"
| "deque_spec mx Op_TimedPopFront q = spec_pop (Some (Flag False)) q [hd q] (tl q)"
| "deque_spec mx Op_TimedPopBack q = spec_pop (Some (Flag False)) q [last q] (butlast q)"
| "deque_spec mx Op_PopAll q = spec_pop None q q []"
| "deque_spec mx Op_TryPopAll q = spec_pop (Some (Flag False)) q q []"
| "deque_spec mx Op_TimedPopAll q = spec_pop (Some (Flag False)) q q []"
| "deque_spec mx Op_Size q = Some (Number (length q), q)"
| "deque_spec mx Op_IsEmpty q = Some (Flag (q = []), q)"
| "deque_spec mx Op_IsFull q = Some (Flag (mx \<le> length q), q)"
| "deque_spec mx Op_Clear q = Some (Void, [])"

lemma critical_spec: "critical mx w op q = Leave r q' inside after \<Longrightarrow> deque_spec mx op q = Some (r, q')"
  by (cases op) (auto simp: bq_defs spec_push_def spec_pop_def split: if_splits)

text \<open>Running a history one operation after another; \<open>None\<close> when it does not fit the specification.\<close>

fun replay :: "nat \<Rightarrow> ('a bq_op \<times> 'a bq_ret) list \<Rightarrow> 'a list \<Rightarrow> 'a list option" where
  "replay mx [] q = Some q"
| "replay mx ((op, r) # h) q =
     (case deque_spec mx op q of
        None \<Rightarrow> None
      | Some (r', q') \<Rightarrow> if r = r' then replay mx h q' else None)"

lemma replay_snoc:
  "replay mx h q = Some q1 \<Longrightarrow> deque_spec mx op q1 = Some (r, q2) \<Longrightarrow> replay mx (h @ [(op, r)]) q = Some q2"
  by (induction mx h q rule: replay.induct) (auto split: option.splits if_splits)

lemma bq_replay: "bq_reach mx n s \<Longrightarrow> replay mx (bq_hist s) [] = Some (m_queue s)"
proof (induction rule: bq_reach.induct)
  case (step s s')
  from step.hyps(2) step.IH show ?case
    by (cases rule: bq_step.cases) (auto intro!: replay_snoc dest: critical_spec)
qed simp

lemma deque_spec_bound: "deque_spec mx op q = Some (r, q') \<Longrightarrow> length q \<le> mx \<Longrightarrow> length q' \<le> mx"
  by (cases op) (auto simp: spec_push_def spec_pop_def split: if_splits)

lemma replay_bound: "replay mx h q = Some q' \<Longrightarrow> length q \<le> mx \<Longrightarrow> length q' \<le> mx"
  by (induction mx h q rule: replay.induct) (auto split: option.splits if_splits dest: deque_spec_bound)

lemma bq_bound: "bq_reach mx n s \<Longrightarrow> length (m_queue s) \<le> mx"
  using bq_replay replay_bound by fastforce

text \<open>The values a history put in and took out, when it uses the queue first in, first out.\<close>

fun put_back :: "'a bq_op \<times> 'a bq_ret \<Rightarrow> 'a list" where
  "put_back (Op_PushBack v, r) = [v]"
| "put_back (Op_TryPushBack v, Flag True) = [v]"
| "put_back (Op_TimedPushBack v, Flag True) = [v]"
| "put_back _ = []"

fun took :: "'a bq_op \<times> 'a bq_ret \<Rightarrow> 'a list" where
  "took (op, Popped vs) = vs"
| "took _ = []"

fun fifo_op :: "'a bq_op \<Rightarrow> bool" where
  "fifo_op (Op_PushBack v) = True"
| "fifo_op (Op_TryPushBack v) = True"
| "fifo_op (Op_TimedPushBack v) = True"
| "fifo_op Op_PopFront = True"
| "fifo_op Op_TryPopFront = True"
| "fifo_op Op_TimedPopFront = True"
| "fifo_op Op_PopAll = True"
| "fifo_op Op_TryPopAll = True"
| "fifo_op Op_TimedPopAll = True"
| "fifo_op Op_Size = True"
| "fifo_op Op_IsEmpty = True"
| "fifo_op Op_IsFull = True"
| "fifo_op _ = False"

lemma fifo_step:
  "fifo_op op \<Longrightarrow> deque_spec mx op q = Some (r, q') \<Longrightarrow> took (op, r) @ q' = q @ put_back (op, r)"
  by (cases op) (auto simp: spec_push_def spec_pop_def split: if_splits)

lemma replay_fifo:
  "replay mx h q = Some q' \<Longrightarrow> \<forall>(op, r)\<in>set h. fifo_op op \<Longrightarrow>
     concat (map took h) @ q' = q @ concat (map put_back h)"
proof (induction mx h q rule: replay.induct)
  case (2 mx op r h q)
  from "2.prems" obtain q1 where q1: "deque_spec mx op q = Some (r, q1)" "replay mx h q1 = Some q'"
    by (auto split: option.splits if_splits)
  from "2.IH" [OF q1(1) refl] q1 "2.prems" have "concat (map took h) @ q' = q1 @ concat (map put_back h)" by simp
  moreover have "took (op, r) @ q1 = q @ put_back (op, r)"
    using fifo_step [OF _ q1(1)] "2.prems"(2) by simp
  ultimately show ?case by (metis append_assoc concat.simps(2) list.map(2))
qed simp

section \<open>No wake-up is lost\<close>

fun op_cond :: "'a bq_op \<Rightarrow> bq_cond option" where
  "op_cond (Op_PushFront v) = Some Not_full"
| "op_cond (Op_PushBack v) = Some Not_full"
| "op_cond (Op_TimedPushFront v) = Some Not_full"
| "op_cond (Op_TimedPushBack v) = Some Not_full"
| "op_cond Op_PopFront = Some Not_empty"
| "op_cond Op_PopBack = Some Not_empty"
| "op_cond Op_TimedPopFront = Some Not_empty"
| "op_cond Op_TimedPopBack = Some Not_empty"
| "op_cond Op_PopAll = Some Not_empty"
| "op_cond Op_TimedPopAll = Some Not_empty"
| "op_cond _ = None"

text \<open>
  What a thread still owes to condition variable \<open>c\<close>: the signals it is about to make, and the retry
  of a thread that was woken from it.
\<close>

fun credit :: "bq_cond \<Rightarrow> 'a bq_thread \<Rightarrow> nat" where
  "credit c (Notify ns) = count_list ns (Signal c)"
| "credit c (Woken c' op) = (if c = c' then 1 else 0)"
| "credit c _ = 0"

definition credits :: "bq_cond \<Rightarrow> 'a bq_thread list \<Rightarrow> nat" where
  "credits c ts = sum_list (map (credit c) ts)"

fun waits :: "bq_cond \<Rightarrow> 'a bq_thread \<Rightarrow> bool" where
  "waits c (Waiting c' op) \<longleftrightarrow> c = c'"
| "waits c _ \<longleftrightarrow> False"

fun announces :: "'a bq_thread \<Rightarrow> bool" where
  "announces (Notify ns) \<longleftrightarrow> Broadcast Not_full \<in> set ns"
| "announces _ \<longleftrightarrow> False"

fun typed :: "'a bq_thread \<Rightarrow> bool" where
  "typed (Waiting c op) \<longleftrightarrow> op_cond op = Some c"
| "typed (Woken c op) \<longleftrightarrow> op_cond op = Some c"
| "typed _ \<longleftrightarrow> True"

definition wake_inv :: "nat \<Rightarrow> 'a list \<Rightarrow> 'a bq_thread list \<Rightarrow> bool" where
  "wake_inv mx q ts \<longleftrightarrow> length q \<le> mx \<and> (\<forall>t\<in>set ts. typed t) \<and>
     ((\<exists>t\<in>set ts. waits Not_empty t) \<longrightarrow> length q \<le> credits Not_empty ts) \<and>
     ((\<exists>t\<in>set ts. waits Not_full t) \<longrightarrow> (\<exists>t\<in>set ts. announces t) \<or> mx \<le> length q + credits Not_full ts)"

lemma credits_update:
  "i < length ts \<Longrightarrow> credits c (ts[i := x]) + credit c (ts ! i) = credits c ts + credit c x"
proof (induction ts arbitrary: i)
  case (Cons t ts)
  then show ?case by (cases i) (auto simp: credits_def)
qed simp

lemma set_update: "i < length ts \<Longrightarrow> set (ts[i := x]) \<subseteq> insert x (set ts)"
  by (rule set_update_subset_insert)

lemma mem_update: "i < length ts \<Longrightarrow> t \<in> set ts \<Longrightarrow> t \<noteq> ts ! i \<Longrightarrow> t \<in> set (ts[i := x])"
  by (metis in_set_conv_nth length_list_update nth_list_update_neq)

lemma credits_ge: "t \<in> set ts \<Longrightarrow> credit c t \<le> credits c ts"
  unfolding credits_def by (rule member_le_sum_list) auto

lemma critical_waits: "critical mx w op q = Wait_on c \<Longrightarrow>
    op_cond op = Some c \<and> (c = Not_empty \<longrightarrow> q = []) \<and> (c = Not_full \<longrightarrow> mx \<le> length q)"
  by (cases op) (auto simp: bq_defs split: if_splits)

lemma critical_leaves:
  assumes "critical mx w op q = Leave r q' inside after" "length q \<le> mx"
  shows "length q' \<le> mx" "inside = [] \<or> inside = [Broadcast Not_full]"
    "length q' \<le> length q + count_list after (Signal Not_empty)"
    "op_cond op = Some Not_empty \<Longrightarrow> q' = [] \<or> Suc (length q') \<le> length q"
    "op_cond op = Some Not_full \<Longrightarrow> mx \<le> length q' \<or> Suc (length q) \<le> length q'"
    "inside = [Broadcast Not_full] \<or> Broadcast Not_full \<in> set after \<or>
       length q \<le> length q' + count_list after (Signal Not_full)"
  using assms by (cases op; auto simp: bq_defs split: if_splits)+

text \<open>Replacing the state of one thread: what has to be checked of the old and the new state.\<close>

lemma wake_inv_update:
  assumes inv: "wake_inv mx q ts" and i: "i < length ts" and x: "typed x" and b: "length q' \<le> mx"
    and ne: "\<not> waits Not_empty x \<Longrightarrow> length q' + credit Not_empty (ts ! i) \<le> max (credit Not_empty (ts ! i)) (length q + credit Not_empty x)"
    and ne_w: "waits Not_empty x \<Longrightarrow> q' = []"
    and nf: "\<not> waits Not_full x \<Longrightarrow> (\<forall>t\<in>set ts. \<not> waits Not_full t) \<or> announces x \<or> announces (ts ! i) = announces x \<and>
       (mx \<le> length q' \<or> length q + credit Not_full (ts ! i) \<le> length q' + credit Not_full x)"
    and nf_w: "waits Not_full x \<Longrightarrow> mx \<le> length q'"
  shows "wake_inv mx q' (ts[i := x])"
proof -
  have ty: "\<forall>t\<in>set (ts[i := x]). typed t"
    using inv x set_update [OF i, of x] by (auto simp: wake_inv_def)
  have w: "\<exists>t\<in>set ts. waits c t" if "t \<in> set (ts[i := x])" "waits c t" "\<not> waits c x" for c t
    using that set_update [OF i, of x] by auto
  note cr = credits_update [OF i, of _ x]
  have "length q' \<le> credits Not_empty (ts[i := x])" if "t \<in> set (ts[i := x])" "waits Not_empty t" for t
  proof (cases "waits Not_empty x")
    case False
    with w [OF that] inv have "length q \<le> credits Not_empty ts" by (auto simp: wake_inv_def)
    moreover have "credit Not_empty (ts ! i) \<le> credits Not_empty ts" using i by (intro credits_ge) simp
    ultimately show ?thesis using cr [of Not_empty] ne [OF False] by (auto simp: max_def split: if_splits)
  qed (use ne_w in simp)
  moreover have "(\<exists>t\<in>set (ts[i := x]). announces t) \<or> mx \<le> length q' + credits Not_full (ts[i := x])"
    if "t \<in> set (ts[i := x])" "waits Not_full t" for t
  proof (cases "waits Not_full x \<or> announces x")
    case True
    then show ?thesis using nf_w i set_update_memI [of i ts x] by auto
  next
    case False
    with w [OF that] have ex: "\<exists>t\<in>set ts. waits Not_full t" by blast
    with inv have or: "(\<exists>t\<in>set ts. announces t) \<or> mx \<le> length q + credits Not_full ts"
      by (auto simp: wake_inv_def)
    from False nf ex have n: "\<not> announces (ts ! i)"
      "mx \<le> length q' \<or> length q + credit Not_full (ts ! i) \<le> length q' + credit Not_full x" by auto
    from or show ?thesis
    proof
      assume "\<exists>t\<in>set ts. announces t"
      then obtain t where "t \<in> set ts" "announces t" by blast
      with n(1) mem_update [OF i, of t x] show ?thesis by auto
    next
      assume "mx \<le> length q + credits Not_full ts"
      with n(2) cr [of Not_full] show ?thesis by auto
    qed
  qed
  ultimately show ?thesis using ty b unfolding wake_inv_def by blast
qed

text \<open>A step that keeps the deque and takes nothing away that is still owed to a waiting thread.\<close>

lemma wake_inv_mono:
  assumes inv: "wake_inv mx q ts" and ty: "\<forall>t\<in>set ts'. typed t"
    and c: "\<And>c. \<exists>t\<in>set ts'. waits c t \<Longrightarrow> (\<exists>t\<in>set ts. waits c t) \<and> credits c ts \<le> credits c ts'"
    and a: "\<exists>t\<in>set ts'. waits Not_full t \<Longrightarrow> \<exists>t\<in>set ts. announces t \<Longrightarrow> \<exists>t\<in>set ts'. announces t"
  shows "wake_inv mx q ts'"
  unfolding wake_inv_def
proof (intro conjI impI)
  show "length q \<le> mx" using inv by (simp add: wake_inv_def)
  show "\<forall>t\<in>set ts'. typed t" by (rule ty)
next
  assume "\<exists>t\<in>set ts'. waits Not_empty t"
  from c [OF this] inv show "length q \<le> credits Not_empty ts'" by (auto simp: wake_inv_def)
next
  assume w: "\<exists>t\<in>set ts'. waits Not_full t"
  from c [OF w] inv have "(\<exists>t\<in>set ts. announces t) \<or> mx \<le> length q + credits Not_full ts"
    by (auto simp: wake_inv_def)
  with c [OF w] a [OF w] show "(\<exists>t\<in>set ts'. announces t) \<or> mx \<le> length q + credits Not_full ts'" by auto
qed

lemma wake_inv_replace:
  assumes inv: "wake_inv mx q ts" and i: "i < length ts" and x: "typed x"
    and c: "\<And>c. \<not> waits c x \<and> ((\<exists>t\<in>set ts. waits c t) \<longrightarrow> credit c (ts ! i) \<le> credit c x)"
    and a: "(\<forall>t\<in>set ts. \<not> waits Not_full t) \<or> (announces (ts ! i) \<longrightarrow> announces x)"
  shows "wake_inv mx q (ts[i := x])"
proof (rule wake_inv_mono [OF inv])
  show "\<forall>t\<in>set (ts[i := x]). typed t"
    using inv x set_update [OF i, of x] by (auto simp: wake_inv_def)
next
  fix c' assume "\<exists>t\<in>set (ts[i := x]). waits c' t"
  with c [of c'] set_update [OF i, of x] have "\<exists>t\<in>set ts. waits c' t" by auto
  with c [of c'] credits_update [OF i, of c' x]
  show "(\<exists>t\<in>set ts. waits c' t) \<and> credits c' ts \<le> credits c' (ts[i := x])" by auto
next
  assume w: "\<exists>t\<in>set (ts[i := x]). waits Not_full t" and "\<exists>t\<in>set ts. announces t"
  then obtain t where t: "t \<in> set ts" "announces t" by blast
  from w c [of Not_full] set_update [OF i, of x] a have "announces (ts ! i) \<longrightarrow> announces x" by auto
  with t mem_update [OF i t(1), of x] set_update_memI [OF i, of x]
  show "\<exists>t\<in>set (ts[i := x]). announces t" by (cases "t = ts ! i") auto
qed

lemma wake_simps [simp]:
  "typed (wake c t) = typed t" "announces (wake c t) = announces t" "waits c' (wake c t) \<longleftrightarrow> c' \<noteq> c \<and> waits c' t"
  "credit c' t \<le> credit c' (wake c t)"
  by (cases t; auto)+

lemma credits_wake: "credits c' ts \<le> credits c' (map (wake c) ts)"
  unfolding credits_def map_map comp_def by (rule sum_list_mono) simp

lemma wake_inv_wake: "wake_inv mx q ts \<Longrightarrow> wake_inv mx q (map (wake c) ts)"
proof (rule wake_inv_mono)
  assume "wake_inv mx q ts"
  then show "\<forall>t\<in>set (map (wake c) ts). typed t" by (auto simp: wake_inv_def)
  show "(\<exists>t\<in>set ts. waits c' t) \<and> credits c' ts \<le> credits c' (map (wake c) ts)"
    if "\<exists>t\<in>set (map (wake c) ts). waits c' t" for c' using that credits_wake by auto
qed auto

lemma no_waits_after_wake: "\<forall>t\<in>set (map (wake c) ts). \<not> waits c t"
  by auto

lemma wake_inv_signal:
  assumes inv: "wake_inv mx q ts" and i: "i < length ts" "ts ! i = Notify (Signal c # ns)"
    and j: "j < length ts" "ts ! j = Waiting c op"
  shows "wake_inv mx q (ts[j := Woken c op, i := Notify ns])"
proof (rule wake_inv_mono [OF inv])
  have ij: "i \<noteq> j" using i j by auto
  let ?ts = "ts[j := Woken c op, i := Notify ns]"
  have sub: "set ?ts \<subseteq> insert (Notify ns) (insert (Woken c op) (set ts))"
    using set_update [of i "ts[j := Woken c op]" "Notify ns"] set_update [OF j(1), of "Woken c op"] i(1) by auto
  have jm: "ts ! j \<in> set ts" using j(1) by (rule nth_mem)
  have "typed (Waiting c op)" using inv jm j(2) by (auto simp: wake_inv_def)
  then have "typed (Woken c op)" by simp
  with inv sub show "\<forall>t\<in>set ?ts. typed t" by (auto simp: wake_inv_def)
  show "(\<exists>t\<in>set ts. waits c' t) \<and> credits c' ts \<le> credits c' ?ts" if "\<exists>t\<in>set ?ts. waits c' t" for c'
    using that sub credits_update [OF j(1), of c' "Woken c op"]
      credits_update [of i "ts[j := Woken c op]" c' "Notify ns"] i j ij by (cases "c' = c") auto
  show "\<exists>t\<in>set ?ts. announces t" if "\<exists>t\<in>set ts. announces t"
  proof -
    from that obtain t where t: "t \<in> set ts" "announces t" by blast
    have "t \<noteq> ts ! j" using t j by auto
    with t have t1: "t \<in> set (ts[j := Woken c op])" using mem_update [OF j(1)] by blast
    show ?thesis
    proof (cases "t = ts ! i")
      case True
      with t i have "announces (Notify ns)" by simp
      moreover have "Notify ns \<in> set ?ts" using i(1) by (simp add: set_update_memI)
      ultimately show ?thesis by blast
    next
      case False
      with t1 t mem_update [of i "ts[j := Woken c op]" t "Notify ns"] i(1) ij show ?thesis by auto
    qed
  qed
qed

lemma wake_inv_leave:
  assumes inv: "wake_inv mx q ts" and i: "i < length ts"
    and t: "ts ! i = Enter op \<or> (\<exists>c. ts ! i = Woken c op)"
    and l: "critical mx w op q = Leave r q' inside after"
  shows "wake_inv mx q' ((broadcasts inside ts)[i := Notify after])"
proof -
  have b: "length q \<le> mx" and ty: "typed (ts ! i)" using inv i by (auto simp: wake_inv_def)
  note cl = critical_leaves [OF l b]
  have op: "op_cond op = Some c" if "ts ! i = Woken c op" for c using ty that by simp
  consider "inside = []" | "inside = [Broadcast Not_full]" using cl(2) by blast
  then obtain ts0 where ts0: "ts0 = broadcasts inside ts" "wake_inv mx q ts0" "length ts0 = length ts" "ts0 ! i = ts ! i"
    "inside = [Broadcast Not_full] \<Longrightarrow> \<forall>t\<in>set ts0. \<not> waits Not_full t"
  proof cases
    case 1
    then show ?thesis using inv that [of ts] by (simp add: broadcasts_def)
  next
    case 2
    have "wake Not_full (ts ! i) = ts ! i" using t by auto
    with 2 show ?thesis
      using wake_inv_wake [OF inv, of Not_full] i no_waits_after_wake [of Not_full ts]
      by (intro that [of "map (wake Not_full) ts"]) (auto simp: broadcasts_def)
  qed
  have i0: "i < length ts0" using i ts0(3) by simp
  have "wake_inv mx q' (ts0[i := Notify after])"
  proof (rule wake_inv_update [OF ts0(2) i0 _ cl(1)])
    show "length q' + credit Not_empty (ts0 ! i) \<le> max (credit Not_empty (ts0 ! i)) (length q + credit Not_empty (Notify after))"
      using t cl(3,4) op ts0(4) by (auto simp: max_def split: if_splits)
    show "(\<forall>t\<in>set ts0. \<not> waits Not_full t) \<or> announces (Notify after) \<or>
        announces (ts0 ! i) = announces (Notify after) \<and>
        (mx \<le> length q' \<or> length q + credit Not_full (ts0 ! i) \<le> length q' + credit Not_full (Notify after))"
      using t cl(5,6) op ts0(4,5) by (cases "op_cond op = Some Not_full") (auto split: if_splits)
  qed auto
  then show ?thesis by (simp add: ts0(1))
qed

lemma wake_inv_step:
  assumes "bq_step mx s s'" "wake_inv mx (m_queue s) (bq_threads s)"
  shows "wake_inv mx (m_queue s') (bq_threads s')"
  using assms
proof (cases rule: bq_step.cases)
  case (call i op)
  with assms(2) show ?thesis by (auto intro!: wake_inv_replace)
next
  case (wait i op w c0 c)
  note cw = critical_waits [OF wait(4)]
  have "typed (bq_threads s ! i)" using assms(2) nth_mem [OF wait(2)] unfolding wake_inv_def by blast
  with wait(3) cw have old: "bq_threads s ! i = Enter op \<or> bq_threads s ! i = Woken c0 op \<and> c0 = c" by auto
  have "wake_inv mx (m_queue s) ((bq_threads s)[i := Waiting c op])"
  proof (rule wake_inv_update [OF assms(2) wait(2)])
    show "length (m_queue s) \<le> mx" using assms(2) by (simp add: wake_inv_def)
  qed (use old cw in \<open>auto split: if_splits\<close>)
  with wait(1) show ?thesis by simp
next
  case (leave i op w c0 r q inside after)
  with wake_inv_leave [OF assms(2) leave(2) _ leave(4)] show ?thesis by auto
next
  case (signal i c ns j op)
  with wake_inv_signal [OF assms(2) signal(2,3,4,5)] show ?thesis by simp
next
  case (signal_none i c ns)
  then have "\<forall>t\<in>set (bq_threads s). \<not> waits c t" by (auto elim: waits.elims)
  with signal_none assms(2) show ?thesis by (auto intro!: wake_inv_replace)
next
  case (broadcast i c ns)
  have w: "wake_inv mx (m_queue s) (map (wake c) (bq_threads s))" using assms(2) by (rule wake_inv_wake)
  have "wake_inv mx (m_queue s) ((map (wake c) (bq_threads s))[i := Notify ns])"
    using broadcast by (intro wake_inv_replace [OF w]) (auto split: bq_cond.splits)
  with broadcast show ?thesis by simp
next
  case (return i)
  with assms(2) show ?thesis by (auto intro!: wake_inv_replace)
next
  case (spurious i c op)
  then have "typed (Waiting c op)" using assms(2) nth_mem [OF spurious(2)] by (auto simp: wake_inv_def)
  with spurious assms(2) show ?thesis by (auto intro!: wake_inv_replace)
qed

lemma wake_inv_reach: "bq_reach mx n s \<Longrightarrow> wake_inv mx (m_queue s) (bq_threads s)"
proof (induction rule: bq_reach.induct)
  case init
  show ?case by (auto simp: wake_inv_def)
next
  case (step s s')
  then show ?case using wake_inv_step by blast
qed

section \<open>Properties\<close>

text \<open>
  C6. The queue is linearizable to a bounded deque and never holds more than \<open>m_max_elements\<close>
  elements: in every state that threads can reach by calling its methods in any interleaving, running
  the completed calls one after another in the order of their critical sections through the
  sequential specification gives exactly the values they returned and the present contents.
\<close>

theorem blocking_queue_linearizable:
  "bq_reach mx n s \<Longrightarrow> replay mx (bq_hist s) [] = Some (m_queue s) \<and> length (m_queue s) \<le> mx"
  by (simp add: bq_replay bq_bound)

text \<open>
  C8. First in, first out: when only the back is pushed and only the front is popped (one element or
  all at once, blocking, trying or timed), the values popped so far, followed by the contents of the
  queue, are the values pushed so far, in that order: nothing is lost, duplicated or overtaken.
\<close>

theorem blocking_queue_fifo:
  assumes "bq_reach mx n s" "\<forall>(op, r)\<in>set (bq_hist s). fifo_op op"
  shows "concat (map took (bq_hist s)) @ m_queue s = concat (map put_back (bq_hist s))"
  using replay_fifo [OF bq_replay [OF assms(1)] assms(2)] by simp

text \<open>
  C7. No wake-up is lost: when every thread is idle or waits (nobody holds a signal back, nobody is
  about to try again), a thread waits for an element only if the queue is empty, and waits for room
  only if the queue is full.
\<close>

theorem blocking_queue_no_lost_wakeup:
  assumes "bq_reach mx n s" "\<forall>t\<in>set (bq_threads s). t = Idle \<or> (\<exists>c op. t = Waiting c op)"
  shows "(Waiting Not_empty op \<in> set (bq_threads s) \<longrightarrow> m_queue s = []) \<and>
         (Waiting Not_full op \<in> set (bq_threads s) \<longrightarrow> length (m_queue s) = mx)"
proof -
  have z: "credits c (bq_threads s) = 0" for c
    using assms(2) unfolding credits_def by (auto simp: sum_list_eq_0_iff)
  have a: "\<not> announces t" if "t \<in> set (bq_threads s)" for t using that assms(2) by auto
  from wake_inv_reach [OF assms(1)] have inv: "length (m_queue s) \<le> mx"
    "(\<exists>t\<in>set (bq_threads s). waits Not_empty t) \<longrightarrow> length (m_queue s) \<le> 0"
    "(\<exists>t\<in>set (bq_threads s). waits Not_full t) \<longrightarrow> mx \<le> length (m_queue s)"
    using a by (auto simp: wake_inv_def z)
  have "waits c (Waiting c op)" for c by simp
  with inv show ?thesis by (metis le_antisym le_zero_eq length_0_conv)
qed

text \<open>One thread that has pushed, and one that waits for an element.\<close>

lemma bq_sample_push:
  "bq_reach 1 1 \<lparr>m_queue = [7 :: nat], bq_threads = [Notify [Signal Not_empty]], bq_hist = [(Op_PushBack 7, Void)]\<rparr>"
proof -
  let ?s0 = "\<lparr>m_queue = [], bq_threads = replicate 1 Idle, bq_hist = []\<rparr> :: nat bq_state"
  have "bq_step 1 ?s0 (?s0\<lparr>bq_threads := (bq_threads ?s0)[0 := Enter (Op_PushBack 7)]\<rparr>)"
    by (rule bq_step.call) simp_all
  then have r: "bq_reach 1 1 \<lparr>m_queue = [], bq_threads = [Enter (Op_PushBack (7 :: nat))], bq_hist = []\<rparr>"
    using bq_reach.step [OF bq_reach.init] by fastforce
  let ?s1 = "\<lparr>m_queue = [], bq_threads = [Enter (Op_PushBack 7)], bq_hist = []\<rparr> :: nat bq_state"
  have "bq_step 1 ?s1 (?s1\<lparr>m_queue := [7], bq_threads := (broadcasts [] (bq_threads ?s1))[0 := Notify [Signal Not_empty]],
      bq_hist := bq_hist ?s1 @ [(Op_PushBack 7, Void)]\<rparr>)"
    by (rule bq_step.leave [where w = False and op = "Op_PushBack 7"]) (simp_all add: PushBack_def UnlockedIsFull_def)
  from bq_reach.step [OF r this] show ?thesis by (simp add: broadcasts_def)
qed

theorem blocking_queue_linearizable_witness:
  "replay 1 [(Op_PushBack (7 :: nat), Void)] [] = Some [7] \<and> length [7 :: nat] \<le> 1"
  using blocking_queue_linearizable [OF bq_sample_push] by simp

theorem blocking_queue_fifo_witness:
  "concat (map took [(Op_PushBack (7 :: nat), Void)]) @ [7] = concat (map put_back [(Op_PushBack 7, Void)])"
  using blocking_queue_fifo [OF bq_sample_push] by simp

lemma bq_sample_wait:
  "bq_reach 1 1 \<lparr>m_queue = [] :: nat list, bq_threads = [Waiting Not_empty Op_PopFront], bq_hist = []\<rparr>"
proof -
  let ?s0 = "\<lparr>m_queue = [], bq_threads = replicate 1 Idle, bq_hist = []\<rparr> :: nat bq_state"
  have "bq_step 1 ?s0 (?s0\<lparr>bq_threads := (bq_threads ?s0)[0 := Enter Op_PopFront]\<rparr>)"
    by (rule bq_step.call) simp_all
  then have r: "bq_reach 1 1 \<lparr>m_queue = [] :: nat list, bq_threads = [Enter Op_PopFront], bq_hist = []\<rparr>"
    using bq_reach.step [OF bq_reach.init] by fastforce
  let ?s1 = "\<lparr>m_queue = [], bq_threads = [Enter Op_PopFront], bq_hist = []\<rparr> :: nat bq_state"
  have "bq_step 1 ?s1 (?s1\<lparr>bq_threads := (bq_threads ?s1)[0 := Waiting Not_empty Op_PopFront]\<rparr>)"
    by (rule bq_step.wait [where w = False]) (simp_all add: PopFront_def)
  from bq_reach.step [OF r this] show ?thesis by simp
qed

theorem blocking_queue_no_lost_wakeup_witness:
  "m_queue (\<lparr>m_queue = [], bq_threads = [Waiting Not_empty Op_PopFront], bq_hist = []\<rparr> :: nat bq_state) = [] \<and>
   Waiting Not_full Op_PopFront \<notin> set [Waiting Not_empty (Op_PopFront :: nat bq_op)]"
  using blocking_queue_no_lost_wakeup [OF bq_sample_wait, of Op_PopFront] by simp

end
