(* ===== verification/Session_Cache.thy ===== *)
theory Session_Cache
  imports Prelude
begin

text \<open>
  \<open>SessionCache\<close> (\<open>source/transport/session_cache.h\<close>): a \<open>std::map\<close> from keys to iterators of a
  \<open>std::list\<close> of nodes in the order of their insertion. A list node has an identity (the number
  \<open>next_node\<close> hands out), an iterator is that number, and using one whose node is gone is the error
  \<open>Dangling\<close>; \<open>TMutex\<close> is not recursive, so that taking it twice in one call is \<open>Deadlock\<close>; a
  failed \<open>assert\<close> is \<open>Assertion\<close>. \<open>time(NULL)\<close> is the argument \<open>now\<close>. The theory ends with the
  contract of a session store as a locale, which the clients of the cache build on.
\<close>

datatype cache_error = Deadlock | Dangling | Assertion

record ('k, 'v) session_node =
  node_value :: 'v
  node_key :: 'k
  timestamp :: int

record ('k, 'v) session_cache =
  m_mutex_held :: bool
  m_timeout :: int
  m_max_size :: nat
  m_map :: "'k \<rightharpoonup> nat"
  m_list :: "(nat \<times> ('k, 'v) session_node) list"
  next_node :: nat

type_synonym ('k, 'v, 'r) cache_op = "('k, 'v) session_cache \<Rightarrow> cache_error + 'r \<times> ('k, 'v) session_cache"

section \<open>Operations\<close>

text \<open>A method body under \<open>AutoLocker lock(&m_mutex)\<close>.\<close>

definition locked :: "('k, 'v, 'r) cache_op \<Rightarrow> ('k, 'v, 'r) cache_op" where
  "locked body s =
     (if m_mutex_held s then Inl Deadlock
      else bind_result (body (s\<lparr>m_mutex_held := True\<rparr>)) (\<lambda>(r, s'). Inr (r, s'\<lparr>m_mutex_held := False\<rparr>)))"

definition erase :: "nat \<Rightarrow> (nat \<times> 'n) list \<Rightarrow> (nat \<times> 'n) list" where
  "erase i l = filter (\<lambda>(j, n). j \<noteq> i) l"

definition SessionCache_new :: "int \<Rightarrow> ('k, 'v) session_cache" where
  "SessionCache_new timeout =
     \<lparr>m_mutex_held = False, m_timeout = timeout, m_max_size = 100, m_map = Map.empty, m_list = [], next_node = 0\<rparr>"

definition SetTimeout :: "int \<Rightarrow> ('k, 'v) session_cache \<Rightarrow> ('k, 'v) session_cache" where
  "SetTimeout timeout s = (if 0 < timeout then s\<lparr>m_timeout := timeout\<rparr> else s)"

definition SetMaxSize :: "nat \<Rightarrow> ('k, 'v) session_cache \<Rightarrow> ('k, 'v) session_cache" where
  "SetMaxSize max_size s = s\<lparr>m_max_size := max_size\<rparr>"

definition ClearAll :: "('k, 'v, unit) cache_op" where
  "ClearAll = locked (\<lambda>s. Inr ((), s\<lparr>m_list := [], m_map := Map.empty\<rparr>))"

definition cache_Size :: "('k, 'v, nat) cache_op" where
  "cache_Size = locked (\<lambda>s.
     if length (m_list s) \<noteq> card (dom (m_map s)) then Inl Assertion else Inr (card (dom (m_map s)), s))"

text \<open>The loop that removes nodes from the front of the list as long as they are too old.\<close>

fun clear_loop :: "int \<Rightarrow> int \<Rightarrow> (nat \<times> ('k, 'v) session_node) list \<Rightarrow> ('k \<rightharpoonup> nat) \<Rightarrow>
    (nat \<times> ('k, 'v) session_node) list \<times> ('k \<rightharpoonup> nat) \<times> ('k, 'v) session_node list" where
  "clear_loop curtime timeout [] m = ([], m, [])"
| "clear_loop curtime timeout ((i, n) # l) m =
     (if curtime - timestamp n < timeout then ((i, n) # l, m, [])
      else let (l', m', removed) = clear_loop curtime timeout l (m(node_key n := None))
           in (l', m', n # removed))"

definition clear_old :: "int \<Rightarrow> int \<Rightarrow> ('k, 'v) session_cache \<Rightarrow> ('k, 'v) session_node list \<times> ('k, 'v) session_cache" where
  "clear_old now timeout s =
     (let (l, m, removed) = clear_loop now timeout (m_list s) (m_map s) in (removed, s\<lparr>m_list := l, m_map := m\<rparr>))"

definition AutoClearTimeout :: "int \<Rightarrow> ('k, 'v) session_cache \<Rightarrow> ('k, 'v) session_cache" where
  "AutoClearTimeout now s =
     (if card (dom (m_map s)) \<le> m_max_size s then s else snd (clear_old now (m_timeout s) s))"

definition PushSession :: "int \<Rightarrow> 'k \<Rightarrow> 'v \<Rightarrow> ('k, 'v, bool) cache_op" where
  "PushSession now key val = locked (\<lambda>s0.
     let s = AutoClearTimeout now s0
     in if m_map s key = None
        then
          let node = \<lparr>node_value = val, node_key = key, timestamp = now\<rparr>; listIt = next_node s
          in Inr (True, s\<lparr>m_list := m_list s @ [(listIt, node)], m_map := (m_map s)(key \<mapsto> listIt),
                          next_node := Suc listIt\<rparr>)
        else Inr (False, s))"

definition FindSession :: "'k \<Rightarrow> ('k, 'v, 'v option) cache_op" where
  "FindSession key = locked (\<lambda>s.
     case m_map s key of
       None \<Rightarrow> Inr (None, s)
     | Some it \<Rightarrow>
         (case map_of (m_list s) it of
            None \<Rightarrow> Inl Dangling
          | Some n \<Rightarrow> if node_key n \<noteq> key then Inl Assertion else Inr (Some (node_value n), s)))"

definition PopSession :: "'k \<Rightarrow> ('k, 'v, 'v option) cache_op" where
  "PopSession key = locked (\<lambda>s.
     case m_map s key of
       None \<Rightarrow> Inr (None, s)
     | Some it \<Rightarrow>
         (case map_of (m_list s) it of
            None \<Rightarrow> Inl Dangling
          | Some n \<Rightarrow>
              if node_key n \<noteq> key then Inl Assertion
              else Inr (Some (node_value n),
                        s\<lparr>m_list := erase it (m_list s), m_map := (m_map s)(key := None)\<rparr>)))"

definition DelSession :: "'k \<Rightarrow> ('k, 'v, bool) cache_op" where
  "DelSession key = locked (\<lambda>s.
     case m_map s key of
       None \<Rightarrow> Inr (False, s)
     | Some it \<Rightarrow>
         if map_of (m_list s) it = None then Inl Dangling
         else Inr (True, s\<lparr>m_list := erase it (m_list s), m_map := (m_map s)(key := None)\<rparr>))"

definition PopFirstSession :: "('k, 'v, ('k \<times> 'v) option) cache_op" where
  "PopFirstSession = locked (\<lambda>s.
     bind_result (cache_Size s) (\<lambda>(n, s).
       if n = 0 then Inr (None, s)
       else case m_list s of
              [] \<Rightarrow> Inl Dangling
            | (it, nd) # l \<Rightarrow>
                Inr (Some (node_key nd, node_value nd),
                     s\<lparr>m_map := (m_map s)(node_key nd := None), m_list := erase it (m_list s)\<rparr>)))"

definition ClearTimeout :: "int \<Rightarrow> ('k, 'v, unit) cache_op" where
  "ClearTimeout now = locked (\<lambda>s. Inr ((), snd (clear_old now (m_timeout s) s)))"

definition ClearTimeout_given :: "int \<Rightarrow> int \<Rightarrow> ('k, 'v, unit) cache_op" where
  "ClearTimeout_given now timeout = locked (\<lambda>s. Inr ((), snd (clear_old now timeout s)))"

text \<open>The overload that appends the removed values and keys to the caller's vectors.\<close>

definition ClearTimeout_collect ::
  "int \<Rightarrow> 'v list \<times> 'k list \<Rightarrow> ('k, 'v, 'v list \<times> 'k list) cache_op" where
  "ClearTimeout_collect now vecs = locked (\<lambda>s.
     let (removed, s') = clear_old now (m_timeout s) s
     in Inr ((fst vecs @ map node_value removed, snd vecs @ map node_key removed), s'))"

section \<open>Invariant and abstraction\<close>

text \<open>
  Map and list describe the same sessions: every node is entered under its key with its own iterator,
  every iterator of the map is the one of a node, and no two nodes have the same identity.
\<close>

definition cache_inv :: "('k, 'v) session_cache \<Rightarrow> bool" where
  "cache_inv s \<longleftrightarrow> \<not> m_mutex_held s \<and> distinct (map fst (m_list s)) \<and>
     (\<forall>(i, n)\<in>set (m_list s). i < next_node s \<and> m_map s (node_key n) = Some i) \<and>
     (\<forall>k i. m_map s k = Some i \<longrightarrow> (\<exists>n. (i, n) \<in> set (m_list s) \<and> node_key n = k))"

text \<open>The sessions in the order of their insertion, and the value saved under a key.\<close>

definition sessions :: "('k, 'v) session_cache \<Rightarrow> ('k \<times> 'v \<times> int) list" where
  "sessions s = map (\<lambda>(i, n). (node_key n, node_value n, timestamp n)) (m_list s)"

definition saved :: "('k, 'v) session_cache \<Rightarrow> 'k \<Rightarrow> 'v option" where
  "saved s k = map_option fst (map_of (sessions s) k)"

lemma inv_unlocked: "cache_inv s \<Longrightarrow> \<not> m_mutex_held s"
  by (simp add: cache_inv_def)

lemma inv_node: "cache_inv s \<Longrightarrow> (i, n) \<in> set (m_list s) \<Longrightarrow> m_map s (node_key n) = Some i \<and> i < next_node s"
  by (auto simp: cache_inv_def)

lemma inv_entry: "cache_inv s \<Longrightarrow> m_map s k = Some i \<Longrightarrow> \<exists>n. (i, n) \<in> set (m_list s) \<and> node_key n = k"
  by (auto simp: cache_inv_def)

lemma inv_map_of: "cache_inv s \<Longrightarrow> (i, n) \<in> set (m_list s) \<Longrightarrow> map_of (m_list s) i = Some n"
  by (simp add: cache_inv_def)

lemma sessions_fst: "map fst (sessions s) = map (\<lambda>(i, n). node_key n) (m_list s)"
  by (simp add: sessions_def comp_def split_def)

lemma inv_keys:
  assumes "cache_inv s"
  shows "distinct (map fst (sessions s))" "dom (m_map s) = set (map fst (sessions s))"
    "card (dom (m_map s)) = length (m_list s)"
proof -
  have d: "distinct (m_list s)" using assms by (auto simp: cache_inv_def distinct_map)
  have "inj_on (\<lambda>(i, n). node_key n) (set (m_list s))"
  proof (rule inj_onI, clarify)
    fix i n j n' assume a: "(i, n) \<in> set (m_list s)" "(j, n') \<in> set (m_list s)" "node_key n = node_key n'"
    from inv_node [OF assms a(1)] inv_node [OF assms a(2)] a(3) have "i = j" by simp
    with inv_map_of [OF assms a(1)] inv_map_of [OF assms a(2)] show "i = j \<and> n = n'" by simp
  qed
  with d show dk: "distinct (map fst (sessions s))" unfolding sessions_fst by (simp add: distinct_map)
  show dm: "dom (m_map s) = set (map fst (sessions s))"
  proof (rule set_eqI)
    fix k
    show "k \<in> dom (m_map s) \<longleftrightarrow> k \<in> set (map fst (sessions s))"
    proof
      assume "k \<in> dom (m_map s)"
      with inv_entry [OF assms, of k] obtain i n where "(i, n) \<in> set (m_list s)" "node_key n = k" by blast
      then show "k \<in> set (map fst (sessions s))" unfolding sessions_fst by force
    next
      assume "k \<in> set (map fst (sessions s))"
      then obtain i n where "(i, n) \<in> set (m_list s)" "node_key n = k" unfolding sessions_fst by auto
      with inv_node [OF assms] show "k \<in> dom (m_map s)" by blast
    qed
  qed
  show "card (dom (m_map s)) = length (m_list s)"
    unfolding dm distinct_card [OF dk] by (simp add: sessions_def)
qed

lemma saved_Some:
  assumes "cache_inv s"
  shows "saved s k = Some v \<longleftrightarrow> (\<exists>i n. (i, n) \<in> set (m_list s) \<and> node_key n = k \<and> node_value n = v)"
proof -
  have "saved s k = Some v \<longleftrightarrow> (\<exists>t. (k, v, t) \<in> set (sessions s))"
    using inv_keys(1) [OF assms] by (auto simp: saved_def)
  then show ?thesis by (force simp: sessions_def)
qed

lemma saved_None: "cache_inv s \<Longrightarrow> saved s k = None \<longleftrightarrow> m_map s k = None"
  using inv_keys(2) [of s] by (simp add: saved_def map_of_eq_None_iff flip: dom_map_of_conv_image_fst) (metis domIff dom_map_of_conv_image_fst image_set)

lemma saved_node:
  assumes "cache_inv s" "m_map s k = Some i"
  obtains n where "map_of (m_list s) i = Some n" "node_key n = k" "saved s k = Some (node_value n)" "(i, n) \<in> set (m_list s)"
proof -
  from inv_entry [OF assms] obtain n where n: "(i, n) \<in> set (m_list s)" "node_key n = k" by blast
  with inv_map_of [OF assms(1)] saved_Some [OF assms(1)] that show ?thesis by blast
qed

section \<open>Every operation keeps the invariant\<close>

lemma erase_sessions:
  assumes "cache_inv s" "(i, n) \<in> set (m_list s)"
  shows "map (\<lambda>(i, n). (node_key n, node_value n, timestamp n)) (erase i (m_list s)) =
     filter (\<lambda>(k, v). k \<noteq> node_key n) (sessions s)"
proof -
  have "filter (\<lambda>(j, m). j \<noteq> i) (m_list s) = filter (\<lambda>(j, m). node_key m \<noteq> node_key n) (m_list s)"
  proof (rule filter_cong [OF refl], clarify)
    fix j m assume "(j, m) \<in> set (m_list s)"
    with assms inv_node [OF assms(1)] inv_map_of [OF assms(1)] show "(j \<noteq> i) = (node_key m \<noteq> node_key n)"
      by (metis option.inject)
  qed
  then show ?thesis by (simp add: erase_def sessions_def filter_map comp_def split_def)
qed

lemma inv_erase:
  assumes "cache_inv s" "(i, n) \<in> set (m_list s)"
  shows "cache_inv (s\<lparr>m_list := erase i (m_list s), m_map := (m_map s)(node_key n := None)\<rparr>)"
proof -
  have "distinct (map fst (erase i (m_list s)))"
    using assms(1) by (simp add: cache_inv_def erase_def distinct_map_filter)
  moreover have "m_map s (node_key m) = Some j \<and> j < next_node s \<and> node_key m \<noteq> node_key n"
    if "(j, m) \<in> set (m_list s)" "j \<noteq> i" for j m
    using inv_node [OF assms(1) that(1)] inv_node [OF assms(1,2)] that(2) by auto
  moreover have "\<exists>m. (j, m) \<in> set (erase i (m_list s)) \<and> node_key m = k"
    if "m_map s k = Some j" "k \<noteq> node_key n" for k j
  proof -
    from inv_entry [OF assms(1) that(1)] obtain m where "(j, m) \<in> set (m_list s)" "node_key m = k" by blast
    moreover from this that(2) inv_map_of [OF assms(1), of j] inv_map_of [OF assms] have "j \<noteq> i" by auto
    ultimately show ?thesis by (auto simp: erase_def)
  qed
  ultimately show ?thesis
    using assms(1) by (auto simp: cache_inv_def erase_def)
qed

definition old_node :: "int \<Rightarrow> int \<Rightarrow> nat \<times> ('k, 'v) session_node \<Rightarrow> bool" where
  "old_node now timeout x \<longleftrightarrow> timeout \<le> now - timestamp (snd x)"

lemma clear_loop_eq:
  "clear_loop now timeout l m =
     (dropWhile (old_node now timeout) l,
      (\<lambda>k. if k \<in> node_key ` snd ` set (takeWhile (old_node now timeout) l) then None else m k),
      map snd (takeWhile (old_node now timeout) l))"
proof (induction l arbitrary: m)
  case (Cons x l)
  obtain i n where x: "x = (i, n)" by (cases x)
  show ?case
  proof (cases "old_node now timeout x")
    case True
    then have "clear_loop now timeout (x # l) m =
        (let (l', m', removed) = clear_loop now timeout l (m(node_key n := None)) in (l', m', n # removed))"
      by (simp add: x old_node_def)
    with True Cons show ?thesis by (auto simp: x)
  next
    case False
    then show ?thesis by (simp add: x old_node_def)
  qed
qed simp

lemma clear_old_spec:
  assumes inv: "cache_inv s" and c: "clear_old now timeout s = (removed, s')"
  shows "cache_inv s'" "sessions s' = dropWhile (\<lambda>(k, v, t). timeout \<le> now - t) (sessions s)"
    "map (\<lambda>n. (node_key n, node_value n, timestamp n)) removed = takeWhile (\<lambda>(k, v, t). timeout \<le> now - t) (sessions s)"
proof -
  let ?T = "takeWhile (old_node now timeout) (m_list s)" and ?D = "dropWhile (old_node now timeout) (m_list s)"
  have s': "s' = s\<lparr>m_list := ?D, m_map := (\<lambda>k. if k \<in> node_key ` snd ` set ?T then None else m_map s k)\<rparr>"
    and rm: "removed = map snd ?T"
    using c by (auto simp: clear_old_def clear_loop_eq)
  have td: "m_list s = ?T @ ?D" by simp
  have f: "(\<lambda>(i, n). node_key n) = node_key \<circ> snd" by auto
  have "distinct (map (node_key \<circ> snd) (?T @ ?D))"
    using inv_keys(1) [OF inv] unfolding sessions_fst f by (simp only: takeWhile_dropWhile_id)
  then have "(node_key \<circ> snd) ` set ?T \<inter> (node_key \<circ> snd) ` set ?D = {}"
    unfolding map_append distinct_append set_map by blast
  then have disj: "node_key n \<notin> node_key ` snd ` set ?T" if "(i, n) \<in> set ?D" for i n
    using that by (force simp: image_comp)
  have sub: "set ?D \<subseteq> set (m_list s)" using set_dropWhileD by force
  have "distinct (map fst (?T @ ?D))" using inv by (simp only: cache_inv_def takeWhile_dropWhile_id)
  then have "distinct (map fst ?D)" unfolding map_append distinct_append by blast
  moreover have "\<exists>n. (i, n) \<in> set ?D \<and> node_key n = k"
    if "m_map s k = Some i" "k \<notin> node_key ` snd ` set ?T" for k i
  proof -
    from inv_entry [OF inv that(1)] obtain n where n: "(i, n) \<in> set (m_list s)" "node_key n = k" by blast
    with that(2) have "(i, n) \<notin> set ?T" by force
    with n td show ?thesis by (metis Un_iff set_append)
  qed
  moreover have "i < next_node s \<and> node_key n \<notin> node_key ` snd ` set ?T \<and> m_map s (node_key n) = Some i"
    if "(i, n) \<in> set ?D" for i n using that disj inv_node [OF inv, of i n] sub by blast
  moreover have "\<not> m_mutex_held s" using inv by (rule inv_unlocked)
  ultimately show "cache_inv s'"
    unfolding cache_inv_def s' by (simp split: prod.splits) blast
  have o: "(\<lambda>(k, v, t). timeout \<le> now - t) \<circ> (\<lambda>(i, n). (node_key n, node_value n, timestamp n)) = old_node now timeout"
    by (auto simp: old_node_def fun_eq_iff)
  show "sessions s' = dropWhile (\<lambda>(k, v, t). timeout \<le> now - t) (sessions s)"
    by (simp add: sessions_def s' dropWhile_map o)
  show "map (\<lambda>n. (node_key n, node_value n, timestamp n)) removed = takeWhile (\<lambda>(k, v, t). timeout \<le> now - t) (sessions s)"
    by (simp add: sessions_def rm takeWhile_map comp_def split_def old_node_def [abs_def])
qed

lemma AutoClear_spec:
  assumes "cache_inv s"
  shows "cache_inv (AutoClearTimeout now s)"
    "sessions (AutoClearTimeout now s) = (if length (sessions s) \<le> m_max_size s then sessions s
       else dropWhile (\<lambda>(k, v, t). m_timeout s \<le> now - t) (sessions s))"
  using assms clear_old_spec(1,2) [OF assms, of now "m_timeout s"] inv_keys(3) [OF assms]
  by (cases "clear_old now (m_timeout s) s"; simp add: AutoClearTimeout_def sessions_def)+

section \<open>Refinement of the list of sessions\<close>

text \<open>The lock is taken and released around a body that does not take it itself.\<close>

lemma inv_mutex: "cache_inv (s\<lparr>m_mutex_held := False\<rparr>) \<longleftrightarrow> cache_inv s" if "\<not> m_mutex_held s"
  using that by (cases s) simp

lemma locked_free:
  assumes "\<not> m_mutex_held s" "\<And>h. body (s\<lparr>m_mutex_held := h\<rparr>) = bind_result (body s) (\<lambda>(r, t). Inr (r, t\<lparr>m_mutex_held := h\<rparr>))"
    "\<And>r t. body s = Inr (r, t) \<Longrightarrow> \<not> m_mutex_held t"
  shows "locked body s = body s"
  using assms by (cases "body s") (auto simp: locked_def)

lemma AutoClear_mutex:
  "AutoClearTimeout now (s\<lparr>m_mutex_held := h\<rparr>) = (AutoClearTimeout now s)\<lparr>m_mutex_held := h\<rparr>"
  "m_mutex_held (AutoClearTimeout now s) = m_mutex_held s"
  by (auto simp: AutoClearTimeout_def clear_old_def clear_loop_eq)

lemma PushSession_spec:
  assumes "cache_inv s"
  shows "\<exists>b s'. PushSession now k v s = Inr (b, s') \<and> cache_inv s' \<and>
     (let l = sessions (AutoClearTimeout now s)
      in b = (k \<notin> fst ` set l) \<and> sessions s' = (if b then l @ [(k, v, now)] else l))"
proof -
  let ?s = "AutoClearTimeout now s"
  have inv: "cache_inv ?s" by (rule AutoClear_spec(1) [OF assms])
  note u = inv_unlocked [OF assms]
  have e: "PushSession now k v s = (if m_map ?s k = None
      then Inr (True, ?s\<lparr>m_list := m_list ?s @ [(next_node ?s, \<lparr>node_value = v, node_key = k, timestamp = now\<rparr>)],
        m_map := (m_map ?s)(k \<mapsto> next_node ?s), next_node := Suc (next_node ?s)\<rparr>)
      else Inr (False, ?s))"
    unfolding PushSession_def using u
    by (subst locked_free) (auto simp: AutoClear_mutex Let_def split: if_splits)
  have k: "m_map ?s k = None \<longleftrightarrow> k \<notin> fst ` set (sessions ?s)"
    using inv_keys(2) [OF inv] by (metis domIff image_set)
  show ?thesis
  proof (cases "m_map ?s k = None")
    case True
    have "cache_inv (?s\<lparr>m_list := m_list ?s @ [(next_node ?s, \<lparr>node_value = v, node_key = k, timestamp = now\<rparr>)],
        m_map := (m_map ?s)(k \<mapsto> next_node ?s), next_node := Suc (next_node ?s)\<rparr>)"
      using inv True by (fastforce simp: cache_inv_def)
    with True e k show ?thesis by (intro exI [of _ True]) (simp add: sessions_def)
  next
    case False
    with e k inv show ?thesis by (intro exI [of _ False]) simp
  qed
qed

lemma PopSession_spec:
  assumes "cache_inv s"
  shows "\<exists>s'. PopSession k s = Inr (saved s k, s') \<and> cache_inv s' \<and>
     sessions s' = filter (\<lambda>(k', v). k' \<noteq> k) (sessions s)"
proof -
  note u = inv_unlocked [OF assms]
  have e: "PopSession k s = (case m_map s k of None \<Rightarrow> Inr (None, s) | Some it \<Rightarrow>
       (case map_of (m_list s) it of None \<Rightarrow> Inl Dangling
        | Some n \<Rightarrow> if node_key n \<noteq> k then Inl Assertion
            else Inr (Some (node_value n), s\<lparr>m_list := erase it (m_list s), m_map := (m_map s)(k := None)\<rparr>)))"
    unfolding PopSession_def using u
    by (subst locked_free) (auto split: option.splits if_splits)
  show ?thesis
  proof (cases "m_map s k")
    case None
    then have "saved s k = None" using saved_None [OF assms] by blast
    moreover from None inv_keys(2) [OF assms] have "filter (\<lambda>(k', v). k' \<noteq> k) (sessions s) = sessions s"
      by (auto simp: filter_id_conv) (metis domIff fst_conv image_eqI)
    ultimately show ?thesis using None e assms by simp
  next
    case (Some i)
    from saved_node [OF assms Some] obtain n where n: "map_of (m_list s) i = Some n" "node_key n = k"
      "saved s k = Some (node_value n)" "(i, n) \<in> set (m_list s)" by blast
    with e Some inv_erase [OF assms n(4)] erase_sessions [OF assms n(4)] show ?thesis
      by (simp add: sessions_def)
  qed
qed

lemma FindSession_spec: "cache_inv s \<Longrightarrow> FindSession k s = Inr (saved s k, s)"
proof -
  assume inv: "cache_inv s"
  note u = inv_unlocked [OF inv]
  have "FindSession k s = (case m_map s k of None \<Rightarrow> Inr (None, s) | Some it \<Rightarrow>
       (case map_of (m_list s) it of None \<Rightarrow> Inl Dangling
        | Some n \<Rightarrow> if node_key n \<noteq> k then Inl Assertion else Inr (Some (node_value n), s)))"
    unfolding FindSession_def using u by (subst locked_free) (auto split: option.splits if_splits)
  moreover have "saved s k = None" if "m_map s k = None" using that saved_None [OF inv] by blast
  moreover have "\<exists>n. map_of (m_list s) i = Some n \<and> node_key n = k \<and> saved s k = Some (node_value n)"
    if "m_map s k = Some i" for i using saved_node [OF inv that] by blast
  ultimately show ?thesis by (cases "m_map s k") force+
qed

lemma DelSession_spec:
  assumes "cache_inv s"
  shows "\<exists>s'. DelSession k s = Inr (saved s k \<noteq> None, s') \<and> cache_inv s' \<and>
     sessions s' = filter (\<lambda>(k', v). k' \<noteq> k) (sessions s)"
proof -
  note u = inv_unlocked [OF assms]
  have "DelSession k s = (case m_map s k of None \<Rightarrow> Inr (False, s) | Some it \<Rightarrow>
       if map_of (m_list s) it = None then Inl Dangling
       else Inr (True, s\<lparr>m_list := erase it (m_list s), m_map := (m_map s)(k := None)\<rparr>))"
    unfolding DelSession_def using u by (subst locked_free) (auto split: option.splits if_splits)
  moreover have "PopSession k s = (case m_map s k of None \<Rightarrow> Inr (None, s) | Some it \<Rightarrow>
       (case map_of (m_list s) it of None \<Rightarrow> Inl Dangling
        | Some n \<Rightarrow> if node_key n \<noteq> k then Inl Assertion
            else Inr (Some (node_value n), s\<lparr>m_list := erase it (m_list s), m_map := (m_map s)(k := None)\<rparr>)))"
    unfolding PopSession_def using u by (subst locked_free) (auto split: option.splits if_splits)
  ultimately show ?thesis
    using PopSession_spec [OF assms, of k] by (auto split: option.splits if_splits dest: sym)
qed

lemma clear_old_mutex:
  "clear_old now t (s\<lparr>m_mutex_held := h\<rparr>) = (let (r, s') = clear_old now t s in (r, s'\<lparr>m_mutex_held := h\<rparr>))"
  "clear_old now t s = (r, s') \<Longrightarrow> m_mutex_held s' = m_mutex_held s"
  by (auto simp: clear_old_def clear_loop_eq)

lemma ClearTimeout_spec:
  assumes "cache_inv s"
  shows "\<exists>s'. ClearTimeout_given now t s = Inr ((), s') \<and> cache_inv s' \<and>
     sessions s' = dropWhile (\<lambda>(k, v, ts). t \<le> now - ts) (sessions s)"
    and "\<exists>s'. ClearTimeout now s = Inr ((), s') \<and> cache_inv s' \<and>
     sessions s' = dropWhile (\<lambda>(k, v, ts). m_timeout s \<le> now - ts) (sessions s)"
    and "\<exists>s'. ClearTimeout_collect now vecs s =
       Inr ((fst vecs @ map (fst \<circ> snd) (takeWhile (\<lambda>(k, v, ts). m_timeout s \<le> now - ts) (sessions s)),
             snd vecs @ map fst (takeWhile (\<lambda>(k, v, ts). m_timeout s \<le> now - ts) (sessions s))), s') \<and>
       cache_inv s' \<and> sessions s' = dropWhile (\<lambda>(k, v, ts). m_timeout s \<le> now - ts) (sessions s)"
proof -
  note u = inv_unlocked [OF assms]
  obtain r s' where c: "clear_old now t s = (r, s')" by (cases "clear_old now t s")
  have "ClearTimeout_given now t s = Inr ((), s')"
    unfolding ClearTimeout_given_def using u c
    by (subst locked_free) (auto simp: clear_old_mutex)
  with clear_old_spec [OF assms c] show "\<exists>s'. ClearTimeout_given now t s = Inr ((), s') \<and> cache_inv s' \<and>
     sessions s' = dropWhile (\<lambda>(k, v, ts). t \<le> now - ts) (sessions s)" by blast
  obtain r s' where c: "clear_old now (m_timeout s) s = (r, s')" by (cases "clear_old now (m_timeout s) s")
  note sp = clear_old_spec [OF assms c]
  have "ClearTimeout now s = Inr ((), s')"
    unfolding ClearTimeout_def using u c by (subst locked_free) (auto simp: clear_old_mutex)
  with sp show "\<exists>s'. ClearTimeout now s = Inr ((), s') \<and> cache_inv s' \<and>
     sessions s' = dropWhile (\<lambda>(k, v, ts). m_timeout s \<le> now - ts) (sessions s)" by blast
  have "ClearTimeout_collect now vecs s = Inr ((fst vecs @ map node_value r, snd vecs @ map node_key r), s')"
    unfolding ClearTimeout_collect_def using u c by (subst locked_free) (auto simp: clear_old_mutex)
  moreover have "map node_value r = map (fst \<circ> snd) (takeWhile (\<lambda>(k, v, ts). m_timeout s \<le> now - ts) (sessions s))"
    "map node_key r = map fst (takeWhile (\<lambda>(k, v, ts). m_timeout s \<le> now - ts) (sessions s))"
    unfolding sp(3) [symmetric] by simp_all
  ultimately show "\<exists>s'. ClearTimeout_collect now vecs s =
       Inr ((fst vecs @ map (fst \<circ> snd) (takeWhile (\<lambda>(k, v, ts). m_timeout s \<le> now - ts) (sessions s)),
             snd vecs @ map fst (takeWhile (\<lambda>(k, v, ts). m_timeout s \<le> now - ts) (sessions s))), s') \<and>
       cache_inv s' \<and> sessions s' = dropWhile (\<lambda>(k, v, ts). m_timeout s \<le> now - ts) (sessions s)"
    using sp by simp
qed

section \<open>The contract of a session store\<close>

text \<open>
  What a client relies on: a session that was accepted can be taken out once; operations on other
  keys never change it (at most a push may drop it because it has timed out).
\<close>

locale session_store =
  fixes inv :: "'s \<Rightarrow> bool" and content :: "'s \<Rightarrow> 'k \<Rightarrow> 'v option"
    and push :: "'k \<Rightarrow> 'v \<Rightarrow> 's \<Rightarrow> bool \<times> 's" and pop :: "'k \<Rightarrow> 's \<Rightarrow> 'v option \<times> 's"
  assumes push_inv: "inv s \<Longrightarrow> inv (snd (push k v s))"
    and pop_inv: "inv s \<Longrightarrow> inv (snd (pop k s))"
    and push_accepts: "inv s \<Longrightarrow> fst (push k v s) \<Longrightarrow> content (snd (push k v s)) k = Some v"
    and push_other: "inv s \<Longrightarrow> k' \<noteq> k \<or> \<not> fst (push k v s) \<Longrightarrow>
          content (snd (push k v s)) k' = content s k' \<or> content (snd (push k v s)) k' = None"
    and push_refuses: "inv s \<Longrightarrow> \<not> fst (push k v s) \<Longrightarrow> \<exists>v'. content s k = Some v' \<and> content (snd (push k v s)) k = Some v'"
    and pop_returns: "inv s \<Longrightarrow> fst (pop k s) = content s k"
    and pop_content: "inv s \<Longrightarrow> content (snd (pop k s)) = (content s)(k := None)"
begin

lemma pop_once: "inv s \<Longrightarrow> fst (pop k (snd (pop k s))) = None"
  using pop_returns [of "snd (pop k s)" k] pop_inv pop_content by simp

lemma pop_after_push: "inv s \<Longrightarrow> fst (push k v s) \<Longrightarrow> fst (pop k (snd (push k v s))) = Some v"
  by (simp add: pop_returns push_inv push_accepts)

lemma pop_other: "inv s \<Longrightarrow> k' \<noteq> k \<Longrightarrow> fst (pop k' (snd (pop k s))) = fst (pop k' s)"
  using pop_returns [of "snd (pop k s)" k'] pop_returns [of s k'] pop_inv pop_content by simp

text \<open>No value comes out that was not put in under that key: along any calls, the content under a key is
  a value pushed under it.\<close>

lemma content_from_push:
  assumes "inv s" "content (snd (push k v s)) k' = Some v'"
  shows "content s k' = Some v' \<or> k' = k \<and> v' = v"
proof (cases "k' = k \<and> fst (push k v s)")
  case True
  with push_accepts [OF assms(1)] assms(2) show ?thesis by auto
next
  case False
  with push_other [OF assms(1)] assms(2) show ?thesis by (metis option.distinct(1))
qed

end

definition push_fun :: "int \<Rightarrow> 'k \<Rightarrow> 'v \<Rightarrow> ('k, 'v) session_cache \<Rightarrow> bool \<times> ('k, 'v) session_cache" where
  "push_fun now k v s = (case PushSession now k v s of Inr r \<Rightarrow> r)"

definition pop_fun :: "'k \<Rightarrow> ('k, 'v) session_cache \<Rightarrow> 'v option \<times> ('k, 'v) session_cache" where
  "pop_fun k s = (case PopSession k s of Inr r \<Rightarrow> r)"

lemma saved_dropWhile:
  assumes "distinct (map fst l)"
  shows "map_of (dropWhile P l) k = map_of l k \<or> map_of (dropWhile P l) k = None"
proof -
  have d: "distinct (map fst (takeWhile P l @ dropWhile P l))" using assms by simp
  show ?thesis
  proof (cases "map_of (dropWhile P l) k")
    case (Some v)
    then have "(k, v) \<in> set l" using map_of_SomeD set_dropWhileD by metis
    with assms Some show ?thesis by simp
  qed simp
qed

lemma saved_push:
  assumes inv: "cache_inv s" and p: "PushSession now k v s = Inr (b, s')"
  shows "b \<Longrightarrow> saved s' k = Some v" "k' \<noteq> k \<or> \<not> b \<Longrightarrow> saved s' k' = saved s k' \<or> saved s' k' = None"
    "\<not> b \<Longrightarrow> \<exists>v'. saved s k = Some v' \<and> saved s' k = Some v'"
proof -
  let ?l = "sessions (AutoClearTimeout now s)"
  from PushSession_spec [OF inv, of now k v] p have
    b: "b = (k \<notin> fst ` set ?l)" and l: "sessions s' = (if b then ?l @ [(k, v, now)] else ?l)"
    by (auto simp: Let_def)
  have d: "map_of ?l k' = map_of (sessions s) k' \<or> map_of ?l k' = None" for k'
    using saved_dropWhile [OF inv_keys(1) [OF inv]] by (simp add: AutoClear_spec(2) [OF inv])
  show "saved s' k = Some v" if b
    using that b l by (auto simp: saved_def map_add_def map_of_eq_None_iff [THEN iffD2] split: option.splits)
  show "saved s' k' = saved s k' \<or> saved s' k' = None" if "k' \<noteq> k \<or> \<not> b"
  proof -
    have "map_of (sessions s') k' = map_of ?l k'"
      using that l by (cases b) (auto simp: map_add_def split: option.splits)
    with d [of k'] show ?thesis unfolding saved_def by auto
  qed
  show "\<exists>v'. saved s k = Some v' \<and> saved s' k = Some v'" if "\<not> b"
  proof -
    from that b have "map_of ?l k \<noteq> None" by (simp add: map_of_eq_None_iff)
    with d [of k] that l show ?thesis by (auto simp: saved_def)
  qed
qed

interpretation cache: session_store cache_inv saved "push_fun now" pop_fun for now
proof
  fix s :: "('a, 'b) session_cache" and k k' v
  assume inv: "cache_inv s"
  obtain b s' where p: "PushSession now k v s = Inr (b, s')" "cache_inv s'"
    using PushSession_spec [OF inv, of now k v] by blast
  then have pf: "push_fun now k v s = (b, s')" by (simp add: push_fun_def)
  obtain s2 where q: "PopSession k s = Inr (saved s k, s2)" "cache_inv s2"
    "sessions s2 = filter (\<lambda>(k', v). k' \<noteq> k) (sessions s)"
    using PopSession_spec [OF inv, of k] by blast
  then have qf: "pop_fun k s = (saved s k, s2)" by (simp add: pop_fun_def)
  show "cache_inv (snd (push_fun now k v s))" using pf p by simp
  show "cache_inv (snd (pop_fun k s))" using qf q by simp
  show "saved (snd (push_fun now k v s)) k = Some v" if "fst (push_fun now k v s)"
    using that pf saved_push(1) [OF inv p(1)] by simp
  show "saved (snd (push_fun now k v s)) k' = saved s k' \<or> saved (snd (push_fun now k v s)) k' = None"
    if "k' \<noteq> k \<or> \<not> fst (push_fun now k v s)" using that pf saved_push(2) [OF inv p(1)] by simp
  show "\<exists>v'. saved s k = Some v' \<and> saved (snd (push_fun now k v s)) k = Some v'" if "\<not> fst (push_fun now k v s)"
    using that pf saved_push(3) [OF inv p(1)] by simp
  show "fst (pop_fun k s) = saved s k" using qf by simp
  have "map_of (filter (\<lambda>(k', v). k' \<noteq> k) l) = (map_of l)(k := None)" for l :: "('a \<times> 'b \<times> int) list"
    by (induction l) auto
  then show "saved (snd (pop_fun k s)) = (saved s)(k := None)"
    using qf q(3) by (intro ext) (simp add: saved_def)
qed

section \<open>Properties\<close>

text \<open>The calls of clients at a time \<open>now\<close>; a call that fails leads nowhere.\<close>

inductive cache_reach :: "('k, 'v) session_cache \<Rightarrow> bool" where
  new: "cache_reach (SessionCache_new t)"
| set_timeout: "cache_reach s \<Longrightarrow> cache_reach (SetTimeout t s)"
| set_max_size: "cache_reach s \<Longrightarrow> cache_reach (SetMaxSize n s)"
| clear_all: "cache_reach s \<Longrightarrow> ClearAll s = Inr (u, s') \<Longrightarrow> cache_reach s'"
| push: "cache_reach s \<Longrightarrow> PushSession now k v s = Inr (b, s') \<Longrightarrow> cache_reach s'"
| pop: "cache_reach s \<Longrightarrow> PopSession k s = Inr (r, s') \<Longrightarrow> cache_reach s'"
| del: "cache_reach s \<Longrightarrow> DelSession k s = Inr (b, s') \<Longrightarrow> cache_reach s'"
| clear: "cache_reach s \<Longrightarrow> ClearTimeout now s = Inr (u, s') \<Longrightarrow> cache_reach s'"
| clear_given: "cache_reach s \<Longrightarrow> ClearTimeout_given now t s = Inr (u, s') \<Longrightarrow> cache_reach s'"
| clear_collect: "cache_reach s \<Longrightarrow> ClearTimeout_collect now vecs s = Inr (vecs', s') \<Longrightarrow> cache_reach s'"

lemma ClearAll_eq: "cache_inv s \<Longrightarrow> ClearAll s = Inr ((), s\<lparr>m_list := [], m_map := Map.empty\<rparr>)"
  unfolding ClearAll_def using inv_unlocked [of s] by (subst locked_free) auto

lemma cache_reach_inv: "cache_reach s \<Longrightarrow> cache_inv s"
proof (induction rule: cache_reach.induct)
  case (new t)
  show ?case by (simp add: cache_inv_def SessionCache_new_def)
next
  case (set_timeout s t)
  then show ?case by (simp add: cache_inv_def SetTimeout_def)
next
  case (set_max_size s n)
  then show ?case by (simp add: cache_inv_def SetMaxSize_def)
next
  case (clear_all s u s')
  then show ?case using ClearAll_eq [of s] by (auto simp: cache_inv_def)
next
  case (push s now k v b s')
  then show ?case using PushSession_spec [of s now k v] by auto
next
  case (pop s k r s')
  then show ?case using PopSession_spec [of s k] by auto
next
  case (del s k b s')
  then show ?case using DelSession_spec [of s k] by auto
next
  case (clear s now u s')
  then show ?case using ClearTimeout_spec(2) [of s now] by auto
next
  case (clear_given s now t u s')
  then show ?case using ClearTimeout_spec(1) [of s now t] by auto
next
  case (clear_collect s now vecs vecs' s')
  then show ?case using ClearTimeout_spec(3) [of s now vecs] by auto
qed

text \<open>
  \<open>PopFirstSession\<close> never returns: it calls \<open>Size\<close>, which takes the mutex that
  \<open>PopFirstSession\<close> already holds.
\<close>

theorem session_cache_pop_first_deadlock: "PopFirstSession s = Inl Deadlock"
  by (simp add: PopFirstSession_def locked_def cache_Size_def)

text \<open>
  C10. Map and list of the cache never disagree: after any calls, the map has one entry per list node,
  so that the assertion in \<open>Size\<close> holds, and every operation but one returns: it does not follow a dangling
  iterator, fail an assertion or block on its own mutex. The exception is \<open>PopFirstSession\<close>, which always blocks.
\<close>

theorem session_cache_safe:
  assumes "cache_reach s"
  shows "card (dom (m_map s)) = length (m_list s) \<and> cache_Size s = Inr (length (m_list s), s) \<and>
     (\<exists>r. PushSession now k v s = Inr r) \<and> (\<exists>r. FindSession k s = Inr r) \<and> (\<exists>r. PopSession k s = Inr r) \<and>
     (\<exists>r. DelSession k s = Inr r) \<and> (\<exists>r. ClearTimeout now s = Inr r) \<and> (\<exists>r. ClearTimeout_given now t s = Inr r) \<and>
     (\<exists>r. ClearTimeout_collect now vecs s = Inr r) \<and> (\<exists>r. ClearAll s = Inr r) \<and>
     PopFirstSession s = Inl Deadlock"
proof -
  have inv: "cache_inv s" using assms by (rule cache_reach_inv)
  have "cache_Size s = Inr (length (m_list s), s)"
    unfolding cache_Size_def using inv_unlocked [OF inv] inv_keys(3) [OF inv] by (subst locked_free) auto
  then show ?thesis
    using inv_keys(3) [OF inv] PushSession_spec [OF inv, of now k v] FindSession_spec [OF inv, of k]
      PopSession_spec [OF inv, of k] DelSession_spec [OF inv, of k] ClearTimeout_spec [OF inv]
      ClearAll_eq [OF inv] session_cache_pop_first_deadlock [of s]
    by blast
qed

theorem session_cache_safe_witness:
  "card (dom (m_map (SessionCache_new 60 :: (nat, nat) session_cache))) = length (m_list (SessionCache_new 60 :: (nat, nat) session_cache)) \<and>
   cache_Size (SessionCache_new 60 :: (nat, nat) session_cache) = Inr (0, SessionCache_new 60)"
proof -
  have r: "cache_reach (SessionCache_new 60 :: (nat, nat) session_cache)" by (rule cache_reach.new)
  have "m_list (SessionCache_new 60 :: (nat, nat) session_cache) = []" by (simp add: SessionCache_new_def)
  then show ?thesis
    using session_cache_safe [OF r, of 0 0 0 0 "([], [])", THEN conjunct1]
      session_cache_safe [OF r, of 0 0 0 0 "([], [])", THEN conjunct2, THEN conjunct1] by simp
qed

text \<open>
  C11. A session that \<open>PushSession\<close> accepts is handed out exactly once: \<open>PopSession\<close> of its key returns
  the value that was pushed, a second \<open>PopSession\<close> fails, and what is saved under other keys is not
  touched by either pop; \<open>PushSession\<close> refuses a key that is in use and keeps the value it has.
\<close>

theorem session_cache_push_pop:
  assumes r: "cache_reach s" and p: "PushSession now k v s = Inr (b, s1)"
  shows "\<exists>s2 s3. PopSession k s1 = Inr (if b then Some v else saved s k, s2) \<and> PopSession k s2 = Inr (None, s3) \<and>
     (\<not> b \<longrightarrow> saved s k \<noteq> None) \<and> (\<forall>k'. k' \<noteq> k \<longrightarrow> saved s3 k' = saved s1 k')"
proof -
  have inv: "cache_inv s" using r by (rule cache_reach_inv)
  have inv1: "cache_inv s1" using PushSession_spec [OF inv, of now k v] p by auto
  have pf: "push_fun now k v s = (b, s1)" using p by (simp add: push_fun_def)
  obtain s2 where s2: "PopSession k s1 = Inr (saved s1 k, s2)" "cache_inv s2" using PopSession_spec [OF inv1] by blast
  obtain s3 where s3: "PopSession k s2 = Inr (saved s2 k, s3)" "cache_inv s3" using PopSession_spec [OF s2(2)] by blast
  have f: "pop_fun k s1 = (saved s1 k, s2)" "pop_fun k s2 = (saved s2 k, s3)"
    using s2 s3 by (simp_all add: pop_fun_def)
  have c: "saved s2 = (saved s1)(k := None)" "saved s3 = (saved s2)(k := None)"
    using cache.pop_content [OF inv1, of k] cache.pop_content [OF s2(2), of k] f by simp_all
  have v: "saved s1 k = (if b then Some v else saved s k)" "\<not> b \<longrightarrow> saved s k \<noteq> None"
    using cache.push_accepts [OF inv, of now k v] cache.push_refuses [OF inv, of now k v] pf by auto
  show ?thesis using s2(1) s3(1) c v by auto
qed

theorem session_cache_push_pop_witness:
  "\<exists>s1 s2 s3. PushSession 5 (1 :: nat) (9 :: nat) (SessionCache_new 60) = Inr (True, s1) \<and>
     PopSession 1 s1 = Inr (Some 9, s2) \<and> PopSession 1 s2 = Inr (None, s3)"
proof -
  obtain s1 where p: "PushSession 5 (1 :: nat) (9 :: nat) (SessionCache_new 60) = Inr (True, s1)"
    by (simp add: PushSession_def locked_def SessionCache_new_def AutoClearTimeout_def)
  from session_cache_push_pop [OF cache_reach.new p] p show ?thesis by auto
qed

text \<open>
  C12. Timeouts: when the sessions are in the order of their time stamps (they are inserted with the
  current time), \<open>ClearTimeout\<close> removes exactly the sessions older than the timeout and hands out
  exactly those, in the order of their insertion.
\<close>

theorem session_cache_timeout:
  assumes "cache_reach s" "sorted (map (snd \<circ> snd) (sessions s))"
  shows "\<exists>s'. ClearTimeout_collect now ([], []) s =
       Inr ((map (fst \<circ> snd) (filter (\<lambda>(k, v, ts). m_timeout s \<le> now - ts) (sessions s)),
             map fst (filter (\<lambda>(k, v, ts). m_timeout s \<le> now - ts) (sessions s))), s') \<and>
     sessions s' = filter (\<lambda>(k, v, ts). now - ts < m_timeout s) (sessions s)"
proof -
  have inv: "cache_inv s" using assms(1) by (rule cache_reach_inv)
  let ?P = "\<lambda>(k, v, ts). m_timeout s \<le> now - ts"
  have "takeWhile ?P l = filter ?P l \<and> dropWhile ?P l = filter (\<lambda>(k, v, ts). now - ts < m_timeout s) l"
    if "sorted (map (snd \<circ> snd) l)" for l :: "('a \<times> 'b \<times> int) list"
    using that
  proof (induction l)
    case (Cons x l)
    show ?case
    proof (cases "?P x")
      case False
      with Cons.prems have "\<forall>y\<in>set l. \<not> ?P y" by fastforce
      then have "filter ?P l = []" "filter (\<lambda>(k, v, ts). now - ts < m_timeout s) l = l"
        by (force simp: filter_empty_conv filter_id_conv)+
      with False show ?thesis by (cases x) simp
    qed (use Cons in auto)
  qed simp
  from this [OF assms(2)] ClearTimeout_spec(3) [OF inv, of now "([], [])"] show ?thesis by auto
qed

theorem session_cache_timeout_witness:
  "\<exists>s s'. PushSession 5 (1 :: nat) (9 :: nat) (SessionCache_new 60) = Inr (True, s) \<and>
     ClearTimeout_collect 99 ([], []) s = Inr (([9], [1]), s') \<and> sessions s' = []"
proof -
  obtain s where p: "PushSession 5 (1 :: nat) (9 :: nat) (SessionCache_new 60) = Inr (True, s)"
    and c: "sessions s = [(1, 9, 5)]" "m_timeout s = 60"
    by (simp add: PushSession_def locked_def SessionCache_new_def AutoClearTimeout_def sessions_def)
  have "cache_reach s" by (rule cache_reach.push [OF cache_reach.new p])
  with c session_cache_timeout [of s 99] p show ?thesis by auto
qed

end
