(* ===== verification/Sync_Comm.thy ===== *)
theory Sync_Comm
  imports Session_Cache
begin

text \<open>
  \<open>SyncComm\<close> (\<open>source/transport/sync_comm.cpp\<close>): synchronous calls over an asynchronous queue. A client
  thread saves a \<open>FutureSession\<close> under the id of its request in a \<open>SessionCache\<close>, sends the request
  and waits; the thread that receives a response takes the session out and sets its value; the thread
  of \<open>Run\<close> sets an empty value in the sessions that have timed out. Each step below is what a thread
  does between two points at which another thread can run: a method of the cache is one step, because
  it holds the mutex, and so is setting or getting the value of a future.
\<close>

section \<open>State\<close>

text \<open>
  A \<open>FutureSession\<close> is a number that \<open>sc_next\<close> hands out, and \<open>sc_futures\<close> is the value its promise
  was given. \<open>Promise_already_satisfied\<close> is the exception of a promise that is set twice.
\<close>

datatype sync_error = Promise_already_satisfied | Cache_failed cache_error

datatype client =
    C_idle
  | C_refused
  | C_pushed cstr cstr nat
  | C_waiting cstr nat
  | C_done cstr nat cstr

datatype receiver = R_idle | R_popped cstr nat cstr | R_done bool

text \<open>
  The last three fields are history: the id each session was pushed under, the responses that were
  set, and the sessions that a push removed from the cache because they had timed out.
\<close>

record sync_comm =
  sc_cache :: "(cstr, nat) session_cache"
  sc_futures :: "nat \<Rightarrow> cstr option"
  sc_next :: nat
  sc_clients :: "nat \<Rightarrow> client"
  sc_receivers :: "nat \<Rightarrow> receiver"
  sc_timer :: "nat list"
  sc_queue :: "cstr list"
  sc_ids :: "nat \<Rightarrow> cstr option"
  sc_log :: "(cstr \<times> nat \<times> cstr) list"
  sc_dropped :: "nat set"

definition SyncComm_new :: sync_comm where
  "SyncComm_new = \<lparr>sc_cache = SessionCache_new 60, sc_futures = (\<lambda>_. None), sc_next = 0, sc_clients = (\<lambda>_. C_idle),
     sc_receivers = (\<lambda>_. R_idle), sc_timer = [], sc_queue = [], sc_ids = (\<lambda>_. None), sc_log = [], sc_dropped = {}\<rparr>"

definition SyncComm_Init :: "int \<Rightarrow> sync_comm \<Rightarrow> sync_comm" where
  "SyncComm_Init timeout s = s\<lparr>sc_cache := SetTimeout timeout (sc_cache s)\<rparr>"

definition cache_call :: "cache_error + 'a \<Rightarrow> ('a \<Rightarrow> sync_error + 'b) \<Rightarrow> sync_error + 'b" where
  "cache_call r f = (case r of Inl e \<Rightarrow> Inl (Cache_failed e) | Inr x \<Rightarrow> f x)"

definition SetValue :: "nat \<Rightarrow> cstr \<Rightarrow> sync_comm \<Rightarrow> sync_error + sync_comm" where
  "SetValue f v s = (if sc_futures s f \<noteq> None then Inl Promise_already_satisfied else Inr (s\<lparr>sc_futures := (sc_futures s)(f \<mapsto> v)\<rparr>))"

section \<open>Steps of the threads\<close>

definition cached :: "sync_comm \<Rightarrow> nat set" where
  "cached s = {f. \<exists>k. saved (sc_cache s) k = Some f}"

text \<open>\<open>SendAndRecv\<close>: create the session and push it, send the request, get the value.\<close>

definition SendAndRecv_push :: "int \<Rightarrow> nat \<Rightarrow> cstr \<Rightarrow> cstr \<Rightarrow> sync_comm \<Rightarrow> sync_error + sync_comm" where
  "SendAndRecv_push now t sid request s =
     cache_call (PushSession now sid (sc_next s) (sc_cache s)) (\<lambda>(ok, c).
       let s' = s\<lparr>sc_cache := c, sc_next := Suc (sc_next s)\<rparr>;
           s' = s'\<lparr>sc_dropped := sc_dropped s \<union> (cached s - cached s')\<rparr> in
       if ok then Inr (s'\<lparr>sc_clients := (sc_clients s)(t := C_pushed sid request (sc_next s)), sc_ids := (sc_ids s)(sc_next s \<mapsto> sid)\<rparr>)
       else Inr (s'\<lparr>sc_clients := (sc_clients s)(t := C_refused)\<rparr>))"

definition SendAndRecv_send :: "nat \<Rightarrow> sync_comm \<Rightarrow> sync_comm" where
  "SendAndRecv_send t s =
     (case sc_clients s t of
        C_pushed sid request f \<Rightarrow> s\<lparr>sc_queue := sc_queue s @ [request], sc_clients := (sc_clients s)(t := C_waiting sid f)\<rparr>
      | _ \<Rightarrow> s)"

text \<open>\<open>GetValue\<close> blocks while the future has no value; \<open>SendAndRecv\<close> returns whether the value is not empty.\<close>

definition SendAndRecv_get :: "nat \<Rightarrow> sync_comm \<Rightarrow> sync_comm option" where
  "SendAndRecv_get t s =
     (case sc_clients s t of
        C_waiting sid f \<Rightarrow> map_option (\<lambda>v. s\<lparr>sc_clients := (sc_clients s)(t := C_done sid f v)\<rparr>) (sc_futures s f)
      | _ \<Rightarrow> None)"

definition SendAndRecv_result :: "client \<Rightarrow> (bool \<times> cstr option) option" where
  "SendAndRecv_result c = (case c of C_refused \<Rightarrow> Some (False, None) | C_done sid f v \<Rightarrow> Some (v \<noteq> [], Some v) | _ \<Rightarrow> None)"

text \<open>\<open>Return\<close>: take the session out of the cache, then set its value.\<close>

definition Return_pop :: "nat \<Rightarrow> cstr \<Rightarrow> cstr \<Rightarrow> sync_comm \<Rightarrow> sync_error + sync_comm" where
  "Return_pop r sid response s =
     cache_call (PopSession sid (sc_cache s)) (\<lambda>(v, c).
       Inr (s\<lparr>sc_cache := c, sc_receivers := (sc_receivers s)(r := (case v of None \<Rightarrow> R_done False | Some f \<Rightarrow> R_popped sid f response))\<rparr>))"

definition Return_set :: "nat \<Rightarrow> sync_comm \<Rightarrow> sync_error + sync_comm" where
  "Return_set r s =
     (case sc_receivers s r of
        R_popped sid f response \<Rightarrow> bind_result (SetValue f response s) (\<lambda>s.
          Inr (s\<lparr>sc_receivers := (sc_receivers s)(r := R_done True), sc_log := sc_log s @ [(sid, f, response)]\<rparr>))
      | _ \<Rightarrow> Inr s)"

text \<open>\<open>Run\<close>: collect the sessions that have timed out, then set an empty value in each.\<close>

definition Run_clear :: "int \<Rightarrow> sync_comm \<Rightarrow> sync_error + sync_comm" where
  "Run_clear now s =
     cache_call (ClearTimeout_collect now ([], []) (sc_cache s)) (\<lambda>((values, keys), c). Inr (s\<lparr>sc_cache := c, sc_timer := values\<rparr>))"

definition Run_set :: "sync_comm \<Rightarrow> sync_error + sync_comm" where
  "Run_set s =
     (case sc_timer s of [] \<Rightarrow> Inr s | f # fs \<Rightarrow> bind_result (SetValue f [] s) (\<lambda>s. Inr (s\<lparr>sc_timer := fs\<rparr>)))"

text \<open>The threads interleave; the clock only has to be the same for one step.\<close>

definition can_call :: "client \<Rightarrow> bool" where
  "can_call c = (case c of C_idle \<Rightarrow> True | C_refused \<Rightarrow> True | C_done sid f v \<Rightarrow> True | _ \<Rightarrow> False)"

definition can_return :: "receiver \<Rightarrow> bool" where
  "can_return c = (case c of R_idle \<Rightarrow> True | R_done b \<Rightarrow> True | _ \<Rightarrow> False)"

text \<open>\<open>n\<close> bounds the sessions there are in the cache when a client pushes.\<close>

inductive sc_step :: "nat \<Rightarrow> sync_comm \<Rightarrow> sync_comm \<Rightarrow> bool" for n where
  push: "can_call (sc_clients s t) \<Longrightarrow> length (m_list (sc_cache s)) \<le> n \<Longrightarrow> SendAndRecv_push now t sid request s = Inr s' \<Longrightarrow> sc_step n s s'"
| send: "sc_clients s t = C_pushed sid request f \<Longrightarrow> sc_step n s (SendAndRecv_send t s)"
| get: "SendAndRecv_get t s = Some s' \<Longrightarrow> sc_step n s s'"
| pop: "can_return (sc_receivers s r) \<Longrightarrow> Return_pop r sid response s = Inr s' \<Longrightarrow> sc_step n s s'"
| set_response: "sc_receivers s r = R_popped sid f response \<Longrightarrow> Return_set r s = Inr s' \<Longrightarrow> sc_step n s s'"
| clear: "sc_timer s = [] \<Longrightarrow> Run_clear now s = Inr s' \<Longrightarrow> sc_step n s s'"
| set_timeout: "sc_timer s \<noteq> [] \<Longrightarrow> Run_set s = Inr s' \<Longrightarrow> sc_step n s s'"

inductive sc_reach :: "nat \<Rightarrow> sync_comm \<Rightarrow> bool" for n where
  start: "sc_reach n (SyncComm_Init timeout SyncComm_new)"
| step: "sc_reach n s \<Longrightarrow> sc_step n s s' \<Longrightarrow> sc_reach n s'"

inductive_cases sc_stepE: "sc_step n s s'"

section \<open>Where a session is\<close>

text \<open>
  The invariant gives every session that was pushed exactly one place: in the cache under its id, with
  a receiver that took it out, on the list of the timer thread, with a value, or dropped.
\<close>

datatype place = Nowhere | Cached cstr | Popped nat | Timing | Valued cstr | Dropped

definition placed :: "(nat \<Rightarrow> place) \<Rightarrow> sync_comm \<Rightarrow> bool" where
  "placed own s \<longleftrightarrow>
     (\<forall>k f. saved (sc_cache s) k = Some f \<longleftrightarrow> own f = Cached k) \<and>
     (\<forall>r f. (\<exists>k v. sc_receivers s r = R_popped k f v) \<longleftrightarrow> own f = Popped r) \<and>
     (\<forall>f. f \<in> set (sc_timer s) \<longleftrightarrow> own f = Timing) \<and>
     (\<forall>f v. sc_futures s f = Some v \<longleftrightarrow> own f = Valued v) \<and>
     (\<forall>f. f \<in> sc_dropped s \<longleftrightarrow> own f = Dropped) \<and>
     (\<forall>f. own f = Nowhere \<longleftrightarrow> sc_ids s f = None) \<and> (\<forall>f. own f \<noteq> Nowhere \<longrightarrow> f < sc_next s)"

definition matched :: "sync_comm \<Rightarrow> bool" where
  "matched s \<longleftrightarrow>
     (\<forall>k f. saved (sc_cache s) k = Some f \<longrightarrow> sc_ids s f = Some k) \<and>
     (\<forall>r k f v. sc_receivers s r = R_popped k f v \<longrightarrow> sc_ids s f = Some k) \<and>
     (\<forall>t k req f. sc_clients s t = C_pushed k req f \<longrightarrow> sc_ids s f = Some k) \<and>
     (\<forall>t k f. sc_clients s t = C_waiting k f \<longrightarrow> sc_ids s f = Some k) \<and>
     (\<forall>t k f v. sc_clients s t = C_done k f v \<longrightarrow> sc_ids s f = Some k \<and> sc_futures s f = Some v)"

definition logged :: "sync_comm \<Rightarrow> bool" where
  "logged s \<longleftrightarrow> distinct (map (fst \<circ> snd) (sc_log s)) \<and> (\<forall>(k, f, v) \<in> set (sc_log s). sc_ids s f = Some k \<and> sc_futures s f = Some v) \<and>
     (\<forall>f v. sc_futures s f = Some v \<and> v \<noteq> [] \<longrightarrow> (\<exists>k. (k, f, v) \<in> set (sc_log s)))"

definition sc_inv :: "sync_comm \<Rightarrow> bool" where
  "sc_inv s \<longleftrightarrow> cache_inv (sc_cache s) \<and> m_max_size (sc_cache s) = 100 \<and> distinct (sc_timer s) \<and> matched s \<and> logged s \<and> (\<exists>own. placed own s)"

lemma placedD:
  assumes "placed own s"
  shows "saved (sc_cache s) k = Some f \<longleftrightarrow> own f = Cached k" "(\<exists>k v. sc_receivers s r = R_popped k f v) \<longleftrightarrow> own f = Popped r"
    "f \<in> set (sc_timer s) \<longleftrightarrow> own f = Timing" "sc_futures s f = Some v \<longleftrightarrow> own f = Valued v" "f \<in> sc_dropped s \<longleftrightarrow> own f = Dropped"
    "own f = Nowhere \<longleftrightarrow> sc_ids s f = None" "own f \<noteq> Nowhere \<Longrightarrow> f < sc_next s"
  using assms unfolding placed_def by blast+

lemma placedI:
  assumes "\<And>k f. saved (sc_cache s) k = Some f \<longleftrightarrow> own f = Cached k" "\<And>r f. (\<exists>k v. sc_receivers s r = R_popped k f v) \<longleftrightarrow> own f = Popped r"
    "\<And>f. f \<in> set (sc_timer s) \<longleftrightarrow> own f = Timing" "\<And>f v. sc_futures s f = Some v \<longleftrightarrow> own f = Valued v" "\<And>f. f \<in> sc_dropped s \<longleftrightarrow> own f = Dropped"
    "\<And>f. own f = Nowhere \<longleftrightarrow> sc_ids s f = None" "\<And>f. own f \<noteq> Nowhere \<Longrightarrow> f < sc_next s"
  shows "placed own s"
  unfolding placed_def using assms by blast

text \<open>One session moves to another place; the other sessions stay where they are.\<close>

lemma placed_move:
  assumes p: "placed own s" and f: "own f \<noteq> Nowhere" "q \<noteq> Nowhere"
    and new: "\<And>k g. saved (sc_cache s') k = Some g \<longleftrightarrow> (if g = f then q = Cached k else saved (sc_cache s) k = Some g)"
      "\<And>r g. (\<exists>k v. sc_receivers s' r = R_popped k g v) \<longleftrightarrow> (if g = f then q = Popped r else \<exists>k v. sc_receivers s r = R_popped k g v)"
      "\<And>g. g \<in> set (sc_timer s') \<longleftrightarrow> (if g = f then q = Timing else g \<in> set (sc_timer s))"
      "\<And>g v. sc_futures s' g = Some v \<longleftrightarrow> (if g = f then q = Valued v else sc_futures s g = Some v)"
      "\<And>g. g \<in> sc_dropped s' \<longleftrightarrow> (if g = f then q = Dropped else g \<in> sc_dropped s)" "sc_ids s' = sc_ids s" "sc_next s' = sc_next s"
  shows "placed (own(f := q)) s'"
proof (rule placedI)
  note P = placedD [OF p]
  fix k g r v
  show "(saved (sc_cache s') k = Some g) = ((own(f := q)) g = Cached k)" using P(1) [of k g] by (simp add: new(1))
  show "(\<exists>k v. sc_receivers s' r = R_popped k g v) = ((own(f := q)) g = Popped r)" unfolding new(2) using P(2) [of r g] by simp
  show "(g \<in> set (sc_timer s')) = ((own(f := q)) g = Timing)" using P(3) [of g] by (simp add: new(3))
  show "(sc_futures s' g = Some v) = ((own(f := q)) g = Valued v)" using P(4) [of g v] by (simp add: new(4))
  show "(g \<in> sc_dropped s') = ((own(f := q)) g = Dropped)" using P(5) [of g] by (simp add: new(5))
  show "((own(f := q)) g = Nowhere) = (sc_ids s' g = None)" using P(6) [of g] P(6) [of f] f by (auto simp: new(6))
  show "g < sc_next s'" if "(own(f := q)) g \<noteq> Nowhere" using P(7) [of g] P(7) [of f] f that by (auto simp: new(7) split: if_splits)
qed

lemma placed_cong:
  assumes "sc_cache s' = sc_cache s" "sc_receivers s' = sc_receivers s" "sc_timer s' = sc_timer s" "sc_futures s' = sc_futures s"
    "sc_dropped s' = sc_dropped s" "sc_ids s' = sc_ids s" "sc_next s' = sc_next s"
  shows "placed own s' = placed own s"
  unfolding placed_def assms ..

lemma inv_start: "sc_inv (SyncComm_Init timeout SyncComm_new)"
proof -
  let ?s = "SyncComm_Init timeout SyncComm_new"
  have "cache_inv (sc_cache ?s)" "\<forall>k. saved (sc_cache ?s) k = None"
    by (simp_all add: SyncComm_Init_def SyncComm_new_def cache_inv_def SetTimeout_def SessionCache_new_def saved_def sessions_def)
  moreover have "m_max_size (sc_cache ?s) = 100" by (simp add: SyncComm_Init_def SyncComm_new_def SetTimeout_def SessionCache_new_def)
  moreover have "sc_futures ?s = (\<lambda>_. None)" "sc_clients ?s = (\<lambda>_. C_idle)" "sc_receivers ?s = (\<lambda>_. R_idle)" "sc_timer ?s = []"
      "sc_ids ?s = (\<lambda>_. None)" "sc_log ?s = []" "sc_dropped ?s = {}"
    by (simp_all add: SyncComm_Init_def SyncComm_new_def)
  ultimately show ?thesis unfolding sc_inv_def matched_def logged_def placed_def by (intro conjI exI [of _ "\<lambda>_. Nowhere"]) simp_all
qed

text \<open>What a push does to the cache and to the places of the sessions.\<close>

lemma push_cases:
  assumes inv: "sc_inv s"
  obtains (accepted) s' c where "SendAndRecv_push now t k req s = Inr s'" "PushSession now k (sc_next s) (sc_cache s) = Inr (True, c)"
      "s' = s\<lparr>sc_cache := c, sc_next := Suc (sc_next s), sc_dropped := sc_dropped s \<union> (cached s - {f. \<exists>k. saved c k = Some f}),
        sc_clients := (sc_clients s)(t := C_pushed k req (sc_next s)), sc_ids := (sc_ids s)(sc_next s \<mapsto> k)\<rparr>"
      "cache_inv c" "m_max_size c = 100"
  | (refused) s' c where "SendAndRecv_push now t k req s = Inr s'" "PushSession now k (sc_next s) (sc_cache s) = Inr (False, c)"
      "s' = s\<lparr>sc_cache := c, sc_next := Suc (sc_next s), sc_dropped := sc_dropped s \<union> (cached s - {f. \<exists>k. saved c k = Some f}),
        sc_clients := (sc_clients s)(t := C_refused)\<rparr>" "cache_inv c" "m_max_size c = 100"
proof -
  have c0: "cache_inv (sc_cache s)" "m_max_size (sc_cache s) = 100" using inv by (simp_all add: sc_inv_def)
  obtain b c where p: "PushSession now k (sc_next s) (sc_cache s) = Inr (b, c)" "cache_inv c" using PushSession_spec [OF c0(1)] by blast
  have m: "m_max_size c = 100"
    using p(1) c0 unfolding PushSession_def locked_def
    by (auto simp: AutoClearTimeout_def clear_old_def Let_def split: if_splits prod.splits)
  show ?thesis
  proof (cases b)
    case True
    then show ?thesis using p m by (intro accepted) (auto simp: SendAndRecv_push_def cache_call_def cached_def Let_def)
  next
    case False
    then show ?thesis using p m by (intro refused) (auto simp: SendAndRecv_push_def cache_call_def cached_def Let_def)
  qed
qed

text \<open>The sessions in the cache after a push: those that were there, less those dropped, and the new one.\<close>

lemma push_content:
  assumes "cache_inv c0" "PushSession now k v c0 = Inr (b, c)"
  shows "saved c k' = Some f \<Longrightarrow> saved c0 k' = Some f \<or> b \<and> k' = k \<and> f = v" "b \<Longrightarrow> saved c k = Some v"
  using saved_push(1) [OF assms] saved_push(2) [OF assms, of k'] by (cases b; cases "k' = k"; auto)+

lemma placed_push:
  assumes p: "placed own s" and inv: "cache_inv (sc_cache s)" and push: "PushSession now k (sc_next s) (sc_cache s) = Inr (b, c)"
    and s': "sc_cache s' = c" "sc_next s' = Suc (sc_next s)" "sc_dropped s' = sc_dropped s \<union> (cached s - {f. \<exists>k. saved c k = Some f})"
      "sc_receivers s' = sc_receivers s" "sc_timer s' = sc_timer s" "sc_futures s' = sc_futures s"
      "sc_ids s' = (if b then (sc_ids s)(sc_next s \<mapsto> k) else sc_ids s)"
  shows "\<exists>own'. placed own' s'"
proof -
  note P = placedD [OF p]
  let ?own = "\<lambda>f. if b \<and> f = sc_next s then Cached k else
      case own f of Cached k' \<Rightarrow> if saved c k' = Some f then Cached k' else Dropped | x \<Rightarrow> x"
  have nx: "own (sc_next s) = Nowhere" using P(7) [of "sc_next s"] by blast
  have new: "saved (sc_cache s) k' \<noteq> Some (sc_next s)" for k' using P(1) [of k' "sc_next s"] nx by simp
  have "placed ?own s'"
    unfolding placed_def s'
  proof (intro conjI allI impI)
    fix k' f
    show "(saved c k' = Some f) = (?own f = Cached k')"
      using push_content(1) [OF inv push, of k' f] push_content(2) [OF inv push] P(1) [of k' f] nx new by (auto split: place.splits)
    show "(\<exists>k v. sc_receivers s r = R_popped k f v) = (?own f = Popped r)" for r
      using P(2) [of r f] nx by (auto split: place.splits)
    show "(f \<in> set (sc_timer s)) = (?own f = Timing)" using P(3) [of f] nx by (auto split: place.splits)
    show "(sc_futures s f = Some v) = (?own f = Valued v)" for v using P(4) [of f v] nx by (auto split: place.splits)
    show "(f \<in> sc_dropped s \<union> (cached s - {f. \<exists>k. saved c k = Some f})) = (?own f = Dropped)"
    proof (cases "\<exists>k0. own f = Cached k0")
      case True
      then obtain k0 where k0: "own f = Cached k0" by blast
      then have "f \<noteq> sc_next s" "f \<notin> sc_dropped s" "f \<in> cached s" using nx P(5) [of f] P(1) [of k0 f] by (auto simp: cached_def)
      moreover have "(\<exists>k'. saved c k' = Some f) = (saved c k0 = Some f)"
        using push_content(1) [OF inv push, of _ f] P(1) [of _ f] k0 \<open>f \<noteq> sc_next s\<close> by auto
      ultimately show ?thesis using k0 by auto
    next
      case False
      then have "f \<notin> cached s" using P(1) [of _ f] by (auto simp: cached_def)
      then show ?thesis using False P(5) [of f] nx by (auto split: place.splits)
    qed
    show "(?own f = Nowhere) = ((if b then (sc_ids s)(sc_next s \<mapsto> k) else sc_ids s) f = None)"
      using P(6) [of f] by (auto split: place.splits)
    show "f < Suc (sc_next s)" if "?own f \<noteq> Nowhere" using P(7) [of f] that by (auto split: place.splits if_splits)
  qed
  then show ?thesis by blast
qed

lemma inv_push:
  assumes inv: "sc_inv s" and push: "SendAndRecv_push now t k req s = Inr s'"
  shows "sc_inv s'"
proof -
  have c0: "cache_inv (sc_cache s)" and m: "matched s" and l: "logged s" and d: "distinct (sc_timer s)" using inv by (simp_all add: sc_inv_def)
  obtain own where own: "placed own s" using inv by (auto simp: sc_inv_def)
  have nx: "sc_ids s (sc_next s) = None" using placedD(6,7) [OF own, of "sc_next s"] by blast
  then have fresh: "sc_ids s f \<noteq> None \<Longrightarrow> f \<noteq> sc_next s" for f by auto
  show ?thesis
  proof (rule push_cases [OF inv, of now t k req])
    fix s1 c assume a: "SendAndRecv_push now t k req s = Inr s1" "PushSession now k (sc_next s) (sc_cache s) = Inr (True, c)"
      "s1 = s\<lparr>sc_cache := c, sc_next := Suc (sc_next s), sc_dropped := sc_dropped s \<union> (cached s - {f. \<exists>k. saved c k = Some f}),
        sc_clients := (sc_clients s)(t := C_pushed k req (sc_next s)), sc_ids := (sc_ids s)(sc_next s \<mapsto> k)\<rparr>" "cache_inv c" "m_max_size c = 100"
    have s1: "s' = s1" using a(1) push by simp
    have "\<exists>own'. placed own' s1" using placed_push [OF own c0 a(2), of s1] a(3) by simp
    moreover have "sc_ids s1 f = Some k'" if "saved c k' = Some f" for k' f
      using push_content(1) [OF c0 a(2) that] m fresh unfolding matched_def a(3) by fastforce
    then have "matched s1" using m fresh unfolding matched_def a(3) by auto
    moreover have "logged s1" using l fresh unfolding logged_def a(3) by fastforce
    ultimately show ?thesis using a(3,4,5) d unfolding s1 sc_inv_def by simp
  next
    fix s1 c assume a: "SendAndRecv_push now t k req s = Inr s1" "PushSession now k (sc_next s) (sc_cache s) = Inr (False, c)"
      "s1 = s\<lparr>sc_cache := c, sc_next := Suc (sc_next s), sc_dropped := sc_dropped s \<union> (cached s - {f. \<exists>k. saved c k = Some f}),
        sc_clients := (sc_clients s)(t := C_refused)\<rparr>" "cache_inv c" "m_max_size c = 100"
    have s1: "s' = s1" using a(1) push by simp
    have "\<exists>own'. placed own' s1" using placed_push [OF own c0 a(2), of s1] a(3) by simp
    moreover have "matched s1" using m push_content(1) [OF c0 a(2)] unfolding matched_def a(3) by auto
    moreover have "logged s1" using l unfolding logged_def a(3) by simp
    ultimately show ?thesis using a(3,4,5) d unfolding s1 sc_inv_def by simp
  qed
qed

lemma inv_client:
  assumes "sc_inv s" "s' = s\<lparr>sc_queue := q, sc_clients := cl\<rparr>" "matched s'"
  shows "sc_inv s'"
proof -
  have "placed own s' = placed own s" for own by (rule placed_cong) (simp_all add: assms(2))
  then show ?thesis using assms by (auto simp: sc_inv_def logged_def)
qed

lemma inv_send: "sc_inv s \<Longrightarrow> sc_clients s t = C_pushed k req f \<Longrightarrow> sc_inv (SendAndRecv_send t s)"
  by (rule inv_client [where q = "sc_queue s @ [req]" and cl = "(sc_clients s)(t := C_waiting k f)"]) (auto simp: SendAndRecv_send_def sc_inv_def matched_def)

lemma inv_get:
  assumes inv: "sc_inv s" and g: "SendAndRecv_get t s = Some s'"
  shows "sc_inv s'"
proof -
  obtain k f v where "sc_clients s t = C_waiting k f" "sc_futures s f = Some v" "s' = s\<lparr>sc_clients := (sc_clients s)(t := C_done k f v)\<rparr>"
    using g by (auto simp: SendAndRecv_get_def split: client.splits)
  note e = this
  have "matched s" using inv by (simp add: sc_inv_def)
  then have "matched s'" using e(1,2) unfolding matched_def e(3) by simp
  then show ?thesis using e(3) by (intro inv_client [OF inv, where q = "sc_queue s" and cl = "(sc_clients s)(t := C_done k f v)"]) simp_all
qed

text \<open>Taking a session out of the cache, through the contract of the session store.\<close>

lemma pop_content:
  assumes "cache_inv c" "PopSession k c = Inr (v, c')"
  shows "cache_inv c'" "v = saved c k" "saved c' = (saved c)(k := None)" "m_max_size c' = m_max_size c"
proof -
  have "pop_fun k c = (v, c')" by (simp add: pop_fun_def assms(2))
  then show "cache_inv c'" "v = saved c k" "saved c' = (saved c)(k := None)"
    using cache.pop_inv [OF assms(1), of k] cache.pop_returns [OF assms(1), of k] cache.pop_content [OF assms(1), of k] by simp_all
  show "m_max_size c' = m_max_size c"
    using assms(2) unfolding PopSession_def locked_def by (auto split: if_splits option.splits)
qed

lemma inv_pop:
  assumes inv: "sc_inv s" and r: "can_return (sc_receivers s r)" and pop: "Return_pop r k resp s = Inr s'"
  shows "sc_inv s'"
proof -
  have c0: "cache_inv (sc_cache s)" and m: "matched s" and l: "logged s" using inv by (simp_all add: sc_inv_def)
  obtain own where own: "placed own s" using inv by (auto simp: sc_inv_def)
  obtain v c where p: "PopSession k (sc_cache s) = Inr (v, c)"
      "s' = s\<lparr>sc_cache := c, sc_receivers := (sc_receivers s)(r := (case v of None \<Rightarrow> R_done False | Some f \<Rightarrow> R_popped k f resp))\<rparr>"
    using pop by (auto simp: Return_pop_def cache_call_def split: sum.splits)
  note pc = pop_content [OF c0 p(1)]
  have nr: "\<nexists>k f v. sc_receivers s r = R_popped k f v" using r by (auto simp: can_return_def split: receiver.splits)
  have "\<exists>own'. placed own' s'"
  proof (cases v)
    case None
    have "placed own s'"
    proof (rule placedI)
      note P = placedD [OF own]
      fix k' g r' v'
      have "saved c = saved (sc_cache s)" using pc(2,3) None by (simp add: fun_upd_idem)
      then show "(saved (sc_cache s') k' = Some g) = (own g = Cached k')" using P(1) [of k' g] by (simp add: p(2))
      show "(\<exists>k v. sc_receivers s' r' = R_popped k g v) = (own g = Popped r')" using P(2) [of r' g] nr None by (auto simp: p(2))
    qed (use placedD [OF own] in \<open>simp_all add: p(2)\<close>)
    then show ?thesis by blast
  next
    case (Some f)
    then have f: "own f = Cached k" using pc(2) placedD(1) [OF own, of k f] by simp
    have uniq: "saved (sc_cache s) k' = Some f \<Longrightarrow> k' = k" for k' using placedD(1) [OF own, of k' f] f by simp
    have "placed (own(f := Popped r)) s'"
    proof (rule placed_move [OF own])
      fix k' g r' v'
      show "(saved (sc_cache s') k' = Some g) = (if g = f then Popped r = Cached k' else saved (sc_cache s) k' = Some g)"
        using uniq [of k'] pc(2,3) Some by (cases "k' = k") (auto simp: p(2))
      show "(\<exists>k v. sc_receivers s' r' = R_popped k g v) = (if g = f then Popped r = Popped r' else \<exists>k v. sc_receivers s r' = R_popped k g v)"
        using nr Some f placedD(2) [OF own, of r' f] by (auto simp: p(2))
      show "(sc_futures s' g = Some v') = (if g = f then Popped r = Valued v' else sc_futures s g = Some v')" using placedD(4) [OF own, of f v'] f by (simp add: p(2))
    qed (use f placedD(3,5) [OF own, of f] in \<open>simp_all add: p(2)\<close>)
    then show ?thesis by blast
  qed
  moreover have "matched s'" using m pc(2,3) unfolding matched_def p(2) by (auto split: option.splits if_splits)
  moreover have "logged s'" using l unfolding logged_def p(2) by simp
  ultimately show ?thesis using inv pc(1,4) unfolding sc_inv_def p(2) by simp
qed

text \<open>A session with a receiver or on the list of the timer has no value yet: its promise can be set.\<close>

lemma no_value:
  assumes "placed own s" "own f = Popped r \<or> own f = Timing"
  shows "sc_futures s f = None"
proof (cases "sc_futures s f")
  case (Some v)
  then show ?thesis using placedD(4) [OF assms(1), of f v] assms(2) by auto
qed

lemma SetValue_ok:
  assumes "placed own s" "own f = Popped r \<or> own f = Timing"
  shows "SetValue f v s = Inr (s\<lparr>sc_futures := (sc_futures s)(f \<mapsto> v)\<rparr>)"
  using no_value [OF assms] by (simp add: SetValue_def)

lemma logged_set:
  assumes l: "logged s" and f: "sc_futures s f = None"
    and s': "sc_futures s' = (sc_futures s)(f \<mapsto> v)" "sc_ids s' = sc_ids s" "sc_log s' = sc_log s \<and> v = [] \<or> sc_log s' = sc_log s @ [(k, f, v)] \<and> sc_ids s f = Some k"
  shows "logged s'"
proof -
  have old: "g \<noteq> f \<and> sc_ids s g = Some k' \<and> sc_futures s g = Some w" if "(k', g, w) \<in> set (sc_log s)" for k' g w
    using l that f unfolding logged_def by force
  then have "f \<notin> (fst \<circ> snd) ` set (sc_log s)" by force
  then have "distinct (map (fst \<circ> snd) (sc_log s'))" using l s'(3) unfolding logged_def by auto
  moreover have "sc_ids s' g = Some k' \<and> sc_futures s' g = Some w" if "(k', g, w) \<in> set (sc_log s')" for k' g w
    using that old [of k' g w] s' by auto
  moreover have "\<exists>k'. (k', g, w) \<in> set (sc_log s')" if "sc_futures s' g = Some w" "w \<noteq> []" for g w
    using l that s' unfolding logged_def by (cases "g = f") auto
  ultimately show ?thesis unfolding logged_def by blast
qed

lemma inv_set_response:
  assumes inv: "sc_inv s" and r: "sc_receivers s r = R_popped k f v"
  shows "\<exists>s'. Return_set r s = Inr s' \<and> sc_inv s'"
proof -
  have m: "matched s" and l: "logged s" using inv by (simp_all add: sc_inv_def)
  obtain own where own: "placed own s" using inv by (auto simp: sc_inv_def)
  have f: "own f = Popped r" using placedD(2) [OF own, of r f] r by blast
  have nf: "sc_futures s f = None" using no_value [OF own] f by blast
  let ?s = "s\<lparr>sc_futures := (sc_futures s)(f \<mapsto> v), sc_receivers := (sc_receivers s)(r := R_done True), sc_log := sc_log s @ [(k, f, v)]\<rparr>"
  have e: "Return_set r s = Inr ?s" using SetValue_ok [OF own, of f r v] f r by (simp add: Return_set_def)
  have "placed (own(f := Valued v)) ?s"
  proof (rule placed_move [OF own])
    fix k' g r'
    show "(\<exists>k v. sc_receivers ?s r' = R_popped k g v) = (if g = f then Valued v = Popped r' else \<exists>k v. sc_receivers s r' = R_popped k g v)"
      using r f placedD(2) [OF own, of r' f] by auto
    show "(saved (sc_cache ?s) k' = Some g) = (if g = f then Valued v = Cached k' else saved (sc_cache s) k' = Some g)"
      using f placedD(1) [OF own, of k' f] by simp
  qed (use f placedD(3,5) [OF own, of f] in auto)
  moreover have "matched ?s" using m nf unfolding matched_def by auto
  moreover have "sc_ids s f = Some k" using m r unfolding matched_def by blast
  then have "logged ?s" by (intro logged_set [OF l nf, where v = v and k = k]) simp_all
  ultimately show ?thesis using e inv unfolding sc_inv_def by auto
qed

lemma inv_set_timeout:
  assumes inv: "sc_inv s" and t: "sc_timer s = f # fs"
  shows "\<exists>s'. Run_set s = Inr s' \<and> sc_inv s'"
proof -
  have m: "matched s" and l: "logged s" and d: "distinct (sc_timer s)" using inv by (simp_all add: sc_inv_def)
  obtain own where own: "placed own s" using inv by (auto simp: sc_inv_def)
  have f: "own f = Timing" using placedD(3) [OF own, of f] t by simp
  have nf: "sc_futures s f = None" using no_value [OF own] f by blast
  let ?s = "s\<lparr>sc_futures := (sc_futures s)(f \<mapsto> []), sc_timer := fs\<rparr>"
  have e: "Run_set s = Inr ?s" using SetValue_ok [OF own, of f 0 "[]"] f t by (simp add: Run_set_def)
  have "placed (own(f := Valued [])) ?s"
  proof (rule placed_move [OF own])
    fix k' g r'
    show "(\<exists>k v. sc_receivers ?s r' = R_popped k g v) = (if g = f then Valued [] = Popped r' else \<exists>k v. sc_receivers s r' = R_popped k g v)"
      using f placedD(2) [OF own, of r' f] by simp
    show "(saved (sc_cache ?s) k' = Some g) = (if g = f then Valued [] = Cached k' else saved (sc_cache s) k' = Some g)"
      using f placedD(1) [OF own, of k' f] by simp
    show "(g \<in> set (sc_timer ?s)) = (if g = f then Valued [] = Timing else g \<in> set (sc_timer s))" using t d by auto
  qed (use f placedD(5) [OF own, of f] in auto)
  moreover have "matched ?s" using m nf unfolding matched_def by auto
  moreover have "logged ?s" by (rule logged_set [OF l nf, where v = "[]"]) simp_all
  ultimately show ?thesis using e inv t unfolding sc_inv_def by auto
qed

lemma clear_content:
  assumes "cache_inv c" "ClearTimeout_collect now ([], []) c = Inr ((vs, ks), c')"
  shows "cache_inv c'" "distinct (map fst (sessions c))"
    "\<exists>T. sessions c = T @ sessions c' \<and> vs = map (fst \<circ> snd) T" "m_max_size c' = m_max_size c"
proof -
  obtain c2 where c2: "ClearTimeout_collect now ([], []) c =
       Inr ((map (fst \<circ> snd) (takeWhile (\<lambda>(k, v, ts). m_timeout c \<le> now - ts) (sessions c)),
             map fst (takeWhile (\<lambda>(k, v, ts). m_timeout c \<le> now - ts) (sessions c))), c2)"
       "cache_inv c2" "sessions c2 = dropWhile (\<lambda>(k, v, ts). m_timeout c \<le> now - ts) (sessions c)"
    using ClearTimeout_spec(3) [OF assms(1), of now "([], [])"] by auto
  then have e: "c' = c2" "vs = map (fst \<circ> snd) (takeWhile (\<lambda>(k, v, ts). m_timeout c \<le> now - ts) (sessions c))" using assms(2) by auto
  show "cache_inv c'" using c2(2) e(1) by simp
  show "distinct (map fst (sessions c))" by (rule inv_keys(1) [OF assms(1)])
  show "\<exists>T. sessions c = T @ sessions c' \<and> vs = map (fst \<circ> snd) T"
    by (rule exI [of _ "takeWhile (\<lambda>(k, v, ts). m_timeout c \<le> now - ts) (sessions c)"]) (simp add: e c2(3))
  show "m_max_size c' = m_max_size c"
    using assms(2) unfolding ClearTimeout_collect_def locked_def by (auto simp: clear_old_def Let_def split: if_splits prod.splits)
qed

lemma saved_sessions: "distinct (map fst (sessions c)) \<Longrightarrow> saved c k = Some f \<longleftrightarrow> (\<exists>t. (k, f, t) \<in> set (sessions c))"
  by (auto simp: saved_def)

lemma inv_clear:
  assumes inv: "sc_inv s" and t: "sc_timer s = []" and clear: "Run_clear now s = Inr s'"
  shows "sc_inv s'"
proof -
  have c0: "cache_inv (sc_cache s)" and m: "matched s" and l: "logged s" using inv by (simp_all add: sc_inv_def)
  obtain own where own: "placed own s" using inv by (auto simp: sc_inv_def)
  note P = placedD [OF own]
  obtain vs ks c where p: "ClearTimeout_collect now ([], []) (sc_cache s) = Inr ((vs, ks), c)" "s' = s\<lparr>sc_cache := c, sc_timer := vs\<rparr>"
    using clear by (auto simp: Run_clear_def cache_call_def split: sum.splits)
  note cc = clear_content [OF c0 p(1)]
  obtain T where T: "sessions (sc_cache s) = T @ sessions c" "vs = map (fst \<circ> snd) T" using cc(3) by blast
  have dT: "distinct (map fst (T @ sessions c))" using cc(2) unfolding T(1) .
  then have dc: "distinct (map fst (sessions c))" unfolding map_append distinct_append by blast
  have old: "saved (sc_cache s) k = Some f \<longleftrightarrow> saved c k = Some f \<or> (\<exists>ts. (k, f, ts) \<in> set T)" for k f
    unfolding saved_sessions [OF cc(2)] saved_sessions [OF dc] T(1) by auto
  have vs: "f \<in> set vs \<longleftrightarrow> (\<exists>k ts. (k, f, ts) \<in> set T)" for f unfolding T(2) by force
  have excl: "\<not> (saved c k = Some f \<and> f \<in> set vs)" for k f
  proof
    assume a: "saved c k = Some f \<and> f \<in> set vs"
    then obtain k' ts where k': "(k', f, ts) \<in> set T" using vs by blast
    then have "k' = k" using P(1) [of k f] P(1) [of k' f] old a by auto
    moreover have "k \<in> fst ` set (sessions c)" using a saved_sessions [OF dc, of k f] by force
    ultimately show False using dT k' by force
  qed
  have "inj_on (fst \<circ> snd) (set T)"
  proof (rule inj_onI)
    fix x y assume xy: "x \<in> set T" "y \<in> set T" "(fst \<circ> snd) x = (fst \<circ> snd) y"
    then have "fst x = fst y" using old [of "fst x" "fst (snd x)"] old [of "fst y" "fst (snd y)"] P(1) [of "fst x"] P(1) [of "fst y"]
      by (metis comp_apply place.inject(1) prod.collapse)
    moreover have "inj_on fst (set T)" using dT by (auto simp: distinct_map)
    ultimately show "x = y" using xy(1,2) by (simp add: inj_on_def)
  qed
  moreover have "distinct T" using dT by (auto simp: distinct_map)
  ultimately have dvs: "distinct vs" unfolding T(2) by (simp add: distinct_map)
  let ?own = "\<lambda>f. if f \<in> set vs then Timing else own f"
  have "placed ?own s'"
  proof (rule placedI)
    fix k g r v
    show "(saved (sc_cache s') k = Some g) = (?own g = Cached k)" using excl [of k g] old [of k g] P(1) [of k g] vs [of g] by (auto simp: p(2))
    have c: "g \<in> set vs \<Longrightarrow> \<exists>k. own g = Cached k" using vs [of g] old [of _ g] P(1) [of _ g] by blast
    show "(\<exists>k v. sc_receivers s' r = R_popped k g v) = (?own g = Popped r)" using c P(2) [of r g] by (auto simp: p(2))
    show "(g \<in> set (sc_timer s')) = (?own g = Timing)" using P(3) [of g] t by (auto simp: p(2))
    show "(sc_futures s' g = Some v) = (?own g = Valued v)" using c P(4) [of g v] by (auto simp: p(2))
    show "(g \<in> sc_dropped s') = (?own g = Dropped)" using c P(5) [of g] by (auto simp: p(2))
    show "(?own g = Nowhere) = (sc_ids s' g = None)" using c P(6) [of g] by (auto simp: p(2))
    show "g < sc_next s'" if "?own g \<noteq> Nowhere" using c P(7) [of g] that by (auto simp: p(2) split: if_splits)
  qed
  moreover have "matched s'" using m old unfolding matched_def p(2) by simp
  moreover have "logged s'" using l unfolding logged_def p(2) by simp
  ultimately show ?thesis using inv cc(1,4) dvs unfolding sc_inv_def p(2) by auto
qed

lemma sc_step_inv: "sc_step n s s' \<Longrightarrow> sc_inv s \<Longrightarrow> sc_inv s'"
proof (induction rule: sc_step.induct)
  case (set_response s r k f v s')
  then show ?case using inv_set_response [of s r k f v] by auto
next
  case (set_timeout s s')
  then show ?case using inv_set_timeout [of s] by (cases "sc_timer s") auto
qed (auto intro: inv_push inv_send inv_get inv_pop inv_clear)

lemma sc_reach_inv: "sc_reach n s \<Longrightarrow> sc_inv s"
  by (induction rule: sc_reach.induct) (auto intro: inv_start sc_step_inv)

section \<open>Properties\<close>

lemma ops_return:
  assumes inv: "sc_inv s"
  shows "\<exists>s'. SendAndRecv_push now t k req s = Inr s'" "\<exists>s'. Return_pop r k v s = Inr s'" "\<exists>s'. Return_set r s = Inr s'"
    "\<exists>s'. Run_clear now s = Inr s'" "\<exists>s'. Run_set s = Inr s'"
proof -
  have c: "cache_inv (sc_cache s)" using inv by (simp add: sc_inv_def)
  show "\<exists>s'. SendAndRecv_push now t k req s = Inr s'" by (rule push_cases [OF inv, of now t k req]) auto
  show "\<exists>s'. Return_pop r k v s = Inr s'" using PopSession_spec [OF c, of k] by (auto simp: Return_pop_def cache_call_def)
  show "\<exists>s'. Return_set r s = Inr s'" using inv_set_response [OF inv, of r] by (cases "sc_receivers s r") (auto simp: Return_set_def)
  show "\<exists>s'. Run_clear now s = Inr s'" using ClearTimeout_spec(3) [OF c, of now "([], [])"] by (auto simp: Run_clear_def cache_call_def)
  show "\<exists>s'. Run_set s = Inr s'" using inv_set_timeout [OF inv] by (cases "sc_timer s") (auto simp: Run_set_def)
qed

text \<open>
  C13. Requests and responses are matched: whatever the threads do, a call of \<open>SendAndRecv\<close> that
  returns true delivers a response that \<open>Return\<close> was given for the id of this call and set in the
  session of this call, no session is answered twice, and no step of any thread throws (no promise
  is set twice) or fails in the cache.
\<close>

theorem sync_comm_correlated:
  assumes "sc_reach n s"
  shows "(\<forall>t k f v. sc_clients s t = C_done k f v \<and> SendAndRecv_result (C_done k f v) = Some (True, Some v) \<longrightarrow> (k, f, v) \<in> set (sc_log s)) \<and>
     distinct (map (fst \<circ> snd) (sc_log s)) \<and>
     (\<forall>now t k req. \<exists>s'. SendAndRecv_push now t k req s = Inr s') \<and> (\<forall>r k v. \<exists>s'. Return_pop r k v s = Inr s') \<and> (\<forall>r. \<exists>s'. Return_set r s = Inr s') \<and>
     (\<forall>now. \<exists>s'. Run_clear now s = Inr s') \<and> (\<exists>s'. Run_set s = Inr s')"
proof -
  have inv: "sc_inv s" using assms by (rule sc_reach_inv)
  have m: "matched s" and l: "logged s" using inv by (simp_all add: sc_inv_def)
  have "(k, f, v) \<in> set (sc_log s)" if c: "sc_clients s t = C_done k f v" "v \<noteq> []" for t k f v
  proof -
    have f: "sc_ids s f = Some k" "sc_futures s f = Some v" using m c(1) unfolding matched_def by blast+
    then obtain k' where k': "(k', f, v) \<in> set (sc_log s)" using l c(2) unfolding logged_def by blast
    then have "sc_ids s f = Some k'" using l unfolding logged_def by blast
    with f(1) k' show ?thesis by simp
  qed
  moreover have "distinct (map (fst \<circ> snd) (sc_log s))" using l by (simp add: logged_def)
  ultimately show ?thesis using ops_return [OF inv] by (auto simp: SendAndRecv_result_def)
qed

text \<open>A push into a cache with at most 100 sessions drops none.\<close>

lemma push_keeps:
  assumes inv: "cache_inv c" "m_max_size c = 100" and len: "length (m_list c) \<le> 100" and p: "PushSession now k v c = Inr (b, c')"
  shows "sessions c' = (if b then sessions c @ [(k, v, now)] else sessions c)" "b = (k \<notin> fst ` set (sessions c))"
proof -
  have "length (sessions c) \<le> m_max_size c" using inv(2) len by (simp add: sessions_def)
  then have "sessions (AutoClearTimeout now c) = sessions c" using AutoClear_spec(2) [OF inv(1), of now] by simp
  then show "sessions c' = (if b then sessions c @ [(k, v, now)] else sessions c)" "b = (k \<notin> fst ` set (sessions c))"
    using PushSession_spec [OF inv(1), of now k v] p by (auto simp: Let_def)
qed

lemma push_drops_none:
  assumes inv: "sc_inv s" and len: "length (m_list (sc_cache s)) \<le> 100" and push: "SendAndRecv_push now t k req s = Inr s'"
  shows "sc_dropped s' = sc_dropped s"
proof -
  have c0: "cache_inv (sc_cache s)" "m_max_size (sc_cache s) = 100" using inv by (simp_all add: sc_inv_def)
  have keep: "cached s - {f. \<exists>k. saved c k = Some f} = {}" if "PushSession now k (sc_next s) (sc_cache s) = Inr (b, c)" "cache_inv c" for b c
  proof -
    have "set (sessions (sc_cache s)) \<subseteq> set (sessions c)" using push_keeps(1) [OF c0 len that(1)] by (auto split: if_splits)
    then show ?thesis
      unfolding cached_def saved_sessions [OF inv_keys(1) [OF c0(1)]] saved_sessions [OF inv_keys(1) [OF that(2)]] by blast
  qed
  show ?thesis
    by (rule push_cases [OF inv, of now t k req]) (use push keep in auto)
qed

lemma no_drops: "sc_reach n s \<Longrightarrow> n \<le> 100 \<Longrightarrow> sc_dropped s = {}"
proof (induction rule: sc_reach.induct)
  case (start timeout)
  then show ?case by (simp add: SyncComm_Init_def SyncComm_new_def)
next
  case (step s s')
  have inv: "sc_inv s" using step.hyps(1) by (rule sc_reach_inv)
  show ?case using step.hyps(2)
  proof (cases rule: sc_step.cases)
    case (push t now sid request)
    then show ?thesis using push_drops_none [OF inv, of now t sid request s'] step by simp
  qed (use step in \<open>auto simp: SendAndRecv_send_def SendAndRecv_get_def Return_pop_def Return_set_def Run_clear_def Run_set_def SetValue_def cache_call_def
      split: client.splits receiver.splits sum.splits list.splits if_splits\<close>)
qed

text \<open>
  C14. No client is forgotten as long as there are at most 100 sessions in the cache when a client
  pushes: a client that waits either has its value or its session is in the cache under its id, where
  a response or the timer finds it, or with a thread that is about to set its value.
\<close>

theorem sync_comm_no_client_lost:
  assumes "sc_reach 100 s" "sc_clients s t = C_waiting k f"
  shows "sc_futures s f \<noteq> None \<or> saved (sc_cache s) k = Some f \<or> (\<exists>r v. sc_receivers s r = R_popped k f v) \<or> f \<in> set (sc_timer s)"
proof -
  have inv: "sc_inv s" using assms(1) by (rule sc_reach_inv)
  then have m: "matched s" by (simp add: sc_inv_def)
  obtain own where own: "placed own s" using inv by (auto simp: sc_inv_def)
  note P = placedD [OF own]
  have k: "sc_ids s f = Some k" using m assms(2) unfolding matched_def by blast
  have nd: "own f \<noteq> Dropped" using P(5) [of f] no_drops [OF assms(1)] by simp
  have c: "k' = k" if "sc_ids s f = Some k'" for k' using that k by simp
  show ?thesis
  proof (cases "own f")
    case (Cached k')
    then show ?thesis using P(1) [of k' f] c [of k'] m unfolding matched_def by auto
  next
    case (Popped r)
    then obtain k' v where "sc_receivers s r = R_popped k' f v" using P(2) [of r f] by blast
    moreover from this have "k' = k" using m c unfolding matched_def by blast
    ultimately show ?thesis by blast
  qed (use P(3,4,6) [of f] k nd in auto)
qed

text \<open>One call of \<open>SendAndRecv\<close> with the id A, the request 1 and the response 2.\<close>

definition after_push :: sync_comm where
  "after_push = projr (SendAndRecv_push 0 0 [65] [1] (SyncComm_Init 60 SyncComm_new))"

definition after_send :: sync_comm where
  "after_send = SendAndRecv_send 0 after_push"

definition after_set :: sync_comm where
  "after_set = projr (Return_set 0 (projr (Return_pop 0 [65] [2] after_send)))"

lemmas call_defs = SendAndRecv_push_def SyncComm_Init_def SyncComm_new_def SetTimeout_def SessionCache_new_def PushSession_def locked_def
  AutoClearTimeout_def Let_def cache_call_def SendAndRecv_send_def Return_pop_def PopSession_def Return_set_def SetValue_def erase_def

lemma call_states:
  "SendAndRecv_push 0 0 [65] [1] (SyncComm_Init 60 SyncComm_new) = Inr after_push" "sc_clients after_push 0 = C_pushed [65] [1] 0"
  "sc_clients after_send 0 = C_waiting [65] 0" "sc_receivers after_send 0 = R_idle"
  "Return_pop 0 [65] [2] after_send = Inr (projr (Return_pop 0 [65] [2] after_send))"
  "sc_receivers (projr (Return_pop 0 [65] [2] after_send)) 0 = R_popped [65] 0 [2]"
  "Return_set 0 (projr (Return_pop 0 [65] [2] after_send)) = Inr after_set"
  "SendAndRecv_get 0 after_set = Some (after_set\<lparr>sc_clients := (sc_clients after_set)(0 := C_done [65] 0 [2])\<rparr>)"
  by (simp_all add: after_push_def after_send_def after_set_def call_defs SendAndRecv_get_def)

lemma reach_after_send: "sc_reach 100 after_send"
proof -
  have "length (m_list (sc_cache (SyncComm_Init 60 SyncComm_new))) \<le> 100" "can_call (sc_clients (SyncComm_Init 60 SyncComm_new) 0)"
    by (simp_all add: call_defs can_call_def)
  from sc_step.push [OF this(2,1) call_states(1)] have "sc_reach 100 after_push" by (rule sc_reach.step [OF sc_reach.start])
  then show ?thesis unfolding after_send_def by (rule sc_reach.step) (rule sc_step.send [OF call_states(2)])
qed

lemma reach_after_get: "sc_reach 100 (after_set\<lparr>sc_clients := (sc_clients after_set)(0 := C_done [65] 0 [2])\<rparr>)"
proof -
  have "can_return (sc_receivers after_send 0)" by (simp add: call_states(4) can_return_def)
  from sc_step.pop [OF this call_states(5)] have "sc_reach 100 (projr (Return_pop 0 [65] [2] after_send))" by (rule sc_reach.step [OF reach_after_send])
  from sc_reach.step [OF this sc_step.set_response [OF call_states(6,7)]] show ?thesis by (rule sc_reach.step) (rule sc_step.get [OF call_states(8)])
qed

theorem sync_comm_correlated_witness:
  "([65], 0, [2]) \<in> set (sc_log (after_set\<lparr>sc_clients := (sc_clients after_set)(0 := C_done [65] 0 [2])\<rparr>))"
proof -
  have "sc_clients (after_set\<lparr>sc_clients := (sc_clients after_set)(0 := C_done [65] 0 [2])\<rparr>) 0 = C_done [65] 0 [2] \<and>
    SendAndRecv_result (C_done [65] 0 [2]) = Some (True, Some [2])" by (simp add: SendAndRecv_result_def)
  then show ?thesis using sync_comm_correlated [OF reach_after_get] by blast
qed

theorem sync_comm_no_client_lost_witness:
  "sc_clients after_send 0 = C_waiting [65] 0 \<and>
   ((\<exists>v. sc_futures after_send 0 = Some v) \<or> saved (sc_cache after_send) [65] = Some 0 \<or>
    (\<exists>r v. sc_receivers after_send r = R_popped [65] 0 v) \<or> 0 \<in> set (sc_timer after_send))"
  using sync_comm_no_client_lost [OF reach_after_send call_states(3)] call_states(3) unfolding not_None_eq by (intro conjI)

section \<open>Overload\<close>

text \<open>A client whose session was dropped waits for ever.\<close>

lemma dropped_stuck:
  assumes "sc_step n s s'" "sc_inv s" "sc_clients s t = C_waiting k f" "f \<in> sc_dropped s"
  shows "sc_clients s' t = C_waiting k f \<and> f \<in> sc_dropped s'"
proof -
  obtain own where own: "placed own s" using assms(2) by (auto simp: sc_inv_def)
  have "own f = Dropped" using placedD(5) [OF own, of f] assms(4) by simp
  then have nf: "sc_futures s f = None" using placedD(4) [OF own, of f] by (cases "sc_futures s f") fastforce+
  from assms(1) show ?thesis
  proof (cases rule: sc_step.cases)
    case (push t' now sid request)
    then have "t' \<noteq> t" using assms(3) by (auto simp: can_call_def)
    then show ?thesis using push(3) assms(3,4) by (auto simp: SendAndRecv_push_def cache_call_def Let_def split: sum.splits if_splits)
  next
    case (get t')
    then show ?thesis using assms(3,4) nf by (cases "t' = t") (auto simp: SendAndRecv_get_def split: client.splits)
  qed (use assms(3,4) in \<open>auto simp: SendAndRecv_send_def Return_pop_def Return_set_def Run_clear_def Run_set_def SetValue_def cache_call_def
      split: receiver.splits sum.splits list.splits if_splits\<close>)
qed

lemma dropped_stuck_forever:
  "(sc_step m)\<^sup>*\<^sup>* s s' \<Longrightarrow> sc_inv s \<Longrightarrow> sc_clients s t = C_waiting k f \<Longrightarrow> f \<in> sc_dropped s \<Longrightarrow>
     sc_clients s' t = C_waiting k f \<and> f \<in> sc_dropped s' \<and> sc_inv s'"
proof (induction rule: rtranclp_induct)
  case (step s1 s2)
  then show ?case using dropped_stuck [OF step.hyps(2), of t k f] sc_step_inv [OF step.hyps(2)] by blast
qed simp

text \<open>A state with \<open>n\<close> clients that have pushed their sessions at time 0.\<close>

definition crowd :: "nat \<Rightarrow> sync_comm \<Rightarrow> bool" where
  "crowd n s \<longleftrightarrow> sc_reach 101 s \<and> sessions (sc_cache s) = map (\<lambda>i. (replicate i 65, i, 0)) [0..<n] \<and> sc_next s = n \<and> m_timeout (sc_cache s) = 60 \<and>
     sc_clients s = (\<lambda>i. if i < n then C_pushed (replicate i 65) [] i else C_idle)"

lemma push_timeout: "PushSession now k v c = Inr (b, c') \<Longrightarrow> m_timeout c' = m_timeout c"
  unfolding PushSession_def locked_def by (auto simp: AutoClearTimeout_def clear_old_def Let_def split: if_splits prod.splits)

lemma crowd_exists: "n \<le> 101 \<Longrightarrow> \<exists>s. crowd n s"
proof (induction n)
  case 0
  have "crowd 0 (SyncComm_Init 0 SyncComm_new)"
    by (simp add: crowd_def sc_reach.start) (simp add: SyncComm_Init_def SyncComm_new_def SetTimeout_def SessionCache_new_def sessions_def)
  then show ?case by blast
next
  case (Suc n)
  then obtain s where s: "sc_reach 101 s" "sessions (sc_cache s) = map (\<lambda>i. (replicate i 65, i, 0)) [0..<n]" "sc_next s = n" "m_timeout (sc_cache s) = 60"
      "sc_clients s = (\<lambda>i. if i < n then C_pushed (replicate i 65) [] i else C_idle)" by (auto simp: crowd_def)
  have inv: "sc_inv s" using s(1) by (rule sc_reach_inv)
  have c0: "cache_inv (sc_cache s)" "m_max_size (sc_cache s) = 100" using inv by (simp_all add: sc_inv_def)
  have "length (m_list (sc_cache s)) = length (sessions (sc_cache s))" by (simp add: sessions_def)
  then have len: "length (m_list (sc_cache s)) \<le> 100" using s(2) Suc.prems by simp
  have fresh: "replicate n (65 :: byte) \<notin> fst ` set (sessions (sc_cache s))"
  proof
    assume "replicate n (65 :: byte) \<in> fst ` set (sessions (sc_cache s))"
    then obtain i where "i < n" "replicate n (65 :: byte) = replicate i 65" unfolding s(2) by auto
    then show False by (metis length_replicate nat_neq_iff)
  qed
  show ?case
  proof (rule push_cases [OF inv, of 0 n "replicate n 65" "[]"])
    fix s' c assume a: "SendAndRecv_push 0 n (replicate n 65) [] s = Inr s'" "PushSession 0 (replicate n 65) (sc_next s) (sc_cache s) = Inr (True, c)"
      "s' = s\<lparr>sc_cache := c, sc_next := Suc (sc_next s), sc_dropped := sc_dropped s \<union> (cached s - {f. \<exists>k. saved c k = Some f}),
        sc_clients := (sc_clients s)(n := C_pushed (replicate n 65) [] (sc_next s)), sc_ids := (sc_ids s)(sc_next s \<mapsto> replicate n 65)\<rparr>"
    have "sc_step 101 s s'" using a(1) len s(5) by (intro sc_step.push [of s n 101 0 "replicate n 65" "[]"]) (simp_all add: can_call_def)
    then have r: "sc_reach 101 s'" by (rule sc_reach.step [OF s(1)])
    have "sessions c = sessions (sc_cache s) @ [(replicate n 65, n, 0)]" using push_keeps(1) [OF c0 len a(2)] s(3) by simp
    moreover have "sc_cache s' = c" "sc_next s' = Suc n" using a(3) s(3) by simp_all
    moreover have "sc_clients s' = (\<lambda>i. if i < Suc n then C_pushed (replicate i 65) [] i else C_idle)" using a(3) s(3,5) by (auto simp: fun_eq_iff)
    ultimately have "crowd (Suc n) s'" unfolding crowd_def using r s(2,4) push_timeout [OF a(2)] by simp
    then show ?thesis by blast
  next
    fix s' c assume "PushSession 0 (replicate n 65) (sc_next s) (sc_cache s) = Inr (False, c)"
    from push_keeps(2) [OF c0 len this] fresh show ?thesis by simp
  qed
qed

text \<open>
  With more than 100 sessions in the cache a client can be lost: \<open>PushSession\<close> then removes the
  sessions that have timed out and hands them to nobody, so that their values are never set. There is
  a reachable state from which a client waits in every state any of the threads can ever reach; the
  timeout does not free it.
\<close>

theorem sync_comm_overload_hang:
  "\<exists>s t k f. sc_reach 101 s \<and> sc_clients s t = C_waiting k f \<and> {s'. \<exists>m. (sc_step m)\<^sup>*\<^sup>* s s'} \<subseteq> {s'. sc_clients s' t = C_waiting k f}"
proof -
  obtain s where s: "sc_reach 101 s" "sessions (sc_cache s) = map (\<lambda>i. (replicate i 65, i, 0)) [0..<101]" "sc_next s = 101" "m_timeout (sc_cache s) = 60"
      "sc_clients s = (\<lambda>i. if i < 101 then C_pushed (replicate i 65) [] i else C_idle)" using crowd_exists [of 101] by (auto simp: crowd_def)
  define s1 where "s1 = SendAndRecv_send 0 s"
  have e1: "s1 = s\<lparr>sc_queue := sc_queue s @ [[]], sc_clients := (sc_clients s)(0 := C_waiting [] 0)\<rparr>" by (simp add: s1_def SendAndRecv_send_def s(5))
  have r1: "sc_reach 101 s1" unfolding s1_def by (rule sc_reach.step [OF s(1)]) (rule sc_step.send [of s 0 "[]" "[]" 0], simp add: s(5))
  have inv: "sc_inv s1" using r1 by (rule sc_reach_inv)
  then have c0: "cache_inv (sc_cache s1)" "m_max_size (sc_cache s1) = 100" by (simp_all add: sc_inv_def)
  have ses: "sessions (sc_cache s1) = map (\<lambda>i. (replicate i 65, i, 0)) [0..<101]" "m_timeout (sc_cache s1) = 60" using s(2,4) e1 by simp_all
  have "dropWhile (\<lambda>(k, v, t). 60 \<le> 60 - t) (sessions (sc_cache s1)) = []" unfolding ses(1) by (simp add: dropWhile_eq_Nil_conv del: upt_rec_numeral)
  then have clr: "sessions (AutoClearTimeout 60 (sc_cache s1)) = []"
    using AutoClear_spec(2) [OF c0(1), of 60] ses c0(2) by (simp del: upt_rec_numeral)
  obtain b c where p: "PushSession 60 [66] 101 (sc_cache s1) = Inr (b, c)" "cache_inv c" "sessions c = [([66], 101, 60)]"
    using PushSession_spec [OF c0(1), of 60 "[66]" 101] clr by auto
  obtain s2 where s2: "SendAndRecv_push 60 101 [66] [] s1 = Inr s2" using ops_return(1) [OF inv] by blast
  have len: "length (m_list (sc_cache s1)) \<le> 101" using arg_cong [OF ses(1), of length] by (simp add: sessions_def del: upt_rec_numeral)
  have step: "sc_step 101 s1 s2" by (rule sc_step.push [OF _ len s2]) (simp add: e1 s(5) can_call_def)
  have r2: "sc_reach 101 s2" by (rule sc_reach.step [OF r1 step])
  have "saved (sc_cache s1) [] = Some 0"
    unfolding saved_sessions [OF inv_keys(1) [OF c0(1)]] ses(1) by (rule exI [of _ 0]) (force simp del: upt_rec_numeral)
  moreover have "saved c k \<noteq> Some 0" for k unfolding saved_sessions [OF inv_keys(1) [OF p(2)]] p(3) by simp
  ultimately have "0 \<in> cached s1 - {f. \<exists>k. saved c k = Some f}" by (auto simp: cached_def)
  moreover have "PushSession 60 [66] (sc_next s1) (sc_cache s1) = Inr (b, c)" using p(1) e1 s(3) by simp
  ultimately have d: "0 \<in> sc_dropped s2 \<and> sc_clients s2 0 = C_waiting [] 0"
    by (rule_tac push_cases [OF inv, of 60 101 "[66]" "[]"]) (use s2 e1 in auto)
  have "sc_clients s' 0 = C_waiting [] 0" if "(sc_step m)\<^sup>*\<^sup>* s2 s'" for m s'
    using dropped_stuck_forever [OF that sc_reach_inv [OF r2]] d by blast
  then show ?thesis using r2 d by (intro exI [of _ s2] exI [of _ 0] exI [of _ "[]"]) blast
qed

end
