(* ===== verification/Min_Heap.thy ===== *)
theory Min_Heap
  imports Prelude "HOL-Library.Multiset"
begin

text \<open>
  The timer heap of the bundled libevent (\<open>sample/tcp/libevent/minheap-internal.h\<close>): an array of
  event pointers in heap order of the events' timeouts, each event knowing its index. Events are
  numbers, what the code stores in them (\<open>ev_timeout\<close>, \<open>min_heap_idx\<close>) is the map \<open>mh_ev\<close>.
  Indices are natural numbers: \<open>2 * (hole_index + 1)\<close> does not wrap in an \<open>unsigned\<close> while the heap
  holds fewer than \<open>2 ^ 31\<close> events. The answer of \<open>mm_realloc\<close> is an argument.
\<close>

record timeval =
  tv_sec :: int
  tv_usec :: int

record heap_event =
  ev_timeout :: timeval
  min_heap_idx :: int

record min_heap =
  mh_p :: "nat list"
  mh_n :: nat
  mh_a :: nat
  mh_ev :: "nat \<Rightarrow> heap_event"

section \<open>Operations\<close>

definition timer_greater :: "timeval \<Rightarrow> timeval \<Rightarrow> bool" where
  "timer_greater t u \<longleftrightarrow> (if tv_sec t = tv_sec u then tv_usec t > tv_usec u else tv_sec t > tv_sec u)"

definition min_heap_elem_greater :: "min_heap \<Rightarrow> nat \<Rightarrow> nat \<Rightarrow> bool" where
  "min_heap_elem_greater s x y \<longleftrightarrow> timer_greater (ev_timeout (mh_ev s x)) (ev_timeout (mh_ev s y))"

definition set_idx :: "nat \<Rightarrow> int \<Rightarrow> min_heap \<Rightarrow> min_heap" where
  "set_idx e i s = s\<lparr>mh_ev := (mh_ev s)(e := (mh_ev s e)\<lparr>min_heap_idx := i\<rparr>)\<rparr>"

definition min_heap_ctor :: "(nat \<Rightarrow> heap_event) \<Rightarrow> min_heap" where
  "min_heap_ctor ev = \<lparr>mh_p = [], mh_n = 0, mh_a = 0, mh_ev = ev\<rparr>"

definition min_heap_elem_init :: "nat \<Rightarrow> min_heap \<Rightarrow> min_heap" where
  "min_heap_elem_init e = set_idx e (- 1)"

definition min_heap_empty :: "min_heap \<Rightarrow> bool" where
  "min_heap_empty s \<longleftrightarrow> 0 = mh_n s"

definition min_heap_size :: "min_heap \<Rightarrow> nat" where
  "min_heap_size s = mh_n s"

definition min_heap_top :: "min_heap \<Rightarrow> nat option" where
  "min_heap_top s = (if mh_n s \<noteq> 0 then Some (mh_p s ! 0) else None)"

definition min_heap_elt_is_top :: "nat \<Rightarrow> min_heap \<Rightarrow> bool" where
  "min_heap_elt_is_top e s \<longleftrightarrow> min_heap_idx (mh_ev s e) = 0"

text \<open>\<open>(s->p[i] = e)->ev_timeout_pos.min_heap_idx = i\<close>.\<close>

definition put :: "nat \<Rightarrow> nat \<Rightarrow> min_heap \<Rightarrow> min_heap" where
  "put i e s = set_idx e (int i) (s\<lparr>mh_p := (mh_p s)[i := e]\<rparr>)"

fun min_heap_shift_up :: "nat \<Rightarrow> nat \<Rightarrow> min_heap \<Rightarrow> min_heap" where
  "min_heap_shift_up hole_index e s =
     (let parent = (hole_index - 1) div 2 in
      if hole_index \<noteq> 0 \<and> min_heap_elem_greater s (mh_p s ! parent) e
      then min_heap_shift_up parent e (put hole_index (mh_p s ! parent) s)
      else put hole_index e s)"

function min_heap_shift_down :: "nat \<Rightarrow> nat \<Rightarrow> min_heap \<Rightarrow> min_heap" where
  "min_heap_shift_down hole_index e s =
     (let right = 2 * (hole_index + 1) in
      if right \<le> mh_n s
      then let min_child = (if right = mh_n s \<or> min_heap_elem_greater s (mh_p s ! right) (mh_p s ! (right - 1))
                            then right - 1 else right) in
           if \<not> min_heap_elem_greater s e (mh_p s ! min_child) then put hole_index e s
           else min_heap_shift_down min_child e (put hole_index (mh_p s ! min_child) s)
      else put hole_index e s)"
  by pat_completeness auto
termination
  by (relation "measure (\<lambda>(h, e, s). mh_n s - h)") (auto simp: Let_def put_def set_idx_def split: if_splits)

text \<open>\<open>mm_realloc\<close> keeps the pointers there are; the new ones have no particular value.\<close>

definition min_heap_reserve :: "bool \<Rightarrow> nat list \<Rightarrow> nat \<Rightarrow> min_heap \<Rightarrow> int \<times> min_heap" where
  "min_heap_reserve mem junk n s =
     (if mh_a s < n
      then let a = (if mh_a s \<noteq> 0 then mh_a s * 2 else 8); a = (if a < n then n else a) in
           if \<not> mem then (- 1, s)
           else (0, s\<lparr>mh_p := mh_p s @ map (\<lambda>i. if i < length junk then junk ! i else 0) [0..<a - mh_a s], mh_a := a\<rparr>)
      else (0, s))"

definition min_heap_push :: "bool \<Rightarrow> nat list \<Rightarrow> nat \<Rightarrow> min_heap \<Rightarrow> int \<times> min_heap" where
  "min_heap_push mem junk e s =
     (let (r, s1) = min_heap_reserve mem junk (mh_n s + 1) s in
      if r \<noteq> 0 then (- 1, s1)
      else (0, min_heap_shift_up (mh_n s1) e (s1\<lparr>mh_n := mh_n s1 + 1\<rparr>)))"

definition min_heap_pop :: "min_heap \<Rightarrow> nat option \<times> min_heap" where
  "min_heap_pop s =
     (if mh_n s \<noteq> 0
      then let e = mh_p s ! 0; s1 = s\<lparr>mh_n := mh_n s - 1\<rparr> in
           (Some e, set_idx e (- 1) (min_heap_shift_down 0 (mh_p s1 ! mh_n s1) s1))
      else (None, s))"

definition min_heap_erase :: "nat \<Rightarrow> min_heap \<Rightarrow> int \<times> min_heap" where
  "min_heap_erase e s =
     (if - 1 \<noteq> min_heap_idx (mh_ev s e)
      then let s1 = s\<lparr>mh_n := mh_n s - 1\<rparr>; last = mh_p s1 ! mh_n s1;
               i = nat (min_heap_idx (mh_ev s e)); parent = (i - 1) div 2 in
           (0, set_idx e (- 1)
                 (if min_heap_idx (mh_ev s e) > 0 \<and> min_heap_elem_greater s1 (mh_p s1 ! parent) last
                  then min_heap_shift_up i last s1
                  else min_heap_shift_down i last s1))
      else (- 1, s))"

declare min_heap_shift_up.simps [simp del] min_heap_shift_down.simps [simp del]

section \<open>Invariant\<close>

text \<open>The events in the heap, the timeout they are ordered by, and the order of the array.\<close>

definition mh_list :: "min_heap \<Rightarrow> nat list" where
  "mh_list s = take (mh_n s) (mh_p s)"

definition timeout_of :: "min_heap \<Rightarrow> nat \<Rightarrow> timeval" where
  "timeout_of s e = ev_timeout (mh_ev s e)"

definition par :: "nat \<Rightarrow> nat" where
  "par i = (i - 1) div 2"

lemma par_less [simp]: "0 < i \<Longrightarrow> par i < i" "par i \<le> i"
  by (auto simp: par_def)

definition heap_ordered :: "(nat \<Rightarrow> timeval) \<Rightarrow> nat list \<Rightarrow> bool" where
  "heap_ordered key xs \<longleftrightarrow>
     (\<forall>i. 0 < i \<and> i < length xs \<longrightarrow> \<not> timer_greater (key (xs ! (par i))) (key (xs ! i)))"

definition heap_inv :: "min_heap \<Rightarrow> bool" where
  "heap_inv s \<longleftrightarrow> length (mh_p s) = mh_a s \<and> mh_n s \<le> mh_a s \<and> distinct (mh_list s) \<and>
     heap_ordered (timeout_of s) (mh_list s) \<and>
     (\<forall>i < mh_n s. min_heap_idx (mh_ev s (mh_list s ! i)) = int i) \<and>
     (\<forall>e. e \<notin> set (mh_list s) \<longrightarrow> min_heap_idx (mh_ev s e) = - 1)"

lemma timer_greater_irrefl [simp]: "\<not> timer_greater t t"
  by (simp add: timer_greater_def)

lemma timer_le_trans: "\<not> timer_greater t u \<Longrightarrow> \<not> timer_greater u v \<Longrightarrow> \<not> timer_greater t v"
  by (auto simp: timer_greater_def split: if_splits)

lemma timer_greater_asym: "timer_greater t u \<Longrightarrow> \<not> timer_greater u t"
  by (auto simp: timer_greater_def split: if_splits)

text \<open>The top of a heap-ordered array is a minimum.\<close>

lemma heap_ordered_top:
  assumes "heap_ordered key xs" "i < length xs"
  shows "\<not> timer_greater (key (xs ! 0)) (key (xs ! i))"
  using assms(2)
proof (induction i rule: less_induct)
  case (less i)
  show ?case
  proof (cases "i = 0")
    case False
    then have p: "par i < i" by simp
    with less have "\<not> timer_greater (key (xs ! 0)) (key (xs ! (par i)))" by simp
    moreover have "\<not> timer_greater (key (xs ! (par i))) (key (xs ! i))"
      using assms(1) less.prems False by (simp add: heap_ordered_def)
    ultimately show ?thesis by (rule timer_le_trans)
  qed simp
qed

section \<open>Sifting\<close>

text \<open>
  \<open>up_ok\<close> and \<open>down_ok\<close> are the heap order with a hole at \<open>h\<close> that the element on its way fills:
  all edges but the one above the hole, or but those below it, and the edges that skip the hole.
\<close>

definition up_ok :: "(nat \<Rightarrow> timeval) \<Rightarrow> nat \<Rightarrow> nat list \<Rightarrow> bool" where
  "up_ok key h xs \<longleftrightarrow>
     (\<forall>i. 0 < i \<and> i < length xs \<and> i \<noteq> h \<longrightarrow> \<not> timer_greater (key (xs ! (par i))) (key (xs ! i))) \<and>
     (\<forall>c. 0 < h \<and> 0 < c \<and> c < length xs \<and> par c = h \<longrightarrow> \<not> timer_greater (key (xs ! (par h))) (key (xs ! c)))"

definition down_ok :: "(nat \<Rightarrow> timeval) \<Rightarrow> nat \<Rightarrow> nat list \<Rightarrow> bool" where
  "down_ok key h xs \<longleftrightarrow>
     (\<forall>i. 0 < i \<and> i < length xs \<and> par i \<noteq> h \<longrightarrow> \<not> timer_greater (key (xs ! (par i))) (key (xs ! i))) \<and>
     (\<forall>c. 0 < h \<and> 0 < c \<and> c < length xs \<and> par c = h \<longrightarrow> \<not> timer_greater (key (xs ! (par h))) (key (xs ! c)))"

lemma up_ok_done:
  assumes "up_ok key h xs" "h = 0 \<or> \<not> timer_greater (key (xs ! (par h))) (key (xs ! h))"
  shows "heap_ordered key xs"
  using assms unfolding up_ok_def heap_ordered_def by (metis less_irrefl)

lemma up_ok_step:
  assumes "up_ok key h xs" "0 < h" "h < length xs" and p: "p = par h"
    and g: "timer_greater (key (xs ! p)) (key (xs ! h))"
  shows "up_ok key p (xs[h := xs ! p, p := xs ! h])"
proof -
  let ?q = "xs[h := xs ! p, p := xs ! h]"
  have ph: "p < h" using assms by simp
  have q: "?q ! i = (if i = p then xs ! h else if i = h then xs ! p else xs ! i)" if "i < length xs" for i
    using that ph assms(3) by (simp add: nth_list_update)
  have e: "\<not> timer_greater (key (xs ! (par i))) (key (xs ! i))" if "0 < i" "i < length xs" "i \<noteq> h" for i
    using assms(1) that unfolding up_ok_def by blast
  have sk: "\<not> timer_greater (key (xs ! p)) (key (xs ! c))" if "0 < c" "c < length xs" "par c = h" for c
    using assms(1,2) that p unfolding up_ok_def by blast
  have "\<not> timer_greater (key (?q ! (par i))) (key (?q ! i))" if i: "0 < i" "i < length xs" "i \<noteq> p" for i
  proof -
    have par: "par i < i" "par i < length xs" using i less_trans [OF par_less(1), of i "length xs"] by simp_all
    consider "i = h" | "par i = h" | "i \<noteq> h" "par i = p" | "i \<noteq> h" "par i \<noteq> p" "par i \<noteq> h"
      by blast
    then show ?thesis
    proof cases
      case 1 then show ?thesis using q [OF i(2)] q [OF par(2)] p ph timer_greater_asym [OF g] by simp
    next
      case 2
      then have "i \<noteq> h" "par i \<noteq> p" using par ph by auto
      with 2 show ?thesis using q [OF i(2)] q [OF par(2)] i sk [OF i(1,2) 2] by simp
    next
      case 3
      then show ?thesis
        using q [OF i(2)] q [OF par(2)] i e [OF i(1,2) 3(1)] timer_le_trans [OF timer_greater_asym [OF g]] by simp
    next
      case 4 then show ?thesis using q [OF i(2)] q [OF par(2)] i e [OF i(1,2) 4(1)] by simp
    qed
  qed
  moreover have "\<not> timer_greater (key (?q ! (par p))) (key (?q ! c))"
    if c: "0 < p" "0 < c" "c < length xs" "par c = p" for c
  proof -
    have pp: "par p < p" "par p < length xs" "p \<noteq> h" "p < length xs" using c ph assms(3) less_trans [OF par_less(1), of p "length xs"] by simp_all
    have a: "\<not> timer_greater (key (xs ! (par p))) (key (xs ! p))" using e [OF c(1) pp(4,3)] .
    have "c \<noteq> p" using c par_less(1) [of c] by auto
    then show ?thesis
      using q [OF c(3)] q [OF pp(2)] pp a ph timer_le_trans [OF a, of "key (xs ! c)"] e [OF c(2,3)] c(4) by auto
  qed
  ultimately show ?thesis unfolding up_ok_def by simp
qed

lemma down_ok_done:
  assumes "down_ok key h xs"
    and "\<forall>c. 0 < c \<and> c < length xs \<and> par c = h \<longrightarrow> \<not> timer_greater (key (xs ! h)) (key (xs ! c))"
  shows "heap_ordered key xs"
  using assms unfolding down_ok_def heap_ordered_def by metis

lemma down_ok_step:
  assumes "down_ok key h xs" and m: "0 < m" "m < length xs" "par m = h"
    and sm: "\<forall>c. 0 < c \<and> c < length xs \<and> par c = h \<longrightarrow> \<not> timer_greater (key (xs ! m)) (key (xs ! c))"
    and g: "timer_greater (key (xs ! h)) (key (xs ! m))"
  shows "down_ok key m (xs[h := xs ! m, m := xs ! h])"
proof -
  let ?q = "xs[h := xs ! m, m := xs ! h]"
  have hm: "h < m" using m par_less(1) [of m] by simp
  have q: "?q ! i = (if i = m then xs ! h else if i = h then xs ! m else xs ! i)" if "i < length xs" for i
    using that hm m(2) by (simp add: nth_list_update)
  have e: "\<not> timer_greater (key (xs ! (par i))) (key (xs ! i))"
    if "0 < i" "i < length xs" "par i \<noteq> h" for i
    using assms(1) that unfolding down_ok_def by blast
  have sk: "\<not> timer_greater (key (xs ! (par h))) (key (xs ! c))"
    if "0 < h" "0 < c" "c < length xs" "par c = h" for c
    using assms(1) that unfolding down_ok_def by blast
  have "\<not> timer_greater (key (?q ! (par i))) (key (?q ! i))"
    if i: "0 < i" "i < length xs" "par i \<noteq> m" for i
  proof -
    have par: "par i < i" "par i < length xs" using i less_trans [OF par_less(1), of i "length xs"] by simp_all
    consider "i = h" | "par i = h" | "i \<noteq> h" "par i \<noteq> h" by blast
    then show ?thesis
    proof cases
      case 1 then show ?thesis using q [OF i(2)] q [OF par(2)] i par hm sk [OF _ m] by auto
    next
      case 2
      then have "i \<noteq> h" using par by auto
      with 2 show ?thesis using q [OF i(2)] q [OF par(2)] i hm sm timer_greater_asym [OF g] by auto
    next
      case 3
      have "i \<noteq> m" using 3 m by auto
      then show ?thesis using q [OF i(2)] q [OF par(2)] i 3 e [OF i(1,2) 3(2)] by simp
    qed
  qed
  moreover have "\<not> timer_greater (key (?q ! (par m))) (key (?q ! c))"
    if c: "0 < c" "c < length xs" "par c = m" for c
  proof -
    have "c \<noteq> m" "c \<noteq> h" using c hm par_less(1) [of c] by auto
    then show ?thesis using q [OF c(2)] q [of h] m hm e [OF c(1,2)] c(3) by auto
  qed
  ultimately show ?thesis unfolding down_ok_def by simp
qed

text \<open>What sifting an element into the hole of \<open>xs\<close> makes of the heap.\<close>

definition sifted :: "min_heap \<Rightarrow> nat list \<Rightarrow> min_heap \<Rightarrow> bool" where
  "sifted s xs s' \<longleftrightarrow> mh_n s' = mh_n s \<and> mh_a s' = mh_a s \<and> length (mh_p s') = length (mh_p s) \<and>
     timeout_of s' = timeout_of s \<and> mset (mh_list s') = mset xs \<and> heap_ordered (timeout_of s) (mh_list s') \<and>
     (\<forall>i < length xs. min_heap_idx (mh_ev s' (mh_list s' ! i)) = int i) \<and>
     (\<forall>x. x \<notin> set xs \<longrightarrow> mh_ev s' x = mh_ev s x)"

lemma put_simps [simp]:
  "mh_n (put i e s) = mh_n s" "mh_a (put i e s) = mh_a s" "mh_p (put i e s) = (mh_p s)[i := e]"
  "timeout_of (put i e s) = timeout_of s" "mh_list (put i e s) = (mh_list s)[i := e]"
  "min_heap_idx (mh_ev (put i e s) x) = (if x = e then int i else min_heap_idx (mh_ev s x))"
  "x \<noteq> e \<Longrightarrow> mh_ev (put i e s) x = mh_ev s x"
  by (auto simp: put_def set_idx_def timeout_of_def mh_list_def take_update_swap fun_eq_iff)

lemma greater_timeout: "min_heap_elem_greater s x y = timer_greater (timeout_of s x) (timeout_of s y)"
  by (simp add: min_heap_elem_greater_def timeout_of_def)

text \<open>The element is put into the hole: the last step of both loops.\<close>

lemma sifted_put:
  assumes "h < length (mh_list s)" "heap_ordered (timeout_of s) ((mh_list s)[h := e])" "distinct ((mh_list s)[h := e])"
    and "\<forall>i < length (mh_list s). i \<noteq> h \<longrightarrow> min_heap_idx (mh_ev s (mh_list s ! i)) = int i"
  shows "sifted s ((mh_list s)[h := e]) (put h e s)"
proof -
  have "(mh_list s)[h := e] ! i \<noteq> e" if "i < length (mh_list s)" "i \<noteq> h" for i
    using assms(1,3) that nth_eq_iff_index_eq [OF assms(3), of i h] by auto
  moreover have "e \<in> set ((mh_list s)[h := e])" using assms(1) by (simp add: set_update_memI)
  ultimately show ?thesis
    using assms unfolding sifted_def by (auto simp: nth_list_update) (metis put_simps(7))
qed

text \<open>One step of both loops: the neighbour \<open>j\<close> of the hole moves into the hole.\<close>

lemma sift_swap:
  assumes "h < length (mh_list s)" "j < length (mh_list s)" "h \<noteq> j"
  shows "((mh_list s)[h := mh_list s ! j])[j := e] =
      ((mh_list s)[h := e])[h := (mh_list s)[h := e] ! j, j := (mh_list s)[h := e] ! h]"
    and "mset (((mh_list s)[h := mh_list s ! j])[j := e]) = mset ((mh_list s)[h := e])"
proof -
  show eq: "((mh_list s)[h := mh_list s ! j])[j := e] =
      ((mh_list s)[h := e])[h := (mh_list s)[h := e] ! j, j := (mh_list s)[h := e] ! h]"
    using assms by simp
  show "mset (((mh_list s)[h := mh_list s ! j])[j := e]) = mset ((mh_list s)[h := e])"
    unfolding eq using assms by (intro mset_swap) simp_all
qed

lemma sifted_step:
  assumes "sifted (put h (mh_list s ! j) s) ((mh_list (put h (mh_list s ! j) s))[j := e]) s'"
    and "h < length (mh_list s)" "j < length (mh_list s)" "h \<noteq> j"
  shows "sifted s ((mh_list s)[h := e]) s'"
proof -
  have m: "mset ((mh_list (put h (mh_list s ! j) s))[j := e]) = mset ((mh_list s)[h := e])"
    using sift_swap(2) [OF assms(2-4)] by simp
  have st: "set ((mh_list (put h (mh_list s ! j) s))[j := e]) = set ((mh_list s)[h := e])"
    using m by (metis set_mset_mset)
  have "mh_list s ! j \<in> set ((mh_list s)[h := e])"
    using assms(2-4) by (metis length_list_update nth_list_update_neq nth_mem)
  then have "mh_ev (put h (mh_list s ! j) s) x = mh_ev s x" if "x \<notin> set ((mh_list s)[h := e])" for x
    using that by (metis put_simps(7))
  then show ?thesis
    using assms(1) m st unfolding sifted_def by simp
qed

lemma step_idx:
  assumes "\<forall>i < length (mh_list s). i \<noteq> h \<longrightarrow> min_heap_idx (mh_ev s (mh_list s ! i)) = int i"
    and "h < length (mh_list s)" "j < length (mh_list s)" "h \<noteq> j" "distinct ((mh_list s)[h := e])"
    and "s1 = put h (mh_list s ! j) s" "i < length (mh_list s1)" "i \<noteq> j"
  shows "min_heap_idx (mh_ev s1 (mh_list s1 ! i)) = int i"
proof (cases "i = h")
  case False
  have "(mh_list s)[h := e] ! i \<noteq> (mh_list s)[h := e] ! j"
    using assms nth_eq_iff_index_eq [OF assms(5), of i j] by simp
  with False assms show ?thesis by (simp add: nth_list_update)
qed (use assms in simp)

lemma mh_list_nth: "i < length (mh_list s) \<Longrightarrow> mh_p s ! i = mh_list s ! i"
  by (simp add: mh_list_def)

lemma shift_up_spec:
  assumes "h < length (mh_list s)" "up_ok (timeout_of s) h ((mh_list s)[h := e])" "distinct ((mh_list s)[h := e])"
    and "\<forall>i < length (mh_list s). i \<noteq> h \<longrightarrow> min_heap_idx (mh_ev s (mh_list s ! i)) = int i"
  shows "sifted s ((mh_list s)[h := e]) (min_heap_shift_up h e s)"
  using assms
proof (induction h e s rule: min_heap_shift_up.induct)
  case (1 h e s)
  let ?xs = "(mh_list s)[h := e]" and ?s1 = "put h (mh_list s ! par h) s"
  show ?case
  proof (cases "h \<noteq> 0 \<and> min_heap_elem_greater s (mh_p s ! par h) e")
    case True
    then have h: "0 < h" "par h < h" "par h < length (mh_list s)" using 1(2) less_trans [OF par_less(1), of h] by simp_all
    have g: "timer_greater (timeout_of s (?xs ! par h)) (timeout_of s (?xs ! h))"
      using True h 1(2) by (simp add: greater_timeout mh_list_nth)
    have sw: "(mh_list ?s1)[par h := e] = ?xs[h := ?xs ! par h, par h := ?xs ! h]"
      using sift_swap(1) [of h s "par h" e] h 1(2) by simp
    have up: "up_ok (timeout_of ?s1) (par h) ((mh_list ?s1)[par h := e])"
      unfolding sw using up_ok_step [OF 1(3) h(1) _ _ g] 1(2) by (simp add: par_def)
    have "mset ((mh_list ?s1)[par h := e]) = mset ?xs"
      using sift_swap(2) [of h s "par h" e] h 1(2) by simp
    then have d: "distinct ((mh_list ?s1)[par h := e])" using 1(4) by (metis mset_eq_imp_distinct_iff)
    have idx: "\<forall>i < length (mh_list ?s1). i \<noteq> par h \<longrightarrow> min_heap_idx (mh_ev ?s1 (mh_list ?s1 ! i)) = int i"
      using step_idx [OF 1(5) 1(2) h(3) _ 1(4) refl] h by (metis less_irrefl)
    have "sifted ?s1 ((mh_list ?s1)[par h := e]) (min_heap_shift_up (par h) e ?s1)"
      using 1(1) [OF refl, folded par_def, OF True] h mh_list_nth [OF h(3)] up d idx by simp
    from sifted_step [OF this 1(2) h(3)] h show ?thesis
      using True mh_list_nth [OF h(3)] by (subst min_heap_shift_up.simps) (simp add: Let_def par_def)
  next
    case False
    then have nx: "h = 0 \<or> \<not> timer_greater (timeout_of s (?xs ! par h)) (timeout_of s (?xs ! h))"
      using 1(2) less_trans [OF par_less(1), of h "length (mh_list s)"] par_less(1) [of h]
      by (auto simp: greater_timeout mh_list_nth simp del: par_less)
    have "heap_ordered (timeout_of s) ?xs" by (rule up_ok_done [OF 1(3) nx])
    from sifted_put [OF 1(2) this 1(4,5)] False show ?thesis
      by (subst min_heap_shift_up.simps) (auto simp: Let_def par_def)
  qed
qed

text \<open>The children of a place, and which of them the loop of \<open>min_heap_shift_down\<close> takes.\<close>

lemma child_iff: "0 < c \<Longrightarrow> par c = h \<longleftrightarrow> c = 2 * (h + 1) - 1 \<or> c = 2 * (h + 1)"
  unfolding par_def by presburger

lemma shift_down_spec:
  assumes "h < length (mh_list s)" "down_ok (timeout_of s) h ((mh_list s)[h := e])" "distinct ((mh_list s)[h := e])"
    and "\<forall>i < length (mh_list s). i \<noteq> h \<longrightarrow> min_heap_idx (mh_ev s (mh_list s ! i)) = int i" "mh_n s \<le> length (mh_p s)"
  shows "sifted s ((mh_list s)[h := e]) (min_heap_shift_down h e s)"
  using assms
proof (induction h e s rule: min_heap_shift_down.induct)
  case (1 h e s)
  let ?xs = "(mh_list s)[h := e]" and ?r = "2 * (h + 1)"
  define m where "m = (if ?r = mh_n s \<or> min_heap_elem_greater s (mh_p s ! ?r) (mh_p s ! (?r - 1)) then ?r - 1 else ?r)"
  have len: "length (mh_list s) = mh_n s" using 1(6) by (simp add: mh_list_def)
  have eq: "min_heap_shift_down h e s =
      (if ?r \<le> mh_n s \<and> min_heap_elem_greater s e (mh_p s ! m)
       then min_heap_shift_down m e (put h (mh_p s ! m) s) else put h e s)"
    by (subst min_heap_shift_down.simps) (simp only: Let_def m_def [symmetric] split: if_split, blast)
  have mc: "\<not> timer_greater (timeout_of s (mh_list s ! m)) (timeout_of s (mh_list s ! c))"
    if c: "c = ?r - 1 \<or> c = ?r" "c < mh_n s" for c
  proof (cases "?r = mh_n s")
    case False
    then have "?r < length (mh_list s)" "?r - 1 < length (mh_list s)" using c len by auto
    note n = mh_list_nth [OF this(1)] mh_list_nth [OF this(2)]
    show ?thesis
      using c timer_greater_asym [of "timeout_of s (mh_list s ! ?r)" "timeout_of s (mh_list s ! (?r - 1))"] False
      unfolding m_def greater_timeout n by (auto split: if_splits)
  qed (use c in \<open>auto simp: m_def\<close>)
  show ?case
  proof (cases "?r \<le> mh_n s \<and> min_heap_elem_greater s e (mh_p s ! m)")
    case True
    let ?s1 = "put h (mh_list s ! m) s"
    have m: "0 < m" "m < length (mh_list s)" "par m = h" "h \<noteq> m" using True len by (auto simp: m_def par_def)
    have sm: "\<forall>c. 0 < c \<and> c < length ?xs \<and> par c = h \<longrightarrow>
        \<not> timer_greater (timeout_of s (?xs ! m)) (timeout_of s (?xs ! c))"
    proof (intro allI impI)
      fix c assume c: "0 < c \<and> c < length ?xs \<and> par c = h"
      then have "c \<noteq> h" using par_less(1) [of c] by auto
      with c m mc [of c] child_iff [of c h] len
      show "\<not> timer_greater (timeout_of s (?xs ! m)) (timeout_of s (?xs ! c))" by simp
    qed
    have g: "timer_greater (timeout_of s (?xs ! h)) (timeout_of s (?xs ! m))"
      using True m 1(2) by (simp add: greater_timeout mh_list_nth)
    have sw: "(mh_list ?s1)[m := e] = ?xs[h := ?xs ! m, m := ?xs ! h]"
      using sift_swap(1) [OF 1(2) m(2,4)] by simp
    have dn: "down_ok (timeout_of ?s1) m ((mh_list ?s1)[m := e])"
      unfolding sw using down_ok_step [OF 1(3) m(1) _ m(3) sm g] m by simp
    have "mset ((mh_list ?s1)[m := e]) = mset ?xs" using sift_swap(2) [OF 1(2) m(2,4)] by simp
    then have d: "distinct ((mh_list ?s1)[m := e])" using 1(4) by (metis mset_eq_imp_distinct_iff)
    have idx: "\<forall>i < length (mh_list ?s1). i \<noteq> m \<longrightarrow> min_heap_idx (mh_ev ?s1 (mh_list ?s1 ! i)) = int i"
      using step_idx [OF 1(5) 1(2) m(2,4) 1(4) refl] by blast
    have "sifted ?s1 ((mh_list ?s1)[m := e]) (min_heap_shift_down m e ?s1)"
      using 1(1) [OF refl _ m_def] True mh_list_nth [OF m(2)] m dn d idx 1(6) by simp
    from sifted_step [OF this 1(2) m(2,4)] show ?thesis
      unfolding eq using True mh_list_nth [OF m(2)] by simp
  next
    case False
    have "\<forall>c. 0 < c \<and> c < length ?xs \<and> par c = h \<longrightarrow>
        \<not> timer_greater (timeout_of s (?xs ! h)) (timeout_of s (?xs ! c))"
    proof (intro allI impI)
      fix c assume c: "0 < c \<and> c < length ?xs \<and> par c = h"
      then have "c = ?r - 1 \<or> c = ?r" "?r \<le> mh_n s" "c \<noteq> h" using child_iff [of c h] len by auto
      moreover have "\<not> timer_greater (timeout_of s e) (timeout_of s (mh_list s ! m))" "m < length (mh_list s)"
        using False \<open>?r \<le> mh_n s\<close> c len by (auto simp: greater_timeout m_def mh_list_nth)
      moreover have "\<not> timer_greater (timeout_of s (mh_list s ! m)) (timeout_of s (mh_list s ! c))"
        using c len \<open>c = ?r - 1 \<or> c = ?r\<close> mc by auto
      ultimately show "\<not> timer_greater (timeout_of s (?xs ! h)) (timeout_of s (?xs ! c))"
        using timer_le_trans 1(2) by auto
    qed
    from sifted_put [OF 1(2) down_ok_done [OF 1(3) this] 1(4,5)] show ?thesis unfolding eq using False by auto
  qed
qed

section \<open>Operations on the heap\<close>

lemma length_mh_list: "heap_inv s \<Longrightarrow> length (mh_list s) = mh_n s"
  by (simp add: heap_inv_def mh_list_def)

lemma sifted_inv:
  assumes "sifted s xs s'" "length (mh_p s) = mh_a s" "mh_n s \<le> mh_a s" "length xs = mh_n s" "distinct xs"
    and "\<forall>x. x \<notin> set xs \<longrightarrow> min_heap_idx (mh_ev s x) = - 1"
  shows "heap_inv s'" "set (mh_list s') = set xs" "timeout_of s' = timeout_of s"
proof -
  have "mset (mh_list s') = mset xs" using assms(1) by (simp add: sifted_def)
  then have "set (mh_list s') = set xs" "distinct (mh_list s') = distinct xs"
    by (metis set_mset_mset, metis mset_eq_imp_distinct_iff)
  with assms show "heap_inv s'" "set (mh_list s') = set xs" "timeout_of s' = timeout_of s"
    by (auto simp: sifted_def heap_inv_def)
qed

text \<open>Pushing an event that is not in the heap; a failed allocation changes nothing.\<close>

lemma min_heap_push_spec:
  assumes inv: "heap_inv s" and e: "e \<notin> set (mh_list s)" and p: "min_heap_push mem junk e s = (r, s')"
  shows "heap_inv s'" "timeout_of s' = timeout_of s"
    "r = 0 \<and> set (mh_list s') = insert e (set (mh_list s)) \<or> r = - 1 \<and> \<not> mem \<and> s' = s"
proof -
  obtain q s1 where q: "min_heap_reserve mem junk (mh_n s + 1) s = (q, s1)" by fastforce
  have "heap_inv s' \<and> timeout_of s' = timeout_of s \<and>
    (r = 0 \<and> set (mh_list s') = insert e (set (mh_list s)) \<or> r = - 1 \<and> \<not> mem \<and> s' = s)"
  proof (cases "q = 0")
    case False
    then show ?thesis using p q inv by (auto simp: min_heap_push_def min_heap_reserve_def Let_def split: if_splits)
  next
    case True
    have s1: "length (mh_p s1) = mh_a s1" "mh_n s1 = mh_n s" "mh_n s < mh_a s1" "take (mh_n s) (mh_p s1) = mh_list s"
        "mh_ev s1 = mh_ev s"
      using q inv True by (auto simp: min_heap_reserve_def Let_def heap_inv_def mh_list_def split: if_splits)
    let ?s2 = "s1\<lparr>mh_n := mh_n s + 1\<rparr>" and ?xs = "mh_list s @ [e]"
    have l: "mh_list ?s2 = mh_list s @ [mh_p s1 ! mh_n s]"
      using s1 by (simp add: mh_list_def take_Suc_conv_app_nth)
    have n: "length (mh_list s) = mh_n s" by (rule length_mh_list [OF inv])
    have xs: "(mh_list ?s2)[mh_n s := e] = ?xs"
      unfolding l using list_update_length [of "mh_list s" "mh_p s1 ! mh_n s" "[]" e] n by simp
    have tm: "timeout_of ?s2 = timeout_of s" using s1 by (simp add: timeout_of_def fun_eq_iff)
    have "up_ok (timeout_of s) (mh_n s) ?xs"
      unfolding up_ok_def
    proof (intro conjI allI impI)
      fix i assume i: "0 < i \<and> i < length ?xs \<and> i \<noteq> mh_n s"
      then have "par i < i" "i < length (mh_list s)" using n by auto
      with i inv show "\<not> timer_greater (timeout_of s (?xs ! par i)) (timeout_of s (?xs ! i))"
        by (simp add: heap_inv_def heap_ordered_def nth_append)
    next
      fix c assume "0 < mh_n s \<and> 0 < c \<and> c < length ?xs \<and> par c = mh_n s"
      then show "\<not> timer_greater (timeout_of s (?xs ! par (mh_n s))) (timeout_of s (?xs ! c))"
        using n par_less(1) [of c] by auto
    qed
    then have "sifted ?s2 ?xs (min_heap_shift_up (mh_n s) e ?s2)"
      using shift_up_spec [of "mh_n s" ?s2 e] tm xs l n inv e s1
      by (auto simp: heap_inv_def nth_append less_Suc_eq)
    moreover have "s' = min_heap_shift_up (mh_n s) e ?s2" "r = 0"
      using p q True s1 by (auto simp: min_heap_push_def)
    ultimately show ?thesis
      using sifted_inv [of ?s2 ?xs s'] tm s1 n inv e by (auto simp: heap_inv_def)
  qed
  then show "heap_inv s'" "timeout_of s' = timeout_of s"
    "r = 0 \<and> set (mh_list s') = insert e (set (mh_list s)) \<or> r = - 1 \<and> \<not> mem \<and> s' = s" by blast+
qed

lemma set_idx_simps [simp]:
  "mh_list (set_idx e i s) = mh_list s" "timeout_of (set_idx e i s) = timeout_of s"
  "mh_n (set_idx e i s) = mh_n s" "mh_a (set_idx e i s) = mh_a s" "mh_p (set_idx e i s) = mh_p s"
  "min_heap_idx (mh_ev (set_idx e i s) x) = (if x = e then i else min_heap_idx (mh_ev s x))"
  by (auto simp: set_idx_def mh_list_def timeout_of_def fun_eq_iff)

text \<open>
  Taking out the event at place \<open>i\<close>: the last event of the array fills its place and is sifted up
  or down. This is what \<open>min_heap_pop\<close> does at the top and \<open>min_heap_erase\<close> anywhere.
\<close>

definition remove_at :: "nat \<Rightarrow> min_heap \<Rightarrow> min_heap" where
  "remove_at i s =
     (let s1 = s\<lparr>mh_n := mh_n s - 1\<rparr>; last = mh_p s1 ! mh_n s1 in
      set_idx (mh_list s ! i) (- 1)
        (if i > 0 \<and> min_heap_elem_greater s1 (mh_p s1 ! par i) last
         then min_heap_shift_up i last s1 else min_heap_shift_down i last s1))"

lemma hole_ok:
  assumes "heap_ordered key (ys @ [l])" "i < length ys"
  shows "i = 0 \<or> \<not> timer_greater (key (ys ! par i)) (key l) \<Longrightarrow> down_ok key i (ys[i := l])"
    and "0 < i \<Longrightarrow> timer_greater (key (ys ! par i)) (key l) \<Longrightarrow> up_ok key i (ys[i := l])"
proof -
  have e: "\<not> timer_greater (key (ys ! par j)) (key (ys ! j))" if "0 < j" "j < length ys" for j
  proof -
    have "par j < length ys" using less_trans [OF par_less(1) that(2)] that by simp
    with assms(1) that show ?thesis unfolding heap_ordered_def by (auto simp: nth_append dest: spec [of _ j])
  qed
  have sk: "\<not> timer_greater (key (ys[i := l] ! par i)) (key (ys[i := l] ! c))"
    if "0 < i" "0 < c" "c < length ys" "par c = i" for c
  proof -
    have "par i \<noteq> i" "c \<noteq> i" using that by (metis less_irrefl par_less(1))+
    with timer_le_trans [OF e [OF that(1) assms(2)] e [OF that(2,3), unfolded that(4)]] show ?thesis by simp
  qed
  have o: "\<not> timer_greater (key (ys[i := l] ! par j)) (key (ys[i := l] ! j))"
    if "0 < j" "j < length ys" "j \<noteq> i" "par j \<noteq> i" for j
    using e [OF that(1,2)] that by simp
  show "i = 0 \<or> \<not> timer_greater (key (ys ! par i)) (key l) \<Longrightarrow> down_ok key i (ys[i := l])"
    unfolding down_ok_def using sk o assms(2) par_less(1) [of i]
    by (metis length_list_update less_irrefl nth_list_update_eq nth_list_update_neq)
  assume g: "0 < i" "timer_greater (key (ys ! par i)) (key l)"
  have "\<not> timer_greater (key l) (key (ys ! j))" if "0 < j" "j < length ys" "par j = i" for j
    using timer_le_trans [OF timer_greater_asym [OF g(2)]] timer_le_trans [OF e [OF g(1) assms(2)] e [OF that(1,2), unfolded that(3)]]
    by blast
  then show "up_ok key i (ys[i := l])"
    unfolding up_ok_def using sk o assms(2) by (metis length_list_update nth_list_update_eq nth_list_update_neq)
qed

lemma remove_at_sifted:
  assumes inv: "heap_inv s" and ys: "mh_list s = ys @ [l]" and i: "i < length ys"
  shows "\<exists>s'. remove_at i s = set_idx (ys ! i) (- 1) s' \<and> sifted (s\<lparr>mh_n := mh_n s - 1\<rparr>) (ys[i := l]) s'"
proof -
  let ?s1 = "s\<lparr>mh_n := mh_n s - 1\<rparr>"
  have n: "mh_n s = Suc (length ys)" using length_mh_list [OF inv] ys by simp
  have l1: "mh_list ?s1 = ys"
    using ys n by (simp add: mh_list_def) (metis Suc_n_not_le_n butlast_snoc butlast_take linorder_linear diff_Suc_1 length_take min.absorb1 inv heap_inv_def)
  have last: "mh_p ?s1 ! mh_n ?s1 = l" using mh_list_nth [of "length ys" s] ys n by simp
  have tm: "timeout_of ?s1 = timeout_of s" by (simp add: timeout_of_def fun_eq_iff)
  have pn: "mh_p ?s1 ! par i = ys ! par i"
    using i mh_list_nth [of "par i" ?s1] le_less_trans [OF par_less(2) i] l1 by simp
  have d: "distinct (ys[i := l])" "heap_ordered (timeout_of s) (ys @ [l])"
    using inv ys by (auto simp: heap_inv_def distinct_list_update)
  have idx: "\<forall>j < length ys. j \<noteq> i \<longrightarrow> min_heap_idx (mh_ev ?s1 (ys ! j)) = int j"
  proof (intro allI impI)
    fix j assume j: "j < length ys" "j \<noteq> i"
    have "min_heap_idx (mh_ev s (mh_list s ! j)) = int j" using inv n j by (simp add: heap_inv_def)
    with ys j show "min_heap_idx (mh_ev ?s1 (ys ! j)) = int j" by (simp add: nth_append)
  qed
  note h = hole_ok [OF d(2) i]
  have g: "min_heap_elem_greater ?s1 (mh_p ?s1 ! par i) l = timer_greater (timeout_of s (ys ! par i)) (timeout_of s l)"
    by (simp only: greater_timeout pn tm)
  have le: "mh_n ?s1 \<le> length (mh_p ?s1)" using inv by (auto simp: heap_inv_def)
  have "sifted ?s1 (ys[i := l]) (if i > 0 \<and> min_heap_elem_greater ?s1 (mh_p ?s1 ! par i) l
      then min_heap_shift_up i l ?s1 else min_heap_shift_down i l ?s1)"
  proof (cases "0 < i \<and> timer_greater (timeout_of s (ys ! par i)) (timeout_of s l)")
    case True
    then show ?thesis unfolding g if_P [OF True]
      by (intro shift_up_spec [of i ?s1 l, unfolded l1 tm, OF i _ d(1) idx] h(2)) simp_all
  next
    case False
    then show ?thesis unfolding g if_not_P [OF False]
      by (intro shift_down_spec [of i ?s1 l, unfolded l1 tm, OF i _ d(1) idx le] h(1)) auto
  qed
  moreover have "mh_list s ! i = ys ! i" using ys i by (simp add: nth_append)
  ultimately show ?thesis unfolding remove_at_def Let_def last by auto
qed

lemma remove_at_last:
  assumes inv: "heap_inv s" and ys: "mh_list s = ys @ [l]"
  shows "remove_at (length ys) s = set_idx l (- 1) (put (length ys) l (s\<lparr>mh_n := mh_n s - 1\<rparr>))"
proof -
  let ?s1 = "s\<lparr>mh_n := mh_n s - 1\<rparr>"
  have n: "mh_n s = Suc (length ys)" using length_mh_list [OF inv] ys by simp
  have last: "mh_p ?s1 ! mh_n ?s1 = l" using mh_list_nth [of "length ys" s] ys n by simp
  have "\<not> (length ys > 0 \<and> min_heap_elem_greater ?s1 (mh_p ?s1 ! par (length ys)) l)"
  proof (cases "length ys = 0")
    case False
    then have "\<not> timer_greater (timeout_of s (mh_list s ! par (length ys))) (timeout_of s (mh_list s ! length ys))"
      using inv ys unfolding heap_inv_def heap_ordered_def by (metis gr0I length_append_singleton lessI)
    moreover have "par (length ys) < Suc (length ys)" by (simp add: less_Suc_eq_le)
    ultimately show ?thesis using False ys mh_list_nth [of "par (length ys)" s]
      by (simp add: min_heap_elem_greater_def timeout_of_def)
  qed simp
  then show ?thesis
    unfolding remove_at_def Let_def last using ys n by (auto simp: min_heap_shift_down.simps [of "length ys"])
qed

lemma remove_at_spec:
  assumes inv: "heap_inv s" and i: "i < mh_n s"
  shows "heap_inv (remove_at i s)" "set (mh_list (remove_at i s)) = set (mh_list s) - {mh_list s ! i}"
    "timeout_of (remove_at i s) = timeout_of s"
proof -
  obtain ys l where ys: "mh_list s = ys @ [l]"
    using i length_mh_list [OF inv] by (cases "mh_list s" rule: rev_cases) auto
  have n: "mh_n s = Suc (length ys)" using length_mh_list [OF inv] ys by simp
  have d: "distinct (ys @ [l])" using inv ys by (simp add: heap_inv_def)
  have out: "\<forall>x. x \<notin> set (ys @ [l]) \<longrightarrow> min_heap_idx (mh_ev s x) = - 1" using inv ys unfolding heap_inv_def by metis
  have "heap_inv (remove_at i s) \<and> set (mh_list (remove_at i s)) = set (mh_list s) - {mh_list s ! i} \<and>
    timeout_of (remove_at i s) = timeout_of s"
  proof (cases "i < length ys")
    case True
    let ?s1 = "s\<lparr>mh_n := mh_n s - 1\<rparr>"
    obtain s' where s': "remove_at i s = set_idx (ys ! i) (- 1) s'" "sifted ?s1 (ys[i := l]) s'"
      using remove_at_sifted [OF inv ys True] by blast
    have m: "mset (mh_list s') = mset (ys[i := l])" using s'(2) by (simp add: sifted_def)
    have st: "set (mh_list s') = set (ys[i := l])" "distinct (mh_list s')"
      using m d by (metis set_mset_mset) (use m d in \<open>auto simp: distinct_list_update dest: mset_eq_imp_distinct_iff\<close>)
    have sy: "set (ys[i := l]) = set (ys @ [l]) - {ys ! i}" "ys ! i \<notin> set (ys[i := l])"
      using d True by (auto simp: set_update_distinct)
    have tm: "timeout_of s' = timeout_of s" using s'(2) by (simp add: sifted_def timeout_of_def fun_eq_iff)
    have len: "length (mh_list s') = length ys" using arg_cong [OF m, of size] by simp
    have idx: "min_heap_idx (mh_ev s' (mh_list s' ! j)) = int j" "mh_list s' ! j \<noteq> ys ! i" if "j < length ys" for j
    proof -
      show "min_heap_idx (mh_ev s' (mh_list s' ! j)) = int j" using s'(2) that by (simp add: sifted_def)
      show "mh_list s' ! j \<noteq> ys ! i" using nth_mem [of j "mh_list s'"] that len st(1) sy(2) by metis
    qed
    have o: "min_heap_idx (mh_ev s' x) = - 1" if "x \<notin> set (ys @ [l])" for x
      using s'(2) that sy(1) out unfolding sifted_def by simp
    have sz: "length (mh_p s') = mh_a s'" "mh_n s' = length ys" "mh_n s' \<le> mh_a s'"
      using s'(2) inv n unfolding sifted_def heap_inv_def by simp_all
    have ho: "heap_ordered (timeout_of s') (mh_list s')"
      using s'(2) tm unfolding sifted_def by (simp add: timeout_of_def)
    have "heap_inv (set_idx (ys ! i) (- 1) s')"
      unfolding heap_inv_def using sz ho st(2) idx o st(1) sy(1) by simp
    with s'(1) st(1) sy(1) tm ys True show ?thesis by (simp add: nth_append)
  next
    case False
    then have i: "i = length ys" using i n by simp
    have l1: "take (length ys) (mh_p s) = ys"
      using ys n inv by (simp add: mh_list_def heap_inv_def take_Suc_conv_app_nth)
    let ?s' = "set_idx l (- 1) (put (length ys) l (s\<lparr>mh_n := mh_n s - 1\<rparr>))"
    have l2: "mh_list ?s' = ys" using n l1 by (simp add: mh_list_def)
    have tm: "timeout_of ?s' = timeout_of s" by (simp add: timeout_of_def fun_eq_iff)
    have ho: "heap_ordered (timeout_of s) ys"
      unfolding heap_ordered_def
    proof (intro allI impI)
      fix j assume j: "0 < j \<and> j < length ys"
      then have "par j < length ys" using less_trans [OF par_less(1)] by blast
      with j inv ys show "\<not> timer_greater (timeout_of s (ys ! par j)) (timeout_of s (ys ! j))"
        unfolding heap_inv_def heap_ordered_def by (metis append.right_neutral length_append_singleton less_SucI nth_append)
    qed
    have idx: "\<forall>j < length ys. min_heap_idx (mh_ev s (ys ! j)) = int j"
      using inv ys n unfolding heap_inv_def by (metis less_SucI nth_append)
    have "heap_inv ?s'"
      unfolding heap_inv_def l2 tm using inv n d ho idx out by (auto simp: heap_inv_def)
    then show ?thesis unfolding i remove_at_last [OF inv ys] using l2 tm ys d by auto
  qed
  then show "heap_inv (remove_at i s)" "set (mh_list (remove_at i s)) = set (mh_list s) - {mh_list s ! i}"
    "timeout_of (remove_at i s) = timeout_of s" by blast+
qed

lemma min_heap_pop_spec:
  assumes inv: "heap_inv s"
  shows "min_heap_pop s = (if mh_list s = [] then (None, s) else (Some (mh_list s ! 0), remove_at 0 s))"
  using length_mh_list [OF inv] mh_list_nth [of 0 s]
  by (auto simp: min_heap_pop_def remove_at_def Let_def)

lemma min_heap_erase_spec:
  assumes inv: "heap_inv s"
  shows "e \<notin> set (mh_list s) \<Longrightarrow> min_heap_erase e s = (- 1, s)"
    and "e \<in> set (mh_list s) \<Longrightarrow> \<exists>i < mh_n s. mh_list s ! i = e \<and> min_heap_erase e s = (0, remove_at i s)"
proof -
  show "e \<notin> set (mh_list s) \<Longrightarrow> min_heap_erase e s = (- 1, s)"
    using inv by (simp add: heap_inv_def min_heap_erase_def)
  assume "e \<in> set (mh_list s)"
  then obtain i where i: "i < mh_n s" "mh_list s ! i = e"
    using length_mh_list [OF inv] by (metis in_set_conv_nth)
  then have "min_heap_idx (mh_ev s e) = int i" using inv by (auto simp: heap_inv_def)
  with i show "\<exists>i < mh_n s. mh_list s ! i = e \<and> min_heap_erase e s = (0, remove_at i s)"
    by (intro exI [of _ i]) (simp add: min_heap_erase_def remove_at_def Let_def par_def)
qed

section \<open>The interface of a timer queue\<close>

text \<open>
  What the event loop relies on: a set of events with fixed timeouts, from which an earliest one
  can be taken. In every such queue, taking events until none is left gives all of them in the
  order of their timeouts.
\<close>

locale timer_queue =
  fixes inv :: "'q \<Rightarrow> bool" and events :: "'q \<Rightarrow> nat set" and key :: "'q \<Rightarrow> nat \<Rightarrow> timeval"
    and pop :: "'q \<Rightarrow> nat option \<times> 'q"
  assumes events_finite: "inv q \<Longrightarrow> finite (events q)"
    and pop_None: "inv q \<Longrightarrow> events q = {} \<Longrightarrow> pop q = (None, q)"
    and pop_Some: "inv q \<Longrightarrow> events q \<noteq> {} \<Longrightarrow>
      \<exists>e q'. pop q = (Some e, q') \<and> e \<in> events q \<and> inv q' \<and> events q' = events q - {e} \<and> key q' = key q \<and>
        (\<forall>x \<in> events q. \<not> timer_greater (key q e) (key q x))"
begin

lemma drain_sorted:
  assumes "inv q"
  shows "\<exists>es q'. set es = events q \<and> distinct es \<and> sorted_wrt (\<lambda>x y. \<not> timer_greater (key q x) (key q y)) es \<and>
     ((\<lambda>(os, q). case pop q of (o1, q1) \<Rightarrow> (os @ [o1], q1)) ^^ card (events q)) ([], q) = (map Some es, q') \<and>
     events q' = {}"
proof -
  let ?f = "\<lambda>(os, q). case pop q of (o1, q1) \<Rightarrow> (os @ [o1], q1)"
  have "\<exists>es q'. set es = events q \<and> distinct es \<and> sorted_wrt (\<lambda>x y. \<not> timer_greater (key q x) (key q y)) es \<and>
     (?f ^^ n) (os, q) = (os @ map Some es, q') \<and> events q' = {}" if "inv q" "card (events q) = n" for n q os
    using that
  proof (induction n arbitrary: q os)
    case 0
    then have "events q = {}" using events_finite by simp
    then show ?case by (intro exI [of _ "[]"] exI [of _ q]) simp
  next
    case (Suc n)
    then have "events q \<noteq> {}" by auto
    then obtain e q1 where p: "pop q = (Some e, q1)" "e \<in> events q" "inv q1" "events q1 = events q - {e}" "key q1 = key q"
        "\<forall>x \<in> events q. \<not> timer_greater (key q e) (key q x)"
      using pop_Some [OF Suc.prems(1)] by blast
    have "card (events q1) = n" using p Suc.prems events_finite by simp
    from Suc.IH [OF p(3) this, of "os @ [Some e]"] obtain es q' where
      es: "set es = events q1" "distinct es" "sorted_wrt (\<lambda>x y. \<not> timer_greater (key q1 x) (key q1 y)) es"
        "(?f ^^ n) (os @ [Some e], q1) = ((os @ [Some e]) @ map Some es, q')" "events q' = {}" by blast
    have "(?f ^^ Suc n) (os, q) = (?f ^^ n) (?f (os, q))" by (simp add: funpow_swap1)
    with p es show ?case by (intro exI [of _ "e # es"] exI [of _ q']) auto
  qed
  from this [OF assms refl, of "[]"] show ?thesis by simp
qed

end

interpretation mh: timer_queue heap_inv "\<lambda>s. set (mh_list s)" timeout_of min_heap_pop
proof
  fix s assume inv: "heap_inv s" and ne: "set (mh_list s) \<noteq> {}"
  then have n: "0 < mh_n s" using length_mh_list by fastforce
  have "\<forall>x \<in> set (mh_list s). \<not> timer_greater (timeout_of s (mh_list s ! 0)) (timeout_of s x)"
    using inv heap_ordered_top by (fastforce simp: in_set_conv_nth heap_inv_def)
  then show "\<exists>e q'. min_heap_pop s = (Some e, q') \<and> e \<in> set (mh_list s) \<and> heap_inv q' \<and> set (mh_list q') = set (mh_list s) - {e} \<and>
      timeout_of q' = timeout_of s \<and> (\<forall>x \<in> set (mh_list s). \<not> timer_greater (timeout_of s e) (timeout_of s x))"
    using ne n remove_at_spec [OF inv n] length_mh_list [OF inv]
    by (intro exI [of _ "mh_list s ! 0"] exI [of _ "remove_at 0 s"]) (auto simp: min_heap_pop_spec [OF inv])
qed (auto simp: min_heap_pop_spec)

section \<open>Reachable heaps\<close>

inductive heap_reach :: "min_heap \<Rightarrow> bool" where
  ctor: "\<forall>e. min_heap_idx (ev e) = - 1 \<Longrightarrow> heap_reach (min_heap_ctor ev)"
| push: "heap_reach s \<Longrightarrow> e \<notin> set (mh_list s) \<Longrightarrow> min_heap_push mem junk e s = (r, s') \<Longrightarrow> heap_reach s'"
| pop: "heap_reach s \<Longrightarrow> min_heap_pop s = (r, s') \<Longrightarrow> heap_reach s'"
| erase: "heap_reach s \<Longrightarrow> min_heap_erase e s = (c, s') \<Longrightarrow> heap_reach s'"

lemma min_heap_erase_inv:
  assumes "heap_inv s" "min_heap_erase e s = (c, s')"
  shows "heap_inv s'" "set (mh_list s') = set (mh_list s) - {e}" "c = (if e \<in> set (mh_list s) then 0 else - 1)"
  using min_heap_erase_spec [OF assms(1), of e] remove_at_spec [OF assms(1)] assms by (cases "e \<in> set (mh_list s)"; auto)+

lemma heap_reach_inv: "heap_reach s \<Longrightarrow> heap_inv s"
proof (induction rule: heap_reach.induct)
  case (ctor ev)
  then show ?case by (simp add: heap_inv_def min_heap_ctor_def mh_list_def heap_ordered_def)
next
  case (pop s r s')
  then show ?case using mh.pop_None [of s] mh.pop_Some [of s] by (cases "set (mh_list s) = {}") auto
qed (auto dest: min_heap_push_spec min_heap_erase_inv)

text \<open>
  C36. The timer heap is a priority queue of events: after any pushes, pops and erasures the array is in
  heap order and every event knows its index; a push that gets memory adds the event, an erasure
  removes exactly that event (or answers -1 when it is not there), and \<open>min_heap_pop\<close> takes out the
  event \<open>min_heap_top\<close> shows, which no event in the heap precedes.
\<close>

theorem min_heap_priority_queue:
  assumes r: "heap_reach s"
  shows "heap_inv s \<and>
     (e \<notin> set (mh_list s) \<longrightarrow> (\<exists>s'. min_heap_push True junk e s = (0, s') \<and> set (mh_list s') = insert e (set (mh_list s)))) \<and>
     (\<exists>s'. min_heap_erase e s = (if e \<in> set (mh_list s) then 0 else - 1, s') \<and> set (mh_list s') = set (mh_list s) - {e}) \<and>
     (mh_list s \<noteq> [] \<longrightarrow> (\<exists>t s'. min_heap_top s = Some t \<and> min_heap_pop s = (Some t, s') \<and>
        set (mh_list s') = set (mh_list s) - {t} \<and>
        (\<forall>x \<in> set (mh_list s). \<not> timer_greater (timeout_of s t) (timeout_of s x))))"
proof (intro conjI impI)
  show inv: "heap_inv s" using r by (rule heap_reach_inv)
  show "\<exists>s'. min_heap_push True junk e s = (0, s') \<and> set (mh_list s') = insert e (set (mh_list s))"
    if "e \<notin> set (mh_list s)"
    using min_heap_push_spec [OF inv that, of True junk] by (cases "min_heap_push True junk e s") auto
  show "\<exists>s'. min_heap_erase e s = (if e \<in> set (mh_list s) then 0 else - 1, s') \<and> set (mh_list s') = set (mh_list s) - {e}"
    using min_heap_erase_inv [OF inv, of e] by (cases "min_heap_erase e s") auto
  show "\<exists>t s'. min_heap_top s = Some t \<and> min_heap_pop s = (Some t, s') \<and>
      set (mh_list s') = set (mh_list s) - {t} \<and> (\<forall>x \<in> set (mh_list s). \<not> timer_greater (timeout_of s t) (timeout_of s x))"
    if ne: "mh_list s \<noteq> []"
  proof -
    have "0 < mh_n s" using ne length_mh_list [OF inv] by (cases "mh_list s") auto
    then have "min_heap_top s = Some (mh_list s ! 0)"
      using length_mh_list [OF inv] mh_list_nth [of 0 s] by (simp add: min_heap_top_def)
    with ne mh.pop_Some [OF inv] min_heap_pop_spec [OF inv] show ?thesis by auto
  qed
qed

text \<open>Two events, the later one pushed first.\<close>

definition sample_events :: "nat \<Rightarrow> heap_event" where
  "sample_events e = \<lparr>ev_timeout = \<lparr>tv_sec = (if e = 7 then 90 else 20), tv_usec = 0\<rparr>, min_heap_idx = - 1\<rparr>"

definition sample_heap :: min_heap where
  "sample_heap = snd (min_heap_push True [] 3 (snd (min_heap_push True [] 7 (min_heap_ctor sample_events))))"

lemma sample_heap_list: "mh_list (snd (min_heap_push True [] 7 (min_heap_ctor sample_events))) = [7]" "mh_list sample_heap = [3, 7]"
  by (simp_all add: sample_heap_def min_heap_push_def min_heap_reserve_def min_heap_ctor_def mh_list_def min_heap_shift_up.simps
      put_def set_idx_def min_heap_elem_greater_def timer_greater_def sample_events_def upt_rec)

theorem min_heap_priority_queue_witness:
  "\<exists>s'. min_heap_top sample_heap = Some 3 \<and> min_heap_pop sample_heap = (Some 3, s') \<and> set (mh_list s') = {7}"
proof -
  let ?s1 = "snd (min_heap_push True [] 7 (min_heap_ctor sample_events))"
  have "heap_reach (min_heap_ctor sample_events)" by (rule heap_reach.ctor) (simp add: sample_events_def)
  then have "heap_reach ?s1"
    by (rule heap_reach.push [where mem = True and junk = "[]" and e = 7 and r = "fst (min_heap_push True [] 7 (min_heap_ctor sample_events))"])
      (simp_all add: min_heap_ctor_def mh_list_def)
  then have "heap_reach sample_heap"
    by (rule heap_reach.push [where mem = True and junk = "[]" and e = 3 and r = "fst (min_heap_push True [] 3 ?s1)"])
      (simp_all add: sample_heap_list, simp add: sample_heap_def)
  from min_heap_priority_queue [OF this, of 3 "[]"] obtain t s' where
      t: "min_heap_top sample_heap = Some t" "min_heap_pop sample_heap = (Some t, s')"
        "set (mh_list s') = set (mh_list sample_heap) - {t}" and inv: "heap_inv sample_heap"
    unfolding sample_heap_list by auto
  have "t = 3"
    using t(2) min_heap_pop_spec [OF inv] by (simp add: sample_heap_list)
  with t show ?thesis by (simp add: sample_heap_list)
qed

end
