(* ===== verification/Ev_Buffer.thy ===== *)
theory Ev_Buffer
  imports Prelude
begin

text \<open>
  The byte buffers of the bundled libevent (\<open>sample/tcp/libevent/buffer.c\<close>): a buffer is a linked
  list of chains, each with its own memory, of which the bytes from \<open>misalign\<close> on, \<open>off\<close> of them,
  are data.

  The list of chains is a list; \<open>first\<close> and \<open>last\<close> are its ends. \<open>last_with_datap\<close> points to one
  of the \<open>next\<close> pointers (or to \<open>first\<close>): it is the index \<open>eb_lwd\<close> of the chain that pointer points
  to, the length of the list for a null pointer. Sizes are natural numbers; the one place where a
  \<open>size_t\<close> wraps around, the size of a new chain, is written out. An operation allocates at most
  once, and whether that succeeds is its argument \<open>mem\<close>. Writing to memory outside a chain, reading
  through a null pointer, a failed assertion, a loop that does not end and a shift by the width of the
  type or more are errors of the model.
  A callback is the record of its call; what the client's function then does is not modelled.
\<close>

datatype ev_error = Assert_failed | Null_deref | Out_of_bounds | No_return | Undefined_shift

type_synonym 'a ev_result = "ev_error + 'a"

record evbuffer_chain =
  ch_buffer :: "byte list"
  ch_misalign :: nat
  ch_off :: nat
  ch_flags :: u32

record evbuffer_cb_info =
  orig_size :: int
  n_added :: nat
  n_deleted :: nat

record evbuffer_cb_entry =
  cb_id :: nat
  cb_flags :: u32

record evbuffer =
  eb_chains :: "evbuffer_chain list"
  eb_lwd :: nat
  eb_total_len :: nat
  eb_n_add :: nat
  eb_n_del :: nat
  eb_freeze_start :: bool
  eb_freeze_end :: bool
  eb_deferred_cbs :: bool
  eb_queued :: bool
  eb_refcnt :: nat
  eb_callbacks :: "evbuffer_cb_entry list"
  eb_calls :: "(nat \<times> evbuffer_cb_info) list"

definition EVBUFFER_MMAP :: u32 where "EVBUFFER_MMAP = 1"
definition EVBUFFER_SENDFILE :: u32 where "EVBUFFER_SENDFILE = 2"
definition EVBUFFER_REFERENCE :: u32 where "EVBUFFER_REFERENCE = 4"
definition EVBUFFER_IMMUTABLE :: u32 where "EVBUFFER_IMMUTABLE = 8"
definition EVBUFFER_MEM_PINNED_R :: u32 where "EVBUFFER_MEM_PINNED_R = 16"
definition EVBUFFER_MEM_PINNED_ANY :: u32 where "EVBUFFER_MEM_PINNED_ANY = 48"
definition EVBUFFER_CB_ENABLED :: u32 where "EVBUFFER_CB_ENABLED = 1"
definition EVBUFFER_CB_NODEFER :: u32 where "EVBUFFER_CB_NODEFER = 2"
definition MIN_BUFFER_SIZE :: nat where "MIN_BUFFER_SIZE = 1024"
definition EVBUFFER_CHAIN_SIZE :: nat where "EVBUFFER_CHAIN_SIZE = 48"
definition EVBUFFER_CHAIN_MAX_AUTO_SIZE :: nat where "EVBUFFER_CHAIN_MAX_AUTO_SIZE = 4096"
definition MAX_TO_COPY_IN_EXPAND :: nat where "MAX_TO_COPY_IN_EXPAND = 4096"
definition MAX_TO_REALIGN_IN_EXPAND :: nat where "MAX_TO_REALIGN_IN_EXPAND = 2048"

section \<open>Chains\<close>

definition buffer_len :: "evbuffer_chain \<Rightarrow> nat" where
  "buffer_len c = length (ch_buffer c)"

definition is_immutable :: "evbuffer_chain \<Rightarrow> bool" where
  "is_immutable c \<longleftrightarrow> ch_flags c AND EVBUFFER_IMMUTABLE \<noteq> 0"

definition CHAIN_SPACE_LEN :: "evbuffer_chain \<Rightarrow> nat" where
  "CHAIN_SPACE_LEN c = (if is_immutable c then 0 else buffer_len c - (ch_misalign c + ch_off c))"

definition CHAIN_PINNED :: "evbuffer_chain \<Rightarrow> bool" where
  "CHAIN_PINNED c \<longleftrightarrow> ch_flags c AND EVBUFFER_MEM_PINNED_ANY \<noteq> 0"

definition CHAIN_PINNED_R :: "evbuffer_chain \<Rightarrow> bool" where
  "CHAIN_PINNED_R c \<longleftrightarrow> ch_flags c AND EVBUFFER_MEM_PINNED_R \<noteq> 0"

text \<open>The data of a chain, and \<open>memcpy\<close> of bytes to an offset of its memory.\<close>

definition chain_data :: "evbuffer_chain \<Rightarrow> byte list" where
  "chain_data c = take (ch_off c) (drop (ch_misalign c) (ch_buffer c))"

definition chain_write :: "nat \<Rightarrow> byte list \<Rightarrow> evbuffer_chain \<Rightarrow> evbuffer_chain ev_result" where
  "chain_write pos d c =
     (if pos + length d \<le> buffer_len c
      then Inr (c\<lparr>ch_buffer := take pos (ch_buffer c) @ d @ drop (pos + length d) (ch_buffer c)\<rparr>)
      else Inl Out_of_bounds)"

text \<open>\<open>while (to_alloc < size) to_alloc <<= 1\<close> on 64-bit sizes; \<open>None\<close>: the loop does not end.\<close>

partial_function (option) to_alloc_loop :: "nat \<Rightarrow> nat \<Rightarrow> nat option" where
  "to_alloc_loop to_alloc sz =
     (if to_alloc < sz then to_alloc_loop (to_alloc * 2 mod 2 ^ 64) sz else Some to_alloc)"

text \<open>Fresh memory has no particular contents; it is taken to be zero.\<close>

definition evbuffer_chain_new :: "bool \<Rightarrow> nat \<Rightarrow> evbuffer_chain option ev_result" where
  "evbuffer_chain_new mem sz =
     (case to_alloc_loop MIN_BUFFER_SIZE ((sz + EVBUFFER_CHAIN_SIZE) mod 2 ^ 64) of
        None \<Rightarrow> Inl No_return
      | Some to_alloc \<Rightarrow>
          if mem then Inr (Some \<lparr>ch_buffer = replicate (to_alloc - EVBUFFER_CHAIN_SIZE) 0, ch_misalign = 0, ch_off = 0, ch_flags = 0\<rparr>)
          else Inr None)"

definition evbuffer_chains_all_empty :: "evbuffer_chain list \<Rightarrow> bool" where
  "evbuffer_chains_all_empty cs \<longleftrightarrow> (\<forall>c\<in>set cs. ch_off c = 0)"

text \<open>The index of the first victim chain, from \<open>last_with_datap\<close> on.\<close>

definition victim :: "evbuffer \<Rightarrow> nat" where
  "victim buf = eb_lwd buf + length (takeWhile (\<lambda>c. ch_off c \<noteq> 0 \<or> CHAIN_PINNED c) (drop (eb_lwd buf) (eb_chains buf)))"

definition evbuffer_free_trailing_empty_chains :: "evbuffer \<Rightarrow> evbuffer ev_result" where
  "evbuffer_free_trailing_empty_chains buf =
     (let v = victim buf in
      if \<not> evbuffer_chains_all_empty (drop v (eb_chains buf)) then Inl Assert_failed
      else Inr (buf\<lparr>eb_chains := take v (eb_chains buf)\<rparr>))"

definition evbuffer_chain_insert :: "evbuffer_chain \<Rightarrow> evbuffer \<Rightarrow> evbuffer ev_result" where
  "evbuffer_chain_insert chain buf =
     bind_result
       (if length (eb_chains buf) \<le> eb_lwd buf
        then if eb_lwd buf = 0 \<and> eb_chains buf = [] then Inr (buf\<lparr>eb_chains := [chain]\<rparr>) else Inl Assert_failed
        else let v = victim buf in
          if v = length (eb_chains buf)
          then Inr (buf\<lparr>eb_chains := eb_chains buf @ [chain],
                        eb_lwd := if ch_off chain \<noteq> 0 then length (eb_chains buf) else eb_lwd buf\<rparr>)
          else if \<not> evbuffer_chains_all_empty (drop v (eb_chains buf)) then Inl Assert_failed
          else Inr (buf\<lparr>eb_chains := take v (eb_chains buf) @ [chain]\<rparr>))
       (\<lambda>buf. Inr (buf\<lparr>eb_total_len := eb_total_len buf + ch_off chain\<rparr>))"

definition evbuffer_chain_insert_new :: "bool \<Rightarrow> nat \<Rightarrow> evbuffer \<Rightarrow> evbuffer option ev_result" where
  "evbuffer_chain_insert_new mem datlen buf =
     bind_result (evbuffer_chain_new mem datlen)
       (\<lambda>c. case c of None \<Rightarrow> Inr None | Some chain \<Rightarrow> bind_result (evbuffer_chain_insert chain buf) (\<lambda>b. Inr (Some b)))"

definition evbuffer_chain_align :: "evbuffer_chain \<Rightarrow> evbuffer_chain ev_result" where
  "evbuffer_chain_align c =
     (if is_immutable c \<or> CHAIN_PINNED c then Inl Assert_failed
      else bind_result (chain_write 0 (chain_data c) c) (\<lambda>c. Inr (c\<lparr>ch_misalign := 0\<rparr>)))"

definition evbuffer_chain_should_realign :: "evbuffer_chain \<Rightarrow> nat \<Rightarrow> bool" where
  "evbuffer_chain_should_realign c datlen \<longleftrightarrow>
     buffer_len c - ch_off c \<ge> datlen \<and> ch_off c < buffer_len c div 2 \<and> ch_off c \<le> MAX_TO_REALIGN_IN_EXPAND"

text \<open>Bytes written behind the data of a chain, which become data.\<close>

definition chain_append :: "byte list \<Rightarrow> evbuffer_chain \<Rightarrow> evbuffer_chain ev_result" where
  "chain_append d c =
     bind_result (chain_write (ch_misalign c + ch_off c) d c) (\<lambda>c. Inr (c\<lparr>ch_off := ch_off c + length d\<rparr>))"

section \<open>Buffers and callbacks\<close>

definition evbuffer_new :: evbuffer where
  "evbuffer_new = \<lparr>eb_chains = [], eb_lwd = 0, eb_total_len = 0, eb_n_add = 0, eb_n_del = 0,
     eb_freeze_start = False, eb_freeze_end = False, eb_deferred_cbs = False, eb_queued = False, eb_refcnt = 1,
     eb_callbacks = [], eb_calls = []\<rparr>"

definition evbuffer_run_callbacks :: "bool \<Rightarrow> evbuffer \<Rightarrow> evbuffer" where
  "evbuffer_run_callbacks running_deferred buf =
     (let mask = (if running_deferred \<or> eb_deferred_cbs buf then EVBUFFER_CB_NODEFER OR EVBUFFER_CB_ENABLED else EVBUFFER_CB_ENABLED);
          masked_val = (if running_deferred then EVBUFFER_CB_ENABLED
                        else if eb_deferred_cbs buf then EVBUFFER_CB_NODEFER OR EVBUFFER_CB_ENABLED else EVBUFFER_CB_ENABLED);
          clear = (running_deferred \<or> \<not> eb_deferred_cbs buf) in
      if eb_callbacks buf = [] then buf\<lparr>eb_n_add := 0, eb_n_del := 0\<rparr>
      else if eb_n_add buf = 0 \<and> eb_n_del buf = 0 then buf
      else let info = \<lparr>orig_size = int (eb_total_len buf) + int (eb_n_del buf) - int (eb_n_add buf),
                       n_added = eb_n_add buf, n_deleted = eb_n_del buf\<rparr>;
               run = filter (\<lambda>e. cb_flags e AND mask = masked_val) (eb_callbacks buf) in
           (if clear then buf\<lparr>eb_n_add := 0, eb_n_del := 0\<rparr> else buf)
             \<lparr>eb_calls := eb_calls buf @ map (\<lambda>e. (cb_id e, info)) run\<rparr>)"

definition evbuffer_invoke_callbacks :: "evbuffer \<Rightarrow> evbuffer" where
  "evbuffer_invoke_callbacks buf =
     (if eb_callbacks buf = [] then buf\<lparr>eb_n_add := 0, eb_n_del := 0\<rparr>
      else if eb_deferred_cbs buf
      then if eb_queued buf then buf
           else evbuffer_run_callbacks False (buf\<lparr>eb_refcnt := eb_refcnt buf + 1, eb_queued := True\<rparr>)
      else evbuffer_run_callbacks False buf)"

text \<open>The deferred call itself: it leaves the queue, runs the callbacks and drops the reference.\<close>

definition evbuffer_deferred_callback :: "evbuffer \<Rightarrow> evbuffer" where
  "evbuffer_deferred_callback buf =
     (let b = evbuffer_run_callbacks True (buf\<lparr>eb_queued := False\<rparr>) in b\<lparr>eb_refcnt := eb_refcnt b - 1\<rparr>)"

definition evbuffer_get_length :: "evbuffer \<Rightarrow> nat" where
  "evbuffer_get_length buf = eb_total_len buf"

definition evbuffer_get_contiguous_space :: "evbuffer \<Rightarrow> nat" where
  "evbuffer_get_contiguous_space buf = (case eb_chains buf of [] \<Rightarrow> 0 | c # cs \<Rightarrow> ch_off c)"

definition evbuffer_freeze :: "bool \<Rightarrow> evbuffer \<Rightarrow> evbuffer" where
  "evbuffer_freeze start buf = (if start then buf\<lparr>eb_freeze_start := True\<rparr> else buf\<lparr>eb_freeze_end := True\<rparr>)"

definition evbuffer_unfreeze :: "bool \<Rightarrow> evbuffer \<Rightarrow> evbuffer" where
  "evbuffer_unfreeze start buf = (if start then buf\<lparr>eb_freeze_start := False\<rparr> else buf\<lparr>eb_freeze_end := False\<rparr>)"

definition evbuffer_add_cb :: "nat \<Rightarrow> evbuffer \<Rightarrow> evbuffer" where
  "evbuffer_add_cb cb buf = buf\<lparr>eb_callbacks := \<lparr>cb_id = cb, cb_flags = EVBUFFER_CB_ENABLED\<rparr> # eb_callbacks buf\<rparr>"

definition ZERO_CHAIN :: "evbuffer \<Rightarrow> evbuffer" where
  "ZERO_CHAIN buf = buf\<lparr>eb_chains := [], eb_lwd := 0, eb_total_len := 0\<rparr>"

definition HAS_PINNED_R :: "evbuffer \<Rightarrow> bool" where
  "HAS_PINNED_R buf \<longleftrightarrow> eb_chains buf \<noteq> [] \<and> CHAIN_PINNED_R (last (eb_chains buf))"

section \<open>Adding data\<close>

text \<open>Data accounted for: \<open>total_len += n; n_add_for_cb += n\<close>.\<close>

definition account :: "nat \<Rightarrow> evbuffer \<Rightarrow> evbuffer" where
  "account n buf = buf\<lparr>eb_total_len := eb_total_len buf + n, eb_n_add := eb_n_add buf + n\<rparr>"

definition set_last :: "evbuffer_chain \<Rightarrow> evbuffer \<Rightarrow> evbuffer" where
  "set_last c buf = buf\<lparr>eb_chains := butlast (eb_chains buf) @ [c]\<rparr>"

definition set_first :: "evbuffer_chain \<Rightarrow> evbuffer \<Rightarrow> evbuffer" where
  "set_first c buf = buf\<lparr>eb_chains := c # tl (eb_chains buf)\<rparr>"

text \<open>A buffer without chains gets one of \<open>datlen\<close> bytes; \<open>None\<close> when there is no memory.\<close>

definition first_chain :: "bool \<Rightarrow> nat \<Rightarrow> evbuffer \<Rightarrow> evbuffer option ev_result" where
  "first_chain mem datlen buf =
     (if eb_chains buf = [] then evbuffer_chain_insert_new mem datlen buf else Inr (Some buf))"

definition evbuffer_add :: "bool \<Rightarrow> byte list \<Rightarrow> evbuffer \<Rightarrow> (int \<times> evbuffer) ev_result" where
  "evbuffer_add mem data buf =
     (let datlen = length data in
      if eb_freeze_end buf then Inr (- 1, buf)
      else bind_result (first_chain mem datlen buf) (\<lambda>b. case b of None \<Rightarrow> Inr (- 1, buf) | Some buf \<Rightarrow>
        let chain = last (eb_chains buf);
            remain = (if is_immutable chain then 0 else buffer_len chain - ch_misalign chain - ch_off chain) in
        if \<not> is_immutable chain \<and> remain \<ge> datlen
        then bind_result (chain_append data chain) (\<lambda>chain.
          Inr (0, evbuffer_invoke_callbacks (account datlen (set_last chain buf))))
        else if \<not> is_immutable chain \<and> \<not> CHAIN_PINNED chain \<and> evbuffer_chain_should_realign chain datlen
        then bind_result (evbuffer_chain_align chain) (\<lambda>chain. bind_result (chain_append data chain) (\<lambda>chain.
          Inr (0, evbuffer_invoke_callbacks (account datlen (set_last chain buf)))))
        else
          let to_alloc = buffer_len chain;
              to_alloc = (if to_alloc \<le> EVBUFFER_CHAIN_MAX_AUTO_SIZE div 2 then to_alloc * 2 else to_alloc);
              to_alloc = (if datlen > to_alloc then datlen else to_alloc) in
          bind_result (evbuffer_chain_new mem to_alloc) (\<lambda>t. case t of None \<Rightarrow> Inr (- 1, buf) | Some tmp \<Rightarrow>
            bind_result (if remain \<noteq> 0 then chain_append (take remain data) chain else Inr chain) (\<lambda>chain.
            bind_result (chain_append (drop remain data) tmp) (\<lambda>tmp.
            bind_result (evbuffer_chain_insert tmp (account remain (set_last chain buf))) (\<lambda>buf.
              Inr (0, evbuffer_invoke_callbacks (buf\<lparr>eb_n_add := eb_n_add buf + (datlen - remain)\<rparr>))))))))"

definition evbuffer_prepend :: "bool \<Rightarrow> byte list \<Rightarrow> evbuffer \<Rightarrow> (int \<times> evbuffer) ev_result" where
  "evbuffer_prepend mem data buf =
     (let datlen = length data in
      if eb_freeze_start buf then Inr (- 1, buf)
      else bind_result (first_chain mem datlen buf) (\<lambda>b. case b of None \<Rightarrow> Inr (- 1, buf) | Some buf \<Rightarrow>
        let chain = hd (eb_chains buf);
            chain = (if \<not> is_immutable chain \<and> ch_off chain = 0 then chain\<lparr>ch_misalign := buffer_len chain\<rparr> else chain) in
        if \<not> is_immutable chain \<and> ch_misalign chain \<ge> datlen
        then bind_result (chain_write (ch_misalign chain - datlen) data chain) (\<lambda>chain.
          Inr (0, evbuffer_invoke_callbacks (account datlen
            (set_first (chain\<lparr>ch_off := ch_off chain + datlen, ch_misalign := ch_misalign chain - datlen\<rparr>) buf))))
        else
          let part = (if is_immutable chain then 0 else ch_misalign chain) in
          bind_result (if part \<noteq> 0 then chain_write 0 (drop (datlen - part) data) chain else Inr chain) (\<lambda>chain.
          let chain = (if part \<noteq> 0 then chain\<lparr>ch_off := ch_off chain + part, ch_misalign := 0\<rparr> else chain);
              buf = account part (set_first chain buf); data = take (datlen - part) data in
          bind_result (evbuffer_chain_new mem (length data)) (\<lambda>t. case t of None \<Rightarrow> Inr (- 1, buf) | Some tmp \<Rightarrow>
            let misalign = buffer_len tmp - length data in
            bind_result (chain_write misalign data tmp) (\<lambda>tmp.
              Inr (0, evbuffer_invoke_callbacks
                (buf\<lparr>eb_chains := tmp\<lparr>ch_off := length data, ch_misalign := misalign\<rparr> # eb_chains buf,
                     eb_lwd := eb_lwd buf + 1,
                     eb_total_len := eb_total_len buf + length data,
                     eb_n_add := eb_n_add buf + ch_misalign chain\<rparr>)))))))"

definition evbuffer_add_reference :: "bool \<Rightarrow> byte list \<Rightarrow> evbuffer \<Rightarrow> (int \<times> evbuffer) ev_result" where
  "evbuffer_add_reference mem data buf =
     bind_result (evbuffer_chain_new mem 16) (\<lambda>c. case c of None \<Rightarrow> Inr (- 1, buf) | Some chain \<Rightarrow>
       let chain = chain\<lparr>ch_flags := ch_flags chain OR EVBUFFER_REFERENCE OR EVBUFFER_IMMUTABLE, ch_buffer := data, ch_off := length data\<rparr> in
       if eb_freeze_end buf then Inr (- 1, buf)
       else bind_result (evbuffer_chain_insert chain buf) (\<lambda>buf.
         Inr (0, evbuffer_invoke_callbacks (buf\<lparr>eb_n_add := eb_n_add buf + length data\<rparr>))))"

section \<open>Removing data\<close>

text \<open>
  The loop of \<open>evbuffer_drain\<close>: how many chains it frees, whether it stops at a pinned chain,
  what remains to be drained, and the chains left.
\<close>

fun drain_loop :: "nat \<Rightarrow> evbuffer_chain list \<Rightarrow> (nat \<times> bool \<times> nat \<times> evbuffer_chain list) ev_result" where
  "drain_loop remaining [] = Inl Null_deref"
| "drain_loop remaining (c # cs) =
     (if remaining \<ge> ch_off c
      then if CHAIN_PINNED_R c
           then if remaining - ch_off c \<noteq> 0 then Inl Assert_failed
                else Inr (0, True, 0, c\<lparr>ch_misalign := ch_misalign c + ch_off c, ch_off := 0\<rparr> # cs)
           else bind_result (drain_loop (remaining - ch_off c) cs) (\<lambda>(k, r). Inr (k + 1, r))
      else Inr (0, False, remaining, c # cs))"

text \<open>
  \<open>last_with_datap\<close> is reset to \<open>first\<close> when the chain it points to or the one it is part of is
  freed (or is the pinned one the loop stops at), and stays where it is otherwise.
\<close>

definition evbuffer_drain :: "nat \<Rightarrow> evbuffer \<Rightarrow> (int \<times> evbuffer) ev_result" where
  "evbuffer_drain n buf =
     (let old_len = eb_total_len buf in
      if old_len = 0 then Inr (0, buf)
      else if eb_freeze_start buf then Inr (- 1, buf)
      else if n \<ge> old_len \<and> \<not> HAS_PINNED_R buf
      then let buf = ZERO_CHAIN buf in Inr (0, evbuffer_invoke_callbacks (buf\<lparr>eb_n_del := eb_n_del buf + old_len\<rparr>))
      else let len = min n old_len in
        bind_result (drain_loop len (eb_chains buf)) (\<lambda>(k, pinned, remaining, cs).
          let seen = (if pinned then k + 1 else k) in
          Inr (0, evbuffer_invoke_callbacks
            (buf\<lparr>eb_total_len := old_len - len,
                 eb_chains := (hd cs)\<lparr>ch_misalign := ch_misalign (hd cs) + remaining, ch_off := ch_off (hd cs) - remaining\<rparr> # tl cs,
                 eb_lwd := if eb_lwd buf \<le> seen then 0 else eb_lwd buf - k,
                 eb_n_del := eb_n_del buf + len\<rparr>))))"

fun copyout_loop :: "nat \<Rightarrow> evbuffer_chain list \<Rightarrow> byte list ev_result" where
  "copyout_loop datlen [] = (if datlen = 0 then Inr [] else Inl Assert_failed)"
| "copyout_loop datlen (c # cs) =
     (if datlen \<noteq> 0 \<and> datlen \<ge> ch_off c
      then bind_result (copyout_loop (datlen - ch_off c) cs) (\<lambda>d. Inr (chain_data c @ d))
      else Inr (take datlen (chain_data c)))"

text \<open>What is copied out, and the result: its length, or -1 when the start is frozen.\<close>

definition evbuffer_copyout :: "nat \<Rightarrow> evbuffer \<Rightarrow> (int \<times> byte list) ev_result" where
  "evbuffer_copyout datlen buf =
     (let datlen = min datlen (eb_total_len buf) in
      if datlen = 0 then Inr (0, [])
      else if eb_freeze_start buf then Inr (- 1, [])
      else if eb_chains buf = [] then Inl Null_deref
      else bind_result (copyout_loop datlen (eb_chains buf)) (\<lambda>d. Inr (int datlen, d)))"

definition evbuffer_remove :: "nat \<Rightarrow> evbuffer \<Rightarrow> (int \<times> byte list \<times> evbuffer) ev_result" where
  "evbuffer_remove datlen buf =
     bind_result (evbuffer_copyout datlen buf) (\<lambda>(n, d).
       if n > 0 then bind_result (evbuffer_drain (nat n) buf) (\<lambda>(r, buf). Inr (if r < 0 then - 1 else n, d, buf))
       else Inr (n, d, buf))"

section \<open>Moving data between buffers\<close>

text \<open>
  The read-pinned chains at the end of \<open>src\<close> are kept aside; the result is \<open>None\<close> without memory,
  otherwise the pinned chains and \<open>src\<close> without them.
\<close>

definition PRESERVE_PINNED :: "bool \<Rightarrow> evbuffer \<Rightarrow> (evbuffer_chain list \<times> evbuffer) option ev_result" where
  "PRESERVE_PINNED mem src =
     (if \<not> HAS_PINNED_R src then Inr (Some ([], src))
      else if length (eb_chains src) \<le> eb_lwd src then Inl Null_deref
      else let pinned = (if CHAIN_PINNED_R (eb_chains src ! eb_lwd src) then eb_lwd src else eb_lwd src + 1) in
        if length (eb_chains src) \<le> pinned then Inl Null_deref
        else let chain = eb_chains src ! pinned in
          if \<not> CHAIN_PINNED_R chain then Inl Assert_failed
          else if ch_off chain \<noteq> 0
          then if pinned \<noteq> eb_lwd src then Inl Assert_failed
               else bind_result (evbuffer_chain_new mem (ch_off chain)) (\<lambda>t. case t of None \<Rightarrow> Inr None | Some tmp \<Rightarrow>
                 bind_result (chain_append (chain_data chain) tmp) (\<lambda>tmp.
                   Inr (Some (chain\<lparr>ch_misalign := ch_misalign chain + ch_off chain, ch_off := 0\<rparr> # drop (pinned + 1) (eb_chains src),
                              src\<lparr>eb_chains := take pinned (eb_chains src) @ [tmp]\<rparr>))))
          else Inr (Some (drop pinned (eb_chains src), src\<lparr>eb_chains := take pinned (eb_chains src)\<rparr>)))"

definition RESTORE_PINNED :: "evbuffer_chain list \<Rightarrow> evbuffer \<Rightarrow> evbuffer" where
  "RESTORE_PINNED pinned src =
     (if pinned = [] then ZERO_CHAIN src else src\<lparr>eb_chains := pinned, eb_lwd := 0, eb_total_len := 0\<rparr>)"

definition COPY_CHAIN :: "evbuffer \<Rightarrow> evbuffer \<Rightarrow> evbuffer" where
  "COPY_CHAIN dst src = dst\<lparr>eb_chains := eb_chains src, eb_lwd := eb_lwd src, eb_total_len := eb_total_len src\<rparr>"

definition APPEND_CHAIN :: "evbuffer \<Rightarrow> evbuffer \<Rightarrow> evbuffer" where
  "APPEND_CHAIN dst src = dst\<lparr>eb_chains := eb_chains dst @ eb_chains src, eb_lwd := length (eb_chains dst) + eb_lwd src,
     eb_total_len := eb_total_len dst + eb_total_len src\<rparr>"

definition PREPEND_CHAIN :: "evbuffer \<Rightarrow> evbuffer \<Rightarrow> evbuffer" where
  "PREPEND_CHAIN dst src = dst\<lparr>eb_chains := eb_chains src @ eb_chains dst,
     eb_lwd := (if length (eb_chains dst) \<le> eb_lwd dst then eb_lwd src else length (eb_chains src) + eb_lwd dst),
     eb_total_len := eb_total_len dst + eb_total_len src\<rparr>"

text \<open>\<open>same\<close>: both arguments are the same buffer.\<close>

definition move_buffer :: "(evbuffer \<Rightarrow> evbuffer \<Rightarrow> evbuffer) \<Rightarrow> (evbuffer \<Rightarrow> bool) \<Rightarrow> bool \<Rightarrow> bool \<Rightarrow> evbuffer \<Rightarrow> evbuffer \<Rightarrow>
    (int \<times> evbuffer \<times> evbuffer) ev_result" where
  "move_buffer link frozen same mem outbuf inbuf =
     (let in_total_len = eb_total_len inbuf; out_total_len = eb_total_len outbuf in
      if in_total_len = 0 \<or> same then Inr (0, outbuf, inbuf)
      else if frozen outbuf \<or> eb_freeze_start inbuf then Inr (- 1, outbuf, inbuf)
      else bind_result (PRESERVE_PINNED mem inbuf) (\<lambda>r. case r of None \<Rightarrow> Inr (- 1, outbuf, inbuf) | Some (pinned, inbuf) \<Rightarrow>
        let outbuf = (if out_total_len = 0 then COPY_CHAIN outbuf inbuf else link outbuf inbuf);
            inbuf = RESTORE_PINNED pinned inbuf in
        Inr (0, evbuffer_invoke_callbacks (outbuf\<lparr>eb_n_add := eb_n_add outbuf + in_total_len\<rparr>),
             evbuffer_invoke_callbacks (inbuf\<lparr>eb_n_del := eb_n_del inbuf + in_total_len\<rparr>))))"

definition evbuffer_add_buffer :: "bool \<Rightarrow> bool \<Rightarrow> evbuffer \<Rightarrow> evbuffer \<Rightarrow> (int \<times> evbuffer \<times> evbuffer) ev_result" where
  "evbuffer_add_buffer = move_buffer APPEND_CHAIN eb_freeze_end"

definition evbuffer_prepend_buffer :: "bool \<Rightarrow> bool \<Rightarrow> evbuffer \<Rightarrow> evbuffer \<Rightarrow> (int \<times> evbuffer \<times> evbuffer) ev_result" where
  "evbuffer_prepend_buffer = move_buffer PREPEND_CHAIN eb_freeze_start"

definition advance_last_with_data :: "evbuffer \<Rightarrow> evbuffer" where
  "advance_last_with_data buf =
     (if length (eb_chains buf) \<le> eb_lwd buf then buf
      else buf\<lparr>eb_lwd := eb_lwd buf + length (takeWhile (\<lambda>c. ch_off c \<noteq> 0) (drop (eb_lwd buf + 1) (eb_chains buf)))\<rparr>)"

text \<open>
  The loop that takes whole chains off \<open>src\<close>: \<open>i\<close> counts them, \<open>nread\<close> their bytes; it stops at a
  chain that has more data than is asked for.
\<close>

fun remove_chains :: "nat \<Rightarrow> nat \<Rightarrow> nat \<Rightarrow> nat \<Rightarrow> evbuffer_chain list \<Rightarrow> (nat \<times> nat \<times> nat) ev_result" where
  "remove_chains lwd i nread datlen [] = Inl Null_deref"
| "remove_chains lwd i nread datlen (c # cs) =
     (if ch_off c \<le> datlen
      then if i = lwd then Inl Assert_failed else remove_chains lwd (i + 1) (nread + ch_off c) (datlen - ch_off c) cs
      else Inr (i, nread, datlen))"

definition evbuffer_remove_buffer :: "bool \<Rightarrow> bool \<Rightarrow> evbuffer \<Rightarrow> evbuffer \<Rightarrow> nat \<Rightarrow> (int \<times> evbuffer \<times> evbuffer) ev_result" where
  "evbuffer_remove_buffer same mem src dst datlen =
     (if datlen = 0 \<or> same then Inr (0, src, dst)
      else if eb_freeze_end dst \<or> eb_freeze_start src then Inr (- 1, src, dst)
      else if datlen \<ge> eb_total_len src
      then bind_result (evbuffer_add_buffer same mem dst src) (\<lambda>(r, dst', src'). Inr (int (eb_total_len src), src', dst'))
      else bind_result (remove_chains (eb_lwd src) 0 0 datlen (eb_chains src)) (\<lambda>(i, nread, datlen).
        bind_result
          (if nread \<noteq> 0
           then bind_result (evbuffer_free_trailing_empty_chains dst) (\<lambda>dst.
             Inr (account nread (advance_last_with_data (dst\<lparr>eb_chains := eb_chains dst @ take i (eb_chains src)\<rparr>)),
                  src\<lparr>eb_chains := drop i (eb_chains src), eb_lwd := eb_lwd src - i\<rparr>))
           else Inr (dst, src\<lparr>eb_lwd := if eb_lwd src = i then 0 else eb_lwd src\<rparr>)) (\<lambda>(dst, src).
        let j = (if nread \<noteq> 0 then 0 else i); chain = eb_chains src ! j in
        bind_result (evbuffer_add mem (take datlen (chain_data chain)) dst) (\<lambda>(r, dst).
          let src = src\<lparr>eb_chains := (eb_chains src)[j := chain\<lparr>ch_misalign := ch_misalign chain + datlen, ch_off := ch_off chain - datlen\<rparr>],
                        eb_total_len := eb_total_len src - (nread + datlen), eb_n_del := eb_n_del src + (nread + datlen)\<rparr> in
          Inr (int (nread + datlen),
               (if nread + datlen \<noteq> 0 then evbuffer_invoke_callbacks src else src),
               (if nread + datlen \<noteq> 0 then evbuffer_invoke_callbacks dst else dst))))))"

section \<open>Contiguous data and space\<close>

text \<open>
  The copying loop of \<open>evbuffer_pullup\<close>: the bytes of the chains that are pulled in as a whole,
  how many these are, how much is still missing, and the chains left.
\<close>

fun pullup_loop :: "nat \<Rightarrow> evbuffer_chain list \<Rightarrow> byte list \<times> nat \<times> nat \<times> evbuffer_chain list" where
  "pullup_loop sz [] = ([], 0, sz, [])"
| "pullup_loop sz (c # cs) =
     (if sz \<ge> ch_off c
      then let (d, k, r) = pullup_loop (sz - ch_off c) cs in (chain_data c @ d, k + 1, r)
      else ([], 0, sz, c # cs))"

text \<open>The chains that will be copied from, as far as the check of the pinned ones goes.\<close>

fun pullup_pinned :: "nat \<Rightarrow> evbuffer_chain list \<Rightarrow> bool" where
  "pullup_pinned remaining [] = False"
| "pullup_pinned remaining (c # cs) =
     (if CHAIN_PINNED c then True else if ch_off c \<ge> remaining then False else pullup_pinned (remaining - ch_off c) cs)"

text \<open>
  The data are collected behind those of \<open>tmp\<close>, the chain that stands before the chains \<open>cs\<close>;
  \<open>k0\<close> chains of the buffer are replaced by \<open>tmp\<close> itself.
\<close>

definition pullup_into :: "evbuffer_chain \<Rightarrow> nat \<Rightarrow> nat \<Rightarrow> evbuffer_chain list \<Rightarrow> evbuffer \<Rightarrow> (byte list option \<times> evbuffer) ev_result" where
  "pullup_into tmp k0 sz cs buf =
     (let (d, k, left, rest) = pullup_loop sz cs;
          more = (case rest of [] \<Rightarrow> [] | c # _ \<Rightarrow> take left (chain_data c));
          rest = (case rest of [] \<Rightarrow> [] | c # r \<Rightarrow> c\<lparr>ch_misalign := ch_misalign c + left, ch_off := ch_off c - left\<rparr> # r);
          gone = k0 + k in
      bind_result (chain_append (d @ more) tmp) (\<lambda>tmp.
        Inr (Some (drop (ch_misalign tmp) (ch_buffer tmp)),
             buf\<lparr>eb_chains := tmp # rest,
                 eb_lwd := (if eb_lwd buf < gone then 0
                            else if eb_lwd buf = gone
                            then if k = 0 then 1 else (case rest of [] \<Rightarrow> 0 | c # _ \<Rightarrow> if ch_off c \<noteq> 0 then 1 else 0)
                            else eb_lwd buf - gone + 1)\<rparr>)))"

text \<open>
  The result is the memory from the pointer that is returned to the end of its chain, \<open>None\<close> for a
  null pointer. A negative size asks for everything.
\<close>

definition evbuffer_pullup :: "bool \<Rightarrow> int \<Rightarrow> evbuffer \<Rightarrow> (byte list option \<times> evbuffer) ev_result" where
  "evbuffer_pullup mem sz buf =
     (let sz = (if sz < 0 then eb_total_len buf else nat sz) in
      if sz = 0 \<or> sz > eb_total_len buf then Inr (None, buf)
      else case eb_chains buf of [] \<Rightarrow> Inl Null_deref | chain # cs \<Rightarrow>
        if ch_off chain \<ge> sz then Inr (Some (drop (ch_misalign chain) (ch_buffer chain)), buf)
        else if pullup_pinned (sz - ch_off chain) cs then Inr (None, buf)
        else if CHAIN_PINNED chain
        then if CHAIN_SPACE_LEN chain < sz - ch_off chain then Inr (None, buf)
             else pullup_into chain 1 (sz - ch_off chain) cs buf
        else if buffer_len chain - ch_misalign chain \<ge> sz then pullup_into chain 1 (sz - ch_off chain) cs buf
        else bind_result (evbuffer_chain_new mem sz) (\<lambda>t. case t of None \<Rightarrow> Inr (None, buf) | Some tmp \<Rightarrow>
          pullup_into tmp 0 sz (chain # cs) buf))"

text \<open>
  \<open>evbuffer_expand_singlechain\<close> returns the index of the chain with the space; the last step is
  the assertion that it has that space.
\<close>

definition expand_check :: "nat \<Rightarrow> nat \<Rightarrow> evbuffer \<Rightarrow> (nat \<times> evbuffer) option ev_result" where
  "expand_check datlen i buf =
     (if CHAIN_SPACE_LEN (eb_chains buf ! i) \<ge> datlen then Inr (Some (i, buf)) else Inl Assert_failed)"

definition expand_insert_new :: "bool \<Rightarrow> nat \<Rightarrow> evbuffer \<Rightarrow> (nat \<times> evbuffer) option ev_result" where
  "expand_insert_new mem datlen buf =
     bind_result (evbuffer_chain_insert_new mem datlen buf) (\<lambda>b. case b of None \<Rightarrow> Inr None | Some buf \<Rightarrow>
       expand_check datlen (length (eb_chains buf) - 1) buf)"

definition evbuffer_expand_singlechain :: "bool \<Rightarrow> nat \<Rightarrow> evbuffer \<Rightarrow> (nat \<times> evbuffer) option ev_result" where
  "evbuffer_expand_singlechain mem datlen buf =
     (let i = (if eb_lwd buf < length (eb_chains buf) \<and> CHAIN_SPACE_LEN (eb_chains buf ! eb_lwd buf) = 0 then eb_lwd buf + 1 else eb_lwd buf) in
      if length (eb_chains buf) \<le> i then expand_insert_new mem datlen buf
      else let chain = eb_chains buf ! i in
        if is_immutable chain \<or> CHAIN_PINNED chain then expand_insert_new mem datlen buf
        else if CHAIN_SPACE_LEN chain \<ge> datlen then expand_check datlen i buf
        else if ch_off chain = 0 then expand_insert_new mem datlen buf
        else if evbuffer_chain_should_realign chain datlen
        then bind_result (evbuffer_chain_align chain) (\<lambda>chain. expand_check datlen i (buf\<lparr>eb_chains := (eb_chains buf)[i := chain]\<rparr>))
        else if CHAIN_SPACE_LEN chain < buffer_len chain div 8 \<or> ch_off chain > MAX_TO_COPY_IN_EXPAND
        then if i + 1 < length (eb_chains buf) \<and> CHAIN_SPACE_LEN (eb_chains buf ! (i + 1)) \<ge> datlen
             then expand_check datlen (i + 1) buf
             else expand_insert_new mem datlen buf
        else bind_result (evbuffer_chain_new mem (ch_off chain + datlen)) (\<lambda>t. case t of None \<Rightarrow> Inr None | Some tmp \<Rightarrow>
          bind_result (chain_append (chain_data chain) tmp) (\<lambda>tmp.
            expand_check datlen i (buf\<lparr>eb_chains := (eb_chains buf)[i := tmp]\<rparr>))))"

definition evbuffer_expand :: "bool \<Rightarrow> nat \<Rightarrow> evbuffer \<Rightarrow> (int \<times> evbuffer) ev_result" where
  "evbuffer_expand mem datlen buf =
     bind_result (evbuffer_expand_singlechain mem datlen buf)
       (\<lambda>r. case r of None \<Rightarrow> Inr (- 1, buf) | Some (i, buf) \<Rightarrow> Inr (0, buf))"

end
