(* ===== verification/Ev_Buffer_Props.thy ===== *)
theory Ev_Buffer_Props
  imports Ev_Buffer
begin

text \<open>
  Evbuffers as byte queues. The contents of a buffer are the data of its chains one after another;
  the invariant \<open>evb_inv\<close> bounds every chain by its memory, ties \<open>total_len\<close> to the contents and says
  what is kept of \<open>last_with_datap\<close>: from there on, only the last chain may be empty.
\<close>

definition contents :: "evbuffer \<Rightarrow> byte list" where
  "contents buf = concat (map chain_data (eb_chains buf))"

definition chain_ok :: "evbuffer_chain \<Rightarrow> bool" where
  "chain_ok c \<longleftrightarrow> ch_misalign c + ch_off c \<le> buffer_len c \<and> \<not> CHAIN_PINNED c \<and> buffer_len c \<le> 2 ^ 63 - 48"

definition lwd_ok :: "nat \<Rightarrow> evbuffer_chain list \<Rightarrow> bool" where
  "lwd_ok i cs \<longleftrightarrow> (if cs = [] then i = 0 else i < length cs) \<and> (\<forall>c\<in>set (butlast (drop i cs)). ch_off c \<noteq> 0)"

definition evb_inv :: "evbuffer \<Rightarrow> bool" where
  "evb_inv buf \<longleftrightarrow> (\<forall>c\<in>set (eb_chains buf). chain_ok c) \<and> eb_total_len buf = length (contents buf) \<and>
     lwd_ok (eb_lwd buf) (eb_chains buf)"

definition frozen :: "evbuffer \<Rightarrow> bool \<times> bool" where
  "frozen buf = (eb_freeze_start buf, eb_freeze_end buf)"

section \<open>Chains\<close>

lemma pinned_r: "\<not> CHAIN_PINNED c \<Longrightarrow> \<not> CHAIN_PINNED_R c"
proof -
  have "EVBUFFER_MEM_PINNED_R = EVBUFFER_MEM_PINNED_ANY AND EVBUFFER_MEM_PINNED_R"
    by (simp add: EVBUFFER_MEM_PINNED_R_def EVBUFFER_MEM_PINNED_ANY_def)
  then have "ch_flags c AND EVBUFFER_MEM_PINNED_R = (ch_flags c AND EVBUFFER_MEM_PINNED_ANY) AND EVBUFFER_MEM_PINNED_R"
    by (metis and.assoc)
  then show "\<not> CHAIN_PINNED c \<Longrightarrow> \<not> CHAIN_PINNED_R c" by (simp add: CHAIN_PINNED_def CHAIN_PINNED_R_def)
qed

lemma length_chain_data [simp]: "chain_ok c \<Longrightarrow> length (chain_data c) = ch_off c"
  by (auto simp: chain_ok_def chain_data_def buffer_len_def)

lemma chain_data_Nil: "chain_ok c \<Longrightarrow> chain_data c = [] \<longleftrightarrow> ch_off c = 0"
  by (metis length_0_conv length_chain_data)

lemma chain_data_skip:
  "n \<le> ch_off c \<Longrightarrow> chain_data (c\<lparr>ch_misalign := ch_misalign c + n, ch_off := ch_off c - n\<rparr>) = drop n (chain_data c)"
  by (simp add: chain_data_def drop_take add.commute)

lemma chain_ok_skip:
  "chain_ok c \<Longrightarrow> n \<le> ch_off c \<Longrightarrow> chain_ok (c\<lparr>ch_misalign := ch_misalign c + n, ch_off := ch_off c - n\<rparr>)"
  by (auto simp: chain_ok_def CHAIN_PINNED_def buffer_len_def)

text \<open>Writing behind and before the data, and moving the data to the start of the memory.\<close>

lemma chain_append_ok:
  assumes "chain_ok c" "ch_misalign c + ch_off c + length d \<le> buffer_len c"
  shows "\<exists>c'. chain_append d c = Inr c' \<and> chain_ok c' \<and> chain_data c' = chain_data c @ d \<and> buffer_len c' = buffer_len c \<and>
    ch_misalign c' = ch_misalign c \<and> ch_off c' = ch_off c + length d \<and> ch_flags c' = ch_flags c"
proof -
  let ?b = "take (ch_misalign c + ch_off c) (ch_buffer c) @ d @ drop (ch_misalign c + ch_off c + length d) (ch_buffer c)"
  have "take (ch_off c + length d) (drop (ch_misalign c) ?b) = chain_data c @ d"
    using assms by (simp add: chain_ok_def buffer_len_def chain_data_def drop_take)
  with assms show ?thesis
    by (auto simp: chain_append_def chain_write_def chain_ok_def CHAIN_PINNED_def buffer_len_def chain_data_def [of "_\<lparr>ch_buffer := _, ch_off := _\<rparr>"])
qed

lemma chain_align_ok:
  assumes "chain_ok c" "\<not> is_immutable c"
  shows "\<exists>c'. evbuffer_chain_align c = Inr c' \<and> chain_ok c' \<and> chain_data c' = chain_data c \<and> buffer_len c' = buffer_len c \<and>
    ch_misalign c' = 0 \<and> ch_off c' = ch_off c \<and> ch_flags c' = ch_flags c"
  using assms length_chain_data [OF assms(1)]
  by (auto simp: evbuffer_chain_align_def chain_write_def chain_ok_def CHAIN_PINNED_def buffer_len_def
      chain_data_def [of "_\<lparr>ch_buffer := _, ch_misalign := _\<rparr>"])

lemma chain_prepend_ok:
  assumes "chain_ok c" "length d \<le> ch_misalign c"
  shows "\<exists>c'. chain_write (ch_misalign c - length d) d c = Inr c' \<and>
    chain_ok (c'\<lparr>ch_off := ch_off c' + length d, ch_misalign := ch_misalign c' - length d\<rparr>) \<and>
    chain_data (c'\<lparr>ch_off := ch_off c' + length d, ch_misalign := ch_misalign c' - length d\<rparr>) = d @ chain_data c"
proof -
  have "take (ch_off c) (drop (length d) (drop (ch_misalign c - length d) (ch_buffer c))) = chain_data c"
    using assms by (simp add: chain_data_def)
  with assms show ?thesis
    by (auto simp: chain_write_def chain_ok_def CHAIN_PINNED_def buffer_len_def chain_data_def [of "_\<lparr>ch_off := _, ch_misalign := _\<rparr>"]
        chain_data_def [of "_\<lparr>ch_buffer := _, ch_off := _, ch_misalign := _\<rparr>"])
qed

section \<open>New chains\<close>

lemma to_alloc_loop_ends:
  assumes "sz \<le> 2 ^ 63" "j \<le> 53"
  shows "\<exists>r. to_alloc_loop (1024 * 2 ^ j) sz = Some r \<and> sz \<le> r \<and> 1024 * 2 ^ j \<le> r \<and> r \<le> 2 ^ 63"
  using assms(2)
proof (induction "53 - j" arbitrary: j rule: less_induct)
  case less
  show ?case
  proof (cases "1024 * 2 ^ j < sz")
    case True
    have "j \<noteq> 53" using True assms(1) by auto
    with less.prems have j: "Suc j \<le> 53" by simp
    have "(2 :: nat) ^ j \<le> 2 ^ 52" using j by (intro power_increasing) auto
    then have "1024 * 2 ^ j * 2 mod 2 ^ 64 = 1024 * (2 :: nat) ^ Suc j" by simp
    moreover obtain r where "to_alloc_loop (1024 * 2 ^ Suc j) sz = Some r \<and> sz \<le> r \<and> 1024 * 2 ^ Suc j \<le> r \<and> r \<le> 2 ^ 63"
      using less.hyps [of "Suc j", OF _ j] j diff_less_mono2 [of j "Suc j" 53] by auto
    ultimately show ?thesis using True by (subst to_alloc_loop.simps) auto
  next
    case False
    have "(2 :: nat) ^ j \<le> 2 ^ 53" using less.prems by (intro power_increasing) auto
    then have "1024 * (2 :: nat) ^ j \<le> 2 ^ 63" by simp
    with False show ?thesis by (subst to_alloc_loop.simps) auto
  qed
qed

lemma chain_new_ok:
  assumes "sz \<le> 2 ^ 63 - 48"
  shows "evbuffer_chain_new False sz = Inr None"
    and "\<exists>c. evbuffer_chain_new True sz = Inr (Some c) \<and> chain_ok c \<and> ch_misalign c = 0 \<and> ch_off c = 0 \<and> ch_flags c = 0 \<and>
      sz \<le> buffer_len c \<and> 976 \<le> buffer_len c"
proof -
  have m: "(sz + 48) mod 2 ^ 64 = sz + 48" "sz + 48 \<le> 2 ^ 63" using assms by simp_all
  obtain r where r: "to_alloc_loop 1024 (sz + 48) = Some r" "sz + 48 \<le> r" "1024 \<le> r" "r \<le> 2 ^ 63"
    using to_alloc_loop_ends [OF m(2), of 0] by auto
  note d = evbuffer_chain_new_def MIN_BUFFER_SIZE_def EVBUFFER_CHAIN_SIZE_def m(1) r(1)
  show "evbuffer_chain_new False sz = Inr None" unfolding d by simp
  show "\<exists>c. evbuffer_chain_new True sz = Inr (Some c) \<and> chain_ok c \<and> ch_misalign c = 0 \<and> ch_off c = 0 \<and> ch_flags c = 0 \<and>
      sz \<le> buffer_len c \<and> 976 \<le> buffer_len c"
    unfolding d using r(2-4) by (auto simp: chain_ok_def buffer_len_def CHAIN_PINNED_def)
qed

lemma chain_data_empty [simp]: "ch_off c = 0 \<Longrightarrow> chain_data c = []"
  by (simp add: chain_data_def)

section \<open>Inserting a chain\<close>

text \<open>
  Under the invariant the victim is the last chain when that is empty, and there is none otherwise;
  so the assertion holds and no data are lost.
\<close>

lemma takeWhile_butlast:
  assumes "xs \<noteq> []" "\<forall>x\<in>set (butlast xs). P x"
  shows "takeWhile P xs = (if P (last xs) then xs else butlast xs)"
  using assms
proof (induction xs)
  case (Cons x xs)
  then show ?case by (cases xs) auto
qed simp

lemma victim_eq:
  assumes "evb_inv buf" "eb_chains buf \<noteq> []"
  shows "victim buf = (if ch_off (last (eb_chains buf)) \<noteq> 0 then length (eb_chains buf) else length (eb_chains buf) - 1)"
proof -
  let ?d = "drop (eb_lwd buf) (eb_chains buf)"
  have d: "?d \<noteq> []" "eb_lwd buf < length (eb_chains buf)" "last ?d = last (eb_chains buf)"
      "\<forall>c\<in>set (butlast ?d). ch_off c \<noteq> 0 \<or> CHAIN_PINNED c" "\<not> CHAIN_PINNED (last (eb_chains buf))"
    using assms by (auto simp: evb_inv_def lwd_ok_def chain_ok_def last_drop)
  show ?thesis
    unfolding victim_def takeWhile_butlast [OF d(1,4)] using d by auto
qed

lemma lwd_ok_set_last:
  assumes "lwd_ok i cs" "cs \<noteq> []"
  shows "lwd_ok i (butlast cs @ [c])"
proof -
  have i: "i < length cs" using assms by (simp add: lwd_ok_def)
  have "butlast (drop i (butlast cs @ [c])) = drop i (butlast cs)" using i by (simp add: butlast_append)
  also have "\<dots> = butlast (drop i cs)" by (simp add: butlast_drop)
  finally show ?thesis using assms i unfolding lwd_ok_def by auto
qed

lemma chain_insert_spec:
  assumes inv: "evb_inv buf" and c: "chain_ok c"
  shows "\<exists>b. evbuffer_chain_insert c buf = Inr b \<and> evb_inv b \<and> contents b = contents buf @ chain_data c \<and>
     eb_chains b \<noteq> [] \<and> last (eb_chains b) = c \<and> frozen b = frozen buf"
proof (cases "eb_chains buf = []")
  case True
  then show ?thesis
    using assms by (auto simp: evbuffer_chain_insert_def evb_inv_def lwd_ok_def contents_def frozen_def)
next
  case False
  let ?cs = "eb_chains buf"
  note v = victim_eq [OF inv False]
  have lt: "eb_lwd buf < length ?cs" using inv False by (simp add: evb_inv_def lwd_ok_def)
  have split: "?cs = butlast ?cs @ [last ?cs]" using False by simp
  have tot: "eb_total_len buf = length (contents buf)" using inv by (simp add: evb_inv_def)
  show ?thesis
  proof (cases "ch_off (last ?cs) = 0")
    case True
    have dv: "drop (length ?cs - 1) ?cs = [last ?cs]" "take (length ?cs - 1) ?cs = butlast ?cs"
      using False by (simp_all add: butlast_conv_take drop_eq_Nil last_conv_nth Cons_nth_drop_Suc [symmetric])
    have cont: "contents buf = concat (map chain_data (butlast ?cs))"
      unfolding contents_def by (subst split) (simp add: True del: append_butlast_last_id)
    let ?b = "buf\<lparr>eb_chains := butlast ?cs @ [c], eb_total_len := eb_total_len buf + ch_off c\<rparr>"
    have "evbuffer_chain_insert c buf = Inr ?b"
      using lt v True dv by (simp add: evbuffer_chain_insert_def Let_def evbuffer_chains_all_empty_def)
    moreover have "lwd_ok (eb_lwd buf) (butlast ?cs @ [c])"
      using inv False lwd_ok_set_last unfolding evb_inv_def by blast
    then have "evb_inv ?b"
      using inv c tot cont by (auto simp: evb_inv_def contents_def dest: in_set_butlastD)
    ultimately show ?thesis using cont by (auto simp: contents_def frozen_def)
  next
    case nz: False
    let ?b = "buf\<lparr>eb_chains := ?cs @ [c], eb_lwd := if ch_off c \<noteq> 0 then length ?cs else eb_lwd buf, eb_total_len := eb_total_len buf + ch_off c\<rparr>"
    have "evbuffer_chain_insert c buf = Inr ?b"
      using lt v nz by (simp add: evbuffer_chain_insert_def Let_def)
    moreover have "\<forall>x\<in>set (drop (eb_lwd buf) ?cs). ch_off x \<noteq> 0"
    proof
      fix x assume "x \<in> set (drop (eb_lwd buf) ?cs)"
      moreover have "drop (eb_lwd buf) ?cs = butlast (drop (eb_lwd buf) ?cs) @ [last ?cs]"
        using lt by (metis append_butlast_last_id drop_eq_Nil last_drop linorder_not_le)
      ultimately have "x \<in> set (butlast (drop (eb_lwd buf) ?cs)) \<or> x = last ?cs"
        by (metis in_set_conv_decomp_last set_ConsD Un_iff set_append list.set(1) empty_iff)
      then show "ch_off x \<noteq> 0" using nz inv unfolding evb_inv_def lwd_ok_def by blast
    qed
    then have "lwd_ok (eb_lwd ?b) (?cs @ [c])"
      using lt by (auto simp: lwd_ok_def butlast_append)
    then have "evb_inv ?b"
      using inv c tot by (auto simp: evb_inv_def contents_def)
    ultimately show ?thesis by (auto simp: contents_def frozen_def)
  qed
qed

section \<open>Adding\<close>

lemma invoke_same [simp]:
  "eb_chains (evbuffer_invoke_callbacks b) = eb_chains b" "eb_lwd (evbuffer_invoke_callbacks b) = eb_lwd b"
  "eb_total_len (evbuffer_invoke_callbacks b) = eb_total_len b" "frozen (evbuffer_invoke_callbacks b) = frozen b"
  "contents (evbuffer_invoke_callbacks b) = contents b" "evb_inv (evbuffer_invoke_callbacks b) = evb_inv b"
  by (simp_all add: evbuffer_invoke_callbacks_def evbuffer_run_callbacks_def Let_def frozen_def contents_def evb_inv_def)

lemma account_same [simp]:
  "eb_chains (account n b) = eb_chains b" "eb_lwd (account n b) = eb_lwd b" "frozen (account n b) = frozen b"
  "eb_total_len (account n b) = eb_total_len b + n" "contents (account n b) = contents b"
  by (simp_all add: account_def frozen_def contents_def)

text \<open>The counters of the callbacks do not matter here.\<close>

lemma counters_same [simp]:
  "evb_inv (b\<lparr>eb_n_add := n\<rparr>) = evb_inv b" "contents (b\<lparr>eb_n_add := n\<rparr>) = contents b" "frozen (b\<lparr>eb_n_add := n\<rparr>) = frozen b"
  "evb_inv (b\<lparr>eb_n_del := n\<rparr>) = evb_inv b" "contents (b\<lparr>eb_n_del := n\<rparr>) = contents b" "frozen (b\<lparr>eb_n_del := n\<rparr>) = frozen b"
  by (simp_all add: frozen_def contents_def evb_inv_def)

lemma set_last_spec:
  assumes inv: "evb_inv buf" "eb_chains buf \<noteq> []" and c: "chain_ok c" "chain_data c = chain_data (last (eb_chains buf)) @ d"
  shows "evb_inv (account (length d) (set_last c buf))" "contents (set_last c buf) = contents buf @ d"
    "frozen (set_last c buf) = frozen buf" "eb_chains (set_last c buf) \<noteq> []" "last (eb_chains (set_last c buf)) = c"
proof -
  obtain cs l where cs: "eb_chains buf = cs @ [l]" using inv(2) by (cases "eb_chains buf" rule: rev_cases) auto
  have "lwd_ok (eb_lwd buf) (cs @ [c])"
    using lwd_ok_set_last [of "eb_lwd buf" "cs @ [l]" c] inv cs by (simp add: evb_inv_def)
  with inv c cs show "evb_inv (account (length d) (set_last c buf))" "contents (set_last c buf) = contents buf @ d"
    "frozen (set_last c buf) = frozen buf" "eb_chains (set_last c buf) \<noteq> []" "last (eb_chains (set_last c buf)) = c"
    by (auto simp: evb_inv_def account_def set_last_def contents_def frozen_def)
qed

lemma new_not_immutable: "ch_flags c = 0 \<Longrightarrow> \<not> is_immutable c"
  by (simp add: is_immutable_def)

text \<open>A first chain is there afterwards, or there was no memory for it.\<close>

lemma first_chain_spec:
  assumes inv: "evb_inv buf" and n: "n \<le> 2 ^ 62"
  obtains (new) b c where "first_chain mem n buf = Inr (Some b)" "mem" "evb_inv b" "contents b = contents buf" "frozen b = frozen buf"
      "eb_chains b = [c]" "ch_off c = 0" "ch_misalign c = 0" "\<not> is_immutable c" "n \<le> buffer_len c"
    | (old) "first_chain mem n buf = Inr (Some buf)" "eb_chains buf \<noteq> []"
    | (nomem) "first_chain mem n buf = Inr None" "\<not> mem"
proof (cases "eb_chains buf = []")
  case False
  then show ?thesis using old by (simp add: first_chain_def)
next
  case True
  have b: "n \<le> 2 ^ 63 - 48" using n by simp
  show ?thesis
  proof (cases mem)
    case False
    then show ?thesis
      using nomem True chain_new_ok(1) [OF b] by (simp add: first_chain_def evbuffer_chain_insert_new_def)
  next
    case m: True
    obtain c where c: "evbuffer_chain_new True n = Inr (Some c)" "chain_ok c" "ch_misalign c = 0" "ch_off c = 0" "ch_flags c = 0" "n \<le> buffer_len c"
      using chain_new_ok(2) [OF b] by blast
    let ?b = "buf\<lparr>eb_chains := [c], eb_total_len := eb_total_len buf\<rparr>"
    have "first_chain mem n buf = Inr (Some ?b)"
      using c True m inv by (simp add: first_chain_def evbuffer_chain_insert_new_def evbuffer_chain_insert_def evb_inv_def lwd_ok_def)
    moreover have "evb_inv ?b" "contents ?b = contents buf" "frozen ?b = frozen buf"
      using inv True c by (simp_all add: evb_inv_def lwd_ok_def contents_def frozen_def)
    ultimately show ?thesis using new [of ?b c] m c new_not_immutable by simp
  qed
qed

lemma add_to_last:
  assumes inv: "evb_inv buf" "eb_chains buf \<noteq> []" and c: "chain_ok c" "chain_data c = chain_data (last (eb_chains buf))"
    and fit: "ch_misalign c + ch_off c + length d \<le> buffer_len c"
  shows "\<exists>b. bind_result (chain_append d c) (\<lambda>chain. Inr (0, evbuffer_invoke_callbacks (account (length d) (set_last chain buf)))) = Inr (0, b) \<and>
     evb_inv b \<and> contents b = contents buf @ d \<and> frozen b = frozen buf"
proof -
  obtain c' where c': "chain_append d c = Inr c'" "chain_ok c'" "chain_data c' = chain_data (last (eb_chains buf)) @ d"
    using chain_append_ok [OF c(1) fit] c(2) by metis
  from set_last_spec [OF inv c'(2,3)] c'(1) show ?thesis by simp
qed

lemma add_new_chain:
  assumes inv: "evb_inv buf" "eb_chains buf \<noteq> []" and d: "length d2 \<le> buffer_len tmp"
    and c: "chain_ok c" "chain_data c = chain_data (last (eb_chains buf)) @ d1"
    and tmp: "chain_ok tmp" "ch_misalign tmp = 0" "ch_off tmp = 0"
  shows "\<exists>b. bind_result (chain_append d2 tmp) (\<lambda>tmp. bind_result (evbuffer_chain_insert tmp (account (length d1) (set_last c buf)))
       (\<lambda>buf. Inr (0, evbuffer_invoke_callbacks (buf\<lparr>eb_n_add := eb_n_add buf + n\<rparr>)))) = Inr (0, b) \<and>
     evb_inv b \<and> contents b = contents buf @ d1 @ d2 \<and> frozen b = frozen buf"
proof -
  note l = set_last_spec [OF inv c]
  obtain t where t: "chain_append d2 tmp = Inr t" "chain_ok t" "chain_data t = d2"
    using chain_append_ok [OF tmp(1), of d2] d tmp by auto
  obtain b where "evbuffer_chain_insert t (account (length d1) (set_last c buf)) = Inr b" "evb_inv b"
      "contents b = contents buf @ d1 @ d2" "frozen b = frozen buf"
    using chain_insert_spec [OF l(1) t(2)] t(3) l by auto
  with t(1) show ?thesis by simp
qed

lemma evbuffer_add_spec:
  assumes inv: "evb_inv buf" and fr: "\<not> eb_freeze_end buf" and n: "length d \<le> 2 ^ 62"
  shows "\<exists>r b. evbuffer_add mem d buf = Inr (r, b) \<and> evb_inv b \<and> frozen b = frozen buf \<and>
     (r = 0 \<and> contents b = contents buf @ d \<or> r = - 1 \<and> \<not> mem \<and> b = buf)"
  using inv n
proof (cases rule: first_chain_spec [where mem = mem])
  case (new b c)
  have ok: "chain_ok c" using new by (simp add: evb_inv_def)
  from add_to_last [of b c d] new ok show ?thesis
    unfolding evbuffer_add_def Let_def using fr by (auto simp: new(1))
next
  case nomem
  then show ?thesis using inv fr by (simp add: evbuffer_add_def)
next
  case old
  define chain where "chain = last (eb_chains buf)"
  define remain where "remain = (if is_immutable chain then 0 else buffer_len chain - ch_misalign chain - ch_off chain)"
  have ok: "chain_ok chain" using inv old unfolding evb_inv_def chain_def by (metis last_in_set)
  define ta where "ta = (let t = buffer_len chain; t = (if t \<le> EVBUFFER_CHAIN_MAX_AUTO_SIZE div 2 then t * 2 else t) in if length d > t then length d else t)"
  have add_eq: "evbuffer_add mem d buf =
      (if \<not> is_immutable chain \<and> remain \<ge> length d
       then bind_result (chain_append d chain) (\<lambda>chain. Inr (0, evbuffer_invoke_callbacks (account (length d) (set_last chain buf))))
       else if \<not> is_immutable chain \<and> \<not> CHAIN_PINNED chain \<and> evbuffer_chain_should_realign chain (length d)
       then bind_result (evbuffer_chain_align chain) (\<lambda>chain. bind_result (chain_append d chain) (\<lambda>chain.
          Inr (0, evbuffer_invoke_callbacks (account (length d) (set_last chain buf)))))
       else bind_result (evbuffer_chain_new mem ta) (\<lambda>t. case t of None \<Rightarrow> Inr (- 1, buf) | Some tmp \<Rightarrow>
        bind_result (if remain \<noteq> 0 then chain_append (take remain d) chain else Inr chain) (\<lambda>chain.
        bind_result (chain_append (drop remain d) tmp) (\<lambda>tmp.
        bind_result (evbuffer_chain_insert tmp (account remain (set_last chain buf))) (\<lambda>buf.
          Inr (0, evbuffer_invoke_callbacks (buf\<lparr>eb_n_add := eb_n_add buf + (length d - remain)\<rparr>)))))))"
    unfolding evbuffer_add_def Let_def old(1) chain_def remain_def ta_def using fr by simp
  have ta: "ta \<le> 2 ^ 63 - 48" "length d \<le> ta"
    using ok n by (auto simp: ta_def Let_def chain_ok_def EVBUFFER_CHAIN_MAX_AUTO_SIZE_def)
  consider (fits) "\<not> is_immutable chain \<and> remain \<ge> length d"
    | (realign) "\<not> (\<not> is_immutable chain \<and> remain \<ge> length d)" "\<not> is_immutable chain \<and> \<not> CHAIN_PINNED chain \<and> evbuffer_chain_should_realign chain (length d)"
    | (grow) "\<not> (\<not> is_immutable chain \<and> remain \<ge> length d)" "\<not> (\<not> is_immutable chain \<and> \<not> CHAIN_PINNED chain \<and> evbuffer_chain_should_realign chain (length d))"
    by blast
  then show ?thesis
  proof cases
    case fits
    then have eq: "evbuffer_add mem d buf = bind_result (chain_append d chain) (\<lambda>chain.
        Inr (0, evbuffer_invoke_callbacks (account (length d) (set_last chain buf))))"
      unfolding add_eq by (rule if_P)
    have fit: "ch_misalign chain + ch_off chain + length d \<le> buffer_len chain"
      using fits ok by (auto simp: remain_def chain_ok_def)
    show ?thesis using add_to_last [OF inv old(2) ok _ fit] unfolding eq chain_def by blast
  next
    case realign
    obtain a where a: "evbuffer_chain_align chain = Inr a" "chain_ok a" "chain_data a = chain_data chain" "ch_misalign a = 0"
        "ch_off a = ch_off chain" "buffer_len a = buffer_len chain"
      using chain_align_ok [OF ok] realign by blast
    have "ch_misalign a + ch_off a + length d \<le> buffer_len a"
      using realign(2) a ok by (auto simp: evbuffer_chain_should_realign_def chain_ok_def)
    note fit = add_to_last [OF inv old(2) a(2) _ this]
    have eq: "evbuffer_add mem d buf = bind_result (chain_append d a) (\<lambda>chain.
        Inr (0, evbuffer_invoke_callbacks (account (length d) (set_last chain buf))))"
      unfolding add_eq if_not_P [OF realign(1)] if_P [OF realign(2)] a(1) by simp
    show ?thesis using fit a(3) unfolding eq chain_def by blast
  next
    case grow
    have eq: "evbuffer_add mem d buf = bind_result (evbuffer_chain_new mem ta) (\<lambda>t. case t of None \<Rightarrow> Inr (- 1, buf) | Some tmp \<Rightarrow>
        bind_result (if remain \<noteq> 0 then chain_append (take remain d) chain else Inr chain) (\<lambda>chain.
        bind_result (chain_append (drop remain d) tmp) (\<lambda>tmp.
        bind_result (evbuffer_chain_insert tmp (account remain (set_last chain buf))) (\<lambda>buf.
          Inr (0, evbuffer_invoke_callbacks (buf\<lparr>eb_n_add := eb_n_add buf + (length d - remain)\<rparr>))))))"
      unfolding add_eq if_not_P [OF grow(1)] if_not_P [OF grow(2)] ..
    have r: "remain < length d \<or> remain = 0" using grow(1) by (auto simp: remain_def)
    have "\<exists>c. (if remain \<noteq> 0 then chain_append (take remain d) chain else Inr chain) = Inr c \<and> chain_ok c \<and>
        chain_data c = chain_data (last (eb_chains buf)) @ take remain d"
      using chain_append_ok [OF ok, of "take remain d"] ok r
      by (auto simp: chain_def [symmetric] remain_def chain_ok_def split: if_splits)
    then obtain c where c: "(if remain \<noteq> 0 then chain_append (take remain d) chain else Inr chain) = Inr c" "chain_ok c"
        "chain_data c = chain_data (last (eb_chains buf)) @ take remain d" by blast
    show ?thesis
    proof (cases mem)
      case False
      then show ?thesis using eq chain_new_ok(1) [OF ta(1)] inv by simp
    next
      case True
      obtain tmp where tmp: "evbuffer_chain_new True ta = Inr (Some tmp)" "chain_ok tmp" "ch_misalign tmp = 0" "ch_off tmp = 0" "ta \<le> buffer_len tmp"
        using chain_new_ok(2) [OF ta(1)] by blast
      have l: "length (take remain d) = remain" using r by auto
      have "length (drop remain d) \<le> buffer_len tmp" using tmp(5) ta(2) by simp
      from add_new_chain [OF inv old(2) this c(2,3) tmp(2-4), of "length d - remain", unfolded l]
      show ?thesis unfolding eq using True tmp(1) c(1) by auto
    qed
  qed
qed

section \<open>Prepending\<close>

lemma lwd_ok_nth:
  "lwd_ok i cs \<longleftrightarrow> (if cs = [] then i = 0 else i < length cs) \<and> (\<forall>k. i \<le> k \<and> Suc k < length cs \<longrightarrow> ch_off (cs ! k) \<noteq> 0)"
proof -
  have "(\<forall>c\<in>set (butlast (drop i cs)). ch_off c \<noteq> 0) \<longleftrightarrow> (\<forall>k. i \<le> k \<and> Suc k < length cs \<longrightarrow> ch_off (cs ! k) \<noteq> 0)" (is "?l = ?r")
  proof
    assume l: ?l
    show ?r
    proof (intro allI impI)
      fix k assume k: "i \<le> k \<and> Suc k < length cs"
      then have lt: "k - i < length (butlast (drop i cs))" unfolding length_butlast length_drop by linarith
      have "butlast (drop i cs) ! (k - i) = cs ! k" using k lt by (simp add: nth_butlast)
      with l nth_mem [OF lt] show "ch_off (cs ! k) \<noteq> 0" by metis
    qed
  next
    assume r: ?r
    show ?l
    proof
      fix c assume "c \<in> set (butlast (drop i cs))"
      then obtain j where j: "j < length (butlast (drop i cs))" "butlast (drop i cs) ! j = c" by (auto simp: in_set_conv_nth)
      then have "c = cs ! (i + j)" "Suc (i + j) < length cs" by (simp_all add: nth_butlast)
      with r show "ch_off c \<noteq> 0" by simp
    qed
  qed
  then show ?thesis unfolding lwd_ok_def by simp
qed

lemma lwd_ok_upd:
  "lwd_ok i cs \<Longrightarrow> j < length cs \<Longrightarrow> (ch_off (cs ! j) \<noteq> 0 \<Longrightarrow> ch_off c \<noteq> 0) \<Longrightarrow> lwd_ok i (cs[j := c])"
  by (auto simp: lwd_ok_nth nth_list_update split: if_splits)

lemma lwd_ok_front: "lwd_ok i cs \<Longrightarrow> cs \<noteq> [] \<Longrightarrow> lwd_ok (length ds + i) (ds @ cs)"
  by (auto simp: lwd_ok_def)

lemma set_first_spec:
  assumes inv: "evb_inv buf" "eb_chains buf = c0 # cs" and c: "chain_ok c" "chain_data c = d @ chain_data c0"
  shows "evb_inv (account (length d) (set_first c buf))" "contents (set_first c buf) = d @ contents buf"
    "frozen (set_first c buf) = frozen buf" "eb_chains (set_first c buf) = c # cs"
proof -
  have "chain_ok c0" using inv by (simp add: evb_inv_def)
  then have "ch_off c = length d + ch_off c0" using arg_cong [OF c(2), of length] c(1) by simp
  then have "lwd_ok (eb_lwd buf) (c # cs)"
    using lwd_ok_upd [of "eb_lwd buf" "c0 # cs" 0 c] inv by (simp add: evb_inv_def)
  with inv c show "evb_inv (account (length d) (set_first c buf))" "contents (set_first c buf) = d @ contents buf"
    "frozen (set_first c buf) = frozen buf" "eb_chains (set_first c buf) = c # cs"
    by (auto simp: evb_inv_def account_def set_first_def contents_def frozen_def)
qed

lemma prepend_fits:
  assumes inv: "evb_inv buf" "eb_chains buf = c0 # cs" and c: "chain_ok c" "chain_data c = chain_data c0" "length d \<le> ch_misalign c"
  shows "\<exists>b. bind_result (chain_write (ch_misalign c - length d) d c) (\<lambda>chain.
       Inr (0, evbuffer_invoke_callbacks (account (length d)
         (set_first (chain\<lparr>ch_off := ch_off chain + length d, ch_misalign := ch_misalign chain - length d\<rparr>) buf)))) = Inr (0, b) \<and>
     evb_inv b \<and> contents b = d @ contents buf \<and> frozen b = frozen buf"
proof -
  obtain c' where c': "chain_write (ch_misalign c - length d) d c = Inr c'"
      "chain_ok (c'\<lparr>ch_off := ch_off c' + length d, ch_misalign := ch_misalign c' - length d\<rparr>)"
      "chain_data (c'\<lparr>ch_off := ch_off c' + length d, ch_misalign := ch_misalign c' - length d\<rparr>) = d @ chain_data c0"
    using chain_prepend_ok [OF c(1,3)] c(2) by metis
  from set_first_spec [OF inv c'(2,3)] c'(1) show ?thesis by simp
qed

text \<open>The part of the data that fits before the first chain.\<close>

lemma prepend_part:
  assumes inv: "evb_inv buf" "eb_chains buf = c0 # cs" and c: "chain_ok c" "chain_data c = chain_data c0"
    and p: "p = (if is_immutable c then 0 else ch_misalign c)" "p \<le> length d"
  shows "\<exists>c'. (if p \<noteq> 0 then chain_write 0 (drop (length d - p) d) c else Inr c) = Inr c' \<and>
     (let c' = (if p \<noteq> 0 then c'\<lparr>ch_off := ch_off c' + p, ch_misalign := 0\<rparr> else c'); b = account p (set_first c' buf) in
      evb_inv b \<and> contents b = drop (length d - p) d @ contents buf \<and> frozen b = frozen buf \<and> eb_chains b = c' # cs)"
proof (cases "p = 0")
  case True
  then show ?thesis using set_first_spec [OF inv c(1), of "[]"] c(2) by simp
next
  case False
  let ?d = "drop (length d - p) d"
  have l: "length ?d = p" "p = ch_misalign c" using p False by (auto split: if_splits)
  obtain c' where c': "chain_write (ch_misalign c - length ?d) ?d c = Inr c'"
      "chain_ok (c'\<lparr>ch_off := ch_off c' + p, ch_misalign := ch_misalign c' - p\<rparr>)"
      "chain_data (c'\<lparr>ch_off := ch_off c' + p, ch_misalign := ch_misalign c' - p\<rparr>) = ?d @ chain_data c0"
    using chain_prepend_ok [OF c(1), of ?d] c(2) l by auto
  have "ch_misalign c' = p" using c'(1) l by (auto simp: chain_write_def split: if_splits)
  with c' l set_first_spec [OF inv c'(2,3)] False show ?thesis by (simp add: Let_def)
qed

lemma prepend_new_chain:
  assumes inv: "evb_inv buf" "eb_chains buf \<noteq> []" and tmp: "chain_ok tmp" "length d \<le> buffer_len tmp"
  shows "\<exists>b. bind_result (chain_write (buffer_len tmp - length d) d tmp) (\<lambda>tmp'.
       Inr (0, evbuffer_invoke_callbacks
         (buf\<lparr>eb_chains := tmp'\<lparr>ch_off := length d, ch_misalign := buffer_len tmp - length d\<rparr> # eb_chains buf, eb_lwd := eb_lwd buf + 1,
              eb_total_len := eb_total_len buf + length d, eb_n_add := n\<rparr>))) = Inr (0, b) \<and>
     evb_inv b \<and> contents b = d @ contents buf \<and> frozen b = frozen buf"
proof -
  obtain t where w: "chain_write (buffer_len tmp - length d) d tmp = Inr t" using tmp by (simp add: chain_write_def)
  define t' where "t' = t\<lparr>ch_off := length d, ch_misalign := buffer_len tmp - length d\<rparr>"
  have t: "chain_ok t'" "chain_data t' = d"
    using w tmp by (auto simp: t'_def chain_write_def chain_ok_def buffer_len_def CHAIN_PINNED_def chain_data_def split: if_splits)
  have "lwd_ok (eb_lwd buf + 1) (t' # eb_chains buf)"
    using lwd_ok_front [of "eb_lwd buf" "eb_chains buf" "[t']"] inv by (simp add: evb_inv_def)
  then have "evb_inv (buf\<lparr>eb_chains := t' # eb_chains buf, eb_lwd := eb_lwd buf + 1, eb_total_len := eb_total_len buf + length d\<rparr>)"
    using inv t by (simp add: evb_inv_def contents_def)
  moreover have "contents (buf\<lparr>eb_chains := t' # eb_chains buf, eb_lwd := eb_lwd buf + 1, eb_total_len := eb_total_len buf + length d\<rparr>) = d @ contents buf"
    using t by (simp add: contents_def)
  ultimately show ?thesis using w by (simp add: t'_def [symmetric]) (simp add: frozen_def)
qed

lemma prepend_eq:
  assumes "\<not> eb_freeze_start buf" "first_chain mem (length d) buf = Inr (Some b)" "eb_chains b = c0 # cs"
    and c: "c = (if \<not> is_immutable c0 \<and> ch_off c0 = 0 then c0\<lparr>ch_misalign := buffer_len c0\<rparr> else c0)"
    and p: "p = (if is_immutable c then 0 else ch_misalign c)"
  shows "evbuffer_prepend mem d buf =
      (if \<not> is_immutable c \<and> ch_misalign c \<ge> length d
       then bind_result (chain_write (ch_misalign c - length d) d c) (\<lambda>chain.
          Inr (0, evbuffer_invoke_callbacks (account (length d)
            (set_first (chain\<lparr>ch_off := ch_off chain + length d, ch_misalign := ch_misalign chain - length d\<rparr>) b))))
       else bind_result (if p \<noteq> 0 then chain_write 0 (drop (length d - p) d) c else Inr c) (\<lambda>chain.
          let chain = (if p \<noteq> 0 then chain\<lparr>ch_off := ch_off chain + p, ch_misalign := 0\<rparr> else chain);
              buf = account p (set_first chain b); data = take (length d - p) d in
          bind_result (evbuffer_chain_new mem (length data)) (\<lambda>t. case t of None \<Rightarrow> Inr (- 1, buf) | Some tmp \<Rightarrow>
            let misalign = buffer_len tmp - length data in
            bind_result (chain_write misalign data tmp) (\<lambda>tmp.
              Inr (0, evbuffer_invoke_callbacks
                (buf\<lparr>eb_chains := tmp\<lparr>ch_off := length data, ch_misalign := misalign\<rparr> # eb_chains buf,
                     eb_lwd := eb_lwd buf + 1,
                     eb_total_len := eb_total_len buf + length data,
                     eb_n_add := eb_n_add buf + ch_misalign chain\<rparr>))))))"
proof -
  have h: "hd (eb_chains b) = c0" using assms(3) by simp
  show ?thesis
    unfolding evbuffer_prepend_def Let_def [of "length d"] assms(2) bind_result.simps option.case h p c
    by (simp only: Let_def if_not_P [OF assms(1)])
qed

lemma evbuffer_prepend_spec:
  assumes inv: "evb_inv buf" and fr: "\<not> eb_freeze_start buf" and n: "length d \<le> 2 ^ 62"
  shows "\<exists>r b. evbuffer_prepend mem d buf = Inr (r, b) \<and> evb_inv b \<and> frozen b = frozen buf \<and>
     (r = 0 \<and> contents b = d @ contents buf \<or> r = - 1 \<and> \<not> mem \<and> (\<exists>k. contents b = drop k d @ contents buf))"
proof -
  have main: ?thesis if fc: "first_chain mem (length d) buf = Inr (Some b)" and b: "evb_inv b" "contents b = contents buf" "frozen b = frozen buf"
    and c0: "eb_chains b = c0 # cs" for b c0 cs
  proof -
    define c where "c = (if \<not> is_immutable c0 \<and> ch_off c0 = 0 then c0\<lparr>ch_misalign := buffer_len c0\<rparr> else c0)"
    define p where "p = (if is_immutable c then 0 else ch_misalign c)"
    note eq = prepend_eq [OF fr fc c0 c_def p_def]
    have "chain_ok c0" using b c0 by (simp add: evb_inv_def)
    then have c: "chain_ok c" "chain_data c = chain_data c0"
      by (auto simp: c_def chain_ok_def CHAIN_PINNED_def buffer_len_def)
    show ?thesis
    proof (cases "\<not> is_immutable c \<and> ch_misalign c \<ge> length d")
      case True
      then have le: "length d \<le> ch_misalign c" by simp
      show ?thesis unfolding eq if_P [OF True] using prepend_fits [OF b(1) c0 c le] b(2,3) by auto
    next
      case False
      then have "p \<le> length d" by (auto simp: p_def)
      then obtain c' where c': "(if p \<noteq> 0 then chain_write 0 (drop (length d - p) d) c else Inr c) = Inr c'"
        and b1: "let c' = (if p \<noteq> 0 then c'\<lparr>ch_off := ch_off c' + p, ch_misalign := 0\<rparr> else c'); b1 = account p (set_first c' b) in
          evb_inv b1 \<and> contents b1 = drop (length d - p) d @ contents b \<and> frozen b1 = frozen b \<and> eb_chains b1 = c' # cs"
        using prepend_part [OF b(1) c0 c p_def] by blast
      define c1 where "c1 = (if p \<noteq> 0 then c'\<lparr>ch_off := ch_off c' + p, ch_misalign := 0\<rparr> else c')"
      define b1 where "b1 = account p (set_first c1 b)"
      have b1: "evb_inv b1" "contents b1 = drop (length d - p) d @ contents buf" "frozen b1 = frozen buf" "eb_chains b1 \<noteq> []"
        using b1 b(2,3) unfolding Let_def c1_def [symmetric] b1_def [symmetric] by simp_all
      let ?d = "take (length d - p) d"
      have n': "length ?d \<le> 2 ^ 63 - 48" using n by simp
      have eq2: "evbuffer_prepend mem d buf = bind_result (evbuffer_chain_new mem (length ?d)) (\<lambda>t. case t of None \<Rightarrow> Inr (- 1, b1) | Some tmp \<Rightarrow>
            bind_result (chain_write (buffer_len tmp - length ?d) ?d tmp) (\<lambda>tmp'.
              Inr (0, evbuffer_invoke_callbacks
                (b1\<lparr>eb_chains := tmp'\<lparr>ch_off := length ?d, ch_misalign := buffer_len tmp - length ?d\<rparr> # eb_chains b1, eb_lwd := eb_lwd b1 + 1,
                     eb_total_len := eb_total_len b1 + length ?d, eb_n_add := eb_n_add b1 + ch_misalign c1\<rparr>))))"
        unfolding eq if_not_P [OF False] c' bind_result.simps Let_def c1_def [symmetric] b1_def [symmetric] ..
      show ?thesis
      proof (cases mem)
        case m: False
        then have mf: "mem = False" by simp
        have "evbuffer_prepend mem d buf = Inr (- 1, b1)"
          unfolding eq2 unfolding mf chain_new_ok(1) [OF n'] by simp
        with b1 mf show ?thesis by auto
      next
        case m: True
        obtain tmp where tmp: "evbuffer_chain_new True (length ?d) = Inr (Some tmp)" "chain_ok tmp" "length ?d \<le> buffer_len tmp"
          using chain_new_ok(2) [OF n'] by blast
        from prepend_new_chain [OF b1(1,4) tmp(2,3), of "eb_n_add b1 + ch_misalign c1"] show ?thesis
          unfolding eq2 using m tmp(1) b1(2,3) by (auto simp flip: append_assoc)
      qed
    qed
  qed
  from inv n show ?thesis
  proof (cases rule: first_chain_spec [where mem = mem])
    case (new b c)
    then show ?thesis using main [of b c "[]"] by simp
  next
    case old
    then obtain c0 cs where "eb_chains buf = c0 # cs" by (cases "eb_chains buf") auto
    with old inv show ?thesis using main by blast
  next
    case nomem
    then show ?thesis using inv fr by (auto simp: evbuffer_prepend_def intro!: exI [of _ "length d"])
  qed
qed

section \<open>Draining and copying out\<close>

lemma drain_loop_spec:
  assumes "\<forall>c\<in>set cs. chain_ok c" "n < length (concat (map chain_data cs))"
  shows "\<exists>k r c cs'. drain_loop n cs = Inr (k, False, r, c # cs') \<and> drop k cs = c # cs' \<and> r < ch_off c \<and>
     concat (map chain_data (c # cs')) = drop (n - r) (concat (map chain_data cs)) \<and> r \<le> n"
  using assms
proof (induction cs arbitrary: n)
  case (Cons c cs)
  have ok: "chain_ok c" "\<not> CHAIN_PINNED_R c" using Cons.prems(1) pinned_r by (auto simp: chain_ok_def)
  show ?case
  proof (cases "n \<ge> ch_off c")
    case True
    with Cons.prems ok have "n - ch_off c < length (concat (map chain_data cs))" by simp
    from Cons.IH [OF _ this] Cons.prems obtain k r c' cs' where
      i: "drain_loop (n - ch_off c) cs = Inr (k, False, r, c' # cs')" "drop k cs = c' # cs'" "r < ch_off c'"
        "concat (map chain_data (c' # cs')) = drop (n - ch_off c - r) (concat (map chain_data cs))" "r \<le> n - ch_off c" by auto
    have "drop (n - r) (chain_data c @ concat (map chain_data cs)) = drop (n - ch_off c - r) (concat (map chain_data cs))"
      using i(5) True ok by (simp add: add.commute)
    with i True ok show ?thesis by (intro exI [of _ "Suc k"] exI [of _ r] exI [of _ c'] exI [of _ cs']) simp
  next
    case False
    then show ?thesis by (intro exI [of _ 0] exI [of _ n] exI [of _ c] exI [of _ cs]) simp
  qed
qed simp

lemma not_pinned_r: "evb_inv buf \<Longrightarrow> \<not> HAS_PINNED_R buf"
  using last_in_set by (auto simp: HAS_PINNED_R_def evb_inv_def chain_ok_def dest: pinned_r)

text \<open>After \<open>k\<close> chains are gone and the first chain left has lost some of its data.\<close>

lemma lwd_ok_drop:
  assumes "lwd_ok i cs" "drop k cs = c # cs'" "ch_off c' \<noteq> 0"
  shows "lwd_ok (if i \<le> k then 0 else i - k) (c' # cs')"
proof -
  have k: "k < length cs" "length cs' = length cs - Suc k"
    using assms(2) by (metis drop_eq_Nil linorder_not_le list.distinct(1)) (metis assms(2) diff_Suc_1 diff_Suc_eq_diff_pred length_Cons length_drop diff_commute)
  have nth: "cs' ! j = cs ! (Suc k + j)" if "j < length cs'" for j
    using that assms(2) k by (metis add_Suc_shift less_imp_le_nat nth_Cons_Suc nth_drop)
  have l: "i < length cs" "\<forall>j. i \<le> j \<and> Suc j < length cs \<longrightarrow> ch_off (cs ! j) \<noteq> 0"
    using assms(1) k by (auto simp: lwd_ok_nth split: if_splits)
  have "ch_off ((c' # cs') ! j) \<noteq> 0" if "(if i \<le> k then 0 else i - k) \<le> j" "Suc j < length (c' # cs')" for j
  proof (cases j)
    case (Suc m)
    then have "i \<le> Suc k + m" "Suc (Suc k + m) < length cs" "m < length cs'" using that k by (auto split: if_splits)
    with l nth Suc show ?thesis by simp
  qed (use assms(3) in simp)
  then show ?thesis using l(1) k by (auto simp: lwd_ok_nth)
qed

lemma evbuffer_drain_spec:
  assumes inv: "evb_inv buf" and fr: "\<not> eb_freeze_start buf"
  shows "\<exists>b. evbuffer_drain n buf = Inr (0, b) \<and> evb_inv b \<and> contents b = drop n (contents buf) \<and> frozen b = frozen buf"
proof -
  have tot: "eb_total_len buf = length (contents buf)" using inv by (simp add: evb_inv_def)
  consider "eb_total_len buf = 0" | "eb_total_len buf \<noteq> 0" "n \<ge> eb_total_len buf" | "eb_total_len buf \<noteq> 0" "n < eb_total_len buf" by linarith
  then show ?thesis
  proof cases
    case 1
    then show ?thesis using inv tot by (simp add: evbuffer_drain_def)
  next
    case 2
    have "evb_inv (ZERO_CHAIN buf)" "contents (ZERO_CHAIN buf) = []" "frozen (ZERO_CHAIN buf) = frozen buf"
      by (simp_all add: ZERO_CHAIN_def evb_inv_def contents_def lwd_ok_def frozen_def)
    with 2 tot fr not_pinned_r [OF inv] show ?thesis by (simp add: evbuffer_drain_def Let_def)
  next
    case 3
    obtain k r c cs where d: "drain_loop n (eb_chains buf) = Inr (k, False, r, c # cs)" "drop k (eb_chains buf) = c # cs" "r < ch_off c"
        "concat (map chain_data (c # cs)) = drop (n - r) (contents buf)" "r \<le> n"
      using drain_loop_spec [of "eb_chains buf" n] inv 3 tot by (auto simp: evb_inv_def contents_def)
    define c' where "c' = c\<lparr>ch_misalign := ch_misalign c + r, ch_off := ch_off c - r\<rparr>"
    have ok: "\<forall>x\<in>set (c # cs). chain_ok x" using inv d(2) unfolding evb_inv_def by (metis in_set_dropD)
    then have c': "chain_ok c'" "chain_data c' = drop r (chain_data c)" "ch_off c' \<noteq> 0"
      using chain_ok_skip [of c r] chain_data_skip [of r c] d(3) by (simp_all add: c'_def)
    let ?b = "buf\<lparr>eb_total_len := eb_total_len buf - n, eb_chains := c' # cs, eb_lwd := if eb_lwd buf \<le> k then 0 else eb_lwd buf - k\<rparr>"
    have "contents ?b = drop r (concat (map chain_data (c # cs)))"
      using c' d(3) ok by (simp add: contents_def)
    then have cont: "contents ?b = drop n (contents buf)" using d(5) unfolding d(4) by simp
    have "lwd_ok (eb_lwd ?b) (c' # cs)" using lwd_ok_drop [OF _ d(2) c'(3)] inv by (simp add: evb_inv_def)
    then have "evb_inv ?b" using cont tot c' ok by (simp add: evb_inv_def)
    moreover have "evbuffer_drain n buf = Inr (0, evbuffer_invoke_callbacks (?b\<lparr>eb_n_del := eb_n_del buf + n\<rparr>))"
      using 3 fr d(1) by (simp add: evbuffer_drain_def Let_def c'_def)
    ultimately show ?thesis using cont by (simp add: frozen_def [of "_\<lparr>eb_total_len := _, eb_chains := _, eb_lwd := _\<rparr>"] frozen_def [of buf])
  qed
qed

lemma copyout_loop_spec:
  "\<forall>c\<in>set cs. chain_ok c \<Longrightarrow> n \<le> length (concat (map chain_data cs)) \<Longrightarrow>
     copyout_loop n cs = Inr (take n (concat (map chain_data cs)))"
proof (induction cs arbitrary: n)
  case (Cons c cs)
  then show ?case by (cases "n \<noteq> 0 \<and> n \<ge> ch_off c") auto
qed simp

lemma evbuffer_copyout_spec:
  assumes inv: "evb_inv buf" and fr: "\<not> eb_freeze_start buf"
  shows "evbuffer_copyout n buf = Inr (int (min n (length (contents buf))), take n (contents buf))"
proof -
  have tot: "eb_total_len buf = length (contents buf)" using inv by (simp add: evb_inv_def)
  have "copyout_loop (min n (length (contents buf))) (eb_chains buf) = Inr (take (min n (length (contents buf))) (contents buf))"
    using copyout_loop_spec [of "eb_chains buf" "min n (length (contents buf))"] inv by (simp add: evb_inv_def contents_def)
  moreover have "take (min n (length (contents buf))) (contents buf) = take n (contents buf)" by (simp add: min_def)
  ultimately show ?thesis using fr tot by (auto simp: evbuffer_copyout_def Let_def contents_def)
qed

lemma evbuffer_remove_spec:
  assumes inv: "evb_inv buf" and fr: "\<not> eb_freeze_start buf"
  shows "\<exists>b. evbuffer_remove n buf = Inr (int (min n (length (contents buf))), take n (contents buf), b) \<and> evb_inv b \<and>
     contents b = drop n (contents buf) \<and> frozen b = frozen buf"
proof (cases "min n (length (contents buf)) = 0")
  case True
  then show ?thesis using inv evbuffer_copyout_spec [OF assms, of n] by (auto simp: evbuffer_remove_def min_def split: if_splits)
next
  case False
  obtain b where b: "evbuffer_drain (min n (length (contents buf))) buf = Inr (0, b)" "evb_inv b"
      "contents b = drop (min n (length (contents buf))) (contents buf)" "frozen b = frozen buf"
    using evbuffer_drain_spec [OF assms] by blast
  have "drop (min n (length (contents buf))) (contents buf) = drop n (contents buf)" by (simp add: min_def)
  with b False show ?thesis unfolding evbuffer_remove_def evbuffer_copyout_spec [OF assms] by simp
qed

section \<open>Pulling up\<close>

lemma pullup_loop_spec:
  assumes "\<forall>c\<in>set cs. chain_ok c" "n \<le> length (concat (map chain_data cs))"
  shows "\<exists>d k left rest. pullup_loop n cs = (d, k, left, rest) \<and> concat (map chain_data cs) = d @ concat (map chain_data rest) \<and>
     length d + left = n \<and> rest = drop k cs \<and> k \<le> length cs \<and> (rest = [] \<longrightarrow> left = 0) \<and> (\<forall>c r. rest = c # r \<longrightarrow> left < ch_off c)"
  using assms
proof (induction cs arbitrary: n)
  case (Cons c cs)
  have ok: "chain_ok c" using Cons.prems by simp
  show ?case
  proof (cases "n \<ge> ch_off c")
    case True
    have "n - ch_off c \<le> length (concat (map chain_data cs))" using True Cons.prems ok by simp
    from Cons.IH [OF _ this] Cons.prems(1) obtain d k left rest where
      i: "pullup_loop (n - ch_off c) cs = (d, k, left, rest)" "concat (map chain_data cs) = d @ concat (map chain_data rest)"
        "length d + left = n - ch_off c" "rest = drop k cs" "k \<le> length cs" "rest = [] \<longrightarrow> left = 0" "\<forall>c r. rest = c # r \<longrightarrow> left < ch_off c"
      by auto
    with True ok show ?thesis
      by (intro exI [of _ "chain_data c @ d"] exI [of _ "Suc k"] exI [of _ left] exI [of _ rest]) simp
  next
    case False
    then show ?thesis by (intro exI [of _ "[]"] exI [of _ 0] exI [of _ n] exI [of _ "c # cs"]) simp
  qed
qed simp

lemma lwd_ok_pullup:
  assumes "lwd_ok i cs" "drop g cs = c # r" "ch_off c' \<noteq> 0" "ch_off t \<noteq> 0"
  shows "lwd_ok (if i < g then 0 else Suc (i - g)) (t # c' # r)"
proof -
  note l = lwd_ok_drop [OF assms(1-3)]
  show ?thesis
  proof (cases "i < g")
    case True
    with l assms(4) show ?thesis by (auto simp: lwd_ok_def)
  next
    case False
    with lwd_ok_front [OF l, of "[t]"] show ?thesis by (auto split: if_splits)
  qed
qed

lemma take_chain_memory: "chain_ok c \<Longrightarrow> n \<le> ch_off c \<Longrightarrow> take n (drop (ch_misalign c) (ch_buffer c)) = take n (chain_data c)"
  by (simp add: chain_data_def min_def)

lemma pullup_into_spec:
  assumes inv: "evb_inv buf" and old: "eb_chains buf = pre @ cs" "length pre = k0" "concat (map chain_data pre) = chain_data tmp"
    and tmp: "chain_ok tmp" "ch_misalign tmp + ch_off tmp + sz \<le> buffer_len tmp"
    and sz: "0 < sz" "sz \<le> length (concat (map chain_data cs))" "k0 = 0 \<longrightarrow> cs \<noteq> [] \<and> ch_off (hd cs) \<le> sz"
  shows "\<exists>m b. pullup_into tmp k0 sz cs buf = Inr (Some m, b) \<and> evb_inv b \<and> contents b = contents buf \<and> frozen b = frozen buf \<and>
     take (ch_off tmp + sz) m = take (ch_off tmp + sz) (contents buf)"
proof -
  have ok: "\<forall>c\<in>set cs. chain_ok c" using inv old by (simp add: evb_inv_def)
  obtain d k left rest where l: "pullup_loop sz cs = (d, k, left, rest)" "concat (map chain_data cs) = d @ concat (map chain_data rest)"
      "length d + left = sz" "rest = drop k cs" "k \<le> length cs" "rest = [] \<longrightarrow> left = 0" "\<forall>c r. rest = c # r \<longrightarrow> left < ch_off c"
    using pullup_loop_spec [OF ok sz(2)] by blast
  define more where "more = (case rest of [] \<Rightarrow> [] | c # _ \<Rightarrow> take left (chain_data c))"
  define rest' where "rest' = (case rest of [] \<Rightarrow> [] | c # r \<Rightarrow> c\<lparr>ch_misalign := ch_misalign c + left, ch_off := ch_off c - left\<rparr> # r)"
  have okr: "\<forall>c\<in>set rest. chain_ok c" using ok l(4) by (metis in_set_dropD)
  have more: "length more = left" "concat (map chain_data rest) = more @ concat (map chain_data rest')" "\<forall>c\<in>set rest'. chain_ok c"
    using okr l(6,7) by (auto simp: more_def rest'_def chain_data_skip chain_ok_skip split: list.splits)
  obtain t where t: "chain_append (d @ more) tmp = Inr t" "chain_ok t" "chain_data t = chain_data tmp @ d @ more" "ch_off t = ch_off tmp + sz"
    using chain_append_ok [OF tmp(1), of "d @ more"] tmp(2) l(3) more(1) by auto
  define L where "L = (if eb_lwd buf < k0 + k then 0
       else if eb_lwd buf = k0 + k then if k = 0 then 1 else (case rest' of [] \<Rightarrow> 0 | c # _ \<Rightarrow> if ch_off c \<noteq> 0 then 1 else 0)
       else eb_lwd buf - (k0 + k) + 1)"
  let ?b = "buf\<lparr>eb_chains := t # rest', eb_lwd := L\<rparr>"
  have run: "pullup_into tmp k0 sz cs buf = Inr (Some (drop (ch_misalign t) (ch_buffer t)), ?b)"
    unfolding pullup_into_def l(1) Let_def split more_def [symmetric] rest'_def [symmetric] t(1) bind_result.simps L_def [symmetric] ..
  have cont: "contents ?b = contents buf"
    using old t(3) l(2) more(2) by (simp add: contents_def)
  have lwd: "lwd_ok (eb_lwd buf) (eb_chains buf)" using inv by (simp add: evb_inv_def)
  have ne: "ch_off t \<noteq> 0" using t(4) sz(1) by simp
  have "lwd_ok L (t # rest')"
  proof (cases rest)
    case Nil
    then have "length (eb_chains buf) \<le> k0 + k" using l(4) old by simp
    moreover have "eb_chains buf \<noteq> []" using sz old by auto
    ultimately have "eb_lwd buf < k0 + k" using lwd by (simp add: lwd_ok_def)
    then show ?thesis using Nil by (simp add: L_def rest'_def lwd_ok_def)
  next
    case (Cons c r)
    define c' where "c' = c\<lparr>ch_misalign := ch_misalign c + left, ch_off := ch_off c - left\<rparr>"
    have r': "rest' = c' # r" "ch_off c' \<noteq> 0" using Cons l(7) by (auto simp: rest'_def c'_def)
    have "drop (k0 + k) (eb_chains buf) = c # r" using old l(4) Cons by simp
    from lwd_ok_pullup [OF lwd this r'(2) ne] have "lwd_ok (if eb_lwd buf < k0 + k then 0 else Suc (eb_lwd buf - (k0 + k))) (t # c' # r)" .
    moreover have "L = (if eb_lwd buf < k0 + k then 0 else Suc (eb_lwd buf - (k0 + k)))"
      using r' by (auto simp: L_def)
    ultimately show ?thesis using r'(1) by simp
  qed
  then have "evb_inv ?b"
    using cont inv t(2) more(3) by (simp add: evb_inv_def)
  moreover have "take (ch_off tmp + sz) (drop (ch_misalign t) (ch_buffer t)) = take (ch_off tmp + sz) (contents buf)"
    unfolding cont [symmetric] using take_chain_memory [OF t(2), of "ch_off tmp + sz"] t(4) t(2) by (simp add: contents_def)
  ultimately show ?thesis using run cont by (simp add: frozen_def)
qed

lemma pullup_not_pinned: "\<forall>c\<in>set cs. chain_ok c \<Longrightarrow> \<not> pullup_pinned n cs"
  by (induction cs arbitrary: n) (auto simp: chain_ok_def)

text \<open>The size \<open>evbuffer_pullup\<close> works with.\<close>

definition pullup_size :: "int \<Rightarrow> evbuffer \<Rightarrow> nat" where
  "pullup_size n buf = (if n < 0 then length (contents buf) else nat n)"

lemma evbuffer_pullup_spec:
  assumes inv: "evb_inv buf" and len: "length (contents buf) \<le> 2 ^ 62" and sz: "sz = pullup_size n buf"
  shows "sz = 0 \<or> length (contents buf) < sz \<Longrightarrow> evbuffer_pullup mem n buf = Inr (None, buf)"
    and "0 < sz \<Longrightarrow> sz \<le> length (contents buf) \<Longrightarrow>
      \<exists>r b. evbuffer_pullup mem n buf = Inr (r, b) \<and> evb_inv b \<and> contents b = contents buf \<and> frozen b = frozen buf \<and>
        (r = None \<and> \<not> mem \<and> b = buf \<or> (\<exists>m. r = Some m \<and> take sz m = take sz (contents buf)))"
proof -
  have tot: "eb_total_len buf = length (contents buf)" using inv by (simp add: evb_inv_def)
  have s: "(if n < 0 then eb_total_len buf else nat n) = sz" unfolding sz pullup_size_def tot ..
  show "sz = 0 \<or> length (contents buf) < sz \<Longrightarrow> evbuffer_pullup mem n buf = Inr (None, buf)"
    unfolding evbuffer_pullup_def s unfolding Let_def tot by simp
  assume z: "0 < sz" "sz \<le> length (contents buf)"
  then obtain chain cs where cs: "eb_chains buf = chain # cs" by (cases "eb_chains buf") (auto simp: contents_def)
  have ok: "chain_ok chain" "\<forall>c\<in>set cs. chain_ok c" using inv cs by (auto simp: evb_inv_def)
  have np: "\<not> CHAIN_PINNED chain" using ok(1) by (simp add: chain_ok_def)
  have bound: "sz \<le> 2 ^ 63 - 48" using z len by simp
  have lc: "length (contents buf) = ch_off chain + length (concat (map chain_data cs))" using cs ok(1) by (simp add: contents_def)
  have eq: "evbuffer_pullup mem n buf =
      (if ch_off chain \<ge> sz then Inr (Some (drop (ch_misalign chain) (ch_buffer chain)), buf)
       else if buffer_len chain - ch_misalign chain \<ge> sz then pullup_into chain 1 (sz - ch_off chain) cs buf
       else bind_result (evbuffer_chain_new mem sz) (\<lambda>t. case t of None \<Rightarrow> Inr (None, buf) | Some tmp \<Rightarrow> pullup_into tmp 0 sz (chain # cs) buf))"
    unfolding evbuffer_pullup_def s unfolding Let_def tot cs using z np pullup_not_pinned [OF ok(2)] by simp
  consider "ch_off chain \<ge> sz" | "\<not> ch_off chain \<ge> sz" "buffer_len chain - ch_misalign chain \<ge> sz"
    | "\<not> ch_off chain \<ge> sz" "\<not> buffer_len chain - ch_misalign chain \<ge> sz" by blast
  then show "\<exists>r b. evbuffer_pullup mem n buf = Inr (r, b) \<and> evb_inv b \<and> contents b = contents buf \<and> frozen b = frozen buf \<and>
        (r = None \<and> \<not> mem \<and> b = buf \<or> (\<exists>m. r = Some m \<and> take sz m = take sz (contents buf)))"
  proof cases
    case 1
    have "take sz (drop (ch_misalign chain) (ch_buffer chain)) = take sz (contents buf)"
      using take_chain_memory [OF ok(1) 1] 1 ok(1) cs by (simp add: contents_def)
    then show ?thesis using 1 inv unfolding eq by simp
  next
    case 2
    have "\<exists>m b. pullup_into chain 1 (sz - ch_off chain) cs buf = Inr (Some m, b) \<and> evb_inv b \<and> contents b = contents buf \<and> frozen b = frozen buf \<and>
        take (ch_off chain + (sz - ch_off chain)) m = take (ch_off chain + (sz - ch_off chain)) (contents buf)"
      by (rule pullup_into_spec [OF inv, of "[chain]"]) (use cs ok 2 z lc in \<open>auto simp: chain_ok_def\<close>)
    then show ?thesis using 2 unfolding eq by auto
  next
    case 3
    show ?thesis
    proof (cases mem)
      case False
      then show ?thesis using 3 inv unfolding eq by (simp add: chain_new_ok(1) [OF bound])
    next
      case True
      obtain tmp where tmp: "evbuffer_chain_new True sz = Inr (Some tmp)" "chain_ok tmp" "ch_misalign tmp = 0" "ch_off tmp = 0" "sz \<le> buffer_len tmp"
        using chain_new_ok(2) [OF bound] by blast
      have "\<exists>m b. pullup_into tmp 0 sz (chain # cs) buf = Inr (Some m, b) \<and> evb_inv b \<and> contents b = contents buf \<and> frozen b = frozen buf \<and>
          take (ch_off tmp + sz) m = take (ch_off tmp + sz) (contents buf)"
        by (rule pullup_into_spec [OF inv, of "[]"]) (use cs ok 3 z lc tmp in auto)
      then show ?thesis using 3 True tmp(1,4) unfolding eq by auto
    qed
  qed
qed

section \<open>Moving buffers\<close>

lemma move_buffer_eq:
  assumes "evb_inv inb" "eb_total_len inb \<noteq> 0" "\<not> fz outb" "\<not> eb_freeze_start inb"
  shows "move_buffer link fz False mem outb inb =
     Inr (0, evbuffer_invoke_callbacks ((if eb_total_len outb = 0 then COPY_CHAIN outb inb else link outb inb)
           \<lparr>eb_n_add := eb_n_add (if eb_total_len outb = 0 then COPY_CHAIN outb inb else link outb inb) + eb_total_len inb\<rparr>),
         evbuffer_invoke_callbacks ((ZERO_CHAIN inb)\<lparr>eb_n_del := eb_n_del (ZERO_CHAIN inb) + eb_total_len inb\<rparr>))"
  using assms not_pinned_r [OF assms(1)] by (simp add: move_buffer_def PRESERVE_PINNED_def RESTORE_PINNED_def Let_def)

lemma zero_chain_ok [simp]: "evb_inv (ZERO_CHAIN b)" "contents (ZERO_CHAIN b) = []" "frozen (ZERO_CHAIN b) = frozen b"
  by (simp_all add: ZERO_CHAIN_def evb_inv_def contents_def lwd_ok_def frozen_def)

lemma evbuffer_add_buffer_spec:
  assumes o: "evb_inv outb" "\<not> eb_freeze_end outb" and i: "evb_inv inb" "\<not> eb_freeze_start inb"
  shows "\<exists>o' i'. evbuffer_add_buffer False mem outb inb = Inr (0, o', i') \<and> evb_inv o' \<and> evb_inv i' \<and>
     contents o' = contents outb @ contents inb \<and> contents i' = [] \<and> frozen o' = frozen outb \<and> frozen i' = frozen inb"
proof (cases "eb_total_len inb = 0")
  case True
  then show ?thesis using o i by (simp add: evbuffer_add_buffer_def move_buffer_def evb_inv_def)
next
  case False
  let ?o = "if eb_total_len outb = 0 then COPY_CHAIN outb inb else APPEND_CHAIN outb inb"
  have ne: "eb_chains inb \<noteq> []" using False i(1) by (auto simp: evb_inv_def contents_def)
  have "evb_inv ?o" "contents ?o = contents outb @ contents inb" "frozen ?o = frozen outb"
    using o(1) i(1) ne lwd_ok_front [of "eb_lwd inb" "eb_chains inb" "eb_chains outb"]
    by (auto simp: COPY_CHAIN_def APPEND_CHAIN_def evb_inv_def contents_def frozen_def)
  then show ?thesis
    unfolding evbuffer_add_buffer_def using move_buffer_eq [of inb eb_freeze_end outb, OF i(1) False o(2) i(2)] by simp
qed

lemma lwd_ok_prepend: "lwd_ok i cs \<Longrightarrow> cs \<noteq> [] \<Longrightarrow> lwd_ok (if length cs \<le> i then j else length ds + i) (ds @ cs)"
  using lwd_ok_front by (auto simp: lwd_ok_def)

lemma evbuffer_prepend_buffer_spec:
  assumes o: "evb_inv outb" "\<not> eb_freeze_start outb" and i: "evb_inv inb" "\<not> eb_freeze_start inb"
  shows "\<exists>o' i'. evbuffer_prepend_buffer False mem outb inb = Inr (0, o', i') \<and> evb_inv o' \<and> evb_inv i' \<and>
     contents o' = contents inb @ contents outb \<and> contents i' = [] \<and> frozen o' = frozen outb \<and> frozen i' = frozen inb"
proof (cases "eb_total_len inb = 0")
  case True
  then show ?thesis using o i by (simp add: evbuffer_prepend_buffer_def move_buffer_def evb_inv_def)
next
  case False
  let ?o = "if eb_total_len outb = 0 then COPY_CHAIN outb inb else PREPEND_CHAIN outb inb"
  have "evb_inv ?o \<and> contents ?o = contents inb @ contents outb \<and> frozen ?o = frozen outb"
  proof (cases "eb_total_len outb = 0")
    case True
    then show ?thesis using o(1) i(1) by (auto simp: COPY_CHAIN_def evb_inv_def contents_def frozen_def)
  next
    case False
    then have "eb_chains outb \<noteq> []" using o(1) by (auto simp: evb_inv_def contents_def)
    then have "lwd_ok (eb_lwd (PREPEND_CHAIN outb inb)) (eb_chains inb @ eb_chains outb)"
      using o(1) lwd_ok_prepend by (simp add: PREPEND_CHAIN_def evb_inv_def)
    with False o(1) i(1) show ?thesis
      by (auto simp: PREPEND_CHAIN_def evb_inv_def contents_def frozen_def)
  qed
  then show ?thesis
    unfolding evbuffer_prepend_buffer_def using move_buffer_eq [of inb eb_freeze_start outb, OF i(1) False o(2) i(2)] by simp
qed

section \<open>Expanding\<close>

lemma expand_insert_new_spec:
  assumes inv: "evb_inv buf" and n: "n \<le> 2 ^ 62"
  shows "\<exists>r. expand_insert_new mem n buf = Inr r \<and> (r = None \<and> \<not> mem \<or>
     (\<exists>i b. r = Some (i, b) \<and> evb_inv b \<and> contents b = contents buf \<and> frozen b = frozen buf \<and> i < length (eb_chains b) \<and>
        n \<le> CHAIN_SPACE_LEN (eb_chains b ! i)))"
proof -
  have n': "n \<le> 2 ^ 63 - 48" using n by simp
  show ?thesis
  proof (cases mem)
    case False
    then show ?thesis by (simp add: expand_insert_new_def evbuffer_chain_insert_new_def chain_new_ok(1) [OF n'])
  next
    case True
    obtain c where c: "evbuffer_chain_new True n = Inr (Some c)" "chain_ok c" "ch_misalign c = 0" "ch_off c = 0" "ch_flags c = 0" "n \<le> buffer_len c"
      using chain_new_ok(2) [OF n'] by blast
    obtain b where b: "evbuffer_chain_insert c buf = Inr b" "evb_inv b" "contents b = contents buf" "eb_chains b \<noteq> []"
        "last (eb_chains b) = c" "frozen b = frozen buf"
      using chain_insert_spec [OF inv c(2)] c(4) by auto
    have "eb_chains b ! (length (eb_chains b) - 1) = c" using b(4,5) by (simp add: last_conv_nth)
    moreover have "n \<le> CHAIN_SPACE_LEN c" using c new_not_immutable by (simp add: CHAIN_SPACE_LEN_def)
    ultimately show ?thesis
      using True b c(1) by (simp add: expand_insert_new_def evbuffer_chain_insert_new_def expand_check_def)
  qed
qed

lemma replace_chain_ok:
  assumes inv: "evb_inv buf" and i: "i < length (eb_chains buf)" and c: "chain_ok c" "chain_data c = chain_data (eb_chains buf ! i)"
  shows "evb_inv (buf\<lparr>eb_chains := (eb_chains buf)[i := c]\<rparr>)" "contents (buf\<lparr>eb_chains := (eb_chains buf)[i := c]\<rparr>) = contents buf"
proof -
  have "chain_ok (eb_chains buf ! i)" using inv i by (simp add: evb_inv_def)
  then have off: "ch_off c = ch_off (eb_chains buf ! i)" using c length_chain_data by metis
  have "map chain_data ((eb_chains buf)[i := c]) = map chain_data (eb_chains buf)"
    using i c(2) by (simp add: map_update list_update_same_conv)
  then show cont: "contents (buf\<lparr>eb_chains := (eb_chains buf)[i := c]\<rparr>) = contents buf"
    unfolding contents_def by simp
  have "lwd_ok (eb_lwd buf) ((eb_chains buf)[i := c])"
    using lwd_ok_upd [of "eb_lwd buf" "eb_chains buf" i c] inv i off by (simp add: evb_inv_def)
  with cont inv c(1) i show "evb_inv (buf\<lparr>eb_chains := (eb_chains buf)[i := c]\<rparr>)"
    by (auto simp: evb_inv_def dest!: subsetD [OF set_update_subset_insert])
qed

text \<open>
  The chain \<open>evbuffer_expand_singlechain\<close> returns has the space: its last assertion holds on every
  path, and the contents do not change.
\<close>

lemma evbuffer_expand_singlechain_spec:
  assumes inv: "evb_inv buf" and n: "n \<le> 2 ^ 62"
  shows "\<exists>r. evbuffer_expand_singlechain mem n buf = Inr r \<and> (r = None \<and> \<not> mem \<or>
     (\<exists>i b. r = Some (i, b) \<and> evb_inv b \<and> contents b = contents buf \<and> frozen b = frozen buf \<and> i < length (eb_chains b) \<and>
        n \<le> CHAIN_SPACE_LEN (eb_chains b ! i)))"
proof -
  let ?cs = "eb_chains buf"
  define i where "i = (if eb_lwd buf < length ?cs \<and> CHAIN_SPACE_LEN (?cs ! eb_lwd buf) = 0 then eb_lwd buf + 1 else eb_lwd buf)"
  define chain where "chain = ?cs ! i"
  note ins = expand_insert_new_spec [OF inv n, of mem]
  note eq = evbuffer_expand_singlechain_def [of mem n buf, folded i_def, unfolded Let_def, folded chain_def]
  consider (ins) "length ?cs \<le> i \<or> is_immutable chain \<or> CHAIN_PINNED chain \<or> n > CHAIN_SPACE_LEN chain \<and> ch_off chain = 0"
    | (use) "i < length ?cs" "\<not> is_immutable chain" "\<not> CHAIN_PINNED chain"
    by linarith
  then show ?thesis
  proof cases
    case ins
    then have "evbuffer_expand_singlechain mem n buf = expand_insert_new mem n buf \<or> i < length ?cs \<and> \<not> is_immutable chain \<and> \<not> CHAIN_PINNED chain"
      unfolding eq by auto
    then show ?thesis
    proof
      assume "i < length ?cs \<and> \<not> is_immutable chain \<and> \<not> CHAIN_PINNED chain"
      with ins show ?thesis using expand_insert_new_spec [OF inv n, of mem] unfolding eq by auto
    qed (use expand_insert_new_spec [OF inv n, of mem] in simp)
  next
    case use
    have ok: "chain_ok chain" using use inv by (simp add: chain_def evb_inv_def)
    consider (fits) "n \<le> CHAIN_SPACE_LEN chain" | (empty) "\<not> n \<le> CHAIN_SPACE_LEN chain" "ch_off chain = 0"
      | (align) "\<not> n \<le> CHAIN_SPACE_LEN chain" "ch_off chain \<noteq> 0" "evbuffer_chain_should_realign chain n"
      | (skip) "\<not> n \<le> CHAIN_SPACE_LEN chain" "ch_off chain \<noteq> 0" "\<not> evbuffer_chain_should_realign chain n"
          "CHAIN_SPACE_LEN chain < buffer_len chain div 8 \<or> ch_off chain > MAX_TO_COPY_IN_EXPAND"
      | (grow) "\<not> n \<le> CHAIN_SPACE_LEN chain" "ch_off chain \<noteq> 0" "\<not> evbuffer_chain_should_realign chain n"
          "\<not> (CHAIN_SPACE_LEN chain < buffer_len chain div 8 \<or> ch_off chain > MAX_TO_COPY_IN_EXPAND)" by blast
    then show ?thesis
    proof cases
      case fits
      then show ?thesis using use inv unfolding eq by (simp add: expand_check_def chain_def)
    next
      case empty
      then show ?thesis using use ins unfolding eq by simp
    next
      case align
      obtain a where a: "evbuffer_chain_align chain = Inr a" "chain_ok a" "chain_data a = chain_data chain" "buffer_len a = buffer_len chain"
          "ch_misalign a = 0" "ch_off a = ch_off chain" "ch_flags a = ch_flags chain"
        using chain_align_ok [OF ok use(2)] by blast
      have "n \<le> CHAIN_SPACE_LEN a"
        using align(3) a use(2) by (simp add: evbuffer_chain_should_realign_def CHAIN_SPACE_LEN_def is_immutable_def)
      with replace_chain_ok [OF inv use(1) a(2)] a(1,3) use align show ?thesis
        unfolding eq by (simp add: expand_check_def chain_def frozen_def)
    next
      case skip
      then show ?thesis using use ins inv unfolding eq by (auto simp: expand_check_def)
    next
      case grow
      have b: "ch_off chain + n \<le> 2 ^ 63 - 48" using grow(4) n by (simp add: MAX_TO_COPY_IN_EXPAND_def)
      have run: "evbuffer_expand_singlechain mem n buf =
          bind_result (evbuffer_chain_new mem (ch_off chain + n)) (\<lambda>t. case t of None \<Rightarrow> Inr None | Some tmp \<Rightarrow>
            bind_result (chain_append (chain_data chain) tmp) (\<lambda>tmp. expand_check n i (buf\<lparr>eb_chains := (eb_chains buf)[i := tmp]\<rparr>)))"
        unfolding eq using use grow by simp
      show ?thesis
      proof (cases mem)
        case False
        then show ?thesis unfolding run by (simp add: chain_new_ok(1) [OF b])
      next
        case True
        obtain t where t: "evbuffer_chain_new True (ch_off chain + n) = Inr (Some t)" "chain_ok t" "ch_misalign t = 0" "ch_off t = 0" "ch_flags t = 0"
            "ch_off chain + n \<le> buffer_len t"
          using chain_new_ok(2) [OF b] by blast
        obtain t' where t': "chain_append (chain_data chain) t = Inr t'" "chain_ok t'" "chain_data t' = chain_data chain" "buffer_len t' = buffer_len t"
            "ch_misalign t' = 0" "ch_off t' = ch_off chain" "ch_flags t' = 0"
          using chain_append_ok [OF t(2), of "chain_data chain"] t ok by auto
        have "n \<le> CHAIN_SPACE_LEN t'" using t' t(6) new_not_immutable by (simp add: CHAIN_SPACE_LEN_def)
        with replace_chain_ok [OF inv use(1) t'(2)] t' t(1) True use show ?thesis
          unfolding run by (simp add: expand_check_def chain_def frozen_def)
      qed
    qed
  qed
qed

end
