(* ===== verification/Ev_Buffer_Queue.thy ===== *)
theory Ev_Buffer_Queue
  imports Ev_Buffer_Props
begin

text \<open>
  What evbuffers promise: run on any sequence of operations they behave as a list of bytes. The
  theorems on \<open>evbuffer_remove_buffer\<close>, on memory that runs out and on sizes that wrap around show
  where the code keeps that promise only in part.
\<close>

section \<open>Taking data into another buffer\<close>

text \<open>\<open>last_with_datap\<close> is up to date: data up to there, none behind.\<close>

definition tidy :: "evbuffer \<Rightarrow> bool" where
  "tidy buf \<longleftrightarrow> (\<forall>k < length (eb_chains buf). ch_off (eb_chains buf ! k) \<noteq> 0 \<longleftrightarrow> k \<le> eb_lwd buf)"

lemma remove_chains_spec:
  assumes "\<forall>c\<in>set cs. chain_ok c" "n < length (concat (map chain_data cs))"
    and "\<forall>k < length cs. ch_off (cs ! k) \<noteq> 0 \<longleftrightarrow> i + k \<le> lwd"
  shows "\<exists>k m c cs'. remove_chains lwd i nread n cs = Inr (i + k, nread + m, n - m) \<and> drop k cs = c # cs' \<and> n - m < ch_off c \<and>
     m = length (concat (map chain_data (take k cs))) \<and> m \<le> n \<and> i + k \<le> lwd"
  using assms
proof (induction cs arbitrary: i nread n)
  case (Cons c cs)
  have ok: "chain_ok c" using Cons.prems by simp
  show ?case
  proof (cases "ch_off c \<le> n")
    case False
    moreover have "i \<le> lwd" using Cons.prems(3) False by (auto dest: spec [of _ 0])
    ultimately show ?thesis by (intro exI [of _ 0] exI [of _ "0::nat"] exI [of _ c] exI [of _ cs]) simp
  next
    case True
    have lt: "n - ch_off c < length (concat (map chain_data cs))" using Cons.prems(2) True ok by simp
    have tail: "\<forall>k < length cs. ch_off (cs ! k) \<noteq> 0 \<longleftrightarrow> Suc i + k \<le> lwd"
      using Cons.prems(3) by (auto dest: spec [of _ "Suc _"])
    have "i \<noteq> lwd"
    proof
      assume "i = lwd"
      then have "\<forall>x\<in>set cs. ch_off x = 0" using tail by (auto simp: in_set_conv_nth)
      then have "concat (map chain_data cs) = []" by simp
      with lt show False by simp
    qed
    moreover obtain k m c' cs' where "remove_chains lwd (Suc i) (nread + ch_off c) (n - ch_off c) cs = Inr (Suc i + k, nread + ch_off c + m, n - ch_off c - m)"
        "drop k cs = c' # cs'" "n - ch_off c - m < ch_off c'" "m = length (concat (map chain_data (take k cs)))" "m \<le> n - ch_off c" "Suc i + k \<le> lwd"
      using Cons.IH [OF _ lt tail, of "nread + ch_off c"] Cons.prems(1) by auto
    ultimately show ?thesis
      using True ok by (intro exI [of _ "Suc k"] exI [of _ "ch_off c + m"] exI [of _ c'] exI [of _ cs']) (auto simp: add.assoc)
  qed
qed simp

lemma advance_all:
  assumes "eb_lwd b < length xs" "\<forall>c\<in>set (drop (Suc (eb_lwd b)) xs). ch_off c \<noteq> 0"
  shows "advance_last_with_data (b\<lparr>eb_chains := xs\<rparr>) = b\<lparr>eb_chains := xs, eb_lwd := length xs - 1\<rparr>"
proof -
  have eq: "takeWhile (\<lambda>c. 0 < ch_off c) (drop (Suc (eb_lwd b)) xs) = drop (Suc (eb_lwd b)) xs"
    using assms(2) by (simp add: takeWhile_eq_all_conv)
  show ?thesis using assms(1) by (simp add: advance_last_with_data_def eq)
qed

text \<open>The chains that are moved stand behind those of \<open>dst\<close>, and \<open>last_with_datap\<close> is the last of them.\<close>

lemma append_moved:
  assumes inv: "evb_inv dst" and cs: "cs \<noteq> []" "\<forall>c\<in>set cs. chain_ok c \<and> ch_off c \<noteq> 0" and m: "m = length (concat (map chain_data cs))"
  shows "\<exists>d. evbuffer_free_trailing_empty_chains dst = Inr d \<and>
     (let d' = account m (advance_last_with_data (d\<lparr>eb_chains := eb_chains d @ cs\<rparr>)) in
      evb_inv d' \<and> contents d' = contents dst @ concat (map chain_data cs) \<and> frozen d' = frozen dst)"
proof -
  let ?v = "victim dst"
  have v: "?v \<le> length (eb_chains dst)" "eb_lwd dst \<le> ?v" "\<forall>c\<in>set (drop ?v (eb_chains dst)). ch_off c = 0"
      "\<forall>k. eb_lwd dst \<le> k \<and> k < ?v \<longrightarrow> ch_off (eb_chains dst ! k) \<noteq> 0"
  proof -
    have "?v \<le> length (eb_chains dst) \<and> eb_lwd dst \<le> ?v \<and> (\<forall>c\<in>set (drop ?v (eb_chains dst)). ch_off c = 0) \<and>
      (\<forall>k. eb_lwd dst \<le> k \<and> k < ?v \<longrightarrow> ch_off (eb_chains dst ! k) \<noteq> 0)"
    proof (cases "eb_chains dst = []")
      case True
      then show ?thesis using inv by (simp add: victim_def evb_inv_def lwd_ok_def)
    next
      case False
      then obtain xs l where xs: "eb_chains dst = xs @ [l]" by (cases "eb_chains dst" rule: rev_cases) auto
      have "eb_lwd dst \<le> length xs" "\<forall>k. eb_lwd dst \<le> k \<and> k < length xs \<longrightarrow> ch_off (eb_chains dst ! k) \<noteq> 0"
        using inv xs by (auto simp: evb_inv_def lwd_ok_nth)
      with victim_eq [OF inv False] xs show ?thesis by (auto simp: nth_append less_Suc_eq)
    qed
    then show "?v \<le> length (eb_chains dst)" "eb_lwd dst \<le> ?v" "\<forall>c\<in>set (drop ?v (eb_chains dst)). ch_off c = 0"
      "\<forall>k. eb_lwd dst \<le> k \<and> k < ?v \<longrightarrow> ch_off (eb_chains dst ! k) \<noteq> 0" by blast+
  qed
  let ?xs = "take ?v (eb_chains dst) @ cs"
  let ?d = "dst\<lparr>eb_chains := take ?v (eb_chains dst)\<rparr>" and ?e = "advance_last_with_data (dst\<lparr>eb_chains := ?xs\<rparr>)"
  have free: "evbuffer_free_trailing_empty_chains dst = Inr ?d"
    using v(3) by (simp add: evbuffer_free_trailing_empty_chains_def evbuffer_chains_all_empty_def Let_def)
  have "concat (map chain_data (drop ?v (eb_chains dst))) = []" using v(3) by simp
  then have cont: "concat (map chain_data (take ?v (eb_chains dst))) = contents dst"
    unfolding contents_def by (metis append_Nil2 append_take_drop_id concat_append map_append)
  have lt: "eb_lwd dst < length ?xs" using v(1,2) cs(1) by (cases cs) auto
  have nz: "ch_off c \<noteq> 0" if c: "c \<in> set (drop (Suc (eb_lwd dst)) ?xs)" for c
  proof -
    obtain j where j: "j < length (drop (Suc (eb_lwd dst)) ?xs)" "drop (Suc (eb_lwd dst)) ?xs ! j = c"
      using c [unfolded in_set_conv_nth] by blast
    define k where "k = Suc (eb_lwd dst) + j"
    have k: "k < length ?xs" "c = ?xs ! k" "eb_lwd dst \<le> k"
    proof -
      show "k < length ?xs" using j(1) unfolding k_def length_drop by linarith
      show "c = ?xs ! k" unfolding k_def j(2) [symmetric] by (rule nth_drop) (use lt in linarith)
    qed (simp add: k_def)
    show ?thesis
    proof (cases "k < ?v")
      case True
      then show ?thesis using k(2,3) v(1,4) by (simp add: nth_append)
    next
      case False
      then have "c \<in> set cs" using k v(1) by (simp add: nth_append)
      then show ?thesis using cs(2) by blast
    qed
  qed
  have e: "?e = dst\<lparr>eb_chains := ?xs, eb_lwd := length ?xs - 1\<rparr>"
    by (rule advance_all [OF lt]) (use nz in blast)
  have "lwd_ok (length ?xs - 1) ?xs" using cs(1) by (auto simp: lwd_ok_nth)
  moreover have "\<forall>c\<in>set ?xs. chain_ok c" using inv cs(2) unfolding evb_inv_def by (auto dest: in_set_takeD)
  ultimately have "evb_inv (account m ?e)"
    unfolding e using inv cont m by (simp add: evb_inv_def account_def contents_def)
  moreover have "contents (account m ?e) = contents dst @ concat (map chain_data cs)" "frozen (account m ?e) = frozen dst"
    unfolding e using cont by (simp_all add: contents_def frozen_def account_def)
  ultimately show ?thesis using free by (simp add: Let_def)
qed

lemma evbuffer_remove_buffer_spec:
  assumes src: "evb_inv src" "tidy src" "\<not> eb_freeze_start src" and dst: "evb_inv dst" "\<not> eb_freeze_end dst"
    and len: "length (contents src) \<le> 2 ^ 62"
  shows "\<exists>s d. evbuffer_remove_buffer False True src dst n = Inr (int (min n (length (contents src))), s, d) \<and> evb_inv s \<and> evb_inv d \<and>
     contents s = drop n (contents src) \<and> contents d = contents dst @ take n (contents src)"
proof -
  have tot: "eb_total_len src = length (contents src)" using src(1) by (simp add: evb_inv_def)
  consider "n = 0" | "n \<noteq> 0" "n \<ge> eb_total_len src" | "n \<noteq> 0" "n < eb_total_len src" by linarith
  then show ?thesis
  proof cases
    case 1
    then show ?thesis using src dst by (simp add: evbuffer_remove_buffer_def)
  next
    case 2
    with evbuffer_add_buffer_spec [OF dst src(1,3), of True] tot src dst show ?thesis
      by (auto simp: evbuffer_remove_buffer_def)
  next
    case 3
    let ?cs = "eb_chains src"
    have ok: "\<forall>c\<in>set ?cs. chain_ok c" using src(1) by (simp add: evb_inv_def)
    obtain k m c cs' where r: "remove_chains (eb_lwd src) 0 0 n ?cs = Inr (k, m, n - m)" "drop k ?cs = c # cs'" "n - m < ch_off c"
        "m = length (concat (map chain_data (take k ?cs)))" "m \<le> n" "k \<le> eb_lwd src"
      using remove_chains_spec [OF ok, of n 0 "eb_lwd src" 0] 3(2) tot src(2) by (auto simp: contents_def tidy_def)
    have k: "k < length ?cs" "?cs ! k = c" using r(2) by (metis drop_eq_Nil linorder_not_le list.distinct(1)) (metis r(2) nth_via_drop)
    have cont: "contents src = concat (map chain_data (take k ?cs)) @ concat (map chain_data (c # cs'))"
      unfolding contents_def by (metis append_take_drop_id concat_append map_append r(2))
    have okc: "chain_ok c" "\<forall>x\<in>set cs'. chain_ok x" using ok r(2) by (metis in_set_dropD list.set_intros(1), metis in_set_dropD list.set_intros(2))
    have moved: "\<forall>x\<in>set (take k ?cs). chain_ok x \<and> ch_off x \<noteq> 0"
    proof
      fix x assume "x \<in> set (take k ?cs)"
      then obtain j where "j < k" "x = ?cs ! j" using k(1) by (auto simp: in_set_conv_nth)
      then show "chain_ok x \<and> ch_off x \<noteq> 0" using k(1) ok src(2) r(6) by (auto simp: tidy_def)
    qed
    have k0: "m = 0 \<longleftrightarrow> k = 0"
    proof
      assume "m = 0"
      then have "\<forall>x\<in>set (take k ?cs). chain_data x = []" using r(4) by simp
      then show "k = 0" using moved k(1) by (metis chain_data_Nil length_0_conv length_take less_imp_le_nat min.absorb2 not_Cons_self2 list.set_sel(1) min_def)
    qed (use r(4) in simp)
    define src1 where "src1 = src\<lparr>eb_chains := c # cs', eb_lwd := eb_lwd src - k\<rparr>"
    define c' where "c' = c\<lparr>ch_misalign := ch_misalign c + (n - m), ch_off := ch_off c - (n - m)\<rparr>"
    define s where "s = src1\<lparr>eb_chains := c' # cs', eb_total_len := eb_total_len src - n\<rparr>"
    obtain d1 where d1: "(if m \<noteq> 0
           then bind_result (evbuffer_free_trailing_empty_chains dst) (\<lambda>dst.
             Inr (account m (advance_last_with_data (dst\<lparr>eb_chains := eb_chains dst @ take k ?cs\<rparr>)),
                  src\<lparr>eb_chains := drop k ?cs, eb_lwd := eb_lwd src - k\<rparr>))
           else Inr (dst, src\<lparr>eb_lwd := if eb_lwd src = k then 0 else eb_lwd src\<rparr>)) = Inr (d1, src1)" "evb_inv d1"
        "contents d1 = contents dst @ concat (map chain_data (take k ?cs))" "frozen d1 = frozen dst"
    proof (cases "m = 0")
      case True
      then have "k = 0" using k0 by simp
      then have "src\<lparr>eb_lwd := if eb_lwd src = k then 0 else eb_lwd src\<rparr> = src1" using r(2) by (simp add: src1_def)
      with True \<open>k = 0\<close> dst(1) show ?thesis by (intro that [of dst]) simp_all
    next
      case False
      then have "take k ?cs \<noteq> []" using k0 k(1) by auto
      from append_moved [OF dst(1) this moved r(4)] show ?thesis
        using False r(2) that by (auto simp: Let_def src1_def)
    qed
    have n': "length (take (n - m) (chain_data c)) \<le> 2 ^ 62"
      using okc(1) r(3) len cont by simp
    obtain d where d: "evbuffer_add True (take (n - m) (chain_data c)) d1 = Inr (0, d)" "evb_inv d"
        "contents d = contents d1 @ take (n - m) (chain_data c)"
      using evbuffer_add_spec [OF d1(2) _ n', of True] d1(4) dst(2) by (auto simp: frozen_def)
    have j: "eb_chains src1 ! (if m \<noteq> 0 then 0 else k) = c" "(eb_chains src1)[if m \<noteq> 0 then 0 else k := c'] = c' # cs'"
      using k0 by (auto simp: src1_def)
    have run: "evbuffer_remove_buffer False True src dst n =
        Inr (int n, evbuffer_invoke_callbacks (s\<lparr>eb_n_del := eb_n_del src + n\<rparr>), evbuffer_invoke_callbacks d)"
    proof -
      have c: "\<not> (n = 0 \<or> False)" "\<not> (eb_freeze_end dst \<or> eb_freeze_start src)" "\<not> n \<ge> eb_total_len src" "m + (n - m) \<noteq> 0" "m + (n - m) = n"
        using 3 src(3) dst(2) r(5) by auto
      show ?thesis
        unfolding evbuffer_remove_buffer_def if_not_P [OF c(1)] if_not_P [OF c(2)] if_not_P [OF c(3)] r(1) bind_result.simps prod.case d1(1) Let_def j(1) d(1)
          c'_def [symmetric] j(2) if_P [OF c(4)] c(5)
        using 3(1) by (simp add: s_def src1_def)
    qed
    have c': "chain_ok c'" "chain_data c' = drop (n - m) (chain_data c)" "ch_off c' \<noteq> 0"
      using chain_ok_skip [OF okc(1), of "n - m"] chain_data_skip [of "n - m" c] r(3) by (simp_all add: c'_def)
    have "lwd_ok (if eb_lwd src \<le> k then 0 else eb_lwd src - k) (c' # cs')"
      using lwd_ok_drop [OF _ r(2) c'(3)] src(1) by (simp add: evb_inv_def)
    then have lwd: "lwd_ok (eb_lwd s) (c' # cs')" by (simp add: s_def src1_def split: if_splits)
    have cs: "contents s = drop n (contents src)" "take n (contents src) = concat (map chain_data (take k ?cs)) @ take (n - m) (chain_data c)"
      unfolding cont using r(3,4,5) c'(2) okc(1) by (simp_all add: s_def contents_def)
    have "evb_inv s" using lwd cs(1) c'(1) okc(2) tot unfolding evb_inv_def by (simp add: s_def)
    then show ?thesis using run d(2,3) d1(3) cs 3 tot by simp
  qed
qed

section \<open>The byte queue\<close>

text \<open>
  The operations of one buffer as a data type, what they do to a list of bytes, and what they do to
  a buffer. The output is what is read; \<open>Op_add_buffer\<close> takes over the data of another buffer.
\<close>

datatype ev_op =
    Op_add "byte list" | Op_prepend "byte list" | Op_drain nat | Op_remove nat | Op_copyout nat
  | Op_pullup nat | Op_expand nat | Op_add_buffer evbuffer | Op_prepend_buffer evbuffer

fun ev_spec :: "ev_op \<Rightarrow> byte list \<Rightarrow> byte list \<times> byte list" where
  "ev_spec (Op_add d) xs = ([], xs @ d)"
| "ev_spec (Op_prepend d) xs = ([], d @ xs)"
| "ev_spec (Op_drain n) xs = ([], drop n xs)"
| "ev_spec (Op_remove n) xs = (take n xs, drop n xs)"
| "ev_spec (Op_copyout n) xs = (take n xs, xs)"
| "ev_spec (Op_pullup n) xs = (take n xs, xs)"
| "ev_spec (Op_expand n) xs = ([], xs)"
| "ev_spec (Op_add_buffer b) xs = ([], xs @ contents b)"
| "ev_spec (Op_prepend_buffer b) xs = ([], contents b @ xs)"

fun ev_legal :: "ev_op \<Rightarrow> byte list \<Rightarrow> bool" where
  "ev_legal (Op_add d) xs = (length d \<le> 2 ^ 62)"
| "ev_legal (Op_prepend d) xs = (length d \<le> 2 ^ 62)"
| "ev_legal (Op_pullup n) xs = (0 < n \<and> n \<le> length xs \<and> length xs \<le> 2 ^ 62)"
| "ev_legal (Op_expand n) xs = (n \<le> 2 ^ 62)"
| "ev_legal (Op_add_buffer b) xs = (evb_inv b \<and> \<not> eb_freeze_start b)"
| "ev_legal (Op_prepend_buffer b) xs = (evb_inv b \<and> \<not> eb_freeze_start b)"
| "ev_legal _ xs = True"

fun ev_step :: "ev_op \<Rightarrow> evbuffer \<Rightarrow> (byte list \<times> evbuffer) ev_result" where
  "ev_step (Op_add d) b = bind_result (evbuffer_add True d b) (\<lambda>(r, b). Inr ([], b))"
| "ev_step (Op_prepend d) b = bind_result (evbuffer_prepend True d b) (\<lambda>(r, b). Inr ([], b))"
| "ev_step (Op_drain n) b = bind_result (evbuffer_drain n b) (\<lambda>(r, b). Inr ([], b))"
| "ev_step (Op_remove n) b = bind_result (evbuffer_remove n b) (\<lambda>(r, d, b). Inr (d, b))"
| "ev_step (Op_copyout n) b = bind_result (evbuffer_copyout n b) (\<lambda>(r, d). Inr (d, b))"
| "ev_step (Op_pullup n) b = bind_result (evbuffer_pullup True (int n) b) (\<lambda>(m, b). case m of None \<Rightarrow> Inl Null_deref | Some m \<Rightarrow> Inr (take n m, b))"
| "ev_step (Op_expand n) b = bind_result (evbuffer_expand True n b) (\<lambda>(r, b). Inr ([], b))"
| "ev_step (Op_add_buffer c) b = bind_result (evbuffer_add_buffer False True b c) (\<lambda>(r, b, c). Inr ([], b))"
| "ev_step (Op_prepend_buffer c) b = bind_result (evbuffer_prepend_buffer False True b c) (\<lambda>(r, b, c). Inr ([], b))"

definition evb_ok :: "evbuffer \<Rightarrow> bool" where
  "evb_ok b \<longleftrightarrow> evb_inv b \<and> frozen b = (False, False)"

lemma evb_okD: "evb_ok b \<Longrightarrow> evb_inv b" "evb_ok b \<Longrightarrow> \<not> eb_freeze_start b" "evb_ok b \<Longrightarrow> \<not> eb_freeze_end b"
  by (simp_all add: evb_ok_def frozen_def)

lemma evb_okI: "evb_inv b \<Longrightarrow> frozen b = frozen a \<Longrightarrow> evb_ok a \<Longrightarrow> evb_ok b"
  by (simp add: evb_ok_def)

lemma evb_ok_new: "evb_ok evbuffer_new" "contents evbuffer_new = []"
  by (simp_all add: evb_ok_def evbuffer_new_def evb_inv_def contents_def lwd_ok_def frozen_def)

lemma evbuffer_expand_spec:
  assumes "evb_inv b" "n \<le> 2 ^ 62"
  shows "\<exists>r b'. evbuffer_expand mem n b = Inr (r, b') \<and> evb_inv b' \<and> contents b' = contents b \<and> frozen b' = frozen b \<and>
    (r = 0 \<or> r = - 1 \<and> \<not> mem \<and> b' = b)"
  using evbuffer_expand_singlechain_spec [OF assms, of mem] assms(1) by (auto simp: evbuffer_expand_def)

interpretation evq: data_refinement evb_ok contents ev_step ev_spec ev_legal
proof
  fix b op
  assume ok: "evb_ok b" and l: "ev_legal op (contents b)"
  note i = evb_okD [OF ok] and okI = evb_okI [OF _ _ ok]
  show "\<exists>s'. ev_step op b = Inr (fst (ev_spec op (contents b)), s') \<and> evb_ok s' \<and> contents s' = snd (ev_spec op (contents b))"
  proof (cases op)
    case (Op_add d)
    then show ?thesis using evbuffer_add_spec [OF i(1,3), of d True] l okI by auto
  next
    case (Op_prepend d)
    then show ?thesis using evbuffer_prepend_spec [OF i(1,2), of d True] l okI by auto
  next
    case (Op_drain n)
    then show ?thesis using evbuffer_drain_spec [OF i(1,2), of n] okI by auto
  next
    case (Op_remove n)
    then show ?thesis using evbuffer_remove_spec [OF i(1,2), of n] okI by auto
  next
    case (Op_copyout n)
    then show ?thesis using evbuffer_copyout_spec [OF i(1,2), of n] ok by simp
  next
    case (Op_pullup n)
    then show ?thesis using evbuffer_pullup_spec(2) [OF i(1) _ refl, of "int n" True] l okI by (auto simp: pullup_size_def)
  next
    case (Op_expand n)
    then show ?thesis using evbuffer_expand_spec [OF i(1), of n True] l okI by auto
  next
    case (Op_add_buffer c)
    then show ?thesis using evbuffer_add_buffer_spec [OF i(1,3), of c True] l okI by auto
  next
    case (Op_prepend_buffer c)
    then show ?thesis using evbuffer_prepend_buffer_spec [OF i(1,2), of c True] l okI by auto
  qed
qed

text \<open>
  C35. Evbuffers are byte queues: any sequence of adding, prepending, draining, removing, copying out,
  pulling up, expanding and taking over other buffers runs on a new buffer without a failed
  assertion, a null pointer, a write outside a chain or an endless loop, reads exactly the bytes the
  same operations read from a list of bytes, and leaves \<open>total_len\<close> the number of bytes in the buffer.
\<close>

theorem evbuffer_byte_queue:
  assumes "legal_ops ev_legal ev_spec ops []"
  shows "\<exists>b. run_ops ev_step ops evbuffer_new = Inr (fst (run_spec ev_spec ops []), b) \<and>
     contents b = snd (run_spec ev_spec ops []) \<and> evbuffer_get_length b = length (contents b)"
  using evq.run_refines [OF evb_ok_new(1), unfolded evb_ok_new(2), OF assms]
  by (auto simp: evb_ok_def evb_inv_def evbuffer_get_length_def)

theorem evbuffer_byte_queue_witness:
  "\<exists>b. run_ops ev_step [Op_add [1, 2, 3], Op_prepend [0], Op_drain 2, Op_pullup 2, Op_remove 1] evbuffer_new = Inr ([[], [], [], [2, 3], [2]], b) \<and>
     contents b = [3]"
  using evbuffer_byte_queue [of "[Op_add [1, 2, 3], Op_prepend [0], Op_drain 2, Op_pullup 2, Op_remove 1]"] by auto

text \<open>
  \<open>evbuffer_remove_buffer\<close> moves the first bytes of one buffer behind those of another when
  \<open>last_with_datap\<close> of the source is up to date.
\<close>

theorem evbuffer_remove_buffer_correct:
  assumes "evb_inv src" "tidy src" "\<not> eb_freeze_start src" "evb_inv dst" "\<not> eb_freeze_end dst" "length (contents src) \<le> 2 ^ 62"
  shows "\<exists>s d. evbuffer_remove_buffer False True src dst n = Inr (int (min n (length (contents src))), s, d) \<and> evb_inv s \<and> evb_inv d \<and>
     contents s = drop n (contents src) \<and> contents d = contents dst @ take n (contents src)"
  using evbuffer_remove_buffer_spec assms .

text \<open>Chains of the two smallest sizes, and what a buffer looks like that was filled once.\<close>

lemma small_chain:
  "n \<le> 976 \<Longrightarrow> \<exists>c. evbuffer_chain_new True n = Inr (Some c) \<and> buffer_len c = 976 \<and> chain_ok c \<and> ch_misalign c = 0 \<and> ch_off c = 0 \<and> \<not> is_immutable c"
  "976 < n \<Longrightarrow> n \<le> 2000 \<Longrightarrow> \<exists>c. evbuffer_chain_new True n = Inr (Some c) \<and> buffer_len c = 2000 \<and> chain_ok c \<and> ch_misalign c = 0 \<and> ch_off c = 0 \<and> \<not> is_immutable c"
  by (simp_all add: evbuffer_chain_new_def to_alloc_loop.simps MIN_BUFFER_SIZE_def EVBUFFER_CHAIN_SIZE_def buffer_len_def chain_ok_def
      CHAIN_PINNED_def is_immutable_def)

lemma add_to_new:
  assumes "length d \<le> 976"
  shows "\<exists>b c. evbuffer_add True d evbuffer_new = Inr (0, b) \<and> eb_chains b = [c] \<and> eb_lwd b = 0 \<and> chain_ok c \<and> chain_data c = d \<and>
     ch_off c = length d \<and> ch_misalign c = 0 \<and> buffer_len c = 976 \<and> \<not> is_immutable c \<and> eb_total_len b = length d \<and> frozen b = (False, False)"
proof -
  obtain c where c: "evbuffer_chain_new True (length d) = Inr (Some c)" "buffer_len c = 976" "chain_ok c" "ch_misalign c = 0" "ch_off c = 0" "\<not> is_immutable c"
    using small_chain(1) [OF assms] by blast
  obtain c' where c': "chain_append d c = Inr c'" "chain_ok c'" "chain_data c' = d" "buffer_len c' = 976" "ch_misalign c' = 0" "ch_off c' = length d"
      "ch_flags c' = ch_flags c"
    using chain_append_ok [OF c(3), of d] c assms by auto
  let ?b = "account (length d) (evbuffer_new\<lparr>eb_chains := [c']\<rparr>)"
  have "first_chain True (length d) evbuffer_new = Inr (Some (evbuffer_new\<lparr>eb_chains := [c]\<rparr>))"
    using c by (simp add: first_chain_def evbuffer_new_def evbuffer_chain_insert_new_def evbuffer_chain_insert_def)
  then have "evbuffer_add True d evbuffer_new = Inr (0, evbuffer_invoke_callbacks ?b)"
    using c c' assms by (simp add: evbuffer_add_def) (simp add: evbuffer_new_def set_last_def)
  moreover have "eb_chains ?b = [c']" "eb_lwd ?b = 0" "eb_total_len ?b = length d" "frozen ?b = (False, False)"
    by (simp_all add: evbuffer_new_def) (simp add: frozen_def)
  moreover have "\<not> is_immutable c'" using c'(7) c(6) by (simp add: is_immutable_def)
  ultimately show ?thesis using c'(2-6) by (intro exI [of _ "evbuffer_invoke_callbacks ?b"] exI [of _ c']) simp
qed

theorem evbuffer_remove_buffer_correct_witness:
  "\<exists>b s d. evbuffer_add True [1, 2, 3] evbuffer_new = Inr (0, b) \<and> evbuffer_remove_buffer False True b evbuffer_new 2 = Inr (2, s, d) \<and>
     contents s = [3] \<and> contents d = [1, 2]"
proof -
  obtain b c where b: "evbuffer_add True [1, 2, 3] evbuffer_new = Inr (0, b)" "eb_chains b = [c]" "eb_lwd b = 0" "chain_ok c" "chain_data c = [1, 2, 3]"
      "ch_off c = 3" "eb_total_len b = 3" "frozen b = (False, False)"
    using add_to_new [of "[1, 2, 3]"] by auto
  have "evb_inv b" "contents b = [1, 2, 3]" using b by (simp_all add: evb_inv_def contents_def lwd_ok_def)
  moreover have "tidy b" using b by (simp add: tidy_def)
  ultimately show ?thesis
    using evbuffer_remove_buffer_correct [of b evbuffer_new 2] evb_ok_new b(1,8) evb_okD [OF evb_ok_new(1)] by (auto simp: frozen_def)
qed

text \<open>A buffer of which \<open>last_with_datap\<close> is not up to date.\<close>

lemma stale_buffer:
  assumes d: "length d = 900"
  shows "\<exists>b1 b2 b3 c e. evbuffer_add True d evbuffer_new = Inr (0, b1) \<and> evbuffer_expand True 2000 b1 = Inr (0, b2) \<and> evbuffer_add True [x] b2 = Inr (0, b3) \<and>
     contents b3 = d @ [x] \<and> eb_chains b3 = [c, e] \<and> eb_lwd b3 = 0 \<and> frozen b3 = (False, False) \<and> ch_off c = 900 \<and> CHAIN_SPACE_LEN c = 76 \<and> ch_off e = 1 \<and>
     \<not> is_immutable e \<and> eb_total_len b3 = 901"
proof -
  obtain b1 c where b1: "evbuffer_add True d evbuffer_new = Inr (0, b1)" "eb_chains b1 = [c]" "eb_lwd b1 = 0" "chain_ok c" "chain_data c = d"
      "ch_off c = 900" "ch_misalign c = 0" "buffer_len c = 976" "\<not> is_immutable c" "eb_total_len b1 = 900" "frozen b1 = (False, False)"
    using add_to_new [of d] d by auto
  obtain e where e: "evbuffer_chain_new True 2000 = Inr (Some e)" "buffer_len e = 2000" "chain_ok e" "ch_misalign e = 0" "ch_off e = 0" "\<not> is_immutable e"
    using small_chain(2) [of 2000] by auto
  let ?b2 = "b1\<lparr>eb_chains := [c, e]\<rparr>"
  have sp: "CHAIN_SPACE_LEN c = 76" "CHAIN_SPACE_LEN e = 2000" using b1 e by (simp_all add: CHAIN_SPACE_LEN_def)
  have np: "\<not> CHAIN_PINNED c" "\<not> CHAIN_PINNED e" using b1(4) e(3) by (simp_all add: chain_ok_def)
  have "expand_insert_new True 2000 b1 = Inr (Some (1, ?b2))"
    using e b1 sp np by (simp add: expand_insert_new_def evbuffer_chain_insert_new_def evbuffer_chain_insert_def victim_def Let_def expand_check_def)
  then have b2: "evbuffer_expand True 2000 b1 = Inr (0, ?b2)"
    using b1 sp np by (simp add: evbuffer_expand_def evbuffer_expand_singlechain_def Let_def evbuffer_chain_should_realign_def)
  obtain e' where e': "chain_append [x] e = Inr e'" "chain_ok e'" "chain_data e' = [x]" "ch_off e' = 1" "ch_flags e' = ch_flags e"
    using chain_append_ok [OF e(3), of "[x]"] e by auto
  let ?b3 = "evbuffer_invoke_callbacks (account 1 (set_last e' ?b2))"
  have b3: "evbuffer_add True [x] ?b2 = Inr (0, ?b3)"
    using b1(11) e e'(1) by (simp add: evbuffer_add_def first_chain_def Let_def frozen_def)
  have ch: "eb_chains ?b3 = [c, e']" "eb_lwd ?b3 = 0" "eb_total_len ?b3 = 901" "frozen ?b3 = (False, False)"
    using b1 by (simp_all add: set_last_def frozen_def [of "_\<lparr>eb_chains := _\<rparr>"] frozen_def [of b1])
  have "\<not> is_immutable e'" using e'(5) e(6) by (simp add: is_immutable_def)
  moreover have "contents ?b3 = d @ [x]" using ch(1) b1(5) e'(3) by (simp add: contents_def)
  ultimately show ?thesis using b1(1,6) b2 b3 ch sp(1) e'(4) by blast
qed

text \<open>
  \<open>evbuffer_add\<close> writes to the last chain without moving \<open>last_with_datap\<close>: when
  \<open>evbuffer_expand\<close> has added a chain, the next \<open>evbuffer_add\<close> leaves \<open>last_with_datap\<close> behind the
  data, and \<open>evbuffer_remove_buffer\<close> of the bytes of the first chain fails its assertion although
  the buffer has more data than is asked for.
\<close>

theorem evbuffer_stale_last_with_data:
  assumes d: "length d = 900"
  shows "\<exists>b1 b2 b3. evbuffer_add True d evbuffer_new = Inr (0, b1) \<and> evbuffer_expand True 2000 b1 = Inr (0, b2) \<and>
     evbuffer_add True [x] b2 = Inr (0, b3) \<and> contents b3 = d @ [x] \<and>
     evbuffer_remove_buffer False True b3 evbuffer_new 900 = Inl Assert_failed"
proof -
  obtain b1 b2 b3 c e where b: "evbuffer_add True d evbuffer_new = Inr (0, b1)" "evbuffer_expand True 2000 b1 = Inr (0, b2)" "evbuffer_add True [x] b2 = Inr (0, b3)"
      "contents b3 = d @ [x]" "eb_chains b3 = [c, e]" "eb_lwd b3 = 0" "frozen b3 = (False, False)" "ch_off c = 900" "eb_total_len b3 = 901"
    using stale_buffer [OF d, of x] by blast
  have "evbuffer_remove_buffer False True b3 evbuffer_new 900 = Inl Assert_failed"
    using b(5-9) evb_okD [OF evb_ok_new(1)] unfolding evbuffer_remove_buffer_def by (auto simp: frozen_def)
  with b(1-4) show ?thesis by blast
qed

theorem evbuffer_stale_last_with_data_witness:
  "\<exists>b1 b2 b3. evbuffer_add True (replicate (30 * 30) 7) evbuffer_new = Inr (0, b1) \<and> evbuffer_expand True 2000 b1 = Inr (0, b2) \<and>
     evbuffer_add True [9] b2 = Inr (0, b3) \<and> contents b3 = replicate (30 * 30) 7 @ [9] \<and>
     evbuffer_remove_buffer False True b3 evbuffer_new 900 = Inl Assert_failed"
  by (rule evbuffer_stale_last_with_data) simp

section \<open>Sizes that wrap around, and no memory\<close>

text \<open>The sizes the loop of \<open>evbuffer_chain_new\<close> goes through are powers of two, then 0 for ever.\<close>

definition alloc_power :: "nat \<Rightarrow> bool" where
  "alloc_power t \<longleftrightarrow> t = 0 \<or> (\<exists>j \<le> 63. t = 2 ^ j)"

lemma alloc_power_double: "alloc_power t \<Longrightarrow> alloc_power (t * 2 mod 2 ^ 64)"
proof -
  assume "alloc_power t"
  then consider "t = 0" | j where "j < 63" "t = 2 ^ j" | "t = 2 ^ 63" by (auto simp: alloc_power_def le_less)
  then show ?thesis
  proof cases
    case 2
    then have "(2 :: nat) ^ Suc j < 2 ^ 64" by (intro power_strict_increasing) auto
    with 2 show ?thesis by (auto simp: alloc_power_def intro!: exI [of _ "Suc j"])
  qed (simp_all add: alloc_power_def)
qed

lemma to_alloc_loop_result:
  assumes "to_alloc_loop t sz = Some r"
  shows "alloc_power t \<longrightarrow> sz \<le> r \<and> alloc_power r"
proof (rule to_alloc_loop.raw_induct [OF _ assms])
  fix f :: "nat \<Rightarrow> nat \<Rightarrow> nat option" and t sz r
  assume IH: "\<And>t sz r. f t sz = Some r \<Longrightarrow> alloc_power t \<longrightarrow> sz \<le> r \<and> alloc_power r"
    and r: "(if t < sz then f (t * 2 mod 2 ^ 64) sz else Some t) = Some r"
  show "alloc_power t \<longrightarrow> sz \<le> r \<and> alloc_power r"
    using IH [of "t * 2 mod 2 ^ 64" sz r] r alloc_power_double [of t] by (cases "t < sz") auto
qed

lemma alloc_power_le: "alloc_power t \<Longrightarrow> t \<le> 2 ^ 63"
  unfolding alloc_power_def using power_increasing [of _ 63 "2 :: nat"] by auto

lemma chain_new_huge:
  shows "2 ^ 63 - 48 < sz \<Longrightarrow> sz < 2 ^ 64 - 48 \<Longrightarrow> evbuffer_chain_new mem sz = Inl No_return"
    and "2 ^ 64 - 48 \<le> sz \<Longrightarrow> sz < 2 ^ 64 \<Longrightarrow>
      \<exists>c. evbuffer_chain_new True sz = Inr (Some c) \<and> buffer_len c = 976 \<and> chain_ok c \<and> ch_off c = 0 \<and> ch_misalign c = 0"
proof -
  assume s: "2 ^ 63 - 48 < sz" "sz < 2 ^ 64 - 48"
  then have "(sz + 48) mod 2 ^ 64 = sz + 48" by simp
  moreover have "to_alloc_loop 1024 (sz + 48) = None"
  proof (rule ccontr)
    assume "to_alloc_loop 1024 (sz + 48) \<noteq> None"
    then obtain r where "to_alloc_loop 1024 (sz + 48) = Some r" by auto
    moreover have "alloc_power 1024" by (auto simp: alloc_power_def intro!: exI [of _ 10])
    ultimately have "sz + 48 \<le> r" "alloc_power r" using to_alloc_loop_result by blast+
    with alloc_power_le [of r] s(1) show False by simp
  qed
  ultimately show "evbuffer_chain_new mem sz = Inl No_return"
    unfolding evbuffer_chain_new_def MIN_BUFFER_SIZE_def EVBUFFER_CHAIN_SIZE_def by simp
next
  assume s: "2 ^ 64 - 48 \<le> sz" "sz < 2 ^ 64"
  then have "(sz + 48) mod 2 ^ 64 = sz + 48 - 2 ^ 64" by (simp add: mod_if)
  moreover have "to_alloc_loop 1024 (sz + 48 - 2 ^ 64) = Some 1024" using s by (simp add: to_alloc_loop.simps)
  ultimately show "\<exists>c. evbuffer_chain_new True sz = Inr (Some c) \<and> buffer_len c = 976 \<and> chain_ok c \<and> ch_off c = 0 \<and> ch_misalign c = 0"
    unfolding evbuffer_chain_new_def MIN_BUFFER_SIZE_def EVBUFFER_CHAIN_SIZE_def
    by (simp add: buffer_len_def chain_ok_def CHAIN_PINNED_def)
qed

text \<open>
  The size of a new chain is computed without a check: for a request of more than
  \<open>2 ^ 63 - 48\<close> bytes \<open>evbuffer_expand\<close> never returns, and for one within 48 bytes of \<open>SIZE_MAX\<close> the
  sum wraps around, so that a chain of 976 bytes is allocated and only the final assertion notices.
\<close>

theorem evbuffer_expand_huge:
  assumes "2 ^ 63 - 48 < n" "n < 2 ^ 64"
  shows "evbuffer_expand True n evbuffer_new = (if n < 2 ^ 64 - 48 then Inl No_return else Inl Assert_failed)"
proof (cases "n < 2 ^ 64 - 48")
  case True
  then show ?thesis
    using chain_new_huge(1) [OF assms(1) True, of True]
    by (simp add: evbuffer_expand_def evbuffer_expand_singlechain_def evbuffer_new_def expand_insert_new_def evbuffer_chain_insert_new_def)
next
  case False
  then obtain c where c: "evbuffer_chain_new True n = Inr (Some c)" "buffer_len c = 976"
    using chain_new_huge(2) [of n] assms by auto
  have "CHAIN_SPACE_LEN c \<le> 976" using c(2) by (simp add: CHAIN_SPACE_LEN_def)
  with False c show ?thesis
    by (simp add: evbuffer_expand_def evbuffer_expand_singlechain_def evbuffer_new_def expand_insert_new_def
        evbuffer_chain_insert_new_def evbuffer_chain_insert_def expand_check_def)
qed

theorem evbuffer_expand_huge_witness:
  "evbuffer_expand True (2 ^ 64 - 1) evbuffer_new = Inl Assert_failed \<and> evbuffer_expand True (2 ^ 63) evbuffer_new = Inl No_return"
  using evbuffer_expand_huge [of "2 ^ 64 - 1"] evbuffer_expand_huge [of "2 ^ 63"] by simp

text \<open>
  Without memory nothing is lost: \<open>evbuffer_add\<close>, \<open>evbuffer_expand\<close> and \<open>evbuffer_pullup\<close> report
  the failure and leave the buffer as it is, \<open>evbuffer_prepend\<close> keeps the buffer sound but may have
  put an end piece of the data in front; with memory all of them succeed.
\<close>

theorem evbuffer_out_of_memory:
  assumes inv: "evb_inv b" and fr: "\<not> eb_freeze_start b" "\<not> eb_freeze_end b"
    and d: "length d \<le> 2 ^ 62" "length (contents b) \<le> 2 ^ 62" "0 < n" "n \<le> length (contents b)"
  shows "(\<exists>r b'. evbuffer_add mem d b = Inr (r, b') \<and> (r = 0 \<and> contents b' = contents b @ d \<or> r = - 1 \<and> \<not> mem \<and> b' = b)) \<and>
     (\<exists>r b'. evbuffer_expand mem (length d) b = Inr (r, b') \<and> (r = 0 \<and> contents b' = contents b \<or> r = - 1 \<and> \<not> mem \<and> b' = b)) \<and>
     (\<exists>r b'. evbuffer_pullup mem (int n) b = Inr (r, b') \<and>
        (map_option (take n) r = Some (take n (contents b)) \<and> contents b' = contents b \<or> r = None \<and> \<not> mem \<and> b' = b)) \<and>
     (\<exists>r b'. evbuffer_prepend mem d b = Inr (r, b') \<and> evb_inv b' \<and>
        (r = 0 \<and> contents b' = d @ contents b \<or> r = - 1 \<and> \<not> mem \<and> (\<exists>k. contents b' = drop k d @ contents b)))"
  using evbuffer_add_spec [OF inv fr(2) d(1), of mem] evbuffer_expand_spec [OF inv d(1), of mem]
    evbuffer_pullup_spec(2) [OF inv d(2) refl, of "int n" mem] evbuffer_prepend_spec [OF inv fr(1) d(1), of mem] d(3,4)
  by (intro conjI) (auto simp: pullup_size_def)

theorem evbuffer_out_of_memory_witness:
  "\<exists>b r b'. evbuffer_add True [1, 2, 3] evbuffer_new = Inr (0, b) \<and> evbuffer_add False [4] b = Inr (r, b') \<and>
     contents b' = (if r = 0 then [1, 2, 3, 4] else [1, 2, 3])"
proof -
  obtain b where b: "evbuffer_add True [1, 2, 3] evbuffer_new = Inr (0, b)" "evb_inv b" "contents b = [1, 2, 3]" "frozen b = (False, False)"
    using evbuffer_add_spec [OF evb_okD(1) [OF evb_ok_new(1)] evb_okD(3) [OF evb_ok_new(1)], of "[1, 2, 3]" True] evb_ok_new by (auto simp: evb_ok_def)
  have "\<exists>r b'. evbuffer_add False [4] b = Inr (r, b') \<and> (r = 0 \<and> contents b' = contents b @ [4] \<or> r = - 1 \<and> \<not> False \<and> b' = b)"
    using evbuffer_out_of_memory [of b "[4]" 2 False] b by (auto simp: frozen_def)
  with b(1,3) show ?thesis by fastforce
qed

end
