(* ===== verification/Event_Tagging.thy ===== *)
theory Event_Tagging
  imports Ev_Buffer_Queue
begin

text \<open>
  Tagged data on evbuffers (\<open>sample/tcp/libevent/event_tagging.c\<close>): numbers as nibbles, tags with
  seven bits a byte, and the functions that marshal and unmarshal integers, byte strings and times.
  Every function works on the buffers of \<open>Ev_Buffer\<close>; \<open>mem\<close> says whether the allocations of the call
  succeed. An output parameter is part of the result; it is \<open>None\<close> where the code does not write it.
\<close>

type_synonym u64 = "64 word"

section \<open>Encoding\<close>

text \<open>
  \<open>ENCODE_INT_INTERNAL\<close>: \<open>off\<close> counts the nibbles of \<open>data\<close>, the first of which is reserved for the
  length. The macro is used for 32 and 64 bits.
\<close>

function encode_loop :: "'a::len word \<Rightarrow> nat \<Rightarrow> byte list \<Rightarrow> (nat \<times> byte list) ev_result" where
  "encode_loop number off data =
     (if number = 0 then Inr (off, data)
      else if length data \<le> off div 2 then Inl Out_of_bounds
      else encode_loop (drop_bit 4 number) (off + 1)
        (data[off div 2 := (if odd off then (data ! (off div 2) AND 0xf0) OR ucast (number AND 0x0f)
                            else (data ! (off div 2) AND 0x0f) OR push_bit 4 (ucast (number AND 0x0f)))]))"
  by pat_completeness auto

lemma drop_bit_4_less: "number \<noteq> 0 \<Longrightarrow> unat (drop_bit 4 number) < unat (number :: 'a::len word)"
proof -
  assume "number \<noteq> 0"
  then have "0 < unat number" by (simp add: unat_gt_0)
  then show "unat (drop_bit 4 number) < unat number" unfolding unat_drop_bit_eq by (simp add: drop_bit_eq_div)
qed

termination encode_loop
  by (relation "measure (\<lambda>(number, off, data). unat number)") (auto intro: drop_bit_4_less)

definition ENCODE_INT_INTERNAL :: "nat \<Rightarrow> 'a::len word \<Rightarrow> byte list ev_result" where
  "ENCODE_INT_INTERNAL sz number =
     bind_result (encode_loop number 1 (replicate (sz + 1) 0)) (\<lambda>(off, data).
       let nibbles = (if off > 2 then off - 2 else 0);
           data = data[0 := (data ! 0 AND 0x0f) OR push_bit 4 (of_nat nibbles AND 0x0f)] in
       Inr (take ((off + 1) div 2) data))"

definition encode_int_internal :: "u32 \<Rightarrow> byte list ev_result" where
  "encode_int_internal number = ENCODE_INT_INTERNAL 4 number"

definition encode_int64_internal :: "u64 \<Rightarrow> byte list ev_result" where
  "encode_int64_internal number = ENCODE_INT_INTERNAL 8 number"

text \<open>\<open>evbuffer_add\<close> whose result nobody looks at.\<close>

definition put_bytes :: "bool \<Rightarrow> byte list \<Rightarrow> evbuffer \<Rightarrow> evbuffer ev_result" where
  "put_bytes mem d buf = bind_result (evbuffer_add mem d buf) (\<lambda>(r, buf). Inr buf)"

definition evtag_encode_int :: "bool \<Rightarrow> u32 \<Rightarrow> evbuffer \<Rightarrow> evbuffer ev_result" where
  "evtag_encode_int mem number buf = bind_result (encode_int_internal number) (\<lambda>d. put_bytes mem d buf)"

definition evtag_encode_int64 :: "bool \<Rightarrow> u64 \<Rightarrow> evbuffer \<Rightarrow> evbuffer ev_result" where
  "evtag_encode_int64 mem number buf = bind_result (encode_int64_internal number) (\<lambda>d. put_bytes mem d buf)"

text \<open>The bytes of a tag: seven bits each, the high bit set on all but the last.\<close>

function encode_tag_loop :: "u32 \<Rightarrow> byte list" where
  "encode_tag_loop tag =
     (let lower = ucast (tag AND 0x7f); tag' = drop_bit 7 tag in
      if tag' \<noteq> 0 then (lower OR 0x80) # encode_tag_loop tag' else [lower])"
  by pat_completeness auto
termination
proof (relation "measure unat")
  fix tag lower tag' :: u32 and l :: byte
  assume t: "tag' = drop_bit 7 tag" "tag' \<noteq> 0"
  have "unat tag' = unat tag div 128" unfolding t(1) unat_drop_bit_eq by (simp add: drop_bit_eq_div)
  moreover have "0 < unat tag'" using t(2) by (simp only: unat_gt_0) simp
  ultimately show "(tag', tag) \<in> measure unat" by simp
qed simp

declare encode_tag_loop.simps [simp del] encode_loop.simps [simp del]

definition evtag_encode_tag :: "bool \<Rightarrow> u32 \<Rightarrow> evbuffer \<Rightarrow> (nat \<times> evbuffer) ev_result" where
  "evtag_encode_tag mem tag buf =
     (let d = encode_tag_loop tag in
      if length d > 5 then Inl Out_of_bounds else bind_result (put_bytes mem d buf) (\<lambda>buf. Inr (length d, buf)))"

section \<open>Decoding\<close>

text \<open>
  The loop of \<open>decode_tag_internal\<close> reads from the memory \<open>m\<close> the pointer of \<open>evbuffer_pullup\<close>
  points into, up to \<open>len\<close> bytes; \<open>None\<close>: no byte with a clear high bit.
  The shift of the fifth byte is one of an \<open>int\<close>, which for tags of \<open>2 ^ 31\<close> and more goes into the sign bit; it is taken to
  wrap, as compilers do.
\<close>

function decode_tag_loop :: "byte list \<Rightarrow> nat \<Rightarrow> nat \<Rightarrow> u32 \<Rightarrow> (nat \<times> u32) option ev_result" where
  "decode_tag_loop m len count number =
     (if len \<le> count then Inr None
      else if length m \<le> count then Inl Out_of_bounds
      else if 32 \<le> 7 * count then Inl Undefined_shift
      else let lower = m ! count; number = number OR push_bit (7 * count) (ucast (lower AND 0x7f)) in
        if lower AND 0x80 = 0 then Inr (Some (count + 1, number))
        else decode_tag_loop m len (count + 1) number)"
  by pat_completeness auto
termination
  by (relation "measure (\<lambda>(m, len, count, number). len - count)") auto

declare decode_tag_loop.simps [simp del]

definition decode_tag_internal :: "bool \<Rightarrow> bool \<Rightarrow> evbuffer \<Rightarrow> (int \<times> u32 option \<times> evbuffer) ev_result" where
  "decode_tag_internal mem dodrain evbuf =
     (let len = evbuffer_get_length evbuf in
      bind_result (evbuffer_pullup mem (int (if len < 5 then len else 5)) evbuf) (\<lambda>(data, evbuf).
        if len = 0 then Inr (- 1, None, evbuf)
        else case data of None \<Rightarrow> Inl Null_deref | Some m \<Rightarrow>
          bind_result (decode_tag_loop m len 0 0) (\<lambda>r. case r of None \<Rightarrow> Inr (- 1, None, evbuf) | Some (count, number) \<Rightarrow>
            bind_result (if dodrain then evbuffer_drain count evbuf else Inr (0, evbuf)) (\<lambda>(r, evbuf).
              Inr (min (int count) (2 ^ 31 - 1), Some number, evbuf)))))"

definition evtag_decode_tag :: "bool \<Rightarrow> evbuffer \<Rightarrow> (int \<times> u32 option \<times> evbuffer) ev_result" where
  "evtag_decode_tag mem evbuf = decode_tag_internal mem True evbuf"

text \<open>\<open>while (nibbles > 0)\<close> of \<open>DECODE_INT_INTERNAL\<close>: \<open>data\<close> starts at the offset.\<close>

fun decode_nibbles :: "nat \<Rightarrow> byte list \<Rightarrow> 'a::len word \<Rightarrow> 'a word ev_result" where
  "decode_nibbles 0 data number = Inr number"
| "decode_nibbles (Suc n) data number =
     (let nibbles = Suc n in
      if length data \<le> nibbles div 2 then Inl Out_of_bounds
      else decode_nibbles n data (push_bit 4 number OR
        (if odd nibbles then ucast (data ! (nibbles div 2) AND 0x0f) else ucast (drop_bit 4 (data ! (nibbles div 2) AND 0xf0)))))"

definition DECODE_INT_INTERNAL :: "nat \<Rightarrow> bool \<Rightarrow> evbuffer \<Rightarrow> nat \<Rightarrow> (int \<times> 'a::len word option \<times> evbuffer) ev_result" where
  "DECODE_INT_INTERNAL maxnibbles mem evbuf offset =
     (if evbuffer_get_length evbuf \<le> offset then Inr (- 1, None, evbuf)
      else bind_result (evbuffer_pullup mem (int (offset + 1)) evbuf) (\<lambda>(data, evbuf1). case data of None \<Rightarrow> Inl Null_deref | Some m \<Rightarrow>
        if length m \<le> offset then Inl Out_of_bounds
        else let nibbles = unat (drop_bit 4 (m ! offset AND 0xf0)) + 1 in
          if nibbles > maxnibbles \<or> nibbles div 2 + 1 > evbuffer_get_length evbuf - offset then Inr (- 1, None, evbuf1)
          else let len = nibbles div 2 + 1 in
            bind_result (evbuffer_pullup mem (int (offset + len)) evbuf1) (\<lambda>(data, evbuf2). case data of None \<Rightarrow> Inl Null_deref | Some m \<Rightarrow>
              bind_result (decode_nibbles nibbles (drop offset m) 0) (\<lambda>number. Inr (int len, Some number, evbuf2)))))"

definition decode_int_internal :: "bool \<Rightarrow> evbuffer \<Rightarrow> nat \<Rightarrow> (int \<times> u32 option \<times> evbuffer) ev_result" where
  "decode_int_internal mem evbuf offset = DECODE_INT_INTERNAL 8 mem evbuf offset"

definition decode_int64_internal :: "bool \<Rightarrow> evbuffer \<Rightarrow> nat \<Rightarrow> (int \<times> u64 option \<times> evbuffer) ev_result" where
  "decode_int64_internal mem evbuf offset = DECODE_INT_INTERNAL 16 mem evbuf offset"

definition evtag_decode_int :: "bool \<Rightarrow> evbuffer \<Rightarrow> (int \<times> u32 option \<times> evbuffer) ev_result" where
  "evtag_decode_int mem evbuf =
     bind_result (decode_int_internal mem evbuf 0) (\<lambda>(res, number, evbuf).
       if res \<noteq> - 1 then bind_result (evbuffer_drain (nat res) evbuf) (\<lambda>(r, evbuf). Inr (0, number, evbuf))
       else Inr (- 1, number, evbuf))"

definition evtag_decode_int64 :: "bool \<Rightarrow> evbuffer \<Rightarrow> (int \<times> u64 option \<times> evbuffer) ev_result" where
  "evtag_decode_int64 mem evbuf =
     bind_result (decode_int64_internal mem evbuf 0) (\<lambda>(res, number, evbuf).
       if res \<noteq> - 1 then bind_result (evbuffer_drain (nat res) evbuf) (\<lambda>(r, evbuf). Inr (0, number, evbuf))
       else Inr (- 1, number, evbuf))"

section \<open>Marshalling\<close>

definition evtag_marshal :: "bool \<Rightarrow> u32 \<Rightarrow> byte list \<Rightarrow> evbuffer \<Rightarrow> evbuffer ev_result" where
  "evtag_marshal mem tag data evbuf =
     bind_result (evtag_encode_tag mem tag evbuf) (\<lambda>(n, evbuf).
     bind_result (evtag_encode_int mem (of_nat (length data)) evbuf) (\<lambda>evbuf. put_bytes mem data evbuf))"

definition evtag_marshal_buffer :: "bool \<Rightarrow> u32 \<Rightarrow> evbuffer \<Rightarrow> evbuffer \<Rightarrow> (evbuffer \<times> evbuffer) ev_result" where
  "evtag_marshal_buffer mem tag data evbuf =
     bind_result (evtag_encode_tag mem tag evbuf) (\<lambda>(n, evbuf).
     bind_result (evtag_encode_int mem (of_nat (evbuffer_get_length data)) evbuf) (\<lambda>evbuf.
     bind_result (evbuffer_add_buffer False mem evbuf data) (\<lambda>(r, evbuf, data). Inr (evbuf, data))))"

definition evtag_marshal_int :: "bool \<Rightarrow> u32 \<Rightarrow> u32 \<Rightarrow> evbuffer \<Rightarrow> evbuffer ev_result" where
  "evtag_marshal_int mem tag integer evbuf =
     bind_result (encode_int_internal integer) (\<lambda>data.
     bind_result (evtag_encode_tag mem tag evbuf) (\<lambda>(n, evbuf).
     bind_result (evtag_encode_int mem (of_nat (length data)) evbuf) (\<lambda>evbuf. put_bytes mem data evbuf)))"

definition evtag_marshal_int64 :: "bool \<Rightarrow> u32 \<Rightarrow> u64 \<Rightarrow> evbuffer \<Rightarrow> evbuffer ev_result" where
  "evtag_marshal_int64 mem tag integer evbuf =
     bind_result (encode_int64_internal integer) (\<lambda>data.
     bind_result (evtag_encode_tag mem tag evbuf) (\<lambda>(n, evbuf).
     bind_result (evtag_encode_int mem (of_nat (length data)) evbuf) (\<lambda>evbuf. put_bytes mem data evbuf)))"

text \<open>A string is its bytes before the closing zero byte.\<close>

definition evtag_marshal_string :: "bool \<Rightarrow> u32 \<Rightarrow> byte list \<Rightarrow> evbuffer \<Rightarrow> evbuffer ev_result" where
  "evtag_marshal_string mem tag str buf = evtag_marshal mem tag (takeWhile (\<lambda>c. c \<noteq> 0) str) buf"

text \<open>\<open>tv_sec\<close> and \<open>tv_usec\<close> are converted to 32 bits.\<close>

definition evtag_marshal_timeval :: "bool \<Rightarrow> u32 \<Rightarrow> int \<Rightarrow> int \<Rightarrow> evbuffer \<Rightarrow> evbuffer ev_result" where
  "evtag_marshal_timeval mem tag tv_sec tv_usec evbuf =
     bind_result (encode_int_internal (word_of_int tv_sec)) (\<lambda>d1.
     bind_result (encode_int_internal (word_of_int tv_usec)) (\<lambda>d2. evtag_marshal mem tag (d1 @ d2) evbuf))"

section \<open>Unmarshalling\<close>

definition evtag_peek :: "bool \<Rightarrow> evbuffer \<Rightarrow> (int \<times> u32 option \<times> evbuffer) ev_result" where
  "evtag_peek mem evbuf = decode_tag_internal mem False evbuf"

definition evtag_peek_length :: "bool \<Rightarrow> evbuffer \<Rightarrow> (int \<times> u32 option \<times> evbuffer) ev_result" where
  "evtag_peek_length mem evbuf =
     bind_result (decode_tag_internal mem False evbuf) (\<lambda>(len, t, evbuf).
       if len = - 1 then Inr (- 1, None, evbuf)
       else bind_result (decode_int_internal mem evbuf (nat len)) (\<lambda>(res, plength, evbuf).
         if res = - 1 then Inr (- 1, plength, evbuf)
         else Inr (0, map_option (\<lambda>p. p + word_of_int (res + len)) plength, evbuf)))"

definition evtag_payload_length :: "bool \<Rightarrow> evbuffer \<Rightarrow> (int \<times> u32 option \<times> evbuffer) ev_result" where
  "evtag_payload_length mem evbuf =
     bind_result (decode_tag_internal mem False evbuf) (\<lambda>(len, t, evbuf).
       if len = - 1 then Inr (- 1, None, evbuf)
       else bind_result (decode_int_internal mem evbuf (nat len)) (\<lambda>(res, plength, evbuf).
         Inr (if res = - 1 then - 1 else 0, plength, evbuf)))"

text \<open>The length is returned as an \<open>int\<close>.\<close>

definition evtag_unmarshal_header :: "bool \<Rightarrow> evbuffer \<Rightarrow> (int \<times> u32 option \<times> evbuffer) ev_result" where
  "evtag_unmarshal_header mem evbuf =
     bind_result (decode_tag_internal mem True evbuf) (\<lambda>(r, ptag, evbuf).
       if r = - 1 then Inr (- 1, ptag, evbuf)
       else bind_result (evtag_decode_int mem evbuf) (\<lambda>(r, len, evbuf).
         if r = - 1 then Inr (- 1, ptag, evbuf)
         else case len of None \<Rightarrow> Inl Null_deref | Some len \<Rightarrow>
           if evbuffer_get_length evbuf < unat len then Inr (- 1, ptag, evbuf) else Inr (sint len, ptag, evbuf)))"

text \<open>A negative length becomes a huge \<open>size_t\<close>.\<close>

definition size_of :: "int \<Rightarrow> nat" where
  "size_of n = nat (n mod 2 ^ 64)"

definition evtag_consume :: "bool \<Rightarrow> evbuffer \<Rightarrow> (int \<times> evbuffer) ev_result" where
  "evtag_consume mem evbuf =
     bind_result (evtag_unmarshal_header mem evbuf) (\<lambda>(len, t, evbuf).
       if len = - 1 then Inr (- 1, evbuf)
       else bind_result (evbuffer_drain (size_of len) evbuf) (\<lambda>(r, evbuf). Inr (0, evbuf)))"

definition evtag_unmarshal :: "bool \<Rightarrow> evbuffer \<Rightarrow> evbuffer \<Rightarrow> (int \<times> u32 option \<times> evbuffer \<times> evbuffer) ev_result" where
  "evtag_unmarshal mem src dst =
     bind_result (evtag_unmarshal_header mem src) (\<lambda>(len, ptag, src).
       if len = - 1 then Inr (- 1, ptag, src, dst)
       else bind_result (evbuffer_pullup mem len src) (\<lambda>(data, src).
         bind_result (case data of None \<Rightarrow> if len = 0 then Inr [] else Inl Null_deref
             | Some m \<Rightarrow> if length m < size_of len then Inl Out_of_bounds else Inr (take (size_of len) m)) (\<lambda>d.
         bind_result (evbuffer_add mem d dst) (\<lambda>(r, dst).
           if r = - 1 then Inr (- 1, ptag, src, dst)
           else bind_result (evbuffer_drain (size_of len) src) (\<lambda>(r, src). Inr (len, ptag, src, dst))))))"

definition unmarshal_number :: "(bool \<Rightarrow> evbuffer \<Rightarrow> nat \<Rightarrow> (int \<times> 'a::len word option \<times> evbuffer) ev_result) \<Rightarrow>
    bool \<Rightarrow> u32 \<Rightarrow> evbuffer \<Rightarrow> (int \<times> 'a word option \<times> evbuffer) ev_result" where
  "unmarshal_number decode mem need_tag evbuf =
     bind_result (decode_tag_internal mem True evbuf) (\<lambda>(r, tag, evbuf).
       if r = - 1 then Inr (- 1, None, evbuf)
       else if Some need_tag \<noteq> tag then Inr (- 1, None, evbuf)
       else bind_result (evtag_decode_int mem evbuf) (\<lambda>(r, len, evbuf).
         if r = - 1 then Inr (- 1, None, evbuf)
         else case len of None \<Rightarrow> Inl Null_deref | Some len \<Rightarrow>
           if evbuffer_get_length evbuf < unat len then Inr (- 1, None, evbuf)
           else bind_result (decode mem evbuf 0) (\<lambda>(res, pinteger, evbuf).
             bind_result (evbuffer_drain (unat len) evbuf) (\<lambda>(r, evbuf).
               Inr (if res < 0 \<or> nat res > unat len then - 1 else res, pinteger, evbuf)))))"

definition evtag_unmarshal_int :: "bool \<Rightarrow> u32 \<Rightarrow> evbuffer \<Rightarrow> (int \<times> u32 option \<times> evbuffer) ev_result" where
  "evtag_unmarshal_int = unmarshal_number decode_int_internal"

definition evtag_unmarshal_int64 :: "bool \<Rightarrow> u32 \<Rightarrow> evbuffer \<Rightarrow> (int \<times> u64 option \<times> evbuffer) ev_result" where
  "evtag_unmarshal_int64 = unmarshal_number decode_int64_internal"

definition evtag_unmarshal_fixed :: "bool \<Rightarrow> u32 \<Rightarrow> nat \<Rightarrow> evbuffer \<Rightarrow> (int \<times> byte list option \<times> evbuffer) ev_result" where
  "evtag_unmarshal_fixed mem need_tag len src =
     bind_result (evtag_unmarshal_header mem src) (\<lambda>(tag_len, tag, src).
       if tag_len < 0 \<or> tag \<noteq> Some need_tag then Inr (- 1, None, src)
       else if nat tag_len \<noteq> len then Inr (- 1, None, src)
       else bind_result (evbuffer_remove len src) (\<lambda>(n, data, src). Inr (0, Some data, src)))"

text \<open>\<open>strmem\<close>: whether there is memory for the string. Only -1 is taken for an error of the header.\<close>

definition evtag_unmarshal_string :: "bool \<Rightarrow> bool \<Rightarrow> u32 \<Rightarrow> evbuffer \<Rightarrow> (int \<times> byte list option \<times> evbuffer) ev_result" where
  "evtag_unmarshal_string mem strmem need_tag evbuf =
     bind_result (evtag_unmarshal_header mem evbuf) (\<lambda>(tag_len, tag, evbuf).
       if tag_len = - 1 \<or> tag \<noteq> Some need_tag then Inr (- 1, None, evbuf)
       else if \<not> strmem then Inr (- 1, None, evbuf)
       else bind_result (evbuffer_remove (size_of tag_len) evbuf) (\<lambda>(n, data, evbuf).
         if size_of (tag_len + 1) < length data + 1 then Inl Out_of_bounds
         else Inr (0, Some (data @ [0]), evbuf)))"

text \<open>The seconds are written before the microseconds are decoded.\<close>

definition evtag_unmarshal_timeval :: "bool \<Rightarrow> u32 \<Rightarrow> evbuffer \<Rightarrow> (int \<times> u32 option \<times> u32 option \<times> evbuffer) ev_result" where
  "evtag_unmarshal_timeval mem need_tag evbuf =
     bind_result (evtag_unmarshal_header mem evbuf) (\<lambda>(len, tag, evbuf).
       if len = - 1 then Inr (- 1, None, None, evbuf)
       else bind_result
         (if tag \<noteq> Some need_tag then Inr (- 1, None, None, evbuf)
          else bind_result (decode_int_internal mem evbuf 0) (\<lambda>(offset, sec, evbuf).
            if offset = - 1 then Inr (- 1, None, None, evbuf)
            else bind_result (decode_int_internal mem evbuf (nat offset)) (\<lambda>(offset2, usec, evbuf).
              if offset2 = - 1 then Inr (- 1, sec, None, evbuf)
              else Inr (if offset + offset2 > len then - 1 else 0, sec, usec, evbuf)))) (\<lambda>(result, sec, usec, evbuf).
       bind_result (evbuffer_drain (size_of len) evbuf) (\<lambda>(r, evbuf). Inr (result, sec, usec, evbuf))))"

end
