(* ===== verification/Event_Tagging_Props.thy ===== *)
theory Event_Tagging_Props
  imports Event_Tagging
begin

text \<open>
  What \<open>event_tagging.c\<close> writes it reads back, from any buffer in which the bytes stand, however they
  are spread over the chains of the buffer. The buffers enter only through the laws of the byte
  queue (\<open>Ev_Buffer_Props\<close>, \<open>Ev_Buffer_Queue\<close>).
\<close>

section \<open>Nibbles\<close>

text \<open>The nibble at a place of the encoded number: the high one of a byte comes first.\<close>

definition nib :: "byte list \<Rightarrow> nat \<Rightarrow> byte" where
  "nib d i = (if odd i then d ! (i div 2) AND 0x0f else drop_bit 4 (d ! (i div 2) AND 0xf0))"

lemma byte_masks: "(0x0f :: byte) = mask 4" "(0xf0 :: byte) = push_bit 4 (mask 4)" "(0x0f :: 'a::len word) = mask 4"
  by (simp_all add: mask_eq_exp_minus_1 push_bit_eq_mult)

lemma set_low: "((b AND 0xf0) OR (v AND 0x0f)) AND 0x0f = v AND 0x0f" "drop_bit 4 (((b AND 0xf0) OR (v AND 0x0f)) AND 0xf0) = drop_bit 4 (b AND 0xf0)"
  for b v :: byte
  by (rule byte_eqI; simp add: bit_simps byte_masks)+

lemma set_high: "((b AND 0x0f) OR push_bit 4 (v AND 0x0f)) AND 0x0f = b AND 0x0f" "drop_bit 4 (((b AND 0x0f) OR push_bit 4 (v AND 0x0f)) AND 0xf0) = v AND 0x0f"
  for b v :: byte
  by (rule byte_eqI; simp add: bit_simps byte_masks)+

text \<open>Writing the nibble at place \<open>off\<close> leaves the other nibbles as they are.\<close>

definition set_nib :: "byte list \<Rightarrow> nat \<Rightarrow> byte \<Rightarrow> byte list" where
  "set_nib d off v = d[off div 2 := (if odd off then (d ! (off div 2) AND 0xf0) OR (v AND 0x0f)
                                     else (d ! (off div 2) AND 0x0f) OR push_bit 4 (v AND 0x0f))]"

lemma nib_set_nib:
  assumes "off div 2 < length d"
  shows "nib (set_nib d off v) i = (if i = off then v AND 0x0f else nib d i)"
proof (cases "i div 2 = off div 2")
  case True
  then have eq: "i = off \<longleftrightarrow> odd i = odd off" by presburger
  have x: "set_nib d off v ! (off div 2) = (if odd off then (d ! (off div 2) AND 0xf0) OR (v AND 0x0f)
      else (d ! (off div 2) AND 0x0f) OR push_bit 4 (v AND 0x0f))"
    using assms by (simp add: set_nib_def)
  show ?thesis
    unfolding nib_def eq True x by (cases "odd i"; cases "odd off") (simp_all only: set_low set_high simp_thms if_True if_False)
next
  case False
  then have "i \<noteq> off" by auto
  with False show ?thesis by (simp add: nib_def set_nib_def)
qed

lemma length_set_nib [simp]: "length (set_nib d off v) = length d"
  by (simp add: set_nib_def)

lemma ucast_nibble: "ucast (x AND 0x0f :: 'a::len word) = (ucast x AND 0x0f :: byte)"
  by (rule byte_eqI) (auto simp: bit_simps byte_masks dest: bit_imp_le_length)

lemma encode_loop_step:
  "number \<noteq> 0 \<Longrightarrow> off div 2 < length data \<Longrightarrow>
     encode_loop number off data = encode_loop (drop_bit 4 number) (off + 1) (set_nib data off (ucast number))"
  by (subst encode_loop.simps) (simp add: set_nib_def ucast_nibble)

lemma encode_loop_spec:
  fixes number :: "'a::len word"
  assumes "drop_bit (4 * k) number = 0" "off + k \<le> 2 * length data"
  shows "\<exists>n data'. encode_loop number off data = Inr (off + n, data') \<and> n \<le> k \<and> length data' = length data \<and> drop_bit (4 * n) number = 0 \<and>
     (number = 0 \<longleftrightarrow> n = 0) \<and>
     (\<forall>i. nib data' i = (if off \<le> i \<and> i < off + n then ucast (drop_bit (4 * (i - off)) number) AND 0x0f else nib data i))"
  using assms
proof (induction k arbitrary: number off data)
  case 0
  then have "number = 0" by simp
  then show ?case by (intro exI [of _ 0] exI [of _ data]) (auto simp: encode_loop.simps)
next
  case (Suc k)
  show ?case
  proof (cases "number = 0")
    case True
    then show ?thesis by (intro exI [of _ 0] exI [of _ data]) (auto simp: encode_loop.simps)
  next
    case False
    let ?d = "set_nib data off (ucast number)" and ?n = "drop_bit 4 number"
    have lt: "off div 2 < length data" using Suc.prems(2) by linarith
    have "drop_bit (4 * k) ?n = 0" using Suc.prems(1) by (simp add: add.commute)
    moreover have "off + 1 + k \<le> 2 * length ?d" using Suc.prems(2) by simp
    ultimately obtain n d' where
      IH: "encode_loop ?n (off + 1) ?d = Inr (off + 1 + n, d')" "n \<le> k" "length d' = length data" "drop_bit (4 * n) ?n = 0"
        "\<forall>i. nib d' i = (if off + 1 \<le> i \<and> i < off + 1 + n then ucast (drop_bit (4 * (i - (off + 1))) ?n) AND 0x0f else nib ?d i)"
      using Suc.IH [of ?n "off + 1" ?d] by auto
    have shift: "drop_bit (4 * (i - (off + 1))) ?n = drop_bit (4 * (i - off)) number" if "off < i" for i
    proof -
      have "4 * (i - (off + 1)) + 4 = 4 * (i - off)" using that by linarith
      then show ?thesis by (metis add.commute drop_bit_drop_bit)
    qed
    have "nib d' i = (if off \<le> i \<and> i < off + Suc n then ucast (drop_bit (4 * (i - off)) number) AND 0x0f else nib data i)" for i
      using IH(5) nib_set_nib [OF lt, of "ucast number" i] shift [of i] by (cases "i = off"; cases "off < i") auto
    moreover have "drop_bit (4 * Suc n) number = 0" using IH(4) by (simp add: add.commute)
    ultimately show ?thesis
      using IH(1,2,3) False encode_loop_step [OF False lt]
      by (intro exI [of _ "Suc n"] exI [of _ d']) simp
  qed
qed

text \<open>\<open>k\<close> nibbles, behind a nibble with \<open>k - 1\<close>, are the number.\<close>

definition encodes :: "nat \<Rightarrow> byte list \<Rightarrow> 'a::len word \<Rightarrow> bool" where
  "encodes k d number \<longleftrightarrow> 0 < k \<and> k \<le> 16 \<and> length d = k div 2 + 1 \<and> nib d 0 = of_nat (k - 1) \<and> drop_bit (4 * k) number = 0 \<and>
     (\<forall>i. 1 \<le> i \<and> i \<le> k \<longrightarrow> nib d i = ucast (drop_bit (4 * (i - 1)) number) AND 0x0f)"

lemma nib_take: "i div 2 < n \<Longrightarrow> nib (take n d) i = nib d i"
  by (simp add: nib_def)

lemma of_nat_nibble: "k < 16 \<Longrightarrow> (of_nat k :: byte) AND 0x0f = of_nat k"
  by (simp add: byte_masks take_bit_eq_mask [symmetric] take_bit_of_nat take_bit_nat_eq_self)

lemma nib_zeros: "i div 2 < n \<Longrightarrow> nib (replicate n 0) i = 0"
  by (simp add: nib_def)

lemma encode_ok:
  fixes number :: "'a::len word"
  assumes sz: "LENGTH('a) = 8 * sz" "sz \<le> 8"
  shows "\<exists>d k. ENCODE_INT_INTERNAL sz number = Inr d \<and> encodes k d number \<and> k \<le> 2 * sz"
proof -
  have "0 < LENGTH('a)" by simp
  then have sz0: "0 < sz" using sz(1) by linarith
  have "drop_bit (4 * (2 * sz)) number = 0" using sz(1) by (intro bit_word_eqI) (simp add: bit_simps)
  then obtain n d where l: "encode_loop number 1 (replicate (sz + 1) 0) = Inr (1 + n, d)" "n \<le> 2 * sz" "length d = sz + 1"
      "drop_bit (4 * n) number = 0" "number = 0 \<longleftrightarrow> n = 0"
      "\<forall>i. nib d i = (if 1 \<le> i \<and> i < 1 + n then ucast (drop_bit (4 * (i - 1)) number) AND 0x0f else nib (replicate (sz + 1) 0) i)"
    using encode_loop_spec [of "2 * sz" number 1 "replicate (sz + 1) 0"] by auto
  define k where "k = (if n = 0 then 1 else n)"
  define e where "e = set_nib d 0 (of_nat (k - 1))"
  have k: "0 < k" "k \<le> 2 * sz" "k \<le> 16" using l(2) sz0 sz(2) by (auto simp: k_def)
  have enc: "ENCODE_INT_INTERNAL sz number = Inr (take ((1 + n + 1) div 2) e)"
  proof -
    have "(if 1 + n > 2 then 1 + n - 2 else 0) = k - 1" by (auto simp: k_def)
    then show ?thesis unfolding ENCODE_INT_INTERNAL_def l(1) bind_result.simps prod.case Let_def by (simp only: e_def set_nib_def div_0 even_zero simp_thms if_False)
  qed
  have len: "(1 + n + 1) div 2 = k div 2 + 1" by (auto simp: k_def)
  have ne: "nib e i = (if i = 0 then of_nat (k - 1) else nib d i)" for i
    using nib_set_nib [of 0 d "of_nat (k - 1)" i] l(3) of_nat_nibble [of "k - 1"] k(3) by (simp add: e_def)
  have "encodes k (take (k div 2 + 1) e) number"
    unfolding encodes_def
  proof (intro conjI allI impI)
    show "length (take (k div 2 + 1) e) = k div 2 + 1" using l(3) k(2) by (simp add: e_def)
    show "nib (take (k div 2 + 1) e) 0 = of_nat (k - 1)" using ne [of 0] nib_take [of 0 "k div 2 + 1" e] by simp
    show "drop_bit (4 * k) number = 0" using l(4,5) by (auto simp: k_def)
    fix i assume i: "1 \<le> i \<and> i \<le> k"
    then have "nib (take (k div 2 + 1) e) i = nib d i" using ne nib_take [of i "k div 2 + 1" e] by (simp add: div_le_mono less_Suc_eq_le)
    also have "\<dots> = ucast (drop_bit (4 * (i - 1)) number) AND 0x0f"
      using l(5,6) i nib_zeros [of i "sz + 1"] sz0 by (auto simp: k_def split: if_splits)
    finally show "nib (take (k div 2 + 1) e) i = ucast (drop_bit (4 * (i - 1)) number) AND 0x0f" .
  qed (use k in simp_all)
  with enc len k(2) show ?thesis by (metis)
qed

text \<open>Decoding the nibbles from the highest down.\<close>

lemma nibble_join: "push_bit 4 (drop_bit 4 x) OR (ucast (ucast x AND 0x0f :: byte)) = (x :: 'a::len word)"
proof (rule bit_word_eqI)
  fix n assume "n < LENGTH('a)"
  then show "bit (push_bit 4 (drop_bit 4 x) OR (ucast (ucast x AND 0x0f :: byte))) n = bit x n"
    by (cases "n < 4") (auto simp: bit_simps byte_masks)
qed

lemma decode_nibbles_spec:
  fixes number :: "'a::len word"
  assumes "\<forall>i. 1 \<le> i \<and> i \<le> k \<longrightarrow> nib m i = ucast (drop_bit (4 * (i - 1)) number) AND 0x0f" "k div 2 < length m"
  shows "decode_nibbles k m (drop_bit (4 * k) number) = Inr number"
  using assms
proof (induction k)
  case (Suc k)
  have n: "nib m (Suc k) = ucast (drop_bit (4 * k) number) AND 0x0f" using Suc.prems(1) by (auto dest: spec [of _ "Suc k"])
  have "push_bit 4 (drop_bit (4 * Suc k) number) OR ucast (nib m (Suc k)) = drop_bit (4 * k) number"
    unfolding n using nibble_join [of "drop_bit (4 * k) number"] by (simp add: add.commute)
  moreover have "(if odd (Suc k) then ucast (m ! (Suc k div 2) AND 0x0f) else ucast (drop_bit 4 (m ! (Suc k div 2) AND 0xf0))) = (ucast (nib m (Suc k)) :: 'a word)"
    by (simp add: nib_def)
  moreover have "k div 2 < length m" using Suc.prems(2) by (metis div_le_mono le_less_trans le_SucI order_refl)
  ultimately show ?case using Suc by simp
qed simp

section \<open>Buffers that can be read and written\<close>

text \<open>The laws of the byte queue for a buffer that is not frozen, in the form the decoders use them.\<close>

definition small :: "evbuffer \<Rightarrow> bool" where
  "small b \<longleftrightarrow> evb_ok b \<and> length (contents b) \<le> 2 ^ 62"

lemma pullup_ok:
  assumes "small b" "0 < n" "n \<le> length (contents b)"
  shows "\<exists>m b'. evbuffer_pullup True (int n) b = Inr (Some m, b') \<and> small b' \<and> contents b' = contents b \<and> take n m = take n (contents b)"
proof -
  have ok: "evb_ok b" "length (contents b) \<le> 2 ^ 62" using assms(1) by (simp_all add: small_def)
  obtain b' m where "evbuffer_pullup True (int n) b = Inr (Some m, b')" "evb_inv b'" "contents b' = contents b" "frozen b' = frozen b"
      "take n m = take n (contents b)"
    using evbuffer_pullup_spec(2) [OF evb_okD(1) [OF ok(1)] ok(2) refl, of "int n" True] assms(2,3) by (auto simp: pullup_size_def)
  with evb_okI [OF _ _ ok(1)] ok(2) show ?thesis by (auto simp: small_def)
qed

lemma drain_ok:
  assumes "small b"
  shows "\<exists>b'. evbuffer_drain n b = Inr (0, b') \<and> small b' \<and> contents b' = drop n (contents b)"
proof -
  have ok: "evb_ok b" "length (contents b) \<le> 2 ^ 62" using assms by (simp_all add: small_def)
  from evbuffer_drain_spec [OF evb_okD(1) [OF ok(1)] evb_okD(2) [OF ok(1)], of n] show ?thesis
    using evb_okI [OF _ _ ok(1)] ok(2) by (auto simp: small_def)
qed

lemma put_ok:
  assumes "evb_ok b" "length d \<le> 2 ^ 62"
  shows "\<exists>b'. put_bytes True d b = Inr b' \<and> evb_ok b' \<and> contents b' = contents b @ d"
  using evbuffer_add_spec [OF evb_okD(1) [OF assms(1)] evb_okD(3) [OF assms(1)] assms(2), of True] evb_okI [OF _ _ assms(1)]
  by (auto simp: put_bytes_def)

lemma get_length_eq: "evb_ok b \<Longrightarrow> evbuffer_get_length b = length (contents b)"
  by (simp add: evb_ok_def evb_inv_def evbuffer_get_length_def)

lemma small_ok: "small b \<Longrightarrow> evb_ok b" "small b \<Longrightarrow> evbuffer_get_length b = length (contents b)"
  by (simp_all add: small_def get_length_eq)

section \<open>Numbers in a buffer\<close>

lemma decode_buffer:
  fixes number :: "'a::len word"
  assumes b: "small b" and c: "contents b = pre @ d @ rest" and e: "encodes k d number" "k \<le> maxn"
  shows "\<exists>b'. DECODE_INT_INTERNAL maxn True b (length pre) = Inr (int (length d), Some number, b') \<and> small b' \<and> contents b' = contents b"
proof -
  let ?o = "length pre"
  have d: "length d = k div 2 + 1" "0 < k" "k \<le> 16" "nib d 0 = of_nat (k - 1)" using e(1) by (auto simp: encodes_def)
  have len: "?o + 1 \<le> length (contents b)" "?o + length d \<le> length (contents b)" using c d(1) by auto
  obtain m1 b1 where p1: "evbuffer_pullup True (int (?o + 1)) b = Inr (Some m1, b1)" "small b1" "contents b1 = contents b"
      "take (?o + 1) m1 = take (?o + 1) (contents b)"
    using pullup_ok [OF b _ len(1)] by auto
  obtain m2 b2 where p2: "evbuffer_pullup True (int (?o + (k div 2 + 1))) b1 = Inr (Some m2, b2)" "small b2" "contents b2 = contents b"
      "take (?o + length d) m2 = take (?o + length d) (contents b)"
    using pullup_ok [OF p1(2), of "?o + length d"] p1(3) len(2) d(1) by auto
  have m1: "?o < length m1" "m1 ! ?o = d ! 0"
  proof -
    have "length (take (?o + 1) m1) = ?o + 1" using p1(4) len(1) by simp
    then show "?o < length m1" by simp
    then have "m1 ! ?o = take (?o + 1) m1 ! ?o" by simp
    also have "\<dots> = contents b ! ?o" using p1(4) len(1) by simp
    finally show "m1 ! ?o = d ! 0" using c d(1) by (simp add: nth_append)
  qed
  have n: "unat (drop_bit 4 (m1 ! ?o AND 0xf0)) + 1 = k"
  proof -
    have "drop_bit 4 (m1 ! ?o AND 0xf0) = of_nat (k - 1)" using d(4) unfolding m1(2) nib_def by simp
    then show ?thesis using d(2,3) by (simp only: unat_of_nat) (simp add: take_bit_nat_eq_self)
  qed
  have m2: "take (length d) (drop ?o m2) = d"
  proof -
    have "take (length d) (drop ?o m2) = drop ?o (take (?o + length d) m2)" by (simp add: drop_take)
    then show ?thesis unfolding p2(4) c by simp
  qed
  have "length (take (length d) (drop ?o m2)) = length d" using m2 by simp
  then have l2: "k div 2 < length (drop ?o m2)" using d(1) by (simp add: min_def split: if_splits)
  have "\<forall>i. 1 \<le> i \<and> i \<le> k \<longrightarrow> nib (drop ?o m2) i = ucast (drop_bit (4 * (i - 1)) number) AND 0x0f"
  proof (intro allI impI)
    fix i assume i: "1 \<le> i \<and> i \<le> k"
    then have "i div 2 < length d" using d(1) by (simp add: div_le_mono less_Suc_eq_le)
    then have "nib (drop ?o m2) i = nib d i" using nib_take [of i "length d" "drop ?o m2"] m2 by simp
    then show "nib (drop ?o m2) i = ucast (drop_bit (4 * (i - 1)) number) AND 0x0f" using e(1) i by (simp add: encodes_def)
  qed
  from decode_nibbles_spec [OF this l2] have dec: "decode_nibbles k (drop ?o m2) 0 = Inr number"
    using e(1) by (simp add: encodes_def)
  have "evbuffer_get_length b = length (contents b)" using b by (rule small_ok)
  then have g: "\<not> evbuffer_get_length b \<le> ?o" "\<not> (k > maxn \<or> k div 2 + 1 > evbuffer_get_length b - ?o)" "\<not> length m1 \<le> ?o"
    using len d(1) e(2) m1(1) by auto
  have "DECODE_INT_INTERNAL maxn True b ?o = Inr (int (k div 2 + 1), Some number, b2)"
    unfolding DECODE_INT_INTERNAL_def if_not_P [OF g(1)] p1(1) bind_result.simps prod.case option.case if_not_P [OF g(3)] n Let_def if_not_P [OF g(2)] p2(1) dec ..
  with p2(2,3) d(1) show ?thesis by simp
qed

text \<open>Every number of 32 or 64 bits can be encoded.\<close>

lemma encode_int_ok: "\<exists>d k. encode_int_internal n = Inr d \<and> encodes k d n \<and> k \<le> 8"
  using encode_ok [of 4 n] by (auto simp: encode_int_internal_def)

lemma encode_int64_ok: "\<exists>d k. encode_int64_internal n = Inr d \<and> encodes k d n \<and> k \<le> 16"
  using encode_ok [of 8 n] by (auto simp: encode_int64_internal_def)

lemma encodes_length: "encodes k d n \<Longrightarrow> 0 < length d \<and> length d \<le> 9"
  by (auto simp: encodes_def)

lemma evtag_decode_int_ok:
  assumes b: "small b" "contents b = d @ rest" "encodes k d n" "k \<le> 8"
  shows "\<exists>b'. evtag_decode_int True b = Inr (0, Some n, b') \<and> small b' \<and> contents b' = rest"
proof -
  obtain b1 where b1: "DECODE_INT_INTERNAL 8 True b 0 = Inr (int (length d), Some n, b1)" "small b1" "contents b1 = contents b"
    using decode_buffer [OF b(1), of "[]" d rest k n 8] b(2-4) by auto
  obtain b2 where "evbuffer_drain (length d) b1 = Inr (0, b2)" "small b2" "contents b2 = drop (length d) (contents b1)"
    using drain_ok [OF b1(2)] by blast
  with b1 b(2) show ?thesis by (simp add: evtag_decode_int_def decode_int_internal_def)
qed

section \<open>Tags\<close>

lemma low7: "(ucast (tag AND 0x7f) :: byte) AND 0x7f = ucast (tag AND 0x7f :: u32)" "(ucast (tag AND 0x7f) OR 0x80 :: byte) AND 0x7f = ucast (tag AND 0x7f :: u32)"
    "(ucast (tag AND 0x7f :: u32) :: byte) AND 0x80 = 0" "(ucast (tag AND 0x7f :: u32) OR 0x80 :: byte) AND 0x80 \<noteq> 0"
proof -
  have m: "(0x7f :: byte) = mask 7" "(0x80 :: byte) = push_bit 7 (mask 1)" "(0x7f :: u32) = mask 7"
    by (simp_all add: mask_eq_exp_minus_1 push_bit_eq_mult)
  show "(ucast (tag AND 0x7f) :: byte) AND 0x7f = ucast (tag AND 0x7f :: u32)" "(ucast (tag AND 0x7f) OR 0x80 :: byte) AND 0x7f = ucast (tag AND 0x7f :: u32)"
    "(ucast (tag AND 0x7f :: u32) :: byte) AND 0x80 = 0"
    unfolding m by (rule byte_eqI; auto simp: bit_simps)+
  have "bit ((ucast (tag AND 0x7f :: u32) OR 0x80 :: byte) AND 0x80) 7" unfolding m by (simp add: bit_simps)
  then show "(ucast (tag AND 0x7f :: u32) OR 0x80 :: byte) AND 0x80 \<noteq> 0" by auto
qed

lemma ucast_low7: "ucast (ucast (tag AND 0x7f :: u32) :: byte) = (tag AND 0x7f :: u32)"
proof -
  have m: "(0x7f :: u32) = mask 7" by (simp add: mask_eq_exp_minus_1)
  show ?thesis unfolding m by (rule bit_word_eqI) (auto simp: bit_simps)
qed

lemma tag_join: "take_bit (7 * c) tag OR push_bit (7 * c) (drop_bit (7 * c) tag AND 0x7f) = take_bit (7 * c + 7) (tag :: u32)"
proof -
  have m: "(0x7f :: u32) = mask 7" by (simp add: mask_eq_exp_minus_1)
  show ?thesis unfolding m by (rule bit_word_eqI) (auto simp: bit_simps)
qed

lemma take_bit_all: "drop_bit n tag = 0 \<Longrightarrow> take_bit n tag = (tag :: u32)"
  using bits_ident [of n tag] by simp

lemma length_tag_loop: "drop_bit (7 * k) tag = 0 \<Longrightarrow> 0 < k \<Longrightarrow> length (encode_tag_loop tag) \<le> k \<and> 0 < length (encode_tag_loop tag)"
proof (induction k arbitrary: tag)
  case (Suc k)
  show ?case
  proof (cases "drop_bit 7 tag = 0")
    case False
    have "drop_bit (7 * k) (drop_bit 7 tag) = 0" using Suc.prems(1) by (simp add: add.commute)
    moreover have "0 < k" using False Suc.prems(1) by (cases k) auto
    ultimately show ?thesis using Suc.IH [of "drop_bit 7 tag"] False by (simp add: encode_tag_loop.simps [of tag] Let_def)
  qed (simp add: encode_tag_loop.simps [of tag])
qed simp

lemma encode_tag_length: "0 < length (encode_tag_loop tag)" "length (encode_tag_loop tag) \<le> 5"
proof -
  have "drop_bit (7 * 5) tag = 0" by (rule bit_word_eqI) (simp add: bit_simps)
  from length_tag_loop [OF this] show "0 < length (encode_tag_loop tag)" "length (encode_tag_loop tag) \<le> 5" by auto
qed

text \<open>Reading the tag: the bytes read so far are the low bits of the tag.\<close>

lemma decode_tag_loop_spec:
  assumes "count + length (encode_tag_loop (drop_bit (7 * count) tag)) \<le> n" "n \<le> 5"
    and "take n m = pre @ encode_tag_loop (drop_bit (7 * count) tag) @ rest" "length pre = count" "n \<le> length m" "n \<le> len"
  shows "decode_tag_loop m len count (take_bit (7 * count) tag) =
    Inr (Some (count + length (encode_tag_loop (drop_bit (7 * count) tag)), tag))"
  using assms
proof (induction "length (encode_tag_loop (drop_bit (7 * count) tag))" arbitrary: count pre rest)
  case 0
  then show ?case using encode_tag_length(1) by simp
next
  case (Suc l)
  let ?t = "drop_bit (7 * count) tag"
  let ?lower = "(if drop_bit 7 ?t \<noteq> 0 then ucast (?t AND 0x7f) OR 0x80 else ucast (?t AND 0x7f)) :: byte"
  have t: "encode_tag_loop ?t = ?lower # (if drop_bit 7 ?t \<noteq> 0 then encode_tag_loop (drop_bit 7 ?t) else [])"
    by (subst encode_tag_loop.simps) (simp add: Let_def)
  have next7: "drop_bit 7 ?t = drop_bit (7 * (count + 1)) tag" by (simp add: add.commute)
  have lt: "count < n" using Suc.prems(1) encode_tag_length(1) [of ?t] by linarith
  have "m ! count = take n m ! count" using lt by simp
  also have "\<dots> = ?lower" unfolding Suc.prems(3) t using Suc.prems(4) by (simp add: nth_append)
  finally have lower: "m ! count = ?lower" .
  have num: "take_bit (7 * count) tag OR push_bit (7 * count) (ucast (?lower AND 0x7f)) = take_bit (7 * (count + 1)) tag"
    using tag_join [of count tag] by (simp only: low7 ucast_low7 if_distrib [of "\<lambda>x. x AND 0x7f"] if_cancel) (simp add: add.commute)
  have c: "\<not> len \<le> count" "\<not> length m \<le> count" "\<not> 32 \<le> 7 * count" using lt Suc.prems(2,5,6) by linarith+
  have step: "decode_tag_loop m len count (take_bit (7 * count) tag) =
      (if ?lower AND 0x80 = 0 then Inr (Some (count + 1, take_bit (7 * (count + 1)) tag)) else decode_tag_loop m len (count + 1) (take_bit (7 * (count + 1)) tag))"
    by (subst decode_tag_loop.simps) (simp only: Let_def if_not_P [OF c(1)] if_not_P [OF c(2)] if_not_P [OF c(3)] lower num)
  show ?case
  proof (cases "drop_bit 7 ?t = 0")
    case True
    then have "?lower AND 0x80 = 0" by (simp only: low7 simp_thms if_False)
    moreover have "take_bit (7 * (count + 1)) tag = tag" using True unfolding next7 by (rule take_bit_all)
    ultimately show ?thesis unfolding step using t True by simp
  next
    case False
    then have nz: "?lower AND 0x80 \<noteq> 0" by (simp only: low7 simp_thms if_True not_False_eq_True)
    have t': "encode_tag_loop ?t = ?lower # encode_tag_loop (drop_bit (7 * (count + 1)) tag)" using t False unfolding next7 by simp
    have "decode_tag_loop m len (count + 1) (take_bit (7 * (count + 1)) tag) =
      Inr (Some (count + 1 + length (encode_tag_loop (drop_bit (7 * (count + 1)) tag)), tag))"
    proof (rule Suc.hyps(1))
      show "l = length (encode_tag_loop (drop_bit (7 * (count + 1)) tag))" using Suc.hyps(2) t' by simp
      show "count + 1 + length (encode_tag_loop (drop_bit (7 * (count + 1)) tag)) \<le> n" using Suc.prems(1) t' by simp
      show "take n m = (pre @ [?lower]) @ encode_tag_loop (drop_bit (7 * (count + 1)) tag) @ rest" using Suc.prems(3) t' by simp
    qed (use Suc.prems in simp_all)
    then show ?thesis unfolding step if_not_P [OF nz] t' by simp
  qed
qed

lemma decode_tag_ok:
  assumes b: "small b" "contents b = encode_tag_loop tag @ rest"
  shows "\<exists>b'. decode_tag_internal True dodrain b = Inr (int (length (encode_tag_loop tag)), Some tag, b') \<and> small b' \<and>
     contents b' = (if dodrain then rest else contents b)"
proof -
  let ?l = "length (encode_tag_loop tag)" and ?len = "length (contents b)"
  let ?n = "if ?len < 5 then ?len else 5"
  have l: "0 < ?l" "?l \<le> 5" by (rule encode_tag_length)+
  have len: "evbuffer_get_length b = ?len" using b(1) by (rule small_ok)
  have n: "0 < ?n" "?n \<le> ?len" "?l \<le> ?n" "?len \<noteq> 0" using l b(2) by auto
  obtain m b1 where p: "evbuffer_pullup True (int ?n) b = Inr (Some m, b1)" "small b1" "contents b1 = contents b" "take ?n m = take ?n (contents b)"
    using pullup_ok [OF b(1) n(1,2)] by blast
  have "length (take ?n m) = ?n" unfolding p(4) using n(2) by simp
  then have "?n \<le> length m" by (simp add: min_def split: if_splits)
  then have "decode_tag_loop m ?len 0 (take_bit (7 * 0) tag) = Inr (Some (0 + length (encode_tag_loop (drop_bit (7 * 0) tag)), tag))"
    using n(2,3) p(4) b(2) by (intro decode_tag_loop_spec [where n = ?n and pre = "[]" and rest = "take (?n - ?l) rest"]) (simp_all add: p(4))
  then have dec: "decode_tag_loop m ?len 0 0 = Inr (Some (?l, tag))" by simp
  obtain b2 where d: "evbuffer_drain ?l b1 = Inr (0, b2)" "small b2" "contents b2 = drop ?l (contents b1)"
    using drain_ok [OF p(2)] by blast
  have "decode_tag_internal True dodrain b = bind_result (if dodrain then evbuffer_drain ?l b1 else Inr (0, b1))
      (\<lambda>(r, evbuf). Inr (min (int ?l) (2 ^ 31 - 1), Some tag, evbuf))"
    unfolding decode_tag_internal_def Let_def len p(1) bind_result.simps prod.case if_not_P [OF n(4)] option.case dec ..
  moreover have "min (int ?l) (2 ^ 31 - 1) = int ?l" using l(2) by simp
  ultimately show ?thesis using p d b(2) by (cases dodrain) auto
qed

lemma encode_tag_ok:
  assumes "evb_ok b"
  shows "\<exists>b'. evtag_encode_tag True tag b = Inr (length (encode_tag_loop tag), b') \<and> evb_ok b' \<and> contents b' = contents b @ encode_tag_loop tag"
proof -
  have l: "\<not> length (encode_tag_loop tag) > 5" "length (encode_tag_loop tag) \<le> 2 ^ 62" using encode_tag_length [of tag] by auto
  from put_ok [OF assms l(2)] show ?thesis unfolding evtag_encode_tag_def Let_def if_not_P [OF l(1)] by auto
qed

text \<open>
  The bytes an item of the stream consists of: the tag, the length of the payload, the payload. The
  length stands in 32 bits, and the functions that return it as an \<open>int\<close> need it below $2^{31}$.
\<close>

definition item_of :: "u32 \<Rightarrow> byte list \<Rightarrow> byte list" where
  "item_of tag d = encode_tag_loop tag @ projr (encode_int_internal (of_nat (length d))) @ d"

lemma encode_int_projr: "encode_int_internal n = Inr (projr (encode_int_internal n)) \<and> (\<exists>k. encodes k (projr (encode_int_internal n)) n \<and> k \<le> 8)"
  using encode_int_ok [of n] by auto

lemma encode_int_put:
  assumes "evb_ok b"
  shows "\<exists>b'. evtag_encode_int True n b = Inr b' \<and> evb_ok b' \<and> contents b' = contents b @ projr (encode_int_internal n)"
proof -
  obtain d k where e: "encode_int_internal n = Inr d" "encodes k d n" using encode_int_ok [of n] by blast
  have "length d \<le> 2 ^ 62" using encodes_length [OF e(2)] by simp
  from put_ok [OF assms this] show ?thesis by (simp add: evtag_encode_int_def e(1))
qed

lemma marshal_ok:
  assumes b: "evb_ok b" and d: "length d \<le> 2 ^ 62"
  shows "\<exists>b'. evtag_marshal True tag d b = Inr b' \<and> evb_ok b' \<and> contents b' = contents b @ item_of tag d"
proof -
  obtain b1 where b1: "evtag_encode_tag True tag b = Inr (length (encode_tag_loop tag), b1)" "evb_ok b1" "contents b1 = contents b @ encode_tag_loop tag"
    using encode_tag_ok [OF b] by blast
  obtain b2 where b2: "evtag_encode_int True (of_nat (length d)) b1 = Inr b2" "evb_ok b2" "contents b2 = contents b1 @ projr (encode_int_internal (of_nat (length d)))"
    using encode_int_put [OF b1(2)] by blast
  obtain b3 where b3: "put_bytes True d b2 = Inr b3" "evb_ok b3" "contents b3 = contents b2 @ d" using put_ok [OF b2(2) d] by blast
  have "evtag_marshal True tag d b = Inr b3" unfolding evtag_marshal_def b1(1) bind_result.simps prod.case b2(1) b3(1) ..
  with b1 b2 b3 show ?thesis by (simp add: item_of_def)
qed

text \<open>The integers are marshalled as their bytes.\<close>

lemma marshal_int_eq:
  "encode_int_internal i = Inr d \<Longrightarrow> evtag_marshal_int mem tag i b = evtag_marshal mem tag d b"
  "encode_int64_internal j = Inr d \<Longrightarrow> evtag_marshal_int64 mem tag j b = evtag_marshal mem tag d b"
  by (simp_all add: evtag_marshal_int_def evtag_marshal_int64_def evtag_marshal_def)

text \<open>Tag and length are read and drained together.\<close>

lemma read_tag_length:
  assumes c: "small c" "contents c = item_of tag d @ rest" and d: "length d < 2 ^ 32"
  shows "\<exists>c1 c2. decode_tag_internal True True c = Inr (int (length (encode_tag_loop tag)), Some tag, c1) \<and>
     evtag_decode_int True c1 = Inr (0, Some (of_nat (length d)), c2) \<and> small c2 \<and> contents c2 = d @ rest \<and> unat (of_nat (length d) :: u32) = length d"
proof -
  let ?n = "of_nat (length d) :: u32"
  obtain k where e: "encodes k (projr (encode_int_internal ?n)) ?n" "k \<le> 8" using encode_int_projr by blast
  obtain c1 where c1: "decode_tag_internal True True c = Inr (int (length (encode_tag_loop tag)), Some tag, c1)" "small c1"
      "contents c1 = projr (encode_int_internal ?n) @ d @ rest"
    using decode_tag_ok [OF c(1), of tag "projr (encode_int_internal ?n) @ d @ rest" True] c(2) by (auto simp: item_of_def)
  obtain c2 where "evtag_decode_int True c1 = Inr (0, Some ?n, c2)" "small c2" "contents c2 = d @ rest"
    using evtag_decode_int_ok [OF c1(2,3) e] by blast
  moreover have "unat ?n = length d" using d by (simp only: unat_of_nat) (simp add: take_bit_nat_eq_self)
  ultimately show ?thesis using c1(1) by blast
qed

lemma header_ok:
  assumes c: "small c" "contents c = item_of tag d @ rest" and d: "length d < 2 ^ 31"
  shows "\<exists>c'. evtag_unmarshal_header True c = Inr (int (length d), Some tag, c') \<and> small c' \<and> contents c' = d @ rest"
proof -
  have "length d < 2 ^ 32" using d by simp
  from read_tag_length [OF c this] obtain c1 c2 where
    s: "decode_tag_internal True True c = Inr (int (length (encode_tag_loop tag)), Some tag, c1)" "evtag_decode_int True c1 = Inr (0, Some (of_nat (length d)), c2)"
      "small c2" "contents c2 = d @ rest" "unat (of_nat (length d) :: u32) = length d" by blast
  have "sint (of_nat (length d) :: u32) = int (length d)" using d by (simp add: signed_of_nat signed_take_bit_int_eq_self)
  moreover have "\<not> int (length (encode_tag_loop tag)) = - 1" "\<not> (0::int) = - 1" "\<not> evbuffer_get_length c2 < length d"
    using small_ok(2) [OF s(3)] s(4) by auto
  ultimately have "evtag_unmarshal_header True c = Inr (int (length d), Some tag, c2)"
    unfolding evtag_unmarshal_header_def s(1) bind_result.simps prod.case by (simp add: s(2,5))
  with s(3,4) show ?thesis by blast
qed

section \<open>Reading the items back\<close>

lemma size_of_int: "n < 2 ^ 64 \<Longrightarrow> size_of (int n) = n"
  by (simp add: size_of_def)

lemma remove_ok:
  assumes "small b" "contents b = d @ rest"
  shows "\<exists>b'. evbuffer_remove (length d) b = Inr (int (length d), d, b') \<and> small b' \<and> contents b' = rest"
proof -
  have ok: "evb_ok b" "length (contents b) \<le> 2 ^ 62" using assms(1) by (simp_all add: small_def)
  from evbuffer_remove_spec [OF evb_okD(1) [OF ok(1)] evb_okD(2) [OF ok(1)], of "length d"] assms(2) show ?thesis
    using evb_okI [OF _ _ ok(1)] ok(2) by (auto simp: small_def)
qed

lemma drain_item:
  assumes "small b" "contents b = d @ rest"
  shows "\<exists>b'. evbuffer_drain (length d) b = Inr (0, b') \<and> small b' \<and> contents b' = rest"
  using drain_ok [OF assms(1), of "length d"] assms(2) by auto

lemma unmarshal_number_ok:
  assumes c: "small c" "contents c = item_of tag d @ rest" and d: "encodes k d i" "k \<le> maxn"
  shows "\<exists>c'. unmarshal_number (DECODE_INT_INTERNAL maxn) True tag c = Inr (int (length d), Some i, c') \<and> small c' \<and> contents c' = rest"
proof -
  have "length d < 2 ^ 32" using encodes_length [OF d(1)] by simp
  from read_tag_length [OF c this] obtain c1 c2 where
    s: "decode_tag_internal True True c = Inr (int (length (encode_tag_loop tag)), Some tag, c1)" "evtag_decode_int True c1 = Inr (0, Some (of_nat (length d)), c2)"
      "small c2" "contents c2 = d @ rest" "unat (of_nat (length d) :: u32) = length d" by blast
  obtain c3 where c3: "DECODE_INT_INTERNAL maxn True c2 0 = Inr (int (length d), Some i, c3)" "small c3" "contents c3 = d @ rest"
    using decode_buffer [OF s(3), of "[]" d rest k i maxn] s(4) d by auto
  obtain c4 where c4: "evbuffer_drain (length d) c3 = Inr (0, c4)" "small c4" "contents c4 = rest" using drain_item [OF c3(2,3)] by blast
  have "\<not> int (length (encode_tag_loop tag)) = - 1" "\<not> evbuffer_get_length c2 < length d" using small_ok(2) [OF s(3)] s(4) by auto
  then have "unmarshal_number (DECODE_INT_INTERNAL maxn) True tag c = Inr (int (length d), Some i, c4)"
    unfolding unmarshal_number_def s(1) bind_result.simps prod.case by (simp add: s(2,5) c3(1) c4(1))
  with c4(2,3) show ?thesis by blast
qed

lemma unmarshal_ok:
  assumes c: "small c" "contents c = item_of tag d @ rest" and d: "length d < 2 ^ 31" and dst: "evb_ok dst"
  shows "\<exists>c' dst'. evtag_unmarshal True c dst = Inr (int (length d), Some tag, c', dst') \<and> small c' \<and> contents c' = rest \<and>
    evb_ok dst' \<and> contents dst' = contents dst @ d"
proof -
  obtain c1 where c1: "evtag_unmarshal_header True c = Inr (int (length d), Some tag, c1)" "small c1" "contents c1 = d @ rest"
    using header_ok [OF c d] by blast
  have sz: "size_of (int (length d)) = length d" using d by (intro size_of_int) simp
  have "\<exists>m c2. evbuffer_pullup True (int (length d)) c1 = Inr (m, c2) \<and> small c2 \<and> contents c2 = d @ rest \<and>
      (case m of None \<Rightarrow> if int (length d) = 0 then Inr [] else Inl Null_deref
        | Some m \<Rightarrow> if length m < length d then Inl Out_of_bounds else Inr (take (length d) m)) = Inr d"
  proof (cases "length d = 0")
    case True
    have "evbuffer_pullup True (int (length d)) c1 = Inr (None, c1)"
      using evbuffer_pullup_spec(1) [OF _ _ refl, of c1 "int (length d)" True] evb_okD(1) c1(2) True by (auto simp: small_def pullup_size_def)
    then show ?thesis using c1(2,3) True by simp
  next
    case False
    then obtain m c2 where m: "evbuffer_pullup True (int (length d)) c1 = Inr (Some m, c2)" "small c2" "contents c2 = contents c1"
        "take (length d) m = take (length d) (contents c1)"
      using pullup_ok [OF c1(2), of "length d"] c1(3) by auto
    have t: "take (length d) m = d" using m(4) c1(3) by simp
    then have "\<not> length m < length d" by (metis length_take min.strict_order_iff min.commute)
    with t m c1(3) show ?thesis by (intro exI [of _ "Some m"] exI [of _ c2]) simp
  qed
  then obtain m c2 where c2: "evbuffer_pullup True (int (length d)) c1 = Inr (m, c2)" "small c2" "contents c2 = d @ rest"
      "(case m of None \<Rightarrow> if int (length d) = 0 then Inr [] else Inl Null_deref
        | Some m \<Rightarrow> if length m < length d then Inl Out_of_bounds else Inr (take (length d) m)) = Inr d" by blast
  have "length d \<le> 2 ^ 62" using d by simp
  from evbuffer_add_spec [OF evb_okD(1) [OF dst] evb_okD(3) [OF dst] this, of True] obtain e where
    e: "evbuffer_add True d dst = Inr (0, e)" "evb_ok e" "contents e = contents dst @ d" using evb_okI [OF _ _ dst] by auto
  obtain c3 where c3: "evbuffer_drain (length d) c2 = Inr (0, c3)" "small c3" "contents c3 = rest" using drain_item [OF c2(2,3)] by blast
  have "\<not> int (length d) = - 1" "\<not> (0::int) = - 1" by simp_all
  then have "evtag_unmarshal True c dst = Inr (int (length d), Some tag, c3, e)"
    unfolding evtag_unmarshal_def c1(1) bind_result.simps prod.case sz if_not_P c2(1,4) e(1) c3(1) by simp
  with c3 e show ?thesis by blast
qed

lemma unmarshal_fixed_ok:
  assumes c: "small c" "contents c = item_of tag d @ rest" and d: "length d < 2 ^ 31"
  shows "\<exists>c'. evtag_unmarshal_fixed True tag (length d) c = Inr (0, Some d, c') \<and> small c' \<and> contents c' = rest"
proof -
  obtain c1 where c1: "evtag_unmarshal_header True c = Inr (int (length d), Some tag, c1)" "small c1" "contents c1 = d @ rest"
    using header_ok [OF c d] by blast
  from remove_ok [OF c1(2,3)] show ?thesis by (auto simp: evtag_unmarshal_fixed_def c1(1))
qed

lemma unmarshal_string_ok:
  assumes c: "small c" "contents c = item_of tag d @ rest" and d: "length d < 2 ^ 31"
  shows "\<exists>c'. evtag_unmarshal_string True True tag c = Inr (0, Some (d @ [0]), c') \<and> small c' \<and> contents c' = rest"
proof -
  obtain c1 where c1: "evtag_unmarshal_header True c = Inr (int (length d), Some tag, c1)" "small c1" "contents c1 = d @ rest"
    using header_ok [OF c d] by blast
  have sz: "size_of (int (length d)) = length d" "size_of (int (length d) + 1) = length d + 1"
    using d size_of_int [of "length d + 1"] by (simp_all add: size_of_int add.commute)
  from remove_ok [OF c1(2,3)] show ?thesis by (auto simp: evtag_unmarshal_string_def c1(1) sz)
qed

lemma unmarshal_timeval_ok:
  assumes c: "small c" "contents c = item_of tag (d1 @ d2) @ rest" and d: "encodes k1 d1 sec" "k1 \<le> 8" "encodes k2 d2 usec" "k2 \<le> 8"
  shows "\<exists>c'. evtag_unmarshal_timeval True tag c = Inr (0, Some sec, Some usec, c') \<and> small c' \<and> contents c' = rest"
proof -
  have l: "length (d1 @ d2) \<le> 18" using encodes_length [OF d(1)] encodes_length [OF d(3)] by simp
  then have "length (d1 @ d2) < 2 ^ 31" by simp
  from header_ok [OF c this] obtain c1 where c1: "evtag_unmarshal_header True c = Inr (int (length (d1 @ d2)), Some tag, c1)" "small c1" "contents c1 = (d1 @ d2) @ rest"
    by blast
  obtain c2 where c2: "DECODE_INT_INTERNAL 8 True c1 0 = Inr (int (length d1), Some sec, c2)" "small c2" "contents c2 = (d1 @ d2) @ rest"
    using decode_buffer [OF c1(2), of "[]" d1 "d2 @ rest" k1 sec 8] c1(3) d by auto
  obtain c3 where c3: "DECODE_INT_INTERNAL 8 True c2 (length d1) = Inr (int (length d2), Some usec, c3)" "small c3" "contents c3 = (d1 @ d2) @ rest"
    using decode_buffer [OF c2(2), of d1 d2 rest k2 usec 8] c2(3) d by auto
  obtain c4 where c4: "evbuffer_drain (length (d1 @ d2)) c3 = Inr (0, c4)" "small c4" "contents c4 = rest" using drain_item [OF c3(2,3)] by blast
  have sz: "size_of (int (length (d1 @ d2))) = length (d1 @ d2)" using l by (intro size_of_int) simp
  have nz: "\<not> int (length (d1 @ d2)) = - 1" "\<not> int (length d1) = - 1" "\<not> int (length d2) = - 1" "\<not> int (length d1) + int (length d2) > int (length (d1 @ d2))"
    by simp_all
  have "evtag_unmarshal_timeval True tag c = Inr (0, Some sec, Some usec, c4)"
    unfolding evtag_unmarshal_timeval_def c1(1) bind_result.simps prod.case if_not_P [OF nz(1)] decode_int_internal_def sz
    by (simp only: c2(1) bind_result.simps prod.case nz nat_int c3(1) c4(1) simp_thms if_False)
  with c4 show ?thesis by blast
qed

section \<open>Streams of tagged items\<close>

text \<open>
  The items a client can write, each under a tag, and how it writes and reads one of them: the
  reader names the tag and the kind it expects.
\<close>

datatype item = Item_int u32 | Item_int64 u64 | Item_bytes "byte list" | Item_fixed "byte list" | Item_string "byte list" | Item_timeval int int

fun item_wf :: "item \<Rightarrow> bool" where
  "item_wf (Item_bytes d) \<longleftrightarrow> length d < 2 ^ 31"
| "item_wf (Item_fixed d) \<longleftrightarrow> length d < 2 ^ 31"
| "item_wf (Item_string d) \<longleftrightarrow> length d < 2 ^ 31 \<and> 0 \<notin> set d"
| "item_wf (Item_timeval sec usec) \<longleftrightarrow> 0 \<le> sec \<and> sec < 2 ^ 32 \<and> 0 \<le> usec \<and> usec < 2 ^ 32"
| "item_wf _ \<longleftrightarrow> True"

fun marshal_item :: "u32 \<Rightarrow> item \<Rightarrow> evbuffer \<Rightarrow> evbuffer ev_result" where
  "marshal_item tag (Item_int i) b = evtag_marshal_int True tag i b"
| "marshal_item tag (Item_int64 i) b = evtag_marshal_int64 True tag i b"
| "marshal_item tag (Item_bytes d) b = evtag_marshal True tag d b"
| "marshal_item tag (Item_fixed d) b = evtag_marshal True tag d b"
| "marshal_item tag (Item_string d) b = evtag_marshal_string True tag (d @ [0]) b"
| "marshal_item tag (Item_timeval sec usec) b = evtag_marshal_timeval True tag sec usec b"

text \<open>Reading: whether the functions of the library deliver exactly this item; then the rest of the buffer.\<close>

fun unmarshal_item :: "u32 \<Rightarrow> item \<Rightarrow> evbuffer \<Rightarrow> (bool \<times> evbuffer) ev_result" where
  "unmarshal_item tag (Item_int i) b = bind_result (evtag_unmarshal_int True tag b) (\<lambda>(r, n, b). Inr (0 < r \<and> n = Some i, b))"
| "unmarshal_item tag (Item_int64 i) b = bind_result (evtag_unmarshal_int64 True tag b) (\<lambda>(r, n, b). Inr (0 < r \<and> n = Some i, b))"
| "unmarshal_item tag (Item_bytes d) b = bind_result (evtag_unmarshal True b evbuffer_new) (\<lambda>(r, t, b, dst).
     Inr (r = int (length d) \<and> t = Some tag \<and> contents dst = d, b))"
| "unmarshal_item tag (Item_fixed d) b = bind_result (evtag_unmarshal_fixed True tag (length d) b) (\<lambda>(r, x, b). Inr (r = 0 \<and> x = Some d, b))"
| "unmarshal_item tag (Item_string d) b = bind_result (evtag_unmarshal_string True True tag b) (\<lambda>(r, x, b). Inr (r = 0 \<and> x = Some (d @ [0]), b))"
| "unmarshal_item tag (Item_timeval sec usec) b = bind_result (evtag_unmarshal_timeval True tag b) (\<lambda>(r, s, u, b).
     Inr (r = 0 \<and> map_option uint s = Some sec \<and> map_option uint u = Some usec, b))"

fun marshal_all :: "(u32 \<times> item) list \<Rightarrow> evbuffer \<Rightarrow> evbuffer ev_result" where
  "marshal_all [] b = Inr b"
| "marshal_all ((tag, i) # is) b = bind_result (marshal_item tag i b) (\<lambda>b. marshal_all is b)"

fun unmarshal_all :: "(u32 \<times> item) list \<Rightarrow> evbuffer \<Rightarrow> (bool list \<times> evbuffer) ev_result" where
  "unmarshal_all [] b = Inr ([], b)"
| "unmarshal_all ((tag, i) # is) b = bind_result (unmarshal_item tag i b) (\<lambda>(ok, b). bind_result (unmarshal_all is b) (\<lambda>(oks, b). Inr (ok # oks, b)))"

text \<open>The payload of an item.\<close>

fun payload :: "item \<Rightarrow> byte list" where
  "payload (Item_int i) = projr (encode_int_internal i)"
| "payload (Item_int64 i) = projr (encode_int64_internal i)"
| "payload (Item_bytes d) = d"
| "payload (Item_fixed d) = d"
| "payload (Item_string d) = d"
| "payload (Item_timeval sec usec) = projr (encode_int_internal (word_of_int sec)) @ projr (encode_int_internal (word_of_int usec))"

lemma takeWhile_string: "0 \<notin> set d \<Longrightarrow> takeWhile (\<lambda>c. c \<noteq> 0) (d @ [0]) = (d :: byte list)"
  by (induction d) auto

lemma marshal_item_eq:
  assumes "item_wf i"
  shows "marshal_item tag i b = evtag_marshal True tag (payload i) b" "length (payload i) < 2 ^ 31"
proof -
  have le: "n \<le> 18 \<Longrightarrow> n < 2 ^ 31" for n :: nat by simp
  have "marshal_item tag i b = evtag_marshal True tag (payload i) b \<and> length (payload i) < 2 ^ 31"
  proof (cases i)
    case (Item_int n)
    from encode_int_ok [of n] obtain d k where "encode_int_internal n = Inr d" "encodes k d n" by blast
    then show ?thesis using encodes_length [of k d n] Item_int by (simp add: marshal_int_eq)
  next
    case (Item_int64 n)
    from encode_int64_ok [of n] obtain d k where "encode_int64_internal n = Inr d" "encodes k d n" by blast
    then show ?thesis using encodes_length [of k d n] Item_int64 by (simp add: marshal_int_eq)
  next
    case (Item_timeval sec usec)
    from encode_int_ok [of "word_of_int sec"] obtain d1 k1 where d1: "encode_int_internal (word_of_int sec) = Inr d1" "encodes k1 d1 (word_of_int sec :: u32)" by blast
    from encode_int_ok [of "word_of_int usec"] obtain d2 k2 where d2: "encode_int_internal (word_of_int usec) = Inr d2" "encodes k2 d2 (word_of_int usec :: u32)" by blast
    have "length (d1 @ d2) \<le> 18" using encodes_length [OF d1(2)] encodes_length [OF d2(2)] by simp
    from le [OF this] show ?thesis using Item_timeval d1(1) d2(1) by (simp add: evtag_marshal_timeval_def)
  next
    case (Item_string d)
    then show ?thesis using assms by (simp add: evtag_marshal_string_def takeWhile_string)
  qed (use assms in simp_all)
  then show "marshal_item tag i b = evtag_marshal True tag (payload i) b" "length (payload i) < 2 ^ 31" by simp_all
qed

lemma unmarshal_item_ok:
  assumes c: "small c" "contents c = item_of tag (payload i) @ rest" and i: "item_wf i"
  shows "\<exists>c'. unmarshal_item tag i c = Inr (True, c') \<and> small c' \<and> contents c' = rest"
proof (cases i)
  case (Item_int n)
  from encode_int_ok [of n] obtain d k where d: "encode_int_internal n = Inr d" "encodes k d n" "k \<le> 8" by blast
  then have "contents c = item_of tag d @ rest" using c(2) Item_int by simp
  from unmarshal_number_ok [OF c(1) this d(2,3)] show ?thesis
    using encodes_length [OF d(2)] Item_int by (auto simp: evtag_unmarshal_int_def decode_int_internal_def [abs_def])
next
  case (Item_int64 n)
  from encode_int64_ok [of n] obtain d k where d: "encode_int64_internal n = Inr d" "encodes k d n" "k \<le> 16" by blast
  then have "contents c = item_of tag d @ rest" using c(2) Item_int64 by simp
  from unmarshal_number_ok [OF c(1) this d(2,3)] show ?thesis
    using encodes_length [OF d(2)] Item_int64 by (auto simp: evtag_unmarshal_int64_def decode_int64_internal_def [abs_def])
next
  case (Item_bytes d)
  then have "contents c = item_of tag d @ rest" "length d < 2 ^ 31" using c(2) i by simp_all
  from unmarshal_ok [OF c(1) this evb_ok_new(1)] show ?thesis using Item_bytes evb_ok_new(2) by auto
next
  case (Item_fixed d)
  then have "contents c = item_of tag d @ rest" "length d < 2 ^ 31" using c(2) i by simp_all
  from unmarshal_fixed_ok [OF c(1) this] show ?thesis using Item_fixed by auto
next
  case (Item_string d)
  then have "contents c = item_of tag d @ rest" "length d < 2 ^ 31" using c(2) i by simp_all
  from unmarshal_string_ok [OF c(1) this] show ?thesis using Item_string by auto
next
  case (Item_timeval sec usec)
  from encode_int_ok [of "word_of_int sec"] obtain d1 k1 where d1: "encode_int_internal (word_of_int sec) = Inr d1" "encodes k1 d1 (word_of_int sec :: u32)" "k1 \<le> 8" by blast
  from encode_int_ok [of "word_of_int usec"] obtain d2 k2 where d2: "encode_int_internal (word_of_int usec) = Inr d2" "encodes k2 d2 (word_of_int usec :: u32)" "k2 \<le> 8" by blast
  have "contents c = item_of tag (d1 @ d2) @ rest" using c(2) Item_timeval d1(1) d2(1) by simp
  moreover have "uint (word_of_int sec :: u32) = sec" "uint (word_of_int usec :: u32) = usec" using i Item_timeval by (simp_all add: uint_word_of_int)
  ultimately show ?thesis
    using unmarshal_timeval_ok [OF c(1) _ d1(2,3) d2(2,3), of tag rest] Item_timeval by auto
qed

lemma marshal_all_ok:
  assumes "evb_ok b" "\<forall>(tag, i) \<in> set is. item_wf i"
  shows "\<exists>b'. marshal_all is b = Inr b' \<and> evb_ok b' \<and> contents b' = contents b @ concat (map (\<lambda>(tag, i). item_of tag (payload i)) is)"
  using assms
proof (induction "is" arbitrary: b)
  case (Cons x "is")
  obtain tag i where x: "x = (tag, i)" by force
  have wf: "item_wf i" using Cons.prems(2) x by simp
  have "length (payload i) \<le> 2 ^ 62" using marshal_item_eq(2) [OF wf] by simp
  from marshal_ok [OF Cons.prems(1) this] obtain b1 where
    b1: "marshal_item tag i b = Inr b1" "evb_ok b1" "contents b1 = contents b @ item_of tag (payload i)" unfolding marshal_item_eq(1) [OF wf] by blast
  from Cons.IH [OF b1(2)] Cons.prems(2) show ?case using b1 x by auto
qed simp

lemma unmarshal_all_ok:
  assumes "small c" "contents c = concat (map (\<lambda>(tag, i). item_of tag (payload i)) is) @ rest" "\<forall>(tag, i) \<in> set is. item_wf i"
  shows "\<exists>c'. unmarshal_all is c = Inr (replicate (length is) True, c') \<and> small c' \<and> contents c' = rest"
  using assms
proof (induction "is" arbitrary: c)
  case (Cons x "is")
  obtain tag i where x: "x = (tag, i)" by force
  obtain c1 where c1: "unmarshal_item tag i c = Inr (True, c1)" "small c1" "contents c1 = concat (map (\<lambda>(tag, i). item_of tag (payload i)) is) @ rest"
    using unmarshal_item_ok [OF Cons.prems(1), of tag i "concat (map (\<lambda>(tag, i). item_of tag (payload i)) is) @ rest"] Cons.prems(2,3) x by auto
  from Cons.IH [OF c1(2,3)] Cons.prems(3) show ?case using c1(1) x by auto
qed simp

text \<open>The room an item takes at most.\<close>

fun item_room :: "item \<Rightarrow> nat" where
  "item_room (Item_bytes d) = 14 + length d"
| "item_room (Item_fixed d) = 14 + length d"
| "item_room (Item_string d) = 14 + length d"
| "item_room (Item_timeval sec usec) = 32"
| "item_room _ = 23"

lemma length_projr: "length (projr (encode_int_internal n)) \<le> 9" "length (projr (encode_int64_internal m)) \<le> 9"
  using encode_int_ok [of n] encode_int64_ok [of m] encodes_length by fastforce+

lemma item_room_ok: "length (item_of tag (payload i)) \<le> item_room i"
proof -
  have "length (encode_tag_loop tag) \<le> 5" by (rule encode_tag_length)
  moreover have "length (projr (encode_int_internal (of_nat (length (payload i))))) \<le> 9" by (rule length_projr)
  moreover have "14 + length (payload i) \<le> item_room i"
  proof (cases i)
    case (Item_timeval sec usec)
    show ?thesis using length_projr(1) [of "word_of_int sec"] length_projr(1) [of "word_of_int usec"] by (simp add: Item_timeval)
  qed (simp_all add: length_projr)
  ultimately show ?thesis by (simp add: item_of_def)
qed

lemma stream_room: "length (concat (map (\<lambda>(tag, i). item_of tag (payload i)) is)) \<le> (\<Sum>(tag, i)\<leftarrow>is. item_room i)"
proof (induction "is")
  case (Cons x "is")
  then show ?case using item_room_ok [of "fst x" "snd x"] by (simp add: case_prod_beta)
qed simp

text \<open>
  C37. What is marshalled is unmarshalled: the functions of \<open>event_tagging.c\<close> append the bytes of any
  sequence of tagged integers, byte strings, C strings and times to a buffer, and from every buffer
  in which these bytes stand in front, in whatever chains, the matching functions deliver the same
  items in order, with return codes of success, and leave exactly the bytes behind them.
\<close>

theorem evtag_stream_roundtrip:
  assumes "evb_ok b" "\<forall>(tag, i) \<in> set is. item_wf i"
  shows "\<exists>b1 stream. marshal_all is b = Inr b1 \<and> evb_ok b1 \<and> contents b1 = contents b @ stream \<and> length stream \<le> (\<Sum>(tag, i)\<leftarrow>is. item_room i) \<and>
     (\<forall>c rest. small c \<and> contents c = stream @ rest \<longrightarrow>
        (\<exists>c'. unmarshal_all is c = Inr (replicate (length is) True, c') \<and> contents c' = rest))"
proof -
  let ?s = "concat (map (\<lambda>(tag, i). item_of tag (payload i)) is)"
  obtain b1 where "marshal_all is b = Inr b1" "evb_ok b1" "contents b1 = contents b @ ?s" using marshal_all_ok [OF assms] by blast
  then show ?thesis using stream_room unmarshal_all_ok [OF _ _ assms(2)] by (intro exI [of _ b1] exI [of _ ?s]) blast
qed

theorem evtag_stream_roundtrip_witness:
  "\<exists>b1 c'. marshal_all [(1, Item_int 0), (0xffffffff, Item_int64 0x123456789), (300, Item_string [104, 105]), (2, Item_timeval 1700000000 999999), (3, Item_bytes [])] evbuffer_new
       = Inr b1 \<and>
     unmarshal_all [(1, Item_int 0), (0xffffffff, Item_int64 0x123456789), (300, Item_string [104, 105]), (2, Item_timeval 1700000000 999999), (3, Item_bytes [])] b1
       = Inr ([True, True, True, True, True], c') \<and> contents c' = []"
proof -
  let ?is = "[(1, Item_int 0), (0xffffffff, Item_int64 0x123456789), (300, Item_string [104, 105]), (2, Item_timeval 1700000000 999999), (3, Item_bytes [])] :: (u32 \<times> item) list"
  have wf: "\<forall>(tag, i) \<in> set ?is. item_wf i" by simp
  obtain b1 stream where s: "marshal_all ?is evbuffer_new = Inr b1" "evb_ok b1" "contents b1 = contents evbuffer_new @ stream"
      "length stream \<le> (\<Sum>(tag, i)\<leftarrow>?is. item_room i)"
      "\<forall>c rest. small c \<and> contents c = stream @ rest \<longrightarrow> (\<exists>c'. unmarshal_all ?is c = Inr (replicate (length ?is) True, c') \<and> contents c' = rest)"
    using evtag_stream_roundtrip [OF evb_ok_new(1) wf] by blast
  have c: "contents b1 = stream @ []" using s(3) evb_ok_new(2) by simp
  moreover have "length stream \<le> 108" using s(4) by simp
  then have "small b1" using s(2) c by (simp add: small_def)
  ultimately obtain c' where "unmarshal_all ?is b1 = Inr (replicate (length ?is) True, c')" "contents c' = []" using s(5) by blast
  moreover have "replicate (length ?is) True = [True, True, True, True, True]" by simp
  ultimately show ?thesis using s(1) by (simp del: marshal_all.simps unmarshal_all.simps)
qed

section \<open>Tags without an end\<close>

lemma decode_tag_loop_overrun:
  assumes "count \<le> 5" "\<forall>i. i < 5 \<longrightarrow> i < length m \<longrightarrow> m ! i AND 0x80 \<noteq> 0" "5 < len"
  shows "decode_tag_loop m len count number \<in> {Inl Out_of_bounds, Inl Undefined_shift}"
  using assms
proof (induction "5 - count" arbitrary: count number)
  case 0
  then show ?case by (subst decode_tag_loop.simps) simp
next
  case (Suc d)
  show ?case
  proof (cases "length m \<le> count")
    case True
    then show ?thesis using Suc.prems Suc.hyps(2) by (subst decode_tag_loop.simps) simp
  next
    case False
    have c: "\<not> len \<le> count" "\<not> 32 \<le> 7 * count" "\<not> m ! count AND 0x80 = 0" using Suc.prems Suc.hyps(2) False by auto
    have "d = 5 - (count + 1)" "count + 1 \<le> 5" using Suc.hyps(2) by linarith+
    from Suc.hyps(1) [OF this Suc.prems(2,3)] show ?thesis
      by (subst decode_tag_loop.simps) (simp only: Let_def if_not_P [OF c(1)] if_not_P [OF False] if_not_P [OF c(2)] if_not_P [OF c(3)])
  qed
qed

text \<open>
  The loop of \<open>decode_tag_internal\<close> runs to the length of the buffer although only five bytes were
  pulled up: a buffer of more than five bytes whose first five bytes have the high bit set makes it
  read past the memory it may read or shift a byte by more than the width of the number. So a peer
  can bring every function that reads a tag into undefined behaviour with six bytes.
\<close>

theorem evtag_unterminated_tag:
  assumes b: "small b" and len: "5 < length (contents b)" and hi: "\<forall>i<5. contents b ! i AND 0x80 \<noteq> 0"
  shows "decode_tag_internal True dodrain b \<in> {Inl Out_of_bounds, Inl Undefined_shift}"
proof -
  have l: "evbuffer_get_length b = length (contents b)" using b by (rule small_ok)
  have n: "(if length (contents b) < 5 then length (contents b) else 5) = 5" "length (contents b) \<noteq> 0" using len by auto
  obtain m b' where p: "evbuffer_pullup True (int 5) b = Inr (Some m, b')" "take 5 m = take 5 (contents b)"
    using pullup_ok [OF b, of 5] len by auto
  have "m ! i AND 0x80 \<noteq> 0" if "i < 5" for i
    using hi that by (metis p(2) nth_take)
  from decode_tag_loop_overrun [of 0 m "length (contents b)" 0] this len have "decode_tag_loop m (length (contents b)) 0 0 \<in> {Inl Out_of_bounds, Inl Undefined_shift}" by simp
  then show ?thesis unfolding decode_tag_internal_def Let_def l n(1) p(1) bind_result.simps prod.case if_not_P [OF n(2)] option.case by auto
qed

theorem evtag_unterminated_tag_witness:
  "\<exists>b. evbuffer_add True [0xff, 0xff, 0xff, 0xff, 0xff, 1] evbuffer_new = Inr (0, b) \<and>
     decode_tag_internal True True b \<in> {Inl Out_of_bounds, Inl Undefined_shift}"
proof -
  let ?d = "[0xff, 0xff, 0xff, 0xff, 0xff, 1] :: byte list"
  from evbuffer_add_spec [OF evb_okD(1) [OF evb_ok_new(1)] evb_okD(3) [OF evb_ok_new(1)], of ?d True] obtain b where
    b: "evbuffer_add True ?d evbuffer_new = Inr (0, b)" "evb_ok b" "contents b = ?d" using evb_okI [OF _ _ evb_ok_new(1)] evb_ok_new(2) by auto
  moreover have "\<forall>i<5. ?d ! i AND 0x80 \<noteq> 0"
  proof (intro allI impI)
    fix i :: nat assume "i < 5"
    then have "i \<in> {0, 1, 2, 3, 4}" by auto
    then show "?d ! i AND 0x80 \<noteq> 0" by auto
  qed
  ultimately show ?thesis using evtag_unterminated_tag [of b True] by (auto simp: small_def)
qed

end
