(* ===== verification/Block_Crypto.thy ===== *)
theory Block_Crypto
  imports String_Utility
begin

text \<open>
  \<open>DesCrypto\<close> and \<open>AesCrypto\<close> (\<open>source/crypto_alg/des_crypto.cpp\<close>, \<open>aes_crypto.cpp\<close>): padding, the ECB
  and CBC modes over single and triple DES and AES, the message authentication codes and the
  conversion of PIN blocks from one key and format to another. The ciphers are OpenSSL's: they are
  the fields of the record \<open>openssl\<close>, and what its manual pages say of them is the predicate
  \<open>openssl_ok\<close>. Data are shorter than $2^{32}$ bytes, so that the counters of the loops
  (\<open>unsigned int\<close>) do not wrap.
\<close>

section \<open>OpenSSL\<close>

text \<open>
  The first argument is the direction (\<open>True\<close> for encryption). A key schedule is the function of the
  key it was set from. The functions for CBC give the bytes they write; \<open>AES_set_key\<close> is the return
  code of \<open>AES_set_encrypt_key\<close> or \<open>AES_set_decrypt_key\<close>.
\<close>

record openssl =
  DES_ecb_encrypt :: "bool \<Rightarrow> cstr \<Rightarrow> cstr \<Rightarrow> cstr"
  DES_ecb3_encrypt :: "bool \<Rightarrow> cstr \<Rightarrow> cstr \<Rightarrow> cstr \<Rightarrow> cstr \<Rightarrow> cstr"
  DES_ncbc_encrypt :: "bool \<Rightarrow> cstr \<Rightarrow> cstr \<Rightarrow> cstr \<Rightarrow> cstr"
  DES_ede3_cbc_encrypt :: "bool \<Rightarrow> cstr \<Rightarrow> cstr \<Rightarrow> cstr \<Rightarrow> cstr \<Rightarrow> cstr \<Rightarrow> cstr"
  AES_set_key :: "bool \<Rightarrow> cstr \<Rightarrow> int"
  AES_ecb_encrypt :: "bool \<Rightarrow> cstr \<Rightarrow> cstr \<Rightarrow> cstr"
  AES_cbc_encrypt :: "bool \<Rightarrow> cstr \<Rightarrow> cstr \<Rightarrow> cstr \<Rightarrow> cstr"

section \<open>Modes and padding\<close>

definition CM_ECB :: int where "CM_ECB = 0"
definition CM_CBC :: int where "CM_CBC = 1"
definition PT_NOPADDING :: int where "PT_NOPADDING = 0"
definition PT_PKCS5 :: int where "PT_PKCS5 = 5"
definition PT_PKCS7 :: int where "PT_PKCS7 = 7"
definition PT_80 :: int where "PT_80 = 8"
definition MM_X99 :: int where "MM_X99 = 1"
definition MM_X919 :: int where "MM_X919 = 2"
definition MM_XOR :: int where "MM_XOR = 3"
definition MM_CUP :: int where "MM_CUP = 4"
definition MM_PBOC :: int where "MM_PBOC = 5"
definition PF_WITH_ACCNO :: int where "PF_WITH_ACCNO = 1"
definition PF_WITHOUT_ACCNO :: int where "PF_WITHOUT_ACCNO = 6"

lemmas crypto_consts = CM_ECB_def CM_CBC_def PT_NOPADDING_def PT_PKCS5_def PT_PKCS7_def PT_80_def
  MM_X99_def MM_X919_def MM_XOR_def MM_CUP_def MM_PBOC_def PF_WITH_ACCNO_def PF_WITHOUT_ACCNO_def

definition pt_80 :: "nat \<Rightarrow> cstr" where
  "pt_80 blk = 0x80 # replicate (blk - 1) 0"

text \<open>The bytes both \<open>Encrypt\<close> functions append, for blocks of \<open>blk\<close> bytes.\<close>

definition crypto_padding :: "nat \<Rightarrow> int \<Rightarrow> nat \<Rightarrow> cstr" where
  "crypto_padding blk padding_type len =
     (let remained = len mod blk in
      if remained > 0
      then if padding_type = PT_PKCS5 then replicate (blk - remained) (of_nat (blk - remained))
           else if padding_type = PT_PKCS7 then replicate (blk - remained) 0
           else if padding_type = PT_80 then take (blk - remained) (pt_80 blk)
           else []
      else if padding_type = PT_PKCS5 then replicate (blk - remained) (of_nat (blk - remained))
      else [])"

text \<open>\<open>memcpy\<close> from \<open>c_str()\<close>: the closing zero byte is the last byte that may be read.\<close>

definition read_c :: "cstr \<Rightarrow> nat \<Rightarrow> nat \<Rightarrow> cstr result" where
  "read_c s off n = (if length s + 1 < off + n then Inl Undefined_behaviour else Inr (take n (drop off (s @ [0]))))"

text \<open>The blocks of the source, each through the cipher; an incomplete last block is left out.\<close>

definition ecb_blocks :: "nat \<Rightarrow> (cstr \<Rightarrow> cstr) \<Rightarrow> cstr \<Rightarrow> cstr" where
  "ecb_blocks blk f src = concat (map (\<lambda>i. f (take blk (drop (i * blk) src))) [0..<length src div blk])"

definition block_ivec :: "nat \<Rightarrow> cstr \<Rightarrow> cstr" where
  "block_ivec blk ivec = (if length ivec < blk then ivec @ replicate (blk - length ivec) 0 else take blk ivec)"

text \<open>
  The result of a CBC call: the destination has the size of the source, so that more bytes are
  written past its end, and bytes that are not written have no value.
\<close>

definition cbc_dest :: "cstr \<Rightarrow> cstr \<Rightarrow> cstr result" where
  "cbc_dest src written = (if length written = length src then Inr written else Inl Undefined_behaviour)"

section \<open>DES\<close>

definition crypt_ecb_1 :: "openssl \<Rightarrow> bool \<Rightarrow> cstr \<Rightarrow> cstr \<Rightarrow> cstr result" where
  "crypt_ecb_1 ssl enc key src =
     bind_result (read_c key 0 8) (\<lambda>ks. Inr (ecb_blocks 8 (DES_ecb_encrypt ssl enc ks) src))"

definition des3_keys :: "cstr \<Rightarrow> (cstr \<times> cstr \<times> cstr) result" where
  "des3_keys key =
     bind_result (read_c key 0 8) (\<lambda>ks1.
     bind_result (read_c key 8 8) (\<lambda>ks2.
     bind_result (if length key = 24 then read_c key 16 8 else read_c key 0 8) (\<lambda>ks3. Inr (ks1, ks2, ks3))))"

definition crypt_ecb_3 :: "openssl \<Rightarrow> bool \<Rightarrow> cstr \<Rightarrow> cstr \<Rightarrow> cstr result" where
  "crypt_ecb_3 ssl enc key src =
     bind_result (des3_keys key) (\<lambda>(ks1, ks2, ks3). Inr (ecb_blocks 8 (DES_ecb3_encrypt ssl enc ks1 ks2 ks3) src))"

definition crypt_cbc_1 :: "openssl \<Rightarrow> bool \<Rightarrow> cstr \<Rightarrow> cstr \<Rightarrow> cstr \<Rightarrow> cstr result" where
  "crypt_cbc_1 ssl enc key src ivec =
     bind_result (read_c key 0 8) (\<lambda>ks. cbc_dest src (DES_ncbc_encrypt ssl enc ks src (block_ivec 8 ivec)))"

definition crypt_cbc_3 :: "openssl \<Rightarrow> bool \<Rightarrow> cstr \<Rightarrow> cstr \<Rightarrow> cstr \<Rightarrow> cstr result" where
  "crypt_cbc_3 ssl enc key src ivec =
     bind_result (des3_keys key) (\<lambda>(ks1, ks2, ks3). cbc_dest src (DES_ede3_cbc_encrypt ssl enc ks1 ks2 ks3 src (block_ivec 8 ivec)))"

text \<open>The return code and \<open>dest\<close>, which keeps its old value when the key has a wrong size.\<close>

definition des_Encrypt :: "openssl \<Rightarrow> int \<Rightarrow> int \<Rightarrow> cstr \<Rightarrow> cstr \<Rightarrow> cstr \<Rightarrow> cstr \<Rightarrow> (int \<times> cstr) result" where
  "des_Encrypt ssl crypto_mode padding_type key src ivec dest =
     (let src_padding = src @ crypto_padding 8 padding_type (length src) in
      if length key = 8
      then bind_result (if crypto_mode = CM_ECB then crypt_ecb_1 ssl True key src_padding else crypt_cbc_1 ssl True key src_padding ivec) (\<lambda>d. Inr (0, d))
      else if length key = 16 \<or> length key = 24
      then bind_result (if crypto_mode = CM_ECB then crypt_ecb_3 ssl True key src_padding else crypt_cbc_3 ssl True key src_padding ivec) (\<lambda>d. Inr (0, d))
      else Inr (- 1, dest))"

definition des_Decrypt :: "openssl \<Rightarrow> int \<Rightarrow> cstr \<Rightarrow> cstr \<Rightarrow> cstr \<Rightarrow> cstr \<Rightarrow> (int \<times> cstr) result" where
  "des_Decrypt ssl crypto_mode key src ivec dest =
     (if length key = 8
      then bind_result (if crypto_mode = CM_ECB then crypt_ecb_1 ssl False key src else crypt_cbc_1 ssl False key src ivec) (\<lambda>d. Inr (0, d))
      else if length key = 16 \<or> length key = 24
      then bind_result (if crypto_mode = CM_ECB then crypt_ecb_3 ssl False key src else crypt_cbc_3 ssl False key src ivec) (\<lambda>d. Inr (0, d))
      else Inr (- 1, dest))"

section \<open>Message authentication codes\<close>

text \<open>The choice between single and triple DES by the size of the key.\<close>

definition crypt_ecb :: "openssl \<Rightarrow> bool \<Rightarrow> cstr \<Rightarrow> cstr \<Rightarrow> cstr result" where
  "crypt_ecb ssl enc key src = (if length key = 8 then crypt_ecb_1 ssl enc key src else crypt_ecb_3 ssl enc key src)"

text \<open>The loop of \<open>calc_mac_xor\<close> and \<open>calc_mac_cup\<close>: the blocks from \<open>offset\<close> on are xored into \<open>out\<close>.\<close>

function xor_loop :: "cstr \<Rightarrow> nat \<Rightarrow> cstr \<Rightarrow> cstr result" where
  "xor_loop mac_data offset out =
     (if offset < length mac_data
      then bind_result (substr mac_data offset 8) (\<lambda>mab. xor_loop mac_data (offset + 8) (Xor mab out))
      else Inr out)"
  by pat_completeness auto
termination
  by (relation "measure (\<lambda>(mac_data, offset, out). length mac_data - offset)") auto

text \<open>The loop of \<open>calc_mac_x99\<close> and \<open>calc_mac_x919\<close>, with the encryption it uses.\<close>

function chain_loop :: "(cstr \<Rightarrow> cstr result) \<Rightarrow> cstr \<Rightarrow> nat \<Rightarrow> cstr \<Rightarrow> cstr result" where
  "chain_loop crypt mac_data offset out =
     (if offset < length mac_data
      then bind_result (substr mac_data offset 8) (\<lambda>mab.
           bind_result (crypt (Xor out mab)) (\<lambda>out. chain_loop crypt mac_data (offset + 8) out))
      else Inr out)"
  by pat_completeness auto
termination
  by (relation "measure (\<lambda>(crypt, mac_data, offset, out). length mac_data - offset)") auto

declare xor_loop.simps [simp del] chain_loop.simps [simp del]

definition calc_mac_xor :: "openssl \<Rightarrow> cstr \<Rightarrow> cstr \<Rightarrow> cstr \<Rightarrow> cstr result" where
  "calc_mac_xor ssl key mac_data ivec =
     bind_result (substr mac_data 0 8) (\<lambda>mab.
     bind_result (xor_loop mac_data 8 (Xor ivec mab)) (\<lambda>out. crypt_ecb ssl True key out))"

definition calc_mac_x99 :: "openssl \<Rightarrow> cstr \<Rightarrow> cstr \<Rightarrow> cstr \<Rightarrow> cstr result" where
  "calc_mac_x99 ssl key mac_data ivec =
     bind_result (substr mac_data 0 8) (\<lambda>mab.
     bind_result (crypt_ecb ssl True key (Xor ivec mab)) (\<lambda>out. chain_loop (crypt_ecb ssl True key) mac_data 8 out))"

definition calc_mac_x919 :: "openssl \<Rightarrow> cstr \<Rightarrow> cstr \<Rightarrow> cstr \<Rightarrow> cstr result" where
  "calc_mac_x919 ssl key mac_data ivec =
     bind_result (if length key > 8 then substr key 0 8 else Inr key) (\<lambda>left_key.
     bind_result (if length key > 8 then substr key 8 8 else Inr key) (\<lambda>right_key.
     bind_result (substr mac_data 0 8) (\<lambda>mab.
     bind_result (crypt_ecb_1 ssl True left_key (Xor ivec mab)) (\<lambda>enc_out.
     bind_result (chain_loop (crypt_ecb_1 ssl True left_key) mac_data 8 enc_out) (\<lambda>enc_out.
     bind_result (crypt_ecb_1 ssl False right_key enc_out) (\<lambda>dec_out. crypt_ecb_1 ssl True left_key dec_out))))))"

definition calc_mac_cup :: "openssl \<Rightarrow> cstr \<Rightarrow> cstr \<Rightarrow> cstr \<Rightarrow> cstr result" where
  "calc_mac_cup ssl key mac_data ivec =
     bind_result (substr mac_data 0 8) (\<lambda>mab.
     bind_result (xor_loop mac_data 8 (Xor ivec mab)) (\<lambda>out_bcd.
       let out_asc = bcd2asc out_bcd in
       bind_result (substr out_asc 0 8) (\<lambda>left.
       bind_result (crypt_ecb ssl True key left) (\<lambda>out_bcd.
       bind_result (substr out_asc 8 8) (\<lambda>right. crypt_ecb ssl True key (Xor right out_bcd))))))"

definition zero_fill :: "cstr \<Rightarrow> cstr" where
  "zero_fill mac_data = (if length mac_data mod 8 > 0 then mac_data @ replicate (8 - length mac_data mod 8) 0 else mac_data)"

definition CalcMAC :: "openssl \<Rightarrow> int \<Rightarrow> cstr \<Rightarrow> cstr \<Rightarrow> cstr \<Rightarrow> cstr \<Rightarrow> (int \<times> cstr) result" where
  "CalcMAC ssl mac_mode key mac_data ivec mac_value =
     (if length key \<noteq> 8 \<and> length key \<noteq> 16 \<and> length key \<noteq> 24 then Inr (- 1, mac_value)
      else if mac_mode = MM_X99 then bind_result (calc_mac_x99 ssl key (zero_fill mac_data) ivec) (\<lambda>m. Inr (0, m))
      else if mac_mode = MM_X919 then bind_result (calc_mac_x919 ssl key (zero_fill mac_data) ivec) (\<lambda>m. Inr (0, m))
      else if mac_mode = MM_XOR then bind_result (calc_mac_xor ssl key (zero_fill mac_data) ivec) (\<lambda>m. Inr (0, m))
      else if mac_mode = MM_CUP then bind_result (calc_mac_cup ssl key (zero_fill mac_data) ivec) (\<lambda>m. Inr (0, m))
      else if mac_mode = MM_PBOC
      then bind_result (substr (pt_80 8) 0 (8 - length mac_data mod 8)) (\<lambda>p.
           bind_result (calc_mac_x919 ssl key (mac_data @ p) ivec) (\<lambda>m. Inr (0, m)))
      else Inr (- 2, mac_value))"

section \<open>PIN blocks\<close>

text \<open>The twelve digits of the account number before its check digit, behind zeros.\<close>

definition pan_block :: "cstr \<Rightarrow> cstr result" where
  "pan_block acc_no =
     bind_result (if length acc_no > 12 then substr acc_no (length acc_no - 13) 12
                  else if acc_no = [] then substr acc_no 0 (2 ^ 64 - 1) else substr acc_no 0 (length acc_no - 1))
       (\<lambda>pan. Inr (asc2bcd_l (replicate (16 - length pan) 48 @ pan)))"

definition ConvertPin :: "openssl \<Rightarrow> int \<Rightarrow> int \<Rightarrow> cstr \<Rightarrow> cstr \<Rightarrow> cstr \<Rightarrow> cstr \<Rightarrow> cstr \<Rightarrow> (int \<times> cstr) result" where
  "ConvertPin ssl left_pin_format right_pin_format acc_no left_pin_cipher left_pik right_pik right_pin_cipher =
     (if length left_pik \<noteq> 8 \<and> length left_pik \<noteq> 16 \<and> length left_pik \<noteq> 24 then Inr (- 1, right_pin_cipher)
      else if length right_pik \<noteq> 8 \<and> length right_pik \<noteq> 16 \<and> length right_pik \<noteq> 24 then Inr (- 1, right_pin_cipher)
      else bind_result (crypt_ecb ssl False left_pik left_pin_cipher) (\<lambda>left_pin.
        bind_result
          (if left_pin_format = PF_WITH_ACCNO \<and> right_pin_format = PF_WITHOUT_ACCNO \<or>
              left_pin_format = PF_WITHOUT_ACCNO \<and> right_pin_format = PF_WITH_ACCNO
           then bind_result (pan_block acc_no) (\<lambda>pan_bcd. Inr (Xor pan_bcd left_pin))
           else Inr left_pin) (\<lambda>left_pin.
        bind_result (crypt_ecb ssl True right_pik left_pin) (\<lambda>d. Inr (0, d)))))"

section \<open>AES\<close>

definition aes_crypt_ecb :: "openssl \<Rightarrow> bool \<Rightarrow> cstr \<Rightarrow> cstr \<Rightarrow> cstr \<Rightarrow> (int \<times> cstr) result" where
  "aes_crypt_ecb ssl enc key src dest =
     (if AES_set_key ssl enc key \<noteq> 0 then Inr (- 1, dest) else Inr (0, ecb_blocks 16 (AES_ecb_encrypt ssl enc key) src))"

definition aes_crypt_cbc :: "openssl \<Rightarrow> bool \<Rightarrow> cstr \<Rightarrow> cstr \<Rightarrow> cstr \<Rightarrow> cstr \<Rightarrow> (int \<times> cstr) result" where
  "aes_crypt_cbc ssl enc key src ivec dest =
     (if AES_set_key ssl enc key \<noteq> 0 then Inr (- 1, dest)
      else bind_result (cbc_dest src (AES_cbc_encrypt ssl enc key src (block_ivec 16 ivec))) (\<lambda>d. Inr (0, d)))"

definition aes_Encrypt :: "openssl \<Rightarrow> int \<Rightarrow> int \<Rightarrow> cstr \<Rightarrow> cstr \<Rightarrow> cstr \<Rightarrow> cstr \<Rightarrow> (int \<times> cstr) result" where
  "aes_Encrypt ssl crypto_mode padding_type key src ivec dest =
     (let src_padding = src @ crypto_padding 16 padding_type (length src) in
      if crypto_mode = CM_ECB then aes_crypt_ecb ssl True key src_padding dest
      else aes_crypt_cbc ssl True key src_padding ivec dest)"

definition aes_Decrypt :: "openssl \<Rightarrow> int \<Rightarrow> cstr \<Rightarrow> cstr \<Rightarrow> cstr \<Rightarrow> cstr \<Rightarrow> (int \<times> cstr) result" where
  "aes_Decrypt ssl crypto_mode key src ivec dest =
     (if crypto_mode = CM_ECB then aes_crypt_ecb ssl False key src dest
      else aes_crypt_cbc ssl False key src ivec dest)"

end
