(* ===== verification/Block_Crypto_Props.thy ===== *)
theory Block_Crypto_Props
  imports Block_Crypto
begin

text \<open>
  Correctness of \<open>DesCrypto\<close> and \<open>AesCrypto\<close> over every cipher with the documented behaviour of
  OpenSSL's: decryption gives back the padded text, the codes of ANSI X9.9 and X9.19 are the last
  block of a CBC encryption, a converted PIN block decrypts to the PIN the other side put in.
\<close>

section \<open>Blocks and the two modes\<close>

function chunks :: "nat \<Rightarrow> 'a list \<Rightarrow> 'a list list" where
  "chunks n s = (if n = 0 \<or> length s < n then [] else take n s # chunks n (drop n s))"
  by pat_completeness auto
termination
  by (relation "measure (\<lambda>(n, s). length s)") auto

declare chunks.simps [simp del]

lemma chunks_append: "0 < n \<Longrightarrow> length c = n \<Longrightarrow> chunks n (c @ s) = c # chunks n s"
  by (subst chunks.simps) simp

lemma chunks_short: "length s < n \<Longrightarrow> chunks n s = []"
  by (subst chunks.simps) simp

lemma chunks_concat: "0 < n \<Longrightarrow> \<forall>b\<in>set bs. length b = n \<Longrightarrow> chunks n (concat bs) = bs"
  by (induction bs) (simp_all add: chunks_append chunks_short)

lemma concat_chunks: "n dvd length s \<Longrightarrow> 0 < n \<Longrightarrow> concat (chunks n s) = s"
proof (induction n s rule: chunks.induct)
  case (1 n s)
  show ?case
  proof (cases "length s < n")
    case True
    with "1.prems" have "s = []" by (auto elim: dvdE)
    then show ?thesis by (simp add: chunks_short "1.prems"(2))
  next
    case False
    then have "concat (chunks n (drop n s)) = drop n s" using "1.IH" "1.prems" by (simp add: dvd_minus_self)
    then show ?thesis using False "1.prems" by (subst chunks.simps) simp
  qed
qed

lemma length_chunks: "b \<in> set (chunks n s) \<Longrightarrow> length b = n"
proof (induction n s rule: chunks.induct)
  case (1 n s)
  then show ?case by (subst (asm) (2) chunks.simps) (auto split: if_splits)
qed

lemma ecb_blocks_chunks: "0 < blk \<Longrightarrow> ecb_blocks blk f src = concat (map f (chunks blk src))"
proof (induction blk src rule: chunks.induct)
  case (1 n s)
  show ?case
  proof (cases "length s < n")
    case True
    then show ?thesis by (simp add: ecb_blocks_def chunks_short)
  next
    case False
    then have l: "length s div n = Suc (length (drop n s) div n)" using "1.prems" by (simp add: le_div_geq)
    have "ecb_blocks n f s = f (take n s) @ ecb_blocks n f (drop n s)"
      unfolding ecb_blocks_def l by (simp add: upt_conv_Cons map_Suc_upt [symmetric] comp_def add.commute del: upt_Suc)
    then show ?thesis using False "1.IH" "1.prems" by (subst chunks.simps) simp
  qed
qed

text \<open>Cipher block chaining as the standards define it, over a list of blocks.\<close>

fun cbc_chain :: "bool \<Rightarrow> (cstr \<Rightarrow> cstr) \<Rightarrow> cstr \<Rightarrow> cstr list \<Rightarrow> cstr" where
  "cbc_chain enc f iv [] = []"
| "cbc_chain enc f iv (b # bs) =
     (if enc then f (map2 (XOR) b iv) @ cbc_chain enc f (f (map2 (XOR) b iv)) bs
      else map2 (XOR) (f b) iv @ cbc_chain enc f b bs)"

lemma xor_xor: "length a = length b \<Longrightarrow> map2 (XOR) (map2 (XOR) a b) b = (a :: cstr)"
  by (induction a b rule: list_induct2) (simp_all add: ac_simps flip: xor.assoc)

section \<open>What the ciphers promise\<close>

text \<open>A cipher on blocks of \<open>n\<close> bytes for the keys \<open>ok\<close>: each direction undoes the other.\<close>

definition cipher :: "nat \<Rightarrow> ('k \<Rightarrow> bool) \<Rightarrow> (bool \<Rightarrow> 'k \<Rightarrow> cstr \<Rightarrow> cstr) \<Rightarrow> bool" where
  "cipher n ok f \<longleftrightarrow> (\<forall>enc k b. ok k \<and> length b = n \<longrightarrow> length (f enc k b) = n \<and> f (\<not> enc) k (f enc k b) = b)"

text \<open>\<open>g\<close> is the CBC mode of \<open>f\<close> on whole blocks.\<close>

definition cbc_mode :: "nat \<Rightarrow> ('k \<Rightarrow> bool) \<Rightarrow> (bool \<Rightarrow> 'k \<Rightarrow> cstr \<Rightarrow> cstr) \<Rightarrow> (bool \<Rightarrow> 'k \<Rightarrow> cstr \<Rightarrow> cstr \<Rightarrow> cstr) \<Rightarrow> bool" where
  "cbc_mode n ok f g \<longleftrightarrow> (\<forall>enc k s iv. ok k \<and> length iv = n \<and> n dvd length s \<longrightarrow> g enc k s iv = cbc_chain enc (f enc k) iv (chunks n s))"

definition key1 :: "cstr \<Rightarrow> bool" where
  "key1 k \<longleftrightarrow> length k = 8"

definition key3 :: "cstr \<times> cstr \<times> cstr \<Rightarrow> bool" where
  "key3 k = (case k of (k1, k2, k3) \<Rightarrow> length k1 = 8 \<and> length k2 = 8 \<and> length k3 = 8)"

definition aes_key :: "cstr \<Rightarrow> bool" where
  "aes_key k \<longleftrightarrow> length k = 16 \<or> length k = 24 \<or> length k = 32"

definition ecb3 :: "openssl \<Rightarrow> bool \<Rightarrow> cstr \<times> cstr \<times> cstr \<Rightarrow> cstr \<Rightarrow> cstr" where
  "ecb3 ssl enc k = (case k of (k1, k2, k3) \<Rightarrow> DES_ecb3_encrypt ssl enc k1 k2 k3)"

definition cbc3 :: "openssl \<Rightarrow> bool \<Rightarrow> cstr \<times> cstr \<times> cstr \<Rightarrow> cstr \<Rightarrow> cstr \<Rightarrow> cstr" where
  "cbc3 ssl enc k = (case k of (k1, k2, k3) \<Rightarrow> DES_ede3_cbc_encrypt ssl enc k1 k2 k3)"

definition openssl_ok :: "openssl \<Rightarrow> bool" where
  "openssl_ok ssl \<longleftrightarrow> cipher 8 key1 (DES_ecb_encrypt ssl) \<and> cipher 8 key3 (ecb3 ssl) \<and> cipher 16 aes_key (AES_ecb_encrypt ssl) \<and>
     cbc_mode 8 key1 (DES_ecb_encrypt ssl) (DES_ncbc_encrypt ssl) \<and> cbc_mode 8 key3 (ecb3 ssl) (cbc3 ssl) \<and>
     cbc_mode 16 aes_key (AES_ecb_encrypt ssl) (AES_cbc_encrypt ssl) \<and>
     (\<forall>enc k. AES_set_key ssl enc k = 0 \<longleftrightarrow> aes_key k)"

lemma cipherD: "cipher n ok f \<Longrightarrow> ok k \<Longrightarrow> length b = n \<Longrightarrow> length (f enc k b) = n"
  "cipher n ok f \<Longrightarrow> ok k \<Longrightarrow> length b = n \<Longrightarrow> f False k (f True k b) = b"
  "cipher n ok f \<Longrightarrow> ok k \<Longrightarrow> length b = n \<Longrightarrow> f True k (f False k b) = b"
  unfolding cipher_def by (auto dest: spec [where x = True] spec [where x = False])

lemma length_cbc_chain:
  assumes "cipher n ok f" "ok k"
  shows "length iv = n \<Longrightarrow> \<forall>b\<in>set bs. length b = n \<Longrightarrow> length (cbc_chain enc (f enc k) iv bs) = n * length bs"
proof (induction bs arbitrary: iv)
  case (Cons b bs)
  then show ?case using Cons.IH [of "f enc k (map2 (XOR) b iv)"] Cons.IH [of b] cipherD(1) [OF assms, of "map2 (XOR) b iv"] cipherD(1) [OF assms, of b]
    by (cases enc) auto
qed simp

lemma length_map_crypt: "cipher n ok f \<Longrightarrow> ok k \<Longrightarrow> length (concat (map (f enc k) (chunks n s))) = n * length (chunks n s)"
proof -
  assume "cipher n ok f" "ok k"
  then have "\<forall>b \<in> set bs. length b = n \<Longrightarrow> length (concat (map (f enc k) bs)) = n * length bs" for bs
    by (induction bs) (simp_all add: cipherD)
  then show ?thesis using length_chunks by blast
qed

lemma ecb_roundtrip:
  assumes c: "cipher n ok f" "ok k" "0 < n" and s: "n dvd length s"
  shows "ecb_blocks n (f (\<not> enc) k) (ecb_blocks n (f enc k) s) = s" "length (ecb_blocks n (f enc k) s) = length s"
proof -
  let ?cs = "map (f enc k) (chunks n s)"
  have "\<forall>b\<in>set ?cs. length b = n" using cipherD(1) [OF c(1,2)] length_chunks by fastforce
  then have "chunks n (concat ?cs) = ?cs" by (rule chunks_concat [OF c(3)])
  moreover have "map (f (\<not> enc) k) ?cs = chunks n s"
    unfolding map_map by (rule map_idI) (use c in \<open>auto simp: cipher_def dest!: length_chunks\<close>)
  ultimately show "ecb_blocks n (f (\<not> enc) k) (ecb_blocks n (f enc k) s) = s"
    unfolding ecb_blocks_chunks [OF c(3)] by (simp add: concat_chunks [OF s c(3)])
  have "length (concat (chunks n s)) = n * length (chunks n s)"
    using length_map_crypt [of n "\<lambda>_. True" "\<lambda>_ _ b. b" k True s] by (simp add: cipher_def)
  then show "length (ecb_blocks n (f enc k) s) = length s"
    unfolding ecb_blocks_chunks [OF c(3)] length_map_crypt [OF c(1,2)] concat_chunks [OF s c(3)] by simp
qed

lemma cbc_chain_roundtrip:
  assumes "cipher n ok f" "ok k" "0 < n"
  shows "length iv = n \<Longrightarrow> \<forall>b\<in>set bs. length b = n \<Longrightarrow>
     cbc_chain False (f False k) iv (chunks n (cbc_chain True (f True k) iv bs)) = concat bs"
proof (induction bs arbitrary: iv)
  case (Cons b bs)
  let ?x = "map2 (XOR) b iv"
  have x: "length ?x = n" using Cons.prems by simp
  have "length (f True k ?x) = n" by (rule cipherD(1) [OF assms(1,2) x])
  then show ?case using Cons cipherD(2) [OF assms(1,2) x] assms(3) by (simp add: chunks_append xor_xor)
qed (simp add: chunks_short assms(3))

lemma cbc_roundtrip:
  assumes c: "cipher n ok f" "ok k" "0 < n" and g: "cbc_mode n ok f g" and s: "n dvd length s" "length iv = n"
  shows "g False k (g True k s iv) iv = s" "length (g True k s iv) = length s" "g True k s iv = cbc_chain True (f True k) iv (chunks n s)"
proof -
  show e: "g True k s iv = cbc_chain True (f True k) iv (chunks n s)" using g c(2) s by (simp add: cbc_mode_def)
  have l: "length (g True k s iv) = n * length (chunks n s)" unfolding e by (rule length_cbc_chain [OF c(1,2) s(2)]) (auto dest: length_chunks)
  have "length (concat (chunks n s)) = n * length (chunks n s)"
    using length_map_crypt [of n "\<lambda>_. True" "\<lambda>_ _ b. b" k True s] by (simp add: cipher_def)
  with l show "length (g True k s iv) = length s" by (simp add: concat_chunks [OF s(1) c(3)])
  have "g False k (g True k s iv) iv = cbc_chain False (f False k) iv (chunks n (g True k s iv))" using g c(2) s l by (simp add: cbc_mode_def)
  then show "g False k (g True k s iv) iv = s"
    unfolding e using cbc_chain_roundtrip [OF c s(2), of "chunks n s"] length_chunks concat_chunks [OF s(1) c(3)] by auto
qed

section \<open>Single and triple DES as one cipher\<close>

definition des_key :: "cstr \<Rightarrow> bool" where
  "des_key k \<longleftrightarrow> length k = 8 \<or> length k = 16 \<or> length k = 24"

definition triple :: "cstr \<Rightarrow> cstr \<times> cstr \<times> cstr" where
  "triple key = (take 8 key, take 8 (drop 8 key), if length key = 24 then drop 16 key else take 8 key)"

definition des_fn :: "openssl \<Rightarrow> bool \<Rightarrow> cstr \<Rightarrow> cstr \<Rightarrow> cstr" where
  "des_fn ssl enc key = (if length key = 8 then DES_ecb_encrypt ssl enc key else ecb3 ssl enc (triple key))"

definition des_cbc :: "openssl \<Rightarrow> bool \<Rightarrow> cstr \<Rightarrow> cstr \<Rightarrow> cstr \<Rightarrow> cstr" where
  "des_cbc ssl enc key = (if length key = 8 then DES_ncbc_encrypt ssl enc key else cbc3 ssl enc (triple key))"

lemma des_cipher:
  assumes "openssl_ok ssl"
  shows "cipher 8 des_key (des_fn ssl)" "cbc_mode 8 des_key (des_fn ssl) (des_cbc ssl)"
proof -
  have t: "des_key k \<Longrightarrow> length k \<noteq> 8 \<Longrightarrow> key3 (triple k)" for k by (auto simp: des_key_def key3_def triple_def)
  have o: "cipher 8 key1 (DES_ecb_encrypt ssl)" "cipher 8 key3 (ecb3 ssl)" "cbc_mode 8 key1 (DES_ecb_encrypt ssl) (DES_ncbc_encrypt ssl)"
      "cbc_mode 8 key3 (ecb3 ssl) (cbc3 ssl)"
    using assms by (simp_all add: openssl_ok_def)
  show "cipher 8 des_key (des_fn ssl)" using o(1,2) t unfolding cipher_def des_fn_def key1_def by (auto simp del: split_paired_All)
  show "cbc_mode 8 des_key (des_fn ssl) (des_cbc ssl)" using o(3,4) t unfolding cbc_mode_def des_fn_def des_cbc_def key1_def by (auto simp del: split_paired_All)
qed

lemma read_c_ok: "off + n \<le> length s \<Longrightarrow> read_c s off n = Inr (take n (drop off s))"
  by (simp add: read_c_def)

lemma des3_keys_ok: "length key = 16 \<or> length key = 24 \<Longrightarrow> des3_keys key = Inr (triple key)"
  by (auto simp: des3_keys_def read_c_ok triple_def)

lemma crypt_ecb_ok: "des_key key \<Longrightarrow> crypt_ecb ssl enc key src = Inr (ecb_blocks 8 (des_fn ssl enc key) src)"
  by (auto simp: crypt_ecb_def crypt_ecb_1_def crypt_ecb_3_def read_c_ok des3_keys_ok des_key_def des_fn_def ecb3_def triple_def)

lemma crypt_ecb_1_ok: "length key = 8 \<Longrightarrow> crypt_ecb_1 ssl enc key src = Inr (ecb_blocks 8 (des_fn ssl enc key) src)"
  by (simp add: crypt_ecb_1_def read_c_ok des_fn_def)

lemma des_mode_ok:
  assumes "des_key key"
  shows "des_Encrypt ssl mode pt key src iv d0 =
      (let s = src @ crypto_padding 8 pt (length src) in
       if mode = CM_ECB then Inr (0, ecb_blocks 8 (des_fn ssl True key) s)
       else bind_result (cbc_dest s (des_cbc ssl True key s (block_ivec 8 iv))) (\<lambda>d. Inr (0, d)))"
    and "des_Decrypt ssl mode key src iv d0 =
      (if mode = CM_ECB then Inr (0, ecb_blocks 8 (des_fn ssl False key) src)
       else bind_result (cbc_dest src (des_cbc ssl False key src (block_ivec 8 iv))) (\<lambda>d. Inr (0, d)))"
  using assms
  by (auto simp: des_Encrypt_def des_Decrypt_def Let_def des_key_def crypt_ecb_1_def crypt_ecb_3_def crypt_cbc_1_def crypt_cbc_3_def read_c_ok
      des3_keys_ok des_fn_def des_cbc_def ecb3_def cbc3_def triple_def)

section \<open>Padding\<close>

text \<open>The padding types that fill the last block; without padding the text has to consist of blocks.\<close>

definition pads :: "nat \<Rightarrow> int \<Rightarrow> cstr \<Rightarrow> bool" where
  "pads blk pt src \<longleftrightarrow> pt = PT_PKCS5 \<or> pt = PT_PKCS7 \<or> pt = PT_80 \<or> blk dvd length src"

lemma block_ivec_length [simp]: "length (block_ivec blk iv) = blk"
  by (simp add: block_ivec_def)

lemma fill_dvd: "0 < blk \<Longrightarrow> blk dvd n + (blk - n mod blk)" for n blk :: nat
proof -
  assume "0 < blk"
  then have "n mod blk < blk" by simp
  then have "n + (blk - n mod blk) = blk * (n div blk) + blk" using mult_div_mod_eq [of blk n] by linarith
  then show ?thesis by simp
qed

lemma padded_length:
  assumes "pads blk pt src" "0 < blk"
  shows "blk dvd length (src @ crypto_padding blk pt (length src))"
proof -
  have d: "blk dvd length src + (blk - length src mod blk)" using assms(2) by (rule fill_dvd)
  have "length (pt_80 blk) = blk" using assms(2) by (simp add: pt_80_def)
  then have "length (crypto_padding blk pt (length src)) = (if pads blk pt src \<and> \<not> blk dvd length src \<or> pt = PT_PKCS5 then blk - length src mod blk else 0)"
    using assms(2) by (auto simp: pads_def crypto_padding_def Let_def mod_greater_zero_iff_not_dvd)
  then show ?thesis using d assms(1) by auto
qed

text \<open>The reader of a PKCS5 text drops as many bytes as the last byte says.\<close>

definition unpad5 :: "cstr \<Rightarrow> cstr" where
  "unpad5 s = take (length s - unat (last s)) s"

lemma unpad5_padded:
  assumes "0 < blk" "blk < 256"
  shows "unpad5 (src @ crypto_padding blk PT_PKCS5 (length src)) = src"
proof -
  let ?n = "blk - length src mod blk"
  have n: "0 < ?n" "?n < 256" using assms by (simp, linarith)
  have "crypto_padding blk PT_PKCS5 (length src) = replicate ?n (of_nat ?n)" by (simp add: crypto_padding_def Let_def)
  moreover have "last (src @ replicate ?n (of_nat ?n :: byte)) = of_nat ?n" using n(1) by (simp add: last_append)
  moreover have "unat (of_nat ?n :: byte) = ?n" using n(2) by (simp add: unsigned_of_nat take_bit_nat_eq_self)
  ultimately show ?thesis by (simp add: unpad5_def)
qed

section \<open>Decryption undoes encryption\<close>

lemma cbc_dest_ok: "length w = length s \<Longrightarrow> cbc_dest s w = Inr w"
  by (simp add: cbc_dest_def)

lemma des_roundtrip:
  assumes ssl: "openssl_ok ssl" and k: "des_key key" and s: "pads 8 pt src"
  shows "\<exists>c. des_Encrypt ssl mode pt key src iv d0 = Inr (0, c) \<and> length c = length (src @ crypto_padding 8 pt (length src)) \<and>
     des_Decrypt ssl mode key c iv d1 = Inr (0, src @ crypto_padding 8 pt (length src))"
proof -
  let ?s = "src @ crypto_padding 8 pt (length src)"
  have d: "8 dvd length ?s" using s by (rule padded_length) simp
  note c = des_cipher(1) [OF ssl] k
  note e = ecb_roundtrip [OF c _ d, of True, simplified] and g = cbc_roundtrip [OF c _ des_cipher(2) [OF ssl] d block_ivec_length, simplified]
  show ?thesis
  proof (cases "mode = CM_ECB")
    case True
    then show ?thesis using e unfolding des_mode_ok [OF k] by (simp add: Let_def)
  next
    case False
    then show ?thesis using g unfolding des_mode_ok [OF k] by (simp add: Let_def cbc_dest_def)
  qed
qed

lemma aes_roundtrip:
  assumes ssl: "openssl_ok ssl" and k: "aes_key key" and s: "pads 16 pt src"
  shows "\<exists>c. aes_Encrypt ssl mode pt key src iv d0 = Inr (0, c) \<and> length c = length (src @ crypto_padding 16 pt (length src)) \<and>
     aes_Decrypt ssl mode key c iv d1 = Inr (0, src @ crypto_padding 16 pt (length src))"
proof -
  let ?s = "src @ crypto_padding 16 pt (length src)"
  have d: "16 dvd length ?s" using s by (rule padded_length) simp
  have o: "cipher 16 aes_key (AES_ecb_encrypt ssl)" "cbc_mode 16 aes_key (AES_ecb_encrypt ssl) (AES_cbc_encrypt ssl)" "AES_set_key ssl enc key = 0" for enc
    using ssl k by (simp_all add: openssl_ok_def)
  note e = ecb_roundtrip [OF o(1) k _ d, of True, simplified] and g = cbc_roundtrip [OF o(1) k _ o(2) d block_ivec_length, simplified]
  show ?thesis
  proof (cases "mode = CM_ECB")
    case True
    then show ?thesis using e o(3) by (simp add: aes_Encrypt_def aes_Decrypt_def aes_crypt_ecb_def)
  next
    case False
    then show ?thesis using g o(3) by (simp add: aes_Encrypt_def aes_Decrypt_def aes_crypt_cbc_def cbc_dest_def)
  qed
qed

text \<open>
  C26. For every key of a legal size, in both modes and with every padding, \<open>Decrypt\<close> gives back the
  padded text that \<open>Encrypt\<close> encrypted, for DES, triple DES and AES; the cipher text has the length
  of the padded text, and the text is what is left of a PKCS5 text when as many bytes are dropped
  as its last byte says. Without padding the text has to consist of whole blocks.
\<close>

theorem block_crypto_roundtrip:
  assumes "openssl_ok ssl" "des_key dkey" "pads 8 pt dsrc" "aes_key akey" "pads 16 pt asrc"
  shows "(\<exists>c s. des_Encrypt ssl mode pt dkey dsrc iv d0 = Inr (0, c) \<and> des_Decrypt ssl mode dkey c iv d1 = Inr (0, s) \<and>
       s = dsrc @ crypto_padding 8 pt (length dsrc) \<and> length c = length s \<and> (pt = PT_PKCS5 \<longrightarrow> unpad5 s = dsrc)) \<and>
     (\<exists>c s. aes_Encrypt ssl mode pt akey asrc iv d0 = Inr (0, c) \<and> aes_Decrypt ssl mode akey c iv d1 = Inr (0, s) \<and>
       s = asrc @ crypto_padding 16 pt (length asrc) \<and> length c = length s \<and> (pt = PT_PKCS5 \<longrightarrow> unpad5 s = asrc))"
  using des_roundtrip [OF assms(1-3), of mode iv d0 d1] aes_roundtrip [OF assms(1,4,5), of mode iv d0 d1]
    unpad5_padded [of 8 dsrc] unpad5_padded [of 16 asrc] by auto

section \<open>The authentication codes\<close>

definition mac_fold :: "(cstr \<Rightarrow> cstr) \<Rightarrow> cstr \<Rightarrow> cstr list \<Rightarrow> cstr" where
  "mac_fold f = foldl (\<lambda>out b. f (map2 (XOR) b out))"

lemma mac_fold_length: "\<forall>b. length b = 8 \<longrightarrow> length (f b) = 8 \<Longrightarrow> length out = 8 \<Longrightarrow> \<forall>b\<in>set bs. length b = 8 \<Longrightarrow> length (mac_fold f out bs) = 8"
  by (induction bs arbitrary: out) (simp_all add: mac_fold_def)

lemma chain_loop_fold:
  assumes f: "\<forall>b. length b = 8 \<longrightarrow> crypt b = Inr (f b) \<and> length (f b) = 8"
  shows "length out = 8 \<Longrightarrow> 8 dvd length (drop off d) \<Longrightarrow> chain_loop crypt d off out = Inr (mac_fold f out (chunks 8 (drop off d)))"
proof (induction "length d - off" arbitrary: off out rule: less_induct)
  case less
  show ?case
  proof (cases "off < length d")
    case True
    let ?b = "take 8 (drop off d)"
    have "8 \<le> length (drop off d)" using True less.prems(2) by (intro dvd_imp_le) simp_all
    then have b: "length ?b = 8" by simp
    have x: "Xor out ?b = map2 (XOR) ?b out" using b less.prems(1) by (simp add: Xor_def)
    have fx: "crypt (map2 (XOR) ?b out) = Inr (f (map2 (XOR) ?b out))" "length (f (map2 (XOR) ?b out)) = 8" using f b less.prems(1) by simp_all
    have "8 dvd length (drop (off + 8) d)" using less.prems(2) dvd_diff_nat [of 8 "length d - off" 8] by simp
    from less.hyps [OF _ fx(2) this] True
    have "chain_loop crypt d (off + 8) (f (map2 (XOR) ?b out)) = Inr (mac_fold f (f (map2 (XOR) ?b out)) (chunks 8 (drop (off + 8) d)))" by simp
    moreover have "chunks 8 (drop off d) = ?b # chunks 8 (drop (off + 8) d)" using b by (subst chunks.simps) (simp add: add.commute)
    ultimately show ?thesis using True x fx by (subst chain_loop.simps) (simp add: mac_fold_def)
  next
    case False
    then show ?thesis by (subst chain_loop.simps) (simp add: chunks_short mac_fold_def)
  qed
qed

lemma cbc_chain_last:
  assumes "\<forall>b. length b = 8 \<longrightarrow> length (f b) = 8"
  shows "length iv = 8 \<Longrightarrow> \<forall>b\<in>set bs. length b = 8 \<Longrightarrow> bs \<noteq> [] \<Longrightarrow> \<exists>pre. cbc_chain True f iv bs = pre @ mac_fold f iv bs"
proof (induction bs arbitrary: iv)
  case (Cons b bs)
  let ?c = "f (map2 (XOR) b iv)"
  have c: "length ?c = 8" using assms Cons.prems by simp
  show ?case
  proof (cases "bs = []")
    case True
    then show ?thesis by (simp add: mac_fold_def)
  next
    case False
    then obtain pre where "cbc_chain True f ?c bs = pre @ mac_fold f ?c bs" using Cons.IH [OF c] Cons.prems by auto
    then show ?thesis by (intro exI [of _ "?c @ pre"]) (simp add: mac_fold_def)
  qed
qed simp

lemma Xor_ivec: "length iv = 8 \<or> iv = [] \<Longrightarrow> length b = 8 \<Longrightarrow> Xor iv b = map2 (XOR) b (block_ivec 8 iv)"
proof -
  assume "length iv = 8 \<or> iv = []" and b: "length b = 8"
  have "map2 (XOR) c (replicate (length c) 0) = c" for c :: cstr by (induction c) simp_all
  from this [of b] b have "map2 (XOR) b (replicate 8 0) = b" by simp
  with \<open>length iv = 8 \<or> iv = []\<close> b show "Xor iv b = map2 (XOR) b (block_ivec 8 iv)" by (auto simp: Xor_def block_ivec_def)
qed

lemma zero_fill_padding: "zero_fill d = d @ crypto_padding 8 PT_PKCS7 (length d)"
  by (auto simp: zero_fill_def crypto_padding_def Let_def crypto_consts)

lemma ecb_single: "length b = 8 \<Longrightarrow> ecb_blocks 8 f b = f b"
  by (simp add: ecb_blocks_def)

text \<open>The first block and the loop of \<open>calc_mac_x99\<close> and \<open>calc_mac_x919\<close> together.\<close>

lemma mac_chain:
  assumes d: "8 dvd length d" "d \<noteq> []" and iv: "length iv = 8 \<or> iv = []" and f: "\<forall>b. length b = 8 \<longrightarrow> crypt b = Inr (f b) \<and> length (f b) = 8"
  shows "bind_result (substr d 0 8) (\<lambda>mab. bind_result (crypt (Xor iv mab)) (\<lambda>out. g out)) = g (f (map2 (XOR) (take 8 d) (block_ivec 8 iv)))"
    and "chain_loop crypt d 8 (f (map2 (XOR) (take 8 d) (block_ivec 8 iv))) = Inr (mac_fold f (block_ivec 8 iv) (chunks 8 d))"
proof -
  have "8 \<le> length d" using d by (intro dvd_imp_le) simp_all
  then have b: "length (take 8 d) = 8" by simp
  then show "bind_result (substr d 0 8) (\<lambda>mab. bind_result (crypt (Xor iv mab)) (\<lambda>out. g out)) = g (f (map2 (XOR) (take 8 d) (block_ivec 8 iv)))"
    using f Xor_ivec [OF iv b] by simp
  have ch: "chunks 8 d = take 8 d # chunks 8 (drop 8 d)" using b by (subst chunks.simps) simp
  have "8 dvd length (drop 8 d)" using d(1) by (simp add: dvd_minus_self)
  from chain_loop_fold [OF f _ this] b f show "chain_loop crypt d 8 (f (map2 (XOR) (take 8 d) (block_ivec 8 iv))) = Inr (mac_fold f (block_ivec 8 iv) (chunks 8 d))"
    by (simp add: ch mac_fold_def)
qed

lemma des_fn_block:
  assumes "openssl_ok ssl" "des_key key"
  shows "\<forall>b. length b = 8 \<longrightarrow> crypt_ecb ssl enc key b = Inr (des_fn ssl enc key b) \<and> length (des_fn ssl enc key b) = 8"
  using cipherD(1) [OF des_cipher(1) [OF assms(1)] assms(2)] by (simp add: crypt_ecb_ok [OF assms(2)] ecb_single)

lemma des1_block:
  assumes "openssl_ok ssl" "length key = 8"
  shows "\<forall>b. length b = 8 \<longrightarrow> crypt_ecb_1 ssl enc key b = Inr (des_fn ssl enc key b) \<and> length (des_fn ssl enc key b) = 8"
  using des_fn_block [OF assms(1), of key enc] assms(2) by (simp add: des_key_def crypt_ecb_def)

text \<open>The last block of the CBC encryption is the folded code.\<close>

lemma des_cbc_last:
  assumes ssl: "openssl_ok ssl" and k: "des_key key" and d: "d \<noteq> []"
  shows "\<exists>pre. des_Encrypt ssl CM_CBC PT_PKCS7 key d iv x = Inr (0, pre @ mac_fold (des_fn ssl True key) (block_ivec 8 iv) (chunks 8 (zero_fill d)))"
proof -
  have s: "8 dvd length (zero_fill d)" unfolding zero_fill_padding by (rule padded_length) (simp_all add: pads_def)
  note c = cbc_roundtrip [OF des_cipher(1) [OF ssl] k _ des_cipher(2) [OF ssl] s block_ivec_length, simplified]
  have "zero_fill d \<noteq> []" using d by (simp add: zero_fill_def)
  then have ne: "chunks 8 (zero_fill d) \<noteq> []" using concat_chunks [OF s] by force
  have "\<exists>pre. cbc_chain True (des_fn ssl True key) (block_ivec 8 iv) (chunks 8 (zero_fill d)) = pre @ mac_fold (des_fn ssl True key) (block_ivec 8 iv) (chunks 8 (zero_fill d))"
    by (rule cbc_chain_last) (use des_fn_block [OF ssl k] ne length_chunks in auto)
  then show ?thesis using c unfolding des_mode_ok [OF k] by (simp add: crypto_consts Let_def zero_fill_padding cbc_dest_def)
qed

lemma zero_fill_blocks: "8 dvd length (zero_fill d)" "d \<noteq> [] \<Longrightarrow> zero_fill d \<noteq> []"
  using padded_length [of 8 PT_PKCS7 d] by (simp_all add: zero_fill_padding pads_def)

lemma mac_length:
  assumes "openssl_ok ssl" "des_key key"
  shows "length (mac_fold (des_fn ssl True key) (block_ivec 8 iv) (chunks 8 s)) = 8"
  by (rule mac_fold_length) (use des_fn_block [OF assms] length_chunks in auto)

lemma x99_ok:
  assumes ssl: "openssl_ok ssl" and k: "des_key key" and d: "d \<noteq> []" and iv: "length iv = 8 \<or> iv = []"
  shows "CalcMAC ssl MM_X99 key d iv y = Inr (0, mac_fold (des_fn ssl True key) (block_ivec 8 iv) (chunks 8 (zero_fill d)))"
proof -
  note m = mac_chain [OF zero_fill_blocks(1) zero_fill_blocks(2) [OF d] iv des_fn_block [OF ssl k]]
  have "calc_mac_x99 ssl key (zero_fill d) iv = Inr (mac_fold (des_fn ssl True key) (block_ivec 8 iv) (chunks 8 (zero_fill d)))"
    unfolding calc_mac_x99_def m ..
  then show ?thesis using k by (auto simp: CalcMAC_def des_key_def)
qed

lemma x919_ok:
  assumes ssl: "openssl_ok ssl" and k: "des_key key" and d: "d \<noteq> []" and iv: "length iv = 8 \<or> iv = []"
    and l: "l = take 8 key" and r: "r = (if length key > 8 then take 8 (drop 8 key) else key)"
    and mac: "mac = mac_fold (des_fn ssl True l) (block_ivec 8 iv) (chunks 8 (zero_fill d))"
  shows "CalcMAC ssl MM_X919 key d iv y = Inr (0, DES_ecb_encrypt ssl True l (DES_ecb_encrypt ssl False r mac))"
proof -
  let ?z = "zero_fill d"
  have lr: "length l = 8" "length r = 8" "des_key l" using k by (auto simp: l r des_key_def)
  note m = mac_chain [OF zero_fill_blocks(1) zero_fill_blocks(2) [OF d] iv des1_block [OF ssl lr(1)]]
  have c: "crypt_ecb_1 ssl False r mac = Inr (DES_ecb_encrypt ssl False r mac)" "length (DES_ecb_encrypt ssl False r mac) = 8"
      "crypt_ecb_1 ssl True l (DES_ecb_encrypt ssl False r mac) = Inr (DES_ecb_encrypt ssl True l (DES_ecb_encrypt ssl False r mac))"
    using des1_block [OF ssl lr(2), of False] des1_block [OF ssl lr(1), of True] mac_length [OF ssl lr(3), of iv ?z] lr by (auto simp: des_fn_def mac)
  have "calc_mac_x919 ssl key ?z iv = bind_result (substr ?z 0 8) (\<lambda>mab. bind_result (crypt_ecb_1 ssl True l (Xor iv mab)) (\<lambda>enc_out.
      bind_result (chain_loop (crypt_ecb_1 ssl True l) ?z 8 enc_out) (\<lambda>enc_out.
      bind_result (crypt_ecb_1 ssl False r enc_out) (\<lambda>dec_out. crypt_ecb_1 ssl True l dec_out))))"
    using k by (auto simp: calc_mac_x919_def l r des_key_def)
  then have "calc_mac_x919 ssl key ?z iv = Inr (DES_ecb_encrypt ssl True l (DES_ecb_encrypt ssl False r mac))"
    unfolding m mac [symmetric] bind_result.simps c .
  then show ?thesis using k by (auto simp: CalcMAC_def des_key_def crypto_consts)
qed

lemma pboc_eq: "CalcMAC ssl MM_PBOC key d iv y = CalcMAC ssl MM_X919 key (d @ take (8 - length d mod 8) (pt_80 8)) iv y"
proof -
  let ?p = "take (8 - length d mod 8) (pt_80 8)"
  have "length ?p = 8 - length d mod 8" by (simp add: pt_80_def)
  then have "8 dvd length (d @ ?p)" using fill_dvd [of 8 "length d"] by (simp only: length_append)
  then have "zero_fill (d @ ?p) = d @ ?p" by (simp add: zero_fill_def)
  then show ?thesis by (simp add: CalcMAC_def crypto_consts)
qed

text \<open>
  C27. The codes agree with their standards. For a nonempty message and an initial vector of eight
  bytes or none, the code of X9.9 is the last block of the CBC encryption of the message under the
  whole key, padded with zeros; that of X9.19 is the last block of the CBC encryption with single
  DES under the left half of the key, decrypted with the right half and encrypted with the left;
  and the PBOC code is the X9.19 code of the message with 0x80 and zeros appended.
\<close>

theorem des_mac_equivalence:
  assumes ssl: "openssl_ok ssl" and k: "des_key key" and d: "d \<noteq> []" and iv: "length iv = 8 \<or> iv = []"
  shows "(\<exists>c m. des_Encrypt ssl CM_CBC PT_PKCS7 key d iv x = Inr (0, c) \<and> CalcMAC ssl MM_X99 key d iv y = Inr (0, m) \<and> m = drop (length c - 8) c) \<and>
     (let l = take 8 key; r = (if length key > 8 then take 8 (drop 8 key) else key) in
      \<exists>c. des_Encrypt ssl CM_CBC PT_PKCS7 l d iv x = Inr (0, c) \<and>
        CalcMAC ssl MM_X919 key d iv y = Inr (0, DES_ecb_encrypt ssl True l (DES_ecb_encrypt ssl False r (drop (length c - 8) c)))) \<and>
     CalcMAC ssl MM_PBOC key d iv y = CalcMAC ssl MM_X919 key (d @ take (8 - length d mod 8) (pt_80 8)) iv y"
proof -
  have l: "des_key (take 8 key)" using k by (auto simp: des_key_def)
  show ?thesis
    using des_cbc_last [OF ssl k d, of iv x] x99_ok [OF ssl k d iv, of y] mac_length [OF ssl k]
      des_cbc_last [OF ssl l d, of iv x] x919_ok [OF ssl k d iv refl refl refl, of y] mac_length [OF ssl l] pboc_eq
    unfolding Let_def by fastforce
qed

section \<open>Conversion of PIN blocks\<close>

lemma pan_block_ok: "\<exists>p. pan_block acc_no = Inr p \<and> length p = 8"
proof -
  define pan where "pan = (if length acc_no > 12 then take 12 (drop (length acc_no - 13) acc_no) else take (length acc_no - 1) acc_no)"
  have p: "pan_block acc_no = Inr (asc2bcd_l (replicate (16 - length pan) 48 @ pan))" by (auto simp: pan_block_def pan_def)
  have "length pan \<le> 12" by (auto simp: pan_def)
  then have "length (replicate (16 - length pan) 48 @ pan) = 16" by simp
  from length_asc2bcd(1) [of "replicate (16 - length pan) 48 @ pan"] this p show ?thesis by simp
qed

text \<open>Whether the two formats differ in the account number, and the PIN block in the other format.\<close>

definition crosses :: "int \<Rightarrow> int \<Rightarrow> bool" where
  "crosses lf rf \<longleftrightarrow> lf = PF_WITH_ACCNO \<and> rf = PF_WITHOUT_ACCNO \<or> lf = PF_WITHOUT_ACCNO \<and> rf = PF_WITH_ACCNO"

lemma ConvertPin_ok:
  assumes k: "des_key lk" "des_key rk" and p: "pan_block acc = Inr p"
  shows "ConvertPin ssl lf rf acc c lk rk x =
     Inr (0, ecb_blocks 8 (des_fn ssl True rk) ((if crosses lf rf then Xor p else id) (ecb_blocks 8 (des_fn ssl False lk) c)))"
proof -
  have "\<not> (length lk \<noteq> 8 \<and> length lk \<noteq> 16 \<and> length lk \<noteq> 24)" "\<not> (length rk \<noteq> 8 \<and> length rk \<noteq> 16 \<and> length rk \<noteq> 24)"
    using k by (auto simp: des_key_def)
  then show ?thesis unfolding ConvertPin_def by (simp add: crypt_ecb_ok [OF k(1)] crypt_ecb_ok [OF k(2)] p crosses_def)
qed

lemma Xor_Xor: "length p = 8 \<Longrightarrow> Xor p (Xor p s) = s" "length (Xor p s) = length s"
  by (simp_all add: Xor_def xor_xor)

text \<open>
  \<open>ConvertPin\<close> re-encrypts a PIN block: the right side decrypts it to the PIN block of the left
  side, xored with the account number block exactly when one format has it and the other has not
  and the PIN block is a single block; and converting the result back gives the cipher text the
  left side sent.
\<close>

theorem convert_pin_correct:
  assumes ssl: "openssl_ok ssl" and k: "des_key lk" "des_key rk" and c: "8 dvd length c"
  shows "\<exists>p c'. pan_block acc = Inr p \<and> length p = 8 \<and> ConvertPin ssl lf rf acc c lk rk x = Inr (0, c') \<and> length c' = length c \<and>
     (\<exists>pin. des_Decrypt ssl CM_ECB lk c iv y = Inr (0, pin) \<and>
        des_Decrypt ssl CM_ECB rk c' iv y = Inr (0, if crosses lf rf \<and> length c = 8 then map2 (XOR) pin p else pin)) \<and>
     ConvertPin ssl rf lf acc c' rk lk z = Inr (0, c)"
proof -
  note ci = des_cipher(1) [OF ssl]
  obtain p where p: "pan_block acc = Inr p" "length p = 8" using pan_block_ok by blast
  let ?pin = "ecb_blocks 8 (des_fn ssl False lk) c"
  let ?t = "(if crosses lf rf then Xor p else id)"
  let ?c = "ecb_blocks 8 (des_fn ssl True rk) (?t ?pin)"
  have lp: "length ?pin = length c" using ecb_roundtrip(2) [OF ci k(1) _ c, of False] by simp
  have lpt: "length (?t ?pin) = length c" by (simp add: lp Xor_Xor)
  have dt: "8 dvd length (?t ?pin)" using c lpt by simp
  have undo: "ecb_blocks 8 (des_fn ssl False rk) ?c = ?t ?pin" "length ?c = length c"
    using ecb_roundtrip [OF ci k(2) _ dt, of True] lpt by simp_all
  have swap: "crosses rf lf = crosses lf rf" by (auto simp: crosses_def)
  have "(if crosses rf lf then Xor p else id) (?t ?pin) = ?pin" unfolding swap using Xor_Xor(1) [OF p(2)] by simp
  moreover have "ecb_blocks 8 (des_fn ssl True lk) ?pin = c" using ecb_roundtrip(1) [OF ci k(1) _ c, of False] by simp
  ultimately have conv: "ConvertPin ssl rf lf acc ?c rk lk z = Inr (0, c)"
    unfolding ConvertPin_ok [OF k(2,1) p(1)] undo(1) by simp
  have "?t ?pin = (if crosses lf rf \<and> length c = 8 then map2 (XOR) ?pin p else ?pin)" using lp p(2) by (simp add: Xor_def)
  with p undo conv show ?thesis
    unfolding ConvertPin_ok [OF k p(1)] des_mode_ok(2) [OF k(1)] des_mode_ok(2) [OF k(2)] by auto
qed

section \<open>Empty messages\<close>

text \<open>
  An empty message is not refused: X9.9 and the XOR code return 0 with an empty code, and the code
  of China UnionPay throws \<open>std::out_of_range\<close>, which nothing in the library catches.
\<close>

theorem mac_of_empty_message:
  assumes "des_key key"
  shows "CalcMAC ssl MM_X99 key [] iv m = Inr (0, []) \<and> CalcMAC ssl MM_XOR key [] iv m = Inr (0, []) \<and>
     CalcMAC ssl MM_CUP key [] iv m = Inl Out_of_range"
proof -
  have k: "\<not> (length key \<noteq> 8 \<and> length key \<noteq> 16 \<and> length key \<noteq> 24)" using assms by (auto simp: des_key_def)
  have e: "Xor iv [] = []" "ecb_blocks 8 f [] = []" "chain_loop g [] 8 [] = Inr []" "xor_loop [] 8 [] = Inr []" "bcd2asc [] = []" for f g
    by (simp_all add: Xor_def ecb_blocks_def chain_loop.simps xor_loop.simps)
  show ?thesis
    unfolding CalcMAC_def if_not_P [OF k] calc_mac_x99_def calc_mac_xor_def calc_mac_cup_def crypt_ecb_ok [OF assms]
    by (simp_all add: zero_fill_def e crypto_consts substr_def)
qed

section \<open>The hypotheses can hold\<close>

text \<open>A cipher with the documented behaviour: every block is xored with the key.\<close>

definition xor_ssl :: openssl where
  "xor_ssl = \<lparr>DES_ecb_encrypt = \<lambda>enc k b. map2 (XOR) b k,
     DES_ecb3_encrypt = \<lambda>enc k1 k2 k3 b. map2 (XOR) b k1,
     DES_ncbc_encrypt = \<lambda>enc k s iv. cbc_chain enc (\<lambda>b. map2 (XOR) b k) iv (chunks 8 s),
     DES_ede3_cbc_encrypt = \<lambda>enc k1 k2 k3 s iv. cbc_chain enc (\<lambda>b. map2 (XOR) b k1) iv (chunks 8 s),
     AES_set_key = \<lambda>enc k. if aes_key k then 0 else - 2,
     AES_ecb_encrypt = \<lambda>enc k b. map2 (XOR) b (take 16 k),
     AES_cbc_encrypt = \<lambda>enc k s iv. cbc_chain enc (\<lambda>b. map2 (XOR) b (take 16 k)) iv (chunks 16 s)\<rparr>"

lemma xor_ssl_ok: "openssl_ok xor_ssl"
  by (auto simp: openssl_ok_def xor_ssl_def cipher_def cbc_mode_def key1_def key3_def aes_key_def ecb3_def cbc3_def xor_xor)

theorem block_crypto_roundtrip_witness:
  "(\<exists>c s. des_Encrypt xor_ssl CM_CBC PT_PKCS5 [1, 2, 3, 4, 5, 6, 7, 8] [65, 66, 67] [] [] = Inr (0, c) \<and>
      des_Decrypt xor_ssl CM_CBC [1, 2, 3, 4, 5, 6, 7, 8] c [] [] = Inr (0, s) \<and> unpad5 s = [65, 66, 67]) \<and>
   (\<exists>c s. aes_Encrypt xor_ssl CM_CBC PT_PKCS5 (replicate 16 9) [65, 66, 67] [] [] = Inr (0, c) \<and>
      aes_Decrypt xor_ssl CM_CBC (replicate 16 9) c [] [] = Inr (0, s) \<and> unpad5 s = [65, 66, 67])"
proof -
  have h: "des_key [1, 2, 3, 4, 5, 6, 7, 8]" "aes_key (replicate 16 9)" "pads 8 PT_PKCS5 [65, 66, 67]" "pads 16 PT_PKCS5 [65, 66, 67]"
    by (simp_all add: des_key_def aes_key_def pads_def)
  show ?thesis using block_crypto_roundtrip [OF xor_ssl_ok h(1,3,2,4), of CM_CBC "[]" "[]" "[]"] by auto
qed

theorem des_mac_equivalence_witness:
  "\<exists>c m. des_Encrypt xor_ssl CM_CBC PT_PKCS7 [1, 2, 3, 4, 5, 6, 7, 8] [65, 66, 67] [] [] = Inr (0, c) \<and>
     CalcMAC xor_ssl MM_X99 [1, 2, 3, 4, 5, 6, 7, 8] [65, 66, 67] [] [] = Inr (0, m) \<and> m = drop (length c - 8) c"
proof -
  have "des_key [1, 2, 3, 4, 5, 6, 7, 8]" by (simp add: des_key_def)
  from des_mac_equivalence [OF xor_ssl_ok this, of "[65, 66, 67]" "[]" "[]" "[]"] show ?thesis by blast
qed

theorem convert_pin_correct_witness:
  "\<exists>p c'. pan_block (bytes ''6222021001234567890'') = Inr p \<and>
     ConvertPin xor_ssl PF_WITH_ACCNO PF_WITHOUT_ACCNO (bytes ''6222021001234567890'') [6, 18, 52, 86, 255, 255, 255, 255]
       [1, 2, 3, 4, 5, 6, 7, 8] [8, 7, 6, 5, 4, 3, 2, 1] [] = Inr (0, c') \<and>
     ConvertPin xor_ssl PF_WITHOUT_ACCNO PF_WITH_ACCNO (bytes ''6222021001234567890'') c'
       [8, 7, 6, 5, 4, 3, 2, 1] [1, 2, 3, 4, 5, 6, 7, 8] [] = Inr (0, [6, 18, 52, 86, 255, 255, 255, 255])"
proof -
  have "des_key [1, 2, 3, 4, 5, 6, 7, 8]" "des_key [8, 7, 6, 5, 4, 3, 2, 1]" "8 dvd length [6, 18, 52, 86, 255, 255, 255, 255 :: byte]"
    by (simp_all add: des_key_def dvd_def) (intro exI [of _ 1], simp)
  from convert_pin_correct [OF xor_ssl_ok this, of "bytes ''6222021001234567890''" PF_WITH_ACCNO PF_WITHOUT_ACCNO "[]" "[]" "[]" "[]"]
  show ?thesis by blast
qed

theorem mac_of_empty_message_witness:
  "CalcMAC xor_ssl MM_CUP [1, 2, 3, 4, 5, 6, 7, 8] [] [] [] = Inl Out_of_range"
  using mac_of_empty_message [of "[1, 2, 3, 4, 5, 6, 7, 8]" xor_ssl "[]" "[]"] by (simp add: des_key_def)

end
