(* ===== verification/Connection_Pool.thy ===== *)
theory Connection_Pool
  imports Prelude
begin

text \<open>
  \<open>ConnectionPool\<close> and its manager (\<open>source/rpc/connection_pool.cpp\<close>, \<open>connection_pool_mgr.cpp\<close>,
  \<open>connection_provider.cpp\<close>): connections to a thrift server that clients borrow and give back. A
  connection is a number; whether it is open (\<open>isOpen\<close>) and what \<open>CreateConnection\<close> of the transport
  library returns are arguments of the operations, and so is \<open>time(NULL)\<close>. Every operation is one
  critical section, except that \<open>GetConnection\<close> releases the mutex while it waits: it is two
  sections, and other threads may run between them.
\<close>

section \<open>The pool\<close>

datatype conn_exception =
    UNKNOWN_CONNECTION_TYPE | INVALID_POOL_NAME | BAD_CONNECTION_POOL | CONNECT_FAILED | INTERNAL_ERROR | NON_ENOUGH_CONNECTION

type_synonym conn = nat

datatype created = Created conn | Null_connection | Connect_failed

record conn_pool =
  conTimeOut :: int
  openConns :: int
  maxConns :: int
  minConns :: int
  m_pool :: "(int \<times> conn) list"

definition MINCONN :: int where "MINCONN = 50"
definition MAXCONN :: int where "MAXCONN = 500"

definition ConnectionPool_new :: conn_pool where
  "ConnectionPool_new = \<lparr>conTimeOut = 60, openConns = 0, maxConns = 5, minConns = 0, m_pool = []\<rparr>"

text \<open>Both functions take \<open>unsigned int\<close>.\<close>

definition SetTimeOut :: "u32 \<Rightarrow> conn_pool \<Rightarrow> conn_pool" where
  "SetTimeOut connTimeOut s = s\<lparr>conTimeOut := sint connTimeOut\<rparr>"

definition SetPoolSize :: "u32 \<Rightarrow> u32 \<Rightarrow> conn_pool \<Rightarrow> conn_pool" where
  "SetPoolSize minConn maxConn s =
     s\<lparr>minConns := (if uint minConn > MINCONN then 1 else uint minConn), maxConns := (if uint maxConn > MAXCONN then 100 else uint maxConn)\<rparr>"

text \<open>
  \<open>Init\<close> opens \<open>minConns\<close> connections; \<open>creates\<close> are the results of the calls of \<open>CreateConnection\<close>. An
  exception leaves the connections that were opened in the pool.
\<close>

fun Init_loop :: "int \<Rightarrow> created list \<Rightarrow> conn_pool \<Rightarrow> (conn_exception + unit) \<times> conn_pool" where
  "Init_loop now [] s = (Inr (), s)"
| "Init_loop now (Created c # creates) s = Init_loop now creates (s\<lparr>m_pool := m_pool s @ [(now, c)], openConns := openConns s + 1\<rparr>)"
| "Init_loop now (Null_connection # creates) s = Init_loop now creates s"
| "Init_loop now (Connect_failed # creates) s = (Inl CONNECT_FAILED, s)"

definition pool_Init :: "int \<Rightarrow> (nat \<Rightarrow> created) \<Rightarrow> conn_pool \<Rightarrow> (conn_exception + unit) \<times> conn_pool" where
  "pool_Init now create s = Init_loop now (map create [0..<nat (minConns s)]) s"

text \<open>The loop of \<open>GetConnection\<close> over the idle connections.\<close>

fun get_loop :: "int \<Rightarrow> (conn \<Rightarrow> bool) \<Rightarrow> int \<Rightarrow> int \<Rightarrow> int \<Rightarrow> (int \<times> conn) list \<Rightarrow> conn option \<times> int \<times> (int \<times> conn) list" where
  "get_loop now isOpen mn tmo opn [] = (None, opn, [])"
| "get_loop now isOpen mn tmo opn ((use_time, c) # pool) =
     (if \<not> isOpen c then get_loop now isOpen mn tmo opn pool
      else if opn > mn \<and> now - use_time > tmo then get_loop now isOpen mn tmo (opn - 1) pool
      else (Some c, opn, pool))"

text \<open>Up to the wait: a connection, the null pointer \<open>CreateConnection\<close> gave, or the decision to wait.\<close>

datatype got = Got conn | Got_null | Must_wait

definition GetConnection_start :: "int \<Rightarrow> (conn \<Rightarrow> bool) \<Rightarrow> created \<Rightarrow> conn_pool \<Rightarrow> (conn_exception + got) \<times> conn_pool" where
  "GetConnection_start now isOpen create s =
     (case get_loop now isOpen (minConns s) (conTimeOut s) (openConns s) (m_pool s) of (r, opn, pool) \<Rightarrow>
       let s = s\<lparr>openConns := opn, m_pool := pool\<rparr> in
       case r of
         Some c \<Rightarrow> (Inr (Got c), s)
       | None \<Rightarrow>
           if opn < maxConns s
           then case create of
                  Created c \<Rightarrow> (Inr (Got c), s\<lparr>openConns := opn + 1\<rparr>)
                | Null_connection \<Rightarrow> (Inr Got_null, s)
                | Connect_failed \<Rightarrow> (Inl CONNECT_FAILED, s)
           else (Inr Must_wait, s))"

text \<open>After the wait, whether it was notified or timed out.\<close>

definition GetConnection_wake :: "conn_pool \<Rightarrow> (conn_exception + conn) \<times> conn_pool" where
  "GetConnection_wake s =
     (case m_pool s of [] \<Rightarrow> (Inl NON_ENOUGH_CONNECTION, s) | (use_time, c) # pool \<Rightarrow> (Inr c, s\<lparr>m_pool := pool\<rparr>))"

definition TerminateConnection :: "conn_pool \<Rightarrow> conn_pool" where
  "TerminateConnection s = s\<lparr>openConns := openConns s - 1\<rparr>"

definition ReleaseConnection :: "int \<Rightarrow> conn option \<Rightarrow> conn_pool \<Rightarrow> conn_pool" where
  "ReleaseConnection now connection s =
     (case connection of None \<Rightarrow> s | Some c \<Rightarrow> s\<lparr>m_pool := m_pool s @ [(now, c)]\<rparr>)"

text \<open>The destructor of \<open>ConnectionProvider\<close> gives its connection back or counts it as closed.\<close>

definition provider_done :: "int \<Rightarrow> (conn \<Rightarrow> bool) \<Rightarrow> conn option \<Rightarrow> conn_pool \<Rightarrow> conn_pool" where
  "provider_done now isOpen transport s =
     (case transport of None \<Rightarrow> s | Some c \<Rightarrow> if isOpen c then ReleaseConnection now (Some c) s else TerminateConnection s)"

section \<open>The manager\<close>

datatype transport_type = UNKNOWN | TSOCKET | TSSLSOCKET

type_synonym pool_mgr = "cstr \<rightharpoonup> conn_pool"

definition CreateConnectionPool ::
  "int \<Rightarrow> (nat \<Rightarrow> created) \<Rightarrow> transport_type \<Rightarrow> cstr \<Rightarrow> int \<Rightarrow> int \<Rightarrow> int \<Rightarrow> pool_mgr \<Rightarrow> (conn_exception + bool) \<times> pool_mgr" where
  "CreateConnectionPool now create type poolName minConn maxConn timeout mgr =
     (if poolName = [] \<or> mgr poolName \<noteq> None then (Inl INVALID_POOL_NAME, mgr)
      else if type \<noteq> TSOCKET then (Inl UNKNOWN_CONNECTION_TYPE, mgr)
      else case pool_Init now create (SetPoolSize (word_of_int minConn) (word_of_int maxConn) (SetTimeOut (word_of_int timeout) ConnectionPool_new)) of
             (Inl e, pool) \<Rightarrow> (Inl e, mgr)
           | (Inr _, pool) \<Rightarrow> (Inr True, mgr(poolName \<mapsto> pool)))"

definition GetConnectionPool :: "cstr \<Rightarrow> pool_mgr \<Rightarrow> conn_exception + conn_pool" where
  "GetConnectionPool poolName mgr =
     (if poolName = [] then Inl INVALID_POOL_NAME
      else case mgr poolName of None \<Rightarrow> Inl INVALID_POOL_NAME | Some pool \<Rightarrow> Inr pool)"

section \<open>Runs of the clients\<close>

text \<open>
  The pool with the connections that are lent out and the number of connections that were found
  closed. A client gives back only what it has, and the transport library never returns an object
  that is still in use.
\<close>

definition idle :: "conn_pool \<Rightarrow> conn set" where
  "idle s = snd ` set (m_pool s)"

definition closed_idle :: "(conn \<Rightarrow> bool) \<Rightarrow> conn_pool \<Rightarrow> conn_pool \<Rightarrow> nat" where
  "closed_idle isOpen s s' = length (filter (\<lambda>(t, c). \<not> isOpen c) (take (length (m_pool s) - length (m_pool s')) (m_pool s)))"

inductive pool_run :: "conn_pool \<Rightarrow> conn set \<Rightarrow> nat \<Rightarrow> bool" where
  init: "(\<And>i j c. create i = Created c \<Longrightarrow> create j = Created c \<Longrightarrow> i = j) \<Longrightarrow> pool_Init now create (SetPoolSize mn mx (SetTimeOut tmo ConnectionPool_new)) = (r, s) \<Longrightarrow> pool_run s {} 0"
| get: "pool_run s held lost \<Longrightarrow> (\<And>c. create = Created c \<Longrightarrow> c \<notin> held \<union> idle s) \<Longrightarrow>
    GetConnection_start now isOpen create s = (r, s') \<Longrightarrow>
    pool_run s' (case r of Inr (Got c) \<Rightarrow> insert c held | _ \<Rightarrow> held) (lost + closed_idle isOpen s s')"
| wake: "pool_run s held lost \<Longrightarrow> GetConnection_wake s = (r, s') \<Longrightarrow> pool_run s' (case r of Inr c \<Rightarrow> insert c held | _ \<Rightarrow> held) lost"
| give_back: "pool_run s held lost \<Longrightarrow> c \<in> held \<Longrightarrow> pool_run (provider_done now isOpen (Some c) s) (held - {c}) lost"

section \<open>The invariant of the pool\<close>

definition pool_inv :: "conn_pool \<Rightarrow> conn set \<Rightarrow> nat \<Rightarrow> bool" where
  "pool_inv s held lost \<longleftrightarrow> distinct (map snd (m_pool s)) \<and> finite held \<and> idle s \<inter> held = {} \<and>
     openConns s = int (length (m_pool s)) + int (card held) + int lost \<and> openConns s \<le> max (minConns s) (maxConns s) \<and>
     0 \<le> minConns s \<and> minConns s \<le> MINCONN \<and> 0 \<le> maxConns s \<and> maxConns s \<le> MAXCONN"

lemma get_loop_spec:
  "get_loop now isOpen mn tmo opn pool = (r, opn', pool') \<Longrightarrow>
     \<exists>pre. pool = pre @ pool' \<and> opn' \<le> opn \<and>
       opn - int (length pool) = opn' - int (length pool') - (if r = None then 0 else 1) - int (length (filter (\<lambda>(t, c). \<not> isOpen c) pre)) \<and>
       (case r of None \<Rightarrow> pool' = [] | Some c \<Rightarrow> \<exists>pre' t. pre = pre' @ [(t, c)])"
proof (induction pool arbitrary: opn)
  case (Cons x pool)
  obtain t c where x: "x = (t, c)" by force
  consider (closed) "\<not> isOpen c" | (old) "isOpen c" "opn > mn \<and> now - t > tmo" | (good) "isOpen c" "\<not> (opn > mn \<and> now - t > tmo)" by blast
  then show ?case
  proof cases
    case closed
    then have "get_loop now isOpen mn tmo opn pool = (r, opn', pool')" using Cons.prems x by simp
    from Cons.IH [OF this] obtain pre where "pool = pre @ pool' \<and> opn' \<le> opn \<and>
       opn - int (length pool) = opn' - int (length pool') - (if r = None then 0 else 1) - int (length (filter (\<lambda>(t, c). \<not> isOpen c) pre)) \<and>
       (case r of None \<Rightarrow> pool' = [] | Some c \<Rightarrow> \<exists>pre' t. pre = pre' @ [(t, c)])" ..
    then show ?thesis using x closed by (intro exI [of _ "x # pre"]) (auto split: option.splits)
  next
    case old
    then have "get_loop now isOpen mn tmo (opn - 1) pool = (r, opn', pool')" using Cons.prems x by simp
    from Cons.IH [OF this] obtain pre where "pool = pre @ pool' \<and> opn' \<le> opn - 1 \<and>
       opn - 1 - int (length pool) = opn' - int (length pool') - (if r = None then 0 else 1) - int (length (filter (\<lambda>(t, c). \<not> isOpen c) pre)) \<and>
       (case r of None \<Rightarrow> pool' = [] | Some c \<Rightarrow> \<exists>pre' t. pre = pre' @ [(t, c)])" ..
    then show ?thesis using x old by (intro exI [of _ "x # pre"]) (auto split: option.splits)
  next
    case good
    then have "r = Some c" "opn' = opn" "pool' = pool" using Cons.prems x by (simp_all split: if_splits)
    then show ?thesis using x good by (intro exI [of _ "[x]"]) simp
  qed
qed simp

lemma Init_loop_spec:
  "Init_loop now creates s = (r, s') \<Longrightarrow> distinct (filter (\<lambda>x. \<exists>c. x = Created c) creates) \<Longrightarrow> distinct (map snd (m_pool s)) \<Longrightarrow>
     (\<forall>c. Created c \<in> set creates \<longrightarrow> c \<notin> idle s) \<Longrightarrow>
     distinct (map snd (m_pool s')) \<and> openConns s' - int (length (m_pool s')) = openConns s - int (length (m_pool s)) \<and>
     openConns s' \<le> openConns s + int (length creates) \<and> minConns s' = minConns s \<and> maxConns s' = maxConns s"
proof (induction creates arbitrary: s)
  case (Cons x creates)
  show ?case
  proof (cases x)
    case (Created c)
    let ?s = "s\<lparr>m_pool := m_pool s @ [(now, c)], openConns := openConns s + 1\<rparr>"
    have new: "c \<notin> idle s" "Created c \<notin> set creates" using Cons.prems(2,4) Created by auto
    have "Init_loop now creates ?s = (r, s')" using Cons.prems(1) Created by simp
    moreover have "distinct (map snd (m_pool ?s))" using Cons.prems(3) new(1) by (simp add: idle_def)
    moreover have "\<forall>c'. Created c' \<in> set creates \<longrightarrow> c' \<notin> idle ?s" using Cons.prems(4) new(2) by (auto simp: idle_def)
    moreover have "distinct (filter (\<lambda>x. \<exists>c. x = Created c) creates)" using Cons.prems(2) Created by simp
    ultimately show ?thesis using Cons.IH [of ?s] by simp
  qed (use Cons in fastforce)+
qed simp

lemma inv_init:
  assumes c: "\<And>i j c. create i = Created c \<Longrightarrow> create j = Created c \<Longrightarrow> i = j"
    and i: "pool_Init now create (SetPoolSize mn mx (SetTimeOut tmo ConnectionPool_new)) = (r, s)"
  shows "pool_inv s {} 0"
proof -
  let ?s = "SetPoolSize mn mx (SetTimeOut tmo ConnectionPool_new)"
  have cfg: "0 \<le> minConns ?s" "minConns ?s \<le> MINCONN" "0 \<le> maxConns ?s" "maxConns ?s \<le> MAXCONN" "m_pool ?s = []" "openConns ?s = 0"
    by (simp_all add: SetPoolSize_def SetTimeOut_def ConnectionPool_new_def MINCONN_def MAXCONN_def)
  have "distinct (filter (\<lambda>x. \<exists>c. x = Created c) (map create ns))" if "distinct ns" for ns :: "nat list"
    using that by (induction ns) (auto dest: c)
  then have "distinct (filter (\<lambda>x. \<exists>c. x = Created c) (map create [0..<nat (minConns ?s)]))" by simp
  from Init_loop_spec [OF i [unfolded pool_Init_def] this] cfg show ?thesis
    by (auto simp: pool_inv_def idle_def le_max_iff_disj)
qed

lemma pool_inv_get:
  assumes inv: "pool_inv s held lost" and new: "\<And>c. create = Created c \<Longrightarrow> c \<notin> held \<union> idle s"
    and g: "GetConnection_start now isOpen create s = (r, s')"
  shows "pool_inv s' (case r of Inr (Got c) \<Rightarrow> insert c held | _ \<Rightarrow> held) (lost + closed_idle isOpen s s')"
proof -
  obtain q opn pool where l: "get_loop now isOpen (minConns s) (conTimeOut s) (openConns s) (m_pool s) = (q, opn, pool)" by (metis prod_cases3)
  from get_loop_spec [OF l] obtain pre where pre: "m_pool s = pre @ pool" "opn \<le> openConns s"
      "openConns s - int (length (m_pool s)) = opn - int (length pool) - (if q = None then 0 else 1) - int (length (filter (\<lambda>(t, c). \<not> isOpen c) pre))"
      "case q of None \<Rightarrow> pool = [] | Some c \<Rightarrow> \<exists>pre' t. pre = pre' @ [(t, c)]" by blast
  have s': "m_pool s' = pool" "minConns s' = minConns s" "maxConns s' = maxConns s"
    using g l by (auto simp: GetConnection_start_def Let_def split: option.splits created.splits if_splits)
  have lost: "closed_idle isOpen s s' = length (filter (\<lambda>(t, c). \<not> isOpen c) pre)" by (simp add: closed_idle_def s'(1) pre(1))
  have d: "distinct (map snd pre @ map snd pool)" "idle s = snd ` set pre \<union> snd ` set pool" "idle s' = snd ` set pool"
    using inv pre(1) s'(1) by (auto simp: pool_inv_def idle_def)
  have disj: "idle s \<inter> held = {}" "finite held" using inv by (simp_all add: pool_inv_def)
  show ?thesis
  proof (cases q)
    case (Some c)
    then obtain pre' t where p': "pre = pre' @ [(t, c)]" using pre(4) by auto
    have r: "r = Inr (Got c)" "openConns s' = opn" using g l Some by (auto simp: GetConnection_start_def)
    have c: "c \<notin> held" "c \<notin> snd ` set pool" using d disj(1) p' by auto
    then show ?thesis using inv s' lost d disj pre r Some unfolding pool_inv_def by auto
  next
    case None
    then have np: "pool = []" using pre(4) by simp
    show ?thesis
    proof (cases "opn < maxConns s \<and> (\<exists>c. create = Created c)")
      case True
      then obtain c where c: "create = Created c" by blast
      have r: "r = Inr (Got c)" "openConns s' = opn + 1" using g l None True c by (auto simp: GetConnection_start_def)
      then show ?thesis using inv s' lost d disj pre(1,3) None np new [OF c] True unfolding pool_inv_def by auto
    next
      case False
      have r: "(case r of Inr (Got c) \<Rightarrow> insert c held | _ \<Rightarrow> held) = held" "openConns s' = opn"
        using g l None False by (auto simp: GetConnection_start_def Let_def split: created.splits if_splits)
      then show ?thesis using inv s' lost d disj pre(1,2,3) None np unfolding pool_inv_def by auto
    qed
  qed
qed

lemma pool_inv_wake: "pool_inv s held lost \<Longrightarrow> GetConnection_wake s = (r, s') \<Longrightarrow> pool_inv s' (case r of Inr c \<Rightarrow> insert c held | _ \<Rightarrow> held) lost"
  by (auto simp: GetConnection_wake_def pool_inv_def idle_def split: list.splits) (force+)

lemma inv_give_back: "pool_inv s held lost \<Longrightarrow> c \<in> held \<Longrightarrow> pool_inv (provider_done now isOpen (Some c) s) (held - {c}) lost"
proof -
  assume a: "pool_inv s held lost" "c \<in> held"
  then have "Suc (card (held - {c})) = card held" by (intro card_Suc_Diff1) (simp_all add: pool_inv_def)
  with a show ?thesis by (auto simp: provider_done_def ReleaseConnection_def TerminateConnection_def pool_inv_def idle_def)
qed

lemma pool_run_inv: "pool_run s held lost \<Longrightarrow> pool_inv s held lost"
proof (induction rule: pool_run.induct)
  case (init create now mn mx tmo r s)
  show ?case by (rule inv_init [OF init])
next
  case (get s held lost create now isOpen r s')
  show ?case by (rule pool_inv_get [OF get.IH get.hyps(2,3)])
qed (auto intro: pool_inv_wake inv_give_back)

section \<open>Properties\<close>

lemma got_not_held:
  assumes inv: "pool_inv s held lost" and new: "\<And>c. create = Created c \<Longrightarrow> c \<notin> held \<union> idle s"
    and g: "GetConnection_start now isOpen create s = (Inr (Got c), s')"
  shows "c \<notin> held"
proof -
  obtain q opn pool where l: "get_loop now isOpen (minConns s) (conTimeOut s) (openConns s) (m_pool s) = (q, opn, pool)" by (metis prod_cases3)
  show ?thesis
  proof (cases q)
    case None
    then have "create = Created c" using g l by (auto simp: GetConnection_start_def Let_def split: created.splits if_splits)
    from new [OF this] show ?thesis by simp
  next
    case (Some d)
    then have "c = d" using g l by (auto simp: GetConnection_start_def)
    with Some get_loop_spec [OF l] have "c \<in> idle s" by (auto simp: idle_def)
    then show ?thesis using inv by (auto simp: pool_inv_def)
  qed
qed

text \<open>
  C25. The pool lends no connection twice and counts what it opened: after any calls of any clients, the
  idle connections are distinct and none of them is lent out, \<open>openConns\<close> is the number of idle and
  lent connections plus the number of connections that were found closed, it never exceeds the larger
  of the two sizes, which stay in the range of 0 to 50 and 0 to 500, and a connection that a client
  gets is held by no other client.
\<close>

theorem connection_pool_invariant:
  assumes "pool_run s held lost"
  shows "distinct (map snd (m_pool s)) \<and> idle s \<inter> held = {} \<and>
     openConns s = int (length (m_pool s)) + int (card held) + int lost \<and> openConns s \<le> max (minConns s) (maxConns s) \<and>
     minConns s \<in> {0..50} \<and> maxConns s \<in> {0..500} \<and>
     (\<forall>now isOpen create c s'. (\<forall>d. create = Created d \<longrightarrow> d \<notin> held \<union> idle s) \<and> GetConnection_start now isOpen create s = (Inr (Got c), s') \<longrightarrow> c \<notin> held) \<and>
     (\<forall>c s'. GetConnection_wake s = (Inr c, s') \<longrightarrow> c \<notin> held)"
proof -
  have inv: "pool_inv s held lost" using assms by (rule pool_run_inv)
  moreover have "c \<notin> held" if "GetConnection_wake s = (Inr c, s')" for c s'
    using inv that by (auto simp: GetConnection_wake_def pool_inv_def idle_def split: list.splits)
  moreover have "c \<notin> held" if "\<forall>d. create = Created d \<longrightarrow> d \<notin> held \<union> idle s" "GetConnection_start now isOpen create s = (Inr (Got c), s')"
    for now isOpen create c s'
    by (rule got_not_held [OF inv _ that(2)]) (use that(1) in blast)
  ultimately show ?thesis unfolding pool_inv_def MINCONN_def MAXCONN_def by (simp, blast)
qed

text \<open>A pool of size one that opens a connection, gets it back and finds it closed.\<close>

definition pool0 :: conn_pool where
  "pool0 = SetPoolSize 0 1 (SetTimeOut 60 ConnectionPool_new)"

lemma pool0_runs:
  "pool_run pool0 {} 0" "pool_run (pool0\<lparr>openConns := 1\<rparr>) {7} 0" "pool_run (pool0\<lparr>openConns := 1, m_pool := [(0, 7)]\<rparr>) {} 0"
  "pool_run (pool0\<lparr>openConns := 1\<rparr>) {} 1"
proof -
  show r0: "pool_run pool0 {} 0"
    using pool_run.init [of "\<lambda>_. Null_connection" 0 0 1 60] by (simp add: pool0_def SetPoolSize_def SetTimeOut_def ConnectionPool_new_def pool_Init_def MINCONN_def)
  have fields: "openConns pool0 = 0" "maxConns pool0 = 1" "minConns pool0 = 0" "m_pool pool0 = []"
    by (simp_all add: pool0_def SetPoolSize_def SetTimeOut_def ConnectionPool_new_def MINCONN_def MAXCONN_def)
  have "GetConnection_start 0 (\<lambda>_. True) (Created 7) pool0 = (Inr (Got 7), pool0\<lparr>openConns := 1\<rparr>)"
    by (simp add: GetConnection_start_def fields)
  from pool_run.get [OF r0 _ this] show r1: "pool_run (pool0\<lparr>openConns := 1\<rparr>) {7} 0"
    by (simp add: idle_def fields closed_idle_def)
  from pool_run.give_back [OF r1, of 7 0 "\<lambda>_. True"] show r2: "pool_run (pool0\<lparr>openConns := 1, m_pool := [(0, 7)]\<rparr>) {} 0"
    by (simp add: provider_done_def ReleaseConnection_def fields)
  have "GetConnection_start 0 (\<lambda>_. False) Null_connection (pool0\<lparr>openConns := 1, m_pool := [(0, 7)]\<rparr>) = (Inr Must_wait, pool0\<lparr>openConns := 1\<rparr>)"
    using fields by (cases pool0) (simp add: GetConnection_start_def)
  from pool_run.get [OF r2 _ this] show "pool_run (pool0\<lparr>openConns := 1\<rparr>) {} 1" by (simp add: closed_idle_def fields)
qed

theorem connection_pool_invariant_witness:
  "distinct (map snd (m_pool (pool0\<lparr>openConns := 1\<rparr>))) \<and> openConns (pool0\<lparr>openConns := 1\<rparr>) \<le> max (minConns pool0) (maxConns pool0)"
  using connection_pool_invariant [OF pool0_runs(2)] by simp

text \<open>
  A connection that the peer has closed is dropped without being counted as closed. A pool whose
  idle connections were all closed is dead: nobody holds a connection and none is idle, and yet every
  call of \<open>GetConnection\<close> waits and then fails with \<open>NON_ENOUGH_CONNECTION\<close>, whatever the server
  would answer, and the state never changes again.
\<close>

theorem connection_pool_leak:
  "\<exists>s n. pool_run s {} n \<and> idle s = {} \<and> openConns s = maxConns s \<and> maxConns s = 1 \<and>
     (\<forall>now isOpen create. GetConnection_start now isOpen create s = (Inr Must_wait, s)) \<and> GetConnection_wake s = (Inl NON_ENOUGH_CONNECTION, s)"
proof -
  let ?s = "pool0\<lparr>openConns := 1\<rparr>"
  have "maxConns ?s = 1" "m_pool ?s = []"
    by (simp_all add: pool0_def SetPoolSize_def SetTimeOut_def ConnectionPool_new_def MINCONN_def MAXCONN_def)
  then have "idle ?s = {} \<and> openConns ?s = maxConns ?s \<and> maxConns ?s = 1 \<and>
     (\<forall>now isOpen create. GetConnection_start now isOpen create ?s = (Inr Must_wait, ?s)) \<and> GetConnection_wake ?s = (Inl NON_ENOUGH_CONNECTION, ?s)"
    by (cases pool0) (simp add: GetConnection_start_def GetConnection_wake_def idle_def)
  with pool0_runs(4) show ?thesis by blast
qed

end
