(* ===== verification/Async_Logging.thy ===== *)
theory Async_Logging
  imports Prelude
begin

text \<open>
  \<open>AsyncLogging\<close> (\<open>source/log/async_logging.h\<close>, \<open>async_logging.cpp\<close>): log lines are collected in
  buffers of 2000 lines; the writer thread swaps the buffers out and writes their text. A
  \<open>BufferPtr\<close> is an option, \<open>None\<close> for the null pointer; using a null pointer or taking a buffer from
  an empty vector is \<open>Undefined_behaviour\<close>. \<open>Data\<close> is modelled from the point where its wait has
  ended, since before it only looks whether there are full buffers.
\<close>

section \<open>Buffers\<close>

type_synonym log_buffer = "cstr list"

definition BUFFER_LINES :: nat where "BUFFER_LINES = 2000"

definition buffer_Avail :: "log_buffer \<Rightarrow> int" where
  "buffer_Avail b = int BUFFER_LINES - int (length b)"

definition buffer_Append :: "cstr \<Rightarrow> log_buffer \<Rightarrow> log_buffer" where
  "buffer_Append line b = b @ [line]"

definition buffer_Data :: "log_buffer \<Rightarrow> cstr" where
  "buffer_Data b = concat (map (\<lambda>l. l @ [10]) b)"

definition buffer_Reset :: "log_buffer \<Rightarrow> log_buffer" where
  "buffer_Reset b = []"

section \<open>The logger\<close>

record async_logging =
  m_flush_interval :: int
  m_curr_buffer :: "log_buffer option"
  m_next_buffer :: "log_buffer option"
  m_buffers :: "log_buffer list"

definition AsyncLogging_new :: async_logging where
  "AsyncLogging_new = \<lparr>m_flush_interval = 3000, m_curr_buffer = Some [], m_next_buffer = Some [], m_buffers = []\<rparr>"

definition AsyncLogging_Init :: "int \<Rightarrow> async_logging \<Rightarrow> async_logging" where
  "AsyncLogging_Init flush_interval s = s\<lparr>m_flush_interval := (if flush_interval = 0 then 3000 else flush_interval)\<rparr>"

definition log_Append :: "cstr \<Rightarrow> async_logging \<Rightarrow> async_logging result" where
  "log_Append line s =
     (case m_curr_buffer s of
        None \<Rightarrow> Inl Undefined_behaviour
      | Some cb \<Rightarrow>
          if buffer_Avail cb > 0 then Inr (s\<lparr>m_curr_buffer := Some (buffer_Append line cb)\<rparr>)
          else
            let s = s\<lparr>m_buffers := m_buffers s @ [cb], m_curr_buffer := None\<rparr>;
                s = (if m_next_buffer s \<noteq> None then s\<lparr>m_curr_buffer := m_next_buffer s, m_next_buffer := None\<rparr>
                     else s\<lparr>m_curr_buffer := Some []\<rparr>) in
            case m_curr_buffer s of
              None \<Rightarrow> Inl Undefined_behaviour
            | Some cb \<Rightarrow> Inr (s\<lparr>m_curr_buffer := Some (buffer_Append line cb)\<rparr>))"

text \<open>The part of \<open>Data\<close> under the lock: the buffers to write and whether the second new buffer was used.\<close>

definition Data_swap :: "async_logging \<Rightarrow> (log_buffer list \<times> log_buffer option \<times> async_logging) result" where
  "Data_swap s =
     (case m_curr_buffer s of
        None \<Rightarrow> Inl Undefined_behaviour
      | Some cb \<Rightarrow>
          let buffers_write = m_buffers s @ [cb];
              s = s\<lparr>m_curr_buffer := Some [], m_buffers := []\<rparr> in
          if m_next_buffer s = None then Inr (buffers_write, None, s\<lparr>m_next_buffer := Some []\<rparr>)
          else Inr (buffers_write, Some [], s))"

definition dropped_text :: "nat \<Rightarrow> cstr" where
  "dropped_text n = snprintf 256 (bytes ''Dropped log messages, '' @ dec_digits (n - 2) @ bytes '' larger buffers'' @ [10])"

definition pop_back :: "log_buffer list \<Rightarrow> (log_buffer \<times> log_buffer list) result" where
  "pop_back bs = (if bs = [] then Inl Undefined_behaviour else Inr (last bs, butlast bs))"

definition log_Data :: "async_logging \<Rightarrow> (cstr \<times> async_logging) result" where
  "log_Data s =
     bind_result (Data_swap s) (\<lambda>(buffers_write, new_buffer2, s).
       let (buf, buffers_write) = (if length buffers_write > 25 then (dropped_text (length buffers_write), take 2 buffers_write) else ([], buffers_write));
           data = concat (map buffer_Data buffers_write) @ buf;
           buffers_write = (if length buffers_write > 2 then take 2 buffers_write else buffers_write) in
       bind_result (pop_back buffers_write) (\<lambda>(new_buffer1, buffers_write).
       bind_result (if new_buffer2 = None then pop_back buffers_write else Inr ([], buffers_write)) (\<lambda>(new_buffer2, buffers_write).
         Inr (data, s))))"

section \<open>The specification: a list of lines\<close>

datatype log_op = Log_append cstr | Log_data

text \<open>Up to 50000 lines are delivered; of more only the first 4000, with a note how many buffers were dropped.\<close>

fun log_spec :: "log_op \<Rightarrow> cstr list \<Rightarrow> cstr \<times> cstr list" where
  "log_spec (Log_append l) lines = ([], lines @ [l])"
| "log_spec Log_data lines =
     (if length lines \<le> 25 * BUFFER_LINES then concat (map (\<lambda>l. l @ [10]) lines)
      else concat (map (\<lambda>l. l @ [10]) (take (2 * BUFFER_LINES) lines)) @ dropped_text ((length lines - 1) div BUFFER_LINES + 1), [])"

fun log_step :: "log_op \<Rightarrow> async_logging \<Rightarrow> cpp_error + cstr \<times> async_logging" where
  "log_step (Log_append l) s = bind_result (log_Append l s) (\<lambda>s. Inr ([], s))"
| "log_step Log_data s = log_Data s"

text \<open>
  The current buffer is there and not too full, the other buffers are full, and there is a spare
  buffer unless a full one waits to be written.
\<close>

definition log_inv :: "async_logging \<Rightarrow> bool" where
  "log_inv s \<longleftrightarrow> (\<exists>cb. m_curr_buffer s = Some cb \<and> length cb \<le> BUFFER_LINES \<and> (m_buffers s \<noteq> [] \<longrightarrow> cb \<noteq> [])) \<and>
     (\<forall>b\<in>set (m_buffers s). length b = BUFFER_LINES) \<and> (m_next_buffer s = Some [] \<or> m_next_buffer s = None \<and> m_buffers s \<noteq> [])"

definition log_lines :: "async_logging \<Rightarrow> cstr list" where
  "log_lines s = concat (m_buffers s) @ (case m_curr_buffer s of None \<Rightarrow> [] | Some b \<Rightarrow> b)"

lemma buffer_lines_pos: "0 < BUFFER_LINES"
  by (simp add: BUFFER_LINES_def)

lemma log_Append_ok:
  assumes "log_inv s"
  shows "\<exists>s'. log_Append l s = Inr s' \<and> log_inv s' \<and> log_lines s' = log_lines s @ [l]"
proof -
  obtain cb where c: "m_curr_buffer s = Some cb" "length cb \<le> BUFFER_LINES" "m_buffers s \<noteq> [] \<longrightarrow> cb \<noteq> []"
    using assms by (auto simp: log_inv_def)
  show ?thesis
  proof (cases "buffer_Avail cb > 0")
    case True
    then show ?thesis using assms c by (auto simp: log_Append_def log_inv_def log_lines_def buffer_Append_def buffer_Avail_def)
  next
    case False
    then have full: "length cb = BUFFER_LINES" using c(2) by (simp add: buffer_Avail_def)
    show ?thesis
      using assms c False full buffer_lines_pos
      by (cases "m_next_buffer s") (auto simp: log_Append_def Let_def log_inv_def log_lines_def buffer_Append_def)
  qed
qed

lemma buffer_Data_concat: "concat (map buffer_Data bs) = concat (map (\<lambda>l. l @ [10]) (concat bs))"
  by (induction bs) (simp_all add: buffer_Data_def)

lemma full_buffers: "\<forall>b\<in>set bs. length b = k \<Longrightarrow> length (concat bs) = k * length bs"
  by (induction bs) simp_all

lemma take_full: "\<forall>b\<in>set bs. length b = k \<Longrightarrow> n \<le> length bs \<Longrightarrow> take (n * k) (concat bs @ xs) = concat (take n bs)"
proof (induction bs arbitrary: n)
  case (Cons b bs)
  then show ?case by (cases n) auto
qed simp

text \<open>What \<open>Data\<close> returns, by the buffers there are; the two buffers it takes back exist.\<close>

lemma pop_back_ok: "bs \<noteq> [] \<Longrightarrow> \<exists>b. pop_back bs = Inr (b, butlast bs)"
  by (simp add: pop_back_def)

lemma log_Data_run:
  assumes inv: "log_inv s" and c: "m_curr_buffer s = Some cb" and bw: "bw = m_buffers s @ [cb]"
    and w: "(if length bw > 25 then (dropped_text (length bw), take 2 bw) else ([], bw)) = (buf, w)"
  shows "log_Data s = Inr (concat (map buffer_Data w) @ buf, s\<lparr>m_curr_buffer := Some [], m_buffers := [], m_next_buffer := Some []\<rparr>)"
proof -
  have nx: "m_next_buffer s = Some [] \<or> m_next_buffer s = None \<and> m_buffers s \<noteq> []" using inv by (auto simp: log_inv_def)
  let ?nb = "(if m_next_buffer s = None then None else Some []) :: log_buffer option"
  let ?t = "if length w > 2 then take 2 w else w"
  have swap: "Data_swap s = Inr (bw, ?nb, s\<lparr>m_curr_buffer := Some [], m_buffers := [], m_next_buffer := Some []\<rparr>)"
    using c nx bw by (auto simp: Data_swap_def Let_def)
  have "w = bw \<or> w = take 2 bw" using w by (auto split: if_splits)
  then have l: "length ?t = min 2 (length bw)" by auto
  have n: "0 < length bw" "m_next_buffer s = None \<longrightarrow> 2 \<le> length bw" using nx bw by (auto simp: Suc_le_eq)
  have "0 < length ?t" unfolding l using n(1) by linarith
  then have t: "?t \<noteq> []" unfolding length_greater_0_conv .
  have t2: "m_next_buffer s = None \<longrightarrow> butlast ?t \<noteq> []" using l n(2) length_butlast [of ?t] by (intro impI notI) simp
  obtain b where b: "pop_back ?t = Inr (b, butlast ?t)" using pop_back_ok [OF t] by blast
  show ?thesis
    unfolding log_Data_def swap bind_result.simps prod.case w Let_def b using t2 pop_back_ok [of "butlast ?t"] by (cases "m_next_buffer s") auto
qed

text \<open>More than 25 buffers are more than 50000 lines, and the number of buffers follows from that of the lines.\<close>

lemma buffer_count:
  assumes inv: "log_inv s" and c: "m_curr_buffer s = Some cb"
  shows "length (m_buffers s @ [cb]) > 25 \<longleftrightarrow> \<not> length (log_lines s) \<le> 25 * BUFFER_LINES"
    and "m_buffers s \<noteq> [] \<Longrightarrow> (length (log_lines s) - 1) div BUFFER_LINES + 1 = length (m_buffers s @ [cb])"
proof -
  have cb: "length cb \<le> BUFFER_LINES" "m_buffers s \<noteq> [] \<Longrightarrow> length cb \<noteq> 0" and full: "\<forall>b\<in>set (m_buffers s). length b = BUFFER_LINES"
    using inv c by (auto simp: log_inv_def)
  have lines: "length (log_lines s) = length (m_buffers s) * BUFFER_LINES + length cb" using c full_buffers [OF full] by (simp add: log_lines_def mult.commute)
  show "length (m_buffers s @ [cb]) > 25 \<longleftrightarrow> \<not> length (log_lines s) \<le> 25 * BUFFER_LINES"
  proof (cases "25 \<le> length (m_buffers s)")
    case True
    then have "m_buffers s \<noteq> []" by auto
    then have "25 * BUFFER_LINES \<le> length (m_buffers s) * BUFFER_LINES" "length cb \<noteq> 0" using True cb(2) by auto
    then have "\<not> length (m_buffers s) * BUFFER_LINES + length cb \<le> 25 * BUFFER_LINES" by linarith
    then show ?thesis using True unfolding lines by simp
  next
    case False
    then have "length (m_buffers s) * BUFFER_LINES \<le> 24 * BUFFER_LINES" by simp
    then have "length (m_buffers s) * BUFFER_LINES + length cb \<le> 25 * BUFFER_LINES" using cb(1) by linarith
    then show ?thesis using False unfolding lines by simp
  qed
  assume "m_buffers s \<noteq> []"
  then have nz: "length cb \<noteq> 0" by (rule cb(2))
  then have "length cb - 1 < BUFFER_LINES" using cb(1) by linarith
  moreover have "length (log_lines s) - 1 = (length cb - 1) + length (m_buffers s) * BUFFER_LINES" using nz lines by linarith
  ultimately show "(length (log_lines s) - 1) div BUFFER_LINES + 1 = length (m_buffers s @ [cb])" using buffer_lines_pos by simp
qed

lemma log_Data_ok:
  assumes inv: "log_inv s"
  shows "\<exists>s'. log_Data s = Inr (fst (log_spec Log_data (log_lines s)), s') \<and> log_inv s' \<and> log_lines s' = []"
proof -
  obtain cb where c: "m_curr_buffer s = Some cb" using inv by (auto simp: log_inv_def)
  have full: "\<forall>b\<in>set (m_buffers s). length b = BUFFER_LINES" using inv by (simp add: log_inv_def)
  let ?bw = "m_buffers s @ [cb]" and ?s = "s\<lparr>m_curr_buffer := Some [], m_buffers := [], m_next_buffer := Some []\<rparr>"
  have lines: "log_lines s = concat ?bw" using c by (simp add: log_lines_def)
  have s': "log_inv ?s" "log_lines ?s = []" by (simp_all add: log_inv_def log_lines_def)
  note run = log_Data_run [OF inv c refl] and count = buffer_count [OF inv c]
  show ?thesis
  proof (cases "length ?bw > 25")
    case False
    then have "log_Data s = Inr (concat (map buffer_Data ?bw) @ [], ?s)" by (intro run) simp
    then show ?thesis using False count(1) s' lines by (auto simp: buffer_Data_concat buffer_Data_def)
  next
    case True
    then have m: "2 \<le> length (m_buffers s)" "m_buffers s \<noteq> []" by auto
    have "take (2 * BUFFER_LINES) (log_lines s) = concat (take 2 ?bw)" unfolding lines using take_full [OF full m(1), of cb] m(1) by simp
    moreover have "log_Data s = Inr (concat (map buffer_Data (take 2 ?bw)) @ dropped_text (length ?bw), ?s)" using True by (intro run) simp
    ultimately show ?thesis using True count(1) count(2) [OF m(2)] s' by (auto simp: buffer_Data_concat)
  qed
qed

interpretation logger: data_refinement log_inv log_lines log_step log_spec "\<lambda>op lines. True"
proof
  fix s op assume inv: "log_inv s"
  show "\<exists>s'. log_step op s = Inr (fst (log_spec op (log_lines s)), s') \<and> log_inv s' \<and> log_lines s' = snd (log_spec op (log_lines s))"
  proof (cases op)
    case (Log_append l)
    then show ?thesis using log_Append_ok [OF inv, of l] by auto
  next
    case Log_data
    then show ?thesis using log_Data_ok [OF inv] by (simp del: log_spec.simps) (simp add: log_spec.simps(2))
  qed
qed

lemma log_inv_new: "log_inv (AsyncLogging_Init n AsyncLogging_new)" "log_lines (AsyncLogging_Init n AsyncLogging_new) = []"
  by (simp_all add: AsyncLogging_Init_def AsyncLogging_new_def log_inv_def log_lines_def)

lemma legal_log: "legal_ops (\<lambda>op lines. True) log_spec ops lines"
  by (induction ops arbitrary: lines) simp_all

text \<open>
  C29. The logger behaves like one list of lines, whatever the order of the calls: every call of \<open>Data\<close>
  returns exactly the lines appended since the last one, in order and each closed by a newline, as
  long as there are at most 50000 of them; of more it returns the first 4000 and a note with the
  number of buffers it dropped. No null pointer is used and no buffer is taken from an empty vector.
\<close>

theorem async_logging_refines_lines:
  "\<exists>s. run_ops log_step ops (AsyncLogging_Init n AsyncLogging_new) = Inr (fst (run_spec log_spec ops []), s) \<and>
     log_lines s = snd (run_spec log_spec ops [])"
  using logger.run_refines [OF log_inv_new(1), of ops n] legal_log unfolding log_inv_new(2) by blast

end
