(* ===== verification/Message_Handles.thy ===== *)
theory Message_Handles
  imports Prelude
begin

text \<open>
  \<open>Message\<close> (\<open>source/message/message.cpp\<close>): handles of the message layer and the drivers bound to
  them. A driver is a number; its name is the argument \<open>name\<close>, and what its methods return are arguments
  of the operations that call them. The class has only static members: they are the fields of the
  record. \<open>int32_t\<close> has no value above \<open>INT_MAX\<close>.
\<close>

type_synonym driver = nat
type_synonym send_to = nat

record message =
  send_to_functions :: "int \<rightharpoonup> send_to"
  max_handle :: int
  free_handles :: "int list"
  prefix_to_driver :: "cstr \<rightharpoonup> driver"
  handle_to_driver :: "int \<rightharpoonup> driver"
  all_driver :: "driver set"
  all_handles :: "int set"
  error_msg :: cstr

definition INT_MAX :: int where "INT_MAX = 2 ^ 31 - 1"

definition message0 :: message where
  "message0 = \<lparr>send_to_functions = Map.empty, max_handle = 0, free_handles = [], prefix_to_driver = Map.empty,
     handle_to_driver = Map.empty, all_driver = {}, all_handles = {}, error_msg = []\<rparr>"

section \<open>Operations\<close>

definition NET_LIB_ERR_RETURN :: "string \<Rightarrow> message \<Rightarrow> int \<times> message" where
  "NET_LIB_ERR_RETURN msg s = (- 1, s\<lparr>error_msg := snprintf 256 (bytes msg)\<rparr>)"

text \<open>\<open>allocHandle\<close> fills the queue with ten more handles when it is empty and calls itself again.\<close>

function allocHandle :: "message \<Rightarrow> int \<times> message" where
  "allocHandle s =
     (case free_handles s of
        handle # rest \<Rightarrow> (handle, s\<lparr>free_handles := rest, all_handles := insert handle (all_handles s)\<rparr>)
      | [] \<Rightarrow>
          if INT_MAX \<le> max_handle s then (- 1, s)
          else let n = min 10 (INT_MAX - max_handle s) in
            allocHandle (s\<lparr>free_handles := map (\<lambda>i. max_handle s + int i) [0..<nat n], max_handle := max_handle s + n\<rparr>))"
  by pat_completeness auto
termination
  by (relation "measure (\<lambda>s. if free_handles s = [] then 1 else 0)") auto

declare allocHandle.simps [simp del]

definition deallocHandle :: "int \<Rightarrow> message \<Rightarrow> message" where
  "deallocHandle handle s = s\<lparr>free_handles := free_handles s @ [handle]\<rparr>"

definition RegisterDriver :: "(driver \<Rightarrow> cstr) \<Rightarrow> driver option \<Rightarrow> message \<Rightarrow> int \<times> message" where
  "RegisterDriver name drv s =
     (case drv of
        None \<Rightarrow> NET_LIB_ERR_RETURN ''NULL Pointer'' s
      | Some d \<Rightarrow>
          if prefix_to_driver s (name d) \<noteq> None then NET_LIB_ERR_RETURN ''Aready Registered'' s
          else (0, s\<lparr>prefix_to_driver := (prefix_to_driver s)(name d \<mapsto> d)\<rparr>))"

definition QueryDriver :: "int \<Rightarrow> message \<Rightarrow> driver option" where
  "QueryDriver handle s = handle_to_driver s handle"

definition NewHandle :: "message \<Rightarrow> int \<times> message" where
  "NewHandle s = allocHandle s"

definition CheckDriver :: "(driver \<Rightarrow> cstr) \<Rightarrow> int \<Rightarrow> driver \<Rightarrow> message \<Rightarrow> int \<times> message" where
  "CheckDriver name handle d s =
     (if prefix_to_driver s (name d) = None then NET_LIB_ERR_RETURN ''Driver Not Registered'' s
      else if handle_to_driver s handle \<noteq> None then NET_LIB_ERR_RETURN ''Handle Used'' s
      else if d \<in> all_driver s then NET_LIB_ERR_RETURN ''Driver Used'' s
      else (0, s\<lparr>all_driver := insert d (all_driver s)\<rparr>))"

text \<open>\<open>ret\<close> and \<open>send_to\<close> are what \<open>driver->Run\<close> returns and stores.\<close>

definition message_Run :: "(driver \<Rightarrow> cstr) \<Rightarrow> int \<Rightarrow> send_to option \<Rightarrow> int \<Rightarrow> driver \<Rightarrow> message \<Rightarrow> int \<times> message" where
  "message_Run name ret send_to handle d s =
     (case CheckDriver name handle d s of (r, s) \<Rightarrow>
       if r \<noteq> 0 then (- 1, s)
       else if ret \<noteq> 0 then (ret, s)
       else let s = s\<lparr>handle_to_driver := (handle_to_driver s)(handle \<mapsto> d)\<rparr> in
         (0, case send_to of None \<Rightarrow> s | Some f \<Rightarrow> s\<lparr>send_to_functions := (send_to_functions s)(handle \<mapsto> f)\<rparr>))"

text \<open>\<open>call\<close> is the result of the stored function, \<open>None\<close> for \<open>boost::bad_function_call\<close>.\<close>

definition SendTo :: "(send_to \<Rightarrow> cstr \<Rightarrow> int option) \<Rightarrow> int \<Rightarrow> cstr option \<Rightarrow> message \<Rightarrow> int \<times> message" where
  "SendTo call handle msg s =
     (case msg of
        None \<Rightarrow> NET_LIB_ERR_RETURN ''NULL Pointer'' s
      | Some m \<Rightarrow>
          (case send_to_functions s handle of
             None \<Rightarrow> NET_LIB_ERR_RETURN ''Handle Unbind Or Invalid'' s
           | Some f \<Rightarrow> (case call f m of None \<Rightarrow> NET_LIB_ERR_RETURN ''Bad Function Call'' s | Some r \<Rightarrow> (r, s))))"

text \<open>\<open>Start\<close> and \<open>Stop\<close> have the same text; \<open>ret\<close> is the result of the driver's method.\<close>

definition message_Start :: "int \<Rightarrow> int \<Rightarrow> message \<Rightarrow> int \<times> message" where
  "message_Start ret handle s =
     (if handle \<notin> all_handles s then NET_LIB_ERR_RETURN ''Handle Invalid'' s
      else case handle_to_driver s handle of
             None \<Rightarrow> (0, deallocHandle handle (s\<lparr>all_handles := all_handles s - {handle}\<rparr>))
           | Some d \<Rightarrow> if ret \<noteq> 0 then (ret, s) else (0, s))"

definition message_Stop :: "int \<Rightarrow> int \<Rightarrow> message \<Rightarrow> int \<times> message" where
  "message_Stop ret handle s =
     (if handle \<notin> all_handles s then NET_LIB_ERR_RETURN ''Handle Invalid'' s
      else case handle_to_driver s handle of
             None \<Rightarrow> (0, deallocHandle handle (s\<lparr>all_handles := all_handles s - {handle}\<rparr>))
           | Some d \<Rightarrow> if ret \<noteq> 0 then (ret, s) else (0, s))"

definition message_Close :: "int \<Rightarrow> int \<Rightarrow> message \<Rightarrow> int \<times> message" where
  "message_Close ret handle s =
     (if handle \<notin> all_handles s then NET_LIB_ERR_RETURN ''Handle Invalid'' s
      else case handle_to_driver s handle of
             None \<Rightarrow> (0, deallocHandle handle (s\<lparr>all_handles := all_handles s - {handle}\<rparr>))
           | Some d \<Rightarrow>
               if ret \<noteq> 0 then (ret, s)
               else (0, deallocHandle handle (s\<lparr>send_to_functions := (send_to_functions s)(handle := None),
                 handle_to_driver := (handle_to_driver s)(handle := None), all_handles := all_handles s - {handle}\<rparr>)))"

section \<open>The calls of clients\<close>

inductive message_reach :: "message \<Rightarrow> bool" where
  start: "message_reach message0"
| register: "message_reach s \<Longrightarrow> RegisterDriver name d s = (r, s') \<Longrightarrow> message_reach s'"
| new: "message_reach s \<Longrightarrow> NewHandle s = (h, s') \<Longrightarrow> message_reach s'"
| run: "message_reach s \<Longrightarrow> message_Run name ret f h d s = (r, s') \<Longrightarrow> message_reach s'"
| send: "message_reach s \<Longrightarrow> SendTo call h m s = (r, s') \<Longrightarrow> message_reach s'"
| start_handle: "message_reach s \<Longrightarrow> message_Start ret h s = (r, s') \<Longrightarrow> message_reach s'"
| stop_handle: "message_reach s \<Longrightarrow> message_Stop ret h s = (r, s') \<Longrightarrow> message_reach s'"
| close_handle: "message_reach s \<Longrightarrow> message_Close ret h s = (r, s') \<Longrightarrow> message_reach s'"

text \<open>The free handles and those in use are all the handles below \<open>max_handle\<close>, each once.\<close>

definition handles_ok :: "message \<Rightarrow> bool" where
  "handles_ok s \<longleftrightarrow> distinct (free_handles s) \<and> set (free_handles s) \<inter> all_handles s = {} \<and>
     set (free_handles s) \<union> all_handles s = {0..<max_handle s} \<and> 0 \<le> max_handle s \<and> max_handle s \<le> INT_MAX"

text \<open>Every driver that is bound to a handle is marked as used, and no driver is bound to two handles.\<close>

definition drivers_ok :: "message \<Rightarrow> bool" where
  "drivers_ok s \<longleftrightarrow> ran (handle_to_driver s) \<subseteq> all_driver s \<and> inj_on (handle_to_driver s) (dom (handle_to_driver s)) \<and>
     dom (send_to_functions s) \<subseteq> dom (handle_to_driver s)"

lemma INT_MAX_pos: "0 < INT_MAX"
  by (simp add: INT_MAX_def)

lemma alloc_eq:
  "free_handles s = h # rest \<Longrightarrow> allocHandle s = (h, s\<lparr>free_handles := rest, all_handles := insert h (all_handles s)\<rparr>)"
  "free_handles s = [] \<Longrightarrow> max_handle s = INT_MAX \<Longrightarrow> allocHandle s = (- 1, s)"
  by (simp_all add: allocHandle.simps [of s])

lemma alloc_refill:
  assumes "free_handles s = []" "max_handle s < INT_MAX" "n = min 10 (INT_MAX - max_handle s)"
  shows "allocHandle s = (max_handle s, s\<lparr>free_handles := map (\<lambda>i. max_handle s + int i) [1..<nat n], max_handle := max_handle s + n,
     all_handles := insert (max_handle s) (all_handles s)\<rparr>)"
proof -
  have "0 < nat n" using assms by simp
  then have up: "map (\<lambda>i. max_handle s + int i) [0..<nat n] = max_handle s # map (\<lambda>i. max_handle s + int i) [1..<nat n]" by (simp add: upt_conv_Cons)
  have "allocHandle s = allocHandle (s\<lparr>free_handles := map (\<lambda>i. max_handle s + int i) [0..<nat n], max_handle := max_handle s + n\<rparr>)"
    using assms by (subst allocHandle.simps) (simp add: Let_def)
  also have "\<dots> = (max_handle s, s\<lparr>free_handles := map (\<lambda>i. max_handle s + int i) [1..<nat n], max_handle := max_handle s + n,
     all_handles := insert (max_handle s) (all_handles s)\<rparr>)"
    by (subst alloc_eq(1)) (simp_all add: up, cases s, simp)
  finally show ?thesis .
qed

lemma alloc_ok:
  assumes ok: "handles_ok s" and a: "allocHandle s = (h, s')"
  shows "handles_ok s' \<and> (if h = - 1 then s' = s \<and> all_handles s = {0..<INT_MAX}
     else h \<in> {0..<INT_MAX} \<and> h \<notin> all_handles s \<and> all_handles s' = insert h (all_handles s)) \<and>
     handle_to_driver s' = handle_to_driver s \<and> all_driver s' = all_driver s \<and> send_to_functions s' = send_to_functions s"
proof (cases "free_handles s")
  case (Cons g rest)
  have "g \<in> set (free_handles s) \<union> all_handles s" using Cons by simp
  then have "g \<in> {0..<max_handle s}" using ok unfolding handles_ok_def by blast
  then show ?thesis using ok a Cons alloc_eq(1) [OF Cons] by (auto simp: handles_ok_def)
next
  case Nil
  show ?thesis
  proof (cases "max_handle s = INT_MAX")
    case True
    then show ?thesis using ok a alloc_eq(2) [OF Nil True] Nil by (auto simp: handles_ok_def)
  next
    case False
    let ?n = "min 10 (INT_MAX - max_handle s)"
    have lt: "max_handle s < INT_MAX" "0 \<le> max_handle s" "all_handles s = {0..<max_handle s}" using ok False Nil by (auto simp: handles_ok_def)
    have e: "h = max_handle s" "s' = s\<lparr>free_handles := map (\<lambda>i. max_handle s + int i) [1..<nat ?n], max_handle := max_handle s + ?n,
       all_handles := insert (max_handle s) (all_handles s)\<rparr>" using alloc_refill [OF Nil lt(1) refl] a by simp_all
    have "set (map (\<lambda>i. max_handle s + int i) [1..<nat ?n]) = {max_handle s + 1..<max_handle s + ?n}"
    proof -
      have "x \<in> (\<lambda>i. max_handle s + int i) ` {1..<nat ?n}" if "max_handle s + 1 \<le> x" "x < max_handle s + ?n" for x
        by (rule image_eqI [of _ _ "nat (x - max_handle s)"]) (use that in auto)
      then show ?thesis by auto
    qed
    moreover have "distinct (map (\<lambda>i. max_handle s + int i) [1..<nat ?n])" by (simp add: distinct_map inj_on_def)
    ultimately have "handles_ok s'" using lt unfolding handles_ok_def e(2) by (auto simp: min_def)
    then show ?thesis using e lt by auto
  qed
qed

lemma dealloc_ok:
  "handles_ok s \<Longrightarrow> h \<in> all_handles s \<Longrightarrow> handles_ok (deallocHandle h (s\<lparr>all_handles := all_handles s - {h}\<rparr>))"
  by (auto simp: handles_ok_def deallocHandle_def)

lemma ok_other_fields [simp]:
  "handles_ok (s\<lparr>error_msg := e\<rparr>) = handles_ok s" "drivers_ok (s\<lparr>error_msg := e\<rparr>) = drivers_ok s"
  "handles_ok (s\<lparr>prefix_to_driver := p\<rparr>) = handles_ok s" "drivers_ok (s\<lparr>prefix_to_driver := p\<rparr>) = drivers_ok s"
  "handles_ok (s\<lparr>all_driver := ds\<rparr>) = handles_ok s" "handles_ok (s\<lparr>handle_to_driver := m\<rparr>) = handles_ok s"
  "handles_ok (s\<lparr>send_to_functions := fs\<rparr>) = handles_ok s" "drivers_ok (s\<lparr>free_handles := fh\<rparr>) = drivers_ok s"
  "drivers_ok (s\<lparr>all_handles := hs\<rparr>) = drivers_ok s"
  by (simp_all add: handles_ok_def drivers_ok_def)

lemma drivers_bind:
  assumes "drivers_ok s" "handle_to_driver s h = None" "d \<notin> all_driver s"
  shows "drivers_ok (s\<lparr>all_driver := insert d (all_driver s), handle_to_driver := (handle_to_driver s)(h \<mapsto> d)\<rparr>)"
    "drivers_ok (s\<lparr>all_driver := insert d (all_driver s), handle_to_driver := (handle_to_driver s)(h \<mapsto> d), send_to_functions := (send_to_functions s)(h \<mapsto> f)\<rparr>)"
    "drivers_ok (s\<lparr>all_driver := insert d (all_driver s)\<rparr>)"
proof -
  have "handle_to_driver s x \<noteq> Some d" for x using assms(1,3) unfolding drivers_ok_def ran_def by blast
  then have "inj_on ((handle_to_driver s)(h \<mapsto> d)) (insert h (dom (handle_to_driver s)))"
    using assms(1) unfolding drivers_ok_def inj_on_def by (simp add: dom_def) metis
  moreover have "ran ((handle_to_driver s)(h \<mapsto> d)) = insert d (ran (handle_to_driver s))" using assms(2) by (rule ran_map_upd)
  ultimately show "drivers_ok (s\<lparr>all_driver := insert d (all_driver s), handle_to_driver := (handle_to_driver s)(h \<mapsto> d)\<rparr>)"
    "drivers_ok (s\<lparr>all_driver := insert d (all_driver s), handle_to_driver := (handle_to_driver s)(h \<mapsto> d), send_to_functions := (send_to_functions s)(h \<mapsto> f)\<rparr>)"
    "drivers_ok (s\<lparr>all_driver := insert d (all_driver s)\<rparr>)"
    using assms(1) unfolding drivers_ok_def by (auto simp del: fun_upd_apply)
qed

lemma drivers_unbind:
  assumes "drivers_ok s"
  shows "drivers_ok (s\<lparr>send_to_functions := (send_to_functions s)(h := None), handle_to_driver := (handle_to_driver s)(h := None), all_handles := hs\<rparr>)"
proof -
  have "inj_on ((handle_to_driver s)(h := None)) (dom (handle_to_driver s) - {h})" using assms unfolding drivers_ok_def inj_on_def by simp
  moreover have "ran ((handle_to_driver s)(h := None)) \<subseteq> ran (handle_to_driver s)" by (auto simp: ran_def)
  ultimately show ?thesis using assms unfolding drivers_ok_def by (auto simp del: fun_upd_apply)
qed

lemmas message_op_defs = RegisterDriver_def NET_LIB_ERR_RETURN_def message_Run_def CheckDriver_def SendTo_def message_Start_def message_Stop_def message_Close_def

lemma message_reach_ok: "message_reach s \<Longrightarrow> handles_ok s \<and> drivers_ok s"
proof (induction rule: message_reach.induct)
  case start
  show ?case by (simp add: handles_ok_def drivers_ok_def message0_def INT_MAX_def)
next
  case (new s h s')
  then show ?case using alloc_ok [of s h s'] by (simp add: NewHandle_def drivers_ok_def)
next
  case (run s name ret f h d r s')
  then show ?case using drivers_bind [of s h d] by (auto simp: message_op_defs Let_def split: option.splits if_splits prod.splits)
next
  case (start_handle s ret h r s')
  then show ?case using dealloc_ok [of s h] by (auto simp: message_op_defs deallocHandle_def split: option.splits if_splits)
next
  case (stop_handle s ret h r s')
  then show ?case using dealloc_ok [of s h] by (auto simp: message_op_defs deallocHandle_def split: option.splits if_splits)
next
  case (close_handle s ret h r s')
  have "handles_ok (deallocHandle h (s\<lparr>send_to_functions := (send_to_functions s)(h := None), handle_to_driver := (handle_to_driver s)(h := None),
      all_handles := all_handles s - {h}\<rparr>))" if "h \<in> all_handles s"
    using dealloc_ok [of "s\<lparr>send_to_functions := (send_to_functions s)(h := None), handle_to_driver := (handle_to_driver s)(h := None)\<rparr>" h] close_handle.IH that by simp
  then show ?case using close_handle dealloc_ok [of s h] drivers_unbind [where s = s and h = h]
    by (auto simp: message_op_defs deallocHandle_def split: option.splits if_splits)
qed (auto simp: message_op_defs split: option.splits if_splits)

section \<open>Properties\<close>

text \<open>
  Handles are unique: after any calls, \<open>NewHandle\<close> returns a handle between 0 and \<open>INT_MAX\<close> that is
  not in use, or -1 when every one of them is; a driver is bound to at most one handle.
\<close>

theorem message_handles_unique:
  assumes "message_reach s" "NewHandle s = (h, s')"
  shows "(if h = - 1 then s' = s \<and> all_handles s = {0..<INT_MAX} else h \<in> {0..<INT_MAX} \<and> h \<notin> all_handles s \<and> all_handles s' = insert h (all_handles s)) \<and>
     inj_on (handle_to_driver s) (dom (handle_to_driver s)) \<and> dom (send_to_functions s) \<subseteq> dom (handle_to_driver s)"
  using message_reach_ok [OF assms(1)] alloc_ok [of s h s'] assms(2) unfolding NewHandle_def drivers_ok_def by blast

theorem message_handles_unique_witness:
  "\<exists>s'. NewHandle message0 = (0, s') \<and> all_handles s' = {0}"
proof -
  obtain s' where e: "NewHandle message0 = (0, s')"
    using alloc_refill [of message0 10] by (simp add: NewHandle_def message0_def INT_MAX_def)
  from message_handles_unique [OF message_reach.start e] show ?thesis using e by (simp add: message0_def)
qed

text \<open>
  \<open>Start\<close> and \<open>Stop\<close> of a handle that no driver is bound to return 0, although the handle is not
  started: they free it, so that the next client gets a handle that is still held.
\<close>

theorem message_start_frees_handle:
  assumes "h \<in> all_handles s" "handle_to_driver s h = None" "free_handles s = []"
  shows "\<exists>s1 s2. message_Start ret h s = (0, s1) \<and> NewHandle s1 = (h, s2)"
  using assms by (auto simp: message_Start_def deallocHandle_def NewHandle_def alloc_eq(1))

text \<open>A driver stays marked as used: after \<open>Close\<close> it cannot be run again on any handle.\<close>

theorem message_driver_used_up:
  assumes "message_reach s" "handle_to_driver s h = Some d" "message_Close ret h s = (0, s1)" "h \<in> all_handles s" "prefix_to_driver s (name d) \<noteq> None"
  shows "\<exists>s2. message_Run name r f g d s1 = (- 1, s2)"
proof -
  have "d \<in> all_driver s" using message_reach_ok [OF assms(1)] assms(2) by (auto simp: drivers_ok_def ran_def)
  moreover have "all_driver s1 = all_driver s" "prefix_to_driver s1 = prefix_to_driver s"
    using assms(2,3,4) by (auto simp: message_Close_def deallocHandle_def NET_LIB_ERR_RETURN_def split: if_splits)
  ultimately show ?thesis using assms(5) by (auto simp: message_Run_def CheckDriver_def NET_LIB_ERR_RETURN_def)
qed

end
