(* ===== verification/Redis_Slot.thy ===== *)
theory Redis_Slot
  imports Prelude
begin

text \<open>
  The slot of a key in a redis cluster (\<open>source/redis_client/redisclient.cpp\<close>): the CRC16 of the key, or
  of the part of it between braces, by a table of 256 words. \<open>uint16_t\<close> is a 16-bit word. Keys are
  shorter than $2^{31}$ bytes, so that the length fits into the \<open>int\<close> parameter.
\<close>

type_synonym u16 = "16 word"

definition crc16Table :: "u16 list" where
  "crc16Table =
     [0x0000, 0x1021, 0x2042, 0x3063, 0x4084, 0x50a5, 0x60c6, 0x70e7,
      0x8108, 0x9129, 0xa14a, 0xb16b, 0xc18c, 0xd1ad, 0xe1ce, 0xf1ef,
      0x1231, 0x0210, 0x3273, 0x2252, 0x52b5, 0x4294, 0x72f7, 0x62d6,
      0x9339, 0x8318, 0xb37b, 0xa35a, 0xd3bd, 0xc39c, 0xf3ff, 0xe3de,
      0x2462, 0x3443, 0x0420, 0x1401, 0x64e6, 0x74c7, 0x44a4, 0x5485,
      0xa56a, 0xb54b, 0x8528, 0x9509, 0xe5ee, 0xf5cf, 0xc5ac, 0xd58d,
      0x3653, 0x2672, 0x1611, 0x0630, 0x76d7, 0x66f6, 0x5695, 0x46b4,
      0xb75b, 0xa77a, 0x9719, 0x8738, 0xf7df, 0xe7fe, 0xd79d, 0xc7bc,
      0x48c4, 0x58e5, 0x6886, 0x78a7, 0x0840, 0x1861, 0x2802, 0x3823,
      0xc9cc, 0xd9ed, 0xe98e, 0xf9af, 0x8948, 0x9969, 0xa90a, 0xb92b,
      0x5af5, 0x4ad4, 0x7ab7, 0x6a96, 0x1a71, 0x0a50, 0x3a33, 0x2a12,
      0xdbfd, 0xcbdc, 0xfbbf, 0xeb9e, 0x9b79, 0x8b58, 0xbb3b, 0xab1a,
      0x6ca6, 0x7c87, 0x4ce4, 0x5cc5, 0x2c22, 0x3c03, 0x0c60, 0x1c41,
      0xedae, 0xfd8f, 0xcdec, 0xddcd, 0xad2a, 0xbd0b, 0x8d68, 0x9d49,
      0x7e97, 0x6eb6, 0x5ed5, 0x4ef4, 0x3e13, 0x2e32, 0x1e51, 0x0e70,
      0xff9f, 0xefbe, 0xdfdd, 0xcffc, 0xbf1b, 0xaf3a, 0x9f59, 0x8f78,
      0x9188, 0x81a9, 0xb1ca, 0xa1eb, 0xd10c, 0xc12d, 0xf14e, 0xe16f,
      0x1080, 0x00a1, 0x30c2, 0x20e3, 0x5004, 0x4025, 0x7046, 0x6067,
      0x83b9, 0x9398, 0xa3fb, 0xb3da, 0xc33d, 0xd31c, 0xe37f, 0xf35e,
      0x02b1, 0x1290, 0x22f3, 0x32d2, 0x4235, 0x5214, 0x6277, 0x7256,
      0xb5ea, 0xa5cb, 0x95a8, 0x8589, 0xf56e, 0xe54f, 0xd52c, 0xc50d,
      0x34e2, 0x24c3, 0x14a0, 0x0481, 0x7466, 0x6447, 0x5424, 0x4405,
      0xa7db, 0xb7fa, 0x8799, 0x97b8, 0xe75f, 0xf77e, 0xc71d, 0xd73c,
      0x26d3, 0x36f2, 0x0691, 0x16b0, 0x6657, 0x7676, 0x4615, 0x5634,
      0xd94c, 0xc96d, 0xf90e, 0xe92f, 0x99c8, 0x89e9, 0xb98a, 0xa9ab,
      0x5844, 0x4865, 0x7806, 0x6827, 0x18c0, 0x08e1, 0x3882, 0x28a3,
      0xcb7d, 0xdb5c, 0xeb3f, 0xfb1e, 0x8bf9, 0x9bd8, 0xabbb, 0xbb9a,
      0x4a75, 0x5a54, 0x6a37, 0x7a16, 0x0af1, 0x1ad0, 0x2ab3, 0x3a92,
      0xfd2e, 0xed0f, 0xdd6c, 0xcd4d, 0xbdaa, 0xad8b, 0x9de8, 0x8dc9,
      0x7c26, 0x6c07, 0x5c64, 0x4c45, 0x3ca2, 0x2c83, 0x1ce0, 0x0cc1,
      0xef1f, 0xff3e, 0xcf5d, 0xdf7c, 0xaf9b, 0xbfba, 0x8fd9, 0x9ff8,
      0x6e17, 0x7e36, 0x4e55, 0x5e74, 0x2e93, 0x3eb2, 0x0ed1, 0x1ef0]"

fun CRC16_loop :: "cstr \<Rightarrow> u16 \<Rightarrow> u16" where
  "CRC16_loop [] nCrc = nCrc"
| "CRC16_loop (c # s) nCrc =
     CRC16_loop s (push_bit 8 nCrc XOR crc16Table ! unat ((drop_bit 8 nCrc XOR scast c) AND 0x00FF))"

definition CRC16 :: "cstr \<Rightarrow> nat \<Rightarrow> u16" where
  "CRC16 pszData nLen = CRC16_loop (take nLen pszData) 0"

text \<open>The loops of \<open>HASH_SLOT\<close>: the first position from \<open>i\<close> on with the character, or the length.\<close>

function find_char :: "byte \<Rightarrow> cstr \<Rightarrow> nat \<Rightarrow> nat" where
  "find_char c key i = (if i < length key then if key ! i = c then i else find_char c key (i + 1) else i)"
  by pat_completeness auto
termination
  by (relation "measure (\<lambda>(c, key, i). length key - i)") auto

declare find_char.simps [simp del]

definition HASH_SLOT :: "cstr \<Rightarrow> u32" where
  "HASH_SLOT strKey =
     (let nKeyLen = length strKey; nStart = find_char 0x7B strKey 0 in
      if nStart = nKeyLen then ucast (CRC16 strKey nKeyLen) AND 16383
      else let nEnd = find_char 0x7D strKey (nStart + 1) in
        if nEnd = nKeyLen \<or> nEnd = nStart + 1 then ucast (CRC16 strKey nKeyLen) AND 16383
        else ucast (CRC16 (drop (nStart + 1) strKey) (nEnd - nStart - 1)) AND 16383)"

section \<open>The polynomial\<close>

text \<open>CRC16 bit by bit: the remainder modulo $x^{16} + x^{12} + x^5 + 1$, the highest bit first.\<close>

definition crc_bit :: "u16 \<Rightarrow> u16" where
  "crc_bit x = (if bit x 15 then push_bit 1 x XOR 0x1021 else push_bit 1 x)"

definition crc_byte :: "byte \<Rightarrow> u16 \<Rightarrow> u16" where
  "crc_byte c x = (crc_bit ^^ 8) (x XOR push_bit 8 (ucast c))"

definition crc_reference :: "cstr \<Rightarrow> u16" where
  "crc_reference s = fold crc_byte s 0"

text \<open>A step is linear, and eight steps move a low byte up unchanged.\<close>

lemma crc_bit_xor: "crc_bit (x XOR y) = crc_bit x XOR crc_bit y"
  by (cases "bit x 15"; cases "bit y 15") (simp_all add: crc_bit_def bit_xor_iff push_bit_xor ac_simps)

lemma crc_bits_xor: "(crc_bit ^^ n) (x XOR y) = (crc_bit ^^ n) x XOR (crc_bit ^^ n) y"
  by (induction n) (simp_all add: crc_bit_xor)

lemma crc_low: "n \<le> 8 \<Longrightarrow> (crc_bit ^^ n) (x AND 0x00FF) = push_bit n (x AND 0x00FF)"
proof (induction n)
  case (Suc n)
  have m: "(0x00FF :: u16) = mask 8" by (simp add: mask_eq_exp_minus_1)
  have "\<not> bit (push_bit n (x AND 0x00FF)) 15"
    unfolding m using Suc.prems by (auto simp: bit_push_bit_iff bit_and_iff bit_mask_iff)
  then show ?case using Suc by (simp add: crc_bit_def)
qed simp

text \<open>The table doubles itself: entry \<open>2 i\<close> is one step from entry \<open>i\<close>, and the next one adds the
  polynomial.\<close>

primrec doubled :: "u16 list \<Rightarrow> u16 list" where
  "doubled [] = []"
| "doubled (t # ts) = crc_bit t # (crc_bit t XOR 0x1021) # doubled ts"

lemma doubled_nth:
  "i < length ts \<Longrightarrow> doubled ts ! (2 * i) = crc_bit (ts ! i)"
  "i < length ts \<Longrightarrow> doubled ts ! (2 * i + 1) = crc_bit (ts ! i) XOR 0x1021"
  by (induction ts arbitrary: i) (auto simp: less_Suc_eq_0_disj)

lemma length_crc16Table: "length crc16Table = 256"
  by (simp add: crc16Table_def)

lemma crc16Table_doubled: "doubled (take 128 crc16Table) = crc16Table"
  by (simp add: crc16Table_def crc_bit_def)

text \<open>So entry \<open>i\<close> is the byte \<open>i\<close>, moved up and eight steps on.\<close>

definition crc_entry :: "nat \<Rightarrow> u16" where
  "crc_entry i = (crc_bit ^^ 8) (push_bit 8 (word_of_nat i))"

lemma crc_bits_8: "(crc_bit ^^ 8) x = crc_bit (crc_bit (crc_bit (crc_bit (crc_bit (crc_bit (crc_bit (crc_bit x)))))))"
  by (simp add: numeral_eq_Suc)

lemma crc_entry_even: "i < 128 \<Longrightarrow> crc_entry (2 * i) = crc_bit (crc_entry i)"
proof -
  assume i: "i < 128"
  then have "i < 2 ^ 7" by simp
  then have "\<not> bit i 7" by (simp add: bit_iff_odd)
  then have "\<not> bit (push_bit 8 (word_of_nat i :: u16)) 15"
    by (simp add: bit_push_bit_iff bit_of_nat_iff)
  moreover have "push_bit 8 (word_of_nat (2 * i) :: u16) = push_bit 1 (push_bit 8 (word_of_nat i))"
    by (simp add: push_bit_eq_mult ac_simps)
  ultimately have "push_bit 8 (word_of_nat (2 * i)) = crc_bit (push_bit 8 (word_of_nat i))"
    by (simp add: crc_bit_def)
  then show ?thesis unfolding crc_entry_def by (simp only: funpow_swap1)
qed

lemma crc_entry_odd: "i < 128 \<Longrightarrow> crc_entry (2 * i + 1) = crc_bit (crc_entry i) XOR 0x1021"
proof -
  assume i: "i < 128"
  have one: "crc_entry 1 = 0x1021"
    by (simp add: crc_entry_def crc_bits_8 crc_bit_def)
  have "word_of_nat (2 * i + 1) = (word_of_nat (2 * i) XOR 1 :: u16)"
    by (simp add: xor_one_eq)
  then have "crc_entry (2 * i + 1) = crc_entry (2 * i) XOR crc_entry 1"
    by (simp only: crc_entry_def push_bit_xor crc_bits_xor of_nat_1)
  then show ?thesis by (simp only: crc_entry_even [OF i] one)
qed

lemma crc16Table_nth: "i < 256 \<Longrightarrow> crc16Table ! i = crc_entry i"
proof (induction i rule: less_induct)
  case (less i)
  define j where "j = i div 2"
  have j: "j < 128" using less.prems by (simp add: j_def)
  then have len: "j < length (take 128 crc16Table)" by (simp add: length_crc16Table)
  show ?case
  proof (cases "i = 0")
    case True
    then show ?thesis by (simp add: crc16Table_def crc_entry_def crc_bits_8 crc_bit_def)
  next
    case False
    then have IH: "crc16Table ! j = crc_entry j" using less.IH [of j] j by (simp add: j_def)
    have "i = 2 * j \<or> i = 2 * j + 1" by (auto simp: j_def)
    then show ?thesis
      using doubled_nth [OF len] j
      by (auto simp: crc16Table_doubled crc_entry_even crc_entry_odd IH simp del: One_nat_def)
  qed
qed

lemma crc_input_split:
  "x XOR push_bit 8 (ucast (c :: byte)) =
     (x AND 0x00FF) XOR push_bit 8 ((drop_bit 8 x XOR scast c) AND 0x00FF :: u16)"
proof (rule bit_word_eqI)
  fix n :: nat
  assume n: "n < LENGTH(16)"
  have m: "(0x00FF :: u16) = mask 8" by (simp add: mask_eq_exp_minus_1)
  show "bit (x XOR push_bit 8 (ucast c)) n =
    bit ((x AND 0x00FF) XOR push_bit 8 ((drop_bit 8 x XOR scast c) AND 0x00FF)) n"
    unfolding m using n
    by (auto simp: bit_simps not_less)
qed

lemma push_low: "push_bit 8 (x AND 0x00FF) = push_bit 8 (x :: u16)"
proof (rule bit_word_eqI)
  fix n :: nat
  assume n: "n < LENGTH(16)"
  have m: "(0x00FF :: u16) = mask 8" by (simp add: mask_eq_exp_minus_1)
  show "bit (push_bit 8 (x AND 0x00FF)) n = bit (push_bit 8 x) n"
    unfolding m using n by (auto simp: bit_simps)
qed

lemma crc_byte_step:
  "push_bit 8 x XOR crc16Table ! unat ((drop_bit 8 x XOR scast c) AND 0x00FF) = crc_byte c x"
proof -
  let ?i = "(drop_bit 8 x XOR scast c) AND 0x00FF :: u16"
  have "unat ?i \<le> unat (0x00FF :: u16)" unfolding word_le_nat_alt [symmetric] by (rule word_and_le1)
  then have "crc16Table ! unat ?i = crc_entry (unat ?i)" by (intro crc16Table_nth) simp
  moreover have "(crc_bit ^^ 8) (x AND 0x00FF) = push_bit 8 x"
    using crc_low [of 8 x] unfolding push_low by simp
  ultimately show ?thesis by (simp add: crc_byte_def crc_input_split crc_bits_xor crc_entry_def)
qed

lemma CRC16_loop_reference: "CRC16_loop s x = fold crc_byte s x"
  by (induction s arbitrary: x) (simp_all add: crc_byte_step)

text \<open>The table-driven CRC16 of a key is the bitwise division by the polynomial
  $x^{16} + x^{12} + x^5 + 1$ with start value 0, for every key and every one of the 256 table entries.\<close>

lemma CRC16_equivalence: "CRC16 s (length s) = crc_reference s"
  by (simp add: CRC16_def crc_reference_def CRC16_loop_reference)

section \<open>The slot of a key\<close>

text \<open>What is hashed: the text between the first opening brace and the first closing brace after it, if
  it is there and is not empty, and the whole key otherwise.\<close>

definition hash_tag :: "cstr \<Rightarrow> cstr" where
  "hash_tag key =
     (case dropWhile (\<lambda>b. b \<noteq> 0x7B) key of
        [] \<Rightarrow> key
      | _ # r \<Rightarrow> let mid = takeWhile (\<lambda>b. b \<noteq> 0x7D) r in if mid = r \<or> mid = [] then key else mid)"

lemma find_char_takeWhile:
  "i \<le> length key \<Longrightarrow> find_char c key i = i + length (takeWhile (\<lambda>b. b \<noteq> c) (drop i key))"
proof (induction c key i rule: find_char.induct)
  case (1 c key i)
  show ?case
  proof (cases "i < length key")
    case True
    then have "drop i key = key ! i # drop (Suc i) key" by (simp add: Cons_nth_drop_Suc)
    then show ?thesis using 1 True by (subst find_char.simps) simp
  qed (use 1 in \<open>simp add: find_char.simps\<close>)
qed

lemma takeWhile_same_length: "length (takeWhile P xs) = length xs \<longleftrightarrow> takeWhile P xs = xs"
  by (metis takeWhile_eq_take take_all_iff order_refl length_takeWhile_le)

lemma HASH_SLOT_hash_tag:
  "HASH_SLOT key = ucast (CRC16 (hash_tag key) (length (hash_tag key))) AND 16383"
proof -
  let ?pre = "takeWhile (\<lambda>b. b \<noteq> 0x7B) key"
  have start: "find_char 0x7B key 0 = length ?pre" by (simp add: find_char_takeWhile)
  show ?thesis
  proof (cases "dropWhile (\<lambda>b. b \<noteq> 0x7B) key")
    case Nil
    then have "length ?pre = length key"
      by (metis append_Nil2 takeWhile_dropWhile_id)
    then show ?thesis using start unfolding HASH_SLOT_def hash_tag_def Nil by simp
  next
    case (Cons b r)
    have key: "key = ?pre @ b # r" using Cons by (metis takeWhile_dropWhile_id)
    let ?mid = "takeWhile (\<lambda>b. b \<noteq> 0x7D) r"
    have len: "length key = length ?pre + Suc (length r)" using arg_cong [OF key, of length] by simp
    have rest: "drop (length ?pre + 1) key = r" by (subst (2) key) simp
    have stop: "find_char 0x7D key (length ?pre + 1) = length ?pre + 1 + length ?mid"
      using find_char_takeWhile [of "length ?pre + 1" key "0x7D"] len unfolding rest by simp
    have m: "take (length ?mid) r = ?mid" by (simp add: takeWhile_eq_take [symmetric])
    show ?thesis
      unfolding HASH_SLOT_def Let_def start stop rest hash_tag_def Cons list.case
      by (auto simp: len takeWhile_same_length CRC16_def m)
  qed
qed

text \<open>
  The slot of a key is the bitwise CRC of its hash tag modulo 16384, so it is one of the 16384
  slots of a cluster; two keys with the same tag go to the same slot.\<close>

theorem HASH_SLOT_correct:
  "unat (HASH_SLOT key) = unat (crc_reference (hash_tag key)) mod 16384"
proof -
  have "HASH_SLOT key = take_bit 14 (ucast (crc_reference (hash_tag key)))"
    by (simp add: HASH_SLOT_hash_tag CRC16_equivalence take_bit_eq_mask mask_eq_exp_minus_1)
  moreover have "unat (ucast x :: u32) = unat x" for x :: u16
    using unsigned_less [of x, where 'a = nat] by (simp add: unsigned_ucast_eq take_bit_nat_eq_self_iff)
  ultimately show ?thesis by (simp add: unat_mod take_bit_eq_mod)
qed

end
