(* ===== verification/Redis_Reply.thy ===== *)
theory Redis_Reply
  imports Redis_Slot
begin

text \<open>
  Commands and replies of the redis client (\<open>source/redis_client/redisclient.cpp\<close>). \<open>redisReply\<close> is
  the struct of hiredis: a type, an integer, a string that may be a null pointer, and the elements of
  an array; hiredis sets the members that do not belong to the type to zero. An output parameter
  that may be a null pointer is an option, its old value an argument and its new value a result.
  Reading through a null pointer is \<open>Undefined_behaviour\<close>. \<open>long\<close> has 64 bits.
\<close>

section \<open>Return codes and replies\<close>

definition RC_RESULT_EOF :: int where "RC_RESULT_EOF = 5"
definition RC_NO_EFFECT :: int where "RC_NO_EFFECT = 4"
definition RC_OBJ_NOT_EXIST :: int where "RC_OBJ_NOT_EXIST = 3"
definition RC_OBJ_EXIST :: int where "RC_OBJ_EXIST = 2"
definition RC_PART_SUCCESS :: int where "RC_PART_SUCCESS = 1"
definition RC_SUCCESS :: int where "RC_SUCCESS = 0"
definition RC_PARAM_ERR :: int where "RC_PARAM_ERR = - 1"
definition RC_REPLY_ERR :: int where "RC_REPLY_ERR = - 2"
definition RC_RQST_ERR :: int where "RC_RQST_ERR = - 3"
definition RC_NO_RESOURCE :: int where "RC_NO_RESOURCE = - 4"
definition RC_PIPELINE_ERR :: int where "RC_PIPELINE_ERR = - 5"
definition RC_NOT_SUPPORT :: int where "RC_NOT_SUPPORT = - 6"
definition RC_SLOT_CHANGED :: int where "RC_SLOT_CHANGED = - 100"

lemmas RC_defs = RC_RESULT_EOF_def RC_NO_EFFECT_def RC_OBJ_NOT_EXIST_def RC_OBJ_EXIST_def RC_PART_SUCCESS_def
  RC_SUCCESS_def RC_PARAM_ERR_def RC_REPLY_ERR_def RC_RQST_ERR_def RC_NO_RESOURCE_def RC_PIPELINE_ERR_def
  RC_NOT_SUPPORT_def RC_SLOT_CHANGED_def

datatype reply_type =
    REDIS_REPLY_STRING | REDIS_REPLY_ARRAY | REDIS_REPLY_INTEGER | REDIS_REPLY_NIL | REDIS_REPLY_STATUS
  | REDIS_REPLY_ERROR | REDIS_REPLY_OTHER

datatype redisReply = Reply (r_type: reply_type) (r_integer: int) (r_str: "cstr option") (r_element: "redisReply list")

text \<open>A string that is read as a C string ends before its first zero byte.\<close>

definition c_string :: "cstr option \<Rightarrow> cstr result" where
  "c_string s = (case s of None \<Rightarrow> Inl Undefined_behaviour | Some s \<Rightarrow> Inr (takeWhile (\<lambda>b. b \<noteq> 0) s))"

section \<open>Conversion of return codes\<close>

type_synonym conv = "int \<Rightarrow> redisReply \<Rightarrow> int result"

definition FUNC_DEF_CONV :: conv where
  "FUNC_DEF_CONV nRet reply = Inr nRet"

definition IntResConv :: "int \<Rightarrow> int \<Rightarrow> conv" where
  "IntResConv nConvRet nVal nRet pReply =
     Inr (if nRet = RC_SUCCESS \<and> r_integer pReply = nVal then nConvRet else nRet)"

definition StuResConv :: "cstr \<Rightarrow> conv" where
  "StuResConv strVal nRet pReply =
     (if nRet = RC_SUCCESS
      then bind_result (c_string (r_str pReply)) (\<lambda>s. Inr (if strVal \<noteq> s then RC_REPLY_ERR else nRet))
      else Inr nRet)"

definition NilResConv :: conv where
  "NilResConv nRet pReply =
     Inr (if nRet = RC_SUCCESS \<and> r_type pReply = REDIS_REPLY_NIL then RC_OBJ_NOT_EXIST else nRet)"

definition ExistErrConv :: conv where
  "ExistErrConv nRet pReply =
     (if nRet = RC_REPLY_ERR
      then bind_result (c_string (r_str pReply))
             (\<lambda>s. Inr (if bytes ''Target key name is busy'' = s then RC_OBJ_EXIST else nRet))
      else Inr nRet)"

section \<open>Fetching the value of a reply\<close>

definition FetchInteger :: "redisReply \<Rightarrow> int option \<Rightarrow> int \<times> int option" where
  "FetchInteger pReply pnVal =
     (if r_type pReply = REDIS_REPLY_INTEGER then (RC_SUCCESS, map_option (\<lambda>_. r_integer pReply) pnVal)
      else if r_type pReply = REDIS_REPLY_NIL then (RC_OBJ_NOT_EXIST, pnVal)
      else (RC_REPLY_ERR, pnVal))"

definition FetchString :: "redisReply \<Rightarrow> cstr option \<Rightarrow> (int \<times> cstr option) result" where
  "FetchString pReply pstrVal =
     (if r_type pReply = REDIS_REPLY_STRING \<or> r_type pReply = REDIS_REPLY_STATUS
      then (case pstrVal of
              None \<Rightarrow> Inr (RC_SUCCESS, None)
            | Some _ \<Rightarrow> (case r_str pReply of None \<Rightarrow> Inl Undefined_behaviour | Some s \<Rightarrow> Inr (RC_SUCCESS, Some s)))
      else if r_type pReply = REDIS_REPLY_NIL then Inr (RC_SUCCESS, map_option (\<lambda>_. []) pstrVal)
      else Inr (RC_REPLY_ERR, pstrVal))"

text \<open>
  The loops over the elements: the code and the values so far. \<open>nVal\<close> and \<open>strVal\<close> are declared outside
  of the loop, but are only used after they have been set.
\<close>

fun fetch_integers :: "redisReply list \<Rightarrow> int \<Rightarrow> int list \<Rightarrow> int \<times> int list" where
  "fetch_integers [] nRet vec = (nRet, vec)"
| "fetch_integers (e # es) nRet vec =
     (case FetchInteger e (Some 0) of
        (nSubRet, v) \<Rightarrow>
          if nSubRet = RC_SUCCESS then fetch_integers es nRet (vec @ [the v]) else fetch_integers es RC_PART_SUCCESS vec)"

definition FetchIntegerArray :: "redisReply \<Rightarrow> int list option \<Rightarrow> int \<times> int list option" where
  "FetchIntegerArray pReply pvecLongVal =
     (if r_type pReply = REDIS_REPLY_INTEGER
      then (case pvecLongVal of
              None \<Rightarrow> (RC_SUCCESS, None)
            | Some _ \<Rightarrow> (case fetch_integers (r_element pReply) RC_SUCCESS [] of (nRet, vec) \<Rightarrow> (nRet, Some vec)))
      else (RC_REPLY_ERR, pvecLongVal))"

fun fetch_strings :: "redisReply list \<Rightarrow> int \<Rightarrow> cstr list \<Rightarrow> (int \<times> cstr list) result" where
  "fetch_strings [] nRet vec = Inr (nRet, vec)"
| "fetch_strings (e # es) nRet vec =
     bind_result (FetchString e (Some [])) (\<lambda>(nSubRet, v).
       if nSubRet = RC_SUCCESS then fetch_strings es nRet (vec @ [the v]) else fetch_strings es RC_PART_SUCCESS vec)"

definition FetchStringArray :: "redisReply \<Rightarrow> cstr list option \<Rightarrow> (int \<times> cstr list option) result" where
  "FetchStringArray pReply pvecStrVal =
     (if r_type pReply = REDIS_REPLY_ARRAY
      then (case pvecStrVal of
              None \<Rightarrow> Inr (RC_SUCCESS, None)
            | Some _ \<Rightarrow> bind_result (fetch_strings (r_element pReply) RC_SUCCESS []) (\<lambda>(nRet, vec). Inr (nRet, Some vec)))
      else if r_type pReply = REDIS_REPLY_NIL then Inr (RC_SUCCESS, map_option (\<lambda>_. []) pvecStrVal)
      else Inr (RC_REPLY_ERR, pvecStrVal))"

text \<open>\<open>map::insert\<close> keeps the value of a key that is there already.\<close>

definition insert_new :: "'k \<Rightarrow> 'v \<Rightarrow> ('k \<rightharpoonup> 'v) \<Rightarrow> ('k \<rightharpoonup> 'v)" where
  "insert_new k v m = (case m k of None \<Rightarrow> m(k \<mapsto> v) | Some _ \<Rightarrow> m)"

fun fetch_pairs :: "redisReply list \<Rightarrow> (cstr \<rightharpoonup> cstr) \<Rightarrow> (int \<times> (cstr \<rightharpoonup> cstr)) result" where
  "fetch_pairs [] m = Inr (RC_SUCCESS, m)"
| "fetch_pairs [e] m =
     bind_result (FetchString e (Some [])) (\<lambda>(nSubRet, _).
       if nSubRet = RC_SUCCESS then Inl Undefined_behaviour else Inr (nSubRet, m))"
| "fetch_pairs (e # e' # es) m =
     bind_result (FetchString e (Some [])) (\<lambda>(nSubRet, fld).
       if nSubRet = RC_SUCCESS
       then bind_result (FetchString e' (Some [])) (\<lambda>(nSubRet, val).
              if nSubRet = RC_SUCCESS then fetch_pairs es (insert_new (the fld) (the val) m)
              else Inr (nSubRet, m))
       else Inr (nSubRet, m))"

definition FetchMap :: "redisReply \<Rightarrow> (cstr \<rightharpoonup> cstr) option \<Rightarrow> (int \<times> (cstr \<rightharpoonup> cstr) option) result" where
  "FetchMap pReply pmapFv =
     (if r_type pReply = REDIS_REPLY_ARRAY
      then (case pmapFv of
              None \<Rightarrow> Inr (RC_SUCCESS, None)
            | Some m \<Rightarrow>
                if odd (length (r_element pReply)) then Inr (RC_REPLY_ERR, Some m)
                else bind_result (fetch_pairs (r_element pReply) Map.empty) (\<lambda>(nRet, m). Inr (nRet, Some m)))
      else Inr (RC_REPLY_ERR, pmapFv))"

definition FetchTime :: "redisReply \<Rightarrow> (int \<times> int) option \<Rightarrow> (int \<times> (int \<times> int) option) result" where
  "FetchTime pReply ptmVal =
     (if r_type pReply = REDIS_REPLY_ARRAY
      then (case r_element pReply of
              [sec, usec] \<Rightarrow>
                if r_type sec \<noteq> REDIS_REPLY_STRING \<or> r_type usec \<noteq> REDIS_REPLY_STRING then Inr (RC_REPLY_ERR, ptmVal)
                else (case ptmVal of
                        None \<Rightarrow> Inr (RC_SUCCESS, None)
                      | Some _ \<Rightarrow>
                          bind_result (c_string (r_str sec)) (\<lambda>s.
                          bind_result (c_string (r_str usec)) (\<lambda>u. Inr (RC_SUCCESS, Some (atol s, atol u)))))
            | _ \<Rightarrow> Inr (RC_REPLY_ERR, ptmVal))
      else Inr (RC_REPLY_ERR, ptmVal))"

text \<open>
  \<open>SlotRegion\<close>: the slots from \<open>nStartSlot\<close> to \<open>nEndSlot\<close>, the hosts that serve them and the
  \<open>CRedisServer\<close> objects made for the hosts, which are numbers. The integers of a reply are narrowed to
  \<open>int\<close>.
\<close>

definition to_int :: "int \<Rightarrow> int" where
  "to_int n = sint (word_of_int n :: 32 word)"

record SlotRegion =
  nStartSlot :: int
  nEndSlot :: int
  HostVec :: "(cstr \<times> int) list"
  RedisServVec :: "nat list"

fun fetch_hosts :: "redisReply list \<Rightarrow> (cstr \<times> int) list \<Rightarrow> (cstr \<times> int) list result" where
  "fetch_hosts [] hosts = Inr hosts"
| "fetch_hosts (e # es) hosts =
     (case (r_type e, r_element e) of
        (REDIS_REPLY_ARRAY, h # p # _ # _) \<Rightarrow>
          bind_result (c_string (r_str h)) (\<lambda>ip. fetch_hosts es (hosts @ [(ip, to_int (r_integer p))]))
      | _ \<Rightarrow> Inr hosts)"

fun fetch_regions :: "redisReply list \<Rightarrow> SlotRegion list \<Rightarrow> (int \<times> SlotRegion list) result" where
  "fetch_regions [] vec = Inr (RC_SUCCESS, vec)"
| "fetch_regions (e # es) vec =
     (case (r_type e, r_element e) of
        (REDIS_REPLY_ARRAY, a # b # c # hs) \<Rightarrow>
          bind_result (fetch_hosts (c # hs) []) (\<lambda>hosts.
            fetch_regions es (vec @ [\<lparr>nStartSlot = to_int (r_integer a), nEndSlot = to_int (r_integer b),
                                      HostVec = hosts, RedisServVec = []\<rparr>]))
      | _ \<Rightarrow> Inr (RC_REPLY_ERR, vec))"

definition FetchSlot :: "redisReply \<Rightarrow> SlotRegion list option \<Rightarrow> (int \<times> SlotRegion list option) result" where
  "FetchSlot pReply pvecSlot =
     (if r_type pReply = REDIS_REPLY_ARRAY
      then (case pvecSlot of
              None \<Rightarrow> Inr (RC_SUCCESS, None)
            | Some _ \<Rightarrow> bind_result (fetch_regions (r_element pReply) []) (\<lambda>(nRet, vec). Inr (nRet, Some vec)))
      else Inr (RC_REPLY_ERR, pvecSlot))"

section \<open>Commands\<close>

text \<open>
  \<open>CRedisCommand\<close>. The overloads of \<open>SetArgs\<close> are told apart by a suffix: \<open>s\<close> for a string, \<open>v\<close> for a
  vector, \<open>m\<close> for a map or a set, whose elements come in ascending order. \<open>SetArgs_svv\<close> reads the
  second vector up to the length of the first.
\<close>

record CRedisCommand =
  m_strCmd :: cstr
  m_Args :: "cstr list"
  m_pReply :: "redisReply option"
  m_nSlot :: int
  m_funcConv :: conv
  m_bDump :: bool

definition CRedisCommand_new :: "cstr \<Rightarrow> bool \<Rightarrow> CRedisCommand" where
  "CRedisCommand_new strCmd ifDump =
     \<lparr>m_strCmd = strCmd, m_Args = [], m_pReply = None, m_nSlot = - 1, m_funcConv = FUNC_DEF_CONV, m_bDump = ifDump\<rparr>"

definition ClearArgs :: "CRedisCommand \<Rightarrow> CRedisCommand" where
  "ClearArgs c = c\<lparr>m_pReply := None, m_Args := []\<rparr>"

definition FetchErrMsg :: "CRedisCommand \<Rightarrow> cstr result" where
  "FetchErrMsg c =
     (case m_pReply c of
        None \<Rightarrow> Inr []
      | Some r \<Rightarrow>
          if r_type r = REDIS_REPLY_ERROR then (case r_str r of None \<Rightarrow> Inl Undefined_behaviour | Some s \<Rightarrow> Inr s)
          else Inr [])"

definition IsMovedErr :: "CRedisCommand \<Rightarrow> bool result" where
  "IsMovedErr c = bind_result (FetchErrMsg c) (\<lambda>s. Inr (take 5 s = bytes ''MOVED''))"

definition cmd_Init :: "CRedisCommand \<Rightarrow> CRedisCommand" where
  "cmd_Init c = (let c = ClearArgs c in c\<lparr>m_Args := m_Args c @ [m_strCmd c]\<rparr>)"

definition AppendValue :: "cstr \<Rightarrow> CRedisCommand \<Rightarrow> CRedisCommand" where
  "AppendValue strVal c = c\<lparr>m_Args := m_Args c @ [strVal]\<rparr>"

definition SetArgs :: "CRedisCommand \<Rightarrow> CRedisCommand" where
  "SetArgs c = cmd_Init c"

definition SetArgs_s :: "cstr \<Rightarrow> CRedisCommand \<Rightarrow> CRedisCommand" where
  "SetArgs_s a c = AppendValue a (cmd_Init c)"

definition SetArgs_v :: "cstr list \<Rightarrow> CRedisCommand \<Rightarrow> CRedisCommand" where
  "SetArgs_v v c = fold AppendValue v (cmd_Init c)"

definition SetArgs_ss :: "cstr \<Rightarrow> cstr \<Rightarrow> CRedisCommand \<Rightarrow> CRedisCommand" where
  "SetArgs_ss a b c = AppendValue b (AppendValue a (cmd_Init c))"

definition SetArgs_sv :: "cstr \<Rightarrow> cstr list \<Rightarrow> CRedisCommand \<Rightarrow> CRedisCommand" where
  "SetArgs_sv a v c = fold AppendValue v (AppendValue a (cmd_Init c))"

definition SetArgs_vs :: "cstr list \<Rightarrow> cstr \<Rightarrow> CRedisCommand \<Rightarrow> CRedisCommand" where
  "SetArgs_vs v b c = (if v = [] then c else AppendValue b (fold AppendValue v (cmd_Init c)))"

definition SetArgs_vv :: "cstr list \<Rightarrow> cstr list \<Rightarrow> CRedisCommand \<Rightarrow> CRedisCommand" where
  "SetArgs_vv v w c =
     (if length v \<noteq> length w then c else fold (\<lambda>(a, b) c. AppendValue b (AppendValue a c)) (zip v w) (cmd_Init c))"

definition SetArgs_m :: "(cstr \<times> cstr) list \<Rightarrow> CRedisCommand \<Rightarrow> CRedisCommand" where
  "SetArgs_m m c = fold (\<lambda>(a, b) c. AppendValue b (AppendValue a c)) m (cmd_Init c)"

definition SetArgs_sm :: "cstr \<Rightarrow> (cstr \<times> cstr) list \<Rightarrow> CRedisCommand \<Rightarrow> CRedisCommand" where
  "SetArgs_sm a m c = fold (\<lambda>(a, b) c. AppendValue b (AppendValue a c)) m (AppendValue a (cmd_Init c))"

definition SetArgs_sss :: "cstr \<Rightarrow> cstr \<Rightarrow> cstr \<Rightarrow> CRedisCommand \<Rightarrow> CRedisCommand" where
  "SetArgs_sss a b d c = AppendValue d (AppendValue b (AppendValue a (cmd_Init c)))"

definition SetArgs_ssv :: "cstr \<Rightarrow> cstr \<Rightarrow> cstr list \<Rightarrow> CRedisCommand \<Rightarrow> CRedisCommand" where
  "SetArgs_ssv a b v c = fold AppendValue v (AppendValue b (AppendValue a (cmd_Init c)))"

definition SetArgs_svv :: "cstr \<Rightarrow> cstr list \<Rightarrow> cstr list \<Rightarrow> CRedisCommand \<Rightarrow> CRedisCommand result" where
  "SetArgs_svv a v w c =
     (if length w < length v then Inl Undefined_behaviour
      else Inr (fold (\<lambda>(a, b) c. AppendValue b (AppendValue a c)) (zip v w) (AppendValue a (cmd_Init c))))"

definition SetArgs_ssss :: "cstr \<Rightarrow> cstr \<Rightarrow> cstr \<Rightarrow> cstr \<Rightarrow> CRedisCommand \<Rightarrow> CRedisCommand" where
  "SetArgs_ssss a b d e c = AppendValue e (AppendValue d (AppendValue b (AppendValue a (cmd_Init c))))"

text \<open>
  \<open>FetchResult\<close>, with the function that fetches the value: a pending reply is a null pointer, which
  every one of these functions reads through.
\<close>

definition FetchResult :: "(redisReply \<Rightarrow> (int \<times> 'a) result) \<Rightarrow> CRedisCommand \<Rightarrow> (int \<times> 'a) result" where
  "FetchResult funcFetch c =
     (case m_pReply c of
        None \<Rightarrow> Inl Undefined_behaviour
      | Some r \<Rightarrow>
          bind_result (funcFetch r) (\<lambda>(nRet, out). bind_result (m_funcConv c nRet r) (\<lambda>nRet. Inr (nRet, out))))"

definition BIND_INT :: "int option \<Rightarrow> redisReply \<Rightarrow> (int \<times> int option) result" where
  "BIND_INT pnVal r = Inr (FetchInteger r pnVal)"

definition BIND_STR :: "cstr option \<Rightarrow> redisReply \<Rightarrow> (int \<times> cstr option) result" where
  "BIND_STR pstrVal r = FetchString r pstrVal"

section \<open>The text of a reply and of INFO\<close>

fun GetReplySting :: "nat \<Rightarrow> redisReply \<Rightarrow> cstr result" where
  "GetReplySting nLevel (Reply ty n str es) =
     (let out = concat (replicate nLevel (bytes ''  '')) in
      case ty of
        REDIS_REPLY_INTEGER \<Rightarrow> Inr (out @ bytes ''integer: '' @ print_int n @ [10])
      | REDIS_REPLY_STRING \<Rightarrow> bind_result (c_string str) (\<lambda>s. Inr (out @ bytes ''string: '' @ s @ [10]))
      | REDIS_REPLY_ARRAY \<Rightarrow>
          foldl (\<lambda>out e. bind_result out (\<lambda>out. bind_result (GetReplySting (nLevel + 1) e) (\<lambda>s. Inr (out @ s))))
            (Inr (out @ bytes ''array: '' @ [10])) es
      | REDIS_REPLY_STATUS \<Rightarrow> bind_result (c_string str) (\<lambda>s. Inr (out @ bytes ''status: '' @ s @ [10]))
      | REDIS_REPLY_ERROR \<Rightarrow> bind_result (c_string str) (\<lambda>s. Inr (out @ bytes ''error: '' @ s @ [10]))
      | REDIS_REPLY_NIL \<Rightarrow> Inr (out @ bytes ''nil'' @ [10])
      | REDIS_REPLY_OTHER \<Rightarrow> Inr (out @ bytes ''unknown'' @ [10]))"

text \<open>\<open>getline\<close>: the lines of a text; the empty rest behind a last newline is not a line.\<close>

function text_lines :: "cstr \<Rightarrow> cstr list" where
  "text_lines s =
     (if s = [] then []
      else takeWhile (\<lambda>b. b \<noteq> 10) s # text_lines (drop 1 (dropWhile (\<lambda>b. b \<noteq> 10) s)))"
  by pat_completeness auto
termination
proof (relation "measure length", goal_cases)
  case (2 s)
  then have "length (dropWhile (\<lambda>b. b \<noteq> 10) s) \<le> length s" "0 < length s" by (auto simp: length_dropWhile_le)
  then show ?case by (simp only: in_measure length_drop)
qed simp

declare text_lines.simps [simp del]

fun map_info_loop :: "cstr list \<Rightarrow> (cstr \<rightharpoonup> cstr) \<Rightarrow> bool \<times> (cstr \<rightharpoonup> cstr)" where
  "map_info_loop [] m = (True, m)"
| "map_info_loop (l # ls) m =
     (if l = [] \<or> hd l = 13 \<or> hd l = 35 then map_info_loop ls m
      else case str_find l [58] 0 of
             None \<Rightarrow> (False, m)
           | Some n \<Rightarrow> map_info_loop ls (insert_new (take n l) (drop (n + 1) l) m))"

definition ConvertToMapInfo :: "cstr \<Rightarrow> (cstr \<rightharpoonup> cstr) \<Rightarrow> bool \<times> (cstr \<rightharpoonup> cstr)" where
  "ConvertToMapInfo strVal mapVal = map_info_loop (text_lines strVal) mapVal"

section \<open>What a server answers is what is fetched\<close>

text \<open>The replies hiredis builds for a bulk string, an array and an element of \<open>CLUSTER SLOTS\<close>.\<close>

definition integer_reply :: "int \<Rightarrow> redisReply" where
  "integer_reply n = Reply REDIS_REPLY_INTEGER n None []"

definition string_reply :: "cstr \<Rightarrow> redisReply" where
  "string_reply s = Reply REDIS_REPLY_STRING 0 (Some s) []"

definition nil_reply :: redisReply where
  "nil_reply = Reply REDIS_REPLY_NIL 0 None []"

definition array_reply :: "redisReply list \<Rightarrow> redisReply" where
  "array_reply es = Reply REDIS_REPLY_ARRAY 0 None es"

definition region_reply :: "(cstr \<Rightarrow> cstr) \<Rightarrow> SlotRegion \<Rightarrow> redisReply" where
  "region_reply node_id r =
     array_reply (integer_reply (nStartSlot r) # integer_reply (nEndSlot r) #
       map (\<lambda>(h, p). array_reply [string_reply h, integer_reply p, string_reply (node_id h)]) (HostVec r))"

definition fits_int :: "int \<Rightarrow> bool" where
  "fits_int n \<longleftrightarrow> - (2 ^ 31) \<le> n \<and> n < 2 ^ 31"

definition region_ok :: "SlotRegion \<Rightarrow> bool" where
  "region_ok r \<longleftrightarrow> fits_int (nStartSlot r) \<and> fits_int (nEndSlot r) \<and> HostVec r \<noteq> [] \<and> RedisServVec r = [] \<and>
     (\<forall>(h, p)\<in>set (HostVec r). 0 \<notin> set h \<and> fits_int p)"

lemmas reply_defs = integer_reply_def string_reply_def nil_reply_def array_reply_def

lemma to_int_id: "fits_int n \<Longrightarrow> to_int n = n"
  by (simp add: to_int_def fits_int_def signed_of_int signed_take_bit_int_eq_self)

lemma c_string_id: "0 \<notin> set s \<Longrightarrow> c_string (Some s) = Inr s"
  by (auto simp: c_string_def takeWhile_eq_all_conv)

lemma fetch_strings_ok: "fetch_strings (map string_reply ss) nRet vec = Inr (nRet, vec @ ss)"
  by (induction ss arbitrary: vec) (simp_all add: FetchString_def string_reply_def)

lemma fetch_pairs_ok:
  "fetch_pairs (concat (map (\<lambda>(k, v). [string_reply k, string_reply v]) kvs)) m = Inr (RC_SUCCESS, map_of kvs ++ m)"
proof (induction kvs arbitrary: m)
  case (Cons kv kvs)
  obtain k v where kv: "kv = (k, v)" by fastforce
  have "map_of kvs ++ insert_new k v m = map_of (kv # kvs) ++ m"
    by (rule ext) (auto simp: kv insert_new_def map_add_def split: option.splits)
  then show ?case using Cons by (simp add: kv FetchString_def string_reply_def fun_upd_def)
qed simp

lemma fetch_hosts_ok:
  "\<forall>(h, p)\<in>set hs. 0 \<notin> set h \<and> fits_int p \<Longrightarrow>
     fetch_hosts (map (\<lambda>(h, p). array_reply [string_reply h, integer_reply p, string_reply (node_id h)]) hs) vec =
       Inr (vec @ hs)"
  by (induction hs arbitrary: vec) (auto simp: reply_defs c_string_id to_int_id)

lemma fetch_regions_ok:
  "\<forall>r\<in>set regs. region_ok r \<Longrightarrow> fetch_regions (map (region_reply node_id) regs) vec = Inr (RC_SUCCESS, vec @ regs)"
proof (induction regs arbitrary: vec)
  case (Cons r regs)
  then have r: "region_ok r" by simp
  then obtain h hs where hs: "HostVec r = h # hs" by (cases "HostVec r") (auto simp: region_ok_def)
  have "fetch_hosts (map (\<lambda>(h, p). array_reply [string_reply h, integer_reply p, string_reply (node_id h)]) (HostVec r)) [] =
      Inr (HostVec r)"
    using r by (subst fetch_hosts_ok) (simp_all add: region_ok_def)
  then show ?case using Cons r
    by (simp add: region_reply_def hs region_ok_def array_reply_def [of "_ # _ # _ # _"] integer_reply_def to_int_id)
qed simp

text \<open>The lines of \<open>INFO\<close>: a name, a colon and a value.\<close>

definition info_text :: "(cstr \<times> cstr) list \<Rightarrow> cstr" where
  "info_text kvs = concat (map (\<lambda>(k, v). k @ [58] @ v @ [10]) kvs)"

definition info_ok :: "cstr \<times> cstr \<Rightarrow> bool" where
  "info_ok = (\<lambda>(k, v). k \<noteq> [] \<and> hd k \<notin> {13, 35} \<and> {10, 58} \<inter> set k = {} \<and> 10 \<notin> set v)"

lemma text_lines_line: "10 \<notin> set l \<Longrightarrow> text_lines (l @ 10 # s) = l # text_lines s"
proof -
  assume l: "10 \<notin> set l"
  have "takeWhile (\<lambda>b. b \<noteq> 10) (l @ 10 # s) = l" "dropWhile (\<lambda>b. b \<noteq> 10) (l @ 10 # s) = 10 # s"
    using l by (subst takeWhile_append2 dropWhile_append2; auto)+
  then show ?thesis by (subst text_lines.simps) simp
qed

lemma str_find_byte:
  "b \<notin> set k \<Longrightarrow> str_find (pre @ k @ b # v) [b] (length pre) = Some (length pre + length k)"
proof (induction k arbitrary: pre)
  case Nil
  then show ?case by (subst str_find.simps) simp
next
  case (Cons x k)
  then have "str_find ((pre @ [x]) @ k @ b # v) [b] (length (pre @ [x])) = Some (length (pre @ [x]) + length k)"
    by (intro Cons.IH) simp
  with Cons.prems show ?case by (subst str_find.simps) auto
qed

lemma map_info_ok:
  "\<forall>kv\<in>set kvs. info_ok kv \<Longrightarrow> map_info_loop (text_lines (info_text kvs)) m = (True, map_of kvs ++ m)"
proof (induction kvs arbitrary: m)
  case Nil
  then show ?case by (simp add: info_text_def text_lines.simps)
next
  case (Cons kv kvs)
  obtain k v where kv: "kv = (k, v)" by fastforce
  have ok: "k \<noteq> []" "hd k \<noteq> 13" "hd k \<noteq> 35" "10 \<notin> set (k @ 58 # v)" "58 \<notin> set k"
    using Cons.prems by (auto simp: info_ok_def kv)
  have lines: "text_lines (info_text (kv # kvs)) = (k @ 58 # v) # text_lines (info_text kvs)"
    using text_lines_line [OF ok(4), of "info_text kvs"] by (simp add: info_text_def kv)
  have "map_of kvs ++ insert_new k v m = map_of (kv # kvs) ++ m"
    by (rule ext) (auto simp: kv insert_new_def map_add_def split: option.splits)
  then show ?case
    using Cons ok(1-3) str_find_byte [OF ok(5), of "[]" v] unfolding lines
    by (simp add: fun_upd_def kv)
qed

text \<open>An array of integers is never fetched: \<open>FetchIntegerArray\<close> wants a reply of the type integer.\<close>

lemma FetchIntegerArray_fails: "FetchIntegerArray (array_reply es) out = (RC_REPLY_ERR, out)"
  by (simp add: FetchIntegerArray_def array_reply_def)

text \<open>
  C28. What a redis server answers is what the client fetches: an array of strings, the fields and
  values of a hash (of fields that appear twice the first one), the regions and hosts of
  \<open>CLUSTER SLOTS\<close> (with slots and ports that are an \<open>int\<close>), and the names and values of the lines of \<open>INFO\<close> (of the form name, colon, value),
  whatever the output parameter held before. An array of integers is never fetched.
\<close>

theorem redis_fetch_roundtrip:
  assumes "\<forall>r\<in>set regs. region_ok r" "\<forall>kv\<in>set info. info_ok kv"
  shows "FetchStringArray (array_reply (map string_reply ss)) (Some old) = Inr (RC_SUCCESS, Some ss) \<and>
    FetchMap (array_reply (concat (map (\<lambda>(k, v). [string_reply k, string_reply v]) kvs))) (Some m) =
      Inr (RC_SUCCESS, Some (map_of kvs)) \<and>
    FetchSlot (array_reply (map (region_reply node_id) regs)) (Some old_regs) = Inr (RC_SUCCESS, Some regs) \<and>
    ConvertToMapInfo (info_text info) Map.empty = (True, map_of info) \<and>
    FetchIntegerArray (array_reply es) ints = (RC_REPLY_ERR, ints)"
proof (intro conjI)
  show "FetchStringArray (array_reply (map string_reply ss)) (Some old) = Inr (RC_SUCCESS, Some ss)"
    by (simp add: FetchStringArray_def array_reply_def fetch_strings_ok)
  have "even (length (concat (map (\<lambda>(k, v). [string_reply k, string_reply v]) kvs)))"
    by (induction kvs) auto
  then show "FetchMap (array_reply (concat (map (\<lambda>(k, v). [string_reply k, string_reply v]) kvs))) (Some m) =
      Inr (RC_SUCCESS, Some (map_of kvs))"
    by (simp add: FetchMap_def array_reply_def fetch_pairs_ok)
  show "FetchSlot (array_reply (map (region_reply node_id) regs)) (Some old_regs) = Inr (RC_SUCCESS, Some regs)"
    by (simp add: FetchSlot_def array_reply_def fetch_regions_ok [OF assms(1)])
  show "ConvertToMapInfo (info_text info) Map.empty = (True, map_of info)"
    by (simp add: ConvertToMapInfo_def map_info_ok [OF assms(2)])
  show "FetchIntegerArray (array_reply es) ints = (RC_REPLY_ERR, ints)" by (rule FetchIntegerArray_fails)
qed

theorem redis_fetch_roundtrip_witness:
  "FetchSlot (array_reply [region_reply (\<lambda>_. [])
     \<lparr>nStartSlot = 0, nEndSlot = 5460, HostVec = [([49], 7000)], RedisServVec = []\<rparr>]) (Some []) =
     Inr (RC_SUCCESS, Some [\<lparr>nStartSlot = 0, nEndSlot = 5460, HostVec = [([49], 7000)], RedisServVec = []\<rparr>]) \<and>
   ConvertToMapInfo (info_text [([97], [98])]) Map.empty = (True, map_of [([97], [98])])"
  using redis_fetch_roundtrip [of "[\<lparr>nStartSlot = 0, nEndSlot = 5460, HostVec = [([49], 7000)], RedisServVec = []\<rparr>]"
      "[([97], [98])]" "[]" "[]" "[]" Map.empty "\<lambda>_. []" "[]"]
  by (simp add: region_ok_def fits_int_def info_ok_def)

end
