(* ===== verification/Redis_Server.thy ===== *)
theory Redis_Server
  imports Redis_Reply
begin

text \<open>
  Connections to a redis server (\<open>CRedisConnection\<close>, \<open>CRedisServer\<close> of
  \<open>source/redis_client/redisclient.cpp\<close>): a command is sent over an idle connection, which is reopened
  once when that fails; connections that are closed wait in a list until the checking thread has
  reopened them. The functions of hiredis are the record \<open>hiredis\<close>: what they return may depend on the
  world behind the network and change it. A connection is a number; of its \<open>redisContext\<close> only
  matters whether it is there, and hiredis is told the number, host and port (\<open>conn_at\<close>) instead of the
  context. Logging and the dumps of arguments and replies are left out.
\<close>

section \<open>Sending a command\<close>

type_synonym conn_at = "nat \<times> cstr \<times> int"

record 'w hiredis =
  redisCommandArgv :: "conn_at \<Rightarrow> cstr list \<Rightarrow> 'w \<Rightarrow> redisReply option \<times> 'w"
  redisAppendCommandArgv :: "conn_at \<Rightarrow> cstr list \<Rightarrow> 'w \<Rightarrow> bool \<times> 'w"
  redisGetReply :: "conn_at \<Rightarrow> 'w \<Rightarrow> redisReply option \<times> 'w"
  redisConnectWithTimeout :: "conn_at \<Rightarrow> 'w \<Rightarrow> bool \<times> 'w"

definition CmdRequest :: "'w hiredis \<Rightarrow> conn_at \<Rightarrow> bool \<Rightarrow> CRedisCommand \<Rightarrow> 'w \<Rightarrow> int \<times> CRedisCommand \<times> 'w" where
  "CmdRequest h a pContext c w =
     (if m_Args c = [] then (RC_PARAM_ERR, c, w)
      else if \<not> pContext then (RC_RQST_ERR, c, w)
      else case redisCommandArgv h a (m_Args c) w of
             (r, w) \<Rightarrow> (if r \<noteq> None then RC_SUCCESS else RC_RQST_ERR, c\<lparr>m_pReply := r\<rparr>, w))"

definition CmdAppend :: "'w hiredis \<Rightarrow> conn_at \<Rightarrow> bool \<Rightarrow> CRedisCommand \<Rightarrow> 'w \<Rightarrow> int \<times> 'w" where
  "CmdAppend h a pContext c w =
     (if m_Args c = [] then (RC_PARAM_ERR, w)
      else if \<not> pContext then (RC_RQST_ERR, w)
      else case redisAppendCommandArgv h a (m_Args c) w of (ok, w) \<Rightarrow> (if ok then RC_SUCCESS else RC_RQST_ERR, w))"

definition CmdReply :: "'w hiredis \<Rightarrow> conn_at \<Rightarrow> CRedisCommand \<Rightarrow> 'w \<Rightarrow> int \<times> CRedisCommand \<times> 'w" where
  "CmdReply h a c w =
     (case redisGetReply h a w of (r, w) \<Rightarrow> (if r \<noteq> None then RC_SUCCESS else RC_RQST_ERR, c\<lparr>m_pReply := r\<rparr>, w))"

text \<open>The new \<open>m_pContext\<close> is whether the connection could be made.\<close>

definition ConnectToRedis :: "'w hiredis \<Rightarrow> conn_at \<Rightarrow> 'w \<Rightarrow> bool \<times> 'w" where
  "ConnectToRedis h a w = redisConnectWithTimeout h a w"

definition Reconnect :: "'w hiredis \<Rightarrow> conn_at \<Rightarrow> 'w \<Rightarrow> bool \<times> 'w" where
  "Reconnect h a w = ConnectToRedis h a w"

text \<open>\<open>ConnRequest\<close>: code, command, whether the connection has a context afterwards, world.\<close>

definition ConnRequest_send ::
  "'w hiredis \<Rightarrow> conn_at \<Rightarrow> CRedisCommand \<Rightarrow> bool \<Rightarrow> 'w \<Rightarrow> int \<times> CRedisCommand \<times> bool \<times> 'w" where
  "ConnRequest_send h a c ctx w =
     (case CmdRequest h a ctx c w of (nRet, c, w) \<Rightarrow>
        if nRet = RC_RQST_ERR
        then (case Reconnect h a w of (ok, w) \<Rightarrow>
                if \<not> ok then (RC_RQST_ERR, c, False, w)
                else case CmdRequest h a True c w of (nRet, c, w) \<Rightarrow> (nRet, c, True, w))
        else (nRet, c, ctx, w))"

definition ConnRequest ::
  "'w hiredis \<Rightarrow> conn_at \<Rightarrow> CRedisCommand \<Rightarrow> bool \<Rightarrow> 'w \<Rightarrow> int \<times> CRedisCommand \<times> bool \<times> 'w" where
  "ConnRequest h a c ctx w =
     (if ctx then ConnRequest_send h a c True w
      else case Reconnect h a w of (ok, w) \<Rightarrow>
             if \<not> ok then (RC_RQST_ERR, c, False, w) else ConnRequest_send h a c True w)"

text \<open>The commands of a pipeline: all are sent, then all replies are read; the first failure ends it.\<close>

fun append_all :: "'w hiredis \<Rightarrow> conn_at \<Rightarrow> CRedisCommand list \<Rightarrow> 'w \<Rightarrow> int \<times> 'w" where
  "append_all h a [] w = (RC_SUCCESS, w)"
| "append_all h a (c # cs) w =
     (case CmdAppend h a True c w of (nRet, w) \<Rightarrow> if nRet = RC_SUCCESS then append_all h a cs w else (nRet, w))"

fun reply_all :: "'w hiredis \<Rightarrow> conn_at \<Rightarrow> CRedisCommand list \<Rightarrow> 'w \<Rightarrow> int \<times> CRedisCommand list \<times> 'w" where
  "reply_all h a [] w = (RC_SUCCESS, [], w)"
| "reply_all h a (c # cs) w =
     (case CmdReply h a c w of (nRet, c, w) \<Rightarrow>
        if nRet = RC_SUCCESS then (case reply_all h a cs w of (nRet, cs, w) \<Rightarrow> (nRet, c # cs, w))
        else (nRet, c # cs, w))"

definition ConnRequest_vec ::
  "'w hiredis \<Rightarrow> conn_at \<Rightarrow> CRedisCommand list \<Rightarrow> bool \<Rightarrow> 'w \<Rightarrow> int \<times> CRedisCommand list \<times> bool \<times> 'w" where
  "ConnRequest_vec h a cs ctx w =
     (case (if ctx then (True, w) else Reconnect h a w) of (ok, w) \<Rightarrow>
        if \<not> ok then (RC_RQST_ERR, cs, False, w)
        else case append_all h a cs w of (nRet, w) \<Rightarrow>
               if nRet \<noteq> RC_SUCCESS then (nRet, cs, True, w)
               else case reply_all h a cs w of (nRet, cs, w) \<Rightarrow> (nRet, cs, True, w))"

section \<open>The connections of a server\<close>

definition RQST_RETRY_TIMES :: nat where "RQST_RETRY_TIMES = 3"

record CRedisServer =
  m_strHost :: cstr
  m_nPort :: int
  m_nConnNum :: int
  m_bExit :: bool
  m_bMaster :: bool
  m_bCluster :: bool
  m_queIdleConn :: "nat list"
  m_listBadConn :: "nat list"
  m_pContext :: "nat \<Rightarrow> bool"

definition at_server :: "CRedisServer \<Rightarrow> nat \<Rightarrow> conn_at" where
  "at_server s p = (p, m_strHost s, m_nPort s)"

definition CleanConn :: "CRedisServer \<Rightarrow> CRedisServer" where
  "CleanConn s = s\<lparr>m_queIdleConn := [], m_listBadConn := []\<rparr>"

definition FetchConnection :: "CRedisServer \<Rightarrow> nat option \<times> CRedisServer" where
  "FetchConnection s =
     (case m_queIdleConn s of [] \<Rightarrow> (None, s) | p # q \<Rightarrow> (Some p, s\<lparr>m_queIdleConn := q\<rparr>))"

definition IsValid :: "CRedisServer \<Rightarrow> nat \<Rightarrow> bool" where
  "IsValid s p = m_pContext s p"

definition ReturnConnection :: "nat \<Rightarrow> CRedisServer \<Rightarrow> CRedisServer" where
  "ReturnConnection p s =
     (if IsValid s p then s\<lparr>m_queIdleConn := m_queIdleConn s @ [p]\<rparr>
      else s\<lparr>m_listBadConn := m_listBadConn s @ [p]\<rparr>)"

text \<open>\<open>Initialize\<close> makes \<open>m_nConnNum\<close> connections; \<open>p\<close> is the number of the next object.\<close>

fun init_loop :: "'w hiredis \<Rightarrow> nat \<Rightarrow> nat \<Rightarrow> CRedisServer \<Rightarrow> 'w \<Rightarrow> CRedisServer \<times> 'w" where
  "init_loop h 0 p s w = (s, w)"
| "init_loop h (Suc n) p s w =
     (case Reconnect h (at_server s p) w of (ok, w) \<Rightarrow>
        let s = s\<lparr>m_pContext := (m_pContext s)(p := ok)\<rparr> in
        init_loop h n (p + 1)
          (if ok then s\<lparr>m_queIdleConn := m_queIdleConn s @ [p]\<rparr> else s\<lparr>m_listBadConn := m_listBadConn s @ [p]\<rparr>) w)"

definition server_Initialize :: "'w hiredis \<Rightarrow> nat \<Rightarrow> CRedisServer \<Rightarrow> 'w \<Rightarrow> CRedisServer \<times> 'w" where
  "server_Initialize h p s w = init_loop h (nat (m_nConnNum s)) p (CleanConn (s\<lparr>m_bExit := False\<rparr>)) w"

text \<open>
  \<open>CheckConnection\<close>. The first part, under the mutex of the bad connections, tries to reopen each of
  them; it leaves the variable \<open>pRedisConn\<close> at the last one and counts in \<open>tmpVec\<close> those that could be
  reopened. The second part, under the mutex of the idle ones, pushes \<open>pRedisConn\<close> that many times.
\<close>

fun check_loop :: "'w hiredis \<Rightarrow> (nat \<Rightarrow> conn_at) \<Rightarrow> nat list \<Rightarrow> (nat \<Rightarrow> bool) \<Rightarrow> nat option \<Rightarrow> 'w \<Rightarrow>
    nat list \<times> nat list \<times> (nat \<Rightarrow> bool) \<times> nat option \<times> 'w" where
  "check_loop h at [] ctx pRedisConn w = ([], [], ctx, pRedisConn, w)"
| "check_loop h at (p # ps) ctx pRedisConn w =
     (case Reconnect h (at p) w of (ok, w) \<Rightarrow>
        case check_loop h at ps (ctx(p := ok)) (Some p) w of (bad, tmpVec, ctx, pRedisConn, w) \<Rightarrow>
          if ok then (bad, p # tmpVec, ctx, pRedisConn, w) else (p # bad, tmpVec, ctx, pRedisConn, w))"

definition CheckConnection_bad ::
  "'w hiredis \<Rightarrow> CRedisServer \<Rightarrow> 'w \<Rightarrow> CRedisServer \<times> nat list \<times> nat option \<times> 'w" where
  "CheckConnection_bad h s w =
     (case check_loop h (at_server s) (m_listBadConn s) (m_pContext s) None w of (bad, tmpVec, ctx, pRedisConn, w) \<Rightarrow>
        (s\<lparr>m_listBadConn := bad, m_pContext := ctx\<rparr>, tmpVec, pRedisConn, w))"

definition CheckConnection_push :: "nat list \<Rightarrow> nat option \<Rightarrow> CRedisServer \<Rightarrow> CRedisServer" where
  "CheckConnection_push tmpVec pRedisConn s =
     s\<lparr>m_queIdleConn := m_queIdleConn s @ map (\<lambda>_. the pRedisConn) tmpVec\<rparr>"

definition CheckConnection :: "'w hiredis \<Rightarrow> CRedisServer \<Rightarrow> 'w \<Rightarrow> CRedisServer \<times> 'w" where
  "CheckConnection h s w =
     (case CheckConnection_bad h s w of (s, tmpVec, pRedisConn, w) \<Rightarrow> (CheckConnection_push tmpVec pRedisConn s, w))"

text \<open>
  \<open>ServRequest\<close>. While it sleeps between two attempts to fetch a connection other threads may return
  theirs; \<open>env n\<close> is what they do to the server in the \<open>n\<close>-th pause.
\<close>

fun fetch_retry :: "(nat \<Rightarrow> CRedisServer \<Rightarrow> CRedisServer) \<Rightarrow> nat \<Rightarrow> CRedisServer \<Rightarrow> nat option \<times> CRedisServer" where
  "fetch_retry env 0 s = (None, s)"
| "fetch_retry env (Suc n) s =
     (case FetchConnection s of
        (Some p, s) \<Rightarrow> (Some p, s)
      | (None, s) \<Rightarrow> fetch_retry env n (env n s))"

definition ServRequest ::
  "'w hiredis \<Rightarrow> (nat \<Rightarrow> CRedisServer \<Rightarrow> CRedisServer) \<Rightarrow> CRedisCommand \<Rightarrow> CRedisServer \<Rightarrow> 'w \<Rightarrow>
     int \<times> CRedisCommand \<times> CRedisServer \<times> 'w" where
  "ServRequest h env c s w =
     (case fetch_retry env RQST_RETRY_TIMES s of
        (None, s) \<Rightarrow> (RC_NO_RESOURCE, c, s, w)
      | (Some p, s) \<Rightarrow>
          (case ConnRequest h (at_server s p) c (m_pContext s p) w of
             (nRet, c, ctx, w) \<Rightarrow> (nRet, c, ReturnConnection p (s\<lparr>m_pContext := (m_pContext s)(p := ctx)\<rparr>), w)))"

text \<open>
  The overload for a pipeline goes on to the next connection, without returning the one it has, when
  that is not valid.
\<close>

fun fetch_valid :: "(nat \<Rightarrow> CRedisServer \<Rightarrow> CRedisServer) \<Rightarrow> nat \<Rightarrow> nat option \<Rightarrow> CRedisServer \<Rightarrow> nat option \<times> CRedisServer" where
  "fetch_valid env 0 found s = (found, s)"
| "fetch_valid env (Suc n) found s =
     (case FetchConnection s of
        (Some p, s) \<Rightarrow> if IsValid s p then (Some p, s) else fetch_valid env n (Some p) (env n s)
      | (None, s) \<Rightarrow> fetch_valid env n None (env n s))"

definition ServRequest_vec ::
  "'w hiredis \<Rightarrow> (nat \<Rightarrow> CRedisServer \<Rightarrow> CRedisServer) \<Rightarrow> CRedisCommand list \<Rightarrow> CRedisServer \<Rightarrow> 'w \<Rightarrow>
     int \<times> CRedisCommand list \<times> CRedisServer \<times> 'w" where
  "ServRequest_vec h env cs s w =
     (case fetch_valid env RQST_RETRY_TIMES None s of
        (None, s) \<Rightarrow> (RC_NO_RESOURCE, cs, s, w)
      | (Some p, s) \<Rightarrow>
          (case ConnRequest_vec h (at_server s p) cs (m_pContext s p) w of
             (nRet, cs, ctx, w) \<Rightarrow> (nRet, cs, ReturnConnection p (s\<lparr>m_pContext := (m_pContext s)(p := ctx)\<rparr>), w)))"

definition LoadSlaveInfo ::
  "'w hiredis \<Rightarrow> (nat \<Rightarrow> CRedisServer \<Rightarrow> CRedisServer) \<Rightarrow> CRedisServer \<Rightarrow> 'w \<Rightarrow> (bool \<times> CRedisServer \<times> 'w) result" where
  "LoadSlaveInfo h env s w =
     (case ServRequest h env (SetArgs_s (bytes ''Replication'') (CRedisCommand_new (bytes ''info'') False)) s w of
        (nRet, c, s, w) \<Rightarrow>
          if nRet \<noteq> RC_SUCCESS then Inr (False, s, w)
          else bind_result (FetchResult (BIND_STR (Some [])) c) (\<lambda>(nRet, strInfo).
            if nRet \<noteq> RC_SUCCESS then Inr (False, s, w)
            else case ConvertToMapInfo (the strInfo) Map.empty of
                   (ok, mapInfo) \<Rightarrow>
                     if \<not> ok then Inr (False, s, w)
                     else Inr (True, s\<lparr>m_bMaster :=
                            (case mapInfo (bytes ''role'') of None \<Rightarrow> True | Some role \<Rightarrow> role = bytes ''master'' @ [13])\<rparr>, w)))"

text \<open>A request changes nothing of a command but its reply.\<close>

lemma CmdRequest_conv: "CmdRequest h a ctx c w = (n, c', w') \<Longrightarrow> m_funcConv c' = m_funcConv c"
  by (auto simp: CmdRequest_def split: if_splits prod.splits)

lemma ServRequest_conv: "ServRequest h env c s w = (n, c', s', w') \<Longrightarrow> m_funcConv c' = m_funcConv c"
  by (auto simp: ServRequest_def ConnRequest_def ConnRequest_send_def dest!: CmdRequest_conv
      split: if_splits prod.splits option.splits)

end
