(* ===== verification/Redis_Pool.thy ===== *)
theory Redis_Pool
  imports Redis_Server
begin

text \<open>
  The connections of a \<open>CRedisServer\<close> under concurrent requests and the checking thread. A step is
  what one thread does while it holds a mutex, or a request on a connection it has fetched.
\<close>

record 'w redis_pool =
  pool_world :: 'w
  pool_server :: CRedisServer
  pool_held :: "nat \<Rightarrow> nat option"
  pool_checking :: "(nat list \<times> nat option) option"

text \<open>
  \<open>k\<close> bounds the number of closed connections the checking thread finds. The world behind hiredis
  may change at any time.
\<close>

inductive pool_step :: "'w hiredis \<Rightarrow> nat \<Rightarrow> 'w redis_pool \<Rightarrow> 'w redis_pool \<Rightarrow> bool" for h k where
  world: "pool_step h k s (s\<lparr>pool_world := w\<rparr>)"
| fetch: "pool_held s t = None \<Longrightarrow> FetchConnection (pool_server s) = (Some p, sv) \<Longrightarrow>
    pool_step h k s (s\<lparr>pool_server := sv, pool_held := (pool_held s)(t := Some p)\<rparr>)"
| request: "pool_held s t = Some p \<Longrightarrow>
    ConnRequest h (at_server (pool_server s) p) c (m_pContext (pool_server s) p) (pool_world s) = (nRet, c', ctx, w) \<Longrightarrow>
    pool_step h k s (s\<lparr>pool_server := (pool_server s)\<lparr>m_pContext := (m_pContext (pool_server s))(p := ctx)\<rparr>, pool_world := w\<rparr>)"
| request_vec: "pool_held s t = Some p \<Longrightarrow>
    ConnRequest_vec h (at_server (pool_server s) p) cs (m_pContext (pool_server s) p) (pool_world s) = (nRet, cs', ctx, w) \<Longrightarrow>
    pool_step h k s (s\<lparr>pool_server := (pool_server s)\<lparr>m_pContext := (m_pContext (pool_server s))(p := ctx)\<rparr>, pool_world := w\<rparr>)"
| give_back: "pool_held s t = Some p \<Longrightarrow>
    pool_step h k s (s\<lparr>pool_server := ReturnConnection p (pool_server s), pool_held := (pool_held s)(t := None)\<rparr>)"
| check: "pool_checking s = None \<Longrightarrow> length (m_listBadConn (pool_server s)) \<le> k \<Longrightarrow>
    CheckConnection_bad h (pool_server s) (pool_world s) = (sv, tmpVec, pRedisConn, w) \<Longrightarrow>
    pool_step h k s (s\<lparr>pool_server := sv, pool_checking := Some (tmpVec, pRedisConn), pool_world := w\<rparr>)"
| push: "pool_checking s = Some (tmpVec, pRedisConn) \<Longrightarrow>
    pool_step h k s (s\<lparr>pool_server := CheckConnection_push tmpVec pRedisConn (pool_server s), pool_checking := None\<rparr>)"

inductive pool_reach :: "'w hiredis \<Rightarrow> nat \<Rightarrow> nat \<Rightarrow> 'w redis_pool \<Rightarrow> bool" for h k n where
  start: "nat (m_nConnNum s0) = n \<Longrightarrow> server_Initialize h 0 s0 w = (sv, w') \<Longrightarrow>
    pool_reach h k n \<lparr>pool_world = w', pool_server = sv, pool_held = (\<lambda>_. None), pool_checking = None\<rparr>"
| step: "pool_reach h k n s \<Longrightarrow> pool_step h k s s' \<Longrightarrow> pool_reach h k n s'"

text \<open>The connections that no thread holds: idle, closed, or on their way from one to the other.\<close>

fun moving :: "(nat list \<times> nat option) option \<Rightarrow> nat list" where
  "moving None = []"
| "moving (Some (tmpVec, _)) = tmpVec"

definition parked :: "'w redis_pool \<Rightarrow> nat list" where
  "parked s = m_queIdleConn (pool_server s) @ m_listBadConn (pool_server s) @ moving (pool_checking s)"

definition pool_ok :: "nat \<Rightarrow> 'w redis_pool \<Rightarrow> bool" where
  "pool_ok n s \<longleftrightarrow> distinct (parked s) \<and> set (parked s) \<inter> ran (pool_held s) = {} \<and>
     set (parked s) \<union> ran (pool_held s) = {0..<n} \<and>
     (\<forall>t t' p. pool_held s t = Some p \<and> pool_held s t' = Some p \<longrightarrow> t = t') \<and>
     (\<forall>tmpVec l. pool_checking s = Some (tmpVec, l) \<longrightarrow> tmpVec = [] \<or> (\<exists>p. tmpVec = [p] \<and> l = Some p))"

lemma init_loop_ok:
  assumes "init_loop h n p s w = (s', w')"
  shows "distinct (m_queIdleConn s @ m_listBadConn s) \<Longrightarrow> \<forall>q\<in>set (m_queIdleConn s @ m_listBadConn s). q < p \<Longrightarrow>
    distinct (m_queIdleConn s' @ m_listBadConn s') \<and>
    set (m_queIdleConn s' @ m_listBadConn s') = set (m_queIdleConn s @ m_listBadConn s) \<union> {p..<p + n}"
  using assms
proof (induction n arbitrary: p s w)
  case (Suc n)
  obtain ok w1 where r: "Reconnect h (at_server s p) w = (ok, w1)" by fastforce
  let ?s = "s\<lparr>m_pContext := (m_pContext s)(p := ok)\<rparr>"
  let ?t = "if ok then ?s\<lparr>m_queIdleConn := m_queIdleConn ?s @ [p]\<rparr> else ?s\<lparr>m_listBadConn := m_listBadConn ?s @ [p]\<rparr>"
  have "init_loop h n (p + 1) ?t w1 = (s', w')" using Suc.prems(3) by (simp add: r Let_def)
  moreover have "distinct (m_queIdleConn ?t @ m_listBadConn ?t)" "\<forall>q\<in>set (m_queIdleConn ?t @ m_listBadConn ?t). q < p + 1"
    using Suc.prems(1,2) by (auto simp: less_Suc_eq)
  ultimately have "distinct (m_queIdleConn s' @ m_listBadConn s') \<and> set (m_queIdleConn s' @ m_listBadConn s') =
      set (m_queIdleConn ?t @ m_listBadConn ?t) \<union> {p + 1..<p + 1 + n}"
    by (intro Suc.IH)
  moreover have "{p..<p + Suc n} = insert p {p + 1..<p + 1 + n}" by auto
  ultimately show ?case by auto
qed simp

lemma init_ok: "server_Initialize h 0 s0 w = (sv, w') \<Longrightarrow>
    pool_ok (nat (m_nConnNum s0)) \<lparr>pool_world = w1, pool_server = sv, pool_held = (\<lambda>_. None), pool_checking = None\<rparr>"
  unfolding server_Initialize_def by (drule init_loop_ok) (auto simp: CleanConn_def pool_ok_def parked_def)

lemma check_loop_ok:
  assumes "check_loop h at ps ctx l w = (bad, tmp, ctx', l', w')" "length ps \<le> 1"
  shows "set (bad @ tmp) = set ps \<and> length (bad @ tmp) = length ps \<and> (tmp = [] \<or> (\<exists>p. tmp = [p] \<and> l' = Some p))"
  using assms by (cases ps) (auto split: prod.splits if_splits)

lemma ran_remove:
  assumes "m t = Some p" "\<forall>t'. m t' = Some p \<longrightarrow> t = t'"
  shows "ran (m(t := None)) = ran m - {p}"
proof (rule set_eqI, rule iffI)
  fix x
  assume "x \<in> ran (m(t := None))"
  then obtain a where "a \<noteq> t" "m a = Some x" by (auto simp: ran_def split: if_splits)
  then show "x \<in> ran m - {p}" using assms(2) by (auto intro: ranI)
next
  fix x
  assume "x \<in> ran m - {p}"
  then obtain a where "m a = Some x" "x \<noteq> p" by (auto simp: ran_def)
  then have "(m(t := None)) a = Some x" using assms(1) by auto
  then show "x \<in> ran (m(t := None))" by (rule ranI)
qed

lemma pool_step_ok: "pool_step h 1 s s' \<Longrightarrow> pool_ok n s \<Longrightarrow> pool_ok n s'"
proof (induction rule: pool_step.induct)
  case (fetch s t p sv)
  then obtain q where q: "m_queIdleConn (pool_server s) = p # q" "sv = (pool_server s)\<lparr>m_queIdleConn := q\<rparr>"
    by (auto simp: FetchConnection_def split: list.splits)
  have ran: "ran ((pool_held s)(t := Some p)) = insert p (ran (pool_held s))"
    using fetch(1) by (simp add: ran_map_upd)
  have "p \<notin> ran (pool_held s)" using fetch(3) q(1) by (auto simp: pool_ok_def parked_def)
  then have "pool_held s u \<noteq> Some p" for u by (auto simp: ran_def)
  then show ?case using fetch(3) q ran by (auto simp: pool_ok_def parked_def)
next
  case (give_back s t p)
  let ?s = "s\<lparr>pool_server := ReturnConnection p (pool_server s), pool_held := (pool_held s)(t := None)\<rparr>"
  have "\<forall>t'. pool_held s t' = Some p \<longrightarrow> t = t'" using give_back unfolding pool_ok_def by blast
  from ran_remove [OF give_back(1) this] have ran: "ran (pool_held ?s) = ran (pool_held s) - {p}" by simp
  have p: "p \<in> ran (pool_held s)" using give_back(1) by (rule ranI)
  then have "p \<notin> set (parked s)" "distinct (parked s)" using give_back(2) by (auto simp: pool_ok_def)
  then have parked: "distinct (parked ?s)" "set (parked ?s) = insert p (set (parked s))"
    by (auto simp: parked_def ReturnConnection_def)
  show ?case
    unfolding pool_ok_def ran parked(2) using give_back(2) p parked(1) by (auto simp: pool_ok_def)
next
  case (check s sv tmpVec l w')
  let ?b = "m_listBadConn (pool_server s)"
  obtain bad ctx where c: "check_loop h (at_server (pool_server s)) ?b (m_pContext (pool_server s)) None (pool_world s) = (bad, tmpVec, ctx, l, w')"
    and sv: "sv = (pool_server s)\<lparr>m_listBadConn := bad, m_pContext := ctx\<rparr>"
    using check(3) by (auto simp: CheckConnection_bad_def split: prod.splits)
  note ok = check_loop_ok [OF c check(2)]
  have "distinct ?b" using check(4) by (simp add: pool_ok_def parked_def)
  then have "distinct (bad @ tmpVec)" using ok by (metis card_distinct distinct_card)
  then show ?case using check(1,4) ok sv by (auto simp: pool_ok_def parked_def)
next
  case (push s tmpVec l)
  then have "map (\<lambda>_. the l) tmpVec = tmpVec" by (auto simp: pool_ok_def)
  with push show ?case by (auto simp: pool_ok_def parked_def CheckConnection_push_def)
qed (auto simp: pool_ok_def parked_def)

lemma pool_reach_ok: "pool_reach h 1 n s \<Longrightarrow> pool_ok n s"
  by (induction rule: pool_reach.induct) (auto intro: init_ok pool_step_ok)

text \<open>
  C22. As long as the checking thread never finds more than one closed connection, no connection is
  used by two threads, none is idle and in use at the same time or twice in the queue, and none of
  the \<open>n\<close> connections is ever lost, however requests, returns and checks are interleaved and whatever
  hiredis answers.\<close>

theorem redis_pool_exclusive:
  assumes "pool_reach h 1 n s"
  shows "inj_on (pool_held s) (dom (pool_held s)) \<and> distinct (parked s) \<and>
    set (parked s) \<inter> ran (pool_held s) = {} \<and> set (parked s) \<union> ran (pool_held s) = {0..<n}"
  using pool_reach_ok [OF assms] by (auto simp: pool_ok_def inj_on_def)

text \<open>A network that is up or down, over a server object with \<open>n\<close> connections.\<close>

definition net_hiredis :: "bool hiredis" where
  "net_hiredis = \<lparr>redisCommandArgv = (\<lambda>_ _ w. (None, w)), redisAppendCommandArgv = (\<lambda>_ _ w. (w, w)),
     redisGetReply = (\<lambda>_ w. (None, w)), redisConnectWithTimeout = (\<lambda>_ w. (w, w))\<rparr>"

definition new_server :: "nat \<Rightarrow> CRedisServer" where
  "new_server n = \<lparr>m_strHost = [], m_nPort = 6379, m_nConnNum = int n, m_bExit = False, m_bMaster = True, m_bCluster = False,
     m_queIdleConn = [], m_listBadConn = [], m_pContext = (\<lambda>_. False)\<rparr>"

definition pool_of :: "bool \<Rightarrow> nat list \<Rightarrow> nat list \<Rightarrow> (nat \<Rightarrow> bool) \<Rightarrow> (nat \<Rightarrow> nat option) \<Rightarrow> (nat list \<times> nat option) option \<Rightarrow> nat \<Rightarrow> bool redis_pool" where
  "pool_of w idle bad ctx held chk n = \<lparr>pool_world = w,
     pool_server = (new_server n)\<lparr>m_queIdleConn := idle, m_listBadConn := bad, m_pContext := ctx\<rparr>,
     pool_held = held, pool_checking = chk\<rparr>"

lemmas pool_sample_defs = pool_of_def net_hiredis_def new_server_def server_Initialize_def CleanConn_def Reconnect_def
  ConnectToRedis_def FetchConnection_def CheckConnection_bad_def CheckConnection_push_def Let_def

lemma pool_sample_start:
  "pool_reach net_hiredis k 1 (pool_of True [0] [] ((\<lambda>_. False)(0 := True)) (\<lambda>_. None) None 1)"
  "pool_reach net_hiredis k 2 (pool_of False [] [0, 1] ((\<lambda>_. False)(0 := False, 1 := False)) (\<lambda>_. None) None 2)"
  using pool_reach.start [of "new_server 1" 1 net_hiredis True _ True k]
    pool_reach.start [of "new_server 2" 2 net_hiredis False _ False k]
  by (simp_all add: pool_sample_defs numeral_2_eq_2)

lemma pool_step_to: "pool_reach h k n s \<Longrightarrow> pool_step h k s s' \<Longrightarrow> s' = s'' \<Longrightarrow> pool_reach h k n s''"
  by (blast intro: pool_reach.step)

lemma pool_fetch:
  assumes "pool_reach net_hiredis k n (pool_of w (p # idle) bad ctx held chk n)" "held t = None"
  shows "pool_reach net_hiredis k n (pool_of w idle bad ctx (held(t := Some p)) chk n)"
  by (rule pool_step_to [OF assms(1) pool_step.fetch [of _ t p]]) (simp_all add: pool_sample_defs assms(2))

theorem redis_pool_exclusive_witness:
  "\<exists>s. pool_reach net_hiredis 1 1 s \<and> inj_on (pool_held s) (dom (pool_held s)) \<and> distinct (parked s) \<and>
    set (parked s) \<union> ran (pool_held s) = {0..<1} \<and> pool_held s 5 = Some 0"
proof -
  let ?s = "pool_of True [] [] ((\<lambda>_. False)(0 := True)) ((\<lambda>_. None)(5 := Some 0)) None 1"
  have r: "pool_reach net_hiredis 1 1 ?s" by (rule pool_fetch [OF pool_sample_start(1)]) simp
  moreover have "pool_held ?s 5 = Some 0" by (simp add: pool_of_def)
  ultimately show ?thesis using redis_pool_exclusive [OF r] by blast
qed

text \<open>
  With two closed connections the checking thread puts the same one into the queue twice: two
  threads then use one connection at the same time, and the other is lost.\<close>

theorem redis_pool_shared:
  "\<exists>h s. pool_reach (h :: bool hiredis) 2 2 s \<and> pool_held s 0 = Some 1 \<and> pool_held s 1 = Some 1 \<and>
     0 \<notin> set (parked s) \<union> ran (pool_held s)"
proof -
  let ?h = "net_hiredis" and ?ctx = "(\<lambda>_. False)(0 := True, 1 := True)"
  have 1: "pool_reach ?h 2 2 (pool_of True [] [0, 1] ((\<lambda>_. False)(0 := False, 1 := False)) (\<lambda>_. None) None 2)"
    by (rule pool_step_to [OF pool_sample_start(2) pool_step.world [of _ _ _ True]]) (simp add: pool_of_def)
  have 2: "pool_reach ?h 2 2 (pool_of True [] [] ?ctx (\<lambda>_. None) (Some ([0, 1], Some 1)) 2)"
    by (rule pool_step_to [OF 1 pool_step.check]) (simp_all add: pool_sample_defs)
  have 3: "pool_reach ?h 2 2 (pool_of True [1, 1] [] ?ctx (\<lambda>_. None) None 2)"
    by (rule pool_step_to [OF 2 pool_step.push [of _ "[0, 1]" "Some 1"]]) (simp_all add: pool_sample_defs)
  have 4: "pool_reach ?h 2 2 (pool_of True [] [] ?ctx ((\<lambda>_. None)(0 := Some 1, 1 := Some 1)) None 2)"
    by (rule pool_fetch [OF pool_fetch [OF 3]]) simp_all
  show ?thesis
    by (rule exI [of _ ?h], rule exI, intro conjI, rule 4) (auto simp: pool_of_def parked_def new_server_def ran_def)
qed

end
