(* ===== verification/Redis_Client.thy ===== *)
theory Redis_Client
  imports Redis_Server
begin

text \<open>
  \<open>CRedisClient\<close> (\<open>source/redis_client/redisclient.cpp\<close>): the servers of a cluster, the slots they serve,
  and the execution of commands, one by one or in a pipeline. A \<open>CRedisServer\<close> object is a number,
  \<open>cl_servers\<close> is the object; numbers of new objects are handed out in ascending order. \<open>env\<close> is
  what other threads do while \<open>ServRequest\<close> waits for a connection, \<open>rnd\<close> what \<open>rand()\<close> returns.
\<close>

record CRedisClient =
  m_nTimeout :: int
  cl_nConnNum :: int
  cl_bCluster :: bool
  m_vecSlot :: "SlotRegion list"
  m_vecRedisServ :: "nat list"
  cl_servers :: "nat \<Rightarrow> CRedisServer"
  cl_next :: nat
  cl_next_conn :: nat

type_synonym envt = "nat \<Rightarrow> CRedisServer \<Rightarrow> CRedisServer"

section \<open>Slots\<close>

text \<open>\<open>CompSlot\<close> and \<open>std::equal_range\<close>, which is the pair of the lower and the upper bound.\<close>

definition slot_before :: "SlotRegion \<Rightarrow> int \<Rightarrow> bool" where
  "slot_before slotReg nSlot \<longleftrightarrow> nEndSlot slotReg < nSlot"

definition slot_after :: "int \<Rightarrow> SlotRegion \<Rightarrow> bool" where
  "slot_after nSlot slotReg \<longleftrightarrow> nSlot < nStartSlot slotReg"

function partition_search :: "('a \<Rightarrow> bool) \<Rightarrow> 'a list \<Rightarrow> nat \<Rightarrow> nat \<Rightarrow> nat" where
  "partition_search P xs first len =
     (if len = 0 then first
      else let half = len div 2; middle = first + half in
        if P (xs ! middle) then partition_search P xs (middle + 1) (len - half - 1)
        else partition_search P xs first half)"
  by pat_completeness auto
termination
  by (relation "measure (\<lambda>(P, xs, first, len). len)") auto

declare partition_search.simps [simp del]

definition equal_range :: "SlotRegion list \<Rightarrow> int \<Rightarrow> nat \<times> nat" where
  "equal_range vec nSlot =
     (partition_search (\<lambda>r. slot_before r nSlot) vec 0 (length vec),
      partition_search (\<lambda>r. \<not> slot_after nSlot r) vec 0 (length vec))"

definition FindServer_slot :: "int \<Rightarrow> CRedisClient \<Rightarrow> nat option" where
  "FindServer_slot nSlot cl =
     (let (lo, hi) = equal_range (m_vecSlot cl) nSlot in
      if lo \<noteq> length (m_vecSlot cl) \<and> lo \<noteq> hi
      then find (\<lambda>i. m_bMaster (cl_servers cl i)) (RedisServVec (m_vecSlot cl ! lo))
      else None)"

definition FindServer_host :: "cstr \<Rightarrow> int \<Rightarrow> CRedisClient \<Rightarrow> nat option" where
  "FindServer_host strHost nPort cl =
     find (\<lambda>i. strHost = m_strHost (cl_servers cl i) \<and> nPort = m_nPort (cl_servers cl i)) (m_vecRedisServ cl)"

definition InSameNode :: "cstr \<Rightarrow> cstr \<Rightarrow> CRedisClient \<Rightarrow> bool" where
  "InSameNode strKey1 strKey2 cl =
     (if cl_bCluster cl
      then FindServer_slot (uint (HASH_SLOT strKey1)) cl = FindServer_slot (uint (HASH_SLOT strKey2)) cl
      else True)"

definition GetMatchedServer :: "nat \<Rightarrow> CRedisCommand \<Rightarrow> CRedisClient \<Rightarrow> nat option result" where
  "GetMatchedServer rnd c cl =
     (if \<not> cl_bCluster cl then Inr (case m_vecRedisServ cl of [] \<Rightarrow> None | i # _ \<Rightarrow> Some i)
      else if m_nSlot c \<noteq> - 1 then Inr (FindServer_slot (m_nSlot c) cl)
      else if m_vecRedisServ cl = [] then Inl Undefined_behaviour
      else Inr (Some (m_vecRedisServ cl ! (rnd mod length (m_vecRedisServ cl)))))"

section \<open>Executing a command\<close>

definition SimpleExecute :: "'w hiredis \<Rightarrow> envt \<Rightarrow> nat \<Rightarrow> CRedisCommand \<Rightarrow> CRedisClient \<Rightarrow> 'w \<Rightarrow>
    (int \<times> CRedisCommand \<times> CRedisClient \<times> 'w) result" where
  "SimpleExecute h env rnd c cl w =
     bind_result (GetMatchedServer rnd c cl) (\<lambda>pRedisServ.
       case pRedisServ of
         None \<Rightarrow> Inr (RC_RQST_ERR, c, cl, w)
       | Some i \<Rightarrow>
           (case ServRequest h env c (cl_servers cl i) w of
              (nRet, c, s, w) \<Rightarrow> Inr (nRet, c, cl\<lparr>cl_servers := (cl_servers cl)(i := s)\<rparr>, w)))"

text \<open>
  \<open>ExecuteImpl\<close> without a pipeline: \<open>set_args\<close> is the overload of \<open>SetArgs\<close> with its arguments. The
  result is the return code and the output parameter.
\<close>

definition ExecuteImpl ::
  "'w hiredis \<Rightarrow> envt \<Rightarrow> nat \<Rightarrow> cstr \<Rightarrow> (CRedisCommand \<Rightarrow> CRedisCommand) \<Rightarrow> int \<Rightarrow>
     (redisReply \<Rightarrow> (int \<times> 'a) result) \<Rightarrow> conv \<Rightarrow> 'a \<Rightarrow> CRedisClient \<Rightarrow> 'w \<Rightarrow> (int \<times> 'a \<times> CRedisClient \<times> 'w) result" where
  "ExecuteImpl h env rnd strCmd set_args nSlot funcFetch funcConv out cl w =
     (let c = (set_args (CRedisCommand_new strCmd True))\<lparr>m_nSlot := nSlot, m_funcConv := funcConv\<rparr> in
      bind_result (SimpleExecute h env rnd c cl w) (\<lambda>(nRet, c, cl, w).
        if nRet = RC_SUCCESS then bind_result (FetchResult funcFetch c) (\<lambda>(nRet, out). Inr (nRet, out, cl, w))
        else Inr (nRet, out, cl, w)))"

abbreviation slot_of :: "cstr \<Rightarrow> int" where
  "slot_of strKey \<equiv> uint (HASH_SLOT strKey)"

text \<open>The methods that the lock and the sequence manager call.\<close>

definition Del ::
  "'w hiredis \<Rightarrow> envt \<Rightarrow> nat \<Rightarrow> cstr \<Rightarrow> int option \<Rightarrow> CRedisClient \<Rightarrow> 'w \<Rightarrow> (int \<times> int option \<times> CRedisClient \<times> 'w) result" where
  "Del h env rnd strKey pnVal cl w =
     ExecuteImpl h env rnd (bytes ''del'') (SetArgs_s strKey) (slot_of strKey) (BIND_INT pnVal) FUNC_DEF_CONV pnVal cl w"

definition Get ::
  "'w hiredis \<Rightarrow> envt \<Rightarrow> nat \<Rightarrow> cstr \<Rightarrow> cstr option \<Rightarrow> CRedisClient \<Rightarrow> 'w \<Rightarrow> (int \<times> cstr option \<times> CRedisClient \<times> 'w) result" where
  "Get h env rnd strKey pstrVal cl w =
     ExecuteImpl h env rnd (bytes ''get'') (SetArgs_s strKey) (slot_of strKey) (BIND_STR pstrVal) FUNC_DEF_CONV pstrVal cl w"

text \<open>\<open>Getset\<close> reads the new value through the pointer that gets the old one.\<close>

definition Getset ::
  "'w hiredis \<Rightarrow> envt \<Rightarrow> nat \<Rightarrow> cstr \<Rightarrow> cstr option \<Rightarrow> CRedisClient \<Rightarrow> 'w \<Rightarrow> (int \<times> cstr option \<times> CRedisClient \<times> 'w) result" where
  "Getset h env rnd strKey pstrVal cl w =
     (case pstrVal of
        None \<Rightarrow> Inl Undefined_behaviour
      | Some v \<Rightarrow>
          ExecuteImpl h env rnd (bytes ''getset'') (SetArgs_ss strKey v) (slot_of strKey) (BIND_STR pstrVal) FUNC_DEF_CONV
            pstrVal cl w)"

definition Setnx ::
  "'w hiredis \<Rightarrow> envt \<Rightarrow> nat \<Rightarrow> cstr \<Rightarrow> cstr \<Rightarrow> CRedisClient \<Rightarrow> 'w \<Rightarrow> (int \<times> int option \<times> CRedisClient \<times> 'w) result" where
  "Setnx h env rnd strKey strVal cl w =
     ExecuteImpl h env rnd (bytes ''setnx'') (SetArgs_ss strKey strVal) (slot_of strKey) (BIND_INT None)
       (IntResConv RC_OBJ_EXIST 0) None cl w"

definition redis_Set ::
  "'w hiredis \<Rightarrow> envt \<Rightarrow> nat \<Rightarrow> cstr \<Rightarrow> cstr \<Rightarrow> CRedisClient \<Rightarrow> 'w \<Rightarrow> (int \<times> cstr option \<times> CRedisClient \<times> 'w) result" where
  "redis_Set h env rnd strKey strVal cl w =
     ExecuteImpl h env rnd (bytes ''set'') (SetArgs_ss strKey strVal) (slot_of strKey) (BIND_STR None)
       (StuResConv (bytes ''OK'')) None cl w"

definition Incrby ::
  "'w hiredis \<Rightarrow> envt \<Rightarrow> nat \<Rightarrow> cstr \<Rightarrow> int \<Rightarrow> int option \<Rightarrow> CRedisClient \<Rightarrow> 'w \<Rightarrow> (int \<times> int option \<times> CRedisClient \<times> 'w) result" where
  "Incrby h env rnd strKey nIncr pnVal cl w =
     ExecuteImpl h env rnd (bytes ''incrby'') (SetArgs_ss strKey (print_int nIncr)) (slot_of strKey) (BIND_INT pnVal)
       FUNC_DEF_CONV pnVal cl w"

section \<open>The slots of the cluster\<close>

text \<open>
  A new \<open>CRedisServer\<close>; its members \<open>m_bExit\<close>, \<open>m_bMaster\<close> and \<open>m_bCluster\<close> are not initialised, \<open>junk\<close> is what
  the memory happens to hold for each of them, in the memory of each server.
\<close>

type_synonym uninitialised = "bool \<times> bool \<times> bool"

definition CRedisServer_new :: "uninitialised \<Rightarrow> cstr \<Rightarrow> int \<Rightarrow> int \<Rightarrow> CRedisServer" where
  "CRedisServer_new junk strHost nPort nConnNum =
     \<lparr>m_strHost = strHost, m_nPort = nPort, m_nConnNum = nConnNum, m_bExit = fst junk, m_bMaster = fst (snd junk), m_bCluster = snd (snd junk),
      m_queIdleConn = [], m_listBadConn = [], m_pContext = (\<lambda>_. False)\<rparr>"

definition add_server :: "'w hiredis \<Rightarrow> (nat \<Rightarrow> uninitialised) \<Rightarrow> cstr \<Rightarrow> int \<Rightarrow> CRedisClient \<Rightarrow> 'w \<Rightarrow> nat \<times> CRedisClient \<times> 'w" where
  "add_server h junk ip port cl w =
     (case server_Initialize h (cl_next_conn cl) (CRedisServer_new (junk (cl_next cl)) ip port (cl_nConnNum cl)) w of
        (s, w) \<Rightarrow>
          (cl_next cl, cl\<lparr>cl_servers := (cl_servers cl)(cl_next cl := s), m_vecRedisServ := m_vecRedisServ cl @ [cl_next cl],
             cl_next := cl_next cl + 1, cl_next_conn := cl_next_conn cl + nat (cl_nConnNum cl)\<rparr>, w))"

fun host_loop :: "'w hiredis \<Rightarrow> (nat \<Rightarrow> uninitialised) \<Rightarrow> (cstr \<times> int) list \<Rightarrow> nat list \<Rightarrow> CRedisClient \<Rightarrow> 'w \<Rightarrow> nat list \<times> CRedisClient \<times> 'w" where
  "host_loop h junk [] servs cl w = (servs, cl, w)"
| "host_loop h junk ((ip, port) # hs) servs cl w =
     (case FindServer_host ip port cl of
        Some i \<Rightarrow> host_loop h junk hs (servs @ [i]) cl w
      | None \<Rightarrow> (case add_server h junk ip port cl w of (i, cl, w) \<Rightarrow> host_loop h junk hs (servs @ [i]) cl w))"

fun region_loop :: "'w hiredis \<Rightarrow> (nat \<Rightarrow> uninitialised) \<Rightarrow> SlotRegion list \<Rightarrow> CRedisClient \<Rightarrow> 'w \<Rightarrow> SlotRegion list \<times> CRedisClient \<times> 'w" where
  "region_loop h junk [] cl w = ([], cl, w)"
| "region_loop h junk (r # rs) cl w =
     (case host_loop h junk (HostVec r) (RedisServVec r) cl w of (servs, cl, w) \<Rightarrow>
        case region_loop h junk rs cl w of (rs, cl, w) \<Rightarrow> (r\<lparr>RedisServVec := servs\<rparr> # rs, cl, w))"

text \<open>\<open>std::sort\<close> by \<open>nStartSlot\<close>; for regions with different starts there is only one sorted order.\<close>

definition LoadClusterSlots ::
  "'w hiredis \<Rightarrow> envt \<Rightarrow> (nat \<Rightarrow> uninitialised) \<Rightarrow> CRedisClient \<Rightarrow> 'w \<Rightarrow> (bool \<times> CRedisClient \<times> 'w) result" where
  "LoadClusterSlots h env junk cl w =
     (case m_vecRedisServ cl of
        [] \<Rightarrow> Inl Undefined_behaviour
      | i # _ \<Rightarrow>
          (case ServRequest h env (SetArgs_s (bytes ''slots'') (CRedisCommand_new (bytes ''cluster'') True)) (cl_servers cl i) w of
             (nRet, c, s, w) \<Rightarrow>
               let cl = cl\<lparr>cl_servers := (cl_servers cl)(i := s)\<rparr> in
               if nRet \<noteq> RC_SUCCESS then Inr (False, cl, w)
               else bind_result (FetchResult (\<lambda>r. FetchSlot r (Some [])) c) (\<lambda>(nRet, vecSlot).
                 if nRet \<noteq> RC_SUCCESS then Inr (False, cl, w)
                 else case region_loop h junk (the vecSlot) cl w of
                        (vecSlot, cl, w) \<Rightarrow> Inr (True, cl\<lparr>m_vecSlot := sort_key nStartSlot vecSlot\<rparr>, w))))"

end
