(* ===== verification/Redis_Cluster.thy ===== *)
theory Redis_Cluster
  imports Redis_Client
begin

text \<open>
  Routing in a redis cluster: the binary search in the table of slots finds the region of a slot, and
  after \<open>LoadClusterSlots\<close> a command goes to a master among the hosts that the cluster named for its
  slot.
\<close>

section \<open>The binary search\<close>

lemma prefix_length_unique:
  assumes "r \<le> length xs" "\<forall>i<r. P (xs ! i)" "\<forall>i. r \<le> i \<and> i < length xs \<longrightarrow> \<not> P (xs ! i)"
  shows "r = length (takeWhile P xs)"
proof -
  have "takeWhile P xs = take r xs"
    using assms by (intro takeWhile_eq_take_P_nth) auto
  then show ?thesis using assms(1) by simp
qed

lemma partition_search_spec:
  assumes "\<forall>i j. i < j \<and> j < length xs \<and> P (xs ! j) \<longrightarrow> P (xs ! i)" "first + len \<le> length xs"
    and "\<forall>i<first. P (xs ! i)" "\<forall>i. first + len \<le> i \<and> i < length xs \<longrightarrow> \<not> P (xs ! i)"
  shows "partition_search P xs first len = length (takeWhile P xs)"
  using assms
proof (induction P xs first len rule: partition_search.induct)
  case (1 P xs first len)
  note part = "1.prems"(1) and bound = "1.prems"(2) and lo = "1.prems"(3) and hi = "1.prems"(4)
  show ?case
  proof (cases "len = 0")
    case True
    then show ?thesis
      using prefix_length_unique [of first xs P] bound lo hi by (simp add: partition_search.simps)
  next
    case False
    let ?h = "len div 2"
    have h: "?h < len" using False by simp
    show ?thesis
    proof (cases "P (xs ! (first + ?h))")
      case True
      have "partition_search P xs (first + ?h + 1) (len - ?h - 1) = length (takeWhile P xs)"
      proof (rule "1.IH"(1) [OF False refl refl True part])
        show "\<forall>i<first + ?h + 1. P (xs ! i)"
        proof (intro allI impI)
          fix i assume "i < first + ?h + 1"
          then consider "i = first + ?h" | "i < first + ?h" by linarith
          then show "P (xs ! i)"
          proof cases
            case 2
            moreover have "first + ?h < length xs" using h bound by linarith
            ultimately show ?thesis using part True by blast
          qed (use True in simp)
        qed
        show "\<forall>i. first + ?h + 1 + (len - ?h - 1) \<le> i \<and> i < length xs \<longrightarrow> \<not> P (xs ! i)" using hi h by auto
      qed (use h bound in linarith)
      then show ?thesis using False True by (subst partition_search.simps) (simp add: Let_def)
    next
      case F: False
      have "partition_search P xs first ?h = length (takeWhile P xs)"
      proof (rule "1.IH"(2) [OF False refl refl F part])
        show "\<forall>i. first + ?h \<le> i \<and> i < length xs \<longrightarrow> \<not> P (xs ! i)"
        proof (intro allI impI)
          fix i assume i: "first + ?h \<le> i \<and> i < length xs"
          then consider "i = first + ?h" | "first + ?h < i" by linarith
          then show "\<not> P (xs ! i)" using part F i by cases blast+
        qed
      qed (use h bound lo in simp_all)
      then show ?thesis using False F by (subst partition_search.simps) (simp add: Let_def)
    qed
  qed
qed

text \<open>Regions in ascending order that do not overlap.\<close>

definition slots_sorted :: "SlotRegion list \<Rightarrow> bool" where
  "slots_sorted vec \<longleftrightarrow> sorted_wrt (\<lambda>a b. nEndSlot a < nStartSlot b) vec \<and> (\<forall>r\<in>set vec. nStartSlot r \<le> nEndSlot r)"

definition in_region :: "int \<Rightarrow> SlotRegion \<Rightarrow> bool" where
  "in_region n r \<longleftrightarrow> nStartSlot r \<le> n \<and> n \<le> nEndSlot r"

lemma equal_range_sorted:
  assumes "slots_sorted vec"
  shows "equal_range vec n =
    (length (takeWhile (\<lambda>r. nEndSlot r < n) vec), length (takeWhile (\<lambda>r. nStartSlot r \<le> n) vec))"
proof -
  have less: "nEndSlot (vec ! i) < nStartSlot (vec ! j)" "nStartSlot (vec ! j) \<le> nEndSlot (vec ! j)"
    "nStartSlot (vec ! i) \<le> nEndSlot (vec ! i)" if "i < j" "j < length vec" for i j
    using assms that by (auto simp: slots_sorted_def sorted_wrt_iff_nth_less)
  have "partition_search (\<lambda>r. nEndSlot r < n) vec 0 (length vec) = length (takeWhile (\<lambda>r. nEndSlot r < n) vec)"
    using less by (intro partition_search_spec) (auto, force)
  moreover have "partition_search (\<lambda>r. nStartSlot r \<le> n) vec 0 (length vec) = length (takeWhile (\<lambda>r. nStartSlot r \<le> n) vec)"
    using less by (intro partition_search_spec) (auto, force)
  ultimately show ?thesis by (simp add: equal_range_def slot_before_def slot_after_def not_less)
qed

lemma find_region:
  assumes "slots_sorted vec"
  shows "find (in_region n) vec =
    (let lo = length (takeWhile (\<lambda>r. nEndSlot r < n) vec); hi = length (takeWhile (\<lambda>r. nStartSlot r \<le> n) vec)
     in if lo \<noteq> length vec \<and> lo \<noteq> hi then Some (vec ! lo) else None)"
  using assms
proof (induction vec)
  case (Cons r vec)
  then have IH: "slots_sorted vec" and r: "nStartSlot r \<le> nEndSlot r" "\<forall>b\<in>set vec. nEndSlot r < nStartSlot b"
    by (auto simp: slots_sorted_def)
  show ?case
  proof (cases "nEndSlot r < n")
    case True
    then show ?thesis using Cons.IH [OF IH] r by (auto simp: in_region_def Let_def)
  next
    case False
    then have "takeWhile (\<lambda>b. nStartSlot b \<le> n) vec = []" using r(2) by (cases vec) auto
    moreover have "find (in_region n) vec = None"
      unfolding find_None_iff using r(2) False by (auto simp: in_region_def)
    ultimately show ?thesis using False by (auto simp: in_region_def [of n r] Let_def)
  qed
qed simp

lemma FindServer_slot_sorted:
  assumes "slots_sorted (m_vecSlot cl)"
  shows "FindServer_slot n cl =
    (case find (in_region n) (m_vecSlot cl) of
       None \<Rightarrow> None
     | Some r \<Rightarrow> find (\<lambda>i. m_bMaster (cl_servers cl i)) (RedisServVec r))"
  unfolding FindServer_slot_def equal_range_sorted [OF assms] find_region [OF assms] Let_def by simp

section \<open>Loading the slots\<close>

definition client_ok :: "CRedisClient \<Rightarrow> bool" where
  "client_ok cl \<longleftrightarrow> (\<forall>i\<in>set (m_vecRedisServ cl). i < cl_next cl)"

text \<open>The servers of \<open>cl\<close> are still there in \<open>cl'\<close>, at the same places of the vector.\<close>

definition extends :: "CRedisClient \<Rightarrow> CRedisClient \<Rightarrow> bool" where
  "extends cl cl' \<longleftrightarrow> (\<exists>new. m_vecRedisServ cl' = m_vecRedisServ cl @ new) \<and>
     (\<forall>i\<in>set (m_vecRedisServ cl). cl_servers cl' i = cl_servers cl i) \<and> m_vecSlot cl' = m_vecSlot cl"

lemma extends_refl: "extends cl cl"
  by (simp add: extends_def)

lemma extends_trans: "extends a b \<Longrightarrow> extends b c \<Longrightarrow> extends a c"
  by (auto simp: extends_def)

lemma find_append: "find P (xs @ ys) = (case find P xs of None \<Rightarrow> find P ys | r \<Rightarrow> r)"
  by (induction xs) auto

lemma extends_host: "extends cl cl' \<Longrightarrow> FindServer_host ip port cl = Some i \<Longrightarrow> FindServer_host ip port cl' = Some i"
proof -
  assume e: "extends cl cl'" and f: "FindServer_host ip port cl = Some i"
  obtain new where v: "m_vecRedisServ cl' = m_vecRedisServ cl @ new" using e by (auto simp: extends_def)
  have "find (\<lambda>i. ip = m_strHost (cl_servers cl' i) \<and> port = m_nPort (cl_servers cl' i)) (m_vecRedisServ cl) = FindServer_host ip port cl"
    unfolding FindServer_host_def by (rule find_cong) (use e in \<open>simp_all add: extends_def\<close>)
  then show ?thesis using f by (simp add: FindServer_host_def [of _ _ cl'] v find_append)
qed

lemma init_loop_host:
  "init_loop h n p s w = (s', w') \<Longrightarrow> m_strHost s' = m_strHost s \<and> m_nPort s' = m_nPort s"
proof (induction n arbitrary: p s w)
  case (Suc n)
  obtain ok w1 where r: "Reconnect h (at_server s p) w = (ok, w1)" by fastforce
  show ?case using Suc.IH Suc.prems by (cases ok) (fastforce simp: r Let_def)+
qed simp

lemma add_server_ok:
  assumes "add_server h junk ip port cl w = (i, cl', w')" "client_ok cl" "FindServer_host ip port cl = None"
  shows "client_ok cl' \<and> extends cl cl' \<and> FindServer_host ip port cl' = Some i"
proof -
  let ?s0 = "CRedisServer_new (junk (cl_next cl)) ip port (cl_nConnNum cl)"
  obtain s w1 where s: "server_Initialize h (cl_next_conn cl) ?s0 w = (s, w1)" by fastforce
  from s have host: "m_strHost s = ip" "m_nPort s = port"
    unfolding server_Initialize_def by (drule_tac init_loop_host, simp add: CleanConn_def CRedisServer_new_def)+
  have i: "i = cl_next cl" and cl': "cl' = cl\<lparr>cl_servers := (cl_servers cl)(cl_next cl := s),
      m_vecRedisServ := m_vecRedisServ cl @ [cl_next cl], cl_next := cl_next cl + 1,
      cl_next_conn := cl_next_conn cl + nat (cl_nConnNum cl)\<rparr>"
    using assms(1) by (auto simp: add_server_def s)
  have e: "extends cl cl'" using assms(2) by (auto simp: extends_def cl' client_ok_def)
  have "find (\<lambda>i. ip = m_strHost (cl_servers cl' i) \<and> port = m_nPort (cl_servers cl' i)) (m_vecRedisServ cl) = FindServer_host ip port cl"
    unfolding FindServer_host_def by (rule find_cong) (use e in \<open>simp_all add: extends_def\<close>)
  moreover have "m_vecRedisServ cl' = m_vecRedisServ cl @ [i]" "cl_servers cl' i = s" by (simp_all add: cl' i)
  ultimately have "FindServer_host ip port cl' = Some i"
    unfolding FindServer_host_def [of _ _ cl'] using assms(3) host by (simp add: find_append)
  then show ?thesis using e assms(2) by (auto simp: client_ok_def cl')
qed

text \<open>The servers found for the hosts of a region.\<close>

definition host_servers :: "CRedisClient \<Rightarrow> (cstr \<times> int) list \<Rightarrow> nat list" where
  "host_servers cl hs = map (\<lambda>(ip, port). the (FindServer_host ip port cl)) hs"

definition hosts_known :: "CRedisClient \<Rightarrow> (cstr \<times> int) list \<Rightarrow> bool" where
  "hosts_known cl hs \<longleftrightarrow> (\<forall>(ip, port)\<in>set hs. FindServer_host ip port cl \<noteq> None)"

lemma hosts_extends:
  assumes "extends cl cl'" "hosts_known cl hs"
  shows "hosts_known cl' hs" "host_servers cl' hs = host_servers cl hs"
proof -
  have "FindServer_host ip port cl' = FindServer_host ip port cl" if "(ip, port) \<in> set hs" for ip port
    using that assms extends_host [OF assms(1), of ip port] by (auto simp: hosts_known_def)
  then show "hosts_known cl' hs" "host_servers cl' hs = host_servers cl hs"
    using assms(2) by (auto simp: hosts_known_def host_servers_def)
qed

lemma host_loop_ok:
  assumes "host_loop h junk hs servs cl w = (servs', cl', w')" "client_ok cl"
  shows "client_ok cl' \<and> extends cl cl' \<and> hosts_known cl' hs \<and> servs' = servs @ host_servers cl' hs"
  using assms
proof (induction hs arbitrary: servs cl w)
  case Nil
  then show ?case by (simp add: extends_refl hosts_known_def host_servers_def)
next
  case (Cons hp hs)
  obtain ip port where hp: "hp = (ip, port)" by fastforce
  have "\<exists>i cl1 w1. client_ok cl1 \<and> extends cl cl1 \<and> FindServer_host ip port cl1 = Some i \<and>
      host_loop h junk hs (servs @ [i]) cl1 w1 = (servs', cl', w')"
  proof (cases "FindServer_host ip port cl")
    case None
    obtain i cl1 w1 where a: "add_server h junk ip port cl w = (i, cl1, w1)" by (metis prod_cases3)
    show ?thesis using add_server_ok [OF a Cons.prems(2) None] Cons.prems(1) a by (auto simp: hp None)
  next
    case (Some i)
    then show ?thesis using Cons.prems extends_refl by (auto simp: hp)
  qed
  then obtain i cl1 w1 where 1: "client_ok cl1" "extends cl cl1" "FindServer_host ip port cl1 = Some i"
    and 2: "host_loop h junk hs (servs @ [i]) cl1 w1 = (servs', cl', w')" by blast
  from Cons.IH [OF 2 1(1)] have IH: "client_ok cl'" "extends cl1 cl'" "hosts_known cl' hs" "servs' = (servs @ [i]) @ host_servers cl' hs"
    by simp_all
  moreover have "FindServer_host ip port cl' = Some i" by (rule extends_host [OF IH(2) 1(3)])
  ultimately show ?case using extends_trans [OF 1(2)] by (auto simp: hp hosts_known_def host_servers_def)
qed

lemma region_loop_ok:
  assumes "region_loop h junk rs cl w = (rs', cl', w')" "client_ok cl" "\<forall>r\<in>set rs. RedisServVec r = []"
  shows "client_ok cl' \<and> extends cl cl' \<and> (\<forall>r\<in>set rs. hosts_known cl' (HostVec r)) \<and>
    rs' = map (\<lambda>r. r\<lparr>RedisServVec := host_servers cl' (HostVec r)\<rparr>) rs"
  using assms
proof (induction rs arbitrary: cl w rs' cl' w')
  case Nil
  then show ?case by (simp add: extends_refl)
next
  case (Cons r rs)
  obtain servs cl1 w1 where 1: "host_loop h junk (HostVec r) (RedisServVec r) cl w = (servs, cl1, w1)" by (metis prod_cases3)
  obtain rs1 cl2 w2 where 2: "region_loop h junk rs cl1 w1 = (rs1, cl2, w2)" by (metis prod_cases3)
  have r: "rs' = r\<lparr>RedisServVec := servs\<rparr> # rs1" "cl' = cl2" using Cons.prems(1) by (simp_all add: 1 2)
  note h = host_loop_ok [OF 1 Cons.prems(2)]
  then have "client_ok cl1" by simp
  from Cons.IH [OF 2 this] Cons.prems(3) have IH: "client_ok cl2" "extends cl1 cl2" "\<forall>r\<in>set rs. hosts_known cl2 (HostVec r)"
    "rs1 = map (\<lambda>r. r\<lparr>RedisServVec := host_servers cl2 (HostVec r)\<rparr>) rs" by simp_all
  have "servs = host_servers cl1 (HostVec r)" "hosts_known cl1 (HostVec r)" "extends cl cl1" using h Cons.prems(3) by simp_all
  with hosts_extends [OF IH(2), of "HostVec r"] IH r extends_trans show ?case by auto
qed

section \<open>Routing\<close>

lemma FindServer_host_slots [simp]: "FindServer_host ip port (cl\<lparr>m_vecSlot := v\<rparr>) = FindServer_host ip port cl"
  by (simp add: FindServer_host_def)

definition disjoint_regions :: "SlotRegion list \<Rightarrow> bool" where
  "disjoint_regions regs \<longleftrightarrow> distinct regs \<and> (\<forall>r\<in>set regs. nStartSlot r \<le> nEndSlot r) \<and>
     (\<forall>a\<in>set regs. \<forall>b\<in>set regs. a \<noteq> b \<longrightarrow> nEndSlot a < nStartSlot b \<or> nEndSlot b < nStartSlot a)"

lemma sort_regions:
  assumes "disjoint_regions vec"
  shows "slots_sorted (sort_key nStartSlot vec)"
proof -
  let ?v = "sort_key nStartSlot vec"
  have "nEndSlot (?v ! i) < nStartSlot (?v ! j)" if "i < j" "j < length ?v" for i j
  proof -
    have "nStartSlot (?v ! i) \<le> nStartSlot (?v ! j)"
      using that sorted_sort_key [of nStartSlot vec] by (auto simp: sorted_iff_nth_mono)
    moreover have "?v ! i \<noteq> ?v ! j" using that assms by (simp add: disjoint_regions_def nth_eq_iff_index_eq)
    moreover have "?v ! i \<in> set vec" "?v ! j \<in> set vec" using that nth_mem [of _ ?v] by auto
    ultimately have "nEndSlot (?v ! i) < nStartSlot (?v ! j) \<or> nEndSlot (?v ! j) < nStartSlot (?v ! i)"
        "nStartSlot (?v ! j) \<le> nEndSlot (?v ! j)" "nStartSlot (?v ! i) \<le> nStartSlot (?v ! j)"
      using assms unfolding disjoint_regions_def by blast+
    then show ?thesis by linarith
  qed
  then have "sorted_wrt (\<lambda>a b. nEndSlot a < nStartSlot b) ?v" by (simp add: sorted_wrt_iff_nth_less)
  then show ?thesis using assms by (simp add: slots_sorted_def disjoint_regions_def)
qed

lemma find_unique: "x \<in> set xs \<Longrightarrow> P x \<Longrightarrow> (\<And>y. y \<in> set xs \<Longrightarrow> P y \<Longrightarrow> y = x) \<Longrightarrow> find P xs = Some x"
proof (cases "find P xs")
  case None
  then show "x \<in> set xs \<Longrightarrow> P x \<Longrightarrow> find P xs = Some x" by (auto simp: find_None_iff)
next
  case (Some y)
  then have "y \<in> set xs" "P y" by (auto simp: find_Some_iff)
  then show "(\<And>y. y \<in> set xs \<Longrightarrow> P y \<Longrightarrow> y = x) \<Longrightarrow> find P xs = Some x" using Some by blast
qed

lemma find_sorted_regions:
  assumes "disjoint_regions regs" "\<And>r. nStartSlot (f r) = nStartSlot r" "\<And>r. nEndSlot (f r) = nEndSlot r"
  shows "find (in_region n) (sort_key nStartSlot (map f regs)) = map_option f (find (in_region n) regs)"
proof (cases "\<exists>r\<in>set regs. in_region n r")
  case True
  then obtain r where r: "r \<in> set regs" "in_region n r" by blast
  have u: "y = r" if "y \<in> set regs" "in_region n y" for y
  proof (rule ccontr)
    assume "y \<noteq> r"
    then have "nEndSlot y < nStartSlot r \<or> nEndSlot r < nStartSlot y" using that r assms(1) by (simp add: disjoint_regions_def)
    then show False using that(2) r(2) by (auto simp: in_region_def)
  qed
  have "find (in_region n) regs = Some r" using r u by (rule find_unique)
  moreover have "find (in_region n) (sort_key nStartSlot (map f regs)) = Some (f r)"
  proof (rule find_unique)
    fix y assume "y \<in> set (sort_key nStartSlot (map f regs))" "in_region n y"
    then show "y = f r" using u assms(2,3) by (auto simp: in_region_def)
  qed (use r assms(2,3) in \<open>auto simp: in_region_def\<close>)
  ultimately show ?thesis by simp
next
  case False
  then have "find (in_region n) regs = None" "find (in_region n) (sort_key nStartSlot (map f regs)) = None"
    using assms(2,3) by (auto simp: find_None_iff in_region_def)
  then show ?thesis by simp
qed

lemma disjoint_map:
  assumes "disjoint_regions regs" "\<And>r. nStartSlot (f r) = nStartSlot r" "\<And>r. nEndSlot (f r) = nEndSlot r"
  shows "disjoint_regions (map f regs)"
proof -
  have "a = b" if "a \<in> set regs" "b \<in> set regs" "f a = f b" for a b
  proof (rule ccontr)
    assume "a \<noteq> b"
    then have "nEndSlot a < nStartSlot b \<or> nEndSlot b < nStartSlot a" "nStartSlot a \<le> nEndSlot a" "nStartSlot b \<le> nEndSlot b"
      using assms(1) that(1,2) by (auto simp: disjoint_regions_def)
    then show False using arg_cong [OF that(3), of nStartSlot] arg_cong [OF that(3), of nEndSlot] by (simp add: assms(2,3))
  qed
  then have "distinct (map f regs)" using assms(1) by (simp add: disjoint_regions_def distinct_map inj_on_def)
  then show ?thesis using assms unfolding disjoint_regions_def by auto
qed

text \<open>
  C19. After \<open>LoadClusterSlots\<close> has got an answer of the cluster, whose regions do not overlap but may
  come in any order, there is a server object for every host of the answer, and the server that is
  found for a slot is the first master among the hosts of the region that contains the slot; for a slot in no
  region, or in one without a master, none is found.\<close>

theorem redis_cluster_routing:
  assumes "client_ok cl" "m_vecRedisServ cl = i # is"
    and "ServRequest h env (SetArgs_s (bytes ''slots'') (CRedisCommand_new (bytes ''cluster'') True)) (cl_servers cl i) w =
      (RC_SUCCESS, c, s, w1)"
    and "m_pReply c = Some (array_reply (map (region_reply node_id) regs))"
    and "\<forall>r\<in>set regs. region_ok r" "disjoint_regions regs"
  shows "\<exists>cl' w'. LoadClusterSlots h env junk cl w = Inr (True, cl', w') \<and>
    (\<forall>r\<in>set regs. hosts_known cl' (HostVec r)) \<and>
    (\<forall>n. FindServer_slot n cl' =
       (case find (in_region n) regs of
          None \<Rightarrow> None
        | Some r \<Rightarrow> find (\<lambda>j. m_bMaster (cl_servers cl' j)) (host_servers cl' (HostVec r))))"
proof -
  let ?cl = "cl\<lparr>cl_servers := (cl_servers cl)(i := s)\<rparr>"
  have conv: "m_funcConv c = FUNC_DEF_CONV"
    using ServRequest_conv [OF assms(3)] by (simp add: SetArgs_s_def AppendValue_def cmd_Init_def ClearArgs_def CRedisCommand_new_def Let_def)
  have fetch: "FetchResult (\<lambda>r. FetchSlot r (Some [])) c = Inr (RC_SUCCESS, Some regs)"
    using fetch_regions_ok [OF assms(5), of node_id "[]"]
    by (simp add: FetchResult_def assms(4) FetchSlot_def array_reply_def conv FUNC_DEF_CONV_def)
  obtain rs cl1 w2 where loop: "region_loop h junk regs ?cl w1 = (rs, cl1, w2)" by (metis prod_cases3)
  have "client_ok ?cl" using assms(1) by (simp add: client_ok_def)
  from region_loop_ok [OF loop this] assms(5) have known: "\<forall>r\<in>set regs. hosts_known cl1 (HostVec r)"
    and rs: "rs = map (\<lambda>r. r\<lparr>RedisServVec := host_servers cl1 (HostVec r)\<rparr>) regs" by (simp_all add: region_ok_def)
  let ?cl' = "cl1\<lparr>m_vecSlot := sort_key nStartSlot rs\<rparr>"
  have load: "LoadClusterSlots h env junk cl w = Inr (True, ?cl', w2)"
    unfolding LoadClusterSlots_def assms(2) list.case assms(3) prod.case Let_def by (simp add: fetch loop)
  have "slots_sorted (m_vecSlot ?cl')"
    unfolding rs by (simp, rule sort_regions, rule disjoint_map [OF assms(6)]) simp_all
  from FindServer_slot_sorted [OF this] have find: "FindServer_slot n ?cl' =
       (case find (in_region n) regs of
          None \<Rightarrow> None
        | Some r \<Rightarrow> find (\<lambda>j. m_bMaster (cl_servers ?cl' j)) (host_servers ?cl' (HostVec r)))" for n
    by (simp add: rs find_sorted_regions [OF assms(6)] host_servers_def split: option.splits)
  show ?thesis
    using load known find by (intro exI [of _ ?cl'] exI [of _ w2]) (simp add: hosts_known_def)
qed

text \<open>A cluster of one host that answers every command with its one region.\<close>

definition sample_region :: SlotRegion where
  "sample_region = \<lparr>nStartSlot = 0, nEndSlot = 16383, HostVec = [([49], 7000)], RedisServVec = []\<rparr>"

definition slots_hiredis :: "unit hiredis" where
  "slots_hiredis = \<lparr>redisCommandArgv = (\<lambda>_ _ w. (Some (array_reply (map (region_reply (\<lambda>h. h)) [sample_region])), w)),
     redisAppendCommandArgv = (\<lambda>_ _ w. (True, w)), redisGetReply = (\<lambda>_ w. (None, w)), redisConnectWithTimeout = (\<lambda>_ w. (True, w))\<rparr>"

definition sample_client :: CRedisClient where
  "sample_client = \<lparr>m_nTimeout = 1, cl_nConnNum = 1, cl_bCluster = True, m_vecSlot = [], m_vecRedisServ = [0],
     cl_servers = (\<lambda>_. \<lparr>m_strHost = [49], m_nPort = 7000, m_nConnNum = 1, m_bExit = False, m_bMaster = True, m_bCluster = True,
        m_queIdleConn = [0], m_listBadConn = [], m_pContext = (\<lambda>_. True)\<rparr>), cl_next = 1, cl_next_conn = 1\<rparr>"

theorem redis_cluster_routing_witness:
  "\<exists>cl'. LoadClusterSlots slots_hiredis (\<lambda>_ s. s) (\<lambda>_. (True, False, True)) sample_client () = Inr (True, cl', ()) \<and>
     FindServer_slot 5000 cl' = find (\<lambda>j. m_bMaster (cl_servers cl' j)) (host_servers cl' [([49], 7000)])"
proof -
  have req: "ServRequest slots_hiredis (\<lambda>_ s. s) (SetArgs_s (bytes ''slots'') (CRedisCommand_new (bytes ''cluster'') True))
      (cl_servers sample_client 0) () =
    (RC_SUCCESS, (SetArgs_s (bytes ''slots'') (CRedisCommand_new (bytes ''cluster'') True))
        \<lparr>m_pReply := Some (array_reply (map (region_reply (\<lambda>h. h)) [sample_region]))\<rparr>, cl_servers sample_client 0, ())"
    by (simp add: ServRequest_def RQST_RETRY_TIMES_def numeral_3_eq_3 FetchConnection_def sample_client_def ConnRequest_def
        ConnRequest_send_def CmdRequest_def slots_hiredis_def SetArgs_s_def AppendValue_def RC_defs ReturnConnection_def IsValid_def fun_upd_def)
  have "client_ok sample_client" "m_vecRedisServ sample_client = [0]" by (simp_all add: client_ok_def sample_client_def)
  from redis_cluster_routing [OF this req, of "\<lambda>h. h" "[sample_region]" "\<lambda>_. (True, False, True)"]
  show ?thesis by (auto simp: region_ok_def disjoint_regions_def fits_int_def sample_region_def in_region_def)
qed

end
