(* ===== verification/Redis_Lock.thy ===== *)
theory Redis_Lock
  imports Redis_Client
begin

text \<open>
  \<open>CRedisLock\<close> (\<open>source/redis_client/redislock.cpp\<close>, \<open>redislock.hpp\<close>): a lock that processes on different
  machines share through one key of a redis server. The value of the key is the time at which the
  lock was taken; a lock that is older than \<open>m_maxexpire\<close> may be taken over. The clients run
  concurrently: a step is one redis command, one look at the clock, or the time that passes.
  Milliseconds are integers below $2^{63}$; logging is left out.
\<close>

section \<open>The lock\<close>

text \<open>What the lock calls of \<open>CRedisClient\<close>; \<open>'e\<close> is what the other threads of the process do meanwhile.\<close>

record ('e, 'c, 'w) key_ops =
  ko_setnx :: "'e \<Rightarrow> cstr \<Rightarrow> cstr \<Rightarrow> 'c \<Rightarrow> 'w \<Rightarrow> (int \<times> int option \<times> 'c \<times> 'w) result"
  ko_get :: "'e \<Rightarrow> cstr \<Rightarrow> cstr option \<Rightarrow> 'c \<Rightarrow> 'w \<Rightarrow> (int \<times> cstr option \<times> 'c \<times> 'w) result"
  ko_getset :: "'e \<Rightarrow> cstr \<Rightarrow> cstr option \<Rightarrow> 'c \<Rightarrow> 'w \<Rightarrow> (int \<times> cstr option \<times> 'c \<times> 'w) result"
  ko_del :: "'e \<Rightarrow> cstr \<Rightarrow> int option \<Rightarrow> 'c \<Rightarrow> 'w \<Rightarrow> (int \<times> int option \<times> 'c \<times> 'w) result"

text \<open>Where a client is in \<open>Lock\<close> or \<open>UnLock\<close>, with the local variables \<open>current\<close> and \<open>redisValue\<close>.\<close>

datatype lock_pc = L_idle | L_started int | L_exists int | L_value int cstr | L_expired int cstr | L_sleep | L_del

record 'c lock_client =
  lk_redis :: 'c
  m_bLocked :: bool
  m_myValue :: int
  lk_timeout :: int
  lk_pc :: lock_pc

definition CRedisLock_new :: "'c \<Rightarrow> 'c lock_client" where
  "CRedisLock_new c = \<lparr>lk_redis = c, m_bLocked = False, m_myValue = - 1, lk_timeout = 0, lk_pc = L_idle\<rparr>"

definition GenerateValue :: "int \<Rightarrow> cstr" where
  "GenerateValue ms = dec_digits (nat (ms mod 2 ^ 64))"

definition IsExpired :: "int \<Rightarrow> int \<Rightarrow> cstr \<Rightarrow> bool" where
  "IsExpired maxexpire currentms strvalue \<longleftrightarrow> maxexpire \<le> currentms - atol strvalue"

text \<open>\<open>Lock\<close>: the head of the loop, where the clock is read.\<close>

definition Lock_head :: "int \<Rightarrow> int \<Rightarrow> 'c lock_client \<Rightarrow> 'c lock_client" where
  "Lock_head timeout now c = c\<lparr>lk_timeout := timeout, lk_pc := (if 0 \<le> timeout then L_started now else L_idle)\<rparr>"

definition Lock_taken :: "int \<Rightarrow> 'c lock_client \<Rightarrow> 'c lock_client" where
  "Lock_taken current c = c\<lparr>m_myValue := current, m_bLocked := True, lk_pc := L_idle\<rparr>"

definition Lock_setnx ::
  "('e, 'c, 'w) key_ops \<Rightarrow> 'e \<Rightarrow> cstr \<Rightarrow> int \<Rightarrow> 'c lock_client \<Rightarrow> 'w \<Rightarrow> ('c lock_client \<times> 'w) result" where
  "Lock_setnx ops e name current c w =
     bind_result (ko_setnx ops e name (GenerateValue current) (lk_redis c) w) (\<lambda>(iRet, _, r, w).
       let c = c\<lparr>lk_redis := r\<rparr> in
       Inr (if iRet = RC_SUCCESS then Lock_taken current c
            else if iRet = RC_OBJ_EXIST then c\<lparr>lk_pc := L_exists current\<rparr>
            else c\<lparr>lk_pc := L_sleep\<rparr>, w))"

definition Lock_get ::
  "('e, 'c, 'w) key_ops \<Rightarrow> 'e \<Rightarrow> cstr \<Rightarrow> int \<Rightarrow> 'c lock_client \<Rightarrow> 'w \<Rightarrow> ('c lock_client \<times> 'w) result" where
  "Lock_get ops e name current c w =
     bind_result (ko_get ops e name (Some []) (lk_redis c) w) (\<lambda>(iRet1, redisValue, r, w).
       let c = c\<lparr>lk_redis := r\<rparr> in
       Inr (if iRet1 = RC_SUCCESS \<and> the redisValue \<noteq> [] then c\<lparr>lk_pc := L_value current (the redisValue)\<rparr>
            else c\<lparr>lk_pc := L_sleep\<rparr>, w))"

definition Lock_expired :: "int \<Rightarrow> int \<Rightarrow> int \<Rightarrow> cstr \<Rightarrow> 'c lock_client \<Rightarrow> 'c lock_client" where
  "Lock_expired maxexpire now current redisValue c =
     (if IsExpired maxexpire now redisValue then c\<lparr>lk_pc := L_expired current redisValue\<rparr> else c\<lparr>lk_pc := L_sleep\<rparr>)"

text \<open>The code returned by \<open>Getset\<close> is not looked at: only the string it may have changed is.\<close>

definition Lock_getset ::
  "('e, 'c, 'w) key_ops \<Rightarrow> 'e \<Rightarrow> cstr \<Rightarrow> int \<Rightarrow> cstr \<Rightarrow> 'c lock_client \<Rightarrow> 'w \<Rightarrow> ('c lock_client \<times> 'w) result" where
  "Lock_getset ops e name current redisValue c w =
     bind_result (ko_getset ops e name (Some (GenerateValue current)) (lk_redis c) w) (\<lambda>(_, tmpmyValue, r, w).
       let c = c\<lparr>lk_redis := r\<rparr> in
       Inr (if the tmpmyValue = redisValue then Lock_taken current c else c\<lparr>lk_pc := L_sleep\<rparr>, w))"

definition Lock_sleep :: "int \<Rightarrow> int \<Rightarrow> 'c lock_client \<Rightarrow> 'c lock_client" where
  "Lock_sleep sleeptime now c = Lock_head (lk_timeout c - sleeptime) now c"

definition UnLock_check :: "int \<Rightarrow> int \<Rightarrow> 'c lock_client \<Rightarrow> 'c lock_client" where
  "UnLock_check maxexpire now c =
     (if m_bLocked c
      then if m_myValue c \<noteq> - 1 \<and> now - m_myValue c < maxexpire then c\<lparr>lk_pc := L_del\<rparr>
           else c\<lparr>m_bLocked := False, m_myValue := - 1\<rparr>
      else c)"

definition UnLock_del ::
  "('e, 'c, 'w) key_ops \<Rightarrow> 'e \<Rightarrow> cstr \<Rightarrow> 'c lock_client \<Rightarrow> 'w \<Rightarrow> ('c lock_client \<times> 'w) result" where
  "UnLock_del ops e name c w =
     bind_result (ko_del ops e name None (lk_redis c) w) (\<lambda>(_, _, r, w).
       Inr (c\<lparr>lk_redis := r, m_bLocked := False, m_myValue := - 1, lk_pc := L_idle\<rparr>, w))"

section \<open>Clients that share a lock\<close>

record ('c, 'w) lock_system =
  ls_now :: int
  ls_world :: 'w
  ls_clients :: "nat \<Rightarrow> 'c lock_client"

definition put_client :: "nat \<Rightarrow> 'c lock_client \<Rightarrow> ('c, 'w) lock_system \<Rightarrow> ('c, 'w) lock_system" where
  "put_client t c s = s\<lparr>ls_clients := (ls_clients s)(t := c)\<rparr>"

inductive ls_step :: "('e, 'c, 'w) key_ops \<Rightarrow> cstr \<Rightarrow> int \<Rightarrow> ('c, 'w) lock_system \<Rightarrow> ('c, 'w) lock_system \<Rightarrow> bool"
  for ops name E where
  tick: "ls_now s \<le> now \<Longrightarrow> now < 2 ^ 63 \<Longrightarrow> ls_step ops name E s (s\<lparr>ls_now := now\<rparr>)"
| start: "lk_pc (ls_clients s t) = L_idle \<Longrightarrow>
    ls_step ops name E s (put_client t (Lock_head timeout (ls_now s) (ls_clients s t)) s)"
| setnx: "lk_pc (ls_clients s t) = L_started current \<Longrightarrow>
    Lock_setnx ops e name current (ls_clients s t) (ls_world s) = Inr (c, w) \<Longrightarrow>
    ls_step ops name E s (put_client t c (s\<lparr>ls_world := w\<rparr>))"
| get: "lk_pc (ls_clients s t) = L_exists current \<Longrightarrow>
    Lock_get ops e name current (ls_clients s t) (ls_world s) = Inr (c, w) \<Longrightarrow>
    ls_step ops name E s (put_client t c (s\<lparr>ls_world := w\<rparr>))"
| expired: "lk_pc (ls_clients s t) = L_value current redisValue \<Longrightarrow>
    ls_step ops name E s (put_client t (Lock_expired E (ls_now s) current redisValue (ls_clients s t)) s)"
| getset: "lk_pc (ls_clients s t) = L_expired current redisValue \<Longrightarrow>
    Lock_getset ops e name current redisValue (ls_clients s t) (ls_world s) = Inr (c, w) \<Longrightarrow>
    ls_step ops name E s (put_client t c (s\<lparr>ls_world := w\<rparr>))"
| sleep: "lk_pc (ls_clients s t) = L_sleep \<Longrightarrow> 0 \<le> sleeptime \<Longrightarrow> sleeptime < 100 \<Longrightarrow>
    ls_step ops name E s (put_client t (Lock_sleep sleeptime (ls_now s) (ls_clients s t)) s)"
| unlock: "lk_pc (ls_clients s t) = L_idle \<Longrightarrow>
    ls_step ops name E s (put_client t (UnLock_check E (ls_now s) (ls_clients s t)) s)"
| del: "lk_pc (ls_clients s t) = L_del \<Longrightarrow>
    UnLock_del ops e name (ls_clients s t) (ls_world s) = Inr (c, w) \<Longrightarrow>
    ls_step ops name E s (put_client t c (s\<lparr>ls_world := w\<rparr>))"

text \<open>
  Reachable states, where every state on the way satisfies \<open>T\<close>; at the beginning the key is not there
  (\<open>W\<close>) and nobody has the lock.
\<close>

inductive ls_reach ::
  "('e, 'c, 'w) key_ops \<Rightarrow> cstr \<Rightarrow> int \<Rightarrow> (('c, 'w) lock_system \<Rightarrow> bool) \<Rightarrow> ('w \<Rightarrow> bool) \<Rightarrow> ('c, 'w) lock_system \<Rightarrow> bool"
  for ops name E T W where
  init: "0 \<le> now \<Longrightarrow> now < 2 ^ 63 \<Longrightarrow> W w \<Longrightarrow>
    ls_reach ops name E T W \<lparr>ls_now = now, ls_world = w, ls_clients = (\<lambda>t. CRedisLock_new (c t))\<rparr>"
| step: "ls_reach ops name E T W s \<Longrightarrow> ls_step ops name E s s' \<Longrightarrow> T s' \<Longrightarrow> ls_reach ops name E T W s'"


definition holds :: "int \<Rightarrow> ('c, 'w) lock_system \<Rightarrow> nat \<Rightarrow> bool" where
  "holds lease s t \<longleftrightarrow> m_bLocked (ls_clients s t) \<and> ls_now s - m_myValue (ls_clients s t) < lease"

section \<open>What the lock needs of the store\<close>


lemma atol_GenerateValue: "0 \<le> n \<Longrightarrow> n < 2 ^ 63 \<Longrightarrow> atol (GenerateValue n) = n"
  using strtol10_digits [OF dec_digits_not_Nil dec_digits_digits, of "nat n"]
  by (simp add: atol_def GenerateValue_def clamp_long_def)

lemma GenerateValue_not_Nil [simp]: "GenerateValue n \<noteq> []"
  by (simp add: GenerateValue_def)












lemma put_same_world: "put_client t c s = put_client t c (s\<lparr>ls_world := ls_world s\<rparr>)"
  by simp





section \<open>The redis client as the store\<close>

text \<open>
  What the documentation of redis says of the four commands, on the strings of the key space, and of
  hiredis: a command that returns a reply was executed with that reply, or refused with an error
  reply; one that returns no reply was executed or not. A new connection changes nothing.
\<close>

definition redis_cmd :: "cstr list \<Rightarrow> (cstr \<rightharpoonup> cstr) \<Rightarrow> (redisReply \<times> (cstr \<rightharpoonup> cstr)) option" where
  "redis_cmd args m =
     (case args of
        [cmd, k] \<Rightarrow>
          if cmd = bytes ''get'' then Some (case m k of None \<Rightarrow> nil_reply | Some v \<Rightarrow> string_reply v, m)
          else if cmd = bytes ''del'' then Some (integer_reply (if m k = None then 0 else 1), m(k := None))
          else None
      | [cmd, k, v] \<Rightarrow>
          if cmd = bytes ''setnx''
          then Some (if m k = None then (integer_reply 1, m(k \<mapsto> v)) else (integer_reply 0, m))
          else if cmd = bytes ''getset''
          then Some (case m k of None \<Rightarrow> nil_reply | Some old \<Rightarrow> string_reply old, m(k \<mapsto> v))
          else None
      | _ \<Rightarrow> None)"


definition redis_ops :: "'w hiredis \<Rightarrow> (envt \<times> nat, CRedisClient, 'w) key_ops" where
  "redis_ops h = \<lparr>ko_setnx = (\<lambda>(env, rnd). Setnx h env rnd), ko_get = (\<lambda>(env, rnd). Get h env rnd),
     ko_getset = (\<lambda>(env, rnd). Getset h env rnd), ko_del = (\<lambda>(env, rnd). Del h env rnd)\<rparr>"










lemmas redis_args = SetArgs_s_def SetArgs_ss_def AppendValue_def cmd_Init_def ClearArgs_def CRedisCommand_new_def Let_def


lemma fetch_reply:
  "BIND_STR (Some v) nil_reply = Inr (RC_SUCCESS, Some [])" "BIND_STR (Some v) (string_reply x) = Inr (RC_SUCCESS, Some x)"
  by (simp_all add: BIND_STR_def FetchString_def nil_reply_def string_reply_def)





section \<open>Mutual exclusion\<close>


text \<open>A server whose key space is the world, and a client with one connection to it.\<close>

definition map_hiredis :: "(cstr \<rightharpoonup> cstr) hiredis" where
  "map_hiredis = \<lparr>redisCommandArgv = (\<lambda>_ args m. case redis_cmd args m of None \<Rightarrow> (None, m) | Some (x, m) \<Rightarrow> (Some x, m)),
     redisAppendCommandArgv = (\<lambda>_ _ m. (False, m)), redisGetReply = (\<lambda>_ m. (None, m)), redisConnectWithTimeout = (\<lambda>_ m. (True, m))\<rparr>"


definition one_client :: CRedisClient where
  "one_client = \<lparr>m_nTimeout = 1, cl_nConnNum = 1, cl_bCluster = False, m_vecSlot = [], m_vecRedisServ = [0],
     cl_servers = (\<lambda>_. \<lparr>m_strHost = [], m_nPort = 6379, m_nConnNum = 1, m_bExit = False, m_bMaster = True, m_bCluster = False,
        m_queIdleConn = [0], m_listBadConn = [], m_pContext = (\<lambda>_. True)\<rparr>), cl_next = 1, cl_next_conn = 1\<rparr>"

lemma one_client_execute:
  assumes "redis_cmd (m_Args c) m = Some (x, m')"
  shows "SimpleExecute map_hiredis env rnd c one_client m = Inr (RC_SUCCESS, c\<lparr>m_pReply := Some x\<rparr>, one_client, m')"
proof -
  have "m_Args c \<noteq> []" using assms by (auto simp: redis_cmd_def)
  then show ?thesis
    by (simp add: SimpleExecute_def GetMatchedServer_def one_client_def ServRequest_def RQST_RETRY_TIMES_def numeral_3_eq_3
        FetchConnection_def ConnRequest_def ConnRequest_send_def CmdRequest_def map_hiredis_def assms RC_defs
        ReturnConnection_def IsValid_def fun_eq_iff)
qed

lemma one_client_ops:
  "ko_setnx (redis_ops map_hiredis) e k v one_client m =
     Inr (if m k = None then RC_SUCCESS else RC_OBJ_EXIST, None, one_client, if m k = None then m(k \<mapsto> v) else m)"
  "ko_get (redis_ops map_hiredis) e k (Some v) one_client m =
     Inr (RC_SUCCESS, Some (case m k of None \<Rightarrow> [] | Some x \<Rightarrow> x), one_client, m)"
  "ko_getset (redis_ops map_hiredis) e k (Some v) one_client m =
     Inr (RC_SUCCESS, Some (case m k of None \<Rightarrow> [] | Some x \<Rightarrow> x), one_client, m(k \<mapsto> v))"
  "ko_del (redis_ops map_hiredis) e k None one_client m = Inr (RC_SUCCESS, None, one_client, m(k := None))"
proof -
  obtain env rnd where e: "e = (env, rnd)" by fastforce
  note defs = redis_ops_def e ExecuteImpl_def redis_args FetchResult_def
  show "ko_setnx (redis_ops map_hiredis) e k v one_client m =
     Inr (if m k = None then RC_SUCCESS else RC_OBJ_EXIST, None, one_client, if m k = None then m(k \<mapsto> v) else m)"
    by (cases "m k") (simp_all add: defs Setnx_def one_client_execute redis_cmd_def BIND_INT_def FetchInteger_def
        IntResConv_def integer_reply_def RC_defs)
  show "ko_get (redis_ops map_hiredis) e k (Some v) one_client m =
     Inr (RC_SUCCESS, Some (case m k of None \<Rightarrow> [] | Some x \<Rightarrow> x), one_client, m)"
    by (cases "m k") (simp_all add: defs Get_def one_client_execute redis_cmd_def fetch_reply FUNC_DEF_CONV_def)
  show "ko_getset (redis_ops map_hiredis) e k (Some v) one_client m =
     Inr (RC_SUCCESS, Some (case m k of None \<Rightarrow> [] | Some x \<Rightarrow> x), one_client, m(k \<mapsto> v))"
    by (cases "m k") (simp_all add: defs Getset_def one_client_execute redis_cmd_def fetch_reply FUNC_DEF_CONV_def)
  show "ko_del (redis_ops map_hiredis) e k None one_client m = Inr (RC_SUCCESS, None, one_client, m(k := None))"
    by (cases "m k") (simp_all add: defs Del_def one_client_execute redis_cmd_def BIND_INT_def FetchInteger_def
        FUNC_DEF_CONV_def integer_reply_def)
qed

definition lock_at :: "bool \<Rightarrow> int \<Rightarrow> lock_pc \<Rightarrow> CRedisClient lock_client" where
  "lock_at locked v pc = \<lparr>lk_redis = one_client, m_bLocked = locked, m_myValue = v, lk_timeout = 0, lk_pc = pc\<rparr>"

definition system_at :: "int \<Rightarrow> (cstr \<rightharpoonup> cstr) \<Rightarrow> (nat \<Rightarrow> CRedisClient lock_client) \<Rightarrow> (CRedisClient, cstr \<rightharpoonup> cstr) lock_system" where
  "system_at now m cs = \<lparr>ls_now = now, ls_world = m, ls_clients = cs\<rparr>"

abbreviation demo_reach :: "((CRedisClient, cstr \<rightharpoonup> cstr) lock_system \<Rightarrow> bool) \<Rightarrow> (CRedisClient, cstr \<rightharpoonup> cstr) lock_system \<Rightarrow> bool" where
  "demo_reach T \<equiv> ls_reach (redis_ops map_hiredis) [76] 100 T (\<lambda>m. m [76] = None)"

abbreviation demo_idle :: "nat \<Rightarrow> CRedisClient lock_client" where
  "demo_idle \<equiv> (\<lambda>_. lock_at False (- 1) L_idle)"

abbreviation demo_key :: "int \<Rightarrow> cstr \<rightharpoonup> cstr" where
  "demo_key n \<equiv> [[76] \<mapsto> GenerateValue n]"

lemma demo_step: "demo_reach T s \<Longrightarrow> ls_step (redis_ops map_hiredis) [76] 100 s s' \<Longrightarrow> s' = s'' \<Longrightarrow> T s'' \<Longrightarrow> demo_reach T s''"
  by (auto intro: ls_reach.step)

lemmas demo_defs = system_at_def lock_at_def put_client_def Lock_head_def Lock_setnx_def Lock_get_def Lock_getset_def
  Lock_expired_def UnLock_check_def UnLock_del_def Lock_taken_def one_client_ops Let_def RC_defs CRedisLock_new_def

lemma demo_start: "demo_reach T (system_at 0 Map.empty demo_idle)"
  using ls_reach.init [of 0 "\<lambda>m. m [76] = None" Map.empty "redis_ops map_hiredis" "[76]" 100 T "\<lambda>_. one_client"]
  by (simp add: demo_defs)

lemma demo_locked:
  assumes T: "T (system_at 0 Map.empty (demo_idle(0 := lock_at False (- 1) (L_started 0))))"
    "T (system_at 0 (demo_key 0) (demo_idle(0 := lock_at True 0 L_idle)))"
  shows "demo_reach T (system_at 0 (demo_key 0) (demo_idle(0 := lock_at True 0 L_idle)))"
proof -
  have 1: "demo_reach T (system_at 0 Map.empty (demo_idle(0 := lock_at False (- 1) (L_started 0))))"
    by (rule demo_step [OF demo_start ls_step.start [where t = 0 and timeout = 0]]) (use T(1) in \<open>simp_all add: demo_defs\<close>)
  show ?thesis
    by (rule demo_step [OF 1 ls_step.setnx [where t = 0 and current = 0]]) (use T(2) in \<open>simp_all add: demo_defs\<close>)
qed


text \<open>
  Without the bound on \<open>Del\<close> the lock is not safe: a client that is held up between the test of
  \<open>UnLock\<close> and \<open>Del\<close> deletes the lock that another one has taken meanwhile, and a third one gets it too;
  then two clients have locks of age 0.\<close>

theorem redis_lock_late_delete:
  "\<exists>s. demo_reach (\<lambda>_. True) s \<and> holds 100 s 1 \<and> holds 100 s 2 \<and> m_myValue (ls_clients s 1) = ls_now s \<and> m_myValue (ls_clients s 2) = ls_now s"
proof -
  let ?T = "\<lambda>_. True"
  let ?d = "demo_idle(0 := lock_at True 0 L_del)"
  note go = demo_step [where T = ?T]
  have 1: "demo_reach ?T (system_at 99 (demo_key 0) (demo_idle(0 := lock_at True 0 L_idle)))"
    by (rule go [OF demo_locked ls_step.tick [where now = 99]]) (simp_all add: demo_defs)
  have 2: "demo_reach ?T (system_at 99 (demo_key 0) ?d)"
    by (rule go [OF 1 ls_step.unlock [where t = 0]]) (simp_all add: demo_defs)
  have 3: "demo_reach ?T (system_at 100 (demo_key 0) ?d)"
    by (rule go [OF 2 ls_step.tick [where now = 100]]) (simp_all add: demo_defs)
  have 4: "demo_reach ?T (system_at 100 (demo_key 0) (?d(1 := lock_at False (- 1) (L_started 100))))"
    by (rule go [OF 3 ls_step.start [where t = 1 and timeout = 0]]) (simp_all add: demo_defs)
  have 5: "demo_reach ?T (system_at 100 (demo_key 0) (?d(1 := lock_at False (- 1) (L_exists 100))))"
    by (rule go [OF 4 ls_step.setnx [where t = 1 and current = 100]]) (simp_all add: demo_defs)
  have 6: "demo_reach ?T (system_at 100 (demo_key 0) (?d(1 := lock_at False (- 1) (L_value 100 (GenerateValue 0)))))"
    by (rule go [OF 5 ls_step.get [where t = 1 and current = 100]]) (simp_all add: demo_defs)
  have 7: "demo_reach ?T (system_at 100 (demo_key 0) (?d(1 := lock_at False (- 1) (L_expired 100 (GenerateValue 0)))))"
    by (rule go [OF 6 ls_step.expired [where t = 1 and current = 100 and redisValue = "GenerateValue 0"]])
      (simp_all add: demo_defs IsExpired_def atol_GenerateValue)
  have 8: "demo_reach ?T (system_at 100 (demo_key 100) (?d(1 := lock_at True 100 L_idle)))"
    by (rule go [OF 7 ls_step.getset [where t = 1 and current = 100 and redisValue = "GenerateValue 0"]]) (simp_all add: demo_defs)
  have 9: "demo_reach ?T (system_at 100 Map.empty (demo_idle(1 := lock_at True 100 L_idle)))"
    by (rule go [OF 8 ls_step.del [where t = 0]]) (auto simp: demo_defs fun_eq_iff)
  have 10: "demo_reach ?T (system_at 100 Map.empty (demo_idle(1 := lock_at True 100 L_idle, 2 := lock_at False (- 1) (L_started 100))))"
    by (rule go [OF 9 ls_step.start [where t = 2 and timeout = 0]]) (simp_all add: demo_defs)
  have 11: "demo_reach ?T (system_at 100 (demo_key 100) (demo_idle(1 := lock_at True 100 L_idle, 2 := lock_at True 100 L_idle)))"
    by (rule go [OF 10 ls_step.setnx [where t = 2 and current = 100]]) (simp_all add: demo_defs)
  show ?thesis
    by (rule exI, intro conjI, rule 11) (simp_all add: holds_def demo_defs)
qed

end
