(* ===== verification/Redis_Pipeline.thy ===== *)
theory Redis_Pipeline
  imports Redis_Client "HOL-Library.Multiset"
begin

text \<open>
  Pipelines (\<open>CRedisPipeline\<close> and the methods of \<open>CRedisClient\<close> that take one,
  \<open>source/redis_client/redisclient.cpp\<close>): commands are queued, grouped by the server of their key, sent
  to one server after the other, and their replies fetched in the order in which they were queued.
  \<open>m_mapCmd\<close> is ordered by the addresses of the server objects (the argument \<open>addr\<close>), with the null
  pointer first; a command in it is its index in \<open>m_vecCmd\<close>.
\<close>

section \<open>Pipelines\<close>

record CRedisPipeline =
  m_vecCmd :: "CRedisCommand list"
  m_nCursor :: nat

definition CreatePipeline :: CRedisPipeline where
  "CreatePipeline = \<lparr>m_vecCmd = [], m_nCursor = 0\<rparr>"

definition QueueCommand :: "CRedisCommand \<Rightarrow> CRedisPipeline \<Rightarrow> CRedisPipeline" where
  "QueueCommand c p = p\<lparr>m_vecCmd := m_vecCmd p @ [c]\<rparr>"

text \<open>The first loop of \<open>FlushCommand\<close>: \<open>rnd i\<close> is what \<open>rand()\<close> returns for the command \<open>i\<close>.\<close>

definition group_add :: "nat option \<Rightarrow> nat \<Rightarrow> (nat option \<times> nat list) list \<Rightarrow> (nat option \<times> nat list) list" where
  "group_add k i m =
     (case map_of m k of
        Some l \<Rightarrow> map (\<lambda>(k', l'). if k' = k then (k', l' @ [i]) else (k', l')) m
      | None \<Rightarrow> m @ [(k, [i])])"

fun group_cmds :: "(nat \<Rightarrow> nat) \<Rightarrow> CRedisClient \<Rightarrow> nat \<Rightarrow> CRedisCommand list \<Rightarrow> (nat option \<times> nat list) list \<Rightarrow>
    (nat option \<times> nat list) list result" where
  "group_cmds rnd cl i [] m = Inr m"
| "group_cmds rnd cl i (c # cs) m =
     bind_result (GetMatchedServer (rnd i) c cl) (\<lambda>k. group_cmds rnd cl (i + 1) cs (group_add k i m))"

definition map_order :: "(nat \<Rightarrow> nat) \<Rightarrow> (nat option \<times> nat list) list \<Rightarrow> (nat option \<times> nat list) list" where
  "map_order addr m = sort_key (\<lambda>(k, l). case k of None \<Rightarrow> 0 | Some i \<Rightarrow> Suc (addr i)) m"

text \<open>Storing the commands with their replies back into the vector.\<close>

definition write_back :: "nat list \<Rightarrow> CRedisCommand list \<Rightarrow> CRedisCommand list \<Rightarrow> CRedisCommand list" where
  "write_back idxs cs v = map (\<lambda>j. case map_of (zip idxs cs) j of Some c \<Rightarrow> c | None \<Rightarrow> v ! j) [0..<length v]"

fun flush_groups :: "'w hiredis \<Rightarrow> envt \<Rightarrow> (nat option \<times> nat list) list \<Rightarrow> CRedisCommand list \<Rightarrow> CRedisClient \<Rightarrow> 'w \<Rightarrow>
    (int \<times> CRedisCommand list \<times> CRedisClient \<times> 'w) result" where
  "flush_groups h env [] v cl w = Inr (RC_SUCCESS, v, cl, w)"
| "flush_groups h env ((k, idxs) # gs) v cl w =
     (case k of
        None \<Rightarrow> Inl Undefined_behaviour
      | Some i \<Rightarrow>
          (case ServRequest_vec h env (map ((!) v) idxs) (cl_servers cl i) w of
             (nRet, cs, s, w) \<Rightarrow>
               let v = write_back idxs cs v; cl = cl\<lparr>cl_servers := (cl_servers cl)(i := s)\<rparr> in
               if nRet = RC_SUCCESS then flush_groups h env gs v cl w else Inr (nRet, v, cl, w)))"

definition FlushCommand :: "'w hiredis \<Rightarrow> envt \<Rightarrow> (nat \<Rightarrow> nat) \<Rightarrow> (nat \<Rightarrow> nat) \<Rightarrow> CRedisPipeline \<Rightarrow> CRedisClient \<Rightarrow> 'w \<Rightarrow>
    (int \<times> CRedisPipeline \<times> CRedisClient \<times> 'w) result" where
  "FlushCommand h env rnd addr p cl w =
     bind_result (group_cmds rnd cl 0 (m_vecCmd p) []) (\<lambda>m.
       bind_result (flush_groups h env (map_order addr m) (m_vecCmd p) cl w) (\<lambda>(nRet, v, cl, w).
         Inr (nRet, p\<lparr>m_vecCmd := v\<rparr>, cl, w)))"

definition FetchNext :: "(redisReply \<Rightarrow> (int \<times> 'a) result) \<Rightarrow> 'a \<Rightarrow> CRedisPipeline \<Rightarrow> (int \<times> 'a \<times> CRedisPipeline) result" where
  "FetchNext funcFetch out p =
     (if length (m_vecCmd p) \<le> m_nCursor p then Inr (RC_RESULT_EOF, out, p)
      else bind_result (FetchResult funcFetch (m_vecCmd p ! m_nCursor p)) (\<lambda>(nRet, out).
        Inr (nRet, out, p\<lparr>m_nCursor := Suc (m_nCursor p)\<rparr>)))"

definition FetchNext_reply :: "redisReply option \<Rightarrow> CRedisPipeline \<Rightarrow> int \<times> redisReply option \<times> CRedisPipeline" where
  "FetchNext_reply out p =
     (if length (m_vecCmd p) \<le> m_nCursor p then (RC_RESULT_EOF, out, p)
      else (RC_SUCCESS, m_pReply (m_vecCmd p ! m_nCursor p), p\<lparr>m_nCursor := Suc (m_nCursor p)\<rparr>))"

section \<open>The client's side\<close>

definition FlushPipeline :: "'w hiredis \<Rightarrow> envt \<Rightarrow> (nat \<Rightarrow> nat) \<Rightarrow> (nat \<Rightarrow> nat) \<Rightarrow> CRedisPipeline option \<Rightarrow> CRedisClient \<Rightarrow> 'w \<Rightarrow>
    (int \<times> CRedisPipeline option \<times> CRedisClient \<times> 'w) result" where
  "FlushPipeline h env rnd addr ppLine cl w =
     (case ppLine of
        None \<Rightarrow> Inr (RC_PIPELINE_ERR, None, cl, w)
      | Some p \<Rightarrow> bind_result (FlushCommand h env rnd addr p cl w) (\<lambda>(nRet, p, cl, w). Inr (nRet, Some p, cl, w)))"

definition FetchReply :: "(redisReply \<Rightarrow> (int \<times> 'a) result) \<Rightarrow> 'a \<Rightarrow> CRedisPipeline option \<Rightarrow> (int \<times> 'a \<times> CRedisPipeline option) result" where
  "FetchReply func out ppLine =
     (case ppLine of
        None \<Rightarrow> Inr (RC_NO_RESOURCE, out, None)
      | Some p \<Rightarrow> bind_result (FetchNext func out p) (\<lambda>(nRet, out, p). Inr (nRet, out, Some p)))"

definition FetchReply_reply :: "redisReply option \<Rightarrow> CRedisPipeline option \<Rightarrow> int \<times> redisReply option \<times> CRedisPipeline option" where
  "FetchReply_reply out ppLine =
     (case ppLine of
        None \<Rightarrow> (RC_NO_RESOURCE, out, None)
      | Some p \<Rightarrow> (case FetchNext_reply out p of (nRet, out, p) \<Rightarrow> (nRet, out, Some p)))"

definition CleanServer :: "CRedisClient \<Rightarrow> CRedisClient" where
  "CleanServer cl = cl\<lparr>m_vecSlot := [], m_vecRedisServ := []\<rparr>"

text \<open>\<open>ExecuteImpl\<close> with a pipeline, which \<open>Execute\<close> only queues the command in, or without.\<close>

definition ExecuteLine ::
  "'w hiredis \<Rightarrow> envt \<Rightarrow> nat \<Rightarrow> cstr \<Rightarrow> (CRedisCommand \<Rightarrow> CRedisCommand) \<Rightarrow> int \<Rightarrow> CRedisPipeline option \<Rightarrow>
     (redisReply \<Rightarrow> (int \<times> 'a) result) \<Rightarrow> conv \<Rightarrow> 'a \<Rightarrow> CRedisClient \<Rightarrow> 'w \<Rightarrow>
     (int \<times> 'a \<times> CRedisPipeline option \<times> CRedisClient \<times> 'w) result" where
  "ExecuteLine h env rnd strCmd set_args nSlot ppLine funcFetch funcConv out cl w =
     (case ppLine of
        None \<Rightarrow>
          bind_result (ExecuteImpl h env rnd strCmd set_args nSlot funcFetch funcConv out cl w) (\<lambda>(nRet, out, cl, w).
            Inr (nRet, out, None, cl, w))
      | Some p \<Rightarrow>
          let c = (set_args (CRedisCommand_new strCmd True))\<lparr>m_nSlot := nSlot, m_funcConv := funcConv\<rparr>
          in Inr (RC_SUCCESS, out, Some (QueueCommand c p), cl, w))"

definition BIND_VSTR :: "cstr list option \<Rightarrow> redisReply \<Rightarrow> (int \<times> cstr list option) result" where
  "BIND_VSTR val r = FetchStringArray r val"

section \<open>Mget and Mset\<close>

fun mget_queue :: "cstr list \<Rightarrow> CRedisPipeline \<Rightarrow> CRedisPipeline" where
  "mget_queue [] p = p"
| "mget_queue (k # ks) p =
     mget_queue ks (QueueCommand ((SetArgs_s k (CRedisCommand_new (bytes ''get'') True))\<lparr>m_nSlot := slot_of k, m_funcConv := FUNC_DEF_CONV\<rparr>) p)"

text \<open>The loop over \<open>FetchReply\<close>; \<open>strVal\<close> keeps its value from round to round.\<close>

function mget_fetch :: "cstr \<Rightarrow> CRedisPipeline \<Rightarrow> cstr list option \<Rightarrow> int \<Rightarrow> (int \<times> cstr list option) result" where
  "mget_fetch strVal p pvecVal nRet =
     (if length (m_vecCmd p) \<le> m_nCursor p then Inr (nRet, pvecVal)
      else case FetchResult (BIND_STR (Some strVal)) (m_vecCmd p ! m_nCursor p) of
             Inl e \<Rightarrow> Inl e
           | Inr (nSubRet, out) \<Rightarrow>
               let strVal = the out; p = p\<lparr>m_nCursor := Suc (m_nCursor p)\<rparr> in
               if nSubRet = RC_RESULT_EOF then Inr (nRet, pvecVal)
               else if nSubRet = RC_SUCCESS \<or> nSubRet = RC_REPLY_ERR then
                 (case pvecVal of
                    None \<Rightarrow> Inl Undefined_behaviour
                  | Some v \<Rightarrow> mget_fetch strVal p (Some (v @ [if nSubRet = RC_SUCCESS then strVal else []])) nRet)
               else Inr (nSubRet, pvecVal))"
  by pat_completeness auto
termination
  by (relation "measure (\<lambda>(strVal, p, v, n). length (m_vecCmd p) - m_nCursor p)") auto

declare mget_fetch.simps [simp del]

definition Mget :: "'w hiredis \<Rightarrow> envt \<Rightarrow> (nat \<Rightarrow> nat) \<Rightarrow> (nat \<Rightarrow> nat) \<Rightarrow> cstr list \<Rightarrow> cstr list option \<Rightarrow> CRedisClient \<Rightarrow> 'w \<Rightarrow>
    (int \<times> cstr list option \<times> CRedisClient \<times> 'w) result" where
  "Mget h env rnd addr vecKey pvecVal cl w =
     (if vecKey = [] then Inr (RC_SUCCESS, pvecVal, cl, w)
      else if \<not> cl_bCluster cl then
        ExecuteImpl h env (rnd 0) (bytes ''mget'') (SetArgs_v vecKey) (slot_of (hd vecKey)) (BIND_VSTR pvecVal) FUNC_DEF_CONV pvecVal cl w
      else
        bind_result (FlushCommand h env rnd addr (mget_queue vecKey CreatePipeline) cl w) (\<lambda>(_, p, cl, w).
          bind_result (mget_fetch [] p pvecVal RC_SUCCESS) (\<lambda>(nRet, pvecVal). Inr (nRet, pvecVal, cl, w))))"

text \<open>\<open>vecVal[i]\<close> is read for every key.\<close>

fun mset_queue :: "(cstr \<times> cstr) list \<Rightarrow> CRedisPipeline \<Rightarrow> CRedisPipeline" where
  "mset_queue [] p = p"
| "mset_queue ((k, v) # kvs) p =
     mset_queue kvs (QueueCommand ((SetArgs_ss k v (CRedisCommand_new (bytes ''set'') True))\<lparr>m_nSlot := slot_of k, m_funcConv := StuResConv (bytes ''OK'')\<rparr>) p)"

function mset_fetch :: "CRedisPipeline \<Rightarrow> int \<Rightarrow> int result" where
  "mset_fetch p nRet =
     (if length (m_vecCmd p) \<le> m_nCursor p then Inr nRet
      else case FetchResult (BIND_STR None) (m_vecCmd p ! m_nCursor p) of
             Inl e \<Rightarrow> Inl e
           | Inr (nSubRet, out) \<Rightarrow>
               if nSubRet = RC_RESULT_EOF then Inr nRet
               else mset_fetch (p\<lparr>m_nCursor := Suc (m_nCursor p)\<rparr>) (if nSubRet \<noteq> RC_SUCCESS then RC_PART_SUCCESS else nRet))"
  by pat_completeness auto
termination
  by (relation "measure (\<lambda>(p, n). length (m_vecCmd p) - m_nCursor p)") auto

declare mset_fetch.simps [simp del]

definition Mset :: "'w hiredis \<Rightarrow> envt \<Rightarrow> (nat \<Rightarrow> nat) \<Rightarrow> (nat \<Rightarrow> nat) \<Rightarrow> cstr list \<Rightarrow> cstr list \<Rightarrow> CRedisClient \<Rightarrow> 'w \<Rightarrow>
    (int \<times> CRedisClient \<times> 'w) result" where
  "Mset h env rnd addr vecKey vecVal cl w =
     (if vecKey = [] then Inr (RC_SUCCESS, cl, w)
      else if \<not> cl_bCluster cl then
        bind_result (ExecuteImpl h env (rnd 0) (bytes ''mset'') (SetArgs_vv vecKey vecVal) (slot_of (hd vecKey)) (BIND_STR None)
            (StuResConv (bytes ''OK'')) None cl w) (\<lambda>(nRet, out, cl, w). Inr (nRet, cl, w))
      else if length vecVal < length vecKey then Inl Undefined_behaviour
      else
        bind_result (FlushCommand h env rnd addr (mset_queue (zip vecKey vecVal) CreatePipeline) cl w) (\<lambda>(_, p, cl, w).
          bind_result (mset_fetch p RC_SUCCESS) (\<lambda>nRet. Inr (nRet, cl, w))))"

section \<open>Replies come back in order\<close>

text \<open>
  What hiredis documents of a connection that is not broken: a command that is appended is answered,
  \<open>redisGetReply\<close> gives the answers in the order of the commands. \<open>pend w a\<close> are the answers that the
  connection \<open>a\<close> still has to give.
\<close>

definition pipe_ok :: "'w hiredis \<Rightarrow> ('w \<Rightarrow> conn_at \<Rightarrow> redisReply list) \<Rightarrow> (conn_at \<Rightarrow> cstr list \<Rightarrow> redisReply) \<Rightarrow> bool" where
  "pipe_ok h pend answer \<longleftrightarrow>
     (\<forall>a args w. \<exists>w'. redisAppendCommandArgv h a args w = (True, w') \<and> pend w' = (pend w)(a := pend w a @ [answer a args])) \<and>
     (\<forall>a w r rs. pend w a = r # rs \<longrightarrow> (\<exists>w'. redisGetReply h a w = (Some r, w') \<and> pend w' = (pend w)(a := rs)))"

definition answered :: "(conn_at \<Rightarrow> cstr list \<Rightarrow> redisReply) \<Rightarrow> conn_at \<Rightarrow> CRedisCommand \<Rightarrow> CRedisCommand" where
  "answered answer a c = c\<lparr>m_pReply := Some (answer a (m_Args c))\<rparr>"

lemma pipe_append:
  "pipe_ok h pend answer \<Longrightarrow>
     \<exists>w'. redisAppendCommandArgv h a args w = (True, w') \<and> pend w' = (pend w)(a := pend w a @ [answer a args])"
  unfolding pipe_ok_def by blast

lemma pipe_get:
  "pipe_ok h pend answer \<Longrightarrow> pend w a = r # rs \<Longrightarrow> \<exists>w'. redisGetReply h a w = (Some r, w') \<and> pend w' = (pend w)(a := rs)"
  unfolding pipe_ok_def by blast

lemma append_all_ok:
  assumes "pipe_ok h pend answer" "\<forall>c\<in>set cs. m_Args c \<noteq> []"
  shows "\<exists>w'. append_all h a cs w = (RC_SUCCESS, w') \<and> pend w' = (pend w)(a := pend w a @ map (answer a \<circ> m_Args) cs)"
  using assms(2)
proof (induction cs arbitrary: w)
  case (Cons c cs)
  from pipe_append [OF assms(1)] obtain w1 where w1: "redisAppendCommandArgv h a (m_Args c) w = (True, w1)"
    "pend w1 = (pend w)(a := pend w a @ [answer a (m_Args c)])" by blast
  have "\<forall>c\<in>set cs. m_Args c \<noteq> []" using Cons.prems by simp
  from Cons.IH [OF this] obtain w2 where "append_all h a cs w1 = (RC_SUCCESS, w2)"
    "pend w2 = (pend w1)(a := pend w1 a @ map (answer a \<circ> m_Args) cs)" by blast
  with w1 Cons.prems show ?case by (auto simp: CmdAppend_def)
qed simp

lemma reply_all_ok:
  assumes "pipe_ok h pend answer" "pend w a = map (answer a \<circ> m_Args) cs @ rest"
  shows "\<exists>w'. reply_all h a cs w = (RC_SUCCESS, map (answered answer a) cs, w') \<and> pend w' = (pend w)(a := rest)"
  using assms(2)
proof (induction cs arbitrary: w)
  case (Cons c cs)
  then have "pend w a = answer a (m_Args c) # map (answer a \<circ> m_Args) cs @ rest" by simp
  from pipe_get [OF assms(1) this] obtain w1 where w1: "redisGetReply h a w = (Some (answer a (m_Args c)), w1)"
    "pend w1 = (pend w)(a := map (answer a \<circ> m_Args) cs @ rest)" by blast
  have "pend w1 a = map (answer a \<circ> m_Args) cs @ rest" using w1(2) by simp
  from Cons.IH [OF this] obtain w2 where "reply_all h a cs w1 = (RC_SUCCESS, map (answered answer a) cs, w2)"
    "pend w2 = (pend w1)(a := rest)" by blast
  with w1 show ?case by (auto simp: CmdReply_def answered_def)
qed auto

text \<open>A server whose next idle connection is open.\<close>

definition ready :: "CRedisServer \<Rightarrow> bool" where
  "ready s \<longleftrightarrow> m_queIdleConn s \<noteq> [] \<and> m_pContext s (hd (m_queIdleConn s))"

definition next_conn :: "CRedisServer \<Rightarrow> conn_at" where
  "next_conn s = at_server s (hd (m_queIdleConn s))"

lemma ServRequest_vec_ok:
  assumes "pipe_ok h pend answer" "\<forall>c\<in>set cs. m_Args c \<noteq> []" "ready s" "pend w = (\<lambda>_. [])"
  shows "\<exists>s' w'. ServRequest_vec h env cs s w = (RC_SUCCESS, map (answered answer (next_conn s)) cs, s', w') \<and> pend w' = (\<lambda>_. [])"
proof -
  from assms(3) obtain p q where q: "m_queIdleConn s = p # q" "m_pContext s p" by (cases "m_queIdleConn s") (auto simp: ready_def)
  let ?a = "next_conn s"
  from append_all_ok [OF assms(1,2)] obtain w1 where w1: "append_all h ?a cs w = (RC_SUCCESS, w1)"
    "pend w1 = (pend w)(?a := pend w ?a @ map (answer ?a \<circ> m_Args) cs)" by blast
  then have "pend w1 ?a = map (answer ?a \<circ> m_Args) cs @ []" by (simp add: assms(4))
  from reply_all_ok [OF assms(1) this] obtain w2 where r: "reply_all h ?a cs w1 = (RC_SUCCESS, map (answered answer ?a) cs, w2)"
    "pend w2 = (pend w1)(?a := [])" by blast
  with w1(2) have w2: "reply_all h ?a cs w1 = (RC_SUCCESS, map (answered answer ?a) cs, w2)" "pend w2 = (\<lambda>_. [])"
    by (auto simp: assms(4) fun_eq_iff)
  have "at_server (s\<lparr>m_queIdleConn := q\<rparr>) p = ?a" using q by (simp add: next_conn_def at_server_def)
  moreover have "fetch_valid env RQST_RETRY_TIMES None s = (Some p, s\<lparr>m_queIdleConn := q\<rparr>)"
    using q by (simp add: RQST_RETRY_TIMES_def numeral_3_eq_3 FetchConnection_def IsValid_def)
  ultimately show ?thesis using w1(1) w2 q(2) by (simp add: ServRequest_vec_def ConnRequest_vec_def)
qed

section \<open>Groups of commands\<close>

definition groups_ok :: "(nat \<Rightarrow> nat) \<Rightarrow> nat \<Rightarrow> (nat option \<times> nat list) list \<Rightarrow> bool" where
  "groups_ok f n m \<longleftrightarrow> distinct (map fst m) \<and>
     (\<forall>k l. (k, l) \<in> set m \<longrightarrow> (\<exists>s. k = Some s \<and> l \<noteq> [] \<and> (\<forall>j. j \<in> set l \<longrightarrow> j < n \<and> f j = s))) \<and>
     (\<forall>j<n. \<exists>l. (Some (f j), l) \<in> set m \<and> j \<in> set l)"

lemma group_add_ok:
  assumes "groups_ok f n m"
  shows "groups_ok f (Suc n) (group_add (Some (f n)) n m)"
proof (cases "map_of m (Some (f n))")
  case None
  then have e: "group_add (Some (f n)) n m = m @ [(Some (f n), [n])]" by (simp add: group_add_def)
  from None have new: "Some (f n) \<notin> fst ` set m" by (simp add: map_of_eq_None_iff)
  have 1: "distinct (map fst (m @ [(Some (f n), [n])]))" using assms new by (simp add: groups_ok_def)
  have 2: "\<exists>s. k = Some s \<and> l \<noteq> [] \<and> (\<forall>j. j \<in> set l \<longrightarrow> j < Suc n \<and> f j = s)" if "(k, l) \<in> set (m @ [(Some (f n), [n])])" for k l
  proof (cases "(k, l) \<in> set m")
    case True
    with assms obtain s where "k = Some s" "l \<noteq> []" "\<forall>j. j \<in> set l \<longrightarrow> j < n \<and> f j = s" unfolding groups_ok_def by blast
    then show ?thesis by (auto simp: less_Suc_eq)
  next
    case False
    with that show ?thesis by simp
  qed
  have 3: "\<exists>l. (Some (f j), l) \<in> set (m @ [(Some (f n), [n])]) \<and> j \<in> set l" if "j < Suc n" for j
  proof (cases "j = n")
    case False
    with that have "j < n" by simp
    with assms obtain l where "(Some (f j), l) \<in> set m" "j \<in> set l" unfolding groups_ok_def by blast
    then show ?thesis by auto
  qed auto
  show ?thesis unfolding groups_ok_def e using 1 2 3 by blast
next
  case (Some l0)
  let ?g = "\<lambda>(k', l'). if k' = Some (f n) then (k', l' @ [n]) else (k', l')"
  have e: "group_add (Some (f n)) n m = map ?g m" using Some by (simp add: group_add_def)
  have "map fst (map ?g m) = map fst m" by (auto simp: comp_def split_def)
  then have 1: "distinct (map fst (map ?g m))" using assms by (simp only: groups_ok_def)
  have 2: "\<exists>s. k = Some s \<and> l \<noteq> [] \<and> (\<forall>j. j \<in> set l \<longrightarrow> j < Suc n \<and> f j = s)" if "(k, l) \<in> set (map ?g m)" for k l
  proof -
    from that obtain l' where l': "(k, l') \<in> set m" "l = (if k = Some (f n) then l' @ [n] else l')"
      by (auto split: if_splits)
    with assms obtain s where "k = Some s" "l' \<noteq> []" "\<forall>j. j \<in> set l' \<longrightarrow> j < n \<and> f j = s" unfolding groups_ok_def by blast
    with l'(2) show ?thesis by (auto simp: less_Suc_eq)
  qed
  have 3: "\<exists>l. (Some (f j), l) \<in> set (map ?g m) \<and> j \<in> set l" if "j < Suc n" for j
  proof (cases "j = n")
    case True
    from Some have "(Some (f n), l0 @ [n]) \<in> set (map ?g m)" by (force dest: map_of_SomeD)
    with True show ?thesis by (intro exI [of _ "l0 @ [n]"] conjI) simp_all
  next
    case False
    with that have "j < n" by simp
    with assms obtain l where l: "(Some (f j), l) \<in> set m" "j \<in> set l" unfolding groups_ok_def by blast
    have "?g (Some (f j), l) \<in> set (map ?g m)" unfolding set_map using l(1) by (rule imageI)
    moreover have "?g (Some (f j), l) = (Some (f j), if f j = f n then l @ [n] else l)" by simp
    ultimately have "(Some (f j), if f j = f n then l @ [n] else l) \<in> set (map ?g m)" by (simp only:)
    then show ?thesis using l(2) by (intro exI [of _ "if f j = f n then l @ [n] else l"] conjI) simp_all
  qed
  show ?thesis unfolding groups_ok_def e using 1 2 3 by blast
qed

lemma group_cmds_ok:
  assumes "\<forall>j<length cs. \<forall>r. GetMatchedServer r (cs ! j) cl = Inr (Some (f (i + j)))" "groups_ok f i m"
  shows "\<exists>m'. group_cmds rnd cl i cs m = Inr m' \<and> groups_ok f (i + length cs) m'"
  using assms
proof (induction cs arbitrary: i m)
  case (Cons c cs)
  have "GetMatchedServer (rnd i) c cl = Inr (Some (f i))" using Cons.prems(1) by force
  moreover have "\<forall>j<length cs. \<forall>r. GetMatchedServer r (cs ! j) cl = Inr (Some (f (Suc i + j)))"
    using Cons.prems(1) by force
  ultimately show ?case using Cons.IH [OF _ group_add_ok [OF Cons.prems(2)]] by simp
qed auto

section \<open>Flushing and fetching\<close>

lemma write_back_nth:
  assumes "j < length v"
  shows "write_back idxs (map g idxs) v ! j = (if j \<in> set idxs then g j else v ! j)"
  using assms by (simp add: write_back_def map_of_zip_map)

lemma flush_groups_ok:
  assumes h: "pipe_ok h pend answer" and "pend w = (\<lambda>_. [])"
    and "\<forall>j<length v. m_Args (v ! j) \<noteq> []" "distinct (map fst gs)"
    and "\<forall>k l. (k, l) \<in> set gs \<longrightarrow> (\<exists>s. k = Some s \<and> (\<forall>j. j \<in> set l \<longrightarrow> j < length v \<and> f j = s) \<and> cl_servers cl s = sv s \<and> ready (sv s))"
  shows "\<exists>v' cl' w'. flush_groups h env gs v cl w = Inr (RC_SUCCESS, v', cl', w') \<and> length v' = length v \<and>
     (\<forall>j<length v. v' ! j = (if j \<in> (\<Union>(k, l)\<in>set gs. set l) then answered answer (next_conn (sv (f j))) (v ! j) else v ! j))"
  using assms(2-)
proof (induction gs arbitrary: v cl w)
  case (Cons g gs)
  obtain k idxs where g: "g = (k, idxs)" by (cases g)
  with Cons.prems(4) obtain s where k: "k = Some s" and idxs: "\<And>j. j \<in> set idxs \<Longrightarrow> j < length v \<and> f j = s"
    and s: "cl_servers cl s = sv s" "ready (sv s)" by (metis list.set_intros(1))
  have "\<forall>c\<in>set (map ((!) v) idxs). m_Args c \<noteq> []" using Cons.prems(2) idxs by auto
  from ServRequest_vec_ok [OF h this s(2) Cons.prems(1)] obtain s' w1 where
    r: "ServRequest_vec h env (map ((!) v) idxs) (sv s) w = (RC_SUCCESS, map (answered answer (next_conn (sv s))) (map ((!) v) idxs), s', w1)"
    "pend w1 = (\<lambda>_. [])" by blast
  let ?v = "write_back idxs (map (\<lambda>j. answered answer (next_conn (sv s)) (v ! j)) idxs) v"
  let ?cl = "cl\<lparr>cl_servers := (cl_servers cl)(s := s')\<rparr>"
  have lv: "length ?v = length v" by (simp add: write_back_def)
  have nv: "?v ! j = (if j \<in> set idxs then answered answer (next_conn (sv s)) (v ! j) else v ! j)" if "j < length v" for j
    by (rule write_back_nth [OF that])
  have f: "flush_groups h env (g # gs) v cl w = flush_groups h env gs ?v ?cl w1"
    using r(1) by (simp add: g k s(1) comp_def)
  have other: "t \<noteq> s" if "(Some t, l) \<in> set gs" for t l
    using Cons.prems(3) that by (force simp: g k)
  have aa: "m_Args (answered answer x c) = m_Args c" for x c by (simp add: answered_def)
  have a: "\<forall>j<length ?v. m_Args (?v ! j) \<noteq> []" using Cons.prems(2) nv by (simp add: lv aa)
  have d: "distinct (map fst gs)" using Cons.prems(3) by simp
  have ok: "\<forall>k l. (k, l) \<in> set gs \<longrightarrow>
      (\<exists>t. k = Some t \<and> (\<forall>j. j \<in> set l \<longrightarrow> j < length ?v \<and> f j = t) \<and> cl_servers ?cl t = sv t \<and> ready (sv t))"
  proof (intro allI impI)
    fix k l assume kl: "(k, l) \<in> set gs"
    then obtain t where t: "k = Some t" "\<forall>j. j \<in> set l \<longrightarrow> j < length v \<and> f j = t" "cl_servers cl t = sv t" "ready (sv t)"
      using Cons.prems(4) by (meson list.set_intros(2))
    with other [of t l] kl show "\<exists>t. k = Some t \<and> (\<forall>j. j \<in> set l \<longrightarrow> j < length ?v \<and> f j = t) \<and> cl_servers ?cl t = sv t \<and> ready (sv t)"
      by (intro exI [of _ t]) (simp add: lv)
  qed
  from Cons.IH [OF r(2) a d ok] obtain v' cl' w' where IH: "flush_groups h env gs ?v ?cl w1 = Inr (RC_SUCCESS, v', cl', w')"
    "length v' = length ?v"
    "\<forall>j<length ?v. v' ! j = (if j \<in> (\<Union>(k, l)\<in>set gs. set l) then answered answer (next_conn (sv (f j))) (?v ! j) else ?v ! j)"
    by blast
  have "v' ! j = (if j \<in> (\<Union>(k, l)\<in>set (g # gs). set l) then answered answer (next_conn (sv (f j))) (v ! j) else v ! j)"
    if j: "j < length v" for j
  proof (cases "j \<in> set idxs")
    case True
    have "j \<notin> (\<Union>(k, l)\<in>set gs. set l)"
    proof
      assume "j \<in> (\<Union>(k, l)\<in>set gs. set l)"
      then obtain k' l where kl: "(k', l) \<in> set gs" "j \<in> set l" by auto
      then obtain t where "k' = Some t" "f j = t" using ok by blast
      with other kl(1) idxs [OF True] show False by blast
    qed
    with IH(3) j nv [OF j] True idxs [OF True] show ?thesis by (simp add: g lv)
  next
    case False
    with IH(3) j nv [OF j] show ?thesis by (simp add: g lv)
  qed
  with IH(1,2) f lv show ?case by simp
qed simp

lemma mget_queue_cmds:
  "m_vecCmd (mget_queue ks p) = m_vecCmd p @ map (\<lambda>k. (SetArgs_s k (CRedisCommand_new (bytes ''get'') True))\<lparr>m_nSlot := slot_of k, m_funcConv := FUNC_DEF_CONV\<rparr>) ks"
  "m_nCursor (mget_queue ks p) = m_nCursor p"
  by (induction ks arbitrary: p) (simp_all add: QueueCommand_def)

lemma mget_fetch_ok:
  assumes "\<forall>j<length (m_vecCmd p). \<forall>x. FetchResult (BIND_STR (Some x)) (m_vecCmd p ! j) = Inr (RC_SUCCESS, Some (val j))"
  shows "mget_fetch x p (Some acc) RC_SUCCESS = Inr (RC_SUCCESS, Some (acc @ map val [m_nCursor p..<length (m_vecCmd p)]))"
  using assms
proof (induction "length (m_vecCmd p) - m_nCursor p" arbitrary: p x acc)
  case 0
  then show ?case by (subst mget_fetch.simps) simp
next
  case (Suc d)
  let ?p = "p\<lparr>m_nCursor := Suc (m_nCursor p)\<rparr>"
  have c: "m_nCursor p < length (m_vecCmd p)" using Suc.hyps(2) by simp
  have "mget_fetch x p (Some acc) RC_SUCCESS = mget_fetch (val (m_nCursor p)) ?p (Some (acc @ [val (m_nCursor p)])) RC_SUCCESS"
    using c Suc.prems by (subst mget_fetch.simps) (simp add: RC_SUCCESS_def RC_RESULT_EOF_def Let_def)
  also have "\<dots> = Inr (RC_SUCCESS, Some ((acc @ [val (m_nCursor p)]) @ map val [m_nCursor ?p..<length (m_vecCmd ?p)]))"
    by (rule Suc.hyps(1)) (use Suc c in auto)
  finally show ?case using c by (simp add: upt_conv_Cons)
qed

lemma map_order_set: "set (map_order addr m) = set m" "distinct (map fst (map_order addr m)) = distinct (map fst m)"
proof -
  have "mset (map fst (map_order addr m)) = mset (map fst m)" by (simp add: map_order_def mset_map mset_sort)
  then show "distinct (map fst (map_order addr m)) = distinct (map fst m)" by (rule mset_eq_imp_distinct_iff)
qed (simp add: map_order_def)

lemma FlushCommand_ok:
  assumes h: "pipe_ok h pend answer" "pend w = (\<lambda>_. [])"
    and cmds: "\<forall>j<length (m_vecCmd p). m_Args (m_vecCmd p ! j) \<noteq> [] \<and> ready (cl_servers cl (f j)) \<and>
       (\<forall>r. GetMatchedServer r (m_vecCmd p ! j) cl = Inr (Some (f j)))"
  shows "\<exists>p' cl' w'. FlushCommand h env rnd addr p cl w = Inr (RC_SUCCESS, p', cl', w') \<and> m_nCursor p' = m_nCursor p \<and>
     length (m_vecCmd p') = length (m_vecCmd p) \<and>
     (\<forall>j<length (m_vecCmd p). m_vecCmd p' ! j = answered answer (next_conn (cl_servers cl (f j))) (m_vecCmd p ! j))"
proof -
  let ?v = "m_vecCmd p"
  have "groups_ok f 0 []" by (simp add: groups_ok_def)
  with group_cmds_ok [of ?v cl f 0 "[]" rnd] cmds obtain m where m: "group_cmds rnd cl 0 ?v [] = Inr m" "groups_ok f (length ?v) m"
    by auto
  have d: "distinct (map fst (map_order addr m))" using m(2) by (simp add: map_order_set groups_ok_def)
  have g: "\<forall>k l. (k, l) \<in> set (map_order addr m) \<longrightarrow>
      (\<exists>s. k = Some s \<and> (\<forall>j. j \<in> set l \<longrightarrow> j < length ?v \<and> f j = s) \<and> cl_servers cl s = cl_servers cl s \<and> ready (cl_servers cl s))"
  proof (intro allI impI)
    fix k l assume "(k, l) \<in> set (map_order addr m)"
    then obtain s where s: "k = Some s" "l \<noteq> []" "\<forall>j. j \<in> set l \<longrightarrow> j < length ?v \<and> f j = s"
      using m(2) unfolding map_order_set groups_ok_def by blast
    moreover have "ready (cl_servers cl s)" using s(2,3) cmds hd_in_set [of l] by blast
    ultimately show "\<exists>s. k = Some s \<and> (\<forall>j. j \<in> set l \<longrightarrow> j < length ?v \<and> f j = s) \<and> cl_servers cl s = cl_servers cl s \<and>
        ready (cl_servers cl s)" by blast
  qed
  have a: "\<forall>j<length ?v. m_Args (?v ! j) \<noteq> []" using cmds by blast
  from flush_groups_ok [OF h a d g] obtain v' cl' w' where
    r: "flush_groups h env (map_order addr m) ?v cl w = Inr (RC_SUCCESS, v', cl', w')" "length v' = length ?v"
      "\<forall>j<length ?v. v' ! j = (if j \<in> (\<Union>(k, l)\<in>set (map_order addr m). set l) then answered answer (next_conn (cl_servers cl (f j))) (?v ! j) else ?v ! j)"
    by blast
  have "j \<in> (\<Union>(k, l)\<in>set (map_order addr m). set l)" if "j < length ?v" for j
    using m(2) that unfolding map_order_set groups_ok_def by blast
  with r m(1) show ?thesis by (simp add: FlushCommand_def)
qed

section \<open>Properties\<close>

text \<open>
  C20. \<open>Mget\<close> on a cluster gives the values of the keys in the order of the keys, whichever servers they
  are on and in whatever order these are asked; keys that do not exist give empty strings. The servers
  of the keys have an open idle connection, and hiredis answers the commands of a connection in order.
\<close>

theorem redis_mget:
  assumes h: "pipe_ok h pend answer" "pend w = (\<lambda>_. [])" and cl: "cl_bCluster cl"
    and keys: "\<forall>k\<in>set vecKey. \<exists>i. FindServer_slot (slot_of k) cl = Some i \<and> ready (cl_servers cl i) \<and>
       answer (next_conn (cl_servers cl i)) [bytes ''get'', k] = (case store k of None \<Rightarrow> nil_reply | Some v \<Rightarrow> string_reply v)"
  shows "\<exists>cl' w'. Mget h env rnd addr vecKey (Some vals) cl w =
     Inr (RC_SUCCESS, Some (vals @ map (\<lambda>k. case store k of None \<Rightarrow> [] | Some v \<Rightarrow> v) vecKey), cl', w')"
proof (cases "vecKey = []")
  case False
  let ?p = "mget_queue vecKey CreatePipeline"
  let ?cmd = "\<lambda>k. (SetArgs_s k (CRedisCommand_new (bytes ''get'') True))\<lparr>m_nSlot := slot_of k, m_funcConv := FUNC_DEF_CONV\<rparr>"
  let ?f = "\<lambda>j. the (FindServer_slot (slot_of (vecKey ! j)) cl)"
  let ?val = "\<lambda>k. case store k of None \<Rightarrow> [] | Some v \<Rightarrow> v"
  have v: "m_vecCmd ?p = map ?cmd vecKey" "m_nCursor ?p = 0" by (simp_all add: mget_queue_cmds CreatePipeline_def)
  have args: "m_Args (?cmd k) = [bytes ''get'', k]" for k
    by (simp add: SetArgs_s_def AppendValue_def cmd_Init_def ClearArgs_def CRedisCommand_new_def Let_def)
  have ns: "slot_of k \<noteq> - 1" for k 
  proof -
    have "0 \<le> slot_of k" by (rule unsigned_greater_eq)
    then show ?thesis by linarith
  qed
  have srv: "FindServer_slot (slot_of k) cl = Some i \<Longrightarrow> GetMatchedServer r (?cmd k) cl = Inr (Some i)" for k i r
    using cl ns by (simp add: GetMatchedServer_def)
  have "\<forall>j<length (m_vecCmd ?p). m_Args (m_vecCmd ?p ! j) \<noteq> [] \<and> ready (cl_servers cl (?f j)) \<and>
      (\<forall>r. GetMatchedServer r (m_vecCmd ?p ! j) cl = Inr (Some (?f j)))"
  proof (intro allI impI)
    fix j assume "j < length (m_vecCmd ?p)"
    then have j: "j < length vecKey" by (simp add: v)
    with keys obtain i where i: "FindServer_slot (slot_of (vecKey ! j)) cl = Some i" "ready (cl_servers cl i)" by (meson nth_mem)
    have e: "m_vecCmd ?p ! j = ?cmd (vecKey ! j)" using j by (simp add: v)
    show "m_Args (m_vecCmd ?p ! j) \<noteq> [] \<and> ready (cl_servers cl (?f j)) \<and> (\<forall>r. GetMatchedServer r (m_vecCmd ?p ! j) cl = Inr (Some (?f j)))"
      unfolding e using i srv [OF i(1)] args by simp
  qed
  from FlushCommand_ok [OF h this, of env rnd addr] obtain p' cl' w' where
    F: "FlushCommand h env rnd addr ?p cl w = Inr (RC_SUCCESS, p', cl', w')" "m_nCursor p' = 0"
      "length (m_vecCmd p') = length vecKey"
      "\<forall>j<length vecKey. m_vecCmd p' ! j = answered answer (next_conn (cl_servers cl (?f j))) (?cmd (vecKey ! j))"
    by (auto simp: v)
  have "FetchResult (BIND_STR (Some x)) (m_vecCmd p' ! j) = Inr (RC_SUCCESS, Some (?val (vecKey ! j)))"
    if "j < length (m_vecCmd p')" for j x
  proof -
    from that F(3) have j: "j < length vecKey" by simp
    with keys obtain i where "FindServer_slot (slot_of (vecKey ! j)) cl = Some i"
      "answer (next_conn (cl_servers cl i)) [bytes ''get'', vecKey ! j] = (case store (vecKey ! j) of None \<Rightarrow> nil_reply | Some v \<Rightarrow> string_reply v)"
      by (meson nth_mem)
    with F(4) j args [of "vecKey ! j"] show ?thesis
      by (auto simp: answered_def FetchResult_def BIND_STR_def FetchString_def FUNC_DEF_CONV_def string_reply_def nil_reply_def split: option.splits)
  qed
  then have m: "mget_fetch [] p' (Some vals) RC_SUCCESS =
      Inr (RC_SUCCESS, Some (vals @ map (\<lambda>j. ?val (vecKey ! j)) [m_nCursor p'..<length (m_vecCmd p')]))"
    by (intro mget_fetch_ok) blast
  have "map (\<lambda>j. ?val (vecKey ! j)) [0..<length vecKey] = map ?val vecKey"
    by (rule nth_equalityI) simp_all
  with False cl F(1) m show ?thesis by (simp add: Mget_def F(2,3))
qed (simp add: Mget_def)

definition pipe_answer :: "conn_at \<Rightarrow> cstr list \<Rightarrow> redisReply" where
  "pipe_answer a args = (if args = [bytes ''get'', [97]] then string_reply [120] else nil_reply)"

definition pipe_hiredis :: "(conn_at \<Rightarrow> redisReply list) hiredis" where
  "pipe_hiredis = \<lparr>redisCommandArgv = (\<lambda>a args w. (None, w)),
     redisAppendCommandArgv = (\<lambda>a args w. (True, w(a := w a @ [pipe_answer a args]))),
     redisGetReply = (\<lambda>a w. case w a of [] \<Rightarrow> (None, w) | r # rs \<Rightarrow> (Some r, w(a := rs))),
     redisConnectWithTimeout = (\<lambda>a w. (True, w))\<rparr>"

definition two_servers :: CRedisClient where
  "two_servers = \<lparr>m_nTimeout = 1, cl_nConnNum = 1, cl_bCluster = True,
     m_vecSlot = [\<lparr>nStartSlot = 0, nEndSlot = 8191, HostVec = [], RedisServVec = [0]\<rparr>,
                  \<lparr>nStartSlot = 8192, nEndSlot = 16383, HostVec = [], RedisServVec = [1]\<rparr>],
     m_vecRedisServ = [0, 1],
     cl_servers = (\<lambda>i. \<lparr>m_strHost = [49], m_nPort = 7000 + int i, m_nConnNum = 1, m_bExit = False, m_bMaster = True, m_bCluster = True,
        m_queIdleConn = [i], m_listBadConn = [], m_pContext = (\<lambda>_. True)\<rparr>),
     cl_next = 2, cl_next_conn = 2\<rparr>"

lemma slots_ab: "slot_of [97] = 15495" "slot_of [98] = 3300"
  by code_simp+

lemma find_ab: "FindServer_slot 15495 two_servers = Some 1" "FindServer_slot 3300 two_servers = Some 0"
  by (simp_all add: FindServer_slot_def equal_range_def two_servers_def partition_search.simps slot_before_def slot_after_def)

theorem redis_mget_witness:
  "\<exists>cl' w'. Mget pipe_hiredis (\<lambda>_ s. s) (\<lambda>_. 0) (\<lambda>i. i) [[97], [98]] (Some []) two_servers (\<lambda>_. []) =
     Inr (RC_SUCCESS, Some [[120], []], cl', w')"
proof -
  have "pipe_ok pipe_hiredis (\<lambda>w. w) pipe_answer" by (auto simp: pipe_ok_def pipe_hiredis_def)
  moreover have "\<forall>k\<in>set [[97], [98]]. \<exists>i. FindServer_slot (slot_of k) two_servers = Some i \<and> ready (cl_servers two_servers i) \<and>
      pipe_answer (next_conn (cl_servers two_servers i)) [bytes ''get'', k] =
        (case [[97] \<mapsto> [120]] k of None \<Rightarrow> nil_reply | Some v \<Rightarrow> string_reply v)"
    using find_ab by (simp add: slots_ab pipe_answer_def) (simp add: two_servers_def ready_def)
  ultimately show ?thesis
    using redis_mget [of pipe_hiredis "\<lambda>w. w" pipe_answer "\<lambda>_. []" two_servers "[[97], [98]]" "[[97] \<mapsto> [120]]" "\<lambda>_ s. s" "\<lambda>_. 0" "\<lambda>i. i" "[]"]
    by (simp add: two_servers_def)
qed

end
