(* ===== verification/Redis_Commands.thy ===== *)
theory Redis_Commands
  imports Redis_Pipeline
begin

text \<open>
  The interface of \<open>CRedisClient\<close> (\<open>source/redis_client/redisclient.cpp\<close>): one method per redis command, with a
  pipeline in which the command is queued (\<open>ppLine\<close>) or without, and the methods that are more than one
  command: \<open>Keys\<close>, \<open>Rename\<close>, \<open>Renamenx\<close>, \<open>Initialize\<close>. A container parameter is the list of its elements in
  the order of its iterators. A pointer for the result is an option, \<open>None\<close> the null pointer.
\<close>

type_synonym ('a, 'w) direct = "CRedisClient \<Rightarrow> 'w \<Rightarrow> (int \<times> 'a \<times> CRedisPipeline option \<times> CRedisClient \<times> 'w) result"

type_synonym ('a, 'w) request = "CRedisPipeline option \<Rightarrow> ('a, 'w) direct"

text \<open>How the C++ library prints and reads floating point numbers is an argument of the methods that have some.\<close>

record 'd double_io =
  ConvertToString :: "'d \<Rightarrow> cstr"
  atof :: "cstr \<Rightarrow> 'd"

definition BIND_MAP :: "(cstr \<rightharpoonup> cstr) option \<Rightarrow> redisReply \<Rightarrow> (int \<times> (cstr \<rightharpoonup> cstr) option) result" where
  "BIND_MAP val r = FetchMap r val"

definition BIND_TIME :: "(int \<times> int) option \<Rightarrow> redisReply \<Rightarrow> (int \<times> (int \<times> int) option) result" where
  "BIND_TIME val r = FetchTime r val"

section \<open>Methods with one command\<close>

definition Dump :: "'w hiredis \<Rightarrow> envt \<Rightarrow> nat \<Rightarrow> cstr \<Rightarrow> cstr option \<Rightarrow> (cstr option, 'w) request" where
  "Dump h env rnd strKey pstrVal ppLine =
     ExecuteLine h env rnd (bytes ''dump'') (SetArgs_s strKey) (slot_of strKey) ppLine (BIND_STR pstrVal) FUNC_DEF_CONV pstrVal"

definition Exists :: "'w hiredis \<Rightarrow> envt \<Rightarrow> nat \<Rightarrow> cstr \<Rightarrow> int option \<Rightarrow> (int option, 'w) request" where
  "Exists h env rnd strKey pnVal ppLine =
     ExecuteLine h env rnd (bytes ''exists'') (SetArgs_s strKey) (slot_of strKey) ppLine (BIND_INT pnVal) FUNC_DEF_CONV pnVal"

definition Expire :: "'w hiredis \<Rightarrow> envt \<Rightarrow> nat \<Rightarrow> cstr \<Rightarrow> int \<Rightarrow> int option \<Rightarrow> (int option, 'w) request" where
  "Expire h env rnd strKey nSec pnVal ppLine =
     ExecuteLine h env rnd (bytes ''expire'') (SetArgs_ss strKey (print_int nSec)) (slot_of strKey) ppLine (BIND_INT pnVal) FUNC_DEF_CONV pnVal"

definition Expireat :: "'w hiredis \<Rightarrow> envt \<Rightarrow> nat \<Rightarrow> cstr \<Rightarrow> int \<Rightarrow> int option \<Rightarrow> (int option, 'w) request" where
  "Expireat h env rnd strKey nTime pnVal ppLine =
     ExecuteLine h env rnd (bytes ''expireat'') (SetArgs_ss strKey (print_int nTime)) (slot_of strKey) ppLine (BIND_INT pnVal) FUNC_DEF_CONV pnVal"

definition Persist :: "'w hiredis \<Rightarrow> envt \<Rightarrow> nat \<Rightarrow> cstr \<Rightarrow> int option \<Rightarrow> (int option, 'w) request" where
  "Persist h env rnd strKey pnVal ppLine =
     ExecuteLine h env rnd (bytes ''persist'') (SetArgs_s strKey) (slot_of strKey) ppLine (BIND_INT pnVal) FUNC_DEF_CONV pnVal"

definition Pexpire :: "'w hiredis \<Rightarrow> envt \<Rightarrow> nat \<Rightarrow> cstr \<Rightarrow> int \<Rightarrow> int option \<Rightarrow> (int option, 'w) request" where
  "Pexpire h env rnd strKey nMilliSec pnVal ppLine =
     ExecuteLine h env rnd (bytes ''pexpire'') (SetArgs_ss strKey (print_int nMilliSec)) (slot_of strKey) ppLine (BIND_INT pnVal) FUNC_DEF_CONV pnVal"

definition Pexpireat :: "'w hiredis \<Rightarrow> envt \<Rightarrow> nat \<Rightarrow> cstr \<Rightarrow> int \<Rightarrow> int option \<Rightarrow> (int option, 'w) request" where
  "Pexpireat h env rnd strKey nMilliTime pnVal ppLine =
     ExecuteLine h env rnd (bytes ''pexpireat'') (SetArgs_ss strKey (print_int nMilliTime)) (slot_of strKey) ppLine (BIND_INT pnVal) FUNC_DEF_CONV pnVal"

definition Pttl :: "'w hiredis \<Rightarrow> envt \<Rightarrow> nat \<Rightarrow> cstr \<Rightarrow> int option \<Rightarrow> (int option, 'w) request" where
  "Pttl h env rnd strKey pnVal ppLine =
     ExecuteLine h env rnd (bytes ''pttl'') (SetArgs_s strKey) (slot_of strKey) ppLine (BIND_INT pnVal) FUNC_DEF_CONV pnVal"

definition Randomkey :: "'w hiredis \<Rightarrow> envt \<Rightarrow> nat \<Rightarrow> cstr option \<Rightarrow> (cstr option, 'w) request" where
  "Randomkey h env rnd pstrVal ppLine =
     ExecuteLine h env rnd (bytes ''randomkey'') SetArgs (- 1) ppLine (BIND_STR pstrVal) FUNC_DEF_CONV pstrVal"

definition Restore :: "'w hiredis \<Rightarrow> envt \<Rightarrow> nat \<Rightarrow> cstr \<Rightarrow> int \<Rightarrow> cstr \<Rightarrow> (cstr option, 'w) request" where
  "Restore h env rnd strKey nTtl strVal ppLine =
     ExecuteLine h env rnd (bytes ''restore'') (SetArgs_sss strKey (print_int nTtl) strVal) (slot_of strKey) ppLine (BIND_STR None) (StuResConv (bytes ''OK'')) None"

definition Ttl :: "'w hiredis \<Rightarrow> envt \<Rightarrow> nat \<Rightarrow> cstr \<Rightarrow> int option \<Rightarrow> (int option, 'w) request" where
  "Ttl h env rnd strKey pnVal ppLine =
     ExecuteLine h env rnd (bytes ''ttl'') (SetArgs_s strKey) (slot_of strKey) ppLine (BIND_INT pnVal) FUNC_DEF_CONV pnVal"

definition Type :: "'w hiredis \<Rightarrow> envt \<Rightarrow> nat \<Rightarrow> cstr \<Rightarrow> cstr option \<Rightarrow> (cstr option, 'w) request" where
  "Type h env rnd strKey pstrVal ppLine =
     ExecuteLine h env rnd (bytes ''type'') (SetArgs_s strKey) (slot_of strKey) ppLine (BIND_STR pstrVal) FUNC_DEF_CONV pstrVal"

definition Append :: "'w hiredis \<Rightarrow> envt \<Rightarrow> nat \<Rightarrow> cstr \<Rightarrow> cstr \<Rightarrow> int option \<Rightarrow> (int option, 'w) request" where
  "Append h env rnd strKey strVal pnVal ppLine =
     ExecuteLine h env rnd (bytes ''append'') (SetArgs_ss strKey strVal) (slot_of strKey) ppLine (BIND_INT pnVal) FUNC_DEF_CONV pnVal"

definition Bitcount :: "'w hiredis \<Rightarrow> envt \<Rightarrow> nat \<Rightarrow> cstr \<Rightarrow> int option \<Rightarrow> (int option, 'w) request" where
  "Bitcount h env rnd strKey pnVal ppLine =
     ExecuteLine h env rnd (bytes ''bitcount'') (SetArgs_s strKey) (slot_of strKey) ppLine (BIND_INT pnVal) FUNC_DEF_CONV pnVal"

definition Bitcount_range :: "'w hiredis \<Rightarrow> envt \<Rightarrow> nat \<Rightarrow> cstr \<Rightarrow> int \<Rightarrow> int \<Rightarrow> int option \<Rightarrow> (int option, 'w) request" where
  "Bitcount_range h env rnd strKey nStart nEnd pnVal ppLine =
     ExecuteLine h env rnd (bytes ''bitcount'') (SetArgs_sss strKey (print_int nStart) (print_int nEnd)) (slot_of strKey) ppLine (BIND_INT pnVal) FUNC_DEF_CONV pnVal"

definition Bitop :: "'w hiredis \<Rightarrow> envt \<Rightarrow> nat \<Rightarrow> cstr \<Rightarrow> cstr \<Rightarrow> cstr list \<Rightarrow> int option \<Rightarrow> (int option, 'w) request" where
  "Bitop h env rnd strDestKey strOp vecKey pnVal ppLine =
     ExecuteLine h env rnd (bytes ''bitop'') (SetArgs_ssv strOp strDestKey vecKey) (slot_of strDestKey) ppLine (BIND_INT pnVal) FUNC_DEF_CONV pnVal"

definition Bitpos :: "'w hiredis \<Rightarrow> envt \<Rightarrow> nat \<Rightarrow> cstr \<Rightarrow> int \<Rightarrow> int option \<Rightarrow> (int option, 'w) request" where
  "Bitpos h env rnd strKey nBitVal pnVal ppLine =
     ExecuteLine h env rnd (bytes ''bitpos'') (SetArgs_ss strKey (print_int nBitVal)) (slot_of strKey) ppLine (BIND_INT pnVal) FUNC_DEF_CONV pnVal"

definition Bitpos_range :: "'w hiredis \<Rightarrow> envt \<Rightarrow> nat \<Rightarrow> cstr \<Rightarrow> int \<Rightarrow> int \<Rightarrow> int \<Rightarrow> int option \<Rightarrow> (int option, 'w) request" where
  "Bitpos_range h env rnd strKey nBitVal nStart nEnd pnVal ppLine =
     ExecuteLine h env rnd (bytes ''bitpos'') (SetArgs_ssss strKey (print_int nBitVal) (print_int nStart) (print_int nEnd)) (slot_of strKey) ppLine (BIND_INT pnVal) FUNC_DEF_CONV pnVal"

definition Decr :: "'w hiredis \<Rightarrow> envt \<Rightarrow> nat \<Rightarrow> cstr \<Rightarrow> int option \<Rightarrow> (int option, 'w) request" where
  "Decr h env rnd strKey pnVal ppLine =
     ExecuteLine h env rnd (bytes ''decr'') (SetArgs_s strKey) (slot_of strKey) ppLine (BIND_INT pnVal) FUNC_DEF_CONV pnVal"

definition Decrby :: "'w hiredis \<Rightarrow> envt \<Rightarrow> nat \<Rightarrow> cstr \<Rightarrow> int \<Rightarrow> int option \<Rightarrow> (int option, 'w) request" where
  "Decrby h env rnd strKey nDecr pnVal ppLine =
     ExecuteLine h env rnd (bytes ''decrby'') (SetArgs_ss strKey (print_int nDecr)) (slot_of strKey) ppLine (BIND_INT pnVal) FUNC_DEF_CONV pnVal"

definition Getbit :: "'w hiredis \<Rightarrow> envt \<Rightarrow> nat \<Rightarrow> cstr \<Rightarrow> int \<Rightarrow> int option \<Rightarrow> (int option, 'w) request" where
  "Getbit h env rnd strKey nOffset pnVal ppLine =
     ExecuteLine h env rnd (bytes ''getbit'') (SetArgs_ss strKey (print_int nOffset)) (slot_of strKey) ppLine (BIND_INT pnVal) FUNC_DEF_CONV pnVal"

definition Getrange :: "'w hiredis \<Rightarrow> envt \<Rightarrow> nat \<Rightarrow> cstr \<Rightarrow> int \<Rightarrow> int \<Rightarrow> cstr option \<Rightarrow> (cstr option, 'w) request" where
  "Getrange h env rnd strKey nStart nStop pstrVal ppLine =
     ExecuteLine h env rnd (bytes ''getrange'') (SetArgs_sss strKey (print_int nStart) (print_int nStop)) (slot_of strKey) ppLine (BIND_STR pstrVal) FUNC_DEF_CONV pstrVal"

definition Incr :: "'w hiredis \<Rightarrow> envt \<Rightarrow> nat \<Rightarrow> cstr \<Rightarrow> int option \<Rightarrow> (int option, 'w) request" where
  "Incr h env rnd strKey pnVal ppLine =
     ExecuteLine h env rnd (bytes ''incr'') (SetArgs_s strKey) (slot_of strKey) ppLine (BIND_INT pnVal) FUNC_DEF_CONV pnVal"

definition Psetex :: "'w hiredis \<Rightarrow> envt \<Rightarrow> nat \<Rightarrow> cstr \<Rightarrow> int \<Rightarrow> cstr \<Rightarrow> (cstr option, 'w) request" where
  "Psetex h env rnd strKey nMilliSec strVal ppLine =
     ExecuteLine h env rnd (bytes ''psetex'') (SetArgs_sss strKey (print_int nMilliSec) strVal) (slot_of strKey) ppLine (BIND_STR None) (StuResConv (bytes ''OK'')) None"

definition Setbit :: "'w hiredis \<Rightarrow> envt \<Rightarrow> nat \<Rightarrow> cstr \<Rightarrow> int \<Rightarrow> bool \<Rightarrow> (int option, 'w) request" where
  "Setbit h env rnd strKey nOffset bVal ppLine =
     ExecuteLine h env rnd (bytes ''setbit'') (SetArgs_sss strKey (print_int nOffset) (print_int (if bVal then 1 else 0))) (slot_of strKey) ppLine (BIND_INT None) FUNC_DEF_CONV None"

definition Setex :: "'w hiredis \<Rightarrow> envt \<Rightarrow> nat \<Rightarrow> cstr \<Rightarrow> int \<Rightarrow> cstr \<Rightarrow> (cstr option, 'w) request" where
  "Setex h env rnd strKey nSec strVal ppLine =
     ExecuteLine h env rnd (bytes ''setex'') (SetArgs_sss strKey (print_int nSec) strVal) (slot_of strKey) ppLine (BIND_STR None) (StuResConv (bytes ''OK'')) None"

definition Setrange :: "'w hiredis \<Rightarrow> envt \<Rightarrow> nat \<Rightarrow> cstr \<Rightarrow> int \<Rightarrow> cstr \<Rightarrow> int option \<Rightarrow> (int option, 'w) request" where
  "Setrange h env rnd strKey nOffset strVal pnVal ppLine =
     ExecuteLine h env rnd (bytes ''setrange'') (SetArgs_sss strKey (print_int nOffset) strVal) (slot_of strKey) ppLine (BIND_INT pnVal) FUNC_DEF_CONV pnVal"

definition Strlen :: "'w hiredis \<Rightarrow> envt \<Rightarrow> nat \<Rightarrow> cstr \<Rightarrow> int option \<Rightarrow> (int option, 'w) request" where
  "Strlen h env rnd strKey pnVal ppLine =
     ExecuteLine h env rnd (bytes ''strlen'') (SetArgs_s strKey) (slot_of strKey) ppLine (BIND_INT pnVal) FUNC_DEF_CONV pnVal"

definition Blpop :: "'w hiredis \<Rightarrow> envt \<Rightarrow> nat \<Rightarrow> cstr \<Rightarrow> int \<Rightarrow> cstr list option \<Rightarrow> (cstr list option, 'w) direct" where
  "Blpop h env rnd strKey nTimeout pvecVal =
     ExecuteLine h env rnd (bytes ''blpop'') (SetArgs_ss strKey (print_int nTimeout)) (slot_of strKey) None (BIND_VSTR pvecVal) FUNC_DEF_CONV pvecVal"

definition Brpop :: "'w hiredis \<Rightarrow> envt \<Rightarrow> nat \<Rightarrow> cstr \<Rightarrow> int \<Rightarrow> cstr list option \<Rightarrow> (cstr list option, 'w) direct" where
  "Brpop h env rnd strKey nTimeout pvecVal =
     ExecuteLine h env rnd (bytes ''brpop'') (SetArgs_ss strKey (print_int nTimeout)) (slot_of strKey) None (BIND_VSTR pvecVal) FUNC_DEF_CONV pvecVal"

definition Lindex :: "'w hiredis \<Rightarrow> envt \<Rightarrow> nat \<Rightarrow> cstr \<Rightarrow> int \<Rightarrow> cstr option \<Rightarrow> (cstr option, 'w) request" where
  "Lindex h env rnd strKey nIndex pstrVal ppLine =
     ExecuteLine h env rnd (bytes ''lindex'') (SetArgs_ss strKey (print_int nIndex)) (slot_of strKey) ppLine (BIND_STR pstrVal) FUNC_DEF_CONV pstrVal"

definition Linsert :: "'w hiredis \<Rightarrow> envt \<Rightarrow> nat \<Rightarrow> cstr \<Rightarrow> cstr \<Rightarrow> cstr \<Rightarrow> cstr \<Rightarrow> int option \<Rightarrow> (int option, 'w) request" where
  "Linsert h env rnd strKey strPos strPivot strVal pnVal ppLine =
     ExecuteLine h env rnd (bytes ''linsert'') (SetArgs_ssss strKey strPos strPivot strVal) (slot_of strKey) ppLine (BIND_INT pnVal) FUNC_DEF_CONV pnVal"

definition Llen :: "'w hiredis \<Rightarrow> envt \<Rightarrow> nat \<Rightarrow> cstr \<Rightarrow> int option \<Rightarrow> (int option, 'w) request" where
  "Llen h env rnd strKey pnVal ppLine =
     ExecuteLine h env rnd (bytes ''llen'') (SetArgs_s strKey) (slot_of strKey) ppLine (BIND_INT pnVal) FUNC_DEF_CONV pnVal"

definition Lpop :: "'w hiredis \<Rightarrow> envt \<Rightarrow> nat \<Rightarrow> cstr \<Rightarrow> cstr option \<Rightarrow> (cstr option, 'w) request" where
  "Lpop h env rnd strKey pstrVal ppLine =
     ExecuteLine h env rnd (bytes ''lpop'') (SetArgs_s strKey) (slot_of strKey) ppLine (BIND_STR pstrVal) FUNC_DEF_CONV pstrVal"

definition Lpush :: "'w hiredis \<Rightarrow> envt \<Rightarrow> nat \<Rightarrow> cstr \<Rightarrow> cstr \<Rightarrow> int option \<Rightarrow> (int option, 'w) request" where
  "Lpush h env rnd strKey strVal pnVal ppLine =
     ExecuteLine h env rnd (bytes ''lpush'') (SetArgs_ss strKey strVal) (slot_of strKey) ppLine (BIND_INT pnVal) FUNC_DEF_CONV pnVal"

definition Lpushx :: "'w hiredis \<Rightarrow> envt \<Rightarrow> nat \<Rightarrow> cstr \<Rightarrow> cstr \<Rightarrow> int option \<Rightarrow> (int option, 'w) request" where
  "Lpushx h env rnd strKey strVal pnVal ppLine =
     ExecuteLine h env rnd (bytes ''lpushx'') (SetArgs_ss strKey strVal) (slot_of strKey) ppLine (BIND_INT pnVal) (IntResConv RC_REPLY_ERR 0) pnVal"

definition Lrange :: "'w hiredis \<Rightarrow> envt \<Rightarrow> nat \<Rightarrow> cstr \<Rightarrow> int \<Rightarrow> int \<Rightarrow> cstr list option \<Rightarrow> (cstr list option, 'w) request" where
  "Lrange h env rnd strKey nStart nStop pvecVal ppLine =
     ExecuteLine h env rnd (bytes ''lrange'') (SetArgs_sss strKey (print_int nStart) (print_int nStop)) (slot_of strKey) ppLine (BIND_VSTR pvecVal) FUNC_DEF_CONV pvecVal"

definition Lrem :: "'w hiredis \<Rightarrow> envt \<Rightarrow> nat \<Rightarrow> cstr \<Rightarrow> int \<Rightarrow> cstr \<Rightarrow> int option \<Rightarrow> (int option, 'w) request" where
  "Lrem h env rnd strKey nCount strVal pnVal ppLine =
     ExecuteLine h env rnd (bytes ''lrem'') (SetArgs_sss strKey (print_int nCount) strVal) (slot_of strKey) ppLine (BIND_INT pnVal) FUNC_DEF_CONV pnVal"

definition Lset :: "'w hiredis \<Rightarrow> envt \<Rightarrow> nat \<Rightarrow> cstr \<Rightarrow> int \<Rightarrow> cstr \<Rightarrow> (cstr option, 'w) request" where
  "Lset h env rnd strKey nIndex strVal ppLine =
     ExecuteLine h env rnd (bytes ''lset'') (SetArgs_sss strKey (print_int nIndex) strVal) (slot_of strKey) ppLine (BIND_STR None) (StuResConv (bytes ''OK'')) None"

definition redis_Ltrim :: "'w hiredis \<Rightarrow> envt \<Rightarrow> nat \<Rightarrow> cstr \<Rightarrow> int \<Rightarrow> int \<Rightarrow> (cstr option, 'w) request" where
  "redis_Ltrim h env rnd strKey nStart nStop ppLine =
     ExecuteLine h env rnd (bytes ''ltrim'') (SetArgs_sss strKey (print_int nStart) (print_int nStop)) (slot_of strKey) ppLine (BIND_STR None) (StuResConv (bytes ''OK'')) None"

definition Rpop :: "'w hiredis \<Rightarrow> envt \<Rightarrow> nat \<Rightarrow> cstr \<Rightarrow> cstr option \<Rightarrow> (cstr option, 'w) request" where
  "Rpop h env rnd strKey pstrVal ppLine =
     ExecuteLine h env rnd (bytes ''rpop'') (SetArgs_s strKey) (slot_of strKey) ppLine (BIND_STR pstrVal) FUNC_DEF_CONV pstrVal"

definition Rpush :: "'w hiredis \<Rightarrow> envt \<Rightarrow> nat \<Rightarrow> cstr \<Rightarrow> cstr \<Rightarrow> int option \<Rightarrow> (int option, 'w) request" where
  "Rpush h env rnd strKey strVal pnVal ppLine =
     ExecuteLine h env rnd (bytes ''rpush'') (SetArgs_ss strKey strVal) (slot_of strKey) ppLine (BIND_INT pnVal) FUNC_DEF_CONV pnVal"

definition Rpushx :: "'w hiredis \<Rightarrow> envt \<Rightarrow> nat \<Rightarrow> cstr \<Rightarrow> cstr \<Rightarrow> int option \<Rightarrow> (int option, 'w) request" where
  "Rpushx h env rnd strKey strVal pnVal ppLine =
     ExecuteLine h env rnd (bytes ''rpushx'') (SetArgs_ss strKey strVal) (slot_of strKey) ppLine (BIND_INT pnVal) (IntResConv RC_REPLY_ERR 0) pnVal"

definition Sadd :: "'w hiredis \<Rightarrow> envt \<Rightarrow> nat \<Rightarrow> cstr \<Rightarrow> cstr \<Rightarrow> int option \<Rightarrow> (int option, 'w) request" where
  "Sadd h env rnd strKey strVal pnVal ppLine =
     ExecuteLine h env rnd (bytes ''sadd'') (SetArgs_ss strKey strVal) (slot_of strKey) ppLine (BIND_INT pnVal) FUNC_DEF_CONV pnVal"

definition Scard :: "'w hiredis \<Rightarrow> envt \<Rightarrow> nat \<Rightarrow> cstr \<Rightarrow> int option \<Rightarrow> (int option, 'w) request" where
  "Scard h env rnd strKey pnVal ppLine =
     ExecuteLine h env rnd (bytes ''scard'') (SetArgs_s strKey) (slot_of strKey) ppLine (BIND_INT pnVal) FUNC_DEF_CONV pnVal"

definition Sismember :: "'w hiredis \<Rightarrow> envt \<Rightarrow> nat \<Rightarrow> cstr \<Rightarrow> cstr \<Rightarrow> int option \<Rightarrow> (int option, 'w) request" where
  "Sismember h env rnd strKey strVal pnVal ppLine =
     ExecuteLine h env rnd (bytes ''sismember'') (SetArgs_ss strKey strVal) (slot_of strKey) ppLine (BIND_INT pnVal) FUNC_DEF_CONV pnVal"

definition Smembers :: "'w hiredis \<Rightarrow> envt \<Rightarrow> nat \<Rightarrow> cstr \<Rightarrow> cstr list option \<Rightarrow> (cstr list option, 'w) request" where
  "Smembers h env rnd strKey pvecVal ppLine =
     ExecuteLine h env rnd (bytes ''smembers'') (SetArgs_s strKey) (slot_of strKey) ppLine (BIND_VSTR pvecVal) FUNC_DEF_CONV pvecVal"

definition Spop :: "'w hiredis \<Rightarrow> envt \<Rightarrow> nat \<Rightarrow> cstr \<Rightarrow> cstr option \<Rightarrow> (cstr option, 'w) request" where
  "Spop h env rnd strKey pstrVal ppLine =
     ExecuteLine h env rnd (bytes ''spop'') (SetArgs_s strKey) (slot_of strKey) ppLine (BIND_STR pstrVal) FUNC_DEF_CONV pstrVal"

definition Srem :: "'w hiredis \<Rightarrow> envt \<Rightarrow> nat \<Rightarrow> cstr \<Rightarrow> cstr \<Rightarrow> int option \<Rightarrow> (int option, 'w) request" where
  "Srem h env rnd strKey strVal pnVal ppLine =
     ExecuteLine h env rnd (bytes ''srem'') (SetArgs_ss strKey strVal) (slot_of strKey) ppLine (BIND_INT pnVal) FUNC_DEF_CONV pnVal"

definition Srem_vec :: "'w hiredis \<Rightarrow> envt \<Rightarrow> nat \<Rightarrow> cstr \<Rightarrow> cstr list \<Rightarrow> int option \<Rightarrow> (int option, 'w) request" where
  "Srem_vec h env rnd strKey vecVal pnVal ppLine =
     ExecuteLine h env rnd (bytes ''srem'') (SetArgs_sv strKey vecVal) (slot_of strKey) ppLine (BIND_INT pnVal) FUNC_DEF_CONV pnVal"

definition Hdel :: "'w hiredis \<Rightarrow> envt \<Rightarrow> nat \<Rightarrow> cstr \<Rightarrow> cstr \<Rightarrow> int option \<Rightarrow> (int option, 'w) request" where
  "Hdel h env rnd strKey strField pnVal ppLine =
     ExecuteLine h env rnd (bytes ''hdel'') (SetArgs_ss strKey strField) (slot_of strKey) ppLine (BIND_INT pnVal) FUNC_DEF_CONV pnVal"

definition Hexists :: "'w hiredis \<Rightarrow> envt \<Rightarrow> nat \<Rightarrow> cstr \<Rightarrow> cstr \<Rightarrow> int option \<Rightarrow> (int option, 'w) request" where
  "Hexists h env rnd strKey strField pnVal ppLine =
     ExecuteLine h env rnd (bytes ''hexists'') (SetArgs_ss strKey strField) (slot_of strKey) ppLine (BIND_INT pnVal) FUNC_DEF_CONV pnVal"

definition Hget :: "'w hiredis \<Rightarrow> envt \<Rightarrow> nat \<Rightarrow> cstr \<Rightarrow> cstr \<Rightarrow> cstr option \<Rightarrow> (cstr option, 'w) request" where
  "Hget h env rnd strKey strField pstrVal ppLine =
     ExecuteLine h env rnd (bytes ''hget'') (SetArgs_ss strKey strField) (slot_of strKey) ppLine (BIND_STR pstrVal) FUNC_DEF_CONV pstrVal"

definition Hgetall :: "'w hiredis \<Rightarrow> envt \<Rightarrow> nat \<Rightarrow> cstr \<Rightarrow> (cstr \<rightharpoonup> cstr) option \<Rightarrow> ((cstr \<rightharpoonup> cstr) option, 'w) request" where
  "Hgetall h env rnd strKey pmapFv ppLine =
     ExecuteLine h env rnd (bytes ''hgetall'') (SetArgs_s strKey) (slot_of strKey) ppLine (BIND_MAP pmapFv) FUNC_DEF_CONV pmapFv"

definition Hincrby :: "'w hiredis \<Rightarrow> envt \<Rightarrow> nat \<Rightarrow> cstr \<Rightarrow> cstr \<Rightarrow> int \<Rightarrow> int option \<Rightarrow> (int option, 'w) request" where
  "Hincrby h env rnd strKey strField nIncr pnVal ppLine =
     ExecuteLine h env rnd (bytes ''hincrby'') (SetArgs_sss strKey strField (print_int nIncr)) (slot_of strKey) ppLine (BIND_INT pnVal) FUNC_DEF_CONV pnVal"

definition Hkeys :: "'w hiredis \<Rightarrow> envt \<Rightarrow> nat \<Rightarrow> cstr \<Rightarrow> cstr list option \<Rightarrow> (cstr list option, 'w) request" where
  "Hkeys h env rnd strKey pvecVal ppLine =
     ExecuteLine h env rnd (bytes ''hkeys'') (SetArgs_s strKey) (slot_of strKey) ppLine (BIND_VSTR pvecVal) FUNC_DEF_CONV pvecVal"

definition Hlen :: "'w hiredis \<Rightarrow> envt \<Rightarrow> nat \<Rightarrow> cstr \<Rightarrow> int option \<Rightarrow> (int option, 'w) request" where
  "Hlen h env rnd strKey pnVal ppLine =
     ExecuteLine h env rnd (bytes ''hlen'') (SetArgs_s strKey) (slot_of strKey) ppLine (BIND_INT pnVal) FUNC_DEF_CONV pnVal"

definition Hmget :: "'w hiredis \<Rightarrow> envt \<Rightarrow> nat \<Rightarrow> cstr \<Rightarrow> cstr list \<Rightarrow> cstr list option \<Rightarrow> (cstr list option, 'w) request" where
  "Hmget h env rnd strKey vecField pvecVal ppLine =
     ExecuteLine h env rnd (bytes ''hmget'') (SetArgs_sv strKey vecField) (slot_of strKey) ppLine (BIND_VSTR pvecVal) FUNC_DEF_CONV pvecVal"

definition Hmset_map :: "'w hiredis \<Rightarrow> envt \<Rightarrow> nat \<Rightarrow> cstr \<Rightarrow> (cstr \<times> cstr) list \<Rightarrow> (cstr option, 'w) request" where
  "Hmset_map h env rnd strKey mapFv ppLine =
     ExecuteLine h env rnd (bytes ''hmset'') (SetArgs_sm strKey mapFv) (slot_of strKey) ppLine (BIND_STR None) (StuResConv (bytes ''OK'')) None"

definition Hset :: "'w hiredis \<Rightarrow> envt \<Rightarrow> nat \<Rightarrow> cstr \<Rightarrow> cstr \<Rightarrow> cstr \<Rightarrow> (int option, 'w) request" where
  "Hset h env rnd strKey strField strVal ppLine =
     ExecuteLine h env rnd (bytes ''hset'') (SetArgs_sss strKey strField strVal) (slot_of strKey) ppLine (BIND_INT None) FUNC_DEF_CONV None"

definition Hsetnx :: "'w hiredis \<Rightarrow> envt \<Rightarrow> nat \<Rightarrow> cstr \<Rightarrow> cstr \<Rightarrow> cstr \<Rightarrow> (int option, 'w) request" where
  "Hsetnx h env rnd strKey strField strVal ppLine =
     ExecuteLine h env rnd (bytes ''hsetnx'') (SetArgs_sss strKey strField strVal) (slot_of strKey) ppLine (BIND_INT None) (IntResConv RC_REPLY_ERR 0) None"

definition Hvals :: "'w hiredis \<Rightarrow> envt \<Rightarrow> nat \<Rightarrow> cstr \<Rightarrow> cstr list option \<Rightarrow> (cstr list option, 'w) request" where
  "Hvals h env rnd strKey pvecVal ppLine =
     ExecuteLine h env rnd (bytes ''hvals'') (SetArgs_s strKey) (slot_of strKey) ppLine (BIND_VSTR pvecVal) FUNC_DEF_CONV pvecVal"

definition Zadd :: "'w hiredis \<Rightarrow> envt \<Rightarrow> nat \<Rightarrow> 'd double_io \<Rightarrow> cstr \<Rightarrow> 'd \<Rightarrow> cstr \<Rightarrow> int option \<Rightarrow> (int option, 'w) request" where
  "Zadd h env rnd io strKey dScore strElem pnVal ppLine =
     ExecuteLine h env rnd (bytes ''zadd'') (SetArgs_sss strKey (ConvertToString io dScore) strElem) (slot_of strKey) ppLine (BIND_INT pnVal) FUNC_DEF_CONV pnVal"

definition Zcard :: "'w hiredis \<Rightarrow> envt \<Rightarrow> nat \<Rightarrow> cstr \<Rightarrow> int option \<Rightarrow> (int option, 'w) request" where
  "Zcard h env rnd strKey pnVal ppLine =
     ExecuteLine h env rnd (bytes ''zcard'') (SetArgs_s strKey) (slot_of strKey) ppLine (BIND_INT pnVal) FUNC_DEF_CONV pnVal"

definition Zcount :: "'w hiredis \<Rightarrow> envt \<Rightarrow> nat \<Rightarrow> 'd double_io \<Rightarrow> cstr \<Rightarrow> 'd \<Rightarrow> 'd \<Rightarrow> int option \<Rightarrow> (int option, 'w) request" where
  "Zcount h env rnd io strKey dMin dMax pnVal ppLine =
     ExecuteLine h env rnd (bytes ''zcount'') (SetArgs_sss strKey (ConvertToString io dMin) (ConvertToString io dMax)) (slot_of strKey) ppLine (BIND_INT pnVal) FUNC_DEF_CONV pnVal"

definition Zlexcount :: "'w hiredis \<Rightarrow> envt \<Rightarrow> nat \<Rightarrow> cstr \<Rightarrow> cstr \<Rightarrow> cstr \<Rightarrow> int option \<Rightarrow> (int option, 'w) request" where
  "Zlexcount h env rnd strKey strMin strMax pnVal ppLine =
     ExecuteLine h env rnd (bytes ''zlexcount'') (SetArgs_sss strKey strMin strMax) (slot_of strKey) ppLine (BIND_INT pnVal) FUNC_DEF_CONV pnVal"

definition Zrange :: "'w hiredis \<Rightarrow> envt \<Rightarrow> nat \<Rightarrow> cstr \<Rightarrow> int \<Rightarrow> int \<Rightarrow> cstr list option \<Rightarrow> (cstr list option, 'w) request" where
  "Zrange h env rnd strKey nStart nStop pvecVal ppLine =
     ExecuteLine h env rnd (bytes ''zrange'') (SetArgs_sss strKey (print_int nStart) (print_int nStop)) (slot_of strKey) ppLine (BIND_VSTR pvecVal) FUNC_DEF_CONV pvecVal"

definition Zrangebylex :: "'w hiredis \<Rightarrow> envt \<Rightarrow> nat \<Rightarrow> cstr \<Rightarrow> cstr \<Rightarrow> cstr \<Rightarrow> cstr list option \<Rightarrow> (cstr list option, 'w) request" where
  "Zrangebylex h env rnd strKey strMin strMax pvecVal ppLine =
     ExecuteLine h env rnd (bytes ''zrangebylex'') (SetArgs_sss strKey strMin strMax) (slot_of strKey) ppLine (BIND_VSTR pvecVal) FUNC_DEF_CONV pvecVal"

definition Zrangebyscore :: "'w hiredis \<Rightarrow> envt \<Rightarrow> nat \<Rightarrow> 'd double_io \<Rightarrow> cstr \<Rightarrow> 'd \<Rightarrow> 'd \<Rightarrow> cstr list option \<Rightarrow> (cstr list option, 'w) request" where
  "Zrangebyscore h env rnd io strKey dMin dMax pvecVal ppLine =
     ExecuteLine h env rnd (bytes ''zrangebyscore'') (SetArgs_sss strKey (ConvertToString io dMin) (ConvertToString io dMax)) (slot_of strKey) ppLine (BIND_VSTR pvecVal) FUNC_DEF_CONV pvecVal"

definition Zrank :: "'w hiredis \<Rightarrow> envt \<Rightarrow> nat \<Rightarrow> cstr \<Rightarrow> cstr \<Rightarrow> int option \<Rightarrow> (int option, 'w) request" where
  "Zrank h env rnd strKey strElem pnVal ppLine =
     ExecuteLine h env rnd (bytes ''zrank'') (SetArgs_ss strKey strElem) (slot_of strKey) ppLine (BIND_INT pnVal) FUNC_DEF_CONV pnVal"

definition Zrem :: "'w hiredis \<Rightarrow> envt \<Rightarrow> nat \<Rightarrow> cstr \<Rightarrow> cstr \<Rightarrow> int option \<Rightarrow> (int option, 'w) request" where
  "Zrem h env rnd strKey strElem pnVal ppLine =
     ExecuteLine h env rnd (bytes ''zrem'') (SetArgs_ss strKey strElem) (slot_of strKey) ppLine (BIND_INT pnVal) FUNC_DEF_CONV pnVal"

definition Zrem_vec :: "'w hiredis \<Rightarrow> envt \<Rightarrow> nat \<Rightarrow> cstr \<Rightarrow> cstr list \<Rightarrow> int option \<Rightarrow> (int option, 'w) request" where
  "Zrem_vec h env rnd strKey vecElem pnVal ppLine =
     ExecuteLine h env rnd (bytes ''zrem'') (SetArgs_sv strKey vecElem) (slot_of strKey) ppLine (BIND_INT pnVal) FUNC_DEF_CONV pnVal"

definition Zremrangebylex :: "'w hiredis \<Rightarrow> envt \<Rightarrow> nat \<Rightarrow> cstr \<Rightarrow> cstr \<Rightarrow> cstr \<Rightarrow> int option \<Rightarrow> (int option, 'w) request" where
  "Zremrangebylex h env rnd strKey strMin strMax pnVal ppLine =
     ExecuteLine h env rnd (bytes ''zremrangebylex'') (SetArgs_sss strKey strMin strMax) (slot_of strKey) ppLine (BIND_INT pnVal) FUNC_DEF_CONV pnVal"

definition Zremrangebyrank :: "'w hiredis \<Rightarrow> envt \<Rightarrow> nat \<Rightarrow> cstr \<Rightarrow> int \<Rightarrow> int \<Rightarrow> int option \<Rightarrow> (int option, 'w) request" where
  "Zremrangebyrank h env rnd strKey nStart nStop pnVal ppLine =
     ExecuteLine h env rnd (bytes ''zremrangebyrank'') (SetArgs_sss strKey (print_int nStart) (print_int nStop)) (slot_of strKey) ppLine (BIND_INT pnVal) FUNC_DEF_CONV pnVal"

definition Zremrangebyscore :: "'w hiredis \<Rightarrow> envt \<Rightarrow> nat \<Rightarrow> 'd double_io \<Rightarrow> cstr \<Rightarrow> 'd \<Rightarrow> 'd \<Rightarrow> int option \<Rightarrow> (int option, 'w) request" where
  "Zremrangebyscore h env rnd io strKey dMin dMax pnVal ppLine =
     ExecuteLine h env rnd (bytes ''zremrangebyscore'') (SetArgs_sss strKey (ConvertToString io dMin) (ConvertToString io dMax)) (slot_of strKey) ppLine (BIND_INT pnVal) FUNC_DEF_CONV pnVal"

definition Zrevrange :: "'w hiredis \<Rightarrow> envt \<Rightarrow> nat \<Rightarrow> cstr \<Rightarrow> int \<Rightarrow> int \<Rightarrow> cstr list option \<Rightarrow> (cstr list option, 'w) request" where
  "Zrevrange h env rnd strKey nStart nStop pvecVal ppLine =
     ExecuteLine h env rnd (bytes ''zrevrange'') (SetArgs_sss strKey (print_int nStart) (print_int nStop)) (slot_of strKey) ppLine (BIND_VSTR pvecVal) FUNC_DEF_CONV pvecVal"

definition Zrevrangebyscore :: "'w hiredis \<Rightarrow> envt \<Rightarrow> nat \<Rightarrow> 'd double_io \<Rightarrow> cstr \<Rightarrow> 'd \<Rightarrow> 'd \<Rightarrow> cstr list option \<Rightarrow> (cstr list option, 'w) request" where
  "Zrevrangebyscore h env rnd io strKey dMax dMin pvecVal ppLine =
     ExecuteLine h env rnd (bytes ''zrevrangebyscore'') (SetArgs_sss strKey (ConvertToString io dMax) (ConvertToString io dMin)) (slot_of strKey) ppLine (BIND_VSTR pvecVal) FUNC_DEF_CONV pvecVal"

definition Zrevrank :: "'w hiredis \<Rightarrow> envt \<Rightarrow> nat \<Rightarrow> cstr \<Rightarrow> cstr \<Rightarrow> int option \<Rightarrow> (int option, 'w) request" where
  "Zrevrank h env rnd strKey strElem pnVal ppLine =
     ExecuteLine h env rnd (bytes ''zrevrank'') (SetArgs_ss strKey strElem) (slot_of strKey) ppLine (BIND_INT pnVal) FUNC_DEF_CONV pnVal"

definition Time :: "'w hiredis \<Rightarrow> envt \<Rightarrow> nat \<Rightarrow> (int \<times> int) option \<Rightarrow> ((int \<times> int) option, 'w) request" where
  "Time h env rnd ptmVal ppLine =
     ExecuteLine h env rnd (bytes ''time'') SetArgs (- 1) ppLine (BIND_TIME ptmVal) FUNC_DEF_CONV ptmVal"

text \<open>\<open>string(''WITHSCORES'')\<close> is the last argument here.\<close>

definition Zrangewithscore ::
  "'w hiredis \<Rightarrow> envt \<Rightarrow> nat \<Rightarrow> cstr \<Rightarrow> int \<Rightarrow> int \<Rightarrow> (cstr \<rightharpoonup> cstr) option \<Rightarrow> ((cstr \<rightharpoonup> cstr) option, 'w) request" where
  "Zrangewithscore h env rnd strKey nStart nStop pmapVal ppLine =
     ExecuteLine h env rnd (bytes ''zrange'') (SetArgs_ssss strKey (print_int nStart) (print_int nStop) (bytes ''WITHSCORES''))
       (slot_of strKey) ppLine (BIND_MAP pmapVal) FUNC_DEF_CONV pmapVal"

text \<open>\<open>vecVal[i]\<close> is read for every field.\<close>

definition Hmset :: "'w hiredis \<Rightarrow> envt \<Rightarrow> nat \<Rightarrow> cstr \<Rightarrow> cstr list \<Rightarrow> cstr list \<Rightarrow> (cstr option, 'w) request" where
  "Hmset h env rnd strKey vecField vecVal ppLine cl w =
     bind_result (SetArgs_svv strKey vecField vecVal (CRedisCommand_new (bytes ''hmset'') True)) (\<lambda>c.
       ExecuteLine h env rnd (bytes ''hmset'') (\<lambda>_. c) (slot_of strKey) ppLine (BIND_STR None) (StuResConv (bytes ''OK'')) None cl w)"

text \<open>The methods that read a number from a local string and store it through a pointer without looking at it.\<close>

definition store_double :: "'d double_io \<Rightarrow> 'd option \<Rightarrow>
    (int \<times> cstr option \<times> CRedisPipeline option \<times> CRedisClient \<times> 'w) result \<Rightarrow>
    (int \<times> 'd option \<times> CRedisPipeline option \<times> CRedisClient \<times> 'w) result" where
  "store_double io pdVal r =
     bind_result r (\<lambda>(nRet, strVal, ppLine, cl, w).
       if nRet = RC_SUCCESS
       then (case pdVal of None \<Rightarrow> Inl Undefined_behaviour | Some _ \<Rightarrow> Inr (nRet, Some (atof io (the strVal)), ppLine, cl, w))
       else Inr (nRet, pdVal, ppLine, cl, w))"

definition Incrbyfloat :: "'w hiredis \<Rightarrow> envt \<Rightarrow> nat \<Rightarrow> 'd double_io \<Rightarrow> cstr \<Rightarrow> 'd \<Rightarrow> 'd option \<Rightarrow> ('d option, 'w) request" where
  "Incrbyfloat h env rnd io strKey dIncr pdVal ppLine cl w =
     store_double io pdVal
       (ExecuteLine h env rnd (bytes ''incrbyfloat'') (SetArgs_ss strKey (ConvertToString io dIncr)) (slot_of strKey) ppLine
          (BIND_STR (Some [])) FUNC_DEF_CONV (Some []) cl w)"

definition Hincrbyfloat ::
  "'w hiredis \<Rightarrow> envt \<Rightarrow> nat \<Rightarrow> 'd double_io \<Rightarrow> cstr \<Rightarrow> cstr \<Rightarrow> 'd \<Rightarrow> 'd option \<Rightarrow> ('d option, 'w) request" where
  "Hincrbyfloat h env rnd io strKey strField dIncr pdVal ppLine cl w =
     store_double io pdVal
       (ExecuteLine h env rnd (bytes ''hincrbyfloat'') (SetArgs_sss strKey strField (ConvertToString io dIncr)) (slot_of strKey)
          ppLine (BIND_STR (Some [])) FUNC_DEF_CONV (Some []) cl w)"

definition Zincrby ::
  "'w hiredis \<Rightarrow> envt \<Rightarrow> nat \<Rightarrow> 'd double_io \<Rightarrow> cstr \<Rightarrow> 'd \<Rightarrow> cstr \<Rightarrow> 'd option \<Rightarrow> ('d option, 'w) request" where
  "Zincrby h env rnd io strKey dIncr strElem pdVal ppLine cl w =
     store_double io pdVal
       (ExecuteLine h env rnd (bytes ''zincrby'') (SetArgs_sss strKey (ConvertToString io dIncr) strElem) (slot_of strKey)
          ppLine (BIND_STR (Some [])) FUNC_DEF_CONV (Some []) cl w)"

text \<open>With a pipeline the string is still empty, and \<open>Zscore\<close> says that the element does not exist.\<close>

definition Zscore :: "'w hiredis \<Rightarrow> envt \<Rightarrow> nat \<Rightarrow> 'd double_io \<Rightarrow> cstr \<Rightarrow> cstr \<Rightarrow> 'd option \<Rightarrow> ('d option, 'w) request" where
  "Zscore h env rnd io strKey strElem pdVal ppLine cl w =
     bind_result (ExecuteLine h env rnd (bytes ''zscore'') (SetArgs_ss strKey strElem) (slot_of strKey) ppLine
         (BIND_STR (Some [])) FUNC_DEF_CONV (Some []) cl w) (\<lambda>(nRet, strVal, ppLine, cl, w).
       if nRet = RC_SUCCESS
       then if the strVal = [] then Inr (RC_OBJ_NOT_EXIST, pdVal, ppLine, cl, w)
            else Inr (nRet, map_option (\<lambda>_. atof io (the strVal)) pdVal, ppLine, cl, w)
       else Inr (nRet, pdVal, ppLine, cl, w))"

definition store_scores :: "'d double_io \<Rightarrow> (cstr \<rightharpoonup> 'd) option \<Rightarrow>
    (int \<times> (cstr \<rightharpoonup> cstr) option \<times> CRedisPipeline option \<times> CRedisClient \<times> 'w) result \<Rightarrow>
    (int \<times> (cstr \<rightharpoonup> 'd) option \<times> CRedisPipeline option \<times> CRedisClient \<times> 'w) result" where
  "store_scores io pmapVal r =
     bind_result r (\<lambda>(nRet, mapVal, ppLine, cl, w).
       Inr (nRet, if nRet = RC_SUCCESS then map_option (\<lambda>_ k. map_option (atof io) (the mapVal k)) pmapVal else pmapVal, ppLine, cl, w))"

definition Zrangebyscore_map ::
  "'w hiredis \<Rightarrow> envt \<Rightarrow> nat \<Rightarrow> 'd double_io \<Rightarrow> cstr \<Rightarrow> 'd \<Rightarrow> 'd \<Rightarrow> (cstr \<rightharpoonup> 'd) option \<Rightarrow> ((cstr \<rightharpoonup> 'd) option, 'w) request" where
  "Zrangebyscore_map h env rnd io strKey dMin dMax pmapVal ppLine cl w =
     store_scores io pmapVal
       (ExecuteLine h env rnd (bytes ''zrangebyscore'')
          (SetArgs_ssss strKey (ConvertToString io dMin) (ConvertToString io dMax) (bytes ''WITHSCORES'')) (slot_of strKey) ppLine
          (BIND_MAP (Some Map.empty)) FUNC_DEF_CONV (Some Map.empty) cl w)"

definition Zrevrangebyscore_map ::
  "'w hiredis \<Rightarrow> envt \<Rightarrow> nat \<Rightarrow> 'd double_io \<Rightarrow> cstr \<Rightarrow> 'd \<Rightarrow> 'd \<Rightarrow> (cstr \<rightharpoonup> 'd) option \<Rightarrow> ((cstr \<rightharpoonup> 'd) option, 'w) request" where
  "Zrevrangebyscore_map h env rnd io strKey dMax dMin pmapVal ppLine cl w =
     store_scores io pmapVal
       (ExecuteLine h env rnd (bytes ''zrevrangebyscore'')
          (SetArgs_ssss strKey (ConvertToString io dMax) (ConvertToString io dMin) (bytes ''WITHSCORES'')) (slot_of strKey) ppLine
          (BIND_MAP (Some Map.empty)) FUNC_DEF_CONV (Some Map.empty) cl w)"

definition Scan :: "int" where
  "Scan = RC_SUCCESS"

definition Blpop_vec :: "'w hiredis \<Rightarrow> envt \<Rightarrow> nat \<Rightarrow> cstr list \<Rightarrow> int \<Rightarrow> cstr list option \<Rightarrow> (cstr list option, 'w) direct" where
  "Blpop_vec h env rnd vecKey nTimeout pvecVal cl w =
     (if cl_bCluster cl then Inr (RC_NOT_SUPPORT, pvecVal, None, cl, w)
      else if vecKey = [] then Inr (RC_PARAM_ERR, pvecVal, None, cl, w)
      else ExecuteLine h env rnd (bytes ''blpop'') (SetArgs_vs vecKey (print_int nTimeout)) (slot_of (hd vecKey)) None
             (BIND_VSTR pvecVal) FUNC_DEF_CONV pvecVal cl w)"

definition Brpop_vec :: "'w hiredis \<Rightarrow> envt \<Rightarrow> nat \<Rightarrow> cstr list \<Rightarrow> int \<Rightarrow> cstr list option \<Rightarrow> (cstr list option, 'w) direct" where
  "Brpop_vec h env rnd vecKey nTimeout pvecVal cl w =
     (if cl_bCluster cl then Inr (RC_NOT_SUPPORT, pvecVal, None, cl, w)
      else if vecKey = [] then Inr (RC_PARAM_ERR, pvecVal, None, cl, w)
      else ExecuteLine h env rnd (bytes ''brpop'') (SetArgs_vs vecKey (print_int nTimeout)) (slot_of (hd vecKey)) None
             (BIND_VSTR pvecVal) FUNC_DEF_CONV pvecVal cl w)"

section \<open>Fields of a hash as a map\<close>

text \<open>The loop that pairs fields and values, with \<open>map::insert\<close>; fields without a value are left out.\<close>

fun pair_fields :: "cstr list \<Rightarrow> cstr list \<Rightarrow> (cstr \<rightharpoonup> cstr) \<Rightarrow> (cstr \<rightharpoonup> cstr)" where
  "pair_fields (f # fs) (v # vs) m = pair_fields fs vs (if v \<noteq> [] then insert_new f v m else m)"
| "pair_fields _ _ m = m"

definition Hmget_map ::
  "'w hiredis \<Rightarrow> envt \<Rightarrow> nat \<Rightarrow> cstr \<Rightarrow> cstr list \<Rightarrow> (cstr \<rightharpoonup> cstr) option \<Rightarrow> ((cstr \<rightharpoonup> cstr) option, 'w) direct" where
  "Hmget_map h env rnd strKey vecField pmapVal cl w =
     bind_result (ExecuteLine h env rnd (bytes ''hmget'') (SetArgs_sv strKey vecField) (slot_of strKey) None
         (BIND_VSTR (Some [])) FUNC_DEF_CONV (Some []) cl w) (\<lambda>(nRet, vecVal, ppLine, cl, w).
       let vecVal = the vecVal in
       if nRet = RC_SUCCESS
       then if vecVal \<noteq> [] \<and> length vecField \<noteq> length vecVal then Inr (RC_RQST_ERR, pmapVal, ppLine, cl, w)
            else Inr (nRet, map_option (\<lambda>_. if vecVal \<noteq> [] then pair_fields vecField vecVal Map.empty else Map.empty) pmapVal, ppLine, cl, w)
       else Inr (nRet, pmapVal, ppLine, cl, w))"

definition Hmget_set ::
  "'w hiredis \<Rightarrow> envt \<Rightarrow> nat \<Rightarrow> cstr \<Rightarrow> cstr list \<Rightarrow> (cstr \<rightharpoonup> cstr) option \<Rightarrow> ((cstr \<rightharpoonup> cstr) option, 'w) direct" where
  "Hmget_set h env rnd strKey setField pmapVal cl w =
     bind_result (ExecuteLine h env rnd (bytes ''hmget'') (SetArgs_sv strKey setField) (slot_of strKey) None
         (BIND_VSTR (Some [])) FUNC_DEF_CONV (Some []) cl w) (\<lambda>(nRet, vecVal, ppLine, cl, w).
       let vecVal = the vecVal in
       if nRet = RC_SUCCESS
       then if length vecVal \<noteq> length setField then Inr (RC_RQST_ERR, pmapVal, ppLine, cl, w)
            else Inr (nRet, map_option (\<lambda>_. pair_fields setField vecVal Map.empty) pmapVal, ppLine, cl, w)
       else Inr (nRet, pmapVal, ppLine, cl, w))"

section \<open>Methods with several commands\<close>

text \<open>\<open>Keys\<close> asks every server; \<open>env i\<close> is what other threads do meanwhile.\<close>

fun keys_loop :: "'w hiredis \<Rightarrow> (nat \<Rightarrow> envt) \<Rightarrow> CRedisCommand \<Rightarrow> nat list \<Rightarrow> int \<Rightarrow> cstr list option \<Rightarrow> CRedisClient \<Rightarrow> 'w \<Rightarrow>
    (int \<times> cstr list option \<times> CRedisClient \<times> 'w) result" where
  "keys_loop h env c [] nRet pvecVal cl w = Inr (nRet, pvecVal, cl, w)"
| "keys_loop h env c (i # is) nRet pvecVal cl w =
     (case ServRequest h (env i) c (cl_servers cl i) w of
        (nRet, c, s, w) \<Rightarrow>
          let cl = cl\<lparr>cl_servers := (cl_servers cl)(i := s)\<rparr> in
          if nRet \<noteq> RC_SUCCESS then Inr (nRet, map_option (\<lambda>_. []) pvecVal, cl, w)
          else bind_result (FetchResult (BIND_VSTR (Some [])) c) (\<lambda>(nRet, vecVal).
            if nRet \<noteq> RC_SUCCESS then Inr (nRet, map_option (\<lambda>_. []) pvecVal, cl, w)
            else keys_loop h env c is nRet (map_option (\<lambda>v. v @ the vecVal) pvecVal) cl w))"

definition Keys :: "'w hiredis \<Rightarrow> (nat \<Rightarrow> envt) \<Rightarrow> cstr \<Rightarrow> cstr list option \<Rightarrow> CRedisClient \<Rightarrow> 'w \<Rightarrow>
    (int \<times> cstr list option \<times> CRedisClient \<times> 'w) result" where
  "Keys h env strPattern pvecVal cl w =
     keys_loop h env (SetArgs_s strPattern (CRedisCommand_new (bytes ''keys'') True)) (m_vecRedisServ cl) RC_SUCCESS pvecVal cl w"

text \<open>
  \<open>Rename\<close> between two servers copies the value and deletes the old key. \<open>env i\<close> is what other threads
  do during the \<open>i\<close>-th request. The end of the method, after a failure, deletes the new key.
\<close>

definition Rename_undo :: "'w hiredis \<Rightarrow> envt \<Rightarrow> nat \<Rightarrow> cstr \<Rightarrow> int \<Rightarrow> CRedisClient \<Rightarrow> 'w \<Rightarrow> (int \<times> CRedisClient \<times> 'w) result" where
  "Rename_undo h env rnd strNewKey nRet cl w =
     bind_result (Del h env rnd strNewKey None cl w) (\<lambda>(_, _, cl, w).
       Inr (if nRet = RC_SUCCESS then RC_REPLY_ERR else nRet, cl, w))"

text \<open>The restoring of the value under the new key and the deletion of the old one, common to both methods.\<close>

definition Rename_move :: "'w hiredis \<Rightarrow> (nat \<Rightarrow> envt) \<Rightarrow> nat \<Rightarrow> cstr \<Rightarrow> cstr \<Rightarrow> int \<Rightarrow> cstr \<Rightarrow> CRedisClient \<Rightarrow> 'w \<Rightarrow>
    (int \<times> CRedisClient \<times> 'w) result" where
  "Rename_move h env rnd strKey strNewKey nTtl strVal cl w =
     bind_result (Restore h (env 3) rnd strNewKey nTtl strVal None cl w) (\<lambda>(nRet, _, _, cl, w).
       if nRet \<noteq> RC_SUCCESS then Rename_undo h (env 5) rnd strNewKey nRet cl w
       else bind_result (Del h (env 4) rnd strKey None cl w) (\<lambda>(nRet, _, cl, w).
         if RC_SUCCESS \<le> nRet then Inr (RC_SUCCESS, cl, w) else Rename_undo h (env 5) rnd strNewKey nRet cl w))"

definition Rename :: "'w hiredis \<Rightarrow> (nat \<Rightarrow> envt) \<Rightarrow> nat \<Rightarrow> cstr \<Rightarrow> cstr \<Rightarrow> CRedisClient \<Rightarrow> 'w \<Rightarrow> (int \<times> CRedisClient \<times> 'w) result" where
  "Rename h env rnd strKey strNewKey cl w =
     (if InSameNode strKey strNewKey cl
      then bind_result (ExecuteImpl h (env 0) rnd (bytes ''rename'') (SetArgs_ss strKey strNewKey) (slot_of strKey) (BIND_STR None)
             (StuResConv (bytes ''OK'')) None cl w) (\<lambda>(nRet, _, cl, w). Inr (nRet, cl, w))
      else
        bind_result (Dump h (env 0) rnd strKey (Some []) None cl w) (\<lambda>(nRet, strVal, _, cl, w).
          if nRet \<noteq> RC_SUCCESS \<or> the strVal = [] then Rename_undo h (env 5) rnd strNewKey nRet cl w
          else bind_result (Pttl h (env 1) rnd strKey (Some 0) None cl w) (\<lambda>(nRet, nTtl, _, cl, w).
            if nRet \<noteq> RC_SUCCESS \<or> the nTtl = - 2 then Rename_undo h (env 5) rnd strNewKey nRet cl w
            else bind_result (Del h (env 2) rnd strNewKey None cl w) (\<lambda>(nRet, _, cl, w).
              if \<not> RC_SUCCESS \<le> nRet then Rename_undo h (env 5) rnd strNewKey nRet cl w
              else Rename_move h env rnd strKey strNewKey (if the nTtl = - 1 then 0 else the nTtl) (the strVal) cl w))))"

definition Renamenx :: "'w hiredis \<Rightarrow> (nat \<Rightarrow> envt) \<Rightarrow> nat \<Rightarrow> cstr \<Rightarrow> cstr \<Rightarrow> CRedisClient \<Rightarrow> 'w \<Rightarrow> (int \<times> CRedisClient \<times> 'w) result" where
  "Renamenx h env rnd strKey strNewKey cl w =
     (if InSameNode strKey strNewKey cl
      then bind_result (ExecuteImpl h (env 0) rnd (bytes ''renamenx'') (SetArgs_ss strKey strNewKey) (slot_of strKey) (BIND_STR None)
             (StuResConv (bytes ''OK'')) None cl w) (\<lambda>(nRet, _, cl, w). Inr (nRet, cl, w))
      else
        bind_result (Exists h (env 2) rnd strNewKey (Some 0) None cl w) (\<lambda>(nRet, nVal, _, cl, w).
          if nRet \<noteq> RC_SUCCESS then Inr (nRet, cl, w)
          else if the nVal = 1 then Inr (RC_REPLY_ERR, cl, w)
          else bind_result (Dump h (env 0) rnd strKey (Some []) None cl w) (\<lambda>(nRet, strVal, _, cl, w).
            if nRet \<noteq> RC_SUCCESS then Rename_undo h (env 5) rnd strNewKey nRet cl w
            else bind_result (Pttl h (env 1) rnd strKey (Some 0) None cl w) (\<lambda>(nRet, nTtl, _, cl, w).
              if nRet \<noteq> RC_SUCCESS then Rename_undo h (env 5) rnd strNewKey nRet cl w
              else Rename_move h env rnd strKey strNewKey (if the nTtl = - 1 then 0 else the nTtl) (the strVal) cl w))))"

section \<open>Initialize\<close>

text \<open>
  \<open>env i\<close> is what other threads do while \<open>LoadSlaveInfo\<close> waits for a connection of the server \<open>i\<close>. The
  thread that loads the slots, \<open>threadFun\<close>, calls \<open>LoadClusterSlots\<close> from time to time.
\<close>

fun load_slaves :: "'w hiredis \<Rightarrow> (nat \<Rightarrow> envt) \<Rightarrow> nat list \<Rightarrow> CRedisClient \<Rightarrow> 'w \<Rightarrow> (CRedisClient \<times> 'w) result" where
  "load_slaves h env [] cl w = Inr (cl, w)"
| "load_slaves h env (i # is) cl w =
     bind_result (LoadSlaveInfo h (env i) (cl_servers cl i) w) (\<lambda>(_, s, w).
       load_slaves h env is (cl\<lparr>cl_servers := (cl_servers cl)(i := s)\<rparr>) w)"

fun host_init :: "'w hiredis \<Rightarrow> (nat \<Rightarrow> envt) \<Rightarrow> (nat \<Rightarrow> uninitialised) \<Rightarrow> (cstr \<times> int) list \<Rightarrow> CRedisClient \<Rightarrow> 'w \<Rightarrow> (bool \<times> CRedisClient \<times> 'w) result" where
  "host_init h env junk [] cl w = Inr (True, cl, w)"
| "host_init h env junk ((ip, port) # hs) cl w =
     (if length ip = 0 \<or> port \<le> 0 then host_init h env junk hs cl w
      else case add_server h junk ip port cl w of
             (i, cl, w) \<Rightarrow>
               let cl = cl\<lparr>cl_servers := (cl_servers cl)(i := (cl_servers cl i)\<lparr>m_bCluster := cl_bCluster cl\<rparr>)\<rparr> in
               if \<not> cl_bCluster cl then Inr (True, cl, w)
               else bind_result (load_slaves h env (m_vecRedisServ cl) cl w) (\<lambda>(cl, w). host_init h env junk hs cl w))"

definition client_Initialize :: "'w hiredis \<Rightarrow> (nat \<Rightarrow> envt) \<Rightarrow> (nat \<Rightarrow> uninitialised) \<Rightarrow> (cstr \<times> int) list \<Rightarrow> int \<Rightarrow> int \<Rightarrow> bool \<Rightarrow> CRedisClient \<Rightarrow> 'w \<Rightarrow>
    (bool \<times> CRedisClient \<times> 'w) result" where
  "client_Initialize h env junk hostVec nTimeout nConnNum bIfCluster cl w =
     (let cl = cl\<lparr>m_nTimeout := nTimeout, cl_nConnNum := nConnNum, cl_bCluster := bIfCluster\<rparr> in
      if nTimeout \<le> 0 \<or> nConnNum \<le> 0 then Inr (False, cl, w) else host_init h env junk hostVec cl w)"

definition threadFun_round :: "'w hiredis \<Rightarrow> envt \<Rightarrow> (nat \<Rightarrow> uninitialised) \<Rightarrow> CRedisClient \<Rightarrow> 'w \<Rightarrow> (CRedisClient \<times> 'w) result" where
  "threadFun_round h env junk cl w =
     (if cl_bCluster cl then bind_result (LoadClusterSlots h env junk cl w) (\<lambda>(_, cl, w). Inr (cl, w)) else Inr (cl, w))"

section \<open>Pipelines and fields\<close>

text \<open>With a pipeline nothing is sent: the command waits as the last one of the pipeline.\<close>

lemma ExecuteLine_queued:
  "ExecuteLine h env rnd strCmd set_args nSlot (Some p) funcFetch funcConv out cl w =
     Inr (RC_SUCCESS, out, Some (p\<lparr>m_vecCmd := m_vecCmd p @
       [(set_args (CRedisCommand_new strCmd True))\<lparr>m_nSlot := nSlot, m_funcConv := funcConv\<rparr>]\<rparr>), cl, w)"
  by (simp add: ExecuteLine_def QueueCommand_def)

text \<open>A method that reads its result from a local string gives a wrong one when it is queued.\<close>

lemma Zscore_queued: "\<exists>p'. Zscore h env rnd io strKey strElem pdVal (Some p) cl w = Inr (RC_OBJ_NOT_EXIST, pdVal, Some p', cl, w)"
  by (simp add: Zscore_def ExecuteLine_queued)

text \<open>Fields that have a value are mapped to it, and no others.\<close>

lemma pair_fields_lookup:
  assumes "length fs = length vs" "distinct fs" "\<forall>f\<in>set fs. m f = None"
  shows "pair_fields fs vs m f =
     (case map_of (zip fs vs) f of None \<Rightarrow> m f | Some v \<Rightarrow> if v = [] then None else Some v)"
  using assms
proof (induction fs vs arbitrary: m rule: list_induct2)
  case (Cons f' fs v vs)
  let ?m = "if v \<noteq> [] then insert_new f' v m else m"
  have "\<forall>f\<in>set fs. ?m f = None" using Cons.prems by (auto simp: insert_new_def)
  then have "pair_fields (f' # fs) (v # vs) m f = (case map_of (zip fs vs) f of None \<Rightarrow> ?m f | Some v \<Rightarrow> if v = [] then None else Some v)"
    using Cons by simp
  moreover have "map_of (zip fs vs) f' = None" using Cons.prems Cons.hyps by (simp add: map_of_zip_is_None)
  ultimately show ?case using Cons.prems by (cases "f = f'") (auto simp: insert_new_def split: option.splits)
qed simp

end
