(* ===== verification/Redis_Rename.thy ===== *)
theory Redis_Rename
  imports Redis_Commands
begin

text \<open>
  \<open>Rename\<close> and \<open>Renamenx\<close> of the redis client between two servers of a cluster, against the key space of the
  cluster: what becomes of the value and of the time to live of the old key, and of the new key.
\<close>

section \<open>Requests that are answered\<close>

text \<open>
  The key space maps a key to its value, as \<open>DUMP\<close> serialises it, and its time to live. \<open>redis_keys\<close> is
  what redis documents of the commands that the methods send, on a connection that reaches the server of the
  key (\<open>serves\<close>); no time passes.
\<close>

type_synonym key_space = "cstr \<rightharpoonup> cstr \<times> int option"

definition pttl_of :: "(cstr \<times> int option) option \<Rightarrow> int" where
  "pttl_of e = (case e of None \<Rightarrow> - 2 | Some (v, None) \<Rightarrow> - 1 | Some (v, Some t) \<Rightarrow> t)"

definition status_ok :: redisReply where
  "status_ok = Reply REDIS_REPLY_STATUS 0 (Some (bytes ''OK'')) []"

definition answers :: "'w hiredis \<Rightarrow> conn_at \<Rightarrow> ('w \<Rightarrow> key_space) \<Rightarrow> cstr list \<Rightarrow> redisReply \<Rightarrow> key_space \<Rightarrow> 'w \<Rightarrow> bool" where
  "answers h a store args r m w \<longleftrightarrow> (\<exists>w'. redisCommandArgv h a args w = (Some r, w') \<and> store w' = m)"

definition redis_keys :: "'w hiredis \<Rightarrow> (conn_at \<Rightarrow> cstr \<Rightarrow> bool) \<Rightarrow> ('w \<Rightarrow> key_space) \<Rightarrow> bool" where
  "redis_keys h serves store \<longleftrightarrow> (\<forall>a k w. serves a k \<longrightarrow>
     answers h a store [bytes ''dump'', k] (case store w k of None \<Rightarrow> nil_reply | Some (v, t) \<Rightarrow> string_reply v) (store w) w \<and>
     answers h a store [bytes ''pttl'', k] (integer_reply (pttl_of (store w k))) (store w) w \<and>
     answers h a store [bytes ''exists'', k] (integer_reply (if store w k = None then 0 else 1)) (store w) w \<and>
     answers h a store [bytes ''del'', k] (integer_reply (if store w k = None then 0 else 1)) ((store w)(k := None)) w \<and>
     (\<forall>n v. store w k = None \<longrightarrow> 0 \<le> n \<longrightarrow>
        answers h a store [bytes ''restore'', k, print_int n, v] status_ok
          ((store w)(k \<mapsto> (v, if n = 0 then None else Some n))) w))"

text \<open>A client that reaches the server of a key through an open connection.\<close>

definition served :: "(conn_at \<Rightarrow> cstr \<Rightarrow> bool) \<Rightarrow> CRedisClient \<Rightarrow> cstr \<Rightarrow> bool" where
  "served serves cl k \<longleftrightarrow> (\<exists>i. FindServer_slot (slot_of k) cl = Some i \<and>
     m_queIdleConn (cl_servers cl i) \<noteq> [] \<and> list_all (m_pContext (cl_servers cl i)) (m_queIdleConn (cl_servers cl i)) \<and>
     (\<forall>p. serves (at_server (cl_servers cl i) p) k))"

definition serving :: "(conn_at \<Rightarrow> cstr \<Rightarrow> bool) \<Rightarrow> CRedisClient \<Rightarrow> cstr set \<Rightarrow> bool" where
  "serving serves cl ks \<longleftrightarrow> cl_bCluster cl \<and> (\<forall>k\<in>ks. served serves cl k)"

lemma FindServer_slot_update:
  assumes "m_bMaster s = m_bMaster (cl_servers cl i)"
  shows "FindServer_slot n (cl\<lparr>cl_servers := (cl_servers cl)(i := s)\<rparr>) = FindServer_slot n cl"
proof -
  have "(\<lambda>j. m_bMaster (((cl_servers cl)(i := s)) j)) = (\<lambda>j. m_bMaster (cl_servers cl j))" using assms by auto
  then have "find (\<lambda>j. m_bMaster (cl_servers (cl\<lparr>cl_servers := (cl_servers cl)(i := s)\<rparr>) j)) xs = find (\<lambda>j. m_bMaster (cl_servers cl j)) xs" for xs
    by simp
  then show ?thesis by (simp add: FindServer_slot_def del: CRedisClient.select_convs(6) CRedisClient.update_convs split: prod.split)
qed

text \<open>An answered request leaves the server as it was, up to the order of its idle connections.\<close>

lemma ServRequest_answered:
  assumes q: "m_queIdleConn s = p # q" "list_all (m_pContext s) (p # q)" and "m_Args c \<noteq> []"
    and r: "redisCommandArgv h (at_server s p) (m_Args c) w = (Some r, w')"
  shows "ServRequest h env c s w = (RC_SUCCESS, c\<lparr>m_pReply := Some r\<rparr>, s\<lparr>m_queIdleConn := q @ [p]\<rparr>, w')"
proof -
  have "at_server (s\<lparr>m_queIdleConn := q\<rparr>) p = at_server s p" by (simp add: at_server_def)
  moreover have "m_pContext s p" using q(2) by simp
  moreover from this have "(m_pContext s)(p := True) = m_pContext s" by (auto simp: fun_eq_iff)
  moreover have "s\<lparr>m_queIdleConn := q, m_pContext := m_pContext s\<rparr> = s\<lparr>m_queIdleConn := q\<rparr>" by simp
  moreover have "s\<lparr>m_pContext := m_pContext s, m_queIdleConn := q @ [p]\<rparr> = s\<lparr>m_queIdleConn := q @ [p]\<rparr>" by simp
  ultimately show ?thesis using assms(1,3,4)
    by (simp add: ServRequest_def RQST_RETRY_TIMES_def numeral_3_eq_3 FetchConnection_def ConnRequest_def ConnRequest_send_def
        CmdRequest_def ReturnConnection_def IsValid_def RC_defs)
qed

lemma slot_of_nonneg: "slot_of k \<noteq> - 1"
proof -
  have "0 \<le> slot_of k" by (rule unsigned_greater_eq)
  then show ?thesis by linarith
qed

lemma serving_update:
  assumes "serving serves cl ks" "m_queIdleConn (cl_servers cl i) = p # q"
  shows "serving serves (cl\<lparr>cl_servers := (cl_servers cl)(i := (cl_servers cl i)\<lparr>m_queIdleConn := q @ [p]\<rparr>)\<rparr>) ks"
    (is "serving _ ?cl ks")
proof -
  let ?s = "(cl_servers cl i)\<lparr>m_queIdleConn := q @ [p]\<rparr>"
  have f: "FindServer_slot n ?cl = FindServer_slot n cl" for n by (rule FindServer_slot_update) simp
  have at: "at_server ?s p' = at_server (cl_servers cl i) p'" for p' by (simp add: at_server_def)
  have "served serves ?cl k" if "served serves cl k" for k
    using that assms(2) unfolding served_def f by (auto simp: at)
  then show ?thesis using assms(1) by (simp add: serving_def)
qed

lemma ExecuteImpl_answered:
  assumes cl: "serving serves cl ks" "k \<in> ks"
    and args: "m_Args (set_args (CRedisCommand_new cmd True)) = args" "args \<noteq> []"
    and ans: "\<And>a. serves a k \<Longrightarrow> answers h a store args r m w"
    and fetch: "funcFetch r = Inr (n, out')" "funcConv n r = Inr n'"
  shows "\<exists>cl' w'. ExecuteImpl h env rnd cmd set_args (slot_of k) funcFetch funcConv out cl w = Inr (n', out', cl', w') \<and>
     store w' = m \<and> serving serves cl' ks"
proof -
  let ?c = "(set_args (CRedisCommand_new cmd True))\<lparr>m_nSlot := slot_of k, m_funcConv := funcConv\<rparr>"
  from cl obtain i where i: "FindServer_slot (slot_of k) cl = Some i" "m_queIdleConn (cl_servers cl i) \<noteq> []"
    "list_all (m_pContext (cl_servers cl i)) (m_queIdleConn (cl_servers cl i))" "\<And>p. serves (at_server (cl_servers cl i) p) k"
    unfolding serving_def served_def by blast
  let ?s = "cl_servers cl i"
  from i(2) obtain p q where q: "m_queIdleConn ?s = p # q" by (cases "m_queIdleConn ?s") auto
  from ans [OF i(4) [of p]] obtain w' where w': "redisCommandArgv h (at_server ?s p) (m_Args ?c) w = (Some r, w')" "store w' = m"
    using args(1) unfolding answers_def by auto
  have "m_Args ?c \<noteq> []" using args by simp
  from ServRequest_answered [OF q i(3) [unfolded q] this w'(1)]
  have "ServRequest h env ?c ?s w = (RC_SUCCESS, ?c\<lparr>m_pReply := Some r\<rparr>, ?s\<lparr>m_queIdleConn := q @ [p]\<rparr>, w')" .
  moreover have "GetMatchedServer rnd ?c cl = Inr (Some i)"
    using cl(1) i(1) slot_of_nonneg [of k] by (simp add: GetMatchedServer_def serving_def)
  ultimately have "ExecuteImpl h env rnd cmd set_args (slot_of k) funcFetch funcConv out cl w =
      Inr (n', out', cl\<lparr>cl_servers := (cl_servers cl)(i := ?s\<lparr>m_queIdleConn := q @ [p]\<rparr>)\<rparr>, w')"
    using fetch by (simp add: ExecuteImpl_def SimpleExecute_def FetchResult_def)
  then show ?thesis using w'(2) serving_update [OF cl(1) q] by blast
qed

lemma redis_keysD:
  assumes "redis_keys h serves store" "serves a k"
  shows "answers h a store [bytes ''dump'', k] (case store w k of None \<Rightarrow> nil_reply | Some (v, t) \<Rightarrow> string_reply v) (store w) w"
    and "answers h a store [bytes ''pttl'', k] (integer_reply (pttl_of (store w k))) (store w) w"
    and "answers h a store [bytes ''exists'', k] (integer_reply (if store w k = None then 0 else 1)) (store w) w"
    and "answers h a store [bytes ''del'', k] (integer_reply (if store w k = None then 0 else 1)) ((store w)(k := None)) w"
    and "store w k = None \<Longrightarrow> 0 \<le> n \<Longrightarrow>
      answers h a store [bytes ''restore'', k, print_int n, v] status_ok ((store w)(k \<mapsto> (v, if n = 0 then None else Some n))) w"
  using assms unfolding redis_keys_def by blast+

lemmas set_args_defs = SetArgs_s_def SetArgs_ss_def SetArgs_sss_def AppendValue_def cmd_Init_def ClearArgs_def CRedisCommand_new_def

text \<open>The methods on a served key.\<close>

lemma Dump_ok:
  assumes "redis_keys h serves store" "serving serves cl ks" "k \<in> ks"
  shows "\<exists>cl' w'. Dump h env rnd k (Some x) None cl w =
       Inr (RC_SUCCESS, Some (case store w k of None \<Rightarrow> [] | Some (v, t) \<Rightarrow> v), None, cl', w') \<and>
     store w' = store w \<and> serving serves cl' ks"
proof -
  let ?r = "case store w k of None \<Rightarrow> nil_reply | Some (v, t) \<Rightarrow> string_reply v"
  have fetch: "BIND_STR (Some x) ?r = Inr (RC_SUCCESS, Some (case store w k of None \<Rightarrow> [] | Some (v, t) \<Rightarrow> v))"
    by (simp add: BIND_STR_def FetchString_def nil_reply_def string_reply_def split: option.split prod.split)
  have "\<exists>cl' w'. ExecuteImpl h env rnd (bytes ''dump'') (SetArgs_s k) (slot_of k) (BIND_STR (Some x)) FUNC_DEF_CONV (Some x) cl w = Inr (RC_SUCCESS, Some (case store w k of None \<Rightarrow> [] | Some (v, t) \<Rightarrow> v), cl', w') \<and>
     store w' = store w \<and> serving serves cl' ks"
    by (rule ExecuteImpl_answered [where n = RC_SUCCESS, OF assms(2,3) _ _ redis_keysD(1) [where k = k and w = w, OF assms(1)]])
      (simp_all add: set_args_defs Let_def FUNC_DEF_CONV_def fetch del: bytes_simps)
  then show ?thesis by (auto simp: Dump_def ExecuteLine_def)
qed

lemma Pttl_ok:
  assumes "redis_keys h serves store" "serving serves cl ks" "k \<in> ks"
  shows "\<exists>cl' w'. Pttl h env rnd k (Some x) None cl w = Inr (RC_SUCCESS, Some (pttl_of (store w k)), None, cl', w') \<and>
     store w' = store w \<and> serving serves cl' ks"
proof -
  have fetch: "BIND_INT (Some x) (integer_reply (pttl_of (store w k))) = Inr (RC_SUCCESS, Some (pttl_of (store w k)))"
    by (simp add: BIND_INT_def FetchInteger_def integer_reply_def)
  have "\<exists>cl' w'. ExecuteImpl h env rnd (bytes ''pttl'') (SetArgs_s k) (slot_of k) (BIND_INT (Some x)) FUNC_DEF_CONV (Some x) cl w = Inr (RC_SUCCESS, Some (pttl_of (store w k)), cl', w') \<and>
     store w' = store w \<and> serving serves cl' ks"
    by (rule ExecuteImpl_answered [where n = RC_SUCCESS, OF assms(2,3) _ _ redis_keysD(2) [where k = k and w = w, OF assms(1)]])
      (simp_all add: set_args_defs Let_def FUNC_DEF_CONV_def fetch del: bytes_simps)
  then show ?thesis by (auto simp: Pttl_def ExecuteLine_def)
qed

lemma Exists_ok:
  assumes "redis_keys h serves store" "serving serves cl ks" "k \<in> ks"
  shows "\<exists>cl' w'. Exists h env rnd k (Some x) None cl w = Inr (RC_SUCCESS, Some (if store w k = None then 0 else 1), None, cl', w') \<and>
     store w' = store w \<and> serving serves cl' ks"
proof -
  have fetch: "BIND_INT (Some x) (integer_reply (if store w k = None then 0 else 1)) = Inr (RC_SUCCESS, Some (if store w k = None then 0 else 1))"
    by (simp add: BIND_INT_def FetchInteger_def integer_reply_def)
  have "\<exists>cl' w'. ExecuteImpl h env rnd (bytes ''exists'') (SetArgs_s k) (slot_of k) (BIND_INT (Some x)) FUNC_DEF_CONV (Some x) cl w = Inr (RC_SUCCESS, Some (if store w k = None then 0 else 1), cl', w') \<and>
     store w' = store w \<and> serving serves cl' ks"
    by (rule ExecuteImpl_answered [where n = RC_SUCCESS, OF assms(2,3) _ _ redis_keysD(3) [where k = k and w = w, OF assms(1)]])
      (simp_all add: set_args_defs Let_def FUNC_DEF_CONV_def fetch del: bytes_simps)
  then show ?thesis by (auto simp: Exists_def ExecuteLine_def)
qed

lemma Del_ok:
  assumes "redis_keys h serves store" "serving serves cl ks" "k \<in> ks"
  shows "\<exists>cl' w'. Del h env rnd k None cl w = Inr (RC_SUCCESS, None, cl', w') \<and>
     store w' = (store w)(k := None) \<and> serving serves cl' ks"
proof -
  have fetch: "BIND_INT None (integer_reply (if store w k = None then 0 else 1)) = Inr (RC_SUCCESS, None)"
    by (simp add: BIND_INT_def FetchInteger_def integer_reply_def)
  have "\<exists>cl' w'. ExecuteImpl h env rnd (bytes ''del'') (SetArgs_s k) (slot_of k) (BIND_INT None) FUNC_DEF_CONV None cl w = Inr (RC_SUCCESS, None, cl', w') \<and>
     store w' = (store w)(k := None) \<and> serving serves cl' ks"
    by (rule ExecuteImpl_answered [where n = RC_SUCCESS, OF assms(2,3) _ _ redis_keysD(4) [where k = k and w = w, OF assms(1)]])
      (simp_all add: set_args_defs Let_def FUNC_DEF_CONV_def fetch del: bytes_simps)
  then show ?thesis by (auto simp: Del_def)
qed

lemma status_ok_fetch: "BIND_STR None status_ok = Inr (RC_SUCCESS, None)" "StuResConv (bytes ''OK'') RC_SUCCESS status_ok = Inr RC_SUCCESS"
  by (simp_all add: BIND_STR_def FetchString_def StuResConv_def status_ok_def c_string_def)

lemma Restore_ok:
  assumes "redis_keys h serves store" "serving serves cl ks" "k \<in> ks" and new: "store w k = None" "0 \<le> n"
  shows "\<exists>cl' w'. Restore h env rnd k n v None cl w = Inr (RC_SUCCESS, None, None, cl', w') \<and>
     store w' = (store w)(k \<mapsto> (v, if n = 0 then None else Some n)) \<and> serving serves cl' ks"
proof -
  have "\<exists>cl' w'. ExecuteImpl h env rnd (bytes ''restore'') (SetArgs_sss k (print_int n) v) (slot_of k) (BIND_STR None) (StuResConv (bytes ''OK'')) None cl w = Inr (RC_SUCCESS, None, cl', w') \<and>
     store w' = (store w)(k \<mapsto> (v, if n = 0 then None else Some n)) \<and> serving serves cl' ks"
    by (rule ExecuteImpl_answered [where n = RC_SUCCESS, OF assms(2,3) _ _ redis_keysD(5) [where k = k and w = w and v = v, OF assms(1) _ new]])
      (simp_all add: set_args_defs Let_def status_ok_fetch del: bytes_simps)
  then show ?thesis by (auto simp: Restore_def ExecuteLine_def)
qed

lemma Rename_move_ok:
  assumes "redis_keys h serves store" "serving serves cl {k, k'}" "store w k' = None" "0 \<le> n"
  shows "\<exists>cl' w'. Rename_move h env rnd k k' n v cl w = Inr (RC_SUCCESS, cl', w') \<and>
     store w' = (store w)(k' \<mapsto> (v, if n = 0 then None else Some n), k := None) \<and> serving serves cl' {k, k'}"
proof -
  from Restore_ok [OF assms(1,2) _ assms(3,4), of "env 3" rnd v] obtain cl1 w1 where
    1: "Restore h (env 3) rnd k' n v None cl w = Inr (RC_SUCCESS, None, None, cl1, w1)"
      "store w1 = (store w)(k' \<mapsto> (v, if n = 0 then None else Some n))" "serving serves cl1 {k, k'}" by auto
  from Del_ok [OF assms(1) 1(3), of k "env 4" rnd w1] obtain cl2 w2 where
    "Del h (env 4) rnd k None cl1 w1 = Inr (RC_SUCCESS, None, cl2, w2)" "store w2 = (store w1)(k := None)" "serving serves cl2 {k, k'}"
    by auto
  with 1 show ?thesis by (simp add: Rename_move_def)
qed

lemma Rename_undo_ok:
  assumes "redis_keys h serves store" "serving serves cl {k, k'}"
  shows "\<exists>cl' w'. Rename_undo h env rnd k' RC_SUCCESS cl w = Inr (RC_REPLY_ERR, cl', w') \<and> store w' = (store w)(k' := None)"
proof -
  from Del_ok [OF assms, of k' env rnd w] obtain cl1 w1 where
    "Del h env rnd k' None cl w = Inr (RC_SUCCESS, None, cl1, w1)" "store w1 = (store w)(k' := None)" by auto
  then show ?thesis by (simp add: Rename_undo_def)
qed

section \<open>Rename between two servers\<close>

text \<open>The entry that the new key gets: a time to live is positive.\<close>

definition live :: "cstr \<times> int option \<Rightarrow> bool" where
  "live e \<longleftrightarrow> fst e \<noteq> [] \<and> (case snd e of None \<Rightarrow> True | Some t \<Rightarrow> 0 < t)"

text \<open>
  C21. Between two servers of a cluster \<open>Rename\<close> moves a key: the new key has the value and the time to live of the
  old one, which is gone, whatever the new key had before; \<open>Renamenx\<close> does the same if there is no new
  key and changes nothing if there is one. Other keys keep their values.
\<close>

theorem redis_rename:
  assumes keys: "redis_keys h serves store" "serving serves cl {strKey, strNewKey}" "\<not> InSameNode strKey strNewKey cl"
    and old: "store w strKey = Some e" "live e"
  shows "(\<exists>cl' w'. Rename h env rnd strKey strNewKey cl w = Inr (RC_SUCCESS, cl', w') \<and>
       store w' = (store w)(strNewKey \<mapsto> e, strKey := None)) \<and>
     (\<exists>cl' w'. Renamenx h env rnd strKey strNewKey cl w =
         Inr (if store w strNewKey = None then RC_SUCCESS else RC_REPLY_ERR, cl', w') \<and>
       store w' = (if store w strNewKey = None then (store w)(strNewKey \<mapsto> e, strKey := None) else store w))"
proof -
  obtain v t where e: "e = (v, t)" by fastforce
  let ?ks = "{strKey, strNewKey}" and ?n = "if pttl_of (Some e) = - 1 then 0 else pttl_of (Some e)"
  have ne: "strNewKey \<noteq> strKey" using keys(3) unfolding InSameNode_def by metis
  have n: "0 \<le> ?n" "(v, if ?n = 0 then None else Some ?n) = e" "pttl_of (Some e) \<noteq> - 2" "v \<noteq> []"
    using old(2) by (auto simp: e live_def pttl_of_def split: option.splits)
  have "\<exists>cl' w'. Rename h env rnd strKey strNewKey cl w = Inr (RC_SUCCESS, cl', w') \<and>
       store w' = (store w)(strNewKey \<mapsto> e, strKey := None)"
  proof -
    from Dump_ok [OF keys(1,2), of strKey "env 0" rnd "[]" w] obtain cl1 w1 where
      1: "Dump h (env 0) rnd strKey (Some []) None cl w = Inr (RC_SUCCESS, Some v, None, cl1, w1)" "store w1 = store w"
        "serving serves cl1 ?ks" by (auto simp: old(1) e)
    from Pttl_ok [OF keys(1) 1(3), of strKey "env 1" rnd 0 w1] obtain cl2 w2 where
      2: "Pttl h (env 1) rnd strKey (Some 0) None cl1 w1 = Inr (RC_SUCCESS, Some (pttl_of (Some e)), None, cl2, w2)"
        "store w2 = store w" "serving serves cl2 ?ks" by (auto simp: old(1) 1(2))
    from Del_ok [OF keys(1) 2(3), of strNewKey "env 2" rnd w2] obtain cl3 w3 where
      3: "Del h (env 2) rnd strNewKey None cl2 w2 = Inr (RC_SUCCESS, None, cl3, w3)" "store w3 = (store w)(strNewKey := None)"
        "serving serves cl3 ?ks" by (auto simp: 2(2))
    from Rename_move_ok [OF keys(1) 3(3) _ n(1), of w3 env rnd v] obtain cl4 w4 where
      "Rename_move h env rnd strKey strNewKey ?n v cl3 w3 = Inr (RC_SUCCESS, cl4, w4)"
      "store w4 = (store w3)(strNewKey \<mapsto> (v, if ?n = 0 then None else Some ?n), strKey := None)" by (auto simp: 3(2))
    with 1 2 3 n(2-4) show ?thesis by (simp add: Rename_def keys(3) split del: if_split cong del: if_weak_cong)
  qed
  moreover have "\<exists>cl' w'. Renamenx h env rnd strKey strNewKey cl w =
         Inr (if store w strNewKey = None then RC_SUCCESS else RC_REPLY_ERR, cl', w') \<and>
       store w' = (if store w strNewKey = None then (store w)(strNewKey \<mapsto> e, strKey := None) else store w)"
  proof -
    from Exists_ok [OF keys(1,2), of strNewKey "env 2" rnd 0 w] obtain cl1 w1 where
      1: "Exists h (env 2) rnd strNewKey (Some 0) None cl w = Inr (RC_SUCCESS, Some (if store w strNewKey = None then 0 else 1), None, cl1, w1)"
        "store w1 = store w" "serving serves cl1 ?ks" by auto
    show ?thesis
    proof (cases "store w strNewKey = None")
      case True
      from Dump_ok [OF keys(1) 1(3), of strKey "env 0" rnd "[]" w1] obtain cl2 w2 where
        2: "Dump h (env 0) rnd strKey (Some []) None cl1 w1 = Inr (RC_SUCCESS, Some v, None, cl2, w2)" "store w2 = store w"
          "serving serves cl2 ?ks" by (auto simp: old(1) e 1(2))
      from Pttl_ok [OF keys(1) 2(3), of strKey "env 1" rnd 0 w2] obtain cl3 w3 where
        3: "Pttl h (env 1) rnd strKey (Some 0) None cl2 w2 = Inr (RC_SUCCESS, Some (pttl_of (Some e)), None, cl3, w3)"
          "store w3 = store w" "serving serves cl3 ?ks" by (auto simp: old(1) 2(2))
      have "store w3 strNewKey = None" using True 3(2) by simp
      from Rename_move_ok [OF keys(1) 3(3) this n(1), of env rnd v] obtain cl4 w4 where
        "Rename_move h env rnd strKey strNewKey ?n v cl3 w3 = Inr (RC_SUCCESS, cl4, w4)"
        "store w4 = (store w3)(strNewKey \<mapsto> (v, if ?n = 0 then None else Some ?n), strKey := None)" by auto
      with 1 2 3 n(2-4) True show ?thesis by (simp add: Renamenx_def keys(3) split del: if_split cong del: if_weak_cong)
    next
      case False
      then have "Exists h (env 2) rnd strNewKey (Some 0) None cl w = Inr (RC_SUCCESS, Some 1, None, cl1, w1)" using 1(1) by (simp only: if_False)
      with False 1(2) show ?thesis by (simp add: Renamenx_def keys(3) del: not_None_eq)
    qed
  qed
  ultimately show ?thesis by blast
qed

text \<open>A redis server: two servers of a cluster, each with its part of one key space.\<close>

definition key_command :: "cstr list \<Rightarrow> key_space \<Rightarrow> redisReply \<times> key_space" where
  "key_command args m =
     (case args of
        [cmd, k] \<Rightarrow>
          if cmd = bytes ''dump'' then (case m k of None \<Rightarrow> nil_reply | Some (v, t) \<Rightarrow> string_reply v, m)
          else if cmd = bytes ''pttl'' then (integer_reply (pttl_of (m k)), m)
          else if cmd = bytes ''exists'' then (integer_reply (if m k = None then 0 else 1), m)
          else (integer_reply (if m k = None then 0 else 1), m(k := None))
      | [cmd, k, n, v] \<Rightarrow> (status_ok, m(k \<mapsto> (v, if digits_value 0 n = 0 then None else Some (int (digits_value 0 n)))))
      | _ \<Rightarrow> (nil_reply, m))"

definition key_redis :: "key_space hiredis" where
  "key_redis = \<lparr>redisCommandArgv = (\<lambda>a args w. case key_command args w of (r, w) \<Rightarrow> (Some r, w)),
     redisAppendCommandArgv = (\<lambda>a args w. (True, w)), redisGetReply = (\<lambda>a w. (None, w)), redisConnectWithTimeout = (\<lambda>a w. (True, w))\<rparr>"

lemma key_redis_ok: "redis_keys key_redis (\<lambda>a k. True) (\<lambda>w. w)"
  unfolding redis_keys_def answers_def
  by (auto simp: key_redis_def key_command_def print_int_def split: option.splits prod.splits)

theorem redis_rename_witness:
  "(\<exists>cl' w'. Rename key_redis (\<lambda>_ _ s. s) 0 [97] [98] two_servers [[97] \<mapsto> ([120], Some 5), [98] \<mapsto> ([121], None)] = Inr (RC_SUCCESS, cl', w') \<and>
      w' [97] = None \<and> w' [98] = Some ([120], Some 5))"
proof -
  let ?w = "[[97] \<mapsto> ([120], Some 5), [98] \<mapsto> ([121], None)] :: key_space"
  have 1: "serving (\<lambda>a k. True) two_servers {[97], [98]}"
    unfolding serving_def served_def by (simp add: slots_ab find_ab) (simp add: two_servers_def)
  have 2: "\<not> InSameNode [97] [98] two_servers"
    unfolding InSameNode_def slots_ab find_ab by (simp add: two_servers_def)
  have 3: "?w [97] = Some ([120], Some 5)" "live ([120], Some 5)" by (simp_all add: live_def)
  from redis_rename [where w = ?w, OF key_redis_ok 1 2 3, of "\<lambda>_ _ s. s" 0] show ?thesis by auto
qed

text \<open>
  \<open>Rename\<close> of a key that does not exist fails, but the new key is deleted; redis itself leaves it alone.
\<close>

theorem redis_rename_missing:
  assumes "redis_keys h serves store" "serving serves cl {strKey, strNewKey}" "\<not> InSameNode strKey strNewKey cl"
    and "store w strKey = None"
  shows "\<exists>cl' w'. Rename h env rnd strKey strNewKey cl w = Inr (RC_REPLY_ERR, cl', w') \<and> store w' = (store w)(strNewKey := None)"
proof -
  from Dump_ok [OF assms(1,2), of strKey "env 0" rnd "[]" w] obtain cl1 w1 where
    1: "Dump h (env 0) rnd strKey (Some []) None cl w = Inr (RC_SUCCESS, Some [], None, cl1, w1)" "store w1 = store w"
      "serving serves cl1 {strKey, strNewKey}" by (auto simp: assms(4))
  from Rename_undo_ok [OF assms(1) 1(3), of "env 5" rnd w1] obtain cl2 w2 where
    "Rename_undo h (env 5) rnd strNewKey RC_SUCCESS cl1 w1 = Inr (RC_REPLY_ERR, cl2, w2)" "store w2 = (store w)(strNewKey := None)"
    by (auto simp: 1(2))
  with 1 show ?thesis by (simp add: Rename_def assms(3))
qed

text \<open>
  On one server \<open>Renamenx\<close> reports an error whatever the server does: the reply of \<open>RENAMENX\<close> is an integer,
  and \<open>FetchString\<close> refuses it.
\<close>

theorem redis_renamenx_same_node:
  assumes "serving serves cl {strKey}" "InSameNode strKey strNewKey cl"
    and "\<And>a. serves a strKey \<Longrightarrow> answers h a store [bytes ''renamenx'', strKey, strNewKey] (integer_reply n) m w"
  shows "\<exists>cl' w'. Renamenx h env rnd strKey strNewKey cl w = Inr (RC_REPLY_ERR, cl', w') \<and> store w' = m"
proof -
  have "BIND_STR None (integer_reply n) = Inr (RC_REPLY_ERR, None)"
    "StuResConv (bytes ''OK'') RC_REPLY_ERR (integer_reply n) = Inr RC_REPLY_ERR"
    by (simp_all add: BIND_STR_def FetchString_def integer_reply_def StuResConv_def RC_defs)
  then have "\<exists>cl' w'. ExecuteImpl h (env 0) rnd (bytes ''renamenx'') (SetArgs_ss strKey strNewKey) (slot_of strKey) (BIND_STR None)
      (StuResConv (bytes ''OK'')) None cl w = Inr (RC_REPLY_ERR, None, cl', w') \<and> store w' = m \<and> serving serves cl' {strKey}"
    by (intro ExecuteImpl_answered [where n = RC_REPLY_ERR, OF assms(1) _ _ _ assms(3)]) (simp_all add: set_args_defs Let_def del: bytes_simps)
  then show ?thesis using assms(2) by (auto simp: Renamenx_def)
qed

end
