(* ===== verification/Tcp_Socket.thy ===== *)
theory Tcp_Socket
  imports Prelude
begin

unbundle bit_operations_syntax

text \<open>
  Sockets of \<open>source/utils/tcp_comm/tcp_comm.cpp\<close>: \<open>TcpSocket\<close>, which reads and writes whole buffers, and
  \<open>TcpClient\<close> and \<open>TcpServer\<close> over it. The system calls are the record \<open>os\<close>, functions over a world that
  is not looked into. A call that fails gives \<open>errno\<close>; \<open>send\<close> gives the number of bytes it took and
  \<open>recv\<close> the bytes it stored, none of them at the end of the stream. A loop that never ends is \<open>None\<close>.
\<close>

section \<open>System calls\<close>

text \<open>\<open>EWOULDBLOCK\<close> is \<open>EAGAIN\<close>.\<close>

datatype errno = EINTR | EAGAIN | EINPROGRESS | E_other

datatype sockopt = SO_KEEPALIVE bool | SO_LINGER bool int | SO_REUSEADDR bool

datatype epoll_op = EPOLL_CTL_ADD | EPOLL_CTL_MOD | EPOLL_CTL_DEL

datatype epoll_event = EPOLLIN | EPOLLOUT | EPOLLERR | EPOLLHUP | EPOLLRDHUP | EPOLLET

text \<open>An event that \<open>epoll_wait\<close> stored: the descriptor and what happened on it.\<close>

type_synonym epoll_report = "int \<times> epoll_event list"

record 'w os =
  sys_socket :: "'w \<Rightarrow> int \<times> 'w"
  sys_connect :: "int \<Rightarrow> cstr \<Rightarrow> 16 word \<Rightarrow> 'w \<Rightarrow> errno option \<times> 'w"
  sys_bind :: "int \<Rightarrow> 16 word \<Rightarrow> 'w \<Rightarrow> int \<times> 'w"
  sys_listen :: "int \<Rightarrow> 'w \<Rightarrow> int \<times> 'w"
  sys_accept :: "int \<Rightarrow> 'w \<Rightarrow> (int \<times> cstr) \<times> 'w"
  sys_send :: "int \<Rightarrow> cstr \<Rightarrow> 'w \<Rightarrow> (errno + nat) \<times> 'w"
  sys_recv :: "int \<Rightarrow> int \<Rightarrow> 'w \<Rightarrow> (errno + cstr) \<times> 'w"
  sys_getfl :: "int \<Rightarrow> 'w \<Rightarrow> 32 word \<times> 'w"
  sys_setfl :: "int \<Rightarrow> 32 word \<Rightarrow> 'w \<Rightarrow> int \<times> 'w"
  sys_setsockopt :: "int \<Rightarrow> sockopt \<Rightarrow> 'w \<Rightarrow> 'w"
  sys_so_error :: "int \<Rightarrow> 'w \<Rightarrow> (int \<times> int) \<times> 'w"
  sys_shutdown :: "int \<Rightarrow> 'w \<Rightarrow> 'w"
  sys_close :: "int \<Rightarrow> 'w \<Rightarrow> 'w"
  sys_epoll_create :: "'w \<Rightarrow> int \<times> 'w"
  sys_epoll_ctl :: "int \<Rightarrow> epoll_op \<Rightarrow> int \<Rightarrow> epoll_event list \<Rightarrow> 'w \<Rightarrow> int \<times> 'w"
  sys_epoll_wait :: "int \<Rightarrow> int \<Rightarrow> 'w \<Rightarrow> epoll_report list \<times> 'w"

definition BUFFER_MAX_LEN :: nat where "BUFFER_MAX_LEN = 8192"

definition O_NONBLOCK :: "32 word" where "O_NONBLOCK = 2048"

definition htons :: "int \<Rightarrow> 16 word" where "htons port = word_of_int port"

section \<open>TcpSocket\<close>

record tcp_socket =
  m_socket :: int
  m_client_ip :: cstr

definition TcpSocket_new :: tcp_socket where
  "TcpSocket_new = \<lparr>m_socket = - 1, m_client_ip = []\<rparr>"

definition setSocketOpt :: "'w os \<Rightarrow> tcp_socket \<Rightarrow> 'w \<Rightarrow> 'w" where
  "setSocketOpt os s w =
     sys_setsockopt os (m_socket s) (SO_LINGER False 1) (sys_setsockopt os (m_socket s) (SO_KEEPALIVE True) w)"

definition SetNonBlocking :: "'w os \<Rightarrow> bool \<Rightarrow> tcp_socket \<Rightarrow> 'w \<Rightarrow> int \<times> 'w" where
  "SetNonBlocking os blocking s w =
     (case sys_getfl os (m_socket s) w of (opts, w) \<Rightarrow>
        if sint opts < 0 then (- 1, w)
        else case sys_setfl os (m_socket s) (if blocking then opts AND NOT O_NONBLOCK else opts OR O_NONBLOCK) w of (r, w) \<Rightarrow>
               if r < 0 then (- 1, w) else (0, w))"

definition socket_Connect :: "'w os \<Rightarrow> cstr \<Rightarrow> int \<Rightarrow> bool \<Rightarrow> tcp_socket \<Rightarrow> 'w \<Rightarrow> errno option \<times> tcp_socket \<times> 'w" where
  "socket_Connect os remote_ip remote_port non_blocking s w =
     (case sys_socket os w of (fd, w) \<Rightarrow>
        let s = s\<lparr>m_socket := fd\<rparr>; w = setSocketOpt os s w;
            w = (if non_blocking then snd (SetNonBlocking os False s w) else w)
        in case sys_connect os fd remote_ip (htons remote_port) w of (r, w) \<Rightarrow> (r, s, w))"

text \<open>The loop over the reported events: the connection is there, failed, or nothing was decided.\<close>

fun connect_events :: "epoll_report list \<Rightarrow> bool option" where
  "connect_events [] = None"
| "connect_events ((fd, ev) # es) =
     (if EPOLLERR \<in> set ev \<or> EPOLLRDHUP \<in> set ev \<or> EPOLLHUP \<in> set ev then Some False
      else if EPOLLOUT \<in> set ev then Some True
      else connect_events es)"

definition ConnectWithTimeout :: "'w os \<Rightarrow> cstr \<Rightarrow> int \<Rightarrow> int \<Rightarrow> tcp_socket \<Rightarrow> 'w \<Rightarrow> int \<times> tcp_socket \<times> 'w" where
  "ConnectWithTimeout os remote_ip remote_port time_out_ms s w =
     (case sys_socket os w of (fd, w) \<Rightarrow>
        let s = s\<lparr>m_socket := fd\<rparr> in
        if fd < 0 then (- 1, s, w)
        else
          let w = setSocketOpt os s w; w = snd (SetNonBlocking os False s w) in
          case sys_connect os fd remote_ip (htons remote_port) w of (r, w) \<Rightarrow>
            if r \<noteq> None \<and> r \<noteq> Some EINPROGRESS then (- 1, s, sys_close os fd w)
            else case sys_epoll_create os w of (epollfd, w) \<Rightarrow>
              case sys_epoll_ctl os epollfd EPOLL_CTL_ADD fd [EPOLLIN, EPOLLOUT, EPOLLERR, EPOLLHUP, EPOLLET] w of (r, w) \<Rightarrow>
                if r < 0 then (- 1, s, sys_close os epollfd (sys_close os fd w))
                else case sys_epoll_wait os epollfd time_out_ms w of (evs, w) \<Rightarrow>
                  if connect_events evs = Some True
                  then (0, s, sys_close os epollfd (snd (sys_epoll_ctl os epollfd EPOLL_CTL_DEL fd [] (snd (SetNonBlocking os True s w)))))
                  else (- 1, s, sys_close os epollfd (snd (sys_epoll_ctl os epollfd EPOLL_CTL_DEL fd [] (sys_close os fd w)))))"

definition socket_Accept :: "'w os \<Rightarrow> int \<Rightarrow> tcp_socket \<Rightarrow> 'w \<Rightarrow> int \<times> tcp_socket \<times> 'w" where
  "socket_Accept os listen_socket s w =
     (case sys_accept os listen_socket w of ((fd, ip), w) \<Rightarrow>
        if fd = - 1 then (- 1, s\<lparr>m_socket := fd\<rparr>, w)
        else let s = s\<lparr>m_socket := fd, m_client_ip := ip\<rparr> in (0, s, snd (SetNonBlocking os False s (setSocketOpt os s w))))"

text \<open>The loop of \<open>Write\<close>: what is left when it ends, and the world.\<close>

partial_function (option) write_loop :: "'w os \<Rightarrow> int \<Rightarrow> cstr \<Rightarrow> 'w \<Rightarrow> (cstr \<times> 'w) option" where
  "write_loop os fd buf w =
     (if buf = [] then Some ([], w)
      else case sys_send os fd buf w of
             (Inr n, w) \<Rightarrow> if 0 < n then write_loop os fd (drop n buf) w else Some (buf, w)
           | (Inl e, w) \<Rightarrow> if e = EINTR \<or> e = EAGAIN then write_loop os fd buf w else Some (buf, w))"

definition socket_Write :: "'w os \<Rightarrow> cstr \<Rightarrow> tcp_socket \<Rightarrow> 'w \<Rightarrow> (int \<times> 'w) option" where
  "socket_Write os buf s w =
     map_option (\<lambda>(left, w). (if left \<noteq> [] then - 1 else 0, w)) (write_loop os (m_socket s) buf w)"

text \<open>
  The loop of \<open>Read\<close>. \<open>tmp\<close> are the bytes stored in the array so far; a byte stored behind its
  end is undefined behaviour. The result has what is left, which is 0 after all data was read.
\<close>

partial_function (option) read_loop :: "'w os \<Rightarrow> int \<Rightarrow> int \<Rightarrow> int \<Rightarrow> cstr \<Rightarrow> 'w \<Rightarrow> (int \<times> cstr \<times> 'w) result option" where
  "read_loop os fd len left tmp w =
     (if 0 < left
      then case sys_recv os fd left w of
             (Inr b, w) \<Rightarrow>
               if b = [] then Some (Inr (left, tmp, w))
               else if BUFFER_MAX_LEN < length tmp + length b then Some (Inl Undefined_behaviour)
               else read_loop os fd len (left - int (length b)) (tmp @ b) w
           | (Inl e, w) \<Rightarrow>
               if e = EINTR \<or> e = EAGAIN
               then if len < 0 then Some (Inr (0, tmp, w)) else read_loop os fd len left tmp w
               else Some (Inr (left, tmp, w))
      else Some (Inr (left, tmp, w)))"

definition socket_Read :: "'w os \<Rightarrow> cstr \<Rightarrow> int \<Rightarrow> tcp_socket \<Rightarrow> 'w \<Rightarrow> (int \<times> cstr \<times> 'w) result option" where
  "socket_Read os buf len s w =
     (if len = 0 then Some (Inr (0, buf, w))
      else map_option (\<lambda>r. bind_result r (\<lambda>(left, tmp, w). Inr (if 0 < left then (- 1, buf, w) else (0, tmp, w))))
             (read_loop os (m_socket s) len (if 0 < len then len else int BUFFER_MAX_LEN) [] w))"

definition socket_Close :: "'w os \<Rightarrow> tcp_socket \<Rightarrow> 'w \<Rightarrow> tcp_socket \<times> 'w" where
  "socket_Close os s w =
     (if m_socket s \<le> 0 then (s, w)
      else (s\<lparr>m_socket := - 1\<rparr>,
            sys_close os (m_socket s) (sys_setsockopt os (m_socket s) (SO_LINGER True 0) (sys_shutdown os (m_socket s) w))))"

section \<open>TcpClient and TcpServer\<close>

record tcp_client =
  cl_conn_stat :: bool
  cl_tcp_socket :: tcp_socket

definition TcpClient_new :: tcp_client where
  "TcpClient_new = \<lparr>cl_conn_stat = False, cl_tcp_socket = TcpSocket_new\<rparr>"

definition client_Connect :: "'w os \<Rightarrow> cstr \<Rightarrow> int \<Rightarrow> tcp_client \<Rightarrow> 'w \<Rightarrow> int \<times> tcp_client \<times> 'w" where
  "client_Connect os remote_ip remote_port c w =
     (case socket_Connect os remote_ip remote_port False (cl_tcp_socket c) w of (r, s, w) \<Rightarrow>
        let c = c\<lparr>cl_tcp_socket := s\<rparr> in
        if r \<noteq> None then (- 1, c, w)
        else case SetNonBlocking os False s w of (r, w) \<Rightarrow>
               if r \<noteq> 0 then (- 1, c, w) else (0, c\<lparr>cl_conn_stat := True\<rparr>, w))"

definition client_Read :: "'w os \<Rightarrow> cstr \<Rightarrow> tcp_client \<Rightarrow> 'w \<Rightarrow> (int \<times> cstr \<times> 'w) result option" where
  "client_Read os buf c w = socket_Read os buf (- 1) (cl_tcp_socket c) w"

definition client_Write :: "'w os \<Rightarrow> cstr \<Rightarrow> tcp_client \<Rightarrow> 'w \<Rightarrow> (int \<times> 'w) option" where
  "client_Write os buf c w = socket_Write os buf (cl_tcp_socket c) w"

definition client_Close :: "'w os \<Rightarrow> tcp_client \<Rightarrow> 'w \<Rightarrow> tcp_client \<times> 'w" where
  "client_Close os c w =
     (case socket_Close os (cl_tcp_socket c) w of (s, w) \<Rightarrow> (c\<lparr>cl_conn_stat := False, cl_tcp_socket := s\<rparr>, w))"

record tcp_server =
  sv_conn_stat :: bool
  m_listen_socket :: int
  sv_tcp_socket :: tcp_socket

text \<open>A listening socket, as \<open>TcpServer::Init\<close>, \<open>TcpSyncServer::Init\<close> and \<open>TcpAsync::Init\<close> make it.\<close>

definition make_listener :: "'w os \<Rightarrow> bool \<Rightarrow> int \<Rightarrow> 'w \<Rightarrow> int \<times> int \<times> 'w" where
  "make_listener os non_blocking port w =
     (case sys_socket os w of (fd, w) \<Rightarrow>
        let w = (if non_blocking then case sys_getfl os fd w of (opts, w) \<Rightarrow> snd (sys_setfl os fd (opts OR O_NONBLOCK) w) else w);
            w = sys_setsockopt os fd (SO_REUSEADDR True) w
        in case sys_bind os fd (htons port) w of (r, w) \<Rightarrow>
             if r = - 1 then (- 1, fd, sys_close os fd w)
             else case sys_listen os fd w of (r, w) \<Rightarrow>
                    if r = - 1 then (- 1, fd, sys_close os fd w) else (0, fd, w))"

definition server_Init :: "'w os \<Rightarrow> int \<Rightarrow> tcp_server \<Rightarrow> 'w \<Rightarrow> int \<times> tcp_server \<times> 'w" where
  "server_Init os port sv w =
     (case make_listener os False port w of (r, fd, w) \<Rightarrow> (r, sv\<lparr>m_listen_socket := fd\<rparr>, w))"

definition server_Accept :: "'w os \<Rightarrow> tcp_server \<Rightarrow> 'w \<Rightarrow> int \<times> tcp_server \<times> 'w" where
  "server_Accept os sv w =
     (case socket_Accept os (m_listen_socket sv) (sv_tcp_socket sv) w of (r, s, w) \<Rightarrow>
        let sv = sv\<lparr>sv_tcp_socket := s\<rparr> in
        if r \<noteq> 0 then (- 1, sv, w) else (0, sv\<lparr>sv_conn_stat := True\<rparr>, w))"

definition server_Read :: "'w os \<Rightarrow> cstr \<Rightarrow> tcp_server \<Rightarrow> 'w \<Rightarrow> (int \<times> cstr \<times> 'w) result option" where
  "server_Read os buf sv w = socket_Read os buf (- 1) (sv_tcp_socket sv) w"

definition server_Write :: "'w os \<Rightarrow> cstr \<Rightarrow> tcp_server \<Rightarrow> 'w \<Rightarrow> (int \<times> 'w) option" where
  "server_Write os buf sv w = socket_Write os buf (sv_tcp_socket sv) w"

definition server_Close :: "'w os \<Rightarrow> tcp_server \<Rightarrow> 'w \<Rightarrow> tcp_server \<times> 'w" where
  "server_Close os sv w =
     (case socket_Close os (sv_tcp_socket sv) w of (s, w) \<Rightarrow> (sv\<lparr>sv_conn_stat := False, sv_tcp_socket := s\<rparr>, w))"

end
