(* ===== verification/Tcp_Comm.thy ===== *)
theory Tcp_Comm
  imports Tcp_Socket
begin

text \<open>
  The communication classes of \<open>source/utils/tcp_comm/tcp_comm.cpp\<close>: one request and its response over a
  connection (\<open>TcpSyncClient\<close>, \<open>TcpSyncServer\<close>), and messages with a length in front over a connection
  that stays open (\<open>TcpAsync\<close> and its subclasses). An endless loop of a thread is given by its round; the
  virtual methods that a user overrides are arguments, and the arguments of \<open>DoAfterRecv\<close> are kept in
  the list \<open>ta_received\<close>. A thread that waits for a condition, like a loop that does not end, is \<open>None\<close>.
\<close>

section \<open>TcpSyncClient\<close>

record tcp_sync_client =
  yc_epoll_handle :: int
  yc_tcp_socket :: tcp_socket

definition TcpSyncClient_new :: "'w os \<Rightarrow> 'w \<Rightarrow> tcp_sync_client \<times> 'w" where
  "TcpSyncClient_new os w =
     (case sys_epoll_create os w of (ep, w) \<Rightarrow> (\<lparr>yc_epoll_handle = ep, yc_tcp_socket = TcpSocket_new\<rparr>, w))"

definition sync_Connect :: "'w os \<Rightarrow> cstr \<Rightarrow> int \<Rightarrow> tcp_sync_client \<Rightarrow> 'w \<Rightarrow> int \<times> tcp_sync_client \<times> 'w" where
  "sync_Connect os remote_ip remote_port c w =
     (case socket_Connect os remote_ip remote_port False (yc_tcp_socket c) w of (r, s, w) \<Rightarrow>
        let c = c\<lparr>yc_tcp_socket := s\<rparr> in
        if r \<noteq> None then (- 1, c, w)
        else case SetNonBlocking os False s w of (r, w) \<Rightarrow>
               if r \<noteq> 0 then (- 1, c, w)
               else (0, c, snd (sys_epoll_ctl os (yc_epoll_handle c) EPOLL_CTL_ADD (m_socket s) [EPOLLIN] w)))"

definition sync_Connect_timeout :: "'w os \<Rightarrow> cstr \<Rightarrow> int \<Rightarrow> int \<Rightarrow> tcp_sync_client \<Rightarrow> 'w \<Rightarrow> int \<times> tcp_sync_client \<times> 'w" where
  "sync_Connect_timeout os remote_ip remote_port timeout_ms c w =
     (case socket_Connect os remote_ip remote_port True (yc_tcp_socket c) w of (r, s, w) \<Rightarrow>
        let c = c\<lparr>yc_tcp_socket := s\<rparr>; ctl = sys_epoll_ctl os (yc_epoll_handle c) in
        if r = None then (0, c, snd (ctl EPOLL_CTL_ADD (m_socket s) [EPOLLIN] w))
        else if r \<noteq> Some EINPROGRESS then (- 1, c, w)
        else case sys_epoll_wait os (yc_epoll_handle c) timeout_ms (snd (ctl EPOLL_CTL_ADD (m_socket s) [EPOLLOUT] w)) of (evs, w) \<Rightarrow>
               if evs = [] then (- 1, c, w)
               else case sys_so_error os (m_socket s) w of ((r, err), w) \<Rightarrow>
                      if r \<noteq> 0 \<or> err \<noteq> 0 then (- 1, c, w)
                      else (0, c, snd (ctl EPOLL_CTL_MOD (m_socket s) [EPOLLIN] w)))"

definition sync_Close :: "'w os \<Rightarrow> tcp_sync_client \<Rightarrow> 'w \<Rightarrow> tcp_sync_client \<times> 'w" where
  "sync_Close os c w =
     (if yc_epoll_handle c \<le> 0 then (c, w)
      else let ep = yc_epoll_handle c; s = yc_tcp_socket c in
        case socket_Close os s (sys_close os ep (snd (sys_epoll_ctl os ep EPOLL_CTL_DEL (m_socket s) [] w))) of (s, w) \<Rightarrow>
          (c\<lparr>yc_tcp_socket := s, yc_epoll_handle := - 1\<rparr>, w))"

text \<open>The loop over the events: a failed \<open>Read\<close> ends it with -3.\<close>

fun sync_events :: "'w os \<Rightarrow> tcp_socket \<Rightarrow> epoll_report list \<Rightarrow> cstr \<Rightarrow> 'w \<Rightarrow> (int \<times> cstr \<times> 'w) result option" where
  "sync_events os s [] rsp w = Some (Inr (0, rsp, w))"
| "sync_events os s ((fd, ev) # es) rsp w =
     (if fd = m_socket s \<and> EPOLLIN \<in> set ev
      then case socket_Read os rsp (- 1) s w of
             None \<Rightarrow> None
           | Some (Inl e) \<Rightarrow> Some (Inl e)
           | Some (Inr (ret, rsp, w)) \<Rightarrow> if ret \<noteq> 0 then Some (Inr (- 3, rsp, w)) else sync_events os s es rsp w
      else sync_events os s es rsp w)"

definition SyncComm :: "'w os \<Rightarrow> int \<Rightarrow> cstr \<Rightarrow> cstr \<Rightarrow> tcp_sync_client \<Rightarrow> 'w \<Rightarrow> (int \<times> cstr \<times> tcp_sync_client \<times> 'w) result option" where
  "SyncComm os timeout_ms req rsp c w =
     (let finish = (\<lambda>ret rsp w. case sync_Close os c w of (c, w) \<Rightarrow> Inr (ret, rsp, c, w)) in
      case socket_Write os req (yc_tcp_socket c) w of
        None \<Rightarrow> None
      | Some (ret, w) \<Rightarrow>
          if ret \<noteq> 0 then Some (finish (- 1) rsp w)
          else case sys_epoll_wait os (yc_epoll_handle c) timeout_ms w of (evs, w) \<Rightarrow>
            if evs = [] then Some (finish (- 2) rsp w)
            else map_option (\<lambda>r. bind_result r (\<lambda>(ret, rsp, w). finish ret rsp w))
                   (sync_events os (yc_tcp_socket c) evs rsp w))"

section \<open>TcpSyncServer\<close>

record tcp_sync_server =
  ys_listen_socket :: int
  ys_epoll_handle :: int
  ys_do_msg :: "(cstr \<Rightarrow> cstr \<Rightarrow> int \<times> cstr) option"

definition sync_server_Init ::
  "'w os \<Rightarrow> int \<Rightarrow> (cstr \<Rightarrow> cstr \<Rightarrow> int \<times> cstr) option \<Rightarrow> tcp_sync_server \<Rightarrow> 'w \<Rightarrow> int \<times> tcp_sync_server \<times> 'w" where
  "sync_server_Init os port do_msg sv w =
     (case make_listener os True port w of (r, fd, w) \<Rightarrow>
        let sv = sv\<lparr>ys_listen_socket := fd\<rparr> in
        if r = - 1 then (- 1, sv, w)
        else case sys_epoll_create os w of (ep, w) \<Rightarrow>
               (0, sv\<lparr>ys_epoll_handle := ep, ys_do_msg := do_msg\<rparr>, snd (sys_epoll_ctl os ep EPOLL_CTL_ADD fd [EPOLLIN] w)))"

text \<open>The variables of a thread that executes \<open>Run\<close>; \<open>rn_sock\<close> is not initialised.\<close>

record sync_run =
  rn_sock :: int
  rn_tcp_socket :: tcp_socket
  rn_req :: cstr
  rn_rsp :: cstr

definition run_drop :: "'w os \<Rightarrow> tcp_sync_server \<Rightarrow> sync_run \<Rightarrow> 'w \<Rightarrow> sync_run \<times> 'w" where
  "run_drop os sv r w =
     (case socket_Close os (rn_tcp_socket r) (snd (sys_epoll_ctl os (ys_epoll_handle sv) EPOLL_CTL_DEL (rn_sock r) [] w)) of (s, w) \<Rightarrow>
        (r\<lparr>rn_tcp_socket := s\<rparr>, w))"

definition run_request :: "'w os \<Rightarrow> tcp_sync_server \<Rightarrow> sync_run \<Rightarrow> 'w \<Rightarrow> (sync_run \<times> 'w) result option" where
  "run_request os sv r w =
     (case socket_Read os (rn_req r) (- 1) (rn_tcp_socket r) w of
        None \<Rightarrow> None
      | Some (Inl e) \<Rightarrow> Some (Inl e)
      | Some (Inr (ret, req, w)) \<Rightarrow>
          let r = r\<lparr>rn_req := req\<rparr> in
          if ret \<noteq> 0 then Some (Inr (run_drop os sv r w))
          else case ys_do_msg sv of
                 None \<Rightarrow> Some (Inr (run_drop os sv r w))
               | Some do_msg \<Rightarrow>
                   (case do_msg req (rn_rsp r) of (ret, rsp) \<Rightarrow>
                      let r = r\<lparr>rn_rsp := rsp\<rparr> in
                      if ret \<noteq> 0 then map_option (\<lambda>(_, w). Inr (run_drop os sv r w)) (socket_Write os rsp (rn_tcp_socket r) w)
                      else Some (Inr (run_drop os sv r w))))"

fun run_events :: "'w os \<Rightarrow> tcp_sync_server \<Rightarrow> epoll_report list \<Rightarrow> sync_run \<Rightarrow> 'w \<Rightarrow> (sync_run \<times> 'w) result option" where
  "run_events os sv [] r w = Some (Inr (r, w))"
| "run_events os sv ((fd, ev) # es) r w =
     (if fd = ys_listen_socket sv
      then case socket_Accept os (ys_listen_socket sv) (rn_tcp_socket r) w of (ret, s, w) \<Rightarrow>
             let r = r\<lparr>rn_tcp_socket := s\<rparr> in
             if ret \<noteq> 0 then run_events os sv es r w
             else run_events os sv es (r\<lparr>rn_sock := m_socket s\<rparr>)
                    (snd (sys_epoll_ctl os (ys_epoll_handle sv) EPOLL_CTL_ADD (m_socket s) [EPOLLIN] w))
      else if fd = rn_sock r \<and> EPOLLIN \<in> set ev
      then case run_request os sv r w of
             None \<Rightarrow> None
           | Some (Inl e) \<Rightarrow> Some (Inl e)
           | Some (Inr (r, w)) \<Rightarrow> run_events os sv es r w
      else run_events os sv es r w)"

definition sync_server_Run :: "'w os \<Rightarrow> tcp_sync_server \<Rightarrow> sync_run \<Rightarrow> 'w \<Rightarrow> (sync_run \<times> 'w) result option" where
  "sync_server_Run os sv r w =
     (case sys_epoll_wait os (ys_epoll_handle sv) (- 1) w of (evs, w) \<Rightarrow> run_events os sv evs r w)"

section \<open>TcpAsync\<close>

record tcp_async =
  ta_connect_stat :: bool
  ta_accept_stat :: bool
  ta_remote_port :: int
  ta_len_buff_size :: int
  ta_timeout_ms :: int
  ta_epoll_handle :: int
  ta_listen_socket :: int
  ta_remote_ip :: cstr
  ta_received :: "cstr list"

definition TcpAsync_new :: "'w os \<Rightarrow> tcp_async \<Rightarrow> 'w \<Rightarrow> tcp_async \<times> 'w" where
  "TcpAsync_new os junk w =
     (case sys_epoll_create os w of (ep, w) \<Rightarrow>
        (junk\<lparr>ta_connect_stat := False, ta_accept_stat := False, ta_epoll_handle := ep, ta_received := []\<rparr>, w))"

definition async_Init :: "'w os \<Rightarrow> int \<Rightarrow> int \<Rightarrow> int \<Rightarrow> int \<Rightarrow> cstr \<Rightarrow> tcp_async \<Rightarrow> 'w \<Rightarrow> int \<times> tcp_async \<times> 'w" where
  "async_Init os len_buff_size timeout_ms local_port remote_port remote_ip a w =
     (let a = a\<lparr>ta_len_buff_size := len_buff_size, ta_timeout_ms := timeout_ms, ta_remote_port := remote_port,
                ta_remote_ip := remote_ip\<rparr> in
      if 0 < local_port
      then case make_listener os False local_port w of (r, fd, w) \<Rightarrow>
             (if r = - 1 then - 1 else 0, a\<lparr>ta_listen_socket := fd\<rparr>, w)
      else (0, a, w))"

text \<open>
  Receiving one message, the same code in the three \<open>Read\<close> methods: a header of \<open>m_len_buff_size\<close> bytes, from
  which \<open>CalcMsgSize\<close> gets the size of the rest.
\<close>

datatype recv_outcome = Recv_failed | Recv_header cstr | Recv_message cstr

definition recv_message :: "'w os \<Rightarrow> (cstr \<Rightarrow> int) \<Rightarrow> int \<Rightarrow> tcp_socket \<Rightarrow> 'w \<Rightarrow> (recv_outcome \<times> 'w) result option" where
  "recv_message os CalcMsgSize len_buff_size s w =
     (case socket_Read os [] len_buff_size s w of
        None \<Rightarrow> None
      | Some (Inl e) \<Rightarrow> Some (Inl e)
      | Some (Inr (ret, len_buff, w)) \<Rightarrow>
          if ret \<noteq> 0 then Some (Inr (Recv_failed, w))
          else
            let data_len = CalcMsgSize len_buff in
            if data_len \<le> 0 then Some (Inr (Recv_header len_buff, w))
            else case socket_Read os [] data_len s w of
                   None \<Rightarrow> None
                 | Some (Inl e) \<Rightarrow> Some (Inl e)
                 | Some (Inr (ret, data_buff, w)) \<Rightarrow>
                     Some (Inr (if ret \<noteq> 0 then Recv_failed else Recv_message (len_buff @ data_buff), w)))"

text \<open>
  The loop over the events. \<open>before_recv n\<close> is what \<open>DoBeforeRecv\<close> returns when \<open>n\<close> events are left. The
  result has the arguments of \<open>DoAfterRecv\<close> and whether the connection failed.
\<close>

fun recv_events :: "'w os \<Rightarrow> (cstr \<Rightarrow> int) \<Rightarrow> (nat \<Rightarrow> int) \<Rightarrow> int \<Rightarrow> int \<Rightarrow> tcp_socket \<Rightarrow> epoll_report list \<Rightarrow> cstr list \<Rightarrow> 'w \<Rightarrow>
    (cstr list \<times> bool \<times> 'w) result option" where
  "recv_events os CalcMsgSize before_recv len_buff_size sock s [] got w = Some (Inr (got, False, w))"
| "recv_events os CalcMsgSize before_recv len_buff_size sock s ((fd, ev) # es) got w =
     (if fd = sock \<and> EPOLLIN \<in> set ev
      then if before_recv (length es) \<noteq> 0 then Some (Inr (got, False, w))
           else case recv_message os CalcMsgSize len_buff_size s w of
                  None \<Rightarrow> None
                | Some (Inl e) \<Rightarrow> Some (Inl e)
                | Some (Inr (Recv_failed, w)) \<Rightarrow> Some (Inr (got @ [[]], True, w))
                | Some (Inr (Recv_header m, w)) \<Rightarrow> Some (Inr (got @ [m], False, w))
                | Some (Inr (Recv_message m, w)) \<Rightarrow>
                    recv_events os CalcMsgSize before_recv len_buff_size sock s es (got @ [m]) w
      else recv_events os CalcMsgSize before_recv len_buff_size sock s es got w)"

section \<open>TcpAsyncSimplex\<close>

text \<open>The writing thread with its variables \<open>send_buff\<close> and \<open>tcp_socket\<close>.\<close>

partial_function (option) connect_until :: "'w os \<Rightarrow> cstr \<Rightarrow> int \<Rightarrow> tcp_socket \<Rightarrow> 'w \<Rightarrow> (tcp_socket \<times> 'w) option" where
  "connect_until os ip port s w =
     (case ConnectWithTimeout os ip port 1000 s w of (r, s, w) \<Rightarrow> if r \<noteq> 0 then connect_until os ip port s w else Some (s, w))"

definition simplex_connect :: "'w os \<Rightarrow> tcp_async \<Rightarrow> tcp_socket \<Rightarrow> 'w \<Rightarrow> (tcp_async \<times> tcp_socket \<times> 'w) option" where
  "simplex_connect os a s w =
     (if ta_connect_stat a then Some (a, s, w)
      else case socket_Close os s w of (s, w) \<Rightarrow>
             map_option (\<lambda>(s, w). (a\<lparr>ta_connect_stat := True\<rparr>, s, snd (SetNonBlocking os False s w)))
               (connect_until os (ta_remote_ip a) (ta_remote_port a) s w))"

definition simplex_Write :: "'w os \<Rightarrow> (cstr \<Rightarrow> int \<times> cstr) \<Rightarrow> tcp_async \<times> cstr \<times> tcp_socket \<Rightarrow> 'w \<Rightarrow> ((tcp_async \<times> cstr \<times> tcp_socket) \<times> 'w) option" where
  "simplex_Write os DoBeforeSend st w =
     (case st of (a, send_buff, s) \<Rightarrow>
        case simplex_connect os a s w of
          None \<Rightarrow> None
        | Some (a, s, w) \<Rightarrow>
            (case DoBeforeSend send_buff of (r, send_buff) \<Rightarrow>
               if r \<noteq> 0 then Some ((a, send_buff, s), w)
               else case socket_Write os send_buff s w of
                      None \<Rightarrow> None
                    | Some (ret, w) \<Rightarrow>
                        if ret \<noteq> 0
                        then (case socket_Close os s w of (s, w) \<Rightarrow> Some ((a\<lparr>ta_connect_stat := False\<rparr>, send_buff, s), w))
                        else Some ((a, send_buff, s), w)))"

text \<open>The reading thread with its variables \<open>sock\<close> and \<open>tcp_socket\<close>.\<close>

partial_function (option) accept_until :: "'w os \<Rightarrow> int \<Rightarrow> tcp_socket \<Rightarrow> 'w \<Rightarrow> (tcp_socket \<times> 'w) option" where
  "accept_until os listen_socket s w =
     (case socket_Accept os listen_socket s w of (r, s, w) \<Rightarrow> if r \<noteq> 0 then accept_until os listen_socket s w else Some (s, w))"

definition async_accept :: "'w os \<Rightarrow> tcp_async \<Rightarrow> int \<Rightarrow> tcp_socket \<Rightarrow> 'w \<Rightarrow> (tcp_async \<times> int \<times> tcp_socket \<times> 'w) option" where
  "async_accept os a sock s w =
     (if ta_accept_stat a then Some (a, sock, s, w)
      else map_option (\<lambda>(s, w).
             (a\<lparr>ta_accept_stat := True\<rparr>, m_socket s, s,
              snd (sys_epoll_ctl os (ta_epoll_handle a) EPOLL_CTL_ADD (m_socket s) [EPOLLIN] (snd (SetNonBlocking os False s w)))))
           (accept_until os (ta_listen_socket a) s w))"

definition simplex_Read ::
  "'w os \<Rightarrow> (cstr \<Rightarrow> int) \<Rightarrow> (nat \<Rightarrow> int) \<Rightarrow> tcp_async \<times> int \<times> tcp_socket \<Rightarrow> 'w \<Rightarrow> ((tcp_async \<times> int \<times> tcp_socket) \<times> 'w) result option" where
  "simplex_Read os CalcMsgSize before_recv st w =
     (case st of (a, sock, s) \<Rightarrow>
        case async_accept os a sock s w of
          None \<Rightarrow> None
        | Some (a, sock, s, w) \<Rightarrow>
            (case sys_epoll_wait os (ta_epoll_handle a) (ta_timeout_ms a) w of (evs, w) \<Rightarrow>
               map_option (\<lambda>r. bind_result r (\<lambda>(got, failed, w).
                   let a = a\<lparr>ta_received := ta_received a @ got\<rparr> in
                   if failed
                   then (case socket_Close os s (snd (sys_epoll_ctl os (ta_epoll_handle a) EPOLL_CTL_DEL sock [] w)) of (s, w) \<Rightarrow>
                           Inr ((a\<lparr>ta_accept_stat := False\<rparr>, sock, s), w))
                   else Inr ((a, sock, s), w)))
                 (recv_events os CalcMsgSize before_recv (ta_len_buff_size a) sock s evs [] w)))"

section \<open>TcpAsyncDuplexClient and TcpAsyncDuplexServer\<close>

text \<open>
  One connection for both directions, \<open>m_tcp_socket\<close>, shared by the two threads. A round is taken without
  interference by the other thread.
\<close>

definition WaitConnectStat :: "bool \<Rightarrow> tcp_async \<Rightarrow> tcp_async option" where
  "WaitConnectStat connect_stat a = (if ta_connect_stat a \<noteq> connect_stat then None else Some a)"

definition SetConnectStat :: "bool \<Rightarrow> tcp_async \<Rightarrow> tcp_async" where
  "SetConnectStat connect_stat a = a\<lparr>ta_connect_stat := connect_stat\<rparr>"

definition WaitAcceptStat :: "bool \<Rightarrow> tcp_async \<Rightarrow> tcp_async option" where
  "WaitAcceptStat accept_stat a = (if ta_accept_stat a \<noteq> accept_stat then None else Some a)"

definition SetAcceptStat :: "bool \<Rightarrow> tcp_async \<Rightarrow> tcp_async" where
  "SetAcceptStat accept_stat a = a\<lparr>ta_accept_stat := accept_stat\<rparr>"

partial_function (option) reconnect_until :: "'w os \<Rightarrow> cstr \<Rightarrow> int \<Rightarrow> tcp_socket \<Rightarrow> 'w \<Rightarrow> (tcp_socket \<times> 'w) option" where
  "reconnect_until os ip port s w =
     (case socket_Connect os ip port False s w of (r, s, w) \<Rightarrow> if r \<noteq> None then reconnect_until os ip port s w else Some (s, w))"

definition duplex_connect :: "'w os \<Rightarrow> tcp_async \<Rightarrow> tcp_socket \<Rightarrow> 'w \<Rightarrow> (tcp_async \<times> tcp_socket \<times> 'w) option" where
  "duplex_connect os a s w =
     (if ta_connect_stat a then Some (a, s, w)
      else let w = (if 0 < m_socket s then snd (sys_epoll_ctl os (ta_epoll_handle a) EPOLL_CTL_DEL (m_socket s) [] w) else w) in
        case socket_Close os s w of (s, w) \<Rightarrow>
          map_option (\<lambda>(s, w). (SetConnectStat True a, s,
              snd (sys_epoll_ctl os (ta_epoll_handle a) EPOLL_CTL_ADD (m_socket s) [EPOLLIN] (snd (SetNonBlocking os False s w)))))
            (reconnect_until os (ta_remote_ip a) (ta_remote_port a) s w))"

definition duplex_client_Write ::
  "'w os \<Rightarrow> (cstr \<Rightarrow> int \<times> cstr) \<Rightarrow> cstr \<Rightarrow> tcp_async \<times> tcp_socket \<Rightarrow> 'w \<Rightarrow> (cstr \<times> (tcp_async \<times> tcp_socket) \<times> 'w) option" where
  "duplex_client_Write os DoBeforeSend send_buff st w =
     (case st of (a, s) \<Rightarrow>
        case duplex_connect os a s w of
          None \<Rightarrow> None
        | Some (a, s, w) \<Rightarrow>
            (case DoBeforeSend send_buff of (r, send_buff) \<Rightarrow>
               if r \<noteq> 0 then Some (send_buff, (a, s), w)
               else map_option (\<lambda>(ret, w). (send_buff, (if ret \<noteq> 0 then SetConnectStat False a else a, s), w))
                      (socket_Write os send_buff s w)))"

definition duplex_client_Read ::
  "'w os \<Rightarrow> (cstr \<Rightarrow> int) \<Rightarrow> (nat \<Rightarrow> int) \<Rightarrow> tcp_async \<times> tcp_socket \<Rightarrow> 'w \<Rightarrow> ((tcp_async \<times> tcp_socket) \<times> 'w) result option" where
  "duplex_client_Read os CalcMsgSize before_recv st w =
     (case st of (a, s) \<Rightarrow>
        case WaitConnectStat True a of
          None \<Rightarrow> None
        | Some a \<Rightarrow>
            (case sys_epoll_wait os (ta_epoll_handle a) (ta_timeout_ms a) w of (evs, w) \<Rightarrow>
               map_option (\<lambda>r. bind_result r (\<lambda>(got, failed, w).
                   let a = a\<lparr>ta_received := ta_received a @ got\<rparr> in
                   Inr ((if failed then SetConnectStat False a else a, s), w)))
                 (recv_events os CalcMsgSize before_recv (ta_len_buff_size a) (m_socket s) s evs [] w)))"

definition duplex_server_Write ::
  "'w os \<Rightarrow> (cstr \<Rightarrow> int \<times> cstr) \<Rightarrow> cstr \<Rightarrow> tcp_async \<times> tcp_socket \<Rightarrow> 'w \<Rightarrow> (cstr \<times> (tcp_async \<times> tcp_socket) \<times> 'w) option" where
  "duplex_server_Write os DoBeforeSend send_buff st w =
     (case st of (a, s) \<Rightarrow>
        case WaitAcceptStat True a of
          None \<Rightarrow> None
        | Some a \<Rightarrow>
            (case DoBeforeSend send_buff of (r, send_buff) \<Rightarrow>
               if r \<noteq> 0 then Some (send_buff, (a, s), w)
               else map_option (\<lambda>(ret, w). (send_buff, (if ret \<noteq> 0 then SetAcceptStat False a else a, s), w))
                      (socket_Write os send_buff s w)))"

definition duplex_server_Read ::
  "'w os \<Rightarrow> (cstr \<Rightarrow> int) \<Rightarrow> (nat \<Rightarrow> int) \<Rightarrow> int \<Rightarrow> tcp_async \<times> tcp_socket \<Rightarrow> 'w \<Rightarrow> (int \<times> (tcp_async \<times> tcp_socket) \<times> 'w) result option" where
  "duplex_server_Read os CalcMsgSize before_recv sock st w =
     (case st of (a, s) \<Rightarrow>
        case async_accept os a sock s w of
          None \<Rightarrow> None
        | Some (a, sock, s, w) \<Rightarrow>
            (case sys_epoll_wait os (ta_epoll_handle a) (ta_timeout_ms a) w of (evs, w) \<Rightarrow>
               map_option (\<lambda>r. bind_result r (\<lambda>(got, failed, w).
                   let a = a\<lparr>ta_received := ta_received a @ got\<rparr> in
                   if failed
                   then (case socket_Close os s (snd (sys_epoll_ctl os (ta_epoll_handle a) EPOLL_CTL_DEL sock [] w)) of (s, w) \<Rightarrow>
                           Inr (sock, (SetAcceptStat False a, s), w))
                   else Inr (sock, (a, s), w)))
                 (recv_events os CalcMsgSize before_recv (ta_len_buff_size a) sock s evs [] w)))"

end
