(* ===== verification/Tcp_Comm_Props.thy ===== *)
theory Tcp_Comm_Props
  imports Tcp_Comm
begin

text \<open>
  What the classes of \<open>tcp_comm.cpp\<close> make of a TCP stream: buffers are written and read whole, messages with a
  length in front come out as they went in, and the places where bytes are lost or memory is overwritten.
\<close>

section \<open>A TCP stream\<close>

text \<open>
  What TCP promises at its two ends. \<open>send_ok\<close>: every call takes some of the bytes in order (\<open>out\<close>), or is
  interrupted or finds no room, and that only finitely often (\<open>lag\<close>). \<open>recv_ok\<close>: as long as bytes are to
  come (\<open>inp\<close>), every call gives some of them in order, or is interrupted or finds none yet.
\<close>

definition send_ok :: "'w os \<Rightarrow> int \<Rightarrow> ('w \<Rightarrow> cstr) \<Rightarrow> ('w \<Rightarrow> nat) \<Rightarrow> bool" where
  "send_ok os fd out lag \<longleftrightarrow> (\<forall>buf w. buf \<noteq> [] \<longrightarrow>
     (case sys_send os fd buf w of
        (Inr n, w') \<Rightarrow> 0 < n \<and> n \<le> length buf \<and> out w' = out w @ take n buf
      | (Inl e, w') \<Rightarrow> (e = EINTR \<or> e = EAGAIN) \<and> out w' = out w \<and> lag w' < lag w))"

definition recv_ok :: "'w os \<Rightarrow> int \<Rightarrow> ('w \<Rightarrow> cstr) \<Rightarrow> ('w \<Rightarrow> nat) \<Rightarrow> bool" where
  "recv_ok os fd inp lag \<longleftrightarrow> (\<forall>n w. 0 < n \<longrightarrow> inp w \<noteq> [] \<longrightarrow>
     (case sys_recv os fd n w of
        (Inr b, w') \<Rightarrow> b \<noteq> [] \<and> int (length b) \<le> n \<and> inp w = b @ inp w'
      | (Inl e, w') \<Rightarrow> (e = EINTR \<or> e = EAGAIN) \<and> inp w' = inp w \<and> lag w' < lag w))"

lemma write_loop_all:
  assumes "send_ok os fd out lag"
  shows "\<exists>w'. write_loop os fd buf w = Some ([], w') \<and> out w' = out w @ buf"
proof (induction "(length buf, lag w)" arbitrary: buf w rule: wf_induct_rule [OF wf_lex_prod [OF wf_less_than wf_less_than]])
  case 1
  note IH = this
  show ?case
  proof (cases "buf = []")
    case False
    obtain r w1 where r: "sys_send os fd buf w = (r, w1)" by fastforce
    note ok = assms [unfolded send_ok_def, rule_format, OF False, of w, unfolded r]
    show ?thesis
    proof (cases r)
      case (Inl e)
      with ok have "e = EINTR \<or> e = EAGAIN" "out w1 = out w" "lag w1 < lag w" by auto
      moreover from this IH [of buf w1] obtain w' where "write_loop os fd buf w1 = Some ([], w')" "out w' = out w1 @ buf" by auto
      ultimately show ?thesis using False Inl r by (subst write_loop.simps) auto
    next
      case (Inr n)
      with ok have n: "0 < n" "n \<le> length buf" "out w1 = out w @ take n buf" by auto
      then have "length (drop n buf) < length buf" using False by simp
      with IH [of "drop n buf" w1] obtain w' where "write_loop os fd (drop n buf) w1 = Some ([], w')" "out w' = out w1 @ drop n buf"
        by auto
      with n False Inr r show ?thesis by (subst write_loop.simps) auto
    qed
  qed (simp add: write_loop.simps)
qed

lemma socket_Write_all:
  assumes "send_ok os (m_socket s) out lag"
  shows "\<exists>w'. socket_Write os buf s w = Some (0, w') \<and> out w' = out w @ buf"
  using write_loop_all [OF assms, of buf w] by (auto simp: socket_Write_def)

lemma read_loop_exact:
  assumes "recv_ok os fd inp lag" "0 < len"
  shows "0 \<le> left \<Longrightarrow> left \<le> int (length (inp w)) \<Longrightarrow> int (length tmp) + left \<le> int BUFFER_MAX_LEN \<Longrightarrow>
    \<exists>w'. read_loop os fd len left tmp w = Some (Inr (0, tmp @ take (nat left) (inp w), w')) \<and> inp w' = drop (nat left) (inp w)"
proof (induction "(nat left, lag w)" arbitrary: left tmp w rule: wf_induct_rule [OF wf_lex_prod [OF wf_less_than wf_less_than]])
  case 1
  note IH = this(1) and p = this(2-)
  show ?case
  proof (cases "0 < left")
    case True
    then have ne: "inp w \<noteq> []" using p(2) by auto
    obtain r w1 where r: "sys_recv os fd left w = (r, w1)" by fastforce
    note ok = assms(1) [unfolded recv_ok_def, rule_format, OF True ne, unfolded r]
    show ?thesis
    proof (cases r)
      case (Inl e)
      with ok have e: "e = EINTR \<or> e = EAGAIN" "inp w1 = inp w" "lag w1 < lag w" by auto
      then have "\<exists>w'. read_loop os fd len left tmp w1 = Some (Inr (0, tmp @ take (nat left) (inp w1), w')) \<and> inp w' = drop (nat left) (inp w1)"
        by (intro IH) (use p in simp_all)
      with e Inl r True assms(2) show ?thesis by (subst read_loop.simps) auto
    next
      case (Inr b)
      with ok have b: "b \<noteq> []" "int (length b) \<le> left" "inp w = b @ inp w1" by auto
      let ?left = "left - int (length b)"
      have "\<exists>w'. read_loop os fd len ?left (tmp @ b) w1 = Some (Inr (0, (tmp @ b) @ take (nat ?left) (inp w1), w')) \<and>
          inp w' = drop (nat ?left) (inp w1)"
        by (rule IH) (use p b True in \<open>auto simp: nat_diff_distrib\<close>)
      moreover have "nat left = length b + nat ?left" using b(2) by (simp add: nat_diff_distrib)
      moreover have "\<not> BUFFER_MAX_LEN < length tmp + length b" using p(3) b(2) by linarith
      ultimately show ?thesis using b Inr r True by (subst read_loop.simps) auto
    qed
  qed (use p in \<open>simp add: read_loop.simps\<close>)
qed

lemma socket_Read_exact:
  assumes "recv_ok os (m_socket s) inp lag" "0 < len" "len \<le> int (length (inp w))" "len \<le> int BUFFER_MAX_LEN"
  shows "\<exists>w'. socket_Read os buf len s w = Some (Inr (0, take (nat len) (inp w), w')) \<and> inp w' = drop (nat len) (inp w)"
  using read_loop_exact [OF assms(1,2), of len w "[]"] assms(2-4) by (auto simp: socket_Read_def)

section \<open>Messages\<close>

text \<open>
  A message as \<open>CalcMsgSize\<close> understands it: a header of fixed length, from which the length of the rest can be
  computed; both fit into the buffer.
\<close>

definition message_ok :: "(cstr \<Rightarrow> int) \<Rightarrow> int \<Rightarrow> cstr \<Rightarrow> bool" where
  "message_ok calc n m \<longleftrightarrow> 0 < n \<and> n \<le> int BUFFER_MAX_LEN \<and> n < int (length m) \<and>
     calc (take (nat n) m) = int (length m) - n \<and> int (length m) - n \<le> int BUFFER_MAX_LEN"

lemma recv_message_exact:
  assumes "recv_ok os (m_socket s) inp lag" "message_ok calc n m" "inp w = m @ rest"
  shows "\<exists>w'. recv_message os calc n s w = Some (Inr (Recv_message m, w')) \<and> inp w' = rest"
proof -
  have m: "0 < n" "n \<le> int BUFFER_MAX_LEN" "n < int (length m)" "calc (take (nat n) m) = int (length m) - n"
    "int (length m) - n \<le> int BUFFER_MAX_LEN" using assms(2) by (simp_all add: message_ok_def)
  have "n \<le> int (length (inp w))" using m(3) assms(3) by simp
  from socket_Read_exact [OF assms(1) m(1) this m(2), of "[]"] obtain w1 where
    1: "socket_Read os [] n s w = Some (Inr (0, take (nat n) m, w1))" "inp w1 = drop (nat n) m @ rest"
    using m(1,3) by (auto simp: assms(3))
  let ?d = "int (length m) - n"
  have d: "0 < ?d" "?d \<le> int (length (inp w1))" "nat ?d = length (drop (nat n) m)" using m(1,3) by (auto simp: 1(2))
  from socket_Read_exact [OF assms(1) d(1,2) m(5), of "[]"] obtain w2 where
    "socket_Read os [] ?d s w1 = Some (Inr (0, drop (nat n) m, w2))" "inp w2 = rest"
    unfolding d(3) 1(2) by auto
  with 1(1) d(1) m(4) show ?thesis by (simp add: recv_message_def)
qed

text \<open>Rounds of the two threads: the messages that the user wants to send one after the other.\<close>

fun write_rounds :: "'w os \<Rightarrow> cstr list \<Rightarrow> tcp_async \<times> cstr \<times> tcp_socket \<Rightarrow> 'w \<Rightarrow> ((tcp_async \<times> cstr \<times> tcp_socket) \<times> 'w) option" where
  "write_rounds os [] st w = Some (st, w)"
| "write_rounds os (m # ms) st w =
     (case simplex_Write os (\<lambda>_. (0, m)) st w of None \<Rightarrow> None | Some (st, w) \<Rightarrow> write_rounds os ms st w)"

fun read_rounds :: "'w os \<Rightarrow> (cstr \<Rightarrow> int) \<Rightarrow> nat \<Rightarrow> tcp_async \<times> int \<times> tcp_socket \<Rightarrow> 'w \<Rightarrow>
    ((tcp_async \<times> int \<times> tcp_socket) \<times> 'w) result option" where
  "read_rounds os calc 0 st w = Some (Inr (st, w))"
| "read_rounds os calc (Suc n) st w =
     (case simplex_Read os calc (\<lambda>_. 0) st w of
        None \<Rightarrow> None
      | Some (Inl e) \<Rightarrow> Some (Inl e)
      | Some (Inr (st, w)) \<Rightarrow> read_rounds os calc n st w)"

text \<open>
  What \<open>epoll_wait\<close> promises while the connection is open: it takes nothing from the stream, reports a descriptor at most once, and reports the socket as
  readable only when bytes are to come. It may also report other descriptors, or nothing (a timeout, an interrupt), but with bytes to come
  the socket is reported after finitely many calls (\<open>idle\<close>).
\<close>

definition epoll_ok :: "'w os \<Rightarrow> int \<Rightarrow> int \<Rightarrow> int \<Rightarrow> ('w \<Rightarrow> cstr) \<Rightarrow> ('w \<Rightarrow> nat) \<Rightarrow> bool" where
  "epoll_ok os ep timeout fd inp idle \<longleftrightarrow>
     (\<forall>w evs w'. sys_epoll_wait os ep timeout w = (evs, w') \<longrightarrow> inp w' = inp w \<and> distinct (map fst evs) \<and>
        (if \<exists>ev. (fd, ev) \<in> set evs \<and> EPOLLIN \<in> set ev then inp w \<noteq> [] else inp w \<noteq> [] \<longrightarrow> idle w' < idle w))"

lemma write_rounds_all:
  assumes "send_ok os (m_socket s) out lag" "ta_connect_stat a"
  shows "\<exists>b w'. write_rounds os ms (a, b0, s) w = Some ((a, b, s), w') \<and> out w' = out w @ concat ms"
proof (induction ms arbitrary: b0 w)
  case (Cons m ms)
  from socket_Write_all [OF assms(1), of m w] obtain w1 where w1: "socket_Write os m s w = Some (0, w1)" "out w1 = out w @ m" by blast
  from Cons.IH [of m w1] obtain b w2 where "write_rounds os ms (a, m, s) w1 = Some ((a, b, s), w2)" "out w2 = out w1 @ concat ms" by blast
  with w1 assms(2) show ?case by (simp add: simplex_Write_def simplex_connect_def)
qed simp

lemma recv_events_other:
  "\<forall>ev. (sock, ev) \<in> set evs \<longrightarrow> EPOLLIN \<notin> set ev \<Longrightarrow> recv_events os calc bef n sock s evs got w = Some (Inr (got, False, w))"
proof (induction evs)
  case (Cons e es)
  obtain fd ev where e: "e = (fd, ev)" by (cases e)
  have "\<not> (fd = sock \<and> EPOLLIN \<in> set ev)" "\<forall>ev. (sock, ev) \<in> set es \<longrightarrow> EPOLLIN \<notin> set ev" using Cons.prems e by auto
  with Cons.IH e show ?case by (cases "fd = sock") simp_all
qed simp

lemma recv_events_one:
  assumes "recv_message os calc n s w = Some (Inr (Recv_message m, w'))"
  shows "distinct (map fst evs) \<Longrightarrow> (sock, ev) \<in> set evs \<Longrightarrow> EPOLLIN \<in> set ev \<Longrightarrow>
    recv_events os calc (\<lambda>_. 0) n sock s evs got w = Some (Inr (got @ [m], False, w'))"
proof (induction evs)
  case (Cons e es)
  obtain fd ev' where e: "e = (fd, ev')" by (cases e)
  show ?case
  proof (cases "fd = sock")
    case True
    with Cons.prems(1) e have "\<forall>ev. (sock, ev) \<in> set es \<longrightarrow> EPOLLIN \<notin> set ev" by force
    moreover have "ev' = ev" using Cons.prems(1,2) e True by force
    ultimately show ?thesis using True e assms Cons.prems(3) by (simp add: recv_events_other)
  next
    case False
    with Cons e show ?thesis by auto
  qed
qed simp

text \<open>A round that reads one message, or in which the socket is not reported.\<close>

lemma read_round:
  assumes r: "recv_ok os (m_socket s) inp lag" and e: "epoll_ok os (ta_epoll_handle a) (ta_timeout_ms a) (m_socket s) inp idle"
    and a: "ta_accept_stat a" and ms: "list_all (message_ok calc (ta_len_buff_size a)) ms" "inp w = concat ms"
  obtains (idle) w' where "simplex_Read os calc (\<lambda>_. 0) (a, m_socket s, s) w = Some (Inr ((a, m_socket s, s), w'))" "inp w' = concat ms"
      "ms \<noteq> [] \<longrightarrow> idle w' < idle w"
    | (message) m ms' w' where "ms = m # ms'" "inp w' = concat ms'"
      "simplex_Read os calc (\<lambda>_. 0) (a, m_socket s, s) w = Some (Inr ((a\<lparr>ta_received := ta_received a @ [m]\<rparr>, m_socket s, s), w'))"
proof -
  obtain evs w1 where p: "sys_epoll_wait os (ta_epoll_handle a) (ta_timeout_ms a) w = (evs, w1)" by fastforce
  note ep = e [unfolded epoll_ok_def, rule_format, OF p]
  have nil: "inp w = [] \<longleftrightarrow> ms = []" using ms by (cases ms) (auto simp: message_ok_def)
  show ?thesis
  proof (cases "\<exists>ev. (m_socket s, ev) \<in> set evs \<and> EPOLLIN \<in> set ev")
    case True
    then obtain ev where ev: "(m_socket s, ev) \<in> set evs" "EPOLLIN \<in> set ev" by blast
    from True ep nil obtain m ms' where m: "ms = m # ms'" by (cases ms) auto
    have "inp w1 = m @ concat ms'" using ep ms(2) m by simp
    moreover have "message_ok calc (ta_len_buff_size a) m" using ms(1) m by simp
    ultimately obtain w2 where w2: "recv_message os calc (ta_len_buff_size a) s w1 = Some (Inr (Recv_message m, w2))" "inp w2 = concat ms'"
      using recv_message_exact [OF r] by blast
    from recv_events_one [OF w2(1) _ ev, of "[]"] ep a p have
      "simplex_Read os calc (\<lambda>_. 0) (a, m_socket s, s) w = Some (Inr ((a\<lparr>ta_received := ta_received a @ [m]\<rparr>, m_socket s, s), w2))"
      by (simp add: simplex_Read_def async_accept_def)
    with m w2(2) message show ?thesis by blast
  next
    case False
    then have "recv_events os calc (\<lambda>_. 0) (ta_len_buff_size a) (m_socket s) s evs [] w1 = Some (Inr ([], False, w1))"
      by (intro recv_events_other) blast
    moreover have "a\<lparr>ta_received := ta_received a\<rparr> = a" by (cases a) simp
    ultimately have "simplex_Read os calc (\<lambda>_. 0) (a, m_socket s, s) w = Some (Inr ((a, m_socket s, s), w1))"
      using a p by (simp add: simplex_Read_def async_accept_def)
    with False ep nil ms(2) idle show ?thesis by simp
  qed
qed

lemma read_rounds_prefix:
  assumes r: "recv_ok os (m_socket s) inp lag"
  shows "epoll_ok os (ta_epoll_handle a) (ta_timeout_ms a) (m_socket s) inp idle \<Longrightarrow> ta_accept_stat a \<Longrightarrow>
    list_all (message_ok calc (ta_len_buff_size a)) ms \<Longrightarrow> inp w = concat ms \<Longrightarrow>
    \<exists>j\<le>length ms. \<exists>w'. read_rounds os calc k (a, m_socket s, s) w =
      Some (Inr ((a\<lparr>ta_received := ta_received a @ take j ms\<rparr>, m_socket s, s), w')) \<and> inp w' = concat (drop j ms)"
proof (induction k arbitrary: a ms w)
  case 0
  then show ?case by (intro exI [of _ 0]) simp
next
  case (Suc k)
  from r Suc.prems show ?case
  proof (cases rule: read_round)
    case (idle w')
    with Suc.IH [OF Suc.prems(1-3) idle(2)] show ?thesis by simp
  next
    case (message m ms' w')
    let ?a = "a\<lparr>ta_received := ta_received a @ [m]\<rparr>"
    from Suc.IH [of ?a ms' w'] Suc.prems message(1,2) obtain j w2 where "j \<le> length ms'" "inp w2 = concat (drop j ms')"
      "read_rounds os calc k (?a, m_socket s, s) w' = Some (Inr ((?a\<lparr>ta_received := ta_received ?a @ take j ms'\<rparr>, m_socket s, s), w2))" by auto
    with message show ?thesis by (intro exI [of _ "Suc j"]) simp
  qed
qed

lemma read_rounds_all:
  assumes r: "recv_ok os (m_socket s) inp lag"
  shows "epoll_ok os (ta_epoll_handle a) (ta_timeout_ms a) (m_socket s) inp idle \<Longrightarrow> ta_accept_stat a \<Longrightarrow>
    list_all (message_ok calc (ta_len_buff_size a)) ms \<Longrightarrow> inp w = concat ms \<Longrightarrow>
    \<exists>k w'. read_rounds os calc k (a, m_socket s, s) w = Some (Inr ((a\<lparr>ta_received := ta_received a @ ms\<rparr>, m_socket s, s), w'))"
proof (induction "(length ms, idle w)" arbitrary: a ms w rule: wf_induct_rule [OF wf_lex_prod [OF wf_less_than wf_less_than]])
  case 1
  note IH = this(1) and p = this(2-)
  from r p show ?case
  proof (cases rule: read_round)
    case (idle w')
    show ?thesis
    proof (cases "ms = []")
      case False
      with IH [of ms w' a] idle p obtain k w2 where
        "read_rounds os calc k (a, m_socket s, s) w' = Some (Inr ((a\<lparr>ta_received := ta_received a @ ms\<rparr>, m_socket s, s), w2))" by auto
      with idle show ?thesis by (intro exI [of _ "Suc k"]) simp
    qed (intro exI [of _ 0], simp)
  next
    case (message m ms' w')
    let ?a = "a\<lparr>ta_received := ta_received a @ [m]\<rparr>"
    from IH [of ms' w' ?a] message(1,2) p obtain k w2 where
      "read_rounds os calc k (?a, m_socket s, s) w' = Some (Inr ((?a\<lparr>ta_received := ta_received ?a @ ms'\<rparr>, m_socket s, s), w2))" by auto
    with message show ?thesis by (intro exI [of _ "Suc k"]) simp
  qed
qed

text \<open>
  C23. Messages that \<open>TcpAsyncSimplex\<close> writes to a connection are handed to \<open>DoAfterRecv\<close> at its other end one
  by one, complete and in order, however TCP cuts the stream into pieces and interrupts the calls, and whatever else \<open>epoll_wait\<close> reports, timeouts and
  interrupts included: all rounds of both threads return, after any number of rounds of the reader the messages handed over are the first ones that were written,
  and after enough rounds they are all. Header and rest of a message have at most 8192 bytes each, the connection stays open, and \<open>DoBeforeRecv\<close> and
  \<open>DoBeforeSend\<close> return 0.
\<close>

theorem tcp_messages:
  assumes out: "send_ok os (m_socket s) out lag" "ta_connect_stat a"
    and inp: "recv_ok os' (m_socket s') inp lag'" "ta_accept_stat a'"
      "epoll_ok os' (ta_epoll_handle a') (ta_timeout_ms a') (m_socket s') inp idle"
    and messages: "list_all (message_ok calc (ta_len_buff_size a')) ms"
  shows "\<exists>stream b w1. write_rounds os ms (a, b0, s) w = Some ((a, b, s), w1) \<and> out w1 = out w @ stream \<and>
     (\<forall>w'. inp w' = stream \<longrightarrow>
        (\<forall>k. \<exists>j\<le>length ms. \<exists>w1'. read_rounds os' calc k (a', m_socket s', s') w' =
           Some (Inr ((a'\<lparr>ta_received := ta_received a' @ take j ms\<rparr>, m_socket s', s'), w1'))) \<and>
        (\<exists>k w1'. read_rounds os' calc k (a', m_socket s', s') w' =
           Some (Inr ((a'\<lparr>ta_received := ta_received a' @ ms\<rparr>, m_socket s', s'), w1'))))"
proof -
  from write_rounds_all [OF out, of ms b0 w] obtain b w1 where
    w: "write_rounds os ms (a, b0, s) w = Some ((a, b, s), w1)" "out w1 = out w @ concat ms" by blast
  note r = read_rounds_prefix [OF inp(1) inp(3) inp(2) messages] read_rounds_all [OF inp(1) inp(3) inp(2) messages]
  show ?thesis by (intro exI [of _ "concat ms"] exI [of _ b] exI [of _ w1]) (use w r in blast)
qed

text \<open>A stream that is cut into single bytes, with every second call interrupted or timed out.\<close>

definition byte_os :: "(bool \<times> cstr) os" where
  "byte_os = \<lparr>sys_socket = (\<lambda>w. (5, w)), sys_connect = (\<lambda>_ _ _ w. (None, w)), sys_bind = (\<lambda>_ _ w. (0, w)), sys_listen = (\<lambda>_ w. (0, w)),
     sys_accept = (\<lambda>_ w. ((6, []), w)),
     sys_send = (\<lambda>fd buf (late, b). if late then (Inl EAGAIN, (False, b)) else (Inr 1, (True, b @ take 1 buf))),
     sys_recv = (\<lambda>fd n (late, b). if late then (Inl EINTR, (False, b)) else (Inr (take 1 b), (True, drop 1 b))),
     sys_getfl = (\<lambda>_ w. (0, w)), sys_setfl = (\<lambda>_ _ w. (0, w)), sys_setsockopt = (\<lambda>_ _ w. w), sys_so_error = (\<lambda>_ w. ((0, 0), w)),
     sys_shutdown = (\<lambda>_ w. w), sys_close = (\<lambda>_ w. w), sys_epoll_create = (\<lambda>w. (7, w)), sys_epoll_ctl = (\<lambda>_ _ _ _ w. (0, w)),
     sys_epoll_wait = (\<lambda>_ _ (late, b). if late \<or> b = [] then ([], (False, b)) else ([(4, [EPOLLOUT]), (6, [EPOLLIN])], (late, b)))\<rparr>"

definition late_count :: "bool \<times> cstr \<Rightarrow> nat" where
  "late_count w = (if fst w then 1 else 0)"

lemma byte_os_ok: "send_ok byte_os fd snd late_count" "recv_ok byte_os fd snd late_count" "epoll_ok byte_os ep t 6 snd late_count"
  by (auto simp: send_ok_def recv_ok_def epoll_ok_def byte_os_def late_count_def Suc_leI neq_Nil_conv split: prod.splits)

definition two_byte_size :: "cstr \<Rightarrow> int" where
  "two_byte_size h = (case h of [a, b] \<Rightarrow> 256 * uint a + uint b | _ \<Rightarrow> 0)"

definition byte_async :: tcp_async where
  "byte_async = \<lparr>ta_connect_stat = True, ta_accept_stat = True, ta_remote_port = 80, ta_len_buff_size = 2, ta_timeout_ms = 10, ta_epoll_handle = 7,
     ta_listen_socket = 4, ta_remote_ip = [], ta_received = []\<rparr>"

theorem tcp_messages_witness:
  "\<exists>stream b w1 k w1'. write_rounds byte_os [[0, 1, 9], [0, 2, 8, 7]] (byte_async, [], \<lparr>m_socket = 5, m_client_ip = []\<rparr>) (False, []) =
       Some ((byte_async, b, \<lparr>m_socket = 5, m_client_ip = []\<rparr>), w1) \<and> snd w1 = stream \<and>
     read_rounds byte_os two_byte_size k (byte_async, 6, \<lparr>m_socket = 6, m_client_ip = []\<rparr>) (True, stream) =
       Some (Inr ((byte_async\<lparr>ta_received := [[0, 1, 9], [0, 2, 8, 7]]\<rparr>, 6, \<lparr>m_socket = 6, m_client_ip = []\<rparr>), w1'))"
proof -
  let ?s = "\<lparr>m_socket = 5, m_client_ip = []\<rparr>" and ?s' = "\<lparr>m_socket = 6, m_client_ip = []\<rparr>" and ?ms = "[[0, 1, 9], [0, 2, 8, 7]] :: cstr list"
  have a: "ta_connect_stat byte_async" "ta_accept_stat byte_async" "list_all (message_ok two_byte_size (ta_len_buff_size byte_async)) ?ms"
    by (simp_all add: byte_async_def message_ok_def BUFFER_MAX_LEN_def two_byte_size_def)
  have e: "epoll_ok byte_os (ta_epoll_handle byte_async) (ta_timeout_ms byte_async) (m_socket ?s') snd late_count" by (simp add: byte_os_ok(3))
  from tcp_messages [OF byte_os_ok(1) a(1) byte_os_ok(2) a(2) e a(3), of "[]" ?s "(False, [])"] obtain stream b w1 where
    1: "write_rounds byte_os ?ms (byte_async, [], ?s) (False, []) = Some ((byte_async, b, ?s), w1)" "snd w1 = snd (False, []) @ stream"
      "\<forall>w'. snd w' = stream \<longrightarrow> (\<exists>k w1'. read_rounds byte_os two_byte_size k (byte_async, m_socket ?s', ?s') w' =
         Some (Inr ((byte_async\<lparr>ta_received := ta_received byte_async @ ?ms\<rparr>, m_socket ?s', ?s'), w1')))" by blast
  from 1(3) [rule_format, of "(True, stream)"] obtain k w1' where
    "read_rounds byte_os two_byte_size k (byte_async, 6, ?s') (True, stream) =
       Some (Inr ((byte_async\<lparr>ta_received := ?ms\<rparr>, 6, ?s'), w1'))" by (auto simp: byte_async_def)
  with 1(1,2) show ?thesis by (intro exI [of _ stream] exI [of _ b] exI [of _ w1] exI [of _ k] exI [of _ w1']) simp
qed

section \<open>Where it goes wrong\<close>

text \<open>A message whose length exceeds the array of \<open>Read\<close> overwrites the stack.\<close>

lemma read_loop_overflow:
  assumes "recv_ok os fd inp lag" "0 < len"
  shows "left \<le> int (length (inp w)) \<Longrightarrow> length tmp \<le> BUFFER_MAX_LEN \<Longrightarrow> int BUFFER_MAX_LEN < int (length tmp) + left \<Longrightarrow>
    read_loop os fd len left tmp w = Some (Inl Undefined_behaviour)"
proof (induction "(nat left, lag w)" arbitrary: left tmp w rule: wf_induct_rule [OF wf_lex_prod [OF wf_less_than wf_less_than]])
  case 1
  note IH = this(1) and p = this(2-)
  have left: "0 < left" using p(2,3) by linarith
  then have ne: "inp w \<noteq> []" using p(1) by auto
  obtain r w1 where r: "sys_recv os fd left w = (r, w1)" by fastforce
  note ok = assms(1) [unfolded recv_ok_def, rule_format, OF left ne, unfolded r]
  show ?case
  proof (cases r)
    case (Inl e)
    with ok have e: "e = EINTR \<or> e = EAGAIN" "inp w1 = inp w" "lag w1 < lag w" by auto
    then have "read_loop os fd len left tmp w1 = Some (Inl Undefined_behaviour)"
      by (intro IH) (use p in simp_all)
    with e Inl r left assms(2) show ?thesis by (subst read_loop.simps) auto
  next
    case (Inr b)
    with ok have b: "b \<noteq> []" "int (length b) \<le> left" "inp w = b @ inp w1" by auto
    show ?thesis
    proof (cases "BUFFER_MAX_LEN < length tmp + length b")
      case False
      have "read_loop os fd len (left - int (length b)) (tmp @ b) w1 = Some (Inl Undefined_behaviour)"
        by (rule IH) (use p b left False in \<open>auto simp: nat_diff_distrib\<close>)
      with b Inr r left False show ?thesis by (subst read_loop.simps) auto
    qed (use b Inr r left in \<open>subst read_loop.simps, auto\<close>)
  qed
qed

text \<open>
  A peer that announces a message of more than 8192 bytes and sends it makes \<open>Read\<close> write behind the end of
  its array: the length from \<open>CalcMsgSize\<close> is not checked against the array.
\<close>

theorem tcp_long_message_overflow:
  assumes "recv_ok os (m_socket s) inp lag" "inp w = h @ d" "int (length h) = n" "0 < n" "n \<le> int BUFFER_MAX_LEN"
    and "calc h = int (length d)" "BUFFER_MAX_LEN < length d"
  shows "recv_message os calc n s w = Some (Inl Undefined_behaviour)"
proof -
  from socket_Read_exact [OF assms(1,4) _ assms(5), of w "[]"] assms(2,3) obtain w1 where
    1: "socket_Read os [] n s w = Some (Inr (0, h, w1))" "inp w1 = d" by auto
  have d: "0 < int (length d)" using assms(7) by linarith
  have "read_loop os (m_socket s) (int (length d)) (int (length d)) [] w1 = Some (Inl Undefined_behaviour)"
    by (rule read_loop_overflow [OF assms(1) d]) (use 1(2) assms(7) in simp_all)
  then have "socket_Read os [] (int (length d)) s w1 = Some (Inl Undefined_behaviour)" using d by (simp add: socket_Read_def)
  with 1(1) d assms(6) show ?thesis by (simp add: recv_message_def)
qed

theorem tcp_long_message_overflow_witness:
  "recv_message byte_os two_byte_size 2 \<lparr>m_socket = 6, m_client_ip = []\<rparr> (True, [32, 1] @ replicate 8193 0) = Some (Inl Undefined_behaviour)"
proof -
  have "int (length [32, 1 :: byte]) = 2" "0 < (2 :: int)" "2 \<le> int BUFFER_MAX_LEN"
    "two_byte_size [32, 1] = int (length (replicate 8193 (0 :: byte)))" "BUFFER_MAX_LEN < length (replicate 8193 (0 :: byte))"
    by (simp_all add: BUFFER_MAX_LEN_def two_byte_size_def)
  from tcp_long_message_overflow [where w = "(True, [32, 1] @ replicate 8193 0)" and s = "\<lparr>m_socket = 6, m_client_ip = []\<rparr>",
      where calc = two_byte_size, OF byte_os_ok(2) _ this] show ?thesis by simp
qed

text \<open>
  The client of a \<open>TcpSyncServer\<close>, which closes the connection after its response: the response is
  returned if the client has read it before the connection is closed, and lost otherwise.
\<close>

theorem sync_response:
  assumes "socket_Write os req (yc_tcp_socket c) w = Some (0, w1)"
    and "sys_epoll_wait os (yc_epoll_handle c) t w1 = ([(m_socket (yc_tcp_socket c), [EPOLLIN])], w2)"
    and "sys_recv os (m_socket (yc_tcp_socket c)) (int BUFFER_MAX_LEN) w2 = (Inr rsp, w3)" "rsp \<noteq> []" "length rsp < BUFFER_MAX_LEN"
    and "sys_recv os (m_socket (yc_tcp_socket c)) (int BUFFER_MAX_LEN - int (length rsp)) w3 = (r, w4)" "r = Inl EAGAIN \<or> r = Inr []"
  shows "SyncComm os t req old c w = (case sync_Close os c w4 of (c, w) \<Rightarrow>
     Some (Inr (if r = Inl EAGAIN then (0, rsp, c, w) else (- 3, old, c, w))))"
proof -
  have "read_loop os (m_socket (yc_tcp_socket c)) (- 1) (int BUFFER_MAX_LEN - int (length rsp)) rsp w3 =
      Some (Inr (if r = Inl EAGAIN then 0 else int BUFFER_MAX_LEN - int (length rsp), rsp, w4))"
    using assms(5-7) by (subst read_loop.simps) auto
  then have "read_loop os (m_socket (yc_tcp_socket c)) (- 1) (int BUFFER_MAX_LEN) [] w2 =
      Some (Inr (if r = Inl EAGAIN then 0 else int BUFFER_MAX_LEN - int (length rsp), rsp, w4))"
    using assms(3-5) by (subst read_loop.simps) (auto simp: BUFFER_MAX_LEN_def)
  then have "socket_Read os old (- 1) (yc_tcp_socket c) w2 = Some (Inr (if r = Inl EAGAIN then (0, rsp, w4) else (- 1, old, w4)))"
    using assms(5) by (simp add: socket_Read_def)
  with assms(1,2) show ?thesis by (simp add: SyncComm_def Let_def split: prod.split)
qed

text \<open>A \<open>TcpSyncClient\<close> serves one request: \<open>SyncComm\<close> closes the epoll handle, which only the constructor makes.\<close>

theorem sync_client_once:
  assumes "SyncComm os t req rsp c w = Some (Inr (ret, rsp', c', w'))" "0 < yc_epoll_handle c"
  shows "yc_epoll_handle c' = - 1 \<and> yc_epoll_handle (fst (snd (sync_Connect os ip port c' w''))) = - 1"
proof -
  have closed: "yc_epoll_handle (fst (sync_Close os c x)) = - 1" for x
    using assms(2) by (simp add: sync_Close_def Let_def split: prod.split)
  have "\<exists>x. c' = fst (sync_Close os c x)"
    using assms(1) unfolding SyncComm_def Let_def
    by (auto split: option.splits prod.splits if_splits dest!: bind_result_Inr) (metis fst_conv)+
  then have "yc_epoll_handle c' = - 1" using closed by auto
  then show ?thesis by (simp add: sync_Connect_def Let_def split: prod.split)
qed

end
