(* ===== verification/Database.thy ===== *)
theory Database
  imports String_Utility Xxtea
begin

text \<open>
  The database wrapper (\<open>source/database\<close>): pools of connections (\<open>DBConnManage\<close>), a command that holds a
  connection, a statement and a result set (\<open>DBCommand\<close>), and the thread that tests the pools. The Oracle
  library OCCI is the record \<open>occi\<close>, functions over a world; a call gives its result or throws an
  \<open>SQLException\<close> (\<open>Inl ()\<close>). Pools, connections, statements and result sets are numbers, \<open>None\<close> is the null
  pointer.
\<close>

datatype db_type =
    DB_UNKNOWN | ENVIRONMENT_ERROR | INVALID_PARAM | INVALID_CONNECTION_POOL | INVALID_CONNECTION | INVALID_STATEMENT
  | INTERNAL_ERROR | PROTOCOL_ERROR | INVALID_TRANSFORM | INVALID_PROTOCOL | UNSUPPORTED_CLIENT_TYPE

text \<open>A second exception during a destructor ends the program.\<close>

datatype db_error = SQLException | DBException db_type | Program_end | Null_pointer

type_synonym ('w, 'a) occi_call = "'w \<Rightarrow> (unit + 'a) \<times> 'w"

record 'w occi =
  createEnvironment :: "('w, nat option) occi_call"
  createStatelessConnectionPool :: "nat \<Rightarrow> cstr \<Rightarrow> cstr \<Rightarrow> cstr \<Rightarrow> int \<Rightarrow> int \<Rightarrow> int \<Rightarrow> ('w, nat) occi_call"
  setTimeOut :: "nat \<Rightarrow> int \<Rightarrow> ('w, unit) occi_call"
  setBusyOption :: "nat \<Rightarrow> ('w, unit) occi_call"
  terminateStatelessConnectionPool :: "nat \<Rightarrow> nat \<Rightarrow> ('w, unit) occi_call"
  terminateEnvironment :: "nat \<Rightarrow> ('w, unit) occi_call"
  getConnection :: "nat \<Rightarrow> ('w, nat option) occi_call"
  releaseConnection :: "nat \<Rightarrow> nat \<Rightarrow> ('w, unit) occi_call"
  terminateConnection :: "nat \<Rightarrow> nat \<Rightarrow> ('w, unit) occi_call"
  createStatement :: "nat \<Rightarrow> ('w, nat option) occi_call"
  terminateStatement :: "nat \<Rightarrow> nat \<Rightarrow> ('w, unit) occi_call"
  flushCache :: "nat \<Rightarrow> ('w, unit) occi_call"
  occi_commit :: "nat \<Rightarrow> ('w, unit) occi_call"
  occi_rollback :: "nat \<Rightarrow> ('w, unit) occi_call"
  occi_setAutoCommit :: "nat \<Rightarrow> bool \<Rightarrow> ('w, unit) occi_call"
  occi_executeUpdate :: "nat \<Rightarrow> cstr \<Rightarrow> ('w, nat) occi_call"
  occi_executeQuery :: "nat \<Rightarrow> cstr \<Rightarrow> ('w, nat) occi_call"
  occi_closeResultSet :: "nat \<Rightarrow> nat \<Rightarrow> ('w, unit) occi_call"

text \<open>Code that works on an object \<open>'s\<close> and may throw; what was written before an exception stays.\<close>

type_synonym ('s, 'w, 'a) throwing = "'s \<Rightarrow> 'w \<Rightarrow> (db_error + 'a) \<times> 's \<times> 'w"

definition db_return :: "'a \<Rightarrow> ('s, 'w, 'a) throwing" where
  "db_return x s w = (Inr x, s, w)"

definition db_throw :: "db_error \<Rightarrow> ('s, 'w, 'a) throwing" where
  "db_throw e s w = (Inl e, s, w)"

definition db_bind :: "('s, 'w, 'a) throwing \<Rightarrow> ('a \<Rightarrow> ('s, 'w, 'b) throwing) \<Rightarrow> ('s, 'w, 'b) throwing" where
  "db_bind m f s w = (case m s w of (Inl e, s, w) \<Rightarrow> (Inl e, s, w) | (Inr x, s, w) \<Rightarrow> f x s w)"

definition db_call :: "('w, 'a) occi_call \<Rightarrow> ('s, 'w, 'a) throwing" where
  "db_call f s w = (case f w of (Inl u, w) \<Rightarrow> (Inl SQLException, s, w) | (Inr x, w) \<Rightarrow> (Inr x, s, w))"

definition db_update :: "('s \<Rightarrow> 's) \<Rightarrow> ('s, 'w, unit) throwing" where
  "db_update f s w = (Inr (), f s, w)"

definition db_get :: "('s \<Rightarrow> 'a) \<Rightarrow> ('s, 'w, 'a) throwing" where
  "db_get f s w = (Inr (f s), s, w)"

lemmas db_defs = db_return_def db_throw_def db_bind_def db_call_def db_update_def db_get_def

section \<open>DBConnManage\<close>

record DBConnPool =
  m_db :: cstr
  m_user :: cstr
  m_passwd :: cstr
  m_connectionPool :: "nat option"

record DBConnManage =
  m_env :: "nat option"
  m_vecPool :: "DBConnPool list"

definition manage_init :: "'w occi \<Rightarrow> (DBConnManage, 'w, unit) throwing" where
  "manage_init oc s w =
     (case createEnvironment oc w of
        (Inl u, w) \<Rightarrow> (Inl (DBException ENVIRONMENT_ERROR), s, w)
      | (Inr env, w) \<Rightarrow> (if env = None then Inl (DBException ENVIRONMENT_ERROR) else Inr (), s\<lparr>m_env := env\<rparr>, w))"

definition xxtea_key_uri :: cstr where
  "xxtea_key_uri = bytes ''JLZF/POS+/DB/ENC/KEY/URI''"

text \<open>\<open>None\<close>: the decryption does not end, or does not stay inside its buffers.\<close>

definition DecryptPwd :: "cstr \<Rightarrow> cstr option" where
  "DecryptPwd passwd =
     (if \<not> StartsWith passwd (bytes ''$ENC'') then Some passwd
      else (case Decrypt (drop 4 passwd) xxtea_key_uri passwd False of Inl _ \<Rightarrow> None | Inr dest \<Rightarrow> dest))"

text \<open>An \<open>SQLException\<close> is caught and makes the result \<open>False\<close>; a pool that has been made before is lost.\<close>

definition creatConnectionPool ::
  "'w occi \<Rightarrow> cstr \<Rightarrow> cstr \<Rightarrow> cstr \<Rightarrow> int \<Rightarrow> int \<Rightarrow> int \<Rightarrow> DBConnManage \<Rightarrow> 'w \<Rightarrow> ((db_error + bool) \<times> DBConnManage \<times> 'w) option" where
  "creatConnectionPool oc dbname user passwd minConn maxConn inrConn s w =
     map_option (\<lambda>passwd'.
       case m_env s of
         None \<Rightarrow> (Inl Null_pointer, s, w)
       | Some env \<Rightarrow>
           (case db_bind (db_call (createStatelessConnectionPool oc env user passwd' dbname maxConn minConn inrConn)) (\<lambda>pool.
                   db_bind (db_call (setTimeOut oc pool 600)) (\<lambda>_.
                   db_bind (db_call (setBusyOption oc pool)) (\<lambda>_.
                   db_update (\<lambda>s. s\<lparr>m_vecPool := m_vecPool s @
                     [\<lparr>m_db = dbname, m_user = user, m_passwd = passwd', m_connectionPool = Some pool\<rparr>]\<rparr>)))) s w of
              (Inl e, s, w) \<Rightarrow> (Inr False, s, w)
            | (Inr u, s, w) \<Rightarrow> (Inr True, s, w)))
       (DecryptPwd passwd)"

definition getDBConnPool :: "32 word \<Rightarrow> DBConnManage \<Rightarrow> DBConnPool option" where
  "getDBConnPool index s = (if length (m_vecPool s) \<le> unat index then None else Some (m_vecPool s ! unat index))"

fun fini_loop :: "'w occi \<Rightarrow> nat \<Rightarrow> DBConnPool list \<Rightarrow> 'w \<Rightarrow> (unit + unit) \<times> 'w" where
  "fini_loop oc env [] w = terminateEnvironment oc env w"
| "fini_loop oc env (p # ps) w =
     (case terminateStatelessConnectionPool oc env (the (m_connectionPool p)) w of
        (Inl u, w) \<Rightarrow> (Inl u, w)
      | (Inr u, w) \<Rightarrow> fini_loop oc env ps w)"

definition fini :: "'w occi \<Rightarrow> DBConnManage \<Rightarrow> 'w \<Rightarrow> (db_error + unit) \<times> 'w" where
  "fini oc s w =
     (case m_env s of
        None \<Rightarrow> (if m_vecPool s = [] then Inr () else Inl Null_pointer, w)
      | Some env \<Rightarrow> (Inr (), snd (fini_loop oc env (m_vecPool s) w)))"

section \<open>DBCommand\<close>

record DBCommand =
  m_index :: int
  bAutoCommit :: bool
  m_statement :: "nat option"
  m_result_set :: "nat option"
  m_connection :: "nat option"
  m_connPool :: "nat option"

definition DBCommand_new :: "int \<Rightarrow> DBCommand" where
  "DBCommand_new index = \<lparr>m_index = index, bAutoCommit = False, m_statement = None, m_result_set = None, m_connection = None, m_connPool = None\<rparr>"

definition command_init :: "'w occi \<Rightarrow> DBConnManage \<Rightarrow> (DBCommand, 'w, unit) throwing" where
  "command_init oc mg =
     db_bind (db_get m_index) (\<lambda>index.
       case getDBConnPool (word_of_int index) mg of
         None \<Rightarrow> db_throw (DBException INVALID_CONNECTION_POOL)
       | Some p \<Rightarrow>
           db_bind (db_update (\<lambda>s. s\<lparr>m_connPool := m_connectionPool p\<rparr>)) (\<lambda>_.
             case m_connectionPool p of
               None \<Rightarrow> db_throw (DBException INVALID_CONNECTION_POOL)
             | Some pool \<Rightarrow>
                 db_bind (db_call (getConnection oc pool)) (\<lambda>conn.
                 db_bind (db_update (\<lambda>s. s\<lparr>m_connection := conn\<rparr>)) (\<lambda>_.
                   case conn of
                     None \<Rightarrow> db_throw (DBException INVALID_CONNECTION_POOL)
                   | Some c \<Rightarrow>
                       db_bind (db_call (createStatement oc c)) (\<lambda>stmt.
                       db_bind (db_update (\<lambda>s. s\<lparr>m_statement := stmt\<rparr>)) (\<lambda>_.
                         if stmt = None then db_throw (DBException INVALID_STATEMENT) else db_return ()))))))"

definition closeResultSet :: "'w occi \<Rightarrow> (DBCommand, 'w, unit) throwing" where
  "closeResultSet oc =
     db_bind (db_get (\<lambda>s. (m_result_set s, m_statement s))) (\<lambda>(rs, stmt).
       case rs of
         None \<Rightarrow> db_return ()
       | Some r \<Rightarrow>
           (case stmt of
              None \<Rightarrow> db_throw Null_pointer
            | Some t \<Rightarrow> db_bind (db_call (occi_closeResultSet oc t r)) (\<lambda>_. db_update (\<lambda>s. s\<lparr>m_result_set := None\<rparr>))))"

definition closeResultSet_of :: "'w occi \<Rightarrow> nat option \<Rightarrow> (DBCommand, 'w, unit) throwing" where
  "closeResultSet_of oc rs =
     db_bind (db_get m_statement) (\<lambda>stmt.
       case rs of
         None \<Rightarrow> db_return ()
       | Some r \<Rightarrow> (case stmt of None \<Rightarrow> db_throw Null_pointer | Some t \<Rightarrow> db_call (occi_closeResultSet oc t r)))"

definition command_terminate :: "'w occi \<Rightarrow> (DBCommand, 'w, unit) throwing" where
  "command_terminate oc =
     db_bind (db_bind (db_get (\<lambda>s. (m_statement s, m_connection s))) (\<lambda>(stmt, conn).
       case stmt of
         None \<Rightarrow> db_return ()
       | Some t \<Rightarrow>
           db_bind (closeResultSet oc) (\<lambda>_.
             case conn of
               None \<Rightarrow> db_throw Null_pointer
             | Some c \<Rightarrow> db_bind (db_call (terminateStatement oc c t)) (\<lambda>_. db_update (\<lambda>s. s\<lparr>m_statement := None\<rparr>))))) (\<lambda>_.
     db_bind (db_get (\<lambda>s. (m_connection s, m_connPool s))) (\<lambda>(conn, pool).
       case conn of
         None \<Rightarrow> db_return ()
       | Some c \<Rightarrow>
           (case pool of
              None \<Rightarrow> db_throw Null_pointer
            | Some p \<Rightarrow> db_bind (db_call (terminateConnection oc p c)) (\<lambda>_. db_update (\<lambda>s. s\<lparr>m_connection := None\<rparr>)))))"

text \<open>The beginning of \<open>getStatement\<close>, \<open>executeUpdate\<close> and \<open>executeQuery\<close>: the statement that is used.\<close>

definition ready_statement :: "'w occi \<Rightarrow> DBConnManage \<Rightarrow> (DBCommand, 'w, nat) throwing" where
  "ready_statement oc mg =
     db_bind (db_get m_statement) (\<lambda>stmt.
     db_bind (if stmt = None then command_init oc mg else closeResultSet oc) (\<lambda>_.
     db_bind (db_get m_statement) (\<lambda>stmt. case stmt of None \<Rightarrow> db_throw Null_pointer | Some t \<Rightarrow> db_return t)))"

definition getStatement :: "'w occi \<Rightarrow> DBConnManage \<Rightarrow> (DBCommand, 'w, nat) throwing" where
  "getStatement oc mg =
     db_bind (ready_statement oc mg) (\<lambda>t. db_bind (db_call (occi_setAutoCommit oc t False)) (\<lambda>_. db_return t))"

definition executeUpdate :: "'w occi \<Rightarrow> DBConnManage \<Rightarrow> cstr \<Rightarrow> (DBCommand, 'w, int) throwing" where
  "executeUpdate oc mg strSql =
     db_bind (ready_statement oc mg) (\<lambda>t.
     db_bind (db_get bAutoCommit) (\<lambda>auto.
     db_bind (db_call (occi_setAutoCommit oc t auto)) (\<lambda>_.
     db_bind (db_call (occi_executeUpdate oc t strSql)) (\<lambda>record_count.
     db_return (if record_count = 0 then 1 else 0)))))"

definition executeQuery :: "'w occi \<Rightarrow> DBConnManage \<Rightarrow> cstr \<Rightarrow> (DBCommand, 'w, nat) throwing" where
  "executeQuery oc mg strSql =
     db_bind (ready_statement oc mg) (\<lambda>t.
     db_bind (db_call (occi_executeQuery oc t strSql)) (\<lambda>r.
     db_bind (db_update (\<lambda>s. s\<lparr>m_result_set := Some r\<rparr>)) (\<lambda>_. db_return r)))"

definition command_setAutoCommit :: "'w occi \<Rightarrow> bool \<Rightarrow> (DBCommand, 'w, unit) throwing" where
  "command_setAutoCommit oc auto_commit =
     db_bind (db_get m_statement) (\<lambda>stmt.
       case stmt of
         None \<Rightarrow> db_return ()
       | Some t \<Rightarrow> db_bind (db_update (\<lambda>s. s\<lparr>bAutoCommit := auto_commit\<rparr>)) (\<lambda>_. db_call (occi_setAutoCommit oc t auto_commit)))"

definition command_commit :: "'w occi \<Rightarrow> (DBCommand, 'w, unit) throwing" where
  "command_commit oc =
     db_bind (db_get m_connection) (\<lambda>conn.
       case conn of None \<Rightarrow> db_throw (DBException INVALID_CONNECTION) | Some c \<Rightarrow> db_call (occi_commit oc c))"

definition rollBack :: "'w occi \<Rightarrow> (DBCommand, 'w, unit) throwing" where
  "rollBack oc =
     db_bind (db_get m_connection) (\<lambda>conn.
       case conn of None \<Rightarrow> db_throw (DBException INVALID_CONNECTION) | Some c \<Rightarrow> db_call (occi_rollback oc c))"

text \<open>The destructor. What it throws while it handles an exception ends the program.\<close>

definition destroy_try :: "'w occi \<Rightarrow> (DBCommand, 'w, unit) throwing" where
  "destroy_try oc =
     db_bind (db_get (\<lambda>s. (m_result_set s, m_statement s, m_connection s, m_connPool s))) (\<lambda>(rs, stmt, conn, pool).
     db_bind (case rs of
                None \<Rightarrow> db_return ()
              | Some r \<Rightarrow> (case stmt of None \<Rightarrow> db_throw Null_pointer | Some t \<Rightarrow> db_call (occi_closeResultSet oc t r))) (\<lambda>_.
     db_bind (case stmt of
                None \<Rightarrow> db_return ()
              | Some t \<Rightarrow>
                  (case conn of
                     None \<Rightarrow> db_throw Null_pointer
                   | Some c \<Rightarrow> db_bind (db_call (terminateStatement oc c t)) (\<lambda>_. db_update (\<lambda>s. s\<lparr>m_statement := None\<rparr>)))) (\<lambda>_.
     case conn of
       None \<Rightarrow> db_return ()
     | Some c \<Rightarrow>
         db_bind (db_call (flushCache oc c)) (\<lambda>_.
         case pool of
           None \<Rightarrow> db_throw Null_pointer
         | Some p \<Rightarrow> db_bind (db_call (releaseConnection oc p c)) (\<lambda>_. db_update (\<lambda>s. s\<lparr>m_connection := None\<rparr>))))))"

definition DBCommand_delete :: "'w occi \<Rightarrow> DBCommand \<Rightarrow> 'w \<Rightarrow> (db_error + unit) \<times> 'w" where
  "DBCommand_delete oc s w =
     (case destroy_try oc s w of
        (Inr u, s, w) \<Rightarrow> (Inr (), w)
      | (Inl e, s, w) \<Rightarrow>
          if e \<noteq> SQLException then (Inl e, w)
          else (case (m_connPool s, m_connection s) of
                  (Some p, Some c) \<Rightarrow>
                    (case terminateConnection oc p c w of (Inl u, w) \<Rightarrow> (Inl Program_end, w) | (Inr u, w) \<Rightarrow> (Inr (), w))
                | _ \<Rightarrow> (Inl Null_pointer, w)))"

section \<open>DBConnCheckThread\<close>

text \<open>One round of \<open>Run\<close>: every pool is tried until one throws.\<close>

fun check_pools :: "'w occi \<Rightarrow> DBConnManage \<Rightarrow> nat \<Rightarrow> nat \<Rightarrow> 'w \<Rightarrow> (db_error + unit) \<times> 'w" where
  "check_pools oc mg i 0 w = (Inr (), w)"
| "check_pools oc mg i (Suc n) w =
     (case db_bind (command_init oc mg) (\<lambda>_. command_terminate oc) (DBCommand_new (int i)) w of
        (r, s, w) \<Rightarrow>
          (case DBCommand_delete oc s w of
             (Inl e, w) \<Rightarrow> (Inl e, w)
           | (Inr u, w) \<Rightarrow>
               (case r of
                  Inl e \<Rightarrow> (if e = Null_pointer then Inl e else Inr (), w)
                | Inr u \<Rightarrow> check_pools oc mg (Suc i) n w)))"

end
