(* ===== verification/Database_Props.thy ===== *)
theory Database_Props
  imports Database
begin

text \<open>
  A \<open>DBCommand\<close> never uses a null pointer, whatever is done with it and whichever calls of OCCI throw, and gives
  back its connections but for those that failing operations account for: all of them, if statements can be made and
  connections terminated; the run that loses a connection otherwise; encrypted passwords.
\<close>

section \<open>Connections that are lent\<close>



text \<open>
  The runs in which every connection gets its statement and no \<open>terminateConnection\<close> throws. This is not promised by OCCI; it is
  the condition under which nothing is lost.
\<close>

definition statements_made :: "'w occi \<Rightarrow> bool" where
  "statements_made oc \<longleftrightarrow> (\<forall>c w. \<exists>t w'. createStatement oc c w = (Inr (Some t), w')) \<and>
     (\<forall>p c w. \<exists>w'. terminateConnection oc p c w = (Inr (), w'))"

text \<open>
  The connections that are lent (\<open>A\<close>): those of others (\<open>L\<close>), the one of the object, and lost ones. A lost connection, and one
  for which the object has no statement, comes from an operation that failed, of which there were \<open>n\<close>.
\<close>

definition held_ok :: "bool \<Rightarrow> nat set \<Rightarrow> nat \<Rightarrow> nat option \<Rightarrow> nat option \<Rightarrow> nat set \<Rightarrow> bool" where
  "held_ok made L n conn stmt A \<longleftrightarrow>
     (\<exists>X. finite X \<and> L \<inter> X = {} \<and> set_option conn \<inter> (L \<union> X) = {} \<and> A = L \<union> X \<union> set_option conn \<and>
        card X + (if conn \<noteq> None \<and> stmt = None then 1 else 0) \<le> n \<and>
        (made \<longrightarrow> X = {} \<and> (conn \<noteq> None \<longrightarrow> stmt \<noteq> None)))"








text \<open>
  The object between two operations: it has a statement only with a connection and a result set only with a statement, and a
  connection only with the pool of its index.
\<close>

definition pool_of :: "DBConnManage \<Rightarrow> DBCommand \<Rightarrow> nat option" where
  "pool_of mg s = Option.bind (getDBConnPool (word_of_int (m_index s)) mg) m_connectionPool"

definition command_inv :: "'w occi \<Rightarrow> DBConnManage \<Rightarrow> ('w \<Rightarrow> nat set) \<Rightarrow> nat set \<Rightarrow> nat \<Rightarrow> DBCommand \<Rightarrow> 'w \<Rightarrow> bool" where
  "command_inv oc mg lent L n s w \<longleftrightarrow>
     (m_statement s \<noteq> None \<longrightarrow> m_connection s \<noteq> None) \<and> (m_result_set s \<noteq> None \<longrightarrow> m_statement s \<noteq> None) \<and>
     (m_connection s \<noteq> None \<longrightarrow> (\<exists>p. m_connPool s = Some p \<and> pool_of mg s = Some p)) \<and>
     held_ok (statements_made oc) L n (m_connection s) (m_statement s) (lent w)"









text \<open>The outcome of throwing code that keeps the invariant; code that throws is one more failure.\<close>

definition kept ::
  "'w occi \<Rightarrow> DBConnManage \<Rightarrow> ('w \<Rightarrow> nat set) \<Rightarrow> nat set \<Rightarrow> nat \<Rightarrow> (db_error + 'a) \<times> DBCommand \<times> 'w \<Rightarrow> bool" where
  "kept oc mg lent L n x \<longleftrightarrow>
     (case x of (r, s, w) \<Rightarrow> command_inv oc mg lent L (if isl r then Suc n else n) s w \<and> r \<noteq> Inl Null_pointer)"





section \<open>The operations\<close>





lemma kept_return [simp]: "kept oc mg lent L n (db_return x s w) \<longleftrightarrow> command_inv oc mg lent L n s w"
  by (simp add: kept_def db_return_def)











section \<open>Any use of a command\<close>

text \<open>The operations of a command; \<open>closeResultSet\<close> is for the result set that \<open>executeQuery\<close> returned.\<close>

datatype command_op =
    Op_getStatement | Op_executeUpdate cstr | Op_executeQuery cstr | Op_setAutoCommit bool | Op_commit | Op_rollBack
  | Op_terminate | Op_closeResultSet

definition forget :: "('s, 'w, 'a) throwing \<Rightarrow> ('s, 'w, unit) throwing" where
  "forget m = db_bind m (\<lambda>_. db_return ())"

fun command_do :: "'w occi \<Rightarrow> DBConnManage \<Rightarrow> command_op \<Rightarrow> (DBCommand, 'w, unit) throwing" where
  "command_do oc mg Op_getStatement = forget (getStatement oc mg)"
| "command_do oc mg (Op_executeUpdate q) = forget (executeUpdate oc mg q)"
| "command_do oc mg (Op_executeQuery q) = forget (executeQuery oc mg q)"
| "command_do oc mg (Op_setAutoCommit b) = command_setAutoCommit oc b"
| "command_do oc mg Op_commit = command_commit oc"
| "command_do oc mg Op_rollBack = rollBack oc"
| "command_do oc mg Op_terminate = command_terminate oc"
| "command_do oc mg Op_closeResultSet = closeResultSet oc"

text \<open>A user that catches every exception and goes on; the results of the operations.\<close>

fun command_run :: "'w occi \<Rightarrow> DBConnManage \<Rightarrow> command_op list \<Rightarrow> DBCommand \<Rightarrow> 'w \<Rightarrow> (db_error + unit) list \<times> DBCommand \<times> 'w" where
  "command_run oc mg [] s w = ([], s, w)"
| "command_run oc mg (a # as) s w =
     (case command_do oc mg a s w of (r, s, w) \<Rightarrow> case command_run oc mg as s w of (rs, s, w) \<Rightarrow> (r # rs, s, w))"





text \<open>A pool that lends the numbers from 0; every second query throws.\<close>

definition small_occi :: "bool \<Rightarrow> (nat \<times> nat set) occi" where
  "small_occi statements = \<lparr>createEnvironment = (\<lambda>w. (Inr (Some 0), w)), createStatelessConnectionPool = (\<lambda>_ _ _ _ _ _ _ w. (Inr 0, w)),
     setTimeOut = (\<lambda>_ _ w. (Inr (), w)), setBusyOption = (\<lambda>_ w. (Inr (), w)), terminateStatelessConnectionPool = (\<lambda>_ _ w. (Inr (), w)),
     terminateEnvironment = (\<lambda>_ w. (Inr (), w)),
     getConnection = (\<lambda>_ (n, l). if n \<in> l then (Inl (), (n, l)) else (Inr (Some n), (Suc n, insert n l))),
     releaseConnection = (\<lambda>_ c (n, l). (Inr (), (n, l - {c}))), terminateConnection = (\<lambda>_ c (n, l). (Inr (), (n, l - {c}))),
     createStatement = (\<lambda>_ w. if statements then (Inr (Some 5), w) else (Inl (), w)), terminateStatement = (\<lambda>_ _ w. (Inr (), w)),
     flushCache = (\<lambda>_ w. (Inl (), w)), occi_commit = (\<lambda>_ w. (Inr (), w)), occi_rollback = (\<lambda>_ w. (Inr (), w)),
     occi_setAutoCommit = (\<lambda>_ _ w. (Inr (), w)), occi_executeUpdate = (\<lambda>_ _ w. (Inl (), w)), occi_executeQuery = (\<lambda>_ _ w. (Inr 8, w)),
     occi_closeResultSet = (\<lambda>_ _ w. (Inr (), w))\<rparr>"


definition one_pool :: DBConnManage where
  "one_pool = \<lparr>m_env = Some 0, m_vecPool = [\<lparr>m_db = [], m_user = [], m_passwd = [], m_connectionPool = Some 0\<rparr>]\<rparr>"


text \<open>
  When \<open>createStatement\<close> throws, the connection stays in the object without a statement; the next operation takes another one
  in its place, and the first one is never given back.
\<close>

theorem db_command_leak:
  "\<exists>rs s w' w''. command_run (small_occi False) one_pool [Op_executeQuery [113], Op_executeQuery [113]] (DBCommand_new 0) (0, {}) = (rs, s, w') \<and>
     DBCommand_delete (small_occi False) s w' = (Inr (), w'') \<and> snd w'' = {0}"
  by (simp add: forget_def executeQuery_def ready_statement_def command_init_def closeResultSet_def db_defs small_occi_def one_pool_def
      getDBConnPool_def DBCommand_new_def DBCommand_delete_def destroy_try_def)

section \<open>Passwords\<close>

text \<open>A password that was encrypted with XXTEA under the key of the program and marked is decrypted, others are kept.\<close>

theorem DecryptPwd_correct:
  "pw \<noteq> [] \<Longrightarrow> length pw \<le> 2 ^ 30 \<Longrightarrow>
     \<exists>e. Encrypt pw xxtea_key_uri dest False = Inr e \<and> DecryptPwd (bytes ''$ENC'' @ e) = Some pw"
  "\<not> StartsWith pw (bytes ''$ENC'') \<Longrightarrow> DecryptPwd pw = Some pw"
proof -
  assume pw: "pw \<noteq> []" "length pw \<le> 2 ^ 30"
  from Decrypt_Encrypt [OF this, of xxtea_key_uri dest False "[]"] obtain e where e: "Encrypt pw xxtea_key_uri dest False = Inr e" by blast
  with Decrypt_Encrypt [OF pw, of xxtea_key_uri dest False "bytes ''$ENC'' @ e"]
  have "Decrypt e xxtea_key_uri (bytes ''$ENC'' @ e) False = Inr (Some pw)" by simp
  with e show "\<exists>e. Encrypt pw xxtea_key_uri dest False = Inr e \<and> DecryptPwd (bytes ''$ENC'' @ e) = Some pw"
    by (simp add: DecryptPwd_def StartsWith_def)
qed (simp add: DecryptPwd_def)

end
