(* ===== verification/Time_Utility.thy ===== *)
theory Time_Utility
  imports Prelude
begin

text \<open>
  \<open>TimeUtility\<close> and \<open>TimerClock\<close> (\<open>source/common/time_utility.cpp\<close>, \<open>time_utility.h\<close>). The clocks of
  the operating system are arguments, and so are \<open>localtime_r\<close> and \<open>mktime\<close>, which depend on the time
  zone. What \<open>snprintf\<close> prints and \<open>strptime\<close> reads for the formats of the file is written out, and a
  printed time is read back.
\<close>

record tm =
  tm_year :: int
  tm_mon :: int
  tm_mday :: int
  tm_hour :: int
  tm_min :: int
  tm_sec :: int

section \<open>Printing\<close>

definition GetCurremtMs :: "int \<Rightarrow> int \<Rightarrow> int" where
  "GetCurremtMs tv_sec tv_usec = tv_sec * 1000 + tv_usec div 1000"

text \<open>\<open>%0wd\<close> of an \<open>int\<close>: the sign counts as one of the \<open>w\<close> characters.\<close>

definition print_0d :: "nat \<Rightarrow> int \<Rightarrow> cstr" where
  "print_0d w n = (if n < 0 then 45 # zpad (w - 1) (nat (- n)) else zpad w (nat n))"

text \<open>\<open>localtime_r\<close> gives \<open>NULL\<close> for a year that does not fit into an \<open>int\<close>; the code reads through it.\<close>

definition GetStringTime :: "(int \<Rightarrow> tm option) \<Rightarrow> int \<Rightarrow> cstr \<Rightarrow> cstr result" where
  "GetStringTime localtime_r now strSplit =
     (case localtime_r now of
        None \<Rightarrow> Inl Undefined_behaviour
      | Some t \<Rightarrow>
          let Y = print_0d 4 (1900 + tm_year t); m = print_0d 2 (tm_mon t + 1); d = print_0d 2 (tm_mday t);
              H = print_0d 2 (tm_hour t); M = print_0d 2 (tm_min t); S = print_0d 2 (tm_sec t)
          in Inr (snprintf 256
               (if strSplit = [45] then Y @ [45] @ m @ [45] @ d @ [32] @ H @ [58] @ M @ [58] @ S
                else Y @ m @ d @ H @ M @ S)))"

section \<open>Reading\<close>

text \<open>
  A number field of \<open>strptime\<close>: blanks, then at most \<open>n\<close> digits, as long as another digit does not
  make the value exceed its range in any case.
\<close>

fun get_digits :: "nat \<Rightarrow> nat \<Rightarrow> nat \<Rightarrow> cstr \<Rightarrow> nat \<times> cstr" where
  "get_digits (Suc n) hi val (c # cs) =
     (if is_digit c \<and> val * 10 \<le> hi then get_digits n hi (10 * val + unat (c - 48)) cs else (val, c # cs))"
| "get_digits n hi val s = (val, s)"

definition get_number :: "nat \<Rightarrow> nat \<Rightarrow> nat \<Rightarrow> cstr \<Rightarrow> (int \<times> cstr) option" where
  "get_number lo hi n s =
     (case dropWhile is_space s of
        [] \<Rightarrow> None
      | c # cs \<Rightarrow>
          if \<not> is_digit c then None
          else case get_digits n hi 0 (c # cs) of
                 (val, r) \<Rightarrow> if lo \<le> val \<and> val \<le> hi then Some (int val, r) else None)"

definition get_literal :: "byte \<Rightarrow> cstr \<Rightarrow> cstr option" where
  "get_literal c s = (case s of [] \<Rightarrow> None | d # r \<Rightarrow> if c = d then Some r else None)"

text \<open>\<open>strptime(s, "%Y-%m-%d %H:%M:%S", &tm)\<close>; a blank of the format stands for any blanks.\<close>

definition strptime :: "cstr \<Rightarrow> tm option" where
  "strptime s =
     Option.bind (get_number 0 9999 4 s) (\<lambda>(Y, s). Option.bind (get_literal 45 s) (\<lambda>s.
     Option.bind (get_number 1 12 2 s) (\<lambda>(m, s). Option.bind (get_literal 45 s) (\<lambda>s.
     Option.bind (get_number 1 31 2 s) (\<lambda>(d, s).
     Option.bind (get_number 0 23 2 (dropWhile is_space s)) (\<lambda>(H, s). Option.bind (get_literal 58 s) (\<lambda>s.
     Option.bind (get_number 0 59 2 s) (\<lambda>(M, s). Option.bind (get_literal 58 s) (\<lambda>s.
     Option.bind (get_number 0 61 2 s) (\<lambda>(S, s).
       Some \<lparr>tm_year = Y - 1900, tm_mon = m - 1, tm_mday = d, tm_hour = H, tm_min = M, tm_sec = S\<rparr>))))))))))"

text \<open>
  The result of \<open>strptime\<close> is ignored: on a text it does not accept, \<open>mktime\<close> reads members of
  \<open>tm_\<close> that were never written.
\<close>

definition ChangeTime :: "(tm \<Rightarrow> int) \<Rightarrow> cstr \<Rightarrow> int result" where
  "ChangeTime mktime time =
     (case strptime (take 127 (takeWhile (\<lambda>c. c \<noteq> 0) time)) of
        None \<Rightarrow> Inl Undefined_behaviour
      | Some t \<Rightarrow> Inr (mktime t))"

definition GetTimeDiff :: "(tm \<Rightarrow> int) \<Rightarrow> cstr \<Rightarrow> cstr \<Rightarrow> int result" where
  "GetTimeDiff mktime t1 t2 =
     bind_result (ChangeTime mktime t1) (\<lambda>time1. bind_result (ChangeTime mktime t2) (\<lambda>time2.
       Inr (time1 - time2)))"

section \<open>TimerClock\<close>

record timer_clock = clock_start :: int

definition TimerClock_new :: "int \<Rightarrow> timer_clock" where
  "TimerClock_new ms = \<lparr>clock_start = ms\<rparr>"

definition TimerClock_Restart :: "int \<Rightarrow> timer_clock \<Rightarrow> timer_clock" where
  "TimerClock_Restart ms c = c\<lparr>clock_start := ms\<rparr>"

definition TimerClock_Elapsed :: "int \<Rightarrow> timer_clock \<Rightarrow> int" where
  "TimerClock_Elapsed ms c = ms - clock_start c"

section \<open>The shape of a printed time\<close>

text \<open>The ranges the C standard gives for the members, and a year of at most four digits.\<close>

definition tm_ok :: "tm \<Rightarrow> bool" where
  "tm_ok t \<longleftrightarrow> 0 \<le> 1900 + tm_year t \<and> 1900 + tm_year t \<le> 9999 \<and> 0 \<le> tm_mon t \<and> tm_mon t \<le> 11 \<and>
     1 \<le> tm_mday t \<and> tm_mday t \<le> 31 \<and> 0 \<le> tm_hour t \<and> tm_hour t \<le> 23 \<and> 0 \<le> tm_min t \<and> tm_min t \<le> 59 \<and>
     0 \<le> tm_sec t \<and> tm_sec t \<le> 60"

lemma print_0d_length: "0 < w \<Longrightarrow> 0 \<le> n \<Longrightarrow> n < 10 ^ w \<Longrightarrow> length (print_0d w n) = w"
  by (simp add: print_0d_def length_zpad nat_less_iff)

lemma GetStringTime_length:
  assumes "localtime_r now = Some t" "tm_ok t"
  shows "\<exists>s. GetStringTime localtime_r now [] = Inr s \<and> length s = 14"
  using assms by (simp add: GetStringTime_def Let_def tm_ok_def print_0d_length snprintf_def)

lemma digits_value_acc: "\<forall>c\<in>set s. is_digit c \<Longrightarrow> s \<noteq> [] \<Longrightarrow> 10 * acc \<le> digits_value acc s"
proof (induction s arbitrary: acc)
  case (Cons c s)
  show ?case
  proof (cases "s = []")
    case False
    have "10 * (10 * acc + unat (c - 48)) \<le> digits_value (10 * acc + unat (c - 48)) s"
      by (rule Cons.IH) (use Cons.prems False in auto)
    then show ?thesis using Cons.prems by simp
  qed (use Cons.prems in simp)
qed simp

lemma get_digits_all:
  "\<forall>c\<in>set s. is_digit c \<Longrightarrow> digits_value acc s \<le> hi \<Longrightarrow>
     get_digits (length s) hi acc (s @ r) = (digits_value acc s, r)"
proof (induction s arbitrary: acc)
  case (Cons c s)
  have "acc * 10 \<le> hi" using digits_value_acc [OF Cons.prems(1), of acc] Cons.prems(2) by simp
  with Cons show ?case by simp
qed simp

lemma get_number_print:
  assumes w: "0 < w" "v < 10 ^ w" and v: "int lo \<le> v" "v \<le> int hi"
  shows "get_number lo hi w (print_0d w v @ r) = Some (v, r)"
proof -
  let ?s = "zpad w (nat v)"
  have l: "length ?s = w" using w v(1) by (intro length_zpad) (auto simp: nat_less_iff)
  have d: "\<forall>c\<in>set ?s. is_digit c" by (rule zpad_digits)
  from zpad_not_Nil obtain c cs where s: "?s = c # cs" by (cases ?s) auto
  with d have c: "is_digit c" by simp
  then have "\<not> is_space c" unfolding is_digit_def is_space_def word_le_nat_alt by auto
  moreover have "get_digits w hi 0 (?s @ r) = (nat v, r)"
    using get_digits_all [OF d, of 0 hi r] v l by simp
  ultimately show ?thesis
    using s c v by (simp add: get_number_def print_0d_def nat_le_iff le_nat_iff)
qed

text \<open>A printed time with separators is read back; \<open>mktime\<close> turns it into a time again.\<close>

lemma strptime_print:
  assumes "localtime_r now = Some t" "tm_ok t" "GetStringTime localtime_r now [45] = Inr s"
  shows "strptime s = Some t"
proof -
  have sp: "is_space 32" by (simp add: is_space_def)
  have blank: "dropWhile is_space (print_0d 2 h @ r) = print_0d 2 h @ r" if "0 \<le> h" for h r
  proof -
    have "print_0d 2 h \<noteq> []" by (simp add: print_0d_def)
    then obtain c cs where s: "print_0d 2 h = c # cs" by (cases "print_0d 2 h") auto
    with zpad_digits [of 2 "nat h"] that have "is_digit c" by (simp add: print_0d_def)
    then have "\<not> is_space c" unfolding is_digit_def is_space_def word_le_nat_alt by auto
    then show ?thesis by (simp add: s)
  qed
  from assms have "s = print_0d 4 (1900 + tm_year t) @ 45 # print_0d 2 (tm_mon t + 1) @ 45 # print_0d 2 (tm_mday t) @
      32 # print_0d 2 (tm_hour t) @ 58 # print_0d 2 (tm_min t) @ 58 # print_0d 2 (tm_sec t) @ []"
    by (auto simp: GetStringTime_def Let_def snprintf_def tm_ok_def print_0d_length)
  with assms(2) show ?thesis
    by (simp add: strptime_def get_number_print tm_ok_def sp blank get_literal_def del: append_Nil2)
qed

lemma print_0d_not_0: "\<forall>c\<in>set (print_0d w n). c \<noteq> 0"
proof -
  have "\<not> is_digit 0" by (simp add: is_digit_def)
  then show ?thesis using zpad_digits by (auto simp: print_0d_def)
qed

lemma ChangeTime_print:
  assumes "localtime_r now = Some t" "tm_ok t"
  shows "\<exists>s. GetStringTime localtime_r now [45] = Inr s \<and> ChangeTime mktime s = Inr (mktime t)"
proof -
  obtain s where s: "GetStringTime localtime_r now [45] = Inr s" "length s = 19" "\<forall>c\<in>set s. c \<noteq> 0"
    using assms print_0d_not_0 by (simp add: GetStringTime_def Let_def tm_ok_def print_0d_length snprintf_def ball_Un)
  from s(3) have tw: "takeWhile (\<lambda>c. c \<noteq> 0) s = s" by (simp add: takeWhile_eq_all_conv)
  have "ChangeTime mktime s = Inr (mktime t)"
    unfolding ChangeTime_def tw using s(2) strptime_print [OF assms s(1)] by simp
  with s(1) show ?thesis by blast
qed

end
