(* ===== verification/Log_File.thy ===== *)
theory Log_File
  imports Time_Utility
begin

text \<open>
  The files of the logger: directories, opening, rolling and writing (\<open>MakeDir\<close>, \<open>MakeDirs\<close> and the class \<open>LogFile\<close> of
  \<open>source/log/log.cpp\<close>), and \<open>AppendFile\<close> (\<open>source/common/file_util.cpp\<close>). The functions of the C library and the
  system calls on files are the record \<open>file_api\<close> over a world; a \<open>FILE *\<close> is a number. The static buffers for
  file names are filled anew in every call and are results here.
\<close>

record 'w file_api =
  api_access :: "cstr \<Rightarrow> 'w \<Rightarrow> bool"
  api_mkdir :: "cstr \<Rightarrow> 'w \<Rightarrow> bool \<times> 'w"
  api_stat :: "cstr \<Rightarrow> 'w \<Rightarrow> (int \<times> int) option"
  api_fopen :: "cstr \<Rightarrow> cstr \<Rightarrow> 'w \<Rightarrow> nat option \<times> 'w"
  api_ftell :: "nat \<Rightarrow> 'w \<Rightarrow> int"
  api_fwrite :: "nat \<Rightarrow> cstr \<Rightarrow> 'w \<Rightarrow> nat \<times> 'w"
  api_fflush :: "nat \<Rightarrow> 'w \<Rightarrow> 'w"
  api_fclose :: "nat \<Rightarrow> 'w \<Rightarrow> 'w"
  api_rename :: "cstr \<Rightarrow> cstr \<Rightarrow> 'w \<Rightarrow> bool \<times> 'w"
  api_exe :: cstr

text \<open>What a C function sees of a string.\<close>

definition c_str :: "cstr \<Rightarrow> cstr" where
  "c_str s = takeWhile (\<lambda>c. c \<noteq> 0) s"

section \<open>Directories\<close>

definition MAX_PATH_LEN :: nat where "MAX_PATH_LEN = 1024"

definition MAX_FILENAME_LEN :: nat where "MAX_FILENAME_LEN = 256"

definition MakeDir :: "'w file_api \<Rightarrow> cstr \<Rightarrow> 'w \<Rightarrow> int \<times> 'w" where
  "MakeDir api path w =
     (if api_access api path w then (0, w)
      else case api_mkdir api path w of (ok, w) \<Rightarrow> (if ok then 0 else - 1, w))"

text \<open>The loop of \<open>MakeDirs\<close> at index \<open>i\<close> with \<open>n\<close> indices left. After a failure the array stays cut off at the separator.\<close>

fun make_dirs_loop :: "'w file_api \<Rightarrow> nat \<Rightarrow> nat \<Rightarrow> cstr \<Rightarrow> 'w \<Rightarrow> 'w result" where
  "make_dirs_loop api i 0 tmp w = Inr w"
| "make_dirs_loop api i (Suc n) tmp w =
     (if length tmp \<le> i then Inl Undefined_behaviour
      else if tmp ! i \<noteq> 47 \<or> i = 0 then make_dirs_loop api (Suc i) n tmp w
      else case MakeDir api (c_str (tmp[i := 0])) w of
             (r, w) \<Rightarrow> make_dirs_loop api (Suc i) n (if r \<noteq> 0 then tmp[i := 0] else tmp) w)"

definition MakeDirs :: "'w file_api \<Rightarrow> cstr \<Rightarrow> 'w \<Rightarrow> (int \<times> 'w) result" where
  "MakeDirs api path w =
     (let tmp = snprintf MAX_PATH_LEN path in
      bind_result (make_dirs_loop api 0 (length path) (tmp @ replicate (MAX_PATH_LEN - length tmp) 0) w) (\<lambda>w.
        Inr (MakeDir api path w)))"

section \<open>LogFile\<close>

text \<open>The static variables of \<open>log.cpp\<close> that concern files. A path of 1024 bytes has no closing zero.\<close>

record log_file =
  g_max_file_size :: "32 word"
  g_max_roll_num :: "32 word"
  g_file_path :: cstr
  g_log_file_name :: cstr
  m_log :: "nat option"
  m_error :: "nat option"
  m_roll_idx_log :: "32 word"
  m_roll_idx_error :: "32 word"

definition log_file_start :: log_file where
  "log_file_start = \<lparr>g_max_file_size = 10, g_max_roll_num = 10, g_file_path = bytes ''./log'', g_log_file_name = [],
     m_log = None, m_error = None, m_roll_idx_log = 0, m_roll_idx_error = 0\<rparr>"

definition g_min_file_size :: "32 word" where "g_min_file_size = 1"

definition g_min_roll_num :: "32 word" where "g_min_roll_num = 1"

text \<open>The part of \<open>link\<close> behind its last slash; \<open>link\<close> is what \<open>readlink\<close> gives for \<open>/proc/<pid>/exe\<close>.\<close>

definition GetSelfName :: "'w file_api \<Rightarrow> cstr result" where
  "GetSelfName api =
     (let link = api_exe api; base = rev (takeWhile (\<lambda>c. c \<noteq> 47) (rev link)) in
      if MAX_PATH_LEN \<le> length link \<or> 47 \<notin> set link \<or> MAX_FILENAME_LEN \<le> length base then Inl Undefined_behaviour
      else Inr base)"

definition GetFileName :: "'w file_api \<Rightarrow> cstr \<Rightarrow> 32 word \<Rightarrow> log_file \<Rightarrow> cstr result" where
  "GetFileName api type index s =
     (if length (g_file_path s) \<ge> MAX_PATH_LEN then Inl Undefined_behaviour
      else bind_result (if g_log_file_name s \<noteq> [] then Inr (g_log_file_name s) else GetSelfName api) (\<lambda>name.
        Inr (snprintf MAX_PATH_LEN (g_file_path s @ [47] @ name @ [46] @ type))))"

definition OpenFile :: "'w file_api \<Rightarrow> cstr \<Rightarrow> cstr \<Rightarrow> 32 word \<Rightarrow> log_file \<Rightarrow> 'w \<Rightarrow> (nat option \<times> 'w) result" where
  "OpenFile api mode type index s w = bind_result (GetFileName api type index s) (\<lambda>name. Inr (api_fopen api name mode w))"

text \<open>\<open>n\<close> more indices from \<open>i\<close> on.\<close>

fun roll_num_loop ::
  "'w file_api \<Rightarrow> cstr \<Rightarrow> log_file \<Rightarrow> 'w \<Rightarrow> nat \<Rightarrow> 32 word \<Rightarrow> 32 word \<Rightarrow> int \<Rightarrow> int \<Rightarrow> (32 word) result" where
  "roll_num_loop api type s w 0 i latest_idx latest_tm file_size = Inr latest_idx"
| "roll_num_loop api type s w (Suc n) i latest_idx latest_tm file_size =
     bind_result (GetFileName api type i s) (\<lambda>name.
       if \<not> api_access api name w then Inr latest_idx
       else case api_stat api name w of
              None \<Rightarrow> roll_num_loop api type s w n (i + 1) latest_idx latest_tm file_size
            | Some (st_mtime, st_size) \<Rightarrow>
                if latest_tm \<le> st_mtime \<and> st_size \<le> file_size then roll_num_loop api type s w n (i + 1) i st_mtime st_size
                else roll_num_loop api type s w n (i + 1) latest_idx latest_tm file_size)"

definition GetLatestRollNum :: "'w file_api \<Rightarrow> cstr \<Rightarrow> log_file \<Rightarrow> 'w \<Rightarrow> (32 word) result" where
  "GetLatestRollNum api type s w =
     roll_num_loop api type s w (unat (g_max_roll_num s)) 0 0 0 (uint (g_max_file_size s * 1024 * 1024 + 1))"

text \<open>
  The common text of \<open>LogFD\<close> and \<open>ErrorFD\<close>: the file, opened if it is not, and replaced by an empty one if the
  \<open>len\<close> bytes make it too large. The limit is computed with 32 bits. \<open>now\<close> is the time that the name of the old
  file gets.
\<close>

definition FD_open :: "'w file_api \<Rightarrow> cstr \<Rightarrow> nat option \<Rightarrow> 32 word \<Rightarrow> log_file \<Rightarrow> 'w \<Rightarrow> (nat option \<times> 32 word \<times> 'w) result" where
  "FD_open api type file idx s w =
     (if file \<noteq> None then Inr (file, idx, w)
      else if length (g_file_path s) \<ge> MAX_PATH_LEN then Inl Undefined_behaviour
      else
        bind_result (MakeDirs api (g_file_path s) w) (\<lambda>(r, w).
        bind_result (if r = 0 then GetLatestRollNum api type s w else Inr idx) (\<lambda>idx.
        bind_result (OpenFile api (bytes ''a'') type idx s w) (\<lambda>(file, w). Inr (file, idx, w)))))"

definition FD_roll ::
  "'w file_api \<Rightarrow> (int \<Rightarrow> tm option) \<Rightarrow> int \<Rightarrow> cstr \<Rightarrow> nat \<Rightarrow> 32 word \<Rightarrow> log_file \<Rightarrow> 'w \<Rightarrow> (nat option \<times> 'w) result" where
  "FD_roll api localtime_r now type f idx s w =
     (let w = api_fclose api f (api_fflush api f w) in
      bind_result (GetFileName api type 0 s) (\<lambda>curr.
      bind_result (GetStringTime localtime_r now []) (\<lambda>time.
        OpenFile api (bytes ''w'') type idx s (snd (api_rename api curr (snprintf MAX_PATH_LEN (curr @ [46] @ time)) w)))))"

definition FD_get ::
  "'w file_api \<Rightarrow> (int \<Rightarrow> tm option) \<Rightarrow> int \<Rightarrow> cstr \<Rightarrow> 32 word \<Rightarrow> nat option \<Rightarrow> 32 word \<Rightarrow> log_file \<Rightarrow> 'w
     \<Rightarrow> (nat option \<times> 32 word \<times> 'w) result" where
  "FD_get api localtime_r now type len file idx s w =
     bind_result (FD_open api type file idx s w) (\<lambda>(file, idx, w).
       case file of
         None \<Rightarrow> Inr (None, idx, w)
       | Some f \<Rightarrow>
           if api_ftell api f w + uint len < uint (g_max_file_size s * 1024 * 1024) then Inr (Some f, idx, w)
           else bind_result (FD_roll api localtime_r now type f idx s w) (\<lambda>(file, w). Inr (file, idx, w)))"

definition LogFD :: "'w file_api \<Rightarrow> (int \<Rightarrow> tm option) \<Rightarrow> int \<Rightarrow> 32 word \<Rightarrow> log_file \<Rightarrow> 'w \<Rightarrow> (nat option \<times> log_file \<times> 'w) result" where
  "LogFD api localtime_r now len s w =
     bind_result (FD_get api localtime_r now (bytes ''log'') len (m_log s) (m_roll_idx_log s) s w) (\<lambda>(file, idx, w).
       Inr (file, s\<lparr>m_log := file, m_roll_idx_log := idx\<rparr>, w))"

definition ErrorFD :: "'w file_api \<Rightarrow> (int \<Rightarrow> tm option) \<Rightarrow> int \<Rightarrow> 32 word \<Rightarrow> log_file \<Rightarrow> 'w \<Rightarrow> (nat option \<times> log_file \<times> 'w) result" where
  "ErrorFD api localtime_r now len s w =
     bind_result (FD_get api localtime_r now (bytes ''error'') len (m_error s) (m_roll_idx_error s) s w) (\<lambda>(file, idx, w).
       Inr (file, s\<lparr>m_error := file, m_roll_idx_error := idx\<rparr>, w))"

text \<open>\<open>fwrite\<close> of \<open>len\<close> bytes reads behind a shorter string.\<close>

definition WriteLog :: "'w file_api \<Rightarrow> (int \<Rightarrow> tm option) \<Rightarrow> int \<Rightarrow> cstr \<Rightarrow> 32 word \<Rightarrow> log_file \<Rightarrow> 'w \<Rightarrow> (log_file \<times> 'w) result" where
  "WriteLog api localtime_r now buff len s w =
     bind_result (LogFD api localtime_r now len s w) (\<lambda>(logfd, s, w).
       case logfd of
         None \<Rightarrow> Inr (s, w)
       | Some f \<Rightarrow>
           if length buff < unat len then Inl Undefined_behaviour
           else Inr (s, snd (api_fwrite api f (take (unat len) buff) w)))"

definition WriteError :: "'w file_api \<Rightarrow> (int \<Rightarrow> tm option) \<Rightarrow> int \<Rightarrow> cstr \<Rightarrow> 32 word \<Rightarrow> log_file \<Rightarrow> 'w \<Rightarrow> (log_file \<times> 'w) result" where
  "WriteError api localtime_r now buff len s w =
     bind_result (ErrorFD api localtime_r now len s w) (\<lambda>(errfd, s, w).
       case errfd of
         None \<Rightarrow> Inr (s, w)
       | Some f \<Rightarrow>
           if length buff < unat len then Inl Undefined_behaviour
           else Inr (s, snd (api_fwrite api f (take (unat len) buff) w)))"

definition LogFile_Close :: "'w file_api \<Rightarrow> log_file \<Rightarrow> 'w \<Rightarrow> log_file \<times> 'w" where
  "LogFile_Close api s w =
     (let w = (case m_log s of None \<Rightarrow> w | Some f \<Rightarrow> api_fclose api f (api_fflush api f w));
          w = (case m_error s of None \<Rightarrow> w | Some f \<Rightarrow> api_fclose api f (api_fflush api f w)) in
      (s\<lparr>m_log := None, m_error := None\<rparr>, w))"

definition LogFile_Flush :: "'w file_api \<Rightarrow> log_file \<Rightarrow> 'w \<Rightarrow> 'w" where
  "LogFile_Flush api s w =
     (let w = (case m_log s of None \<Rightarrow> w | Some f \<Rightarrow> api_fflush api f w) in
      case m_error s of None \<Rightarrow> w | Some f \<Rightarrow> api_fflush api f w)"

section \<open>AppendFile\<close>

record append_file =
  af_fp :: nat
  af_writtenBytes :: "64 word"

text \<open>A failed \<open>fopen\<close> ends in the assertion (\<open>Undefined_behaviour\<close>).\<close>

definition AppendFile_new :: "'w file_api \<Rightarrow> cstr \<Rightarrow> 'w \<Rightarrow> (append_file \<times> 'w) result" where
  "AppendFile_new api filename w =
     (case api_fopen api (c_str filename) (bytes ''ae'') w of
        (None, w) \<Rightarrow> Inl Undefined_behaviour
      | (Some f, w) \<Rightarrow> Inr (\<lparr>af_fp = f, af_writtenBytes = 0\<rparr>, w))"

definition AppendFile_delete :: "'w file_api \<Rightarrow> append_file \<Rightarrow> 'w \<Rightarrow> 'w" where
  "AppendFile_delete api s w = api_fclose api (af_fp s) w"

definition append_write :: "'w file_api \<Rightarrow> cstr \<Rightarrow> append_file \<Rightarrow> 'w \<Rightarrow> nat \<times> 'w" where
  "append_write api logline s w = api_fwrite api (af_fp s) logline w"

text \<open>The loop of \<open>append\<close> with the bytes that are left; \<open>fwrite\<close> never writes more than it is given.\<close>

function append_loop :: "'w file_api \<Rightarrow> append_file \<Rightarrow> cstr \<Rightarrow> 'w \<Rightarrow> 'w" where
  "append_loop api s logline w =
     (if logline = [] then w
      else case append_write api logline s w of (x, w) \<Rightarrow> if x = 0 then w else append_loop api s (drop x logline) w)"
  by auto
termination by (relation "measure (\<lambda>(_, _, logline, _). length logline)") auto

declare append_loop.simps [simp del]

definition file_append :: "'w file_api \<Rightarrow> cstr \<Rightarrow> append_file \<Rightarrow> 'w \<Rightarrow> append_file \<times> 'w" where
  "file_append api logline s w =
     (case append_write api logline s w of
        (n, w) \<Rightarrow> (s\<lparr>af_writtenBytes := af_writtenBytes s + of_nat (length logline)\<rparr>, append_loop api s (drop n logline) w))"

definition file_flush :: "'w file_api \<Rightarrow> append_file \<Rightarrow> 'w \<Rightarrow> 'w" where
  "file_flush api s w = api_fflush api (af_fp s) w"

end
