(* ===== verification/Log_Front.thy ===== *)
theory Log_Front
  imports Log_File Async_Logging
begin

text \<open>
  The class \<open>Log\<close> (\<open>source/log/log.cpp\<close>): settings, the formatting of a line, which goes to the buffers of
  \<open>AsyncLogging\<close>, the handler for signals, and a round of the thread that writes the buffers to the file
  (\<open>AsyncLogging::Run\<close>). Clock, thread number and the formatted message are arguments.
\<close>

datatype DEVICE_TYPE = DEV_STDOUT | DEV_FILE

datatype LOG_PRIORITY =
  LOG_PRIORITY_TRACE | LOG_PRIORITY_DEBUG | LOG_PRIORITY_INFO | LOG_PRIORITY_ERROR | LOG_PRIORITY_FATAL

fun priority_number :: "LOG_PRIORITY \<Rightarrow> nat" where
  "priority_number LOG_PRIORITY_TRACE = 0"
| "priority_number LOG_PRIORITY_DEBUG = 1"
| "priority_number LOG_PRIORITY_INFO = 2"
| "priority_number LOG_PRIORITY_ERROR = 3"
| "priority_number LOG_PRIORITY_FATAL = 4"

instantiation LOG_PRIORITY :: linorder
begin

definition less_eq_LOG_PRIORITY :: "LOG_PRIORITY \<Rightarrow> LOG_PRIORITY \<Rightarrow> bool" where
  "less_eq_LOG_PRIORITY p q \<longleftrightarrow> priority_number p \<le> priority_number q"

definition less_LOG_PRIORITY :: "LOG_PRIORITY \<Rightarrow> LOG_PRIORITY \<Rightarrow> bool" where
  "less_LOG_PRIORITY p q \<longleftrightarrow> priority_number p < priority_number q"

instance
proof
  fix p q :: LOG_PRIORITY
  show "p = q" if "p \<le> q" "q \<le> p" using that by (cases p; cases q) (simp_all add: less_eq_LOG_PRIORITY_def)
qed (auto simp: less_eq_LOG_PRIORITY_def less_LOG_PRIORITY_def)

end

definition g_device_str :: "cstr list" where
  "g_device_str = [bytes ''STDOUT'', bytes ''FILE'']"

definition g_priority_str :: "cstr list" where
  "g_priority_str = [bytes ''TRACE'', bytes ''DEBUG'', bytes ''INFO'', bytes ''ERROR'', bytes ''FATAL'']"

definition all_devices :: "DEVICE_TYPE list" where
  "all_devices = [DEV_STDOUT, DEV_FILE]"

definition all_priorities :: "LOG_PRIORITY list" where
  "all_priorities = [LOG_PRIORITY_TRACE, LOG_PRIORITY_DEBUG, LOG_PRIORITY_INFO, LOG_PRIORITY_ERROR, LOG_PRIORITY_FATAL]"

text \<open>The static variables; \<open>log_ids\<close> is the variable that every thread has of its own, \<open>None\<close> until it is used.\<close>

record log_state =
  log_files :: log_file
  g_device_type :: DEVICE_TYPE
  g_log_priority :: LOG_PRIORITY
  g_tlog_flush_func :: bool
  log_ids :: "nat \<Rightarrow> cstr option"

definition log_start :: log_state where
  "log_start = \<lparr>log_files = log_file_start, g_device_type = DEV_FILE, g_log_priority = LOG_PRIORITY_DEBUG,
     g_tlog_flush_func = False, log_ids = (\<lambda>_. None)\<rparr>"

section \<open>Settings\<close>

definition SetFileName :: "cstr \<Rightarrow> log_state \<Rightarrow> log_state" where
  "SetFileName file_name s = s\<lparr>log_files := (log_files s)\<lparr>g_log_file_name := snprintf 1024 (c_str file_name)\<rparr>\<rparr>"

definition ThreadLocal_Instance :: "nat \<Rightarrow> log_state \<Rightarrow> cstr \<times> log_state" where
  "ThreadLocal_Instance t s = (case log_ids s t of None \<Rightarrow> ([], s\<lparr>log_ids := (log_ids s)(t \<mapsto> [])\<rparr>) | Some v \<Rightarrow> (v, s))"

definition SetLogId :: "nat \<Rightarrow> cstr \<Rightarrow> log_state \<Rightarrow> log_state" where
  "SetLogId t i s = (let s = snd (ThreadLocal_Instance t s) in s\<lparr>log_ids := (log_ids s)(t \<mapsto> i)\<rparr>)"

definition GetLogId :: "nat \<Rightarrow> log_state \<Rightarrow> cstr \<times> log_state" where
  "GetLogId t s = ThreadLocal_Instance t s"

text \<open>An argument of an enumeration type is its number.\<close>

definition SetOutputDevice :: "int \<Rightarrow> log_state \<Rightarrow> int \<times> log_state" where
  "SetOutputDevice device s = (if device < 0 \<or> device > 1 then (- 1, s) else (0, s\<lparr>g_device_type := all_devices ! nat device\<rparr>))"

fun index_of :: "'a \<Rightarrow> 'a list \<Rightarrow> nat option" where
  "index_of x [] = None"
| "index_of x (y # ys) = (if y = x then Some 0 else map_option Suc (index_of x ys))"

definition SetOutputDevice_str :: "cstr \<Rightarrow> log_state \<Rightarrow> int \<times> log_state" where
  "SetOutputDevice_str device s =
     (case index_of device g_device_str of None \<Rightarrow> (- 1, s) | Some i \<Rightarrow> (0, s\<lparr>g_device_type := all_devices ! i\<rparr>))"

definition SetLogPriority :: "int \<Rightarrow> log_state \<Rightarrow> int \<times> log_state" where
  "SetLogPriority priority s = (if priority < 0 \<or> priority > 4 then (- 1, s) else (0, s\<lparr>g_log_priority := all_priorities ! nat priority\<rparr>))"

definition SetLogPriority_str :: "cstr \<Rightarrow> log_state \<Rightarrow> int \<times> log_state" where
  "SetLogPriority_str priority s =
     (case index_of priority g_priority_str of None \<Rightarrow> (- 1, s) | Some i \<Rightarrow> (0, s\<lparr>g_log_priority := all_priorities ! i\<rparr>))"

definition SetMaxFileSize :: "32 word \<Rightarrow> log_state \<Rightarrow> 32 word \<times> log_state" where
  "SetMaxFileSize max_size_Mbytes s =
     (let m = (if max_size_Mbytes < g_min_file_size then g_min_file_size else max_size_Mbytes) in
      (m, s\<lparr>log_files := (log_files s)\<lparr>g_max_file_size := m\<rparr>\<rparr>))"

definition SetMaxRollNum :: "32 word \<Rightarrow> log_state \<Rightarrow> 32 word \<times> log_state" where
  "SetMaxRollNum num s =
     (let m = (if num < g_min_roll_num then g_min_roll_num else num) in
      (m, s\<lparr>log_files := (log_files s)\<lparr>g_max_roll_num := m\<rparr>\<rparr>))"

definition Log_Close :: "'w file_api \<Rightarrow> log_state \<Rightarrow> 'w \<Rightarrow> log_state \<times> 'w" where
  "Log_Close api s w = (case LogFile_Close api (log_files s) w of (f, w) \<Rightarrow> (s\<lparr>log_files := f\<rparr>, w))"

definition SetFilePath :: "'w file_api \<Rightarrow> cstr \<Rightarrow> log_state \<Rightarrow> 'w \<Rightarrow> (int \<times> log_state \<times> 'w) result" where
  "SetFilePath api file_path s w =
     (if length file_path > 1024 \<or> file_path = [] then Inr (- 1, s, w)
      else bind_result (MakeDirs api (c_str file_path) w) (\<lambda>(r, w).
        if r \<noteq> 0 then Inr (- 2, s, w)
        else case Log_Close api (s\<lparr>log_files := (log_files s)\<lparr>g_file_path := c_str file_path\<rparr>\<rparr>) w of (s, w) \<Rightarrow> Inr (0, s, w)))"

text \<open>Of the functions of tlog only the one that \<open>Flush\<close> calls is ever used.\<close>

definition RegisterTlogFunc :: "bool \<Rightarrow> log_state \<Rightarrow> log_state" where
  "RegisterTlogFunc flush s = s\<lparr>g_tlog_flush_func := flush\<rparr>"

definition Log_Flush :: "'w file_api \<Rightarrow> ('w \<Rightarrow> 'w) \<Rightarrow> log_state \<Rightarrow> 'w \<Rightarrow> 'w" where
  "Log_Flush api tlog_flush s w =
     (let w = LogFile_Flush api (log_files s) w in if g_tlog_flush_func s then tlog_flush w else w)"

section \<open>Lines\<close>

definition GetTimeStamp :: "(int \<Rightarrow> tm option) \<Rightarrow> int \<Rightarrow> int \<Rightarrow> cstr result" where
  "GetTimeStamp localtime_r tv_sec tv_usec =
     (case localtime_r tv_sec of
        None \<Rightarrow> Inl Undefined_behaviour
      | Some t \<Rightarrow> Inr (snprintf 64
          (print_0d 4 (1900 + tm_year t) @ [45] @ print_0d 2 (tm_mon t + 1) @ [45] @ print_0d 2 (tm_mday t) @ [32] @
           print_0d 2 (tm_hour t) @ [58] @ print_0d 2 (tm_min t) @ [58] @ print_0d 2 (tm_sec t) @ [32] @ print_0d 6 tv_usec)))"

text \<open>The arguments of a call of \<open>Write\<close>: thread, time, place in the source, and what the format and its arguments give.\<close>

record log_call =
  lc_tid :: nat
  lc_sec :: int
  lc_usec :: int
  lc_pri :: LOG_PRIORITY
  lc_file :: cstr
  lc_line :: "32 word"
  lc_function :: cstr
  lc_msg :: cstr

definition base_name :: "cstr \<Rightarrow> cstr" where
  "base_name file = rev (takeWhile (\<lambda>c. c \<noteq> 47) (rev file))"

definition log_prefix :: "'w file_api \<Rightarrow> (int \<Rightarrow> tm option) \<Rightarrow> log_call \<Rightarrow> cstr \<Rightarrow> cstr result" where
  "log_prefix api localtime_r c logid =
     bind_result (GetTimeStamp localtime_r (lc_sec c) (lc_usec c)) (\<lambda>stamp.
     bind_result (GetSelfName api) (\<lambda>self.
       Inr ([91] @ stamp @ bytes '']['' @ dec_digits (lc_tid c) @ bytes ''][('' @ self @ bytes '')('' @ base_name (lc_file c) @ [58] @
            dec_digits (unat (lc_line c)) @ bytes '')('' @ lc_function c @ bytes '')]['' @
            g_priority_str ! priority_number (lc_pri c) @ bytes '']['' @ c_str logid @ bytes ''] '')))"

definition LOG_BUFF :: nat where "LOG_BUFF = 4096"

text \<open>
  What \<open>buff\<close> holds in the end. A prefix of more than 4096 bytes makes the address for the message lie
  outside the array, with an enormous length; the sum of the lengths is computed as \<open>int\<close>.
\<close>

definition log_buff :: "cstr \<Rightarrow> cstr \<Rightarrow> cstr result" where
  "log_buff pre msg =
     (let pre_len = length pre; len = length msg in
      if LOG_BUFF < pre_len \<or> 2 ^ 31 \<le> len + pre_len then Inl Undefined_behaviour
      else let buff = take (LOG_BUFF - 1) (take (LOG_BUFF - 1) pre @ take (LOG_BUFF - 1 - pre_len) msg);
               tail = (if LOG_BUFF - 2 < len + pre_len then LOG_BUFF - 2 else len + pre_len) in
           Inr (c_str (take tail buff)))"

text \<open>The text for the standard output, if any.\<close>

definition Log_Write ::
  "'w file_api \<Rightarrow> (int \<Rightarrow> tm option) \<Rightarrow> log_call \<Rightarrow> log_state \<Rightarrow> async_logging \<Rightarrow> (cstr \<times> log_state \<times> async_logging) result" where
  "Log_Write api localtime_r c s al =
     (if lc_pri c < g_log_priority s then Inr ([], s, al)
      else case GetLogId (lc_tid c) s of
        (logid, s) \<Rightarrow>
          bind_result (log_prefix api localtime_r c (if logid = [] then bytes ''default'' else logid)) (\<lambda>pre.
          bind_result (log_buff pre (lc_msg c)) (\<lambda>buff.
            if g_device_type s = DEV_STDOUT then Inr (buff @ [10], s, al)
            else bind_result (log_Append buff al) (\<lambda>al. Inr ([], s, al)))))"

section \<open>The writing thread\<close>

text \<open>One round of \<open>Run\<close>, at the time \<open>now\<close>. \<open>WriteLog\<close> gets the length with 32 bits.\<close>

definition AsyncLogging_Run ::
  "'w file_api \<Rightarrow> (int \<Rightarrow> tm option) \<Rightarrow> int \<Rightarrow> log_state \<Rightarrow> async_logging \<Rightarrow> 'w \<Rightarrow> (log_state \<times> async_logging \<times> 'w) result" where
  "AsyncLogging_Run api localtime_r now s al w =
     bind_result (log_Data al) (\<lambda>(log_buffer, al).
       if log_buffer = [] then Inr (s, al, LogFile_Flush api (log_files s) w)
       else bind_result (WriteLog api localtime_r now log_buffer (of_nat (length log_buffer)) (log_files s) w) (\<lambda>(f, w).
         Inr (s\<lparr>log_files := f\<rparr>, al, w)))"

section \<open>Signals\<close>

definition GetStackTrace :: "nat list \<Rightarrow> int \<Rightarrow> int \<Rightarrow> nat list" where
  "GetStackTrace stack max_depth skip_num =
     (let stack = take 64 stack; skip_num = skip_num + 1; remain = int (length stack) - skip_num;
          remain = (if remain < 0 then 0 else remain); remain = (if remain > max_depth then max_depth else remain) in
      map (\<lambda>i. stack ! nat (i + skip_num)) [0..remain - 1])"

definition g_failure_signals :: "(int \<times> cstr) list" where
  "g_failure_signals = [(11, bytes ''SIGSEGV''), (4, bytes ''SIGILL''), (8, bytes ''SIGFPE''), (6, bytes ''SIGABRT''),
     (7, bytes ''SIGBUS''), (15, bytes ''SIGTERM'')]"

text \<open>The actions of the signals: \<open>None\<close> is \<open>FailureSignalHandler\<close>. The saved ones are \<open>g_sigaction_bak\<close>.\<close>

definition InstallFailureSignalHandler :: "(int \<Rightarrow> 'h option) \<Rightarrow> (int \<Rightarrow> 'h option) \<times> 'h option list" where
  "InstallFailureSignalHandler act =
     ((\<lambda>n. if n \<in> set (map fst g_failure_signals) then None else act n), map (act \<circ> fst) g_failure_signals)"

fun stack_lines :: "nat \<Rightarrow> (nat \<Rightarrow> cstr) \<Rightarrow> nat list \<Rightarrow> cstr" where
  "stack_lines i symbol [] = []"
| "stack_lines i symbol (a # as) = [35] @ dec_digits i @ [32] @ symbol a @ [10] @ stack_lines (Suc i) symbol as"

definition signal_record :: "(nat \<Rightarrow> cstr) \<Rightarrow> nat list \<Rightarrow> cstr \<Rightarrow> int \<Rightarrow> cstr" where
  "signal_record symbol stack stamp signum =
     bytes ''['' @ stamp @ bytes '']'' @ bytes ''[(SIGNAL)('' @
     (case map_of g_failure_signals signum of None \<Rightarrow> [] | Some n \<Rightarrow> n) @ bytes '')][FATAL]'' @ [10] @ bytes ''stack trace:'' @ [10] @
     stack_lines 0 symbol (GetStackTrace stack 32 1) @ [10]"

text \<open>
  The handler; \<open>c\<close> is the call of \<open>Write\<close> without its message. The saved action is restored, whereupon the signal is sent
  again. A signal that is not in the table would take an action from behind the array.
\<close>

definition FailureSignalHandler ::
  "'w file_api \<Rightarrow> (int \<Rightarrow> tm option) \<Rightarrow> (nat \<Rightarrow> cstr) \<Rightarrow> nat list \<Rightarrow> 'h option list \<Rightarrow> log_call \<Rightarrow> int \<Rightarrow> log_state \<Rightarrow> async_logging \<Rightarrow>
     'w \<Rightarrow> ('h option \<times> cstr \<times> log_state \<times> async_logging \<times> 'w) result" where
  "FailureSignalHandler api localtime_r symbol stack bak c signum s al w =
     bind_result (GetTimeStamp localtime_r (lc_sec c) (lc_usec c)) (\<lambda>stamp.
     bind_result (Log_Write api localtime_r (c\<lparr>lc_pri := LOG_PRIORITY_FATAL, lc_msg := c_str (signal_record symbol stack stamp signum)\<rparr>) s al)
       (\<lambda>(out, s, al).
          case Log_Close api s w of
            (s, w) \<Rightarrow>
              (case index_of signum (map fst g_failure_signals) of
                 None \<Rightarrow> Inl Undefined_behaviour
               | Some i \<Rightarrow> if i < length bak then Inr (bak ! i, out, s, al, w) else Inl Undefined_behaviour)))"

end
