(* ===== verification/Log_Props.thy ===== *)
theory Log_Props
  imports Log_Front "HOL-Library.Sublist"
begin

text \<open>
  From \<open>Log::Write\<close> to the files: every line that is written is in the files in the end, in order, also when the file is
  rolled. What the code relies on of the files are \<open>files_ok\<close> and \<open>renames_ok\<close>.
\<close>

section \<open>Files\<close>

text \<open>\<open>content\<close> is the text of the files by their names, \<open>opened\<close> the names of the open files; writing succeeds.\<close>

definition files_ok :: "'w file_api \<Rightarrow> ('w \<Rightarrow> cstr \<Rightarrow> cstr option) \<Rightarrow> ('w \<Rightarrow> nat \<Rightarrow> cstr option) \<Rightarrow> bool" where
  "files_ok api content opened \<longleftrightarrow>
     (\<forall>p w. content (snd (api_mkdir api p w)) = content w \<and> opened (snd (api_mkdir api p w)) = opened w) \<and>
     (\<forall>p m w w'. api_fopen api p m w = (None, w') \<longrightarrow> content w' = content w \<and> opened w' = opened w) \<and>
     (\<forall>p m w f w'. api_fopen api p m w = (Some f, w') \<longrightarrow> opened w f = None \<and> opened w' = (opened w)(f \<mapsto> p) \<and>
        content w' = (content w)(p \<mapsto> (if m = bytes ''w'' then [] else case content w p of None \<Rightarrow> [] | Some t \<Rightarrow> t))) \<and>
     (\<forall>f w p t. opened w f = Some p \<longrightarrow> content w p = Some t \<longrightarrow> api_ftell api f w = int (length t)) \<and>
     (\<forall>f w p t b. opened w f = Some p \<longrightarrow> content w p = Some t \<longrightarrow>
        content (snd (api_fwrite api f b w)) = (content w)(p \<mapsto> t @ b) \<and> opened (snd (api_fwrite api f b w)) = opened w) \<and>
     (\<forall>f w. content (api_fflush api f w) = content w \<and> opened (api_fflush api f w) = opened w) \<and>
     (\<forall>f w. content (api_fclose api f w) = content w \<and> opened (api_fclose api f w) = (opened w)(f := None))"

text \<open>A file that is not open can be renamed.\<close>

definition renames_ok :: "'w file_api \<Rightarrow> ('w \<Rightarrow> cstr \<Rightarrow> cstr option) \<Rightarrow> ('w \<Rightarrow> nat \<Rightarrow> cstr option) \<Rightarrow> bool" where
  "renames_ok api content opened \<longleftrightarrow>
     (\<forall>p q w t. p \<noteq> q \<longrightarrow> content w p = Some t \<longrightarrow> p \<notin> ran (opened w) \<longrightarrow>
        content (snd (api_rename api p q w)) = (content w)(p := None, q \<mapsto> t) \<and> opened (snd (api_rename api p q w)) = opened w)"

definition text_of :: "('w \<Rightarrow> cstr \<Rightarrow> cstr option) \<Rightarrow> 'w \<Rightarrow> cstr \<Rightarrow> cstr" where
  "text_of content w p = (case content w p of None \<Rightarrow> [] | Some t \<Rightarrow> t)"

text \<open>The file that \<open>LogFD\<close> holds is open under the name of the log and under no other handle.\<close>

definition log_open :: "('w \<Rightarrow> cstr \<Rightarrow> cstr option) \<Rightarrow> ('w \<Rightarrow> nat \<Rightarrow> cstr option) \<Rightarrow> cstr \<Rightarrow> nat option \<Rightarrow> 'w \<Rightarrow> bool" where
  "log_open content opened cur file w =
     (case file of
        None \<Rightarrow> cur \<notin> ran (opened w)
      | Some f \<Rightarrow> opened w f = Some cur \<and> content w cur \<noteq> None \<and> (\<forall>g. opened w g = Some cur \<longrightarrow> g = f))"

definition backup_name :: "(int \<Rightarrow> tm option) \<Rightarrow> cstr \<Rightarrow> int \<Rightarrow> cstr" where
  "backup_name localtime_r cur t = cur @ [46] @ (case GetStringTime localtime_r t [] of Inl e \<Rightarrow> [] | Inr x \<Rightarrow> x)"

lemma backup_other [simp]: "backup_name lt cur t \<noteq> cur" "cur \<noteq> backup_name lt cur t"
  by (simp_all add: backup_name_def)

lemma string_time: "lt t \<noteq> None \<Longrightarrow> \<exists>x. GetStringTime lt t [] = Inr x \<and> length x \<le> 255"
  by (auto simp: GetStringTime_def Let_def snprintf_def simp del: take_append)

lemma GetFileName_index: "GetFileName api type i s = GetFileName api type 0 s"
  by (simp add: GetFileName_def)

lemma GetFileName_update: "GetFileName api type i (s\<lparr>m_log := f, m_roll_idx_log := k\<rparr>) = GetFileName api type i s"
  by (simp add: GetFileName_def)

lemma files_okD:
  assumes "files_ok api content opened"
  shows "content (snd (api_mkdir api p w)) = content w" "opened (snd (api_mkdir api p w)) = opened w"
    and "api_fopen api p m w = (Some f, w') \<Longrightarrow> opened w f = None \<and> opened w' = (opened w)(f \<mapsto> p) \<and>
        content w' = (content w)(p \<mapsto> (if m = bytes ''w'' then [] else text_of content w p))"
    and "opened w f = Some p \<Longrightarrow> content w p = Some t \<Longrightarrow> api_ftell api f w = int (length t)"
    and "opened w f = Some p \<Longrightarrow> content w p = Some t \<Longrightarrow> content (snd (api_fwrite api f b w)) = (content w)(p \<mapsto> t @ b)"
    and "opened w f = Some p \<Longrightarrow> content w p = Some t \<Longrightarrow> opened (snd (api_fwrite api f b w)) = opened w"
    and "content (api_fflush api f w) = content w" "opened (api_fflush api f w) = opened w"
    and "content (api_fclose api f w) = content w" "opened (api_fclose api f w) = (opened w)(f := None)"
  using assms unfolding files_ok_def text_of_def by metis+

lemma MakeDir_keeps:
  assumes "files_ok api content opened"
  shows "content (snd (MakeDir api p w)) = content w \<and> opened (snd (MakeDir api p w)) = opened w"
  using files_okD(1,2) [OF assms, of p w] by (auto simp: MakeDir_def split: prod.splits)

lemma make_dirs_loop_keeps:
  assumes "files_ok api content opened"
  shows "i + n \<le> length tmp \<Longrightarrow> \<exists>w'. make_dirs_loop api i n tmp w = Inr w' \<and> content w' = content w \<and> opened w' = opened w"
proof (induction n arbitrary: i tmp w)
  case (Suc n)
  show ?case
  proof (cases "tmp ! i \<noteq> 47 \<or> i = 0")
    case True
    with Suc.IH [of "Suc i" tmp w] Suc.prems show ?thesis by auto
  next
    case False
    obtain r w1 where m: "MakeDir api (c_str (tmp[i := 0])) w = (r, w1)" by fastforce
    with MakeDir_keeps [OF assms, of "c_str (tmp[i := 0])" w] have "content w1 = content w" "opened w1 = opened w" by simp_all
    with Suc.IH [of "Suc i" "if r \<noteq> 0 then tmp[i := 0] else tmp" w1] Suc.prems False m show ?thesis by (auto split: if_splits)
  qed
qed simp

lemma MakeDirs_keeps:
  assumes "files_ok api content opened" "length path < MAX_PATH_LEN"
  shows "\<exists>r w'. MakeDirs api path w = Inr (r, w') \<and> content w' = content w \<and> opened w' = opened w"
proof -
  let ?tmp = "snprintf MAX_PATH_LEN path"
  have "0 + length path \<le> length (?tmp @ replicate (MAX_PATH_LEN - length ?tmp) 0)" using assms(2) by (simp add: snprintf_def MAX_PATH_LEN_def)
  from make_dirs_loop_keeps [OF assms(1) this, of w] obtain w1 where
    w1: "make_dirs_loop api 0 (length path) (?tmp @ replicate (MAX_PATH_LEN - length ?tmp) 0) w = Inr w1" "content w1 = content w" "opened w1 = opened w"
    by blast
  obtain r w2 where m: "MakeDir api path w1 = (r, w2)" by fastforce
  with MakeDir_keeps [OF assms(1), of path w1] w1 show ?thesis by (simp add: MakeDirs_def Let_def)
qed

lemma roll_num_total:
  assumes "GetFileName api type 0 s = Inr cur"
  shows "\<exists>k. roll_num_loop api type s w n i a b c = Inr k"
proof (induction n arbitrary: i a b c)
  case (Suc n)
  then show ?case by (auto simp: GetFileName_index [of api type i] assms split: option.splits)
qed simp

section \<open>Writing and rolling\<close>

definition roll_limit :: "log_file \<Rightarrow> int" where
  "roll_limit s = uint (g_max_file_size s * 1024 * 1024)"

lemma FD_open_ok:
  assumes ok: "files_ok api content opened" and name: "GetFileName api type 0 s = Inr cur"
    and opens: "\<forall>m w. fst (api_fopen api cur m w) \<noteq> None" and o: "log_open content opened cur fl w"
  shows "\<exists>f idx' w'. FD_open api type fl idx s w = Inr (Some f, idx', w') \<and> log_open content opened cur (Some f) w' \<and>
    content w' = (content w)(cur \<mapsto> text_of content w cur)"
proof (cases fl)
  case None
  have len: "length (g_file_path s) < MAX_PATH_LEN" using name by (auto simp: GetFileName_def split: if_splits)
  obtain r w1 where r: "MakeDirs api (g_file_path s) w = Inr (r, w1)" "content w1 = content w" "opened w1 = opened w"
    using MakeDirs_keeps [OF ok len] by blast
  obtain k where k: "GetLatestRollNum api type s w1 = Inr k" using roll_num_total [OF name] by (fastforce simp: GetLatestRollNum_def)
  obtain f w2 where f: "api_fopen api cur (bytes ''a'') w1 = (Some f, w2)" using opens by (metis not_None_eq prod.collapse)
  have a: "bytes ''a'' \<noteq> bytes ''w''" by simp
  note l = files_okD(3) [OF ok f]
  have "log_open content opened cur (Some f) w2" using l None o r(3) by (auto simp: log_open_def ran_def)
  moreover have "content w2 = (content w)(cur \<mapsto> text_of content w cur)" using l a r(2) by (simp add: text_of_def)
  moreover have "FD_open api type fl idx s w = Inr (Some f, if r = 0 then k else idx, w2)"
    using None len r(1) k f by (simp add: FD_open_def OpenFile_def GetFileName_index [of api type k] GetFileName_index [of api type idx] name)
  ultimately show ?thesis by blast
next
  case (Some f)
  with o obtain x where x: "content w cur = Some x" by (auto simp: log_open_def)
  then have "(content w)(cur \<mapsto> text_of content w cur) = content w" by (simp add: text_of_def fun_upd_idem)
  with Some o show ?thesis by (simp add: FD_open_def)
qed

lemma FD_roll_ok:
  assumes ok: "files_ok api content opened" "renames_ok api content opened" and name: "GetFileName api type 0 s = Inr cur"
    and opens: "\<forall>m w. fst (api_fopen api cur m w) \<noteq> None" and o: "log_open content opened cur (Some f) w"
    and t: "lt now \<noteq> None" and cur: "length cur \<le> 700"
  shows "\<exists>f' w'. FD_roll api lt now type f idx s w = Inr (Some f', w') \<and> log_open content opened cur (Some f') w' \<and>
    content w' = (content w)(backup_name lt cur now \<mapsto> text_of content w cur, cur \<mapsto> [])"
proof -
  let ?w = "api_fclose api f (api_fflush api f w)" and ?bak = "backup_name lt cur now"
  obtain x where x: "GetStringTime lt now [] = Inr x" "length x \<le> 255" using string_time [of lt now, OF t] by blast
  have bak: "snprintf MAX_PATH_LEN (cur @ [46] @ x) = ?bak" using x cur by (simp add: snprintf_def MAX_PATH_LEN_def backup_name_def)
  have w: "content ?w = content w" "opened ?w = (opened w)(f := None)" by (simp_all add: files_okD [OF ok(1)])
  obtain old where old: "content w cur = Some old" using o by (auto simp: log_open_def)
  have free: "cur \<notin> ran (opened ?w)" using o w(2) by (auto simp: log_open_def ran_def split: if_splits)
  let ?w1 = "snd (api_rename api cur ?bak ?w)"
  have w1: "content ?w1 = (content w)(cur := None, ?bak \<mapsto> old)" "opened ?w1 = opened ?w"
    using ok(2) free w old backup_other(2) [of cur lt now] unfolding renames_ok_def by metis+
  obtain f' w2 where f: "api_fopen api cur (bytes ''w'') ?w1 = (Some f', w2)" using opens by (metis not_None_eq prod.collapse)
  note l = files_okD(3) [OF ok(1) f]
  have "log_open content opened cur (Some f') w2" using l free w1(2) by (auto simp: log_open_def ran_def)
  moreover have "content w2 = (content w)(?bak \<mapsto> text_of content w cur, cur \<mapsto> [])" using l w1(1) old by (auto simp: text_of_def fun_eq_iff)
  moreover have "FD_roll api lt now type f idx s w = Inr (Some f', w2)"
    using f by (simp add: FD_roll_def Let_def OpenFile_def GetFileName_index [of api type idx] name x(1) bak [simplified])
  ultimately show ?thesis by blast
qed

lemma log_open_update:
  "log_open content opened cur (Some f) w \<Longrightarrow> opened w' = opened w \<Longrightarrow> content w' = (content w)(cur \<mapsto> t) \<Longrightarrow>
    log_open content opened cur (Some f) w'"
  unfolding log_open_def option.case by (metis fun_upd_same option.discI)

text \<open>One call of \<open>WriteLog\<close>: the text is added, or the old text is moved to the backup file and the file starts anew.\<close>

lemma WriteLog_ok:
  assumes ok: "files_ok api content opened" "renames_ok api content opened" and name: "GetFileName api (bytes ''log'') 0 s = Inr cur"
    and opens: "\<forall>m w. fst (api_fopen api cur m w) \<noteq> None" and o: "log_open content opened cur (m_log s) w"
    and t: "lt now \<noteq> None" and cur: "length cur \<le> 700" and len: "length buff < 2 ^ 32"
  shows "\<exists>f idx w'. WriteLog api lt now buff (of_nat (length buff)) s w = Inr (s\<lparr>m_log := Some f, m_roll_idx_log := idx\<rparr>, w') \<and>
    log_open content opened cur (Some f) w' \<and>
    content w' = (if int (length (text_of content w cur) + length buff) < roll_limit s then (content w)(cur \<mapsto> text_of content w cur @ buff)
      else (content w)(backup_name lt cur now \<mapsto> text_of content w cur, cur \<mapsto> buff))"
proof -
  let ?len = "of_nat (length buff) :: 32 word"
  have u: "unat ?len = length buff" "uint ?len = int (length buff)" using len by (simp_all add: unat_of_nat uint_nat)
  obtain f1 idx w1 where 1: "FD_open api (bytes ''log'') (m_log s) (m_roll_idx_log s) s w = Inr (Some f1, idx, w1)"
    "log_open content opened cur (Some f1) w1" "content w1 = (content w)(cur \<mapsto> text_of content w cur)"
    using FD_open_ok [OF ok(1) name opens o] by blast
  have tell: "api_ftell api f1 w1 = int (length (text_of content w cur))" using files_okD(4) [OF ok(1)] 1(2,3) by (auto simp: log_open_def)
  obtain f2 w2 where 2: "FD_roll api lt now (bytes ''log'') f1 idx s w1 = Inr (Some f2, w2)" "log_open content opened cur (Some f2) w2"
    "content w2 = (content w1)(backup_name lt cur now \<mapsto> text_of content w1 cur, cur \<mapsto> [])"
    using FD_roll_ok [where lt = lt and now = now, OF ok name opens 1(2) t cur] by blast
  have wr: "log_open content opened cur (Some f) (snd (api_fwrite api f buff w'))
      \<and> content (snd (api_fwrite api f buff w')) = (content w')(cur \<mapsto> text_of content w' cur @ buff)"
    if "log_open content opened cur (Some f) w'" for f w'
  proof -
    from that obtain x where "opened w' f = Some cur" "content w' cur = Some x" by (auto simp: log_open_def)
    note fw = files_okD(5,6) [OF ok(1) this, of buff]
    show ?thesis using log_open_update [OF that fw(2,1)] fw(1) \<open>content w' cur = Some x\<close> by (simp add: text_of_def)
  qed
  show ?thesis
  proof (cases "int (length (text_of content w cur) + length buff) < roll_limit s")
    case True
    then have "WriteLog api lt now buff ?len s w = Inr (s\<lparr>m_log := Some f1, m_roll_idx_log := idx\<rparr>, snd (api_fwrite api f1 buff w1))"
      by (simp add: WriteLog_def LogFD_def FD_get_def 1(1) tell u roll_limit_def del: bytes_simps)
    with wr [OF 1(2)] 1(3) True show ?thesis by (fastforce simp: text_of_def)
  next
    case False
    then have "WriteLog api lt now buff ?len s w = Inr (s\<lparr>m_log := Some f2, m_roll_idx_log := idx\<rparr>, snd (api_fwrite api f2 buff w2))"
      by (simp add: WriteLog_def LogFD_def FD_get_def 1(1) 2(1) tell u roll_limit_def del: bytes_simps)
    with wr [OF 2(2)] 2(3) 1(3) False show ?thesis by (fastforce simp: text_of_def fun_upd_twist)
  qed
qed

section \<open>Lines\<close>

definition ids_of :: "log_state \<Rightarrow> nat \<Rightarrow> cstr" where
  "ids_of s t = (case log_ids s t of None \<Rightarrow> [] | Some v \<Rightarrow> v)"

definition shown_id :: "cstr \<Rightarrow> cstr" where
  "shown_id i = (if i = [] then bytes ''default'' else i)"

text \<open>The prefix of a line fits into the buffer and the lengths into an \<open>int\<close>; then this is the line.\<close>

definition call_ok :: "'w file_api \<Rightarrow> (int \<Rightarrow> tm option) \<Rightarrow> log_call \<Rightarrow> cstr \<Rightarrow> bool" where
  "call_ok api localtime_r c i =
     (case log_prefix api localtime_r c (shown_id i) of
        Inl e \<Rightarrow> False | Inr pre \<Rightarrow> length pre \<le> 4096 \<and> length (lc_msg c) + length pre < 2 ^ 31)"

definition log_line :: "'w file_api \<Rightarrow> (int \<Rightarrow> tm option) \<Rightarrow> log_call \<Rightarrow> cstr \<Rightarrow> cstr" where
  "log_line api localtime_r c i =
     (case log_prefix api localtime_r c (shown_id i) of Inl e \<Rightarrow> [] | Inr pre \<Rightarrow> c_str (take 4094 (pre @ lc_msg c)))"

lemma log_buff_ok: "length pre \<le> 4096 \<Longrightarrow> length msg + length pre < 2 ^ 31 \<Longrightarrow> log_buff pre msg = Inr (c_str (take 4094 (pre @ msg)))"
  by (auto simp: log_buff_def Let_def LOG_BUFF_def min_def)

lemma length_c_str: "length (c_str s) \<le> length s"
  by (simp add: c_str_def length_takeWhile_le)

lemma log_line_length: "length (log_line api lt c i) \<le> 4094"
proof (cases "log_prefix api lt c (shown_id i)")
  case (Inr pre)
  show ?thesis using length_c_str [of "take 4094 (pre @ lc_msg c)"] Inr by (simp add: log_line_def del: take_append)
qed (simp add: log_line_def)

lemma Log_Write_ok:
  assumes dev: "g_device_type s = DEV_FILE" and inv: "log_inv al" and pri: "\<not> lc_pri c < g_log_priority s"
    and ok: "call_ok api lt c (ids_of s (lc_tid c))"
  shows "\<exists>ids al'. Log_Write api lt c s al = Inr ([], s\<lparr>log_ids := ids\<rparr>, al') \<and> ids_of (s\<lparr>log_ids := ids\<rparr>) = ids_of s \<and> log_inv al' \<and>
    log_lines al' = log_lines al @ [log_line api lt c (ids_of s (lc_tid c))]"
proof -
  obtain ids where i: "GetLogId (lc_tid c) s = (ids_of s (lc_tid c), s\<lparr>log_ids := ids\<rparr>)" "ids_of (s\<lparr>log_ids := ids\<rparr>) = ids_of s"
  proof (cases "log_ids s (lc_tid c)")
    case None
    then show ?thesis using that [of "(log_ids s)(lc_tid c \<mapsto> [])"] by (simp add: GetLogId_def ThreadLocal_Instance_def ids_of_def fun_eq_iff)
  next
    case (Some v)
    then show ?thesis using that [of "log_ids s"] by (simp add: GetLogId_def ThreadLocal_Instance_def ids_of_def)
  qed
  obtain pre where pre: "log_prefix api lt c (shown_id (ids_of s (lc_tid c))) = Inr pre" "length pre \<le> 4096" "length (lc_msg c) + length pre < 2 ^ 31"
    using ok by (auto simp: call_ok_def split: sum.splits)
  let ?l = "log_line api lt c (ids_of s (lc_tid c))"
  have b: "log_buff pre (lc_msg c) = Inr ?l" using log_buff_ok [OF pre(2,3)] pre(1) by (simp add: log_line_def)
  obtain al' where al: "log_Append ?l al = Inr al'" "log_inv al'" "log_lines al' = log_lines al @ [?l]" using log_Append_ok [OF inv] by blast
  have "Log_Write api lt c s al = Inr ([], s\<lparr>log_ids := ids\<rparr>, al')"
    using pri dev pre(1) i(1) b al(1) unfolding Log_Write_def shown_id_def by (simp del: bytes_simps)
  with i(2) al show ?thesis by blast
qed

section \<open>Writing threads and the file\<close>

datatype log_event = Ev_call log_call | Ev_id nat cstr | Ev_round int

text \<open>Calls of \<open>Write\<close> and \<open>SetLogId\<close> by any threads, and rounds of the writing thread, in the order of their critical sections.\<close>

fun logging_run ::
  "'w file_api \<Rightarrow> (int \<Rightarrow> tm option) \<Rightarrow> log_event list \<Rightarrow> log_state \<Rightarrow> async_logging \<Rightarrow> 'w \<Rightarrow> (log_state \<times> async_logging \<times> 'w) result" where
  "logging_run api lt [] s al w = Inr (s, al, w)"
| "logging_run api lt (Ev_call c # es) s al w = bind_result (Log_Write api lt c s al) (\<lambda>(out, s, al). logging_run api lt es s al w)"
| "logging_run api lt (Ev_id t i # es) s al w = logging_run api lt es (SetLogId t i s) al w"
| "logging_run api lt (Ev_round now # es) s al w = bind_result (AsyncLogging_Run api lt now s al w) (\<lambda>(s, al, w). logging_run api lt es s al w)"

text \<open>The lines that are accepted with the given priority and log ids.\<close>

fun accepted :: "'w file_api \<Rightarrow> (int \<Rightarrow> tm option) \<Rightarrow> LOG_PRIORITY \<Rightarrow> (nat \<Rightarrow> cstr) \<Rightarrow> log_event list \<Rightarrow> cstr list" where
  "accepted api lt pri ids [] = []"
| "accepted api lt pri ids (Ev_call c # es) =
     (if lc_pri c < pri then accepted api lt pri ids es else log_line api lt c (ids (lc_tid c)) # accepted api lt pri ids es)"
| "accepted api lt pri ids (Ev_id t i # es) = accepted api lt pri (ids(t := i)) es"
| "accepted api lt pri ids (Ev_round now # es) = accepted api lt pri ids es"

text \<open>At most 50000 lines between two rounds, \<open>n\<close> of them already there; lines fit and times can be printed.\<close>

fun events_ok :: "'w file_api \<Rightarrow> (int \<Rightarrow> tm option) \<Rightarrow> LOG_PRIORITY \<Rightarrow> (nat \<Rightarrow> cstr) \<Rightarrow> nat \<Rightarrow> log_event list \<Rightarrow> bool" where
  "events_ok api lt pri ids n [] = True"
| "events_ok api lt pri ids n (Ev_call c # es) =
     (if lc_pri c < pri then events_ok api lt pri ids n es
      else call_ok api lt c (ids (lc_tid c)) \<and> n < 50000 \<and> events_ok api lt pri ids (Suc n) es)"
| "events_ok api lt pri ids n (Ev_id t i # es) = events_ok api lt pri (ids(t := i)) n es"
| "events_ok api lt pri ids n (Ev_round now # es) = (lt now \<noteq> None \<and> events_ok api lt pri ids 0 es)"

fun round_times :: "log_event list \<Rightarrow> int list" where
  "round_times [] = []"
| "round_times (Ev_round now # es) = now # round_times es"
| "round_times (e # es) = round_times es"

definition lines_text :: "cstr list \<Rightarrow> cstr" where
  "lines_text ls = concat (map (\<lambda>l. l @ [10]) ls)"

definition logging_inv ::
  "'w file_api \<Rightarrow> ('w \<Rightarrow> cstr \<Rightarrow> cstr option) \<Rightarrow> ('w \<Rightarrow> nat \<Rightarrow> cstr option) \<Rightarrow> cstr \<Rightarrow> log_state \<Rightarrow> async_logging \<Rightarrow> 'w \<Rightarrow> bool" where
  "logging_inv api content opened cur s al w \<longleftrightarrow>
     log_inv al \<and> g_device_type s = DEV_FILE \<and> GetFileName api (bytes ''log'') 0 (log_files s) = Inr cur \<and>
     log_open content opened cur (m_log (log_files s)) w \<and> (\<forall>l\<in>set (log_lines al). length l \<le> 4094) \<and> length (log_lines al) \<le> 50000"

lemma lines_text_length: "\<forall>l\<in>set ls. length l \<le> 4094 \<Longrightarrow> length (lines_text ls) \<le> 4095 * length ls"
  by (induction ls) (auto simp: lines_text_def)

text \<open>A round moves all lines that are there to the file, or rolls it and starts the next one with them.\<close>

lemma Run_ok:
  assumes ok: "files_ok api content opened" "renames_ok api content opened"
    and opens: "\<forall>m w. fst (api_fopen api cur m w) \<noteq> None" and cur: "length cur \<le> 700" and t: "lt now \<noteq> None"
    and inv: "logging_inv api content opened cur s al w"
  shows "\<exists>lf al' w'. AsyncLogging_Run api lt now s al w = Inr (s\<lparr>log_files := lf\<rparr>, al', w') \<and> logging_inv api content opened cur (s\<lparr>log_files := lf\<rparr>) al' w' \<and>
    log_lines al' = [] \<and> roll_limit lf = roll_limit (log_files s) \<and>
    (text_of content w' cur = text_of content w cur @ lines_text (log_lines al) \<and> (\<forall>p. p \<noteq> cur \<longrightarrow> content w' p = content w p) \<and>
       (lines_text (log_lines al) = [] \<or> int (length (text_of content w' cur)) < roll_limit lf) \<or>
     text_of content w' cur = lines_text (log_lines al) \<and>
       content w' = (content w)(backup_name lt cur now \<mapsto> text_of content w cur, cur \<mapsto> lines_text (log_lines al)))"
proof -
  let ?txt = "lines_text (log_lines al)"
  have i: "log_inv al" "GetFileName api (bytes ''log'') 0 (log_files s) = Inr cur" "log_open content opened cur (m_log (log_files s)) w"
    using inv by (simp_all add: logging_inv_def del: bytes_simps)
  obtain al' where al: "log_Data al = Inr (?txt, al')" "log_inv al'" "log_lines al' = []"
    using log_Data_ok [OF i(1)] inv by (auto simp: logging_inv_def BUFFER_LINES_def lines_text_def)
  have len: "length ?txt < 2 ^ 32" using lines_text_length [of "log_lines al"] inv by (simp add: logging_inv_def)
  have inv': "logging_inv api content opened cur (s\<lparr>log_files := lf\<rparr>) al' w'"
    if "log_open content opened cur (m_log lf) w'" "GetFileName api (bytes ''log'') 0 lf = Inr cur" for lf w'
    using that inv al by (simp add: logging_inv_def del: bytes_simps)
  show ?thesis
  proof (cases "?txt = []")
    case True
    let ?w = "LogFile_Flush api (log_files s) w"
    have fl: "content ?w = content w" "opened ?w = opened w" by (auto simp: LogFile_Flush_def files_okD [OF ok(1)] split: option.splits)
    have "log_open content opened cur (m_log (log_files s)) ?w" using i(3) unfolding log_open_def fl .
    from inv' [OF this i(2)] have "logging_inv api content opened cur s al' ?w" by simp
    moreover have "AsyncLogging_Run api lt now s al w = Inr (s, al', ?w)" using al(1) True by (simp add: AsyncLogging_Run_def)
    ultimately show ?thesis using al(3) True fl
      by (intro exI [of _ "log_files s"] exI [of _ al'] exI [of _ ?w]) (simp add: text_of_def)
  next
    case False
    obtain f idx w' where w: "WriteLog api lt now ?txt (of_nat (length ?txt)) (log_files s) w = Inr ((log_files s)\<lparr>m_log := Some f, m_roll_idx_log := idx\<rparr>, w')"
      "log_open content opened cur (Some f) w'"
      "content w' = (if int (length (text_of content w cur) + length ?txt) < roll_limit (log_files s) then (content w)(cur \<mapsto> text_of content w cur @ ?txt)
        else (content w)(backup_name lt cur now \<mapsto> text_of content w cur, cur \<mapsto> ?txt))"
      using WriteLog_ok [where lt = lt and now = now, OF ok i(2) opens i(3) t cur len] by blast
    let ?lf = "(log_files s)\<lparr>m_log := Some f, m_roll_idx_log := idx\<rparr>"
    have n: "GetFileName api (bytes ''log'') 0 ?lf = Inr cur" using i(2) by (simp add: GetFileName_update del: bytes_simps)
    have "AsyncLogging_Run api lt now s al w = Inr (s\<lparr>log_files := ?lf\<rparr>, al', w')" using al(1) False w(1) by (simp add: AsyncLogging_Run_def)
    moreover have "logging_inv api content opened cur (s\<lparr>log_files := ?lf\<rparr>) al' w'" using w(2) by (intro inv' n) simp
    moreover have "roll_limit ?lf = roll_limit (log_files s)" by (simp add: roll_limit_def)
    ultimately show ?thesis using w(3) al(3)
      by (intro exI [of _ ?lf] exI [of _ al'] exI [of _ w']) (simp add: text_of_def split: if_splits)
  qed
qed

definition size_bound :: "('w \<Rightarrow> cstr \<Rightarrow> cstr option) \<Rightarrow> cstr \<Rightarrow> log_file \<Rightarrow> 'w \<Rightarrow> int" where
  "size_bound content cur lf w = max (int (length (text_of content w cur))) (max (roll_limit lf) 204750000)"

lemma Run_sizes:
  assumes "logging_inv api content opened cur s al w" "roll_limit lf = roll_limit (log_files s)"
    "text_of content w' cur = text_of content w cur @ lines_text (log_lines al) \<and>
       (lines_text (log_lines al) = [] \<or> int (length (text_of content w' cur)) < roll_limit lf) \<or> text_of content w' cur = lines_text (log_lines al)"
  shows "size_bound content cur lf w' \<le> size_bound content cur (log_files s) w"
proof -
  have "length (lines_text (log_lines al)) \<le> 204750000" using lines_text_length [of "log_lines al"] assms(1) by (simp add: logging_inv_def)
  with assms(2,3) show ?thesis by (auto simp: size_bound_def)
qed

definition files_hold ::
  "('w \<Rightarrow> cstr \<Rightarrow> cstr option) \<Rightarrow> (int \<Rightarrow> tm option) \<Rightarrow> cstr \<Rightarrow> int list \<Rightarrow> 'w \<Rightarrow> (int \<times> cstr) list \<Rightarrow> 'w \<Rightarrow> bool" where
  "files_hold content lt cur ts w bs w' \<longleftrightarrow>
     (\<forall>(t, x)\<in>set bs. content w' (backup_name lt cur t) = Some x) \<and> subseq (map fst bs) ts \<and>
     (\<forall>p. p \<noteq> cur \<longrightarrow> p \<notin> backup_name lt cur ` set ts \<longrightarrow> content w' p = content w p)"

lemma files_hold_skip:
  assumes "files_hold content lt cur ts w1 bs w'" "\<forall>p. p \<noteq> cur \<longrightarrow> content w1 p = content w p"
  shows "files_hold content lt cur (now # ts) w bs w'"
  using assms by (auto simp: files_hold_def)

lemma files_hold_roll:
  assumes "files_hold content lt cur ts w1 bs w'" "content w1 = (content w)(backup_name lt cur now \<mapsto> x, cur \<mapsto> y)"
    "backup_name lt cur now \<notin> backup_name lt cur ` set ts"
  shows "files_hold content lt cur (now # ts) w ((now, x) # bs) w'"
  using assms by (auto simp: files_hold_def)

lemma logging_run_ok:
  assumes ok: "files_ok api content opened" "renames_ok api content opened"
    and opens: "\<forall>m w. fst (api_fopen api cur m w) \<noteq> None" and cur: "length cur \<le> 700"
  shows "logging_inv api content opened cur s al w \<Longrightarrow>
    events_ok api lt (g_log_priority s) (ids_of s) (length (log_lines al)) es \<Longrightarrow> distinct (map (backup_name lt cur) (round_times es)) \<Longrightarrow>
    \<exists>s' al' w' bs. logging_run api lt es s al w = Inr (s', al', w') \<and> files_hold content lt cur (round_times es) w bs w' \<and>
      concat (map snd bs) @ text_of content w' cur @ lines_text (log_lines al') =
        text_of content w cur @ lines_text (log_lines al) @ lines_text (accepted api lt (g_log_priority s) (ids_of s) es) \<and>
      (\<forall>x\<in>insert (text_of content w' cur) (snd ` set bs). int (length x) \<le> size_bound content cur (log_files s) w)"
proof (induction es arbitrary: s al w)
  case Nil
  then show ?case by (auto simp: files_hold_def lines_text_def size_bound_def intro!: exI [of _ "[]"])
next
  case (Cons e es)
  note inv = Cons.prems(1)
  show ?case
  proof (cases e)
    case (Ev_id t i)
    have 1: "logging_inv api content opened cur (SetLogId t i s) al w" "ids_of (SetLogId t i s) = (ids_of s)(t := i)"
      "g_log_priority (SetLogId t i s) = g_log_priority s" "log_files (SetLogId t i s) = log_files s"
      using inv by (auto simp: SetLogId_def ThreadLocal_Instance_def Let_def logging_inv_def ids_of_def fun_eq_iff split: option.splits)
    have 2: "events_ok api lt (g_log_priority (SetLogId t i s)) (ids_of (SetLogId t i s)) (length (log_lines al)) es"
      "distinct (map (backup_name lt cur) (round_times es))" using Cons.prems Ev_id 1 by simp_all
    from Cons.IH [OF 1(1) 2] show ?thesis unfolding 1(2-4) Ev_id logging_run.simps accepted.simps round_times.simps .
  next
    case (Ev_call c)
    show ?thesis
    proof (cases "lc_pri c < g_log_priority s")
      case True
      then have 2: "events_ok api lt (g_log_priority s) (ids_of s) (length (log_lines al)) es"
        "distinct (map (backup_name lt cur) (round_times es))" using Cons.prems Ev_call by simp_all
      from Cons.IH [OF inv 2] True Ev_call show ?thesis by (simp add: Log_Write_def)
    next
      case False
      have dev: "g_device_type s = DEV_FILE" "log_inv al" using inv by (simp_all add: logging_inv_def)
      have co: "call_ok api lt c (ids_of s (lc_tid c))" using Cons.prems(2) Ev_call False by simp
      obtain ids al1 where w: "Log_Write api lt c s al = Inr ([], s\<lparr>log_ids := ids\<rparr>, al1)" "ids_of (s\<lparr>log_ids := ids\<rparr>) = ids_of s" "log_inv al1"
        "log_lines al1 = log_lines al @ [log_line api lt c (ids_of s (lc_tid c))]"
        using Log_Write_ok [OF dev False co] by blast
      have 1: "logging_inv api content opened cur (s\<lparr>log_ids := ids\<rparr>) al1 w"
        using inv w Cons.prems(2) Ev_call False log_line_length by (auto simp: logging_inv_def simp del: bytes_simps)
      have 2: "events_ok api lt (g_log_priority (s\<lparr>log_ids := ids\<rparr>)) (ids_of (s\<lparr>log_ids := ids\<rparr>)) (length (log_lines al1)) es"
        "distinct (map (backup_name lt cur) (round_times es))" using Cons.prems Ev_call False w(2,4) by simp_all
      from Cons.IH [OF 1 2] False Ev_call w show ?thesis by (simp add: lines_text_def)
    qed
  next
    case (Ev_round now)
    have t: "lt now \<noteq> None" and ev: "events_ok api lt (g_log_priority s) (ids_of s) 0 es" using Cons.prems(2) Ev_round by auto
    have new: "backup_name lt cur now \<notin> backup_name lt cur ` set (round_times es)" "distinct (map (backup_name lt cur) (round_times es))"
      using Cons.prems(3) Ev_round by simp_all
    obtain lf al1 w1 where r: "AsyncLogging_Run api lt now s al w = Inr (s\<lparr>log_files := lf\<rparr>, al1, w1)"
      "logging_inv api content opened cur (s\<lparr>log_files := lf\<rparr>) al1 w1" "log_lines al1 = []" "roll_limit lf = roll_limit (log_files s)"
      "text_of content w1 cur = text_of content w cur @ lines_text (log_lines al) \<and> (\<forall>p. p \<noteq> cur \<longrightarrow> content w1 p = content w p) \<and>
         (lines_text (log_lines al) = [] \<or> int (length (text_of content w1 cur)) < roll_limit lf) \<or>
       text_of content w1 cur = lines_text (log_lines al) \<and>
         content w1 = (content w)(backup_name lt cur now \<mapsto> text_of content w cur, cur \<mapsto> lines_text (log_lines al))"
      using Run_ok [where lt = lt and now = now, OF ok opens cur t inv] by blast
    have ids: "ids_of (s\<lparr>log_files := lf\<rparr>) = ids_of s" by (simp add: ids_of_def fun_eq_iff)
    have ev1: "events_ok api lt (g_log_priority (s\<lparr>log_files := lf\<rparr>)) (ids_of (s\<lparr>log_files := lf\<rparr>)) (length (log_lines al1)) es"
      using ev r(3) ids by simp
    obtain s' al' w' bs where h: "logging_run api lt es (s\<lparr>log_files := lf\<rparr>) al1 w1 = Inr (s', al', w')"
      "files_hold content lt cur (round_times es) w1 bs w'"
      "concat (map snd bs) @ text_of content w' cur @ lines_text (log_lines al') =
        text_of content w1 cur @ lines_text (accepted api lt (g_log_priority s) (ids_of s) es)"
      "\<forall>x\<in>insert (text_of content w' cur) (snd ` set bs). int (length x) \<le> size_bound content cur lf w1"
      using Cons.IH [OF r(2) ev1 new(2)] r(3) ids by (auto simp: lines_text_def)
    have sz: "size_bound content cur lf w1 \<le> size_bound content cur (log_files s) w"
      using r(5) by (intro Run_sizes [OF inv r(4)]) blast
    have run: "logging_run api lt (e # es) s al w = Inr (s', al', w')" using Ev_round r(1) h(1) by simp
    have acc: "accepted api lt (g_log_priority s) (ids_of s) (e # es) = accepted api lt (g_log_priority s) (ids_of s) es"
      "round_times (e # es) = now # round_times es" using Ev_round by simp_all
    have le: "\<forall>x\<in>insert (text_of content w' cur) (snd ` set bs). int (length x) \<le> size_bound content cur (log_files s) w"
      using h(4) sz by (meson order_trans)
    consider (add) "text_of content w1 cur = text_of content w cur @ lines_text (log_lines al)" "\<forall>p. p \<noteq> cur \<longrightarrow> content w1 p = content w p"
      | (roll) "text_of content w1 cur = lines_text (log_lines al)"
          "content w1 = (content w)(backup_name lt cur now \<mapsto> text_of content w cur, cur \<mapsto> lines_text (log_lines al))"
      using r(5) by blast
    then show ?thesis
    proof cases
      case add
      with run h(3) le files_hold_skip [OF h(2)] show ?thesis unfolding acc by (intro exI [of _ s'] exI [of _ al'] exI [of _ w'] exI [of _ bs]) simp
    next
      case roll
      have "int (length (text_of content w cur)) \<le> size_bound content cur (log_files s) w" by (simp add: size_bound_def)
      with run h(3) le files_hold_roll [OF h(2) roll(2) new(1)] roll(1) show ?thesis unfolding acc
        by (intro exI [of _ s'] exI [of _ al'] exI [of _ w'] exI [of _ "(now, text_of content w cur) # bs"]) simp
    qed
  qed
qed

text \<open>
  C30. From \<open>Log::Write\<close> to the files: whatever threads write lines, in whatever order with the rounds of the writing
  thread, all lines of sufficient priority are in the files or still in the buffers, each once, in order and closed by a newline:
  the backup files in the order of their times, then the current file, then the buffers, behind the text that the
  file had before. No file is longer than the limit, what one round can write, or that former text. No other file is
  changed. At most 50000 lines are written between two rounds, their prefixes fit into the buffer of
  \<open>Write\<close>, files can be opened, written and renamed, and no two rounds have the same time.
\<close>

theorem log_lines_reach_files:
  assumes "files_ok api content opened" "renames_ok api content opened" "\<forall>m w. fst (api_fopen api cur m w) \<noteq> None"
    and "g_device_type s = DEV_FILE" "GetFileName api (bytes ''log'') 0 (log_files s) = Inr cur" "length cur \<le> 700"
    and "m_log (log_files s) = None" "cur \<notin> ran (opened w)"
    and "events_ok api lt (g_log_priority s) (ids_of s) 0 es" "distinct (map (backup_name lt cur) (round_times es))"
  shows "\<exists>s' al' w' bs. logging_run api lt es s (AsyncLogging_Init n AsyncLogging_new) w = Inr (s', al', w') \<and>
    concat (map snd bs) @ text_of content w' cur @ lines_text (log_lines al') =
      text_of content w cur @ lines_text (accepted api lt (g_log_priority s) (ids_of s) es) \<and>
    (\<forall>(t, x)\<in>set bs. content w' (backup_name lt cur t) = Some x) \<and> subseq (map fst bs) (round_times es) \<and>
    (\<forall>x\<in>insert (text_of content w' cur) (snd ` set bs).
       int (length x) \<le> max (int (length (text_of content w cur))) (max (roll_limit (log_files s)) 204750000)) \<and>
    (\<forall>p. p \<noteq> cur \<longrightarrow> p \<notin> backup_name lt cur ` set (round_times es) \<longrightarrow> content w' p = content w p)"
proof -
  let ?al = "AsyncLogging_Init n AsyncLogging_new"
  have inv: "logging_inv api content opened cur s ?al w"
    using assms(4,5,7,8) log_inv_new [of n] by (simp add: logging_inv_def log_open_def del: bytes_simps)
  have ev: "events_ok api lt (g_log_priority s) (ids_of s) (length (log_lines ?al)) es" using assms(9) log_inv_new(2) [of n] by simp
  have e: "lines_text (log_lines ?al) @ x = x" for x using log_inv_new(2) [of n] by (simp add: lines_text_def)
  from logging_run_ok [OF assms(1,2,3,6) inv ev assms(10)] show ?thesis unfolding e files_hold_def size_bound_def by blast
qed

section \<open>Runs\<close>

text \<open>Files by their names and a list of open files; every directory is there.\<close>

definition small_files :: "((cstr \<Rightarrow> cstr option) \<times> cstr option list) file_api" where
  "small_files = \<lparr>api_access = (\<lambda>_ _. True), api_mkdir = (\<lambda>_ w. (True, w)), api_stat = (\<lambda>_ _. None),
     api_fopen = (\<lambda>p m (c, os). (Some (length os),
       (c(p \<mapsto> (if m = bytes ''w'' then [] else case c p of None \<Rightarrow> [] | Some t \<Rightarrow> t)), os @ [Some p]))),
     api_ftell = (\<lambda>f (c, os). if f < length os then case os ! f of None \<Rightarrow> 0 | Some p \<Rightarrow> (case c p of None \<Rightarrow> 0 | Some t \<Rightarrow> int (length t)) else 0),
     api_fwrite = (\<lambda>f b (c, os). (length b, (if f < length os then case os ! f of None \<Rightarrow> c | Some p \<Rightarrow>
        c(p \<mapsto> (case c p of None \<Rightarrow> [] | Some t \<Rightarrow> t) @ b) else c, os))),
     api_fflush = (\<lambda>f w. w), api_fclose = (\<lambda>f (c, os). (c, os[f := None])),
     api_rename = (\<lambda>p q (c, os). (True, (case c p of None \<Rightarrow> c | Some t \<Rightarrow> c(p := None, q \<mapsto> t), os))),
     api_exe = bytes ''/bin/srv''\<rparr>"

definition small_opened :: "(cstr \<Rightarrow> cstr option) \<times> cstr option list \<Rightarrow> nat \<Rightarrow> cstr option" where
  "small_opened w f = (if f < length (snd w) then snd w ! f else None)"

lemma small_files_ok: "files_ok small_files fst small_opened" "renames_ok small_files fst small_opened"
  "\<forall>m w. fst (api_fopen small_files p m w) \<noteq> None"
  by (auto simp: files_ok_def renames_ok_def small_files_def small_opened_def fun_eq_iff nth_append split: if_splits option.splits)

definition seconds :: "int \<Rightarrow> tm option" where
  "seconds t = Some \<lparr>tm_year = 124, tm_mon = 0, tm_mday = 1, tm_hour = 0, tm_min = 0, tm_sec = t\<rparr>"

definition a_call :: "LOG_PRIORITY \<Rightarrow> cstr \<Rightarrow> log_call" where
  "a_call pri msg = \<lparr>lc_tid = 7, lc_sec = 1, lc_usec = 2, lc_pri = pri, lc_file = bytes ''a/b.cpp'', lc_line = 3, lc_function = bytes ''f'', lc_msg = msg\<rparr>"

lemma a_call_simps [simp]: "lc_pri (a_call pri msg) = pri" "lc_msg (a_call pri msg) = msg" "lc_tid (a_call pri msg) = 7"
  by (simp_all add: a_call_def)

lemma five_zeros: "replicate 5 (48 :: byte) = [48, 48, 48, 48, 48]"
  by (simp add: numeral_eq_Suc)

lemma a_call_prefix:
  "log_prefix small_files seconds (a_call pri msg) i =
     Inr (bytes ''[2024-01-01 00:00:01 000002][7][(srv)(b.cpp:3)(f)]['' @ g_priority_str ! priority_number pri @ bytes '']['' @ c_str i @ bytes ''] '')"
  by (simp add: log_prefix_def GetTimeStamp_def GetSelfName_def small_files_def seconds_def a_call_def base_name_def print_0d_def
      snprintf_def zpad_def dec_digits.simps five_zeros Let_def MAX_PATH_LEN_def MAX_FILENAME_LEN_def)

text \<open>A file size of 4096 MB is 0 as a number of 32 bits, so that every round rolls.\<close>

definition wrapped_state :: log_state where
  "wrapped_state = snd (SetMaxFileSize 4096 log_start)"

lemma wrapped_state_simps:
  "g_device_type wrapped_state = DEV_FILE" "m_log (log_files wrapped_state) = None" "g_log_priority wrapped_state = LOG_PRIORITY_DEBUG"
  "ids_of wrapped_state = (\<lambda>_. [])" "roll_limit (log_files wrapped_state) = 0"
  "GetFileName small_files (bytes ''log'') 0 (log_files wrapped_state) = Inr (bytes ''./log/srv.log'')"
  by (simp_all add: wrapped_state_def SetMaxFileSize_def log_start_def log_file_start_def g_min_file_size_def ids_of_def fun_eq_iff roll_limit_def
      GetFileName_def GetSelfName_def small_files_def MAX_PATH_LEN_def MAX_FILENAME_LEN_def snprintf_def Let_def)

definition some_events :: "log_event list" where
  "some_events = [Ev_call (a_call LOG_PRIORITY_INFO (bytes ''one'')), Ev_round 5, Ev_call (a_call LOG_PRIORITY_TRACE (bytes ''no'')),
     Ev_id 7 (bytes ''id''), Ev_call (a_call LOG_PRIORITY_ERROR (bytes ''two'')), Ev_round 6]"

lemma some_events_ok: "events_ok small_files seconds LOG_PRIORITY_DEBUG (\<lambda>_. []) 0 some_events"
  by (simp add: some_events_def call_ok_def a_call_prefix shown_id_def less_LOG_PRIORITY_def c_str_def g_priority_str_def seconds_def)

lemma some_names: "map (backup_name seconds (bytes ''./log/srv.log'')) (round_times some_events) =
    [bytes ''./log/srv.log.20240101000005'', bytes ''./log/srv.log.20240101000006'']"
  by (simp add: some_events_def backup_name_def GetStringTime_def seconds_def print_0d_def zpad_def dec_digits.simps snprintf_def Let_def)

lemma some_lines: "accepted small_files seconds LOG_PRIORITY_DEBUG (\<lambda>_. []) some_events =
    [bytes ''[2024-01-01 00:00:01 000002][7][(srv)(b.cpp:3)(f)][INFO][default] one'',
     bytes ''[2024-01-01 00:00:01 000002][7][(srv)(b.cpp:3)(f)][ERROR][id] two'']"
  by (simp add: some_events_def log_line_def a_call_prefix shown_id_def less_LOG_PRIORITY_def c_str_def g_priority_str_def)

theorem log_lines_reach_files_witness:
  "\<exists>s' al' w' bs. logging_run small_files seconds some_events wrapped_state (AsyncLogging_Init 0 AsyncLogging_new) (\<lambda>_. None, []) = Inr (s', al', w') \<and>
    concat (map snd bs) @ text_of fst w' (bytes ''./log/srv.log'') @ lines_text (log_lines al') =
      bytes ''[2024-01-01 00:00:01 000002][7][(srv)(b.cpp:3)(f)][INFO][default] one'' @ [10] @
      bytes ''[2024-01-01 00:00:01 000002][7][(srv)(b.cpp:3)(f)][ERROR][id] two'' @ [10] \<and>
    (\<forall>(t, x)\<in>set bs. fst w' (backup_name seconds (bytes ''./log/srv.log'') t) = Some x) \<and> subseq (map fst bs) [5, 6]"
proof -
  let ?w = "(\<lambda>_. None, []) :: (cstr \<Rightarrow> cstr option) \<times> cstr option list"
  have 1: "length (bytes ''./log/srv.log'') \<le> 700" "bytes ''./log/srv.log'' \<notin> ran (small_opened ?w)"
    by (simp_all add: small_opened_def ran_def)
  have 2: "events_ok small_files seconds (g_log_priority wrapped_state) (ids_of wrapped_state) 0 some_events"
    using some_events_ok by (simp add: wrapped_state_simps)
  have 3: "distinct (map (backup_name seconds (bytes ''./log/srv.log'')) (round_times some_events))" unfolding some_names by simp
  have 4: "round_times some_events = [5, 6]" "text_of fst ?w p = []" for p by (simp_all add: some_events_def text_of_def)
  have 5: "lines_text (accepted small_files seconds (g_log_priority wrapped_state) (ids_of wrapped_state) some_events) =
      bytes ''[2024-01-01 00:00:01 000002][7][(srv)(b.cpp:3)(f)][INFO][default] one'' @ [10] @
      bytes ''[2024-01-01 00:00:01 000002][7][(srv)(b.cpp:3)(f)][ERROR][id] two'' @ [10]"
    unfolding wrapped_state_simps some_lines lines_text_def by simp
  from log_lines_reach_files [OF small_files_ok wrapped_state_simps(1,6) 1(1) wrapped_state_simps(2) 1(2) 2 3, of 0]
  show ?thesis unfolding 4 5 append_Nil by blast
qed

section \<open>What goes wrong\<close>

text \<open>A file that is rolled twice within a second: the second backup replaces the first, whose text is in no file any more.\<close>

theorem log_roll_same_second:
  assumes ok: "files_ok api content opened" "renames_ok api content opened" and name: "GetFileName api (bytes ''log'') 0 s = Inr cur"
    and opens: "\<forall>m w. fst (api_fopen api cur m w) \<noteq> None" and o: "log_open content opened cur (m_log s) w"
    and t: "lt now \<noteq> None" and cur: "length cur \<le> 700" and len: "length b1 < 2 ^ 32" "length b2 < 2 ^ 32"
    and big: "roll_limit s \<le> int (length b1)"
  shows "\<exists>s1 w1 s2 w2. WriteLog api lt now b1 (of_nat (length b1)) s w = Inr (s1, w1) \<and>
    WriteLog api lt now b2 (of_nat (length b2)) s1 w1 = Inr (s2, w2) \<and>
    content w2 = (content w)(backup_name lt cur now \<mapsto> b1, cur \<mapsto> b2)"
proof -
  obtain f idx w1 where 1: "WriteLog api lt now b1 (of_nat (length b1)) s w = Inr (s\<lparr>m_log := Some f, m_roll_idx_log := idx\<rparr>, w1)"
    "log_open content opened cur (Some f) w1" "content w1 = (content w)(backup_name lt cur now \<mapsto> text_of content w cur, cur \<mapsto> b1)"
    using WriteLog_ok [where lt = lt and now = now, OF ok name opens o t cur len(1)] big by auto
  let ?s = "s\<lparr>m_log := Some f, m_roll_idx_log := idx\<rparr>"
  have n: "GetFileName api (bytes ''log'') 0 ?s = Inr cur" unfolding GetFileName_update by (rule name)
  have o1: "log_open content opened cur (m_log ?s) w1" using 1(2) by simp
  have old: "text_of content w1 cur = b1" "roll_limit ?s = roll_limit s" using 1(3) by (simp_all add: text_of_def roll_limit_def)
  obtain f2 idx2 w2 where "WriteLog api lt now b2 (of_nat (length b2)) ?s w1 = Inr (?s\<lparr>m_log := Some f2, m_roll_idx_log := idx2\<rparr>, w2)"
    "content w2 = (content w1)(backup_name lt cur now \<mapsto> b1, cur \<mapsto> b2)"
    using WriteLog_ok [where lt = lt and now = now, OF ok n opens o1 t cur len(2)] big unfolding old by auto
  with 1(1,3) show ?thesis by (auto simp: fun_upd_twist)
qed

text \<open>The record of a crash goes to the buffers only; the process ends before they are written.\<close>

theorem crash_record_lost:
  assumes "files_ok api content opened" "FailureSignalHandler api lt symbol stack bak c signum s al w = Inr (h, out, s', al', w')"
  shows "content w' = content w"
proof -
  have "content w2 = content w" if "Log_Close api s1 w = (s2, w2)" for s1 s2 w2
    using that by (auto simp: Log_Close_def LogFile_Close_def Let_def files_okD [OF assms(1)] split: option.splits)
  with assms(2) show ?thesis
    by (auto simp: FailureSignalHandler_def dest!: bind_result_Inr split: prod.splits option.splits if_splits)
qed

text \<open>A log id of more than 4096 characters makes \<open>Write\<close> format the message outside its buffer.\<close>

theorem long_log_id_overflow:
  assumes "log_ids s (lc_tid c) = Some i" "4096 < length (c_str i)" "\<not> lc_pri c < g_log_priority s"
    and "lt (lc_sec c) \<noteq> None" "GetSelfName api = Inr self"
  shows "Log_Write api lt c s al = Inl Undefined_behaviour"
proof -
  have i: "i \<noteq> []" using assms(2) by (auto simp: c_str_def)
  obtain pre where pre: "log_prefix api lt c i = Inr pre" "4096 < length pre" using assms(2,4,5) by (auto simp: log_prefix_def GetTimeStamp_def)
  then have "log_buff pre m = Inl Undefined_behaviour" for m by (simp add: log_buff_def LOG_BUFF_def)
  with assms(1,3) pre i show ?thesis by (simp add: Log_Write_def GetLogId_def ThreadLocal_Instance_def)
qed

text \<open>
  Directories that exist; \<open>/home\<close> may not be written. Each directory below it could be made, but \<open>MakeDirs\<close> takes the
  directory that it must not write for a failure, goes on with the cut name and makes none of them.
\<close>

definition home_files :: "cstr list file_api" where
  "home_files = \<lparr>api_access = (\<lambda>p w. p \<in> set w \<and> p \<noteq> bytes ''/home''),
     api_mkdir = (\<lambda>p w. if p \<in> set w \<or> butlast (rev (dropWhile (\<lambda>c. c \<noteq> 47) (rev p))) \<notin> set w then (False, w) else (True, w @ [p])),
     api_stat = (\<lambda>_ _. None), api_fopen = (\<lambda>_ _ w. (None, w)), api_ftell = (\<lambda>_ _. 0), api_fwrite = (\<lambda>_ _ w. (0, w)),
     api_fflush = (\<lambda>_ w. w), api_fclose = (\<lambda>_ w. w), api_rename = (\<lambda>_ _ w. (False, w)), api_exe = []\<rparr>"

theorem MakeDirs_below_unwritable:
  "MakeDirs home_files (bytes ''/home/u/a/log'') [bytes ''/home'', bytes ''/home/u''] = Inr (- 1, [bytes ''/home'', bytes ''/home/u'']) \<and>
   MakeDir home_files (bytes ''/home/u/a'') [bytes ''/home'', bytes ''/home/u''] = (0, [bytes ''/home'', bytes ''/home/u'', bytes ''/home/u/a''])"
  by (simp add: MakeDirs_def MakeDir_def home_files_def snprintf_def MAX_PATH_LEN_def Let_def c_str_def)

section \<open>AppendFile\<close>

text \<open>A partial \<open>fwrite\<close> is continued: as long as every call writes something, the whole line is added.\<close>

definition writes_some :: "'w file_api \<Rightarrow> nat \<Rightarrow> ('w \<Rightarrow> cstr) \<Rightarrow> bool" where
  "writes_some api f txt \<longleftrightarrow> (\<forall>b w. b \<noteq> [] \<longrightarrow> 0 < fst (api_fwrite api f b w)) \<and>
     (\<forall>b w. fst (api_fwrite api f b w) \<le> length b \<and> txt (snd (api_fwrite api f b w)) = txt w @ take (fst (api_fwrite api f b w)) b)"

lemma append_loop_complete: "writes_some api (af_fp s) txt \<Longrightarrow> txt (append_loop api s b w) = txt w @ b"
proof (induction api s b w rule: append_loop.induct)
  case (1 api s b w)
  show ?case
  proof (cases "b = []")
    case False
    obtain x w1 where x: "append_write api b s w = (x, w1)" by fastforce
    then have "0 < x" "txt w1 = txt w @ take x b" using False "1.prems" by (metis append_write_def fst_conv snd_conv writes_some_def)+
    with "1.IH" [OF False x [symmetric]] "1.prems" False x show ?thesis by (subst append_loop.simps) simp
  qed (simp add: append_loop.simps)
qed

theorem file_append_complete:
  assumes "writes_some api (af_fp s) txt"
  shows "case file_append api logline s w of (s', w') \<Rightarrow>
    txt w' = txt w @ logline \<and> af_writtenBytes s' = af_writtenBytes s + of_nat (length logline)"
proof -
  obtain n w1 where n: "append_write api logline s w = (n, w1)" by fastforce
  then have "txt w1 = txt w @ take n logline" using assms by (metis append_write_def fst_conv snd_conv writes_some_def)
  with append_loop_complete [OF assms, of "drop n logline" w1] n show ?thesis by (simp add: file_append_def)
qed

end
