(* ===== verification/Packer_Field.thy ===== *)
theory Packer_Field
  imports Prelude
begin

text \<open>
  The stand-alone 8583 packer, part one: the fields (\<open>source/tools/mydefine.h\<close>, \<open>iso8583field.cpp\<close>). The conversions of
  \<open>Ccommon\<close>, which are not in the repository, are the record \<open>ccommon\<close>. A pointer into a buffer is the list of
  the bytes from there on; reading or writing outside a buffer is \<open>Undefined_behaviour\<close>. Memory is there for every size
  that is not negative.
\<close>

record ccommon =
  Bcd2Int :: "cstr \<Rightarrow> int \<Rightarrow> int \<Rightarrow> int option \<Rightarrow> int"
  Int2Bcd :: "int \<Rightarrow> int \<Rightarrow> int \<Rightarrow> cstr"
  Asc2Bcd :: "cstr \<Rightarrow> int \<Rightarrow> int \<Rightarrow> cstr"
  Hex2Str :: "cstr \<Rightarrow> cstr"
  MemxCpy :: "cstr \<Rightarrow> int \<Rightarrow> cstr"

definition FIX :: int where "FIX = 0"

definition NL :: int where "NL = 0"
definition NR :: int where "NR = 1"
definition ASC :: int where "ASC = 2"
definition BIN :: int where "BIN = 3"

definition HEXF :: int where "HEXF = 8"
definition HEXA :: int where "HEXA = 9"

definition PACK_MAXLEN :: nat where "PACK_MAXLEN = 2048"
definition FIELD_MAXLEN :: nat where "FIELD_MAXLEN = 1024"

lemmas iso_types = FIX_def NL_def NR_def ASC_def BIN_def HEXF_def HEXA_def

text \<open>A field; \<open>m_pData\<close> holds the \<open>m_iDataLen\<close> bytes that have been filled in, its length area first.\<close>

record iso_field =
  m_iIndex :: int
  m_iFormat :: int
  m_iLen :: int
  m_iType :: int
  m_iLenType :: int
  m_iDataLen :: int
  m_pData :: "cstr option"

definition CIso8583Field :: "int \<Rightarrow> int \<Rightarrow> int \<Rightarrow> int \<Rightarrow> int \<Rightarrow> iso_field" where
  "CIso8583Field iIndex iFormat iLen iType iLenType =
     \<lparr>m_iIndex = iIndex, m_iFormat = iFormat, m_iLen = iLen, m_iType = iType, m_iLenType = iLenType, m_iDataLen = 0, m_pData = None\<rparr>"

definition RemoveField :: "iso_field \<Rightarrow> iso_field" where
  "RemoveField f = f\<lparr>m_pData := None\<rparr>"

text \<open>The bytes that \<open>PackFieldData\<close> copies; their number is its result.\<close>

definition PackFieldData :: "iso_field \<Rightarrow> cstr" where
  "PackFieldData f = (case m_pData f of None \<Rightarrow> [] | Some d \<Rightarrow> take (nat (m_iDataLen f)) d)"

text \<open>Division by two, which rounds towards zero.\<close>

definition half :: "int \<Rightarrow> int" where
  "half x = (if x < 0 then - ((- x) div 2) else x div 2)"

text \<open>Number of data bytes for a number of digits or bytes; \<open>None\<close> for an undefined type.\<close>

definition data_len :: "int \<Rightarrow> int \<Rightarrow> int option" where
  "data_len iType iValidLen =
     (if iType = NL \<or> iType = NR then Some (half (iValidLen + 1)) else if iType = ASC \<or> iType = BIN then Some iValidLen else None)"

text \<open>The length in front of a variable field; \<open>None\<close> for an undefined length type.\<close>

definition read_length :: "ccommon \<Rightarrow> iso_field \<Rightarrow> cstr \<Rightarrow> int option result" where
  "read_length cc f pData =
     (if m_iLenType f = NR then
        (if int (length pData) < m_iFormat f then Inl Undefined_behaviour
         else Inr (Some (Bcd2Int cc (take (nat (m_iFormat f)) pData) (m_iFormat f * 2) NR None)))
      else if m_iLenType f = ASC then
        (if int (length pData) < m_iFormat f \<or> 8 \<le> m_iFormat f then Inl Undefined_behaviour
         else Inr (Some (atoi (takeWhile (\<lambda>c. c \<noteq> 0) (take (nat (m_iFormat f)) pData)))))
      else Inr None)"

definition UnPackFieldData :: "ccommon \<Rightarrow> cstr \<Rightarrow> iso_field \<Rightarrow> (int \<times> iso_field) result" where
  "UnPackFieldData cc pData f =
     bind_result (if m_iFormat f = FIX then Inr (data_len (m_iType f) (m_iLen f))
                  else bind_result (read_length cc f pData) (\<lambda>v. Inr (case v of None \<Rightarrow> None | Some v \<Rightarrow> data_len (m_iType f) v))) (\<lambda>n.
       case n of
         None \<Rightarrow> Inr (0, f)
       | Some iDataLen \<Rightarrow>
           if int (length pData) < iDataLen + m_iFormat f then Inr (0, f)
           else if iDataLen + 8 < 0 then Inr (0, f\<lparr>m_pData := None\<rparr>)
           else if iDataLen + m_iFormat f < 0 \<or> 8 < m_iFormat f then Inl Undefined_behaviour
           else Inr (iDataLen + m_iFormat f,
                     f\<lparr>m_iDataLen := iDataLen + m_iFormat f, m_pData := Some (take (nat (iDataLen + m_iFormat f)) pData)\<rparr>))"

text \<open>Whether the data fit the field; \<open>None\<close> for an undefined type.\<close>

definition hex_fits :: "iso_field \<Rightarrow> int \<Rightarrow> bool option" where
  "hex_fits f iDataLen =
     (if m_iFormat f = FIX then
        (if m_iType f = NL \<or> m_iType f = NR then Some (iDataLen = half (m_iLen f + 1))
         else if m_iType f = ASC \<or> m_iType f = BIN then Some (iDataLen = m_iLen f) else None)
      else
        (if m_iType f = NL \<or> m_iType f = NR then Some (iDataLen \<le> half (m_iLen f + 1))
         else if m_iType f = ASC \<or> m_iType f = BIN then Some (iDataLen \<le> m_iLen f) else None))"

text \<open>\<open>%0*d\<close> of a number that is not negative.\<close>

definition length_digits :: "int \<Rightarrow> int \<Rightarrow> cstr" where
  "length_digits width v = zpad (nat width) (nat v)"

text \<open>
  The length area; of the digits that \<open>sprintf\<close> writes those stay that the data do not overwrite. With an undefined
  length type the area is not initialised.
\<close>

definition length_area :: "ccommon \<Rightarrow> iso_field \<Rightarrow> int \<Rightarrow> nat \<Rightarrow> cstr result" where
  "length_area cc f iValidLen n =
     (if m_iLenType f = NR then Inr (Int2Bcd cc iValidLen (m_iFormat f) NR)
      else if m_iLenType f = ASC then
        (let d = length_digits (m_iFormat f) iValidLen in
         if iValidLen < 0 \<or> n + 8 < length d + 1 then Inl Undefined_behaviour else Inr (take (nat (m_iFormat f)) d))
      else Inl Undefined_behaviour)"

definition field_SetValueByHex :: "ccommon \<Rightarrow> cstr \<Rightarrow> int \<Rightarrow> iso_field \<Rightarrow> (int \<times> iso_field) result" where
  "field_SetValueByHex cc pHexData iValidLen f =
     (let iDataLen = int (length pHexData) in
      if hex_fits f iDataLen \<noteq> Some True then Inr (0, f)
      else if m_iFormat f = FIX then Inr (1, (RemoveField f)\<lparr>m_pData := Some pHexData, m_iDataLen := iDataLen\<rparr>)
      else
        let v = (if iValidLen = 0 then (if m_iType f = ASC \<or> m_iType f = BIN then iDataLen else iDataLen * 2) else iValidLen) in
        bind_result (length_area cc f v (length pHexData)) (\<lambda>area.
          if 8 < m_iFormat f then Inl Undefined_behaviour
          else Inr (1, (RemoveField f)\<lparr>m_pData := Some (area @ pHexData), m_iDataLen := m_iFormat f + iDataLen\<rparr>)))"

text \<open>The string filled up to the length of a fixed field; \<open>None\<close> for an undefined type.\<close>

definition fill_up :: "iso_field \<Rightarrow> cstr \<Rightarrow> cstr option" where
  "fill_up f s =
     (let iTmpLen = (if m_iLen f mod 2 = 0 then nat (m_iLen f) else nat (m_iLen f + 1)) in
      if m_iFormat f \<noteq> FIX then Some s
      else if m_iType f = NL then Some (s @ replicate (iTmpLen - length s) 48)
      else if m_iType f = NR then Some (replicate (iTmpLen - length s) 48 @ s)
      else if m_iType f = BIN then Some (s @ replicate (nat (m_iLen f * 2) - length s) 70)
      else if m_iType f = ASC then Some (s @ replicate (nat (m_iLen f) - length s) 32)
      else None)"

definition field_SetValueByStr :: "ccommon \<Rightarrow> cstr \<Rightarrow> iso_field \<Rightarrow> (int \<times> iso_field) result" where
  "field_SetValueByStr cc pStrData f =
     (let iValidLen = int (length pStrData) in
      if iValidLen = 0 \<or> m_iType f = BIN \<and> iValidLen > m_iLen f * 2 \<or> m_iType f \<noteq> BIN \<and> iValidLen > m_iLen f then Inr (0, f)
      else case fill_up f pStrData of
             None \<Rightarrow> Inr (0, f)
           | Some cAscData \<Rightarrow>
               if FIELD_MAXLEN \<le> length cAscData then Inl Undefined_behaviour
               else if m_iType f = NL \<or> m_iType f = NR \<or> m_iType f = BIN then
                 field_SetValueByHex cc (Asc2Bcd cc cAscData (int (length cAscData)) (m_iType f)) iValidLen f
               else if m_iType f = ASC then field_SetValueByHex cc cAscData iValidLen f
               else Inr (0, f))"

definition field_GetValueByHex :: "int \<Rightarrow> iso_field \<Rightarrow> cstr" where
  "field_GetValueByHex iMaxLen f =
     (case m_pData f of
        None \<Rightarrow> []
      | Some d \<Rightarrow> if iMaxLen < m_iDataLen f - m_iFormat f then [] else drop (nat (m_iFormat f)) d)"

text \<open>Writing bytes into a buffer at a position.\<close>

definition put_at :: "nat \<Rightarrow> cstr \<Rightarrow> cstr \<Rightarrow> cstr result" where
  "put_at pos bs buf = (if length buf < pos + length bs then Inl Undefined_behaviour else Inr (take pos buf @ bs @ drop (pos + length bs) buf))"

text \<open>
  Moves \<open>n\<close> bytes from \<open>pos\<close> to the front, as \<open>memcpy\<close> does it that copies from left to right, and closes the string behind
  the \<open>m\<close> characters of the field.
\<close>

definition shift_to_front :: "int \<Rightarrow> int \<Rightarrow> int \<Rightarrow> cstr \<Rightarrow> cstr result" where
  "shift_to_front pos n m buf =
     (if pos < 0 \<or> n < 0 \<or> m < 0 \<or> int (length buf) < pos + n then Inl Undefined_behaviour
      else bind_result (put_at 0 (take (nat n) (drop (nat pos) buf)) buf) (put_at (nat m) [0]))"

definition str_len :: "cstr \<Rightarrow> int" where
  "str_len buf = int (length (takeWhile (\<lambda>c. c \<noteq> 0) buf))"

text \<open>
  \<open>pStrData\<close> is a buffer of \<open>iMaxLen\<close> bytes. The result is the number that is returned and the buffer.
\<close>

definition get_str_length :: "ccommon \<Rightarrow> iso_field \<Rightarrow> cstr \<Rightarrow> int \<Rightarrow> int" where
  "get_str_length cc f d iRet =
     (if m_iLenType f = NR then Bcd2Int cc d (m_iFormat f + 1) (m_iLenType f) (Some (m_iFormat f))
      else if m_iLenType f = ASC then atoi (takeWhile (\<lambda>c. c \<noteq> 0) (take (nat (m_iFormat f)) d))
      else iRet)"

definition field_GetValueByStr :: "ccommon \<Rightarrow> cstr \<Rightarrow> iso_field \<Rightarrow> (int \<times> cstr) result" where
  "field_GetValueByStr cc pStrData f =
     (let iMaxLen = int (length pStrData); cHexData = field_GetValueByHex iMaxLen f in
      case m_pData f of
        None \<Rightarrow> Inr (0, pStrData)
      | Some d \<Rightarrow>
          if cHexData = [] \<or> m_iType f \<noteq> ASC \<and> iMaxLen < int (length cHexData) * 2 then Inr (0, pStrData)
          else
            let (s, iRet) = (if m_iType f \<noteq> ASC then (Hex2Str cc cHexData, int (length cHexData) * 2) else (cHexData, int (length cHexData))) in
            bind_result (put_at 0 s pStrData) (\<lambda>buf.
            bind_result
              (if m_iFormat f \<noteq> FIX then
                 let n = get_str_length cc f d iRet in
                 if m_iType f = NR then bind_result (shift_to_front (str_len buf - n) n (m_iLen f) buf) (\<lambda>buf. Inr (n, buf)) else Inr (n, buf)
               else if m_iType f = NL then bind_result (put_at (nat (m_iLen f)) [0] buf) (\<lambda>buf. Inr (iRet, buf))
               else if m_iType f = NR then bind_result (shift_to_front (iRet - m_iLen f) (m_iLen f) (m_iLen f) buf) (\<lambda>buf. Inr (iRet, buf))
               else Inr (iRet, buf)) (\<lambda>(iRet, buf).
              if iMaxLen \<le> iRet then Inr (0, buf)
              else if iRet < 0 then Inl Undefined_behaviour
              else bind_result (put_at (nat iRet) [0] buf) (\<lambda>buf. Inr (iRet, buf)))))"

end
