(* ===== verification/Packer_Message.thy ===== *)
theory Packer_Message
  imports Packer_Field
begin

unbundle bit_operations_syntax

text \<open>
  The stand-alone 8583 packer, part two: the message (\<open>CIso8583FieldsFactory\<close> of \<open>source/tools/iso8583field.cpp\<close> and the class
  \<open>CIso8583\<close> of \<open>iso8583.cpp\<close>). \<open>GetField\<close>, which the classes for the protocols implement, looks up the
  field object in \<open>iff_fields\<close>; \<open>None\<close> is \<open>NULL\<close>.
\<close>

record MsgFmt =
  iFieldCnt :: int
  iOffSet :: nat
  iLenType :: int
  iHeadLen :: nat
  iTpduLen :: nat
  iBitMapLen :: nat
  cHead :: cstr
  cTpdu :: cstr
  cBitMap :: cstr

record iso_msg =
  m_pMF :: MsgFmt
  iff_fields :: "int \<Rightarrow> iso_field option"
  m_cMsgBuffer :: cstr

section \<open>CIso8583FieldsFactory\<close>

definition SetMsgData :: "cstr \<Rightarrow> iso_msg \<Rightarrow> int \<times> iso_msg" where
  "SetMsgData pBuffer s = (if length pBuffer > PACK_MAXLEN then (0, s) else (1, s\<lparr>m_cMsgBuffer := pBuffer\<rparr>))"

definition GetMsgData :: "int \<Rightarrow> iso_msg \<Rightarrow> cstr" where
  "GetMsgData iMaxLen s = (if iMaxLen < int (length (m_cMsgBuffer s)) then [] else m_cMsgBuffer s)"

definition iso_GetMacData :: "int \<Rightarrow> iso_msg \<Rightarrow> cstr" where
  "iso_GetMacData iMaxLen s =
     (let iPos = iOffSet (m_pMF s) + iTpduLen (m_pMF s) + iHeadLen (m_pMF s);
          iLen = int (length (m_cMsgBuffer s)) - int iPos - 8 in
      if iLen > 0 \<and> iLen \<le> iMaxLen then take (nat iLen) (drop iPos (m_cMsgBuffer s)) else [])"

section \<open>Bitmap\<close>

definition bit_byte :: "int \<Rightarrow> nat" where
  "bit_byte iIndex = nat ((iIndex - 1) div 8)"

definition bit_shift :: "int \<Rightarrow> nat" where
  "bit_shift iIndex = (if iIndex mod 8 = 0 then 0 else nat (8 - iIndex mod 8))"

definition SetBitMap :: "int \<Rightarrow> int \<Rightarrow> iso_msg \<Rightarrow> (int \<times> iso_msg) result" where
  "SetBitMap iIndex iFlag s =
     (if iIndex = 0 \<or> iIndex = 1 then Inr (1, s)
      else if iIndex < 2 \<or> iIndex \<ge> iFieldCnt (m_pMF s) then Inr (0, s)
      else if length (cBitMap (m_pMF s)) \<le> bit_byte iIndex then Inl Undefined_behaviour
      else
        let ch = push_bit (bit_shift iIndex) 1; b = cBitMap (m_pMF s); k = bit_byte iIndex in
        Inr (1, s\<lparr>m_pMF := (m_pMF s)\<lparr>cBitMap := b[k := (if iFlag = 1 then b ! k OR ch else b ! k AND NOT ch)]\<rparr>\<rparr>))"

definition BitExist :: "int \<Rightarrow> iso_msg \<Rightarrow> bool result" where
  "BitExist iIndex s =
     (if iff_fields s iIndex = None then Inr False
      else if iIndex = 0 \<or> iIndex = 1 then Inr True
      else if iIndex < 2 \<or> iIndex \<ge> iFieldCnt (m_pMF s) then Inr False
      else if length (cBitMap (m_pMF s)) \<le> bit_byte iIndex then Inl Undefined_behaviour
      else Inr (drop_bit (bit_shift iIndex) (cBitMap (m_pMF s) ! bit_byte iIndex) AND 1 = 1))"

definition FieldExist :: "int \<Rightarrow> iso_msg \<Rightarrow> bool result" where
  "FieldExist iIndex s = BitExist iIndex s"

section \<open>Values of fields\<close>

definition set_field :: "int \<Rightarrow> iso_field \<Rightarrow> iso_msg \<Rightarrow> iso_msg" where
  "set_field i f s = s\<lparr>iff_fields := (iff_fields s)(i \<mapsto> f)\<rparr>"

definition set_and_mark :: "(iso_field \<Rightarrow> (int \<times> iso_field) result) \<Rightarrow> int \<Rightarrow> iso_msg \<Rightarrow> (int \<times> iso_msg) result" where
  "set_and_mark op iIndex s =
     (case iff_fields s iIndex of
        None \<Rightarrow> Inr (0, s)
      | Some f \<Rightarrow>
          if iIndex < 0 \<or> iIndex \<ge> iFieldCnt (m_pMF s) then Inr (0, s)
          else bind_result (op f) (\<lambda>(iRet, f).
            if iRet = 0 then Inr (0, set_field iIndex f s)
            else bind_result (SetBitMap iIndex 1 (set_field iIndex f s)) (\<lambda>(r, s). Inr (if r = 0 then 0 else iRet, s))))"

definition iso_SetValueByHex :: "ccommon \<Rightarrow> int \<Rightarrow> cstr \<Rightarrow> int \<Rightarrow> iso_msg \<Rightarrow> (int \<times> iso_msg) result" where
  "iso_SetValueByHex cc iIndex pHexData iValidLen s = set_and_mark (field_SetValueByHex cc pHexData iValidLen) iIndex s"

definition iso_SetValueByStr :: "ccommon \<Rightarrow> int \<Rightarrow> cstr \<Rightarrow> iso_msg \<Rightarrow> (int \<times> iso_msg) result" where
  "iso_SetValueByStr cc iIndex pStrData s = set_and_mark (field_SetValueByStr cc pStrData) iIndex s"

definition iso_GetValueByHex :: "int \<Rightarrow> int \<Rightarrow> iso_msg \<Rightarrow> cstr result" where
  "iso_GetValueByHex iIndex iMaxLen s =
     bind_result (BitExist iIndex s) (\<lambda>e.
       Inr (if e then case iff_fields s iIndex of None \<Rightarrow> [] | Some f \<Rightarrow> field_GetValueByHex iMaxLen f else []))"

definition iso_GetValueByStr :: "ccommon \<Rightarrow> int \<Rightarrow> cstr \<Rightarrow> iso_msg \<Rightarrow> (int \<times> cstr) result" where
  "iso_GetValueByStr cc iIndex pStrData s =
     bind_result (BitExist iIndex s) (\<lambda>e.
       if e then case iff_fields s iIndex of None \<Rightarrow> Inr (0, pStrData) | Some f \<Rightarrow> field_GetValueByStr cc pStrData f else Inr (0, pStrData))"

text \<open>\<open>src\<close> is another object.\<close>

definition CloneValue :: "ccommon \<Rightarrow> int \<Rightarrow> iso_msg \<Rightarrow> iso_msg \<Rightarrow> (int \<times> iso_msg) result" where
  "CloneValue cc iIndex src s =
     (case iff_fields s iIndex of
        None \<Rightarrow> Inr (0, s)
      | Some f \<Rightarrow>
          if iIndex < 0 \<or> iIndex \<ge> iFieldCnt (m_pMF s) then Inr (0, s)
          else bind_result (iso_GetValueByStr cc iIndex (replicate FIELD_MAXLEN 0) src) (\<lambda>(n, buf).
            if n > 0 then set_and_mark (field_SetValueByStr cc (takeWhile (\<lambda>c. c \<noteq> 0) buf)) iIndex s else Inr (0, s)))"

definition iso_RemoveField :: "int \<Rightarrow> iso_msg \<Rightarrow> (int \<times> iso_msg) result" where
  "iso_RemoveField iIndex s =
     (if iIndex = 0 \<or> iIndex = 1 then Inr (0, s)
      else bind_result (BitExist iIndex s) (\<lambda>e.
        if \<not> e then Inr (1, s)
        else SetBitMap iIndex 0 (case iff_fields s iIndex of None \<Rightarrow> s | Some f \<Rightarrow> set_field iIndex (RemoveField f) s)))"

definition GetTpdu :: "int \<Rightarrow> iso_msg \<Rightarrow> cstr" where
  "GetTpdu iMaxLen s = (if iMaxLen < int (iTpduLen (m_pMF s)) then [] else take (iTpduLen (m_pMF s)) (cTpdu (m_pMF s)))"

definition GetMsgHead :: "int \<Rightarrow> iso_msg \<Rightarrow> cstr" where
  "GetMsgHead iMaxLen s = (if iMaxLen < int (iHeadLen (m_pMF s)) then [] else take (iHeadLen (m_pMF s)) (cHead (m_pMF s)))"

definition SetMsgHead :: "cstr \<Rightarrow> iso_msg \<Rightarrow> (int \<times> iso_msg) result" where
  "SetMsgHead pMsgHead s =
     (if iHeadLen (m_pMF s) < length pMsgHead then Inr (0, s)
      else bind_result (put_at 0 pMsgHead (cHead (m_pMF s))) (\<lambda>h. Inr (int (length pMsgHead), s\<lparr>m_pMF := (m_pMF s)\<lparr>cHead := h\<rparr>\<rparr>)))"

definition SetMsgTPDU :: "cstr \<Rightarrow> iso_msg \<Rightarrow> (int \<times> iso_msg) result" where
  "SetMsgTPDU pMsgTPDU s =
     (if iTpduLen (m_pMF s) < length pMsgTPDU then Inr (0, s)
      else bind_result (put_at 0 pMsgTPDU (cTpdu (m_pMF s))) (\<lambda>t. Inr (int (length pMsgTPDU), s\<lparr>m_pMF := (m_pMF s)\<lparr>cTpdu := t\<rparr>\<rparr>)))"

section \<open>Packing\<close>

text \<open>The loop over the fields from \<open>i\<close> on, \<open>n\<close> of them; \<open>None\<close> is the return with 0.\<close>

fun pack_fields :: "iso_msg \<Rightarrow> int \<Rightarrow> nat \<Rightarrow> cstr \<Rightarrow> cstr option result" where
  "pack_fields s i 0 msg = Inr (Some msg)"
| "pack_fields s i (Suc n) msg =
     bind_result (BitExist i s) (\<lambda>e.
       if \<not> e then pack_fields s (i + 1) n msg
       else case iff_fields s i of
              None \<Rightarrow> Inr None
            | Some f \<Rightarrow>
                let d = PackFieldData f in
                if FIELD_MAXLEN < length d then Inl Undefined_behaviour
                else if d = [] \<or> PACK_MAXLEN < length msg + length d then Inr None
                else pack_fields s (i + 1) n (msg @ d))"

text \<open>The bytes of an \<open>int\<close>, the lowest first.\<close>

definition int_bytes :: "nat \<Rightarrow> cstr" where
  "int_bytes n = map (\<lambda>i. of_nat (n div 256 ^ i)) [0..<4]"

definition message_length :: "ccommon \<Rightarrow> MsgFmt \<Rightarrow> nat \<Rightarrow> cstr option result" where
  "message_length cc mf n =
     (if iLenType mf = NR then Inr (Some (Int2Bcd cc (int n) (int (iOffSet mf)) (iLenType mf)))
      else if iLenType mf = ASC then
        (let d = length_digits (int (iOffSet mf)) (int n) in
         if 8 < length d + 1 then Inl Undefined_behaviour else Inr (Some (take (iOffSet mf) d)))
      else if iLenType mf = HEXF then Inr (Some (MemxCpy cc (int_bytes n) (int (iOffSet mf))))
      else if iLenType mf = HEXA then (if 4 < iOffSet mf then Inl Undefined_behaviour else Inr (Some (take (iOffSet mf) (int_bytes n))))
      else Inr None)"

definition mem_prefix :: "nat \<Rightarrow> cstr \<Rightarrow> cstr result" where
  "mem_prefix n xs = (if length xs < n then Inl Undefined_behaviour else Inr (take n xs))"

text \<open>The result, the message in \<open>pBuffer\<close> and the object.\<close>

definition iso_Pack :: "ccommon \<Rightarrow> nat \<Rightarrow> iso_msg \<Rightarrow> (int \<times> cstr \<times> iso_msg) result" where
  "iso_Pack cc iLen s =
     (let mf = m_pMF s in
      bind_result (mem_prefix (iTpduLen mf) (cTpdu mf)) (\<lambda>tpdu.
      bind_result (mem_prefix (iHeadLen mf) (cHead mf)) (\<lambda>head.
        case iff_fields s 0 of
          None \<Rightarrow> Inr (0, [], s)
        | Some f0 \<Rightarrow>
            let t = PackFieldData f0 in
            if t = [] then Inr (0, [], s)
            else bind_result (mem_prefix (iBitMapLen mf) (cBitMap mf)) (\<lambda>bitmap.
              let pre = tpdu @ head @ t @ bitmap in
              if PACK_MAXLEN < iOffSet mf + length pre then Inl Undefined_behaviour
              else bind_result (iso_SetValueByHex cc 1 bitmap 0 s) (\<lambda>(r, s).
                if r \<noteq> 1 then Inr (0, [], s)
                else bind_result (pack_fields s 2 (nat (iFieldCnt mf - 2)) (replicate (iOffSet mf) 0 @ pre)) (\<lambda>m.
                  case m of
                    None \<Rightarrow> Inr (0, [], s)
                  | Some msg \<Rightarrow>
                      if iLen < length msg then Inr (0, [], s)
                      else bind_result (message_length cc mf (length msg - iOffSet mf)) (\<lambda>l.
                        case l of
                          None \<Rightarrow> Inr (0, [], s)
                        | Some l \<Rightarrow>
                            let msg = l @ drop (iOffSet mf) msg in
                            case SetMsgData msg s of (r, s) \<Rightarrow> Inr (r, msg, s))))))))"

section \<open>Unpacking\<close>

text \<open>The loop over the fields; the result says whether all were unpacked.\<close>

fun unpack_fields :: "ccommon \<Rightarrow> int \<Rightarrow> nat \<Rightarrow> cstr \<Rightarrow> iso_msg \<Rightarrow> (bool \<times> iso_msg) result" where
  "unpack_fields cc i 0 rest s = Inr (True, s)"
| "unpack_fields cc i (Suc n) rest s =
     bind_result (BitExist i s) (\<lambda>e.
       if \<not> e then unpack_fields cc (i + 1) n rest s
       else case iff_fields s i of
              None \<Rightarrow> Inr (False, s)
            | Some f \<Rightarrow>
                bind_result (UnPackFieldData cc rest f) (\<lambda>(iDataLen, f).
                  if iDataLen > 0 then unpack_fields cc (i + 1) n (drop (nat iDataLen) rest) (set_field i f s)
                  else Inr (False, set_field i f s)))"

text \<open>Overwrites the beginning of an array inside of \<open>MsgFmt\<close>.\<close>

definition overwrite :: "cstr \<Rightarrow> cstr \<Rightarrow> cstr" where
  "overwrite bs xs = bs @ drop (length bs) xs"

definition unpack_bitmap :: "ccommon \<Rightarrow> cstr \<Rightarrow> iso_msg \<Rightarrow> (cstr option \<times> iso_msg) result" where
  "unpack_bitmap cc rest s =
     (case iff_fields s 1 of
        None \<Rightarrow> Inr (None, s)
      | Some f1 \<Rightarrow>
          bind_result (UnPackFieldData cc rest f1) (\<lambda>(iDataLen, f1).
            let s = set_field 1 f1 s in
            if iDataLen \<noteq> int (iBitMapLen (m_pMF s)) then Inr (None, s)
            else bind_result (iso_GetValueByHex 1 16 s) (\<lambda>b.
              Inr (Some (drop (nat iDataLen) rest), s\<lparr>m_pMF := (m_pMF s)\<lparr>cBitMap := overwrite b (cBitMap (m_pMF s))\<rparr>\<rparr>))))"

definition iso_UnPack :: "ccommon \<Rightarrow> cstr \<Rightarrow> iso_msg \<Rightarrow> (int \<times> iso_msg) result" where
  "iso_UnPack cc pBuffer s =
     (let mf = m_pMF s in
      if length pBuffer < iOffSet mf + iTpduLen mf + iHeadLen mf + iBitMapLen mf \<or> PACK_MAXLEN < length pBuffer then Inr (0, s)
      else if length (cTpdu mf) < iTpduLen mf \<or> length (cHead mf) < iHeadLen mf then Inl Undefined_behaviour
      else
        let tpdu = take (iTpduLen mf) (drop (iOffSet mf) pBuffer); head = take (iHeadLen mf) (drop (iOffSet mf + iTpduLen mf) pBuffer);
            rest = drop (iOffSet mf + iTpduLen mf + iHeadLen mf) pBuffer;
            s = s\<lparr>m_pMF := mf\<lparr>cTpdu := overwrite tpdu (cTpdu mf), cHead := overwrite head (cHead mf)\<rparr>\<rparr> in
        case iff_fields s 0 of
          None \<Rightarrow> Inr (0, s)
        | Some f0 \<Rightarrow>
            bind_result (UnPackFieldData cc rest f0) (\<lambda>(iDataLen, f0).
              let s = set_field 0 f0 s in
              if iDataLen \<le> 0 then Inr (0, s)
              else bind_result (unpack_bitmap cc (drop (nat iDataLen) rest) s) (\<lambda>(rest, s).
                case rest of
                  None \<Rightarrow> Inr (0, s)
                | Some rest \<Rightarrow>
                    bind_result (unpack_fields cc 2 (nat (iFieldCnt mf - 2)) rest s) (\<lambda>(ok, s).
                      if ok then Inr (SetMsgData pBuffer s) else Inr (0, s)))))"

section \<open>Construction and copies\<close>

text \<open>The constructor with the object of the protocol class; \<open>pTPDU\<close> and \<open>pMsgHead\<close> may be \<open>NULL\<close>.\<close>

definition CIso8583_new :: "iso_msg \<Rightarrow> cstr option \<Rightarrow> cstr option \<Rightarrow> iso_msg result" where
  "CIso8583_new obj pTPDU pMsgHead =
     bind_result (case pTPDU of
         None \<Rightarrow> Inr obj
       | Some t \<Rightarrow> bind_result (mem_prefix (iTpduLen (m_pMF obj)) t) (\<lambda>t.
           bind_result (put_at 0 t (cTpdu (m_pMF obj))) (\<lambda>t. Inr (obj\<lparr>m_pMF := (m_pMF obj)\<lparr>cTpdu := t\<rparr>\<rparr>)))) (\<lambda>obj.
     case pMsgHead of
       None \<Rightarrow> Inr obj
     | Some h \<Rightarrow> bind_result (mem_prefix (iHeadLen (m_pMF obj)) h) (\<lambda>h.
         bind_result (put_at 0 h (cHead (m_pMF obj))) (\<lambda>h. Inr (obj\<lparr>m_pMF := (m_pMF obj)\<lparr>cHead := h\<rparr>\<rparr>))))"

text \<open>The loop of the copy constructor and of the assignment; the buffer keeps its bytes between the fields.\<close>

fun copy_fields :: "ccommon \<Rightarrow> iso_msg \<Rightarrow> int \<Rightarrow> nat \<Rightarrow> cstr \<Rightarrow> iso_msg \<Rightarrow> iso_msg result" where
  "copy_fields cc src i 0 buf s = Inr s"
| "copy_fields cc src i (Suc n) buf s =
     bind_result (iso_GetValueByStr cc i buf src) (\<lambda>(k, buf).
     bind_result (if k > 0 then iso_SetValueByStr cc i (takeWhile (\<lambda>c. c \<noteq> 0) buf) s else Inr (0, s)) (\<lambda>(r, s).
       copy_fields cc src (i + 1) n buf s))"

definition CIso8583_copy :: "ccommon \<Rightarrow> iso_msg \<Rightarrow> iso_msg \<Rightarrow> iso_msg result" where
  "CIso8583_copy cc obj src =
     bind_result (copy_fields cc src 0 (nat (iFieldCnt (m_pMF src))) (replicate FIELD_MAXLEN 0) (obj\<lparr>m_pMF := m_pMF src\<rparr>)) (\<lambda>s.
       Inr (let d = GetMsgData (int PACK_MAXLEN) src in if d \<noteq> [] then snd (SetMsgData d s) else s))"

text \<open>The assignment deletes the object of the protocol class and fills a new one in the same way; to itself it does nothing.\<close>

definition CIso8583_assign :: "ccommon \<Rightarrow> iso_msg \<Rightarrow> iso_msg \<Rightarrow> iso_msg result" where
  "CIso8583_assign cc obj src =
     bind_result (copy_fields cc src 0 (nat (iFieldCnt (m_pMF src))) (replicate FIELD_MAXLEN 0) (obj\<lparr>m_pMF := m_pMF src\<rparr>)) (\<lambda>s.
       Inr (let d = GetMsgData (int PACK_MAXLEN) src in if d \<noteq> [] then snd (SetMsgData d s) else s))"

end
