(* ===== verification/Packer_Props.thy ===== *)
theory Packer_Props
  imports Packer_Message
begin

unbundle bit_operations_syntax

text \<open>
  The stand-alone packer: what \<open>SetValueByHex\<close> stores can be unpacked, and a message that is packed is unpacked with the
  same fields. \<open>ccommon_ok\<close> is what is relied on of the conversions of \<open>Ccommon\<close>.
\<close>

definition ccommon_ok :: "ccommon \<Rightarrow> bool" where
  "ccommon_ok cc \<longleftrightarrow>
     (\<forall>v n. length (Int2Bcd cc v (int n) NR) = n) \<and>
     (\<forall>v n. 0 < n \<and> 0 \<le> v \<and> v < 100 ^ n \<longrightarrow> Bcd2Int cc (Int2Bcd cc v (int n) NR) (int n * 2) NR None = v) \<and>
     (\<forall>xs n. n \<le> length xs \<longrightarrow> length (MemxCpy cc xs (int n)) = n)"

section \<open>Fields\<close>

definition same_spec :: "iso_field \<Rightarrow> iso_field \<Rightarrow> bool" where
  "same_spec f g \<longleftrightarrow> m_iFormat f = m_iFormat g \<and> m_iLen f = m_iLen g \<and> m_iType f = m_iType g \<and> m_iLenType f = m_iLenType g"

text \<open>The field holds data that a field with the same specification unpacks, whatever follows.\<close>

definition field_full :: "ccommon \<Rightarrow> iso_field \<Rightarrow> bool" where
  "field_full cc f \<longleftrightarrow> (\<exists>d. m_pData f = Some d \<and> d \<noteq> [] \<and> m_iDataLen f = int (length d) \<and>
     (\<forall>g rest. same_spec f g \<longrightarrow>
        UnPackFieldData cc (d @ rest) g = Inr (int (length d), g\<lparr>m_iDataLen := int (length d), m_pData := Some d\<rparr>)))"

text \<open>The number that stands in front of the data, and whether it is right and fits into its digits.\<close>

definition stored_len :: "iso_field \<Rightarrow> nat \<Rightarrow> int \<Rightarrow> int" where
  "stored_len f n iValidLen = (if iValidLen = 0 then (if m_iType f = ASC \<or> m_iType f = BIN then int n else int n * 2) else iValidLen)"

definition length_fits :: "iso_field \<Rightarrow> nat \<Rightarrow> int \<Rightarrow> bool" where
  "length_fits f n iValidLen \<longleftrightarrow> m_iFormat f = FIX \<or>
     1 \<le> m_iFormat f \<and> m_iFormat f \<le> 3 \<and> 0 \<le> stored_len f n iValidLen \<and> data_len (m_iType f) (stored_len f n iValidLen) = Some (int n) \<and>
     (m_iLenType f = NR \<and> stored_len f n iValidLen < 100 ^ nat (m_iFormat f) \<or>
      m_iLenType f = ASC \<and> stored_len f n iValidLen < 10 ^ nat (m_iFormat f))"

lemma format_small:
  assumes "length_fits f n v" "m_iFormat f \<noteq> FIX"
  shows "\<exists>k. m_iFormat f = int k \<and> 1 \<le> k \<and> k \<le> 3"
  using assms by (intro exI [of _ "nat (m_iFormat f)"]) (auto simp: length_fits_def)

lemma read_length_stored:
  assumes cc: "ccommon_ok cc" and fits: "length_fits f n v" and fmt: "m_iFormat f \<noteq> FIX" and g: "same_spec f g"
    and area: "length_area cc f (stored_len f n v) n = Inr area"
  shows "length area = nat (m_iFormat f) \<and> read_length cc g (area @ rest) = Inr (Some (stored_len f n v))"
proof -
  let ?v = "stored_len f n v"
  obtain k where k: "m_iFormat f = int k" "1 \<le> k" "k \<le> 3" using format_small [OF fits fmt] by blast
  have gk: "m_iFormat g = int k" "m_iLenType g = m_iLenType f" using g k(1) by (simp_all add: same_spec_def)
  have v: "0 \<le> ?v" using fits fmt by (simp add: length_fits_def)
  consider (bcd) "m_iLenType f = NR" "?v < 100 ^ k" | (asc) "m_iLenType f = ASC" "?v < 10 ^ k" using fits fmt k(1) by (auto simp: length_fits_def)
  then show ?thesis
  proof cases
    case bcd
    then have a: "area = Int2Bcd cc ?v (int k) NR" using area k by (simp add: length_area_def)
    have "length area = k" using cc by (simp add: a ccommon_ok_def)
    moreover have "Bcd2Int cc area (int k * 2) NR None = ?v" using cc v bcd(2) k(2) by (simp add: a ccommon_ok_def)
    ultimately show ?thesis using gk k bcd(1) by (simp add: read_length_def)
  next
    case asc
    then have nv: "nat ?v < 10 ^ k" using v by (metis nat_less_eq_zless nat_numeral nat_power_eq zero_le_numeral)
    then have len: "length (zpad k (nat ?v)) = k" using k(2) length_zpad by simp
    have a: "area = zpad k (nat ?v)" using area asc(1) k(1) len by (simp add: length_area_def length_digits_def Let_def iso_types split: if_splits)
    have "(10 :: nat) ^ k \<le> 10 ^ 3" using k(3) by (intro power_increasing) auto
    with nv have "nat ?v < 10 ^ 3" by (rule less_le_trans)
    then have "nat ?v < 2 ^ 31" by simp
    then have "atoi (zpad k (nat ?v)) = ?v" using v by (simp only: atoi_zpad nat_0_le)
    moreover have "takeWhile (\<lambda>c. c \<noteq> 0) (zpad k (nat ?v)) = zpad k (nat ?v)"
      using zpad_digits [of k "nat ?v"] by (auto simp: is_digit_def takeWhile_eq_all_conv)
    ultimately show ?thesis using gk k asc(1) len a by (simp add: read_length_def iso_types del: takeWhile_eq_all_conv)
  qed
qed

lemma UnPack_stored:
  assumes "same_spec f g" "m_iFormat f = int k" "k \<le> 3" "length area = k" "length d = n"
    and "if k = 0 then data_len (m_iType f) (m_iLen f) = Some (int n)
      else \<exists>v. read_length cc g (area @ d @ rest) = Inr (Some v) \<and> data_len (m_iType f) v = Some (int n)"
  shows "UnPackFieldData cc ((area @ d) @ rest) g =
    Inr (int (length (area @ d)), g\<lparr>m_iDataLen := int (length (area @ d)), m_pData := Some (area @ d)\<rparr>)"
proof (cases "k = 0")
  case True
  with assms show ?thesis by (simp add: UnPackFieldData_def same_spec_def FIX_def)
next
  case False
  with assms(6) obtain v where v: "read_length cc g (area @ d @ rest) = Inr (Some v)" "data_len (m_iType f) v = Some (int n)" by auto
  have "m_iFormat g \<noteq> FIX" "m_iType g = m_iType f" "m_iFormat g = int k" using assms(1,2) False by (simp_all add: same_spec_def FIX_def)
  then show ?thesis using v assms(3,4,5) by (simp add: UnPackFieldData_def nat_add_distrib add.commute)
qed

lemma SetValueByHex_full:
  assumes cc: "ccommon_ok cc" and set: "field_SetValueByHex cc pHexData v f = Inr (1, f')" and d: "pHexData \<noteq> []"
    and fits: "length_fits f (length pHexData) v"
  shows "field_full cc f' \<and> same_spec f f'"
proof (cases "m_iFormat f = FIX")
  case True
  have h: "hex_fits f (int (length pHexData)) = Some True" and f': "f' = (RemoveField f)\<lparr>m_pData := Some pHexData, m_iDataLen := int (length pHexData)\<rparr>"
    using set True by (auto simp: field_SetValueByHex_def Let_def split: if_splits)
  have dl: "data_len (m_iType f) (m_iLen f) = Some (int (length pHexData))"
    using h True by (auto simp: hex_fits_def data_len_def split: if_splits)
  have "UnPackFieldData cc (([] @ pHexData) @ rest) g = Inr (int (length ([] @ pHexData)), g\<lparr>m_iDataLen := int (length ([] @ pHexData)), m_pData := Some ([] @ pHexData)\<rparr>)"
    if "same_spec f g" for g rest
    using that True dl by (intro UnPack_stored [where f = f and k = 0 and n = "length pHexData"]) (simp_all add: FIX_def)
  with d show ?thesis by (simp add: field_full_def f' same_spec_def RemoveField_def)
next
  case False
  obtain k where k: "m_iFormat f = int k" "1 \<le> k" "k \<le> 3" using format_small [OF fits False] by blast
  let ?v = "stored_len f (length pHexData) v"
  obtain area where a: "length_area cc f ?v (length pHexData) = Inr area"
    "f' = (RemoveField f)\<lparr>m_pData := Some (area @ pHexData), m_iDataLen := m_iFormat f + int (length pHexData)\<rparr>"
    using set False by (auto simp: field_SetValueByHex_def Let_def stored_len_def dest!: bind_result_Inr split: if_splits)
  note rl = read_length_stored [OF cc fits False _ a(1)]
  have dl: "data_len (m_iType f) ?v = Some (int (length pHexData))" using fits False by (simp add: length_fits_def)
  have len: "length area = k" using rl [of f] k by (simp add: same_spec_def)
  have "UnPackFieldData cc ((area @ pHexData) @ rest) g =
      Inr (int (length (area @ pHexData)), g\<lparr>m_iDataLen := int (length (area @ pHexData)), m_pData := Some (area @ pHexData)\<rparr>)"
    if g: "same_spec f g" for g rest
    using k len dl rl [OF g] by (intro UnPack_stored [OF g k(1,3)]) auto
  with d len k show ?thesis by (simp add: field_full_def a(2) same_spec_def RemoveField_def)
qed

section \<open>The loops\<close>

definition has :: "iso_msg \<Rightarrow> int \<Rightarrow> bool" where
  "has s i \<longleftrightarrow> BitExist i s = Inr True"

fun field_bytes :: "iso_msg \<Rightarrow> int \<Rightarrow> nat \<Rightarrow> cstr" where
  "field_bytes s i 0 = []"
| "field_bytes s i (Suc n) = (if has s i then PackFieldData (the (iff_fields s i)) else []) @ field_bytes s (i + 1) n"

text \<open>The bits of all fields are in the bitmap.\<close>

definition bits_ok :: "MsgFmt \<Rightarrow> bool" where
  "bits_ok mf \<longleftrightarrow> length (cBitMap mf) = 16 \<and> iBitMapLen mf \<le> 16 \<and> iFieldCnt mf \<le> 8 * int (iBitMapLen mf) + 1"

lemma BitExist_total:
  assumes "bits_ok (m_pMF s)"
  shows "BitExist i s = Inr (has s i)"
proof -
  have "bit_byte i < 16" if "i < iFieldCnt (m_pMF s)"
  proof -
    have "i \<le> 128" using that assms by (auto simp: bits_ok_def)
    then have "(i - 1) div 8 < 16" by presburger
    then show ?thesis by (simp add: bit_byte_def)
  qed
  then have "BitExist i s \<noteq> Inl e" for e using assms by (auto simp: BitExist_def bits_ok_def)
  then show ?thesis by (cases "BitExist i s") (auto simp: has_def)
qed

lemma has_cong: "m_pMF s = m_pMF t \<Longrightarrow> (iff_fields s k = None) = (iff_fields t k = None) \<Longrightarrow> has s k = has t k"
  unfolding has_def BitExist_def by (simp only:)

lemma has_field: "has s i \<Longrightarrow> \<exists>f. iff_fields s i = Some f"
  by (auto simp: has_def BitExist_def split: if_splits)

lemma full_data: "field_full cc f \<Longrightarrow> \<exists>d. m_pData f = Some d \<and> PackFieldData f = d \<and> d \<noteq> []"
  by (auto simp: field_full_def PackFieldData_def)

lemma pack_fields_ok:
  assumes "bits_ok (m_pMF s)" "\<forall>k f. has s k \<longrightarrow> k \<ge> 2 \<longrightarrow> iff_fields s k = Some f \<longrightarrow> field_full cc f \<and> length (PackFieldData f) \<le> FIELD_MAXLEN"
  shows "2 \<le> i \<Longrightarrow> length msg + length (field_bytes s i n) \<le> PACK_MAXLEN \<Longrightarrow> pack_fields s i n msg = Inr (Some (msg @ field_bytes s i n))"
proof (induction n arbitrary: i msg)
  case (Suc n)
  show ?case
  proof (cases "has s i")
    case True
    then obtain f where f: "iff_fields s i = Some f" using has_field by blast
    with assms(2) True Suc.prems(1) have "field_full cc f" "length (PackFieldData f) \<le> FIELD_MAXLEN" by blast+
    moreover have "PackFieldData f \<noteq> []" using full_data [OF \<open>field_full cc f\<close>] by auto
    ultimately show ?thesis using Suc.IH [of "i + 1" "msg @ PackFieldData f"] Suc.prems True f
      by (simp add: BitExist_total [OF assms(1)] Let_def)
  next
    case False
    then show ?thesis using Suc.IH [of "i + 1" msg] Suc.prems by (simp add: BitExist_total [OF assms(1)])
  qed
qed simp

definition filled_from :: "iso_msg \<Rightarrow> iso_msg \<Rightarrow> int \<Rightarrow> iso_field option" where
  "filled_from s t k = map_option (\<lambda>g. g\<lparr>m_iDataLen := m_iDataLen (the (iff_fields s k)), m_pData := m_pData (the (iff_fields s k))\<rparr>) (iff_fields t k)"

lemma unpack_fields_ok:
  assumes s: "\<forall>k f. has s k \<longrightarrow> k \<ge> 2 \<longrightarrow> iff_fields s k = Some f \<longrightarrow> field_full cc f"
  shows "bits_ok (m_pMF t) \<Longrightarrow> \<forall>k. k \<ge> 2 \<longrightarrow> has t k = has s k \<Longrightarrow> \<forall>k. k \<ge> i \<longrightarrow> rel_option same_spec (iff_fields s k) (iff_fields t k) \<Longrightarrow> 2 \<le> i \<Longrightarrow>
    unpack_fields cc i n (field_bytes s i n @ rest) t =
      Inr (True, t\<lparr>iff_fields := (\<lambda>k. if i \<le> k \<and> k < i + int n \<and> has s k then filled_from s t k else iff_fields t k)\<rparr>)"
proof (induction n arbitrary: i t)
  case 0
  have "(\<lambda>k. if i \<le> k \<and> k < i + int 0 \<and> has s k then filled_from s t k else iff_fields t k) = iff_fields t" by (rule ext) auto
  then show ?case by simp
next
  case (Suc n)
  show ?case
  proof (cases "has s i")
    case False
    have "unpack_fields cc (i + 1) n (field_bytes s (i + 1) n @ rest) t =
        Inr (True, t\<lparr>iff_fields := (\<lambda>k. if i + 1 \<le> k \<and> k < i + 1 + int n \<and> has s k then filled_from s t k else iff_fields t k)\<rparr>)"
      using Suc.prems by (intro Suc.IH) auto
    moreover have "(i + 1 \<le> k \<and> k < i + 1 + int n \<and> has s k) = (i \<le> k \<and> k < i + int (Suc n) \<and> has s k)" for k
      using False by (cases "k = i") auto
    ultimately show ?thesis using False Suc.prems by (simp add: BitExist_total)
  next
    case True
    then obtain f where f: "iff_fields s i = Some f" using has_field by blast
    then obtain g where g: "iff_fields t i = Some g" "same_spec f g" using Suc.prems(3) by (metis order_refl option.rel_cases option.sel option.distinct(1))
    have full: "field_full cc f" using s True Suc.prems(4) f by blast
    then obtain d where d: "m_pData f = Some d" "d \<noteq> []" "m_iDataLen f = int (length d)" "PackFieldData f = d"
      "\<And>rest. UnPackFieldData cc (d @ rest) g = Inr (int (length d), g\<lparr>m_iDataLen := int (length d), m_pData := Some d\<rparr>)"
      using g(2) by (auto simp: field_full_def PackFieldData_def)
    let ?t = "set_field i (g\<lparr>m_iDataLen := int (length d), m_pData := Some d\<rparr>) t"
    have has: "has ?t k = has t k" for k using g(1) by (intro has_cong) (auto simp: set_field_def)
    have "unpack_fields cc (i + 1) n (field_bytes s (i + 1) n @ rest) ?t =
        Inr (True, ?t\<lparr>iff_fields := (\<lambda>k. if i + 1 \<le> k \<and> k < i + 1 + int n \<and> has s k then filled_from s ?t k else iff_fields ?t k)\<rparr>)"
      using Suc.prems has by (intro Suc.IH) (auto simp: set_field_def)
    moreover have "?t\<lparr>iff_fields := (\<lambda>k. if i + 1 \<le> k \<and> k < i + 1 + int n \<and> has s k then filled_from s ?t k else iff_fields ?t k)\<rparr> =
        t\<lparr>iff_fields := (\<lambda>k. if i \<le> k \<and> k < i + int (Suc n) \<and> has s k then filled_from s t k else iff_fields t k)\<rparr>"
      using True f g(1) d by (auto simp: set_field_def filled_from_def fun_eq_iff)
    ultimately show ?thesis using True Suc.prems(1,2,4) g(1) f d by (simp add: BitExist_total)
  qed
qed

section \<open>Messages\<close>

text \<open>The sizes of the arrays of \<open>MsgFmt\<close> and the fields that every message has.\<close>

definition fmt_ok :: "MsgFmt \<Rightarrow> bool" where
  "fmt_ok mf \<longleftrightarrow> bits_ok mf \<and> length (cTpdu mf) = 12 \<and> iTpduLen mf \<le> 12 \<and> length (cHead mf) = 64 \<and> iHeadLen mf \<le> 64 \<and>
     2 \<le> iFieldCnt mf \<and> 0 < iBitMapLen mf"

definition bitmap_field :: "MsgFmt \<Rightarrow> iso_field \<Rightarrow> bool" where
  "bitmap_field mf f \<longleftrightarrow> m_iFormat f = FIX \<and> m_iType f = BIN \<and> m_iLen f = int (iBitMapLen mf)"

definition msg_full :: "ccommon \<Rightarrow> iso_msg \<Rightarrow> bool" where
  "msg_full cc s \<longleftrightarrow> fmt_ok (m_pMF s) \<and> (\<exists>f0. iff_fields s 0 = Some f0 \<and> field_full cc f0) \<and>
     (\<exists>f1. iff_fields s 1 = Some f1 \<and> bitmap_field (m_pMF s) f1) \<and>
     (\<forall>k f. has s k \<longrightarrow> k \<ge> 2 \<longrightarrow> iff_fields s k = Some f \<longrightarrow> field_full cc f \<and> length (PackFieldData f) \<le> FIELD_MAXLEN)"

definition same_format :: "iso_msg \<Rightarrow> iso_msg \<Rightarrow> bool" where
  "same_format s t \<longleftrightarrow> fmt_ok (m_pMF t) \<and> iFieldCnt (m_pMF t) = iFieldCnt (m_pMF s) \<and> iOffSet (m_pMF t) = iOffSet (m_pMF s) \<and>
     iHeadLen (m_pMF t) = iHeadLen (m_pMF s) \<and> iTpduLen (m_pMF t) = iTpduLen (m_pMF s) \<and> iBitMapLen (m_pMF t) = iBitMapLen (m_pMF s) \<and>
     (\<forall>k. rel_option same_spec (iff_fields s k) (iff_fields t k))"

definition body :: "iso_msg \<Rightarrow> cstr" where
  "body s = take (iTpduLen (m_pMF s)) (cTpdu (m_pMF s)) @ take (iHeadLen (m_pMF s)) (cHead (m_pMF s)) @ PackFieldData (the (iff_fields s 0)) @
     take (iBitMapLen (m_pMF s)) (cBitMap (m_pMF s)) @ field_bytes s 2 (nat (iFieldCnt (m_pMF s) - 2))"

text \<open>The length of the message fits into its digits or bytes.\<close>

definition length_type_ok :: "MsgFmt \<Rightarrow> nat \<Rightarrow> bool" where
  "length_type_ok mf n \<longleftrightarrow> iLenType mf = NR \<or> iLenType mf = ASC \<and> 0 < iOffSet mf \<and> iOffSet mf \<le> 7 \<and> n < 10 ^ iOffSet mf \<or>
     (iLenType mf = HEXF \<or> iLenType mf = HEXA) \<and> iOffSet mf \<le> 4"

lemma message_length_ok:
  assumes "ccommon_ok cc" "length_type_ok mf n"
  shows "\<exists>l. message_length cc mf n = Inr (Some l) \<and> length l = iOffSet mf"
  using assms by (auto simp: message_length_def length_type_ok_def iso_types ccommon_ok_def length_digits_def length_zpad int_bytes_def Let_def)

lemma field_bytes_cong:
  "\<forall>k. k \<ge> i \<longrightarrow> has s k = has t k \<and> iff_fields s k = iff_fields t k \<Longrightarrow> field_bytes s i n = field_bytes t i n"
  by (induction n arbitrary: i) simp_all

lemma Pack_ok:
  assumes cc: "ccommon_ok cc" and full: "msg_full cc s" and len: "length_type_ok (m_pMF s) (length (body s))"
    and fits: "iOffSet (m_pMF s) + length (body s) \<le> PACK_MAXLEN" "iOffSet (m_pMF s) + length (body s) \<le> iLen"
  shows "\<exists>l s'. iso_Pack cc iLen s = Inr (1, l @ body s, s') \<and> length l = iOffSet (m_pMF s) \<and> m_cMsgBuffer s' = l @ body s"
proof -
  let ?mf = "m_pMF s" and ?n = "nat (iFieldCnt (m_pMF s) - 2)"
  let ?bm = "take (iBitMapLen ?mf) (cBitMap ?mf)"
  obtain f0 f1 where f: "iff_fields s 0 = Some f0" "field_full cc f0" "iff_fields s 1 = Some f1" "bitmap_field ?mf f1"
    using full by (auto simp: msg_full_def)
  have mf: "fmt_ok ?mf" "bits_ok ?mf" using full by (simp_all add: msg_full_def fmt_ok_def)
  have bl: "length ?bm = iBitMapLen ?mf" using mf by (simp add: bits_ok_def)
  define s1 where "s1 = set_field 1 ((RemoveField f1)\<lparr>m_pData := Some ?bm, m_iDataLen := int (iBitMapLen ?mf)\<rparr>) s"
  have set1: "iso_SetValueByHex cc 1 ?bm 0 s = Inr (1, s1)"
    using f(3,4) mf(1) bl by (simp add: iso_SetValueByHex_def set_and_mark_def field_SetValueByHex_def hex_fits_def bitmap_field_def iso_types fmt_ok_def
        SetBitMap_def s1_def Let_def del: length_take)
  have same: "has s1 k = has s k" "k \<noteq> 1 \<Longrightarrow> iff_fields s1 k = iff_fields s k" "m_pMF s1 = ?mf" for k
    using f(3) by (auto simp: s1_def set_field_def split: if_splits intro!: has_cong)
  have fb: "field_bytes s1 2 ?n = field_bytes s 2 ?n" using same by (intro field_bytes_cong) auto
  let ?pre = "take (iTpduLen ?mf) (cTpdu ?mf) @ take (iHeadLen ?mf) (cHead ?mf) @ PackFieldData f0 @ ?bm"
  have bd: "body s = ?pre @ field_bytes s 2 ?n" using f(1) by (simp add: body_def)
  have pf: "pack_fields s1 2 ?n (replicate (iOffSet ?mf) 0 @ ?pre) = Inr (Some ((replicate (iOffSet ?mf) 0 @ ?pre) @ field_bytes s1 2 ?n))"
  proof (rule pack_fields_ok)
    show "bits_ok (m_pMF s1)" using mf same by simp
    show "\<forall>k f. has s1 k \<longrightarrow> k \<ge> 2 \<longrightarrow> iff_fields s1 k = Some f \<longrightarrow> field_full cc f \<and> length (PackFieldData f) \<le> FIELD_MAXLEN"
      using full same by (auto simp: msg_full_def)
    show "length (replicate (iOffSet ?mf) 0 @ ?pre) + length (field_bytes s1 2 ?n) \<le> PACK_MAXLEN" using fits(1) bd fb by simp
  qed simp
  obtain l where l: "message_length cc ?mf (length (body s)) = Inr (Some l)" "length l = iOffSet ?mf"
    using message_length_ok [OF cc len] by blast
  have t: "PackFieldData f0 \<noteq> []" using full_data [OF f(2)] by auto
  have pre: "mem_prefix (iTpduLen ?mf) (cTpdu ?mf) = Inr (take (iTpduLen ?mf) (cTpdu ?mf))" "mem_prefix (iHeadLen ?mf) (cHead ?mf) = Inr (take (iHeadLen ?mf) (cHead ?mf))"
    "mem_prefix (iBitMapLen ?mf) (cBitMap ?mf) = Inr ?bm" using mf by (simp_all add: mem_prefix_def fmt_ok_def bits_ok_def)
  have sz: "\<not> PACK_MAXLEN < iOffSet ?mf + length ?pre" "\<not> iLen < length ((replicate (iOffSet ?mf) 0 @ ?pre) @ field_bytes s1 2 ?n)"
    "length ((replicate (iOffSet ?mf) 0 @ ?pre) @ field_bytes s1 2 ?n) - iOffSet ?mf = length (body s)"
    "drop (iOffSet ?mf) ((replicate (iOffSet ?mf) 0 @ ?pre) @ field_bytes s1 2 ?n) = body s" using fits bd fb by simp_all
  have md: "SetMsgData (l @ body s) s1 = (1, s1\<lparr>m_cMsgBuffer := l @ body s\<rparr>)" using fits(1) l(2) by (simp add: SetMsgData_def)
  have "iso_Pack cc iLen s = Inr (1, l @ body s, s1\<lparr>m_cMsgBuffer := l @ body s\<rparr>)"
    unfolding iso_Pack_def Let_def pre bind_result.simps f(1) option.case using t sz(1) set1
    by (simp only: if_False if_True bind_result.simps prod.case pf option.case sz l(1) md simp_thms)
  moreover have "m_cMsgBuffer (s1\<lparr>m_cMsgBuffer := l @ body s\<rparr>) = l @ body s" by simp
  ultimately show ?thesis using l(2) by blast
qed

text \<open>Copying the bytes of the bitmap copies the bits of the fields.\<close>

lemma has_bitmap:
  assumes mf: "fmt_ok (m_pMF s)" "fmt_ok mf" "iFieldCnt mf = iFieldCnt (m_pMF s)"
    and b: "cBitMap (m_pMF t) = overwrite (take (iBitMapLen (m_pMF s)) (cBitMap (m_pMF s))) (cBitMap mf)"
    and t: "iFieldCnt (m_pMF t) = iFieldCnt (m_pMF s)" "(iff_fields t k = None) = (iff_fields s k = None)"
  shows "has t k = has s k"
proof (cases "2 \<le> k \<and> k < iFieldCnt (m_pMF s)")
  case True
  have "bit_byte k < iBitMapLen (m_pMF s)" using True mf(1) unfolding bit_byte_def fmt_ok_def bits_ok_def
    by (simp add: nat_less_iff) linarith
  then have "cBitMap (m_pMF t) ! bit_byte k = cBitMap (m_pMF s) ! bit_byte k" "length (cBitMap (m_pMF t)) = length (cBitMap (m_pMF s))"
    using mf b by (auto simp: overwrite_def nth_append fmt_ok_def bits_ok_def)
  then show ?thesis using t by (simp only: has_def BitExist_def)
next
  case False
  then show ?thesis using t by (auto simp: has_def BitExist_def)
qed

lemma UnPack_ok:
  assumes full: "msg_full cc s" and fmt: "same_format s t" and l: "length l = iOffSet (m_pMF s)"
    and fits: "iOffSet (m_pMF s) + length (body s) \<le> PACK_MAXLEN"
  shows "\<exists>t'. iso_UnPack cc (l @ body s) t = Inr (1, t') \<and>
    take (iTpduLen (m_pMF s)) (cTpdu (m_pMF t')) = take (iTpduLen (m_pMF s)) (cTpdu (m_pMF s)) \<and>
    take (iHeadLen (m_pMF s)) (cHead (m_pMF t')) = take (iHeadLen (m_pMF s)) (cHead (m_pMF s)) \<and>
    (\<forall>k. has t' k = has s k) \<and> fmt_ok (m_pMF t') \<and> iTpduLen (m_pMF t') = iTpduLen (m_pMF s) \<and> iHeadLen (m_pMF t') = iHeadLen (m_pMF s) \<and>
    (\<forall>k f. has s k \<longrightarrow> k \<noteq> 1 \<longrightarrow> k \<ge> 0 \<longrightarrow> iff_fields s k = Some f \<longrightarrow> (\<exists>g. iff_fields t' k = Some g \<and> m_pData g = m_pData f \<and> m_iDataLen g = m_iDataLen f \<and> same_spec f g))"
proof -
  let ?mf = "m_pMF s" and ?n = "nat (iFieldCnt (m_pMF s) - 2)"
  let ?bm = "take (iBitMapLen ?mf) (cBitMap ?mf)" and ?tp = "take (iTpduLen ?mf) (cTpdu ?mf)" and ?hd = "take (iHeadLen ?mf) (cHead ?mf)"
  obtain f0 f1 where f: "iff_fields s 0 = Some f0" "field_full cc f0" "iff_fields s 1 = Some f1" "bitmap_field ?mf f1"
    using full by (auto simp: msg_full_def)
  have mf: "fmt_ok ?mf" "fmt_ok (m_pMF t)" using full fmt by (simp_all add: msg_full_def same_format_def)
  have spec: "rel_option same_spec (iff_fields s k) (iff_fields t k)" for k using fmt by (simp add: same_format_def)
  obtain g0 g1 where g: "iff_fields t 0 = Some g0" "same_spec f0 g0" "iff_fields t 1 = Some g1" "same_spec f1 g1"
    using spec [of 0] spec [of 1] f(1,3) by (auto simp: option_rel_Some1)
  have bl: "length ?bm = iBitMapLen ?mf" "length ?tp = iTpduLen ?mf" "length ?hd = iHeadLen ?mf" using mf by (simp_all add: fmt_ok_def bits_ok_def)
  obtain d where d: "m_pData f0 = Some d" "d \<noteq> []" "m_iDataLen f0 = int (length d)" "PackFieldData f0 = d"
    "\<And>rest. UnPackFieldData cc (d @ rest) g0 = Inr (int (length d), g0\<lparr>m_iDataLen := int (length d), m_pData := Some d\<rparr>)"
    using f(2) g(2) by (auto simp: field_full_def PackFieldData_def)
  let ?fb = "field_bytes s 2 ?n"
  have bd: "body s = ?tp @ ?hd @ d @ ?bm @ ?fb" using f(1) d(4) by (simp add: body_def)
  have e: "iFieldCnt (m_pMF t) = iFieldCnt ?mf" "iOffSet (m_pMF t) = iOffSet ?mf" "iHeadLen (m_pMF t) = iHeadLen ?mf"
    "iTpduLen (m_pMF t) = iTpduLen ?mf" "iBitMapLen (m_pMF t) = iBitMapLen ?mf" using fmt by (simp_all add: same_format_def)
  have rest: "drop (iOffSet ?mf + iTpduLen ?mf + iHeadLen ?mf) (l @ body s) = d @ ?bm @ ?fb"
    "take (iTpduLen ?mf) (drop (iOffSet ?mf) (l @ body s)) = ?tp" "take (iHeadLen ?mf) (drop (iOffSet ?mf + iTpduLen ?mf) (l @ body s)) = ?hd"
    using l bl(2,3) unfolding bd by (simp_all del: length_take)
  have sz: "\<not> (length (l @ body s) < iOffSet ?mf + iTpduLen ?mf + iHeadLen ?mf + iBitMapLen ?mf \<or> PACK_MAXLEN < length (l @ body s))"
    using l bl fits unfolding bd by (simp del: length_take)
  have nub: "\<not> (length (cTpdu (m_pMF t)) < iTpduLen ?mf \<or> length (cHead (m_pMF t)) < iHeadLen ?mf)" using mf e by (auto simp: fmt_ok_def)
  define t1 where "t1 = set_field 0 (g0\<lparr>m_iDataLen := int (length d), m_pData := Some d\<rparr>)
    (t\<lparr>m_pMF := (m_pMF t)\<lparr>cTpdu := overwrite ?tp (cTpdu (m_pMF t)), cHead := overwrite ?hd (cHead (m_pMF t))\<rparr>\<rparr>)"
  define t2 where "t2 = set_field 1 (g1\<lparr>m_iDataLen := int (iBitMapLen ?mf), m_pData := Some ?bm\<rparr>) t1"
  define t3 where "t3 = t2\<lparr>m_pMF := (m_pMF t2)\<lparr>cBitMap := overwrite ?bm (cBitMap (m_pMF t2))\<rparr>\<rparr>"
  have g1: "m_iFormat g1 = FIX" "m_iType g1 = BIN" "m_iLen g1 = int (iBitMapLen ?mf)" using g(4) f(4) by (simp_all add: same_spec_def bitmap_field_def)
  have up1: "UnPackFieldData cc (?bm @ ?fb) g1 = Inr (int (iBitMapLen ?mf), g1\<lparr>m_iDataLen := int (iBitMapLen ?mf), m_pData := Some ?bm\<rparr>)"
    using g1 bl(1) by (simp add: UnPackFieldData_def data_len_def iso_types del: length_take)
  have gv: "iso_GetValueByHex 1 16 t2 = Inr ?bm"
    using mf(1) g1(1) by (simp add: iso_GetValueByHex_def BitExist_def t2_def set_field_def field_GetValueByHex_def fmt_ok_def bits_ok_def FIX_def)
  have t1: "iff_fields t1 1 = Some g1" using g(3) by (simp add: t1_def set_field_def)
  have t2: "iBitMapLen (m_pMF t2) = iBitMapLen ?mf" using e(5) by (simp add: t1_def t2_def set_field_def)
  have bmp: "unpack_bitmap cc (?bm @ ?fb) t1 = Inr (Some ?fb, t3)"
    using bl(1) by (simp add: unpack_bitmap_def t1 up1 t2_def [symmetric] t2 gv t3_def Let_def del: length_take)
  have t3: "iff_fields t3 = (iff_fields t)(0 \<mapsto> g0\<lparr>m_iDataLen := int (length d), m_pData := Some d\<rparr>,
      1 \<mapsto> g1\<lparr>m_iDataLen := int (iBitMapLen ?mf), m_pData := Some ?bm\<rparr>)"
    "m_pMF t3 = (m_pMF t)\<lparr>cTpdu := overwrite ?tp (cTpdu (m_pMF t)), cHead := overwrite ?hd (cHead (m_pMF t)), cBitMap := overwrite ?bm (cBitMap (m_pMF t))\<rparr>"
    by (simp_all add: t3_def t2_def t1_def set_field_def)
  have has3: "has t3 k = has s k" for k
  proof (rule has_bitmap [OF mf e(1)])
    show "(iff_fields t3 k = None) = (iff_fields s k = None)" using spec [of k] f(1,3) t3(1) by (auto split: if_splits)
  qed (simp_all add: t3(2) e)
  have b3: "bits_ok (m_pMF t3)" using mf by (simp add: t3(2) fmt_ok_def bits_ok_def overwrite_def)
  have uf: "unpack_fields cc 2 ?n (?fb @ []) t3 =
      Inr (True, t3\<lparr>iff_fields := (\<lambda>k. if 2 \<le> k \<and> k < 2 + int ?n \<and> has s k then filled_from s t3 k else iff_fields t3 k)\<rparr>)"
  proof (rule unpack_fields_ok)
    show "\<forall>k f. has s k \<longrightarrow> k \<ge> 2 \<longrightarrow> iff_fields s k = Some f \<longrightarrow> field_full cc f" using full by (auto simp: msg_full_def)
    show "\<forall>k. k \<ge> 2 \<longrightarrow> rel_option same_spec (iff_fields s k) (iff_fields t3 k)" using spec by (auto simp: t3(1))
  qed (use b3 has3 in simp_all)
  define t4 where "t4 = t3\<lparr>iff_fields := (\<lambda>k. if 2 \<le> k \<and> k < 2 + int ?n \<and> has s k then filled_from s t3 k else iff_fields t3 k)\<rparr>"
  have uf4: "unpack_fields cc 2 ?n ?fb t3 = Inr (True, t4)" using uf unfolding t4_def append_Nil2 .
  have md: "SetMsgData (l @ body s) t4 = (1, t4\<lparr>m_cMsgBuffer := l @ body s\<rparr>)" using fits l by (simp add: SetMsgData_def)
  have d0: "\<not> int (length d) \<le> 0" "drop (nat (int (length d))) (d @ ?bm @ ?fb) = ?bm @ ?fb" using d(2) by simp_all
  have run: "iso_UnPack cc (l @ body s) t = Inr (1, t4\<lparr>m_cMsgBuffer := l @ body s\<rparr>)"
    unfolding iso_UnPack_def Let_def e rest using sz nub g(1)
    by (simp add: d(2,5) d0 t1_def [symmetric] bmp uf4 md)
  have fields: "\<exists>g. iff_fields t4 k = Some g \<and> m_pData g = m_pData f \<and> m_iDataLen g = m_iDataLen f \<and> same_spec f g"
    if k: "has s k" "k \<noteq> 1" "k \<ge> 0" "iff_fields s k = Some f" for k f
  proof (cases "k = 0")
    case True
    then show ?thesis using k(4) f(1) g(2) d by (simp add: t4_def t3(1) same_spec_def)
  next
    case False
    then have "2 \<le> k" using k(2,3) by simp
    moreover have "k < iFieldCnt ?mf" using k(1) \<open>2 \<le> k\<close> by (auto simp: has_def BitExist_def split: if_splits)
    moreover obtain g where "iff_fields t k = Some g" "same_spec f g" using spec [of k] k(4) by (auto simp: option_rel_Some1)
    ultimately show ?thesis using k(1,4) by (simp add: t4_def t3(1) filled_from_def same_spec_def)
  qed
  have has4: "has t4 k = has s k" for k
    unfolding has3 [of k, symmetric] by (rule has_cong) (use has_field [of s k] spec [of k] in \<open>auto simp: t4_def filled_from_def\<close>)
  have arr: "take (iTpduLen ?mf) (cTpdu (m_pMF t4)) = ?tp" "take (iHeadLen ?mf) (cHead (m_pMF t4)) = ?hd"
    using bl by (simp_all add: t4_def t3(2) overwrite_def del: length_take)
  have "has (t4\<lparr>m_cMsgBuffer := l @ body s\<rparr>) k = has s k" for k unfolding has4 [symmetric] by (rule has_cong) simp_all
  moreover have "fmt_ok (m_pMF t4)" using mf bl e by (simp add: t4_def t3(2) fmt_ok_def bits_ok_def overwrite_def)
  moreover have "iTpduLen (m_pMF t4) = iTpduLen ?mf" "iHeadLen (m_pMF t4) = iHeadLen ?mf" using e by (simp_all add: t4_def t3(2))
  ultimately show ?thesis using run fields arr by (intro exI [of _ "t4\<lparr>m_cMsgBuffer := l @ body s\<rparr>"]) simp
qed

section \<open>Setting fields\<close>

lemma bit_test: "(drop_bit n w AND 1 = 1) = bit w n" for w :: byte
  by (metis bit_iff_and_drop_bit_eq_1 and.commute)

lemma bit_place:
  assumes "2 \<le> i" "2 \<le> k" "bit_byte i = bit_byte k" "bit_shift i = bit_shift k"
  shows "i = k"
proof -
  have "(i - 1) div 8 = (k - 1) div 8" using assms(1-3) by (simp add: bit_byte_def nat_eq_iff pos_imp_zdiv_nonneg_iff)
  moreover have "i mod 8 = k mod 8"
  proof -
    have "0 \<le> i mod 8" "i mod 8 < 8" "0 \<le> k mod 8" "k mod 8 < 8" by simp_all
    with assms(4) show ?thesis by (auto simp: bit_shift_def split: if_splits)
  qed
  ultimately have "(i - 1) div 8 = (k - 1) div 8" "(i - 1) mod 8 = (k - 1) mod 8" by (auto intro: mod_diff_cong)
  then have "i - 1 = k - 1" by (metis div_mult_mod_eq)
  then show ?thesis by simp
qed

lemma bit_shift_less: "bit_shift i < 8"
  by (auto simp: bit_shift_def nat_less_iff)

lemma SetBitMap_has:
  assumes b: "bits_ok (m_pMF s)" and i: "2 \<le> i" "i < iFieldCnt (m_pMF s)" and f: "iff_fields s i \<noteq> None"
  shows "\<exists>bm. SetBitMap i 1 s = Inr (1, s\<lparr>m_pMF := (m_pMF s)\<lparr>cBitMap := bm\<rparr>\<rparr>) \<and> length bm = 16 \<and>
    (\<forall>k. has (s\<lparr>m_pMF := (m_pMF s)\<lparr>cBitMap := bm\<rparr>\<rparr>) k = (has s k \<or> k = i))"
proof -
  let ?b = "cBitMap (m_pMF s)"
  define bm where "bm = ?b[bit_byte i := ?b ! bit_byte i OR push_bit (bit_shift i) 1]"
  have len: "length ?b = 16" "length bm = 16" using b by (simp_all add: bits_ok_def bm_def)
  have bb: "bit_byte k < 16" if "2 \<le> k" "k < iFieldCnt (m_pMF s)" for k
  proof -
    have "k \<le> 128" using that b by (auto simp: bits_ok_def)
    then have "(k - 1) div 8 < 16" by presburger
    then show ?thesis by (simp add: bit_byte_def)
  qed
  have bits: "bit (bm ! bit_byte k) (bit_shift k) = (bit (?b ! bit_byte k) (bit_shift k) \<or> k = i)" if "2 \<le> k" "k < iFieldCnt (m_pMF s)" for k
  proof (cases "bit_byte k = bit_byte i")
    case True
    have "bit (push_bit (bit_shift i) (1 :: byte)) (bit_shift k) = (bit_shift k = bit_shift i)"
      using bit_shift_less [of k] by (auto simp: bit_exp_iff possible_bit_word)
    then show ?thesis using True bit_place [OF that(1) i(1) True] bb [OF i] len by (auto simp: bm_def bit_or_iff)
  next
    case False
    then show ?thesis using bb [OF that] len by (auto simp: bm_def)
  qed
  have "has (s\<lparr>m_pMF := (m_pMF s)\<lparr>cBitMap := bm\<rparr>\<rparr>) k = (has s k \<or> k = i)" for k
    using bits [of k] bb [of k] len f i unfolding has_def BitExist_def bit_test by auto
  moreover have "SetBitMap i 1 s = Inr (1, s\<lparr>m_pMF := (m_pMF s)\<lparr>cBitMap := bm\<rparr>\<rparr>)"
    using i bb [OF i] len by (simp add: SetBitMap_def bm_def Let_def)
  ultimately show ?thesis using len by blast
qed

text \<open>A value that a field takes, with the number of digits it has (0 for the usual one).\<close>

definition value_fits :: "iso_field \<Rightarrow> cstr \<Rightarrow> int \<Rightarrow> bool" where
  "value_fits f hex v \<longleftrightarrow> hex \<noteq> [] \<and> length hex \<le> 1021 \<and> hex_fits f (int (length hex)) = Some True \<and> length_fits f (length hex) v"

lemma SetValueByHex_stores:
  assumes cc: "ccommon_ok cc" and fits: "value_fits f hex v"
  shows "\<exists>f' area. field_SetValueByHex cc hex v f = Inr (1, f') \<and> field_full cc f' \<and> same_spec f f' \<and> m_pData f' = Some (area @ hex) \<and>
    length area = nat (m_iFormat f) \<and> 0 \<le> m_iFormat f \<and> length area \<le> 3"
proof (cases "m_iFormat f = FIX")
  case True
  then have r: "field_SetValueByHex cc hex v f = Inr (1, (RemoveField f)\<lparr>m_pData := Some hex, m_iDataLen := int (length hex)\<rparr>)"
    using fits by (simp add: field_SetValueByHex_def value_fits_def Let_def)
  show ?thesis using SetValueByHex_full [OF cc r] fits True r by (simp add: value_fits_def FIX_def)
next
  case False
  have lf: "length_fits f (length hex) v" using fits by (simp add: value_fits_def)
  obtain k where k: "m_iFormat f = int k" "1 \<le> k" "k \<le> 3" using format_small [OF lf False] by blast
  let ?v = "stored_len f (length hex) v"
  have "\<exists>area. length_area cc f ?v (length hex) = Inr area"
  proof (cases "m_iLenType f = NR")
    case nr: False
    with lf False k have a: "m_iLenType f = ASC" "0 \<le> ?v" "nat ?v < 10 ^ k" by (auto simp: length_fits_def nat_less_iff)
    then have "length (zpad k (nat ?v)) = k" using k(2) length_zpad by simp
    with a nr k show ?thesis by (simp add: length_area_def length_digits_def Let_def)
  qed (simp add: length_area_def)
  then obtain area where area: "length_area cc f ?v (length hex) = Inr area" by blast
  have r: "field_SetValueByHex cc hex v f = Inr (1, (RemoveField f)\<lparr>m_pData := Some (area @ hex), m_iDataLen := m_iFormat f + int (length hex)\<rparr>)"
    using fits False area k by (simp add: field_SetValueByHex_def value_fits_def stored_len_def Let_def)
  have "length area = nat (m_iFormat f)" using read_length_stored [OF cc lf False _ area] by (simp add: same_spec_def)
  then show ?thesis using SetValueByHex_full [OF cc r _ lf] fits k r by (simp add: value_fits_def)
qed

text \<open>A series of calls of \<open>SetValueByHex\<close>, all of which succeed.\<close>

fun set_all :: "ccommon \<Rightarrow> (int \<times> cstr \<times> int) list \<Rightarrow> iso_msg \<Rightarrow> iso_msg result" where
  "set_all cc [] s = Inr s"
| "set_all cc ((i, hex, v) # vs) s =
     bind_result (iso_SetValueByHex cc i hex v s) (\<lambda>(r, s). if r = 1 then set_all cc vs s else Inl Out_of_range)"

definition holds_value :: "ccommon \<Rightarrow> iso_msg \<Rightarrow> int \<Rightarrow> cstr \<Rightarrow> bool" where
  "holds_value cc s i hex \<longleftrightarrow> (\<exists>f area. iff_fields s i = Some f \<and> field_full cc f \<and> m_pData f = Some (area @ hex) \<and>
     length area = nat (m_iFormat f) \<and> 0 \<le> m_iFormat f \<and> length (area @ hex) \<le> FIELD_MAXLEN)"

lemma same_spec_trans: "same_spec f g \<Longrightarrow> same_spec g h \<Longrightarrow> same_spec f h"
  by (simp add: same_spec_def)

lemma rel_spec_refl: "rel_option same_spec x x"
  by (cases x) (simp_all add: same_spec_def)

lemma rel_spec_trans: "rel_option same_spec x y \<Longrightarrow> rel_option same_spec y z \<Longrightarrow> rel_option same_spec x z"
  by (cases x; cases y; cases z) (auto intro: same_spec_trans)

lemma iso_set_stores:
  assumes cc: "ccommon_ok cc" and b: "bits_ok (m_pMF s)" and f: "iff_fields s i = Some f" and fits: "value_fits f hex v"
    and i: "i = 0 \<or> 2 \<le> i" "i < iFieldCnt (m_pMF s)"
  shows "\<exists>s' bm. iso_SetValueByHex cc i hex v s = Inr (1, s') \<and> holds_value cc s' i hex \<and> (\<forall>k. has s' k = (has s k \<or> k = i)) \<and>
    (\<forall>k. k \<noteq> i \<longrightarrow> iff_fields s' k = iff_fields s k) \<and> (\<forall>k. rel_option same_spec (iff_fields s k) (iff_fields s' k)) \<and>
    m_pMF s' = (m_pMF s)\<lparr>cBitMap := bm\<rparr> \<and> length bm = 16"
proof -
  obtain f' area where f': "field_SetValueByHex cc hex v f = Inr (1, f')" "field_full cc f'" "same_spec f f'" "m_pData f' = Some (area @ hex)"
    "length area = nat (m_iFormat f)" "0 \<le> m_iFormat f" "length area \<le> 3" using SetValueByHex_stores [OF cc fits] by blast
  let ?s = "set_field i f' s"
  have has: "has ?s k = has s k" for k using f by (intro has_cong) (auto simp: set_field_def)
  have hold: "holds_value cc (?s\<lparr>m_pMF := mf\<rparr>) i hex" for mf
    using f' fits by (auto simp: holds_value_def set_field_def same_spec_def value_fits_def FIELD_MAXLEN_def)
  have "\<exists>bm. SetBitMap i 1 ?s = Inr (1, ?s\<lparr>m_pMF := (m_pMF ?s)\<lparr>cBitMap := bm\<rparr>\<rparr>) \<and> length bm = 16 \<and>
      (\<forall>k. has (?s\<lparr>m_pMF := (m_pMF ?s)\<lparr>cBitMap := bm\<rparr>\<rparr>) k = (has ?s k \<or> k = i))"
  proof (cases "i = 0")
    case True
    have "has ?s 0" using True by (simp add: has_def BitExist_def set_field_def)
    then show ?thesis using True b by (intro exI [of _ "cBitMap (m_pMF s)"]) (auto simp: SetBitMap_def bits_ok_def set_field_def)
  next
    case False
    then show ?thesis using i b by (intro SetBitMap_has) (auto simp: set_field_def)
  qed
  then obtain bm where bm: "SetBitMap i 1 ?s = Inr (1, ?s\<lparr>m_pMF := (m_pMF ?s)\<lparr>cBitMap := bm\<rparr>\<rparr>)" "length bm = 16"
    "\<And>k. has (?s\<lparr>m_pMF := (m_pMF ?s)\<lparr>cBitMap := bm\<rparr>\<rparr>) k = (has s k \<or> k = i)" using has by blast
  let ?t = "?s\<lparr>m_pMF := (m_pMF ?s)\<lparr>cBitMap := bm\<rparr>\<rparr>"
  have "iso_SetValueByHex cc i hex v s = Inr (1, ?t)" using f i f'(1) bm(1) by (auto simp: iso_SetValueByHex_def set_and_mark_def)
  moreover have "rel_option same_spec (iff_fields s k) (iff_fields ?t k)" for k
    using f f'(3) rel_spec_refl by (simp add: set_field_def)
  moreover have "m_pMF ?t = (m_pMF s)\<lparr>cBitMap := bm\<rparr>" "\<forall>k. k \<noteq> i \<longrightarrow> iff_fields ?t k = iff_fields s k" by (simp_all add: set_field_def)
  ultimately show ?thesis using bm(2,3) hold by blast
qed

definition values_fit :: "iso_msg \<Rightarrow> (int \<times> cstr \<times> int) list \<Rightarrow> bool" where
  "values_fit s vs \<longleftrightarrow> distinct (map fst vs) \<and>
     (\<forall>(i, hex, v)\<in>set vs. (i = 0 \<or> 2 \<le> i) \<and> i < iFieldCnt (m_pMF s) \<and> (\<exists>f. iff_fields s i = Some f \<and> value_fits f hex v))"

lemma set_all_stores:
  assumes cc: "ccommon_ok cc"
  shows "bits_ok (m_pMF s) \<Longrightarrow> values_fit s vs \<Longrightarrow>
    \<exists>s' bm. set_all cc vs s = Inr s' \<and> (\<forall>(i, hex, v)\<in>set vs. holds_value cc s' i hex) \<and> (\<forall>k. has s' k = (has s k \<or> k \<in> fst ` set vs)) \<and>
      (\<forall>k. k \<notin> fst ` set vs \<longrightarrow> iff_fields s' k = iff_fields s k) \<and> (\<forall>k. rel_option same_spec (iff_fields s k) (iff_fields s' k)) \<and>
      m_pMF s' = (m_pMF s)\<lparr>cBitMap := bm\<rparr> \<and> length bm = 16"
proof (induction vs arbitrary: s)
  case Nil
  then show ?case using rel_spec_refl by (intro exI [of _ s] exI [of _ "cBitMap (m_pMF s)"]) (simp add: bits_ok_def)
next
  case (Cons x vs)
  obtain i hex v where x: "x = (i, hex, v)" by (cases x)
  from Cons.prems(2) x obtain f where f: "i = 0 \<or> 2 \<le> i" "i < iFieldCnt (m_pMF s)" "iff_fields s i = Some f" "value_fits f hex v" "i \<notin> fst ` set vs"
    by (auto simp: values_fit_def)
  obtain s1 bm1 where s1: "iso_SetValueByHex cc i hex v s = Inr (1, s1)" "holds_value cc s1 i hex" "\<And>k. has s1 k = (has s k \<or> k = i)"
    "\<And>k. k \<noteq> i \<Longrightarrow> iff_fields s1 k = iff_fields s k" "\<And>k. rel_option same_spec (iff_fields s k) (iff_fields s1 k)"
    "m_pMF s1 = (m_pMF s)\<lparr>cBitMap := bm1\<rparr>" "length bm1 = 16" using iso_set_stores [OF cc Cons.prems(1) f(3,4,1,2)] by blast
  have b: "bits_ok (m_pMF s1)" using Cons.prems(1) s1(6,7) by (simp add: bits_ok_def)
  have vf: "values_fit s1 vs" unfolding values_fit_def
  proof (intro conjI ballI, goal_cases)
    case 1
    then show ?case using Cons.prems(2) by (simp add: values_fit_def)
  next
    case (2 y)
    obtain k h u where y: "y = (k, h, u)" by (cases y)
    moreover have "k \<noteq> i" using 2 f(5) y by force
    ultimately show ?case using 2 Cons.prems(2) s1(4) [of k] s1(6) by (force simp: values_fit_def)
  qed
  obtain s2 bm2 where s2: "set_all cc vs s1 = Inr s2" "\<forall>(i, hex, v)\<in>set vs. holds_value cc s2 i hex" "\<And>k. has s2 k = (has s1 k \<or> k \<in> fst ` set vs)"
    "\<And>k. k \<notin> fst ` set vs \<Longrightarrow> iff_fields s2 k = iff_fields s1 k" "\<And>k. rel_option same_spec (iff_fields s1 k) (iff_fields s2 k)"
    "m_pMF s2 = (m_pMF s1)\<lparr>cBitMap := bm2\<rparr>" "length bm2 = 16" using Cons.IH [OF b vf] by blast
  have "holds_value cc s2 i hex" using s1(2) s2(4) [OF f(5)] by (simp add: holds_value_def)
  moreover have "rel_option same_spec (iff_fields s k) (iff_fields s2 k)" for k by (rule rel_spec_trans [OF s1(5) s2(5)])
  moreover have "has s2 k = (has s k \<or> k \<in> fst ` set (x # vs))" for k using s1(3) s2(3) x by auto
  moreover have "iff_fields s2 k = iff_fields s k" if "k \<notin> fst ` set (x # vs)" for k using that s1(4) s2(4) x by auto
  moreover have "m_pMF s2 = (m_pMF s)\<lparr>cBitMap := bm2\<rparr>" using s1(6) s2(6) by simp
  ultimately show ?case using s1(1) s2(1,2,7) x by (intro exI [of _ s2] exI [of _ bm2]) simp
qed

section \<open>The round trip\<close>

lemma set_all_full:
  assumes b: "fmt_ok (m_pMF s)" and f1: "iff_fields s 1 = Some f1" "bitmap_field (m_pMF s) f1" and new: "\<forall>k. 2 \<le> k \<longrightarrow> \<not> has s k"
    and vs: "values_fit s vs" "0 \<in> fst ` set vs"
    and s': "\<forall>(i, hex, v)\<in>set vs. holds_value cc s' i hex" "\<And>k. has s' k = (has s k \<or> k \<in> fst ` set vs)"
      "\<And>k. k \<notin> fst ` set vs \<Longrightarrow> iff_fields s' k = iff_fields s k" "m_pMF s' = (m_pMF s)\<lparr>cBitMap := bm\<rparr>" "length bm = 16"
  shows "msg_full cc s'"
proof -
  have val: "\<exists>f. iff_fields s' k = Some f \<and> field_full cc f \<and> length (PackFieldData f) \<le> FIELD_MAXLEN" if "k \<in> fst ` set vs" for k
  proof -
    from that obtain hex v where "(k, hex, v) \<in> set vs" by force
    then obtain f area where "iff_fields s' k = Some f" "field_full cc f" "m_pData f = Some (area @ hex)" "length (area @ hex) \<le> FIELD_MAXLEN"
      using s'(1) by (fastforce simp: holds_value_def)
    then show ?thesis using full_data [of cc f] by auto
  qed
  have "1 \<notin> fst ` set vs" using vs(1) by (fastforce simp: values_fit_def)
  then have "iff_fields s' 1 = Some f1" using s'(3) f1(1) by simp
  moreover have "field_full cc f \<and> length (PackFieldData f) \<le> FIELD_MAXLEN" if "has s' k" "k \<ge> 2" "iff_fields s' k = Some f" for k f
    using that val [of k] new s'(2) [of k] by auto
  ultimately show ?thesis using val [OF vs(2)] b f1(2) s'(4,5) by (auto simp: msg_full_def fmt_ok_def bits_ok_def bitmap_field_def)
qed

text \<open>
  C5. A message of the stand-alone packer: the values that are set with \<open>SetValueByHex\<close> and packed are got with \<open>GetValueByHex\<close>
  by the one who unpacks the message, and no other field is there; TPDU and head are those of the sender. The
  values fit their fields, the message fits into 2048 bytes and into the buffer, its length into the
  length area, and both sides have the same table of fields.
\<close>

theorem packer_roundtrip:
  assumes cc: "ccommon_ok cc" and obj: "fmt_ok (m_pMF s)" "iff_fields s 1 = Some f1" "bitmap_field (m_pMF s) f1" "\<forall>k. 2 \<le> k \<longrightarrow> \<not> has s k"
    and vs: "values_fit s vs" "0 \<in> fst ` set vs" and fmt: "same_format s t"
  shows "\<exists>s'. set_all cc vs s = Inr s' \<and>
    (length_type_ok (m_pMF s) (length (body s')) \<and> iOffSet (m_pMF s) + length (body s') \<le> min iLen PACK_MAXLEN \<longrightarrow>
     (\<exists>msg s'' t'. iso_Pack cc iLen s' = Inr (1, msg, s'') \<and> iso_UnPack cc msg t = Inr (1, t') \<and>
        (\<forall>(i, hex, v)\<in>set vs. iso_GetValueByHex i 1024 t' = Inr hex) \<and>
        (\<forall>i. 2 \<le> i \<longrightarrow> i \<notin> fst ` set vs \<longrightarrow> FieldExist i t' = Inr False) \<and> GetTpdu 12 t' = GetTpdu 12 s \<and> GetMsgHead 64 t' = GetMsgHead 64 s))"
proof -
  have b: "bits_ok (m_pMF s)" using obj(1) by (simp add: fmt_ok_def)
  obtain s' bm where s': "set_all cc vs s = Inr s'" "\<forall>(i, hex, v)\<in>set vs. holds_value cc s' i hex" "\<And>k. has s' k = (has s k \<or> k \<in> fst ` set vs)"
    "\<And>k. k \<notin> fst ` set vs \<Longrightarrow> iff_fields s' k = iff_fields s k" "\<And>k. rel_option same_spec (iff_fields s k) (iff_fields s' k)"
    "m_pMF s' = (m_pMF s)\<lparr>cBitMap := bm\<rparr>" "length bm = 16" using set_all_stores [OF cc b vs(1)] by blast
  have full: "msg_full cc s'" by (rule set_all_full [OF obj vs s'(2,3,4,6,7)])
  have fmt': "same_format s' t"
  proof -
    have "rel_option same_spec (iff_fields s' k) (iff_fields t k)" for k
      using s'(5) [of k] fmt by (cases "iff_fields s k"; cases "iff_fields s' k"; cases "iff_fields t k") (auto simp: same_format_def same_spec_def dest!: spec [of _ k])
    then show ?thesis using fmt s'(6) by (simp add: same_format_def)
  qed
  have "\<exists>msg s'' t'. iso_Pack cc iLen s' = Inr (1, msg, s'') \<and> iso_UnPack cc msg t = Inr (1, t') \<and>
        (\<forall>(i, hex, v)\<in>set vs. iso_GetValueByHex i 1024 t' = Inr hex) \<and>
        (\<forall>i. 2 \<le> i \<longrightarrow> i \<notin> fst ` set vs \<longrightarrow> FieldExist i t' = Inr False) \<and> GetTpdu 12 t' = GetTpdu 12 s \<and> GetMsgHead 64 t' = GetMsgHead 64 s"
    if fits: "length_type_ok (m_pMF s) (length (body s'))" "iOffSet (m_pMF s) + length (body s') \<le> min iLen PACK_MAXLEN"
  proof -
    have mf: "m_pMF s' = (m_pMF s)\<lparr>cBitMap := bm\<rparr>" by (rule s'(6))
    have lt: "length_type_ok (m_pMF s') (length (body s'))" using fits(1) mf by (simp add: length_type_ok_def)
    obtain l s'' where p: "iso_Pack cc iLen s' = Inr (1, l @ body s', s'')" "length l = iOffSet (m_pMF s')"
      using Pack_ok [OF cc full lt, of iLen] fits(2) mf by auto
    have sz: "iOffSet (m_pMF s') + length (body s') \<le> PACK_MAXLEN" using fits(2) mf by simp
    obtain t' where t: "iso_UnPack cc (l @ body s') t = Inr (1, t')"
      "take (iTpduLen (m_pMF s')) (cTpdu (m_pMF t')) = take (iTpduLen (m_pMF s')) (cTpdu (m_pMF s'))"
      "take (iHeadLen (m_pMF s')) (cHead (m_pMF t')) = take (iHeadLen (m_pMF s')) (cHead (m_pMF s'))"
      "\<And>k. has t' k = has s' k" "fmt_ok (m_pMF t')" "iTpduLen (m_pMF t') = iTpduLen (m_pMF s')" "iHeadLen (m_pMF t') = iHeadLen (m_pMF s')"
      "\<And>k f. has s' k \<Longrightarrow> k \<noteq> 1 \<Longrightarrow> k \<ge> 0 \<Longrightarrow> iff_fields s' k = Some f \<Longrightarrow>
        \<exists>g. iff_fields t' k = Some g \<and> m_pData g = m_pData f \<and> m_iDataLen g = m_iDataLen f \<and> same_spec f g"
      using UnPack_ok [OF full fmt' p(2) sz] by blast
    have bt: "bits_ok (m_pMF t')" using t(5) by (simp add: fmt_ok_def)
    have "iso_GetValueByHex i 1024 t' = Inr hex" if m: "(i, hex, v) \<in> set vs" for i hex v
    proof -
      have "i = 0 \<or> 2 \<le> i" using m vs(1) by (fastforce simp: values_fit_def)
      moreover have "i \<in> fst ` set vs" using m by (rule image_eqI [rotated]) simp
      ultimately have i: "i = 0 \<or> 2 \<le> i" "has s' i" unfolding s'(3) by simp_all
      from s'(2) m obtain f area where f: "iff_fields s' i = Some f" "field_full cc f" "m_pData f = Some (area @ hex)" "length area = nat (m_iFormat f)"
        "0 \<le> m_iFormat f" "length (area @ hex) \<le> FIELD_MAXLEN" by (fastforce simp: holds_value_def)
      then have "m_iDataLen f = int (length (area @ hex))" by (auto simp: field_full_def)
      moreover have "i \<noteq> 1" "0 \<le> i" using i(1) by auto
      ultimately obtain g where "iff_fields t' i = Some g" "m_pData g = Some (area @ hex)" "m_iFormat g = m_iFormat f"
        "m_iDataLen g = int (length (area @ hex))" using t(8) [OF i(2) _ _ f(1)] f(3) unfolding same_spec_def by metis
      then show ?thesis using f(4-6) i(2) t(4) by (simp add: iso_GetValueByHex_def BitExist_total [OF bt] field_GetValueByHex_def FIELD_MAXLEN_def)
    qed
    moreover have "FieldExist i t' = Inr False" if "2 \<le> i" "i \<notin> fst ` set vs" for i
      using that t(4) s'(3) obj(4) by (simp add: FieldExist_def BitExist_total [OF bt])
    moreover have "GetTpdu 12 t' = GetTpdu 12 s" "GetMsgHead 64 t' = GetMsgHead 64 s"
      using t(2,3,6,7) mf by (simp_all add: GetTpdu_def GetMsgHead_def)
    ultimately show ?thesis using p(1) t(1) by blast
  qed
  with s'(1) show ?thesis by blast
qed

section \<open>A message\<close>

fun bcd_of :: "nat \<Rightarrow> nat \<Rightarrow> cstr" where
  "bcd_of 0 v = []"
| "bcd_of (Suc n) v = bcd_of n (v div 100) @ [of_nat (v mod 100 div 10 * 16 + v mod 10)]"

definition bcd_value :: "cstr \<Rightarrow> nat" where
  "bcd_value = foldl (\<lambda>acc b. acc * 100 + unat b div 16 * 10 + unat b mod 16) 0"

fun digit_pairs :: "cstr \<Rightarrow> cstr" where
  "digit_pairs (a # b # r) = ((a - 48) * 16 + (b - 48)) # digit_pairs r"
| "digit_pairs [a] = [(a - 48) * 16]"
| "digit_pairs [] = []"

definition bcd_common :: ccommon where
  "bcd_common = \<lparr>Bcd2Int = (\<lambda>d n t m. int (bcd_value d)), Int2Bcd = (\<lambda>v n t. bcd_of (nat n) (nat v)),
     Asc2Bcd = (\<lambda>s n t. digit_pairs (if t = NR \<and> odd (length s) then 48 # s else s)),
     Hex2Str = (\<lambda>d. concat (map (\<lambda>b. [48 + b div 16, 48 + b mod 16]) d) @ [0]), MemxCpy = (\<lambda>xs n. rev (take (nat n) xs))\<rparr>"

lemma length_bcd_of: "length (bcd_of n v) = n"
  by (induction n arbitrary: v) simp_all

lemma bcd_value_snoc: "bcd_value (xs @ [b]) = bcd_value xs * 100 + unat b div 16 * 10 + unat b mod 16"
  by (simp add: bcd_value_def)

lemma bcd_value_of: "v < 100 ^ n \<Longrightarrow> bcd_value (bcd_of n v) = v"
proof (induction n arbitrary: v)
  case (Suc n)
  let ?t = "v mod 100 div 10" and ?u = "v mod 10"
  have b: "?t * 16 + ?u < 256" by simp
  then have u: "unat (of_nat (?t * 16 + ?u) :: byte) = ?t * 16 + ?u" by (simp only: unat_of_nat) simp
  have "v div 100 < 100 ^ n" using Suc.prems by (simp add: less_mult_imp_div_less mult.commute)
  then have "bcd_value (bcd_of (Suc n) v) = v div 100 * 100 + (?t * 16 + ?u) div 16 * 10 + (?t * 16 + ?u) mod 16"
    unfolding bcd_of.simps bcd_value_snoc u using Suc.IH [of "v div 100"] by (simp only:)
  also have "\<dots> = v div 100 * 100 + (?t * 10 + ?u)" by simp
  also have "?t * 10 + ?u = v mod 100" using div_mult_mod_eq [of "v mod 100" 10] by (simp add: mod_mod_cancel)
  finally show ?case by simp
qed (simp add: bcd_value_def)

lemma bcd_common_ok: "ccommon_ok bcd_common"
  by (auto simp: ccommon_ok_def bcd_common_def length_bcd_of bcd_value_of nat_less_iff nat_power_eq)

definition a_table :: "int \<Rightarrow> iso_field option" where
  "a_table i = (if i = 0 then Some (CIso8583Field 0 FIX 4 NL NR) else if i = 1 then Some (CIso8583Field 1 FIX 8 BIN NR)
     else if i = 2 then Some (CIso8583Field 2 1 19 NL NR) else if i = 4 then Some (CIso8583Field 4 2 20 ASC ASC) else None)"

definition an_object :: iso_msg where
  "an_object = \<lparr>m_pMF = \<lparr>iFieldCnt = 6, iOffSet = 2, iLenType = HEXF, iHeadLen = 2, iTpduLen = 5, iBitMapLen = 8,
     cHead = replicate 64 7, cTpdu = replicate 12 9, cBitMap = replicate 16 0\<rparr>, iff_fields = a_table, m_cMsgBuffer = []\<rparr>"

definition some_values :: "(int \<times> cstr \<times> int) list" where
  "some_values = [(0, [2, 0], 0), (2, replicate 10 0x42, 19), (4, bytes ''abc'', 0)]"

lemma values_ok: "values_fit an_object some_values" "0 \<in> fst ` set some_values" "same_format an_object an_object" "fmt_ok (m_pMF an_object)"
  "bitmap_field (m_pMF an_object) (CIso8583Field 1 FIX 8 BIN NR)" "iff_fields an_object 1 = Some (CIso8583Field 1 FIX 8 BIN NR)"
  by (auto simp: values_fit_def some_values_def an_object_def a_table_def CIso8583Field_def value_fits_def hex_fits_def length_fits_def stored_len_def
      data_len_def half_def iso_types same_format_def fmt_ok_def bits_ok_def bitmap_field_def rel_spec_refl)

lemma an_object_new: "2 \<le> k \<Longrightarrow> \<not> has an_object k"
  by (auto simp: has_def BitExist_def an_object_def bit_byte_def split: if_splits)

lemma some_values_set:
  "set_all bcd_common some_values an_object = Inr (an_object\<lparr>
     m_pMF := (m_pMF an_object)\<lparr>cBitMap := (replicate 16 0)[0 := 0x50]\<rparr>,
     iff_fields := a_table(0 \<mapsto> (CIso8583Field 0 FIX 4 NL NR)\<lparr>m_pData := Some [2, 0], m_iDataLen := 2\<rparr>,
       2 \<mapsto> (CIso8583Field 2 1 19 NL NR)\<lparr>m_pData := Some (0x19 # replicate 10 0x42), m_iDataLen := 11\<rparr>,
       4 \<mapsto> (CIso8583Field 4 2 20 ASC ASC)\<lparr>m_pData := Some (bytes ''03abc''), m_iDataLen := 5\<rparr>)\<rparr>)"
  by (simp add: some_values_def iso_SetValueByHex_def set_and_mark_def an_object_def a_table_def field_SetValueByHex_def hex_fits_def CIso8583Field_def
      iso_types half_def length_area_def bcd_common_def length_digits_def zpad_def dec_digits.simps RemoveField_def set_field_def SetBitMap_def bit_byte_def
      bit_shift_def Let_def)

lemma field_bytes_4: "field_bytes s 2 4 = concat (map (\<lambda>i. if has s i then PackFieldData (the (iff_fields s i)) else []) [2, 3, 4, 5])"
proof -
  have "(4 :: nat) = Suc (Suc (Suc (Suc 0)))" by simp
  then show ?thesis by (simp only: field_bytes.simps) simp
qed

lemma some_values_size:
  assumes "set_all bcd_common some_values an_object = Inr s'"
  shows "length (body s') = 33"
  using assms unfolding some_values_set
  by (auto simp: body_def an_object_def PackFieldData_def CIso8583Field_def has_def BitExist_def a_table_def bit_byte_def bit_shift_def field_bytes_4)

theorem packer_roundtrip_witness:
  "\<exists>s' msg s'' t'. set_all bcd_common some_values an_object = Inr s' \<and> iso_Pack bcd_common 100 s' = Inr (1, msg, s'') \<and>
     iso_UnPack bcd_common msg an_object = Inr (1, t') \<and> iso_GetValueByHex 2 1024 t' = Inr (replicate 10 0x42) \<and>
     iso_GetValueByHex 4 1024 t' = Inr (bytes ''abc'') \<and> FieldExist 3 t' = Inr False"
proof -
  have "\<forall>k. 2 \<le> k \<longrightarrow> \<not> has an_object k" using an_object_new by blast
  from packer_roundtrip [OF bcd_common_ok values_ok(4,6,5) this values_ok(1-3), of 100] obtain s' where s': "set_all bcd_common some_values an_object = Inr s'"
    "length_type_ok (m_pMF an_object) (length (body s')) \<and> iOffSet (m_pMF an_object) + length (body s') \<le> min 100 PACK_MAXLEN \<Longrightarrow>
     \<exists>msg s'' t'. iso_Pack bcd_common 100 s' = Inr (1, msg, s'') \<and> iso_UnPack bcd_common msg an_object = Inr (1, t') \<and>
        (\<forall>(i, hex, v)\<in>set some_values. iso_GetValueByHex i 1024 t' = Inr hex) \<and>
        (\<forall>i. 2 \<le> i \<longrightarrow> i \<notin> fst ` set some_values \<longrightarrow> FieldExist i t' = Inr False)" by blast
  have "length_type_ok (m_pMF an_object) (length (body s')) \<and> iOffSet (m_pMF an_object) + length (body s') \<le> min 100 PACK_MAXLEN"
    using some_values_size [OF s'(1)] by (simp add: length_type_ok_def an_object_def PACK_MAXLEN_def)
  from s'(2) [OF this] s'(1) show ?thesis by (force simp: some_values_def)
qed

section \<open>What goes wrong\<close>

lemma bcd_of_4: "bcd_of 2 4 = [0, 4]"
  by (simp add: numeral_2_eq_2)

text \<open>
  The length of a binary field of variable length that is set with \<open>SetValueByStr\<close> is the number of its hexadecimal digits; \<open>UnPack\<close> takes it
  for the number of bytes. The receiver of four digits (two bytes) looks for four bytes.
\<close>

theorem packer_binary_string:
  "\<exists>f. field_SetValueByStr bcd_common (bytes ''1234'') (CIso8583Field 55 2 255 BIN NR) = Inr (1, f) \<and> PackFieldData f = [0, 4, 0x12, 0x34] \<and>
     UnPackFieldData bcd_common (PackFieldData f) (CIso8583Field 55 2 255 BIN NR) = Inr (0, CIso8583Field 55 2 255 BIN NR)"
  by (simp add: field_SetValueByStr_def fill_up_def CIso8583Field_def iso_types FIELD_MAXLEN_def bcd_common_def field_SetValueByHex_def hex_fits_def
      length_area_def RemoveField_def PackFieldData_def UnPackFieldData_def read_length_def data_len_def bcd_value_def bcd_of_4 Let_def)

text \<open>A length of \<open>-8\<close> in characters lets \<open>memcpy\<close> copy a negative number of bytes.\<close>

theorem packer_negative_length:
  "UnPackFieldData cc (bytes ''-8abc'') (CIso8583Field 44 2 25 ASC ASC) = Inl Undefined_behaviour"
  by (simp add: UnPackFieldData_def read_length_def CIso8583Field_def iso_types data_len_def atoi_def strtol10_def is_space_def clamp_long_def is_digit_def)

text \<open>A message that ends inside of the length of a field is read behind its end.\<close>

theorem packer_cut_length: "UnPackFieldData cc [0] (CIso8583Field 2 2 19 NL NR) = Inl Undefined_behaviour"
  by (simp add: UnPackFieldData_def read_length_def CIso8583Field_def iso_types)

text \<open>\<open>UnPack\<close> does not compare the length with the maximum of the field. Packing such a field again overwrites the array of 1024 bytes.\<close>

theorem packer_overlong_field:
  assumes "ccommon_ok cc"
  shows "\<exists>f. UnPackFieldData cc (Int2Bcd cc 1100 2 NR @ replicate 1100 0) (CIso8583Field 55 2 255 BIN NR) = Inr (1102, f) \<and>
    FIELD_MAXLEN < length (PackFieldData f)"
proof -
  have "length (Int2Bcd cc 1100 (int 2) NR) = 2" using assms unfolding ccommon_ok_def by blast
  moreover have "Bcd2Int cc (Int2Bcd cc 1100 (int 2) NR) (int 2 * 2) NR None = 1100"
    using assms by (simp add: ccommon_ok_def del: of_nat_numeral)
  ultimately show ?thesis
    by (simp add: UnPackFieldData_def read_length_def CIso8583Field_def data_len_def iso_types PackFieldData_def FIELD_MAXLEN_def)
qed

end
