(* ===== verification/Zmq_Driver.thy ===== *)
theory Zmq_Driver
  imports Prelude "HOL-Library.Monad_Syntax"
begin

text \<open>
  \<open>ZMQDriver\<close> (\<open>source/message/zmq_driver.cpp\<close>): a message driver over ZeroMQ. Other threads hand what they send to the polling
  thread through a \<open>PUSH\<close>/\<open>PULL\<close> pair inside the process; the polling thread forwards it to the \<open>ROUTER\<close> (server) or
  \<open>DEALER\<close> (client) socket and calls back for what it receives. The functions of ZeroMQ are the record \<open>zmq\<close>; a socket
  is a number; a frame is received with the flag whether more frames of its message follow. Loops that
  end with the last frame of a message are partial functions on options. The texts of the errors are
  left out; an error returns -1.
\<close>

record 'w zmq =
  zmq_init :: "'w \<Rightarrow> nat \<times> 'w"
  zmq_socket :: "nat \<Rightarrow> string \<Rightarrow> 'w \<Rightarrow> nat \<times> 'w"
  zmq_setsockopt :: "nat \<Rightarrow> string \<Rightarrow> int \<Rightarrow> 'w \<Rightarrow> 'w"
  zmq_bind :: "nat \<Rightarrow> cstr \<Rightarrow> 'w \<Rightarrow> int \<times> 'w"
  zmq_connect :: "nat \<Rightarrow> cstr \<Rightarrow> 'w \<Rightarrow> int \<times> 'w"
  zmq_close :: "nat \<Rightarrow> 'w \<Rightarrow> int \<times> 'w"
  zmq_send :: "nat \<Rightarrow> cstr \<Rightarrow> bool \<Rightarrow> 'w \<Rightarrow> bool \<times> 'w"
  zmq_msg_recv :: "nat \<Rightarrow> 'w \<Rightarrow> (cstr \<times> bool) option \<times> 'w"
  zmq_poll :: "nat list \<Rightarrow> 'w \<Rightarrow> int \<times> bool list \<times> 'w"

text \<open>The address of a reply; \<open>None\<close> on the client side. \<open>zd_on_message\<close> says whether a callback is set.\<close>

type_synonym peer = cstr

record zmq_driver =
  zd_isServer :: bool
  zd_url :: cstr
  zd_ctx :: nat
  zd_socket :: "nat option"
  zd_pull_socket :: "nat option"
  zd_poll_items :: "nat list"
  zd_handle :: int
  zd_listening :: bool
  zd_on_message :: bool

datatype delivery = Delivery int cstr "peer option"

section \<open>Start\<close>

definition ZMQDriver_new :: "cstr \<Rightarrow> zmq_driver result" where
  "ZMQDriver_new url =
     bind_result (substr_from url 6) (\<lambda>u. Inr \<lparr>zd_isServer = False, zd_url = u, zd_ctx = 0, zd_socket = None, zd_pull_socket = None,
       zd_poll_items = [], zd_handle = 0, zd_listening = False, zd_on_message = False\<rparr>)"

datatype driver_type = MESSAGE_CLIENT | MESSAGE_SERVER

definition zmq_Init :: "'w zmq \<Rightarrow> driver_type \<Rightarrow> zmq_driver \<Rightarrow> 'w \<Rightarrow> int \<times> zmq_driver \<times> 'w" where
  "zmq_Init z ty d w = (case zmq_init z w of (c, w) \<Rightarrow> (0, d\<lparr>zd_isServer := (ty = MESSAGE_SERVER), zd_ctx := c\<rparr>, w))"

definition SetOnMessage :: "zmq_driver \<Rightarrow> zmq_driver" where
  "SetOnMessage d = d\<lparr>zd_on_message := True\<rparr>"

text \<open>The port behind the first colon, or \<open>None\<close> if the url or the port is invalid; \<open>lo\<close> is the smallest port.\<close>

definition url_port :: "int \<Rightarrow> cstr \<Rightarrow> int option" where
  "url_port lo url =
     (case str_find url [58] 0 of
        None \<Rightarrow> None
      | Some spos \<Rightarrow>
          if spos = 0 then None
          else let iport = atoi (takeWhile (\<lambda>c. c \<noteq> 0) (drop (spos + 1) url)) in if iport < lo \<or> iport > 65535 then None else Some iport)"

definition high_water :: "'w zmq \<Rightarrow> nat \<Rightarrow> 'w \<Rightarrow> 'w" where
  "high_water z s w = zmq_setsockopt z s ''ZMQ_RCVHWM'' 10000 (zmq_setsockopt z s ''ZMQ_SNDHWM'' 10000 w)"

definition zmq_Bind :: "'w zmq \<Rightarrow> int \<Rightarrow> zmq_driver \<Rightarrow> 'w \<Rightarrow> int \<times> zmq_driver \<times> 'w" where
  "zmq_Bind z handle d w =
     (case url_port 0 (zd_url d) of
        None \<Rightarrow> (- 1, d, w)
      | Some p \<Rightarrow>
          (case zmq_socket z (zd_ctx d) ''ZMQ_ROUTER'' w of
             (s, w) \<Rightarrow>
               let d = d\<lparr>zd_handle := handle, zd_socket := Some s\<rparr> in
               (case zmq_bind z s (bytes ''tcp://'' @ zd_url d) (high_water z s w) of
                  (rc, w) \<Rightarrow>
                    if rc \<noteq> 0 then (- 1, d, snd (zmq_close z s w))
                    else (0, d\<lparr>zd_poll_items := zd_poll_items d @ [s]\<rparr>, w))))"

definition zmq_Connect :: "'w zmq \<Rightarrow> int \<Rightarrow> zmq_driver \<Rightarrow> 'w \<Rightarrow> int \<times> zmq_driver \<times> 'w" where
  "zmq_Connect z handle d w =
     (case url_port 1 (zd_url d) of
        None \<Rightarrow> (- 1, d, w)
      | Some p \<Rightarrow>
          (case zmq_socket z (zd_ctx d) ''ZMQ_DEALER'' w of
             (s, w) \<Rightarrow>
               let d = d\<lparr>zd_handle := handle, zd_socket := Some s\<rparr> in
               (case zmq_connect z s (bytes ''tcp://'' @ zd_url d) (high_water z s w) of
                  (rc, w) \<Rightarrow>
                    if rc \<noteq> 0 then (- 1, d, snd (zmq_close z s w))
                    else (0, d\<lparr>zd_poll_items := zd_poll_items d @ [s]\<rparr>, w))))"

definition inproc :: cstr where "inproc = bytes ''inproc://a''"

definition BindPull :: "'w zmq \<Rightarrow> zmq_driver \<Rightarrow> 'w \<Rightarrow> int \<times> zmq_driver \<times> 'w" where
  "BindPull z d w =
     (case zmq_socket z (zd_ctx d) ''ZMQ_PULL'' w of
        (s, w) \<Rightarrow>
          let d = d\<lparr>zd_pull_socket := Some s\<rparr> in
          (case zmq_bind z s inproc (high_water z s w) of
             (rc, w) \<Rightarrow>
               if rc \<noteq> 0 then (rc, d, snd (zmq_close z s w))
               else (0, d\<lparr>zd_poll_items := zd_poll_items d @ [s]\<rparr>, w)))"

definition zmq_Run :: "'w zmq \<Rightarrow> int \<Rightarrow> zmq_driver \<Rightarrow> 'w \<Rightarrow> int \<times> zmq_driver \<times> 'w" where
  "zmq_Run z handle d w =
     (case (if zd_isServer d then zmq_Bind z handle d w else zmq_Connect z handle d w) of
        (rc, d, w) \<Rightarrow>
          if rc < 0 then (rc, d, w)
          else (case BindPull z d w of (rc, d, w) \<Rightarrow> if rc < 0 then (rc, d, w) else (0, d\<lparr>zd_listening := True\<rparr>, w)))"

definition zmq_Close :: "'w zmq \<Rightarrow> zmq_driver \<Rightarrow> 'w \<Rightarrow> int \<times> zmq_driver \<times> 'w" where
  "zmq_Close z d w =
     (case zd_socket d of
        None \<Rightarrow> (- 1, d, w)
      | Some s \<Rightarrow> (case zmq_close z s w of (rc, w) \<Rightarrow> (if rc \<noteq> 0 then - 1 else 0, d\<lparr>zd_poll_items := remove1 s (zd_poll_items d)\<rparr>, w)))"

section \<open>Sending\<close>

text \<open>Both parts of a message, through a new socket into the process.\<close>

definition push_two :: "'w zmq \<Rightarrow> zmq_driver \<Rightarrow> cstr \<Rightarrow> cstr \<Rightarrow> 'w \<Rightarrow> int \<times> 'w" where
  "push_two z d first msg w =
     (case zmq_socket z (zd_ctx d) ''ZMQ_PUSH'' w of
        (push, w) \<Rightarrow>
          (case zmq_connect z push inproc w of
             (rc, w) \<Rightarrow>
               if rc \<noteq> 0 then (- 1, snd (zmq_close z push w))
               else case zmq_send z push first True w of
                      (ok, w) \<Rightarrow>
                        if \<not> ok then (- 1, snd (zmq_close z push w))
                        else case zmq_send z push msg False w of
                               (ok, w) \<Rightarrow> (if ok then 0 else - 1, snd (zmq_close z push w))))"

definition tcpSend :: "'w zmq \<Rightarrow> cstr \<Rightarrow> zmq_driver \<Rightarrow> 'w \<Rightarrow> int \<times> 'w" where
  "tcpSend z msg d w = push_two z d [] msg w"

definition tcpSendTo :: "'w zmq \<Rightarrow> cstr \<Rightarrow> peer option \<Rightarrow> zmq_driver \<Rightarrow> 'w \<Rightarrow> (int \<times> 'w) result" where
  "tcpSendTo z msg reply_addr d w =
     (if \<not> zd_isServer d then Inr (tcpSend z msg d w)
      else case reply_addr of
             None \<Rightarrow> Inl Undefined_behaviour
           | Some peer_id \<Rightarrow> if length peer_id > 6 then Inr (- 1, w) else Inr (push_two z d peer_id msg w))"

section \<open>The polling thread\<close>

text \<open>The inner loop of \<open>OnForward\<close>: the last frame of the message, or \<open>None\<close> after an error.\<close>

partial_function (option) forward_rest :: "'w zmq \<Rightarrow> nat \<Rightarrow> nat \<Rightarrow> 'w \<Rightarrow> (cstr option \<times> 'w) option" where
  "forward_rest z src dst w =
     (case zmq_msg_recv z src w of
        (None, w) \<Rightarrow> Some (None, w)
      | (Some (f, m), w) \<Rightarrow>
          if \<not> m then Some (Some f, w)
          else case zmq_send z dst f True w of (ok, w) \<Rightarrow> if ok then forward_rest z src dst w else Some (None, w))"

text \<open>At most \<open>n\<close> messages.\<close>

fun forward_loop :: "'w zmq \<Rightarrow> nat \<Rightarrow> nat \<Rightarrow> nat \<Rightarrow> 'w \<Rightarrow> (int \<times> 'w) option" where
  "forward_loop z src dst 0 w = Some (0, w)"
| "forward_loop z src dst (Suc n) w =
     (case zmq_msg_recv z src w of
        (None, w) \<Rightarrow> Some (- 1, w)
      | (Some (f, m), w) \<Rightarrow>
          Option.bind
            (if m then (case zmq_send z dst f True w of (ok, w) \<Rightarrow> if ok then forward_rest z src dst w else Some (None, w)) else Some (Some f, w))
            (\<lambda>(last, w).
               case last of
                 None \<Rightarrow> Some (- 1, w)
               | Some f \<Rightarrow> (case zmq_send z dst f False w of (ok, w) \<Rightarrow> if ok then forward_loop z src dst n w else Some (- 1, w))))"

definition OnForward :: "'w zmq \<Rightarrow> zmq_driver \<Rightarrow> 'w \<Rightarrow> (int \<times> 'w) option" where
  "OnForward z d w = forward_loop z (the (zd_pull_socket d)) (the (zd_socket d)) 100 w"

text \<open>The last frame of the message that is being received, or \<open>None\<close>.\<close>

partial_function (option) last_frame :: "'w zmq \<Rightarrow> nat \<Rightarrow> 'w \<Rightarrow> (cstr option \<times> 'w) option" where
  "last_frame z s w =
     (case zmq_msg_recv z s w of
        (None, w) \<Rightarrow> Some (None, w)
      | (Some (f, m), w) \<Rightarrow> if m then last_frame z s w else Some (Some f, w))"

definition OnServerMessage :: "'w zmq \<Rightarrow> cstr \<Rightarrow> zmq_driver \<Rightarrow> 'w \<Rightarrow> (int \<times> delivery list \<times> 'w) option" where
  "OnServerMessage z message d w =
     Option.bind (last_frame z (the (zd_socket d)) w) (\<lambda>(m, w).
       if length message > 6 then Some (if m = None then - 1 else 0, [], w)
       else Some (0, case m of None \<Rightarrow> [] | Some m \<Rightarrow> if zd_on_message d then [Delivery (zd_handle d) m (Some message)] else [], w))"

text \<open>
  What \<open>Poll\<close> does with one socket. The count goes on over all sockets and rounds and is never set back: from \<open>max_event\<close> on, one
  message is taken each time.
\<close>

partial_function (option) receive_loop :: "'w zmq \<Rightarrow> zmq_driver \<Rightarrow> nat \<Rightarrow> int \<Rightarrow> int \<Rightarrow> 'w \<Rightarrow> (delivery list \<times> int \<times> 'w) option" where
  "receive_loop z d s max_event n w =
     (case zmq_msg_recv z s w of
        (None, w) \<Rightarrow> Some ([], n, w)
      | (Some (f, m), w) \<Rightarrow>
          Option.bind
            (if m then OnServerMessage z f d w
             else Some (0, if zd_on_message d then [Delivery (zd_handle d) f None] else [], w)) (\<lambda>(rc, ds, w).
            if rc < 0 then Some (ds, n, w)
            else if max_event \<le> n + 1 then Some (ds, n + 1, w)
            else Option.bind (receive_loop z d s max_event (n + 1) w) (\<lambda>(ds', n, w). Some (ds @ ds', n, w))))"

fun poll_items :: "'w zmq \<Rightarrow> zmq_driver \<Rightarrow> int \<Rightarrow> (nat \<times> bool) list \<Rightarrow> int \<Rightarrow> 'w \<Rightarrow> (delivery list \<times> int \<times> 'w) option" where
  "poll_items z d max_event [] n w = Some ([], n, w)"
| "poll_items z d max_event ((s, revents) # items) n w =
     (if \<not> revents then poll_items z d max_event items n w
      else Option.bind
        (if zd_pull_socket d = Some s then Option.bind (OnForward z d w) (\<lambda>(rc, w). Some ([], n, w)) else receive_loop z d s max_event n w)
        (\<lambda>(ds, n, w). Option.bind (poll_items z d max_event items n w) (\<lambda>(ds', n, w). Some (ds @ ds', n, w))))"

text \<open>A round of the endless loop of \<open>Poll\<close>.\<close>

definition Poll_round :: "'w zmq \<Rightarrow> zmq_driver \<Rightarrow> int \<Rightarrow> int \<Rightarrow> 'w \<Rightarrow> (delivery list \<times> int \<times> 'w) option" where
  "Poll_round z d max_event n w =
     (case zmq_poll z (zd_poll_items d) w of
        (rc, revents, w) \<Rightarrow> if rc \<le> 0 then Some ([], n, w) else poll_items z d max_event (zip (zd_poll_items d) revents) n w)"

end
