(* ===== verification/Zmq_Props.thy ===== *)
theory Zmq_Props
  imports Zmq_Driver "HOL-Library.Multiset"
begin

text \<open>
  A server on the ZeroMQ driver: requests are delivered with the identity of their sender, and the answers go to it. What is relied on
  of ZeroMQ is \<open>zmq_ok\<close>: messages are received whole, those of one peer in order and those of several peers in any order
  (fair queueing); sends to a \<open>PUSH\<close> socket may fail; messages may arrive at any time, also in the middle of a round.
\<close>

section \<open>ZeroMQ\<close>

text \<open>
  The receiving side of a socket: the frames that are left of the message being received, the messages that wait, and as
  history the messages that have come so far and those that have been handed out, in their order.
\<close>

record inbox =
  ib_part :: "(cstr \<times> bool) list"
  ib_msgs :: "cstr list list"
  ib_came :: "cstr list list"
  ib_taken :: "cstr list list"

text \<open>The router, the pulling socket inside the process, the frames given to the router, and the parts pushed of unfinished messages.\<close>

record zmq_abs =
  za_r :: inbox
  za_p :: inbox
  za_out :: "(cstr \<times> bool) list"
  za_pend :: "nat \<Rightarrow> cstr list"

definition frames_of :: "cstr list \<Rightarrow> (cstr \<times> bool) list" where
  "frames_of fs = map (\<lambda>f. (f, True)) (butlast fs) @ [(last fs, False)]"


definition came_in :: "cstr list list \<Rightarrow> inbox \<Rightarrow> inbox" where
  "came_in ms b = b\<lparr>ib_msgs := ib_msgs b @ ms, ib_came := ib_came b @ ms\<rparr>"

text \<open>What happens beside a call: messages come in from the network and from other threads, of two frames or more.\<close>

definition grown :: "zmq_abs \<Rightarrow> zmq_abs \<Rightarrow> bool" where
  "grown a b \<longleftrightarrow> (\<exists>rs ps. (\<forall>m\<in>set (rs @ ps). 2 \<le> length m) \<and> b = a\<lparr>za_r := came_in rs (za_r a), za_p := came_in ps (za_p a)\<rparr>)"







lemma frames_of_single [simp]: "frames_of [f] = [(f, False)]"
  by (simp add: frames_of_def)


section \<open>Nothing is lost\<close>

text \<open>
  Of the messages that have come to a socket, each has been handed out or waits, and with \<open>ordered\<close> those of one peer are
  handed out in the order in which they came.
\<close>

definition inbox_ok :: "bool \<Rightarrow> inbox \<Rightarrow> bool" where
  "inbox_ok ordered b \<longleftrightarrow>
     (\<forall>m\<in>set (ib_msgs b). 2 \<le> length m) \<and> mset (ib_taken b) + mset (ib_msgs b) = mset (ib_came b) \<and>
     (ordered \<longrightarrow> (\<forall>i. filter (\<lambda>m. hd m = i) (ib_taken b) @ filter (\<lambda>m. hd m = i) (ib_msgs b) = filter (\<lambda>m. hd m = i) (ib_came b)))"




text \<open>
  The state of the sockets: what is left of the messages being received (\<open>R\<close>, \<open>P\<close>), the messages handed out (\<open>T\<close>, \<open>M\<close>),
  the frames given to the router, messages known to have been pushed (\<open>C\<close>), and whether messages are known to wait.
\<close>

definition zinv ::
  "bool \<Rightarrow> bool \<Rightarrow> (cstr \<times> bool) list \<Rightarrow> (cstr \<times> bool) list \<Rightarrow> cstr list list \<Rightarrow> cstr list list \<Rightarrow> (cstr \<times> bool) list \<Rightarrow>
     cstr list multiset \<Rightarrow> zmq_abs \<Rightarrow> bool" where
  "zinv nr np R P T M Out C a \<longleftrightarrow>
     inbox_ok True (za_r a) \<and> inbox_ok False (za_p a) \<and> ib_part (za_r a) = R \<and> ib_part (za_p a) = P \<and>
     ib_taken (za_r a) = T \<and> ib_taken (za_p a) = M \<and> za_out a = Out \<and> C \<subseteq># mset (ib_came (za_p a)) \<and>
     (nr \<longrightarrow> ib_msgs (za_r a) \<noteq> []) \<and> (np \<longrightarrow> ib_msgs (za_p a) \<noteq> [])"








section \<open>The polling thread\<close>








section \<open>Sending\<close>


lemma zinv_pend [simp]: "zinv nr np R P T M Out C (a\<lparr>za_pend := x\<rparr>) \<longleftrightarrow> zinv nr np R P T M Out C a"
  by (simp add: zinv_def)


section \<open>Requests and answers\<close>

text \<open>What the polling thread works on once a server has been started; \<open>zmq_bind\<close> returns 0 or -1.\<close>

lemma zmq_run_server:
  assumes "zmq_Init z MESSAGE_SERVER d w = (0, d1, w1)" "zd_poll_items d = []" "zmq_Run z h (SetOnMessage d1) w1 = (0, d2, w2)"
    and rc: "\<And>s u w. fst (zmq_bind z s u w) \<le> 0"
  shows "\<exists>r p. zd_isServer d2 \<and> zd_on_message d2 \<and> zd_socket d2 = Some r \<and> zd_pull_socket d2 = Some p \<and> zd_poll_items d2 = [r, p] \<and> zd_handle d2 = h"
proof -
  have r: "r \<le> 0" if "zmq_bind z s u w = (r, w')" for s u w r w' using rc [of s u w] that by simp
  show ?thesis using assms(1-3)
    by (auto simp: zmq_Init_def SetOnMessage_def zmq_Run_def zmq_Bind_def BindPull_def Let_def dest!: r split: prod.splits option.splits if_splits)
qed







section \<open>An instance\<close>






lemma grown_refl [simp]: "grown a a"
  unfolding grown_def by (rule exI [of _ "[]"], rule exI [of _ "[]"]) (simp add: came_in_def)






end
