(* ===== verification/Ev_Buffer_Search.thy ===== *)
theory Ev_Buffer_Search
  imports Ev_Buffer
begin

text \<open>
  Searching an evbuffer and reading lines (\<open>sample/tcp/libevent/buffer.c\<close>). A position is the offset in
  the buffer, the index of a chain (\<open>None\<close> for a null pointer) and the offset in it. Counts are natural numbers, as in
  \<open>Ev_Buffer\<close>. A position behind the data of its chain, from which \<open>memchr\<close> would read outside it, is an error.
\<close>

record evbuffer_ptr =
  ptr_pos :: int
  ptr_chain :: "nat option"
  ptr_in_chain :: nat

datatype evbuffer_eol_style = EVBUFFER_EOL_ANY | EVBUFFER_EOL_CRLF | EVBUFFER_EOL_CRLF_STRICT | EVBUFFER_EOL_LF

datatype evbuffer_ptr_how = EVBUFFER_PTR_SET | EVBUFFER_PTR_ADD

text \<open>The chain of a position and those behind it, and the data of a chain from an offset on.\<close>

definition chains_at :: "evbuffer \<Rightarrow> evbuffer_ptr \<Rightarrow> evbuffer_chain list" where
  "chains_at buf it = (case ptr_chain it of None \<Rightarrow> [] | Some i \<Rightarrow> drop i (eb_chains buf))"

definition data_from :: "nat \<Rightarrow> evbuffer_chain \<Rightarrow> byte list ev_result" where
  "data_from k c = (if ch_off c < k then Inl Out_of_bounds else Inr (drop k (chain_data c)))"

definition buffer_start :: "evbuffer \<Rightarrow> evbuffer_ptr" where
  "buffer_start buf = \<lparr>ptr_pos = 0, ptr_chain = (if eb_chains buf = [] then None else Some 0), ptr_in_chain = 0\<rparr>"

fun first_such :: "('a \<Rightarrow> bool) \<Rightarrow> 'a list \<Rightarrow> nat option" where
  "first_such P [] = None"
| "first_such P (x # xs) = (if P x then Some 0 else map_option Suc (first_such P xs))"

definition memchr :: "byte \<Rightarrow> byte list \<Rightarrow> nat option" where
  "memchr c = first_such (\<lambda>b. b = c)"

fun memcmp :: "byte list \<Rightarrow> byte list \<Rightarrow> int" where
  "memcmp (x # xs) (y # ys) = (if x < y then - 1 else if y < x then 1 else memcmp xs ys)"
| "memcmp _ _ = 0"

section \<open>Characters\<close>

definition CHUNK_SZ :: nat where "CHUNK_SZ = 128"

function find_eol_char :: "byte list \<Rightarrow> nat option" where
  "find_eol_char s =
     (if s = [] then None
      else let chunk = (if CHUNK_SZ < length s then CHUNK_SZ else length s);
               cr = memchr 13 (take chunk s);
               lf = memchr 10 (take chunk s) in
        case cr of
          Some c \<Rightarrow> (case lf of Some l \<Rightarrow> if l < c then lf else cr | None \<Rightarrow> cr)
        | None \<Rightarrow> (case lf of Some l \<Rightarrow> lf | None \<Rightarrow> map_option (\<lambda>n. CHUNK_SZ + n) (find_eol_char (drop CHUNK_SZ s))))"
  by pat_completeness auto
termination
  by (relation "measure length") (auto simp: CHUNK_SZ_def)

declare find_eol_char.simps [simp del]

text \<open>
  The loop of \<open>evbuffer_strchr\<close> and of \<open>evbuffer_find_eol_char\<close>, which differ in the function that looks into a chain. The
  second result is the position the code leaves in \<open>pos\<close> when nothing is found.
\<close>

fun scan_chains :: "(byte list \<Rightarrow> nat option) \<Rightarrow> evbuffer_chain list \<Rightarrow> nat \<Rightarrow> nat \<Rightarrow> int \<Rightarrow> (evbuffer_ptr option \<times> int) ev_result" where
  "scan_chains f [] i k pos = Inr (None, pos)"
| "scan_chains f (c # cs) i k pos =
     bind_result (data_from k c) (\<lambda>d.
       case f d of
         Some j \<Rightarrow> Inr (Some \<lparr>ptr_pos = pos + int j, ptr_chain = Some i, ptr_in_chain = k + j\<rparr>, pos + int j)
       | None \<Rightarrow> scan_chains f cs (i + 1) 0 (pos + int (ch_off c - k)))"

definition scan_from :: "(byte list \<Rightarrow> nat option) \<Rightarrow> evbuffer \<Rightarrow> evbuffer_ptr \<Rightarrow> (int \<times> evbuffer_ptr) ev_result" where
  "scan_from f buf it =
     bind_result (scan_chains f (chains_at buf it) (case ptr_chain it of None \<Rightarrow> 0 | Some i \<Rightarrow> i) (ptr_in_chain it) (ptr_pos it)) (\<lambda>(r, pos).
       case r of None \<Rightarrow> Inr (- 1, it\<lparr>ptr_pos := pos\<rparr>) | Some it \<Rightarrow> Inr (ptr_pos it, it))"

definition evbuffer_strchr :: "evbuffer \<Rightarrow> evbuffer_ptr \<Rightarrow> byte \<Rightarrow> (int \<times> evbuffer_ptr) ev_result" where
  "evbuffer_strchr buf it chr = scan_from (memchr chr) buf it"

definition evbuffer_find_eol_char :: "evbuffer \<Rightarrow> evbuffer_ptr \<Rightarrow> (int \<times> evbuffer_ptr) ev_result" where
  "evbuffer_find_eol_char buf it = scan_from find_eol_char buf it"

text \<open>At the end of the last chain the code leaves 0 as the offset in it.\<close>

fun strspn_loop :: "byte list \<Rightarrow> evbuffer_chain list \<Rightarrow> nat \<Rightarrow> nat \<Rightarrow> nat \<Rightarrow> nat \<times> nat \<times> nat" where
  "strspn_loop chrset [] i k count = (count, i, k)"
| "strspn_loop chrset (c # cs) i k count =
     (let d = drop k (chain_data c); n = length (takeWhile (\<lambda>b. b \<in> set chrset) d) in
      if n < length d then (count + n, i, k + n)
      else if cs = [] then (count + n, i, 0)
      else strspn_loop chrset cs (i + 1) 0 (count + n))"

definition evbuffer_strspn :: "evbuffer \<Rightarrow> evbuffer_ptr \<Rightarrow> byte list \<Rightarrow> int \<times> evbuffer_ptr" where
  "evbuffer_strspn buf it chrset =
     (case ptr_chain it of
        None \<Rightarrow> (- 1, it)
      | Some i \<Rightarrow>
          (case strspn_loop chrset (chains_at buf it) i (ptr_in_chain it) 0 of
             (count, i, k) \<Rightarrow> (int count, \<lparr>ptr_pos = ptr_pos it + int count, ptr_chain = Some i, ptr_in_chain = k\<rparr>)))"

definition evbuffer_getchr :: "evbuffer \<Rightarrow> evbuffer_ptr \<Rightarrow> byte ev_result" where
  "evbuffer_getchr buf it =
     (case chains_at buf it of
        [] \<Rightarrow> Inl Null_deref
      | c # cs \<Rightarrow> if ch_misalign c + ptr_in_chain it < buffer_len c then Inr (ch_buffer c ! (ch_misalign c + ptr_in_chain it)) else Inl Out_of_bounds)"

section \<open>Positions and strings\<close>

text \<open>The index of the chain, its offset, or \<open>None\<close> behind the last chain. \<open>position + left\<close> is one argument: only the sum matters.\<close>

fun ptr_set_loop :: "nat \<Rightarrow> nat \<Rightarrow> evbuffer_chain list \<Rightarrow> (nat \<times> nat) option" where
  "ptr_set_loop i left [] = None"
| "ptr_set_loop i left (c # cs) = (if left \<ge> ch_off c then ptr_set_loop (i + 1) (left - ch_off c) cs else Some (i, left))"

definition evbuffer_ptr_set :: "evbuffer \<Rightarrow> evbuffer_ptr \<Rightarrow> nat \<Rightarrow> evbuffer_ptr_how \<Rightarrow> int \<times> evbuffer_ptr" where
  "evbuffer_ptr_set buf pos position how =
     (let (pos, cs, i, left) =
            (case how of
               EVBUFFER_PTR_SET \<Rightarrow> (pos\<lparr>ptr_pos := int position\<rparr>, eb_chains buf, 0, position)
             | EVBUFFER_PTR_ADD \<Rightarrow>
                 (pos\<lparr>ptr_pos := ptr_pos pos + int position\<rparr>, chains_at buf pos, (case ptr_chain pos of None \<Rightarrow> 0 | Some i \<Rightarrow> i),
                  ptr_in_chain pos + position)) in
      case ptr_set_loop i left cs of
        None \<Rightarrow> (- 1, pos\<lparr>ptr_pos := - 1, ptr_chain := None\<rparr>)
      | Some (i, k) \<Rightarrow> (0, pos\<lparr>ptr_chain := Some i, ptr_in_chain := k\<rparr>))"

fun ptr_memcmp_loop :: "nat \<Rightarrow> byte list \<Rightarrow> evbuffer_chain list \<Rightarrow> int ev_result" where
  "ptr_memcmp_loop position mem [] = Inr 0"
| "ptr_memcmp_loop position mem (c # cs) =
     (if mem = [] then Inr 0
      else bind_result (data_from position c) (\<lambda>d.
        let n_comparable = (if length mem + position > ch_off c then ch_off c - position else length mem);
            r = memcmp (take n_comparable d) (take n_comparable mem) in
        if r \<noteq> 0 then Inr r else ptr_memcmp_loop 0 (drop n_comparable mem) cs))"

text \<open>The sum of position and length is unsigned.\<close>

definition evbuffer_ptr_memcmp :: "evbuffer \<Rightarrow> evbuffer_ptr \<Rightarrow> byte list \<Rightarrow> int ev_result" where
  "evbuffer_ptr_memcmp buf pos mem =
     (if (ptr_pos pos + int (length mem)) mod 2 ^ 64 > int (eb_total_len buf) then Inr (- 1)
      else ptr_memcmp_loop (ptr_in_chain pos) mem (chains_at buf pos))"

definition not_found :: "nat \<Rightarrow> evbuffer_ptr" where
  "not_found k = \<lparr>ptr_pos = - 1, ptr_chain = None, ptr_in_chain = k\<rparr>"

lemma first_such_less: "first_such P xs = Some j \<Longrightarrow> j < length xs"
  by (induction xs arbitrary: j) (auto split: if_splits)

lemma data_from_length: "data_from k c = Inr d \<Longrightarrow> length d \<le> ch_off c - k"
  by (auto simp: data_from_def chain_data_def split: if_splits)

text \<open>The loop of \<open>evbuffer_search_range\<close> from chain \<open>i\<close>, offset \<open>k\<close> on.\<close>

function search_loop :: "evbuffer \<Rightarrow> byte list \<Rightarrow> evbuffer_ptr option \<Rightarrow> evbuffer_chain list \<Rightarrow> nat \<Rightarrow> nat \<Rightarrow> int \<Rightarrow> evbuffer_ptr ev_result" where
  "search_loop buf what fin [] i k pos = Inr (not_found k)"
| "search_loop buf what fin (c # cs) i k pos =
     (case data_from k c of
        Inl e \<Rightarrow> Inl e
      | Inr d \<Rightarrow>
          (case memchr (hd what) d of
             None \<Rightarrow>
               if (case fin of None \<Rightarrow> False | Some f \<Rightarrow> ptr_chain f = Some i) then Inr (not_found k)
               else search_loop buf what fin cs (i + 1) 0 (pos + int (ch_off c - k))
           | Some j \<Rightarrow>
               let p = \<lparr>ptr_pos = pos + int j, ptr_chain = Some i, ptr_in_chain = k + j\<rparr> in
               (case evbuffer_ptr_memcmp buf p what of
                  Inl e \<Rightarrow> Inl e
                | Inr r \<Rightarrow>
                    if r = 0
                    then if (case fin of None \<Rightarrow> False | Some f \<Rightarrow> pos + int j + int (length what) > ptr_pos f) then Inr (not_found (k + j)) else Inr p
                    else if k + j + 1 = ch_off c then search_loop buf what fin cs (i + 1) 0 (pos + int j + 1)
                    else search_loop buf what fin (c # cs) i (k + j + 1) (pos + int j + 1))))"
  by pat_completeness auto
termination
proof (relation "measures [\<lambda>(buf, what, fin, cs, i, k, pos). length cs, \<lambda>(buf, what, fin, cs, i, k, pos). case cs of [] \<Rightarrow> 0 | c # _ \<Rightarrow> ch_off c - k]", goal_cases)
  case (4 buf what fin c cs i k pos d j p r)
  have "j < length d" using 4(2) by (auto simp: memchr_def dest: first_such_less)
  then have "j < ch_off c - k" using data_from_length [OF 4(1)] by simp
  then show ?case by simp
qed auto

declare search_loop.simps [simp del]

definition EV_SSIZE_MAX :: nat where "EV_SSIZE_MAX = 2 ^ 63 - 1"

definition evbuffer_search_range :: "evbuffer \<Rightarrow> byte list \<Rightarrow> evbuffer_ptr option \<Rightarrow> evbuffer_ptr option \<Rightarrow> evbuffer_ptr ev_result" where
  "evbuffer_search_range buf what start fin =
     (let pos = (case start of None \<Rightarrow> buffer_start buf | Some p \<Rightarrow> p) in
      if what = [] \<or> length what > EV_SSIZE_MAX then Inr pos
      else search_loop buf what fin (chains_at buf pos) (case ptr_chain pos of None \<Rightarrow> 0 | Some i \<Rightarrow> i) (ptr_in_chain pos) (ptr_pos pos))"

definition evbuffer_search :: "evbuffer \<Rightarrow> byte list \<Rightarrow> evbuffer_ptr option \<Rightarrow> evbuffer_ptr ev_result" where
  "evbuffer_search buf what start = evbuffer_search_range buf what start None"

text \<open>The memory from the match to the end of the chain it has been pulled up into.\<close>

definition evbuffer_find :: "bool \<Rightarrow> byte list \<Rightarrow> evbuffer \<Rightarrow> (byte list option \<times> evbuffer) ev_result" where
  "evbuffer_find mem what buf =
     bind_result (evbuffer_search buf what None) (\<lambda>ptr.
       if ptr_pos ptr < 0 then Inr (None, buf)
       else bind_result (evbuffer_pullup mem (ptr_pos ptr + int (length what)) buf) (\<lambda>(search, buf).
         Inr (map_option (drop (nat (ptr_pos ptr))) search, buf)))"

section \<open>Lines\<close>

text \<open>The endless loop for \<open>EVBUFFER_EOL_CRLF\<close>; \<open>None\<close>: not found.\<close>

partial_function (option) crlf_loop :: "evbuffer \<Rightarrow> evbuffer_ptr \<Rightarrow> (evbuffer_ptr \<times> nat option) ev_result option" where
  "crlf_loop buf it =
     (case evbuffer_find_eol_char buf it of
        Inl e \<Rightarrow> Some (Inl e)
      | Inr (r, it) \<Rightarrow>
          if r < 0 then Some (Inr (it, None))
          else case evbuffer_getchr buf it of
                 Inl e \<Rightarrow> Some (Inl e)
               | Inr b \<Rightarrow>
                   if b = 10 then Some (Inr (it, Some 1))
                   else case evbuffer_ptr_memcmp buf it [13, 10] of
                          Inl e \<Rightarrow> Some (Inl e)
                        | Inr r \<Rightarrow>
                            if r = 0 then Some (Inr (it, Some 2))
                            else case evbuffer_ptr_set buf it 1 EVBUFFER_PTR_ADD of
                                   (r, it) \<Rightarrow> if r < 0 then Some (Inr (it, None)) else crlf_loop buf it)"

text \<open>The position of the line end, -1 if there is none, and its length.\<close>

definition evbuffer_search_eol :: "evbuffer \<Rightarrow> evbuffer_ptr option \<Rightarrow> evbuffer_eol_style \<Rightarrow> (evbuffer_ptr \<times> nat) ev_result" where
  "evbuffer_search_eol buf start eol_style =
     (let it = (case start of None \<Rightarrow> buffer_start buf | Some p \<Rightarrow> p) in
      bind_result
        (case eol_style of
           EVBUFFER_EOL_ANY \<Rightarrow>
             bind_result (evbuffer_find_eol_char buf it) (\<lambda>(r, it).
               if r < 0 then Inr (it, None) else Inr (it, Some (nat (fst (evbuffer_strspn buf it [13, 10])))))
         | EVBUFFER_EOL_CRLF_STRICT \<Rightarrow>
             bind_result (evbuffer_search buf [13, 10] (Some it)) (\<lambda>it. Inr (it, if ptr_pos it < 0 then None else Some 2))
         | EVBUFFER_EOL_CRLF \<Rightarrow> (case crlf_loop buf it of None \<Rightarrow> Inl No_return | Some r \<Rightarrow> r)
         | EVBUFFER_EOL_LF \<Rightarrow>
             bind_result (evbuffer_strchr buf it 10) (\<lambda>(r, it). Inr (it, if r < 0 then None else Some 1)))
        (\<lambda>(it, extra_drain).
          case extra_drain of None \<Rightarrow> Inr (it\<lparr>ptr_pos := - 1\<rparr>, 0) | Some n \<Rightarrow> Inr (it, n)))"

text \<open>The line without its end; the number of its bytes is the length.\<close>

definition evbuffer_readln :: "bool \<Rightarrow> evbuffer_eol_style \<Rightarrow> evbuffer \<Rightarrow> (byte list option \<times> evbuffer) ev_result" where
  "evbuffer_readln mem eol_style buf =
     (if eb_freeze_start buf then Inr (None, buf)
      else bind_result (evbuffer_search_eol buf None eol_style) (\<lambda>(it, extra_drain).
        if ptr_pos it < 0 then Inr (None, buf)
        else if \<not> mem then Inr (None, buf)
        else bind_result (evbuffer_remove (nat (ptr_pos it)) buf) (\<lambda>(r, line, buf).
          bind_result (evbuffer_drain extra_drain buf) (\<lambda>(r, buf). Inr (Some line, buf)))))"

definition evbuffer_readline :: "bool \<Rightarrow> evbuffer \<Rightarrow> (byte list option \<times> evbuffer) ev_result" where
  "evbuffer_readline mem buf = evbuffer_readln mem EVBUFFER_EOL_ANY buf"

section \<open>Looking at data\<close>

text \<open>An extent is the bytes it holds; \<open>n_vec\<close> extents at most are filled in, the result counts all.\<close>

fun peek_loop :: "nat \<Rightarrow> int \<Rightarrow> evbuffer_chain list \<Rightarrow> nat \<Rightarrow> int \<Rightarrow> byte list list \<times> nat" where
  "peek_loop n_vec len [] idx so_far = ([], idx)"
| "peek_loop n_vec len (c # cs) idx so_far =
     (if len \<ge> 0 \<and> so_far \<ge> len then ([], idx)
      else if idx < n_vec
      then (case peek_loop n_vec len cs (idx + 1) (so_far + int (ch_off c)) of (v, n) \<Rightarrow> (chain_data c # v, n))
      else if len < 0 then ([], idx)
      else peek_loop n_vec len cs (idx + 1) (so_far + int (ch_off c)))"

definition evbuffer_peek :: "evbuffer \<Rightarrow> int \<Rightarrow> evbuffer_ptr option \<Rightarrow> nat \<Rightarrow> (byte list list \<times> nat) ev_result" where
  "evbuffer_peek buf len start_at n_vec =
     bind_result
       (case start_at of
          None \<Rightarrow> Inr ([], eb_chains buf, 0, 0)
        | Some p \<Rightarrow>
            (case chains_at buf p of
               [] \<Rightarrow> Inl Null_deref
             | c # cs \<Rightarrow> bind_result (data_from (ptr_in_chain p) c) (\<lambda>d. Inr (if n_vec > 0 then [d] else [], cs, 1, int (length d)))))
       (\<lambda>(v, cs, idx, so_far).
          let len = (if n_vec = 0 \<and> len < 0 then int (eb_total_len buf) - so_far else len) in
          case peek_loop n_vec len cs idx so_far of (v', n) \<Rightarrow> Inr (v @ v', n))"

end
