(* ===== verification/Ev_Search_Props.thy ===== *)
theory Ev_Search_Props
  imports Ev_Buffer_Search Ev_Buffer_Queue
begin

text \<open>
  What searching an evbuffer finds, whatever its chains are: positions, characters and strings in the buffer are those in the list of its bytes.
\<close>

section \<open>Positions\<close>

text \<open>Offset \<open>k\<close> in chain \<open>i\<close> is byte \<open>n\<close> of the data of the chains.\<close>

definition located :: "evbuffer_chain list \<Rightarrow> nat \<Rightarrow> nat \<Rightarrow> nat \<Rightarrow> bool" where
  "located cs i k n \<longleftrightarrow> i < length cs \<and> k \<le> ch_off (cs ! i) \<and> n = length (concat (map chain_data (take i cs))) + k"

abbreviation all_data :: "evbuffer_chain list \<Rightarrow> byte list" where
  "all_data cs \<equiv> concat (map chain_data cs)"

lemma all_data_split: "all_data cs = all_data (take i cs) @ all_data (drop i cs)"
  by (metis append_take_drop_id concat_append map_append)

lemma located_data: "located cs i k n \<Longrightarrow> drop n (all_data cs) = drop k (all_data (drop i cs))"
  by (subst all_data_split [of cs i]) (simp add: located_def)

lemma located_step: "located cs i k n \<Longrightarrow> located (drop i cs) i' k' (k + j) \<Longrightarrow> located cs (i + i') k' (n + j)"
  by (auto simp: located_def take_add)

lemma located_Cons: "chain_ok c \<Longrightarrow> located cs i k n \<Longrightarrow> located (c # cs) (Suc i) k (ch_off c + n)"
  by (simp add: located_def)

lemma drop_all_data: "chain_ok c \<Longrightarrow> k \<le> ch_off c \<Longrightarrow> drop k (all_data (c # cs)) = drop k (chain_data c) @ all_data cs"
  by simp

section \<open>Characters\<close>

lemma first_such_append: "first_such P (xs @ ys) = (case first_such P xs of Some j \<Rightarrow> Some j | None \<Rightarrow> map_option ((+) (length xs)) (first_such P ys))"
  by (induction xs; cases "first_such P ys") (auto split: option.splits)

lemma first_such_None: "first_such P xs = None \<longleftrightarrow> (\<forall>x\<in>set xs. \<not> P x)"
  by (induction xs) auto

lemma first_such_Some: "first_such P xs = Some j \<longleftrightarrow> j < length xs \<and> P (xs ! j) \<and> (\<forall>k < j. \<not> P (xs ! k))"
proof (induction xs arbitrary: j)
  case (Cons x xs)
  show ?case
  proof (cases j)
    case (Suc m)
    then show ?thesis using Cons by (auto simp: less_Suc_eq_0_disj)
  qed auto
qed simp

lemma first_such_disj:
  "first_such (\<lambda>b. P b \<or> Q b) xs =
     (case first_such P xs of
        Some c \<Rightarrow> (case first_such Q xs of Some l \<Rightarrow> Some (if l < c then l else c) | None \<Rightarrow> Some c)
      | None \<Rightarrow> first_such Q xs)"
  by (induction xs) (auto split: option.splits)

definition is_eol :: "byte \<Rightarrow> bool" where
  "is_eol b \<longleftrightarrow> b = 13 \<or> b = 10"

text \<open>Reading in pieces of 128 bytes finds the first of the two characters.\<close>

lemma find_eol_char_eq: "find_eol_char s = first_such is_eol s"
proof (induction s rule: find_eol_char.induct)
  case (1 s)
  have e: "is_eol = (\<lambda>b. b = 13 \<or> b = 10)" by (rule ext) (simp add: is_eol_def)
  show ?case
  proof (cases "s = []")
    case True
    then show ?thesis by (subst find_eol_char.simps) simp
  next
    case False
    let ?t = "take (if CHUNK_SZ < length s then CHUNK_SZ else length s) s"
    have t: "?t = take CHUNK_SZ s" by simp
    have IH: "find_eol_char (drop CHUNK_SZ s) = first_such is_eol (drop CHUNK_SZ s)"
      if "memchr 13 (take CHUNK_SZ s) = None" "memchr 10 (take CHUNK_SZ s) = None"
      using "1.IH" [OF False refl refl refl] that unfolding t by simp
    have "first_such is_eol s = (case first_such is_eol (take CHUNK_SZ s) of Some j \<Rightarrow> Some j
        | None \<Rightarrow> map_option ((+) (length (take CHUNK_SZ s))) (first_such is_eol (drop CHUNK_SZ s)))"
      using first_such_append [of is_eol "take CHUNK_SZ s" "drop CHUNK_SZ s"] by simp
    also have "\<dots> = find_eol_char s"
    proof (cases "drop CHUNK_SZ s = []")
      case True
      have "find_eol_char [] = None" by (subst find_eol_char.simps) simp
      with True False IH show ?thesis
        by (subst find_eol_char.simps, unfold Let_def t) (auto simp: e first_such_disj memchr_def split: option.splits)
    next
      case False
      then have "length (take CHUNK_SZ s) = CHUNK_SZ" by simp
      with IH \<open>s \<noteq> []\<close> show ?thesis
        by (subst find_eol_char.simps, unfold Let_def t) (auto simp: e first_such_disj memchr_def split: option.splits)
    qed
    finally show ?thesis by simp
  qed
qed

lemma scan_chains_ok:
  assumes "\<forall>c\<in>set cs. chain_ok c" "cs \<noteq> [] \<longrightarrow> k \<le> ch_off (hd cs)"
  shows "case first_such P (drop k (all_data cs)) of
      None \<Rightarrow> \<exists>q. scan_chains (first_such P) cs i k pos = Inr (None, q)
    | Some j \<Rightarrow> \<exists>i' k'. scan_chains (first_such P) cs i k pos =
        Inr (Some \<lparr>ptr_pos = pos + int j, ptr_chain = Some (i + i'), ptr_in_chain = k'\<rparr>, pos + int j) \<and> located cs i' k' (k + j) \<and> k' < ch_off (cs ! i')"
  using assms
proof (induction cs arbitrary: i k pos)
  case (Cons c cs)
  have c: "chain_ok c" "k \<le> ch_off c" using Cons.prems by auto
  show ?case
  proof (cases "first_such P (drop k (chain_data c))")
    case (Some j)
    moreover have "j < ch_off c - k" using first_such_less [OF Some] c by simp
    ultimately show ?thesis
      using c by (auto simp: data_from_def first_such_append located_def intro!: exI [of _ 0])
  next
    case None
    let ?pos = "pos + int (ch_off c - k)"
    have e: "scan_chains (first_such P) (c # cs) i k pos = scan_chains (first_such P) cs (Suc i) 0 ?pos"
      using None c by (simp add: data_from_def)
    have f: "first_such P (drop k (all_data (c # cs))) = map_option ((+) (ch_off c - k)) (first_such P (all_data cs))"
      using None c by (simp add: first_such_append)
    have "\<forall>c\<in>set cs. chain_ok c" using Cons.prems(1) by simp
    note IH = Cons.IH [OF this, of 0 "Suc i" ?pos, simplified]
    show ?thesis
    proof (cases "first_such P (all_data cs)")
      case None
      then show ?thesis using IH e f by simp
    next
      case (Some j)
      with IH obtain i' k' where "scan_chains (first_such P) cs (Suc i) 0 ?pos =
          Inr (Some \<lparr>ptr_pos = ?pos + int j, ptr_chain = Some (Suc i + i'), ptr_in_chain = k'\<rparr>, ?pos + int j)" "located cs i' k' j" "k' < ch_off (cs ! i')" by auto
      with e f Some located_Cons [OF c(1), of cs i' k' j] c(2) show ?thesis by (auto intro!: exI [of _ "Suc i'"])
    qed
  qed
qed simp

text \<open>A position of a buffer is byte \<open>n\<close> of its contents; at \<open>ptr_byte\<close> there is a byte.\<close>

definition ptr_ok :: "evbuffer \<Rightarrow> evbuffer_ptr \<Rightarrow> nat \<Rightarrow> bool" where
  "ptr_ok buf it n \<longleftrightarrow> ptr_pos it = int n \<and>
     (case ptr_chain it of None \<Rightarrow> eb_chains buf = [] \<and> n = 0 | Some i \<Rightarrow> located (eb_chains buf) i (ptr_in_chain it) n)"

definition ptr_byte :: "evbuffer \<Rightarrow> evbuffer_ptr \<Rightarrow> nat \<Rightarrow> bool" where
  "ptr_byte buf it n \<longleftrightarrow> ptr_pos it = int n \<and>
     (\<exists>i. ptr_chain it = Some i \<and> located (eb_chains buf) i (ptr_in_chain it) n \<and> ptr_in_chain it < ch_off (eb_chains buf ! i))"

lemma ptr_byte_ok: "ptr_byte buf it n \<Longrightarrow> ptr_ok buf it n"
  by (auto simp: ptr_byte_def ptr_ok_def)

lemma ptr_ok_start: "ptr_ok buf (buffer_start buf) 0"
  by (simp add: ptr_ok_def buffer_start_def located_def)

lemma ptr_ok_rest:
  assumes "evb_inv buf" "ptr_ok buf it n"
  shows "\<forall>c\<in>set (chains_at buf it). chain_ok c" "chains_at buf it \<noteq> [] \<longrightarrow> ptr_in_chain it \<le> ch_off (hd (chains_at buf it))"
    "drop (ptr_in_chain it) (all_data (chains_at buf it)) = drop n (contents buf)"
  using assms located_data [of "eb_chains buf" _ "ptr_in_chain it" n]
  by (auto simp: evb_inv_def ptr_ok_def chains_at_def contents_def located_def hd_drop_conv_nth dest: in_set_dropD split: option.splits)

lemma scan_from_ok:
  assumes inv: "evb_inv buf" and it: "ptr_ok buf it n"
  shows "case first_such P (drop n (contents buf)) of
      None \<Rightarrow> \<exists>it'. scan_from (first_such P) buf it = Inr (- 1, it')
    | Some j \<Rightarrow> \<exists>it'. scan_from (first_such P) buf it = Inr (int (n + j), it') \<and> ptr_byte buf it' (n + j)"
proof (cases "ptr_chain it")
  case None
  then show ?thesis using it by (simp add: ptr_ok_def contents_def scan_from_def chains_at_def)
next
  case (Some i)
  note r = ptr_ok_rest [OF inv it]
  have c: "chains_at buf it = drop i (eb_chains buf)" using Some by (simp add: chains_at_def)
  have l: "located (eb_chains buf) i (ptr_in_chain it) n" "ptr_pos it = int n" using it Some by (simp_all add: ptr_ok_def)
  show ?thesis
  proof (cases "first_such P (drop n (contents buf))")
    case None
    then show ?thesis using scan_chains_ok [OF r(1,2), of P i "ptr_pos it"] Some unfolding r(3) by (auto simp: scan_from_def)
  next
    case (Some j)
    then obtain i' k' where s: "scan_chains (first_such P) (drop i (eb_chains buf)) i (ptr_in_chain it) (int n) =
        Inr (Some \<lparr>ptr_pos = int n + int j, ptr_chain = Some (i + i'), ptr_in_chain = k'\<rparr>, int n + int j)"
        "located (drop i (eb_chains buf)) i' k' (ptr_in_chain it + j)" "k' < ch_off (drop i (eb_chains buf) ! i')"
      using scan_chains_ok [OF r(1,2), of P i "int n", unfolded r(3), unfolded c] by auto
    have "eb_chains buf ! (i + i') = drop i (eb_chains buf) ! i'" using l(1) by (simp add: located_def)
    with s located_step [OF l(1) s(2)] Some \<open>ptr_chain it = Some i\<close> c l(2) show ?thesis
      by (simp add: scan_from_def ptr_byte_def)
  qed
qed

lemma strspn_loop_ok:
  "\<forall>c\<in>set cs. chain_ok c \<Longrightarrow> cs \<noteq> [] \<longrightarrow> k \<le> ch_off (hd cs) \<Longrightarrow>
     fst (strspn_loop S cs i k count) = count + length (takeWhile (\<lambda>b. b \<in> set S) (drop k (all_data cs)))"
proof (induction cs arbitrary: i k count)
  case (Cons c cs)
  let ?d = "drop k (chain_data c)" and ?P = "\<lambda>b. b \<in> set S"
  have d: "drop k (all_data (c # cs)) = ?d @ all_data cs" using Cons.prems by simp
  show ?case
  proof (cases "\<forall>b\<in>set ?d. ?P b")
    case True
    then have "takeWhile ?P ?d = ?d" "takeWhile ?P (?d @ all_data cs) = ?d @ takeWhile ?P (all_data cs)" by (simp_all add: takeWhile_append2)
    then show ?thesis using Cons.IH [of 0] Cons.prems unfolding d by (cases "cs = []") (simp_all add: Let_def del: takeWhile_eq_all_conv)
  next
    case False
    then have "takeWhile ?P ?d \<noteq> ?d" by (metis takeWhile_eq_all_conv)
    then have "length (takeWhile ?P ?d) < length ?d" by (metis length_takeWhile_le nat_less_le takeWhile_eq_take take_all)
    moreover have "takeWhile ?P (?d @ all_data cs) = takeWhile ?P ?d" using False by (auto simp: takeWhile_append1)
    ultimately show ?thesis unfolding d by (simp add: Let_def)
  qed
qed simp

section \<open>Positions and strings\<close>

lemma ptr_set_loop_ok:
  "\<forall>c\<in>set cs. chain_ok c \<Longrightarrow>
     (case ptr_set_loop i l cs of
        None \<Rightarrow> l \<ge> length (all_data cs)
      | Some (i', k) \<Rightarrow> i \<le> i' \<and> located cs (i' - i) k l \<and> k < ch_off (cs ! (i' - i)))"
proof (induction cs arbitrary: i l)
  case (Cons c cs)
  then have c: "chain_ok c" by simp
  show ?case
  proof (cases "l \<ge> ch_off c")
    case False
    then show ?thesis using c by (simp add: located_def)
  next
    case True
    have e: "ptr_set_loop i l (c # cs) = ptr_set_loop (Suc i) (l - ch_off c) cs" using True by simp
    show ?thesis
    proof (cases "ptr_set_loop (Suc i) (l - ch_off c) cs")
      case None
      then show ?thesis using Cons.IH [where i = "Suc i" and l = "l - ch_off c"] Cons.prems True c unfolding e by simp
    next
      case (Some p)
      obtain i' k where p: "p = (i', k)" by (cases p)
      have *: "Suc i \<le> i'" "located cs (i' - Suc i) k (l - ch_off c)" "k < ch_off (cs ! (i' - Suc i))"
        using Cons.IH [where i = "Suc i" and l = "l - ch_off c"] Cons.prems Some p by auto
      then have "i' - i = Suc (i' - Suc i)" by simp
      with * located_Cons [OF c *(2)] True Some p show ?thesis unfolding e by simp
    qed
  qed
qed simp

lemma ptr_add_ok:
  assumes inv: "evb_inv buf" and it: "ptr_byte buf it n"
  shows "\<exists>r it'. evbuffer_ptr_set buf it m EVBUFFER_PTR_ADD = (r, it') \<and>
    (if n + m < length (contents buf) then r = 0 \<and> ptr_byte buf it' (n + m) else r < 0 \<and> ptr_pos it' = - 1)"
proof -
  obtain i where i: "ptr_chain it = Some i" "located (eb_chains buf) i (ptr_in_chain it) n" "ptr_pos it = int n" using it by (auto simp: ptr_byte_def)
  have c: "chains_at buf it = drop i (eb_chains buf)" using i(1) by (simp add: chains_at_def)
  note r = ptr_ok_rest [OF inv ptr_byte_ok [OF it], unfolded c]
  have len: "ptr_in_chain it \<le> length (all_data (drop i (eb_chains buf)))"
  proof -
    obtain x xs where x: "drop i (eb_chains buf) = x # xs" using i(2) by (cases "drop i (eb_chains buf)") (auto simp: located_def)
    then have "chain_ok x" "ptr_in_chain it \<le> ch_off x" using r(1,2) by auto
    then show ?thesis using x by simp
  qed
  have "length (all_data (drop i (eb_chains buf))) - ptr_in_chain it = length (contents buf) - n" using arg_cong [OF r(3), of length] by simp
  moreover have "n \<le> length (contents buf)" using i(2) len all_data_split [of "eb_chains buf" i] by (simp add: located_def contents_def)
  ultimately have sz: "ptr_in_chain it + m < length (all_data (drop i (eb_chains buf))) \<longleftrightarrow> n + m < length (contents buf)" using len by linarith
  show ?thesis
  proof (cases "ptr_set_loop i (ptr_in_chain it + m) (drop i (eb_chains buf))")
    case None
    then show ?thesis using ptr_set_loop_ok [OF r(1), where i = i and l = "ptr_in_chain it + m"] sz i(1) c by (simp add: evbuffer_ptr_set_def)
  next
    case (Some p)
    obtain i' k where p: "p = (i', k)" by (cases p)
    have *: "i \<le> i'" "located (drop i (eb_chains buf)) (i' - i) k (ptr_in_chain it + m)" "k < ch_off (drop i (eb_chains buf) ! (i' - i))"
      using ptr_set_loop_ok [OF r(1), where i = i and l = "ptr_in_chain it + m"] Some p by auto
    have "located (eb_chains buf) i' k (n + m)" using located_step [OF i(2) *(2)] *(1) by simp
    moreover have "k < ch_off (eb_chains buf ! i')" using *(1,3) i(2) by (simp add: located_def)
    moreover have "n + m < length (contents buf)"
    proof -
      have l: "i' < length (eb_chains buf)" "n + m = length (all_data (take i' (eb_chains buf))) + k" using \<open>located (eb_chains buf) i' k (n + m)\<close> by (auto simp: located_def)
      moreover have "chain_ok (eb_chains buf ! i')" using inv l(1) by (simp add: evb_inv_def)
      ultimately show ?thesis using \<open>k < ch_off (eb_chains buf ! i')\<close> all_data_split [of "eb_chains buf" i'] Cons_nth_drop_Suc [OF l(1), symmetric]
        by (simp add: contents_def)
    qed
    ultimately show ?thesis using Some p i c by (simp add: evbuffer_ptr_set_def ptr_byte_def)
  qed
qed

lemma memcmp_eq: "length xs = length ys \<Longrightarrow> memcmp xs ys = 0 \<longleftrightarrow> xs = ys"
  by (induction xs ys rule: memcmp.induct) auto

text \<open>A string stands at the start of the data.\<close>

definition stands :: "byte list \<Rightarrow> byte list \<Rightarrow> bool" where
  "stands p xs \<longleftrightarrow> take (length p) xs = p"

lemma stands_append: "stands p (d @ xs) \<longleftrightarrow> (let n = min (length p) (length d) in take n d = take n p \<and> stands (drop n p) xs)"
proof (cases "length p \<le> length d")
  case True
  then show ?thesis by (simp add: stands_def Let_def min_def)
next
  case False
  then have p: "p = take (length d) p @ drop (length d) p" "length (take (length d) p) = length d" by simp_all
  have "take (length p) (d @ xs) = d @ take (length p - length d) xs" using False by simp
  then show ?thesis using False p by (simp add: stands_def Let_def min_def) (metis append_eq_append_conv p(1,2) append_take_drop_id)
qed

lemma ptr_memcmp_loop_ok:
  "\<forall>c\<in>set cs. chain_ok c \<Longrightarrow> cs \<noteq> [] \<longrightarrow> k \<le> ch_off (hd cs) \<Longrightarrow> length p \<le> length (drop k (all_data cs)) \<Longrightarrow>
     \<exists>r. ptr_memcmp_loop k p cs = Inr r \<and> (r = 0 \<longleftrightarrow> stands p (drop k (all_data cs)))"
proof (induction cs arbitrary: k p)
  case (Cons c cs)
  let ?d = "drop k (chain_data c)"
  let ?n = "min (length p) (length ?d)"
  have c: "chain_ok c" "k \<le> ch_off c" using Cons.prems by auto
  have d: "drop k (all_data (c # cs)) = ?d @ all_data cs" using c by simp
  have n: "(if length p + k > ch_off c then ch_off c - k else length p) = ?n" using c by auto
  show ?case
  proof (cases "p = []")
    case True
    then show ?thesis by (simp add: stands_def)
  next
    case False
    have m: "memcmp (take ?n ?d) (take ?n p) = 0 \<longleftrightarrow> take ?n ?d = take ?n p" by (rule memcmp_eq) simp
    have "\<exists>r. ptr_memcmp_loop 0 (drop ?n p) cs = Inr r \<and> (r = 0 \<longleftrightarrow> stands (drop ?n p) (all_data cs))"
      using Cons.IH [of 0 "drop ?n p"] Cons.prems c by simp
    moreover have "ptr_memcmp_loop k p (c # cs) = (if memcmp (take ?n ?d) (take ?n p) \<noteq> 0 then Inr (memcmp (take ?n ?d) (take ?n p)) else ptr_memcmp_loop 0 (drop ?n p) cs)"
      unfolding ptr_memcmp_loop.simps n Let_def using False c by (simp add: data_from_def)
    ultimately show ?thesis unfolding d stands_append Let_def using m by auto
  qed
qed (simp add: stands_def)

lemma ptr_memcmp_ok:
  assumes inv: "evb_inv buf" "length (contents buf) \<le> 2 ^ 62" and it: "ptr_ok buf it n" "n \<le> length (contents buf)" and p: "length p \<le> EV_SSIZE_MAX"
  shows "\<exists>r. evbuffer_ptr_memcmp buf it p = Inr r \<and> (r = 0 \<longleftrightarrow> stands p (drop n (contents buf)))"
proof -
  note r = ptr_ok_rest [OF inv(1) it(1)]
  have "int n + int (length p) < 2 ^ 64" using inv(2) it(2) p by (simp add: EV_SSIZE_MAX_def)
  then have m: "(ptr_pos it + int (length p)) mod 2 ^ 64 = int (n + length p)" using it(1) by (simp add: ptr_ok_def)
  have t: "eb_total_len buf = length (contents buf)" using inv(1) by (simp add: evb_inv_def)
  show ?thesis
  proof (cases "n + length p > length (contents buf)")
    case True
    then have "\<not> stands p (drop n (contents buf))" using it(2) by (auto simp: stands_def dest: arg_cong [of _ _ length])
    then show ?thesis using True unfolding evbuffer_ptr_memcmp_def m t by simp
  next
    case False
    then have "length p \<le> length (drop (ptr_in_chain it) (all_data (chains_at buf it)))" unfolding r(3) by simp
    from ptr_memcmp_loop_ok [OF r(1,2) this] show ?thesis using False unfolding evbuffer_ptr_memcmp_def m t r(3) by simp
  qed
qed

lemma getchr_ok:
  assumes inv: "evb_inv buf" and it: "ptr_byte buf it n"
  shows "evbuffer_getchr buf it = Inr (contents buf ! n)" "n < length (contents buf)"
proof -
  obtain i where i: "ptr_chain it = Some i" "i < length (eb_chains buf)" "n = length (all_data (take i (eb_chains buf))) + ptr_in_chain it"
      "ptr_in_chain it < ch_off (eb_chains buf ! i)" using it by (auto simp: ptr_byte_def located_def)
  let ?c = "eb_chains buf ! i"
  have ok: "chain_ok ?c" using inv i(2) by (simp add: evb_inv_def)
  have d: "contents buf = all_data (take i (eb_chains buf)) @ chain_data ?c @ all_data (drop (Suc i) (eb_chains buf))"
    unfolding contents_def by (subst all_data_split [of _ i]) (simp add: Cons_nth_drop_Suc [OF i(2), symmetric])
  show "n < length (contents buf)" unfolding d using i(3,4) ok by simp
  have "contents buf ! n = chain_data ?c ! ptr_in_chain it" unfolding d using i(3,4) ok by (simp add: nth_append)
  also have "\<dots> = ch_buffer ?c ! (ch_misalign ?c + ptr_in_chain it)" using i(4) ok by (simp add: chain_data_def chain_ok_def buffer_len_def)
  finally show "evbuffer_getchr buf it = Inr (contents buf ! n)"
    using i(1,2,4) ok by (simp add: evbuffer_getchr_def chains_at_def Cons_nth_drop_Suc [symmetric] chain_ok_def)
qed

section \<open>Searching\<close>

lemma str_find_stands: "str_find s p n = (if length s < n + length p then None else if stands p (drop n s) then Some n else str_find s p (Suc n))"
  by (subst str_find.simps) (simp add: stands_def)

lemma str_find_skip: "\<forall>k < m. \<not> stands p (drop (n + k) s) \<Longrightarrow> str_find s p n = str_find s p (n + m)"
proof (induction m arbitrary: n)
  case (Suc m)
  have "\<not> stands p (drop (Suc n + k) s)" if "k < m" for k using Suc.prems that by (metis Suc_less_eq add_Suc_right add_Suc_shift)
  then have e: "str_find s p (Suc n) = str_find s p (Suc n + m)" using Suc.IH [of "Suc n"] by blast
  have "\<not> stands p (drop n s)" using Suc.prems by (metis add.right_neutral zero_less_Suc)
  then have "str_find s p n = str_find s p (Suc n)"
    by (subst str_find_stands) (auto simp: str_find_stands [of s p "Suc n"])
  then show ?case using e by simp
qed simp

lemma not_stands: "p \<noteq> [] \<Longrightarrow> k < length d \<Longrightarrow> d ! k \<noteq> hd p \<Longrightarrow> \<not> stands p (drop k (d @ xs))"
  by (cases p) (auto simp: stands_def Cons_nth_drop_Suc [symmetric])

text \<open>What a search that may have to end before a position finds.\<close>

definition search_result :: "evbuffer \<Rightarrow> byte list \<Rightarrow> evbuffer_ptr option \<Rightarrow> nat \<Rightarrow> evbuffer_ptr \<Rightarrow> bool" where
  "search_result buf p fin n r \<longleftrightarrow>
     (case str_find (contents buf) p n of
        None \<Rightarrow> ptr_pos r = - 1
      | Some q \<Rightarrow> if (case fin of None \<Rightarrow> True | Some f \<Rightarrow> int (q + length p) \<le> ptr_pos f) then ptr_byte buf r q else ptr_pos r = - 1)"

lemma search_result_skip: "\<forall>k < m. \<not> stands p (drop (n + k) (contents buf)) \<Longrightarrow> search_result buf p fin n r = search_result buf p fin (n + m) r"
  unfolding search_result_def by (simp only: str_find_skip)

text \<open>The position that follows the data of a chain.\<close>

lemma located_next:
  assumes "evb_inv buf" "located (eb_chains buf) i k n"
  shows "drop (Suc i) (eb_chains buf) \<noteq> [] \<Longrightarrow> located (eb_chains buf) (Suc i) 0 (n + (ch_off (eb_chains buf ! i) - k))"
    and "drop (Suc i) (eb_chains buf) = [] \<Longrightarrow> n + (ch_off (eb_chains buf ! i) - k) = length (contents buf)"
proof -
  have i: "i < length (eb_chains buf)" "k \<le> ch_off (eb_chains buf ! i)" "n = length (all_data (take i (eb_chains buf))) + k" "chain_ok (eb_chains buf ! i)"
    using assms by (auto simp: located_def evb_inv_def)
  then have "all_data (take (Suc i) (eb_chains buf)) = all_data (take i (eb_chains buf)) @ chain_data (eb_chains buf ! i)"
    by (simp add: take_Suc_conv_app_nth)
  then have e: "n + (ch_off (eb_chains buf ! i) - k) = length (all_data (take (Suc i) (eb_chains buf)))" using i by simp
  then show "drop (Suc i) (eb_chains buf) \<noteq> [] \<Longrightarrow> located (eb_chains buf) (Suc i) 0 (n + (ch_off (eb_chains buf ! i) - k))"
    by (simp add: located_def)
  show "drop (Suc i) (eb_chains buf) = [] \<Longrightarrow> n + (ch_off (eb_chains buf ! i) - k) = length (contents buf)"
    using e by (simp add: contents_def)
qed

lemma search_loop_ok:
  "evb_inv buf \<Longrightarrow> length (contents buf) \<le> 2 ^ 62 \<Longrightarrow> p \<noteq> [] \<Longrightarrow> length p \<le> EV_SSIZE_MAX \<Longrightarrow> (\<And>f. fin = Some f \<Longrightarrow> \<exists>e. ptr_ok buf f e) \<Longrightarrow>
   cs = drop i (eb_chains buf) \<Longrightarrow> (if cs = [] then n = length (contents buf) else located (eb_chains buf) i k n) \<Longrightarrow> pos = int n \<Longrightarrow>
   \<exists>r. search_loop buf p fin cs i k pos = Inr r \<and> search_result buf p fin n r"
proof (induction buf p fin cs i k pos arbitrary: n rule: search_loop.induct)
  case (1 buf p fin i k pos)
  then have "str_find (contents buf) p n = None" by (subst str_find_stands) simp
  then show ?case by (simp add: search_loop.simps not_found_def search_result_def)
next
  case (2 buf p fin c cs i k pos)
  note inv = "2.prems"(1,2)
  have l: "located (eb_chains buf) i k n" using "2.prems"(7) by simp
  have i: "i < length (eb_chains buf)" "k \<le> ch_off c" "c = eb_chains buf ! i" "cs = drop (Suc i) (eb_chains buf)" "chain_ok c"
    using l "2.prems"(1,6) by (auto simp: located_def evb_inv_def Cons_nth_drop_Suc [symmetric])
  let ?d = "drop k (chain_data c)"
  have d: "data_from k c = Inr ?d" using i by (simp add: data_from_def)
  have s: "drop (n + m) (contents buf) = drop m (?d @ all_data cs)" for m
  proof -
    have "drop n (contents buf) = ?d @ all_data cs"
      unfolding contents_def using located_data [OF l] "2.prems"(6) [symmetric] i(2,5) by simp
    then show ?thesis by (metis drop_drop add.commute)
  qed
  have next_chain: "if cs = [] then n + (ch_off c - k) = length (contents buf) else located (eb_chains buf) (i + 1) 0 (n + (ch_off c - k))"
    using located_next [OF inv(1) l] i by auto
  show ?case
  proof (cases "memchr (hd p) ?d")
    case None
    then have "?d ! m \<noteq> hd p" if "m < ch_off c - k" for m using i(5) that nth_mem [of m ?d] by (auto simp: memchr_def first_such_None)
    then have "\<forall>m < ch_off c - k. \<not> stands p (drop (n + m) (contents buf))" unfolding s
      using i(5) by (intro allI impI not_stands [OF "2.prems"(3)]) simp_all
    note skip = search_result_skip [OF this]
    show ?thesis
    proof (cases "case fin of None \<Rightarrow> False | Some f \<Rightarrow> ptr_chain f = Some i")
      case True
      then obtain f e where f: "fin = Some f" "ptr_chain f = Some i" "ptr_ok buf f e" using "2.prems"(5) by (auto split: option.splits)
      then have "ptr_pos f \<le> int (n + (ch_off c - k))" using l i by (auto simp: ptr_ok_def located_def)
      moreover have "1 \<le> length p" using "2.prems"(3) by (cases p) simp_all
      ultimately have "search_result buf p fin (n + (ch_off c - k)) (not_found k)"
        using f(1) by (auto simp: search_result_def not_found_def dest!: str_find_SomeD split: option.split)
      then show ?thesis unfolding skip using d None True by (simp add: search_loop.simps)
    next
      case False
      have e: "search_loop buf p fin (c # cs) i k pos = search_loop buf p fin cs (i + 1) 0 (int (n + (ch_off c - k)))"
        using d None False "2.prems"(8) by (subst search_loop.simps) simp
      have "pos + int (ch_off c - k) = int (n + (ch_off c - k))" using "2.prems"(8) by simp
      from "2.IH"(1) [OF d None False inv "2.prems"(3-5) _ next_chain this] show ?thesis unfolding skip e using i(4) "2.prems"(8) by simp
    qed
  next
    case (Some j)
    then have j: "j < ch_off c - k" "\<forall>m < j. ?d ! m \<noteq> hd p" using i(5) by (auto simp: memchr_def first_such_Some)
    let ?p = "\<lparr>ptr_pos = pos + int j, ptr_chain = Some i, ptr_in_chain = k + j\<rparr>"
    have lj: "located (eb_chains buf) i (k + j) (n + j)" using l j(1) i by (simp add: located_def)
    have pb: "ptr_byte buf ?p (n + j)" using lj j(1) i(3) "2.prems"(8) by (simp add: ptr_byte_def)
    have nj: "n + j \<le> length (contents buf)" using getchr_ok(2) [OF inv(1) pb] by simp
    obtain r where r: "evbuffer_ptr_memcmp buf ?p p = Inr r" "r = 0 \<longleftrightarrow> stands p (drop (n + j) (contents buf))"
      using ptr_memcmp_ok [OF inv ptr_byte_ok [OF pb] nj "2.prems"(4)] by blast
    have no: "\<forall>m < j. \<not> stands p (drop (n + m) (contents buf))" unfolding s
      using j i(5) by (intro allI impI not_stands [OF "2.prems"(3)]) simp_all
    show ?thesis
    proof (cases "r = 0")
      case True
      then have "stands p (drop (n + j) (contents buf))" using r(2) by simp
      moreover from this have "n + j + length p \<le> length (contents buf)" using nj by (auto simp: stands_def dest: arg_cong [of _ _ length])
      ultimately have "str_find (contents buf) p (n + j) = Some (n + j)" by (subst str_find_stands) simp
      then have "str_find (contents buf) p n = Some (n + j)" using str_find_skip [OF no] by simp
      then show ?thesis using d Some r(1) True pb "2.prems"(8) by (simp add: search_loop.simps Let_def search_result_def not_found_def algebra_simps split: option.splits)
    next
      case False
      then have "\<forall>m < Suc j. \<not> stands p (drop (n + m) (contents buf))" using no r(2) by (simp add: less_Suc_eq)
      note skip = search_result_skip [OF this]
      have pos: "pos + int j + 1 = int (n + Suc j)" using "2.prems"(8) by simp
      show ?thesis
      proof (cases "k + j + 1 = ch_off c")
        case True
        then have "n + (ch_off c - k) = n + Suc j" by simp
        note nc = next_chain [unfolded this]
        have cs: "cs = drop (i + 1) (eb_chains buf)" using i(4) by simp
        show ?thesis using "2.IH"(2) [OF d Some refl r(1) False True inv "2.prems"(3-5) cs nc pos]
          unfolding skip using d Some r(1) False True by (subst search_loop.simps) (simp add: Let_def)
      next
        case F: False
        have "located (eb_chains buf) i (k + j + 1) (n + Suc j)" using lj j(1) i(3) by (simp add: located_def)
        with "2.IH"(3) [OF d Some refl r(1) False F inv "2.prems"(3-5) "2.prems"(6) _ pos] show ?thesis
          unfolding skip using d Some r(1) False F by (subst search_loop.simps) (simp add: Let_def)
      qed
    qed
  qed
qed

lemma search_range_ok:
  assumes "evb_inv buf" "length (contents buf) \<le> 2 ^ 62" "p \<noteq> []" "length p \<le> EV_SSIZE_MAX"
    and start: "case start of None \<Rightarrow> n = 0 | Some s \<Rightarrow> ptr_ok buf s n" and fin: "case fin of None \<Rightarrow> True | Some f \<Rightarrow> \<exists>e. ptr_ok buf f e"
  shows "\<exists>r. evbuffer_search_range buf p start fin = Inr r \<and> search_result buf p fin n r"
proof -
  define s where "s = (case start of None \<Rightarrow> buffer_start buf | Some s \<Rightarrow> s)"
  have s: "ptr_ok buf s n" using start ptr_ok_start by (auto simp: s_def split: option.splits)
  have f: "\<exists>e. ptr_ok buf f e" if "fin = Some f" for f using fin that by simp
  let ?i = "case ptr_chain s of None \<Rightarrow> 0 | Some i \<Rightarrow> i"
  have cs: "chains_at buf s = drop ?i (eb_chains buf)"
    using s by (auto simp: chains_at_def ptr_ok_def split: option.splits)
  have l: "if chains_at buf s = [] then n = length (contents buf) else located (eb_chains buf) ?i (ptr_in_chain s) n"
    using s by (auto simp: chains_at_def ptr_ok_def contents_def located_def split: option.splits)
  have "ptr_pos s = int n" using s by (simp add: ptr_ok_def)
  from search_loop_ok [OF assms(1-4) f cs l this] show ?thesis
    using assms(3,4) by (simp add: evbuffer_search_range_def s_def [symmetric] Let_def)
qed

text \<open>
  C34. Searching an evbuffer gives the first place, from the start on, where the string stands in the bytes of the buffer, wherever the borders of
  the chains are; with an end, only if the string stands before it; otherwise -1.
\<close>

theorem evbuffer_search_correct:
  assumes "evb_inv buf" "length (contents buf) \<le> 2 ^ 62" "p \<noteq> []" "length p \<le> EV_SSIZE_MAX"
    and start: "case start of None \<Rightarrow> n = 0 | Some s \<Rightarrow> ptr_ok buf s n" and fin: "case fin of None \<Rightarrow> True | Some f \<Rightarrow> \<exists>e. ptr_ok buf f e"
  shows "\<exists>r. evbuffer_search_range buf p start fin = Inr r \<and>
    (case str_find (contents buf) p n of
       None \<Rightarrow> ptr_pos r = - 1
     | Some q \<Rightarrow> if (case fin of None \<Rightarrow> True | Some f \<Rightarrow> int (q + length p) \<le> ptr_pos f) then ptr_pos r = int q \<and> ptr_ok buf r q else ptr_pos r = - 1)"
proof -
  obtain r where r: "evbuffer_search_range buf p start fin = Inr r" "search_result buf p fin n r" using search_range_ok [OF assms] by blast
  have b: "ptr_pos r = int q \<and> ptr_ok buf r q" if "ptr_byte buf r q" for q using that ptr_byte_ok by (auto simp: ptr_byte_def)
  show ?thesis
    using r b by (cases "str_find (contents buf) p n"; cases fin) (simp_all add: search_result_def split: if_splits)
qed

text \<open>Four bytes in two chains, and a string across their border.\<close>

definition two_chains :: evbuffer where
  "two_chains = evbuffer_new\<lparr>eb_chains := [\<lparr>ch_buffer = [0, 65, 66, 13], ch_misalign = 1, ch_off = 3, ch_flags = 0\<rparr>,
     \<lparr>ch_buffer = [10], ch_misalign = 0, ch_off = 1, ch_flags = 0\<rparr>], eb_lwd := 1, eb_total_len := 4\<rparr>"

lemma two_chains_ok: "evb_inv two_chains" "contents two_chains = [65, 66, 13, 10]"
  by (simp_all add: two_chains_def evb_inv_def contents_def chain_data_def chain_ok_def CHAIN_PINNED_def buffer_len_def lwd_ok_def evbuffer_new_def)

theorem evbuffer_search_correct_witness:
  "\<exists>r. evbuffer_search_range two_chains [13, 10] None None = Inr r \<and> ptr_pos r = 2 \<and> ptr_ok two_chains r 2"
proof -
  have f: "str_find [65, 66, 13, 10 :: byte] [13, 10] 0 = Some 2" by (simp add: str_find.simps)
  show ?thesis
    using evbuffer_search_correct [OF two_chains_ok(1), where p = "[13, 10]" and start = None and fin = None and n = 0] f
    by (simp add: two_chains_ok(2) EV_SSIZE_MAX_def)
qed

end
