(* ===== verification/Ev_Buffer_Lines.thy ===== *)
theory Ev_Buffer_Lines
  imports Ev_Search_Props
begin

text \<open>
  Reading lines from an evbuffer. The lines a client reads are those of the stream, whatever the chains of the buffer are and
  however the stream is cut into the pieces that arrive; for \<open>EVBUFFER_EOL_ANY\<close> the second part fails.
\<close>

section \<open>Line ends\<close>

text \<open>The length of the line end that stands at the start of the bytes, and the place and length of the first one.\<close>

definition eol_here :: "evbuffer_eol_style \<Rightarrow> byte list \<Rightarrow> nat option" where
  "eol_here st xs =
     (case st of
        EVBUFFER_EOL_ANY \<Rightarrow> let n = length (takeWhile is_eol xs) in if n = 0 then None else Some n
      | EVBUFFER_EOL_CRLF \<Rightarrow> if stands [10] xs then Some 1 else if stands [13, 10] xs then Some 2 else None
      | EVBUFFER_EOL_CRLF_STRICT \<Rightarrow> if stands [13, 10] xs then Some 2 else None
      | EVBUFFER_EOL_LF \<Rightarrow> if stands [10] xs then Some 1 else None)"

fun eol_at :: "evbuffer_eol_style \<Rightarrow> byte list \<Rightarrow> (nat \<times> nat) option" where
  "eol_at st [] = None"
| "eol_at st (x # xs) =
     (case eol_here st (x # xs) of
        Some n \<Rightarrow> Some (0, n)
      | None \<Rightarrow> map_option (\<lambda>(p, n). (Suc p, n)) (eol_at st xs))"

lemma stands_simps [simp]: "stands [] xs" "stands (y # ys) [] = False" "stands (y # ys) (x # xs) \<longleftrightarrow> x = y \<and> stands ys xs"
  by (auto simp: stands_def)

lemma eol_here_Nil [simp]: "eol_here st [] = None"
  by (simp add: eol_here_def Let_def split: evbuffer_eol_style.split)

lemma eol_here_char: "eol_here st (x # xs) = Some n \<Longrightarrow> is_eol x"
  by (auto simp: eol_here_def is_eol_def Let_def split: evbuffer_eol_style.splits if_splits)

lemma eol_here_bounds: "eol_here st xs = Some n \<Longrightarrow> 0 < n \<and> n \<le> length xs"
  by (cases xs; cases "tl xs") (auto simp: eol_here_def Let_def length_takeWhile_le intro: le_trans [OF length_takeWhile_le] split: evbuffer_eol_style.splits if_splits)

lemma eol_at_bounds: "eol_at st xs = Some (p, n) \<Longrightarrow> 0 < n \<and> p + n \<le> length xs"
proof (induction xs arbitrary: p)
  case (Cons x xs)
  show ?case
  proof (cases "eol_here st (x # xs)")
    case None
    then show ?thesis using Cons by auto
  next
    case (Some m)
    then show ?thesis using Cons.prems eol_here_bounds [OF Some] by auto
  qed
qed simp

lemma eol_at_here: "eol_at st xs = (case eol_here st xs of Some n \<Rightarrow> Some (0, n) | None \<Rightarrow> map_option (\<lambda>(p, n). (Suc p, n)) (eol_at st (tl xs)))"
  by (cases xs) (auto split: option.split)

lemma eol_at_skip: "\<forall>k < m. eol_here st (drop k xs) = None \<Longrightarrow> eol_at st xs = map_option (\<lambda>(p, n). (m + p, n)) (eol_at st (drop m xs))"
proof (induction m arbitrary: xs)
  case 0
  then show ?case by (cases "eol_at st xs") auto
next
  case (Suc m)
  have "\<forall>k < m. eol_here st (drop k (tl xs)) = None" using Suc.prems by (auto simp: drop_Suc [symmetric])
  then have "eol_at st (tl xs) = map_option (\<lambda>(p, n). (m + p, n)) (eol_at st (drop (Suc m) xs))" using Suc.IH [of "tl xs"] by (simp add: drop_Suc)
  moreover have "eol_here st xs = None" using Suc.prems by (metis drop0 zero_less_Suc)
  ultimately show ?case by (subst eol_at_here) (auto simp: option.map_comp o_def split_def)
qed

lemma eol_at_none: "\<forall>k < length xs. eol_here st (drop k xs) = None \<Longrightarrow> eol_at st xs = None"
  using eol_at_skip [of "length xs" st xs] by simp

text \<open>Positions without either character are skipped.\<close>

lemma eol_at_first:
  "eol_at st xs = (case first_such is_eol xs of None \<Rightarrow> None | Some j \<Rightarrow> map_option (\<lambda>(p, n). (j + p, n)) (eol_at st (drop j xs)))"
proof -
  have n: "eol_here st (drop k xs) = None" if "k < length xs" "\<not> is_eol (xs ! k)" for k
    using that eol_here_char [of st "xs ! k" "drop (Suc k) xs"] by (cases "eol_here st (drop k xs)") (auto simp: Cons_nth_drop_Suc)
  show ?thesis
  proof (cases "first_such is_eol xs")
    case None
    then have "\<forall>k < length xs. eol_here st (drop k xs) = None" using n nth_mem unfolding first_such_None by blast
    then show ?thesis using None eol_at_none by simp
  next
    case (Some j)
    then have "\<forall>k < j. eol_here st (drop k xs) = None" using n unfolding first_such_Some by (meson less_trans)
    then show ?thesis using Some eol_at_skip by simp
  qed
qed

lemma eol_at_LF: "eol_at EVBUFFER_EOL_LF xs = map_option (\<lambda>j. (j, 1)) (first_such (\<lambda>b. b = 10) xs)"
  by (induction xs) (auto simp: eol_here_def option.map_comp o_def)

lemma eol_at_STRICT: "eol_at EVBUFFER_EOL_CRLF_STRICT (drop n s) = map_option (\<lambda>j. (j - n, 2)) (str_find s [13, 10] n)"
proof (induction "length s - n" arbitrary: n)
  case 0
  then show ?case by (subst str_find_stands) simp
next
  case (Suc m)
  then have n: "n < length s" by simp
  show ?case
  proof (cases "stands [13, 10] (drop n s)")
    case True
    then have "n + 2 \<le> length s" by (auto simp: stands_def dest: arg_cong [of _ _ length])
    then show ?thesis using True by (subst eol_at_here, subst str_find_stands) (simp add: eol_here_def)
  next
    case False
    have "str_find s [13, 10] n = str_find s [13, 10] (Suc n)" using str_find_skip [of 1 "[13, 10]" n s] False by simp
    moreover have "eol_at EVBUFFER_EOL_CRLF_STRICT (drop (Suc n) s) = map_option (\<lambda>j. (j - Suc n, 2)) (str_find s [13, 10] (Suc n))"
      using Suc.hyps(1) [of "Suc n"] Suc.hyps(2) by simp
    moreover have "Suc (j - Suc n) = j - n" if "str_find s [13, 10] (Suc n) = Some j" for j using str_find_SomeD [OF that] by linarith
    ultimately show ?thesis
      using False by (subst eol_at_here) (cases "str_find s [13, 10] (Suc n)", auto simp: eol_here_def drop_Suc tl_drop)
  qed
qed

section \<open>Finding line ends\<close>

lemma find_eol_ok:
  assumes "evb_inv buf" "ptr_ok buf it n"
  shows "case first_such is_eol (drop n (contents buf)) of
      None \<Rightarrow> \<exists>it'. evbuffer_find_eol_char buf it = Inr (- 1, it')
    | Some j \<Rightarrow> \<exists>it'. evbuffer_find_eol_char buf it = Inr (int (n + j), it') \<and> ptr_byte buf it' (n + j)"
proof -
  have "find_eol_char = first_such is_eol" by (rule ext) (rule find_eol_char_eq)
  then have "evbuffer_find_eol_char buf it = scan_from (first_such is_eol) buf it" by (simp add: evbuffer_find_eol_char_def)
  then show ?thesis using scan_from_ok [OF assms, of is_eol] by (simp only:)
qed

lemma crlf_loop_ok:
  assumes inv: "evb_inv buf" "length (contents buf) \<le> 2 ^ 62"
  shows "ptr_ok buf it n \<Longrightarrow>
    \<exists>it' r. crlf_loop buf it = Some (Inr (it', r)) \<and>
      (case eol_at EVBUFFER_EOL_CRLF (drop n (contents buf)) of None \<Rightarrow> r = None | Some (p, l) \<Rightarrow> r = Some l \<and> ptr_pos it' = int (n + p))"
proof (induction "length (contents buf) - n" arbitrary: it n rule: less_induct)
  case less
  let ?s = "contents buf" and ?st = EVBUFFER_EOL_CRLF
  note f = find_eol_ok [OF inv(1) less.prems] and e = eol_at_first [of ?st "drop n ?s"]
  show ?case
  proof (cases "first_such is_eol (drop n ?s)")
    case None
    then show ?thesis using f e by (subst crlf_loop.simps) auto
  next
    case (Some j)
    then obtain it1 where it1: "evbuffer_find_eol_char buf it = Inr (int (n + j), it1)" "ptr_byte buf it1 (n + j)" using f by auto
    note g = getchr_ok [OF inv(1) it1(2)]
    have d: "drop (n + j) ?s = ?s ! (n + j) # drop (Suc (n + j)) ?s" using g(2) by (simp add: Cons_nth_drop_Suc)
    have e: "eol_at ?st (drop n ?s) = map_option (\<lambda>(p, l). (j + p, l)) (eol_at ?st (drop (n + j) ?s))" using e Some by (simp add: add.commute)
    obtain r where r: "evbuffer_ptr_memcmp buf it1 [13, 10] = Inr r" "r = 0 \<longleftrightarrow> stands [13, 10] (drop (n + j) ?s)"
      using ptr_memcmp_ok [OF inv ptr_byte_ok [OF it1(2)], of "[13, 10]"] g(2) by (auto simp: EV_SSIZE_MAX_def)
    obtain r' it2 where p: "evbuffer_ptr_set buf it1 1 EVBUFFER_PTR_ADD = (r', it2)"
        "if n + j + 1 < length ?s then r' = 0 \<and> ptr_byte buf it2 (n + j + 1) else r' < 0 \<and> ptr_pos it2 = - 1"
      using ptr_add_ok [OF inv(1) it1(2), of 1] by blast
    have pos: "ptr_pos it1 = int (n + j)" using it1(2) by (simp add: ptr_byte_def)
    consider "?s ! (n + j) = 10" | "?s ! (n + j) \<noteq> 10" "r = 0" | "?s ! (n + j) \<noteq> 10" "r \<noteq> 0" by blast
    then show ?thesis
    proof cases
      case 1
      then have "eol_at ?st (drop (n + j) ?s) = Some (0, 1)" unfolding d by (simp add: eol_here_def)
      then show ?thesis using 1 it1(1) g(1) pos unfolding e by (subst crlf_loop.simps) simp
    next
      case 2
      then have "eol_at ?st (drop (n + j) ?s) = Some (0, 2)" using r(2) unfolding d by (simp add: eol_here_def)
      then show ?thesis using 2 it1(1) g(1) r(1) pos unfolding e by (subst crlf_loop.simps) simp
    next
      case 3
      then have h: "eol_here ?st (drop (n + j) ?s) = None" using r(2) unfolding d by (simp add: eol_here_def)
      have e2: "eol_at ?st (drop (n + j) ?s) = map_option (\<lambda>(p, l). (Suc p, l)) (eol_at ?st (drop (n + j + 1) ?s))"
        by (subst eol_at_here, unfold h) (simp add: drop_Suc tl_drop)
      show ?thesis
      proof (cases "n + j + 1 < length ?s")
        case False
        then show ?thesis using 3 it1(1) g(1) r(1) p unfolding e e2 by (subst crlf_loop.simps) simp
      next
        case True
        then have lt: "length ?s - (n + j + 1) < length ?s - n" "ptr_ok buf it2 (n + j + 1)" using p(2) ptr_byte_ok by auto
        obtain it' q where "crlf_loop buf it2 = Some (Inr (it', q))"
          "case eol_at ?st (drop (n + j + 1) ?s) of None \<Rightarrow> q = None | Some (p, l) \<Rightarrow> q = Some l \<and> ptr_pos it' = int (n + j + 1 + p)"
          using less.hyps [OF lt] by blast
        then show ?thesis using 3 it1(1) g(1) r(1) p True unfolding e e2
          by (subst crlf_loop.simps) (cases "eol_at ?st (drop (n + j + 1) ?s)", auto)
      qed
    qed
  qed
qed

lemma search_eol_ok:
  assumes inv: "evb_inv buf" "length (contents buf) \<le> 2 ^ 62" and start: "case start of None \<Rightarrow> n = 0 | Some s \<Rightarrow> ptr_ok buf s n"
  shows "\<exists>it l. evbuffer_search_eol buf start st = Inr (it, l) \<and>
    (case eol_at st (drop n (contents buf)) of None \<Rightarrow> ptr_pos it = - 1 | Some (p, m) \<Rightarrow> ptr_pos it = int (n + p) \<and> l = m)"
proof -
  define s where "s = (case start of None \<Rightarrow> buffer_start buf | Some s \<Rightarrow> s)"
  have s: "ptr_ok buf s n" using start ptr_ok_start by (auto simp: s_def split: option.splits)
  let ?xs = "drop n (contents buf)"
  note u = evbuffer_search_eol_def [of buf start st, folded s_def, unfolded Let_def]
  show ?thesis
  proof (cases st)
    case EVBUFFER_EOL_ANY
    note f = find_eol_ok [OF inv(1) s] and e = eol_at_first [of st ?xs]
    show ?thesis
    proof (cases "first_such is_eol ?xs")
      case None
      then show ?thesis using f e EVBUFFER_EOL_ANY unfolding u by auto
    next
      case (Some j)
      then obtain it where it: "evbuffer_find_eol_char buf s = Inr (int (n + j), it)" "ptr_byte buf it (n + j)" using f by auto
      note r = ptr_ok_rest [OF inv(1) ptr_byte_ok [OF it(2)]] and g = getchr_ok(2) [OF inv(1) it(2)]
      obtain i where i: "ptr_chain it = Some i" using it(2) by (auto simp: ptr_byte_def)
      have S: "(\<lambda>b. b \<in> set [13, 10]) = is_eol" by (rule ext) (auto simp: is_eol_def)
      have c: "fst (evbuffer_strspn buf it [13, 10]) = int (length (takeWhile is_eol (drop (n + j) (contents buf))))"
        using strspn_loop_ok [OF r(1,2), of "[13, 10]" i 0, unfolded r(3) S] i by (auto simp: evbuffer_strspn_def split: prod.split)
      have "is_eol (contents buf ! (n + j))" using Some g unfolding first_such_Some by simp
      then have "eol_at st (drop (n + j) (contents buf)) = Some (0, length (takeWhile is_eol (drop (n + j) (contents buf))))"
        using EVBUFFER_EOL_ANY g by (simp add: Cons_nth_drop_Suc [symmetric] eol_here_def Let_def)
      then have "eol_at st ?xs = Some (j, length (takeWhile is_eol (drop (n + j) (contents buf))))" using e Some by (simp add: add.commute)
      then show ?thesis using it c EVBUFFER_EOL_ANY unfolding u by (simp add: ptr_byte_def)
    qed
  next
    case EVBUFFER_EOL_CRLF
    obtain it r where *: "crlf_loop buf s = Some (Inr (it, r))"
        "case eol_at st ?xs of None \<Rightarrow> r = None | Some (p, l) \<Rightarrow> r = Some l \<and> ptr_pos it = int (n + p)"
      using crlf_loop_ok [OF inv s] EVBUFFER_EOL_CRLF by auto
    show ?thesis
    proof (cases "eol_at st ?xs")
      case None
      then show ?thesis using * EVBUFFER_EOL_CRLF unfolding u by simp
    next
      case (Some a)
      then show ?thesis using * EVBUFFER_EOL_CRLF unfolding u by (cases a) simp
    qed
  next
    case EVBUFFER_EOL_CRLF_STRICT
    obtain it where it: "evbuffer_search buf [13, 10] (Some s) = Inr it" "search_result buf [13, 10] None n it"
      using search_range_ok [OF inv, where p = "[13, 10]" and start = "Some s" and n = n and fin = None] s by (auto simp: EV_SSIZE_MAX_def evbuffer_search_def)
    show ?thesis
    proof (cases "str_find (contents buf) [13, 10] n")
      case None
      then show ?thesis using it EVBUFFER_EOL_CRLF_STRICT unfolding u by (simp add: eol_at_STRICT search_result_def)
    next
      case (Some q)
      then have "n \<le> q" using str_find_SomeD [OF Some] by simp
      then show ?thesis using it Some EVBUFFER_EOL_CRLF_STRICT unfolding u by (simp add: eol_at_STRICT search_result_def ptr_byte_def)
    qed
  next
    case EVBUFFER_EOL_LF
    have "memchr 10 = first_such (\<lambda>b. b = 10)" by (simp add: memchr_def)
    with scan_from_ok [OF inv(1) s, of "\<lambda>b. b = 10"] EVBUFFER_EOL_LF show ?thesis
      unfolding u by (cases "first_such (\<lambda>b. b = 10) ?xs") (auto simp: eol_at_LF evbuffer_strchr_def ptr_byte_def)
  qed
qed

section \<open>Reading lines\<close>

lemma readln_ok:
  assumes b: "evb_ok buf" "length (contents buf) \<le> 2 ^ 62"
  shows "case eol_at st (contents buf) of
      None \<Rightarrow> evbuffer_readln True st buf = Inr (None, buf)
    | Some (p, n) \<Rightarrow> \<exists>b. evbuffer_readln True st buf = Inr (Some (take p (contents buf)), b) \<and> evb_ok b \<and> contents b = drop (p + n) (contents buf)"
proof -
  note i = evb_okD [OF b(1)]
  obtain it l where it: "evbuffer_search_eol buf None st = Inr (it, l)"
      "case eol_at st (contents buf) of None \<Rightarrow> ptr_pos it = - 1 | Some (p, m) \<Rightarrow> ptr_pos it = int p \<and> l = m"
    using search_eol_ok [OF i(1) b(2), where start = None and n = 0 and st = st, unfolded drop_0 add_0] by auto
  show ?thesis
  proof (cases "eol_at st (contents buf)")
    case None
    then show ?thesis using it i by (simp add: evbuffer_readln_def)
  next
    case (Some a)
    then obtain p n where a: "eol_at st (contents buf) = Some (p, n)" by (cases a) auto
    obtain b1 where b1: "evbuffer_remove p buf = Inr (int (min p (length (contents buf))), take p (contents buf), b1)" "evb_inv b1"
        "contents b1 = drop p (contents buf)" "frozen b1 = frozen buf" using evbuffer_remove_spec [OF i(1,2)] by blast
    have ok1: "evb_ok b1" by (rule evb_okI [OF b1(2,4) b(1)])
    obtain b2 where b2: "evbuffer_drain n b1 = Inr (0, b2)" "evb_inv b2" "contents b2 = drop n (contents b1)" "frozen b2 = frozen b1"
      using evbuffer_drain_spec [OF evb_okD(1,2) [OF ok1]] by blast
    have "evb_ok b2" by (rule evb_okI [OF b2(2,4) ok1])
    then show ?thesis using a it i b1 b2 by (simp add: evbuffer_readln_def add.commute)
  qed
qed

text \<open>The lines of a stream and what is left after the last line end.\<close>

function lines_of :: "evbuffer_eol_style \<Rightarrow> byte list \<Rightarrow> byte list list \<times> byte list" where
  "lines_of st xs =
     (case eol_at st xs of
        None \<Rightarrow> ([], xs)
      | Some (p, n) \<Rightarrow> let (ls, r) = lines_of st (drop (p + n) xs) in (take p xs # ls, r))"
  by pat_completeness auto
termination
  by (relation "measure (\<lambda>(st, xs). length xs)") (auto dest!: eol_at_bounds)

declare lines_of.simps [simp del]

lemma lines_of_stop: "eol_at st xs = None \<Longrightarrow> lines_of st xs = ([], xs)"
  by (simp add: lines_of.simps)

lemma lines_of_step:
  "eol_at st xs = Some (p, n) \<Longrightarrow> lines_of st xs = (take p xs # fst (lines_of st (drop (p + n) xs)), snd (lines_of st (drop (p + n) xs)))"
  by (subst lines_of.simps) (simp add: split_def Let_def)

text \<open>A client that reads all lines there are each time a piece of the stream has arrived.\<close>

fun read_lines :: "nat \<Rightarrow> evbuffer_eol_style \<Rightarrow> evbuffer \<Rightarrow> (byte list list \<times> evbuffer) ev_result" where
  "read_lines 0 st b = Inl No_return"
| "read_lines (Suc n) st b =
     bind_result (evbuffer_readln True st b) (\<lambda>(l, b). case l of
       None \<Rightarrow> Inr ([], b)
     | Some l \<Rightarrow> bind_result (read_lines n st b) (\<lambda>(ls, b). Inr (l # ls, b)))"

fun receive_pieces :: "evbuffer_eol_style \<Rightarrow> byte list list \<Rightarrow> evbuffer \<Rightarrow> (byte list list \<times> evbuffer) ev_result" where
  "receive_pieces st [] b = Inr ([], b)"
| "receive_pieces st (d # ds) b =
     bind_result (evbuffer_add True d b) (\<lambda>(r, b).
     bind_result (read_lines (Suc (evbuffer_get_length b)) st b) (\<lambda>(ls, b).
     bind_result (receive_pieces st ds b) (\<lambda>(ls', b). Inr (ls @ ls', b))))"

lemma read_lines_ok:
  "evb_ok b \<Longrightarrow> length (contents b) \<le> 2 ^ 62 \<Longrightarrow> length (contents b) < n \<Longrightarrow>
     \<exists>b'. read_lines n st b = Inr (fst (lines_of st (contents b)), b') \<and> evb_ok b' \<and> contents b' = snd (lines_of st (contents b))"
proof (induction n arbitrary: b)
  case (Suc n)
  show ?case
  proof (cases "eol_at st (contents b)")
    case None
    then show ?thesis using readln_ok [OF Suc.prems(1,2), of st] Suc.prems(1) by (simp add: lines_of.simps [of st "contents b"])
  next
    case (Some a)
    then obtain p m where a: "eol_at st (contents b) = Some (p, m)" by (cases a) auto
    then obtain b1 where b1: "evbuffer_readln True st b = Inr (Some (take p (contents b)), b1)" "evb_ok b1" "contents b1 = drop (p + m) (contents b)"
      using readln_ok [OF Suc.prems(1,2), of st] by auto
    have "length (contents b1) \<le> 2 ^ 62" "length (contents b1) < n" using eol_at_bounds [OF a] Suc.prems(2,3) unfolding b1(3) by auto
    from Suc.IH [OF b1(2) this] obtain b' where "read_lines n st b1 = Inr (fst (lines_of st (contents b1)), b')" "evb_ok b'"
        "contents b' = snd (lines_of st (contents b1))" by blast
    with a b1 show ?thesis by (auto simp: lines_of.simps [of st "contents b"] split: prod.split)
  qed
qed simp

fun pieces_lines :: "evbuffer_eol_style \<Rightarrow> byte list list \<Rightarrow> byte list \<Rightarrow> byte list list \<times> byte list" where
  "pieces_lines st [] r = ([], r)"
| "pieces_lines st (d # ds) r = (let (l, r) = lines_of st (r @ d); (l', r) = pieces_lines st ds r in (l @ l', r))"

lemma lines_of_rest: "length (snd (lines_of st xs)) \<le> length xs"
proof (induction st xs rule: lines_of.induct)
  case (1 st xs)
  show ?case
  proof (cases "eol_at st xs")
    case None
    then show ?thesis by (simp add: lines_of.simps)
  next
    case (Some a)
    obtain p n where a: "a = (p, n)" by (cases a)
    have "length (snd (lines_of st (drop (p + n) xs))) \<le> length xs - (p + n)" using "1.IH" [OF Some a [symmetric]] by simp
    then show ?thesis using Some a by (simp add: lines_of_step)
  qed
qed

lemma receive_pieces_ok:
  "evb_ok b \<Longrightarrow> length (contents b) + length (concat ds) \<le> 2 ^ 62 \<Longrightarrow>
     \<exists>b'. receive_pieces st ds b = Inr (fst (pieces_lines st ds (contents b)), b') \<and> contents b' = snd (pieces_lines st ds (contents b))"
proof (induction ds arbitrary: b)
  case (Cons d ds)
  have "length d \<le> 2 ^ 62" using Cons.prems(2) by simp
  then obtain b1 where b1: "evbuffer_add True d b = Inr (0, b1)" "evb_inv b1" "contents b1 = contents b @ d" "frozen b1 = frozen b"
    using evbuffer_add_spec [OF evb_okD(1,3) [OF Cons.prems(1)], of d True] by auto
  have ok1: "evb_ok b1" by (rule evb_okI [OF b1(2,4) Cons.prems(1)])
  have len: "length (contents b1) \<le> 2 ^ 62" "evbuffer_get_length b1 = length (contents b1)"
    using Cons.prems(2) b1(2,3) by (simp_all add: evbuffer_get_length_def evb_inv_def)
  obtain b2 where b2: "read_lines (Suc (length (contents b1))) st b1 = Inr (fst (lines_of st (contents b1)), b2)" "evb_ok b2"
      "contents b2 = snd (lines_of st (contents b1))" using read_lines_ok [OF ok1 len(1), of "Suc (length (contents b1))"] by auto
  have "length (contents b2) + length (concat ds) \<le> 2 ^ 62" using lines_of_rest [of st "contents b1"] Cons.prems(2) unfolding b2(3) b1(3) by simp
  from Cons.IH [OF b2(2) this] obtain b3 where b3: "receive_pieces st ds b2 = Inr (fst (pieces_lines st ds (contents b2)), b3)"
      "contents b3 = snd (pieces_lines st ds (contents b2))" by blast
  have "receive_pieces st (d # ds) b = Inr (fst (lines_of st (contents b1)) @ fst (pieces_lines st ds (contents b2)), b3)"
    unfolding receive_pieces.simps b1(1) bind_result.simps prod.case len(2) b2(1) b3(1) ..
  then show ?case using b3(2) unfolding b2(3) b1(3) by (auto simp: Let_def split: prod.split)
qed simp

section \<open>Pieces of a stream\<close>

text \<open>Two bytes decide whether a line end other than \<open>EVBUFFER_EOL_ANY\<close> stands at a place.\<close>

lemma eol_here_append: "st \<noteq> EVBUFFER_EOL_ANY \<Longrightarrow> 2 \<le> length xs \<Longrightarrow> eol_here st (xs @ ys) = eol_here st xs"
  by (cases xs; cases "tl xs") (auto simp: eol_here_def split: evbuffer_eol_style.split)

lemma eol_here_one: "st \<noteq> EVBUFFER_EOL_ANY \<Longrightarrow> eol_here st [x] = Some n \<Longrightarrow> eol_here st (x # ys) = Some n"
  by (auto simp: eol_here_def split: evbuffer_eol_style.splits if_splits)

lemma eol_at_append: "st \<noteq> EVBUFFER_EOL_ANY \<Longrightarrow> eol_at st xs = Some a \<Longrightarrow> eol_at st (xs @ ys) = Some a"
proof (induction xs arbitrary: a)
  case (Cons x xs)
  show ?case
  proof (cases "xs = []")
    case True
    then obtain n where n: "eol_here st [x] = Some n" "a = (0, n)" using Cons.prems(2) by (auto split: option.splits)
    show ?thesis using eol_here_one [OF Cons.prems(1) n(1), of ys] n(2) True by simp
  next
    case False
    then have e: "eol_here st (x # xs @ ys) = eol_here st (x # xs)" using eol_here_append [OF Cons.prems(1), of "x # xs" ys] by (cases xs) simp_all
    show ?thesis
    proof (cases "eol_here st (x # xs)")
      case None
      then obtain b where b: "eol_at st xs = Some b" "a = (\<lambda>(p, n). (Suc p, n)) b" using Cons.prems(2) by auto
      then show ?thesis using Cons.IH [OF Cons.prems(1) b(1)] None e by simp
    next
      case (Some n)
      then show ?thesis using Cons.prems(2) e by simp
    qed
  qed
qed simp

lemma lines_of_append:
  "st \<noteq> EVBUFFER_EOL_ANY \<Longrightarrow>
     lines_of st (xs @ ys) = (let (l, r) = lines_of st xs; (l', r') = lines_of st (r @ ys) in (l @ l', r'))"
proof (induction st xs rule: lines_of.induct)
  case (1 st xs)
  show ?case
  proof (cases "eol_at st xs")
    case None
    then show ?thesis by (simp add: lines_of.simps [of st xs] split: prod.split)
  next
    case (Some a)
    obtain p n where a: "a = (p, n)" by (cases a)
    have b: "p + n \<le> length xs" using eol_at_bounds Some a by blast
    have "eol_at st (xs @ ys) = Some (p, n)" using eol_at_append [OF "1.prems" Some] a by simp
    with b have "lines_of st (xs @ ys) = (let (ls, r) = lines_of st (drop (p + n) xs @ ys) in (take p xs # ls, r))"
      by (subst lines_of.simps) simp
    then show ?thesis using "1.IH" [OF Some a [symmetric] "1.prems"] Some a by (simp add: lines_of.simps [of st xs] Let_def split: prod.splits)
  qed
qed

lemma lines_of_rest_none: "eol_at st (snd (lines_of st xs)) = None"
proof (induction st xs rule: lines_of.induct)
  case (1 st xs)
  show ?case
  proof (cases "eol_at st xs")
    case None
    then show ?thesis by (simp add: lines_of.simps)
  next
    case (Some a)
    obtain p n where a: "a = (p, n)" by (cases a)
    show ?thesis using "1.IH" [OF Some a [symmetric]] Some a by (simp add: lines_of_step)
  qed
qed

lemma pieces_lines_eq: "st \<noteq> EVBUFFER_EOL_ANY \<Longrightarrow> eol_at st r = None \<Longrightarrow> pieces_lines st ds r = lines_of st (r @ concat ds)"
proof (induction ds arbitrary: r)
  case Nil
  then show ?case by (simp add: lines_of.simps)
next
  case (Cons d ds)
  obtain l r1 where l: "lines_of st (r @ d) = (l, r1)" by (cases "lines_of st (r @ d)")
  have "eol_at st r1 = None" using lines_of_rest_none [of st "r @ d"] l by simp
  from Cons.IH [OF Cons.prems(1) this] have "pieces_lines st (d # ds) r = (let (l', r') = lines_of st (r1 @ concat ds) in (l @ l', r'))" using l by simp
  also have "\<dots> = lines_of st ((r @ d) @ concat ds)" using lines_of_append [OF Cons.prems(1), of "r @ d" "concat ds"] l by simp
  finally show ?case by simp
qed

text \<open>
  C33. A client that reads lines from an evbuffer, all there are each time a piece of the stream has been added, reads exactly the lines
  of the stream, and what is behind the last line end is left in the buffer: the pieces may end anywhere, also between the carriage return and the line feed
  of a line end. For the styles \<open>EVBUFFER_EOL_LF\<close>, \<open>EVBUFFER_EOL_CRLF\<close> and \<open>EVBUFFER_EOL_CRLF_STRICT\<close>; with \<open>EVBUFFER_EOL_ANY\<close> the lines
  depend on the pieces.
\<close>

theorem evbuffer_lines_of_pieces:
  assumes "st \<noteq> EVBUFFER_EOL_ANY" "length (concat ds) \<le> 2 ^ 62"
  shows "\<exists>b. receive_pieces st ds evbuffer_new = Inr (fst (lines_of st (concat ds)), b) \<and> contents b = snd (lines_of st (concat ds))"
  using receive_pieces_ok [OF evb_ok_new(1), of ds st] assms pieces_lines_eq [OF assms(1), of "[]" ds] by (simp add: evb_ok_new(2))

theorem evbuffer_lines_of_pieces_witness:
  "\<exists>b. receive_pieces EVBUFFER_EOL_CRLF [[65, 13], [10, 66], [10, 67]] evbuffer_new = Inr ([[65], [66]], b) \<and> contents b = [67]"
proof -
  have "lines_of EVBUFFER_EOL_CRLF [65, 13, 10, 66, 10, 67] = ([[65], [66]], [67])"
    by (simp add: lines_of.simps eol_here_def)
  then show ?thesis using evbuffer_lines_of_pieces [of EVBUFFER_EOL_CRLF "[[65, 13], [10, 66], [10, 67]]"] by simp
qed

text \<open>With \<open>EVBUFFER_EOL_ANY\<close> a line end that is cut in two gives an empty line that is not there otherwise.\<close>

theorem eol_any_depends_on_pieces:
  "(\<exists>b. receive_pieces EVBUFFER_EOL_ANY [[65, 13], [10, 66, 10]] evbuffer_new = Inr ([[65], [], [66]], b)) \<and>
   (\<exists>b. receive_pieces EVBUFFER_EOL_ANY [[65, 13, 10, 66, 10]] evbuffer_new = Inr ([[65], [66]], b))"
proof
  have "pieces_lines EVBUFFER_EOL_ANY [[65, 13], [10, 66, 10]] [] = ([[65], [], [66]], [])"
    by (simp add: lines_of.simps eol_here_def is_eol_def Let_def)
  then show "\<exists>b. receive_pieces EVBUFFER_EOL_ANY [[65, 13], [10, 66, 10]] evbuffer_new = Inr ([[65], [], [66]], b)"
    using receive_pieces_ok [OF evb_ok_new(1), of "[[65, 13], [10, 66, 10]]" EVBUFFER_EOL_ANY] by (auto simp: evb_ok_new(2))
  have "pieces_lines EVBUFFER_EOL_ANY [[65, 13, 10, 66, 10]] [] = ([[65], [66]], [])"
    by (simp add: lines_of.simps eol_here_def is_eol_def Let_def)
  then show "\<exists>b. receive_pieces EVBUFFER_EOL_ANY [[65, 13, 10, 66, 10]] evbuffer_new = Inr ([[65], [66]], b)"
    using receive_pieces_ok [OF evb_ok_new(1), of "[[65, 13, 10, 66, 10]]" EVBUFFER_EOL_ANY] by (auto simp: evb_ok_new(2))
qed

text \<open>
  How many extents are needed: three chains of one byte need three from the start on, of which \<open>evbuffer_peek\<close> counts two when the start is
  given as a position.
\<close>

definition byte_chain :: evbuffer_chain where
  "byte_chain = \<lparr>ch_buffer = [65], ch_misalign = 0, ch_off = 1, ch_flags = 0\<rparr>"

theorem evbuffer_peek_undercounts:
  "let buf = evbuffer_new\<lparr>eb_chains := [byte_chain, byte_chain, byte_chain], eb_lwd := 2, eb_total_len := 3\<rparr> in
   evb_inv buf \<and> evbuffer_peek buf (- 1) None 0 = Inr ([], 3) \<and> evbuffer_peek buf (- 1) (Some (buffer_start buf)) 0 = Inr ([], 2) \<and>
   evbuffer_peek buf (- 1) (Some (buffer_start buf)) 3 = Inr ([[65], [65], [65]], 3)"
  by (simp add: Let_def evb_inv_def contents_def chain_data_def chain_ok_def CHAIN_PINNED_def buffer_len_def lwd_ok_def byte_chain_def
      evbuffer_peek_def buffer_start_def chains_at_def data_from_def evbuffer_new_def)

end
