(* ===== verification/Ev_Buffer_Io.thy ===== *)
theory Ev_Buffer_Io
  imports Ev_Buffer
begin

text \<open>
  Space at the end of an evbuffer and reading and writing sockets (\<open>sample/tcp/libevent/buffer.c\<close>, the build with \<open>readv\<close> and \<open>writev\<close>). What the
  system answers are arguments: \<open>readable\<close> the result of \<open>ioctl\<close>, \<open>rv\<close> the bytes \<open>readv\<close> reads into areas of given sizes (\<open>None\<close> for -1), \<open>wv\<close>
  the result of \<open>writev\<close> of given data, \<open>sendfile\<close> that of sending a chain that is a file. The address of an area is the index of its chain and the
  offset in the memory of the chain.
\<close>

section \<open>Space in several chains\<close>

text \<open>
  The loop of \<open>_evbuffer_expand_fast\<close> over the chains from \<open>last_with_datap\<close> on: whether there is enough space, how much there is,
  in how many chains, and the chains with the empty ones realigned.
\<close>

fun fast_loop :: "nat \<Rightarrow> nat \<Rightarrow> bool \<Rightarrow> evbuffer_chain list \<Rightarrow> nat \<Rightarrow> nat \<Rightarrow> (bool \<times> nat \<times> nat \<times> evbuffer_chain list) ev_result" where
  "fast_loop datlen n at_lwd [] avail used = Inr (False, avail, used, [])"
| "fast_loop datlen n at_lwd (c # cs) avail used =
     bind_result
       (if ch_off c \<noteq> 0
        then if \<not> at_lwd then Inl Assert_failed
             else Inr (c, avail + CHAIN_SPACE_LEN c, if CHAIN_SPACE_LEN c \<noteq> 0 then used + 1 else used)
        else Inr (c\<lparr>ch_misalign := 0\<rparr>, avail + buffer_len c, used + 1))
       (\<lambda>(c, avail, used).
          if avail \<ge> datlen then Inr (True, avail, used, c # cs)
          else if used = n then Inr (False, avail, used, c # cs)
          else bind_result (fast_loop datlen n False cs avail used) (\<lambda>(e, a, u, cs). Inr (e, a, u, c # cs)))"

definition evbuffer_expand_fast :: "bool \<Rightarrow> nat \<Rightarrow> nat \<Rightarrow> evbuffer \<Rightarrow> (int \<times> evbuffer) ev_result" where
  "evbuffer_expand_fast mem datlen n buf =
     (if n < 2 then Inl Assert_failed
      else if eb_chains buf = [] \<or> is_immutable (last (eb_chains buf))
      then bind_result (evbuffer_chain_new mem datlen) (\<lambda>t. case t of
             None \<Rightarrow> Inr (- 1, buf)
           | Some chain \<Rightarrow> bind_result (evbuffer_chain_insert chain buf) (\<lambda>buf. Inr (0, buf)))
      else bind_result (fast_loop datlen n True (drop (eb_lwd buf) (eb_chains buf)) 0 0) (\<lambda>(enough, avail, used, cs).
        let buf = buf\<lparr>eb_chains := take (eb_lwd buf) (eb_chains buf) @ cs\<rparr> in
        if enough then Inr (0, buf)
        else if used < n
        then bind_result (evbuffer_chain_new mem (datlen - avail)) (\<lambda>t. case t of
               None \<Rightarrow> Inr (- 1, buf)
             | Some tmp \<Rightarrow> Inr (0, buf\<lparr>eb_chains := eb_chains buf @ [tmp]\<rparr>))
        else case cs of
               [] \<Rightarrow> Inl Null_deref
             | chain # rest \<Rightarrow>
                 let rmv_all = (ch_off chain = 0);
                     avail = (if rmv_all then 0 else CHAIN_SPACE_LEN chain) in
                 if rmv_all \<and> eb_lwd buf \<noteq> 0 then Inl Assert_failed
                 else if \<not> evbuffer_chains_all_empty rest then Inl Assert_failed
                 else bind_result (evbuffer_chain_new mem (datlen - avail)) (\<lambda>t. case t of
                        None \<Rightarrow> Inr (- 1, if rmv_all then ZERO_CHAIN buf else buf\<lparr>eb_chains := take (eb_lwd buf + 1) (eb_chains buf)\<rparr>)
                      | Some tmp \<Rightarrow>
                          Inr (0, if rmv_all then buf\<lparr>eb_chains := [tmp], eb_lwd := 0\<rparr>
                                  else buf\<lparr>eb_chains := take (eb_lwd buf + 1) (eb_chains buf) @ [tmp]\<rparr>))))"

record evbuffer_iovec =
  iov_chain :: nat
  iov_offset :: nat
  iov_len :: nat

definition chain_space :: "nat \<Rightarrow> evbuffer_chain \<Rightarrow> nat \<Rightarrow> evbuffer_iovec" where
  "chain_space i c n = \<lparr>iov_chain = i, iov_offset = ch_misalign c + ch_off c, iov_len = n\<rparr>"

text \<open>The first chain with space, from \<open>last_with_datap\<close> on.\<close>

definition first_space :: "evbuffer \<Rightarrow> nat ev_result" where
  "first_space buf =
     (if length (eb_chains buf) \<le> eb_lwd buf then Inl Null_deref
      else Inr (if CHAIN_SPACE_LEN (eb_chains buf ! eb_lwd buf) = 0 then eb_lwd buf + 1 else eb_lwd buf))"

fun setup_loop :: "bool \<Rightarrow> nat \<Rightarrow> nat \<Rightarrow> nat \<Rightarrow> evbuffer_chain list \<Rightarrow> nat \<Rightarrow> evbuffer_iovec list ev_result" where
  "setup_loop exact howmuch 0 i cs so_far = Inr []"
| "setup_loop exact howmuch (Suc n) i cs so_far =
     (if so_far \<ge> howmuch then Inr []
      else case cs of
             [] \<Rightarrow> Inl Null_deref
           | c # cs \<Rightarrow>
               let avail = CHAIN_SPACE_LEN c;
                   avail = (if avail > howmuch - so_far \<and> exact then howmuch - so_far else avail) in
               bind_result (setup_loop exact howmuch n (i + 1) cs (so_far + avail)) (\<lambda>v. Inr (chain_space i c avail # v)))"

text \<open>\<open>None\<close> stands for -1; otherwise the first chain and the areas.\<close>

definition evbuffer_read_setup_vecs :: "evbuffer \<Rightarrow> int \<Rightarrow> nat \<Rightarrow> bool \<Rightarrow> (nat \<times> evbuffer_iovec list) option ev_result" where
  "evbuffer_read_setup_vecs buf howmuch n_vecs exact =
     (if howmuch < 0 then Inr None
      else bind_result (first_space buf) (\<lambda>i.
        bind_result (setup_loop exact (nat howmuch) n_vecs i (drop i (eb_chains buf)) 0) (\<lambda>v. Inr (Some (i, v)))))"

section \<open>Reserving and committing space\<close>

text \<open>The number of areas, -1 on failure, and the areas. A negative size converted to \<open>size_t\<close> is written out.\<close>

definition evbuffer_reserve_space :: "bool \<Rightarrow> int \<Rightarrow> int \<Rightarrow> evbuffer \<Rightarrow> (int \<times> evbuffer_iovec list \<times> evbuffer) ev_result" where
  "evbuffer_reserve_space mem sz n_vecs buf =
     (if eb_freeze_end buf \<or> n_vecs < 1 then Inr (- 1, [], buf)
      else let datlen = nat (sz mod 2 ^ 64) in
        if n_vecs = 1
        then bind_result (evbuffer_expand_singlechain mem datlen buf) (\<lambda>r. case r of
               None \<Rightarrow> Inr (- 1, [], buf)
             | Some (i, buf) \<Rightarrow>
                 let c = eb_chains buf ! i in
                 if sz < 0 \<or> CHAIN_SPACE_LEN c \<ge> datlen then Inr (1, [chain_space i c (CHAIN_SPACE_LEN c)], buf) else Inl Assert_failed)
        else bind_result (evbuffer_expand_fast mem datlen (nat n_vecs) buf) (\<lambda>(r, buf).
               if r < 0 then Inr (- 1, [], buf)
               else bind_result (evbuffer_read_setup_vecs buf sz (nat n_vecs) False) (\<lambda>v. case v of
                 None \<Rightarrow> Inr (- 1, [], buf)
               | Some (i, v) \<Rightarrow> Inr (int (length v), v, buf))))"

text \<open>The first pass of \<open>evbuffer_commit_space\<close>, and the second one with the index of the last chain that gets data.\<close>

fun commit_ok :: "evbuffer_iovec list \<Rightarrow> nat \<Rightarrow> evbuffer_chain list \<Rightarrow> bool" where
  "commit_ok [] i cs = True"
| "commit_ok (v # vs) i [] = False"
| "commit_ok (v # vs) i (c # cs) =
     (iov_chain v = i \<and> iov_offset v = ch_misalign c + ch_off c \<and> iov_len v \<le> CHAIN_SPACE_LEN c \<and> commit_ok vs (i + 1) cs)"

fun commit_loop :: "evbuffer_iovec list \<Rightarrow> nat \<Rightarrow> nat \<Rightarrow> evbuffer_chain list \<Rightarrow> nat \<times> nat \<times> evbuffer_chain list" where
  "commit_loop [] i lwd cs = (0, lwd, cs)"
| "commit_loop (v # vs) i lwd [] = (0, lwd, [])"
| "commit_loop (v # vs) i lwd (c # cs) =
     (case commit_loop vs (i + 1) (if iov_len v \<noteq> 0 then i else lwd) cs of
        (added, lwd, cs) \<Rightarrow> (iov_len v + added, lwd, c\<lparr>ch_off := ch_off c + iov_len v\<rparr> # cs))"

definition evbuffer_commit_space :: "evbuffer_iovec list \<Rightarrow> evbuffer \<Rightarrow> (int \<times> evbuffer) ev_result" where
  "evbuffer_commit_space vec buf =
     (if eb_freeze_end buf then Inr (- 1, buf)
      else if vec = [] then Inr (0, buf)
      else let k = length (eb_chains buf) - 1; c = last (eb_chains buf) in
        if length vec = 1 \<and> eb_chains buf \<noteq> [] \<and> iov_chain (hd vec) = k \<and> iov_offset (hd vec) = ch_misalign c + ch_off c
        then let added = iov_len (hd vec) in
             if added > CHAIN_SPACE_LEN c then Inr (- 1, buf)
             else let b = set_last (c\<lparr>ch_off := ch_off c + added\<rparr>) buf;
                      b = (if added \<noteq> 0 then advance_last_with_data b else b) in
               Inr (0, evbuffer_invoke_callbacks (account added b))
        else if length (eb_chains buf) \<le> eb_lwd buf then Inr (- 1, buf)
        else bind_result (first_space buf) (\<lambda>i.
          if \<not> commit_ok vec i (drop i (eb_chains buf)) then Inr (- 1, buf)
          else case commit_loop vec i (eb_lwd buf) (drop i (eb_chains buf)) of
                 (added, lwd, cs) \<Rightarrow>
                   Inr (0, evbuffer_invoke_callbacks (account added (buf\<lparr>eb_chains := take i (eb_chains buf) @ cs, eb_lwd := lwd\<rparr>)))))"

section \<open>Reading\<close>

definition EVBUFFER_MAX_READ :: int where "EVBUFFER_MAX_READ = 4096"
definition NUM_READ_IOVEC :: nat where "NUM_READ_IOVEC = 4"
definition NUM_WRITE_IOVEC :: nat where "NUM_WRITE_IOVEC = 128"

text \<open>What \<open>readv\<close> writes into the areas, one after another.\<close>

fun scatter :: "byte list \<Rightarrow> evbuffer_iovec list \<Rightarrow> evbuffer_chain list \<Rightarrow> evbuffer_chain list ev_result" where
  "scatter d [] cs = Inr cs"
| "scatter d (v # vs) [] = Inl Null_deref"
| "scatter d (v # vs) (c # cs) =
     bind_result (chain_write (iov_offset v) (take (iov_len v) d) c) (\<lambda>c.
     bind_result (scatter (drop (iov_len v) d) vs cs) (\<lambda>cs. Inr (c # cs)))"

text \<open>Which chains the bytes belong to; \<open>lwd\<close> is set where they end.\<close>

fun read_account :: "nat \<Rightarrow> nat \<Rightarrow> nat \<Rightarrow> nat \<Rightarrow> evbuffer_chain list \<Rightarrow> nat \<times> evbuffer_chain list" where
  "read_account 0 remaining i lwd cs = (lwd, cs)"
| "read_account (Suc nvecs) remaining i lwd [] = (lwd, [])"
| "read_account (Suc nvecs) remaining i lwd (c # cs) =
     (let space = CHAIN_SPACE_LEN c in
      if space < remaining
      then (case read_account nvecs (remaining - space) (i + 1) lwd cs of (lwd, cs) \<Rightarrow> (lwd, c\<lparr>ch_off := ch_off c + space\<rparr> # cs))
      else (i, c\<lparr>ch_off := ch_off c + remaining\<rparr> # cs))"

definition evbuffer_read :: "bool \<Rightarrow> int \<Rightarrow> (nat list \<Rightarrow> byte list option) \<Rightarrow> int \<Rightarrow> evbuffer \<Rightarrow> (int \<times> evbuffer) ev_result" where
  "evbuffer_read mem readable rv howmuch buf =
     (if eb_freeze_end buf then Inr (- 1, buf)
      else let n = (if readable \<le> 0 \<or> readable > EVBUFFER_MAX_READ then EVBUFFER_MAX_READ else readable);
               howmuch = (if howmuch < 0 \<or> howmuch > n then n else howmuch) in
        bind_result (evbuffer_expand_fast mem (nat howmuch) NUM_READ_IOVEC buf) (\<lambda>(r, buf).
          if r = - 1 then Inr (- 1, buf)
          else bind_result (evbuffer_read_setup_vecs buf howmuch NUM_READ_IOVEC True) (\<lambda>v. case v of
                 None \<Rightarrow> Inr (- 1, buf)
               | Some (i, vecs) \<Rightarrow>
                   (case rv (map iov_len vecs) of
                      None \<Rightarrow> Inr (- 1, buf)
                    | Some d \<Rightarrow>
                        if d = [] then Inr (0, buf)
                        else bind_result (scatter d vecs (drop i (eb_chains buf))) (\<lambda>cs.
                          case read_account (length vecs) (length d) i (eb_lwd buf) cs of
                            (lwd, cs) \<Rightarrow>
                              Inr (int (length d), evbuffer_invoke_callbacks (account (length d)
                                (buf\<lparr>eb_chains := take i (eb_chains buf) @ cs, eb_lwd := lwd\<rparr>))))))))"

section \<open>Writing\<close>

definition is_sendfile :: "evbuffer_chain \<Rightarrow> bool" where
  "is_sendfile c \<longleftrightarrow> ch_flags c AND EVBUFFER_SENDFILE \<noteq> 0"

fun write_iovecs :: "nat \<Rightarrow> nat \<Rightarrow> evbuffer_chain list \<Rightarrow> byte list list" where
  "write_iovecs 0 howmuch cs = []"
| "write_iovecs (Suc n) howmuch [] = []"
| "write_iovecs (Suc n) howmuch (c # cs) =
     (if howmuch = 0 \<or> is_sendfile c then []
      else if howmuch \<ge> ch_off c then chain_data c # write_iovecs n (howmuch - ch_off c) cs
      else [take howmuch (chain_data c)])"

definition evbuffer_write_iovec :: "(byte list list \<Rightarrow> int) \<Rightarrow> int \<Rightarrow> evbuffer \<Rightarrow> int" where
  "evbuffer_write_iovec wv howmuch buf =
     (if howmuch < 0 then - 1
      else let iov = write_iovecs NUM_WRITE_IOVEC (nat howmuch) (eb_chains buf) in if iov = [] then 0 else wv iov)"

definition evbuffer_write_atmost :: "(evbuffer_chain \<Rightarrow> int) \<Rightarrow> (byte list list \<Rightarrow> int) \<Rightarrow> int \<Rightarrow> evbuffer \<Rightarrow> (int \<times> evbuffer) ev_result" where
  "evbuffer_write_atmost sendfile wv howmuch buf =
     (if eb_freeze_start buf then Inr (- 1, buf)
      else let howmuch = (if howmuch < 0 \<or> howmuch > int (eb_total_len buf) then int (eb_total_len buf) else howmuch);
               n = (if howmuch > 0
                    then if eb_chains buf \<noteq> [] \<and> is_sendfile (hd (eb_chains buf)) then sendfile (hd (eb_chains buf))
                         else evbuffer_write_iovec wv howmuch buf
                    else - 1) in
        if n > 0 then bind_result (evbuffer_drain (nat n) buf) (\<lambda>(r, buf). Inr (n, buf)) else Inr (n, buf))"

definition evbuffer_write :: "(evbuffer_chain \<Rightarrow> int) \<Rightarrow> (byte list list \<Rightarrow> int) \<Rightarrow> evbuffer \<Rightarrow> (int \<times> evbuffer) ev_result" where
  "evbuffer_write sendfile wv buf = evbuffer_write_atmost sendfile wv (- 1) buf"

section \<open>Callbacks and references\<close>

definition EVBUFFER_CB_INTERNAL_FLAGS :: u32 where "EVBUFFER_CB_INTERNAL_FLAGS = 0xffff0000"

text \<open>A callback is known by its number, which stands for the function and its argument.\<close>

definition evbuffer_remove_cb :: "nat \<Rightarrow> evbuffer \<Rightarrow> int \<times> evbuffer" where
  "evbuffer_remove_cb cb buf =
     (let (pre, post) = (takeWhile (\<lambda>e. cb_id e \<noteq> cb) (eb_callbacks buf), dropWhile (\<lambda>e. cb_id e \<noteq> cb) (eb_callbacks buf)) in
      if post = [] then (- 1, buf) else (0, buf\<lparr>eb_callbacks := pre @ tl post\<rparr>))"

definition evbuffer_remove_all_callbacks :: "evbuffer \<Rightarrow> evbuffer" where
  "evbuffer_remove_all_callbacks buf = buf\<lparr>eb_callbacks := []\<rparr>"

text \<open>The flags of the entry at index \<open>i\<close>.\<close>

definition evbuffer_cb_set_flags :: "nat \<Rightarrow> u32 \<Rightarrow> evbuffer \<Rightarrow> evbuffer" where
  "evbuffer_cb_set_flags i flags buf =
     (let e = eb_callbacks buf ! i in
      buf\<lparr>eb_callbacks := (eb_callbacks buf)[i := e\<lparr>cb_flags := cb_flags e OR (flags AND NOT EVBUFFER_CB_INTERNAL_FLAGS)\<rparr>]\<rparr>)"

definition evbuffer_cb_clear_flags :: "nat \<Rightarrow> u32 \<Rightarrow> evbuffer \<Rightarrow> evbuffer" where
  "evbuffer_cb_clear_flags i flags buf =
     (let e = eb_callbacks buf ! i in
      buf\<lparr>eb_callbacks := (eb_callbacks buf)[i := e\<lparr>cb_flags := cb_flags e AND NOT (flags AND NOT EVBUFFER_CB_INTERNAL_FLAGS)\<rparr>]\<rparr>)"

definition evbuffer_defer_callbacks :: "evbuffer \<Rightarrow> evbuffer" where
  "evbuffer_defer_callbacks buf = buf\<lparr>eb_deferred_cbs := True\<rparr>"

definition evbuffer_incref :: "evbuffer \<Rightarrow> evbuffer" where
  "evbuffer_incref buf = buf\<lparr>eb_refcnt := eb_refcnt buf + 1\<rparr>"

text \<open>\<open>None\<close>: the buffer is freed.\<close>

definition evbuffer_decref_and_unlock :: "evbuffer \<Rightarrow> evbuffer option ev_result" where
  "evbuffer_decref_and_unlock buf =
     (if eb_refcnt buf = 0 then Inl Assert_failed
      else if eb_refcnt buf - 1 > 0 then Inr (Some (buf\<lparr>eb_refcnt := eb_refcnt buf - 1\<rparr>))
      else Inr None)"

end
