(* ===== verification/Ev_Io_Props.thy ===== *)
theory Ev_Io_Props
  imports Ev_Buffer_Io Ev_Buffer_Queue
begin

text \<open>
  Reading sockets into evbuffers and writing evbuffers to sockets: no byte is lost, doubled or moved, wherever the chains of
  the buffers end and however much the system takes or gives each time. A buffer that is read into may have several empty chains at its end, which
  \<open>evb_inv\<close> excludes: \<open>rd_inv\<close> is its invariant.
\<close>

section \<open>The invariant of a buffer that is read into\<close>

definition spare :: "evbuffer_chain \<Rightarrow> bool" where
  "spare c \<longleftrightarrow> ch_off c = 0 \<and> \<not> is_immutable c"

definition lwd_exact :: "nat \<Rightarrow> evbuffer_chain list \<Rightarrow> bool" where
  "lwd_exact i cs \<longleftrightarrow> (cs = [] \<and> i = 0) \<or>
     (\<exists>pre c es. cs = pre @ c # es \<and> i = length pre \<and> (\<forall>e\<in>set es. spare e) \<and> (ch_off c = 0 \<longrightarrow> pre = [] \<and> spare c))"

lemma lwd_exactI: "\<forall>e\<in>set es. spare e \<Longrightarrow> ch_off c = 0 \<longrightarrow> pre = [] \<and> spare c \<Longrightarrow> lwd_exact (length pre) (pre @ c # es)"
  unfolding lwd_exact_def by (rule disjI2, rule exI [of _ pre], rule exI [of _ c], rule exI [of _ es]) simp

definition rd_inv :: "evbuffer \<Rightarrow> bool" where
  "rd_inv buf \<longleftrightarrow> (\<forall>c\<in>set (eb_chains buf). chain_ok c) \<and> eb_total_len buf = length (contents buf) \<and> lwd_exact (eb_lwd buf) (eb_chains buf)"

abbreviation spaces :: "evbuffer_chain list \<Rightarrow> nat" where
  "spaces cs \<equiv> sum_list (map CHAIN_SPACE_LEN cs)"

lemma spare_data [simp]: "\<forall>e\<in>set es. spare e \<Longrightarrow> concat (map chain_data es) = []"
  by (simp add: spare_def)

lemma spaces_take: "m \<le> n \<Longrightarrow> spaces (take m cs) \<le> spaces (take n cs)"
proof -
  assume "m \<le> n"
  then have "take n cs = take m cs @ take (n - m) (drop m cs)" by (metis le_add_diff_inverse take_add)
  then show ?thesis by simp
qed

lemma realign_ok: "chain_ok c \<Longrightarrow> spare c \<Longrightarrow> chain_ok (c\<lparr>ch_misalign := 0\<rparr>) \<and> spare (c\<lparr>ch_misalign := 0\<rparr>) \<and> CHAIN_SPACE_LEN (c\<lparr>ch_misalign := 0\<rparr>) = buffer_len c"
  by (auto simp: chain_ok_def spare_def is_immutable_def buffer_len_def CHAIN_PINNED_def CHAIN_SPACE_LEN_def)

text \<open>The loop over empty chains.\<close>

lemma fast_loop_ok:
  "\<forall>e\<in>set es. chain_ok e \<and> spare e \<Longrightarrow> avail < datlen \<Longrightarrow> used < n \<Longrightarrow>
   \<exists>enough a u es'. fast_loop datlen n False es avail used = Inr (enough, a, u, es') \<and> (\<forall>e\<in>set es'. chain_ok e \<and> spare e) \<and> u \<le> n \<and>
     (if enough then \<exists>m. a = avail + spaces (take m es') \<and> u = used + m \<and> datlen \<le> a
      else a < datlen \<and> (u < n \<longrightarrow> a = avail + spaces es' \<and> u = used + length es'))"
proof (induction es arbitrary: avail used)
  case (Cons e es)
  let ?e = "e\<lparr>ch_misalign := 0\<rparr>"
  have e: "chain_ok ?e" "spare ?e" "CHAIN_SPACE_LEN ?e = buffer_len e" "ch_off e = 0" "\<forall>e\<in>set es. chain_ok e \<and> spare e"
    using realign_ok [of e] Cons.prems(1) by (auto simp: spare_def)
  consider "datlen \<le> avail + buffer_len e" | "avail + buffer_len e < datlen" "used + 1 = n" | "avail + buffer_len e < datlen" "used + 1 < n"
    using Cons.prems(3) by linarith
  then show ?case
  proof cases
    case 1
    then show ?thesis using e Cons.prems(3) by (auto intro!: exI [of _ 1])
  next
    case 2
    then show ?thesis using e by auto
  next
    case 3
    from Cons.IH [OF e(5) 3] obtain enough a u es' where r: "fast_loop datlen n False es (avail + buffer_len e) (used + 1) = Inr (enough, a, u, es')"
      "\<forall>e\<in>set es'. chain_ok e \<and> spare e" "u \<le> n"
      "if enough then \<exists>m. a = avail + buffer_len e + spaces (take m es') \<and> u = used + 1 + m \<and> datlen \<le> a
       else a < datlen \<and> (u < n \<longrightarrow> a = avail + buffer_len e + spaces es' \<and> u = used + 1 + length es')" by blast
    have "fast_loop datlen n False (e # es) avail used = Inr (enough, a, u, ?e # es')" using r(1) e(4) 3 by simp
    moreover have "\<exists>m. a = avail + spaces (take m (?e # es')) \<and> u = used + m \<and> datlen \<le> a" if "enough"
    proof -
      from r(4) that obtain m where "a = avail + buffer_len e + spaces (take m es')" "u = used + 1 + m" "datlen \<le> a" by auto
      then show ?thesis using e(3) by (intro exI [of _ "Suc m"]) simp
    qed
    ultimately show ?thesis using r(2-4) e(1-3) by (auto split: if_splits)
  qed
qed (auto intro!: exI [of _ False])

text \<open>There is room for \<open>datlen\<close> bytes in \<open>n\<close> chains from the first one with space on.\<close>

definition room :: "nat \<Rightarrow> nat \<Rightarrow> evbuffer \<Rightarrow> bool" where
  "room datlen n b \<longleftrightarrow> (\<exists>i. first_space b = Inr i \<and> datlen \<le> spaces (take n (drop i (eb_chains b))))"

lemma roomI:
  assumes b: "eb_chains b = pre @ c # es" "eb_lwd b = length pre"
    and m: "datlen \<le> CHAIN_SPACE_LEN c + spaces (take m es)" "m \<le> n" "CHAIN_SPACE_LEN c \<noteq> 0 \<Longrightarrow> Suc m \<le> n"
  shows "room datlen n b"
proof (cases "CHAIN_SPACE_LEN c = 0")
  case True
  then have "datlen \<le> spaces (take n es)" using m(1) spaces_take [OF m(2), of es] by simp
  then show ?thesis using True b by (simp add: room_def first_space_def nth_append)
next
  case False
  then obtain n' where "n = Suc n'" "m \<le> n'" using m(3) by (cases n) auto
  then have "datlen \<le> spaces (take n (c # es))" using m(1) spaces_take [of m n' es] by simp
  then show ?thesis using False b by (simp add: room_def first_space_def nth_append)
qed

text \<open>A buffer with the same data in the chains up to \<open>last_with_datap\<close>, and spare chains behind.\<close>

lemma rd_invI:
  assumes inv: "rd_inv buf" and old: "eb_chains buf = pre @ c # es" "\<forall>e\<in>set es. spare e"
    and new: "eb_chains b = pre @ c' # es'" "eb_lwd b = length pre" "chain_ok c'" "chain_data c' = chain_data c" "ch_off c' = 0 \<longrightarrow> pre = [] \<and> spare c'"
      "\<forall>e\<in>set es'. chain_ok e \<and> spare e" "eb_total_len b = eb_total_len buf"
  shows "rd_inv b" "contents b = contents buf"
proof -
  have e: "concat (map chain_data es) = []" "concat (map chain_data es') = []" using old(2) new(6) by simp_all
  show c: "contents b = contents buf" unfolding contents_def old(1) new(1) map_append list.map concat_append concat.simps e new(4) ..
  have "\<forall>c\<in>set (eb_chains b). chain_ok c" using inv old(1) new(1,3,6) by (auto simp: rd_inv_def)
  moreover have "lwd_exact (eb_lwd b) (eb_chains b)" unfolding new(1,2) by (rule lwd_exactI) (use new(5,6) in auto)
  ultimately show "rd_inv b" using inv c new(7) by (simp add: rd_inv_def)
qed

lemma chain_new_spare:
  "sz \<le> 2 ^ 62 \<Longrightarrow> \<exists>t. evbuffer_chain_new True sz = Inr (Some t) \<and> chain_ok t \<and> spare t \<and> sz \<le> CHAIN_SPACE_LEN t \<and> CHAIN_SPACE_LEN t \<noteq> 0 \<and> ch_off t = 0"
  using chain_new_ok(2) [of sz] new_not_immutable by (fastforce simp: spare_def CHAIN_SPACE_LEN_def)

lemma expand_fast_new:
  assumes inv: "rd_inv buf" and n: "2 \<le> n" and len: "datlen \<le> 2 ^ 62" and new: "eb_chains buf = [] \<or> is_immutable (last (eb_chains buf))"
  shows "\<exists>b. evbuffer_expand_fast True datlen n buf = Inr (0, b) \<and> rd_inv b \<and> contents b = contents buf \<and> frozen b = frozen buf \<and> room datlen n b"
proof -
  obtain t where t: "evbuffer_chain_new True datlen = Inr (Some t)" "chain_ok t" "spare t" "datlen \<le> CHAIN_SPACE_LEN t" "CHAIN_SPACE_LEN t \<noteq> 0" "ch_off t = 0"
    using chain_new_spare [OF len] by blast
  have run: "evbuffer_expand_fast True datlen n buf = bind_result (evbuffer_chain_insert t buf) (\<lambda>buf. Inr (0, buf))"
    using n new t(1) by (simp add: evbuffer_expand_fast_def)
  show ?thesis
  proof (cases "eb_chains buf = []")
    case True
    then have l: "eb_lwd buf = 0" "eb_total_len buf = 0" using inv by (auto simp: rd_inv_def lwd_exact_def contents_def)
    let ?b = "buf\<lparr>eb_chains := [t], eb_total_len := 0\<rparr>"
    have "evbuffer_chain_insert t buf = Inr ?b" using True l t(6) by (simp add: evbuffer_chain_insert_def)
    moreover have "rd_inv ?b" using t l by (auto simp: rd_inv_def lwd_exact_def contents_def)
    moreover have "room datlen n ?b" by (rule roomI [of _ "[]" t "[]" datlen 0]) (use l t n in auto)
    ultimately show ?thesis using True run t(6) by (auto simp: contents_def frozen_def)
  next
    case False
    then obtain pre c es where cs: "eb_chains buf = pre @ c # es" "eb_lwd buf = length pre" "\<forall>e\<in>set es. spare e" "ch_off c = 0 \<longrightarrow> pre = [] \<and> spare c"
      using inv by (auto simp: rd_inv_def lwd_exact_def)
    have imm: "is_immutable (last (c # es))" using new False cs(1) by simp
    have es: "es = []" using imm cs(3) last_in_set [of es] by (cases "es = []") (auto simp: spare_def)
    then have c: "is_immutable c" "ch_off c \<noteq> 0" using imm cs(4) by (auto simp: spare_def)
    let ?b = "buf\<lparr>eb_chains := pre @ [c, t], eb_total_len := eb_total_len buf\<rparr>"
    have "victim buf = length (eb_chains buf)" using cs es c by (simp add: victim_def)
    then have "evbuffer_chain_insert t buf = Inr ?b" using cs es t(6) by (simp add: evbuffer_chain_insert_def Let_def)
    moreover have "rd_inv ?b" "contents ?b = contents buf"
      by (rule rd_invI [OF inv cs(1,3), of _ c "[t]"]; use cs es t c inv in \<open>auto simp: rd_inv_def\<close>)+
    moreover have "room datlen n ?b" by (rule roomI [of _ pre c "[t]" datlen 1]) (use cs c n t in \<open>auto simp: CHAIN_SPACE_LEN_def\<close>)
    ultimately show ?thesis using run by (auto simp: frozen_def)
  qed
qed

text \<open>The loop from \<open>last_with_datap\<close> on: the first chain may have data and is not counted when it has no space.\<close>

definition fast_result :: "nat \<Rightarrow> nat \<Rightarrow> evbuffer_chain \<Rightarrow> bool \<times> nat \<times> nat \<times> evbuffer_chain list \<Rightarrow> bool" where
  "fast_result datlen n c r \<longleftrightarrow> (case r of (enough, a, u, cs) \<Rightarrow> case cs of [] \<Rightarrow> False | c' # es' \<Rightarrow>
     chain_ok c' \<and> chain_data c' = chain_data c \<and> ch_off c' = ch_off c \<and> (ch_off c = 0 \<longrightarrow> spare c') \<and> (\<forall>e\<in>set es'. chain_ok e \<and> spare e) \<and>
     (if enough then \<exists>m. datlen \<le> CHAIN_SPACE_LEN c' + spaces (take m es') \<and> m \<le> n \<and> (CHAIN_SPACE_LEN c' \<noteq> 0 \<longrightarrow> Suc m \<le> n)
      else a < datlen \<and> u \<le> n \<and> (u < n \<longrightarrow> a = CHAIN_SPACE_LEN c' + spaces es' \<and> length es' \<le> u \<and> (CHAIN_SPACE_LEN c' \<noteq> 0 \<longrightarrow> Suc (length es') \<le> u))))"

lemma fast_loop_first:
  assumes c: "chain_ok c" "ch_off c = 0 \<longrightarrow> spare c" and es: "\<forall>e\<in>set es. chain_ok e \<and> spare e" and n: "2 \<le> n"
  shows "\<exists>r. fast_loop datlen n True (c # es) 0 0 = Inr r \<and> fast_result datlen n c r"
proof -
  define c' where "c' = (if ch_off c \<noteq> 0 then c else c\<lparr>ch_misalign := 0\<rparr>)"
  define s where "s = CHAIN_SPACE_LEN c'"
  define k :: nat where "k = (if ch_off c \<noteq> 0 \<and> s = 0 then 0 else 1)"
  have c': "chain_ok c'" "chain_data c' = chain_data c" "ch_off c' = ch_off c" "ch_off c = 0 \<longrightarrow> spare c' \<and> s = buffer_len c"
    using c realign_ok [of c] by (auto simp: c'_def s_def)
  have sp: "ch_off c \<noteq> 0 \<Longrightarrow> CHAIN_SPACE_LEN c = s" by (simp add: c'_def s_def)
  have run: "fast_loop datlen n True (c # es) 0 0 =
      (if s \<ge> datlen then Inr (True, s, k, c' # es)
       else bind_result (fast_loop datlen n False es s k) (\<lambda>(e, a, u, cs). Inr (e, a, u, c' # cs)))"
    using c'(4) sp n by (cases "ch_off c = 0") (auto simp: k_def c'_def)
  show ?thesis
  proof (cases "s \<ge> datlen")
    case True
    then have "datlen \<le> CHAIN_SPACE_LEN c' + spaces (take 0 es)" by (simp add: s_def)
    then have "\<exists>m. datlen \<le> CHAIN_SPACE_LEN c' + spaces (take m es) \<and> m \<le> n \<and> (CHAIN_SPACE_LEN c' \<noteq> 0 \<longrightarrow> Suc m \<le> n)"
      using n by (intro exI [of _ 0]) simp
    then have "fast_result datlen n c (True, s, k, c' # es)" using c' es by (simp add: fast_result_def)
    then show ?thesis using True run by simp
  next
    case False
    then have "s < datlen" "k < n" using n by (auto simp: k_def)
    from fast_loop_ok [OF es this] obtain enough a u es' where r: "fast_loop datlen n False es s k = Inr (enough, a, u, es')"
      "\<forall>e\<in>set es'. chain_ok e \<and> spare e" "u \<le> n"
      "if enough then \<exists>m. a = s + spaces (take m es') \<and> u = k + m \<and> datlen \<le> a
       else a < datlen \<and> (u < n \<longrightarrow> a = s + spaces es' \<and> u = k + length es')" by blast
    have k: "s \<noteq> 0 \<Longrightarrow> k = 1" by (simp add: k_def)
    have run': "fast_loop datlen n True (c # es) 0 0 = Inr (enough, a, u, c' # es')" using run False r(1) by simp
    have "fast_result datlen n c (enough, a, u, c' # es')"
    proof (cases enough)
      case True
      then obtain m where m: "a = s + spaces (take m es')" "u = k + m" "datlen \<le> a" using r(4) by auto
      then have "datlen \<le> CHAIN_SPACE_LEN c' + spaces (take m es') \<and> m \<le> n \<and> (CHAIN_SPACE_LEN c' \<noteq> 0 \<longrightarrow> Suc m \<le> n)" using r(3) k by (auto simp: s_def)
      then have "\<exists>m. datlen \<le> CHAIN_SPACE_LEN c' + spaces (take m es') \<and> m \<le> n \<and> (CHAIN_SPACE_LEN c' \<noteq> 0 \<longrightarrow> Suc m \<le> n)" by (rule exI)
      then show ?thesis using True c' r(2) by (simp add: fast_result_def)
    next
      case False
      then have "a < datlen \<and> u \<le> n \<and> (u < n \<longrightarrow> a = s + spaces es' \<and> length es' \<le> u \<and> (s \<noteq> 0 \<longrightarrow> Suc (length es') \<le> u))"
        using r(3,4) k by auto
      then show ?thesis using False c' r(2) by (simp add: fast_result_def s_def)
    qed
    then show ?thesis using run' by simp
  qed
qed

lemma expand_fast_ok:
  assumes inv: "rd_inv buf" and n: "2 \<le> n" and len: "datlen \<le> 2 ^ 62"
  shows "\<exists>b. evbuffer_expand_fast True datlen n buf = Inr (0, b) \<and> rd_inv b \<and> contents b = contents buf \<and> frozen b = frozen buf \<and> room datlen n b"
proof (cases "eb_chains buf = [] \<or> is_immutable (last (eb_chains buf))")
  case True
  then show ?thesis using expand_fast_new [OF assms] by blast
next
  case F: False
  then obtain pre c es where cs: "eb_chains buf = pre @ c # es" "eb_lwd buf = length pre" "\<forall>e\<in>set es. spare e" "ch_off c = 0 \<longrightarrow> pre = [] \<and> spare c"
    using inv by (auto simp: rd_inv_def lwd_exact_def)
  have ok: "chain_ok c" "\<forall>e\<in>set es. chain_ok e \<and> spare e" using inv cs(1,3) by (auto simp: rd_inv_def)
  obtain enough a u c' es' where f: "fast_loop datlen n True (c # es) 0 0 = Inr (enough, a, u, c' # es')"
     "chain_ok c'" "chain_data c' = chain_data c" "ch_off c' = ch_off c" "ch_off c = 0 \<longrightarrow> spare c'" "\<forall>e\<in>set es'. chain_ok e \<and> spare e"
     "if enough then \<exists>m. datlen \<le> CHAIN_SPACE_LEN c' + spaces (take m es') \<and> m \<le> n \<and> (CHAIN_SPACE_LEN c' \<noteq> 0 \<longrightarrow> Suc m \<le> n)
      else a < datlen \<and> u \<le> n \<and> (u < n \<longrightarrow> a = CHAIN_SPACE_LEN c' + spaces es' \<and> length es' \<le> u \<and> (CHAIN_SPACE_LEN c' \<noteq> 0 \<longrightarrow> Suc (length es') \<le> u))"
  proof -
    have "ch_off c = 0 \<longrightarrow> spare c" using cs(4) by simp
    from fast_loop_first [OF ok(1) this ok(2) n, of datlen] obtain r where r: "fast_loop datlen n True (c # es) 0 0 = Inr r" "fast_result datlen n c r" by blast
    obtain enough a u xs where e: "r = (enough, a, u, xs)" by (cases r)
    obtain c' es' where x: "xs = c' # es'" using r(2) e by (cases xs) (simp_all add: fast_result_def)
    note q = r(1) [unfolded e x] r(2) [unfolded e x fast_result_def prod.case list.case]
    show ?thesis by (rule that [of enough a u c' es']) (use q in blast)+
  qed
  have new: "rd_inv b" "contents b = contents buf"
    if "eb_chains b = pre @ c' # xs" "eb_lwd b = length pre" "\<forall>e\<in>set xs. chain_ok e \<and> spare e" "eb_total_len b = eb_total_len buf" for b xs
    by (rule rd_invI [OF inv cs(1,3) that(1,2) f(2,3) _ that(3,4)]; use f(4,5) cs(4) in auto)+
  let ?b = "buf\<lparr>eb_chains := pre @ c' # es'\<rparr>"
  note d = evbuffer_expand_fast_def [of True datlen n buf]
  have n2: "\<not> n < 2" using n by simp
  consider "enough" | "\<not> enough" "u < n" | "\<not> enough" "u = n"
  proof -
    have "u \<le> n" if "\<not> enough" using f(7) that by simp
    then show ?thesis using that by linarith
  qed
  then show ?thesis
  proof cases
    case 1
    obtain m where m: "datlen \<le> CHAIN_SPACE_LEN c' + spaces (take m es')" "m \<le> n" "CHAIN_SPACE_LEN c' \<noteq> 0 \<Longrightarrow> Suc m \<le> n" using f(7) 1 by auto
    have "room datlen n ?b" by (rule roomI [OF _ _ m]) (use cs(2) in simp_all)
    then show ?thesis unfolding d using F n2 f(1) 1 cs new [of ?b es'] f(6) by (auto simp: frozen_def)
  next
    case 2
    have le: "datlen - a \<le> 2 ^ 62" using len by simp
    obtain t where t: "evbuffer_chain_new True (datlen - a) = Inr (Some t)" "chain_ok t" "spare t" "datlen - a \<le> CHAIN_SPACE_LEN t"
      using chain_new_spare [OF le] by blast
    let ?t = "buf\<lparr>eb_chains := pre @ c' # es' @ [t]\<rparr>"
    have "room datlen n ?t"
      by (rule roomI [of _ pre c' "es' @ [t]" datlen "Suc (length es')"]) (use f(7) 2 t(4) cs(2) in auto)
    then show ?thesis unfolding d using F n2 f(1) 2 cs t(1) new [of ?t "es' @ [t]"] f(6) t(2,3) by (auto simp: frozen_def Let_def)
  next
    case 3
    let ?a = "if ch_off c = 0 then 0 else CHAIN_SPACE_LEN c'"
    have le: "datlen - ?a \<le> 2 ^ 62" using len by simp
    obtain t where t: "evbuffer_chain_new True (datlen - ?a) = Inr (Some t)" "chain_ok t" "spare t" "datlen - ?a \<le> CHAIN_SPACE_LEN t" "CHAIN_SPACE_LEN t \<noteq> 0"
      using chain_new_spare [OF le] by blast
    have em: "evbuffer_chains_all_empty es'" using f(6) by (simp add: evbuffer_chains_all_empty_def spare_def)
    show ?thesis
    proof (cases "ch_off c = 0")
      case True
      let ?t = "buf\<lparr>eb_chains := [t], eb_lwd := 0\<rparr>"
      have pre: "pre = []" using cs(4) True by simp
      have t0: "ch_off t = 0" "chain_data t = []" using t(3) by (simp_all add: spare_def)
      have inv': "rd_inv ?t" "contents ?t = contents buf"
        by (rule rd_invI [OF inv cs(1,3), of ?t t "[]"]; use pre t t0 True in simp)+
      have "room datlen n ?t" by (rule roomI [of _ "[]" t "[]" datlen 0]) (use t(4,5) True n in auto)
      then show ?thesis unfolding d using F n2 f(1,4) 3 cs t(1) True pre em inv' by (simp add: frozen_def Let_def)
    next
      case False
      let ?t = "buf\<lparr>eb_chains := pre @ [c', t]\<rparr>"
      have "room datlen n ?t" by (rule roomI [of _ pre c' "[t]" datlen 1]) (use t(4) False n cs(2) in auto)
      then show ?thesis unfolding d using F n2 f(1,4) 3 cs t(1) False em new [of ?t "[t]"] t(2,3) by (simp add: frozen_def Let_def)
    qed
  qed
qed

section \<open>Reading\<close>

lemma setup_loop_sum:
  "so_far \<le> h \<Longrightarrow> h - so_far \<le> spaces (take n cs) \<Longrightarrow> \<exists>v. setup_loop True h n i cs so_far = Inr v \<and> sum_list (map iov_len v) = h - so_far"
proof (induction n arbitrary: i cs so_far)
  case (Suc n)
  show ?case
  proof (cases "so_far = h")
    case False
    then obtain c cs' where cs: "cs = c # cs'" using Suc.prems by (cases cs) auto
    let ?a = "if CHAIN_SPACE_LEN c > h - so_far then h - so_far else CHAIN_SPACE_LEN c"
    have "so_far + ?a \<le> h" "h - (so_far + ?a) \<le> spaces (take n cs')" using Suc.prems cs by auto
    from Suc.IH [OF this, of "i + 1"] obtain v where "setup_loop True h n (i + 1) cs' (so_far + ?a) = Inr v" "sum_list (map iov_len v) = h - (so_far + ?a)" by blast
    then show ?thesis using False Suc.prems(1) cs by (simp add: Let_def chain_space_def)
  qed simp
qed simp

lemma chain_write_Nil: "pos \<le> buffer_len c \<Longrightarrow> chain_write pos [] c = Inr c"
  by (simp add: chain_write_def)

lemma chain_write_space:
  assumes c: "chain_ok c" and d: "length d \<le> CHAIN_SPACE_LEN c"
  shows "\<exists>c1. chain_write (ch_misalign c + ch_off c) d c = Inr c1 \<and> CHAIN_SPACE_LEN c1 = CHAIN_SPACE_LEN c \<and> ch_off c1 = ch_off c \<and>
    chain_ok (c1\<lparr>ch_off := ch_off c + length d\<rparr>) \<and> chain_data (c1\<lparr>ch_off := ch_off c + length d\<rparr>) = chain_data c @ d"
proof -
  have "ch_misalign c + ch_off c + length d \<le> buffer_len c" using c d by (auto simp: CHAIN_SPACE_LEN_def chain_ok_def split: if_splits)
  moreover from chain_append_ok [OF c this] obtain c' where "chain_append d c = Inr c'" "chain_ok c'" "chain_data c' = chain_data c @ d" by blast
  ultimately show ?thesis by (auto simp: chain_append_def chain_write_def CHAIN_SPACE_LEN_def is_immutable_def buffer_len_def)
qed

lemma scatter_Nil: "setup_loop ex h n i cs so_far = Inr v \<Longrightarrow> \<forall>c\<in>set cs. chain_ok c \<Longrightarrow> scatter [] v cs = Inr cs"
proof (induction n arbitrary: i cs so_far v)
  case (Suc n)
  show ?case
  proof (cases "so_far \<ge> h")
    case False
    then obtain c cs' where cs: "cs = c # cs'" using Suc.prems(1) by (cases cs) auto
    define a where "a = (if CHAIN_SPACE_LEN c > h - so_far \<and> ex then h - so_far else CHAIN_SPACE_LEN c)"
    obtain v' where v: "setup_loop ex h n (i + 1) cs' (so_far + a) = Inr v'" "v = chain_space i c a # v'"
      using Suc.prems(1) False cs by (cases "setup_loop ex h n (i + 1) cs' (so_far + a)") (auto simp: Let_def a_def)
    have "ch_misalign c + ch_off c \<le> buffer_len c" using Suc.prems(2) cs by (simp add: chain_ok_def)
    then show ?thesis using Suc.IH [OF v(1)] Suc.prems(2) v(2) cs by (simp add: chain_space_def chain_write_Nil)
  qed (use Suc.prems in simp)
qed simp

lemma read_into:
  "setup_loop True h n i (c # es) so_far = Inr v \<Longrightarrow> chain_ok c \<Longrightarrow> \<forall>e\<in>set es. chain_ok e \<and> spare e \<Longrightarrow> d \<noteq> [] \<Longrightarrow> length d \<le> sum_list (map iov_len v) \<Longrightarrow>
   \<exists>cs1 pre x es'. scatter d v (c # es) = Inr cs1 \<and> read_account (length v) (length d) i l cs1 = (i + length pre, pre @ x # es') \<and>
     (\<forall>y\<in>set (pre @ x # es'). chain_ok y) \<and> concat (map chain_data (pre @ x # es')) = chain_data c @ d \<and> ch_off x \<noteq> 0 \<and> (\<forall>e\<in>set es'. spare e)"
proof (induction n arbitrary: i c es so_far v d)
  case (Suc n)
  have lt: "so_far < h" using Suc.prems(1,4,5) by (cases "so_far \<ge> h") auto
  define a where "a = (if CHAIN_SPACE_LEN c > h - so_far then h - so_far else CHAIN_SPACE_LEN c)"
  obtain v' where v: "setup_loop True h n (i + 1) es (so_far + a) = Inr v'" "v = chain_space i c a # v'"
    using Suc.prems(1) lt by (cases "setup_loop True h n (i + 1) es (so_far + a)") (auto simp: Let_def a_def)
  have a: "a \<le> CHAIN_SPACE_LEN c" by (simp add: a_def)
  have es: "\<forall>e\<in>set es. chain_ok e" "concat (map chain_data es) = []" using Suc.prems(3) by auto
  have len: "length (take a d) \<le> CHAIN_SPACE_LEN c" using a by simp
  obtain c1 where c1: "chain_write (ch_misalign c + ch_off c) (take a d) c = Inr c1" "CHAIN_SPACE_LEN c1 = CHAIN_SPACE_LEN c" "ch_off c1 = ch_off c"
    "chain_ok (c1\<lparr>ch_off := ch_off c + length (take a d)\<rparr>)" "chain_data (c1\<lparr>ch_off := ch_off c + length (take a d)\<rparr>) = chain_data c @ take a d"
    using chain_write_space [OF Suc.prems(2) len] by blast
  show ?case
  proof (cases "length d \<le> a")
    case True
    let ?c = "c1\<lparr>ch_off := ch_off c + length d\<rparr>"
    have "scatter d v (c # es) = Inr (c1 # es)" using scatter_Nil [OF v(1) es(1)] c1(1) v(2) True by (simp add: chain_space_def)
    moreover have "read_account (length v) (length d) i l (c1 # es) = (i, ?c # es)" using v(2) c1(2,3) True a by (simp add: Let_def)
    moreover have "chain_ok ?c" "chain_data ?c = chain_data c @ d" "ch_off ?c \<noteq> 0" using c1(4,5) True Suc.prems(4) by simp_all
    ultimately show ?thesis using es Suc.prems(3) by (intro exI [of _ "c1 # es"] exI [of _ "[]"] exI [of _ ?c] exI [of _ es]) simp
  next
    case False
    let ?c = "c1\<lparr>ch_off := ch_off c + a\<rparr>"
    have v': "length (drop a d) \<le> sum_list (map iov_len v')" "drop a d \<noteq> []" "v' \<noteq> []" using Suc.prems(5) v(2) False by (auto simp: chain_space_def)
    have so: "so_far + a < h" using v(1) v'(3) by (cases n) (auto split: if_splits)
    then have as: "a = CHAIN_SPACE_LEN c" by (auto simp: a_def split: if_splits)
    obtain e es2 where e: "es = e # es2" using v(1) v'(3) so by (cases es; cases n) auto
    have "chain_ok e" "\<forall>e\<in>set es2. chain_ok e \<and> spare e" "chain_data e = []" using Suc.prems(3) e by (auto simp: spare_def)
    from Suc.IH [OF v(1) [unfolded e] this(1,2) v'(2,1)] this(3) obtain cs1 pre x es' where
      r: "scatter (drop a d) v' (e # es2) = Inr cs1" "read_account (length v') (length (drop a d)) (i + 1) l cs1 = (i + 1 + length pre, pre @ x # es')"
      "\<forall>y\<in>set (pre @ x # es'). chain_ok y" "concat (map chain_data (pre @ x # es')) = drop a d" "ch_off x \<noteq> 0" "\<forall>e\<in>set es'. spare e" by auto
    have "scatter d v (c # es) = Inr (c1 # cs1)" using c1(1) v(2) e r(1) by (simp add: chain_space_def)
    moreover have "read_account (length v) (length d) i l (c1 # cs1) = (i + length (?c # pre), (?c # pre) @ x # es')"
      using v(2) r(2) c1(2,3) as False by (simp add: Let_def)
    moreover have "chain_ok ?c" "chain_data ?c = chain_data c @ take a d" using c1(4,5) False by simp_all
    ultimately show ?thesis using r(3-6)
      by (intro exI [of _ "c1 # cs1"] exI [of _ "?c # pre"] exI [of _ x] exI [of _ es']) simp
  qed
qed simp

text \<open>How many bytes \<open>evbuffer_read\<close> asks for.\<close>

definition read_size :: "int \<Rightarrow> int \<Rightarrow> nat" where
  "read_size readable howmuch =
     (let n = (if readable \<le> 0 \<or> readable > EVBUFFER_MAX_READ then EVBUFFER_MAX_READ else readable) in nat (if howmuch < 0 \<or> howmuch > n then n else howmuch))"

lemma read_size_le: "read_size readable howmuch \<le> 4096" "howmuch \<noteq> 0 \<Longrightarrow> 0 < read_size readable howmuch"
  by (auto simp: read_size_def EVBUFFER_MAX_READ_def)

lemma spare_first:
  assumes inv: "rd_inv b" and i: "first_space b = Inr i" "drop i (eb_chains b) = c # es"
  shows "chain_ok c" "\<forall>e\<in>set es. chain_ok e \<and> spare e"
proof -
  have ok: "\<forall>x\<in>set (c # es). chain_ok x" using inv i(2) unfolding rd_inv_def by (metis in_set_dropD)
  show "chain_ok c" using ok by simp
  have "eb_chains b \<noteq> []" using i(2) by auto
  then obtain pre x xs where cs: "eb_chains b = pre @ x # xs" "eb_lwd b = length pre" "\<forall>e\<in>set xs. spare e"
    using inv by (auto simp: rd_inv_def lwd_exact_def)
  have "i = length pre \<or> i = Suc (length pre)" using i(1) cs by (auto simp: first_space_def split: if_splits)
  then have "set es \<subseteq> set xs" using i(2) cs(1) by auto
  then show "\<forall>e\<in>set es. chain_ok e \<and> spare e" using ok cs(3) by auto
qed

lemma evbuffer_read_ok:
  assumes inv: "rd_inv buf" and fr: "\<not> eb_freeze_end buf" and rv: "\<And>lens d. rv lens = Some d \<Longrightarrow> length d \<le> sum_list lens"
  shows "\<exists>lens b. sum_list lens = read_size readable howmuch \<and> rd_inv b \<and> frozen b = frozen buf \<and>
    (case rv lens of
       None \<Rightarrow> evbuffer_read True readable rv howmuch buf = Inr (- 1, b) \<and> contents b = contents buf
     | Some d \<Rightarrow> evbuffer_read True readable rv howmuch buf = Inr (int (length d), b) \<and> contents b = contents buf @ d)"
proof -
  define h where "h = read_size readable howmuch"
  have h62: "h \<le> 2 ^ 62" using read_size_le(1) [of readable howmuch] by (simp add: h_def)
  have n: "2 \<le> NUM_READ_IOVEC" by (simp add: NUM_READ_IOVEC_def)
  obtain b where b: "evbuffer_expand_fast True h NUM_READ_IOVEC buf = Inr (0, b)" "rd_inv b" "contents b = contents buf" "frozen b = frozen buf" "room h NUM_READ_IOVEC b"
    using expand_fast_ok [OF inv n h62] by blast
  obtain i where i: "first_space b = Inr i" "h \<le> spaces (take NUM_READ_IOVEC (drop i (eb_chains b)))" using b(5) by (auto simp: room_def)
  obtain v where v: "setup_loop True h NUM_READ_IOVEC i (drop i (eb_chains b)) 0 = Inr v" "sum_list (map iov_len v) = h"
    using setup_loop_sum [of 0 h NUM_READ_IOVEC "drop i (eb_chains b)" i] i(2) by auto
  have run: "evbuffer_read True readable rv howmuch buf =
      (case rv (map iov_len v) of
         None \<Rightarrow> Inr (- 1, b)
       | Some d \<Rightarrow>
           if d = [] then Inr (0, b)
           else bind_result (scatter d v (drop i (eb_chains b))) (\<lambda>cs.
             case read_account (length v) (length d) i (eb_lwd b) cs of
               (lwd, cs) \<Rightarrow> Inr (int (length d), evbuffer_invoke_callbacks (account (length d) (b\<lparr>eb_chains := take i (eb_chains b) @ cs, eb_lwd := lwd\<rparr>)))))"
  proof -
    let ?n = "if readable \<le> 0 \<or> readable > EVBUFFER_MAX_READ then EVBUFFER_MAX_READ else readable"
    let ?h = "if howmuch < 0 \<or> howmuch > ?n then ?n else howmuch"
    have h: "nat ?h = h" "\<not> ?h < 0" by (auto simp: h_def read_size_def Let_def EVBUFFER_MAX_READ_def)
    show ?thesis using fr unfolding evbuffer_read_def Let_def h(1) b(1) bind_result.simps prod.case evbuffer_read_setup_vecs_def if_not_P [OF h(2)] i(1) v(1)
      by simp
  qed
  show ?thesis
  proof (cases "rv (map iov_len v)")
    case None
    then show ?thesis using run b v(2) by (intro exI [of _ "map iov_len v"] exI [of _ b]) (simp add: h_def)
  next
    case (Some d)
    show ?thesis
    proof (cases "d = []")
      case True
      then show ?thesis using run b v(2) Some by (intro exI [of _ "map iov_len v"] exI [of _ b]) (simp add: h_def)
    next
      case False
      have len: "length d \<le> sum_list (map iov_len v)" using rv [OF Some] .
      then have "0 < h" using v(2) False by (cases d) auto
      then obtain c es where cs: "drop i (eb_chains b) = c # es" using i(2) by (cases "drop i (eb_chains b)") auto
      note sp = spare_first [OF b(2) i(1) cs]
      obtain cs1 pre x es' where r: "scatter d v (c # es) = Inr cs1" "read_account (length v) (length d) i (eb_lwd b) cs1 = (i + length pre, pre @ x # es')"
          "\<forall>y\<in>set (pre @ x # es'). chain_ok y" "concat (map chain_data (pre @ x # es')) = chain_data c @ d" "ch_off x \<noteq> 0" "\<forall>e\<in>set es'. spare e"
        using read_into [OF v(1) [unfolded cs] sp False len, of "eb_lwd b"] by blast
      let ?b = "account (length d) (b\<lparr>eb_chains := take i (eb_chains b) @ pre @ x # es', eb_lwd := i + length pre\<rparr>)"
      have il: "i \<le> length (eb_chains b)" using cs by (metis drop_all list.distinct(1) nle_le)
      have "contents b = concat (map chain_data (take i (eb_chains b))) @ concat (map chain_data (c # es))"
        unfolding contents_def cs [symmetric] by (metis append_take_drop_id concat_append map_append)
      moreover have "concat (map chain_data es) = []" using sp(2) by simp
      ultimately have cont: "contents ?b = contents b @ d" using r(4) by (simp add: contents_def)
      have "lwd_exact (i + length pre) (take i (eb_chains b) @ pre @ x # es')"
        using lwd_exactI [of es' x "take i (eb_chains b) @ pre"] r(5,6) il by (simp add: min_absorb2)
      then have "rd_inv ?b" using b(2) r(3) cont by (auto simp: rd_inv_def account_def dest: in_set_takeD)
      then have "rd_inv (evbuffer_invoke_callbacks ?b)" by (simp add: rd_inv_def contents_def)
      moreover have "contents (evbuffer_invoke_callbacks ?b) = contents b @ d" using cont by (simp add: contents_def)
      moreover have "frozen ?b = frozen b" by (simp only: frozen_def account_def) simp
      then have "frozen (evbuffer_invoke_callbacks ?b) = frozen buf" using b(4) by simp
      ultimately show ?thesis using run Some False r(1,2) cs b(3) v(2)
        by (intro exI [of _ "map iov_len v"] exI [of _ "evbuffer_invoke_callbacks ?b"]) (simp add: h_def)
    qed
  qed
qed

section \<open>Writing\<close>

lemma write_iovecs_prefix:
  "\<forall>c\<in>set cs. chain_ok c \<Longrightarrow> \<exists>m \<le> h. concat (write_iovecs n h cs) = take m (concat (map chain_data cs)) \<and> m \<le> length (concat (map chain_data cs))"
proof (induction n h cs rule: write_iovecs.induct)
  case (3 n h c cs)
  show ?case
  proof (cases "h = 0 \<or> is_sendfile c")
    case True
    then show ?thesis by (intro exI [of _ 0]) auto
  next
    case False
    have c: "chain_ok c" using "3.prems" by simp
    show ?thesis
    proof (cases "h \<ge> ch_off c")
      case True
      obtain m where m: "m \<le> h - ch_off c" "concat (write_iovecs n (h - ch_off c) cs) = take m (concat (map chain_data cs))" "m \<le> length (concat (map chain_data cs))"
        using "3.IH" [OF False True] "3.prems" by auto
      then show ?thesis using False True c by (intro exI [of _ "ch_off c + m"]) simp
    next
      case F: False
      then show ?thesis using False c by (intro exI [of _ h]) simp
    qed
  qed
qed (auto intro: exI [of _ 0])

lemma drain_loop_flags: "drain_loop n cs = Inr (k, p, r, cs') \<Longrightarrow> ch_flags ` set cs' \<subseteq> ch_flags ` set cs \<and> cs' \<noteq> []"
proof (induction n cs arbitrary: k p r cs' rule: drain_loop.induct)
  case (2 n c cs)
  show ?case
  proof (cases "n \<ge> ch_off c \<and> \<not> CHAIN_PINNED_R c")
    case True
    then obtain y where y: "drain_loop (n - ch_off c) cs = Inr y" using "2.prems" by (cases "drain_loop (n - ch_off c) cs") auto
    obtain k1 p1 r1 cs1 where "y = (k1, p1, r1, cs1)" by (cases y)
    then show ?thesis using "2.IH" [of k1 p1 r1 cs1] "2.prems" True y by auto
  next
    case False
    then show ?thesis using "2.prems" by (auto split: if_splits)
  qed
qed simp

lemma drain_flags: "evbuffer_drain n b = Inr (r, b') \<Longrightarrow> ch_flags ` set (eb_chains b') \<subseteq> ch_flags ` set (eb_chains b)"
proof -
  assume d: "evbuffer_drain n b = Inr (r, b')"
  consider "eb_chains b' = eb_chains b" | "eb_chains b' = []"
    | k p m cs where "drain_loop (min n (eb_total_len b)) (eb_chains b) = Inr (k, p, m, cs)"
        "eb_chains b' = (hd cs)\<lparr>ch_misalign := ch_misalign (hd cs) + m, ch_off := ch_off (hd cs) - m\<rparr> # tl cs" "cs \<noteq> []"
  proof (cases "eb_total_len b = 0 \<or> eb_freeze_start b \<or> eb_total_len b \<le> n \<and> \<not> HAS_PINNED_R b")
    case True
    then show ?thesis using d that(1,2) by (auto simp: evbuffer_drain_def ZERO_CHAIN_def Let_def split: if_splits)
  next
    case False
    then have e: "evbuffer_drain n b = bind_result (drain_loop (min n (eb_total_len b)) (eb_chains b)) (\<lambda>(k, pinned, remaining, cs).
          let seen = (if pinned then k + 1 else k) in
          Inr (0, evbuffer_invoke_callbacks
            (b\<lparr>eb_total_len := eb_total_len b - min n (eb_total_len b),
                 eb_chains := (hd cs)\<lparr>ch_misalign := ch_misalign (hd cs) + remaining, ch_off := ch_off (hd cs) - remaining\<rparr> # tl cs,
                 eb_lwd := if eb_lwd b \<le> seen then 0 else eb_lwd b - k,
                 eb_n_del := eb_n_del b + min n (eb_total_len b)\<rparr>)))" by (auto simp: evbuffer_drain_def Let_def)
    obtain k p m cs where l: "drain_loop (min n (eb_total_len b)) (eb_chains b) = Inr (k, p, m, cs)"
      using d e by (cases "drain_loop (min n (eb_total_len b)) (eb_chains b)") auto
    have "cs \<noteq> []" using drain_loop_flags [OF l] by simp
    then show ?thesis using that(3) [OF l] d e l by (auto simp: Let_def)
  qed
  then show ?thesis
  proof cases
    case 3
    then show ?thesis using drain_loop_flags [OF 3(1)] by (cases cs) auto
  qed simp_all
qed

definition no_files :: "evbuffer \<Rightarrow> bool" where
  "no_files b \<longleftrightarrow> (\<forall>c\<in>set (eb_chains b). \<not> is_sendfile c)"

lemma evbuffer_write_ok:
  assumes ok: "evb_ok b" "no_files b"
    and iov: "iov = write_iovecs NUM_WRITE_IOVEC (eb_total_len b) (eb_chains b)" and wv: "\<And>v. wv v \<le> int (length (concat v))"
  shows "\<exists>n b'. evbuffer_write sf wv b = Inr (n, b') \<and> evb_ok b' \<and> no_files b' \<and> contents b = take (nat n) (concat iov) @ contents b'"
proof -
  note i = evb_okD [OF ok(1)]
  have tot: "eb_total_len b = length (contents b)" "\<forall>c\<in>set (eb_chains b). chain_ok c" using i(1) by (simp_all add: evb_inv_def)
  obtain m where m: "concat iov = take m (contents b)" "m \<le> length (contents b)" using write_iovecs_prefix [OF tot(2)] unfolding iov contents_def by blast
  define n where "n = (if contents b = [] then - 1 else if iov = [] then 0 else wv iov)"
  have hd: "eb_chains b \<noteq> [] \<Longrightarrow> \<not> is_sendfile (hd (eb_chains b))" using ok(2) by (simp add: no_files_def)
  have run: "evbuffer_write sf wv b = (if n > 0 then bind_result (evbuffer_drain (nat n) b) (\<lambda>(r, buf). Inr (n, buf)) else Inr (n, b))"
    using i(2) hd tot(1) by (auto simp: evbuffer_write_def evbuffer_write_atmost_def evbuffer_write_iovec_def Let_def n_def iov)
  show ?thesis
  proof (cases "n > 0")
    case False
    then show ?thesis using run ok by simp
  next
    case True
    obtain b' where b': "evbuffer_drain (nat n) b = Inr (0, b')" "evb_inv b'" "contents b' = drop (nat n) (contents b)" "frozen b' = frozen b"
      using evbuffer_drain_spec [OF i(1,2)] by blast
    have "n \<le> int (length (concat iov))" using True wv [of iov] by (auto simp: n_def split: if_splits)
    moreover have "length (concat iov) = m" using m by simp
    ultimately have "nat n \<le> m" by simp
    then have "take (nat n) (concat iov) = take (nat n) (contents b)" unfolding m(1) by (simp add: min_absorb1)
    moreover have "no_files b'" using drain_flags [OF b'(1)] ok(2) by (fastforce simp: no_files_def is_sendfile_def)
    ultimately show ?thesis using run True b' evb_okI [OF b'(2,4) ok(1)] by simp
  qed
qed

section \<open>A connection\<close>

text \<open>
  An evbuffer that is written to a connection, the bytes under way, and the evbuffer the other side reads into. The system takes at
  most \<open>k\<close> bytes of what is written, and gives at most \<open>k\<close> bytes of what is there and fits.
\<close>

datatype sock_op = Sock_write nat | Sock_read nat int int

fun sock_step :: "sock_op \<Rightarrow> evbuffer \<times> byte list \<times> evbuffer \<Rightarrow> (evbuffer \<times> byte list \<times> evbuffer) ev_result" where
  "sock_step (Sock_write k) (a, p, b) =
     bind_result (evbuffer_write (\<lambda>c. 0) (\<lambda>v. int (min k (length (concat v)))) a) (\<lambda>(n, a').
       Inr (a', p @ take (nat n) (concat (write_iovecs NUM_WRITE_IOVEC (eb_total_len a) (eb_chains a))), b))"
| "sock_step (Sock_read k readable howmuch) (a, p, b) =
     bind_result (evbuffer_read True readable (\<lambda>lens. Some (take (min k (sum_list lens)) p)) howmuch b) (\<lambda>(n, b). Inr (a, drop (nat n) p, b))"

fun sock_steps :: "sock_op list \<Rightarrow> evbuffer \<times> byte list \<times> evbuffer \<Rightarrow> (evbuffer \<times> byte list \<times> evbuffer) ev_result" where
  "sock_steps [] s = Inr s"
| "sock_steps (x # xs) s = bind_result (sock_step x s) (sock_steps xs)"

definition sock_inv :: "byte list \<Rightarrow> evbuffer \<times> byte list \<times> evbuffer \<Rightarrow> bool" where
  "sock_inv xs s \<longleftrightarrow> (case s of (a, p, b) \<Rightarrow> evb_ok a \<and> no_files a \<and> rd_inv b \<and> \<not> eb_freeze_end b \<and> contents b @ p @ contents a = xs)"

lemma sock_read_ok:
  assumes "rd_inv b" "\<not> eb_freeze_end b"
  shows "\<exists>b'. sock_step (Sock_read k readable howmuch) (a, p, b) = Inr (a, drop (min k (read_size readable howmuch)) p, b') \<and>
    rd_inv b' \<and> \<not> eb_freeze_end b' \<and> contents b' = contents b @ take (min k (read_size readable howmuch)) p"
proof -
  have "length d \<le> sum_list lens" if "Some (take (min k (sum_list lens)) p) = Some d" for lens d using that by auto
  from evbuffer_read_ok [where rv = "\<lambda>lens. Some (take (min k (sum_list lens)) p)", OF assms this, where readable = readable and howmuch = howmuch]
  obtain lens b' where r: "sum_list lens = read_size readable howmuch" "rd_inv b'" "frozen b' = frozen b"
      "evbuffer_read True readable (\<lambda>lens. Some (take (min k (sum_list lens)) p)) howmuch b = Inr (int (length (take (min k (sum_list lens)) p)), b')"
      "contents b' = contents b @ take (min k (sum_list lens)) p"
    by auto
  have "drop (min (length p) m) p = drop m p" for m by (simp add: min_def)
  then show ?thesis using r assms(2) by (simp add: frozen_def)
qed

lemma sock_step_ok: "sock_inv xs s \<Longrightarrow> \<exists>s'. sock_step x s = Inr s' \<and> sock_inv xs s'"
proof -
  assume inv: "sock_inv xs s"
  obtain a p b where s: "s = (a, p, b)" by (cases s)
  show ?thesis
  proof (cases x)
    case (Sock_write k)
    have "int (min k (length (concat v))) \<le> int (length (concat v))" for v :: "byte list list" by simp
    from evbuffer_write_ok [OF _ _ refl this, of a "\<lambda>c. 0"] inv s Sock_write show ?thesis by (auto simp: sock_inv_def)
  next
    case (Sock_read k r h)
    then show ?thesis using sock_read_ok [of b k r h a p] inv s by (auto simp: sock_inv_def)
  qed
qed

lemma sock_steps_ok: "sock_inv xs s \<Longrightarrow> \<exists>s'. sock_steps ops s = Inr s' \<and> sock_inv xs s'"
proof (induction ops arbitrary: s)
  case (Cons x ops)
  from sock_step_ok [OF Cons.prems, of x] obtain s1 where "sock_step x s = Inr s1" "sock_inv xs s1" by blast
  then show ?case using Cons.IH by simp
qed simp


text \<open>
  C32. A connection between two evbuffers: however often \<open>evbuffer_write\<close> and \<open>evbuffer_read\<close> are called, in whatever order, and however few
  bytes the system takes or gives each time, no assertion fails and nothing outside the memory of a chain is written; what has been read, what is under way and what
  is still to be written are together, in this order, what was to be written at the start. As long as there are bytes under way, a read that may take
  any takes some.
\<close>

theorem evbuffer_connection:
  assumes "evb_ok a" "no_files a"
  shows "\<exists>a' p b. sock_steps ops (a, [], evbuffer_new) = Inr (a', p, b) \<and> contents b @ p @ contents a' = contents a \<and>
    evbuffer_get_length b = length (contents b) \<and>
    (\<forall>k readable howmuch. p \<noteq> [] \<and> 0 < k \<and> howmuch \<noteq> 0 \<longrightarrow>
       (\<exists>p' b'. sock_step (Sock_read k readable howmuch) (a', p, b) = Inr (a', p', b') \<and> contents b' @ p' = contents b @ p \<and> length p' < length p))"
proof -
  have new: "rd_inv evbuffer_new" by (simp add: rd_inv_def evbuffer_new_def contents_def lwd_exact_def)
  have "sock_inv (contents a) (a, [], evbuffer_new)" using assms new evb_okD(3) [OF evb_ok_new(1)] by (simp add: sock_inv_def evb_ok_new(2))
  from sock_steps_ok [OF this, of ops] obtain a' p b where s: "sock_steps ops (a, [], evbuffer_new) = Inr (a', p, b)"
    "rd_inv b" "\<not> eb_freeze_end b" "contents b @ p @ contents a' = contents a" by (auto simp: sock_inv_def)
  have "\<exists>p' b'. sock_step (Sock_read k readable howmuch) (a', p, b) = Inr (a', p', b') \<and> contents b' @ p' = contents b @ p \<and> length p' < length p"
    if "p \<noteq> [] \<and> 0 < k \<and> howmuch \<noteq> 0" for k readable howmuch
  proof -
    have "0 < min k (read_size readable howmuch)" using that read_size_le(2) [of howmuch readable] by simp
    then have "length (drop (min k (read_size readable howmuch)) p) < length p" using that by simp
    moreover obtain b' where "sock_step (Sock_read k readable howmuch) (a', p, b) = Inr (a', drop (min k (read_size readable howmuch)) p, b')"
        "contents b' = contents b @ take (min k (read_size readable howmuch)) p" using sock_read_ok [OF s(2,3)] by blast
    ultimately show ?thesis
      by (intro exI [of _ "drop (min k (read_size readable howmuch)) p"] exI [of _ b']) simp
  qed
  then show ?thesis using s by (auto simp: evbuffer_get_length_def rd_inv_def)
qed

text \<open>Three bytes to write: two are taken, read in one go, and the last one is taken.\<close>

definition three_bytes :: evbuffer where
  "three_bytes = evbuffer_new\<lparr>eb_chains := [\<lparr>ch_buffer = [1, 2, 3], ch_misalign = 0, ch_off = 3, ch_flags = 0\<rparr>], eb_total_len := 3\<rparr>"

theorem evbuffer_connection_witness:
  "\<exists>a p b. sock_steps [Sock_write 2, Sock_read 5 0 (- 1), Sock_write 9] (three_bytes, [], evbuffer_new) = Inr (a, p, b) \<and>
     contents b @ p @ contents a = [1, 2, 3]"
proof -
  have t: "evb_ok three_bytes" "no_files three_bytes" "contents three_bytes = [1, 2, 3]"
    by (simp_all add: three_bytes_def evbuffer_new_def evb_ok_def evb_inv_def contents_def chain_data_def chain_ok_def CHAIN_PINNED_def buffer_len_def
        lwd_ok_def frozen_def no_files_def is_sendfile_def)
  from evbuffer_connection [OF t(1,2), of "[Sock_write 2, Sock_read 5 0 (- 1), Sock_write 9]"] show ?thesis unfolding t(3) by blast
qed

section \<open>Where it fails\<close>

text \<open>
  \<open>evbuffer_commit_space\<close> accepts a single area in the first chain with space or in the last chain. \<open>evbuffer_reserve_space\<close> may return an area in between: 926
  bytes in a chain of 976, then space for 500 and for 3000 bytes is reserved in several areas and not used. The area that is reserved for 600 bytes is refused when it is committed.
\<close>

theorem evbuffer_commit_refused:
  assumes d: "length d = 926"
  shows "\<exists>b1 b2 b3 v2 v3 v. evbuffer_add True d evbuffer_new = Inr (0, b1) \<and> evbuffer_reserve_space True 500 2 b1 = Inr (2, v2, b2) \<and>
    evbuffer_reserve_space True 3000 4 b2 = Inr (3, v3, b3) \<and> evbuffer_reserve_space True 600 1 b3 = Inr (1, [v], b3) \<and> evbuffer_commit_space [v] b3 = Inr (- 1, b3)"
proof -
  obtain b1 c where b1: "evbuffer_add True d evbuffer_new = Inr (0, b1)" "eb_chains b1 = [c]" "eb_lwd b1 = 0" "chain_ok c" "ch_off c = 926" "ch_misalign c = 0"
      "buffer_len c = 976" "\<not> is_immutable c" "frozen b1 = (False, False)"
    using add_to_new [of d] d by auto
  obtain t where t: "evbuffer_chain_new True 450 = Inr (Some t)" "buffer_len t = 976" "chain_ok t" "ch_misalign t = 0" "ch_off t = 0" "\<not> is_immutable t"
    using small_chain(1) [of 450] by auto
  obtain u where u: "evbuffer_chain_new True 1974 = Inr (Some u)" "buffer_len u = 2000" "chain_ok u" "ch_misalign u = 0" "ch_off u = 0" "\<not> is_immutable u"
    using small_chain(2) [of 1974] by auto
  have sp: "CHAIN_SPACE_LEN c = 50" "CHAIN_SPACE_LEN t = 976" "CHAIN_SPACE_LEN u = 2000" using b1 t u by (simp_all add: CHAIN_SPACE_LEN_def)
  have np: "\<not> CHAIN_PINNED c" using b1(4) by (simp add: chain_ok_def)
  have t0: "t\<lparr>ch_misalign := 0\<rparr> = t" using t(4) by simp
  have fr: "\<not> eb_freeze_end b1" using b1(9) by (simp add: frozen_def)
  let ?b2 = "b1\<lparr>eb_chains := [c, t]\<rparr>" and ?b3 = "b1\<lparr>eb_chains := [c, t, u]\<rparr>"
  have "evbuffer_expand_fast True 500 2 b1 = Inr (0, ?b2)" using b1 t(1) sp by (simp add: evbuffer_expand_fast_def Let_def)
  then have 2: "\<exists>v. evbuffer_reserve_space True 500 2 b1 = Inr (2, v, ?b2)"
    using fr b1 sp by (simp add: evbuffer_reserve_space_def evbuffer_read_setup_vecs_def first_space_def eval_nat_numeral)
  have "evbuffer_expand_fast True 3000 4 ?b2 = Inr (0, ?b3)" using b1 t u(1) sp t0 by (simp add: evbuffer_expand_fast_def Let_def)
  then have 3: "\<exists>v. evbuffer_reserve_space True 3000 4 ?b2 = Inr (3, v, ?b3)"
    using fr b1 sp by (simp add: evbuffer_reserve_space_def evbuffer_read_setup_vecs_def first_space_def numeral_nat)
  have "evbuffer_expand_singlechain True 600 ?b3 = Inr (Some (1, ?b3))"
    using b1 sp np by (simp add: evbuffer_expand_singlechain_def Let_def evbuffer_chain_should_realign_def expand_check_def)
  then have 4: "evbuffer_reserve_space True 600 1 ?b3 = Inr (1, [chain_space 1 t 976], ?b3)"
    using fr sp by (simp add: evbuffer_reserve_space_def)
  have "evbuffer_commit_space [chain_space 1 t 976] ?b3 = Inr (- 1, ?b3)"
    using fr b1 sp by (simp add: evbuffer_commit_space_def first_space_def chain_space_def)
  with b1(1) 2 3 4 show ?thesis by blast
qed

text \<open>
  \<open>evbuffer_add\<close> after \<open>evbuffer_expand\<close> leaves \<open>last_with_datap\<close> behind the data; the next \<open>evbuffer_read\<close> fails its assertion.
\<close>

theorem evbuffer_read_after_expand:
  assumes d: "length d = 900"
  shows "\<exists>b1 b2 b3. evbuffer_add True d evbuffer_new = Inr (0, b1) \<and> evbuffer_expand True 2000 b1 = Inr (0, b2) \<and>
     evbuffer_add True [x] b2 = Inr (0, b3) \<and> contents b3 = d @ [x] \<and> evbuffer_read True 4096 rv (- 1) b3 = Inl Assert_failed"
proof -
  obtain b1 b2 b3 c e where b: "evbuffer_add True d evbuffer_new = Inr (0, b1)" "evbuffer_expand True 2000 b1 = Inr (0, b2)" "evbuffer_add True [x] b2 = Inr (0, b3)"
      "contents b3 = d @ [x]" "eb_chains b3 = [c, e]" "eb_lwd b3 = 0" "frozen b3 = (False, False)" "ch_off c = 900" "CHAIN_SPACE_LEN c = 76" "ch_off e = 1" "\<not> is_immutable e"
    using stale_buffer [OF d, of x] by blast
  have "evbuffer_expand_fast True 4096 NUM_READ_IOVEC b3 = Inl Assert_failed"
    using b(5-11) by (simp add: evbuffer_expand_fast_def NUM_READ_IOVEC_def)
  then have "evbuffer_read True 4096 rv (- 1) b3 = Inl Assert_failed" using b(7) by (simp add: evbuffer_read_def EVBUFFER_MAX_READ_def frozen_def)
  with b(1-4) show ?thesis by blast
qed

end
