(* ===== verification/App_Conf.thy ===== *)
theory App_Conf
  imports String_Utility
begin

text \<open>
  \<open>AppConf\<close> (\<open>source/common/app_conf.cpp\<close>): the sections and values read from a configuration file.
  The parsers of \<open>boost::property_tree\<close> are arguments: they give a tree of keys, data and children, or
  raise an exception, which \<open>LoadConf\<close> does not catch. \<open>std::map::insert\<close> keeps the entry that is there.
\<close>

section \<open>Operations\<close>

datatype conf_error = Ptree_error

datatype ptree = Ptree (ptree_data: cstr) (ptree_children: "(cstr \<times> ptree) list")

type_synonym section_conf = "(cstr \<times> cstr) list"
type_synonym conf_items = "(cstr \<times> section_conf) list"

definition conf_insert :: "'k \<times> 'v \<Rightarrow> ('k \<times> 'v) list \<Rightarrow> ('k \<times> 'v) list" where
  "conf_insert kv m = (if map_of m (fst kv) = None then m @ [kv] else m)"

definition section_map :: "ptree \<Rightarrow> section_conf" where
  "section_map v = fold (\<lambda>(name, attr). conf_insert (name, ptree_data attr)) (ptree_children v) []"

definition LoadConf :: "bool \<Rightarrow> (cstr \<Rightarrow> ptree option) \<Rightarrow> (cstr \<Rightarrow> ptree option) \<Rightarrow> cstr \<Rightarrow> conf_items \<Rightarrow>
    conf_error + bool \<times> conf_items" where
  "LoadConf accessible read_ini read_xml filename conf =
     (if \<not> accessible then Inr (False, conf)
      else
        let parse = (if EndsWith filename (bytes ''.ini'') then Some (read_ini filename)
                     else if EndsWith filename (bytes ''.xml'') then Some (read_xml filename)
                     else None)
        in case parse of
             None \<Rightarrow> Inr (False, conf)
           | Some None \<Rightarrow> Inl Ptree_error
           | Some (Some pt) \<Rightarrow>
               let conf = fold (\<lambda>(name, v). conf_insert (name, section_map v)) (ptree_children pt) conf
               in Inr (conf \<noteq> [], conf))"

definition GetConfStr :: "cstr \<Rightarrow> cstr \<Rightarrow> conf_items \<Rightarrow> cstr" where
  "GetConfStr section_name name conf =
     (case map_of conf section_name of
        None \<Rightarrow> []
      | Some m \<Rightarrow> (case map_of m name of None \<Rightarrow> [] | Some v \<Rightarrow> v))"

definition GetConfInt :: "cstr \<Rightarrow> cstr \<Rightarrow> conf_items \<Rightarrow> int" where
  "GetConfInt section_name name conf =
     (case map_of conf section_name of
        None \<Rightarrow> - 1
      | Some m \<Rightarrow> (case map_of m name of None \<Rightarrow> - 1 | Some v \<Rightarrow> atoi v))"

section \<open>The first entry wins\<close>

lemma conf_insert_map_of: "map_of (conf_insert kv m) = (case kv of (k, v) \<Rightarrow> (\<lambda>k'. if k' = k \<and> map_of m k = None then Some v else map_of m k'))"
  by (cases kv) (auto simp: conf_insert_def fun_eq_iff map_add_def split: option.splits)

lemma fold_insert_map_of:
  "map_of (fold (\<lambda>(name, v). conf_insert (name, f v)) l m) = map_of (map (\<lambda>(name, v). (name, f v)) l) ++ map_of m"
proof (induction l arbitrary: m)
  case (Cons x l)
  obtain k v where x: "x = (k, v)" by (cases x)
  show ?case
    unfolding x by (auto simp: Cons conf_insert_map_of fun_eq_iff map_add_def split: option.splits)
qed simp

lemma fold_insert_Nil:
  fixes f :: "'c \<Rightarrow> 'b"
  shows "fold (\<lambda>(name, v). conf_insert (name, f v)) l m = [] \<longleftrightarrow> l = [] \<and> m = []"
proof (induction l arbitrary: m)
  case (Cons x l)
  have "conf_insert (k, v) m \<noteq> []" for k and v :: 'b by (cases m) (simp_all add: conf_insert_def)
  with Cons show ?case by (cases x) simp
qed simp

text \<open>
  What a file that is read contributes: the first section of a name and in it the first value of a name,
  unless a file read before has a section of that name, which then stays as it is.
\<close>

lemma LoadConf_lookup:
  assumes "LoadConf True read_ini read_xml filename conf = Inr (True, conf')"
  shows "\<exists>pt. map_of conf' = map_of (map (\<lambda>(k, v). (k, section_map v)) (ptree_children pt)) ++ map_of conf \<and>
     (read_ini filename = Some pt \<or> read_xml filename = Some pt)"
  using assms
  by (auto simp: LoadConf_def Let_def fold_insert_map_of simp del: bytes_simps split: if_splits option.splits)

lemma section_map_first: "map_of (section_map v) = map_of (map (\<lambda>(k, a). (k, ptree_data a)) (ptree_children v))"
  unfolding section_map_def using fold_insert_map_of [of ptree_data "ptree_children v" "[]"] by simp

lemma LoadConf_keeps:
  assumes "LoadConf accessible read_ini read_xml filename conf = Inr (r, conf')" "map_of conf sec = Some m"
  shows "GetConfStr sec name conf' = GetConfStr sec name conf"
    and "GetConfInt sec name conf' = GetConfInt sec name conf"
proof -
  have "map_of conf' sec = Some m"
    using assms by (auto simp: LoadConf_def Let_def fold_insert_map_of fold_insert_Nil simp del: bytes_simps split: if_splits option.splits)
  with assms(2) show "GetConfStr sec name conf' = GetConfStr sec name conf"
    and "GetConfInt sec name conf' = GetConfInt sec name conf"
    by (simp_all add: GetConfStr_def GetConfInt_def)
qed

lemma LoadConf_value:
  assumes "read_ini filename = Some pt" "EndsWith filename (bytes ''.ini'')"
    "map_of (ptree_children pt) sec = Some v" "map_of (ptree_children v) name = Some a"
  shows "\<exists>conf. LoadConf True read_ini read_xml filename [] = Inr (True, conf) \<and>
     GetConfStr sec name conf = ptree_data a \<and> GetConfInt sec name conf = atoi (ptree_data a)"
proof -
  let ?c = "fold (\<lambda>(name, v). conf_insert (name, section_map v)) (ptree_children pt) []"
  have ne: "?c \<noteq> []" using assms(3) by (auto simp: fold_insert_Nil)
  have "map_of ?c sec = Some (section_map v)"
    using assms(3) by (simp add: fold_insert_map_of map_of_map)
  moreover have "map_of (section_map v) name = Some (ptree_data a)"
    using assms(4) by (simp add: section_map_first map_of_map)
  moreover have "LoadConf True read_ini read_xml filename [] = Inr (True, ?c)"
    using assms(1,2) ne by (simp add: LoadConf_def Let_def del: bytes_simps)
  ultimately show ?thesis by (simp add: GetConfStr_def GetConfInt_def)
qed

end
