(* ===== verification/Thread_Pool.thy ===== *)
theory Thread_Pool
  imports Blocking_Queue
begin

text \<open>
  \<open>ThreadPool\<close> (\<open>source/common/thread_pool.cpp\<close>): worker threads that take tasks from one
  \<open>BlockingQueue\<close>, run them and put their ids into another. The workers, the thread that calls
  \<open>Terminate\<close> and the threads that add tasks interleave; a worker is between two of its calls, and what
  a task does is not part of the model, only that it was called. Both queues have the default capacity,
  so that \<open>PushBack\<close> does not wait.
\<close>

section \<open>State\<close>

record 'f task =
  task_fun :: 'f
  task_id :: int

text \<open>Where a worker is in \<open>InnerThread::Run\<close>: at the test, at the call of \<open>TimedPopFront\<close>, with a
  task in its hands, after the call of the task, or out of the loop.\<close>

datatype 'f worker_pc = W_test | W_pop | W_run "'f task" | W_push "'f task" | W_exited

record 'f inner_thread =
  th_exit :: bool
  th_waiting :: bool
  th_pc :: "'f worker_pc"

datatype terminator = T_idle | T_flag bool nat | T_join

text \<open>The last fields are history: the tasks added, called, and thrown away by \<open>Clear\<close>.\<close>

record 'f thread_pool =
  m_threads :: "'f inner_thread list"
  m_pending_queue :: "'f task list"
  m_finished_queue :: "int list"
  tp_exit :: bool
  tp_main :: terminator
  tp_added :: "'f task list"
  tp_called :: "'f task list"
  tp_dropped :: "'f task list"

definition ThreadPool_new :: "'f thread_pool" where
  "ThreadPool_new = \<lparr>m_threads = [], m_pending_queue = [], m_finished_queue = [], tp_exit = False, tp_main = T_idle,
     tp_added = [], tp_called = [], tp_dropped = []\<rparr>"

definition InnerThread_new :: "'f inner_thread" where
  "InnerThread_new = \<lparr>th_exit = False, th_waiting = True, th_pc = W_test\<rparr>"

section \<open>Operations\<close>

definition ThreadPool_Init :: "nat \<Rightarrow> 'f thread_pool \<Rightarrow> int \<times> 'f thread_pool" where
  "ThreadPool_Init thread_num s =
     (if thread_num \<le> 0 then (- 1, s)
      else (0, s\<lparr>m_threads := m_threads s @ replicate thread_num InnerThread_new\<rparr>))"

definition AddTask :: "'f \<Rightarrow> int \<Rightarrow> 'f thread_pool \<Rightarrow> int \<times> 'f thread_pool" where
  "AddTask f tid s =
     (let t = \<lparr>task_fun = f, task_id = tid\<rparr>
      in (0, s\<lparr>m_pending_queue := m_pending_queue s @ [t], tp_added := tp_added s @ [t]\<rparr>))"

definition InnerThread_Terminate :: "bool \<Rightarrow> 'f inner_thread \<Rightarrow> 'f inner_thread" where
  "InnerThread_Terminate waiting th = th\<lparr>th_exit := True, th_waiting := waiting\<rparr>"

text \<open>\<open>Terminate\<close>: tell every thread, join every thread, clear the queues.\<close>

definition Terminate_call :: "bool \<Rightarrow> 'f thread_pool \<Rightarrow> 'f thread_pool" where
  "Terminate_call waiting s = s\<lparr>tp_exit := True, tp_main := T_flag waiting 0\<rparr>"

definition Terminate_flag :: "bool \<Rightarrow> nat \<Rightarrow> 'f thread_pool \<Rightarrow> 'f thread_pool" where
  "Terminate_flag waiting i s =
     (if i < length (m_threads s)
      then s\<lparr>m_threads := (m_threads s)[i := InnerThread_Terminate waiting (m_threads s ! i)], tp_main := T_flag waiting (Suc i)\<rparr>
      else s\<lparr>tp_main := T_join\<rparr>)"

definition Terminate_join :: "'f thread_pool \<Rightarrow> 'f thread_pool option" where
  "Terminate_join s =
     (if list_all (\<lambda>th. th_pc th = W_exited) (m_threads s)
      then Some (s\<lparr>m_pending_queue := [], m_finished_queue := [], m_threads := [], tp_main := T_idle,
                   tp_dropped := tp_dropped s @ m_pending_queue s\<rparr>)
      else None)"

text \<open>\<open>GetFinishedTaskID\<close> tests the queue and then waits for at most a millisecond.\<close>

definition GetFinishedTaskID :: "bool \<Rightarrow> 'f thread_pool \<Rightarrow> (int option \<times> 'f thread_pool) option" where
  "GetFinishedTaskID waited s =
     (case IsEmpty (m_finished_queue s) of
        Leave (Flag True) q inside after \<Rightarrow> Some (None, s)
      | _ \<Rightarrow>
          (case TimedPopFront waited (m_finished_queue s) of
             Leave (Popped (i # is)) q inside after \<Rightarrow> Some (Some i, s\<lparr>m_finished_queue := q\<rparr>)
           | Leave r q inside after \<Rightarrow> Some (None, s)
           | Wait_on c \<Rightarrow> None))"

definition PendingSize :: "'f thread_pool \<Rightarrow> nat" where
  "PendingSize s = length (m_pending_queue s)"

text \<open>One step of a worker; \<open>None\<close> while \<open>TimedPopFront\<close> waits and after the loop.\<close>

definition Run_step :: "bool \<Rightarrow> nat \<Rightarrow> 'f thread_pool \<Rightarrow> 'f thread_pool option" where
  "Run_step waited i s =
     (let th = m_threads s ! i; goto = (\<lambda>pc. (m_threads s)[i := th\<lparr>th_pc := pc\<rparr>]) in
      case th_pc th of
        W_test \<Rightarrow>
          Some (s\<lparr>m_threads := goto (if th_exit th \<and> (\<not> th_waiting th \<or> th_waiting th \<and> m_pending_queue s = []) then W_exited else W_pop)\<rparr>)
      | W_pop \<Rightarrow>
          (case TimedPopFront waited (m_pending_queue s) of
             Leave (Popped (t # ts)) q inside after \<Rightarrow> Some (s\<lparr>m_pending_queue := q, m_threads := goto (W_run t)\<rparr>)
           | Leave r q inside after \<Rightarrow> Some (s\<lparr>m_threads := goto W_test\<rparr>)
           | Wait_on c \<Rightarrow> None)
      | W_run t \<Rightarrow> Some (s\<lparr>tp_called := tp_called s @ [t], m_threads := goto (W_push t)\<rparr>)
      | W_push t \<Rightarrow> Some (s\<lparr>m_finished_queue := m_finished_queue s @ [task_id t], m_threads := goto W_test\<rparr>)
      | W_exited \<Rightarrow> None)"

definition worker_step :: "'f thread_pool \<Rightarrow> 'f thread_pool \<Rightarrow> bool" where
  "worker_step s s' \<longleftrightarrow> (\<exists>i<length (m_threads s). \<exists>waited. Run_step waited i s = Some s')"

text \<open>With \<open>late\<close>, tasks are also added after \<open>Terminate\<close> was called: \<open>AddTask\<close> does not refuse them.\<close>

inductive tp_step :: "bool \<Rightarrow> 'f thread_pool \<Rightarrow> 'f thread_pool \<Rightarrow> bool" for late where
  init: "tp_main s = T_idle \<Longrightarrow> ThreadPool_Init n s = (r, s') \<Longrightarrow> tp_step late s s'"
| add: "\<not> tp_exit s \<or> late \<Longrightarrow> AddTask f tid s = (r, s') \<Longrightarrow> tp_step late s s'"
| finished: "GetFinishedTaskID w s = Some (r, s') \<Longrightarrow> tp_step late s s'"
| worker: "worker_step s s' \<Longrightarrow> tp_step late s s'"
| terminate: "tp_main s = T_idle \<Longrightarrow> tp_step late s (Terminate_call waiting s)"
| flag: "tp_main s = T_flag waiting i \<Longrightarrow> tp_step late s (Terminate_flag waiting i s)"
| join: "tp_main s = T_join \<Longrightarrow> Terminate_join s = Some s' \<Longrightarrow> tp_step late s s'"

inductive tp_reach :: "bool \<Rightarrow> 'f thread_pool \<Rightarrow> bool" for late where
  new: "tp_reach late ThreadPool_new"
| step: "tp_reach late s \<Longrightarrow> tp_step late s s' \<Longrightarrow> tp_reach late s'"

section \<open>No task is lost or called twice\<close>

fun in_hand :: "'f worker_pc \<Rightarrow> 'f task multiset" where
  "in_hand (W_run t) = {#t#}"
| "in_hand _ = {#}"

definition held :: "'f inner_thread list \<Rightarrow> 'f task multiset" where
  "held ths = (\<Sum>th\<leftarrow>ths. in_hand (th_pc th))"

definition conserved :: "'f thread_pool \<Rightarrow> bool" where
  "conserved s \<longleftrightarrow> mset (tp_added s) =
     mset (tp_called s) + held (m_threads s) + mset (m_pending_queue s) + mset (tp_dropped s)"

lemma held_update:
  "i < length ths \<Longrightarrow> held (ths[i := th]) + in_hand (th_pc (ths ! i)) = held ths + in_hand (th_pc th)"
proof (induction ths arbitrary: i)
  case (Cons x ths)
  then show ?case by (cases i) (auto simp: held_def ac_simps)
qed simp

text \<open>What a step does to the worker, the pending queue and the calls, apart from the rest of the state.\<close>

definition step_effect :: "'f thread_pool \<Rightarrow> 'f inner_thread \<Rightarrow> 'f worker_pc \<Rightarrow> 'f thread_pool \<Rightarrow> bool" where
  "step_effect s th pc s' \<longleftrightarrow>
     (case th_pc th of
        W_test \<Rightarrow> pc = (if th_exit th \<and> (th_waiting th \<longrightarrow> m_pending_queue s = []) then W_exited else W_pop) \<and>
          m_pending_queue s' = m_pending_queue s \<and> tp_called s' = tp_called s
      | W_pop \<Rightarrow> tp_called s' = tp_called s \<and>
          (case m_pending_queue s of [] \<Rightarrow> pc = W_test \<and> m_pending_queue s' = [] | t # q \<Rightarrow> pc = W_run t \<and> m_pending_queue s' = q)
      | W_run t \<Rightarrow> pc = W_push t \<and> m_pending_queue s' = m_pending_queue s \<and> tp_called s' = tp_called s @ [t]
      | W_push t \<Rightarrow> pc = W_test \<and> m_pending_queue s' = m_pending_queue s \<and> tp_called s' = tp_called s
      | W_exited \<Rightarrow> False)"

lemma Run_step_Some:
  assumes "Run_step w i s = Some s'"
  shows "\<exists>pc. m_threads s' = (m_threads s)[i := (m_threads s ! i)\<lparr>th_pc := pc\<rparr>] \<and> step_effect s (m_threads s ! i) pc s' \<and>
     tp_added s' = tp_added s \<and> tp_dropped s' = tp_dropped s \<and> tp_exit s' = tp_exit s \<and> tp_main s' = tp_main s"
proof (cases "th_pc (m_threads s ! i)")
  case W_pop
  with assms show ?thesis
    by (cases "m_pending_queue s") (auto simp: Run_step_def step_effect_def TimedPopFront_def Let_def split: if_splits)
qed (use assms in \<open>auto simp: Run_step_def step_effect_def Let_def split: if_splits\<close>)

lemma step_effect_tasks:
  "step_effect s th pc s' \<Longrightarrow> mset (tp_called s') + in_hand pc + mset (m_pending_queue s') =
     mset (tp_called s) + in_hand (th_pc th) + mset (m_pending_queue s)"
  by (auto simp: step_effect_def split: worker_pc.splits list.splits if_splits)

lemma worker_conserved:
  assumes "worker_step s s'" and c: "conserved s"
  shows "conserved s'"
proof -
  from assms(1) obtain i w where i: "i < length (m_threads s)" "Run_step w i s = Some s'" by (auto simp: worker_step_def)
  from Run_step_Some [OF i(2)] obtain pc where f: "m_threads s' = (m_threads s)[i := (m_threads s ! i)\<lparr>th_pc := pc\<rparr>]"
    "step_effect s (m_threads s ! i) pc s'" "tp_added s' = tp_added s" "tp_dropped s' = tp_dropped s" by blast
  let ?h = "in_hand (th_pc (m_threads s ! i))"
  have h: "held (m_threads s') + ?h = held (m_threads s) + in_hand pc"
    using held_update [OF i(1), of "(m_threads s ! i)\<lparr>th_pc := pc\<rparr>"] by (simp add: f)
  have "mset (tp_called s') + held (m_threads s') + mset (m_pending_queue s') + ?h =
      mset (tp_called s) + held (m_threads s) + mset (m_pending_queue s) + ?h"
    using h step_effect_tasks [OF f(2)] by (metis (no_types, lifting) add.assoc add.commute)
  with c show ?thesis unfolding conserved_def f(3,4) by simp
qed

lemma held_replicate_new [simp]: "held (ths @ replicate n InnerThread_new) = held ths"
  by (induction n) (simp_all add: held_def InnerThread_new_def)

lemma held_exited: "list_all (\<lambda>th. th_pc th = W_exited) ths \<Longrightarrow> held ths = {#}"
  by (induction ths) (simp_all add: held_def)

lemma held_flag: "i < length ths \<Longrightarrow> held (ths[i := InnerThread_Terminate w (ths ! i)]) = held ths"
  using held_update [of i ths "InnerThread_Terminate w (ths ! i)"] by (simp add: InnerThread_Terminate_def)

lemma tp_conserved: "tp_reach late s \<Longrightarrow> conserved s"
proof (induction rule: tp_reach.induct)
  case new
  show ?case by (simp add: conserved_def ThreadPool_new_def held_def)
next
  case (step s s')
  from step.hyps(2) step.IH show ?case
  proof (cases rule: tp_step.cases)
    case worker
    with step.IH show ?thesis by (rule worker_conserved [rotated])
  next
    case (finished w r)
    with step.IH show ?thesis
      by (cases "m_finished_queue s") (auto simp: conserved_def GetFinishedTaskID_def IsEmpty_def TimedPopFront_def)
  qed (auto simp: conserved_def ThreadPool_Init_def AddTask_def Terminate_call_def Terminate_flag_def Terminate_join_def
         Let_def held_flag held_exited split: if_splits)
qed

section \<open>Termination\<close>

definition told :: "'f inner_thread list \<Rightarrow> bool" where
  "told ths = list_all (\<lambda>th. th_exit th \<and> th_waiting th) ths"

definition all_exited :: "'f inner_thread list \<Rightarrow> bool" where
  "all_exited ths = list_all (\<lambda>th. th_pc th = W_exited) ths"

text \<open>
  With tasks left, a told worker goes on to the next task; with none left, it goes to its exit. A step
  takes a task from the queue or brings the worker nearer.
\<close>

fun pc_weight :: "bool \<Rightarrow> 'f worker_pc \<Rightarrow> nat" where
  "pc_weight e (W_run t) = 4"
| "pc_weight e (W_push t) = 3"
| "pc_weight e W_test = (if e then 1 else 2)"
| "pc_weight e W_pop = (if e then 2 else 1)"
| "pc_weight e W_exited = 0"

definition tp_measure :: "'f thread_pool \<Rightarrow> nat \<times> nat" where
  "tp_measure s = (length (m_pending_queue s), \<Sum>th\<leftarrow>m_threads s. pc_weight (m_pending_queue s = []) (th_pc th))"

lemma sum_list_smaller:
  fixes f :: "'a \<Rightarrow> nat"
  shows "i < length xs \<Longrightarrow> f x < f (xs ! i) \<Longrightarrow> sum_list (map f (xs[i := x])) < sum_list (map f xs)"
proof (induction xs arbitrary: i)
  case (Cons y ys)
  then show ?case by (cases i) auto
qed simp

lemma told_update: "told ths \<Longrightarrow> i < length ths \<Longrightarrow> told (ths[i := (ths ! i)\<lparr>th_pc := pc\<rparr>])"
  by (auto simp: told_def list_all_length nth_list_update)

lemma worker_decreases:
  assumes "worker_step s s'" and told: "told (m_threads s)"
  shows "told (m_threads s') \<and> (tp_measure s', tp_measure s) \<in> less_than <*lex*> less_than"
proof -
  from assms(1) obtain i w where i: "i < length (m_threads s)" "Run_step w i s = Some s'" by (auto simp: worker_step_def)
  from Run_step_Some [OF i(2)] obtain pc where f: "m_threads s' = (m_threads s)[i := (m_threads s ! i)\<lparr>th_pc := pc\<rparr>]"
    "step_effect s (m_threads s ! i) pc s'" by blast
  have "th_exit (m_threads s ! i) \<and> th_waiting (m_threads s ! i)" using told i(1) by (auto simp: told_def list_all_length)
  with f(2) have "length (m_pending_queue s') < length (m_pending_queue s) \<or>
      m_pending_queue s' = m_pending_queue s \<and>
      pc_weight (m_pending_queue s = []) pc < pc_weight (m_pending_queue s = []) (th_pc (m_threads s ! i))"
    by (auto simp: step_effect_def split: worker_pc.splits list.splits if_splits)
  then have "(tp_measure s', tp_measure s) \<in> less_than <*lex*> less_than"
  proof
    assume "m_pending_queue s' = m_pending_queue s \<and>
      pc_weight (m_pending_queue s = []) pc < pc_weight (m_pending_queue s = []) (th_pc (m_threads s ! i))"
    then show ?thesis
      using sum_list_smaller [OF i(1), of "\<lambda>th. pc_weight (m_pending_queue s = []) (th_pc th)" "(m_threads s ! i)\<lparr>th_pc := pc\<rparr>"]
      by (simp add: tp_measure_def f(1))
  qed (simp add: tp_measure_def)
  with told_update [OF told i(1)] f(1) show ?thesis by simp
qed

lemma worker_progress:
  assumes "\<not> all_exited (m_threads s)"
  shows "\<exists>s'. worker_step s s'"
proof -
  from assms obtain i where i: "i < length (m_threads s)" "th_pc (m_threads s ! i) \<noteq> W_exited"
    by (auto simp: all_exited_def list_all_length)
  then have "Run_step True i s \<noteq> None"
    by (cases "m_pending_queue s") (auto simp: Run_step_def Let_def TimedPopFront_def split: worker_pc.splits)
  with i show ?thesis unfolding worker_step_def by blast
qed

lemma told_no_infinite_run:
  assumes "told (m_threads s)"
  shows "\<nexists>f. f 0 = s \<and> (\<forall>n. worker_step (f n) (f (Suc n)))"
proof
  assume "\<exists>f. f 0 = s \<and> (\<forall>n. worker_step (f n) (f (Suc n)))"
  then obtain f where f: "f 0 = s" "\<And>n. worker_step (f n) (f (Suc n))" by blast
  have t: "told (m_threads (f n))" for n
    by (induction n) (use assms f worker_decreases in auto)
  have "(tp_measure (f (Suc n)), tp_measure (f n)) \<in> less_than <*lex*> less_than" for n
    using worker_decreases [OF f(2) t] by blast
  moreover have "wf (less_than <*lex*> less_than)" by (intro wf_lex_prod wf_less_than)
  ultimately show False
    unfolding wf_iff_no_infinite_down_chain by (auto dest: spec [of _ "\<lambda>n. tp_measure (f n)"])
qed

text \<open>A worker that has left found the queue empty, and without late tasks it stays empty.\<close>

definition exits_ok :: "'f thread_pool \<Rightarrow> bool" where
  "exits_ok s \<longleftrightarrow>
     (\<forall>th\<in>set (m_threads s). (th_exit th \<longrightarrow> tp_exit s) \<and>
        (th_pc th = W_exited \<longrightarrow> th_exit th \<and> (th_waiting th \<longrightarrow> m_pending_queue s = []))) \<and>
     (case tp_main s of
        T_idle \<Rightarrow> \<forall>th\<in>set (m_threads s). \<not> th_exit th
      | T_flag w i \<Rightarrow> tp_exit s \<and> (\<forall>j<length (m_threads s). i \<le> j \<longrightarrow> \<not> th_exit (m_threads s ! j))
      | T_join \<Rightarrow> True)"

lemma worker_exits_ok:
  assumes "worker_step s s'" and ok: "exits_ok s"
  shows "exits_ok s'"
proof -
  from assms(1) obtain i w where i: "i < length (m_threads s)" "Run_step w i s = Some s'" by (auto simp: worker_step_def)
  from Run_step_Some [OF i(2)] obtain pc where f: "m_threads s' = (m_threads s)[i := (m_threads s ! i)\<lparr>th_pc := pc\<rparr>]"
    "step_effect s (m_threads s ! i) pc s'" "tp_exit s' = tp_exit s" "tp_main s' = tp_main s" by blast
  let ?th = "m_threads s ! i"
  have q: "m_pending_queue s = [] \<Longrightarrow> m_pending_queue s' = []"
    using f(2) by (auto simp: step_effect_def split: worker_pc.splits list.splits)
  have pc: "pc = W_exited \<Longrightarrow> th_exit ?th \<and> (th_waiting ?th \<longrightarrow> m_pending_queue s' = [])"
    using f(2) by (auto simp: step_effect_def split: worker_pc.splits list.splits if_splits)
  have th: "?th \<in> set (m_threads s)" using i(1) by simp
  have "(th_exit th \<longrightarrow> tp_exit s') \<and> (th_pc th = W_exited \<longrightarrow> th_exit th \<and> (th_waiting th \<longrightarrow> m_pending_queue s' = []))"
    if "th \<in> set (m_threads s')" for th
  proof -
    from that f(1) i(1) consider "th = ?th\<lparr>th_pc := pc\<rparr>" | "th \<in> set (m_threads s)"
      using set_update_subset_insert by fastforce
    then show ?thesis
    proof cases
      case 1
      then show ?thesis using pc ok th by (auto simp: exits_ok_def f(3))
    next
      case 2
      then show ?thesis using q ok by (auto simp: exits_ok_def f(3))
    qed
  qed
  moreover have e: "th_exit ((m_threads s)[i := ?th\<lparr>th_pc := pc\<rparr>] ! j) = th_exit (m_threads s ! j)" for j
    using i(1) by (cases "j = i") simp_all
  have "case tp_main s' of T_idle \<Rightarrow> \<forall>th\<in>set (m_threads s'). \<not> th_exit th
      | T_flag w i \<Rightarrow> tp_exit s' \<and> (\<forall>j<length (m_threads s'). i \<le> j \<longrightarrow> \<not> th_exit (m_threads s' ! j)) | T_join \<Rightarrow> True"
    using ok th e by (auto simp: exits_ok_def f(1,3,4) split: terminator.splits dest!: set_update_subset_insert [THEN subsetD])
  ultimately show ?thesis unfolding exits_ok_def by blast
qed


lemma flag_exits_ok:
  assumes ok: "exits_ok s" and m: "tp_main s = T_flag w i"
  shows "exits_ok (Terminate_flag w i s)"
proof (cases "i < length (m_threads s)")
  case True
  let ?th = "m_threads s ! i"
  from ok m True have x: "tp_exit s" "\<not> th_exit ?th" "th_pc ?th \<noteq> W_exited" by (auto simp: exits_ok_def)
  have "(th_exit th \<longrightarrow> tp_exit s) \<and> (th_pc th = W_exited \<longrightarrow> th_exit th \<and> (th_waiting th \<longrightarrow> m_pending_queue s = []))"
    if "th \<in> set ((m_threads s)[i := InnerThread_Terminate w ?th])" for th
    using that x ok set_update_subset_insert [of "m_threads s" i] by (fastforce simp: exits_ok_def InnerThread_Terminate_def)
  moreover have "\<not> th_exit ((m_threads s)[i := InnerThread_Terminate w ?th] ! j)"
    if "j < length (m_threads s)" "Suc i \<le> j" for j
    using that ok m by (auto simp: exits_ok_def)
  ultimately show ?thesis using True x(1) by (simp add: exits_ok_def Terminate_flag_def)
next
  case False
  with ok show ?thesis by (simp add: exits_ok_def Terminate_flag_def)
qed

lemma tp_exits_ok: "tp_reach False s \<Longrightarrow> exits_ok s"
proof (induction rule: tp_reach.induct)
  case new
  show ?case by (simp add: exits_ok_def ThreadPool_new_def)
next
  case (step s s')
  from step.hyps(2) show ?case
  proof (cases rule: tp_step.cases)
    case (init n r)
    with step.IH show ?thesis by (auto simp: exits_ok_def ThreadPool_Init_def InnerThread_new_def split: if_splits)
  next
    case (add f tid r)
    with step.IH show ?thesis by (auto simp: exits_ok_def AddTask_def Let_def split: terminator.splits)
  next
    case (finished w r)
    with step.IH show ?thesis
      by (cases "m_finished_queue s") (auto simp: exits_ok_def GetFinishedTaskID_def IsEmpty_def TimedPopFront_def split: terminator.splits)
  next
    case worker
    from this step.IH show ?thesis by (rule worker_exits_ok)
  next
    case (terminate waiting)
    with step.IH show ?thesis by (auto simp: exits_ok_def Terminate_call_def)
  next
    case (flag waiting i)
    from flag_exits_ok [OF step.IH flag(2)] flag(1) show ?thesis by simp
  next
    case join
    then show ?thesis by (auto simp: exits_ok_def Terminate_join_def split: if_splits)
  qed
qed

section \<open>Properties\<close>

text \<open>
  Where no told worker can move, \<open>Terminate\<close> joins them all; what was added has been called or is thrown
  away with the queue, which is empty unless tasks came late.
\<close>

lemma told_workers_done:
  assumes "tp_reach late s" "told (m_threads s)" "m_threads s \<noteq> []"
    and run: "worker_step\<^sup>*\<^sup>* s s'" and stuck: "\<nexists>s''. worker_step s' s''"
  shows "\<exists>s''. Terminate_join s' = Some s'' \<and> tp_dropped s'' = tp_dropped s @ m_pending_queue s' \<and>
    mset (tp_called s'') + mset (tp_dropped s'') = mset (tp_added s) \<and> (\<not> late \<longrightarrow> m_pending_queue s' = [])"
proof -
  from run have inv: "tp_reach late s' \<and> told (m_threads s') \<and> length (m_threads s') = length (m_threads s) \<and>
      tp_added s' = tp_added s \<and> tp_dropped s' = tp_dropped s"
  proof (induction rule: rtranclp_induct)
    case base
    show ?case using assms by simp
  next
    case (step y z)
    then obtain i w where "Run_step w i y = Some z" by (auto simp: worker_step_def)
    from Run_step_Some [OF this] step.IH worker_decreases [OF step.hyps(2)]
    show ?case using tp_reach.step [OF _ tp_step.worker [OF step.hyps(2)]] by auto
  qed
  have ex: "all_exited (m_threads s')" using stuck worker_progress by blast
  from inv assms(3) obtain th ths where th: "m_threads s' = th # ths" by (cases "m_threads s'") auto
  with ex inv have "th_pc th = W_exited" "th_waiting th" by (simp_all add: all_exited_def told_def)
  with tp_exits_ok [of s'] inv th have q: "\<not> late \<longrightarrow> m_pending_queue s' = []" by (auto simp: exits_ok_def)
  have "mset (tp_added s') = mset (tp_called s') + mset (m_pending_queue s') + mset (tp_dropped s')"
    using tp_conserved [of late s'] inv held_exited ex by (auto simp: conserved_def all_exited_def)
  with ex q inv show ?thesis
    by (simp add: Terminate_join_def all_exited_def)
qed

text \<open>
  C9. \<open>Terminate(true)\<close> returns: once all workers are told to leave, they cannot go on forever, and when none of
  them can move any more, all have left, so that every \<open>Join\<close> returns. Every task that was ever added has then
  been called or thrown away, each once. The tasks thrown away are those that were before, and those the
  workers left in the queue: none, when no task was added after \<open>Terminate\<close> was called.
\<close>

theorem thread_pool_terminate:
  assumes "tp_reach late s" "told (m_threads s)" "m_threads s \<noteq> []"
  shows "(\<nexists>f. f 0 = s \<and> (\<forall>n. worker_step (f n) (f (Suc n)))) \<and>
     (\<forall>s'. worker_step\<^sup>*\<^sup>* s s' \<longrightarrow> (\<nexists>s''. worker_step s' s'') \<longrightarrow>
       (\<exists>s''. Terminate_join s' = Some s'' \<and> tp_dropped s'' = tp_dropped s @ m_pending_queue s' \<and>
         mset (tp_called s'') + mset (tp_dropped s'') = mset (tp_added s) \<and>
         (\<not> late \<longrightarrow> m_pending_queue s' = [])))"
  using told_no_infinite_run [OF assms(2)] told_workers_done [OF assms] by blast

definition one_task :: "nat task" where
  "one_task = \<lparr>task_fun = 3, task_id = 12\<rparr>"

text \<open>One worker and one task, from the call of \<open>Terminate(true)\<close> to the exit of the worker.\<close>

definition one_worker :: "nat worker_pc \<Rightarrow> nat task list \<Rightarrow> int list \<Rightarrow> nat task list \<Rightarrow> nat thread_pool" where
  "one_worker pc pending finished called = \<lparr>m_threads = [\<lparr>th_exit = True, th_waiting = True, th_pc = pc\<rparr>],
     m_pending_queue = pending, m_finished_queue = finished, tp_exit = True, tp_main = T_join, tp_added = [one_task],
     tp_called = called, tp_dropped = []\<rparr>"

lemma one_worker_reach: "tp_reach False (one_worker W_test [one_task] [] [])"
proof -
  let ?s1 = "snd (ThreadPool_Init 1 ThreadPool_new) :: nat thread_pool"
  let ?s2 = "snd (AddTask 3 12 ?s1)"
  let ?s3 = "Terminate_call True ?s2"
  let ?s4 = "Terminate_flag True 0 ?s3"
  let ?s5 = "Terminate_flag True 1 ?s4"
  note d = ThreadPool_Init_def AddTask_def Terminate_call_def Terminate_flag_def ThreadPool_new_def InnerThread_new_def
    InnerThread_Terminate_def Let_def
  have r1: "tp_reach False ?s1"
    by (rule tp_reach.step [OF tp_reach.new tp_step.init [of _ 1 0]]) (simp_all add: d)
  have r2: "tp_reach False ?s2"
    by (rule tp_reach.step [OF r1 tp_step.add [of _ _ 3 12 0]]) (simp_all add: d)
  have r3: "tp_reach False ?s3"
    by (rule tp_reach.step [OF r2 tp_step.terminate]) (simp add: d)
  have r4: "tp_reach False ?s4"
    by (rule tp_reach.step [OF r3 tp_step.flag]) (simp add: d)
  have r5: "tp_reach False ?s5"
    by (rule tp_reach.step [OF r4 tp_step.flag]) (simp add: d)
  moreover have "?s5 = one_worker W_test [one_task] [] []" by (simp add: d one_worker_def one_task_def)
  ultimately show ?thesis by simp
qed

lemma one_worker_run:
  "worker_step\<^sup>*\<^sup>* (one_worker W_test [one_task] [] []) (one_worker W_exited [] [12] [one_task])"
proof -
  have step: "worker_step s s'" if "length (m_threads s) = 1" "Run_step False 0 s = Some s'" for s s' :: "nat thread_pool"
    using that by (auto simp: worker_step_def)
  note d = one_worker_def Run_step_def TimedPopFront_def one_task_def
  have "worker_step (one_worker W_test [one_task] [] []) (one_worker W_pop [one_task] [] [])"
    "worker_step (one_worker W_pop [one_task] [] []) (one_worker (W_run one_task) [] [] [])"
    "worker_step (one_worker (W_run one_task) [] [] []) (one_worker (W_push one_task) [] [] [one_task])"
    "worker_step (one_worker (W_push one_task) [] [] [one_task]) (one_worker W_test [] [12] [one_task])"
    "worker_step (one_worker W_test [] [12] [one_task]) (one_worker W_exited [] [12] [one_task])"
    by (rule step; simp add: d)+
  then show ?thesis by (meson rtranclp.rtrancl_into_rtrancl rtranclp.rtrancl_refl)
qed

theorem thread_pool_terminate_witness:
  "\<exists>s. Terminate_join (one_worker W_exited [] [12] [one_task]) = Some s \<and> tp_dropped s = [] \<and> mset (tp_called s) = {#one_task#}"
proof -
  have stuck: "\<nexists>s. worker_step (one_worker W_exited [] [12] [one_task]) s"
    by (simp add: worker_step_def Run_step_def one_worker_def)
  have "told (m_threads (one_worker W_test [one_task] [] []))" "m_threads (one_worker W_test [one_task] [] []) \<noteq> []"
    by (simp_all add: told_def one_worker_def)
  from thread_pool_terminate [OF one_worker_reach this] one_worker_run stuck
  have "\<exists>s. Terminate_join (one_worker W_exited [] [12] [one_task]) = Some s \<and>
      tp_dropped s = tp_dropped (one_worker W_test [one_task] [] []) @
        m_pending_queue (one_worker W_exited [] [12] [one_task]) \<and>
      mset (tp_called s) + mset (tp_dropped s) = mset (tp_added (one_worker W_test [one_task] [] []))"
    by blast
  then show ?thesis by (auto simp: one_worker_def)
qed

text \<open>
  \<open>AddTask\<close> never looks at \<open>m_exit\<close>: a task that is added while \<open>Terminate(true)\<close> joins the workers is
  accepted, returns 0, and is thrown away.
\<close>

lemma thread_pool_late_task_lost:
  "\<exists>s s' s'' :: nat thread_pool. tp_reach True s \<and> tp_main s = T_join \<and> AddTask 3 12 s = (0, s') \<and>
     Terminate_join s' = Some s'' \<and> tp_dropped s'' = [one_task] \<and> tp_called s'' = []"
proof -
  let ?s1 = "snd (ThreadPool_Init 1 ThreadPool_new) :: nat thread_pool"
  let ?s2 = "Terminate_flag True 1 (Terminate_flag True 0 (Terminate_call True ?s1))"
  let ?s3 = "?s2\<lparr>m_threads := [\<lparr>th_exit = True, th_waiting = True, th_pc = W_exited\<rparr>]\<rparr>"
  note d = ThreadPool_Init_def AddTask_def Terminate_call_def Terminate_flag_def ThreadPool_new_def InnerThread_new_def
    InnerThread_Terminate_def Let_def
  have "tp_reach True ?s1"
    by (rule tp_reach.step [OF tp_reach.new tp_step.init [of _ 1 0]]) (simp_all add: d)
  then have "tp_reach True (Terminate_call True ?s1)"
    by (rule tp_reach.step [OF _ tp_step.terminate]) (simp add: d)
  then have "tp_reach True (Terminate_flag True 0 (Terminate_call True ?s1))"
    by (rule tp_reach.step [OF _ tp_step.flag]) (simp add: d)
  then have "tp_reach True ?s2"
    by (rule tp_reach.step [OF _ tp_step.flag]) (simp add: d)
  moreover have "worker_step ?s2 ?s3"
    unfolding worker_step_def by (intro exI [of _ 0] conjI exI [of _ False]) (simp_all add: Run_step_def d)
  ultimately have r: "tp_reach True ?s3" by (rule tp_reach.step [OF _ tp_step.worker])
  show ?thesis
    by (intro exI [of _ ?s3] exI [of _ "snd (AddTask 3 12 ?s3)"] exI [of _ "the (Terminate_join (snd (AddTask 3 12 ?s3)))"] conjI, rule r)
       (simp_all add: d Terminate_join_def one_task_def)
qed

end
