(* ===== verification/Object_Pools.thy ===== *)
theory Object_Pools
  imports Prelude
begin

text \<open>
  \<open>ObjectPool\<close> (\<open>source/common/object_pool.h\<close>), a list of objects to lend with a counter of its length,
  and \<open>MessagePool\<close> (\<open>source/common/message_pool.h\<close>), a vector with one entry per thread, whose index
  the thread keeps in thread-local storage. An object is the number \<open>make_shared\<close> gave it.
\<close>

section \<open>ObjectPool\<close>

record object_pool =
  op_size :: nat
  op_pool :: "nat list"
  op_next :: nat

definition ObjectPool_new :: "nat \<Rightarrow> object_pool" where
  "ObjectPool_new n = \<lparr>op_size = n, op_pool = [0..<n], op_next = n\<rparr>"

definition GetObject :: "object_pool \<Rightarrow> (nat \<times> object_pool) result" where
  "GetObject p =
     (if 0 = op_size p then Inr (op_next p, p\<lparr>op_next := Suc (op_next p)\<rparr>)
      else case op_pool p of
             [] \<Rightarrow> Inl Undefined_behaviour
           | object # rest \<Rightarrow> Inr (object, p\<lparr>op_pool := rest, op_size := op_size p - 1\<rparr>))"

definition ReturnObject :: "nat \<Rightarrow> object_pool \<Rightarrow> object_pool" where
  "ReturnObject obj p = p\<lparr>op_pool := op_pool p @ [obj], op_size := Suc (op_size p)\<rparr>"

definition ObjectPool_delete :: "object_pool \<Rightarrow> object_pool" where
  "ObjectPool_delete p = p\<lparr>op_pool := [], op_size := 0\<rparr>"

text \<open>Clients that give back what they hold, once; \<open>lent\<close> are the objects they hold.\<close>

inductive pool_reach :: "object_pool \<Rightarrow> nat list \<Rightarrow> bool" where
  new: "pool_reach (ObjectPool_new n) []"
| get: "pool_reach p lent \<Longrightarrow> GetObject p = Inr (x, p') \<Longrightarrow> pool_reach p' (x # lent)"
| return: "pool_reach p (as @ x # bs) \<Longrightarrow> pool_reach (ReturnObject x p) (as @ bs)"

text \<open>The counter is the length of the list, and no object is lent to two clients or lent and in the pool.\<close>

lemma object_pool_exclusive:
  "pool_reach p lent \<Longrightarrow> op_size p = length (op_pool p) \<and> distinct (op_pool p @ lent) \<and> (\<forall>x\<in>set (op_pool p @ lent). x < op_next p)"
proof (induction rule: pool_reach.induct)
  case (new n)
  show ?case by (auto simp: ObjectPool_new_def)
next
  case (get p lent x p')
  then show ?case by (auto simp: GetObject_def split: if_splits list.splits)
next
  case (return p as x bs)
  then show ?case by (auto simp: ReturnObject_def)
qed

lemma GetObject_defined: "pool_reach p lent \<Longrightarrow> \<exists>x p'. GetObject p = Inr (x, p')"
  using object_pool_exclusive [of p lent] by (auto simp: GetObject_def split: list.splits)

section \<open>MessagePool\<close>

text \<open>\<open>t_index\<close> is a static member: all pools with one element type share it.\<close>

type_synonym 'a message_pool = "'a list"

definition SetMessage :: "nat \<Rightarrow> 'a \<Rightarrow> (nat \<Rightarrow> nat) \<times> 'a message_pool \<Rightarrow> (nat \<Rightarrow> nat) \<times> 'a message_pool" where
  "SetMessage t v s =
     (case s of (t_index, m_all_message) \<Rightarrow>
        if t_index t < length m_all_message then (t_index, m_all_message[t_index t := v])
        else (t_index(t := length m_all_message), m_all_message @ [v]))"

definition SetMessage_at :: "nat \<Rightarrow> 'a \<Rightarrow> 'a message_pool \<Rightarrow> 'a message_pool" where
  "SetMessage_at index v m = (if length m \<le> index then m else m[index := v])"

definition GetMessage :: "nat \<Rightarrow> (nat \<Rightarrow> nat) \<times> 'a message_pool \<Rightarrow> 'a option" where
  "GetMessage t s =
     (case s of (t_index, m_all_message) \<Rightarrow> if length m_all_message \<le> t_index t then None else Some (m_all_message ! t_index t))"

definition GetMessage_at :: "nat \<Rightarrow> 'a message_pool \<Rightarrow> 'a option" where
  "GetMessage_at index m = (if length m \<le> index then None else Some (m ! index))"

definition MessagePool_Size :: "'a message_pool \<Rightarrow> nat" where
  "MessagePool_Size m = length m"

definition T_INDEX :: nat where "T_INDEX = 99999999"

text \<open>The threads of a program with a single pool set their messages one after the other.\<close>

fun set_messages :: "(nat \<times> 'a) list \<Rightarrow> (nat \<Rightarrow> nat) \<times> 'a message_pool \<Rightarrow> (nat \<Rightarrow> nat) \<times> 'a message_pool" where
  "set_messages [] s = s"
| "set_messages ((t, v) # calls) s = set_messages calls (SetMessage t v s)"

definition own_slots :: "(nat \<Rightarrow> nat) \<times> 'a message_pool \<Rightarrow> bool" where
  "own_slots s \<longleftrightarrow> (\<forall>t. fst s t < length (snd s) \<or> fst s t = T_INDEX) \<and>
     (\<forall>t u. fst s t = fst s u \<and> fst s t < length (snd s) \<longrightarrow> t = u)"

lemma SetMessage_own:
  assumes "own_slots s" "length (snd s) < T_INDEX"
  shows "own_slots (SetMessage t v s)" "length (snd (SetMessage t v s)) \<le> Suc (length (snd s))"
    "GetMessage u (SetMessage t v s) = (if u = t then Some v else GetMessage u s)"
proof -
  obtain f m where s: "s = (f, m)" by (cases s)
  from assms have f: "\<And>t. f t < length m \<or> f t = T_INDEX" "\<And>t u. f t = f u \<Longrightarrow> f t < length m \<Longrightarrow> t = u"
    and l: "length m < T_INDEX" by (auto simp: own_slots_def s)
  show "length (snd (SetMessage t v s)) \<le> Suc (length (snd s))" by (simp add: s SetMessage_def)
  show "GetMessage u (SetMessage t v s) = (if u = t then Some v else GetMessage u s)"
    using f(1) [of u] f(2) [of t u] l by (auto simp: s SetMessage_def GetMessage_def nth_append nth_list_update)
  show "own_slots (SetMessage t v s)"
  proof (cases "f t < length m")
    case True
    with f show ?thesis by (auto simp: s SetMessage_def own_slots_def)
  next
    case False
    let ?f = "f(t := length m)"
    have ne: "f u \<noteq> length m" for u using f(1) [of u] l by linarith
    have "?f u < Suc (length m) \<or> ?f u = T_INDEX" for u using f(1) [of u] by (cases "u = t") auto
    moreover have "x = y" if xy: "?f x = ?f y" "?f x < Suc (length m)" for x y
    proof (cases "x = t \<or> y = t")
      case True
      with xy(1) ne [of x] ne [of y] show ?thesis by (auto split: if_splits)
    next
      case False
      with xy have "f x = f y" "f x < Suc (length m)" by simp_all
      with f(2) [of x y] ne [of x] show ?thesis by (simp add: less_Suc_eq)
    qed
    moreover have "SetMessage t v s = (?f, m @ [v])" using False by (simp add: s SetMessage_def)
    moreover have "length (m @ [v]) = Suc (length m)" by simp
    ultimately show ?thesis unfolding own_slots_def by (metis fst_conv snd_conv)
  qed
qed

lemma set_messages_get:
  "own_slots s \<Longrightarrow> length (snd s) + length calls \<le> T_INDEX \<Longrightarrow>
     GetMessage t (set_messages calls s) = (case map_of (rev calls) t of Some v \<Rightarrow> Some v | None \<Rightarrow> GetMessage t s)"
proof (induction calls s rule: set_messages.induct)
  case (2 u v calls s)
  then have l: "length (snd s) < T_INDEX" by simp
  note o = SetMessage_own [OF 2(2) l, where t = u and v = v]
  have "GetMessage t (set_messages calls (SetMessage u v s)) =
      (case map_of (rev calls) t of Some v \<Rightarrow> Some v | None \<Rightarrow> GetMessage t (SetMessage u v s))"
    by (rule 2(1)) (use o(1,2) 2(3) in auto)
  then show ?case by (auto simp: o(3) map_add_def split: option.splits)
qed simp

text \<open>With one pool, every thread reads the message that it set last, whatever the others do.\<close>

lemma message_pool_get:
  "length calls \<le> T_INDEX \<Longrightarrow> GetMessage t (set_messages calls (\<lambda>_. T_INDEX, [])) = map_of (rev calls) t"
  by (subst set_messages_get) (auto simp: own_slots_def GetMessage_def T_INDEX_def split: option.splits)

text \<open>
  With a second pool of the same type this fails: the index that a thread got from the first pool is used
  for the second, where it is the entry of another thread.
\<close>

lemma message_pool_shared_index:
  "let t_index = (\<lambda>_. T_INDEX);
       (t_index, a) = SetMessage 1 (10 :: nat) (t_index, []);
       (t_index, b) = SetMessage 2 20 (t_index, []);
       (t_index, b) = SetMessage 1 11 (t_index, b)
   in GetMessage 2 (t_index, b) = Some 11"
  by (simp add: SetMessage_def GetMessage_def T_INDEX_def)

end
