(* ===== verification/Mq_Server.thy ===== *)
theory Mq_Server
  imports String_Utility Time_Utility Blocking_Queue Session_Cache Message_Handles "HOL-Library.Sublist"
begin

text \<open>
  \<open>AsyncMQServer\<close> (\<open>source/transport/async_mq_server.cpp\<close>): requests from a message queue are numbered,
  their reply addresses saved in a \<open>SessionCache\<close>, and handed to the application through a
  \<open>BlockingQueue\<close>; the answers of the application go through a second queue to a thread that looks the
  address up and calls \<open>Message::SendTo\<close>. The driver's thread, the sending thread and any number of
  application threads interleave; a step is what one of them does between two blocking calls. The clock,
  \<open>localtime_r\<close>, the driver's functions and the wait function are arguments.
\<close>

section \<open>State\<close>

record trans_message =
  msg_id :: cstr
  msg_buffer :: cstr

datatype mq_error = Mq_cache cache_error | Mq_time cpp_error

text \<open>Where the driver's thread is in \<open>OnAsyncMessage\<close>, and the sending thread in \<open>Run\<close>.\<close>

datatype mq_receiver = M_idle | M_push trans_message | M_wait

datatype mq_sender = S_off | S_pop | S_have trans_message | S_tick

text \<open>
  The last fields are history: all messages that arrived, those with the address for the reply when one
  is needed, the messages the application took, the answers it queued, and the calls of \<open>SendTo\<close> with
  their results.
\<close>

record 'r mq_server =
  mq_handle :: int
  mq_session_timeout :: int
  mq_max_message_size :: int
  mq_need_reply :: bool
  mq_driver_staus :: bool
  mq_driver :: "driver option"
  mq_waitFun :: bool
  server_seq_no :: int
  server_send_queue :: "trans_message list"
  server_recv_queue :: "trans_message list"
  mq_server_session_cache :: "(cstr, 'r) session_cache"
  mq_message :: message
  mq_on_message :: mq_receiver
  mq_run :: mq_sender
  mq_last_time :: int
  mq_received :: "trans_message list"
  mq_arrived :: "(trans_message \<times> 'r) list"
  mq_taken :: "trans_message list"
  mq_queued :: "trans_message list"
  mq_sent :: "(trans_message \<times> 'r \<times> int) list"

definition AsyncMQServer_new :: "'r mq_server" where
  "AsyncMQServer_new = \<lparr>mq_handle = - 1, mq_session_timeout = 60, mq_max_message_size = 100, mq_need_reply = False,
     mq_driver_staus = False, mq_driver = None, mq_waitFun = False, server_seq_no = 0, server_send_queue = [],
     server_recv_queue = [], mq_server_session_cache = SessionCache_new 60, mq_message = message0, mq_on_message = M_idle,
     mq_run = S_off, mq_last_time = 0, mq_received = [], mq_arrived = [], mq_taken = [], mq_queued = [], mq_sent = []\<rparr>"

definition SEND_MAX :: nat where "SEND_MAX = 2 ^ 64 - 1"

definition RECV_MAX :: nat where "RECV_MAX = 5"

section \<open>Sessions\<close>

definition GenSessionId :: "(int \<Rightarrow> tm option) \<Rightarrow> int \<Rightarrow> 'r mq_server \<Rightarrow> mq_error + cstr \<times> 'r mq_server" where
  "GenSessionId localtime_r now s =
     (if \<not> mq_need_reply s then Inr ([], s)
      else
        let n = server_seq_no s + 1;
            n = (if 99999999 < n then 1 else n);
            n = n + 1
        in case GetStringTime localtime_r now [] of
             Inl e \<Rightarrow> Inl (Mq_time e)
           | Inr t \<Rightarrow> Inr (t @ IntToString (word_of_int n), s\<lparr>server_seq_no := n\<rparr>))"

definition SaveSession :: "int \<Rightarrow> cstr \<Rightarrow> 'r \<Rightarrow> 'r mq_server \<Rightarrow> mq_error + bool \<times> 'r mq_server" where
  "SaveSession now session_id reply s =
     (if \<not> mq_need_reply s then Inr (True, s)
      else case PushSession now session_id reply (mq_server_session_cache s) of
             Inl e \<Rightarrow> Inl (Mq_cache e)
           | Inr (ok, c) \<Rightarrow> Inr (ok, s\<lparr>mq_server_session_cache := c\<rparr>))"

text \<open>The pointer \<open>reply\<close> is \<open>NULL\<close> (\<open>None\<close>) when the call leaves it alone.\<close>

definition GetSession :: "cstr \<Rightarrow> 'r mq_server \<Rightarrow> mq_error + 'r option \<times> 'r mq_server" where
  "GetSession session_id s =
     (if \<not> mq_need_reply s then Inr (None, s)
      else case PopSession session_id (mq_server_session_cache s) of
             Inl e \<Rightarrow> Inl (Mq_cache e)
           | Inr (reply, c) \<Rightarrow> Inr (reply, s\<lparr>mq_server_session_cache := c\<rparr>))"

section \<open>The driver's thread\<close>

text \<open>\<open>OnAsyncMessage\<close> up to the call of \<open>PushBack\<close>; the result of \<open>SaveSession\<close> is ignored.\<close>

definition OnAsyncMessage :: "(int \<Rightarrow> tm option) \<Rightarrow> int \<Rightarrow> cstr \<Rightarrow> 'r \<Rightarrow> 'r mq_server \<Rightarrow> mq_error + 'r mq_server" where
  "OnAsyncMessage localtime_r now msg reply s =
     bind_result (GenSessionId localtime_r now s) (\<lambda>(sid, s).
       let t = \<lparr>msg_id = sid, msg_buffer = msg\<rparr> in
       bind_result (if mq_need_reply s then SaveSession now sid reply s else Inr (True, s)) (\<lambda>(ok, s).
         Inr (s\<lparr>mq_on_message := M_push t, mq_received := mq_received s @ [t],
                mq_arrived := (if mq_need_reply s then mq_arrived s @ [(t, reply)] else mq_arrived s)\<rparr>)))"

definition OnAsyncMessage_push :: "'r mq_server \<Rightarrow> 'r mq_server option" where
  "OnAsyncMessage_push s =
     (case mq_on_message s of
        M_push t \<Rightarrow>
          (case PushBack RECV_MAX t (server_recv_queue s) of
             Leave r q inside after \<Rightarrow>
               Some (s\<lparr>server_recv_queue := q, mq_on_message := (if mq_waitFun s then M_wait else M_idle)\<rparr>)
           | Wait_on c \<Rightarrow> None)
      | _ \<Rightarrow> None)"

definition OnAsyncMessage_wait :: "bool \<Rightarrow> 'r mq_server \<Rightarrow> 'r mq_server option" where
  "OnAsyncMessage_wait waitFun s =
     (if mq_on_message s \<noteq> M_wait then None
      else Some (if waitFun then s\<lparr>mq_on_message := M_idle\<rparr> else s))"

section \<open>Set-up\<close>

text \<open>The results of the three calls of \<open>Message\<close> are ignored.\<close>

definition AsyncMQServer_Init :: "(driver \<Rightarrow> cstr) \<Rightarrow> int \<Rightarrow> send_to option \<Rightarrow> driver \<Rightarrow> bool \<Rightarrow> 'r mq_server \<Rightarrow> bool \<times> 'r mq_server" where
  "AsyncMQServer_Init name ret send_to d need_reply s =
     (if mq_driver_staus s then (False, s)
      else
        let (h, ms) = NewHandle (mq_message s);
            (_, ms) = RegisterDriver name (Some d) ms;
            (_, ms) = message_Run name ret send_to h d ms
        in (True, s\<lparr>mq_need_reply := need_reply, mq_driver := Some d, mq_handle := h, mq_message := ms,
                    mq_driver_staus := True\<rparr>))"

definition StartService :: "'r mq_server \<Rightarrow> 'r mq_server" where
  "StartService s = (if mq_driver s \<noteq> None then s\<lparr>mq_driver_staus := True\<rparr> else s)"

definition StopService :: "'r mq_server \<Rightarrow> 'r mq_server" where
  "StopService s = (if mq_driver s \<noteq> None then s\<lparr>mq_driver_staus := False\<rparr> else s)"

definition mq_SetTimeout :: "int \<Rightarrow> 'r mq_server \<Rightarrow> 'r mq_server" where
  "mq_SetTimeout timeout s = s\<lparr>mq_session_timeout := timeout\<rparr>"

definition SetMaxMessageSize :: "int \<Rightarrow> 'r mq_server \<Rightarrow> 'r mq_server" where
  "SetMaxMessageSize max_size s = s\<lparr>mq_max_message_size := max_size\<rparr>"

definition SetWaitFunction :: "bool \<Rightarrow> 'r mq_server \<Rightarrow> 'r mq_server" where
  "SetWaitFunction fun_given s = s\<lparr>mq_waitFun := fun_given\<rparr>"

section \<open>The sending thread\<close>

definition Run_start :: "int \<Rightarrow> 'r mq_server \<Rightarrow> 'r mq_server" where
  "Run_start ms s = (if \<not> mq_need_reply s then s else s\<lparr>mq_run := S_pop, mq_last_time := ms\<rparr>)"

definition Run_pop :: "bool \<Rightarrow> 'r mq_server \<Rightarrow> 'r mq_server option" where
  "Run_pop waited s =
     (if mq_run s \<noteq> S_pop then None
      else case TimedPopFront waited (server_send_queue s) of
             Leave (Popped (t # ts)) q inside after \<Rightarrow> Some (s\<lparr>server_send_queue := q, mq_run := S_have t\<rparr>)
           | Leave _ q inside after \<Rightarrow> Some (s\<lparr>mq_run := S_tick\<rparr>)
           | Wait_on c \<Rightarrow> None)"

text \<open>\<open>continue\<close> skips the look at the clock.\<close>

definition Run_reply :: "('r \<Rightarrow> send_to \<Rightarrow> cstr \<Rightarrow> int option) \<Rightarrow> trans_message \<Rightarrow> 'r mq_server \<Rightarrow> mq_error + 'r mq_server" where
  "Run_reply call t s =
     bind_result (GetSession (msg_id t) s) (\<lambda>(reply, s).
       case reply of
         None \<Rightarrow> Inr (s\<lparr>mq_run := S_pop\<rparr>)
       | Some r \<Rightarrow>
           if \<not> mq_driver_staus s then Inr (s\<lparr>mq_run := S_pop\<rparr>)
           else case SendTo (call r) (mq_handle s) (Some (msg_buffer t)) (mq_message s) of
                  (ret, ms) \<Rightarrow> Inr (s\<lparr>mq_message := ms, mq_sent := mq_sent s @ [(t, r, ret)], mq_run := S_tick\<rparr>))"

definition Run_tick :: "int \<Rightarrow> int \<Rightarrow> int \<Rightarrow> 'r mq_server \<Rightarrow> mq_error + 'r mq_server" where
  "Run_tick ms now ms' s =
     (if mq_last_time s + mq_session_timeout s * 1000 < ms then
        case ClearTimeout_given now (mq_session_timeout s) (mq_server_session_cache s) of
          Inl e \<Rightarrow> Inl (Mq_cache e)
        | Inr (u, c) \<Rightarrow> Inr (s\<lparr>mq_server_session_cache := c, mq_last_time := ms', mq_run := S_pop\<rparr>)
      else Inr (s\<lparr>mq_run := S_pop\<rparr>))"

section \<open>The application\<close>

definition SendToQueue :: "cstr \<Rightarrow> cstr \<Rightarrow> 'r mq_server \<Rightarrow> bool \<times> 'r mq_server" where
  "SendToQueue sid send_message s =
     (let t = \<lparr>msg_id = sid, msg_buffer = send_message\<rparr> in
      case TryPushBack SEND_MAX t (server_send_queue s) of
        Leave (Flag True) q inside after \<Rightarrow> (True, s\<lparr>server_send_queue := q, mq_queued := mq_queued s @ [t]\<rparr>)
      | _ \<Rightarrow> (False, s))"

definition RecvFromQueue :: "'r mq_server \<Rightarrow> (trans_message \<times> 'r mq_server) option" where
  "RecvFromQueue s =
     (case PopFront (server_recv_queue s) of
        Leave (Popped (t # ts)) q inside after \<Rightarrow> Some (t, s\<lparr>server_recv_queue := q, mq_taken := mq_taken s @ [t]\<rparr>)
      | _ \<Rightarrow> None)"

definition TimedRecvFromQueue :: "bool \<Rightarrow> int \<Rightarrow> 'r mq_server \<Rightarrow> (trans_message option \<times> 'r mq_server) option" where
  "TimedRecvFromQueue waited timeout s =
     (if timeout \<le> 0 then Some (None, s)
      else case TimedPopFront waited (server_recv_queue s) of
             Leave (Popped (t # ts)) q inside after \<Rightarrow> Some (Some t, s\<lparr>server_recv_queue := q, mq_taken := mq_taken s @ [t]\<rparr>)
           | Leave _ q inside after \<Rightarrow> Some (None, s)
           | Wait_on c \<Rightarrow> None)"

text \<open>The overloads without \<open>msg_id\<close> forget it.\<close>

definition RecvFromQueue_message :: "'r mq_server \<Rightarrow> (cstr \<times> 'r mq_server) option" where
  "RecvFromQueue_message s = map_option (\<lambda>(t, s). (msg_buffer t, s)) (RecvFromQueue s)"

definition TimedRecvFromQueue_message :: "bool \<Rightarrow> int \<Rightarrow> 'r mq_server \<Rightarrow> (cstr option \<times> 'r mq_server) option" where
  "TimedRecvFromQueue_message waited timeout s =
     map_option (\<lambda>(t, s). (map_option msg_buffer t, s)) (TimedRecvFromQueue waited timeout s)"

section \<open>Interleavings\<close>

inductive mq_step :: "(int \<Rightarrow> tm option) \<Rightarrow> 'r mq_server \<Rightarrow> 'r mq_server \<Rightarrow> bool" for localtime_r where
  arrive: "mq_on_message s = M_idle \<Longrightarrow> OnAsyncMessage localtime_r now m reply s = Inr s' \<Longrightarrow> mq_step localtime_r s s'"
| push: "OnAsyncMessage_push s = Some s' \<Longrightarrow> mq_step localtime_r s s'"
| wait: "OnAsyncMessage_wait w s = Some s' \<Longrightarrow> mq_step localtime_r s s'"
| init: "AsyncMQServer_Init name ret f d nr s = (b, s') \<Longrightarrow> mq_step localtime_r s s'"
| start_service: "mq_step localtime_r s (StartService s)"
| stop_service: "mq_step localtime_r s (StopService s)"
| set_timeout: "mq_step localtime_r s (mq_SetTimeout t s)"
| set_max: "mq_step localtime_r s (SetMaxMessageSize n s)"
| set_wait: "mq_step localtime_r s (SetWaitFunction w s)"
| run_start: "mq_run s = S_off \<Longrightarrow> mq_step localtime_r s (Run_start ms s)"
| run_pop: "Run_pop w s = Some s' \<Longrightarrow> mq_step localtime_r s s'"
| run_reply: "mq_run s = S_have t \<Longrightarrow> Run_reply call t s = Inr s' \<Longrightarrow> mq_step localtime_r s s'"
| run_tick: "mq_run s = S_tick \<Longrightarrow> Run_tick ms now ms' s = Inr s' \<Longrightarrow> mq_step localtime_r s s'"
| send: "SendToQueue sid m s = (b, s') \<Longrightarrow> mq_step localtime_r s s'"
| recv: "RecvFromQueue s = Some (t, s') \<Longrightarrow> mq_step localtime_r s s'"
| timed_recv: "TimedRecvFromQueue w timeout s = Some (r, s') \<Longrightarrow> mq_step localtime_r s s'"

inductive mq_reach :: "(int \<Rightarrow> tm option) \<Rightarrow> 'r mq_server \<Rightarrow> bool" for localtime_r where
  new: "mq_reach localtime_r AsyncMQServer_new"
| step: "mq_reach localtime_r s \<Longrightarrow> mq_step localtime_r s s' \<Longrightarrow> mq_reach localtime_r s'"

lemmas mq_defs = OnAsyncMessage_push_def OnAsyncMessage_wait_def StartService_def StopService_def mq_SetTimeout_def
  SetMaxMessageSize_def SetWaitFunction_def Run_start_def SendToQueue_def RecvFromQueue_def TimedRecvFromQueue_def

section \<open>Messages keep their order\<close>

definition in_flow :: "'r mq_server \<Rightarrow> bool" where
  "in_flow s \<longleftrightarrow> mq_received s = mq_taken s @ server_recv_queue s @ (case mq_on_message s of M_push t \<Rightarrow> [t] | _ \<Rightarrow> [])"

definition out_flow :: "'r mq_server \<Rightarrow> bool" where
  "out_flow s \<longleftrightarrow> (\<exists>d. mq_queued s = d @ (case mq_run s of S_have t \<Rightarrow> [t] | _ \<Rightarrow> []) @ server_send_queue s \<and>
     subseq (map fst (mq_sent s)) d)"

text \<open>What the operations with a result leave alone.\<close>

lemma OnAsyncMessage_Inr:
  assumes "OnAsyncMessage localtime_r now m reply s = Inr s'"
  shows "\<exists>sid n c. s' = s\<lparr>server_seq_no := n, mq_server_session_cache := c, mq_on_message := M_push \<lparr>msg_id = sid, msg_buffer = m\<rparr>,
       mq_received := mq_received s @ [\<lparr>msg_id = sid, msg_buffer = m\<rparr>],
       mq_arrived := (if mq_need_reply s then mq_arrived s @ [(\<lparr>msg_id = sid, msg_buffer = m\<rparr>, reply)] else mq_arrived s)\<rparr> \<and>
     (if mq_need_reply s then
        n = (if 99999999 < server_seq_no s + 1 then 1 else server_seq_no s + 1) + 1 \<and>
        (\<exists>t ok. GetStringTime localtime_r now [] = Inr t \<and> sid = t @ IntToString (word_of_int n) \<and>
           PushSession now sid reply (mq_server_session_cache s) = Inr (ok, c))
      else n = server_seq_no s \<and> c = mq_server_session_cache s)"
proof (cases "mq_need_reply s")
  case True
  with assms show ?thesis
    unfolding OnAsyncMessage_def GenSessionId_def SaveSession_def Let_def
    by (cases s) (fastforce dest!: bind_result_Inr split: sum.splits if_splits)
next
  case False
  with assms show ?thesis
    by (intro exI [of _ "[]"] exI [of _ "server_seq_no s"] exI [of _ "mq_server_session_cache s"])
       (cases s, auto simp: OnAsyncMessage_def GenSessionId_def Let_def)
qed

lemma Run_reply_Inr:
  assumes "Run_reply call t s = Inr s'"
  shows "\<exists>reply c ms ret. s' = s\<lparr>mq_server_session_cache := c, mq_message := ms,
        mq_sent := mq_sent s @ (case reply of None \<Rightarrow> [] | Some r \<Rightarrow> [(t, r, ret)]),
        mq_run := (case reply of None \<Rightarrow> S_pop | Some r \<Rightarrow> S_tick)\<rparr> \<and>
     (c = mq_server_session_cache s \<and> reply = None \<or>
      (\<exists>v. PopSession (msg_id t) (mq_server_session_cache s) = Inr (v, c) \<and> (reply = None \<or> reply = v)))"
proof -
  from assms obtain v s1 where g: "GetSession (msg_id t) s = Inr (v, s1)"
    by (auto simp: Run_reply_def dest!: bind_result_Inr)
  then obtain c where s1: "s1 = s\<lparr>mq_server_session_cache := c\<rparr>"
      and c: "c = mq_server_session_cache s \<and> v = None \<or> PopSession (msg_id t) (mq_server_session_cache s) = Inr (v, c)"
    unfolding GetSession_def by (cases s) (auto split: if_splits sum.splits prod.splits)
  show ?thesis
  proof (cases "v = None \<or> \<not> mq_driver_staus s")
    case True
    with assms g have "s' = s1\<lparr>mq_run := S_pop\<rparr>" by (auto simp: Run_reply_def s1 split: option.splits)
    with c s1 show ?thesis
      by (intro exI [of _ None] exI [of _ c] exI [of _ "mq_message s"] exI [of _ "0::int"]) auto
  next
    case False
    then obtain r where r: "v = Some r" "mq_driver_staus s" by auto
    obtain ret ms where sd: "SendTo (call r) (mq_handle s) (Some (msg_buffer t)) (mq_message s) = (ret, ms)" by fastforce
    with assms g r have "s' = s1\<lparr>mq_message := ms, mq_sent := mq_sent s @ [(t, r, ret)], mq_run := S_tick\<rparr>"
      by (simp add: Run_reply_def s1)
    with c s1 r show ?thesis
      by (intro exI [of _ "Some r"] exI [of _ c] exI [of _ ms] exI [of _ ret]) auto
  qed
qed

lemma Run_tick_Inr:
  assumes "Run_tick ms now ms' s = Inr s'"
  shows "\<exists>c l. s' = s\<lparr>mq_server_session_cache := c, mq_last_time := l, mq_run := S_pop\<rparr> \<and>
     (c = mq_server_session_cache s \<or> (\<exists>t. ClearTimeout_given now t (mq_server_session_cache s) = Inr ((), c)))"
  using assms unfolding Run_tick_def by (cases s) (force split: if_splits sum.splits prod.splits)

lemma Run_pop_Some:
  assumes "Run_pop w s = Some s'"
  shows "mq_run s = S_pop \<and> (s' = s\<lparr>mq_run := S_tick\<rparr> \<or>
     (\<exists>t q. server_send_queue s = t # q \<and> s' = s\<lparr>server_send_queue := q, mq_run := S_have t\<rparr>))"
  using assms by (cases "server_send_queue s") (auto simp: Run_pop_def TimedPopFront_def split: if_splits)

lemma Init_same:
  assumes "AsyncMQServer_Init name ret f d nr s = (b, s')"
  shows "\<exists>nr dr h ms st. s' = s\<lparr>mq_need_reply := nr, mq_driver := dr, mq_handle := h, mq_message := ms, mq_driver_staus := st\<rparr>"
  using assms by (cases s) (auto simp: AsyncMQServer_Init_def Let_def split: if_splits prod.splits)

lemma mq_in_flow: "mq_reach localtime_r s \<Longrightarrow> in_flow s"
proof (induction rule: mq_reach.induct)
  case new
  show ?case by (simp add: in_flow_def AsyncMQServer_new_def)
next
  case (step s s')
  from step.hyps(2) step.IH show ?case
    by (cases rule: mq_step.cases)
       (auto simp: mq_defs in_flow_def PushBack_def PopFront_def TryPushBack_def TimedPopFront_def Let_def
          dest!: OnAsyncMessage_Inr Run_reply_Inr Run_tick_Inr Run_pop_Some Init_same
          split: mq_receiver.splits if_splits)
qed

lemma mq_out_flow: "mq_reach localtime_r s \<Longrightarrow> out_flow s"
proof (induction rule: mq_reach.induct)
  case new
  show ?case by (simp add: out_flow_def AsyncMQServer_new_def)
next
  case (step s s')
  from step.IH obtain d where d: "mq_queued s = d @ (case mq_run s of S_have t \<Rightarrow> [t] | _ \<Rightarrow> []) @ server_send_queue s"
    "subseq (map fst (mq_sent s)) d" by (auto simp: out_flow_def)
  from step.hyps(2) show ?case
  proof (cases rule: mq_step.cases)
    case (run_reply t call)
    from Run_reply_Inr [OF run_reply(2)] obtain reply c ms ret where
      s': "s' = s\<lparr>mq_server_session_cache := c, mq_message := ms,
        mq_sent := mq_sent s @ (case reply of None \<Rightarrow> [] | Some r \<Rightarrow> [(t, r, ret)]),
        mq_run := (case reply of None \<Rightarrow> S_pop | Some r \<Rightarrow> S_tick)\<rparr>" by blast
    have "subseq (map fst (mq_sent s')) (d @ [t])"
      using list_emb_append_mono [OF d(2), of "[]" "[t]"] list_emb_append_mono [OF d(2), of "[t]" "[t]"]
      by (cases reply) (simp_all add: s')
    with d(1) run_reply(1) show ?thesis
      unfolding out_flow_def by (intro exI [of _ "d @ [t]"]) (cases reply, simp_all add: s')
  next
    case (run_pop w)
    from Run_pop_Some [OF run_pop] d show ?thesis by (auto simp: out_flow_def)
  next
    case (run_tick ms now ms')
    from Run_tick_Inr [OF run_tick(2)] run_tick(1) d show ?thesis by (auto simp: out_flow_def)
  qed (use d in \<open>auto simp: mq_defs out_flow_def TryPushBack_def PopFront_def TimedPopFront_def PushBack_def Let_def
         dest!: OnAsyncMessage_Inr Init_same split: mq_receiver.splits if_splits\<close>)
qed

section \<open>Session ids\<close>

definition ID_PERIOD :: nat where "ID_PERIOD = 50000000"

text \<open>The number the call with the index \<open>k\<close> appends to the time: 2, 4, \<dots>, 100000000 and again from 2.\<close>

definition nth_seq :: "nat \<Rightarrow> nat" where
  "nth_seq k = 2 * (k mod ID_PERIOD) + 2"

lemma nth_seq_inj: "j < ID_PERIOD \<Longrightarrow> k < ID_PERIOD \<Longrightarrow> nth_seq j = nth_seq k \<Longrightarrow> j = k"
  by (simp add: nth_seq_def)

lemma nth_seq_next:
  "(if 99999999 < int (nth_seq k) + 1 then 1 else int (nth_seq k) + 1) + 1 = int (nth_seq (Suc k))"
proof -
  have "k mod ID_PERIOD < ID_PERIOD" by (simp add: ID_PERIOD_def)
  then show ?thesis by (auto simp: nth_seq_def mod_Suc ID_PERIOD_def)
qed

lemma IntToString_seq: "IntToString (word_of_int (int (nth_seq k))) = dec_digits (nth_seq k)"
proof -
  have "k mod ID_PERIOD < ID_PERIOD" by (simp add: ID_PERIOD_def)
  then have "nth_seq k < 2 ^ 31" by (simp add: nth_seq_def ID_PERIOD_def)
  then have "sint (word_of_int (int (nth_seq k)) :: 32 word) = int (nth_seq k)"
    by (simp add: signed_of_nat signed_take_bit_int_eq_self)
  then show ?thesis by (simp add: IntToString_def print_int_def)
qed

definition ids_ok :: "'r mq_server \<Rightarrow> bool" where
  "ids_ok s \<longleftrightarrow>
     server_seq_no s = (case mq_arrived s of [] \<Rightarrow> 0 | _ \<Rightarrow> int (nth_seq (length (mq_arrived s) - 1))) \<and>
     (\<forall>k<length (mq_arrived s). \<exists>t. length t = 14 \<and> msg_id (fst (mq_arrived s ! k)) = t @ dec_digits (nth_seq k))"

definition local_times :: "(int \<Rightarrow> tm option) \<Rightarrow> bool" where
  "local_times localtime_r \<longleftrightarrow> (\<forall>now. \<exists>t. localtime_r now = Some t \<and> tm_ok t)"

lemma mq_ids:
  assumes lt: "local_times localtime_r" and r: "mq_reach localtime_r s"
  shows "ids_ok s"
  using r
proof (induction rule: mq_reach.induct)
  case new
  show ?case by (simp add: ids_ok_def AsyncMQServer_new_def)
next
  case (step s s')
  have same: ?case if "server_seq_no s' = server_seq_no s" "mq_arrived s' = mq_arrived s"
    using step.IH unfolding ids_ok_def that .
  from step.hyps(2) show ?case
  proof (cases rule: mq_step.cases)
    case (arrive now m reply)
    note a = OnAsyncMessage_Inr [OF arrive(2)]
    show ?thesis
    proof (cases "mq_need_reply s")
      case True
      let ?k = "length (mq_arrived s)"
      from a True obtain sid n c t where e: "mq_arrived s' = mq_arrived s @ [(\<lparr>msg_id = sid, msg_buffer = m\<rparr>, reply)]"
        "server_seq_no s' = n" "n = (if 99999999 < server_seq_no s + 1 then 1 else server_seq_no s + 1) + 1"
        "GetStringTime localtime_r now [] = Inr t" "sid = t @ IntToString (word_of_int n)" by auto
      have n: "n = int (nth_seq ?k)"
      proof (cases "mq_arrived s")
        case Nil
        with step.IH e(3) show ?thesis by (simp add: ids_ok_def nth_seq_def)
      next
        case (Cons x xs)
        then have "server_seq_no s = int (nth_seq (length xs))" using step.IH by (simp add: ids_ok_def)
        with e(3) have "n = int (nth_seq (Suc (length xs)))" by (simp only: nth_seq_next)
        with Cons show ?thesis by simp
      qed
      from lt obtain tm0 where "localtime_r now = Some tm0" "tm_ok tm0" by (auto simp: local_times_def)
      from GetStringTime_length [of localtime_r now tm0] this e(4) have "length t = 14" by simp
      moreover have "sid = t @ dec_digits (nth_seq ?k)" unfolding e(5) n IntToString_seq ..
      ultimately have "\<exists>t. length t = 14 \<and> msg_id (fst (mq_arrived s' ! j)) = t @ dec_digits (nth_seq j)"
        if "j < length (mq_arrived s')" for j
        using that step.IH e(1) by (cases "j = ?k") (auto simp: ids_ok_def nth_append)
      moreover have "mq_arrived s' \<noteq> []" "length (mq_arrived s') - 1 = ?k" using e(1) by auto
      ultimately show ?thesis using e(2) n unfolding ids_ok_def by (cases "mq_arrived s'") simp_all
    next
      case False
      with a show ?thesis by (intro same) auto
    qed
  qed (rule same; auto simp: mq_defs Let_def dest!: Run_reply_Inr Run_tick_Inr Run_pop_Some Init_same
         split: mq_receiver.splits bq_crit.splits bq_ret.splits list.splits if_splits bool.splits)+
qed

lemma mq_ids_distinct:
  assumes "ids_ok s" "length (mq_arrived s) \<le> ID_PERIOD"
  shows "distinct (map (msg_id \<circ> fst) (mq_arrived s))"
  unfolding distinct_conv_nth
proof (intro allI impI notI)
  fix j k assume jk: "j < length (map (msg_id \<circ> fst) (mq_arrived s))" "k < length (map (msg_id \<circ> fst) (mq_arrived s))"
    "j \<noteq> k" "map (msg_id \<circ> fst) (mq_arrived s) ! j = map (msg_id \<circ> fst) (mq_arrived s) ! k"
  from assms(1) jk(1,2) obtain t u where "length t = 14" "msg_id (fst (mq_arrived s ! j)) = t @ dec_digits (nth_seq j)"
    "length u = 14" "msg_id (fst (mq_arrived s ! k)) = u @ dec_digits (nth_seq k)"
    unfolding ids_ok_def length_map by blast
  with jk have "dec_digits (nth_seq j) = dec_digits (nth_seq k)" by simp
  then have "nth_seq j = nth_seq k" by (metis digits_value_dec_digits)
  with nth_seq_inj jk assms(2) show False by simp
qed

section \<open>Sessions and replies\<close>

definition replies_ok :: "'r mq_server \<Rightarrow> bool" where
  "replies_ok s \<longleftrightarrow> cache_inv (mq_server_session_cache s) \<and>
     (\<forall>k r. saved (mq_server_session_cache s) k = Some r \<longrightarrow>
        (\<exists>t. (t, r) \<in> set (mq_arrived s) \<and> msg_id t = k) \<and> k \<notin> msg_id ` fst ` set (mq_sent s)) \<and>
     (\<forall>(t, r, ret)\<in>set (mq_sent s). \<exists>m. (m, r) \<in> set (mq_arrived s) \<and> msg_id m = msg_id t) \<and>
     distinct (map (msg_id \<circ> fst) (mq_sent s))"

lemma replies_cong:
  "mq_server_session_cache s' = mq_server_session_cache s \<Longrightarrow> mq_arrived s' = mq_arrived s \<Longrightarrow> mq_sent s' = mq_sent s \<Longrightarrow>
     replies_ok s' = replies_ok s"
  by (simp add: replies_ok_def)

text \<open>A new id is in no session and in no reply, so that its address is saved.\<close>

lemma replies_arrive:
  assumes ok: "replies_ok s" and new: "msg_id t \<notin> msg_id ` fst ` set (mq_arrived s)"
    and push: "PushSession now (msg_id t) r (mq_server_session_cache s) = Inr (b, c)"
    and s': "mq_server_session_cache s' = c" "mq_arrived s' = mq_arrived s @ [(t, r)]" "mq_sent s' = mq_sent s"
  shows "replies_ok s'"
proof -
  have inv: "cache_inv (mq_server_session_cache s)" using ok by (simp add: replies_ok_def)
  have pf: "push_fun now (msg_id t) r (mq_server_session_cache s) = (b, c)" by (simp add: push_fun_def push)
  have c: "cache_inv c" using cache.push_inv [OF inv, of now "msg_id t" r] pf by simp
  have arr: "\<exists>m. (m, v) \<in> set (mq_arrived s) \<and> msg_id m = msg_id u" if "(u, v, ret) \<in> set (mq_sent s)" for u v ret
    using ok that by (auto simp: replies_ok_def)
  have sent: "msg_id u \<noteq> msg_id t" if "(u, x) \<in> set (mq_sent s)" for u x
  proof -
    from arr [of u "fst x" "snd x"] that obtain m where "(m, fst x) \<in> set (mq_arrived s)" "msg_id m = msg_id u" by auto
    with new show ?thesis by (metis fst_conv image_eqI)
  qed
  have sv: "(\<exists>u. (u, v) \<in> set (mq_arrived s') \<and> msg_id u = k) \<and> k \<notin> msg_id ` fst ` set (mq_sent s')"
    if k: "saved c k = Some v" for k v
  proof -
    from cache.content_from_push [OF inv, of now "msg_id t" r k v] k pf
    consider "saved (mq_server_session_cache s) k = Some v" | "k = msg_id t" "v = r" by auto
    then show ?thesis
    proof cases
      case 1
      with ok have "(\<exists>u. (u, v) \<in> set (mq_arrived s) \<and> msg_id u = k) \<and> k \<notin> msg_id ` fst ` set (mq_sent s)"
        unfolding replies_ok_def by blast
      with s' show ?thesis by auto
    next
      case 2
      have "msg_id t \<notin> msg_id ` fst ` set (mq_sent s)" by (auto dest: sent)
      with 2 s' show ?thesis by auto
    qed
  qed
  have "\<exists>m. (m, v) \<in> set (mq_arrived s') \<and> msg_id m = msg_id u" if "(u, v, ret) \<in> set (mq_sent s')" for u v ret
    using arr [of u v ret] that s' by auto
  with ok c sv s' show ?thesis unfolding replies_ok_def by auto
qed

lemma replies_reply:
  assumes ok: "replies_ok s"
    and pop: "PopSession (msg_id t) (mq_server_session_cache s) = Inr (v, c)" and reply: "reply = None \<or> reply = v"
    and s': "mq_server_session_cache s' = c" "mq_arrived s' = mq_arrived s"
      "mq_sent s' = mq_sent s @ (case reply of None \<Rightarrow> [] | Some r \<Rightarrow> [(t, r, ret)])"
  shows "replies_ok s'"
proof -
  have inv: "cache_inv (mq_server_session_cache s)" using ok by (simp add: replies_ok_def)
  have pf: "pop_fun (msg_id t) (mq_server_session_cache s) = (v, c)" by (simp add: pop_fun_def pop)
  have c: "cache_inv c" and v: "v = saved (mq_server_session_cache s) (msg_id t)"
    and sv: "saved c = (saved (mq_server_session_cache s))(msg_id t := None)"
    using cache.pop_inv [OF inv] cache.pop_returns [OF inv] cache.pop_content [OF inv] pf
    by (metis fst_conv snd_conv)+
  show ?thesis
  proof (cases reply)
    case None
    with ok c sv s' show ?thesis by (auto simp: replies_ok_def)
  next
    case (Some r)
    with reply v have "saved (mq_server_session_cache s) (msg_id t) = Some r" by simp
    with ok obtain m where "(m, r) \<in> set (mq_arrived s)" "msg_id m = msg_id t" "msg_id t \<notin> msg_id ` fst ` set (mq_sent s)"
      unfolding replies_ok_def by blast
    with ok c sv s' Some show ?thesis by (auto simp: replies_ok_def image_comp)
  qed
qed

lemma replies_clear:
  assumes ok: "replies_ok s" and clear: "ClearTimeout_given now t (mq_server_session_cache s) = Inr ((), c)"
    and s': "mq_server_session_cache s' = c" "mq_arrived s' = mq_arrived s" "mq_sent s' = mq_sent s"
  shows "replies_ok s'"
proof -
  have inv: "cache_inv (mq_server_session_cache s)" using ok by (simp add: replies_ok_def)
  from ClearTimeout_spec(1) [OF inv, of now t] clear have c: "cache_inv c"
    "sessions c = dropWhile (\<lambda>(k, v, ts). t \<le> now - ts) (sessions (mq_server_session_cache s))" by auto
  have "saved c k = saved (mq_server_session_cache s) k \<or> saved c k = None" for k
    using saved_dropWhile [OF inv_keys(1) [OF inv], of "\<lambda>(k, v, ts). t \<le> now - ts" k]
    unfolding saved_def c(2) by auto
  then have "saved (mq_server_session_cache s) k = Some r" if "saved c k = Some r" for k r
    using that by (metis option.distinct(1))
  with ok c(1) s' show ?thesis by (auto simp: replies_ok_def)
qed

lemma mq_step_arrived: "mq_step localtime_r s s' \<Longrightarrow> length (mq_arrived s) \<le> length (mq_arrived s')"
  by (cases rule: mq_step.cases)
     (auto simp: mq_defs Let_def dest!: OnAsyncMessage_Inr Run_reply_Inr Run_tick_Inr Run_pop_Some Init_same
        split: mq_receiver.splits bq_crit.splits bq_ret.splits list.splits if_splits bool.splits)

lemma mq_replies:
  assumes lt: "local_times localtime_r" and "mq_reach localtime_r s" "length (mq_arrived s) \<le> ID_PERIOD"
  shows "replies_ok s"
  using assms(2,3)
proof (induction rule: mq_reach.induct)
  case new
  show ?case
    by (simp add: replies_ok_def AsyncMQServer_new_def cache_inv_def saved_def sessions_def SessionCache_new_def)
next
  case (step s s')
  have ok: "replies_ok s" using step.IH step.prems mq_step_arrived [OF step.hyps(2)] by simp
  have same: ?case if "mq_server_session_cache s' = mq_server_session_cache s" "mq_arrived s' = mq_arrived s" "mq_sent s' = mq_sent s"
    using replies_cong [OF that] ok by simp
  from step.hyps(2) show ?case
  proof (cases rule: mq_step.cases)
    case (arrive now m reply)
    note a = OnAsyncMessage_Inr [OF arrive(2)]
    show ?thesis
    proof (cases "mq_need_reply s")
      case True
      with a obtain sid c b where e: "mq_arrived s' = mq_arrived s @ [(\<lparr>msg_id = sid, msg_buffer = m\<rparr>, reply)]"
        "mq_server_session_cache s' = c" "mq_sent s' = mq_sent s" "PushSession now sid reply (mq_server_session_cache s) = Inr (b, c)"
        by auto
      have "distinct (map (msg_id \<circ> fst) (mq_arrived s'))"
        using mq_ids_distinct [OF mq_ids [OF lt mq_reach.step [OF step.hyps]] step.prems] .
      then have "sid \<notin> msg_id ` fst ` set (mq_arrived s)" by (simp add: e(1) image_comp)
      then show ?thesis using replies_arrive [OF ok _ _ e(2,1,3), of now b] e(4) by simp
    next
      case False
      with a show ?thesis by (intro same) auto
    qed
  next
    case (run_reply t call)
    from Run_reply_Inr [OF run_reply(2)] obtain reply c ms ret where
      s': "s' = s\<lparr>mq_server_session_cache := c, mq_message := ms,
        mq_sent := mq_sent s @ (case reply of None \<Rightarrow> [] | Some r \<Rightarrow> [(t, r, ret)]),
        mq_run := (case reply of None \<Rightarrow> S_pop | Some r \<Rightarrow> S_tick)\<rparr>"
      and c: "c = mq_server_session_cache s \<and> reply = None \<or>
        (\<exists>v. PopSession (msg_id t) (mq_server_session_cache s) = Inr (v, c) \<and> (reply = None \<or> reply = v))" by blast
    have e: "mq_server_session_cache s' = c" "mq_arrived s' = mq_arrived s"
      "mq_sent s' = mq_sent s @ (case reply of None \<Rightarrow> [] | Some r \<Rightarrow> [(t, r, ret)])" by (simp_all add: s')
    from c show ?thesis
    proof
      assume "c = mq_server_session_cache s \<and> reply = None"
      with e show ?thesis by (intro same) auto
    next
      assume "\<exists>v. PopSession (msg_id t) (mq_server_session_cache s) = Inr (v, c) \<and> (reply = None \<or> reply = v)"
      then show ?thesis using replies_reply [OF ok _ _ e] by blast
    qed
  next
    case (run_tick ms now ms')
    from Run_tick_Inr [OF run_tick(2)] obtain c l where
      s': "s' = s\<lparr>mq_server_session_cache := c, mq_last_time := l, mq_run := S_pop\<rparr>"
      and c: "c = mq_server_session_cache s \<or> (\<exists>t. ClearTimeout_given now t (mq_server_session_cache s) = Inr ((), c))" by blast
    have e: "mq_server_session_cache s' = c" "mq_arrived s' = mq_arrived s" "mq_sent s' = mq_sent s" by (simp_all add: s')
    from c show ?thesis using same replies_clear [OF ok _ e] e by blast
  qed (rule same; auto simp: mq_defs Let_def dest!: Run_pop_Some Init_same
         split: mq_receiver.splits bq_crit.splits bq_ret.splits list.splits if_splits bool.splits)+
qed

section \<open>Properties\<close>

text \<open>
  C15. Whatever the threads do, requests reach the application in the order of their arrival, none lost or
  doubled; the answers that are sent are answers the application queued, in that order; and as long as
  the server has seen no more than 50000000 requests, their ids are pairwise different, every answer
  goes to the address that came with the request of its id, and no request is answered twice.
\<close>

theorem mq_server_correlation:
  assumes "mq_reach localtime_r s" "local_times localtime_r" "length (mq_arrived s) \<le> ID_PERIOD"
  shows "mq_received s = mq_taken s @ server_recv_queue s @ (case mq_on_message s of M_push t \<Rightarrow> [t] | _ \<Rightarrow> []) \<and>
     subseq (map fst (mq_sent s)) (mq_queued s) \<and>
     distinct (map (msg_id \<circ> fst) (mq_arrived s)) \<and>
     (\<forall>(t, r, ret)\<in>set (mq_sent s). \<exists>m. (m, r) \<in> set (mq_arrived s) \<and> msg_id m = msg_id t) \<and>
     distinct (map (msg_id \<circ> fst) (mq_sent s))"
proof (intro conjI)
  show "mq_received s = mq_taken s @ server_recv_queue s @ (case mq_on_message s of M_push t \<Rightarrow> [t] | _ \<Rightarrow> [])"
    using mq_in_flow [OF assms(1)] by (simp add: in_flow_def)
  show "subseq (map fst (mq_sent s)) (mq_queued s)"
    using mq_out_flow [OF assms(1)] by (auto simp: out_flow_def intro: list_emb_append2)
  show "distinct (map (msg_id \<circ> fst) (mq_arrived s))"
    by (rule mq_ids_distinct [OF mq_ids [OF assms(2,1)] assms(3)])
  from mq_replies [OF assms(2,1,3)]
  show "\<forall>(t, r, ret)\<in>set (mq_sent s). \<exists>m. (m, r) \<in> set (mq_arrived s) \<and> msg_id m = msg_id t"
    and "distinct (map (msg_id \<circ> fst) (mq_sent s))" by (simp_all add: replies_ok_def)
qed

definition noon :: "int \<Rightarrow> tm option" where
  "noon now = Some \<lparr>tm_year = 126, tm_mon = 0, tm_mday = 2, tm_hour = 12, tm_min = 0, tm_sec = 5\<rparr>"

definition noon_request :: trans_message where
  "noon_request = \<lparr>msg_id = [50,48,50,54,48,49,48,50,49,50,48,48,48,53,50], msg_buffer = [104, 105]\<rparr>"

definition noon_answer :: trans_message where
  "noon_answer = \<lparr>msg_id = msg_id noon_request, msg_buffer = [111, 107]\<rparr>"

lemma noon_id: "GetStringTime noon now [] = Inr [50,48,50,54,48,49,48,50,49,50,48,48,48,53]"
  "IntToString 2 = [50]"
  by (simp_all add: GetStringTime_def noon_def print_0d_def zpad_def dec_digits.simps snprintf_def IntToString_def print_int_def)

text \<open>One request that is answered: set-up, arrival, delivery, answer, reply.\<close>

lemma noon_run:
  "\<exists>s :: nat mq_server. mq_reach noon s \<and> mq_arrived s = [(noon_request, 9)] \<and> mq_sent s = [(noon_answer, 9, 2)] \<and>
     mq_taken s = [noon_request]"
proof -
  let ?s0 = "AsyncMQServer_new :: nat mq_server"
  obtain h ms where i: "AsyncMQServer_Init (\<lambda>_. []) 0 (Some 7) 3 True ?s0 =
      (True, ?s0\<lparr>mq_need_reply := True, mq_driver := Some 3, mq_handle := h, mq_message := ms, mq_driver_staus := True\<rparr>)"
    "send_to_functions ms h = Some 7"
    by (simp add: AsyncMQServer_Init_def AsyncMQServer_new_def message0_def NewHandle_def RegisterDriver_def message_Run_def
        CheckDriver_def allocHandle.simps INT_MAX_def upt_rec)
  let ?s1 = "?s0\<lparr>mq_need_reply := True, mq_driver := Some 3, mq_handle := h, mq_message := ms, mq_driver_staus := True\<rparr>"
  have r1: "mq_reach noon ?s1" using mq_reach.step [OF mq_reach.new mq_step.init [OF i(1)]] .
  let ?c = "(SessionCache_new 60)\<lparr>m_map := [msg_id noon_request \<mapsto> 0],
    m_list := [(0, \<lparr>node_value = 9, node_key = msg_id noon_request, timestamp = 100\<rparr>)], next_node := 1\<rparr> :: (cstr, nat) session_cache"
  let ?s2 = "?s1\<lparr>server_seq_no := 2, mq_server_session_cache := ?c, mq_on_message := M_push noon_request,
       mq_received := [noon_request], mq_arrived := [(noon_request, 9)]\<rparr>"
  have "OnAsyncMessage noon 100 [104, 105] 9 ?s1 = Inr ?s2"
    by (simp add: OnAsyncMessage_def GenSessionId_def SaveSession_def noon_id Let_def PushSession_def locked_def
        AutoClearTimeout_def AsyncMQServer_new_def SessionCache_new_def noon_request_def)
  moreover have "PopSession (msg_id noon_request) ?c = Inr (Some 9, SessionCache_new 60\<lparr>next_node := 1\<rparr>)"
    by (simp add: PopSession_def locked_def SessionCache_new_def erase_def)
  ultimately obtain s2 c where s2: "OnAsyncMessage noon 100 [104, 105] 9 ?s1 = Inr s2"
    "s2 = ?s1\<lparr>server_seq_no := 2, mq_server_session_cache := c, mq_on_message := M_push noon_request,
       mq_received := [noon_request], mq_arrived := [(noon_request, 9)]\<rparr>"
    "\<exists>c'. PopSession (msg_id noon_request) c = Inr (Some 9, c')" by blast
  have r2: "mq_reach noon s2" by (rule mq_reach.step [OF r1 mq_step.arrive [OF _ s2(1)]]) (simp add: AsyncMQServer_new_def)
  let ?s3 = "s2\<lparr>server_recv_queue := [noon_request], mq_on_message := M_idle\<rparr>"
  have r3: "mq_reach noon ?s3"
    by (rule mq_reach.step [OF r2 mq_step.push]) (simp add: OnAsyncMessage_push_def s2(2) AsyncMQServer_new_def PushBack_def UnlockedIsFull_def RECV_MAX_def)
  let ?s4 = "?s3\<lparr>server_recv_queue := [], mq_taken := [noon_request]\<rparr>"
  have r4: "mq_reach noon ?s4"
    by (rule mq_reach.step [OF r3 mq_step.recv [of _ noon_request]]) (simp add: RecvFromQueue_def PopFront_def s2(2) AsyncMQServer_new_def)
  let ?s5 = "?s4\<lparr>server_send_queue := [noon_answer], mq_queued := [noon_answer]\<rparr>"
  have r5: "mq_reach noon ?s5"
    by (rule mq_reach.step [OF r4 mq_step.send [of "msg_id noon_request" "[111, 107]" _ True]])
       (simp add: SendToQueue_def TryPushBack_def UnlockedIsFull_def SEND_MAX_def s2(2) AsyncMQServer_new_def noon_answer_def Let_def)
  let ?s6 = "?s5\<lparr>mq_run := S_pop, mq_last_time := 7\<rparr>"
  have "?s6 = Run_start 7 ?s5" by (simp add: Run_start_def s2(2))
  with mq_reach.step [OF r5 mq_step.run_start [of _ noon 7]] have r6: "mq_reach noon ?s6"
    by (simp add: s2(2) AsyncMQServer_new_def)
  let ?s7 = "?s6\<lparr>server_send_queue := [], mq_run := S_have noon_answer\<rparr>"
  have r7: "mq_reach noon ?s7"
    by (rule mq_reach.step [OF r6 mq_step.run_pop [of False]]) (simp add: Run_pop_def TimedPopFront_def)
  from s2(3) obtain c' where c': "PopSession (msg_id noon_answer) c = Inr (Some 9, c')" by (auto simp: noon_answer_def)
  let ?s8 = "?s7\<lparr>mq_server_session_cache := c', mq_sent := [(noon_answer, 9, 2)], mq_run := S_tick\<rparr>"
  have r8: "mq_reach noon ?s8"
    by (rule mq_reach.step [OF r7 mq_step.run_reply [of _ noon_answer "\<lambda>r f m. Some 2"]])
       (simp_all add: Run_reply_def GetSession_def c' s2(2) SendTo_def i(2) AsyncMQServer_new_def)
  show ?thesis by (intro exI [of _ ?s8] conjI, rule r8) (simp_all add: s2(2))
qed

theorem mq_server_correlation_witness:
  "\<exists>s :: nat mq_server. mq_reach noon s \<and> mq_sent s = [(noon_answer, 9, 2)] \<and> mq_received s = [noon_request] @ server_recv_queue s @
     (case mq_on_message s of M_push t \<Rightarrow> [t] | _ \<Rightarrow> []) \<and> subseq [noon_answer] (mq_queued s)"
proof -
  obtain s :: "nat mq_server" where s: "mq_reach noon s" "mq_arrived s = [(noon_request, 9)]"
    "mq_sent s = [(noon_answer, 9, 2)]" "mq_taken s = [noon_request]" using noon_run by blast
  have lt: "local_times noon" by (simp add: local_times_def noon_def tm_ok_def)
  have "length (mq_arrived s) \<le> ID_PERIOD" by (simp add: s(2) ID_PERIOD_def)
  from mq_server_correlation [OF s(1) lt this] s show ?thesis by (intro exI [of _ s]) simp
qed

end
