(* ===== verification/Mq_Client.thy ===== *)
theory Mq_Client
  imports Blocking_Queue Message_Handles
begin

text \<open>
  \<open>AsyncMQClient\<close> (\<open>source/transport/async_mq_client.cpp\<close>): messages of the application go through a
  \<open>BlockingQueue\<close> to a thread that sends them, and what the driver receives goes through another to the
  application. \<open>Message::Send\<close> is \<open>Message::SendTo\<close> without an address. Both queues have the default
  capacity. The threads interleave between their blocking calls.
\<close>

section \<open>Operations\<close>

record mq_client =
  mc_handle :: int
  mc_driver :: "driver option"
  mc_on_message :: bool
  mc_send_queue :: "cstr list"
  mc_recv_queue :: "cstr list"
  mc_message :: message
  mc_buff :: "cstr option"
  mc_received :: "cstr list"
  mc_taken :: "cstr list"
  mc_queued :: "cstr list"
  mc_sent :: "(cstr \<times> int) list"

definition CLIENT_MAX :: nat where "CLIENT_MAX = 2 ^ 64 - 1"

definition AsyncMQClient_new :: mq_client where
  "AsyncMQClient_new = \<lparr>mc_handle = 0, mc_driver = None, mc_on_message = False, mc_send_queue = [], mc_recv_queue = [],
     mc_message = message0, mc_buff = None, mc_received = [], mc_taken = [], mc_queued = [], mc_sent = []\<rparr>"

definition client_OnAsyncMessage :: "cstr \<Rightarrow> mq_client \<Rightarrow> mq_client option" where
  "client_OnAsyncMessage m s =
     (case PushBack CLIENT_MAX m (mc_recv_queue s) of
        Leave r q inside after \<Rightarrow> Some (s\<lparr>mc_recv_queue := q, mc_received := mc_received s @ [m]\<rparr>)
      | Wait_on c \<Rightarrow> None)"

definition AsyncMQClient_Init :: "(driver \<Rightarrow> cstr) \<Rightarrow> int \<Rightarrow> send_to option \<Rightarrow> driver \<Rightarrow> bool \<Rightarrow> mq_client \<Rightarrow> bool \<times> mq_client" where
  "AsyncMQClient_Init name ret send_to d need_reply s =
     (let (h, ms) = NewHandle (mc_message s);
          (_, ms) = RegisterDriver name (Some d) ms;
          (_, ms) = message_Run name ret send_to h d ms
      in (True, s\<lparr>mc_handle := h, mc_driver := Some d, mc_on_message := need_reply, mc_message := ms\<rparr>))"

definition client_Run_pop :: "mq_client \<Rightarrow> mq_client option" where
  "client_Run_pop s =
     (if mc_buff s \<noteq> None then None
      else case PopFront (mc_send_queue s) of
             Leave (Popped (m # ms)) q inside after \<Rightarrow> Some (s\<lparr>mc_send_queue := q, mc_buff := Some m\<rparr>)
           | _ \<Rightarrow> None)"

definition client_Run_send :: "(send_to \<Rightarrow> cstr \<Rightarrow> int option) \<Rightarrow> mq_client \<Rightarrow> mq_client option" where
  "client_Run_send call s =
     (case mc_buff s of
        None \<Rightarrow> None
      | Some m \<Rightarrow> (case SendTo call (mc_handle s) (Some m) (mc_message s) of
          (ret, ms) \<Rightarrow> Some (s\<lparr>mc_message := ms, mc_buff := None, mc_sent := mc_sent s @ [(m, ret)]\<rparr>)))"

definition client_SendToQueue :: "cstr \<Rightarrow> mq_client \<Rightarrow> bool \<times> mq_client" where
  "client_SendToQueue m s =
     (case TryPushBack CLIENT_MAX m (mc_send_queue s) of
        Leave (Flag True) q inside after \<Rightarrow> (True, s\<lparr>mc_send_queue := q, mc_queued := mc_queued s @ [m]\<rparr>)
      | _ \<Rightarrow> (False, s))"

definition client_RecvFromQueue :: "mq_client \<Rightarrow> (cstr \<times> mq_client) option" where
  "client_RecvFromQueue s =
     (case PopFront (mc_recv_queue s) of
        Leave (Popped (m # ms)) q inside after \<Rightarrow> Some (m, s\<lparr>mc_recv_queue := q, mc_taken := mc_taken s @ [m]\<rparr>)
      | _ \<Rightarrow> None)"

definition client_TimedRecvFromQueue :: "bool \<Rightarrow> mq_client \<Rightarrow> (cstr option \<times> mq_client) option" where
  "client_TimedRecvFromQueue waited s =
     (case TimedPopFront waited (mc_recv_queue s) of
        Leave (Popped (m # ms)) q inside after \<Rightarrow> Some (Some m, s\<lparr>mc_recv_queue := q, mc_taken := mc_taken s @ [m]\<rparr>)
      | Leave r q inside after \<Rightarrow> Some (None, s)
      | Wait_on c \<Rightarrow> None)"

section \<open>Order of the messages\<close>

inductive mc_reach :: "mq_client \<Rightarrow> bool" where
  new: "mc_reach AsyncMQClient_new"
| arrive: "mc_reach s \<Longrightarrow> mc_on_message s \<Longrightarrow> client_OnAsyncMessage m s = Some s' \<Longrightarrow> mc_reach s'"
| init: "mc_reach s \<Longrightarrow> AsyncMQClient_Init name ret f d nr s = (b, s') \<Longrightarrow> mc_reach s'"
| run_pop: "mc_reach s \<Longrightarrow> client_Run_pop s = Some s' \<Longrightarrow> mc_reach s'"
| run_send: "mc_reach s \<Longrightarrow> client_Run_send call s = Some s' \<Longrightarrow> mc_reach s'"
| send: "mc_reach s \<Longrightarrow> client_SendToQueue m s = (b, s') \<Longrightarrow> mc_reach s'"
| recv: "mc_reach s \<Longrightarrow> client_RecvFromQueue s = Some (m, s') \<Longrightarrow> mc_reach s'"
| timed_recv: "mc_reach s \<Longrightarrow> client_TimedRecvFromQueue w s = Some (r, s') \<Longrightarrow> mc_reach s'"

lemma mq_client_order:
  assumes "mc_reach s"
  shows "mc_queued s = map fst (mc_sent s) @ (case mc_buff s of None \<Rightarrow> [] | Some m \<Rightarrow> [m]) @ mc_send_queue s"
    and "mc_received s = mc_taken s @ mc_recv_queue s"
  using assms
  by (induction rule: mc_reach.induct)
     (auto simp: AsyncMQClient_new_def client_OnAsyncMessage_def AsyncMQClient_Init_def client_Run_pop_def client_Run_send_def
        client_SendToQueue_def client_RecvFromQueue_def client_TimedRecvFromQueue_def bq_defs Let_def
        split: if_splits option.splits prod.splits)

end
