(* ===== verification/Zk_Services.thy ===== *)
theory Zk_Services
  imports String_Utility "HOL-Library.Multiset"
begin

text \<open>
  Service discovery: \<open>ZkServer\<close> (\<open>source/transport/zk_server.cpp\<close>) registers a server as an ephemeral
  node, \<open>ZkClient\<close> (\<open>zk_client.cpp\<close>) keeps the list of the servers of each service and hands them out in
  turn. What the functions of the ZooKeeper library return are arguments. A published list is never
  changed (\<open>Update\<close> holds a second reference and so always makes a new vector), so that the shared
  pointers are their lists.
\<close>

section \<open>Common parts\<close>

datatype zoo_state = Zoo_connected | Zoo_auth_failed | Zoo_expired_session | Zoo_connecting | Zoo_associating | Zoo_other

datatype zoo_event = Zoo_session_event | Zoo_child_event | Zoo_other_event

definition ZOK :: int where "ZOK = 0"

definition ZNONODE :: int where "ZNONODE = - 101"

definition ZNODEEXISTS :: int where "ZNODEEXISTS = - 110"

text \<open>
  The loop around \<open>zookeeper_init\<close>: \<open>inits\<close> are the results of the calls, \<open>None\<close> for \<open>NULL\<close>; the loop
  goes on when none of them is a handle.
\<close>

fun connect_loop :: "nat option list \<Rightarrow> nat option" where
  "connect_loop [] = None"
| "connect_loop (Some h # inits) = Some h"
| "connect_loop (None # inits) = connect_loop inits"

section \<open>ZkServer\<close>

record zk_server =
  zs_connected :: bool
  zs_zhandle :: "nat option"
  zs_zk_hosts :: cstr
  zs_timeout :: int
  zs_service_name :: cstr
  zs_data :: cstr

definition ZkServer_new :: zk_server where
  "ZkServer_new = \<lparr>zs_connected = False, zs_zhandle = None, zs_zk_hosts = [], zs_timeout = 0, zs_service_name = [], zs_data = []\<rparr>"

definition ZkServer_Init :: "cstr \<Rightarrow> int \<Rightarrow> zk_server \<Rightarrow> zk_server" where
  "ZkServer_Init hosts timeout s = s\<lparr>zs_zk_hosts := hosts, zs_timeout := timeout\<rparr>"

definition SetServiceInfo :: "cstr \<Rightarrow> cstr \<Rightarrow> zk_server \<Rightarrow> zk_server" where
  "SetServiceInfo service_name node_name s = s\<lparr>zs_service_name := service_name, zs_data := node_name\<rparr>"

definition Publish :: "nat option list \<Rightarrow> zk_server \<Rightarrow> zk_server option" where
  "Publish inits s = map_option (\<lambda>h. s\<lparr>zs_zhandle := Some h, zs_connected := False\<rparr>) (connect_loop inits)"

definition zs_SetConnState :: "bool \<Rightarrow> zk_server \<Rightarrow> zk_server" where
  "zs_SetConnState state s = s\<lparr>zs_connected := state\<rparr>"

text \<open>
  \<open>Register\<close> gives the path of the node it asks for, if it asks for one. \<open>local_ip\<close> is the address
  \<open>GetLocalIpAddress\<close> reads from the handle's socket, and reading it without a handle is undefined.
\<close>

definition Register :: "cstr \<Rightarrow> zk_server \<Rightarrow> (cstr option \<times> zk_server) result" where
  "Register local_ip s =
     (if \<not> zs_connected s then Inr (None, s)
      else
        bind_result (substr (zs_data s) 0 9) (\<lambda>host.
          bind_result
            (if host = bytes ''localhost'' then
               if zs_zhandle s = None then Inl Undefined_behaviour
               else bind_result (substr_from (zs_data s) 9) (\<lambda>rest. Inr (s\<lparr>zs_data := local_ip @ rest\<rparr>))
             else Inr s)
            (\<lambda>s. Inr (Some (bytes ''/'' @ zs_service_name s @ bytes ''/'' @ zs_data s), s))))"

text \<open>The completion of \<open>zoo_acreate\<close>: whether \<open>Register\<close> is called again.\<close>

definition zooCreateCallback :: "int \<Rightarrow> bool" where
  "zooCreateCallback rc = (\<not> (rc = ZOK \<or> rc = ZNODEEXISTS))"

definition InitWatcher :: "cstr \<Rightarrow> nat option list \<Rightarrow> zoo_state \<Rightarrow> zk_server \<Rightarrow> (cstr option \<times> zk_server) option result" where
  "InitWatcher local_ip inits st s =
     (case st of
        Zoo_connected \<Rightarrow> bind_result (Register local_ip (zs_SetConnState True s)) (\<lambda>r. Inr (Some r))
      | Zoo_expired_session \<Rightarrow> Inr (map_option (\<lambda>s. (None, s)) (Publish inits s))
      | Zoo_connecting \<Rightarrow> Inr (Some (None, zs_SetConnState False s))
      | _ \<Rightarrow> Inr (Some (None, s)))"

section \<open>ZkClient\<close>

record zk_client =
  zc_connected :: bool
  zc_zhandle :: "nat option"
  zc_zk_hosts :: cstr
  zc_timeout :: int
  m_service_name_list :: "cstr list"
  m_all_serviceinfo_list :: "cstr \<rightharpoonup> cstr list"
  m_service_count :: "cstr \<rightharpoonup> nat"

definition ZkClient_new :: zk_client where
  "ZkClient_new = \<lparr>zc_connected = False, zc_zhandle = None, zc_zk_hosts = [], zc_timeout = 0, m_service_name_list = [],
     m_all_serviceinfo_list = Map.empty, m_service_count = Map.empty\<rparr>"

text \<open>\<open>std::map::insert\<close> leaves an entry that is there.\<close>

definition insert_absent :: "'k \<Rightarrow> 'v \<Rightarrow> ('k \<rightharpoonup> 'v) \<Rightarrow> ('k \<rightharpoonup> 'v)" where
  "insert_absent k v m = (case m k of None \<Rightarrow> m(k \<mapsto> v) | Some _ \<Rightarrow> m)"

definition ZkClient_Init :: "cstr \<Rightarrow> cstr \<Rightarrow> int \<Rightarrow> zk_client \<Rightarrow> zk_client" where
  "ZkClient_Init hosts services timeout s =
     (let names = Split services (bytes '','') (m_service_name_list s)
      in s\<lparr>zc_zk_hosts := hosts, zc_timeout := timeout, m_service_name_list := names,
           m_all_serviceinfo_list := fold (\<lambda>n. insert_absent n []) names (m_all_serviceinfo_list s),
           m_service_count := fold (\<lambda>n. insert_absent n 0) names (m_service_count s)\<rparr>)"

definition ConnectZK :: "nat option list \<Rightarrow> zk_client \<Rightarrow> zk_client option" where
  "ConnectZK inits s = map_option (\<lambda>h. s\<lparr>zc_zhandle := Some h, zc_connected := False\<rparr>) (connect_loop inits)"

definition zc_SetConnState :: "bool \<Rightarrow> zk_client \<Rightarrow> zk_client" where
  "zc_SetConnState state s = s\<lparr>zc_connected := state\<rparr>"

text \<open>
  \<open>children path\<close> are the results of the two calls of \<open>zoo_wget_children\<close>, which fill \<open>str_vec\<close> when
  they give \<open>ZOK\<close>; the result of the second is ignored, so that \<open>str_vec\<close> may be read uninitialised.
\<close>

definition store_list :: "cstr \<Rightarrow> cstr list \<Rightarrow> zk_client \<Rightarrow> zk_client option result" where
  "store_list path str_vec s =
     (if str_vec = [] then Inr (Some s)
      else bind_result (substr_from path 1) (\<lambda>name.
        Inr (Some (s\<lparr>m_all_serviceinfo_list := (m_all_serviceinfo_list s)(name \<mapsto> str_vec)\<rparr>))))"

definition Update_path :: "nat option list \<Rightarrow> (cstr \<Rightarrow> (int \<times> cstr list) \<times> (int \<times> cstr list)) \<Rightarrow> cstr \<Rightarrow> zk_client \<Rightarrow>
    zk_client option result" where
  "Update_path inits children path s =
     (case (if zc_zhandle s = None \<or> \<not> zc_connected s then ConnectZK inits s else Some s) of
        None \<Rightarrow> Inr None
      | Some s \<Rightarrow>
          (case children path of ((ret, str_vec), (ret', str_vec')) \<Rightarrow>
             if ret \<noteq> ZOK \<and> ret \<noteq> ZNONODE then Inr (Some s)
             else if ret = ZNONODE then
               if ret' \<noteq> ZOK then Inl Undefined_behaviour else store_list path str_vec' s
             else store_list path str_vec s))"

fun Update_names :: "nat option list \<Rightarrow> (cstr \<Rightarrow> (int \<times> cstr list) \<times> (int \<times> cstr list)) \<Rightarrow> cstr list \<Rightarrow> zk_client \<Rightarrow>
    zk_client option result" where
  "Update_names inits children [] s = Inr (Some s)"
| "Update_names inits children (name # names) s =
     bind_result (Update_path inits children (bytes ''/'' @ name) s) (\<lambda>r.
       case r of None \<Rightarrow> Inr None | Some s \<Rightarrow> Update_names inits children names s)"

definition Update :: "nat option list \<Rightarrow> (cstr \<Rightarrow> (int \<times> cstr list) \<times> (int \<times> cstr list)) \<Rightarrow> zk_client \<Rightarrow>
    zk_client option result" where
  "Update inits children s = Update_names inits children (m_service_name_list s) s"

definition ServiceWatcher :: "nat option list \<Rightarrow> (cstr \<Rightarrow> (int \<times> cstr list) \<times> (int \<times> cstr list)) \<Rightarrow> zoo_event \<Rightarrow> zoo_state \<Rightarrow>
    cstr \<Rightarrow> zk_client \<Rightarrow> zk_client option result" where
  "ServiceWatcher inits children ev st path s =
     (case st of
        Zoo_connected \<Rightarrow>
          (let s = zc_SetConnState True s in
           case ev of
             Zoo_session_event \<Rightarrow> Update inits children s
           | Zoo_child_event \<Rightarrow> Update_path inits children path s
           | Zoo_other_event \<Rightarrow> Inr (Some s))
      | Zoo_expired_session \<Rightarrow> Inr (ConnectZK inits s)
      | Zoo_connecting \<Rightarrow> Inr (Some (zc_SetConnState False s))
      | _ \<Rightarrow> Inr (Some s))"

definition COUNT_MAX :: nat where "COUNT_MAX = 99999999"

text \<open>A node name \<open>ip:port\<close>.\<close>

definition node_address :: "cstr \<Rightarrow> (int \<times> cstr) option" where
  "node_address server_info =
     (case str_find server_info (bytes '':'') 0 of
        None \<Rightarrow> None
      | Some pos \<Rightarrow> Some (atoi (drop (pos + 1) server_info), take pos server_info))"

definition GetServerInfo :: "cstr \<Rightarrow> zk_client \<Rightarrow> (int \<times> (int \<times> cstr) option) \<times> zk_client" where
  "GetServerInfo service_name s =
     (case m_all_serviceinfo_list s service_name of
        None \<Rightarrow> ((- 1, None), s)
      | Some server_infos \<Rightarrow>
          let count = (case m_service_count s service_name of None \<Rightarrow> 0 | Some n \<Rightarrow> n) + 1;
              count = (if COUNT_MAX < count then 0 else count);
              s = s\<lparr>m_service_count := (m_service_count s)(service_name \<mapsto> count)\<rparr>
          in if length server_infos = 0 then ((- 1, None), s)
             else case node_address (server_infos ! (count mod length server_infos)) of
                    None \<Rightarrow> ((- 1, None), s)
                  | Some a \<Rightarrow> ((0, Some a), s))"

definition GetAllServerInfos :: "cstr \<Rightarrow> zk_client \<Rightarrow> int \<times> cstr list option" where
  "GetAllServerInfos service_name s =
     (case m_all_serviceinfo_list s service_name of None \<Rightarrow> (- 1, None) | Some l \<Rightarrow> (0, Some l))"

fun server_calls :: "nat \<Rightarrow> cstr \<Rightarrow> zk_client \<Rightarrow> (int \<times> (int \<times> cstr) option) list \<times> zk_client" where
  "server_calls 0 service_name s = ([], s)"
| "server_calls (Suc n) service_name s =
     (case GetServerInfo service_name s of (r, s) \<Rightarrow> (case server_calls n service_name s of (rs, s) \<Rightarrow> (r # rs, s)))"

section \<open>Names of nodes\<close>

lemma find_colon: "58 \<notin> set ip \<Longrightarrow> str_find (ip @ 58 # r) [58] i = Some (length ip)" if "i \<le> length ip"
  using that
proof (induction "length ip - i" arbitrary: i)
  case 0
  then show ?case by (subst str_find.simps) simp
next
  case (Suc d)
  then have i: "i < length ip" by simp
  have "take 1 (drop i (ip @ 58 # r)) = [ip ! i]" using i by (simp add: take_Suc hd_drop_conv_nth nth_append)
  moreover have "ip ! i \<noteq> 58" using i Suc.prems by (metis nth_mem)
  ultimately show ?case using Suc i by (subst str_find.simps) simp
qed

text \<open>The address of a node that a server registered with a port number.\<close>

lemma node_address_print:
  assumes "58 \<notin> set ip" "p < 2 ^ 31"
  shows "node_address (ip @ [58] @ dec_digits p) = Some (int p, ip)"
proof -
  have "atoi (dec_digits p) = int p" using atoi_digits [of "dec_digits p"] assms(2) dec_digits_digits by simp
  with find_colon [of 0 ip "dec_digits p"] assms(1) show ?thesis by (simp add: node_address_def)
qed

lemma Register_node:
  assumes "zs_connected s" "zs_zhandle s = Some h" "zs_service_name s = name" "zs_data s = bytes ''localhost:'' @ dec_digits p"
  shows "\<exists>s'. Register local_ip s = Inr (Some ([47] @ name @ [47] @ local_ip @ [58] @ dec_digits p), s')"
  using assms by (simp add: Register_def)

section \<open>Round robin\<close>

lemma GetServerInfo_nth:
  assumes "m_all_serviceinfo_list s service = Some infos" "infos \<noteq> []" "m_service_count s service = Some c" "c < COUNT_MAX"
    "map node_address infos = map Some addrs"
  shows "GetServerInfo service s =
     ((0, Some (addrs ! (Suc c mod length addrs))), s\<lparr>m_service_count := (m_service_count s)(service \<mapsto> Suc c)\<rparr>)"
proof -
  have l: "length addrs = length infos" using assms(5) by (metis length_map)
  have i: "Suc c mod length infos < length infos" using assms(2) by simp
  have "node_address (infos ! (Suc c mod length infos)) = Some (addrs ! (Suc c mod length infos))"
    using assms(5) i l by (metis nth_map)
  with assms l show ?thesis by (simp add: GetServerInfo_def)
qed

lemma server_calls_rotate:
  assumes "m_all_serviceinfo_list s service = Some infos" "infos \<noteq> []" "m_service_count s service = Some c"
    "c + n \<le> COUNT_MAX" "map node_address infos = map Some addrs"
  shows "\<exists>s'. server_calls n service s = (map (\<lambda>k. (0, Some (addrs ! ((Suc c + k) mod length addrs)))) [0..<n], s')"
  using assms(1,3,4)
proof (induction n arbitrary: s c)
  case (Suc n)
  let ?s = "s\<lparr>m_service_count := (m_service_count s)(service \<mapsto> Suc c)\<rparr>"
  have g: "GetServerInfo service s = ((0, Some (addrs ! (Suc c mod length addrs))), ?s)"
    by (rule GetServerInfo_nth [OF Suc.prems(1) assms(2) Suc.prems(2) _ assms(5)]) (use Suc.prems(3) in simp)
  have "\<exists>s'. server_calls n service ?s = (map (\<lambda>k. (0, Some (addrs ! ((Suc (Suc c) + k) mod length addrs)))) [0..<n], s')"
    by (rule Suc.IH) (use Suc.prems in simp_all)
  moreover have "[0..<Suc n] = 0 # map Suc [0..<n]" by (simp add: upt_conv_Cons map_Suc_upt)
  ultimately show ?case using g by (auto simp: comp_def)
qed simp

lemma rotate_nths: "map (\<lambda>k. xs ! ((m + k) mod length xs)) [0..<length xs] = rotate m xs"
  by (rule nth_equalityI) (simp_all add: nth_rotate add.commute)

lemma Split_single:
  assumes "44 \<notin> set name" "name \<noteq> []"
  shows "Split name (bytes '','') [] = [name]"
proof -
  have "str_find name [44] 0 = None"
  proof (cases "str_find name [44] 0")
    case (Some j)
    from str_find_SomeD [OF this] have "j < length name" "take 1 (drop j name) = [44]" by auto
    then have "44 \<in> set name" by (metis hd_drop_conv_nth list.sel(1) list.size(3) nth_mem take_eq_Nil hd_take zero_less_one)
    with assms(1) show ?thesis by simp
  qed
  with assms(2) show ?thesis by (simp add: Split_def Split_loop.simps [of name])
qed

text \<open>
  \<open>GetServerInfo\<close> hands out the servers of a service in turn: as many calls as there are servers give
  the whole list once, starting after the server of the last call, unless the counter is reset meanwhile.
\<close>

lemma server_calls_all:
  assumes "m_all_serviceinfo_list s service = Some infos" "infos \<noteq> []" "m_service_count s service = Some c"
    "c + length infos \<le> COUNT_MAX" "map node_address infos = map Some addrs"
  shows "fst (server_calls (length infos) service s) = map (\<lambda>a. (0, Some a)) (rotate (Suc c) addrs)"
proof -
  have l: "length infos = length addrs" using assms(5) by (metis length_map)
  have "fst (server_calls (length infos) service s) =
      map (\<lambda>a. (0, Some a)) (map (\<lambda>k. addrs ! ((Suc c + k) mod length addrs)) [0..<length addrs])"
    using server_calls_rotate [OF assms] by (auto simp: l comp_def)
  then show ?thesis unfolding rotate_nths .
qed

lemma Init_single:
  "44 \<notin> set name \<Longrightarrow> name \<noteq> [] \<Longrightarrow> ZkClient_Init hosts name timeout ZkClient_new =
     \<lparr>zc_connected = False, zc_zhandle = None, zc_zk_hosts = hosts, zc_timeout = timeout, m_service_name_list = [name],
      m_all_serviceinfo_list = [name \<mapsto> []], m_service_count = [name \<mapsto> 0]\<rparr>"
  by (simp add: ZkClient_Init_def Split_single ZkClient_new_def insert_absent_def del: bytes_simps)

lemma Update_path_ok:
  assumes "zc_zhandle s = Some h" "zc_connected s" "children (47 # name) = ((ZOK, kids), x)" "kids \<noteq> []"
  shows "Update_path inits children (47 # name) s =
     Inr (Some (s\<lparr>m_all_serviceinfo_list := (m_all_serviceinfo_list s)(name \<mapsto> kids)\<rparr>))"
  using assms by (cases x) (simp add: Update_path_def store_list_def ZOK_def ZNONODE_def)

section \<open>Properties\<close>

text \<open>
  C18. Registration, the watcher and the client fit together: servers that registered \<open>localhost:port\<close>
  under a service, once ZooKeeper lists their nodes and the client's session is connected, are found by
  the client with the address and the port of each, every one once in as many calls as there are servers.
\<close>

theorem zk_discovery:
  assumes servers: "servers \<noteq> []" "length servers \<le> COUNT_MAX" "\<forall>(ip, p)\<in>set servers. 58 \<notin> set ip \<and> p < 2 ^ 31"
    and registered: "list_all2 (\<lambda>(ip, p) node. \<exists>h s s'. Register ip s = Inr (Some node, s') \<and> zs_connected s \<and>
       zs_zhandle s = Some h \<and> zs_service_name s = name \<and> zs_data s = bytes ''localhost:'' @ dec_digits p) servers nodes"
    and listed: "children ([47] @ name) = ((ZOK, kids), x)" "mset (map (\<lambda>k. [47] @ name @ [47] @ k) kids) = mset nodes"
    and name: "44 \<notin> set name" "name \<noteq> []"
  shows "\<exists>s s'. ConnectZK [Some h] (ZkClient_Init hosts name timeout ZkClient_new) = Some s \<and>
     ServiceWatcher [] children Zoo_session_event Zoo_connected [] s = Inr (Some s') \<and>
     mset (fst (server_calls (length servers) name s')) = mset (map (\<lambda>(ip, p). (0, Some (int p, ip))) servers)"
proof -
  let ?entry = "\<lambda>(ip, p). ip @ [58] @ dec_digits p" and ?pre = "[47] @ name @ [47]"
  have "nodes = map (\<lambda>x. ?pre @ ?entry x) servers"
    using registered
  proof (induction rule: list_all2_induct)
    case (Cons x xs y ys)
    obtain ip p where x: "x = (ip, p)" by (cases x)
    from Cons(1) obtain h s s' where "Register ip s = Inr (Some y, s')" "zs_connected s" "zs_zhandle s = Some h"
      "zs_service_name s = name" "zs_data s = bytes ''localhost:'' @ dec_digits p" unfolding x by blast
    with Register_node [of s h name p ip] have "y = ?pre @ ?entry x" by (auto simp: x)
    with Cons.IH show ?case by simp
  qed simp
  with listed(2) have "mset (map (\<lambda>k. ?pre @ k) kids) = mset (map (\<lambda>x. ?pre @ ?entry x) servers)" by simp
  then have "mset (map (drop (length ?pre)) (map (\<lambda>k. ?pre @ k) kids)) =
      mset (map (drop (length ?pre)) (map (\<lambda>x. ?pre @ ?entry x) servers))" unfolding mset_map by (rule arg_cong)
  then have k: "mset kids = mset (map ?entry servers)" by (simp add: comp_def)
  define addrs where "addrs = map (the \<circ> node_address) kids"
  have na: "node_address (?entry x) = Some (int (snd x), fst x)" if "x \<in> set servers" for x
    using node_address_print [of "fst x" "snd x"] that servers(3) by (auto split: prod.splits)
  have "set kids = ?entry ` set servers" using mset_eq_setD [OF k] by simp
  then have ad: "map node_address kids = map Some addrs" using na by (auto simp: addrs_def)
  have "mset addrs = mset (map (the \<circ> node_address) (map ?entry servers))"
    unfolding addrs_def mset_map k ..
  also have "map (the \<circ> node_address) (map ?entry servers) = map (\<lambda>(ip, p). (int p, ip)) servers"
    using na by (auto split: prod.splits)
  finally have ma: "mset addrs = mset (map (\<lambda>(ip, p). (int p, ip)) servers)" .
  have l: "length kids = length servers" using k by (metis length_map size_mset)
  then have ne: "kids \<noteq> []" using servers(1) by auto
  let ?s = "(ZkClient_Init hosts name timeout ZkClient_new)\<lparr>zc_zhandle := Some h, zc_connected := False\<rparr>"
  let ?s1 = "zc_SetConnState True ?s"
  let ?s' = "?s1\<lparr>m_all_serviceinfo_list := (m_all_serviceinfo_list ?s1)(name \<mapsto> kids)\<rparr>"
  note init = Init_single [OF name]
  have c: "ConnectZK [Some h] (ZkClient_Init hosts name timeout ZkClient_new) = Some ?s" by (simp add: ConnectZK_def)
  have "Update_path [] children (47 # name) ?s1 = Inr (Some ?s')"
    by (rule Update_path_ok [where h = h and x = x]) (use listed(1) ne in \<open>simp_all add: zc_SetConnState_def\<close>)
  moreover have "m_service_name_list ?s1 = [name]" by (simp add: zc_SetConnState_def init)
  ultimately have w: "ServiceWatcher [] children Zoo_session_event Zoo_connected [] ?s = Inr (Some ?s')"
    by (simp add: ServiceWatcher_def Update_def Let_def)
  have "fst (server_calls (length kids) name ?s') = map (\<lambda>a. (0, Some a)) (rotate (Suc 0) addrs)"
    by (rule server_calls_all [OF _ ne _ _ ad]) (use l servers(2) in \<open>simp_all add: zc_SetConnState_def init\<close>)
  then have "mset (fst (server_calls (length servers) name ?s')) = image_mset (\<lambda>a. (0, Some a)) (mset addrs)"
    using l by (cases addrs) simp_all
  with c w ma show ?thesis by (intro exI [of _ ?s] exI [of _ ?s']) (simp add: image_mset.compositionality comp_def split_def)
qed

definition two_nodes :: "cstr list" where
  "two_nodes = map (\<lambda>ip. bytes ''10.0.0.'' @ [ip] @ [58] @ dec_digits 80) [49, 50]"

lemma registered_node:
  "\<exists>h s s'. Register ip s = Inr (Some ([47] @ name @ [47] @ ip @ [58] @ dec_digits p), s') \<and> zs_connected s \<and>
     zs_zhandle s = Some h \<and> zs_service_name s = name \<and> zs_data s = bytes ''localhost:'' @ dec_digits p"
proof -
  let ?s = "\<lparr>zs_connected = True, zs_zhandle = Some 1, zs_zk_hosts = [], zs_timeout = 0, zs_service_name = name,
    zs_data = bytes ''localhost:'' @ dec_digits p\<rparr>"
  obtain s' where "Register ip ?s = Inr (Some ([47] @ name @ [47] @ ip @ [58] @ dec_digits p), s')"
    using Register_node [of ?s 1 name p ip] by (auto simp del: bytes_simps)
  then show ?thesis
    by (intro exI [of _ 1] exI [of _ ?s] exI [of _ s'] conjI) (simp_all del: bytes_simps)
qed

theorem zk_discovery_witness:
  "\<exists>s s'. ConnectZK [Some 1] (ZkClient_Init [] (bytes ''pay'') 10 ZkClient_new) = Some s \<and>
     ServiceWatcher [] (\<lambda>path. ((ZOK, two_nodes), (ZOK, []))) Zoo_session_event Zoo_connected [] s = Inr (Some s') \<and>
     mset (fst (server_calls (Suc 1) (bytes ''pay'') s')) =
       {#(0, Some (80, bytes ''10.0.0.1'')), (0, Some (80, bytes ''10.0.0.2''))#}"
proof -
  let ?servers = "[(bytes ''10.0.0.1'', 80), (bytes ''10.0.0.2'', 80)] :: (cstr \<times> nat) list"
  let ?nodes = "map (\<lambda>k. [47] @ bytes ''pay'' @ [47] @ k) two_nodes"
  have "list_all2 (\<lambda>(ip, p) node. \<exists>h s s'. Register ip s = Inr (Some node, s') \<and> zs_connected s \<and>
      zs_zhandle s = Some h \<and> zs_service_name s = bytes ''pay'' \<and> zs_data s = bytes ''localhost:'' @ dec_digits p) ?servers ?nodes"
    using registered_node [of "bytes ''10.0.0.1''" "bytes ''pay''" 80] registered_node [of "bytes ''10.0.0.2''" "bytes ''pay''" 80]
    by (simp add: two_nodes_def)
  from zk_discovery [OF _ _ _ this, of "\<lambda>path. ((ZOK, two_nodes), (ZOK, []))" two_nodes "(ZOK, [])" 1 "[]" 10]
  show ?thesis by (simp add: COUNT_MAX_def add_mset_commute)
qed

end
