(* ===== verification/Spec2Isabelle.thy ===== *)
theory Spec2Isabelle
  imports String_Utility Base64_Codec Xxtea Cups8583 Blocking_Queue Sync_Comm Min_Heap Event_Tagging_Props
    Block_Crypto_Props Connection_Pool Async_Logging Message_Handles Redis_Pool Redis_Cluster Redis_Lock
    Redis_Rename Tcp_Comm_Props Database_Props Log_Props Packer_Props Zmq_Props Ev_Buffer_Lines Ev_Io_Props App_Conf Thread_Pool Object_Pools Mq_Server Mq_Client Zk_Services
begin

text \<open>
  A verification library of lspf, a C++ framework for payment services.

  \<^bold>\<open>The program.\<close> A service built on lspf receives ISO 8583 messages, looks up or keeps the session of
  a request, calls other services over pooled connections or message queues, computes MACs and PIN
  blocks and logs what it does. Its parts, all under \<open>source/\<close>, call each other like this: the message
  classes of \<open>transport/msg8583\<close> use \<open>common/string_utility\<close>; \<open>transport/sync_comm\<close> turns an
  asynchronous queue into synchronous calls with the help of \<open>transport/session_cache\<close>;
  \<open>transport/async_mq_server\<close> and \<open>async_mq_client\<close> are the two ends of a message queue, \<open>zk_server\<close> and
  \<open>zk_client\<close> publish and find services; \<open>rpc\<close> lends connections; \<open>crypto_alg\<close> wraps OpenSSL and has
  its own XXTEA over \<open>common/base64\<close>; \<open>common/blocking_queue\<close> connects threads and
  \<open>common/thread_pool\<close> runs tasks on them; \<open>log/log\<close> and \<open>log/async_logging\<close> format log lines and write them to files in a thread of their own; \<open>message\<close> gives out handles for message drivers; \<open>redis_client\<close> talks to a redis cluster;
  \<open>utils/tcp_comm\<close> sends messages over TCP; \<open>database\<close> runs statements on pooled connections.
  The TCP sample brings its own libevent (\<open>sample/tcp/libevent\<close>), whose timer heap, buffers and tagged
  encoding are modelled too.

  \<^bold>\<open>Theories.\<close>
  \<^item> \<open>Prelude\<close>: bytes, \<open>std::string\<close> as a list of bytes, the C library functions the sources use,
    and the locale \<open>data_refinement\<close> (a concrete data type behaves as an abstract one on every
    sequence of legal operations).
  \<^item> \<open>String_Utility\<close> (\<open>common/string_utility.cpp\<close>): one definition per function. The BCD conversions
    are inverse to each other, \<open>Split\<close> and \<open>string_replace\<close> meet their specifications.
  \<^item> \<open>Base8583\<close>, \<open>Field_Codec\<close>, \<open>Iso8583\<close>, \<open>Cups8583\<close> (\<open>transport/msg8583\<close>): the message object is
    the record \<open>base8583\<close>; \<open>Pack\<close>, \<open>Unpack\<close>, \<open>encoding\<close> and \<open>decoding\<close> are definitions of the
    same names (with the prefix \<open>cups_\<close> in \<open>Cups8583\<close>). \<open>Iso8583\<close> is the three classes with the same code, which
    differ in the record \<open>variant8583\<close>. The locale \<open>field_codec\<close> is what \<open>Pack\<close> and \<open>Unpack\<close> need of
    a field encoding, \<open>iso_variant\<close> what they need of the tables of a class; both are interpreted on
    the code's own definitions. What is packed is unpacked. \<open>assign\<close>, \<open>erase\<close> and \<open>substr\<close> throw in the model as in C++;
    that \<open>Unpack\<close> of the three classes returns for every input rests on the checks before them. The
    places where a CUPS message makes it throw, or where it accepts what it should not, are stated exactly.
  \<^item> \<open>Packer_Field\<close>, \<open>Packer_Message\<close>, \<open>Packer_Props\<close> (\<open>tools/iso8583field.cpp\<close>, \<open>iso8583.cpp\<close>): the stand-alone packer, with the
    missing conversions \<open>Ccommon\<close> as the record \<open>ccommon\<close>. Values that are set and packed are got after unpacking; four
    ways in which messages or lengths break it are stated.
  \<^item> \<open>Zmq_Driver\<close>, \<open>Zmq_Props\<close> (\<open>message/zmq_driver.cpp\<close>): the driver over ZeroMQ, of which the functions are the record \<open>zmq\<close> and the
    documented behaviour that is relied on is \<open>zmq_ok\<close>: whole messages, fair queueing, sends that may fail, arrivals at any time. Over any number of rounds
    requests are delivered once, in order for each sender and with its identity, and answers that were accepted go to
    the one who asked.
  \<^item> \<open>Base64_Codec\<close> (\<open>common/base64.cpp\<close>) and \<open>Xxtea\<close> (\<open>crypto_alg/xxtea_crypto.cpp\<close>): round trips,
    and the sources for which the buffers, sized in 32-bit arithmetic, are large enough.
  \<^item> \<open>Block_Crypto\<close>, \<open>Block_Crypto_Props\<close> (\<open>crypto_alg/des_crypto.cpp\<close>, \<open>aes_crypto.cpp\<close>): padding, the
    modes, MACs and PIN conversion over the record \<open>openssl\<close> of the functions of OpenSSL, with their
    documented behaviour as the predicate \<open>openssl_ok\<close>. Round trips; the X9.9 and X9.19 codes are
    CBC codes; converted PIN blocks hold the PIN.
  \<^item> \<open>Blocking_Queue\<close> (\<open>common/blocking_queue.h\<close>): each critical section is a function, the threads with
    their condition variables are the step relation \<open>bq_step\<close>. Every run is a run of a sequential
    queue, no wake-up is lost, elements leave in the order they came.
  \<^item> \<open>Session_Cache\<close> (\<open>transport/session_cache.h\<close>): map and list with iterators as the record
    \<open>session_cache\<close>; no operation uses a dangling iterator, and all but \<open>PopFirstSession\<close> return. The locale \<open>session_store\<close>, interpreted on
    the cache, is what clients rely on.
  \<^item> \<open>Sync_Comm\<close> (\<open>transport/sync_comm.cpp\<close>): client, receiver and timer threads over that interface.
    A client gets the response to its own request, and none is left waiting while there are at most
    100 sessions.
  \<^item> \<open>Thread_Pool\<close> (\<open>common/thread_pool.cpp\<close>): workers, \<open>Terminate\<close> and clients as interleaved steps. A waiting
    \<open>Terminate\<close> returns after every task has been called that was added before it. \<open>Object_Pools\<close> (\<open>common/object_pool.h\<close>,
    \<open>message_pool.h\<close>): lent objects are not shared.
  \<^item> \<open>Mq_Server\<close>, \<open>Mq_Client\<close> (\<open>transport/async_mq_server.cpp\<close>, \<open>async_mq_client.cpp\<close>): driver callback, sending
    thread and application over the blocking queue and the interface \<open>session_store\<close>. Answers go to the
    sender of the request they belong to; messages keep their order.
  \<^item> \<open>Zk_Services\<close> (\<open>transport/zk_server.cpp\<close>, \<open>zk_client.cpp\<close>): registration, watchers, lists of servers and
    round robin, with the functions of ZooKeeper as arguments. What is registered is found, and every
    server is called in turn.
  \<^item> \<open>Tcp_Socket\<close>, \<open>Tcp_Comm\<close>, \<open>Tcp_Comm_Props\<close> (\<open>utils/tcp_comm/tcp_comm.cpp\<close>): sockets, one request with its
    response, and messages with a length in front over connections that stay open. The system calls are the
    record \<open>os\<close>; what TCP and epoll promise are the predicates \<open>send_ok\<close>, \<open>recv_ok\<close> and \<open>epoll_ok\<close>. Messages come out as they went
    in; longer ones than the array of \<open>Read\<close> overwrite memory.
  \<^item> \<open>Database\<close>, \<open>Database_Props\<close> (\<open>database\<close>): pools of connections and commands over the record \<open>occi\<close> of the
    functions of Oracle OCCI, any of which may throw. A command never uses a null pointer, and a connection it does not give
    back is the trace of an operation that failed: there is none as long as statements can be made and connections terminated; a run shows the
    connection that is lost otherwise.
  \<^item> \<open>Time_Utility\<close>, \<open>App_Conf\<close> (\<open>common/time_utility.cpp\<close>, \<open>app_conf.cpp\<close>): times are read as they were printed;
    the configuration holds the items of the loaded tree.
  \<^item> \<open>Connection_Pool\<close> (\<open>rpc\<close>): counting and exclusiveness of lent connections as an invariant.
  \<^item> \<open>Async_Logging\<close> (\<open>log/async_logging.cpp\<close>): the double buffer refines a list of lines.
  \<^item> \<open>Log_File\<close>, \<open>Log_Front\<close>, \<open>Log_Props\<close> (\<open>log/log.cpp\<close>, \<open>common/file_util.cpp\<close>): directories, log files and their
    rolling, settings and lines. The functions on files are the record \<open>file_api\<close>, with \<open>files_ok\<close> and \<open>renames_ok\<close> for
    what is relied on. Together with \<open>Async_Logging\<close>: what threads write is in the files, in order, across rolls that are at least a second apart;
    the ways in which lines get lost or memory is overwritten are theorems.
  \<^item> \<open>Message_Handles\<close> (\<open>message/message.cpp\<close>): handles are unique.
  \<^item> \<open>Redis_Slot\<close>, \<open>Redis_Reply\<close>, \<open>Redis_Server\<close>, \<open>Redis_Pool\<close>, \<open>Redis_Client\<close>, \<open>Redis_Cluster\<close>,
    \<open>Redis_Pipeline\<close>, \<open>Redis_Commands\<close>, \<open>Redis_Rename\<close> (\<open>redis_client/redisclient.cpp\<close>): slots, commands
    and replies, connections, the servers of a cluster, pipelines, the methods for the commands.
    The functions of hiredis are the record \<open>hiredis\<close> over a world that is not looked into. The table-driven
    slot function is the bitwise CRC; replies other than arrays of integers are fetched as they were sent; connections are not shared while
    at most one is closed; the binary search in the slot table finds the region of a slot;
    the replies of a pipeline come in the order of its commands, so that \<open>Mget\<close> gives the values of its keys; \<open>Rename\<close> between servers moves a key.
  \<^item> \<open>Redis_Lock\<close> (\<open>redis_client/redislock.cpp\<close>): clients, clock and network as a step relation. The locale
    \<open>key_store\<close> is what the lock needs of the store; the redis client is interpreted as one under the
    documented behaviour of redis (\<open>hiredis_ok\<close>), whatever is lost on the network and sent again. Mutual
    exclusion holds under the timing \<open>timely\<close>, and a run shows that it fails without.
  \<^item> \<open>Min_Heap\<close> (\<open>minheap-internal.h\<close>): the heap is a priority queue (locale \<open>timer_queue\<close>).
  \<^item> \<open>Ev_Buffer_Search\<close>, \<open>Ev_Search_Props\<close>, \<open>Ev_Buffer_Lines\<close> (\<open>buffer.c\<close>): searching, reading lines and looking at
    data. A search finds the first match in the bytes of the buffer; the lines a client reads do not depend on how the stream is cut,
    except with \<open>EVBUFFER_EOL_ANY\<close>.
  \<^item> \<open>Ev_Buffer_Io\<close>, \<open>Ev_Io_Props\<close> (\<open>buffer.c\<close>): reserved space, reading and writing sockets, with the answers of the system as
    arguments. No byte is lost or moved on a connection; two sequences of calls that fail are stated.
  \<^item> \<open>Ev_Buffer\<close>, \<open>Ev_Buffer_Props\<close>, \<open>Ev_Buffer_Queue\<close> (\<open>buffer.c\<close>): chains of memory; a buffer
    refines a byte string (interpretation \<open>evq\<close> of \<open>data_refinement\<close>).
  \<^item> \<open>Event_Tagging\<close>, \<open>Event_Tagging_Props\<close> (\<open>event_tagging.c\<close>): streams of tagged items are read back
    through the interface of the byte queue.

  \<^bold>\<open>Errors.\<close> An exception, a failed assertion, a use of memory that is not there and undefined
  behaviour are values (\<open>Inl\<close>) of the result; a return code is the returned integer. Objects keep what
  was written to them before an early return.

  \<^bold>\<open>Bounds.\<close> \<open>string_replace\<close> is a partial function on options, so that a loop that does not end is
  \<open>None\<close>. The round count of XXTEA is at most $6 + 52/n \le 32$ for $n \ge 2$ words, hence the fuel of
  33 for the loop that runs \<open>sum\<close> down; its strings have at most $2^{30}$ bytes. Base64 encodes at most 1610612733 bytes. The contents of a CUPS message are
  shorter than 9000 bytes because of its length field of four digits. The heap holds fewer than
  $2^{31}$ events, sizes of buffers stay below $2^{62}$, tagged payloads below $2^{31}$ and data to be
  encrypted below $2^{32}$ bytes, session ids repeat after 50000000 requests, where
  the counters of the code would wrap. Each call of a buffer
  operation allocates at most once; the argument \<open>mem\<close> says whether that succeeds.

  \<^bold>\<open>Not modelled.\<close> Code that only passes calls on to libraries that are not in the repository (ActiveMQ, thrift sockets, RSA and X509 of OpenSSL); generated thrift
  services; the parsers of configuration files, process control; the copies \<open>log/bak\<close>,
  \<open>tcp_comm2\<close>; tests and samples; of libevent the event loop, DNS, HTTP and
  bufferevents, and of \<open>buffer.c\<close> file segments, \<open>printf\<close> and locks. \<open>transport/future_session.h\<close> does not
  compile.

  \<^bold>\<open>Plan.\<close> The remaining parts in the order in which they are to be added: the ActiveMQ driver, files in evbuffers.
\<close>

end
